(* ===== verification/Prelude.thy ===== *)
theory Prelude
  imports Main "HOL-Library.Word"
begin

unbundle bit_operations_syntax

text \<open>
  The prelude of the development: the machine types of the C code, undefined behaviour
  as a value, the array loops the data structures share, and the generic facts on words,
  lists and maps that the component theories use.

  Pointers are 64-bit words and \<open>NULL\<close> is \<open>0\<close>. A function that can read through a bad
  pointer, index outside an array or fail a plain \<open>assert\<close> returns a value of
  \<open>'a res\<close>: \<open>Inl\<close> names what went wrong. The macro \<open>FDB_ASSERT\<close> of
  src/src/common/platform.h is compiled out unless FDB_ENABLE_ASSERTS is set, which the
  default build does not do, so its conditions are hypotheses of theorems and not
  branches of the definitions.
\<close>

section \<open>Machine types\<close>

type_synonym u8 = "8 word"
type_synonym u16 = "16 word"
type_synonym u32 = "32 word"
type_synonym u64 = "64 word"
type_synonym ptr = "64 word"
type_synonym entity_id_t = u32

abbreviation NULL :: ptr where "NULL \<equiv> 0"

section \<open>Undefined behaviour as a value\<close>

datatype ub =
    NullDeref        \<comment> \<open>a read or write through NULL\<close>
  | BadPointer       \<comment> \<open>through a pointer to no live object of that type\<close>
  | OutOfBounds      \<comment> \<open>an array index outside the array\<close>
  | DivByZero
  | AssertFail       \<comment> \<open>a plain \<open>assert\<close> or FDB\_PERMA\_ASSERT that aborts\<close>
  | OutOfFuel        \<comment> \<open>the model's recursion bound was reached\<close>

type_synonym 'a res = "ub + 'a"

fun bind_res :: "'a res \<Rightarrow> ('a \<Rightarrow> 'b res) \<Rightarrow> 'b res" where
  "bind_res (Inl e) f = Inl e"
| "bind_res (Inr x) f = f x"

named_theorems res_simps \<open>inversion of bind\<close>

lemma bind_res_Inr [res_simps]: "bind_res m f = Inr y \<longleftrightarrow> (\<exists>x. m = Inr x \<and> f x = Inr y)"
  by (cases m) auto

lemma bind_res_Inl [res_simps]:
  "bind_res m f = Inl e \<longleftrightarrow> m = Inl e \<or> (\<exists>x. m = Inr x \<and> f x = Inl e)"
  by (cases m) auto

lemma bind_res_assoc: "bind_res (bind_res m f) g = bind_res m (\<lambda>x. bind_res (f x) g)"
  by (cases m) auto

lemma bind_res_cong [fundef_cong]:
  "m = m' \<Longrightarrow> (\<And>x. m' = Inr x \<Longrightarrow> f x = f' x) \<Longrightarrow> bind_res m f = bind_res m' f'"
  by (cases m') auto

text \<open>Array access with the bounds written out.\<close>

definition rd :: "'a list \<Rightarrow> nat \<Rightarrow> 'a res" where
  "rd a i = (if i < length a then Inr (a ! i) else Inl OutOfBounds)"

definition wr :: "'a list \<Rightarrow> nat \<Rightarrow> 'a \<Rightarrow> 'a list res" where
  "wr a i x = (if i < length a then Inr (a[i := x]) else Inl OutOfBounds)"

lemma rd_in [simp]: "i < length a \<Longrightarrow> rd a i = Inr (a ! i)"
  by (simp add: rd_def)

lemma wr_in [simp]: "i < length a \<Longrightarrow> wr a i x = Inr (a[i := x])"
  by (simp add: wr_def)

lemma rd_out [simp]: "length a \<le> i \<Longrightarrow> rd a i = Inl OutOfBounds"
  by (simp add: rd_def)

lemma wr_out [simp]: "length a \<le> i \<Longrightarrow> wr a i x = Inl OutOfBounds"
  by (simp add: wr_def)

section \<open>The shifting loops of fixed arrays\<close>

text \<open>
  \<open>for(i = n-1; i > idx; --i) a[i] = a[i-1]\<close> and
  \<open>for(i = idx; i < n-1; ++i) a[i] = a[i+1]\<close>, over an array of length \<open>n\<close>.
\<close>

definition shift_up :: "'a list \<Rightarrow> nat \<Rightarrow> 'a list" where
  "shift_up a idx = fold (\<lambda>i a. a[i := a ! (i - 1)]) (rev [Suc idx..<length a]) a"

definition shift_down :: "'a list \<Rightarrow> nat \<Rightarrow> 'a list" where
  "shift_down a idx = fold (\<lambda>i a. a[i := a ! (i + 1)]) [idx..<length a - 1] a"

lemma length_shift_up [simp]: "length (shift_up a idx) = length a"
proof -
  have "length (fold (\<lambda>i a. a[i := a ! (i - 1)]) is b) = length b" for "is" and b :: "'a list"
    by (induction "is" arbitrary: b) auto
  then show ?thesis by (simp add: shift_up_def)
qed

lemma length_shift_down [simp]: "length (shift_down a idx) = length a"
proof -
  have "length (fold (\<lambda>i a. a[i := a ! (i + 1)]) is b) = length b" for "is" and b :: "'a list"
    by (induction "is" arbitrary: b) auto
  then show ?thesis by (simp add: shift_down_def)
qed

lemma shift_up_fold_nth:
  assumes "n \<le> length a" "j < length a" "idx < n"
  shows "fold (\<lambda>i a. a[i := a ! (i - 1)]) (rev [Suc idx..<n]) a ! j =
         (if idx < j \<and> j < n then a ! (j - 1) else a ! j)"
  using assms
proof (induction "n - Suc idx" arbitrary: n a)
  case 0
  then show ?case by auto
next
  case (Suc m)
  then obtain n' where n: "n = Suc n'" "idx < n'"
    by (cases n) auto
  have "fold (\<lambda>i a. a[i := a ! (i - 1)]) (rev [Suc idx..<n]) a ! j =
        fold (\<lambda>i a. a[i := a ! (i - 1)]) (rev [Suc idx..<n']) (a[n' := a ! (n' - 1)]) ! j"
    using n by simp
  also have "\<dots> = (if idx < j \<and> j < n' then a[n' := a ! (n' - 1)] ! (j - 1)
                    else a[n' := a ! (n' - 1)] ! j)"
    using Suc n by (subst Suc.hyps) auto
  finally show ?case using n Suc.prems by (auto simp: nth_list_update)
qed

lemma shift_up_nth:
  assumes "j < length a" "idx < length a"
  shows "shift_up a idx ! j = (if idx < j then a ! (j - 1) else a ! j)"
  using assms shift_up_fold_nth [of "length a" a j idx] by (simp add: shift_up_def)

lemma shift_down_fold_nth:
  assumes "n \<le> length a - 1" "j < length a"
  shows "fold (\<lambda>i a. a[i := a ! (i + 1)]) [idx..<n] a ! j =
         (if idx \<le> j \<and> j < n then a ! (j + 1) else a ! j)"
  using assms
proof (induction n arbitrary: j)
  case 0
  then show ?case by simp
next
  case (Suc n)
  have len: "length (fold (\<lambda>i a. a[i := a ! (i + 1)]) [idx..<n] a) = length a"
  proof -
    have "length (fold (\<lambda>i a. a[i := a ! (i + 1)]) is b) = length b" for "is" and b :: "'a list"
      by (induction "is" arbitrary: b) auto
    then show ?thesis by blast
  qed
  show ?case
  proof (cases "idx \<le> n")
    case True
    then have "fold (\<lambda>i a. a[i := a ! (i + 1)]) [idx..<Suc n] a ! j =
        (fold (\<lambda>i a. a[i := a ! (i + 1)]) [idx..<n] a)
          [n := fold (\<lambda>i a. a[i := a ! (i + 1)]) [idx..<n] a ! (n + 1)] ! j"
      by simp
    then show ?thesis
      using Suc True len by (auto simp: nth_list_update less_Suc_eq)
  next
    case False
    then show ?thesis by auto
  qed
qed

lemma shift_down_nth:
  assumes "j < length a"
  shows "shift_down a idx ! j = (if idx \<le> j \<and> j < length a - 1 then a ! (j + 1) else a ! j)"
  using assms shift_down_fold_nth [of "length a - 1" a j idx] by (simp add: shift_down_def)

text \<open>In closed form: inserting at \<open>idx\<close> drops the last element, removing at \<open>idx\<close>
  repeats it.\<close>

lemma shift_up_insert:
  assumes "idx < length a"
  shows "(shift_up a idx)[idx := x] = take idx a @ x # take (length a - Suc idx) (drop idx a)"
proof (intro nth_equalityI)
  show "length ((shift_up a idx)[idx := x]) =
        length (take idx a @ x # take (length a - Suc idx) (drop idx a))"
    using assms by simp
next
  fix j assume "j < length ((shift_up a idx)[idx := x])"
  then have j: "j < length a" by simp
  consider "j < idx" | "j = idx" | m where "j = Suc (idx + m)"
    using less_iff_Suc_add by (metis linorder_neqE_nat)
  then show "(shift_up a idx)[idx := x] ! j =
             (take idx a @ x # take (length a - Suc idx) (drop idx a)) ! j"
    using j assms by cases (simp_all add: shift_up_nth nth_append)
qed

lemma shift_down_remove:
  assumes "idx < length a"
  shows "shift_down a idx = take idx a @ drop (Suc idx) a @ [last a]"
proof (intro nth_equalityI)
  show "length (shift_down a idx) = length (take idx a @ drop (Suc idx) a @ [last a])"
    using assms by simp
next
  fix j assume "j < length (shift_down a idx)"
  then have j: "j < length a" by simp
  have "last a = a ! (length a - 1)"
    using assms by (intro last_conv_nth) auto
  with j assms show "shift_down a idx ! j = (take idx a @ drop (Suc idx) a @ [last a]) ! j"
    by (auto simp: shift_down_nth nth_append min_def)
       (metis One_nat_def Suc_pred diff_is_0_eq length_0_conv less_Suc_eq_le less_antisym
         less_nat_zero_code nat_neq_iff neq0_conv)+
qed

section \<open>Lists\<close>

text \<open>The loop \<open>for(i = 0; i < n; ++i) d[i] = g(i, d[i])\<close>.\<close>

lemma length_fold_update [simp]: "length (fold (\<lambda>i d. d[i := g i (d ! i)]) is d) = length d"
  by (induction "is" arbitrary: d) auto

lemma fold_update_nth:
  "j < length d \<Longrightarrow> fold (\<lambda>i d. d[i := g i (d ! i)]) [0..<n] d ! j =
     (if j < n then g j (d ! j) else d ! j)"
  by (induction n) (auto simp: nth_list_update less_Suc_eq)

lemma list_update_append_at: "i = length xs \<Longrightarrow> (xs @ y # ys)[i := z] = xs @ z # ys"
  by simp

lemma card_filter_upt: "card {i. i < n \<and> P i} = length (filter P [0..<n])"
proof -
  have "{i. i < n \<and> P i} = set (filter P [0..<n])" by auto
  then show ?thesis by (simp only: distinct_card distinct_filter distinct_upt)
qed

section \<open>Words\<close>

lemma unat_lt_2p: "unat (w :: 'a::len word) < 2 ^ LENGTH('a)"
  by (rule unsigned_less)

lemma unat_add_no_wrap:
  "unat (a :: 'a::len word) + unat b < 2 ^ LENGTH('a) \<Longrightarrow> unat (a + b) = unat a + unat b"
  by (simp add: unat_add_lem)

lemma unat_sub_no_wrap: "b \<le> (a :: 'a::len word) \<Longrightarrow> unat (a - b) = unat a - unat b"
  by (rule unat_sub)

lemma unat_u32_bound [simp]: "unat (w :: u32) < 4294967296"
  using unat_lt_2p [of w] by simp

lemma unat_u8_bound [simp]: "unat (w :: u8) < 256"
  using unat_lt_2p [of w] by simp

lemma unat_ucast_u8_u32 [simp]: "unat (ucast (x :: u8) :: u32) = unat x"
proof -
  have "unat x < 2 ^ 32" by (rule less_le_trans [OF unat_u8_bound]) simp
  then show ?thesis by (simp add: unsigned_ucast_eq take_bit_nat_eq_self)
qed

lemma unat_ucast_u32_u64 [simp]: "unat (ucast (x :: u32) :: u64) = unat x"
proof -
  have "unat x < 2 ^ 64" by (rule less_le_trans [OF unat_u32_bound]) simp
  then show ?thesis by (simp add: unsigned_ucast_eq take_bit_nat_eq_self)
qed

section \<open>Constants and strings of the platform header\<close>

definition FDB_INVALID_ID :: u32 where "FDB_INVALID_ID = 0xffffffff"
definition FDB_MAX_TABLE_NAME :: nat where "FDB_MAX_TABLE_NAME = 256"

text \<open>\<open>FDB\_COPY\_AND\_CHECK\_STR\<close>: a string that does not fit aborts.\<close>

definition copy_and_check_str :: "string \<Rightarrow> nat \<Rightarrow> string res" where
  "copy_and_check_str origin capacity = (if length origin < capacity then Inr origin else Inl AssertFail)"

end
