(* ===== verification/Memory.thy ===== *)
theory Memory
  imports Prelude
begin

text \<open>
  src/src/common/memory/memory.c, memory.h and numa_alloc.c: the allocator interface
  (a record of function pointers over an opaque state), the global allocator, and the
  contract \<open>mem_provider\<close> that every allocator of the library offers its clients.

  The state behind \<open>p_mem_state\<close> is passed explicitly: an allocation takes the state
  and returns the address and the new state. The C library's \<open>posix_memalign\<close> and
  \<open>free\<close> are parameters.
\<close>

section \<open>The allocator interface\<close>

record fdb_mem_stats_t =
  st_allocated :: u64
  st_lost :: u64
  st_used :: u64

text \<open>\<open>p_mem_stats\<close> may be a null function pointer: the global allocator never sets it.\<close>

record 'st fdb_mem_allocator_t =
  p_mem_alloc :: "'st \<Rightarrow> u32 \<Rightarrow> u32 \<Rightarrow> u32 \<Rightarrow> ptr \<times> 'st"
  p_mem_free :: "'st \<Rightarrow> ptr \<Rightarrow> 'st"
  p_mem_stats :: "('st \<Rightarrow> fdb_mem_stats_t) option"

definition FDB_NO_HINT :: u32 where "FDB_NO_HINT = 0xffffffff"
definition FDB_MIN_ALIGNMENT :: u32 where "FDB_MIN_ALIGNMENT = 16"

definition mem_alloc ::
  "'st fdb_mem_allocator_t \<Rightarrow> 'st \<Rightarrow> u32 \<Rightarrow> u32 \<Rightarrow> u32 \<Rightarrow> ptr \<times> 'st" where
  "mem_alloc mem_allocator st alignment sz hint =
     p_mem_alloc mem_allocator st alignment sz hint"

definition mem_free :: "'st fdb_mem_allocator_t \<Rightarrow> 'st \<Rightarrow> ptr \<Rightarrow> 'st" where
  "mem_free mem_allocator st p = p_mem_free mem_allocator st p"

definition mem_stats :: "'st fdb_mem_allocator_t \<Rightarrow> 'st \<Rightarrow> fdb_mem_stats_t res" where
  "mem_stats mem_allocator st =
     (case p_mem_stats mem_allocator of None \<Rightarrow> Inl NullDeref | Some f \<Rightarrow> Inr (f st))"

section \<open>The global allocator\<close>

text \<open>
  \<open>posix_memalign st alignment sz\<close> is the C library's allocation: the address it
  stores, or NULL when it fails (the caller initialises the pointer to NULL and ignores
  the error code), and the new state of the C heap.
\<close>

definition fdb_numa_alloc ::
  "('st \<Rightarrow> u32 \<Rightarrow> u32 \<Rightarrow> ptr \<times> 'st) \<Rightarrow> 'st \<Rightarrow> u32 \<Rightarrow> u32 \<Rightarrow> u32 \<Rightarrow> ptr \<times> 'st" where
  "fdb_numa_alloc posix_memalign st alignment sz hint =
     (let min_alignment = (if alignment < FDB_MIN_ALIGNMENT then FDB_MIN_ALIGNMENT else alignment)
      in posix_memalign st min_alignment sz)"

definition fdb_numa_free :: "('st \<Rightarrow> ptr \<Rightarrow> 'st) \<Rightarrow> 'st \<Rightarrow> ptr \<Rightarrow> 'st" where
  "fdb_numa_free libc_free st p = libc_free st p"

text \<open>
  The static variable \<open>global_mem_allocator\<close>: \<open>None\<close> while its function pointers are
  still NULL, as a static variable starts.
\<close>

definition fdb_get_global_mem_allocator ::
  "('st \<Rightarrow> u32 \<Rightarrow> u32 \<Rightarrow> ptr \<times> 'st) \<Rightarrow> ('st \<Rightarrow> ptr \<Rightarrow> 'st) \<Rightarrow>
   'st fdb_mem_allocator_t option \<Rightarrow> 'st fdb_mem_allocator_t" where
  "fdb_get_global_mem_allocator posix_memalign libc_free global_mem_allocator =
     (case global_mem_allocator of
        Some a \<Rightarrow> a
      | None \<Rightarrow> \<lparr>p_mem_alloc = fdb_numa_alloc posix_memalign,
                 p_mem_free = fdb_numa_free libc_free, p_mem_stats = None\<rparr>)"

section \<open>alignment: the power of two above a size\<close>

definition alignment_of :: "u32 \<Rightarrow> u32" where
  "alignment_of struct_size =
     (let s = struct_size - 1;
          s = s OR drop_bit 1 s;
          s = s OR drop_bit 2 s;
          s = s OR drop_bit 4 s;
          s = s OR drop_bit 8 s;
          s = s OR drop_bit 16 s
      in s + 1)"

section \<open>The contract of an allocator\<close>

text \<open>
  \<open>live\<close> maps the address of each block handed out and not yet freed to its size. Two
  blocks are apart when their address ranges do not meet; \<open>fits\<close> says a new block lies
  in the address space and apart from every live one.
\<close>

definition apart :: "ptr \<Rightarrow> nat \<Rightarrow> ptr \<Rightarrow> nat \<Rightarrow> bool" where
  "apart p n q m \<longleftrightarrow> unat p + n \<le> unat q \<or> unat q + m \<le> unat p"

definition fits :: "(ptr \<rightharpoonup> nat) \<Rightarrow> ptr \<Rightarrow> nat \<Rightarrow> bool" where
  "fits live p n \<longleftrightarrow> p \<noteq> NULL \<and> live p = None \<and> unat p + n < 2 ^ 64 \<and>
     (\<forall>q m. live q = Some m \<longrightarrow> apart p n q m)"

text \<open>
  \<open>ainv s live\<close>: the allocator's state \<open>s\<close> is consistent and \<open>live\<close> is what clients
  hold. \<open>room s n\<close>: memory is left for \<open>n\<close> more requests (the code has no error path for
  exhaustion, so the contract speaks of requests made while there is room).
  \<open>serves al sz\<close>: requests of this alignment and size are among those the allocator is
  configured for.
\<close>

locale mem_provider =
  fixes alloc :: "'st \<Rightarrow> u32 \<Rightarrow> u32 \<Rightarrow> u32 \<Rightarrow> ptr \<times> 'st"
    and free :: "'st \<Rightarrow> ptr \<Rightarrow> 'st"
    and ainv :: "'st \<Rightarrow> (ptr \<rightharpoonup> nat) \<Rightarrow> bool"
    and room :: "'st \<Rightarrow> nat \<Rightarrow> bool"
    and serves :: "'st \<Rightarrow> u32 \<Rightarrow> u32 \<Rightarrow> bool"
  assumes alloc_fits: "\<lbrakk>ainv s live; room s (Suc n); serves s al sz; alloc s al sz h = (p, s')\<rbrakk>
      \<Longrightarrow> fits live p (unat sz)"
    and alloc_aligned: "\<lbrakk>ainv s live; room s (Suc n); serves s al sz; alloc s al sz h = (p, s')\<rbrakk>
      \<Longrightarrow> unat al dvd unat p"
    and alloc_inv: "\<lbrakk>ainv s live; room s (Suc n); serves s al sz; alloc s al sz h = (p, s')\<rbrakk>
      \<Longrightarrow> ainv s' (live(p \<mapsto> unat sz))"
    and alloc_room: "\<lbrakk>ainv s live; room s (Suc n); serves s al sz; alloc s al sz h = (p, s')\<rbrakk>
      \<Longrightarrow> room s' n"
    and alloc_serves: "\<lbrakk>ainv s live; room s (Suc n); serves s al sz; alloc s al sz h = (p, s')\<rbrakk>
      \<Longrightarrow> serves s' = serves s"
    and room_mono: "room s (Suc n) \<Longrightarrow> room s n"
    and free_inv: "\<lbrakk>ainv s live; live p = Some m\<rbrakk> \<Longrightarrow> ainv (free s p) (live(p := None))"
    and free_room: "\<lbrakk>ainv s live; live p = Some m; room s n\<rbrakk> \<Longrightarrow> room (free s p) n"
    and free_serves: "serves (free s p) = serves s"

text \<open>A client of an allocator: the requests it makes, one after another, and the blocks it
  holds. A client is legal when it frees only what it holds and asks only for what is served.\<close>

datatype mem_cmd = MAlloc u32 u32 u32 | MFree ptr

fun run_mem ::
  "('st \<Rightarrow> u32 \<Rightarrow> u32 \<Rightarrow> u32 \<Rightarrow> ptr \<times> 'st) \<Rightarrow> ('st \<Rightarrow> ptr \<Rightarrow> 'st) \<Rightarrow> mem_cmd list \<Rightarrow>
   'st \<times> (ptr \<rightharpoonup> nat) \<Rightarrow> 'st \<times> (ptr \<rightharpoonup> nat)" where
  "run_mem alloc free [] x = x"
| "run_mem alloc free (MAlloc al sz h # cs) (s, live) =
     (let (p, s') = alloc s al sz h in run_mem alloc free cs (s', live(p \<mapsto> unat sz)))"
| "run_mem alloc free (MFree p # cs) (s, live) = run_mem alloc free cs (free s p, live(p := None))"

fun legal_mem ::
  "('st \<Rightarrow> u32 \<Rightarrow> u32 \<Rightarrow> u32 \<Rightarrow> ptr \<times> 'st) \<Rightarrow> ('st \<Rightarrow> ptr \<Rightarrow> 'st) \<Rightarrow>
   ('st \<Rightarrow> u32 \<Rightarrow> u32 \<Rightarrow> bool) \<Rightarrow> mem_cmd list \<Rightarrow> 'st \<times> (ptr \<rightharpoonup> nat) \<Rightarrow> bool" where
  "legal_mem alloc free serves [] x \<longleftrightarrow> True"
| "legal_mem alloc free serves (MAlloc al sz h # cs) (s, live) \<longleftrightarrow> serves s al sz \<and>
     (let (p, s') = alloc s al sz h in legal_mem alloc free serves cs (s', live(p \<mapsto> unat sz)))"
| "legal_mem alloc free serves (MFree p # cs) (s, live) \<longleftrightarrow> live p \<noteq> None \<and>
     legal_mem alloc free serves cs (free s p, live(p := None))"

fun allocs :: "mem_cmd list \<Rightarrow> nat" where
  "allocs [] = 0"
| "allocs (MAlloc _ _ _ # cs) = Suc (allocs cs)"
| "allocs (MFree _ # cs) = allocs cs"

definition live_apart :: "(ptr \<rightharpoonup> nat) \<Rightarrow> bool" where
  "live_apart live \<longleftrightarrow>
     (\<forall>p q n m. live p = Some n \<longrightarrow> live q = Some m \<longrightarrow> p \<noteq> q \<longrightarrow> apart p n q m)"

lemma live_apart_empty [simp]: "live_apart Map.empty"
  by (simp add: live_apart_def)

lemma live_apart_alloc: "live_apart live \<Longrightarrow> fits live p n \<Longrightarrow> live_apart (live(p \<mapsto> n))"
  by (fastforce simp: live_apart_def fits_def apart_def)

lemma live_apart_free: "live_apart live \<Longrightarrow> live_apart (live(p := None))"
  by (simp add: live_apart_def)

context mem_provider
begin

text \<open>A legal client's blocks never overlap, as long as it asks for no more than the room.\<close>

lemma run_inv:
  assumes "ainv s live" "room s (n + allocs cs)" "live_apart live"
    "legal_mem alloc free serves cs (s, live)" "run_mem alloc free cs (s, live) = (s', live')"
  shows "ainv s' live' \<and> room s' n \<and> live_apart live'"
  using assms
proof (induction cs arbitrary: s live)
  case Nil
  then show ?case by simp
next
  case (Cons c cs)
  show ?case
  proof (cases c)
    case (MAlloc al sz h)
    obtain p s1 where a: "alloc s al sz h = (p, s1)" by fastforce
    with Cons.prems MAlloc have r: "serves s al sz" "room s (Suc (n + allocs cs))" by simp_all
    note laws = alloc_fits [OF Cons.prems(1) r(2,1) a] alloc_inv [OF Cons.prems(1) r(2,1) a]
      alloc_room [OF Cons.prems(1) r(2,1) a]
    have "legal_mem alloc free serves cs (s1, live(p \<mapsto> unat sz))"
      "run_mem alloc free cs (s1, live(p \<mapsto> unat sz)) = (s', live')"
      using Cons.prems MAlloc a by simp_all
    then show ?thesis
      by (rule Cons.IH [OF laws(2,3) live_apart_alloc [OF Cons.prems(3) laws(1)]])
  next
    case (MFree p)
    then obtain m where m: "live p = Some m" using Cons.prems by auto
    then have "legal_mem alloc free serves cs (free s p, live(p := None))"
      "run_mem alloc free cs (free s p, live(p := None)) = (s', live')" "room s (n + allocs cs)"
      using Cons.prems MFree by simp_all
    then show ?thesis
      using Cons.IH [OF free_inv [OF Cons.prems(1) m] free_room [OF Cons.prems(1) m]
        live_apart_free [OF Cons.prems(3)]] by blast
  qed
qed

end

lemma fits_dom: "fits live p n \<Longrightarrow> p \<notin> dom live"
  by (auto simp: fits_def)

section \<open>Several clients of one allocator\<close>

text \<open>What a client sees of an allocator that it shares: \<open>mine\<close> are its blocks, \<open>theirs\<close> those
  of the other clients, both part of what the allocator has handed out. A shared provider
  keeps the blocks of the others and satisfies the contract for the one client.\<close>

definition shared ::
  "('st \<Rightarrow> (ptr \<rightharpoonup> nat) \<Rightarrow> bool) \<Rightarrow> (ptr \<rightharpoonup> nat) \<Rightarrow> 'st \<Rightarrow> (ptr \<rightharpoonup> nat) \<Rightarrow> bool" where
  "shared ainv theirs s mine \<longleftrightarrow> (\<exists>full. ainv s full \<and> live_apart full \<and> theirs \<subseteq>\<^sub>m full \<and> mine \<subseteq>\<^sub>m full \<and>
     dom theirs \<inter> dom mine = {})"

lemma fits_mono: "fits full p n \<Longrightarrow> live \<subseteq>\<^sub>m full \<Longrightarrow> fits live p n"
  unfolding fits_def map_le_def by (metis domIff option.distinct(1))

lemma live_apart_mono: "live_apart full \<Longrightarrow> live \<subseteq>\<^sub>m full \<Longrightarrow> live_apart live"
  unfolding live_apart_def map_le_def by (metis domI)

lemma map_le_Some: "live \<subseteq>\<^sub>m full \<Longrightarrow> live p = Some m \<Longrightarrow> full p = Some m"
  by (metis domI map_le_def)

lemma map_le_except: "theirs \<subseteq>\<^sub>m full \<Longrightarrow> p \<notin> dom theirs \<Longrightarrow> theirs \<subseteq>\<^sub>m full(p := v)"
  unfolding map_le_def by (metis fun_upd_other)

lemma map_le_both: "mine \<subseteq>\<^sub>m full \<Longrightarrow> mine(p := v) \<subseteq>\<^sub>m full(p := v)"
  unfolding map_le_def by (metis domIff fun_upd_apply)

lemma shared_full:
  assumes "shared ainv theirs s mine"
  obtains full where "ainv s full" "live_apart full" "theirs \<subseteq>\<^sub>m full" "mine \<subseteq>\<^sub>m full" "dom theirs \<inter> dom mine = {}"
  using assms by (auto simp: shared_def)

context mem_provider
begin

lemma shared_provider: "mem_provider alloc free (shared ainv theirs) room serves"
proof (unfold_locales, goal_cases)
  case (1 s live n al sz h p s')
  obtain full where f: "ainv s full" "live \<subseteq>\<^sub>m full" using 1(1) by (rule shared_full)
  show ?case by (rule fits_mono [OF alloc_fits [OF f(1) 1(2-4)] f(2)])
next
  case (2 s live n al sz h p s')
  obtain full where f: "ainv s full" using 2(1) by (rule shared_full)
  show ?case by (rule alloc_aligned [OF f 2(2-)])
next
  case (3 s live n al sz h p s')
  obtain full where f: "ainv s full" "live_apart full" "theirs \<subseteq>\<^sub>m full" "live \<subseteq>\<^sub>m full" "dom theirs \<inter> dom live = {}"
    using 3(1) by (rule shared_full)
  have fit: "fits full p (unat sz)" by (rule alloc_fits [OF f(1) 3(2-4)])
  then have new: "p \<notin> dom full" by (rule fits_dom)
  have "p \<notin> dom theirs" using new map_le_implies_dom_le [OF f(3)] by blast
  then have "theirs \<subseteq>\<^sub>m full(p \<mapsto> unat sz)" by (rule map_le_except [OF f(3)])
  moreover have "live(p \<mapsto> unat sz) \<subseteq>\<^sub>m full(p \<mapsto> unat sz)" by (rule map_le_both [OF f(4)])
  moreover have "dom theirs \<inter> dom (live(p \<mapsto> unat sz)) = {}"
    using \<open>p \<notin> dom theirs\<close> f(5) by auto
  ultimately show ?case unfolding shared_def
    using alloc_inv [OF f(1) 3(2-4)] live_apart_alloc [OF f(2) fit] by blast
next
  case (4 s live n al sz h p s')
  obtain full where f: "ainv s full" using 4(1) by (rule shared_full)
  show ?case by (rule alloc_room [OF f 4(2-)])
next
  case (5 s live n al sz h p s')
  obtain full where f: "ainv s full" using 5(1) by (rule shared_full)
  show ?case by (rule alloc_serves [OF f 5(2-)])
next
  case (6 s n)
  then show ?case by (rule room_mono)
next
  case (7 s live p m)
  obtain full where f: "ainv s full" "live_apart full" "theirs \<subseteq>\<^sub>m full" "live \<subseteq>\<^sub>m full" "dom theirs \<inter> dom live = {}"
    using 7(1) by (rule shared_full)
  have p: "full p = Some m" by (rule map_le_Some [OF f(4) 7(2)])
  have "p \<notin> dom theirs" using 7(2) f(5) by blast
  then have "theirs \<subseteq>\<^sub>m full(p := None)" by (rule map_le_except [OF f(3)])
  moreover have "live(p := None) \<subseteq>\<^sub>m full(p := None)" by (rule map_le_both [OF f(4)])
  moreover have "dom theirs \<inter> dom (live(p := None)) = {}" using f(5) by auto
  ultimately show ?case unfolding shared_def using free_inv [OF f(1) p] live_apart_free [OF f(2)] by blast
next
  case (8 s live p m n)
  obtain full where f: "ainv s full" "live \<subseteq>\<^sub>m full" using 8(1) by (rule shared_full)
  show ?case by (rule free_room [OF f(1) map_le_Some [OF f(2) 8(2)] 8(3)])
next
  case (9 s p)
  then show ?case by (rule free_serves)
qed

end

lemma apart_sym: "apart p n q m \<Longrightarrow> apart q m p n"
  by (auto simp: apart_def)

text \<open>
  The free lists of the page and pool allocators: a chain of headers, each the first word
  of a free block. \<open>hdr\<close> is the memory the allocator reads and writes through its header
  pointers; the first word of a block a client holds is the client's and is not read.
\<close>

fun chained :: "(ptr \<Rightarrow> ptr) \<Rightarrow> ptr \<Rightarrow> ptr list \<Rightarrow> bool" where
  "chained hdr p [] \<longleftrightarrow> p = NULL"
| "chained hdr p (x # xs) \<longleftrightarrow> p = x \<and> x \<noteq> NULL \<and> chained hdr (hdr x) xs"

lemma chained_upd [simp]: "q \<notin> set xs \<Longrightarrow> chained (hdr(q := v)) p xs = chained hdr p xs"
  by (induction xs arbitrary: p) auto

lemma chained_push:
  "chained hdr p xs \<Longrightarrow> q \<noteq> NULL \<Longrightarrow> q \<notin> set xs \<Longrightarrow> chained (hdr(q := p)) q (q # xs)"
  by simp

lemma chained_nonempty: "chained hdr p xs \<Longrightarrow> p \<noteq> NULL \<Longrightarrow> \<exists>ys. xs = p # ys \<and> chained hdr (hdr p) ys"
  by (cases xs) auto

lemma chained_NULL: "chained hdr NULL xs \<longleftrightarrow> xs = []"
  by (cases xs) auto

text \<open>Two different multiples of a size are that size apart.\<close>

lemma multiples_apart:
  fixes p q n :: nat
  assumes "n dvd p" "n dvd q" "p < q"
  shows "p + n \<le> q"
proof -
  obtain i j where "p = n * i" "q = n * j" using assms by blast
  moreover from this have "Suc i \<le> j" using assms(3) by (metis Suc_leI mult_less_cancel1)
  ultimately show ?thesis by (metis add.commute mult_Suc_right mult_le_mono2)
qed

section \<open>alignment returns the least power of two\<close>

definition smears :: "u32 \<Rightarrow> nat \<Rightarrow> u32 \<Rightarrow> bool" where
  "smears s m a \<longleftrightarrow> (\<forall>i. bit a i \<longleftrightarrow> (\<exists>d<m. bit s (i + d)))"

lemma smears_step: "smears s m a \<Longrightarrow> smears s (2 * m) (a OR drop_bit m a)"
  unfolding smears_def
proof (intro allI)
  fix i assume a: "\<forall>i. bit a i \<longleftrightarrow> (\<exists>d<m. bit s (i + d))"
  have "(\<exists>d<2 * m. bit s (i + d)) \<longleftrightarrow> (\<exists>d<m. bit s (i + d)) \<or> (\<exists>d<m. bit s (m + i + d))"
  proof
    assume "\<exists>d<2 * m. bit s (i + d)"
    then obtain d where d: "d < 2 * m" "bit s (i + d)" by blast
    show "(\<exists>d<m. bit s (i + d)) \<or> (\<exists>d<m. bit s (m + i + d))"
    proof (cases "d < m")
      case False
      then have "d - m < m" "m + i + (d - m) = i + d" using d by simp_all
      then show ?thesis using d by metis
    qed (use d in blast)
  next
    assume "(\<exists>d<m. bit s (i + d)) \<or> (\<exists>d<m. bit s (m + i + d))"
    then show "\<exists>d<2 * m. bit s (i + d)"
    proof
      assume "\<exists>d<m. bit s (m + i + d)"
      then obtain d where "d < m" "bit s (i + (m + d))" by (auto simp: ac_simps)
      then show ?thesis by (intro exI [of _ "m + d"]) simp
    next
      assume "\<exists>d<m. bit s (i + d)"
      then obtain d where "d < m" "bit s (i + d)" by blast
      then show ?thesis by (intro exI [of _ d]) simp
    qed
  qed
  then show "bit (a OR drop_bit m a) i \<longleftrightarrow> (\<exists>d<2 * m. bit s (i + d))"
    using a by (simp add: bit_or_iff bit_drop_bit_eq)
qed

lemma alignment_of_smears: "\<exists>a. smears (n - 1) 32 a \<and> alignment_of n = a + 1"
proof -
  let ?s0 = "n - 1"
  have "smears ?s0 1 ?s0" by (simp add: smears_def)
  from smears_step [OF smears_step [OF smears_step [OF smears_step [OF smears_step [OF this]]]]]
  show ?thesis by (simp add: alignment_of_def Let_def)
qed

lemma smears_mask:
  assumes "smears s 32 a" "unat s < 2 ^ k" "k = 0 \<or> 2 ^ (k - 1) \<le> unat s" "k \<le> 32"
  shows "a = mask k"
proof (rule bit_eqI)
  fix i assume i: "possible_bit TYPE(u32) i"
  have zero: "\<not> bit s j" if "k \<le> j" for j
  proof -
    have "unat s < 2 ^ j"
      by (rule less_le_trans [OF assms(2) power_increasing [OF that]]) simp
    then have "\<not> bit (unat s) j" by (simp add: bit_iff_odd)
    then show ?thesis by (auto simp: bit_unsigned_iff dest: bit_imp_le_length)
  qed
  show "bit a i \<longleftrightarrow> bit (mask k :: u32) i"
  proof (cases "i < k")
    case True
    obtain m where m: "k = Suc m" using True by (cases k) auto
    have "unat s div 2 ^ (k - 1) = 1"
      using assms(2,3) m by (intro div_nat_eqI) simp_all
    then have "bit (unat s) (k - 1)" by (simp add: bit_iff_odd)
    then have "bit s (i + (k - 1 - i))" using True by (simp add: bit_unsigned_iff)
    moreover have "k - 1 - i < 32" using assms(4) by simp
    ultimately have "bit a i" using assms(1) unfolding smears_def by blast
    then show ?thesis using True i by (simp add: bit_mask_iff)
  next
    case False
    then show ?thesis using assms(1) zero by (auto simp: smears_def bit_mask_iff)
  qed
qed

lemma alignment_of_power:
  assumes "unat (n - 1) < 2 ^ k" "k = 0 \<or> 2 ^ (k - 1) \<le> unat (n - 1)" "k < 32"
  shows "unat (alignment_of n) = 2 ^ k"
proof -
  obtain a where a: "smears (n - 1) 32 a" "alignment_of n = a + 1"
    using alignment_of_smears by blast
  have "a = mask k" using smears_mask [OF a(1) assms(1,2)] assms(3) by simp
  then have "alignment_of n = 2 ^ k" using a(2) by (simp add: mask_eq_decr_exp)
  then have "word_of_nat (2 ^ k) = alignment_of n" by simp
  moreover have "(2 :: nat) ^ k < 2 ^ LENGTH(32)" using assms(3) by (intro power_strict_increasing) simp_all
  ultimately show ?thesis by (rule of_nat_inverse)
qed

text \<open>\<open>alignment\<close> returns the least power of two that is at least the size, for every
  size from 1 to 2^31; beyond that it wraps to 0.\<close>

theorem alignment_least_power:
  assumes "1 \<le> unat n"
  shows "if unat n \<le> 2 ^ 31
         then \<exists>k<32. unat (alignment_of n) = 2 ^ k \<and> unat n \<le> 2 ^ k \<and> (\<forall>j. unat n \<le> 2 ^ j \<longrightarrow> k \<le> j)
         else alignment_of n = 0"
proof -
  have s: "unat (n - 1) = unat n - 1" using assms by (intro unat_minus_one) auto
  show ?thesis
  proof (cases "unat n \<le> 2 ^ 31")
    case True
    define k where "k = (LEAST k. unat n \<le> 2 ^ k)"
    have le: "unat n \<le> 2 ^ k" and least: "k \<le> j" if "unat n \<le> 2 ^ j" for j
      unfolding k_def by (rule LeastI [of "\<lambda>k. unat n \<le> 2 ^ k", OF that], rule Least_le [of "\<lambda>k. unat n \<le> 2 ^ k", OF that])
    have k: "k < 32" using least [OF True] by simp
    have low: "k = 0 \<or> 2 ^ (k - 1) \<le> unat (n - 1)"
    proof (rule disjCI)
      assume "\<not> 2 ^ (k - 1) \<le> unat (n - 1)"
      then have "unat n \<le> 2 ^ (k - 1)" using s assms by linarith
      then show "k = 0" using least [of "k - 1"] by simp
    qed
    have "unat (alignment_of n) = 2 ^ k"
      by (rule alignment_of_power) (use le [OF True] s assms low k in auto)
    then show ?thesis using True le [OF True] least k by auto
  next
    case False
    obtain a where a: "smears (n - 1) 32 a" "alignment_of n = a + 1"
      using alignment_of_smears by blast
    have "a = mask 32"
      by (rule smears_mask [OF a(1)]) (use False s in \<open>simp_all add: less_imp_diff_less\<close>)
    then show ?thesis using a(2) False by (simp add: mask_eq_decr_exp)
  qed
qed

theorem alignment_least_power_witness: "\<exists>k<32. unat (alignment_of 33) = 2 ^ k \<and> 33 \<le> (2 :: nat) ^ k"
  using alignment_least_power [of 33] by auto

end
