(* ===== verification/Bitmap.thy ===== *)
theory Bitmap
  imports Memory
begin

text \<open>
  src/src/common/bitmap.c and bitmap.h. A bitmap is a bit count and a heap buffer of
  bytes; the buffer belongs to the bitmap alone, so its contents \<open>bm_data\<close> stand in the
  record beside its address \<open>bm_p_data\<close>. The functional specification is a set of
  positions, \<open>bits\<close>: every operation is the set operation of the same name, and
  \<open>m_num_set\<close> is the set's cardinality.
\<close>

section \<open>State and operations\<close>

record fdb_bitmap_t =
  bm_max_bits :: u32
  bm_num_set :: u32
  bm_p_data :: ptr
  bm_data :: "u8 list"

definition FDB_BITMAP_ALIGNMENT :: u32 where "FDB_BITMAP_ALIGNMENT = 64"

definition FDB_BITMAP_NUM_CHUNKS :: "u32 \<Rightarrow> u32" where
  "FDB_BITMAP_NUM_CHUNKS n = (n + 7) div 8"

definition count_bits_lookup :: "u8 list" where
  "count_bits_lookup = [0, 1, 1, 2, 1, 2, 2, 3, 1, 2, 2, 3, 2, 3, 3, 4]"

text \<open>The byte helpers return whether the byte changed, and the new byte.\<close>

definition set_bit_true :: "u8 \<Rightarrow> u32 \<Rightarrow> bool \<times> u8" where
  "set_bit_true data n = (let mask = push_bit (unat n) 1; val = data OR mask in (data \<noteq> val, val))"

definition set_bit_false :: "u8 \<Rightarrow> u32 \<Rightarrow> bool \<times> u8" where
  "set_bit_false data n =
     (let mask = push_bit (unat n) 1; mask = NOT mask; val = data AND mask in (data \<noteq> val, val))"

definition read_bit :: "u8 \<Rightarrow> u32 \<Rightarrow> bool" where
  "read_bit data n = (let mask = push_bit (unat n) (1 :: u32) in (ucast data :: u32) AND mask \<noteq> 0)"

text \<open>The result of the allocator is not tested before the buffer is zeroed.\<close>

definition fdb_bitmap_init ::
  "u32 \<Rightarrow> 'st fdb_mem_allocator_t \<Rightarrow> 'st \<Rightarrow> (fdb_bitmap_t \<times> 'st) res" where
  "fdb_bitmap_init max_bits allocator st =
     (let nchunks = FDB_BITMAP_NUM_CHUNKS max_bits;
          (p, st) = mem_alloc allocator st FDB_BITMAP_ALIGNMENT nchunks (- 1)
      in if p = NULL then Inl NullDeref else
         Inr (\<lparr>bm_max_bits = max_bits, bm_num_set = 0, bm_p_data = p,
            bm_data = replicate (unat nchunks) 0\<rparr>, st))"

definition fdb_bitmap_release ::
  "fdb_bitmap_t \<Rightarrow> 'st fdb_mem_allocator_t \<Rightarrow> 'st \<Rightarrow> 'st" where
  "fdb_bitmap_release bitmap allocator st = mem_free allocator st (bm_p_data bitmap)"

definition fdb_bitmap_set :: "fdb_bitmap_t \<Rightarrow> u32 \<Rightarrow> fdb_bitmap_t res" where
  "fdb_bitmap_set bitmap element =
     (let chunk = unat (element div 8); offset = element mod 8
      in bind_res (rd (bm_data bitmap) chunk) (\<lambda>byte.
         let (r, val) = set_bit_true byte offset
         in Inr (bitmap\<lparr>bm_data := (bm_data bitmap)[chunk := val],
                       bm_num_set := bm_num_set bitmap + of_bool r\<rparr>)))"

definition fdb_bitmap_unset :: "fdb_bitmap_t \<Rightarrow> u32 \<Rightarrow> fdb_bitmap_t res" where
  "fdb_bitmap_unset bitmap element =
     (let chunk = unat (element div 8); offset = element mod 8
      in bind_res (rd (bm_data bitmap) chunk) (\<lambda>byte.
         let (r, val) = set_bit_false byte offset
         in Inr (bitmap\<lparr>bm_data := (bm_data bitmap)[chunk := val],
                       bm_num_set := bm_num_set bitmap - of_bool r\<rparr>)))"

definition fdb_bitmap_set_bit :: "fdb_bitmap_t \<Rightarrow> u32 \<Rightarrow> bool \<Rightarrow> fdb_bitmap_t res" where
  "fdb_bitmap_set_bit bitmap element value =
     (let chunk = unat (element div 8); offset = element mod 8
      in bind_res (rd (bm_data bitmap) chunk) (\<lambda>byte.
         if value then
           let (r, val) = set_bit_true byte offset
           in Inr (bitmap\<lparr>bm_data := (bm_data bitmap)[chunk := val],
                         bm_num_set := bm_num_set bitmap + of_bool r\<rparr>)
         else
           let (r, val) = set_bit_false byte offset
           in Inr (bitmap\<lparr>bm_data := (bm_data bitmap)[chunk := val],
                         bm_num_set := bm_num_set bitmap - of_bool r\<rparr>)))"

definition fdb_bitmap_is_set :: "fdb_bitmap_t \<Rightarrow> u32 \<Rightarrow> bool res" where
  "fdb_bitmap_is_set bitmap element =
     (let chunk = unat (element div 8); offset = element mod 8
      in bind_res (rd (bm_data bitmap) chunk) (\<lambda>byte. Inr (read_bit byte offset)))"

text \<open>The loop over the chunks of \<open>refresh\_num\_set\<close>: the two nibbles of each byte.\<close>

definition count_chunk :: "u8 \<Rightarrow> u32" where
  "count_chunk byte =
     (let left = drop_bit 4 byte; right = byte AND 0x0f
      in ucast (count_bits_lookup ! unat left) + ucast (count_bits_lookup ! unat right))"

definition fdb_bitmap_refresh_num_set :: "fdb_bitmap_t \<Rightarrow> fdb_bitmap_t" where
  "fdb_bitmap_refresh_num_set bitmap =
     (let nchunks = FDB_BITMAP_NUM_CHUNKS (bm_max_bits bitmap)
      in bitmap\<lparr>bm_num_set :=
           fold (\<lambda>i n. n + count_chunk (bm_data bitmap ! i)) [0..<unat nchunks] 0\<rparr>)"

text \<open>
  The byte-wise loops over both buffers: the buffers must both have \<open>nchunks\<close> bytes (the
  FDB\_ASSERT on equal \<open>m_max_bits\<close> is compiled out), else the loop leaves one of them.
\<close>

definition chunk_loop ::
  "(u8 \<Rightarrow> u8 \<Rightarrow> u8) \<Rightarrow> fdb_bitmap_t \<Rightarrow> fdb_bitmap_t \<Rightarrow> fdb_bitmap_t res" where
  "chunk_loop f dst src =
     (let nchunks = unat (FDB_BITMAP_NUM_CHUNKS (bm_max_bits dst))
      in if nchunks \<le> length (bm_data dst) \<and> nchunks \<le> length (bm_data src)
         then Inr (dst\<lparr>bm_data :=
                fold (\<lambda>i d. d[i := f (d ! i) (bm_data src ! i)]) [0..<nchunks] (bm_data dst)\<rparr>)
         else Inl OutOfBounds)"

definition fdb_bitmap_set_bitmap :: "fdb_bitmap_t \<Rightarrow> fdb_bitmap_t \<Rightarrow> fdb_bitmap_t res" where
  "fdb_bitmap_set_bitmap dst_bitmap src_bitmap =
     bind_res (chunk_loop (\<lambda>d s. s) dst_bitmap src_bitmap)
       (\<lambda>dst. Inr (dst\<lparr>bm_num_set := bm_num_set src_bitmap\<rparr>))"

definition fdb_bitmap_set_and :: "fdb_bitmap_t \<Rightarrow> fdb_bitmap_t \<Rightarrow> fdb_bitmap_t res" where
  "fdb_bitmap_set_and dst_bitmap src_bitmap =
     bind_res (chunk_loop (\<lambda>d s. d AND s) dst_bitmap src_bitmap)
       (\<lambda>dst. Inr (fdb_bitmap_refresh_num_set dst))"

definition fdb_bitmap_set_or :: "fdb_bitmap_t \<Rightarrow> fdb_bitmap_t \<Rightarrow> fdb_bitmap_t res" where
  "fdb_bitmap_set_or dst_bitmap src_bitmap =
     bind_res (chunk_loop (\<lambda>d s. d OR s) dst_bitmap src_bitmap)
       (\<lambda>dst. Inr (fdb_bitmap_refresh_num_set dst))"

definition fdb_bitmap_set_diff :: "fdb_bitmap_t \<Rightarrow> fdb_bitmap_t \<Rightarrow> fdb_bitmap_t res" where
  "fdb_bitmap_set_diff dst_bitmap src_bitmap =
     bind_res (chunk_loop (\<lambda>d s. d AND (d XOR s)) dst_bitmap src_bitmap)
       (\<lambda>dst. Inr (fdb_bitmap_refresh_num_set dst))"

definition fdb_bitmap_negate :: "fdb_bitmap_t \<Rightarrow> fdb_bitmap_t res" where
  "fdb_bitmap_negate bitmap =
     (let nchunks = unat (FDB_BITMAP_NUM_CHUNKS (bm_max_bits bitmap))
      in if nchunks \<le> length (bm_data bitmap)
         then Inr (fdb_bitmap_refresh_num_set (bitmap\<lparr>bm_data :=
                fold (\<lambda>i d. d[i := NOT (d ! i)]) [0..<nchunks] (bm_data bitmap)\<rparr>))
         else Inl OutOfBounds)"

definition fdb_bitmap_nullify :: "fdb_bitmap_t \<Rightarrow> fdb_bitmap_t res" where
  "fdb_bitmap_nullify bitmap =
     (let nchunks = unat (FDB_BITMAP_NUM_CHUNKS (bm_max_bits bitmap))
      in if nchunks \<le> length (bm_data bitmap)
         then Inr (bitmap\<lparr>bm_num_set := 0,
                bm_data := replicate nchunks 0 @ drop nchunks (bm_data bitmap)\<rparr>)
         else Inl OutOfBounds)"

section \<open>The specification: a set of positions\<close>

definition bits :: "fdb_bitmap_t \<Rightarrow> nat set" where
  "bits b = {i. i < 8 * length (bm_data b) \<and> bit (bm_data b ! (i div 8)) (i mod 8)}"

text \<open>
  The invariant: the buffer has the bytes its bit count asks for, no bit beyond
  \<open>m_max_bits\<close> is set, and \<open>m_num_set\<close> counts the set bits.
\<close>

definition bm_inv :: "fdb_bitmap_t \<Rightarrow> bool" where
  "bm_inv b \<longleftrightarrow> unat (bm_max_bits b) + 7 < 2 ^ 32 \<and>
     length (bm_data b) = (unat (bm_max_bits b) + 7) div 8 \<and>
     bits b \<subseteq> {..<unat (bm_max_bits b)} \<and>
     unat (bm_num_set b) = card (bits b)"

section \<open>Bytes\<close>

lemma set_bit_true_changed: "unat n < 8 \<Longrightarrow> fst (set_bit_true w n) = (\<not> bit w (unat n))"
proof -
  assume n: "unat n < 8"
  have "w = w OR push_bit (unat n) 1 \<longleftrightarrow> bit w (unat n)"
  proof
    assume "w = w OR push_bit (unat n) 1"
    then have "bit w (unat n) = bit (w OR push_bit (unat n) 1) (unat n)" by simp
    with n show "bit w (unat n)" by (simp add: bit_simps)
  next
    assume "bit w (unat n)"
    then show "w = w OR push_bit (unat n) 1"
      by (intro bit_eqI) (auto simp: bit_simps)
  qed
  then show ?thesis by (simp add: set_bit_true_def Let_def)
qed

lemma set_bit_true_bit:
  "unat n < 8 \<Longrightarrow> i < 8 \<Longrightarrow> bit (snd (set_bit_true w n)) i = (i = unat n \<or> bit w i)"
  by (auto simp: set_bit_true_def Let_def bit_simps)

lemma set_bit_false_changed: "unat n < 8 \<Longrightarrow> fst (set_bit_false w n) = bit w (unat n)"
proof -
  assume n: "unat n < 8"
  have "w = w AND NOT (push_bit (unat n) 1) \<longleftrightarrow> \<not> bit w (unat n)"
  proof
    assume "w = w AND NOT (push_bit (unat n) 1)"
    then have "bit w (unat n) = bit (w AND NOT (push_bit (unat n) 1)) (unat n)" by simp
    with n show "\<not> bit w (unat n)" by (simp add: bit_simps)
  next
    assume "\<not> bit w (unat n)"
    then show "w = w AND NOT (push_bit (unat n) 1)"
      by (intro bit_eqI) (auto simp: bit_simps)
  qed
  then show ?thesis by (simp add: set_bit_false_def Let_def)
qed

lemma set_bit_false_bit:
  "unat n < 8 \<Longrightarrow> i < 8 \<Longrightarrow> bit (snd (set_bit_false w n)) i = (i \<noteq> unat n \<and> bit w i)"
  by (auto simp: set_bit_false_def Let_def bit_simps)

lemma read_bit_iff: "unat n < 8 \<Longrightarrow> read_bit w n = bit w (unat n)"
proof -
  assume n: "unat n < 8"
  have "(ucast w :: u32) AND push_bit (unat n) 1 = 0 \<longleftrightarrow> \<not> bit w (unat n)"
  proof
    assume eq: "(ucast w :: u32) AND push_bit (unat n) 1 = 0"
    have "bit ((ucast w :: u32) AND push_bit (unat n) 1) (unat n) = bit (0 :: u32) (unat n)"
      by (simp only: eq)
    with n show "\<not> bit w (unat n)" by (simp add: bit_simps)
  next
    assume "\<not> bit w (unat n)"
    then show "(ucast w :: u32) AND push_bit (unat n) 1 = 0"
      by (intro bit_eqI) (auto simp: bit_simps)
  qed
  then show ?thesis by (simp add: read_bit_def)
qed

text \<open>The lookup table counts the bits of a nibble, so two lookups count a byte.\<close>

lemma count_bits_lookup_nibble:
  assumes "n < 16"
  shows "unat (count_bits_lookup ! n) = length (filter (bit n) [0..<4])"
proof -
  have four: "[0..<4] = [0, 1, 2, 3 :: nat]" by (simp add: upt_rec)
  have "n \<in> {0, 1, 2, 3, 4, 5, 6, 7, 8, 9, 10, 11, 12, 13, 14, 15}"
    using assms by (simp add: numeral_eq_Suc less_Suc_eq)
  then show ?thesis
    unfolding insert_iff empty_iff simp_thms
    by (elim disjE) (simp_all add: count_bits_lookup_def four bit_0)
qed

lemma length_filter_shift:
  "length (filter P [m..<m + k]) = length (filter (\<lambda>i. P (m + i)) [0..<k])"
  by (induction k) auto

lemma count_chunk_card: "unat (count_chunk w) = card {i. i < 8 \<and> bit w i}"
proof -
  let ?l = "drop_bit 4 w" and ?r = "w AND 15"
  have "unat ?l = unat w div 16"
    by (simp add: drop_bit_eq_div unat_div)
  then have ltl: "unat ?l < 16"
    by (simp add: less_mult_imp_div_less)
  have "unat ?r \<le> unat (15 :: u8)"
    by (rule word_and_le1 [THEN word_le_nat_alt [THEN iffD1]])
  then have ltr: "unat ?r < 16" by simp
  have bitl: "bit (unat ?l) i = bit w (4 + i)" for i
    by (simp add: bit_unsigned_iff bit_drop_bit_eq)
  have bitr: "bit (unat ?r) i = bit w i" if "i < 4" for i
  proof -
    have "i \<in> {0, 1, 2, 3}" using that by auto
    then show ?thesis by (auto simp: bit_unsigned_iff bit_simps)
  qed
  have l: "unat (count_bits_lookup ! unat ?l) = length (filter (\<lambda>i. bit w (4 + i)) [0..<4])"
    using ltl by (simp add: count_bits_lookup_nibble bitl cong: filter_cong)
  have r: "unat (count_bits_lookup ! unat ?r) = length (filter (bit w) [0..<4])"
    unfolding count_bits_lookup_nibble [OF ltr]
    by (rule arg_cong [where f = length], rule filter_cong) (auto simp: bitr)
  have len: "length (filter P [0..<4]) \<le> 4" for P :: "nat \<Rightarrow> bool"
    using length_filter_le [of P "[0..<4]"] by simp
  have "unat (count_chunk w) =
        length (filter (bit w) [0..<4]) + length (filter (\<lambda>i. bit w (4 + i)) [0..<4])"
    using l r len [of "bit w"] len [of "\<lambda>i. bit w (4 + i)"]
    by (simp add: count_chunk_def Let_def unat_word_ariths)
  also have "\<dots> = length (filter (bit w) [0..<4 + 4])"
    using length_filter_shift [of "bit w" 4 4] upt_add_eq_append [of 0 4 4] by simp
  finally show ?thesis by (simp add: card_filter_upt)
qed

section \<open>The operations are the set operations\<close>

named_theorems bitmap_sets \<open>what each operation does to the set of positions\<close>

definition byte_bits :: "u8 list \<Rightarrow> nat set" where
  "byte_bits ds = {i. i < 8 * length ds \<and> bit (ds ! (i div 8)) (i mod 8)}"

lemma bits_byte_bits: "bits b = byte_bits (bm_data b)"
  by (simp add: bits_def byte_bits_def)

lemma byte_bits_subset: "byte_bits ds \<subseteq> {..<8 * length ds}"
  by (auto simp: byte_bits_def)

lemma finite_byte_bits [simp]: "finite (byte_bits ds)"
  by (rule finite_subset [OF byte_bits_subset]) simp

lemma finite_bits [simp]: "finite (bits b)"
  by (simp add: bits_byte_bits)

lemma card_byte_bits_le: "card (byte_bits ds) \<le> 8 * length ds"
  using card_mono [OF _ byte_bits_subset, of ds] by simp

lemma byte_bits_update:
  assumes "c < length ds" "n < 8" and "\<And>i. i < 8 \<Longrightarrow> bit w i = (if i = n then v else bit (ds ! c) i)"
  shows "byte_bits (ds[c := w]) =
         (if v then insert (8 * c + n) (byte_bits ds) else byte_bits ds - {8 * c + n})"
proof -
  have eq: "i = 8 * c + n \<longleftrightarrow> i div 8 = c \<and> i mod 8 = n" for i
    using assms(2) by (metis div_mult_mod_eq div_mult_self4 div_less mod_less mod_mult_self4
      add.commute add_0 mult.commute zero_neq_numeral)
  show ?thesis
    using assms by (auto simp: byte_bits_def nth_list_update eq)
qed

lemma byte_bits_map2:
  assumes "length d' = length d" "length s = length d"
    and "\<And>c i. c < length d \<Longrightarrow> i < 8 \<Longrightarrow> bit (d' ! c) i = g (bit (d ! c) i) (bit (s ! c) i)"
  shows "byte_bits d' = {i. i < 8 * length d \<and> g (i \<in> byte_bits d) (i \<in> byte_bits s)}"
  using assms by (auto simp: byte_bits_def)

lemma byte_bits_snoc:
  "byte_bits (ds @ [w]) = byte_bits ds \<union> (\<lambda>i. 8 * length ds + i) ` {i. i < 8 \<and> bit w i}"
proof -
  have "i \<in> byte_bits (ds @ [w]) \<longleftrightarrow>
        i \<in> byte_bits ds \<or> (8 * length ds \<le> i \<and> i < 8 * length ds + 8 \<and> bit w (i - 8 * length ds))" for i
  proof (cases "i < 8 * length ds")
    case True
    then have "i div 8 < length ds" by simp
    with True show ?thesis by (auto simp: byte_bits_def nth_append)
  next
    case False
    then obtain j where j: "i = 8 * length ds + j" by (metis le_Suc_ex not_less)
    then show ?thesis
      using False by (auto simp: byte_bits_def nth_append)
  qed
  then show ?thesis
    by (force simp: image_iff)
qed

lemma card_byte_bits_snoc:
  "card (byte_bits (ds @ [w])) = card (byte_bits ds) + card {i. i < 8 \<and> bit w i}"
proof -
  have "card (byte_bits (ds @ [w])) =
        card (byte_bits ds) + card ((\<lambda>i. 8 * length ds + i) ` {i. i < 8 \<and> bit w i})"
    unfolding byte_bits_snoc using byte_bits_subset [of ds]
    by (intro card_Un_disjoint) auto
  then show ?thesis by (simp add: card_image inj_on_def)
qed

text \<open>\<open>refresh_num_set\<close> counts the set bits of the buffer.\<close>

lemma count_loop:
  "8 * n < 2 ^ 32 \<Longrightarrow> n \<le> length ds \<Longrightarrow>
   unat (fold (\<lambda>i m. m + count_chunk (ds ! i)) [0..<n] (0 :: u32)) = card (byte_bits (take n ds))"
proof (induction n)
  case 0
  then show ?case by (simp add: byte_bits_def)
next
  case (Suc n)
  let ?m = "fold (\<lambda>i m. m + count_chunk (ds ! i)) [0..<n] (0 :: u32)"
  have IH: "unat ?m = card (byte_bits (take n ds))" using Suc by simp
  have "card (byte_bits (take (Suc n) ds)) =
        card (byte_bits (take n ds)) + card {i. i < 8 \<and> bit (ds ! n) i}"
    using Suc.prems by (simp add: take_Suc_conv_app_nth card_byte_bits_snoc)
  moreover have "card (byte_bits (take (Suc n) ds)) < 2 ^ 32"
    using card_byte_bits_le [of "take (Suc n) ds"] Suc.prems by simp
  ultimately show ?case
    using IH by (simp add: unat_word_ariths count_chunk_card)
qed

lemma num_chunks: "unat n + 7 < 2 ^ 32 \<Longrightarrow> unat (FDB_BITMAP_NUM_CHUNKS n) = (unat n + 7) div 8"
  by (simp add: FDB_BITMAP_NUM_CHUNKS_def unat_div unat_word_ariths)

lemma bm_inv_bytes:
  assumes "bm_inv b"
  shows "8 * length (bm_data b) < 2 ^ 32"
    and "unat (FDB_BITMAP_NUM_CHUNKS (bm_max_bits b)) = length (bm_data b)"
    and "unat (bm_max_bits b) \<le> 8 * length (bm_data b)"
  using assms num_chunks [of "bm_max_bits b"] by (auto simp: bm_inv_def)

lemma refresh_num_set:
  assumes "unat (bm_max_bits b) + 7 < 2 ^ 32" "length (bm_data b) = (unat (bm_max_bits b) + 7) div 8"
  shows "unat (bm_num_set (fdb_bitmap_refresh_num_set b)) = card (bits b)"
    and "bits (fdb_bitmap_refresh_num_set b) = bits b"
    and "bm_max_bits (fdb_bitmap_refresh_num_set b) = bm_max_bits b"
    and "bm_data (fdb_bitmap_refresh_num_set b) = bm_data b"
  using assms count_loop [of "length (bm_data b)" "bm_data b"]
  by (auto simp: fdb_bitmap_refresh_num_set_def Let_def num_chunks bits_byte_bits)

lemma fdb_bitmap_init_inv:
  assumes "unat n + 7 < 2 ^ 32" "fdb_bitmap_init n al st = Inr (b, st')"
  shows "bm_inv b" "bits b = {}" "bm_max_bits b = n"
  using assms by (auto simp: fdb_bitmap_init_def Let_def bm_inv_def num_chunks bits_def
    split: prod.splits if_splits)

text \<open>A position below \<open>m_max_bits\<close> and its byte.\<close>

lemma position:
  fixes e :: u32
  assumes "bm_inv b" "unat e < unat (bm_max_bits b)"
  shows "unat (e div 8) < length (bm_data b)" "unat (e mod 8) < 8"
    "8 * unat (e div 8) + unat (e mod 8) = unat e"
    "unat (e div 8) = unat e div 8" "unat (e mod 8) = unat e mod 8"
proof -
  have "unat e < 8 * length (bm_data b)"
    using assms bm_inv_bytes(3) [of b] by simp
  then show "unat (e div 8) < length (bm_data b)" by (simp add: unat_div)
qed (simp_all add: unat_div unat_mod)

lemma mem_bits:
  fixes e :: u32
  assumes "bm_inv b" "unat e < unat (bm_max_bits b)"
  shows "unat e \<in> bits b \<longleftrightarrow> bit (bm_data b ! unat (e div 8)) (unat (e mod 8))"
  using position [OF assms] assms bm_inv_bytes(3) [OF assms(1)]
  by (auto simp: bits_def)

lemma fdb_bitmap_is_set_iff [bitmap_sets]:
  assumes "bm_inv b" "unat e < unat (bm_max_bits b)"
  shows "fdb_bitmap_is_set b e = Inr (unat e \<in> bits b)"
  using position [OF assms] mem_bits [OF assms]
  by (simp add: fdb_bitmap_is_set_def Let_def read_bit_iff)

text \<open>One byte is replaced, and the counter moves by one exactly when the byte changed.\<close>

lemma bm_inv_update:
  fixes e :: u32
  assumes inv: "bm_inv b" and e: "unat e < unat (bm_max_bits b)"
    and w: "\<And>i. i < 8 \<Longrightarrow>
      bit w i = (if i = unat (e mod 8) then v else bit (bm_data b ! unat (e div 8)) i)"
    and n: "n = (if v then bm_num_set b + of_bool (unat e \<notin> bits b)
                 else bm_num_set b - of_bool (unat e \<in> bits b))"
  shows "bm_inv (b\<lparr>bm_data := (bm_data b)[unat (e div 8) := w], bm_num_set := n\<rparr>)"
    and "bits (b\<lparr>bm_data := (bm_data b)[unat (e div 8) := w], bm_num_set := n\<rparr>) =
         (if v then insert (unat e) (bits b) else bits b - {unat e})"
proof -
  let ?b = "b\<lparr>bm_data := (bm_data b)[unat (e div 8) := w], bm_num_set := n\<rparr>"
  note pos = position [OF inv e]
  show bits: "bits ?b = (if v then insert (unat e) (bits b) else bits b - {unat e})"
    using byte_bits_update [OF pos(1,2) w] pos(3) by (simp add: bits_byte_bits)
  have sub: "bits ?b \<subseteq> {..<unat (bm_max_bits b)}"
    using inv e unfolding bits by (auto simp: bm_inv_def)
  have "card (bits ?b) \<le> unat (bm_max_bits b)"
    using card_mono [OF _ sub] by simp
  then have lt: "card (bits ?b) < 2 ^ 32" using inv by (simp add: bm_inv_def)
  have card: "unat (bm_num_set b) = card (bits b)" using inv by (simp add: bm_inv_def)
  have "unat n = card (bits ?b)"
  proof (cases v)
    case True
    then show ?thesis
      using lt card n unfolding bits
      by (auto simp: insert_absorb unat_word_ariths)
  next
    case False
    have "unat (bm_num_set b - 1) = card (bits b) - 1" if "unat e \<in> bits b"
    proof -
      have "card (bits b) \<noteq> 0" using that by (auto simp: card_eq_0_iff)
      then have "bm_num_set b \<noteq> 0" using card by auto
      then show ?thesis using card by (simp add: unat_minus_one)
    qed
    with False show ?thesis
      using card n unfolding bits by auto
  qed
  with sub inv show "bm_inv ?b" by (simp add: bm_inv_def)
qed

lemma fdb_bitmap_set_spec [bitmap_sets]:
  assumes "bm_inv b" "unat e < unat (bm_max_bits b)"
  obtains b' where "fdb_bitmap_set b e = Inr b'" "bm_inv b'" "bits b' = insert (unat e) (bits b)"
    "bm_max_bits b' = bm_max_bits b" "bm_p_data b' = bm_p_data b"
proof -
  note pos = position [OF assms] and mem = mem_bits [OF assms]
  let ?w = "snd (set_bit_true (bm_data b ! unat (e div 8)) (e mod 8))"
  let ?n = "bm_num_set b + of_bool (unat e \<notin> bits b)"
  let ?b = "b\<lparr>bm_data := (bm_data b)[unat (e div 8) := ?w], bm_num_set := ?n\<rparr>"
  have "fdb_bitmap_set b e = Inr ?b"
    using pos mem set_bit_true_changed [OF pos(2), of "bm_data b ! unat (e div 8)"]
    by (simp add: fdb_bitmap_set_def Let_def case_prod_unfold)
  moreover have "bm_inv ?b" "bits ?b = insert (unat e) (bits b)"
    using bm_inv_update [OF assms, of ?w True ?n] set_bit_true_bit [OF pos(2)] by simp_all
  ultimately show thesis by (rule that) simp_all
qed

lemma fdb_bitmap_unset_spec [bitmap_sets]:
  assumes "bm_inv b" "unat e < unat (bm_max_bits b)"
  obtains b' where "fdb_bitmap_unset b e = Inr b'" "bm_inv b'" "bits b' = bits b - {unat e}"
    "bm_max_bits b' = bm_max_bits b" "bm_p_data b' = bm_p_data b"
proof -
  note pos = position [OF assms] and mem = mem_bits [OF assms]
  let ?w = "snd (set_bit_false (bm_data b ! unat (e div 8)) (e mod 8))"
  let ?n = "bm_num_set b - of_bool (unat e \<in> bits b)"
  let ?b = "b\<lparr>bm_data := (bm_data b)[unat (e div 8) := ?w], bm_num_set := ?n\<rparr>"
  have "fdb_bitmap_unset b e = Inr ?b"
    using pos mem set_bit_false_changed [OF pos(2), of "bm_data b ! unat (e div 8)"]
    by (simp add: fdb_bitmap_unset_def Let_def case_prod_unfold)
  moreover have "bm_inv ?b" "bits ?b = bits b - {unat e}"
    using bm_inv_update [OF assms, of ?w False ?n] set_bit_false_bit [OF pos(2)] by auto
  ultimately show thesis by (rule that) simp_all
qed

lemma fdb_bitmap_set_bit_eq:
  "fdb_bitmap_set_bit b e v = (if v then fdb_bitmap_set b e else fdb_bitmap_unset b e)"
  by (simp add: fdb_bitmap_set_bit_def fdb_bitmap_set_def fdb_bitmap_unset_def)

lemma chunk_loop_spec:
  assumes "bm_inv dst" "bm_inv src" "bm_max_bits src = bm_max_bits dst"
    and f: "\<And>d s i. i < 8 \<Longrightarrow> bit (f d s) i = g (bit d i) (bit s i)"
  obtains d where "chunk_loop f dst src = Inr d"
    "bits d = {i. i < 8 * length (bm_data dst) \<and> g (i \<in> bits dst) (i \<in> bits src)}"
    "bm_max_bits d = bm_max_bits dst" "bm_p_data d = bm_p_data dst"
    "length (bm_data d) = length (bm_data dst)"
proof -
  let ?n = "length (bm_data dst)"
  have len: "length (bm_data src) = ?n" using assms(1-3) by (simp add: bm_inv_def)
  let ?d = "fold (\<lambda>i d. d[i := f (d ! i) (bm_data src ! i)]) [0..<?n] (bm_data dst)"
  have "chunk_loop f dst src = Inr (dst\<lparr>bm_data := ?d\<rparr>)"
    using bm_inv_bytes(2) [OF assms(1)] len by (simp add: chunk_loop_def)
  moreover have "bits (dst\<lparr>bm_data := ?d\<rparr>) =
      {i. i < 8 * ?n \<and> g (i \<in> bits dst) (i \<in> bits src)}"
    unfolding bits_byte_bits
    using byte_bits_map2 [of ?d "bm_data dst" "bm_data src" g] len
    by (simp add: length_fold_update [where g = "\<lambda>i d. f d (bm_data src ! i)"]
        fold_update_nth [where g = "\<lambda>i d. f d (bm_data src ! i)"] f)
  ultimately show thesis
    by (rule that) (simp_all add: length_fold_update [where g = "\<lambda>i d. f d (bm_data src ! i)"])
qed

text \<open>The bulk operations, on two bitmaps of one size.\<close>

lemma bits_lt: "bm_inv b \<Longrightarrow> i \<in> bits b \<Longrightarrow> i < 8 * length (bm_data b)"
  by (auto simp: bits_def)

lemma bulk_spec:
  assumes "bm_inv dst" "bm_inv src" "bm_max_bits src = bm_max_bits dst"
    and f: "\<And>d s i. i < 8 \<Longrightarrow> bit (f d s) i = g (bit d i) (bit s i)"
    and op: "op = bind_res (chunk_loop f dst src) (\<lambda>d. Inr (fdb_bitmap_refresh_num_set d))"
    and set: "{i. i < 8 * length (bm_data dst) \<and> g (i \<in> bits dst) (i \<in> bits src)} = A"
    and sub: "A \<subseteq> bits dst \<union> bits src"
  obtains b' where "op = Inr b'" "bm_inv b'" "bits b' = A" "bm_max_bits b' = bm_max_bits dst"
    "bm_p_data b' = bm_p_data dst"
proof -
  obtain d where d: "chunk_loop f dst src = Inr d" "bits d = A"
    "bm_max_bits d = bm_max_bits dst" "bm_p_data d = bm_p_data dst"
    "length (bm_data d) = length (bm_data dst)"
    by (rule chunk_loop_spec [OF assms(1-3), of f g]) (use f set in simp_all)
  have len: "unat (bm_max_bits d) + 7 < 2 ^ 32"
    "length (bm_data d) = (unat (bm_max_bits d) + 7) div 8"
    using assms(1) d(3,5) by (auto simp: bm_inv_def)
  have "bm_inv (fdb_bitmap_refresh_num_set d)"
    using refresh_num_set [OF len] len d(2,3) sub assms(1-3) unfolding bm_inv_def by auto
  then show thesis
    using refresh_num_set [OF len] d that [of "fdb_bitmap_refresh_num_set d"]
    by (simp add: op fdb_bitmap_refresh_num_set_def Let_def)
qed

lemma fdb_bitmap_set_and_spec [bitmap_sets]:
  assumes "bm_inv dst" "bm_inv src" "bm_max_bits src = bm_max_bits dst"
  obtains b' where "fdb_bitmap_set_and dst src = Inr b'" "bm_inv b'"
    "bits b' = bits dst \<inter> bits src" "bm_max_bits b' = bm_max_bits dst" "bm_p_data b' = bm_p_data dst"
proof (rule bulk_spec [OF assms _ fdb_bitmap_set_and_def, of "(\<and>)"])
  show "{i. i < 8 * length (bm_data dst) \<and> i \<in> bits dst \<and> i \<in> bits src} = bits dst \<inter> bits src"
    using bits_lt [OF assms(1)] by auto
qed (auto simp: bit_simps intro: that)

lemma fdb_bitmap_set_or_spec [bitmap_sets]:
  assumes "bm_inv dst" "bm_inv src" "bm_max_bits src = bm_max_bits dst"
  obtains b' where "fdb_bitmap_set_or dst src = Inr b'" "bm_inv b'"
    "bits b' = bits dst \<union> bits src" "bm_max_bits b' = bm_max_bits dst" "bm_p_data b' = bm_p_data dst"
proof (rule bulk_spec [OF assms _ fdb_bitmap_set_or_def, of "(\<or>)"])
  have "length (bm_data src) = length (bm_data dst)"
    using assms by (simp add: bm_inv_def)
  then show "{i. i < 8 * length (bm_data dst) \<and> (i \<in> bits dst \<or> i \<in> bits src)} =
      bits dst \<union> bits src"
    using bits_lt [OF assms(1)] bits_lt [OF assms(2)] by auto
qed (auto simp: bit_simps intro: that)

lemma fdb_bitmap_set_diff_spec [bitmap_sets]:
  assumes "bm_inv dst" "bm_inv src" "bm_max_bits src = bm_max_bits dst"
  obtains b' where "fdb_bitmap_set_diff dst src = Inr b'" "bm_inv b'"
    "bits b' = bits dst - bits src" "bm_max_bits b' = bm_max_bits dst" "bm_p_data b' = bm_p_data dst"
proof (rule bulk_spec [OF assms _ fdb_bitmap_set_diff_def, of "\<lambda>p q. p \<and> \<not> q"])
  show "{i. i < 8 * length (bm_data dst) \<and> i \<in> bits dst \<and> i \<notin> bits src} = bits dst - bits src"
    using bits_lt [OF assms(1)] by auto
qed (auto simp: bit_simps intro: that)

lemma fdb_bitmap_set_bitmap_spec [bitmap_sets]:
  assumes "bm_inv dst" "bm_inv src" "bm_max_bits src = bm_max_bits dst"
  obtains b' where "fdb_bitmap_set_bitmap dst src = Inr b'" "bm_inv b'" "bits b' = bits src"
    "bm_max_bits b' = bm_max_bits dst" "bm_p_data b' = bm_p_data dst"
proof -
  obtain d where d: "chunk_loop (\<lambda>d s. s) dst src = Inr d"
    "bits d = {i. i < 8 * length (bm_data dst) \<and> i \<in> bits src}"
    "bm_max_bits d = bm_max_bits dst" "bm_p_data d = bm_p_data dst"
    "length (bm_data d) = length (bm_data dst)"
    by (rule chunk_loop_spec [OF assms, of "\<lambda>d s. s" "\<lambda>p q. q"]) simp_all
  have len: "length (bm_data src) = length (bm_data dst)"
    using assms by (simp add: bm_inv_def)
  have bits: "bits d = bits src" using d(2) len bits_lt [OF assms(2)] by auto
  then have "bm_inv (d\<lparr>bm_num_set := bm_num_set src\<rparr>)"
    using assms d by (auto simp: bm_inv_def bits_byte_bits)
  then show thesis
    using d bits that [of "d\<lparr>bm_num_set := bm_num_set src\<rparr>"]
    by (simp add: fdb_bitmap_set_bitmap_def bits_byte_bits)
qed

text \<open>\<open>negate\<close> flips the padding of the last byte too: its result is a bitmap of the
  complement only when the bit count is a multiple of eight.\<close>

lemma fdb_bitmap_negate_bits:
  assumes "bm_inv b"
  obtains b' where "fdb_bitmap_negate b = Inr b'"
    "bits b' = {..<8 * length (bm_data b)} - bits b" "unat (bm_num_set b') = card (bits b')"
    "bm_max_bits b' = bm_max_bits b" "length (bm_data b') = length (bm_data b)"
proof -
  let ?n = "length (bm_data b)"
  let ?d = "fold (\<lambda>i d. d[i := NOT (d ! i)]) [0..<?n] (bm_data b)"
  let ?b = "b\<lparr>bm_data := ?d\<rparr>"
  have len: "length ?d = ?n" by (rule length_fold_update [where g = "\<lambda>i. NOT"])
  have "byte_bits ?d = {i. i < 8 * ?n \<and> i \<notin> byte_bits (bm_data b)}"
    by (rule byte_bits_map2 [where s = "bm_data b" and g = "\<lambda>p q. \<not> p"])
      (simp_all add: len fold_update_nth [where g = "\<lambda>i. NOT"] bit_simps)
  then have bits: "bits ?b = {..<8 * ?n} - bits b"
    by (auto simp: bits_byte_bits)
  have "fdb_bitmap_negate b = Inr (fdb_bitmap_refresh_num_set ?b)"
    using bm_inv_bytes(2) [OF assms] by (simp add: fdb_bitmap_negate_def)
  then show thesis
    using that [of "fdb_bitmap_refresh_num_set ?b"] refresh_num_set [of ?b] bits len assms
    by (simp add: bm_inv_def)
qed

lemma fdb_bitmap_negate_spec [bitmap_sets]:
  assumes "bm_inv b" "8 dvd unat (bm_max_bits b)"
  obtains b' where "fdb_bitmap_negate b = Inr b'" "bm_inv b'"
    "bits b' = {..<unat (bm_max_bits b)} - bits b" "bm_max_bits b' = bm_max_bits b"
proof -
  obtain b' where b': "fdb_bitmap_negate b = Inr b'"
    "bits b' = {..<8 * length (bm_data b)} - bits b" "unat (bm_num_set b') = card (bits b')"
    "bm_max_bits b' = bm_max_bits b" "length (bm_data b') = length (bm_data b)"
    by (rule fdb_bitmap_negate_bits [OF assms(1)])
  obtain k where k: "unat (bm_max_bits b) = 8 * k" using assms(2) by blast
  then have "8 * length (bm_data b) = unat (bm_max_bits b)"
    using assms(1) by (simp add: bm_inv_def)
  then show thesis
    using b' assms(1) by (intro that [of b']) (auto simp: bm_inv_def)
qed

lemma fdb_bitmap_nullify_spec [bitmap_sets]:
  assumes "bm_inv b"
  obtains b' where "fdb_bitmap_nullify b = Inr b'" "bm_inv b'" "bits b' = {}"
    "bm_max_bits b' = bm_max_bits b" "bm_p_data b' = bm_p_data b"
proof -
  let ?b = "b\<lparr>bm_num_set := 0, bm_data := replicate (length (bm_data b)) 0\<rparr>"
  have "fdb_bitmap_nullify b = Inr ?b"
    using bm_inv_bytes(2) [OF assms] by (simp add: fdb_bitmap_nullify_def)
  moreover have "bits ?b = {}" by (auto simp: bits_def)
  ultimately show thesis
    using assms that [of ?b] by (simp add: bm_inv_def)
qed

section \<open>Properties\<close>

text \<open>A sequence of operations on one bitmap, and the set operation each stands for.\<close>

datatype bm_cmd = BSet u32 | BUnset u32 | BPut u32 bool | BAnd fdb_bitmap_t | BOr fdb_bitmap_t
  | BDiff fdb_bitmap_t | BCopy fdb_bitmap_t | BNegate | BNullify

fun bm_exec :: "bm_cmd \<Rightarrow> fdb_bitmap_t \<Rightarrow> fdb_bitmap_t res" where
  "bm_exec (BSet e) b = fdb_bitmap_set b e"
| "bm_exec (BUnset e) b = fdb_bitmap_unset b e"
| "bm_exec (BPut e v) b = fdb_bitmap_set_bit b e v"
| "bm_exec (BAnd c) b = fdb_bitmap_set_and b c"
| "bm_exec (BOr c) b = fdb_bitmap_set_or b c"
| "bm_exec (BDiff c) b = fdb_bitmap_set_diff b c"
| "bm_exec (BCopy c) b = fdb_bitmap_set_bitmap b c"
| "bm_exec BNegate b = fdb_bitmap_negate b"
| "bm_exec BNullify b = fdb_bitmap_nullify b"

fun bm_abs :: "nat \<Rightarrow> bm_cmd \<Rightarrow> nat set \<Rightarrow> nat set" where
  "bm_abs n (BSet e) A = insert (unat e) A"
| "bm_abs n (BUnset e) A = A - {unat e}"
| "bm_abs n (BPut e v) A = (if v then insert (unat e) A else A - {unat e})"
| "bm_abs n (BAnd c) A = A \<inter> bits c"
| "bm_abs n (BOr c) A = A \<union> bits c"
| "bm_abs n (BDiff c) A = A - bits c"
| "bm_abs n (BCopy c) A = bits c"
| "bm_abs n BNegate A = {..<n} - A"
| "bm_abs n BNullify A = {}"

fun bm_legal :: "u32 \<Rightarrow> bm_cmd \<Rightarrow> bool" where
  "bm_legal n (BSet e) \<longleftrightarrow> e < n"
| "bm_legal n (BUnset e) \<longleftrightarrow> e < n"
| "bm_legal n (BPut e v) \<longleftrightarrow> e < n"
| "bm_legal n (BAnd c) \<longleftrightarrow> bm_inv c \<and> bm_max_bits c = n"
| "bm_legal n (BOr c) \<longleftrightarrow> bm_inv c \<and> bm_max_bits c = n"
| "bm_legal n (BDiff c) \<longleftrightarrow> bm_inv c \<and> bm_max_bits c = n"
| "bm_legal n (BCopy c) \<longleftrightarrow> bm_inv c \<and> bm_max_bits c = n"
| "bm_legal n BNegate \<longleftrightarrow> 8 dvd unat n"
| "bm_legal n BNullify \<longleftrightarrow> True"

fun bm_run :: "bm_cmd list \<Rightarrow> fdb_bitmap_t \<Rightarrow> fdb_bitmap_t res" where
  "bm_run [] b = Inr b"
| "bm_run (c # cs) b = bind_res (bm_exec c b) (bm_run cs)"

lemma bm_exec_spec:
  assumes "bm_inv b" "bm_legal (bm_max_bits b) c"
  obtains b' where "bm_exec c b = Inr b'" "bm_inv b'" "bm_max_bits b' = bm_max_bits b"
    "bits b' = bm_abs (unat (bm_max_bits b)) c (bits b)"
proof (cases c)
  case (BSet e)
  then have e: "unat e < unat (bm_max_bits b)" using assms(2) by (simp add: word_less_nat_alt)
  show thesis by (rule fdb_bitmap_set_spec [OF assms(1) e]) (use BSet that in auto)
next
  case (BUnset e)
  then have e: "unat e < unat (bm_max_bits b)" using assms(2) by (simp add: word_less_nat_alt)
  show thesis by (rule fdb_bitmap_unset_spec [OF assms(1) e]) (use BUnset that in auto)
next
  case (BPut e v)
  then have e: "unat e < unat (bm_max_bits b)" using assms(2) by (simp add: word_less_nat_alt)
  show thesis
  proof (cases v)
    case True
    show thesis
      by (rule fdb_bitmap_set_spec [OF assms(1) e]) (use BPut True that in \<open>auto simp: fdb_bitmap_set_bit_eq\<close>)
  next
    case False
    show thesis
      by (rule fdb_bitmap_unset_spec [OF assms(1) e]) (use BPut False that in \<open>auto simp: fdb_bitmap_set_bit_eq\<close>)
  qed
next
  case (BAnd d)
  then have d: "bm_inv d" "bm_max_bits d = bm_max_bits b" using assms(2) by simp_all
  show thesis by (rule fdb_bitmap_set_and_spec [OF assms(1) d]) (use BAnd that in auto)
next
  case (BOr d)
  then have d: "bm_inv d" "bm_max_bits d = bm_max_bits b" using assms(2) by simp_all
  show thesis by (rule fdb_bitmap_set_or_spec [OF assms(1) d]) (use BOr that in auto)
next
  case (BDiff d)
  then have d: "bm_inv d" "bm_max_bits d = bm_max_bits b" using assms(2) by simp_all
  show thesis by (rule fdb_bitmap_set_diff_spec [OF assms(1) d]) (use BDiff that in auto)
next
  case (BCopy d)
  then have d: "bm_inv d" "bm_max_bits d = bm_max_bits b" using assms(2) by simp_all
  show thesis by (rule fdb_bitmap_set_bitmap_spec [OF assms(1) d]) (use BCopy that in auto)
next
  case BNegate
  then have d: "8 dvd unat (bm_max_bits b)" using assms(2) by simp
  show thesis by (rule fdb_bitmap_negate_spec [OF assms(1) d]) (use BNegate that in auto)
next
  case BNullify
  show thesis by (rule fdb_bitmap_nullify_spec [OF assms(1)]) (use BNullify that in auto)
qed

lemma bm_run_spec:
  assumes "bm_inv b" "\<forall>c\<in>set cs. bm_legal (bm_max_bits b) c"
  obtains b' where "bm_run cs b = Inr b'" "bm_inv b'" "bm_max_bits b' = bm_max_bits b"
    "bits b' = fold (bm_abs (unat (bm_max_bits b))) cs (bits b)"
  using assms
proof (induction cs arbitrary: b thesis)
  case Nil
  then show ?case by simp
next
  case (Cons c cs)
  obtain b1 where b1: "bm_exec c b = Inr b1" "bm_inv b1" "bm_max_bits b1 = bm_max_bits b"
    "bits b1 = bm_abs (unat (bm_max_bits b)) c (bits b)"
    using bm_exec_spec [OF Cons.prems(2)] Cons.prems(3) by auto
  show ?case
    by (rule Cons.IH [of b1]) (use b1 Cons.prems in auto)
qed

text \<open>C31: A bitmap made by \<open>fdb_bitmap_init\<close> behaves, under every sequence of operations in
  range, as a set of positions: no operation fails or leaves the buffer, membership tests
  answer for that set, and \<open>m_num_set\<close> is its cardinality. Negation is included for bit
  counts that fill their last byte.\<close>

theorem bitmap_refines_set:
  assumes "unat n + 7 < 2 ^ 32" "fdb_bitmap_init n al st = Inr (b0, st')"
    and "\<forall>c\<in>set cs. bm_legal n c"
  shows "\<exists>b. bm_run cs b0 = Inr b \<and> unat (bm_num_set b) = card (fold (bm_abs (unat n)) cs {}) \<and>
    (\<forall>e<n. fdb_bitmap_is_set b e = Inr (unat e \<in> fold (bm_abs (unat n)) cs {}))"
proof -
  note i = fdb_bitmap_init_inv [OF assms(1,2)]
  obtain b where b: "bm_run cs b0 = Inr b" "bm_inv b" "bm_max_bits b = n"
    "bits b = fold (bm_abs (unat n)) cs {}"
    using bm_run_spec [OF i(1)] i assms(3) by metis
  then show ?thesis
    using fdb_bitmap_is_set_iff [OF b(2)] by (auto simp: bm_inv_def word_less_nat_alt)
qed

theorem bitmap_refines_set_witness:
  "\<exists>b. bm_run [BSet 3, BPut 9 True, BNegate, BUnset 5]
        \<lparr>bm_max_bits = 16, bm_num_set = 0, bm_p_data = 64, bm_data = [0, 0]\<rparr> = Inr b \<and>
     bm_num_set b = 13 \<and> fdb_bitmap_is_set b 3 = Inr False \<and> fdb_bitmap_is_set b 4 = Inr True"
proof -
  let ?al = "\<lparr>p_mem_alloc = (\<lambda>s al sz h. (64, s)), p_mem_free = (\<lambda>s p. s), p_mem_stats = None\<rparr>
    :: unit fdb_mem_allocator_t"
  let ?cs = "[BSet 3, BPut 9 True, BNegate, BUnset 5]"
  have i: "fdb_bitmap_init 16 ?al () =
      Inr (\<lparr>bm_max_bits = 16, bm_num_set = 0, bm_p_data = 64, bm_data = [0, 0]\<rparr>, ())"
  proof -
    have "FDB_BITMAP_NUM_CHUNKS 16 = 2" by (simp add: FDB_BITMAP_NUM_CHUNKS_def)
    moreover have "replicate 2 (0 :: u8) = [0, 0]" by (simp add: numeral_2_eq_2)
    ultimately show ?thesis by (simp add: fdb_bitmap_init_def mem_alloc_def)
  qed
  have s: "fold (bm_abs (unat (16 :: u32))) ?cs {} = {..<16} - {3, 9, 5}" by auto
  have "card ({..<16 :: nat} - {3, 9, 5}) = 13" by (subst card_Diff_subset) auto
  with bitmap_refines_set [OF _ i, of ?cs] obtain b where b: "bm_run ?cs
        \<lparr>bm_max_bits = 16, bm_num_set = 0, bm_p_data = 64, bm_data = [0, 0]\<rparr> = Inr b"
    "unat (bm_num_set b) = 13"
    "\<And>e. e < 16 \<Longrightarrow> fdb_bitmap_is_set b e = Inr (unat e \<in> {..<16} - {3, 9, 5})"
    unfolding s by auto
  have "bm_num_set b = 13" using b(2) by (simp add: word_unat_eq_iff)
  then show ?thesis using b(1) b(3) [of 3] b(3) [of 4] by auto
qed

text \<open>Negation flips whole bytes, the padding of the last one included. When \<open>m_max_bits\<close>
  is not a multiple of 8 the padding bits become set, \<open>m_num_set\<close> counts them, and the
  bitmap claims more set bits than the positions it has left.\<close>

theorem bitmap_negate_padding:
  assumes "bm_inv b" "\<not> 8 dvd unat (bm_max_bits b)"
  shows "\<exists>b'. fdb_bitmap_negate b = Inr b' \<and>
    unat (bm_num_set b') = 8 * ((unat (bm_max_bits b) + 7) div 8) - card (bits b) \<and>
    unat (bm_max_bits b) - card (bits b) < unat (bm_num_set b') \<and> \<not> bm_inv b'"
proof -
  obtain b' where b': "fdb_bitmap_negate b = Inr b'"
    "bits b' = {..<8 * length (bm_data b)} - bits b" "unat (bm_num_set b') = card (bits b')"
    "bm_max_bits b' = bm_max_bits b" "length (bm_data b') = length (bm_data b)"
    by (rule fdb_bitmap_negate_bits [OF assms(1)])
  let ?m = "unat (bm_max_bits b)" and ?l = "length (bm_data b)"
  have l: "?l = (?m + 7) div 8" and sub: "bits b \<subseteq> {..<?m}" using assms(1) by (auto simp: bm_inv_def)
  have lt: "?m < 8 * ?l" using assms(2) l by presburger
  have c: "card (bits b) \<le> ?m" using card_mono [OF _ sub] by simp
  have "card (bits b') = 8 * ?l - card (bits b)"
    unfolding b'(2) using sub lt by (subst card_Diff_subset) auto
  moreover have "?m \<in> bits b'" using b'(2) lt sub by auto
  moreover from this have "\<not> bm_inv b'" using b'(4) by (auto simp: bm_inv_def)
  moreover have "?m - card (bits b) < 8 * ?l - card (bits b)" using lt c by linarith
  ultimately show ?thesis unfolding l [symmetric] using b'(1,3) by metis
qed

theorem bitmap_negate_padding_witness:
  "\<exists>b'. fdb_bitmap_negate \<lparr>bm_max_bits = 3, bm_num_set = 0, bm_p_data = 64, bm_data = [0]\<rparr> = Inr b' \<and>
     unat (bm_num_set b') = 8"
proof -
  let ?b = "\<lparr>bm_max_bits = 3, bm_num_set = 0, bm_p_data = 64, bm_data = [0]\<rparr>"
  have "bits ?b = {}" by (auto simp: bits_def)
  moreover from this have "bm_inv ?b" by (simp add: bm_inv_def)
  ultimately show ?thesis using bitmap_negate_padding [of ?b] by auto
qed

end
