(* ===== verification/PageAlloc.thy ===== *)
theory PageAlloc
  imports Memory
begin

text \<open>
  src/src/common/memory/page\_allocator.c: one region cut into small pages from the bottom
  (\<open>p_stop\<close> grows) and large pages from the top (\<open>p_ltop\<close> shrinks), each with a free
  list. The operations run under the allocator's mutex, so each is one atomic step here.
  The theory interprets \<open>mem_provider\<close> on these operations.
\<close>

section \<open>State and operations\<close>

record fdb_page_alloc_t =
  pg_data :: ptr
  pg_stop :: ptr
  pg_ltop :: ptr
  pg_snextfree :: ptr
  pg_lnextfree :: ptr
  pg_sregion :: u64
  pg_ssize :: u32
  pg_lsize :: u32
  pg_stats :: fdb_mem_stats_t
  pg_hdr :: "ptr \<Rightarrow> ptr"   \<comment> \<open>the headers \<open>fdb_page_alloc_header_t\<close> in the pages, by address: those of pages
    that are at least 8 bytes wide do not overlap\<close>

text \<open>The size argument of \<open>mem_alloc\<close> is 32 bits wide: \<open>sregion\<close> is truncated.\<close>

definition fdb_page_alloc_init ::
  "'st fdb_mem_allocator_t \<Rightarrow> 'st \<Rightarrow> (ptr \<Rightarrow> ptr) \<Rightarrow> u64 \<Rightarrow> u32 \<Rightarrow> u32 \<Rightarrow>
   (fdb_page_alloc_t \<times> 'st) res" where
  "fdb_page_alloc_init gallocator st mem sregion ssmall slarge =
     (if ssmall = 0 \<or> slarge = 0 then Inl DivByZero else
      let (data, st) = mem_alloc gallocator st FDB_MIN_ALIGNMENT (ucast sregion) FDB_NO_HINT;
          soffset = (ucast (ucast ssmall - data mod ucast ssmall) :: u32);
          soffset = (if soffset = ssmall then 0 else soffset);
          lbaseaddr = (data + sregion) - ucast slarge;
          loffset = (ucast (lbaseaddr mod ucast slarge) :: u32)
      in Inr (\<lparr>pg_data = data, pg_stop = data + ucast soffset, pg_ltop = lbaseaddr - ucast loffset,
           pg_snextfree = NULL, pg_lnextfree = NULL, pg_sregion = sregion,
           pg_ssize = ssmall, pg_lsize = slarge,
           pg_stats = \<lparr>st_allocated = sregion, st_lost = 0, st_used = 0\<rparr>, pg_hdr = mem\<rparr>, st))"

definition fdb_page_alloc_release ::
  "'st fdb_mem_allocator_t \<Rightarrow> fdb_page_alloc_t \<Rightarrow> 'st \<Rightarrow> 'st" where
  "fdb_page_alloc_release gallocator palloc st = mem_free gallocator st (pg_data palloc)"

definition pg_used_add :: "u64 \<Rightarrow> fdb_mem_stats_t \<Rightarrow> fdb_mem_stats_t" where
  "pg_used_add n s = s\<lparr>st_used := st_used s + n\<rparr>"

definition fdb_page_alloc_alloc ::
  "fdb_page_alloc_t \<Rightarrow> u32 \<Rightarrow> u32 \<Rightarrow> u32 \<Rightarrow> ptr \<times> fdb_page_alloc_t" where
  "fdb_page_alloc_alloc palloc alignment sz hint =
     (if sz = pg_ssize palloc then
        (if pg_snextfree palloc \<noteq> NULL then
           (pg_snextfree palloc,
            palloc\<lparr>pg_snextfree := pg_hdr palloc (pg_snextfree palloc)\<rparr>)
         else
           (pg_stop palloc,
            palloc\<lparr>pg_stop := pg_stop palloc + ucast (pg_ssize palloc),
                   pg_stats := pg_used_add (ucast (pg_ssize palloc)) (pg_stats palloc)\<rparr>))
      else
        (if pg_lnextfree palloc \<noteq> NULL then
           (pg_lnextfree palloc,
            palloc\<lparr>pg_lnextfree := pg_hdr palloc (pg_lnextfree palloc)\<rparr>)
         else
           (pg_ltop palloc,
            palloc\<lparr>pg_ltop := pg_ltop palloc - ucast (pg_lsize palloc),
                   pg_stats := pg_used_add (ucast (pg_lsize palloc)) (pg_stats palloc)\<rparr>)))"

definition fdb_page_alloc_free :: "fdb_page_alloc_t \<Rightarrow> ptr \<Rightarrow> fdb_page_alloc_t" where
  "fdb_page_alloc_free palloc p =
     (if pg_data palloc \<le> p \<and> p < pg_stop palloc then
        palloc\<lparr>pg_hdr := (pg_hdr palloc)(p := pg_snextfree palloc), pg_snextfree := p,
               pg_stats := pg_used_add (- ucast (pg_ssize palloc)) (pg_stats palloc)\<rparr>
      else
        palloc\<lparr>pg_hdr := (pg_hdr palloc)(p := pg_lnextfree palloc), pg_lnextfree := p,
               pg_stats := pg_used_add (- ucast (pg_lsize palloc)) (pg_stats palloc)\<rparr>)"

definition fdb_page_alloc_stats :: "fdb_page_alloc_t \<Rightarrow> fdb_mem_stats_t" where
  "fdb_page_alloc_stats palloc = pg_stats palloc"

text \<open>\<open>m_super\<close>: the wrappers as an allocator over the page allocator's own state.\<close>

definition fdb_page_alloc_super :: "fdb_page_alloc_t fdb_mem_allocator_t" where
  "fdb_page_alloc_super = \<lparr>p_mem_alloc = fdb_page_alloc_alloc, p_mem_free = fdb_page_alloc_free,
     p_mem_stats = Some fdb_page_alloc_stats\<rparr>"

section \<open>The invariant\<close>

text \<open>The small and the large pages cut so far, held by clients or on a free list.\<close>

definition small_pages :: "fdb_page_alloc_t \<Rightarrow> ptr set" where
  "small_pages pa = {p. unat (pg_data pa) \<le> unat p \<and> unat p < unat (pg_stop pa) \<and>
     unat (pg_ssize pa) dvd unat p}"

definition large_pages :: "fdb_page_alloc_t \<Rightarrow> ptr set" where
  "large_pages pa = {p. unat (pg_ltop pa) < unat p \<and>
     unat p + unat (pg_lsize pa) \<le> unat (pg_data pa) + unat (pg_sregion pa) \<and>
     unat (pg_lsize pa) dvd unat p}"

text \<open>The layout of the region: the small pages end before the large ones start.\<close>

definition page_layout :: "fdb_page_alloc_t \<Rightarrow> bool" where
  "page_layout pa \<longleftrightarrow>
     0 < unat (pg_ssize pa) \<and> 0 < unat (pg_lsize pa) \<and> 0 < unat (pg_data pa) \<and>
     unat (pg_data pa) + unat (pg_sregion pa) < 2 ^ 64 \<and>
     unat (pg_data pa) \<le> unat (pg_stop pa) \<and>
     unat (pg_stop pa) \<le> unat (pg_ltop pa) + unat (pg_lsize pa) \<and>
     unat (pg_ltop pa) + unat (pg_lsize pa) \<le> unat (pg_data pa) + unat (pg_sregion pa) \<and>
     unat (pg_ssize pa) dvd unat (pg_stop pa) \<and> unat (pg_lsize pa) dvd unat (pg_ltop pa)"

definition page_inv :: "fdb_page_alloc_t \<Rightarrow> (ptr \<rightharpoonup> nat) \<Rightarrow> bool" where
  "page_inv pa live \<longleftrightarrow> page_layout pa \<and>
     (\<exists>ss ls. chained (pg_hdr pa) (pg_snextfree pa) ss \<and> chained (pg_hdr pa) (pg_lnextfree pa) ls \<and>
        distinct ss \<and> distinct ls \<and> set ss \<subseteq> small_pages pa \<and> set ls \<subseteq> large_pages pa \<and>
        live = (\<lambda>p. if p \<in> small_pages pa - set ss then Some (unat (pg_ssize pa))
                    else if p \<in> large_pages pa - set ls then Some (unat (pg_lsize pa)) else None))"

definition page_room :: "fdb_page_alloc_t \<Rightarrow> nat \<Rightarrow> bool" where
  "page_room pa n \<longleftrightarrow>
     unat (pg_stop pa) + n * (unat (pg_ssize pa) + unat (pg_lsize pa)) \<le> unat (pg_ltop pa)"

definition page_serves :: "fdb_page_alloc_t \<Rightarrow> u32 \<Rightarrow> u32 \<Rightarrow> bool" where
  "page_serves pa al sz \<longleftrightarrow> (sz = pg_ssize pa \<or> sz = pg_lsize pa) \<and> unat al dvd unat sz"

section \<open>The laws of the allocator contract\<close>

lemma small_end:
  "page_layout pa \<Longrightarrow> p \<in> small_pages pa \<Longrightarrow> unat p + unat (pg_ssize pa) \<le> unat (pg_stop pa)"
  by (auto simp: page_layout_def small_pages_def intro: multiples_apart)

lemma large_start:
  "page_layout pa \<Longrightarrow> p \<in> large_pages pa \<Longrightarrow> unat (pg_ltop pa) + unat (pg_lsize pa) \<le> unat p"
  by (auto simp: page_layout_def large_pages_def intro: multiples_apart)

lemma small_large_disjoint: "page_layout pa \<Longrightarrow> small_pages pa \<inter> large_pages pa = {}"
  using small_end large_start by (fastforce simp: page_layout_def)

lemma small_apart:
  assumes "p \<in> small_pages pa" "q \<in> small_pages pa" "p \<noteq> q"
  shows "apart p (unat (pg_ssize pa)) q (unat (pg_ssize pa))"
  using assms multiples_apart [of "unat (pg_ssize pa)" "unat p" "unat q"]
    multiples_apart [of "unat (pg_ssize pa)" "unat q" "unat p"]
  by (auto simp: small_pages_def apart_def word_unat_eq_iff nat_neq_iff)

lemma large_apart:
  assumes "p \<in> large_pages pa" "q \<in> large_pages pa" "p \<noteq> q"
  shows "apart p (unat (pg_lsize pa)) q (unat (pg_lsize pa))"
  using assms multiples_apart [of "unat (pg_lsize pa)" "unat p" "unat q"]
    multiples_apart [of "unat (pg_lsize pa)" "unat q" "unat p"]
  by (auto simp: large_pages_def apart_def word_unat_eq_iff nat_neq_iff)

lemma small_large_apart:
  assumes "page_layout pa" "p \<in> small_pages pa" "q \<in> large_pages pa"
  shows "apart p (unat (pg_ssize pa)) q (unat (pg_lsize pa))"
  using small_end [OF assms(1,2)] large_start [OF assms(1,3)] assms(1)
  by (simp add: apart_def page_layout_def)

lemma page_live_apart:
  assumes "page_layout pa" "p \<noteq> q"
    and "p \<in> small_pages pa \<and> n = unat (pg_ssize pa) \<or> p \<in> large_pages pa \<and> n = unat (pg_lsize pa)"
    and "q \<in> small_pages pa \<and> m = unat (pg_ssize pa) \<or> q \<in> large_pages pa \<and> m = unat (pg_lsize pa)"
  shows "apart p n q m"
  using assms small_apart large_apart small_large_apart apart_sym by metis

lemma page_live_cases:
  assumes "page_inv pa live" "live q = Some m"
  shows "q \<in> small_pages pa \<and> m = unat (pg_ssize pa) \<or> q \<in> large_pages pa \<and> m = unat (pg_lsize pa)"
  using assms by (auto simp: page_inv_def split: if_splits)

lemma page_small_or_large:
  assumes "page_layout pa" "p \<in> small_pages pa" "q \<in> large_pages pa" shows "p \<noteq> q"
  using small_large_disjoint [OF assms(1)] assms(2,3) by auto

text \<open>A page of either kind that nobody holds is a block that fits.\<close>

lemma page_fits:
  assumes inv: "page_inv pa live" and free: "live p = None" and lay: "page_layout pa'"
    and same: "pg_ssize pa' = pg_ssize pa" "pg_lsize pa' = pg_lsize pa"
      "small_pages pa \<subseteq> small_pages pa'" "large_pages pa \<subseteq> large_pages pa'"
    and p: "p \<in> small_pages pa' \<and> n = unat (pg_ssize pa') \<or>
            p \<in> large_pages pa' \<and> n = unat (pg_lsize pa')"
  shows "fits live p n"
  unfolding fits_def
proof (intro conjI allI impI)
  have "0 < unat p"
    using p lay by (auto simp: small_pages_def large_pages_def page_layout_def)
  then show "p \<noteq> NULL" by auto
  show "live p = None" by (rule free)
  have "unat p + n \<le> unat (pg_data pa') + unat (pg_sregion pa')"
    using p lay small_end [OF lay, of p] by (auto simp: large_pages_def page_layout_def)
  then show "unat p + n < 2 ^ 64" using lay by (simp add: page_layout_def)
next
  fix q m assume "live q = Some m"
  with page_live_cases [OF inv this] free same
  have "p \<noteq> q" "q \<in> small_pages pa' \<and> m = unat (pg_ssize pa') \<or>
                 q \<in> large_pages pa' \<and> m = unat (pg_lsize pa')" by auto
  then show "apart p n q m" using page_live_apart [OF lay] p by blast
qed

text \<open>The invariant, seen from a caller who knows the two free lists.\<close>

definition page_live :: "fdb_page_alloc_t \<Rightarrow> ptr set \<Rightarrow> ptr set \<Rightarrow> ptr \<rightharpoonup> nat" where
  "page_live pa ss ls =
     (\<lambda>p. if p \<in> small_pages pa - ss then Some (unat (pg_ssize pa))
          else if p \<in> large_pages pa - ls then Some (unat (pg_lsize pa)) else None)"

lemma page_invE:
  assumes "page_inv pa live"
  obtains ss ls where "page_layout pa" "chained (pg_hdr pa) (pg_snextfree pa) ss"
    "chained (pg_hdr pa) (pg_lnextfree pa) ls" "distinct ss" "distinct ls"
    "set ss \<subseteq> small_pages pa" "set ls \<subseteq> large_pages pa"
    "live = page_live pa (set ss) (set ls)"
  using assms by (auto simp: page_inv_def page_live_def)

lemma page_invI:
  assumes "page_layout pa" "chained (pg_hdr pa) (pg_snextfree pa) ss"
    "chained (pg_hdr pa) (pg_lnextfree pa) ls" "distinct ss" "distinct ls"
    "set ss \<subseteq> small_pages pa" "set ls \<subseteq> large_pages pa"
    "live = page_live pa (set ss) (set ls)"
  shows "page_inv pa live"
  using assms unfolding page_inv_def page_live_def by blast

lemma page_upd_same [simp]:
  "small_pages (pa\<lparr>pg_snextfree := a, pg_hdr := b, pg_stats := c, pg_lnextfree := d\<rparr>) = small_pages pa"
  "small_pages (pa\<lparr>pg_snextfree := a\<rparr>) = small_pages pa"
  "small_pages (pa\<lparr>pg_lnextfree := a\<rparr>) = small_pages pa"
  "small_pages (pa\<lparr>pg_hdr := b\<rparr>) = small_pages pa"
  "small_pages (pa\<lparr>pg_stats := c\<rparr>) = small_pages pa"
  "large_pages (pa\<lparr>pg_snextfree := a\<rparr>) = large_pages pa"
  "large_pages (pa\<lparr>pg_lnextfree := a\<rparr>) = large_pages pa"
  "large_pages (pa\<lparr>pg_hdr := b\<rparr>) = large_pages pa"
  "large_pages (pa\<lparr>pg_stats := c\<rparr>) = large_pages pa"
  "page_layout (pa\<lparr>pg_snextfree := a\<rparr>) = page_layout pa"
  "page_layout (pa\<lparr>pg_lnextfree := a\<rparr>) = page_layout pa"
  "page_layout (pa\<lparr>pg_hdr := b\<rparr>) = page_layout pa"
  "page_layout (pa\<lparr>pg_stats := c\<rparr>) = page_layout pa"
  by (simp_all add: small_pages_def large_pages_def page_layout_def)

text \<open>One lemma per branch of the allocation: what it makes of the invariant.\<close>

lemma page_reuse_small:
  assumes inv: "page_inv pa live" and ne: "pg_snextfree pa \<noteq> NULL"
  defines "p \<equiv> pg_snextfree pa"
  shows "p \<in> small_pages pa \<and> live p = None \<and>
    page_inv (pa\<lparr>pg_snextfree := pg_hdr pa p\<rparr>) (live(p \<mapsto> unat (pg_ssize pa)))"
proof -
  obtain ss ls where i: "page_layout pa" "chained (pg_hdr pa) (pg_snextfree pa) ss"
    "chained (pg_hdr pa) (pg_lnextfree pa) ls" "distinct ss" "distinct ls"
    "set ss \<subseteq> small_pages pa" "set ls \<subseteq> large_pages pa" "live = page_live pa (set ss) (set ls)"
    using inv by (rule page_invE)
  then obtain ys where ys: "ss = p # ys" "chained (pg_hdr pa) (pg_hdr pa p) ys"
    using ne chained_nonempty p_def by blast
  have p: "p \<in> small_pages pa" "p \<notin> large_pages pa"
    using i ys page_small_or_large [OF i(1), of p p] by auto
  have "page_inv (pa\<lparr>pg_snextfree := pg_hdr pa p\<rparr>) (live(p \<mapsto> unat (pg_ssize pa)))"
    by (rule page_invI [where ss = ys and ls = ls])
       (use i ys p in \<open>auto simp: page_live_def fun_eq_iff\<close>)
  moreover have "live p = None" using i(8) ys p by (simp add: page_live_def)
  ultimately show ?thesis using p by blast
qed

lemma page_reuse_large:
  assumes inv: "page_inv pa live" and ne: "pg_lnextfree pa \<noteq> NULL"
  defines "p \<equiv> pg_lnextfree pa"
  shows "p \<in> large_pages pa \<and> live p = None \<and>
    page_inv (pa\<lparr>pg_lnextfree := pg_hdr pa p\<rparr>) (live(p \<mapsto> unat (pg_lsize pa)))"
proof -
  obtain ss ls where i: "page_layout pa" "chained (pg_hdr pa) (pg_snextfree pa) ss"
    "chained (pg_hdr pa) (pg_lnextfree pa) ls" "distinct ss" "distinct ls"
    "set ss \<subseteq> small_pages pa" "set ls \<subseteq> large_pages pa" "live = page_live pa (set ss) (set ls)"
    using inv by (rule page_invE)
  then obtain ys where ys: "ls = p # ys" "chained (pg_hdr pa) (pg_hdr pa p) ys"
    using ne chained_nonempty p_def by blast
  have p: "p \<in> large_pages pa" "p \<notin> small_pages pa"
    using i ys page_small_or_large [OF i(1), of p p] by auto
  have "page_inv (pa\<lparr>pg_lnextfree := pg_hdr pa p\<rparr>) (live(p \<mapsto> unat (pg_lsize pa)))"
    by (rule page_invI [where ss = ss and ls = ys])
       (use i ys p in \<open>auto simp: page_live_def fun_eq_iff\<close>)
  moreover have "live p = None" using i(8) ys p by (simp add: page_live_def)
  ultimately show ?thesis using p by blast
qed

lemma page_room_bounds:
  assumes "page_layout pa" "page_room pa (Suc n)"
  shows "unat (pg_stop pa + ucast (pg_ssize pa)) = unat (pg_stop pa) + unat (pg_ssize pa)"
    and "unat (pg_ltop pa - ucast (pg_lsize pa)) = unat (pg_ltop pa) - unat (pg_lsize pa)"
    and "unat (pg_stop pa) + unat (pg_ssize pa) + unat (pg_lsize pa) + n * (unat (pg_ssize pa) + unat (pg_lsize pa))
         \<le> unat (pg_ltop pa)"
proof -
  show le: "unat (pg_stop pa) + unat (pg_ssize pa) + unat (pg_lsize pa)
      + n * (unat (pg_ssize pa) + unat (pg_lsize pa)) \<le> unat (pg_ltop pa)"
    using assms by (simp add: page_room_def)
  then have "unat (pg_stop pa) + unat (pg_ssize pa) < 2 ^ 64"
    using unat_lt_2p [of "pg_ltop pa"] by simp
  then show "unat (pg_stop pa + ucast (pg_ssize pa)) = unat (pg_stop pa) + unat (pg_ssize pa)"
    by (subst unat_add_no_wrap) simp_all
  have "ucast (pg_lsize pa) \<le> pg_ltop pa" using le by (simp add: word_le_nat_alt)
  then show "unat (pg_ltop pa - ucast (pg_lsize pa)) = unat (pg_ltop pa) - unat (pg_lsize pa)"
    by (simp add: unat_sub_no_wrap)
qed

lemma page_bump_small:
  assumes inv: "page_inv pa live" and room: "page_room pa (Suc n)"
  defines "pa' \<equiv> pa\<lparr>pg_stop := pg_stop pa + ucast (pg_ssize pa)\<rparr>"
  shows "pg_stop pa \<in> small_pages pa' \<and> live (pg_stop pa) = None \<and> page_layout pa' \<and>
    small_pages pa \<subseteq> small_pages pa' \<and> large_pages pa' = large_pages pa \<and>
    page_room pa' n \<and> page_inv pa' (live(pg_stop pa \<mapsto> unat (pg_ssize pa)))"
proof -
  obtain ss ls where i: "page_layout pa" "chained (pg_hdr pa) (pg_snextfree pa) ss"
    "chained (pg_hdr pa) (pg_lnextfree pa) ls" "distinct ss" "distinct ls"
    "set ss \<subseteq> small_pages pa" "set ls \<subseteq> large_pages pa" "live = page_live pa (set ss) (set ls)"
    using inv by (rule page_invE)
  note b = page_room_bounds [OF i(1) room]
  have lay: "page_layout pa'" and room': "page_room pa' n"
    using i(1) b by (auto simp: pa'_def page_layout_def page_room_def)
  have small: "small_pages pa' = insert (pg_stop pa) (small_pages pa)" (is "?L = ?R")
  proof (intro set_eqI iffI)
    fix q assume q: "q \<in> ?L"
    show "q \<in> ?R"
    proof (rule ccontr)
      assume "q \<notin> ?R"
      then have "unat (pg_stop pa) < unat q" "unat (pg_ssize pa) dvd unat q"
        "unat q < unat (pg_stop pa) + unat (pg_ssize pa)"
        using q b by (auto simp: small_pages_def pa'_def word_unat_eq_iff)
      moreover have "unat (pg_ssize pa) dvd unat (pg_stop pa)" using i(1) by (simp add: page_layout_def)
      ultimately show False using multiples_apart [of "unat (pg_ssize pa)" "unat (pg_stop pa)" "unat q"] by simp
    qed
  next
    fix q assume "q \<in> ?R"
    then show "q \<in> ?L" using i(1) b by (auto simp: small_pages_def pa'_def page_layout_def)
  qed
  have large: "large_pages pa' = large_pages pa" by (simp add: large_pages_def pa'_def)
  have new: "pg_stop pa \<notin> small_pages pa" by (simp add: small_pages_def)
  have nl: "pg_stop pa \<notin> large_pages pa"
    using page_small_or_large [OF lay, of "pg_stop pa" "pg_stop pa"] small large by auto
  have "page_inv pa' (live(pg_stop pa \<mapsto> unat (pg_ssize pa)))"
    by (rule page_invI [where ss = ss and ls = ls])
       (use i lay small large new in \<open>auto simp: pa'_def page_live_def fun_eq_iff\<close>)
  moreover have "live (pg_stop pa) = None" using i(8) new nl by (simp add: page_live_def)
  ultimately show ?thesis using small large lay room' by blast
qed

lemma page_bump_large:
  assumes inv: "page_inv pa live" and room: "page_room pa (Suc n)"
  defines "pa' \<equiv> pa\<lparr>pg_ltop := pg_ltop pa - ucast (pg_lsize pa)\<rparr>"
  shows "pg_ltop pa \<in> large_pages pa' \<and> live (pg_ltop pa) = None \<and> page_layout pa' \<and>
    small_pages pa' = small_pages pa \<and> large_pages pa \<subseteq> large_pages pa' \<and>
    page_room pa' n \<and> page_inv pa' (live(pg_ltop pa \<mapsto> unat (pg_lsize pa)))"
proof -
  obtain ss ls where i: "page_layout pa" "chained (pg_hdr pa) (pg_snextfree pa) ss"
    "chained (pg_hdr pa) (pg_lnextfree pa) ls" "distinct ss" "distinct ls"
    "set ss \<subseteq> small_pages pa" "set ls \<subseteq> large_pages pa" "live = page_live pa (set ss) (set ls)"
    using inv by (rule page_invE)
  note b = page_room_bounds [OF i(1) room]
  have d: "unat (pg_lsize pa) dvd unat (pg_ltop pa)" "0 < unat (pg_lsize pa)"
    using i(1) by (auto simp: page_layout_def)
  have lay: "page_layout pa'" and room': "page_room pa' n"
    using i(1) b by (auto simp: pa'_def page_layout_def page_room_def)
  have large: "large_pages pa' = insert (pg_ltop pa) (large_pages pa)" (is "?L = ?R")
  proof (intro set_eqI iffI)
    fix q assume q: "q \<in> ?L"
    show "q \<in> ?R"
    proof (rule ccontr)
      assume "q \<notin> ?R"
      then have "unat (pg_lsize pa) dvd unat q" "unat q < unat (pg_ltop pa)"
        "unat (pg_ltop pa) < unat q + unat (pg_lsize pa)"
        using q b by (auto simp: large_pages_def pa'_def word_unat_eq_iff)
      then show False using d multiples_apart [of "unat (pg_lsize pa)" "unat q" "unat (pg_ltop pa)"] by simp
    qed
  next
    fix q assume "q \<in> ?R"
    then show "q \<in> ?L" using i(1) b d by (auto simp: large_pages_def pa'_def page_layout_def)
  qed
  have small: "small_pages pa' = small_pages pa" by (simp add: small_pages_def pa'_def)
  have new: "pg_ltop pa \<notin> large_pages pa" by (simp add: large_pages_def)
  have ns: "pg_ltop pa \<notin> small_pages pa"
    using page_small_or_large [OF lay, of "pg_ltop pa" "pg_ltop pa"] small large by auto
  have "page_inv pa' (live(pg_ltop pa \<mapsto> unat (pg_lsize pa)))"
    by (rule page_invI [where ss = ss and ls = ls])
       (use i lay small large new ns in \<open>auto simp: pa'_def page_live_def fun_eq_iff\<close>)
  moreover have "live (pg_ltop pa) = None" using i(8) new ns by (simp add: page_live_def)
  ultimately show ?thesis using small large lay room' by blast
qed

lemma page_inv_stats [simp]: "page_inv (pa\<lparr>pg_stats := c\<rparr>) live = page_inv pa live"
  by (simp add: page_inv_def cong: if_cong)

lemma page_room_same [simp]:
  "page_room (pa\<lparr>pg_stats := c\<rparr>) n = page_room pa n"
  "page_room (pa\<lparr>pg_snextfree := a\<rparr>) n = page_room pa n"
  "page_room (pa\<lparr>pg_lnextfree := a\<rparr>) n = page_room pa n"
  "page_room (pa\<lparr>pg_hdr := b\<rparr>) n = page_room pa n"
  by (simp_all add: page_room_def)

lemma page_room_Suc: "page_room pa (Suc n) \<Longrightarrow> page_room pa n"
  by (simp add: page_room_def)

lemma page_inv_layout: "page_inv pa live \<Longrightarrow> page_layout pa"
  by (simp add: page_inv_def)

lemma page_alloc_serves:
  "fdb_page_alloc_alloc pa al sz h = (p, pa') \<Longrightarrow> page_serves pa' = page_serves pa"
  by (auto simp: fdb_page_alloc_alloc_def page_serves_def fun_eq_iff split: if_splits)

lemma page_alloc_small:
  assumes inv: "page_inv pa live" and room: "page_room pa (Suc n)"
    and run: "fdb_page_alloc_alloc pa al (pg_ssize pa) h = (p, pa')"
  shows "fits live p (unat (pg_ssize pa)) \<and> unat (pg_ssize pa) dvd unat p \<and>
    page_inv pa' (live(p \<mapsto> unat (pg_ssize pa))) \<and> page_room pa' n"
proof (cases "pg_snextfree pa = NULL")
  case True
  let ?pa = "pa\<lparr>pg_stop := pg_stop pa + ucast (pg_ssize pa)\<rparr>"
  note b = page_bump_small [OF inv room]
  have "p = pg_stop pa" "pa' = ?pa\<lparr>pg_stats := pg_used_add (ucast (pg_ssize pa)) (pg_stats pa)\<rparr>"
    using run True by (auto simp: fdb_page_alloc_alloc_def)
  moreover have "fits live (pg_stop pa) (unat (pg_ssize pa))"
    by (rule page_fits [OF inv, of _ ?pa]) (use b in auto)
  ultimately show ?thesis using b by (auto simp: small_pages_def)
next
  case False
  note b = page_reuse_small [OF inv False]
  have "p = pg_snextfree pa" "pa' = pa\<lparr>pg_snextfree := pg_hdr pa p\<rparr>"
    using run False by (auto simp: fdb_page_alloc_alloc_def)
  moreover have "fits live (pg_snextfree pa) (unat (pg_ssize pa))"
    by (rule page_fits [OF inv, of _ pa]) (use b page_inv_layout [OF inv] in auto)
  ultimately show ?thesis using b page_room_Suc [OF room] by (auto simp: small_pages_def)
qed

lemma page_alloc_large:
  assumes inv: "page_inv pa live" and room: "page_room pa (Suc n)"
    and run: "fdb_page_alloc_alloc pa al (pg_lsize pa) h = (p, pa')" and ne: "pg_lsize pa \<noteq> pg_ssize pa"
  shows "fits live p (unat (pg_lsize pa)) \<and> unat (pg_lsize pa) dvd unat p \<and>
    page_inv pa' (live(p \<mapsto> unat (pg_lsize pa))) \<and> page_room pa' n"
proof (cases "pg_lnextfree pa = NULL")
  case True
  let ?pa = "pa\<lparr>pg_ltop := pg_ltop pa - ucast (pg_lsize pa)\<rparr>"
  note b = page_bump_large [OF inv room]
  have "p = pg_ltop pa" "pa' = ?pa\<lparr>pg_stats := pg_used_add (ucast (pg_lsize pa)) (pg_stats pa)\<rparr>"
    using run True ne by (auto simp: fdb_page_alloc_alloc_def)
  moreover have "fits live (pg_ltop pa) (unat (pg_lsize pa))"
    by (rule page_fits [OF inv, of _ ?pa]) (use b in auto)
  ultimately show ?thesis using b by (auto simp: large_pages_def)
next
  case False
  note b = page_reuse_large [OF inv False]
  have "p = pg_lnextfree pa" "pa' = pa\<lparr>pg_lnextfree := pg_hdr pa p\<rparr>"
    using run False ne by (auto simp: fdb_page_alloc_alloc_def)
  moreover have "fits live (pg_lnextfree pa) (unat (pg_lsize pa))"
    by (rule page_fits [OF inv, of _ pa]) (use b page_inv_layout [OF inv] in auto)
  ultimately show ?thesis using b page_room_Suc [OF room] by (auto simp: large_pages_def)
qed

lemma page_alloc_step:
  assumes "page_inv pa live" "page_room pa (Suc n)" "page_serves pa al sz"
    and run: "fdb_page_alloc_alloc pa al sz h = (p, pa')"
  shows "fits live p (unat sz) \<and> unat al dvd unat p \<and> page_inv pa' (live(p \<mapsto> unat sz)) \<and> page_room pa' n"
proof (cases "sz = pg_ssize pa")
  case True
  then show ?thesis
    using page_alloc_small [OF assms(1,2)] run assms(3)
    by (auto simp: page_serves_def intro: dvd_trans)
next
  case False
  then have "sz = pg_lsize pa" "unat al dvd unat sz" using assms(3) by (auto simp: page_serves_def)
  then show ?thesis
    using page_alloc_large [OF assms(1,2)] run False by (auto intro: dvd_trans)
qed

lemma page_free_inv:
  assumes inv: "page_inv pa live" and p: "live p = Some m"
  shows "page_inv (fdb_page_alloc_free pa p) (live(p := None))"
proof -
  obtain ss ls where i: "page_layout pa" "chained (pg_hdr pa) (pg_snextfree pa) ss"
    "chained (pg_hdr pa) (pg_lnextfree pa) ls" "distinct ss" "distinct ls"
    "set ss \<subseteq> small_pages pa" "set ls \<subseteq> large_pages pa" "live = page_live pa (set ss) (set ls)"
    using inv by (rule page_invE)
  show ?thesis
  proof (cases "pg_data pa \<le> p \<and> p < pg_stop pa")
    case True
    have "p \<notin> large_pages pa"
      using large_start [OF i(1), of p] True i(1) by (auto simp: page_layout_def word_less_nat_alt)
    moreover from this have ps: "p \<in> small_pages pa - set ss"
      using p i(8) by (auto simp: page_live_def split: if_splits)
    moreover have "p \<noteq> NULL" using True i(1) by (auto simp: page_layout_def word_le_nat_alt)
    moreover from \<open>p \<notin> large_pages pa\<close> have "p \<notin> set ls" using i(7) by blast
    ultimately show ?thesis
      using i True by (intro page_invI [where ss = "p # ss" and ls = ls])
        (auto simp: fdb_page_alloc_free_def page_live_def fun_eq_iff)
  next
    case False
    then have "p \<notin> small_pages pa"
      by (auto simp: small_pages_def word_less_nat_alt word_le_nat_alt)
    moreover from this have ps: "p \<in> large_pages pa - set ls"
      using p i(8) by (auto simp: page_live_def split: if_splits)
    moreover have "p \<noteq> NULL" using ps by (auto simp: large_pages_def)
    moreover from \<open>p \<notin> small_pages pa\<close> have "p \<notin> set ss" using i(6) by blast
    ultimately show ?thesis
      using i False by (intro page_invI [where ss = ss and ls = "p # ls"])
        (auto simp: fdb_page_alloc_free_def page_live_def fun_eq_iff)
  qed
qed

lemma page_free_room: "page_room (fdb_page_alloc_free pa p) n = page_room pa n"
  by (simp add: fdb_page_alloc_free_def page_room_def)

lemma page_free_serves: "page_serves (fdb_page_alloc_free pa p) = page_serves pa"
  by (simp add: fdb_page_alloc_free_def page_serves_def fun_eq_iff)

interpretation page: mem_provider fdb_page_alloc_alloc fdb_page_alloc_free
  page_inv page_room page_serves
  by unfold_locales
    (use page_alloc_step page_alloc_serves page_room_Suc page_free_inv page_free_room page_free_serves in \<open>blast | metis\<close>)+

section \<open>The initial state\<close>

lemma page_init_data:
  assumes "fdb_page_alloc_init g st mem sregion ssmall slarge = Inr (pa, st')"
  shows "(pg_data pa, st') = mem_alloc g st FDB_MIN_ALIGNMENT (ucast sregion) FDB_NO_HINT"
    "pg_sregion pa = sregion" "pg_ssize pa = ssmall" "pg_lsize pa = slarge"
    "0 < unat ssmall" "0 < unat slarge"
    "pg_snextfree pa = NULL" "pg_lnextfree pa = NULL"
  using assms by (auto simp: fdb_page_alloc_init_def Let_def unat_gt_0 split: if_splits prod.splits)

text \<open>\<open>p_stop\<close> is the first multiple of the small size in the region.\<close>

lemma round_up_offset:
  fixes data :: u64 and s :: u32
  assumes "0 < unat s" and "unat data + unat s < 2 ^ 64"
  defines "off \<equiv> (ucast (ucast s - data mod ucast s) :: u32)"
  defines "off' \<equiv> (if off = s then 0 else off)"
  shows "unat (data + ucast off') = unat data + (unat s - unat data mod unat s) mod unat s"
    and "unat s dvd unat (data + ucast off')"
proof -
  have m: "unat (data mod ucast s) = unat data mod unat s" by (simp add: unat_mod)
  have lt: "unat data mod unat s < unat s" using assms(1) by simp
  have le: "data mod ucast s \<le> ucast s" using m lt by (simp add: word_le_nat_alt)
  have o64: "unat (ucast s - data mod ucast s) = unat s - unat data mod unat s"
    by (simp add: unat_sub_no_wrap [OF le] m)
  have bnd: "unat s - unat data mod unat s < 4294967296"
    by (rule le_less_trans [OF diff_le_self unat_u32_bound])
  have off: "unat off = unat s - unat data mod unat s"
    using bnd by (simp add: off_def unsigned_ucast_eq o64 take_bit_nat_eq_self)
  have off': "unat off' = (unat s - unat data mod unat s) mod unat s"
  proof (cases "unat data mod unat s = 0")
    case True
    then show ?thesis using off by (simp add: off'_def word_unat_eq_iff)
  next
    case False
    then have "unat off < unat s" using off assms(1) by simp
    then show ?thesis using off by (auto simp: off'_def)
  qed
  have "unat off' < unat s" using off' assms(1) by simp
  then show eq: "unat (data + ucast off') = unat data + (unat s - unat data mod unat s) mod unat s"
    using assms(2) off' by (subst unat_add_no_wrap) simp_all
  show "unat s dvd unat (data + ucast off')"
  proof (cases "unat data mod unat s = 0")
    case True
    then show ?thesis using eq by (simp add: dvd_eq_mod_eq_0)
  next
    case False
    then have "(unat s - unat data mod unat s) mod unat s = unat s - unat data mod unat s"
      using assms(1) by simp
    then have "unat (data + ucast off') = unat data div unat s * unat s + unat s"
      using eq lt div_mult_mod_eq [of "unat data" "unat s"] by linarith
    then show ?thesis by simp
  qed
qed

lemma round_down_offset:
  fixes a :: u64 and l :: u32
  assumes "0 < unat l"
  shows "unat (a - ucast (ucast (a mod ucast l) :: u32)) = unat a - unat a mod unat l"
    and "unat l dvd unat a - unat a mod unat l"
proof -
  have m: "unat (a mod ucast l) = unat a mod unat l" by (simp add: unat_mod)
  show "unat l dvd unat a - unat a mod unat l" by (simp add: minus_mod_eq_mult_div)
  show "unat (a - ucast (ucast (a mod ucast l) :: u32)) = unat a - unat a mod unat l"
  proof -
    have "unat a mod unat l < 4294967296"
      by (rule less_trans [OF mod_less_divisor [OF assms] unat_u32_bound])
    then have "unat (ucast (a mod ucast l) :: u32) = unat a mod unat l"
      by (simp add: unsigned_ucast_eq m take_bit_nat_eq_self)
    then show ?thesis
      by (subst unat_sub_no_wrap) (auto simp: word_le_nat_alt)
  qed
qed

lemma page_init_layout:
  assumes run: "fdb_page_alloc_init g st mem sregion ssmall slarge = Inr (pa, st')"
    and data: "0 < unat (pg_data pa)" "unat (pg_data pa) + unat sregion < 2 ^ 64"
    and big: "unat ssmall + 2 * unat slarge + n * (unat ssmall + unat slarge) \<le> unat sregion"
  shows "page_layout pa \<and> page_room pa n \<and> small_pages pa = {} \<and> large_pages pa = {} \<and>
    unat (pg_data pa) + unat sregion - 2 * unat slarge < unat (pg_ltop pa)"
proof -
  note d = page_init_data [OF run]
  let ?d = "unat (pg_data pa)" and ?s = "unat ssmall" and ?l = "unat slarge" and ?r = "unat sregion"
  have stop: "unat (pg_stop pa) = ?d + (?s - ?d mod ?s) mod ?s" "?s dvd unat (pg_stop pa)"
    using round_up_offset [of ssmall "pg_data pa"] d(5) data big run
    by (auto simp: fdb_page_alloc_init_def Let_def split: if_splits prod.splits)
  have base: "unat (pg_data pa + sregion - ucast slarge) = ?d + ?r - ?l"
    using data big by (subst unat_sub_no_wrap)
      (simp_all add: unat_add_no_wrap word_le_nat_alt)
  have top: "unat (pg_ltop pa) = (?d + ?r - ?l) - (?d + ?r - ?l) mod ?l" "?l dvd unat (pg_ltop pa)"
    using round_down_offset [of slarge "pg_data pa + sregion - ucast slarge"] d(6) base run
    by (auto simp: fdb_page_alloc_init_def Let_def split: if_splits prod.splits)
  have lt: "(?s - ?d mod ?s) mod ?s < ?s" "(?d + ?r - ?l) mod ?l < ?l" using d(5,6) by simp_all
  have top1: "?d + ?r - 2 * ?l < unat (pg_ltop pa)" "unat (pg_ltop pa) + ?l \<le> ?d + ?r"
    using top(1) lt big by linarith+
  have room: "unat (pg_stop pa) + n * (?s + ?l) \<le> unat (pg_ltop pa)"
    using stop(1) lt top1 big by linarith
  have lay: "page_layout pa" and "page_room pa n"
    using stop(2) top(2) top1 data d room stop(1) unfolding page_layout_def page_room_def
    by simp_all
  moreover have "small_pages pa = {}"
  proof (rule ccontr)
    assume "small_pages pa \<noteq> {}"
    then obtain q where q: "q \<in> small_pages pa" by blast
    then have "?d \<le> unat q" "unat q + ?s \<le> unat (pg_stop pa)"
      using small_end [OF lay q] d by (auto simp: small_pages_def)
    then show False using stop(1) lt by linarith
  qed
  moreover have "large_pages pa = {}"
  proof (rule ccontr)
    assume "large_pages pa \<noteq> {}"
    then obtain q where q: "q \<in> large_pages pa" by blast
    then have "unat (pg_ltop pa) + ?l \<le> unat q" "unat q + ?l \<le> ?d + ?r"
      using large_start [OF lay q] d by (auto simp: large_pages_def)
    then show False using top1 by linarith
  qed
  ultimately show ?thesis using top1(1) by blast
qed

lemma page_init_inv:
  assumes "fdb_page_alloc_init g st mem sregion ssmall slarge = Inr (pa, st')"
    and "0 < unat (pg_data pa)" "unat (pg_data pa) + unat sregion < 2 ^ 64"
    and "unat ssmall + 2 * unat slarge + n * (unat ssmall + unat slarge) \<le> unat sregion"
  shows "page_inv pa Map.empty \<and> page_room pa n"
proof -
  have "page_inv pa Map.empty"
    by (rule page_invI [where ss = "[]" and ls = "[]"])
       (use page_init_layout [OF assms] page_init_data [OF assms(1)] in \<open>auto simp: page_live_def fun_eq_iff\<close>)
  then show ?thesis using page_init_layout [OF assms] by blast
qed

lemma page_alloc_region:
  "fdb_page_alloc_alloc pa al sz h = (p, pa') \<Longrightarrow>
   pg_data pa' = pg_data pa \<and> pg_sregion pa' = pg_sregion pa"
  by (auto simp: fdb_page_alloc_alloc_def split: if_splits)

lemma page_free_region:
  "pg_data (fdb_page_alloc_free pa p) = pg_data pa \<and>
   pg_sregion (fdb_page_alloc_free pa p) = pg_sregion pa"
  by (simp add: fdb_page_alloc_free_def)

lemma page_run_region:
  "run_mem fdb_page_alloc_alloc fdb_page_alloc_free cs (pa, live) = (pa', live') \<Longrightarrow>
   pg_data pa' = pg_data pa \<and> pg_sregion pa' = pg_sregion pa"
proof (induction cs arbitrary: pa live)
  case Nil
  then show ?case by simp
next
  case (Cons c cs)
  then show ?case
    using page_free_region
    by (cases c) (auto split: prod.splits dest!: page_alloc_region Cons.IH)
qed

lemma page_inv_in_region:
  assumes "page_inv pa live" "live p = Some m"
  shows "unat (pg_data pa) \<le> unat p \<and> unat p + m \<le> unat (pg_data pa) + unat (pg_sregion pa) \<and> m dvd unat p"
  using page_live_cases [OF assms] page_inv_layout [OF assms(1)]
    small_end [of pa p] large_start [of pa p]
  by (auto simp: page_layout_def small_pages_def large_pages_def)

section \<open>Properties\<close>

text \<open>C32: From initialisation on, whatever sequence of requests and frees a legal client
  makes within the room of the region, the pages it holds never overlap, lie inside the
  region of \<open>sregion\<close> bytes and are aligned to their size. Pages have room for the header of 8 bytes
  that a free page starts with, and the size of the region fits into the 32 bits of the
  argument of the parent allocator, so that the region is the memory that was obtained.\<close>

theorem page_run_disjoint:
  assumes "fdb_page_alloc_init g st mem sregion ssmall slarge = Inr (pa, st')"
    and "0 < unat (pg_data pa)" "unat (pg_data pa) + unat sregion < 2 ^ 64"
    and "unat ssmall + 2 * unat slarge + allocs cs * (unat ssmall + unat slarge) \<le> unat sregion"
    and "8 \<le> unat ssmall" "8 \<le> unat slarge" "unat sregion < 2 ^ 32"
    and "legal_mem fdb_page_alloc_alloc fdb_page_alloc_free page_serves cs (pa, Map.empty)"
    and "run_mem fdb_page_alloc_alloc fdb_page_alloc_free cs (pa, Map.empty) = (pa', live)"
  shows "live_apart live \<and> (\<forall>p m. live p = Some m \<longrightarrow>
    unat (pg_data pa) \<le> unat p \<and> unat p + m \<le> unat (pg_data pa) + unat sregion \<and> m dvd unat p) \<and>
    (pg_data pa, st') = mem_alloc g st FDB_MIN_ALIGNMENT (ucast sregion) FDB_NO_HINT \<and> unat (ucast sregion :: u32) = unat sregion"
proof -
  have i: "page_inv pa Map.empty" "page_room pa (0 + allocs cs)"
    using page_init_inv [OF assms(1-4)] by simp_all
  have "page_inv pa' live" "live_apart live"
    using page.run_inv [OF i live_apart_empty assms(8,9)] by simp_all
  moreover have "unat (ucast sregion :: u32) = unat sregion"
    using assms(7) by (simp add: unsigned_ucast_eq take_bit_nat_eq_self)
  ultimately show ?thesis
    using page_inv_in_region [of pa' live] page_run_region [OF assms(9)] page_init_data(1,2) [OF assms(1)]
    by auto
qed

definition demo_heap :: "unit fdb_mem_allocator_t" where
  "demo_heap = \<lparr>p_mem_alloc = (\<lambda>s al sz h. (4096, s)), p_mem_free = (\<lambda>s p. s), p_mem_stats = None\<rparr>"

definition demo_page :: fdb_page_alloc_t where
  "demo_page = \<lparr>pg_data = 4096, pg_stop = 4096, pg_ltop = 11264, pg_snextfree = NULL,
     pg_lnextfree = NULL, pg_sregion = 8192, pg_ssize = 64, pg_lsize = 1024,
     pg_stats = \<lparr>st_allocated = 8192, st_lost = 0, st_used = 0\<rparr>, pg_hdr = (\<lambda>_. 0)\<rparr>"

lemma demo_page_sel:
  "pg_data demo_page = 4096" "pg_stop demo_page = 4096" "pg_ltop demo_page = 11264"
  "pg_snextfree demo_page = NULL" "pg_sregion demo_page = 8192" "pg_ssize demo_page = 64"
  "pg_lsize demo_page = 1024" "st_used (pg_stats demo_page) = 0"
  by (simp_all add: demo_page_def)

lemma demo_page_init:
  "fdb_page_alloc_init demo_heap () (\<lambda>_. 0) 8192 64 1024 = Inr (demo_page, ())"
  by (simp add: fdb_page_alloc_init_def demo_heap_def demo_page_def mem_alloc_def)

lemmas page_simps = fdb_page_alloc_alloc_def fdb_page_alloc_free_def page_serves_def pg_used_add_def

theorem page_run_disjoint_witness:
  "live_apart (snd (run_mem fdb_page_alloc_alloc fdb_page_alloc_free
     [MAlloc 16 64 0, MAlloc 16 1024 0, MFree 4096, MAlloc 16 64 0] (demo_page, Map.empty)))"
proof -
  let ?cs = "[MAlloc 16 64 0, MAlloc 16 1024 0, MFree 4096, MAlloc 16 64 0]"
  obtain pa' live where r: "run_mem fdb_page_alloc_alloc fdb_page_alloc_free ?cs (demo_page, Map.empty) = (pa', live)"
    by fastforce
  have l: "legal_mem fdb_page_alloc_alloc fdb_page_alloc_free page_serves ?cs (demo_page, Map.empty)"
    by (simp add: page_simps demo_page_def)
  have "0 < unat (pg_data demo_page)" "unat (pg_data demo_page) + unat (8192 :: u64) < 2 ^ 64"
    "unat (64 :: u32) + 2 * unat (1024 :: u32) + allocs ?cs * (unat (64 :: u32) + unat (1024 :: u32))
      \<le> unat (8192 :: u64)"
    by (simp_all add: demo_page_sel)
  moreover have "8 \<le> unat (64 :: u32)" "8 \<le> unat (1024 :: u32)" "unat (8192 :: u64) < 2 ^ 32" by simp_all
  ultimately show ?thesis using page_run_disjoint [OF demo_page_init _ _ _ _ _ _ l r] unfolding r by simp
qed

text \<open>\<open>sregion\<close> is 64 bits wide but the size passed to the parent allocator is 32 bits
  wide. For a region of 4 GB or more, the first large page handed out lies wholly behind
  the memory that was obtained.\<close>

theorem page_init_short_region:
  assumes "fdb_page_alloc_init g st mem sregion ssmall slarge = Inr (pa, st')"
    and "0 < unat (pg_data pa)" "unat (pg_data pa) + unat sregion < 2 ^ 64"
    and "2 ^ 32 \<le> unat sregion" "unat ssmall + 2 * unat slarge \<le> 2 ^ 32" "slarge \<noteq> ssmall"
    and "fdb_page_alloc_alloc pa al slarge h = (p, pa')"
  shows "(pg_data pa, st') = mem_alloc g st FDB_MIN_ALIGNMENT (ucast sregion) FDB_NO_HINT \<and>
    unat (pg_data pa) + unat (ucast sregion :: u32) < unat p"
proof -
  note d = page_init_data [OF assms(1)]
  have big: "unat ssmall + 2 * unat slarge + 0 * (unat ssmall + unat slarge) \<le> unat sregion"
    using assms(4,5) by simp
  have p: "p = pg_ltop pa"
    using assms(7,6) d by (auto simp: fdb_page_alloc_alloc_def split: if_splits)
  have layout: "page_layout pa" "large_pages pa = {}" using page_init_layout [OF assms(1-3) big] by simp_all
  have m: "unat sregion mod 2 ^ 32 + 2 ^ 32 \<le> unat sregion"
  proof -
    have "unat sregion mod 2 ^ 32 = (unat sregion - 2 ^ 32) mod 2 ^ 32"
      using assms(4) by (rule le_mod_geq)
    also have "\<dots> \<le> unat sregion - 2 ^ 32" by simp
    finally show ?thesis using assms(4) by linarith
  qed
  have u: "unat (ucast sregion :: u32) = unat sregion mod 2 ^ 32"
    by (simp add: unsigned_ucast_eq take_bit_eq_mod)
  have "unat (pg_data pa) + unat sregion - 2 * unat slarge < unat (pg_ltop pa)"
    using page_init_layout [OF assms(1-3) big] by simp
  then have "unat (pg_data pa) + unat (ucast sregion :: u32) < unat p"
    using p u m assms(5) d(5) by simp
  then show ?thesis using d(1) by blast
qed

definition demo_big_page :: fdb_page_alloc_t where
  "demo_big_page = demo_page\<lparr>pg_sregion := 4294971392, pg_ltop := 4294974464,
     pg_stats := \<lparr>st_allocated = 4294971392, st_lost = 0, st_used = 0\<rparr>\<rparr>"

theorem page_init_short_region_witness:
  "fdb_page_alloc_init demo_heap () (\<lambda>_. 0) 4294971392 64 1024 = Inr (demo_big_page, ()) \<and>
   unat (pg_data demo_big_page) + 4096 < unat (fst (fdb_page_alloc_alloc demo_big_page 16 1024 0))"
proof -
  have i: "fdb_page_alloc_init demo_heap () (\<lambda>_. 0) 4294971392 64 1024 = Inr (demo_big_page, ())"
    by (simp add: fdb_page_alloc_init_def demo_heap_def demo_big_page_def demo_page_def mem_alloc_def)
  obtain p pa' where "fdb_page_alloc_alloc demo_big_page 16 1024 0 = (p, pa')" by fastforce
  then show ?thesis
    using page_init_short_region [OF i] i by (simp add: demo_big_page_def demo_page_sel)
qed

text \<open>Cutting a fresh small page adds its size to \<open>m_used\<close> and freeing it subtracts it,
  but taking a page from the free list adds nothing. Allocating, freeing, reallocating and
  freeing the same page leaves \<open>m_used\<close> one page below where it was: below zero, it wraps.\<close>

theorem page_used_drifts:
  assumes "page_layout pa" "pg_snextfree pa = NULL" "page_room pa (Suc n)"
    and "fdb_page_alloc_alloc pa al (pg_ssize pa) h = (p, pa1)"
    and "fdb_page_alloc_alloc (fdb_page_alloc_free pa1 p) al (pg_ssize pa) h = (q, pa2)"
  shows "q = p \<and> st_used (fdb_page_alloc_stats (fdb_page_alloc_free pa2 q)) =
    st_used (fdb_page_alloc_stats pa) - ucast (pg_ssize pa)"
proof -
  note b = page_room_bounds [OF assms(1,3)]
  have "pg_data pa \<le> pg_stop pa" "pg_stop pa < pg_stop pa + ucast (pg_ssize pa)" "pg_stop pa \<noteq> NULL"
    using assms(1) b(1) by (auto simp: page_layout_def word_le_nat_alt word_less_nat_alt)
  then show ?thesis
    using assms(2,4,5) by (auto simp: page_simps fdb_page_alloc_stats_def)
qed

theorem page_used_drifts_witness:
  "st_used (fdb_page_alloc_stats (fst (run_mem fdb_page_alloc_alloc fdb_page_alloc_free
     [MAlloc 16 64 0, MFree 4096, MAlloc 16 64 0, MFree 4096] (demo_page, Map.empty)))) = - 64"
proof -
  let ?a = "fdb_page_alloc_alloc demo_page 16 64 0"
  let ?b = "fdb_page_alloc_alloc (fdb_page_alloc_free (snd ?a) (fst ?a)) 16 64 0"
  have "page_layout demo_page" "page_room demo_page (Suc 0)" "pg_ssize demo_page = 64" "pg_snextfree demo_page = NULL"
    by (simp_all add: page_layout_def page_room_def demo_page_sel)
  then have "st_used (fdb_page_alloc_stats (fdb_page_alloc_free (snd ?b) (fst ?b))) =
      st_used (fdb_page_alloc_stats demo_page) - ucast (pg_ssize demo_page)"
    using page_used_drifts [of demo_page 0 16 0 "fst ?a" "snd ?a" "fst ?b" "snd ?b"] by force
  then have "st_used (fdb_page_alloc_stats (fdb_page_alloc_free (snd ?b) (fst ?b))) = - 64"
    by (simp only: demo_page_sel fdb_page_alloc_stats_def) simp
  moreover have "fst ?a = 4096" "fst ?b = 4096" by (simp_all add: page_simps demo_page_def)
  ultimately show ?thesis by (simp add: case_prod_beta Let_def)
qed

end
