(* ===== verification/PoolAlloc.thy ===== *)
theory PoolAlloc
  imports PageAlloc
begin

text \<open>
  src/src/common/memory/pool\_allocator.c: blocks of one size, cut from chunks that a parent
  allocator provides. Freed blocks go to a free list and chunks are chained through their
  first word. The pool is a provider again: the locale \<open>pool_over\<close> shows that the pool's
  operations satisfy \<open>mem_provider\<close> over any parent that does, and the theory interprets
  it over the page allocator. Each critical section of the mutex is one step. A parent that
  returns NULL is outside the model of the headers: the code writes through that pointer.
\<close>

section \<open>State and operations\<close>

record 'st fdb_pool_alloc_t =
  pl_first_chunk :: ptr
  pl_last_chunk :: ptr
  pl_first_free :: ptr
  pl_alignment :: u64
  pl_block_size :: u64
  pl_page_size :: u64
  pl_next_free :: u64
  pl_grow_offset :: u64
  pl_lost_bytes :: u64
  pl_allocator :: "'st fdb_mem_allocator_t"
  pl_stats :: fdb_mem_stats_t
  pl_hdr :: "ptr \<Rightarrow> ptr"   \<comment> \<open>\<open>p_next\<close> of the headers in chunks and free blocks\<close>

text \<open>\<open>min_alignment\<close> is an \<open>int32_t\<close> that is stored in a \<open>uint64_t\<close>: it is sign extended.\<close>

definition fdb_pool_alloc_init ::
  "u32 \<Rightarrow> u32 \<Rightarrow> u32 \<Rightarrow> 'st fdb_mem_allocator_t option \<Rightarrow> 'st fdb_mem_allocator_t \<Rightarrow> (ptr \<Rightarrow> ptr) \<Rightarrow>
   'st fdb_pool_alloc_t res" where
  "fdb_pool_alloc_init alignment block_size page_size allocator gallocator mem =
     (let min_alignment = (if FDB_MIN_ALIGNMENT < alignment then alignment else FDB_MIN_ALIGNMENT);
          m_alignment = (scast min_alignment :: u64);
          m_block_size = (if ucast block_size < (8 :: u64) then 8 else ucast block_size);
          min_growth = (if 8 \<le> m_block_size then m_block_size else 8);
          m_grow_offset = ((min_growth + m_alignment - 1) div m_alignment) * m_alignment
      in if m_grow_offset = 0 then Inl DivByZero
         else Inr \<lparr>pl_first_chunk = NULL, pl_last_chunk = NULL, pl_first_free = NULL,
                pl_alignment = m_alignment, pl_block_size = m_block_size,
                pl_page_size = ucast page_size, pl_next_free = 0, pl_grow_offset = m_grow_offset,
                pl_lost_bytes = ucast page_size mod m_grow_offset + m_grow_offset,
                pl_allocator = (case allocator of Some a \<Rightarrow> a | None \<Rightarrow> gallocator),
                pl_stats = \<lparr>st_allocated = 0, st_lost = 0, st_used = 0\<rparr>, pl_hdr = mem\<rparr>)"

definition fdb_pool_alloc_alloc ::
  "'st fdb_pool_alloc_t \<times> 'st \<Rightarrow> u32 \<Rightarrow> u32 \<Rightarrow> u32 \<Rightarrow> ptr \<times> ('st fdb_pool_alloc_t \<times> 'st)" where
  "fdb_pool_alloc_alloc ps alignment sz hint =
     (let (palloc, st) = ps in
      if pl_first_free palloc \<noteq> NULL then
        (pl_first_free palloc,
         palloc\<lparr>pl_first_free := pl_hdr palloc (pl_first_free palloc)\<rparr>, st)
      else
        let (palloc, st) =
              (if pl_first_chunk palloc = NULL then
                 let (chunk, st) = mem_alloc (pl_allocator palloc) st (ucast (pl_alignment palloc))
                       (ucast (pl_page_size palloc)) hint
                 in (palloc\<lparr>pl_first_chunk := chunk, pl_hdr := (pl_hdr palloc)(chunk := NULL),
                       pl_next_free := pl_grow_offset palloc, pl_last_chunk := chunk,
                       pl_stats := (pl_stats palloc)
                         \<lparr>st_allocated := st_allocated (pl_stats palloc) + pl_page_size palloc,
                          st_lost := st_lost (pl_stats palloc) + pl_lost_bytes palloc\<rparr>\<rparr>, st)
               else (palloc, st))
        in
        if pl_next_free palloc + pl_block_size palloc \<le> pl_page_size palloc then
          (pl_last_chunk palloc + pl_next_free palloc,
           palloc\<lparr>pl_next_free := pl_next_free palloc + pl_grow_offset palloc\<rparr>, st)
        else
          let (new_chunk, st) = mem_alloc (pl_allocator palloc) st (ucast (pl_alignment palloc))
                (ucast (pl_page_size palloc)) hint
          in (new_chunk + pl_grow_offset palloc,
              palloc\<lparr>pl_hdr := (pl_hdr palloc)(pl_last_chunk palloc := new_chunk, new_chunk := NULL),
                pl_last_chunk := new_chunk,
                pl_next_free := pl_grow_offset palloc + pl_grow_offset palloc,
                pl_stats := (pl_stats palloc)
                  \<lparr>st_allocated := st_allocated (pl_stats palloc)
                                     + (pl_page_size palloc - pl_grow_offset palloc),
                   st_used := st_used (pl_stats palloc) + pl_grow_offset palloc,
                   st_lost := st_lost (pl_stats palloc) + pl_lost_bytes palloc\<rparr>\<rparr>, st))"

definition fdb_pool_alloc_free ::
  "'st fdb_pool_alloc_t \<times> 'st \<Rightarrow> ptr \<Rightarrow> 'st fdb_pool_alloc_t \<times> 'st" where
  "fdb_pool_alloc_free ps p =
     (let (palloc, st) = ps in
      (palloc\<lparr>pl_hdr := (pl_hdr palloc)(p := pl_first_free palloc), pl_first_free := p,
         pl_stats := (pl_stats palloc)
           \<lparr>st_used := st_used (pl_stats palloc) - pl_grow_offset palloc\<rparr>\<rparr>, st))"

text \<open>The loop of \<open>flush\<close> follows the chunk headers; \<open>fuel\<close> bounds its iterations.\<close>

fun pool_flush_loop ::
  "nat \<Rightarrow> 'st fdb_mem_allocator_t \<Rightarrow> (ptr \<Rightarrow> ptr) \<Rightarrow> ptr \<Rightarrow> 'st \<Rightarrow> 'st res" where
  "pool_flush_loop 0 a hdr p st = Inl OutOfFuel"
| "pool_flush_loop (Suc fuel) a hdr p st =
     (if p = NULL then Inr st
      else pool_flush_loop fuel a hdr (hdr p) (mem_free a st p))"

definition fdb_pool_alloc_flush ::
  "nat \<Rightarrow> 'st fdb_pool_alloc_t \<times> 'st \<Rightarrow> ('st fdb_pool_alloc_t \<times> 'st) res" where
  "fdb_pool_alloc_flush fuel ps =
     (let (palloc, st) = ps in
      bind_res (pool_flush_loop fuel (pl_allocator palloc) (pl_hdr palloc) (pl_first_chunk palloc) st)
        (\<lambda>st. Inr (palloc\<lparr>pl_stats := \<lparr>st_allocated = 0, st_lost = 0, st_used = 0\<rparr>\<rparr>, st)))"

definition fdb_pool_alloc_release ::
  "nat \<Rightarrow> 'st fdb_pool_alloc_t \<times> 'st \<Rightarrow> ('st fdb_pool_alloc_t \<times> 'st) res" where
  "fdb_pool_alloc_release fuel ps = fdb_pool_alloc_flush fuel ps"

definition fdb_pool_alloc_stats :: "'st fdb_pool_alloc_t \<times> 'st \<Rightarrow> fdb_mem_stats_t" where
  "fdb_pool_alloc_stats ps = pl_stats (fst ps)"

text \<open>\<open>m_super\<close>: the pool as an allocator over the pair of its own and its parent's state.\<close>

definition fdb_pool_alloc_super :: "('st fdb_pool_alloc_t \<times> 'st) fdb_mem_allocator_t" where
  "fdb_pool_alloc_super = \<lparr>p_mem_alloc = fdb_pool_alloc_alloc, p_mem_free = fdb_pool_alloc_free,
     p_mem_stats = Some fdb_pool_alloc_stats\<rparr>"

section \<open>The blocks of a pool\<close>

text \<open>The configurations the pool works with, in plain numbers.\<close>

definition pool_config :: "'st fdb_pool_alloc_t \<Rightarrow> bool" where
  "pool_config pa \<longleftrightarrow> 0 < unat (pl_block_size pa) \<and>
     unat (pl_block_size pa) \<le> unat (pl_grow_offset pa) \<and>
     unat (pl_grow_offset pa) + unat (pl_block_size pa) \<le> unat (pl_page_size pa) \<and>
     unat (pl_page_size pa) < 2 ^ 32 \<and> unat (pl_alignment pa) < 2 ^ 32 \<and>
     unat (pl_alignment pa) dvd unat (pl_grow_offset pa)"

text \<open>\<open>slots\<close>: how many blocks have been cut from a chunk; the last chunk is cut up to
  \<open>next_free\<close>, an older one as far as it goes.\<close>

definition pool_cap :: "'st fdb_pool_alloc_t \<Rightarrow> nat" where
  "pool_cap pa = (unat (pl_page_size pa) - unat (pl_block_size pa)) div unat (pl_grow_offset pa)"

definition pool_slots :: "'st fdb_pool_alloc_t \<Rightarrow> ptr \<Rightarrow> nat" where
  "pool_slots pa c = (if c = pl_last_chunk pa
     then unat (pl_next_free pa) div unat (pl_grow_offset pa) - 1 else pool_cap pa)"

definition block_at :: "'st fdb_pool_alloc_t \<Rightarrow> ptr \<Rightarrow> nat \<Rightarrow> ptr" where
  "block_at pa c j = c + of_nat (j * unat (pl_grow_offset pa))"

definition pool_blocks :: "'st fdb_pool_alloc_t \<Rightarrow> ptr list \<Rightarrow> ptr set" where
  "pool_blocks pa chunks = {block_at pa c j |c j. c \<in> set chunks \<and> 1 \<le> j \<and> j \<le> pool_slots pa c}"

text \<open>The chunks: live blocks of the parent, chained in order, the last one cut up to
  \<open>next_free\<close>.\<close>

definition pool_chunks :: "'st fdb_pool_alloc_t \<Rightarrow> (ptr \<rightharpoonup> nat) \<Rightarrow> ptr list \<Rightarrow> bool" where
  "pool_chunks pa plive chunks \<longleftrightarrow>
     live_apart plive \<and> distinct chunks \<and> chained (pl_hdr pa) (pl_first_chunk pa) chunks \<and>
     (\<forall>c\<in>set chunks. plive c = Some (unat (pl_page_size pa)) \<and>
        unat (pl_alignment pa) dvd unat c \<and> c \<noteq> NULL \<and> unat c + unat (pl_page_size pa) < 2 ^ 64) \<and>
     (chunks \<noteq> [] \<longrightarrow> last chunks = pl_last_chunk pa \<and>
        (\<exists>k. unat (pl_next_free pa) = Suc k * unat (pl_grow_offset pa) \<and> k \<le> pool_cap pa))"

lemma pool_cap_fits:
  assumes "pool_config pa" "j \<le> pool_cap pa"
  shows "j * unat (pl_grow_offset pa) + unat (pl_block_size pa) \<le> unat (pl_page_size pa)"
proof -
  have "j * unat (pl_grow_offset pa) \<le> pool_cap pa * unat (pl_grow_offset pa)"
    using assms(2) by (rule mult_le_mono1)
  also have "\<dots> \<le> unat (pl_page_size pa) - unat (pl_block_size pa)"
    by (simp add: pool_cap_def div_times_less_eq_dividend)
  finally show ?thesis using assms(1) unfolding pool_config_def by linarith
qed

lemma pool_cap_ge_1: "pool_config pa \<Longrightarrow> 1 \<le> pool_cap pa"
  by (auto simp: pool_config_def pool_cap_def Suc_le_eq div_greater_zero_iff)

lemma pool_slots_le_cap:
  assumes "pool_config pa" "pool_chunks pa plive chunks" "c \<in> set chunks"
  shows "pool_slots pa c \<le> pool_cap pa"
proof -
  have "0 < unat (pl_grow_offset pa)" using assms(1) by (simp add: pool_config_def)
  then show ?thesis using assms(2,3) by (auto simp: pool_chunks_def pool_slots_def)
qed

lemma block_at_unat:
  assumes "pool_config pa" "pool_chunks pa plive chunks" "c \<in> set chunks" "j \<le> pool_cap pa"
  shows "unat (block_at pa c j) = unat c + j * unat (pl_grow_offset pa)"
proof -
  have lt: "unat c + j * unat (pl_grow_offset pa) < 2 ^ 64"
    using pool_cap_fits [OF assms(1,4)] assms(2,3) by (fastforce simp: pool_chunks_def)
  then have "unat (of_nat (j * unat (pl_grow_offset pa)) :: u64) = j * unat (pl_grow_offset pa)"
    by (intro of_nat_inverse [OF refl]) simp
  then show ?thesis unfolding block_at_def using lt by (subst unat_add_no_wrap) simp_all
qed

lemma block_in_chunk:
  assumes "pool_config pa" "pool_chunks pa plive chunks" "c \<in> set chunks" "1 \<le> j" "j \<le> pool_cap pa"
  shows "unat c < unat (block_at pa c j)"
    and "unat (block_at pa c j) + unat (pl_block_size pa) \<le> unat c + unat (pl_page_size pa)"
    and "unat (pl_alignment pa) dvd unat (block_at pa c j)"
proof -
  note u = block_at_unat [OF assms(1-3,5)] and f = pool_cap_fits [OF assms(1,5)]
  have g: "0 < unat (pl_grow_offset pa)" using assms(1) by (simp add: pool_config_def)
  show "unat c < unat (block_at pa c j)" using u g assms(4) by simp
  show "unat (block_at pa c j) + unat (pl_block_size pa) \<le> unat c + unat (pl_page_size pa)"
    using u f by simp
  show "unat (pl_alignment pa) dvd unat (block_at pa c j)"
    unfolding u using assms(1-3) by (simp add: pool_config_def pool_chunks_def dvd_add)
qed

lemma chunks_apart:
  assumes "pool_chunks pa plive chunks" "c \<in> set chunks" "d \<in> set chunks" "c \<noteq> d"
  shows "apart c (unat (pl_page_size pa)) d (unat (pl_page_size pa))"
  using assms unfolding pool_chunks_def live_apart_def by blast

lemma blocks_apart:
  assumes "pool_config pa" "pool_chunks pa plive chunks" "c \<in> set chunks" "d \<in> set chunks"
    and "1 \<le> i" "i \<le> pool_cap pa" "1 \<le> j" "j \<le> pool_cap pa" "(c, i) \<noteq> (d, j)"
  shows "apart (block_at pa c i) (unat (pl_block_size pa)) (block_at pa d j) (unat (pl_block_size pa))"
proof (cases "c = d")
  case True
  then have "i \<noteq> j" using assms(9) by simp
  have step: "m * unat (pl_grow_offset pa) + unat (pl_block_size pa) \<le> n * unat (pl_grow_offset pa)"
    if "m < n" for m n
  proof -
    have "Suc m * unat (pl_grow_offset pa) \<le> n * unat (pl_grow_offset pa)"
      using that by (intro mult_le_mono1) simp
    then show ?thesis using assms(1) by (simp add: pool_config_def)
  qed
  show ?thesis
    using \<open>i \<noteq> j\<close> step [of i j] step [of j i] True
      block_at_unat [OF assms(1-3,6)] block_at_unat [OF assms(1,2,4,8)]
    by (auto simp: apart_def nat_neq_iff)
next
  case False
  show ?thesis
    using chunks_apart [OF assms(2-4) False]
      block_in_chunk [OF assms(1-3,5,6)] block_in_chunk [OF assms(1,2,4,7,8)]
    by (auto simp: apart_def)
qed

lemma pool_block_cases:
  assumes "p \<in> pool_blocks pa chunks" "pool_config pa" "pool_chunks pa plive chunks"
  obtains c j where "c \<in> set chunks" "1 \<le> j" "j \<le> pool_slots pa c" "j \<le> pool_cap pa" "p = block_at pa c j"
  using assms pool_slots_le_cap by (fastforce simp: pool_blocks_def)

lemma pool_block_facts:
  assumes "p \<in> pool_blocks pa chunks" "pool_config pa" "pool_chunks pa plive chunks"
  shows "p \<noteq> NULL" "p \<notin> set chunks" "unat p + unat (pl_block_size pa) < 2 ^ 64"
    "unat (pl_alignment pa) dvd unat p"
proof -
  obtain c j where c: "c \<in> set chunks" "1 \<le> j" "j \<le> pool_cap pa" "p = block_at pa c j"
    using pool_block_cases [OF assms] by metis
  note b = block_in_chunk [OF assms(2,3) c(1-3), folded c(4)]
  show "p \<noteq> NULL" using b(1) by auto
  show "unat (pl_alignment pa) dvd unat p" by (rule b(3))
  have lt: "unat c + unat (pl_page_size pa) < 2 ^ 64" using assms(3) c(1) by (simp add: pool_chunks_def)
  then show "unat p + unat (pl_block_size pa) < 2 ^ 64" using b(2) by simp
  show "p \<notin> set chunks"
  proof
    assume p: "p \<in> set chunks"
    have "0 < unat (pl_block_size pa)" using assms(2) by (simp add: pool_config_def)
    moreover have "p \<noteq> c" using b(1) by auto
    ultimately show False using chunks_apart [OF assms(3) p c(1)] b by (auto simp: apart_def)
  qed
qed

text \<open>The three ways a block is cut: from the last chunk, from the first chunk ever, and from
  a new chunk when the last one is full.\<close>

lemma pool_next_free_bound:
  assumes "pool_config pa" "pool_chunks pa plive chunks" "chunks \<noteq> []"
  shows "unat (pl_next_free pa) + unat (pl_block_size pa) \<le> unat (pl_page_size pa) + unat (pl_grow_offset pa)"
proof -
  obtain k where k: "unat (pl_next_free pa) = Suc k * unat (pl_grow_offset pa)" "k \<le> pool_cap pa"
    using assms(2,3) by (auto simp: pool_chunks_def)
  then show ?thesis using pool_cap_fits [OF assms(1) k(2)] by simp
qed

lemma pool_has_room_iff:
  assumes "pool_config pa" "pool_chunks pa plive chunks" "chunks \<noteq> []"
  shows "pl_next_free pa + pl_block_size pa \<le> pl_page_size pa \<longleftrightarrow>
    unat (pl_next_free pa) div unat (pl_grow_offset pa) \<le> pool_cap pa"
proof -
  obtain k where k: "unat (pl_next_free pa) = Suc k * unat (pl_grow_offset pa)" "k \<le> pool_cap pa"
    using assms(2,3) by (auto simp: pool_chunks_def)
  have g: "0 < unat (pl_grow_offset pa)" using assms(1) by (simp add: pool_config_def)
  have "unat (pl_next_free pa + pl_block_size pa) = unat (pl_next_free pa) + unat (pl_block_size pa)"
    using pool_next_free_bound [OF assms] assms(1)
    by (intro unat_add_no_wrap) (simp add: pool_config_def)
  then have "pl_next_free pa + pl_block_size pa \<le> pl_page_size pa \<longleftrightarrow>
      Suc k * unat (pl_grow_offset pa) \<le> unat (pl_page_size pa) - unat (pl_block_size pa)"
    using assms(1) k by (simp add: word_le_nat_alt pool_config_def le_diff_conv2)
  also have "\<dots> \<longleftrightarrow> Suc k \<le> pool_cap pa"
    unfolding pool_cap_def using g by (simp add: less_eq_div_iff_mult_less_eq)
  finally show ?thesis using k g by simp
qed

lemma pool_carve:
  assumes cfg: "pool_config pa" and ch: "pool_chunks pa plive chunks" "chunks \<noteq> []"
    and fits: "pl_next_free pa + pl_block_size pa \<le> pl_page_size pa"
  defines "pa' \<equiv> pa\<lparr>pl_next_free := pl_next_free pa + pl_grow_offset pa\<rparr>"
  defines "p \<equiv> pl_last_chunk pa + pl_next_free pa"
  shows "pool_chunks pa' plive chunks" "pool_blocks pa' chunks = insert p (pool_blocks pa chunks)"
    "\<And>q. q \<in> pool_blocks pa chunks \<Longrightarrow> apart p (unat (pl_block_size pa)) q (unat (pl_block_size pa))"
proof -
  obtain k where k: "unat (pl_next_free pa) = Suc k * unat (pl_grow_offset pa)" "k \<le> pool_cap pa"
    using ch by (auto simp: pool_chunks_def)
  have g: "0 < unat (pl_grow_offset pa)" "unat (pl_grow_offset pa) < 2 ^ 32"
    using cfg by (auto simp: pool_config_def)
  have cap: "Suc k \<le> pool_cap pa"
    using fits pool_has_room_iff [OF cfg ch] k g by simp
  have lastc: "last chunks = pl_last_chunk pa" "pl_last_chunk pa \<in> set chunks"
    using ch by (auto simp: pool_chunks_def dest: last_in_set)
  have nf: "unat (pl_next_free pa + pl_grow_offset pa) = Suc (Suc k) * unat (pl_grow_offset pa)"
    using pool_next_free_bound [OF cfg ch] cfg g k
    by (subst unat_add_no_wrap) (simp_all add: pool_config_def)
  have p: "p = block_at pa (pl_last_chunk pa) (Suc k)"
    unfolding p_def block_at_def k(1) [symmetric] by simp
  have same: "pool_cap pa' = pool_cap pa" "block_at pa' c j = block_at pa c j" for c j
    by (simp_all add: pa'_def pool_cap_def block_at_def)
  show "pool_chunks pa' plive chunks"
    using ch nf cap same unfolding pool_chunks_def pa'_def by (auto intro!: exI [of _ "Suc k"])
  have slots: "pool_slots pa' c = (if c = pl_last_chunk pa then Suc k else pool_slots pa c)" for c
    using nf g by (simp add: pool_slots_def pa'_def pool_cap_def)
  have old: "pool_slots pa (pl_last_chunk pa) = k"
    using k g by (simp add: pool_slots_def)
  show "pool_blocks pa' chunks = insert p (pool_blocks pa chunks)"
    unfolding pool_blocks_def same slots p using lastc old
    by (auto simp: le_Suc_eq split: if_splits) (metis le_refl le_SucE le_SucI)+
  fix q assume q: "q \<in> pool_blocks pa chunks"
  obtain c j where c: "c \<in> set chunks" "1 \<le> j" "j \<le> pool_slots pa c" "j \<le> pool_cap pa" "q = block_at pa c j"
    using pool_block_cases [OF q cfg ch(1)] by metis
  then show "apart p (unat (pl_block_size pa)) q (unat (pl_block_size pa))"
    unfolding p c(5) using lastc cap old
    by (intro blocks_apart [OF cfg ch(1)]) auto
qed

lemma chained_snoc:
  assumes "chained hdr p (xs @ [l])" "distinct (xs @ [l])" "n \<notin> set (xs @ [l])" "n \<noteq> NULL"
  shows "chained (hdr(l := n, n := NULL)) p (xs @ [l, n])"
  using assms
proof (induction xs arbitrary: p)
  case Nil
  then show ?case by auto
next
  case (Cons x xs)
  have "chained (hdr(l := n, n := NULL)) (hdr x) (xs @ [l, n])"
    by (rule Cons.IH) (use Cons.prems in auto)
  moreover have "x \<noteq> l" "x \<noteq> n" using Cons.prems by auto
  ultimately show ?case
    using Cons.prems by (simp add: fun_upd_other del: fun_upd_apply)
qed

lemma fits_not_in:
  assumes "fits plive c n" "plive d = Some m" "0 < n" "0 < m" shows "c \<noteq> d"
  using assms by (force simp: fits_def apart_def)

lemma pool_new_not_block:
  assumes "pool_config pa" "pool_chunks pa plive chunks" "fits plive c (unat (pl_page_size pa))"
  shows "c \<notin> set chunks" "c \<notin> pool_blocks pa chunks"
proof -
  have pos: "0 < unat (pl_page_size pa)" "0 < unat (pl_block_size pa)" using assms(1) by (auto simp: pool_config_def)
  have live: "plive d = Some (unat (pl_page_size pa))" if "d \<in> set chunks" for d
    using assms(2) that by (simp add: pool_chunks_def)
  show "c \<notin> set chunks" using fits_not_in [OF assms(3) live pos(1) pos(1)] by blast
  show "c \<notin> pool_blocks pa chunks"
  proof
    assume c: "c \<in> pool_blocks pa chunks"
    obtain d j where d: "d \<in> set chunks" "1 \<le> j" "j \<le> pool_cap pa" "c = block_at pa d j"
      using pool_block_cases [OF c assms(1,2)] by metis
    have "apart c (unat (pl_page_size pa)) d (unat (pl_page_size pa))"
      using assms(3) live [OF d(1)] by (simp add: fits_def)
    then show False
      using block_in_chunk [OF assms(1,2) d(1-3), folded d(4)] pos by (auto simp: apart_def)
  qed
qed

lemma pool_add_chunk:
  assumes cfg: "pool_config pa" and ch: "pool_chunks pa plive chunks"
    and full: "chunks \<noteq> [] \<longrightarrow> \<not> pl_next_free pa + pl_block_size pa \<le> pl_page_size pa"
    and c: "fits plive c (unat (pl_page_size pa))" "unat (pl_alignment pa) dvd unat c"
    and pa': "pa' = pa\<lparr>pl_first_chunk := (if chunks = [] then c else pl_first_chunk pa),
        pl_hdr := (if chunks = [] then (pl_hdr pa)(c := NULL)
                   else (pl_hdr pa)(pl_last_chunk pa := c, c := NULL)),
        pl_next_free := pl_grow_offset pa, pl_last_chunk := c, pl_stats := stats\<rparr>"
  shows "pool_chunks pa' (plive(c \<mapsto> unat (pl_page_size pa))) (chunks @ [c])"
    "pool_blocks pa' (chunks @ [c]) = pool_blocks pa chunks"
    "chained (pl_hdr pa) q fs \<Longrightarrow> set fs \<subseteq> pool_blocks pa chunks \<Longrightarrow> chained (pl_hdr pa') q fs"
proof -
  note nb = pool_new_not_block [OF cfg ch c(1)]
  have g: "0 < unat (pl_grow_offset pa)" using cfg by (simp add: pool_config_def)
  have cN: "c \<noteq> NULL" "unat c + unat (pl_page_size pa) < 2 ^ 64" using c(1) by (auto simp: fits_def)
  have la: "live_apart (plive(c \<mapsto> unat (pl_page_size pa)))"
    using ch c(1) by (intro live_apart_alloc) (auto simp: pool_chunks_def)
  have chain: "chained (pl_hdr pa') (pl_first_chunk pa') (chunks @ [c])"
  proof (cases chunks rule: rev_cases)
    case Nil
    then show ?thesis using pa' cN by simp
  next
    case (snoc xs l)
    then have "chained (pl_hdr pa) (pl_first_chunk pa) (xs @ [l])" "distinct (xs @ [l])" "l = pl_last_chunk pa"
      using ch by (auto simp: pool_chunks_def)
    then show ?thesis using chained_snoc nb(1) cN snoc pa' by fastforce
  qed
  have same: "pool_cap pa' = pool_cap pa" "block_at pa' d j = block_at pa d j" for d j
    by (simp_all add: pa' pool_cap_def block_at_def)
  show "pool_chunks pa' (plive(c \<mapsto> unat (pl_page_size pa))) (chunks @ [c])"
    unfolding pool_chunks_def
    using ch la chain nb(1) c(2) cN by (auto simp: pool_chunks_def pa' intro: exI [of _ 0])
  have slots_c: "pool_slots pa' c = 0" using g by (simp add: pool_slots_def pa')
  have slots: "pool_slots pa' d = pool_slots pa d" if d: "d \<in> set chunks" for d
  proof -
    have ne: "chunks \<noteq> []" "d \<noteq> c" using d nb(1) by auto
    obtain k where k: "unat (pl_next_free pa) = Suc k * unat (pl_grow_offset pa)" "k \<le> pool_cap pa"
      using ch ne by (auto simp: pool_chunks_def)
    have "\<not> Suc k \<le> pool_cap pa"
      using full ne(1) pool_has_room_iff [OF cfg ch ne(1)] k g by simp
    then have "unat (pl_next_free pa) div unat (pl_grow_offset pa) - 1 = pool_cap pa" using k g by simp
    then show ?thesis using ne by (auto simp: pool_slots_def same) (simp_all add: pa')
  qed
  show "pool_blocks pa' (chunks @ [c]) = pool_blocks pa chunks"
    unfolding pool_blocks_def same using slots slots_c by force
  assume fs: "chained (pl_hdr pa) q fs" "set fs \<subseteq> pool_blocks pa chunks"
  have "c \<notin> set fs" using fs(2) nb(2) by blast
  moreover have "pl_last_chunk pa \<notin> set fs" if "chunks \<noteq> []"
    using fs(2) pool_block_facts(2) [OF _ cfg ch] ch that last_in_set [OF that]
    by (auto simp: pool_chunks_def)
  ultimately show "chained (pl_hdr pa') q fs" using fs(1) by (auto simp: pa')
qed

section \<open>A pool over any allocator is an allocator\<close>

definition pool_live :: "'st fdb_pool_alloc_t \<Rightarrow> ptr set \<Rightarrow> ptr \<rightharpoonup> nat" where
  "pool_live pa B = (\<lambda>p. if p \<in> B then Some (unat (pl_block_size pa)) else None)"

definition pool_inv ::
  "('st \<Rightarrow> u32 \<Rightarrow> u32 \<Rightarrow> u32 \<Rightarrow> ptr \<times> 'st) \<Rightarrow> ('st \<Rightarrow> ptr \<Rightarrow> 'st) \<Rightarrow> ('st \<Rightarrow> (ptr \<rightharpoonup> nat) \<Rightarrow> bool) \<Rightarrow>
   'st fdb_pool_alloc_t \<times> 'st \<Rightarrow> (ptr \<rightharpoonup> nat) \<Rightarrow> bool" where
  "pool_inv alloc free ainv ps live \<longleftrightarrow> (case ps of (pa, st) \<Rightarrow>
     pool_config pa \<and> p_mem_alloc (pl_allocator pa) = alloc \<and> p_mem_free (pl_allocator pa) = free \<and>
     (\<exists>plive chunks fs. ainv st plive \<and> pool_chunks pa plive chunks \<and>
        chained (pl_hdr pa) (pl_first_free pa) fs \<and> distinct fs \<and> set fs \<subseteq> pool_blocks pa chunks \<and>
        live = pool_live pa (pool_blocks pa chunks - set fs)))"

definition pool_room :: "('st \<Rightarrow> nat \<Rightarrow> bool) \<Rightarrow> 'st fdb_pool_alloc_t \<times> 'st \<Rightarrow> nat \<Rightarrow> bool" where
  "pool_room room ps n = room (snd ps) n"

definition pool_serves ::
  "('st \<Rightarrow> u32 \<Rightarrow> u32 \<Rightarrow> bool) \<Rightarrow> 'st fdb_pool_alloc_t \<times> 'st \<Rightarrow> u32 \<Rightarrow> u32 \<Rightarrow> bool" where
  "pool_serves serves ps al sz \<longleftrightarrow> (case ps of (pa, st) \<Rightarrow>
     unat sz = unat (pl_block_size pa) \<and> unat al dvd unat (pl_alignment pa) \<and>
     serves st (ucast (pl_alignment pa)) (ucast (pl_page_size pa)))"

lemma pool_live_cong: "pl_block_size pa' = pl_block_size pa \<Longrightarrow> pool_live pa' B = pool_live pa B"
  by (auto simp: pool_live_def fun_eq_iff)

lemma unat_ucast_u64_u32: "unat (x :: u64) < 2 ^ 32 \<Longrightarrow> unat (ucast x :: u32) = unat x"
  by (simp add: unsigned_ucast_eq take_bit_nat_eq_self)

lemma pool_invE:
  assumes "pool_inv alloc free ainv (pa, st) live"
  obtains plive chunks fs where "pool_config pa" "p_mem_alloc (pl_allocator pa) = alloc"
    "p_mem_free (pl_allocator pa) = free" "ainv st plive" "pool_chunks pa plive chunks"
    "chained (pl_hdr pa) (pl_first_free pa) fs" "distinct fs" "set fs \<subseteq> pool_blocks pa chunks"
    "live = pool_live pa (pool_blocks pa chunks - set fs)"
  using assms by (auto simp: pool_inv_def)

lemma pool_invI:
  assumes "pool_config pa" "p_mem_alloc (pl_allocator pa) = alloc"
    "p_mem_free (pl_allocator pa) = free" "ainv st plive" "pool_chunks pa plive chunks"
    "chained (pl_hdr pa) (pl_first_free pa) fs" "distinct fs" "set fs \<subseteq> pool_blocks pa chunks"
    "live = pool_live pa (pool_blocks pa chunks - set fs)"
  shows "pool_inv alloc free ainv (pa, st) live"
  using assms unfolding pool_inv_def by blast

text \<open>Cutting a block from the last chunk, once there is one.\<close>

lemma pool_carve_inv:
  assumes base: "pool_config pa" "p_mem_alloc (pl_allocator pa) = alloc" "p_mem_free (pl_allocator pa) = free"
      "ainv st plive" "pool_chunks pa plive chunks"
    and fs: "chained (pl_hdr pa) (pl_first_free pa) fs" "distinct fs" "set fs \<subseteq> pool_blocks pa chunks"
    and ne: "chunks \<noteq> []" and room: "pl_next_free pa + pl_block_size pa \<le> pl_page_size pa"
    and live: "live = pool_live pa (pool_blocks pa chunks - set fs)"
  defines "p \<equiv> pl_last_chunk pa + pl_next_free pa"
    and "pa' \<equiv> pa\<lparr>pl_next_free := pl_next_free pa + pl_grow_offset pa\<rparr>"
  shows "fits live p (unat (pl_block_size pa))" "unat (pl_alignment pa) dvd unat p"
    "pool_inv alloc free ainv (pa', st) (live(p \<mapsto> unat (pl_block_size pa)))"
proof -
  note c = pool_carve [OF base(1,5) ne room, folded p_def pa'_def]
  have cfg: "pool_config pa'" using base(1) by (simp add: pool_config_def pa'_def)
  have pb: "p \<in> pool_blocks pa' chunks" using c(2) by simp
  note f = pool_block_facts [OF pb cfg c(1)]
  have p: "p \<notin> pool_blocks pa chunks"
  proof
    assume "p \<in> pool_blocks pa chunks"
    from c(3) [OF this] show False using base(1) by (auto simp: apart_def pool_config_def)
  qed
  show "unat (pl_alignment pa) dvd unat p" using f(4) by (simp add: pa'_def)
  show "fits live p (unat (pl_block_size pa))"
    using f c(3) p by (auto simp: fits_def live pool_live_def pa'_def split: if_splits)
  show "pool_inv alloc free ainv (pa', st) (live(p \<mapsto> unat (pl_block_size pa)))"
    by (rule pool_invI [where plive = plive and chunks = chunks and fs = fs])
       (use base fs c(1,2) cfg p live in \<open>auto simp: pa'_def pool_live_def fun_eq_iff\<close>)
qed

lemma pool_reuse_inv:
  assumes inv: "pool_inv alloc free ainv (pa, st) live" and ne: "pl_first_free pa \<noteq> NULL"
  defines "p \<equiv> pl_first_free pa"
  shows "fits live p (unat (pl_block_size pa))" "unat (pl_alignment pa) dvd unat p"
    "pool_inv alloc free ainv (pa\<lparr>pl_first_free := pl_hdr pa p\<rparr>, st) (live(p \<mapsto> unat (pl_block_size pa)))"
proof -
  obtain plive chunks fs where i: "pool_config pa" "p_mem_alloc (pl_allocator pa) = alloc"
    "p_mem_free (pl_allocator pa) = free" "ainv st plive" "pool_chunks pa plive chunks"
    "chained (pl_hdr pa) (pl_first_free pa) fs" "distinct fs" "set fs \<subseteq> pool_blocks pa chunks"
    "live = pool_live pa (pool_blocks pa chunks - set fs)"
    using inv by (rule pool_invE)
  let ?pa = "pa\<lparr>pl_first_free := pl_hdr pa p\<rparr>"
  obtain ys where ys: "fs = p # ys" "chained (pl_hdr pa) (pl_hdr pa p) ys"
    using i(6) ne chained_nonempty p_def by blast
  have p: "p \<in> pool_blocks pa chunks" using i(8) ys by simp
  note f = pool_block_facts [OF p i(1,5)]
  have same: "pool_blocks ?pa chunks = pool_blocks pa chunks" "pool_chunks ?pa plive chunks" "pool_config ?pa"
    using i(1,5) by (simp_all add: pool_blocks_def pool_slots_def pool_cap_def block_at_def
        pool_chunks_def pool_config_def)
  show "unat (pl_alignment pa) dvd unat p" by (rule f(4))
  have "apart p (unat (pl_block_size pa)) q (unat (pl_block_size pa))" if "q \<in> pool_blocks pa chunks" "q \<noteq> p" for q
  proof -
    note q = that
    obtain c j where c: "c \<in> set chunks" "1 \<le> j" "j \<le> pool_cap pa" "p = block_at pa c j"
      using pool_block_cases [OF p i(1,5)] by metis
    obtain d l where d: "d \<in> set chunks" "1 \<le> l" "l \<le> pool_cap pa" "q = block_at pa d l"
      using pool_block_cases [OF q(1) i(1,5)] by metis
    show ?thesis using blocks_apart [OF i(1,5) c(1) d(1) c(2,3) d(2,3)] c(4) d(4) q(2) by auto
  qed
  then show "fits live p (unat (pl_block_size pa))"
    using f ys by (auto simp: fits_def i(9) pool_live_def split: if_splits)
  show "pool_inv alloc free ainv (?pa, st) (live(p \<mapsto> unat (pl_block_size pa)))"
    by (rule pool_invI [where plive = plive and chunks = chunks and fs = ys])
       (use i ys same p in \<open>auto simp: pool_live_def fun_eq_iff\<close>)
qed

text \<open>A new chunk has room for a block.\<close>

lemma pool_grow_room:
  assumes "pool_config pa"
  shows "pl_grow_offset pa + pl_block_size pa \<le> pl_page_size pa"
proof -
  have "unat (pl_grow_offset pa + pl_block_size pa) = unat (pl_grow_offset pa) + unat (pl_block_size pa)"
    using assms by (intro unat_add_no_wrap) (simp add: pool_config_def)
  then show ?thesis using assms by (simp add: word_le_nat_alt pool_config_def)
qed

lemma pool_chunk_inv:
  assumes i: "pool_config pa" "p_mem_alloc (pl_allocator pa) = alloc" "p_mem_free (pl_allocator pa) = free"
      "pool_chunks pa plive chunks" "chained (pl_hdr pa) (pl_first_free pa) fs" "distinct fs"
      "set fs \<subseteq> pool_blocks pa chunks" "live = pool_live pa (pool_blocks pa chunks - set fs)"
    and full: "chunks \<noteq> [] \<longrightarrow> \<not> pl_next_free pa + pl_block_size pa \<le> pl_page_size pa"
    and c: "fits plive c (unat (pl_page_size pa))" "unat (pl_alignment pa) dvd unat c"
      "ainv st' (plive(c \<mapsto> unat (pl_page_size pa)))"
    and pa'': "pa'' = pa\<lparr>pl_first_chunk := (if chunks = [] then c else pl_first_chunk pa),
        pl_hdr := (if chunks = [] then (pl_hdr pa)(c := NULL)
                   else (pl_hdr pa)(pl_last_chunk pa := c, c := NULL)),
        pl_next_free := pl_grow_offset pa + pl_grow_offset pa, pl_last_chunk := c, pl_stats := stats\<rparr>"
  shows "fits live (c + pl_grow_offset pa) (unat (pl_block_size pa)) \<and>
    unat (pl_alignment pa) dvd unat (c + pl_grow_offset pa) \<and>
    pool_inv alloc free ainv (pa'', st') (live(c + pl_grow_offset pa \<mapsto> unat (pl_block_size pa)))"
proof -
  define pa' where pa': "pa' = pa\<lparr>pl_first_chunk := (if chunks = [] then c else pl_first_chunk pa),
        pl_hdr := (if chunks = [] then (pl_hdr pa)(c := NULL)
                   else (pl_hdr pa)(pl_last_chunk pa := c, c := NULL)),
        pl_next_free := pl_grow_offset pa, pl_last_chunk := c, pl_stats := stats\<rparr>"
  note a = pool_add_chunk [OF i(1,4) full c(1,2) pa']
  have eq: "pa'\<lparr>pl_next_free := pl_next_free pa' + pl_grow_offset pa'\<rparr> = pa''"
    "pl_last_chunk pa' + pl_next_free pa' = c + pl_grow_offset pa" "pl_block_size pa' = pl_block_size pa"
    "pl_alignment pa' = pl_alignment pa"
    by (simp_all add: pa' pa'')
  have cfg: "pool_config pa'" using i(1) by (simp add: pool_config_def pa')
  have room: "pl_next_free pa' + pl_block_size pa' \<le> pl_page_size pa'"
    using pool_grow_room [OF i(1)] by (simp add: pa')
  have fs: "chained (pl_hdr pa') (pl_first_free pa') fs" using a(3) i(5,7) by (simp add: pa')
  have live: "live = pool_live pa' (pool_blocks pa' (chunks @ [c]) - set fs)"
    unfolding a(2) i(8) by (rule pool_live_cong) (simp add: pa')
  have "p_mem_alloc (pl_allocator pa') = alloc" "p_mem_free (pl_allocator pa') = free"
    using i(2,3) by (simp_all add: pa')
  from pool_carve_inv [where ainv = ainv, OF cfg this c(3) a(1) fs i(6) _ _ room live] a(2) i(7)
  show ?thesis by (simp add: eq)
qed

lemma pool_free_step:
  assumes inv: "pool_inv alloc free ainv ps live" and p: "live p = Some m"
  shows "pool_inv alloc free ainv (fdb_pool_alloc_free ps p) (live(p := None))"
proof -
  obtain pa st where ps: "ps = (pa, st)" by fastforce
  obtain plive chunks fs where i: "pool_config pa" "p_mem_alloc (pl_allocator pa) = alloc"
    "p_mem_free (pl_allocator pa) = free" "ainv st plive" "pool_chunks pa plive chunks"
    "chained (pl_hdr pa) (pl_first_free pa) fs" "distinct fs" "set fs \<subseteq> pool_blocks pa chunks"
    "live = pool_live pa (pool_blocks pa chunks - set fs)"
    using inv ps pool_invE by metis
  have pb: "p \<in> pool_blocks pa chunks" "p \<notin> set fs"
    using p i(9) by (auto simp: pool_live_def split: if_splits)
  note f = pool_block_facts [OF pb(1) i(1,5)]
  let ?pa = "fst (fdb_pool_alloc_free ps p)"
  have same: "pool_blocks ?pa chunks = pool_blocks pa chunks" "pool_config ?pa"
    using i(1) by (simp_all add: pool_blocks_def pool_slots_def pool_cap_def block_at_def
        pool_config_def fdb_pool_alloc_free_def ps)
  have same_live: "pool_live ?pa B = pool_live pa B" for B
    by (rule pool_live_cong) (simp add: fdb_pool_alloc_free_def ps)
  have ch: "pool_chunks ?pa plive chunks"
    using i(5) f(2) by (simp add: pool_chunks_def pool_cap_def fdb_pool_alloc_free_def ps)
  have live: "live(p := None) = pool_live ?pa (pool_blocks ?pa chunks - set (p # fs))"
    unfolding same same_live i(9) by (auto simp: pool_live_def fun_eq_iff)
  have "pool_inv alloc free ainv (?pa, st) (live(p := None))"
  proof (rule pool_invI [where plive = plive and chunks = chunks and fs = "p # fs"])
    show "chained (pl_hdr ?pa) (pl_first_free ?pa) (p # fs)"
      using chained_push [OF i(6) f(1) pb(2)] by (simp add: fdb_pool_alloc_free_def ps)
    show "p_mem_alloc (pl_allocator ?pa) = alloc" "p_mem_free (pl_allocator ?pa) = free"
      using i(2,3) by (simp_all add: fdb_pool_alloc_free_def ps)
  qed (use same ch live i pb in auto)
  then show ?thesis by (simp add: fdb_pool_alloc_free_def ps)
qed

locale pool_over = mem_provider

context pool_over
begin

lemma pool_alloc_step:
  assumes inv: "pool_inv alloc free ainv (pa, st) live" and room: "room st (Suc n)"
    and serves: "pool_serves serves (pa, st) al sz"
    and run: "fdb_pool_alloc_alloc (pa, st) al sz h = (p, (pa', st'))"
  shows "fits live p (unat sz) \<and> unat al dvd unat p \<and>
    pool_inv alloc free ainv (pa', st') (live(p \<mapsto> unat sz)) \<and> room st' n \<and>
    pool_serves serves (pa', st') = pool_serves serves (pa, st)"
proof -
  obtain plive chunks fs where i: "pool_config pa" "p_mem_alloc (pl_allocator pa) = alloc"
    "p_mem_free (pl_allocator pa) = free" "ainv st plive" "pool_chunks pa plive chunks"
    "chained (pl_hdr pa) (pl_first_free pa) fs" "distinct fs" "set fs \<subseteq> pool_blocks pa chunks"
    "live = pool_live pa (pool_blocks pa chunks - set fs)"
    using inv by (rule pool_invE)
  have sv: "unat sz = unat (pl_block_size pa)" "unat al dvd unat (pl_alignment pa)"
    "serves st (ucast (pl_alignment pa)) (ucast (pl_page_size pa))"
    using serves by (auto simp: pool_serves_def)
  have al: "unat al dvd n" if "unat (pl_alignment pa) dvd n" for n
    using sv(2) that by (rule dvd_trans)
  have firstc: "pl_first_chunk pa = NULL \<longleftrightarrow> chunks = []"
    using i(5) by (cases chunks) (auto simp: pool_chunks_def)
  have w: "unat (ucast (pl_alignment pa) :: u32) = unat (pl_alignment pa)"
    "unat (ucast (pl_page_size pa) :: u32) = unat (pl_page_size pa)"
    using i(1) by (auto simp: pool_config_def intro: unat_ucast_u64_u32)
  obtain c st1 where c: "alloc st (ucast (pl_alignment pa)) (ucast (pl_page_size pa)) h = (c, st1)"
    by fastforce
  note law = alloc_fits [OF i(4) room sv(3) c] alloc_aligned [OF i(4) room sv(3) c]
    alloc_inv [OF i(4) room sv(3) c] alloc_room [OF i(4) room sv(3) c] alloc_serves [OF i(4) room sv(3) c]
  consider (reuse) "pl_first_free pa \<noteq> NULL"
    | (first) "pl_first_free pa = NULL" "chunks = []"
    | (carve) "pl_first_free pa = NULL" "chunks \<noteq> []" "pl_next_free pa + pl_block_size pa \<le> pl_page_size pa"
    | (new) "pl_first_free pa = NULL" "chunks \<noteq> []" "\<not> pl_next_free pa + pl_block_size pa \<le> pl_page_size pa"
    by blast
  then show ?thesis
  proof cases
    case reuse
    have r: "p = pl_first_free pa" "pa' = pa\<lparr>pl_first_free := pl_hdr pa p\<rparr>" "st' = st"
      using run reuse by (auto simp: fdb_pool_alloc_alloc_def)
    have "pool_serves serves (pa', st') = pool_serves serves (pa, st)"
      by (simp add: pool_serves_def fun_eq_iff r(2,3))
    then show ?thesis
      using pool_reuse_inv [OF inv reuse, folded r(1)] al room_mono [OF room] sv(1) r(2,3) by simp
  next
    case carve
    have r: "p = pl_last_chunk pa + pl_next_free pa" "st' = st"
      "pa' = pa\<lparr>pl_next_free := pl_next_free pa + pl_grow_offset pa\<rparr>"
      using run carve firstc by (auto simp: fdb_pool_alloc_alloc_def)
    have "pool_serves serves (pa', st') = pool_serves serves (pa, st)"
      by (simp add: pool_serves_def fun_eq_iff r(2,3))
    then show ?thesis
      using pool_carve_inv [where ainv = ainv, OF i(1-8) carve(2,3) i(9)] al room_mono [OF room] sv(1) r
      by simp
  next
    case first
    note k = pool_chunk_inv [where ainv = ainv, OF i(1-3,5-9) _ law(1-3) [unfolded w]]
    have r: "p = c + pl_grow_offset pa" "st' = st1" "pa' = pa\<lparr>pl_first_chunk := c,
        pl_hdr := (pl_hdr pa)(c := NULL), pl_next_free := pl_grow_offset pa + pl_grow_offset pa,
        pl_last_chunk := c, pl_stats := pl_stats pa'\<rparr>"
      using run first pool_grow_room [OF i(1)] firstc c i(2)
      by (auto simp: fdb_pool_alloc_alloc_def mem_alloc_def)
    have "pool_serves serves (pa', st') = pool_serves serves (pa, st)"
      using law(5) r(2) by (subst r(3)) (simp add: pool_serves_def fun_eq_iff)
    then show ?thesis
      using k [of pa' "pl_stats pa'"] r first al sv(1) law(4) by simp
  next
    case new
    note k = pool_chunk_inv [where ainv = ainv, OF i(1-3,5-9) _ law(1-3) [unfolded w]]
    have r: "p = c + pl_grow_offset pa" "st' = st1" "pa' = pa\<lparr>pl_first_chunk := pl_first_chunk pa,
        pl_hdr := (pl_hdr pa)(pl_last_chunk pa := c, c := NULL),
        pl_next_free := pl_grow_offset pa + pl_grow_offset pa,
        pl_last_chunk := c, pl_stats := pl_stats pa'\<rparr>"
      using run new firstc c i(2)
      by (auto simp: fdb_pool_alloc_alloc_def mem_alloc_def)
    have "pool_serves serves (pa', st') = pool_serves serves (pa, st)"
      using law(5) r(2) by (subst r(3)) (simp add: pool_serves_def fun_eq_iff)
    then show ?thesis
      using k [of pa' "pl_stats pa'"] r new al sv(1) law(4) by simp
  qed
qed

end

lemma pool_free_serves: "pool_serves serves (fdb_pool_alloc_free ps p) = pool_serves serves ps"
  by (cases ps) (simp add: fdb_pool_alloc_free_def pool_serves_def fun_eq_iff)

lemma pool_free_room: "pool_room room (fdb_pool_alloc_free ps p) n = pool_room room ps n"
  by (cases ps) (simp add: fdb_pool_alloc_free_def pool_room_def)

sublocale pool_over \<subseteq> pool: mem_provider fdb_pool_alloc_alloc fdb_pool_alloc_free
  "pool_inv alloc free ainv" "pool_room room" "pool_serves serves"
proof (unfold_locales, goal_cases)
  case (1 ps live n al sz h p ps')
  then show ?case
    by (cases ps, cases ps', simp only: pool_room_def snd_conv) (use pool_alloc_step in blast)
next
  case (2 ps live n al sz h p ps')
  then show ?case
    by (cases ps, cases ps', simp only: pool_room_def snd_conv) (use pool_alloc_step in blast)
next
  case (3 ps live n al sz h p ps')
  then show ?case
    by (cases ps, cases ps', simp only: pool_room_def snd_conv) (use pool_alloc_step in blast)
next
  case (4 ps live n al sz h p ps')
  then show ?case
    by (cases ps, cases ps', simp only: pool_room_def snd_conv) (use pool_alloc_step in blast)
next
  case (5 ps live n al sz h p ps')
  then show ?case
    by (cases ps, cases ps', simp only: pool_room_def snd_conv) (use pool_alloc_step in blast)
next
  case (6 ps n)
  then show ?case using room_mono by (simp add: pool_room_def)
next
  case (7 ps live p m)
  then show ?case by (rule pool_free_step)
next
  case (8 ps live p m n)
  then show ?case by (simp add: pool_free_room)
next
  case (9 ps p)
  then show ?case by (rule pool_free_serves)
qed

interpretation pool_page: pool_over fdb_page_alloc_alloc fdb_page_alloc_free
  page_inv page_room page_serves
  by unfold_locales

text \<open>The state \<open>init\<close> leaves: the configuration is sound when the block is at least a
  pointer wide, the sizes are such that a page holds a header and a block, and the
  alignment is a power of two below 2^31 (so that the sign extension is harmless).\<close>

lemma unat_scast_u32_u64:
  fixes x :: u32
  assumes "unat x < 2 ^ 31"
  shows "unat (scast x :: u64) = unat x"
proof -
  have u: "uint x = int (unat x)" by simp
  have lt: "unat x < 2147483648" using assms by simp
  have b: "uint x < 2147483648" "- 2147483648 \<le> uint x" using u lt by linarith+
  have "sint x = uint x"
    unfolding sint_uint by (rule signed_take_bit_int_eq_self) (use b in simp_all)
  then have "(scast x :: u64) = word_of_int (uint x)" by (simp only: scast_eq)
  also have "\<dots> = of_nat (unat x)" unfolding u by simp
  finally have "of_nat (unat x) = (scast x :: u64)" by (rule sym)
  moreover have "unat x < 2 ^ LENGTH(64)" using lt by simp
  ultimately show ?thesis by (rule of_nat_inverse)
qed

lemma round_up_div:
  fixes b a :: nat
  assumes "0 < a"
  shows "b \<le> (b + a - 1) div a * a" "(b + a - 1) div a * a < b + a" "a dvd (b + a - 1) div a * a"
proof -
  have "(b + a - 1) div a * a + (b + a - 1) mod a = b + a - 1" by simp
  moreover have "(b + a - 1) mod a < a" using assms by simp
  ultimately show "b \<le> (b + a - 1) div a * a" "(b + a - 1) div a * a < b + a" using assms by linarith+
qed simp

text \<open>The alignment, block size and grow offset that \<open>init\<close> computes, in plain numbers.\<close>

definition init_alignment :: "u32 \<Rightarrow> u64" where
  "init_alignment alignment = scast (if FDB_MIN_ALIGNMENT < alignment then alignment else FDB_MIN_ALIGNMENT)"

definition init_block_size :: "u32 \<Rightarrow> u64" where
  "init_block_size block_size = (if ucast block_size < (8 :: u64) then 8 else (ucast block_size :: u64))"

lemma unat_init_alignment:
  assumes "unat alignment < 2 ^ 31" shows "unat (init_alignment alignment) = max 16 (unat alignment)"
proof -
  have "unat (if FDB_MIN_ALIGNMENT < alignment then alignment else FDB_MIN_ALIGNMENT) = max 16 (unat alignment)"
    by (auto simp: FDB_MIN_ALIGNMENT_def word_less_nat_alt max_def)
  then show ?thesis using assms unfolding init_alignment_def by (subst unat_scast_u32_u64) simp_all
qed

lemma unat_init_block_size: "unat (init_block_size block_size) = max 8 (unat block_size)"
  by (auto simp: init_block_size_def word_less_nat_alt max_def)

lemma unat_round_up:
  fixes A B :: u64
  assumes pos: "0 < unat A" and small: "unat B + unat A < 4294967296"
  shows "unat ((B + A - 1) div A * A) = (unat B + unat A - 1) div unat A * unat A"
proof -
  have s: "unat (B + A) = unat B + unat A" using small by (intro unat_add_no_wrap) simp
  then have "B + A \<noteq> 0" using pos by (metis add_is_0 less_not_refl unat_0)
  then have "unat (B + A - 1) = unat B + unat A - 1" using s by (subst unat_minus_one) simp_all
  then have d: "unat ((B + A - 1) div A) = (unat B + unat A - 1) div unat A" by (simp add: unat_div)
  have "unat ((B + A - 1) div A) * unat A < 2 ^ LENGTH(64)"
    unfolding d using round_up_div(2) [OF pos, of "unat B"] small by simp
  then show ?thesis unfolding d [symmetric] by (rule unat_mult_lem [THEN iffD1])
qed

text \<open>\<open>init\<close> succeeds: the rounded grow offset is not 0.\<close>

lemma pool_init_ok:
  assumes al: "unat alignment < 2 ^ 31"
    and page: "2 * max 8 (unat block_size) + max 16 (unat alignment) \<le> unat page_size"
  shows "\<exists>pa. fdb_pool_alloc_init alignment block_size page_size a g mem = Inr pa"
proof -
  let ?A = "init_alignment alignment" and ?B = "init_block_size block_size"
  note A = unat_init_alignment [OF al] and B = unat_init_block_size [of block_size]
  have g8: "(if 8 \<le> ?B then ?B else 8) = ?B" using B by (auto simp: word_le_nat_alt)
  have small: "unat ?B + unat ?A < 4294967296"
    by (rule le_less_trans [OF _ unat_u32_bound [of page_size]]) (use page A B in simp)
  have pos: "0 < unat ?A" using A by simp
  have "unat ?B \<le> unat ((?B + ?A - 1) div ?A * ?A)"
    unfolding unat_round_up [OF pos small] by (rule round_up_div(1) [OF pos])
  then have "(?B + ?A - 1) div ?A * ?A \<noteq> 0" using B by (metis max.bounded_iff not_numeral_le_zero order_refl unat_0)
  then show ?thesis
    unfolding fdb_pool_alloc_init_def Let_def init_alignment_def [symmetric] init_block_size_def [symmetric] g8 by simp
qed

lemma pool_init_config:
  assumes run: "fdb_pool_alloc_init alignment block_size page_size a g mem = Inr pa"
    and al: "unat alignment < 2 ^ 31"
    and page: "2 * max 8 (unat block_size) + max 16 (unat alignment) \<le> unat page_size"
  shows "pool_config pa" "unat (pl_alignment pa) = max 16 (unat alignment)"
    "unat (pl_block_size pa) = max 8 (unat block_size)" "unat (pl_page_size pa) = unat page_size"
    "pl_first_chunk pa = NULL" "pl_first_free pa = NULL"
    "pl_allocator pa = (case a of Some a \<Rightarrow> a | None \<Rightarrow> g)" "pl_stats pa = \<lparr>st_allocated = 0, st_lost = 0, st_used = 0\<rparr>"
proof -
  define A where "A = init_alignment alignment"
  define B where "B = init_block_size block_size"
  have A: "unat A = max 16 (unat alignment)" unfolding A_def by (rule unat_init_alignment [OF al])
  have B: "unat B = max 8 (unat block_size)" unfolding B_def by (rule unat_init_block_size)
  have g8: "(if 8 \<le> B then B else 8) = B" using B by (auto simp: word_le_nat_alt)
  have small: "unat B + unat A < 4294967296"
    by (rule le_less_trans [OF _ unat_u32_bound [of page_size]]) (use page A B in simp)
  have pos: "0 < unat A" using A by simp
  note r = round_up_div [OF pos, of "unat B"] and G = unat_round_up [OF pos small]
  have pa: "pl_alignment pa = A" "pl_block_size pa = B" "pl_page_size pa = ucast page_size"
    "pl_grow_offset pa = (B + A - 1) div A * A"
    "pl_first_chunk pa = NULL" "pl_first_free pa = NULL"
    "pl_allocator pa = (case a of Some a \<Rightarrow> a | None \<Rightarrow> g)" "pl_stats pa = \<lparr>st_allocated = 0, st_lost = 0, st_used = 0\<rparr>"
    using run unfolding fdb_pool_alloc_init_def Let_def init_alignment_def [symmetric] init_block_size_def [symmetric]
      A_def [symmetric] B_def [symmetric] g8
    by (auto split: if_splits)
  show "unat (pl_alignment pa) = max 16 (unat alignment)" "unat (pl_block_size pa) = max 8 (unat block_size)"
    "unat (pl_page_size pa) = unat page_size" "pl_first_chunk pa = NULL" "pl_first_free pa = NULL"
    "pl_allocator pa = (case a of Some a \<Rightarrow> a | None \<Rightarrow> g)" "pl_stats pa = \<lparr>st_allocated = 0, st_lost = 0, st_used = 0\<rparr>"
    using pa A B by simp_all
  have "unat page_size < 4294967296" by (rule unat_u32_bound)
  moreover have "0 < unat B" unfolding B by (rule less_le_trans [of _ 8]) simp_all
  ultimately show "pool_config pa"
    unfolding pool_config_def pa(1-4) G using r B A page small by simp
qed

lemma pool_init_inv:
  assumes "fdb_pool_alloc_init alignment block_size page_size a g mem = Inr pa"
    and "unat alignment < 2 ^ 31"
    and "2 * max 8 (unat block_size) + max 16 (unat alignment) \<le> unat page_size"
    and "p_mem_alloc (case a of Some a \<Rightarrow> a | None \<Rightarrow> g) = alloc"
    and "p_mem_free (case a of Some a \<Rightarrow> a | None \<Rightarrow> g) = free"
    and "ainv st plive" "live_apart plive"
  shows "pool_inv alloc free ainv (pa, st) Map.empty"
proof -
  note c = pool_init_config [OF assms(1-3)]
  show ?thesis
    by (rule pool_invI [where plive = plive and chunks = "[]" and fs = "[]"])
       (use c assms(4-7) in \<open>auto simp: pool_chunks_def pool_blocks_def pool_live_def fun_eq_iff\<close>)
qed

section \<open>Properties\<close>

text \<open>Every block a client holds lies in a chunk the pool holds from its parent.\<close>

lemma pool_inv_inside:
  assumes "pool_inv alloc free ainv (pa, st) live"
  shows "\<exists>plive. ainv st plive \<and> (\<forall>p m. live p = Some m \<longrightarrow>
    (\<exists>c n. plive c = Some n \<and> unat c < unat p \<and> unat p + m \<le> unat c + n))"
proof -
  obtain plive chunks fs where i: "pool_config pa" "p_mem_alloc (pl_allocator pa) = alloc"
    "p_mem_free (pl_allocator pa) = free" "ainv st plive" "pool_chunks pa plive chunks"
    "chained (pl_hdr pa) (pl_first_free pa) fs" "distinct fs" "set fs \<subseteq> pool_blocks pa chunks"
    "live = pool_live pa (pool_blocks pa chunks - set fs)"
    using assms by (rule pool_invE)
  have "\<exists>c n. plive c = Some n \<and> unat c < unat p \<and> unat p + m \<le> unat c + n" if lp: "live p = Some m" for p m
  proof -
    have p: "p \<in> pool_blocks pa chunks" "m = unat (pl_block_size pa)"
      using lp i(9) by (auto simp: pool_live_def split: if_splits)
    obtain c j where c: "c \<in> set chunks" "1 \<le> j" "j \<le> pool_cap pa" "p = block_at pa c j"
      using pool_block_cases [OF p(1) i(1,5)] by metis
    moreover have "plive c = Some (unat (pl_page_size pa))" using i(5) c(1) by (simp add: pool_chunks_def)
    ultimately show ?thesis using block_in_chunk [OF i(1,5) c(1-3)] p(2) by blast
  qed
  then show ?thesis using i(4) by blast
qed

text \<open>C27: A pool over the page allocator: from \<open>fdb_pool_alloc_init\<close> on, whatever sequence of
  requests and frees a legal client makes within the room of the region, the blocks it holds
  never overlap, and each lies behind the header of a page that the page allocator has handed
  out and not taken back.\<close>

theorem pool_run_disjoint:
  assumes "fdb_pool_alloc_init alignment block_size page_size (Some fdb_page_alloc_super) g mem = Inr pa"
    and "unat alignment < 2 ^ 31"
    and "2 * max 8 (unat block_size) + max 16 (unat alignment) \<le> unat page_size"
    and "page_inv pg plive" "live_apart plive" "page_room pg (allocs cs)"
    and "legal_mem fdb_pool_alloc_alloc fdb_pool_alloc_free (pool_serves page_serves) cs ((pa, pg), Map.empty)"
    and "run_mem fdb_pool_alloc_alloc fdb_pool_alloc_free cs ((pa, pg), Map.empty) = ((pa', pg'), live)"
  shows "live_apart live \<and> (\<exists>plive'. page_inv pg' plive' \<and> (\<forall>p m. live p = Some m \<longrightarrow>
    (\<exists>c n. plive' c = Some n \<and> unat c < unat p \<and> unat p + m \<le> unat c + n)))"
proof -
  have i: "pool_inv fdb_page_alloc_alloc fdb_page_alloc_free page_inv (pa, pg) Map.empty"
    by (rule pool_init_inv [where ainv = page_inv, OF assms(1-3) _ _ assms(4,5)]) (simp_all add: fdb_page_alloc_super_def)
  have r: "pool_room page_room (pa, pg) (0 + allocs cs)" using assms(6) by (simp add: pool_room_def)
  note run = pool_page.pool.run_inv [OF i r live_apart_empty assms(7,8)]
  show ?thesis
  proof (rule conjI)
    show "live_apart live" using run by simp
    have "pool_inv fdb_page_alloc_alloc fdb_page_alloc_free page_inv (pa', pg') live" using run by simp
    then show "\<exists>plive'. page_inv pg' plive' \<and> (\<forall>p m. live p = Some m \<longrightarrow>
      (\<exists>c n. plive' c = Some n \<and> unat c < unat p \<and> unat p + m \<le> unat c + n))"
      by (rule pool_inv_inside)
  qed
qed

text \<open>A pool of 48-byte blocks, aligned to 16, in pages of 1024 bytes of \<open>demo_page\<close>.\<close>

definition demo_pool :: "fdb_page_alloc_t fdb_pool_alloc_t" where
  "demo_pool = \<lparr>pl_first_chunk = NULL, pl_last_chunk = NULL, pl_first_free = NULL,
     pl_alignment = 16, pl_block_size = 48, pl_page_size = 1024, pl_next_free = 0,
     pl_grow_offset = 48, pl_lost_bytes = 64, pl_allocator = fdb_page_alloc_super,
     pl_stats = \<lparr>st_allocated = 0, st_lost = 0, st_used = 0\<rparr>, pl_hdr = (\<lambda>_. 0)\<rparr>"

lemma demo_pool_init:
  "fdb_pool_alloc_init 16 48 1024 (Some fdb_page_alloc_super) demo_heap' (\<lambda>_. 0) = Inr demo_pool"
  by (simp add: fdb_pool_alloc_init_def demo_pool_def FDB_MIN_ALIGNMENT_def)

lemma demo_page_inv: "page_inv demo_page Map.empty" "page_room demo_page (Suc (Suc 0))"
  using page_init_inv [OF demo_page_init, of "Suc (Suc 0)"] by (simp_all add: demo_page_sel)

lemmas pool_simps = fdb_pool_alloc_alloc_def fdb_pool_alloc_free_def pool_serves_def mem_alloc_def
  fdb_page_alloc_super_def

theorem pool_run_disjoint_witness:
  "live_apart (snd (run_mem fdb_pool_alloc_alloc fdb_pool_alloc_free
     [MAlloc 16 48 0, MAlloc 16 48 0] ((demo_pool, demo_page), Map.empty)))"
proof -
  let ?cs = "[MAlloc 16 48 0, MAlloc 16 48 0]"
  obtain pa' pg' live where r: "run_mem fdb_pool_alloc_alloc fdb_pool_alloc_free ?cs
      ((demo_pool, demo_page), Map.empty) = ((pa', pg'), live)"
    by (metis prod.collapse)
  have l: "legal_mem fdb_pool_alloc_alloc fdb_pool_alloc_free (pool_serves page_serves) ?cs
      ((demo_pool, demo_page), Map.empty)"
    by (simp add: pool_simps page_simps demo_page_def demo_pool_def)
  have "page_room demo_page (allocs ?cs)" using demo_page_inv(2) by simp
  from pool_run_disjoint [OF demo_pool_init _ _ demo_page_inv(1) live_apart_empty this l r]
  show ?thesis unfolding r by simp
qed

text \<open>The chunks as the flush loop meets them.\<close>

lemma pool_flush_loop_chained:
  "chained hdr p cs \<Longrightarrow> length cs < fuel \<Longrightarrow>
   pool_flush_loop fuel a hdr p st = Inr (fold (\<lambda>c st. mem_free a st c) cs st)"
proof (induction cs arbitrary: p fuel st)
  case Nil
  then show ?case by (cases fuel) auto
next
  case (Cons c cs)
  then show ?case by (cases fuel) auto
qed

context mem_provider
begin

lemma free_all:
  assumes "ainv st plive" "distinct cs" "\<And>c. c \<in> set cs \<Longrightarrow> plive c \<noteq> None"
  shows "ainv (fold (\<lambda>c st. free st c) cs st) (plive |` (- set cs))"
  using assms
proof (induction cs arbitrary: st plive)
  case Nil
  then show ?case by (simp add: restrict_map_def)
next
  case (Cons c cs)
  have "plive c \<noteq> None" using Cons.prems(3) by simp
  then obtain m where "plive c = Some m" by blast
  then have a: "ainv (free st c) (plive(c := None))" using Cons.prems(1) free_inv by blast
  have "ainv (fold (\<lambda>c st. free st c) cs (free st c)) (plive(c := None) |` (- set cs))"
    by (rule Cons.IH [OF a]) (use Cons.prems in auto)
  moreover have "plive(c := None) |` (- set cs) = plive |` (- set (c # cs))"
    by (auto simp: restrict_map_def fun_eq_iff)
  ultimately show ?case by simp
qed

end

lemma pool_flush_chunks:
  assumes "page_inv pg plive" "pool_chunks pa plive chunks" "pl_allocator pa = fdb_page_alloc_super"
    and "length chunks < fuel"
  shows "\<exists>pg'. fdb_pool_alloc_flush fuel (pa, pg) =
      Inr (pa\<lparr>pl_stats := \<lparr>st_allocated = 0, st_lost = 0, st_used = 0\<rparr>\<rparr>, pg') \<and>
    page_inv pg' (plive |` (- set chunks))"
proof -
  let ?pg = "fold (\<lambda>c st. fdb_page_alloc_free st c) chunks pg"
  have c: "chained (pl_hdr pa) (pl_first_chunk pa) chunks" "distinct chunks"
    "\<And>c. c \<in> set chunks \<Longrightarrow> plive c \<noteq> None"
    using assms(2) by (auto simp: pool_chunks_def)
  have "page_inv ?pg (plive |` (- set chunks))"
    by (rule page.free_all [OF assms(1) c(2,3)])
  moreover have "pool_flush_loop fuel (pl_allocator pa) (pl_hdr pa) (pl_first_chunk pa) pg = Inr ?pg"
    unfolding assms(3) pool_flush_loop_chained [OF c(1) assms(4)]
    by (simp add: mem_free_def fdb_page_alloc_super_def)
  ultimately show ?thesis by (simp add: fdb_pool_alloc_flush_def)
qed

text \<open>\<open>fdb_pool_alloc_flush\<close> ends after one iteration per chunk and gives every chunk back to
  the page allocator exactly once: afterwards the page allocator is consistent and holds none
  of them as handed out.\<close>

theorem pool_flush_frees_chunks:
  assumes "page_inv pg plive" "pool_chunks pa plive chunks" "pl_allocator pa = fdb_page_alloc_super"
    and "length chunks < fuel"
  shows "\<exists>pg'. fdb_pool_alloc_flush fuel (pa, pg) =
      Inr (pa\<lparr>pl_stats := \<lparr>st_allocated = 0, st_lost = 0, st_used = 0\<rparr>\<rparr>, pg') \<and>
    page_inv pg' (plive |` (- set chunks))"
  using assms by (rule pool_flush_chunks)

text \<open>C30: \<open>fdb_pool_alloc_flush\<close> frees the chunks but keeps the pointers to them. When the last
  chunk had room and no block was on the free list, the next request returns an address inside
  a page that is no longer the pool's.\<close>

theorem pool_flush_use_after_free:
  assumes "page_inv pg plive" "pool_config pa" "pool_chunks pa plive chunks" "chunks \<noteq> []"
    and "pl_allocator pa = fdb_page_alloc_super" "length chunks < fuel"
    and "pl_first_free pa = NULL" "pl_next_free pa + pl_block_size pa \<le> pl_page_size pa"
    and "fdb_pool_alloc_flush fuel (pa, pg) = Inr (pa1, pg1)"
    and "fdb_pool_alloc_alloc (pa1, pg1) al sz h = (p, (pa2, pg2))"
  shows "pg2 = pg1 \<and> page_inv pg1 (plive |` (- set chunks)) \<and>
    (plive |` (- set chunks)) (pl_last_chunk pa) = None \<and>
    unat (pl_last_chunk pa) < unat p \<and>
    unat p + unat (pl_block_size pa) \<le> unat (pl_last_chunk pa) + unat (pl_page_size pa)"
proof -
  obtain pg' where f: "fdb_pool_alloc_flush fuel (pa, pg) =
      Inr (pa\<lparr>pl_stats := \<lparr>st_allocated = 0, st_lost = 0, st_used = 0\<rparr>\<rparr>, pg')"
    "page_inv pg' (plive |` (- set chunks))"
    using pool_flush_chunks [OF assms(1,3,5,6)] by blast
  have l: "pl_last_chunk pa \<in> set chunks" "pl_first_chunk pa \<noteq> NULL"
  proof -
    show "pl_last_chunk pa \<in> set chunks"
      using assms(3,4) last_in_set [OF assms(4)] by (simp add: pool_chunks_def)
    show "pl_first_chunk pa \<noteq> NULL"
      using assms(3,4) by (cases chunks) (auto simp: pool_chunks_def)
  qed
  have pa1: "pa1 = pa\<lparr>pl_stats := \<lparr>st_allocated = 0, st_lost = 0, st_used = 0\<rparr>\<rparr>" "pg1 = pg'"
    using f(1) assms(9) by auto
  have p: "p = pl_last_chunk pa + pl_next_free pa" "pg2 = pg'"
    using assms(10,7,8) l(2) by (auto simp: fdb_pool_alloc_alloc_def pa1)
  note c = pool_carve [OF assms(2-4,8), folded p(1)]
  let ?pa = "pa\<lparr>pl_next_free := pl_next_free pa + pl_grow_offset pa\<rparr>"
  obtain k where k: "unat (pl_next_free pa) = Suc k * unat (pl_grow_offset pa)" "k \<le> pool_cap pa"
    using assms(3,4) by (auto simp: pool_chunks_def)
  have g: "0 < unat (pl_grow_offset pa)" using assms(2) by (simp add: pool_config_def)
  have "Suc k \<le> pool_cap pa" using assms(8) pool_has_room_iff [OF assms(2-4)] k g by simp
  moreover have "p = block_at pa (pl_last_chunk pa) (Suc k)"
    unfolding p(1) block_at_def k(1) [symmetric] by simp
  ultimately show ?thesis
    using block_in_chunk [OF assms(2,3) l(1), of "Suc k"] l(1) f(2) pa1(2) p(2)
    by (simp add: restrict_map_def)
qed

text \<open>\<open>m_used\<close> of a pool only grows when a second chunk is opened, yet every free subtracts a
  block: one request and one free on a fresh pool make it wrap below zero.\<close>

theorem pool_used_drifts:
  assumes "pl_first_free pa = NULL" "pl_first_chunk pa = NULL" "pool_config pa"
    and "fdb_pool_alloc_alloc (pa, st) al sz h = (p, ps)"
  shows "st_used (fdb_pool_alloc_stats ps) = st_used (fdb_pool_alloc_stats (pa, st)) \<and>
    st_used (fdb_pool_alloc_stats (fdb_pool_alloc_free ps p)) =
     st_used (fdb_pool_alloc_stats (pa, st)) - pl_grow_offset pa"
  using assms pool_grow_room [OF assms(3)]
  by (auto simp: fdb_pool_alloc_alloc_def fdb_pool_alloc_free_def fdb_pool_alloc_stats_def
      split: prod.splits)

text \<open>A pool that holds one page of \<open>demo_page\<close>, at 11264, and has handed out one block.\<close>

definition demo_used :: "fdb_page_alloc_t fdb_pool_alloc_t \<times> fdb_page_alloc_t" where
  "demo_used = snd (fdb_pool_alloc_alloc (demo_pool, demo_page) 16 48 0)"

lemma demo_used_eq: "demo_used = (demo_pool\<lparr>pl_first_chunk := 11264, pl_last_chunk := 11264,
    pl_next_free := 96, pl_stats := \<lparr>st_allocated = 1024, st_lost = 64, st_used = 0\<rparr>,
    pl_hdr := (\<lambda>_. 0)(11264 := 0)\<rparr>, demo_page\<lparr>pg_ltop := 10240,
    pg_stats := \<lparr>st_allocated = 8192, st_lost = 0, st_used = 1024\<rparr>\<rparr>)"
  by (simp add: demo_used_def pool_simps page_simps demo_pool_def demo_page_def)

lemma demo_used_facts:
  "page_inv (snd demo_used) [11264 \<mapsto> 1024]" "pool_chunks (fst demo_used) [11264 \<mapsto> 1024] [11264]"
  "pool_config (fst demo_used)"
proof -
  have "fdb_page_alloc_alloc demo_page 16 1024 0 = (11264, snd demo_used)"
    by (simp add: demo_used_eq page_simps demo_page_def)
  from page_alloc_step [OF demo_page_inv(1) _ _ this, of "Suc 0"] demo_page_inv(2)
  show "page_inv (snd demo_used) [11264 \<mapsto> 1024]"
    by (simp add: page_serves_def demo_page_sel)
  show "pool_chunks (fst demo_used) [11264 \<mapsto> 1024] [11264]"
    by (simp add: demo_used_eq pool_chunks_def demo_pool_def live_apart_def pool_cap_def)
  show "pool_config (fst demo_used)"
    by (simp add: demo_used_eq pool_config_def demo_pool_def)
qed

theorem pool_flush_frees_chunks_witness:
  "\<exists>pa' pg'. fdb_pool_alloc_flush 2 demo_used = Inr (pa', pg') \<and> page_inv pg' Map.empty"
proof -
  have "pl_allocator (fst demo_used) = fdb_page_alloc_super" by (simp add: demo_used_eq demo_pool_def)
  moreover have "[11264 \<mapsto> 1024] |` (- set [11264]) = (Map.empty :: ptr \<rightharpoonup> nat)"
    by (simp add: restrict_map_def fun_eq_iff)
  ultimately show ?thesis
    using pool_flush_frees_chunks [OF demo_used_facts(1,2), of 2] by (metis length_Cons list.size(3) lessI
      numeral_2_eq_2 prod.collapse)
qed

theorem pool_flush_use_after_free_witness:
  "\<exists>ps p ps'. fdb_pool_alloc_flush 2 demo_used = Inr ps \<and> fdb_pool_alloc_alloc ps 16 48 0 = (p, ps') \<and>
     page_inv (snd ps) Map.empty \<and> 11264 < unat p \<and> unat p + 48 \<le> 11264 + 1024"
proof -
  have e: "[11264 \<mapsto> 1024] |` (- set [11264]) = (Map.empty :: ptr \<rightharpoonup> nat)"
    by (simp add: restrict_map_def fun_eq_iff)
  have d: "pl_allocator (fst demo_used) = fdb_page_alloc_super" "pl_first_free (fst demo_used) = NULL"
    "pl_next_free (fst demo_used) + pl_block_size (fst demo_used) \<le> pl_page_size (fst demo_used)"
    "unat (pl_block_size (fst demo_used)) = 48" "unat (pl_page_size (fst demo_used)) = 1024"
    "unat (pl_last_chunk (fst demo_used)) = 11264"
    by (simp_all add: demo_used_eq demo_pool_def)
  obtain pa1 pg1 where f: "fdb_pool_alloc_flush 2 (fst demo_used, snd demo_used) = Inr (pa1, pg1)"
    using pool_flush_chunks [OF demo_used_facts(1,2) d(1), of 2] by auto
  obtain p pa2 pg2 where a: "fdb_pool_alloc_alloc (pa1, pg1) 16 48 0 = (p, (pa2, pg2))"
    by (metis prod.collapse)
  show ?thesis
    using pool_flush_use_after_free [OF demo_used_facts(1,3,2) _ d(1) _ d(2,3) f a] f a e d(4-6) by auto
qed

theorem pool_used_drifts_witness:
  "st_used (fdb_pool_alloc_stats (fdb_pool_alloc_free demo_used 11312)) = - 48"
proof -
  have c: "pool_config demo_pool" by (simp add: pool_config_def demo_pool_def)
  have "fdb_pool_alloc_alloc (demo_pool, demo_page) 16 48 0 = (11312, demo_used)"
    by (simp add: demo_used_eq pool_simps page_simps demo_pool_def demo_page_def)
  from pool_used_drifts [OF _ _ c this] show ?thesis
    by (simp add: demo_pool_def fdb_pool_alloc_stats_def)
qed

end
