(* ===== verification/Btree.thy ===== *)
theory Btree
  imports PoolAlloc
begin

text \<open>
  src/src/common/btree.c and btree.h: the B+ tree from 32-bit keys to pointers that the
  tables, registries and the database are built on. Nodes live in a heap of nodes
  \<open>bt_nodes\<close>; their addresses come from the tree's pool allocator. The union of internal and
  leaf nodes is a datatype: reading one variant as the other is \<open>BadPointer\<close>. Recursion over
  the nodes is bounded by fuel; the theories BtreeTree, BtreeInsert and BtreeMap show that \<open>BT_FUEL\<close> is enough for
  every tree the operations build.
\<close>

section \<open>Nodes\<close>

record fdb_btree_internal_t =
  in_children :: "ptr list"
  in_keys :: "u32 list"
  in_nchildren :: u16

record fdb_btree_leaf_t =
  lf_leafs :: "ptr list"
  lf_next :: ptr
  lf_keys :: "u32 list"
  lf_nleafs :: u16

datatype fdb_btree_node_t = E_INTERNAL fdb_btree_internal_t | E_LEAF fdb_btree_leaf_t

type_synonym btheap = "ptr \<rightharpoonup> fdb_btree_node_t"

record 'st fdb_btree_t =
  bt_root :: ptr
  bt_size :: u32
  bt_node_allocator :: "'st fdb_pool_alloc_t"
  bt_nodes :: btheap

record fdb_btree_insert_t =
  bi_inserted :: bool
  bi_place :: "(ptr \<times> nat) option"   \<comment> \<open>\<open>p_place\<close>: a leaf and a slot of its \<open>m_leafs\<close>\<close>

record fdb_btree_entry_t =
  be_key :: u32
  be_value :: ptr

record fdb_btree_iter_t =
  it_leaf :: ptr
  it_index :: u32

definition FDB_BTREE_INTERNAL_MAX_ARITY :: nat where "FDB_BTREE_INTERNAL_MAX_ARITY = 10"
definition FDB_BTREE_INTERNAL_MIN_ARITY :: nat where
  "FDB_BTREE_INTERNAL_MIN_ARITY = (FDB_BTREE_INTERNAL_MAX_ARITY + 2 - 1) div 2"
definition FDB_BTREE_LEAF_MAX_ARITY :: nat where "FDB_BTREE_LEAF_MAX_ARITY = 9"
definition FDB_BTREE_LEAF_MIN_ARITY :: nat where
  "FDB_BTREE_LEAF_MIN_ARITY = (FDB_BTREE_LEAF_MAX_ARITY + 2 - 1) div 2"
definition FDB_BTREE_NODE_ALIGNMENT :: u32 where "FDB_BTREE_NODE_ALIGNMENT = 64"
definition FDB_BTREE_ALIGNMENT :: u32 where "FDB_BTREE_ALIGNMENT = 64"
definition FDB_BTREE_PAGE_SIZE :: u32 where "FDB_BTREE_PAGE_SIZE = 4096"
definition sizeof_node :: u32 where "sizeof_node = 128"
definition BT_FUEL :: nat where "BT_FUEL = 64"

lemmas btree_consts = FDB_BTREE_INTERNAL_MAX_ARITY_def FDB_BTREE_INTERNAL_MIN_ARITY_def
  FDB_BTREE_LEAF_MAX_ARITY_def FDB_BTREE_LEAF_MIN_ARITY_def

text \<open>Reading a node through a pointer, as either variant.\<close>

definition node_at :: "btheap \<Rightarrow> ptr \<Rightarrow> fdb_btree_node_t res" where
  "node_at h p = (if p = NULL then Inl NullDeref
     else case h p of None \<Rightarrow> Inl BadPointer | Some n \<Rightarrow> Inr n)"

definition internal_at :: "btheap \<Rightarrow> ptr \<Rightarrow> fdb_btree_internal_t res" where
  "internal_at h p = bind_res (node_at h p)
     (\<lambda>n. case n of E_INTERNAL i \<Rightarrow> Inr i | E_LEAF l \<Rightarrow> Inl BadPointer)"

definition leaf_at :: "btheap \<Rightarrow> ptr \<Rightarrow> fdb_btree_leaf_t res" where
  "leaf_at h p = bind_res (node_at h p)
     (\<lambda>n. case n of E_INTERNAL i \<Rightarrow> Inl BadPointer | E_LEAF l \<Rightarrow> Inr l)"

definition zero_internal :: fdb_btree_internal_t where
  "zero_internal = \<lparr>in_children = replicate FDB_BTREE_INTERNAL_MAX_ARITY NULL,
     in_keys = replicate (FDB_BTREE_INTERNAL_MAX_ARITY - 1) 0, in_nchildren = 0\<rparr>"

definition zero_leaf :: fdb_btree_leaf_t where
  "zero_leaf = \<lparr>lf_leafs = replicate FDB_BTREE_LEAF_MAX_ARITY NULL, lf_next = NULL,
     lf_keys = replicate FDB_BTREE_LEAF_MAX_ARITY 0, lf_nleafs = 0\<rparr>"

section \<open>Creating and destroying\<close>

definition create_node ::
  "fdb_btree_node_t \<Rightarrow> 'st fdb_btree_t \<times> 'st \<Rightarrow> (ptr \<times> ('st fdb_btree_t \<times> 'st)) res" where
  "create_node zero bs =
     (let (btree, st) = bs;
          (node, (pool, st)) = fdb_pool_alloc_alloc (bt_node_allocator btree, st)
             FDB_BTREE_NODE_ALIGNMENT sizeof_node (- 1)
      in if node = NULL then Inl NullDeref
         else Inr (node, (btree\<lparr>bt_node_allocator := pool,
                bt_nodes := (bt_nodes btree)(node \<mapsto> zero)\<rparr>, st)))"

definition fdb_btree_create_internal ::
  "'st fdb_btree_t \<times> 'st \<Rightarrow> (ptr \<times> ('st fdb_btree_t \<times> 'st)) res" where
  "fdb_btree_create_internal bs = create_node (E_INTERNAL zero_internal) bs"

definition fdb_btree_create_leaf ::
  "'st fdb_btree_t \<times> 'st \<Rightarrow> (ptr \<times> ('st fdb_btree_t \<times> 'st)) res" where
  "fdb_btree_create_leaf bs = create_node (E_LEAF zero_leaf) bs"

definition fdb_btree_init ::
  "'st fdb_mem_allocator_t option \<Rightarrow> 'st fdb_mem_allocator_t \<Rightarrow> (ptr \<Rightarrow> ptr) \<Rightarrow> 'st \<Rightarrow>
   ('st fdb_btree_t \<times> 'st) res" where
  "fdb_btree_init allocator gallocator mem st =
     (let mallocator = (case allocator of Some a \<Rightarrow> a | None \<Rightarrow> gallocator)
      in bind_res (fdb_pool_alloc_init FDB_BTREE_ALIGNMENT sizeof_node FDB_BTREE_PAGE_SIZE
              (Some mallocator) gallocator mem) (\<lambda>pool.
         bind_res (fdb_btree_create_internal
              (\<lparr>bt_root = NULL, bt_size = 0, bt_node_allocator = pool, bt_nodes = Map.empty\<rparr>, st))
           (\<lambda>(p, (btree, st)). Inr (btree\<lparr>bt_root := p\<rparr>, st))))"

text \<open>Freeing a node gives its block back to the pool.\<close>

definition free_node :: "'st fdb_btree_t \<times> 'st \<Rightarrow> ptr \<Rightarrow> 'st fdb_btree_t \<times> 'st" where
  "free_node bs node =
     (let (btree, st) = bs; (pool, st) = fdb_pool_alloc_free (bt_node_allocator btree, st) node
      in (btree\<lparr>bt_node_allocator := pool, bt_nodes := (bt_nodes btree)(node := None)\<rparr>, st))"

text \<open>\<open>fdb_btree_destroy_node\<close>: the children in order, then the node itself. The writes of NULL
  into the node that is then freed are dead.\<close>

fun destroy_children ::
  "('st fdb_btree_t \<times> 'st \<Rightarrow> ptr \<Rightarrow> ('st fdb_btree_t \<times> 'st) res) \<Rightarrow> ptr list \<Rightarrow>
   'st fdb_btree_t \<times> 'st \<Rightarrow> ('st fdb_btree_t \<times> 'st) res" where
  "destroy_children destroy [] bs = Inr bs"
| "destroy_children destroy (c # cs) bs =
     bind_res (if c \<noteq> NULL then destroy bs c else Inr bs) (destroy_children destroy cs)"

fun fdb_btree_destroy_node ::
  "nat \<Rightarrow> 'st fdb_btree_t \<times> 'st \<Rightarrow> ptr \<Rightarrow> ('st fdb_btree_t \<times> 'st) res" where
  "fdb_btree_destroy_node 0 bs node = Inl OutOfFuel"
| "fdb_btree_destroy_node (Suc fuel) bs node =
     bind_res (node_at (bt_nodes (fst bs)) node) (\<lambda>n.
     bind_res (case n of E_INTERNAL i \<Rightarrow> destroy_children (fdb_btree_destroy_node fuel) (in_children i) bs
               | E_LEAF l \<Rightarrow> Inr bs) (\<lambda>bs. Inr (free_node bs node)))"

definition fdb_btree_clear :: "'st fdb_btree_t \<times> 'st \<Rightarrow> ('st fdb_btree_t \<times> 'st) res" where
  "fdb_btree_clear bs =
     bind_res (fdb_btree_destroy_node BT_FUEL bs (bt_root (fst bs))) (\<lambda>bs.
     bind_res (fdb_btree_create_internal bs) (\<lambda>(p, (btree, st)).
     Inr (btree\<lparr>bt_root := p, bt_size := 0\<rparr>, st)))"

definition fdb_btree_release :: "nat \<Rightarrow> 'st fdb_btree_t \<times> 'st \<Rightarrow> ('st fdb_btree_t \<times> 'st) res" where
  "fdb_btree_release fuel bs =
     bind_res (fdb_btree_destroy_node BT_FUEL bs (bt_root (fst bs))) (\<lambda>(btree, st).
     bind_res (fdb_pool_alloc_release fuel (bt_node_allocator btree, st)) (\<lambda>(pool, st).
     Inr (btree\<lparr>bt_node_allocator := pool, bt_root := NULL\<rparr>, st)))"

section \<open>Lookup\<close>

text \<open>The scans of a node, from slot \<open>i\<close> on.\<close>

function next_internal_from :: "fdb_btree_internal_t \<Rightarrow> u32 \<Rightarrow> nat \<Rightarrow> nat" where
  "next_internal_from node key i =
     (if i < FDB_BTREE_INTERNAL_MAX_ARITY - 1 \<and> in_children node ! (i + 1) \<noteq> NULL \<and>
         in_keys node ! i \<le> key
      then next_internal_from node key (Suc i) else i)"
  by pat_completeness auto
termination
  by (relation "measure (\<lambda>(node, key, i). FDB_BTREE_INTERNAL_MAX_ARITY - i)") auto

definition fdb_btree_next_internal :: "fdb_btree_internal_t \<Rightarrow> u32 \<Rightarrow> nat" where
  "fdb_btree_next_internal node key = next_internal_from node key 0"

function next_leaf_from :: "fdb_btree_leaf_t \<Rightarrow> u32 \<Rightarrow> nat \<Rightarrow> nat" where
  "next_leaf_from node key i =
     (if i < FDB_BTREE_LEAF_MAX_ARITY \<and> lf_leafs node ! i \<noteq> NULL \<and> lf_keys node ! i < key
      then next_leaf_from node key (Suc i) else i)"
  by pat_completeness auto
termination
  by (relation "measure (\<lambda>(node, key, i). FDB_BTREE_LEAF_MAX_ARITY - i)") auto

definition fdb_btree_next_leaf :: "fdb_btree_leaf_t \<Rightarrow> u32 \<Rightarrow> nat" where
  "fdb_btree_next_leaf node key = next_leaf_from node key 0"

declare next_internal_from.simps [simp del] next_leaf_from.simps [simp del]

fun fdb_btree_get_node :: "nat \<Rightarrow> btheap \<Rightarrow> ptr \<Rightarrow> u32 \<Rightarrow> ptr res" where
  "fdb_btree_get_node 0 h node ekey = Inl OutOfFuel"
| "fdb_btree_get_node (Suc fuel) h node ekey =
     bind_res (node_at h node) (\<lambda>n. case n of
       E_INTERNAL i \<Rightarrow>
         let child_idx = fdb_btree_next_internal i ekey in
         if child_idx < FDB_BTREE_INTERNAL_MAX_ARITY then
           let child = in_children i ! child_idx in
           if child \<noteq> NULL then fdb_btree_get_node fuel h child ekey else Inr NULL
         else Inr NULL
     | E_LEAF l \<Rightarrow>
         let i = fdb_btree_next_leaf l ekey in
         if i < FDB_BTREE_LEAF_MAX_ARITY \<and> lf_leafs l ! i \<noteq> NULL \<and> lf_keys l ! i = ekey
         then Inr (lf_leafs l ! i) else Inr NULL)"

definition fdb_btree_get :: "'st fdb_btree_t \<Rightarrow> u32 \<Rightarrow> ptr res" where
  "fdb_btree_get root ekey =
     bind_res (fdb_btree_get_node BT_FUEL (bt_nodes root) (bt_root root) ekey)
       (\<lambda>value. if value \<noteq> NULL then Inr value else Inr NULL)"

section \<open>Insertion\<close>

text \<open>The two loops of \<open>split_internal\<close> and the loop of \<open>split_leaf\<close>, over the pair of the new
  sibling and the node that is split.\<close>

definition split_internal_nodes ::
  "fdb_btree_internal_t \<Rightarrow> fdb_btree_internal_t \<Rightarrow> fdb_btree_internal_t \<times> fdb_btree_internal_t" where
  "split_internal_nodes sibling node =
     (let start = FDB_BTREE_INTERNAL_MIN_ARITY;
          node = node\<lparr>in_keys := (in_keys node)[start - 1 := 0]\<rparr>;
          sn = fold (\<lambda>i (s, n).
                 (s\<lparr>in_children := (in_children s)[i - start := in_children n ! i],
                    in_nchildren := in_nchildren s + 1\<rparr>,
                  n\<lparr>in_children := (in_children n)[i := NULL],
                    in_nchildren := in_nchildren n - 1\<rparr>))
               [start..<FDB_BTREE_INTERNAL_MAX_ARITY] (sibling, node)
      in fold (\<lambda>i (s, n).
                 (s\<lparr>in_keys := (in_keys s)[i - start := in_keys n ! i]\<rparr>,
                  n\<lparr>in_keys := (in_keys n)[i := 0]\<rparr>))
               [start..<FDB_BTREE_INTERNAL_MAX_ARITY - 1] sn)"

definition split_leaf_nodes ::
  "fdb_btree_leaf_t \<Rightarrow> fdb_btree_leaf_t \<Rightarrow> fdb_btree_leaf_t \<times> fdb_btree_leaf_t" where
  "split_leaf_nodes sibling node =
     (let start = FDB_BTREE_LEAF_MIN_ARITY
      in fold (\<lambda>i (s, n).
            (s\<lparr>lf_leafs := (lf_leafs s)[i - start := lf_leafs n ! i],
               lf_keys := (lf_keys s)[i - start := lf_keys n ! i],
               lf_nleafs := lf_nleafs s + 1\<rparr>,
             n\<lparr>lf_leafs := (lf_leafs n)[i := NULL], lf_keys := (lf_keys n)[i := 0],
               lf_nleafs := lf_nleafs n - 1\<rparr>))
          [start..<FDB_BTREE_LEAF_MAX_ARITY] (sibling, node))"

definition write_node :: "'st fdb_btree_t \<times> 'st \<Rightarrow> ptr \<Rightarrow> fdb_btree_node_t \<Rightarrow> 'st fdb_btree_t \<times> 'st" where
  "write_node bs p n = (case bs of (btree, st) \<Rightarrow> (btree\<lparr>bt_nodes := (bt_nodes btree)(p \<mapsto> n)\<rparr>, st))"

text \<open>The results are the sibling and the key between the two halves.\<close>

definition fdb_btree_split_internal ::
  "'st fdb_btree_t \<times> 'st \<Rightarrow> ptr \<Rightarrow> ((ptr \<times> u32) \<times> ('st fdb_btree_t \<times> 'st)) res" where
  "fdb_btree_split_internal bs node =
     bind_res (fdb_btree_create_internal bs) (\<lambda>(sibling, bs).
     bind_res (internal_at (bt_nodes (fst bs)) node) (\<lambda>n.
     bind_res (internal_at (bt_nodes (fst bs)) sibling) (\<lambda>s.
     let sibling_key = in_keys n ! (FDB_BTREE_INTERNAL_MIN_ARITY - 1);
         (s, n) = split_internal_nodes s n
     in Inr ((sibling, sibling_key),
             write_node (write_node bs node (E_INTERNAL n)) sibling (E_INTERNAL s)))))"

definition fdb_btree_split_leaf ::
  "'st fdb_btree_t \<times> 'st \<Rightarrow> ptr \<Rightarrow> ((ptr \<times> u32) \<times> ('st fdb_btree_t \<times> 'st)) res" where
  "fdb_btree_split_leaf bs node =
     bind_res (fdb_btree_create_leaf bs) (\<lambda>(sibling, bs).
     bind_res (leaf_at (bt_nodes (fst bs)) node) (\<lambda>n.
     bind_res (leaf_at (bt_nodes (fst bs)) sibling) (\<lambda>s.
     let sibling_key = lf_keys n ! FDB_BTREE_LEAF_MIN_ARITY;
         (s, n) = split_leaf_nodes s n
     in Inr ((sibling, sibling_key),
             write_node (write_node bs node (E_LEAF n)) sibling (E_LEAF s)))))"

text \<open>With \<open>idx = 0\<close> the code writes \<open>m_keys[-1]\<close>.\<close>

definition fdb_btree_shift_insert_internal ::
  "fdb_btree_internal_t \<Rightarrow> nat \<Rightarrow> ptr \<Rightarrow> u32 \<Rightarrow> fdb_btree_internal_t res" where
  "fdb_btree_shift_insert_internal node idx child key =
     (if idx = 0 then Inl OutOfBounds else
      bind_res (wr (shift_up (in_children node) idx) idx child) (\<lambda>children.
      bind_res (wr (shift_up (in_keys node) (idx - 1)) (idx - 1) key) (\<lambda>keys.
      Inr \<lparr>in_children = children, in_keys = keys, in_nchildren = in_nchildren node + 1\<rparr>)))"

definition fdb_btree_shift_insert_leaf ::
  "fdb_btree_leaf_t \<Rightarrow> nat \<Rightarrow> u32 \<Rightarrow> fdb_btree_leaf_t res" where
  "fdb_btree_shift_insert_leaf node idx key =
     bind_res (wr (shift_up (lf_leafs node) idx) idx NULL) (\<lambda>leafs.
     bind_res (wr (shift_up (lf_keys node) idx) idx key) (\<lambda>keys.
     Inr (node\<lparr>lf_leafs := leafs, lf_keys := keys, lf_nleafs := lf_nleafs node + 1\<rparr>)))"

definition fdb_btree_split_child_full ::
  "'st fdb_btree_t \<times> 'st \<Rightarrow> ptr \<Rightarrow> nat \<Rightarrow> u32 \<Rightarrow> (ptr \<times> ('st fdb_btree_t \<times> 'st)) res" where
  "fdb_btree_split_child_full bs node child_idx key =
     bind_res (internal_at (bt_nodes (fst bs)) node) (\<lambda>n.
     bind_res (rd (in_children n) child_idx) (\<lambda>child.
     bind_res (node_at (bt_nodes (fst bs)) child) (\<lambda>c. case c of
       E_INTERNAL ci \<Rightarrow>
         if in_nchildren ci = of_nat FDB_BTREE_INTERNAL_MAX_ARITY then
           bind_res (fdb_btree_split_internal bs child) (\<lambda>((sibling, sibling_key), bs).
           bind_res (internal_at (bt_nodes (fst bs)) node) (\<lambda>n.
           bind_res (fdb_btree_shift_insert_internal n (child_idx + 1) sibling sibling_key) (\<lambda>n.
           Inr (if sibling_key \<le> key then sibling else child, write_node bs node (E_INTERNAL n)))))
         else Inr (child, bs)
     | E_LEAF cl \<Rightarrow>
         if lf_nleafs cl = of_nat FDB_BTREE_LEAF_MAX_ARITY then
           bind_res (fdb_btree_split_leaf bs child) (\<lambda>((sibling, sibling_key), bs).
           bind_res (internal_at (bt_nodes (fst bs)) node) (\<lambda>n.
           bind_res (fdb_btree_shift_insert_internal n (child_idx + 1) sibling sibling_key) (\<lambda>n.
           let bs = write_node bs node (E_INTERNAL n) in
           bind_res (leaf_at (bt_nodes (fst bs)) child) (\<lambda>c.
           bind_res (leaf_at (bt_nodes (fst bs)) sibling) (\<lambda>s.
           let bs = write_node bs sibling (E_LEAF (s\<lparr>lf_next := lf_next c\<rparr>));
               bs = write_node bs child (E_LEAF (c\<lparr>lf_next := sibling\<rparr>))
           in Inr (if sibling_key \<le> key then sibling else child, bs))))))
         else Inr (child, bs))))"

text \<open>The part that \<open>fdb_btree_insert_node\<close> and \<open>fdb_btree_insert\<close> share: find the child
  for the key in an internal node, creating it in an empty node, and split it when full.\<close>

definition insert_child ::
  "'st fdb_btree_t \<times> 'st \<Rightarrow> ptr \<Rightarrow> u32 \<Rightarrow> (ptr \<times> ('st fdb_btree_t \<times> 'st)) res" where
  "insert_child bs node key =
     bind_res (internal_at (bt_nodes (fst bs)) node) (\<lambda>n.
     let child_idx = fdb_btree_next_internal n key in
     bind_res (rd (in_children n) child_idx) (\<lambda>child.
     bind_res (if child = NULL then
         bind_res (if in_nchildren n = 0 then Inr True
                   else bind_res (node_at (bt_nodes (fst bs)) (in_children n ! 0))
                     (\<lambda>c. Inr (case c of E_LEAF l \<Rightarrow> True | E_INTERNAL i \<Rightarrow> False))) (\<lambda>leaf.
         bind_res (if leaf then fdb_btree_create_leaf bs else fdb_btree_create_internal bs) (\<lambda>(child, bs).
         Inr (write_node bs node (E_INTERNAL (n\<lparr>in_children := (in_children n)[child_idx := child],
                in_keys := (if 0 < child_idx then (in_keys n)[child_idx - 1 := key] else in_keys n),
                in_nchildren := in_nchildren n + 1\<rparr>)))))
       else Inr bs) (\<lambda>bs.
     fdb_btree_split_child_full bs node child_idx key)))"

fun fdb_btree_insert_node ::
  "nat \<Rightarrow> 'st fdb_btree_t \<times> 'st \<Rightarrow> ptr \<Rightarrow> u32 \<Rightarrow> ptr \<Rightarrow>
   (fdb_btree_insert_t \<times> ('st fdb_btree_t \<times> 'st)) res" where
  "fdb_btree_insert_node 0 bs node key p = Inl OutOfFuel"
| "fdb_btree_insert_node (Suc fuel) bs node key p =
     bind_res (node_at (bt_nodes (fst bs)) node) (\<lambda>n. case n of
       E_INTERNAL i \<Rightarrow>
         bind_res (insert_child bs node key) (\<lambda>(child, bs).
         fdb_btree_insert_node fuel bs child key p)
     | E_LEAF l \<Rightarrow>
         let pos = fdb_btree_next_leaf l key in
         bind_res (rd (lf_keys l) pos) (\<lambda>k.
         bind_res (rd (lf_leafs l) pos) (\<lambda>v.
         if k \<noteq> key \<or> v = NULL then
           bind_res (fdb_btree_shift_insert_leaf l pos key) (\<lambda>l.
           let (btree, st) = write_node bs node (E_LEAF (l\<lparr>lf_leafs := (lf_leafs l)[pos := p]\<rparr>))
           in Inr (\<lparr>bi_inserted = True, bi_place = Some (node, pos)\<rparr>,
                   (btree\<lparr>bt_size := bt_size btree + 1\<rparr>, st)))
         else Inr (\<lparr>bi_inserted = False, bi_place = Some (node, pos)\<rparr>, bs))))"

text \<open>The two steps of \<open>fdb_btree_insert\<close>: a full root gets a new root above its two
  halves; then the descent from the root.\<close>

definition split_root ::
  "'st fdb_btree_t \<times> 'st \<Rightarrow> ptr \<Rightarrow> (ptr \<times> ('st fdb_btree_t \<times> 'st)) res" where
  "split_root bs root =
     bind_res (fdb_btree_split_internal bs root) (\<lambda>((sibling, sibling_key), bs).
     bind_res (fdb_btree_create_internal bs) (\<lambda>(new_root, bs).
     let (btree, st) = write_node bs new_root (E_INTERNAL (zero_internal
           \<lparr>in_children := (in_children zero_internal)[0 := root, 1 := sibling],
            in_keys := (in_keys zero_internal)[0 := sibling_key], in_nchildren := 2\<rparr>))
     in Inr (new_root, (btree\<lparr>bt_root := new_root\<rparr>, st))))"

definition descend ::
  "'st fdb_btree_t \<times> 'st \<Rightarrow> ptr \<Rightarrow> u32 \<Rightarrow> ptr \<Rightarrow> (fdb_btree_insert_t \<times> ('st fdb_btree_t \<times> 'st)) res" where
  "descend bs root key v = bind_res (insert_child bs root key)
     (\<lambda>(child, bs). fdb_btree_insert_node BT_FUEL bs child key v)"

definition fdb_btree_insert ::
  "'st fdb_btree_t \<times> 'st \<Rightarrow> u32 \<Rightarrow> ptr \<Rightarrow> (fdb_btree_insert_t \<times> ('st fdb_btree_t \<times> 'st)) res" where
  "fdb_btree_insert bs key p =
     (let root = bt_root (fst bs) in
     bind_res (internal_at (bt_nodes (fst bs)) root) (\<lambda>n.
     bind_res (if in_nchildren n = of_nat FDB_BTREE_INTERNAL_MAX_ARITY then split_root bs root
       else Inr (root, bs)) (\<lambda>(root, bs). descend bs root key p)))"

section \<open>Iteration\<close>

fun iter_leftmost :: "nat \<Rightarrow> btheap \<Rightarrow> ptr \<Rightarrow> ptr res" where
  "iter_leftmost 0 h p = Inl OutOfFuel"
| "iter_leftmost (Suc fuel) h p =
     (if p = NULL then Inr NULL
      else bind_res (node_at h p) (\<lambda>n. case n of
        E_INTERNAL i \<Rightarrow> iter_leftmost fuel h (in_children i ! 0) | E_LEAF l \<Rightarrow> Inr p))"

definition fdb_btree_iter_init :: "'st fdb_btree_t \<Rightarrow> fdb_btree_iter_t res" where
  "fdb_btree_iter_init btree =
     bind_res (iter_leftmost BT_FUEL (bt_nodes btree) (bt_root btree))
       (\<lambda>leaf. Inr \<lparr>it_leaf = leaf, it_index = 0\<rparr>)"

definition fdb_btree_iter_has_next :: "btheap \<Rightarrow> fdb_btree_iter_t \<Rightarrow> bool res" where
  "fdb_btree_iter_has_next h iter =
     (if it_leaf iter = NULL then Inr False else
      bind_res (leaf_at h (it_leaf iter)) (\<lambda>l.
      if it_index iter < ucast (lf_nleafs l) then Inr True
      else if lf_next l = NULL then Inr False
      else bind_res (leaf_at h (lf_next l)) (\<lambda>s. Inr (0 < lf_nleafs s))))"

definition fdb_btree_iter_next ::
  "btheap \<Rightarrow> fdb_btree_iter_t \<Rightarrow> (fdb_btree_entry_t \<times> fdb_btree_iter_t) res" where
  "fdb_btree_iter_next h iter =
     (if it_leaf iter = NULL then Inr (\<lparr>be_key = 0xffffffff, be_value = NULL\<rparr>, iter) else
      bind_res (leaf_at h (it_leaf iter)) (\<lambda>l.
      if lf_nleafs l = 0 then Inr (\<lparr>be_key = 0xffffffff, be_value = NULL\<rparr>, iter) else
      bind_res (rd (lf_keys l) (unat (it_index iter))) (\<lambda>id.
      bind_res (rd (lf_leafs l) (unat (it_index iter))) (\<lambda>value.
      let index = it_index iter + 1;
          iter = (if ucast (lf_nleafs l) \<le> index
                  then \<lparr>it_leaf = lf_next l, it_index = 0\<rparr> else iter\<lparr>it_index := index\<rparr>)
      in Inr (\<lparr>be_key = id, be_value = value\<rparr>, iter)))))"

end
