(* ===== verification/BtreeTree.thy ===== *)
theory BtreeTree
  imports Btree
begin

text \<open>
  The abstract side of the B+ tree: trees of keys and values annotated with node addresses,
  their invariant, and the predicate \<open>rep\<close> that a heap of nodes holds such a tree, the chain
  of \<open>m_next\<close> pointers through the leaves included. \<open>nx\<close> is the leaf after the last one.
\<close>

section \<open>Sorted entries\<close>

type_synonym entries = "(u32 \<times> ptr) list"

text \<open>Insertion keeps the value of a key that is present, as the code does.\<close>

fun ins :: "u32 \<Rightarrow> ptr \<Rightarrow> entries \<Rightarrow> entries" where
  "ins k v [] = [(k, v)]"
| "ins k v ((k', v') # r) =
     (if k < k' then (k, v) # (k', v') # r
      else if k = k' then (k', v') # r else (k', v') # ins k v r)"

abbreviation ascending :: "entries \<Rightarrow> bool" where
  "ascending xs \<equiv> sorted_wrt (<) (map fst xs)"

lemma ins_append_left: "\<forall>e\<in>set as. fst e < k \<Longrightarrow> ins k v (as @ xs) = as @ ins k v xs"
  by (induction as) auto

lemma ins_append_right: "\<forall>e\<in>set bs. k < fst e \<Longrightarrow> ins k v (xs @ bs) = ins k v xs @ bs"
proof (induction xs)
  case Nil
  then show ?case by (cases bs) auto
qed auto

lemma fst_ins: "fst ` set (ins k v xs) = insert k (fst ` set xs)"
proof (induction xs)
  case (Cons a xs)
  then show ?case by (cases a) (simp add: insert_commute)
qed simp

lemma ascending_ins: "ascending xs \<Longrightarrow> ascending (ins k v xs)"
proof (induction xs)
  case (Cons a xs)
  obtain k' v' where a: "a = (k', v')" by fastforce
  have m: "set (map fst (ins k v xs)) = insert k (fst ` set xs)" by (simp add: fst_ins)
  show ?case using Cons m by (auto simp: a)
qed simp

lemma ascending_Cons:
  "ascending ((k', v') # xs) \<Longrightarrow> k \<le> k' \<Longrightarrow> k \<notin> fst ` set xs"
  by auto

lemma length_ins:
  "ascending xs \<Longrightarrow> length (ins k v xs) = (if k \<in> fst ` set xs then length xs else Suc (length xs))"
proof (induction xs)
  case (Cons a xs)
  obtain k' v' where a: "a = (k', v')" by fastforce
  have asc: "ascending xs" "k \<le> k' \<Longrightarrow> k \<notin> fst ` set xs"
    using Cons.prems ascending_Cons [of k' v' xs k] by (simp_all add: a)
  consider "k < k'" | "k = k'" | "k' < k" by (meson linorder_less_linear)
  then show ?case
    using Cons.IH [OF asc(1)] asc(2) by cases (auto simp: a)
qed simp

lemma map_of_ins:
  "ascending xs \<Longrightarrow> map_of (ins k v xs) = (case map_of xs k of None \<Rightarrow> (map_of xs)(k \<mapsto> v) | Some _ \<Rightarrow> map_of xs)"
proof (induction xs)
  case (Cons a xs)
  obtain k' v' where a: "a = (k', v')" by fastforce
  have "map_of xs k = None" if "k < k'"
    using that Cons.prems by (auto simp: a map_of_eq_None_iff)
  then show ?case using Cons by (auto simp: a fun_eq_iff split: option.splits)
qed simp

lemma ins_split:
  "ascending xs \<Longrightarrow> ins k v xs =
    (let a = takeWhile (\<lambda>e. fst e < k) xs; b = dropWhile (\<lambda>e. fst e < k) xs
     in if b \<noteq> [] \<and> fst (hd b) = k then xs else a @ (k, v) # b)"
proof (induction xs)
  case (Cons a xs)
  obtain k' v' where a: "a = (k', v')" by fastforce
  consider "k < k'" | "k = k'" | "k' < k" by (meson linorder_less_linear)
  then show ?case
  proof cases
    case 3
    then show ?thesis using Cons by (auto simp: a Let_def)
  qed (auto simp: a)
qed simp

section \<open>Trees\<close>

datatype tree = TL ptr entries | TN ptr "tree list" "u32 list"

fun root_of :: "tree \<Rightarrow> ptr" where
  "root_of (TL p kvs) = p"
| "root_of (TN p ts ks) = p"

fun entries_of :: "tree \<Rightarrow> entries" where
  "entries_of (TL p kvs) = kvs"
| "entries_of (TN p ts ks) = concat (map entries_of ts)"

fun addrs :: "tree \<Rightarrow> ptr list" where
  "addrs (TL p kvs) = [p]"
| "addrs (TN p ts ks) = p # concat (map addrs ts)"

text \<open>The first leaf of a tree, and of a list of trees that \<open>nx\<close> follows.\<close>

fun first :: "tree \<Rightarrow> ptr" and firsts :: "tree list \<Rightarrow> ptr \<Rightarrow> ptr" where
  "first (TL p kvs) = p"
| "first (TN p ts ks) = firsts ts NULL"
| "firsts [] nx = nx"
| "firsts (t # ts) nx = first t"

text \<open>\<open>lpairs P bs ts\<close>: consecutive bounds in \<open>bs\<close> enclose the trees of \<open>ts\<close>.\<close>

fun lpairs :: "(nat \<Rightarrow> tree \<Rightarrow> nat \<Rightarrow> bool) \<Rightarrow> nat list \<Rightarrow> tree list \<Rightarrow> bool" where
  "lpairs P [b] [] = True"
| "lpairs P (l # u # bs) (t # ts) = (l < u \<and> P l t u \<and> lpairs P (u # bs) ts)"
| "lpairs P _ _ = False"

text \<open>\<open>tree_ok n lo t hi\<close>: height \<open>n\<close>, keys ascending and in \<open>lo..<hi\<close>, values not NULL, nodes not
  over-full, and each separator key between the keys on its two sides.\<close>

definition leaf_ok :: "nat \<Rightarrow> entries \<Rightarrow> nat \<Rightarrow> bool" where
  "leaf_ok lo kvs hi \<longleftrightarrow> length kvs \<le> 9 \<and> ascending kvs \<and>
     (\<forall>(k, v) \<in> set kvs. lo \<le> unat k \<and> unat k < hi \<and> v \<noteq> NULL)"

primrec tree_ok :: "nat \<Rightarrow> nat \<Rightarrow> tree \<Rightarrow> nat \<Rightarrow> bool" where
  "tree_ok 0 = (\<lambda>lo t hi. case t of TL p kvs \<Rightarrow> leaf_ok lo kvs hi | TN p ts ks \<Rightarrow> False)"
| "tree_ok (Suc n) = (\<lambda>lo t hi. case t of TL p kvs \<Rightarrow> False
     | TN p ts ks \<Rightarrow> length ts = Suc (length ks) \<and> length ts \<le> 10 \<and>
         lpairs (tree_ok n) (lo # map unat ks @ [hi]) ts)"

lemma tree_ok_TL [simp]: "tree_ok n lo (TL p kvs) hi \<longleftrightarrow> n = 0 \<and> leaf_ok lo kvs hi"
  by (cases n) auto

lemma tree_ok_TN [simp]: "tree_ok n lo (TN p ts ks) hi \<longleftrightarrow> (\<exists>m. n = Suc m \<and> length ts = Suc (length ks) \<and>
    length ts \<le> 10 \<and> lpairs (tree_ok m) (lo # map unat ks @ [hi]) ts)"
  by (cases n) auto

text \<open>\<open>filled\<close>: no node of the tree is below the minimum. A split leaves 5 of 9 entries on the
  left and 4 on the right (\<open>FDB_BTREE_LEAF_MIN_ARITY\<close> is 5), so 4 is the bound that holds.\<close>

fun filled :: "tree \<Rightarrow> bool" where
  "filled (TL p kvs) \<longleftrightarrow> 4 \<le> length kvs"
| "filled (TN p ts ks) \<longleftrightarrow> 5 \<le> length ts \<and> (\<forall>t\<in>set ts. filled t)"

lemma lpairs_append:
  "length as = length xs \<Longrightarrow>
   lpairs P (xs @ l # bs) (as @ ts) \<longleftrightarrow> lpairs P (xs @ [l]) as \<and> lpairs P (l # bs) ts"
proof (induction as arbitrary: xs)
  case (Cons a as)
  then obtain x xs' where xs: "xs = x # xs'" "length as = length xs'" by (cases xs) auto
  show ?case
  proof (cases xs')
    case Nil
    then show ?thesis using xs by auto
  next
    case (Cons y ys)
    then show ?thesis using Cons.IH [of xs'] xs by simp
  qed
qed simp

lemma lpairs_length: "lpairs P bs ts \<Longrightarrow> length bs = Suc (length ts)"
  by (induction P bs ts rule: lpairs.induct) auto

lemma lpairs_mono: "lpairs P bs ts \<Longrightarrow> (\<And>l t u. t \<in> set ts \<Longrightarrow> P l t u \<Longrightarrow> Q l t u) \<Longrightarrow> lpairs Q bs ts"
  by (induction P bs ts rule: lpairs.induct) auto

lemma lpairs_ex: "lpairs P bs ts \<Longrightarrow> t \<in> set ts \<Longrightarrow> \<exists>l u. P l t u"
  by (induction P bs ts rule: lpairs.induct) auto

definition within :: "nat \<Rightarrow> entries \<Rightarrow> nat \<Rightarrow> bool" where
  "within lo xs hi \<longleftrightarrow> ascending xs \<and>
     (\<forall>e\<in>set xs. lo \<le> unat (fst e) \<and> unat (fst e) < hi \<and> snd e \<noteq> NULL)"

lemma within_append:
  assumes "within l xs m" "within m ys u" "l \<le> m" "m \<le> u"
  shows "within l (xs @ ys) u"
  using assms by (fastforce simp: within_def sorted_wrt_append word_less_nat_alt)

lemma lpairs_hd_last: "lpairs P bs ts \<Longrightarrow> hd bs \<le> last bs"
  by (induction P bs ts rule: lpairs.induct) auto

lemma lpairs_within:
  assumes "lpairs P bs ts" "\<And>l t u. P l t u \<Longrightarrow> within l (entries_of t) u"
  shows "within (hd bs) (concat (map entries_of ts)) (last bs)"
  using assms
proof (induction P bs ts rule: lpairs.induct)
  case (2 P l u bs t ts)
  then have "within l (entries_of t) u" "within u (concat (map entries_of ts)) (last (u # bs))"
    "l \<le> u" "u \<le> last (u # bs)"
    using lpairs_hd_last by fastforce+
  then show ?case by (auto intro: within_append)
qed (auto simp: within_def)

lemma tree_ok_within: "tree_ok n lo t hi \<Longrightarrow> within lo (entries_of t) hi"
proof (induction n arbitrary: lo t hi)
  case 0
  then show ?case by (cases t) (auto simp: leaf_ok_def within_def)
next
  case (Suc n)
  then obtain p ts ks where t: "t = TN p ts ks" by (cases t) auto
  then show ?case using Suc lpairs_within [of "tree_ok n" "lo # map unat ks @ [hi]" ts] by auto
qed

lemma tree_ok_root_size:
  assumes "tree_ok n lo t hi" "filled t" shows "4 * 5 ^ n \<le> length (entries_of t)"
  using assms
proof (induction n arbitrary: lo t hi)
  case 0
  then show ?case by (cases t) auto
next
  case (Suc n)
  then obtain p ts ks where t: "t = TN p ts ks" by (cases t) auto
  have "4 * 5 ^ n \<le> length (entries_of c)" if "c \<in> set ts" for c
  proof -
    have "lpairs (tree_ok n) (lo # map unat ks @ [hi]) ts" using Suc.prems(1) t by simp
    from lpairs_ex [OF this that] obtain l u where "tree_ok n l c u" by blast
    moreover have "filled c" using Suc.prems(2) t that by simp
    ultimately show ?thesis by (rule Suc.IH)
  qed
  then have "length ts * (4 * 5 ^ n) \<le> (\<Sum>c\<leftarrow>ts. length (entries_of c))"
    by (induction ts) (auto simp: add_mono)
  moreover have "5 * (4 * 5 ^ n) \<le> length ts * (4 * 5 ^ n)"
    using Suc.prems t by (intro mult_le_mono1) simp
  ultimately have "5 * (4 * 5 ^ n) \<le> (\<Sum>c\<leftarrow>ts. length (entries_of c))" by (rule le_trans [rotated])
  then show ?case using t by (simp add: length_concat comp_def)
qed

text \<open>Keys are 32 bits wide, so a filled tree is at most 13 levels high.\<close>

lemma within_length: "within lo xs hi \<Longrightarrow> length xs \<le> 2 ^ 32"
proof -
  assume "within lo xs hi"
  then have "distinct (map fst xs)"
    by (simp add: within_def strict_sorted_iff)
  then have "card (set (map fst xs)) = length xs" by (simp only: distinct_card length_map)
  moreover have "card (set (map fst xs)) \<le> card (UNIV :: u32 set)" by (intro card_mono) simp_all
  ultimately show ?thesis by (simp add: card_word)
qed

lemma tree_ok_height: "tree_ok n lo t hi \<Longrightarrow> filled t \<Longrightarrow> n \<le> 13"
proof (rule ccontr)
  assume a: "tree_ok n lo t hi" "filled t" "\<not> n \<le> 13"
  have "(5 :: nat) ^ 14 \<le> 5 ^ n" using a(3) by (intro power_increasing) simp_all
  moreover have "(2 :: nat) ^ 32 < 4 * 5 ^ 14" by simp
  ultimately show False
    using tree_ok_root_size [OF a(1,2)] within_length [OF tree_ok_within [OF a(1)]] by linarith
qed

section \<open>Trees in a heap\<close>

definition leaf_rep :: "fdb_btree_leaf_t \<Rightarrow> entries \<Rightarrow> ptr \<Rightarrow> bool" where
  "leaf_rep l kvs nx \<longleftrightarrow> length kvs \<le> 9 \<and> length (lf_keys l) = 9 \<and>
     lf_leafs l = map snd kvs @ replicate (9 - length kvs) NULL \<and>
     take (length kvs) (lf_keys l) = map fst kvs \<and>
     lf_nleafs l = of_nat (length kvs) \<and> lf_next l = nx"

definition internal_rep :: "fdb_btree_internal_t \<Rightarrow> ptr list \<Rightarrow> u32 list \<Rightarrow> bool" where
  "internal_rep i cs ks \<longleftrightarrow> length cs \<le> 10 \<and> length (in_keys i) = 9 \<and>
     in_children i = cs @ replicate (10 - length cs) NULL \<and>
     take (length ks) (in_keys i) = ks \<and> length ks \<le> 9 \<and> in_nchildren i = of_nat (length cs)"

fun rep :: "btheap \<Rightarrow> tree \<Rightarrow> ptr \<Rightarrow> bool" and reps :: "btheap \<Rightarrow> tree list \<Rightarrow> ptr \<Rightarrow> bool" where
  "rep h (TL p kvs) nx \<longleftrightarrow> p \<noteq> NULL \<and> (\<exists>l. h p = Some (E_LEAF l) \<and> leaf_rep l kvs nx)"
| "rep h (TN p ts ks) nx \<longleftrightarrow> p \<noteq> NULL \<and>
     (\<exists>i. h p = Some (E_INTERNAL i) \<and> internal_rep i (map root_of ts) ks) \<and> reps h ts nx"
| "reps h [] nx \<longleftrightarrow> True"
| "reps h (t # ts) nx \<longleftrightarrow> rep h t (firsts ts nx) \<and> reps h ts nx"

lemma firsts_append: "firsts (as @ bs) nx = firsts as (firsts bs nx)"
  by (cases as) auto

lemma reps_append: "reps h (as @ bs) nx \<longleftrightarrow> reps h as (firsts bs nx) \<and> reps h bs nx"
  by (induction as) (auto simp: firsts_append)

lemma firsts_cong: "first t = first t' \<Longrightarrow> firsts (t # ts) nx = firsts (t' # ts') nx"
  by simp

lemma rep_root: "rep h t nx \<Longrightarrow> root_of t \<noteq> NULL"
  by (cases t) auto

lemma reps_roots: "reps h ts nx \<Longrightarrow> t \<in> set ts \<Longrightarrow> root_of t \<noteq> NULL"
  by (induction ts) (auto dest: rep_root)

text \<open>A tree only depends on the nodes at its own addresses.\<close>

lemma rep_frame:
  "(\<And>q. q \<in> set (addrs t) \<Longrightarrow> h' q = h q) \<Longrightarrow> rep h' t nx = rep h t nx"
  "(\<And>q t. t \<in> set ts \<Longrightarrow> q \<in> set (addrs t) \<Longrightarrow> h' q = h q) \<Longrightarrow> reps h' ts nx = reps h ts nx"
  by (induction h t nx and h ts nx rule: rep_reps.induct) auto

lemma rep_dom:
  "rep h t nx \<Longrightarrow> set (addrs t) \<subseteq> dom h"
  "reps h ts nx \<Longrightarrow> (\<Union>t\<in>set ts. set (addrs t)) \<subseteq> dom h"
  by (induction h t nx and h ts nx rule: rep_reps.induct) auto

lemma root_in_addrs: "root_of t \<in> set (addrs t)"
  by (cases t) auto

section \<open>The scans of a node\<close>

lemma next_leaf_from_rep:
  assumes "leaf_rep l kvs nx" "\<forall>e\<in>set kvs. snd e \<noteq> NULL" "i \<le> length kvs"
  shows "next_leaf_from l key i = i + length (takeWhile (\<lambda>e. fst e < key) (drop i kvs))"
  using assms(3)
proof (induction "length kvs - i" arbitrary: i)
  case 0
  then have "i = length kvs" by simp
  then show ?case
    using assms(1) by (subst next_leaf_from.simps)
      (auto simp: leaf_rep_def btree_consts nth_append)
next
  case (Suc m)
  then have i: "i < length kvs" "i < 9" using assms(1) by (auto simp: leaf_rep_def)
  have leafs: "lf_leafs l ! i = snd (kvs ! i)" using i assms(1) by (simp add: leaf_rep_def nth_append)
  have "lf_keys l ! i = take (length kvs) (lf_keys l) ! i" using i by simp
  also have "\<dots> = map fst kvs ! i" using assms(1) by (simp add: leaf_rep_def)
  finally have keys: "lf_keys l ! i = fst (kvs ! i)" using i by simp
  have nn: "snd (kvs ! i) \<noteq> NULL" using assms(2) i by simp
  have "drop i kvs = kvs ! i # drop (Suc i) kvs" using i by (simp add: Cons_nth_drop_Suc)
  then show ?case
    using Suc.hyps(1) [of "Suc i"] Suc.hyps(2) i leafs keys nn
    by (subst next_leaf_from.simps) (simp add: btree_consts)
qed

lemma next_leaf_rep:
  assumes "leaf_rep l kvs nx" "\<forall>e\<in>set kvs. snd e \<noteq> NULL"
  shows "fdb_btree_next_leaf l key = length (takeWhile (\<lambda>e. fst e < key) kvs)"
  using next_leaf_from_rep [OF assms, of 0] by (simp add: fdb_btree_next_leaf_def)

lemma next_internal_from_rep:
  assumes "internal_rep n cs ks" "length cs = Suc (length ks)" "\<forall>c\<in>set cs. c \<noteq> NULL" "i \<le> length ks"
  shows "next_internal_from n key i = i + length (takeWhile (\<lambda>k. k \<le> key) (drop i ks))"
  using assms(4)
proof (induction "length ks - i" arbitrary: i)
  case 0
  then have "i = length ks" by simp
  then show ?case
    using assms(1,2) by (subst next_internal_from.simps)
      (auto simp: internal_rep_def btree_consts nth_append)
next
  case (Suc m)
  then have i: "i < length ks" "i < 9" using assms(1) by (auto simp: internal_rep_def)
  have child: "in_children n ! Suc i = cs ! Suc i" "cs ! Suc i \<noteq> NULL"
    using i assms(1-3) by (auto simp: internal_rep_def nth_append)
  have "in_keys n ! i = take (length ks) (in_keys n) ! i" using i by simp
  also have "\<dots> = ks ! i" using assms(1) by (simp add: internal_rep_def)
  finally have keys: "in_keys n ! i = ks ! i" .
  have "drop i ks = ks ! i # drop (Suc i) ks" using i by (simp add: Cons_nth_drop_Suc)
  then show ?case
    using Suc.hyps(1) [of "Suc i"] Suc.hyps(2) i child keys
    by (subst next_internal_from.simps) (simp add: btree_consts)
qed

lemma next_internal_rep:
  assumes "internal_rep n cs ks" "length cs = Suc (length ks)" "\<forall>c\<in>set cs. c \<noteq> NULL"
  shows "fdb_btree_next_internal n key = length (takeWhile (\<lambda>k. k \<le> key) ks)"
  using next_internal_from_rep [OF assms, of 0] by (simp add: fdb_btree_next_internal_def)

section \<open>Lookup\<close>

text \<open>The child for a key splits a node's trees and bounds in two.\<close>

lemma scan_split:
  assumes "lo \<le> unat key" "unat key < hi" "length ts = Suc (length ks)"
    and j: "j = length (takeWhile (\<lambda>k. k \<le> key) ks)"
  obtains as t bs xs l u ys where "ts = as @ t # bs" "length as = j" "length xs = j" "length ys = length bs"
    "lo # map unat ks @ [hi] = xs @ l # u # ys" "l \<le> unat key" "unat key < u"
    "xs @ [l] = lo # map unat (take j ks)" "u # ys = map unat (drop j ks) @ [hi]" "ts ! j = t"
proof -
  define l where "l = last (lo # map unat (take j ks))"
  define u where "u = hd (map unat (drop j ks) @ [hi])"
  have jl: "j \<le> length ks" using j by (simp add: length_takeWhile_le)
  define xs where "xs = butlast (lo # map unat (take j ks))"
  define ys where "ys = tl (map unat (drop j ks) @ [hi])"
  have l: "lo # map unat (take j ks) = xs @ [l]"
    unfolding l_def xs_def by simp
  have u: "map unat (drop j ks) @ [hi] = u # ys"
    unfolding u_def ys_def by simp
  have len: "length xs = j" "length ys = length ks - j"
    using arg_cong [OF l, of length] arg_cong [OF u, of length] jl by simp_all
  have "set (take j ks) \<subseteq> {k. k \<le> key}"
    unfolding j by (auto simp flip: takeWhile_eq_take dest: set_takeWhileD)
  then have "l \<le> unat key"
    using assms(1) by (cases "take j ks" rule: rev_cases) (auto simp: l_def word_le_nat_alt)
  moreover have "unat key < u"
  proof (cases "drop j ks")
    case Nil
    then show ?thesis using assms(2) by (simp add: u_def)
  next
    case (Cons k r)
    then have "dropWhile (\<lambda>k. k \<le> key) ks = k # r" unfolding j by (simp flip: dropWhile_eq_drop)
    then have "\<not> k \<le> key" by (metis hd_dropWhile list.sel(1) neq_Nil_conv)
    then show ?thesis using Cons by (simp add: u_def word_le_nat_alt)
  qed
  moreover have "lo # map unat ks @ [hi] = (lo # map unat (take j ks)) @ map unat (drop j ks) @ [hi]"
    by (simp flip: map_append)
  then have "lo # map unat ks @ [hi] = xs @ l # u # ys"
    unfolding l u by simp
  moreover have "ts = take j ts @ ts ! j # drop (Suc j) ts" using jl assms(3) by (intro id_take_nth_drop) simp
  ultimately show thesis
    by (intro that [of "take j ts" "ts ! j" "drop (Suc j) ts" xs ys l u])
       (use jl assms(3) l u len in simp_all)
qed

lemma map_of_within_None: "within lo xs hi \<Longrightarrow> \<not> (lo \<le> unat key \<and> unat key < hi) \<Longrightarrow> map_of xs key = None"
  by (auto simp: within_def map_of_eq_None_iff)

text \<open>What a node's trees on both sides of the child contribute.\<close>

lemma lpairs_sides:
  assumes "lpairs (tree_ok n) (xs @ l # u # ys) (as @ t # bs)" "length as = length xs"
  shows "lpairs (tree_ok n) (xs @ [l]) as" "l < u" "tree_ok n l t u" "lpairs (tree_ok n) (u # ys) bs"
    "within (hd (xs @ [l])) (concat (map entries_of as)) l"
    "within u (concat (map entries_of bs)) (last (u # ys))"
proof -
  have a: "lpairs (tree_ok n) (xs @ [l]) as" "lpairs (tree_ok n) (l # u # ys) (t # bs)"
    using assms by (simp_all add: lpairs_append)
  then show "lpairs (tree_ok n) (xs @ [l]) as" "l < u" "tree_ok n l t u" "lpairs (tree_ok n) (u # ys) bs"
    by simp_all
  then show "within (hd (xs @ [l])) (concat (map entries_of as)) l"
    "within u (concat (map entries_of bs)) (last (u # ys))"
    using lpairs_within [of "tree_ok n"] tree_ok_within by fastforce+
qed

definition lookup :: "entries \<Rightarrow> u32 \<Rightarrow> ptr" where
  "lookup xs key = (case map_of xs key of None \<Rightarrow> NULL | Some v \<Rightarrow> v)"

lemma lookup_sides:
  assumes "within a xs l" "within u zs b" "l \<le> unat key" "unat key < u"
  shows "lookup (xs @ ys @ zs) key = lookup ys key"
  using map_of_within_None [OF assms(1), of key] map_of_within_None [OF assms(2), of key] assms(3,4)
  by (auto simp: lookup_def map_add_def split: option.splits)

lemma lookup_dropWhile:
  "ascending kvs \<Longrightarrow> lookup kvs key = (let b = dropWhile (\<lambda>e. fst e < key) kvs in
     if b \<noteq> [] \<and> fst (hd b) = key then snd (hd b) else NULL)"
proof (induction kvs)
  case (Cons a kvs)
  obtain k v where a: "a = (k, v)" by fastforce
  have asc: "ascending kvs" "\<And>e. e \<in> set kvs \<Longrightarrow> k < fst e"
    using Cons.prems by (auto simp: a)
  consider "k < key" | "k = key" | "key < k" by (meson linorder_less_linear)
  then show ?case
  proof cases
    case 1
    then have "key \<noteq> k" by simp
    then show ?thesis using 1 Cons.IH [OF asc(1)] by (simp add: a lookup_def)
  next
    case 2
    then show ?thesis by (simp add: a lookup_def)
  next
    case 3
    then have "map_of kvs key = None" using asc(2) by (fastforce simp: map_of_eq_None_iff)
    then show ?thesis using 3 by (auto simp: a lookup_def)
  qed
qed (simp add: lookup_def)

lemma leaf_rep_slot:
  assumes "leaf_rep l kvs nx" "i \<le> length kvs" "i < 9"
  shows "lf_leafs l ! i = (if i < length kvs then snd (kvs ! i) else NULL)"
    "i < length kvs \<Longrightarrow> lf_keys l ! i = fst (kvs ! i)"
proof -
  show "lf_leafs l ! i = (if i < length kvs then snd (kvs ! i) else NULL)"
    using assms by (auto simp: leaf_rep_def nth_append)
  assume i: "i < length kvs"
  then have "lf_keys l ! i = take (length kvs) (lf_keys l) ! i" by simp
  also have "\<dots> = map fst kvs ! i" using assms(1) by (simp add: leaf_rep_def)
  finally show "lf_keys l ! i = fst (kvs ! i)" using i by simp
qed

lemma dropWhile_nth:
  "dropWhile P xs = drop (length (takeWhile P xs)) xs"
  by (simp add: dropWhile_eq_drop)

text \<open>The scan of a leaf stops at the key if it is there.\<close>

lemma leaf_scan:
  assumes "leaf_rep l kvs nx" "leaf_ok lo kvs hi"
    and i_def: "i = fdb_btree_next_leaf l key"
  shows "i = length (takeWhile (\<lambda>e. fst e < key) kvs)" "i \<le> length kvs"
    "(i < length kvs \<and> fst (kvs ! i) = key) = (dropWhile (\<lambda>e. fst e < key) kvs \<noteq> [] \<and>
       fst (hd (dropWhile (\<lambda>e. fst e < key) kvs)) = key)"
    "i < length kvs \<Longrightarrow> hd (dropWhile (\<lambda>e. fst e < key) kvs) = kvs ! i"
proof -
  show i: "i = length (takeWhile (\<lambda>e. fst e < key) kvs)"
    unfolding i_def using assms(2) by (intro next_leaf_rep [OF assms(1)]) (auto simp: leaf_ok_def)
  show "i \<le> length kvs" unfolding i by (rule length_takeWhile_le)
  show "(i < length kvs \<and> fst (kvs ! i) = key) = (dropWhile (\<lambda>e. fst e < key) kvs \<noteq> [] \<and>
       fst (hd (dropWhile (\<lambda>e. fst e < key) kvs)) = key)"
    unfolding dropWhile_nth i [symmetric] by (auto simp: hd_drop_conv_nth)
  assume "i < length kvs"
  then show "hd (dropWhile (\<lambda>e. fst e < key) kvs) = kvs ! i"
    unfolding dropWhile_nth i [symmetric] by (simp add: hd_drop_conv_nth)
qed

lemma get_node_rep:
  assumes "tree_ok n lo t hi" "rep h t nx" "lo \<le> unat key" "unat key < hi" "n < fuel"
  shows "fdb_btree_get_node fuel h (root_of t) key = Inr (lookup (entries_of t) key)"
  using assms
proof (induction n arbitrary: lo t hi nx fuel)
  case 0
  obtain f where f: "fuel = Suc f" using 0 by (cases fuel) auto
  obtain p kvs where t: "t = TL p kvs" and ok: "leaf_ok lo kvs hi" using 0 by (cases t) auto
  obtain l where l: "p \<noteq> NULL" "h p = Some (E_LEAF l)" "leaf_rep l kvs nx" using 0 t by auto
  note s = leaf_scan [OF l(3) ok refl, of key]
  have asc: "ascending kvs" "length kvs \<le> 9" using ok by (auto simp: leaf_ok_def)
  have "\<forall>e\<in>set kvs. snd e \<noteq> NULL" using ok by (auto simp: leaf_ok_def)
  then have nn: "i < length kvs \<Longrightarrow> snd (kvs ! i) \<noteq> NULL" for i by simp
  show ?case
  proof (cases "fdb_btree_next_leaf l key < length kvs")
    case True
    then show ?thesis
      using s l f t asc(2) nn leaf_rep_slot [OF l(3) s(2)] lookup_dropWhile [OF asc(1), of key]
      by (simp add: node_at_def Let_def btree_consts)
  next
    case False
    then have "fdb_btree_next_leaf l key = length kvs" using s(2) by simp
    moreover from this have "lookup kvs key = NULL" using s(3) lookup_dropWhile [OF asc(1), of key] by auto
    ultimately show ?thesis
      using l f t leaf_rep_slot(1) [OF l(3), of "length kvs"] by (auto simp: node_at_def Let_def btree_consts)
  qed
next
  case (Suc n)
  obtain f where f: "fuel = Suc f" "n < f" using Suc.prems by (cases fuel) auto
  obtain p ts ks where t: "t = TN p ts ks" using Suc.prems by (cases t) auto
  obtain i where i: "p \<noteq> NULL" "h p = Some (E_INTERNAL i)" "internal_rep i (map root_of ts) ks" "reps h ts nx"
    using Suc.prems t by auto
  have ok: "length ts = Suc (length ks)" "length ts \<le> 10" "lpairs (tree_ok n) (lo # map unat ks @ [hi]) ts"
    using Suc.prems t by auto
  define j where "j = length (takeWhile (\<lambda>k. k \<le> key) ks)"
  have scan: "fdb_btree_next_internal i key = j"
    unfolding j_def using ok reps_roots [OF i(4)] by (intro next_internal_rep [OF i(3)]) auto
  obtain as c bs xs l u ys where sp: "ts = as @ c # bs" "length as = j" "length xs = j"
    "lo # map unat ks @ [hi] = xs @ l # u # ys" "l \<le> unat key" "unat key < u" "ts ! j = c"
    by (rule scan_split [OF Suc.prems(3,4) ok(1) j_def])
  note sd = lpairs_sides [OF ok(3) [unfolded sp(4) sp(1)] sp(2) [folded sp(3)]]
  have j: "j < length ts" using sp(1,2) by simp
  have child: "in_children i ! j = root_of c"
    using i(3) j sp(7) by (simp add: internal_rep_def nth_append)
  have c: "rep h c (firsts bs nx)" using i(4) sp(1) by (simp add: reps_append)
  have "fdb_btree_get_node f h (root_of c) key = Inr (lookup (entries_of c) key)"
    by (rule Suc.IH [OF sd(3) c sp(5,6) f(2)])
  moreover have "lookup (entries_of t) key = lookup (entries_of c) key"
    using lookup_sides [OF sd(5,6) sp(5,6)] by (simp add: t sp(1))
  ultimately show ?case
    using i(1,2) t f(1) scan child rep_root [OF c] j ok(2) by (simp add: node_at_def btree_consts)
qed

end
