(* ===== verification/BtreeInsert.thy ===== *)
theory BtreeInsert
  imports BtreeTree
begin

text \<open>
  Insertion into the B+ tree: what the node operations do to a node that holds given keys
  and children, the interface \<open>node_memory\<close> through which the tree gets its nodes, and the
  refinement of \<open>fdb_btree_insert\<close> to \<open>ins\<close> on the sorted entries.
\<close>

section \<open>One node at a time\<close>

lemma leaf_rep_zero: "leaf_rep zero_leaf [] NULL"
  by (simp add: leaf_rep_def zero_leaf_def btree_consts)

lemma internal_rep_zero: "internal_rep zero_internal [] []"
  by (simp add: internal_rep_def zero_internal_def btree_consts)

lemma length_9:
  assumes "length xs = 9" obtains a b c d e f g h i where "xs = [a, b, c, d, e, f, g, h, i]"
proof -
  have "xs = map ((!) xs) [0..<9]" using map_nth [of xs] assms by simp
  also have "[0..<9] = [0, 1, 2, 3, 4, 5, 6, 7, 8 :: nat]" by (simp add: upt_rec)
  finally show thesis using that by simp
qed

lemma length_10:
  assumes "length xs = 10" obtains a b c d e f g h i j where "xs = [a, b, c, d, e, f, g, h, i, j]"
proof -
  have "xs = map ((!) xs) [0..<10]" using map_nth [of xs] assms by simp
  also have "[0..<10] = [0, 1, 2, 3, 4, 5, 6, 7, 8, 9 :: nat]" by (simp add: upt_rec)
  finally show thesis using that by simp
qed

lemma upt_5: "[5..<9] = [5, 6, 7, 8 :: nat]" "[5..<10] = [5, 6, 7, 8, 9 :: nat]"
  by (simp_all add: upt_rec)

lemma replicate_zeros: "replicate 9 x = [x, x, x, x, x, x, x, x, x]"
  "replicate 10 x = [x, x, x, x, x, x, x, x, x, x]" "replicate 4 x = [x, x, x, x]"
  "replicate 5 x = [x, x, x, x, x]"
  by (simp_all add: eval_nat_numeral)

lemma split_leaf_rep:
  assumes "leaf_rep n kvs nx" "length kvs = 9" "split_leaf_nodes zero_leaf n = (s', n')"
  shows "leaf_rep s' (drop 5 kvs) NULL" "leaf_rep n' (take 5 kvs) nx" "lf_keys n ! 5 = fst (kvs ! 5)"
proof -
  obtain a b c d e f g h i where k: "kvs = [a, b, c, d, e, f, g, h, i]"
    using assms(2) by (rule length_9)
  obtain leafs nxt keys nl where n: "n = \<lparr>lf_leafs = leafs, lf_next = nxt, lf_keys = keys, lf_nleafs = nl\<rparr>"
    by (cases n)
  have m: "leafs = map snd kvs" "keys = map fst kvs" "nl = 9" "nxt = nx"
    using assms(1,2) by (auto simp: leaf_rep_def n)
  show "lf_keys n ! 5 = fst (kvs ! 5)" by (simp add: n m k)
  have r: "s' = \<lparr>lf_leafs = [snd f, snd g, snd h, snd i, 0, 0, 0, 0, 0], lf_next = 0,
      lf_keys = [fst f, fst g, fst h, fst i, 0, 0, 0, 0, 0], lf_nleafs = 4\<rparr>"
    "n' = \<lparr>lf_leafs = [snd a, snd b, snd c, snd d, snd e, 0, 0, 0, 0], lf_next = nx,
      lf_keys = [fst a, fst b, fst c, fst d, fst e, 0, 0, 0, 0], lf_nleafs = 5\<rparr>"
    using assms(3) by (auto simp: split_leaf_nodes_def Let_def btree_consts upt_5 zero_leaf_def
        replicate_zeros n m k)
  show "leaf_rep s' (drop 5 kvs) NULL" "leaf_rep n' (take 5 kvs) nx"
    by (simp_all add: leaf_rep_def r k replicate_zeros)
qed

lemma split_internal_rep:
  assumes "internal_rep n cs ks" "length cs = 10" "length ks = 9" "split_internal_nodes zero_internal n = (s', n')"
  shows "internal_rep s' (drop 5 cs) (drop 5 ks)" "internal_rep n' (take 5 cs) (take 4 ks)"
    "in_keys n ! 4 = ks ! 4"
proof -
  obtain a b c d e f g h i j where k: "cs = [a, b, c, d, e, f, g, h, i, j]"
    using assms(2) by (rule length_10)
  obtain a' b' c' d' e' f' g' h' i' where k': "ks = [a', b', c', d', e', f', g', h', i']"
    using assms(3) by (rule length_9)
  obtain ch keys nc where n: "n = \<lparr>in_children = ch, in_keys = keys, in_nchildren = nc\<rparr>"
    by (cases n)
  have m: "ch = cs" "keys = ks" "nc = 10"
    using assms(1-3) by (auto simp: internal_rep_def n)
  show "in_keys n ! 4 = ks ! 4" by (simp add: n m)
  have r: "s' = \<lparr>in_children = [f, g, h, i, j, 0, 0, 0, 0, 0], in_keys = [f', g', h', i', 0, 0, 0, 0, 0],
      in_nchildren = 5\<rparr>"
    "n' = \<lparr>in_children = [a, b, c, d, e, 0, 0, 0, 0, 0], in_keys = [a', b', c', d', 0, 0, 0, 0, 0],
      in_nchildren = 5\<rparr>"
    using assms(4) by (auto simp: split_internal_nodes_def Let_def btree_consts upt_5 zero_internal_def
        replicate_zeros n m k k')
  show "internal_rep s' (drop 5 cs) (drop 5 ks)" "internal_rep n' (take 5 cs) (take 4 ks)"
    by (simp_all add: internal_rep_def r k k' replicate_zeros)
qed

lemma shift_up_insert_rep:
  assumes "a = xs @ replicate (N - length xs) z" "length xs < N" "idx \<le> length xs"
  shows "(shift_up a idx)[idx := x] = take idx xs @ x # drop idx xs @ replicate (N - Suc (length xs)) z"
proof -
  have len: "length a = N" using assms by simp
  have "drop idx a = drop idx xs @ replicate (N - length xs) z" using assms by simp
  moreover have "length a - Suc idx = (length xs - idx) + (N - Suc (length xs))" using assms len by simp
  moreover have "take (N - Suc (length xs)) (replicate (N - length xs) z) = replicate (N - Suc (length xs)) z"
    by (simp add: take_replicate min_def)
  ultimately have "take (length a - Suc idx) (drop idx a) = drop idx xs @ replicate (N - Suc (length xs)) z"
    using assms(3) by simp
  moreover have "take idx a = take idx xs" using assms by simp
  ultimately show ?thesis
    using shift_up_insert [of idx a x] assms len by simp
qed

text \<open>The same for an array whose tail beyond the used slots is arbitrary.\<close>

lemma shift_up_insert_take:
  assumes "take n a = xs" "length xs = n" "n < length a" "idx \<le> n"
  shows "take (Suc n) ((shift_up a idx)[idx := x]) = take idx xs @ x # drop idx xs"
proof -
  have "take (Suc n) ((shift_up a idx)[idx := x]) =
      take idx a @ x # take (n - idx) (take (length a - Suc idx) (drop idx a))"
    using assms shift_up_insert [of idx a x] by (simp add: Suc_diff_le take_Cons')
  also have "take (n - idx) (take (length a - Suc idx) (drop idx a)) = drop idx (take n a)"
    using assms(3,4) by (simp add: drop_take min_def)
  finally show ?thesis using assms by (auto simp: min_def)
qed

lemma shift_insert_leaf_rep:
  assumes "leaf_rep l kvs nx" "length kvs \<le> 8" "pos \<le> length kvs"
  obtains l' where "fdb_btree_shift_insert_leaf l pos key = Inr l'"
    "leaf_rep (l'\<lparr>lf_leafs := (lf_leafs l')[pos := p]\<rparr>) (take pos kvs @ (key, p) # drop pos kvs) nx"
proof -
  let ?l = "l\<lparr>lf_leafs := (shift_up (lf_leafs l) pos)[pos := NULL],
    lf_keys := (shift_up (lf_keys l) pos)[pos := key], lf_nleafs := lf_nleafs l + 1\<rparr>"
  have len: "length (lf_leafs l) = 9" "length (lf_keys l) = 9" using assms by (auto simp: leaf_rep_def)
  have "(shift_up (lf_leafs l) pos)[pos := p] =
      take pos (map snd kvs) @ p # drop pos (map snd kvs) @ replicate (9 - Suc (length kvs)) NULL"
    using shift_up_insert_rep [of "lf_leafs l" "map snd kvs" 9 NULL pos p] assms
    by (simp add: leaf_rep_def)
  moreover have "take (Suc (length kvs)) ((shift_up (lf_keys l) pos)[pos := key]) =
      take pos (map fst kvs) @ key # drop pos (map fst kvs)"
    using shift_up_insert_take [of "length kvs" "lf_keys l" "map fst kvs" pos key] assms
    by (simp add: leaf_rep_def)
  ultimately have "leaf_rep (?l\<lparr>lf_leafs := (lf_leafs ?l)[pos := p]\<rparr>) (take pos kvs @ (key, p) # drop pos kvs) nx"
    using assms by (simp add: leaf_rep_def take_map drop_map)
  moreover have "fdb_btree_shift_insert_leaf l pos key = Inr ?l"
    using len assms by (simp add: fdb_btree_shift_insert_leaf_def)
  ultimately show thesis using that by blast
qed

lemma shift_insert_internal_rep:
  assumes "internal_rep n cs ks" "length cs = Suc (length ks)" "length cs \<le> 9" "idx < length cs"
  obtains n' where "fdb_btree_shift_insert_internal n (idx + 1) c k = Inr n'"
    "internal_rep n' (take (Suc idx) cs @ c # drop (Suc idx) cs) (take idx ks @ k # drop idx ks)"
proof -
  let ?n = "\<lparr>in_children = (shift_up (in_children n) (Suc idx))[Suc idx := c],
    in_keys = (shift_up (in_keys n) idx)[idx := k], in_nchildren = in_nchildren n + 1\<rparr>"
  have len: "length (in_children n) = 10" "length (in_keys n) = 9" using assms by (auto simp: internal_rep_def)
  have "(shift_up (in_children n) (Suc idx))[Suc idx := c] =
      take (Suc idx) cs @ c # drop (Suc idx) cs @ replicate (10 - Suc (length cs)) NULL"
    using shift_up_insert_rep [of "in_children n" cs 10 NULL "Suc idx" c] assms
    by (simp add: internal_rep_def)
  moreover have "take (Suc (length ks)) ((shift_up (in_keys n) idx)[idx := k]) = take idx ks @ k # drop idx ks"
    using shift_up_insert_take [of "length ks" "in_keys n" ks idx k] assms
    by (simp add: internal_rep_def)
  ultimately have "internal_rep ?n (take (Suc idx) cs @ c # drop (Suc idx) cs) (take idx ks @ k # drop idx ks)"
    using assms by (simp add: internal_rep_def)
  moreover have "fdb_btree_shift_insert_internal n (idx + 1) c k = Inr ?n"
    using len assms by (simp add: fdb_btree_shift_insert_internal_def)
  ultimately show thesis using that by blast
qed

text \<open>Counts below the array sizes are told apart in 16 bits.\<close>

lemma of_nat_u16_eq:
  assumes "a \<le> 10" "b \<le> 10"
  shows "(of_nat a :: u16) = of_nat b \<longleftrightarrow> a = b"
proof
  assume "(of_nat a :: u16) = of_nat b"
  then have "unat (of_nat a :: u16) = unat (of_nat b :: u16)" by simp
  then show "a = b" using assms by (simp add: unsigned_of_nat take_bit_nat_eq_self)
qed simp

section \<open>Updating one subtree\<close>

text \<open>\<open>upd h t h' t'\<close>: from heap \<open>h\<close> with tree \<open>t\<close> to \<open>h'\<close> with \<open>t'\<close>, only nodes of \<open>t\<close> have
  changed and the nodes \<open>t'\<close> has in addition are new.\<close>

definition upd :: "btheap \<Rightarrow> tree \<Rightarrow> btheap \<Rightarrow> tree \<Rightarrow> bool" where
  "upd h t h' t' \<longleftrightarrow> distinct (addrs t') \<and> set (addrs t) \<subseteq> set (addrs t') \<and>
     set (addrs t') \<inter> dom h \<subseteq> set (addrs t) \<and> dom h' = dom h \<union> set (addrs t') \<and>
     (\<forall>q \<in> dom h - set (addrs t). h' q = h q)"

lemma upd_refl: "distinct (addrs t) \<Longrightarrow> set (addrs t) \<subseteq> dom h \<Longrightarrow> upd h t h t"
  by (auto simp: upd_def)

lemma upd_trans:
  assumes "upd h t h1 t1" "upd h1 t1 h2 t2"
  shows "upd h t h2 t2"
proof -
  have a: "set (addrs t) \<subseteq> set (addrs t1)" "set (addrs t1) \<inter> dom h \<subseteq> set (addrs t)"
    "dom h1 = dom h \<union> set (addrs t1)" "\<And>q. q \<in> dom h \<Longrightarrow> q \<notin> set (addrs t) \<Longrightarrow> h1 q = h q"
    using assms(1) by (auto simp: upd_def)
  have b: "distinct (addrs t2)" "set (addrs t1) \<subseteq> set (addrs t2)" "set (addrs t2) \<inter> dom h1 \<subseteq> set (addrs t1)"
    "dom h2 = dom h1 \<union> set (addrs t2)" "\<And>q. q \<in> dom h1 \<Longrightarrow> q \<notin> set (addrs t1) \<Longrightarrow> h2 q = h1 q"
    using assms(2) by (auto simp: upd_def)
  have "h2 q = h q" if q: "q \<in> dom h - set (addrs t)" for q
  proof -
    have "q \<in> dom h1" "q \<notin> set (addrs t1)" using q a(2,3) by blast+
    then show ?thesis using a(4) [of q] b(5) [of q] q by simp
  qed
  moreover have "set (addrs t2) \<inter> dom h \<subseteq> set (addrs t)" using a(2,3) b(3) by blast
  moreover have "dom h2 = dom h \<union> set (addrs t2)" using a(3) b(2,4) by blast
  moreover have "set (addrs t) \<subseteq> set (addrs t2)" using a(1) b(2) by blast
  ultimately show ?thesis using b(1) unfolding upd_def by blast
qed

lemma addrs_TN: "set (addrs (TN p (as @ c # bs) ks)) =
    insert p ((\<Union>t\<in>set as. set (addrs t)) \<union> set (addrs c) \<union> (\<Union>t\<in>set bs. set (addrs t)))"
  by auto

lemma distinct_TN: "distinct (addrs (TN p (as @ c # bs) ks)) \<longleftrightarrow>
    p \<notin> set (addrs c) \<and> p \<notin> set (concat (map addrs (as @ bs))) \<and> distinct (addrs c) \<and>
    distinct (concat (map addrs (as @ bs))) \<and> set (addrs c) \<inter> set (concat (map addrs (as @ bs))) = {}"
  by (auto simp del: set_concat)

lemma upd_child:
  assumes u: "upd h c h' c'" and d: "distinct (addrs (TN p (as @ c # bs) ks))"
    and s: "set (addrs (TN p (as @ c # bs) ks)) \<subseteq> dom h"
  shows "upd h (TN p (as @ c # bs) ks) h' (TN p (as @ c' # bs) ks)"
proof -
  have sub: "set (concat (map addrs (as @ bs))) \<subseteq> dom h" "p \<in> dom h" using s by auto
  have new: "set (addrs c') \<inter> dom h \<subseteq> set (addrs c)" using u by (simp add: upd_def)
  have "distinct (addrs (TN p (as @ c' # bs) ks))"
    unfolding distinct_TN using d [unfolded distinct_TN] u sub new by (auto simp: upd_def simp del: set_concat)
  moreover have "set (addrs (TN p (as @ c # bs) ks)) \<subseteq> set (addrs (TN p (as @ c' # bs) ks))"
    using u unfolding addrs_TN upd_def by blast
  moreover have "set (addrs (TN p (as @ c' # bs) ks)) \<inter> dom h \<subseteq> set (addrs (TN p (as @ c # bs) ks))"
    using new unfolding addrs_TN by blast
  moreover have "dom h' = dom h \<union> set (addrs (TN p (as @ c' # bs) ks))"
    using u sub unfolding addrs_TN upd_def by auto
  moreover have "\<forall>q \<in> dom h - set (addrs (TN p (as @ c # bs) ks)). h' q = h q"
    using u unfolding addrs_TN upd_def by blast
  ultimately show ?thesis unfolding upd_def by blast
qed

lemma rep_child:
  assumes r: "rep h (TN p (as @ c # bs) ks) nx" and u: "upd h c h' c'"
    and d: "distinct (addrs (TN p (as @ c # bs) ks))" and same: "root_of c' = root_of c" "first c' = first c"
    and c': "rep h' c' (firsts bs nx)"
  shows "rep h' (TN p (as @ c' # bs) ks) nx"
proof -
  have out: "h' q = h q" if "q \<in> dom h" "q \<notin> set (addrs c)" for q
    using u that by (auto simp: upd_def)
  have rs: "reps h as (first c)" "reps h bs nx" using r by (simp_all add: reps_append)
  have "reps h' as (first c)"
  proof (subst rep_frame(2) [of as h' h])
    fix q t assume t: "t \<in> set as" "q \<in> set (addrs t)"
    show "h' q = h q" by (rule out) (use t d rep_dom(2) [OF rs(1)] in auto)
  qed (rule rs(1))
  moreover have "reps h' bs nx"
  proof (subst rep_frame(2) [of bs h' h])
    fix q t assume t: "t \<in> set bs" "q \<in> set (addrs t)"
    show "h' q = h q" by (rule out) (use t d rep_dom(2) [OF rs(2)] in auto)
  qed (rule rs(2))
  moreover have "h' p = h p" by (rule out) (use r d in auto)
  ultimately show ?thesis using r same c' by (simp add: reps_append)
qed

lemma tree_ok_child:
  assumes "tree_ok (Suc n) lo (TN p (as @ c # bs) ks) hi" "lo # map unat ks @ [hi] = xs @ l # u # ys"
    "length as = length xs" "tree_ok n l c' u"
  shows "tree_ok (Suc n) lo (TN p (as @ c' # bs) ks) hi"
  using assms by (simp add: lpairs_append)

lemma ins_sides:
  assumes "within a xs l" "within u zs b" "l \<le> unat key" "unat key < u"
  shows "ins key v (xs @ ys @ zs) = xs @ ins key v ys @ zs"
proof -
  have "\<forall>e\<in>set xs. fst e < key" "\<forall>e\<in>set zs. key < fst e"
    using assms by (fastforce simp: within_def word_less_nat_alt)+
  then show ?thesis by (simp add: ins_append_left ins_append_right)
qed

lemma keys_sides:
  assumes "within a xs l" "within u zs b" "l \<le> unat key" "unat key < u"
  shows "key \<in> fst ` set (xs @ ys @ zs) \<longleftrightarrow> key \<in> fst ` set ys"
proof -
  have "key \<notin> fst ` set xs" using assms(1,3) by (auto simp: within_def)
  moreover have "key \<notin> fst ` set zs" using assms(2,4) by (auto simp: within_def)
  ultimately show ?thesis by auto
qed

text \<open>A child and its new right sibling.\<close>

lemma lpairs_split_child:
  assumes "lpairs P (xs @ l # u # ys) (as @ c # bs)" "length as = length xs"
    "l < k" "k < u" "P l c1 k" "P k c2 u"
  shows "lpairs P (xs @ l # k # u # ys) (as @ c1 # c2 # bs)"
  using assms by (simp add: lpairs_append)

lemma lpairs_hd_less: "lpairs P bs ts \<Longrightarrow> ts \<noteq> [] \<Longrightarrow> hd bs < last bs"
proof (induction P bs ts rule: lpairs.induct)
  case (2 P l u bs t ts)
  then have "u \<le> last (u # bs)" using lpairs_hd_last [of P "u # bs" ts] by simp
  then show ?case using 2 by auto
qed auto

lemma updI:
  assumes "distinct (addrs t')" "set (addrs t') = insert s (set (addrs t))" "s \<notin> dom h"
    "set (addrs t) \<subseteq> dom h" "dom h' = insert s (dom h)"
    "\<And>x. x \<in> dom h \<Longrightarrow> x \<notin> set (addrs t) \<Longrightarrow> h' x = h x"
  shows "upd h t h' t'"
  using assms by (auto simp: upd_def)

lemma distinct_between:
  assumes "distinct (concat (map addrs (as @ bs)))" "p \<notin> set (concat (map addrs (as @ bs)))"
    "distinct (addrs c1 @ addrs c2)" "p \<notin> set (addrs c1 @ addrs c2)"
    "set (addrs c1 @ addrs c2) \<inter> set (concat (map addrs (as @ bs))) = {}"
  shows "distinct (addrs (TN p (as @ c1 # c2 # bs) ks))"
proof -
  define A B D where "A = concat (map addrs as)" and "B = concat (map addrs bs)" and "D = addrs c1 @ addrs c2"
  have "distinct (A @ B)" "p \<notin> set (A @ B)" "distinct D" "p \<notin> set D" "set D \<inter> set (A @ B) = {}"
    using assms by (simp_all add: A_def B_def D_def)
  then have "distinct (p # A @ D @ B)" by auto
  moreover have "addrs (TN p (as @ c1 # c2 # bs) ks) = p # A @ D @ B"
    by (simp add: A_def B_def D_def)
  ultimately show ?thesis by (simp only:)
qed

lemma split_child_heap:
  assumes r: "rep h (TN p (as @ c # bs) ks) nx" and d: "distinct (addrs (TN p (as @ c # bs) ks))"
    and s: "s \<notin> dom h" and a: "set (addrs c1) \<union> set (addrs c2) = insert s (set (addrs c))"
    and d12: "distinct (addrs c1 @ addrs c2)" and f: "first c1 = first c"
    and out: "\<And>x. x \<in> dom h \<Longrightarrow> x \<notin> set (addrs c) \<Longrightarrow> x \<noteq> p \<Longrightarrow> h' x = h x"
    and dom: "dom h' = insert s (dom h)"
    and p: "h' p = Some (E_INTERNAL i')" "internal_rep i' (map root_of (as @ c1 # c2 # bs)) ks'"
    and c12: "rep h' c1 (first c2)" "rep h' c2 (firsts bs nx)"
  shows "rep h' (TN p (as @ c1 # c2 # bs) ks') nx"
    "upd h (TN p (as @ c # bs) ks) h' (TN p (as @ c1 # c2 # bs) ks')"
proof -
  have rs: "reps h as (first c)" "reps h bs nx" "p \<noteq> NULL" using r by (simp_all add: reps_append)
  have "reps h' as (first c)"
  proof (subst rep_frame(2) [of as h' h])
    fix q t assume t: "t \<in> set as" "q \<in> set (addrs t)"
    show "h' q = h q" by (rule out) (use t d rep_dom(2) [OF rs(1)] in auto)
  qed (rule rs(1))
  moreover have "reps h' bs nx"
  proof (subst rep_frame(2) [of bs h' h])
    fix q t assume t: "t \<in> set bs" "q \<in> set (addrs t)"
    show "h' q = h q" by (rule out) (use t d rep_dom(2) [OF rs(2)] in auto)
  qed (rule rs(2))
  ultimately show "rep h' (TN p (as @ c1 # c2 # bs) ks') nx"
    using p c12 f rs(3) by (simp add: reps_append)
  let ?o = "set (concat (map addrs (as @ bs)))"
  have sub: "set (addrs c) \<subseteq> dom h" "p \<in> dom h" "?o \<subseteq> dom h"
    using rep_dom(1) [OF r] by auto
  have dc: "p \<notin> set (addrs c)" "p \<notin> ?o" "distinct (concat (map addrs (as @ bs)))" "set (addrs c) \<inter> ?o = {}"
    using d unfolding distinct_TN by simp_all
  have "distinct (addrs (TN p (as @ c1 # c2 # bs) ks'))"
  proof -
    have "set (addrs c1 @ addrs c2) \<inter> ?o = {}" using a dc(4) s sub(3) by auto
    moreover have "p \<notin> set (addrs c1 @ addrs c2)" using a dc(1) s sub(2) by auto
    ultimately show ?thesis
      by (intro distinct_between) (use dc(2,3) d12 in simp_all)
  qed
  moreover have "set (addrs (TN p (as @ c1 # c2 # bs) ks')) = insert s (set (addrs (TN p (as @ c # bs) ks)))"
    using a by auto
  moreover have "h' x = h x" if "x \<in> dom h" "x \<notin> set (addrs (TN p (as @ c # bs) ks))" for x
    by (rule out) (use that in auto)
  moreover have "set (addrs (TN p (as @ c # bs) ks)) \<subseteq> dom h" by (rule rep_dom(1) [OF r])
  ultimately show "upd h (TN p (as @ c # bs) ks) h' (TN p (as @ c1 # c2 # bs) ks')"
    by (intro updI [where s = s] s dom) blast+
qed

section \<open>Where the nodes come from\<close>

text \<open>The tree's use of its allocator: a new node has an address that no node has, and the
  allocator does not look at the nodes. \<open>mem bs n\<close> says that the allocator is consistent with
  the nodes of the tree and can serve \<open>n\<close> more.\<close>

locale node_memory =
  fixes mem :: "'st fdb_btree_t \<times> 'st \<Rightarrow> nat \<Rightarrow> bool"
  assumes create: "mem (b, st) (Suc n) \<Longrightarrow> \<exists>p b' st'. create_node z (b, st) = Inr (p, (b', st')) \<and>
      p \<noteq> NULL \<and> p \<notin> dom (bt_nodes b) \<and> bt_nodes b' = (bt_nodes b)(p \<mapsto> z) \<and>
      bt_root b' = bt_root b \<and> bt_size b' = bt_size b \<and> mem (b', st') n"
    and mem_mono: "mem bs (Suc n) \<Longrightarrow> mem bs n"
    and mem_cong: "\<lbrakk>mem (b, st) n; dom (bt_nodes b') = dom (bt_nodes b);
      bt_node_allocator b' = bt_node_allocator b\<rbrakk> \<Longrightarrow> mem (b', st) n"
    and release: "\<lbrakk>mem (b, st) n; p \<in> dom (bt_nodes b);
      fdb_pool_alloc_free (bt_node_allocator b, st) p = (pool, st')\<rbrakk> \<Longrightarrow>
      mem (b\<lparr>bt_node_allocator := pool, bt_nodes := (bt_nodes b)(p := None)\<rparr>, st') n"

context node_memory
begin

lemma mem_le: "mem bs n \<Longrightarrow> m \<le> n \<Longrightarrow> mem bs m"
  by (induction n) (use mem_mono le_Suc_eq in blast)+

end

lemma write_node_sel [simp]:
  "bt_nodes (fst (write_node bs p n)) = (bt_nodes (fst bs))(p \<mapsto> n)"
  "bt_root (fst (write_node bs p n)) = bt_root (fst bs)"
  "bt_size (fst (write_node bs p n)) = bt_size (fst bs)"
  "bt_node_allocator (fst (write_node bs p n)) = bt_node_allocator (fst bs)"
  "snd (write_node bs p n) = snd bs"
  by (simp_all add: write_node_def split: prod.splits)

lemma at_simps:
  "p \<noteq> NULL \<Longrightarrow> h p = Some n \<Longrightarrow> node_at h p = Inr n"
  "p \<noteq> NULL \<Longrightarrow> h p = Some (E_INTERNAL i) \<Longrightarrow> internal_at h p = Inr i"
  "p \<noteq> NULL \<Longrightarrow> h p = Some (E_LEAF l) \<Longrightarrow> leaf_at h p = Inr l"
  by (simp_all add: node_at_def internal_at_def leaf_at_def)

lemma child_slot:
  assumes "internal_rep i (map root_of (as @ c # bs)) ks"
  shows "rd (in_children i) (length as) = Inr (root_of c)" "in_children i ! length as = root_of c"
    "length as < 10"
proof -
  have "length as < length (in_children i)" using assms by (auto simp: internal_rep_def)
  moreover show "in_children i ! length as = root_of c" using assms by (simp add: internal_rep_def nth_append)
  ultimately show "rd (in_children i) (length as) = Inr (root_of c)" by simp
  show "length as < 10" using assms by (simp add: internal_rep_def)
qed

lemma insert_at: "take (Suc (length as)) (as @ c # bs) @ x # drop (Suc (length as)) (as @ c # bs) = as @ c # x # bs"
  by simp

context node_memory
begin

lemma split_leaf_child:
  assumes r: "rep (bt_nodes b) (TN p (as @ TL q kvs # bs) ks) nx"
    and d: "distinct (addrs (TN p (as @ TL q kvs # bs) ks))"
    and len: "length (as @ TL q kvs # bs) = Suc (length ks)" "length (as @ TL q kvs # bs) \<le> 9" "length kvs = 9"
    and m: "mem (b, st) (Suc m)"
  shows "\<exists>s b' st'. fdb_btree_split_child_full (b, st) p (length as) key =
      Inr (if fst (kvs ! 5) \<le> key then s else q, (b', st')) \<and> s \<notin> dom (bt_nodes b) \<and>
    rep (bt_nodes b') (TN p (as @ TL q (take 5 kvs) # TL s (drop 5 kvs) # bs)
      (take (length as) ks @ fst (kvs ! 5) # drop (length as) ks)) nx \<and>
    upd (bt_nodes b) (TN p (as @ TL q kvs # bs) ks) (bt_nodes b')
      (TN p (as @ TL q (take 5 kvs) # TL s (drop 5 kvs) # bs)
        (take (length as) ks @ fst (kvs ! 5) # drop (length as) ks)) \<and>
    mem (b', st') m \<and> bt_root b' = bt_root b \<and> bt_size b' = bt_size b"
proof -
  let ?h = "bt_nodes b" and ?k = "fst (kvs ! 5)"
  let ?ks = "take (length as) ks @ ?k # drop (length as) ks"
  obtain i where i: "p \<noteq> NULL" "?h p = Some (E_INTERNAL i)" "internal_rep i (map root_of (as @ TL q kvs # bs)) ks"
    using r by auto
  obtain l where l: "q \<noteq> NULL" "?h q = Some (E_LEAF l)" "leaf_rep l kvs (firsts bs nx)"
    using r by (auto simp: reps_append)
  obtain s b1 st1 where c: "create_node (E_LEAF zero_leaf) (b, st) = Inr (s, (b1, st1))" "s \<noteq> NULL"
    "s \<notin> dom ?h" "bt_nodes b1 = ?h(s \<mapsto> E_LEAF zero_leaf)" "bt_root b1 = bt_root b" "bt_size b1 = bt_size b"
    "mem (b1, st1) m"
    using create [OF m, of "E_LEAF zero_leaf"] by blast
  have ne: "s \<noteq> p" "s \<noteq> q" "p \<noteq> q" using c(3) i(2) l(2) by auto
  obtain s' l' where sp: "split_leaf_nodes zero_leaf l = (s', l')" by fastforce
  note sr = split_leaf_rep [OF l(3) len(3) sp]
  obtain i' where i': "fdb_btree_shift_insert_internal i (length as + 1) s ?k = Inr i'"
    "internal_rep i' (map root_of (as @ TL q kvs # TL s (drop 5 kvs) # bs)) ?ks"
    using shift_insert_internal_rep [OF i(3), of "length as" s ?k] len by auto
  define b2 where "b2 = fst (write_node (write_node (write_node (write_node (write_node (b1, st1)
      q (E_LEAF l')) s (E_LEAF s')) p (E_INTERNAL i')) s (E_LEAF (s'\<lparr>lf_next := lf_next l'\<rparr>)))
      q (E_LEAF (l'\<lparr>lf_next := s\<rparr>)))"
  have nodes: "bt_nodes b2 = ?h(s \<mapsto> E_LEAF (s'\<lparr>lf_next := lf_next l'\<rparr>), p \<mapsto> E_INTERNAL i', q \<mapsto> E_LEAF (l'\<lparr>lf_next := s\<rparr>))"
    using ne by (simp add: b2_def c(4) fun_upd_twist fun_upd_upd)
  have same: "bt_root b2 = bt_root b" "bt_size b2 = bt_size b" "bt_node_allocator b2 = bt_node_allocator b1"
    by (simp_all add: b2_def c)
  have run: "fdb_btree_split_child_full (b, st) p (length as) key = Inr (if ?k \<le> key then s else q, (b2, st1))"
    using l(3) len(3) ne i l c(1,2,4) sp sr(3) i'(1) child_slot [OF i(3)]
    by (simp add: fdb_btree_split_child_full_def fdb_btree_split_leaf_def fdb_btree_create_leaf_def at_simps
        leaf_rep_def btree_consts b2_def write_node_def)
  have c12: "rep (bt_nodes b2) (TL q (take 5 kvs)) (first (TL s (drop 5 kvs)))"
    "rep (bt_nodes b2) (TL s (drop 5 kvs)) (firsts bs nx)"
    using sr(1,2) l(1) c(2) ne nodes by (auto simp: leaf_rep_def)
  have "dom (bt_nodes b2) = insert s (dom ?h)" using nodes i(2) l(2) by auto
  note heap = split_child_heap [OF r d c(3) _ _ _ _ this _ _ c12, of i' ?ks]
  have "rep (bt_nodes b2) (TN p (as @ TL q (take 5 kvs) # TL s (drop 5 kvs) # bs) ?ks) nx"
    by (rule heap(1)) (use nodes ne i' c(3) in auto)
  moreover have "upd ?h (TN p (as @ TL q kvs # bs) ks) (bt_nodes b2)
      (TN p (as @ TL q (take 5 kvs) # TL s (drop 5 kvs) # bs) ?ks)"
    by (rule heap(2)) (use nodes ne i' c(3) in auto)
  moreover have "mem (b2, st1) m"
    by (rule mem_cong [OF c(7)]) (use nodes same c(4) i(2) l(2) in auto)
  ultimately show ?thesis using run same c(3) by blast
qed

lemma split_internal_child:
  assumes r: "rep (bt_nodes b) (TN p (as @ TN q cts cks # bs) ks) nx"
    and d: "distinct (addrs (TN p (as @ TN q cts cks # bs) ks))"
    and len: "length (as @ TN q cts cks # bs) = Suc (length ks)" "length (as @ TN q cts cks # bs) \<le> 9"
      "length cts = 10" "length cks = 9"
    and m: "mem (b, st) (Suc m)"
  shows "\<exists>s b' st'. fdb_btree_split_child_full (b, st) p (length as) key =
      Inr (if cks ! 4 \<le> key then s else q, (b', st')) \<and> s \<notin> dom (bt_nodes b) \<and>
    rep (bt_nodes b') (TN p (as @ TN q (take 5 cts) (take 4 cks) # TN s (drop 5 cts) (drop 5 cks) # bs)
      (take (length as) ks @ cks ! 4 # drop (length as) ks)) nx \<and>
    upd (bt_nodes b) (TN p (as @ TN q cts cks # bs) ks) (bt_nodes b')
      (TN p (as @ TN q (take 5 cts) (take 4 cks) # TN s (drop 5 cts) (drop 5 cks) # bs)
        (take (length as) ks @ cks ! 4 # drop (length as) ks)) \<and>
    mem (b', st') m \<and> bt_root b' = bt_root b \<and> bt_size b' = bt_size b"
proof -
  let ?h = "bt_nodes b" and ?k = "cks ! 4"
  let ?ks = "take (length as) ks @ ?k # drop (length as) ks"
  let ?c1 = "TN q (take 5 cts) (take 4 cks)"
  obtain i where i: "p \<noteq> NULL" "?h p = Some (E_INTERNAL i)" "internal_rep i (map root_of (as @ TN q cts cks # bs)) ks"
    using r by auto
  have rc: "rep ?h (TN q cts cks) (firsts bs nx)" using r by (simp add: reps_append)
  then obtain l where l: "q \<noteq> NULL" "?h q = Some (E_INTERNAL l)" "internal_rep l (map root_of cts) cks" "reps ?h cts (firsts bs nx)"
    by auto
  obtain s b1 st1 where c: "create_node (E_INTERNAL zero_internal) (b, st) = Inr (s, (b1, st1))" "s \<noteq> NULL"
    "s \<notin> dom ?h" "bt_nodes b1 = ?h(s \<mapsto> E_INTERNAL zero_internal)" "bt_root b1 = bt_root b" "bt_size b1 = bt_size b"
    "mem (b1, st1) m"
    using create [OF m, of "E_INTERNAL zero_internal"] by blast
  have ne: "s \<noteq> p" "s \<noteq> q" "p \<noteq> q" using c(3) i(2) l(2) d by auto
  obtain s' l' where sp: "split_internal_nodes zero_internal l = (s', l')" by fastforce
  have "length (map root_of cts) = 10" using len(3) by simp
  note sr = split_internal_rep [OF l(3) this len(4) sp]
  obtain i' where i': "fdb_btree_shift_insert_internal i (length as + 1) s ?k = Inr i'"
    "internal_rep i' (map root_of (as @ ?c1 # TN s (drop 5 cts) (drop 5 cks) # bs)) ?ks"
    using shift_insert_internal_rep [OF i(3), of "length as" s ?k] len by auto
  define b2 where "b2 = fst (write_node (write_node (write_node (b1, st1)
      q (E_INTERNAL l')) s (E_INTERNAL s')) p (E_INTERNAL i'))"
  have nodes: "bt_nodes b2 = ?h(s \<mapsto> E_INTERNAL s', q \<mapsto> E_INTERNAL l', p \<mapsto> E_INTERNAL i')"
    using ne by (simp add: b2_def c(4) fun_upd_twist fun_upd_upd)
  have same: "bt_root b2 = bt_root b" "bt_size b2 = bt_size b" "bt_node_allocator b2 = bt_node_allocator b1"
    by (simp_all add: b2_def c)
  have run: "fdb_btree_split_child_full (b, st) p (length as) key = Inr (if ?k \<le> key then s else q, (b2, st1))"
    using l(3) len(3,4) ne i l c(1,2,4) sp sr(3) i'(1) child_slot [OF i(3)]
    by (simp add: fdb_btree_split_child_full_def fdb_btree_split_internal_def fdb_btree_create_internal_def at_simps
        internal_rep_def btree_consts b2_def write_node_def)
  have pts: "bt_nodes b2 q = Some (E_INTERNAL l')" "bt_nodes b2 s = Some (E_INTERNAL s')"
    using ne by (simp_all add: nodes)
  have cdom: "(\<Union>t\<in>set cts. set (addrs t)) \<subseteq> dom ?h" by (rule rep_dom(2) [OF l(4)])
  have frame: "reps (bt_nodes b2) ts n = reps ?h ts n" if "set ts \<subseteq> set cts" for ts n
  proof (rule rep_frame(2))
    fix x t assume "t \<in> set ts" "x \<in> set (addrs t)"
    then have "x \<in> dom ?h" "x \<in> set (concat (map addrs cts))" using that cdom by auto
    moreover from this have "x \<noteq> q" "x \<noteq> p" using d by auto
    ultimately show "bt_nodes b2 x = ?h x" using c(3) nodes by auto
  qed
  have two: "cts = take 5 cts @ drop 5 cts" "drop 5 cts \<noteq> []" using len(3) by auto
  have "reps ?h (take 5 cts) (firsts (drop 5 cts) (firsts bs nx)) \<and> reps ?h (drop 5 cts) (firsts bs nx)"
    using l(4) by (subst (asm) two(1)) (simp only: reps_append)
  moreover have "firsts (drop 5 cts) n = firsts (drop 5 cts) NULL" for n
    using two(2) by (cases "drop 5 cts") auto
  ultimately have "reps ?h (take 5 cts) (firsts (drop 5 cts) NULL)" "reps ?h (drop 5 cts) (firsts bs nx)"
    by metis+
  then have c12: "rep (bt_nodes b2) ?c1 (first (TN s (drop 5 cts) (drop 5 cks)))"
    "rep (bt_nodes b2) (TN s (drop 5 cts) (drop 5 cks)) (firsts bs nx)"
    using sr(1,2) l(1) c(2) pts
    by (auto simp: frame set_take_subset set_drop_subset take_map drop_map)
  have "dom (bt_nodes b2) = insert s (dom ?h)" using nodes i(2) l(2) by auto
  note heap = split_child_heap [OF r d c(3) _ _ _ _ this _ _ c12, of i' ?ks]
  have cat: "concat (map addrs (take 5 cts)) @ concat (map addrs (drop 5 cts)) = concat (map addrs cts)"
    by (simp flip: concat_append map_append)
  have dc: "distinct (q # concat (map addrs cts))" "set (concat (map addrs cts)) \<subseteq> dom ?h"
    using d cdom by auto
  have a1: "set (addrs ?c1) \<union> set (addrs (TN s (drop 5 cts) (drop 5 cks))) = insert s (set (addrs (TN q cts cks)))"
    using arg_cong [OF cat, of set] by auto
  have a2: "distinct (addrs ?c1 @ addrs (TN s (drop 5 cts) (drop 5 cks)))"
  proof -
    define A B where "A = concat (map addrs (take 5 cts))" and "B = concat (map addrs (drop 5 cts))"
    have "distinct (q # A @ B)" "s \<notin> set (A @ B)" using dc c(3) unfolding A_def B_def cat by auto
    then have "distinct ((q # A) @ s # B)" using ne(2) by auto
    then show ?thesis by (simp add: A_def B_def)
  qed
  have a3: "first ?c1 = first (TN q cts cks)" using len(3) by (cases cts) auto
  have "rep (bt_nodes b2) (TN p (as @ ?c1 # TN s (drop 5 cts) (drop 5 cks) # bs) ?ks) nx"
    by (rule heap(1) [OF a1 a2 a3]) (use nodes ne i' c(3) in auto)
  moreover have "upd ?h (TN p (as @ TN q cts cks # bs) ks) (bt_nodes b2)
      (TN p (as @ ?c1 # TN s (drop 5 cts) (drop 5 cks) # bs) ?ks)"
    by (rule heap(2) [OF a1 a2 a3]) (use nodes ne i' c(3) in auto)
  moreover have "mem (b2, st1) m"
    by (rule mem_cong [OF c(7)]) (use nodes same c(4) i(2) l(2) in auto)
  ultimately show ?thesis using run same c(3) by blast
qed

end

section \<open>Descending into a child that is not full\<close>

fun nonfull :: "tree \<Rightarrow> bool" where
  "nonfull (TL p kvs) \<longleftrightarrow> length kvs \<le> 8"
| "nonfull (TN p ts ks) \<longleftrightarrow> length ts \<le> 9"

text \<open>The trees below the root: filled, or a single leaf that may hold any number of entries.\<close>

definition rfill :: "tree list \<Rightarrow> bool" where
  "rfill ts \<longleftrightarrow> (\<forall>t\<in>set ts. filled t) \<or> (\<exists>q kvs. ts = [TL q kvs])"

text \<open>\<open>placed lo key as ks hi\<close>: in a node with separators \<open>ks\<close>, the child behind \<open>as\<close> is
  the one for \<open>key\<close>, between the bounds \<open>l\<close> and \<open>u\<close>.\<close>

definition placed :: "nat \<Rightarrow> u32 \<Rightarrow> tree list \<Rightarrow> u32 list \<Rightarrow> nat \<Rightarrow> nat list \<Rightarrow> nat \<Rightarrow> nat \<Rightarrow> nat list \<Rightarrow> bool" where
  "placed lo key as ks hi xs l u ys \<longleftrightarrow> lo # map unat ks @ [hi] = xs @ l # u # ys \<and>
     length as = length xs \<and> l \<le> unat key \<and> unat key < u"

lemma placed_insert:
  assumes "placed lo key as ks hi xs l u ys" "length as \<le> length ks"
  shows "lo # map unat (take (length as) ks @ k # drop (length as) ks) @ [hi] = xs @ l # unat k # u # ys"
proof -
  have "(lo # map unat (take (length as) ks)) @ map unat (drop (length as) ks) @ [hi] = (xs @ [l]) @ u # ys"
  proof -
    have m: "map unat ks = map unat (take (length as) ks) @ map unat (drop (length as) ks)"
      by (metis append_take_drop_id map_append)
    have "lo # map unat ks @ [hi] = xs @ l # u # ys" using assms(1) by (simp only: placed_def)
    then show ?thesis by (subst (asm) m) (simp only: append_Cons append_assoc append_Nil)
  qed
  moreover have "length (lo # map unat (take (length as) ks)) = length (xs @ [l])"
    using assms by (simp add: placed_def)
  ultimately have "lo # map unat (take (length as) ks) = xs @ [l] \<and> map unat (drop (length as) ks) @ [hi] = u # ys"
    by (subst (asm) append_eq_append_conv) blast+
  then show ?thesis by simp
qed

lemma leaf_ok_alt: "leaf_ok lo kvs hi \<longleftrightarrow> length kvs \<le> 9 \<and> ascending kvs \<and>
    (\<forall>e\<in>set kvs. lo \<le> unat (fst e) \<and> unat (fst e) < hi \<and> snd e \<noteq> NULL)"
  by (auto simp: leaf_ok_def)

lemma leaf_ok_split:
  assumes "leaf_ok l kvs u" "length kvs = 9"
  shows "l < unat (fst (kvs ! 5))" "unat (fst (kvs ! 5)) < u"
    "leaf_ok l (take 5 kvs) (unat (fst (kvs ! 5)))" "leaf_ok (unat (fst (kvs ! 5))) (drop 5 kvs) u"
proof -
  let ?k = "fst (kvs ! 5)"
  have asc: "ascending kvs" and bnd: "\<And>e. e \<in> set kvs \<Longrightarrow> l \<le> unat (fst e) \<and> unat (fst e) < u \<and> snd e \<noteq> NULL"
    using assms(1) by (auto simp: leaf_ok_def)
  have mono: "fst (kvs ! i) < fst (kvs ! j)" if "i < j" "j < 9" for i j
    using asc that assms(2) by (simp add: sorted_wrt_iff_nth_less)
  have "unat (fst (kvs ! 0)) < unat ?k" using mono [of 0 5] by (simp add: word_less_nat_alt)
  then show "l < unat ?k" using bnd [of "kvs ! 0"] assms(2) by simp
  show "unat ?k < u" using bnd [of "kvs ! 5"] assms(2) by simp
  have lo: "fst e < ?k" if e: "e \<in> set (take 5 kvs)" for e
    using e mono [of _ 5] by (auto simp: in_set_conv_nth)
  have hi: "?k \<le> fst e" if e: "e \<in> set (drop 5 kvs)" for e
  proof -
    obtain i where i: "i < 4" "e = kvs ! (5 + i)" using e assms(2) by (auto simp: in_set_conv_nth)
    then show ?thesis using mono [of 5 "5 + i"] by (cases i) auto
  qed
  have "sorted_wrt (<) (take 5 (map fst kvs))" "sorted_wrt (<) (drop 5 (map fst kvs))"
    using asc by (rule sorted_wrt_take, rule sorted_wrt_drop)
  moreover have "l \<le> unat (fst e) \<and> unat (fst e) < unat ?k \<and> snd e \<noteq> NULL" if "e \<in> set (take 5 kvs)" for e
    using lo [OF that] bnd [OF in_set_takeD [OF that]] by (simp add: word_less_nat_alt)
  moreover have "unat ?k \<le> unat (fst e) \<and> unat (fst e) < u \<and> snd e \<noteq> NULL" if "e \<in> set (drop 5 kvs)" for e
    using hi [OF that] bnd [OF in_set_dropD [OF that]] by (simp add: word_le_nat_alt)
  ultimately show "leaf_ok l (take 5 kvs) (unat ?k)" "leaf_ok (unat ?k) (drop 5 kvs) u"
    using assms(2) by (simp_all add: leaf_ok_alt take_map drop_map)
qed

lemma internal_ok_split:
  assumes "tree_ok (Suc n) l (TN q cts cks) u" "length cts = 10" "length cks = 9"
  shows "l < unat (cks ! 4)" "unat (cks ! 4) < u"
    "tree_ok (Suc n) l (TN q (take 5 cts) (take 4 cks)) (unat (cks ! 4))"
    "tree_ok (Suc n) (unat (cks ! 4)) (TN s (drop 5 cts) (drop 5 cks)) u"
proof -
  let ?k = "unat (cks ! 4)"
  have "cks = take 4 cks @ cks ! 4 # drop 5 cks" using assms(3) id_take_nth_drop [of 4 cks] by simp
  then have "l # map unat cks @ [u] = (l # map unat (take 4 cks)) @ ?k # map unat (drop 5 cks) @ [u]"
    by (metis append_Cons append_assoc list.simps(9) map_append)
  moreover have "cts = take 5 cts @ drop 5 cts" by simp
  ultimately have "lpairs (tree_ok n) ((l # map unat (take 4 cks)) @ ?k # map unat (drop 5 cks) @ [u]) (take 5 cts @ drop 5 cts)"
    using assms(1) by simp
  then have p: "lpairs (tree_ok n) ((l # map unat (take 4 cks)) @ [?k]) (take 5 cts)"
    "lpairs (tree_ok n) (?k # map unat (drop 5 cks) @ [u]) (drop 5 cts)"
    using assms(2,3) by (subst (asm) lpairs_append; simp)+
  have ne: "take 5 cts \<noteq> []" "drop 5 cts \<noteq> []" using assms(2) by auto
  show "l < ?k" "?k < u"
    using lpairs_hd_less [OF p(1) ne(1)] lpairs_hd_less [OF p(2) ne(2)] by simp_all
  show "tree_ok (Suc n) l (TN q (take 5 cts) (take 4 cks)) ?k"
    "tree_ok (Suc n) ?k (TN s (drop 5 cts) (drop 5 cks)) u"
    using p assms(2,3) by simp_all
qed

text \<open>\<open>ready\<close>: the same entries as before, and the child for the key can take one more.\<close>

definition ready :: "nat \<Rightarrow> nat \<Rightarrow> u32 \<Rightarrow> nat \<Rightarrow> ptr \<Rightarrow> btheap \<Rightarrow> tree \<Rightarrow> btheap \<Rightarrow>
    ptr \<Rightarrow> tree list \<Rightarrow> tree \<Rightarrow> tree list \<Rightarrow> u32 list \<Rightarrow> bool" where
  "ready n lo key hi nx h t h' p as c bs ks \<longleftrightarrow>
     (let t' = TN p (as @ c # bs) ks in
      tree_ok (Suc n) lo t' hi \<and> rep h' t' nx \<and> upd h t h' t' \<and> entries_of t' = entries_of t \<and>
      first t' = first t \<and> nonfull c \<and> (\<exists>xs l u ys. placed lo key as ks hi xs l u ys))"

definition refilled :: "tree list \<Rightarrow> tree list \<Rightarrow> bool" where
  "refilled ts ts' \<longleftrightarrow> length ts \<le> length ts' \<and> (rfill ts \<longrightarrow> rfill ts') \<and>
     ((\<forall>t\<in>set ts. filled t) \<longrightarrow> (\<forall>t\<in>set ts'. filled t))"

lemma ready_split:
  assumes ok: "tree_ok (Suc n) lo (TN p (as @ c # bs) ks) hi" "length (as @ c # bs) \<le> 9"
    and pl: "placed lo key as ks hi xs l u ys"
    and k: "l < unat k" "unat k < u" "tree_ok n l c1 (unat k)" "tree_ok n (unat k) c2 u"
    and h: "rep h' (TN p (as @ c1 # c2 # bs) (take (length as) ks @ k # drop (length as) ks)) nx"
      "upd h (TN p (as @ c # bs) ks) h' (TN p (as @ c1 # c2 # bs) (take (length as) ks @ k # drop (length as) ks))"
    and e: "entries_of c1 @ entries_of c2 = entries_of c" "first c1 = first c" "nonfull c1" "nonfull c2"
  shows "\<exists>as' c' bs'. ready n lo key hi nx h (TN p (as @ c # bs) ks) h' p as' c' bs'
      (take (length as) ks @ k # drop (length as) ks) \<and>
    as' @ c' # bs' = as @ c1 # c2 # bs \<and> c' = (if k \<le> key then c2 else c1)"
proof -
  let ?ks = "take (length as) ks @ k # drop (length as) ks"
  let ?t = "TN p (as @ c1 # c2 # bs) ?ks"
  have len: "length as \<le> length ks" "length (as @ c # bs) = Suc (length ks)" using ok(1) by auto
  note b = placed_insert [OF pl len(1), of k]
  have lp: "lpairs (tree_ok n) (xs @ l # u # ys) (as @ c # bs)" "length as = length xs"
    using ok(1) pl by (auto simp: placed_def)
  have ok': "tree_ok (Suc n) lo ?t hi"
    using lpairs_split_child [OF lp k] len ok(2) b by (simp del: append_assoc)
  have ent: "entries_of ?t = entries_of (TN p (as @ c # bs) ks)"
    using arg_cong [OF e(1), of "\<lambda>x. x @ concat (map entries_of bs)"] by simp
  have fst: "first ?t = first (TN p (as @ c # bs) ks)" using e(2) by (cases as) auto
  show ?thesis
  proof (cases "k \<le> key")
    case True
    have "placed lo key (as @ [c1]) ?ks hi (xs @ [l]) (unat k) u ys"
      using b pl True by (simp add: placed_def word_le_nat_alt)
    then have "ready n lo key hi nx h (TN p (as @ c # bs) ks) h' p (as @ [c1]) c2 bs ?ks"
      using ok' h ent fst e unfolding ready_def Let_def by simp blast
    then show ?thesis using True by (intro exI [of _ "as @ [c1]"] exI [of _ c2] exI [of _ bs]) simp
  next
    case False
    have "placed lo key as ?ks hi xs l (unat k) (u # ys)"
      using b pl False by (simp add: placed_def word_le_nat_alt)
    then have "ready n lo key hi nx h (TN p (as @ c # bs) ks) h' p as c1 (c2 # bs) ?ks"
      using ok' h ent fst e unfolding ready_def Let_def by simp blast
    then show ?thesis using False by (intro exI [of _ as] exI [of _ c1] exI [of _ "c2 # bs"]) simp
  qed
qed

lemma refilled_split:
  assumes "filled c1" "filled c2" "as = [] \<and> bs = [] \<or> \<not> (\<exists>q kvs. as @ c # bs = [TL q kvs])"
  shows "refilled (as @ c # bs) (as @ c1 # c2 # bs)"
  using assms by (auto simp: refilled_def rfill_def)

lemma refilled_split_leaf:
  "length kvs = 9 \<Longrightarrow>
   refilled (as @ TL q kvs # bs) (as @ TL q (take 5 kvs) # TL s (drop 5 kvs) # bs)"
  by (auto simp: refilled_def rfill_def append_eq_Cons_conv)

lemma refilled_split_internal:
  "length cts = 10 \<Longrightarrow>
   refilled (as @ TN q cts cks # bs) (as @ TN q (take 5 cts) (take 4 cks) # TN s (drop 5 cts) (drop 5 cks) # bs)"
  by (auto simp: refilled_def rfill_def append_eq_Cons_conv dest: in_set_takeD in_set_dropD)

lemma refilled_refl: "refilled ts ts"
  by (simp add: refilled_def)

context node_memory
begin

lemma split_child_spec:
  assumes ok: "tree_ok (Suc n) lo (TN p (as @ c # bs) ks) hi" "length (as @ c # bs) \<le> 9"
    and r: "rep (bt_nodes b) (TN p (as @ c # bs) ks) nx" and d: "distinct (addrs (TN p (as @ c # bs) ks))"
    and pl: "placed lo key as ks hi xs l u ys" and m: "mem (b, st) (Suc m)"
  shows "\<exists>as' c' bs' ks' b' st'. fdb_btree_split_child_full (b, st) p (length as) key =
      Inr (root_of c', (b', st')) \<and>
    ready n lo key hi nx (bt_nodes b) (TN p (as @ c # bs) ks) (bt_nodes b') p as' c' bs' ks' \<and>
    refilled (as @ c # bs) (as' @ c' # bs') \<and>
    mem (b', st') m \<and> bt_root b' = bt_root b \<and> bt_size b' = bt_size b"
proof -
  have len: "length (as @ c # bs) = Suc (length ks)" using ok(1) by auto
  have c: "tree_ok n l c u"
    using ok(1) pl by (auto simp: placed_def lpairs_append)
  obtain i where i: "p \<noteq> NULL" "bt_nodes b p = Some (E_INTERNAL i)" "internal_rep i (map root_of (as @ c # bs)) ks"
    using r by auto
  have rc: "rep (bt_nodes b) c (firsts bs nx)" using r by (simp add: reps_append)
  show ?thesis
  proof (cases "nonfull c")
    case True
    have "fdb_btree_split_child_full (b, st) p (length as) key = Inr (root_of c, (b, st))"
    proof (cases c)
      case (TL q kvs)
      then obtain cl where "q \<noteq> NULL" "bt_nodes b q = Some (E_LEAF cl)" "lf_nleafs cl = of_nat (length kvs)"
        using rc by (auto simp: leaf_rep_def)
      moreover have "(of_nat (length kvs) :: u16) \<noteq> of_nat 9"
        using of_nat_u16_eq [of "length kvs" 9] True TL by simp
      ultimately show ?thesis
        using i child_slot [OF i(3)] TL by (simp add: fdb_btree_split_child_full_def at_simps btree_consts)
    next
      case (TN q cts cks)
      then obtain ci where "q \<noteq> NULL" "bt_nodes b q = Some (E_INTERNAL ci)" "in_nchildren ci = of_nat (length cts)"
        using rc by (auto simp: internal_rep_def)
      moreover have "(of_nat (length cts) :: u16) \<noteq> of_nat 10"
        using of_nat_u16_eq [of "length cts" 10] True TN by simp
      ultimately show ?thesis
        using i child_slot [OF i(3)] TN by (simp add: fdb_btree_split_child_full_def at_simps btree_consts)
    qed
    moreover have "ready n lo key hi nx (bt_nodes b) (TN p (as @ c # bs) ks) (bt_nodes b) p as c bs ks"
      unfolding ready_def Let_def using ok(1) r True pl upd_refl [OF d rep_dom(1) [OF r]] by blast
    ultimately show ?thesis using refilled_refl mem_mono [OF m] by blast
  next
    case False
    show ?thesis
    proof (cases c)
      case (TL q kvs)
      then have kvs: "length kvs = 9" "leaf_ok l kvs u" "n = 0" using False c by (auto simp: leaf_ok_def)
      note ks = leaf_ok_split [OF kvs(2,1)]
      obtain s b' st' where run: "fdb_btree_split_child_full (b, st) p (length as) key =
          Inr (if fst (kvs ! 5) \<le> key then s else q, (b', st'))"
        and h: "rep (bt_nodes b') (TN p (as @ TL q (take 5 kvs) # TL s (drop 5 kvs) # bs)
          (take (length as) ks @ fst (kvs ! 5) # drop (length as) ks)) nx"
          "upd (bt_nodes b) (TN p (as @ TL q kvs # bs) ks) (bt_nodes b')
          (TN p (as @ TL q (take 5 kvs) # TL s (drop 5 kvs) # bs)
          (take (length as) ks @ fst (kvs ! 5) # drop (length as) ks))"
        and same: "mem (b', st') m" "bt_root b' = bt_root b" "bt_size b' = bt_size b"
        using split_leaf_child [OF r [unfolded TL] d [unfolded TL] len [unfolded TL] ok(2) [unfolded TL] kvs(1) m] by blast
      have nf: "entries_of (TL q (take 5 kvs)) @ entries_of (TL s (drop 5 kvs)) = entries_of (TL q kvs)"
        "first (TL q (take 5 kvs)) = first (TL q kvs)"
        "nonfull (TL q (take 5 kvs))" "nonfull (TL s (drop 5 kvs))"
        "tree_ok n l (TL q (take 5 kvs)) (unat (fst (kvs ! 5)))"
        "tree_ok n (unat (fst (kvs ! 5))) (TL s (drop 5 kvs)) u"
        using kvs(1,3) ks(3,4) by simp_all
      from ready_split [OF ok [unfolded TL] pl ks(1,2) nf(5,6) h nf(1-4)]
      obtain as' c' bs' where rd: "ready n lo key hi nx (bt_nodes b) (TN p (as @ TL q kvs # bs) ks) (bt_nodes b') p as' c' bs'
          (take (length as) ks @ fst (kvs ! 5) # drop (length as) ks)"
        "as' @ c' # bs' = as @ TL q (take 5 kvs) # TL s (drop 5 kvs) # bs"
        "c' = (if fst (kvs ! 5) \<le> key then TL s (drop 5 kvs) else TL q (take 5 kvs))" by blast
      have "refilled (as @ c # bs) (as' @ c' # bs')" unfolding rd(2) TL by (rule refilled_split_leaf [OF kvs(1)])
      moreover have "fdb_btree_split_child_full (b, st) p (length as) key = Inr (root_of c', (b', st'))"
        using run rd(3) by simp
      moreover have "ready n lo key hi nx (bt_nodes b) (TN p (as @ c # bs) ks) (bt_nodes b') p as' c' bs'
          (take (length as) ks @ fst (kvs ! 5) # drop (length as) ks)" using rd(1) TL by simp
      ultimately show ?thesis using same by blast
    next
      case (TN q cts cks)
      then obtain n' where cts: "length cts = 10" "length cks = 9" "n = Suc n'" using False c by auto
      note ks = internal_ok_split [OF c [unfolded TN cts(3)] cts(1,2)]
      obtain s b' st' where run: "fdb_btree_split_child_full (b, st) p (length as) key =
          Inr (if cks ! 4 \<le> key then s else q, (b', st'))"
        and h: "rep (bt_nodes b') (TN p (as @ TN q (take 5 cts) (take 4 cks) # TN s (drop 5 cts) (drop 5 cks) # bs)
          (take (length as) ks @ cks ! 4 # drop (length as) ks)) nx"
          "upd (bt_nodes b) (TN p (as @ TN q cts cks # bs) ks) (bt_nodes b')
          (TN p (as @ TN q (take 5 cts) (take 4 cks) # TN s (drop 5 cts) (drop 5 cks) # bs)
          (take (length as) ks @ cks ! 4 # drop (length as) ks))"
        and same: "mem (b', st') m" "bt_root b' = bt_root b" "bt_size b' = bt_size b"
        using split_internal_child [OF r [unfolded TN] d [unfolded TN] len [unfolded TN] ok(2) [unfolded TN] cts(1,2) m] by blast
      have ent: "entries_of (TN q (take 5 cts) (take 4 cks)) @ entries_of (TN s (drop 5 cts) (drop 5 cks)) = entries_of (TN q cts cks)"
        by (simp flip: concat_append map_append)
      have fst: "first (TN q (take 5 cts) (take 4 cks)) = first (TN q cts cks)" using cts(1) by (cases cts) auto
      have nf: "nonfull (TN q (take 5 cts) (take 4 cks))" "nonfull (TN s (drop 5 cts) (drop 5 cks))"
        using cts(1) by simp_all
      from ready_split [OF ok [unfolded TN] pl ks(1,2) ks(3,4) [folded cts(3)] h ent fst nf]
      obtain as' c' bs' where rd: "ready n lo key hi nx (bt_nodes b) (TN p (as @ TN q cts cks # bs) ks) (bt_nodes b') p as' c' bs'
          (take (length as) ks @ cks ! 4 # drop (length as) ks)"
        "as' @ c' # bs' = as @ TN q (take 5 cts) (take 4 cks) # TN s (drop 5 cts) (drop 5 cks) # bs"
        "c' = (if cks ! 4 \<le> key then TN s (drop 5 cts) (drop 5 cks) else TN q (take 5 cts) (take 4 cks))" by blast
      have "refilled (as @ c # bs) (as' @ c' # bs')" unfolding rd(2) TN by (rule refilled_split_internal [OF cts(1)])
      moreover have "fdb_btree_split_child_full (b, st) p (length as) key = Inr (root_of c', (b', st'))"
        using run rd(3) by simp
      moreover have "ready n lo key hi nx (bt_nodes b) (TN p (as @ c # bs) ks) (bt_nodes b') p as' c' bs'
          (take (length as) ks @ cks ! 4 # drop (length as) ks)" using rd(1) TN by simp
      ultimately show ?thesis using same by blast
    qed
  qed
qed

end

context node_memory
begin

lemma insert_child_spec:
  assumes ok: "tree_ok (Suc n) lo (TN p ts ks) hi" "length ts \<le> 9"
    and r: "rep (bt_nodes b) (TN p ts ks) nx" and d: "distinct (addrs (TN p ts ks))"
    and key: "lo \<le> unat key" "unat key < hi" and m: "mem (b, st) (Suc m)"
  shows "\<exists>as c bs ks' b' st'. insert_child (b, st) p key = Inr (root_of c, (b', st')) \<and>
    ready n lo key hi nx (bt_nodes b) (TN p ts ks) (bt_nodes b') p as c bs ks' \<and>
    refilled ts (as @ c # bs) \<and> mem (b', st') m \<and> bt_root b' = bt_root b \<and> bt_size b' = bt_size b"
proof -
  obtain i where i: "p \<noteq> NULL" "bt_nodes b p = Some (E_INTERNAL i)" "internal_rep i (map root_of ts) ks" "reps (bt_nodes b) ts nx"
    using r by auto
  have len: "length ts = Suc (length ks)" using ok by auto
  define j where "j = length (takeWhile (\<lambda>k. k \<le> key) ks)"
  have scan: "fdb_btree_next_internal i key = j"
    unfolding j_def using len reps_roots [OF i(4)] by (intro next_internal_rep [OF i(3)]) auto
  obtain as c bs xs l u ys where sp: "ts = as @ c # bs" "length as = j" "length xs = j"
    "lo # map unat ks @ [hi] = xs @ l # u # ys" "l \<le> unat key" "unat key < u"
    by (rule scan_split [OF key len j_def])
  have pl: "placed lo key as ks hi xs l u ys" using sp by (simp add: placed_def)
  have "root_of c \<noteq> NULL" using reps_roots [OF i(4)] sp(1) by simp
  then have "insert_child (b, st) p key = fdb_btree_split_child_full (b, st) p (length as) key"
    using i(1,2) child_slot [OF i(3) [unfolded sp(1)]] scan sp(2)
    by (simp add: insert_child_def at_simps)
  then show ?thesis
    using split_child_spec [OF ok [unfolded sp(1)] r [unfolded sp(1)] d [unfolded sp(1)] pl m] sp(1) by simp
qed

end

lemma set_ins: "set (ins k v xs) \<subseteq> insert (k, v) (set xs)"
proof (induction xs)
  case (Cons a xs)
  then show ?case by (cases a) (auto split: if_splits)
qed simp

lemma leaf_ok_ins:
  assumes "leaf_ok lo kvs hi" "length kvs \<le> 8" "lo \<le> unat key" "unat key < hi" "v \<noteq> NULL"
  shows "leaf_ok lo (ins key v kvs) hi"
  unfolding leaf_ok_alt
proof (intro conjI ballI)
  have a: "ascending kvs" using assms(1) by (simp add: leaf_ok_alt)
  show "length (ins key v kvs) \<le> 9" using length_ins [OF a, of key v] assms(2) by simp
  show "ascending (ins key v kvs)" by (rule ascending_ins [OF a])
  fix e assume "e \<in> set (ins key v kvs)"
  then have "e = (key, v) \<or> e \<in> set kvs" using set_ins by fastforce
  then show "lo \<le> unat (fst e)" "unat (fst e) < hi" "snd e \<noteq> NULL"
    using assms by (auto simp: leaf_ok_alt)
qed

lemma key_in_dropWhile:
  assumes "ascending kvs"
  shows "key \<in> fst ` set kvs \<longleftrightarrow> dropWhile (\<lambda>e. fst e < key) kvs \<noteq> [] \<and>
    fst (hd (dropWhile (\<lambda>e. fst e < key) kvs)) = key"
proof
  assume "key \<in> fst ` set kvs"
  then have "length (ins key NULL kvs) = length kvs" using length_ins [OF assms] by simp
  moreover have "length kvs = length (takeWhile (\<lambda>e. fst e < key) kvs) + length (dropWhile (\<lambda>e. fst e < key) kvs)"
    by (metis length_append takeWhile_dropWhile_id)
  ultimately show "dropWhile (\<lambda>e. fst e < key) kvs \<noteq> [] \<and> fst (hd (dropWhile (\<lambda>e. fst e < key) kvs)) = key"
    using ins_split [OF assms, of key NULL] by (auto simp: Let_def split: if_splits)
next
  assume a: "dropWhile (\<lambda>e. fst e < key) kvs \<noteq> [] \<and> fst (hd (dropWhile (\<lambda>e. fst e < key) kvs)) = key"
  then have "hd (dropWhile (\<lambda>e. fst e < key) kvs) \<in> set kvs"
    by (meson hd_in_set set_dropWhileD)
  then show "key \<in> fst ` set kvs" using a by force
qed

text \<open>What insertion does to a subtree, and where the caller finds the value.\<close>

definition inserted :: "u32 \<Rightarrow> ptr \<Rightarrow> 'st fdb_btree_t \<Rightarrow> tree \<Rightarrow> ptr \<Rightarrow> 'st fdb_btree_t \<Rightarrow> tree \<Rightarrow> bool" where
  "inserted key v b t nx b' t' \<longleftrightarrow> upd (bt_nodes b) t (bt_nodes b') t' \<and> rep (bt_nodes b') t' nx \<and>
     root_of t' = root_of t \<and> first t' = first t \<and> entries_of t' = ins key v (entries_of t) \<and>
     bt_root b' = bt_root b \<and> bt_size b' = bt_size b + of_bool (key \<notin> fst ` set (entries_of t))"

definition place_ok :: "u32 \<Rightarrow> entries \<Rightarrow> btheap \<Rightarrow> entries \<Rightarrow> fdb_btree_insert_t \<Rightarrow> bool" where
  "place_ok key old h new r \<longleftrightarrow> bi_inserted r = (key \<notin> fst ` set old) \<and>
     (\<exists>q i l. bi_place r = Some (q, i) \<and> h q = Some (E_LEAF l) \<and> i < 9 \<and>
        lf_keys l ! i = key \<and> lf_leafs l ! i = lookup new key \<and> lookup new key \<noteq> NULL)"

lemma lookup_ins:
  assumes "ascending xs"
  shows "lookup (ins key v xs) key = (if key \<in> fst ` set xs then lookup xs key else v)"
proof (cases "map_of xs key")
  case None
  then have "key \<notin> fst ` set xs" by (simp only: map_of_eq_None_iff not_False_eq_True)
  then show ?thesis using map_of_ins [OF assms, of key v] None by (simp add: lookup_def)
next
  case (Some w)
  then have "key \<in> fst ` set xs" by (metis map_of_eq_None_iff option.distinct(1))
  then show ?thesis using map_of_ins [OF assms, of key v] Some by (simp add: lookup_def)
qed

lemma place_ok_sides:
  assumes "within a xs l" "within u zs b" "l \<le> unat key" "unat key < u" "place_ok key ys h ys' r"
  shows "place_ok key (xs @ ys @ zs) h (xs @ ys' @ zs) r"
  using keys_sides [OF assms(1-4), of ys] lookup_sides [OF assms(1-4), of ys'] assms(5)
  by (simp only: place_ok_def)

text \<open>The leaf at the end of the descent.\<close>

lemma insert_leaf_spec:
  assumes ok: "leaf_ok lo kvs hi" "length kvs \<le> 8" and key: "lo \<le> unat key" "unat key < hi" "v \<noteq> NULL"
    and r: "rep (bt_nodes b) (TL p kvs) nx"
  shows "\<exists>res b'. fdb_btree_insert_node (Suc fuel) (b, st) p key v = Inr (res, (b', st)) \<and>
    inserted key v b (TL p kvs) nx b' (TL p (ins key v kvs)) \<and>
    bt_node_allocator b' = bt_node_allocator b \<and> dom (bt_nodes b') = dom (bt_nodes b) \<and>
    place_ok key kvs (bt_nodes b') (ins key v kvs) res"
proof -
  obtain l where l: "p \<noteq> NULL" "bt_nodes b p = Some (E_LEAF l)" "leaf_rep l kvs nx" using r by auto
  have asc: "ascending kvs" and nn: "\<forall>e\<in>set kvs. snd e \<noteq> NULL" using ok(1) by (auto simp: leaf_ok_def)
  define i where "i = fdb_btree_next_leaf l key"
  note sc = leaf_scan [OF l(3) ok(1) i_def]
  have i8: "i < 9" "i \<le> 8" using sc(2) ok(2) by simp_all
  have len: "length (lf_keys l) = 9" "length (lf_leafs l) = 9" using l(3) by (auto simp: leaf_rep_def)
  note slot = leaf_rep_slot [OF l(3) sc(2) i8(1)]
  have mem: "key \<in> fst ` set kvs \<longleftrightarrow> i < length kvs \<and> fst (kvs ! i) = key"
    using sc(3) key_in_dropWhile [OF asc, of key] by simp
  have found: "lf_keys l ! i \<noteq> key \<or> lf_leafs l ! i = NULL \<longleftrightarrow> key \<notin> fst ` set kvs"
    using slot mem nn by (cases "i < length kvs") auto
  show ?thesis
  proof (cases "key \<in> fst ` set kvs")
    case True
    let ?res = "\<lparr>bi_inserted = False, bi_place = Some (p, i)\<rparr>"
    have "fdb_btree_insert_node (Suc fuel) (b, st) p key v = Inr (?res, (b, st))"
      using l(1,2) found True len i8 by (simp add: at_simps i_def [symmetric] Let_def)
    moreover have ins: "ins key v kvs = kvs"
      using ins_split [OF asc, of key v] key_in_dropWhile [OF asc, of key] True by (simp add: Let_def)
    moreover have "inserted key v b (TL p kvs) nx b (TL p kvs)"
      using r True ins l(2) by (auto simp: inserted_def upd_def)
    moreover have "lookup kvs key = lf_leafs l ! i"
      using lookup_dropWhile [OF asc, of key] key_in_dropWhile [OF asc, of key] True sc(4) mem slot by (simp add: Let_def)
    then have "place_ok key kvs (bt_nodes b) kvs ?res"
      using True l(2) i8 slot mem nn by (auto simp: place_ok_def)
    ultimately show ?thesis by auto
  next
    case False
    obtain l' where l': "fdb_btree_shift_insert_leaf l i key = Inr l'"
      "leaf_rep (l'\<lparr>lf_leafs := (lf_leafs l')[i := v]\<rparr>) (take i kvs @ (key, v) # drop i kvs) nx"
      using shift_insert_leaf_rep [OF l(3) ok(2) sc(2)] by blast
    let ?l = "l'\<lparr>lf_leafs := (lf_leafs l')[i := v]\<rparr>"
    have td: "takeWhile (\<lambda>e. fst e < key) kvs = take i kvs" "dropWhile (\<lambda>e. fst e < key) kvs = drop i kvs"
      unfolding sc(1) by (rule takeWhile_eq_take, rule dropWhile_eq_drop)
    have ins: "take i kvs @ (key, v) # drop i kvs = ins key v kvs"
      using ins_split [OF asc, of key v] key_in_dropWhile [OF asc, of key] False
      unfolding td Let_def by metis
    let ?b = "b\<lparr>bt_nodes := (bt_nodes b)(p \<mapsto> E_LEAF ?l), bt_size := bt_size b + 1\<rparr>"
    let ?res = "\<lparr>bi_inserted = True, bi_place = Some (p, i)\<rparr>"
    have "fdb_btree_insert_node (Suc fuel) (b, st) p key v = Inr (?res, (?b, st))"
      using l(1,2) found False len i8 l'(1) by (simp add: at_simps i_def [symmetric] Let_def write_node_def)
    moreover have "inserted key v b (TL p kvs) nx ?b (TL p (ins key v kvs))"
      using l'(2) l(1,2) False ins by (auto simp: inserted_def upd_def)
    moreover have "place_ok key kvs (bt_nodes ?b) (ins key v kvs) ?res"
    proof -
      have "lf_keys ?l ! i = key" "lf_leafs ?l ! i = v"
        using leaf_rep_slot [OF l'(2), of i] i8 sc(2) by (simp_all add: nth_append)
      moreover have "lookup (ins key v kvs) key = v" using lookup_ins [OF asc] False by simp
      ultimately show ?thesis using False i8 key(3) by (simp add: place_ok_def)
    qed
    moreover have "dom (bt_nodes ?b) = dom (bt_nodes b)" using l(2) by auto
    ultimately show ?thesis by fastforce
  qed
qed

fun kids :: "tree \<Rightarrow> tree list" where
  "kids (TL p kvs) = []"
| "kids (TN p ts ks) = ts"

lemma refilled_child:
  assumes "refilled ts (as @ c # bs)" "filled c \<longrightarrow> filled c'" "(\<exists>q kvs. c = TL q kvs) \<longrightarrow> (\<exists>q kvs. c' = TL q kvs)"
  shows "refilled ts (as @ c' # bs)"
  using assms by (auto simp: refilled_def rfill_def append_eq_Cons_conv)

lemma tree_ok_0_leaf: "tree_ok 0 lo t hi \<Longrightarrow> \<exists>q kvs. t = TL q kvs"
  by (cases t) auto

text \<open>Putting the child back: the whole node after the insertion into its child \<open>c\<close>.\<close>

lemma inserted_node:
  assumes rd: "ready n lo key hi nx h0 t (bt_nodes b) p as c bs ks"
    and pl: "placed lo key as ks hi xs l u ys"
    and i: "inserted key v b c (firsts bs nx) b' c'" and ok: "tree_ok n l c' u"
    and pk: "place_ok key (entries_of c) (bt_nodes b') (entries_of c') res"
    and b0: "h0 = bt_nodes b0" "bt_root b = bt_root b0" "bt_size b = bt_size b0" and t: "root_of t = p"
  shows "inserted key v b0 t nx b' (TN p (as @ c' # bs) ks) \<and>
    tree_ok (Suc n) lo (TN p (as @ c' # bs) ks) hi \<and>
    place_ok key (entries_of t) (bt_nodes b') (entries_of (TN p (as @ c' # bs) ks)) res"
proof -
  let ?t1 = "TN p (as @ c # bs) ks" and ?t2 = "TN p (as @ c' # bs) ks"
  have r: "tree_ok (Suc n) lo ?t1 hi" "rep (bt_nodes b) ?t1 nx" "upd h0 t (bt_nodes b) ?t1"
    "entries_of ?t1 = entries_of t" "first ?t1 = first t"
    using rd by (auto simp: ready_def Let_def)
  have d: "distinct (addrs ?t1)" using r(3) by (simp add: upd_def)
  have ci: "upd (bt_nodes b) c (bt_nodes b') c'" "rep (bt_nodes b') c' (firsts bs nx)" "root_of c' = root_of c"
    "first c' = first c" "entries_of c' = ins key v (entries_of c)" "bt_root b' = bt_root b"
    "bt_size b' = bt_size b + of_bool (key \<notin> fst ` set (entries_of c))"
    using i by (auto simp: inserted_def)
  have bl: "lo # map unat ks @ [hi] = xs @ l # u # ys" "length as = length xs" "l \<le> unat key" "unat key < u"
    using pl by (auto simp: placed_def)
  have "lpairs (tree_ok n) (xs @ l # u # ys) (as @ c # bs)" using r(1) bl(1) by simp
  note sd = lpairs_sides [OF this bl(2)]
  note W = sd(5,6) bl(3,4)
  have e1: "entries_of t = concat (map entries_of as) @ entries_of c @ concat (map entries_of bs)"
    using r(4) by simp
  have e2: "entries_of ?t2 = concat (map entries_of as) @ entries_of c' @ concat (map entries_of bs)" by simp
  have "upd h0 t (bt_nodes b') ?t2"
    by (rule upd_trans [OF r(3) upd_child [OF ci(1) d rep_dom(1) [OF r(2)]]])
  moreover have "rep (bt_nodes b') ?t2 nx" by (rule rep_child [OF r(2) ci(1) d ci(3,4,2)])
  moreover have "first ?t2 = first t" using r(5) ci(4) by (cases as) auto
  moreover have "entries_of ?t2 = ins key v (entries_of t)"
    unfolding e1 e2 ins_sides [OF W] ci(5) ..
  moreover have "bt_size b' = bt_size b0 + of_bool (key \<notin> fst ` set (entries_of t))"
    unfolding e1 keys_sides [OF W] using ci(7) b0(3) by simp
  ultimately have "inserted key v b0 t nx b' ?t2"
    using b0 ci(6) t by (simp add: inserted_def)
  moreover have "tree_ok (Suc n) lo ?t2 hi" by (rule tree_ok_child [OF r(1) bl(1,2) ok])
  moreover have "place_ok key (entries_of t) (bt_nodes b') (entries_of ?t2) res"
    unfolding e1 e2 by (rule place_ok_sides [OF W pk])
  ultimately show ?thesis by blast
qed

context node_memory
begin

lemma insert_node_spec:
  assumes "tree_ok n lo t hi" "nonfull t" "rep (bt_nodes b) t nx" "distinct (addrs t)"
    "lo \<le> unat key" "unat key < hi" "v \<noteq> NULL" "n < fuel" "mem (b, st) (n + m)"
  shows "\<exists>res b' st' t'. fdb_btree_insert_node fuel (b, st) (root_of t) key v = Inr (res, (b', st')) \<and>
    inserted key v b t nx b' t' \<and> tree_ok n lo t' hi \<and>
    place_ok key (entries_of t) (bt_nodes b') (entries_of t') res \<and>
    (filled t \<longrightarrow> filled t') \<and> mem (b', st') m"
  using assms
proof (induction n arbitrary: lo t hi nx b st fuel)
  case 0
  obtain p kvs where t: "t = TL p kvs" and ok: "leaf_ok lo kvs hi" using 0 by (cases t) auto
  obtain f where f: "fuel = Suc f" using 0 by (cases fuel) auto
  have l8: "length kvs \<le> 8" using 0 t by simp
  obtain res b' where i: "fdb_btree_insert_node (Suc f) (b, st) p key v = Inr (res, (b', st))"
    "inserted key v b (TL p kvs) nx b' (TL p (ins key v kvs))"
    "bt_node_allocator b' = bt_node_allocator b" "dom (bt_nodes b') = dom (bt_nodes b)"
    "place_ok key kvs (bt_nodes b') (ins key v kvs) res"
    using insert_leaf_spec [OF ok l8 0(5-7) 0(3) [unfolded t]] by blast
  have "mem (b', st) m" using mem_cong [OF _ i(4,3)] 0(9) by simp
  moreover have "tree_ok 0 lo (TL p (ins key v kvs)) hi" using leaf_ok_ins [OF ok l8 0(5-7)] by simp
  moreover have "filled t \<longrightarrow> filled (TL p (ins key v kvs))"
    using length_ins [of kvs key v] ok t by (auto simp: leaf_ok_def)
  ultimately show ?case using i(1,2,5) t f
    by (intro exI [of _ res] exI [of _ b'] exI [of _ st] exI [of _ "TL p (ins key v kvs)"]) simp
next
  case (Suc n)
  obtain p ts ks where t: "t = TN p ts ks" using Suc.prems(1) by (cases t) auto
  obtain f where f: "fuel = Suc f" "n < f" using Suc.prems(8) by (cases fuel) auto
  have m: "mem (b, st) (Suc (n + m))" using Suc.prems(9) by simp
  have l9: "length ts \<le> 9" using Suc.prems(2) t by simp
  obtain as c bs ks' b1 st1 where c: "insert_child (b, st) p key = Inr (root_of c, (b1, st1))"
    "ready n lo key hi nx (bt_nodes b) (TN p ts ks) (bt_nodes b1) p as c bs ks'"
    "refilled ts (as @ c # bs)" "mem (b1, st1) (n + m)" "bt_root b1 = bt_root b" "bt_size b1 = bt_size b"
    using insert_child_spec [OF Suc.prems(1) [unfolded t] l9 Suc.prems(3,4) [unfolded t] Suc.prems(5,6) m] by blast
  obtain xs l u ys where pl: "placed lo key as ks' hi xs l u ys" using c(2) by (auto simp: ready_def Let_def)
  have r1: "tree_ok (Suc n) lo (TN p (as @ c # bs) ks') hi" "rep (bt_nodes b1) (TN p (as @ c # bs) ks') nx"
    "distinct (addrs (TN p (as @ c # bs) ks'))" "nonfull c"
    using c(2) by (auto simp: ready_def Let_def upd_def)
  have cc: "tree_ok n l c u" "l \<le> unat key" "unat key < u"
    using r1(1) pl by (auto simp: placed_def lpairs_append)
  have crep: "rep (bt_nodes b1) c (firsts bs nx)" "distinct (addrs c)" using r1(2,3) by (auto simp: reps_append)
  obtain res b2 st2 c' where rec: "fdb_btree_insert_node f (b1, st1) (root_of c) key v = Inr (res, (b2, st2))"
    "inserted key v b1 c (firsts bs nx) b2 c'" "tree_ok n l c' u"
    "place_ok key (entries_of c) (bt_nodes b2) (entries_of c') res" "filled c \<longrightarrow> filled c'" "mem (b2, st2) m"
    using Suc.IH [OF cc(1) r1(4) crep cc(2,3) Suc.prems(7) f(2) c(4)] by blast
  obtain i where i: "p \<noteq> NULL" "bt_nodes b p = Some (E_INTERNAL i)" using Suc.prems(3) t by auto
  have run: "fdb_btree_insert_node fuel (b, st) (root_of t) key v = Inr (res, (b2, st2))"
    using i f(1) t c(1) rec(1) by (simp add: at_simps)
  have "(\<exists>q kvs. c = TL q kvs) \<longrightarrow> (\<exists>q kvs. c' = TL q kvs)"
  proof
    assume "\<exists>q kvs. c = TL q kvs"
    then have "n = 0" using cc(1) by auto
    then show "\<exists>q kvs. c' = TL q kvs" using rec(3) tree_ok_0_leaf by blast
  qed
  note rf = refilled_child [OF c(3) rec(5) this]
  have "filled t \<longrightarrow> filled (TN p (as @ c' # bs) ks')"
    using rf t by (auto simp: refilled_def)
  then show ?case
    using run rec(6) inserted_node [OF c(2) pl rec(2-4) refl c(5,6)] t
    by (intro exI [of _ res] exI [of _ b2] exI [of _ st2] exI [of _ "TN p (as @ c' # bs) ks'"]) simp
qed

end

section \<open>The whole tree\<close>

text \<open>\<open>btree_holds b xs\<close>: the tree \<open>b\<close> owns exactly the nodes of a well-formed tree whose
  entries, in the order of the leaf chain, are \<open>xs\<close>.\<close>

definition btree_tree :: "'st fdb_btree_t \<Rightarrow> nat \<Rightarrow> tree \<Rightarrow> bool" where
  "btree_tree b n t \<longleftrightarrow> root_of t = bt_root b \<and> rep (bt_nodes b) t NULL \<and> distinct (addrs t) \<and>
     dom (bt_nodes b) = set (addrs t) \<and> bt_size b = of_nat (length (entries_of t)) \<and>
     ((\<exists>p. t = TN p [] []) \<and> n = 0 \<or> tree_ok (Suc n) 0 t (2 ^ 32) \<and> rfill (kids t))"

definition btree_holds :: "'st fdb_btree_t \<Rightarrow> entries \<Rightarrow> bool" where
  "btree_holds b xs \<longleftrightarrow> (\<exists>n t. btree_tree b n t \<and> entries_of t = xs)"

text \<open>The nodes one insertion may create: one per level, and two more at the root.\<close>

definition BT_NODES :: nat where "BT_NODES = 16"

lemma rfill_height:
  assumes "tree_ok (Suc n) lo t hi" "rfill (kids t)" shows "n \<le> 13"
proof -
  obtain p ts ks where t: "t = TN p ts ks" using assms(1) by (cases t) auto
  then have ts: "length ts = Suc (length ks)" "lpairs (tree_ok n) (lo # map unat ks @ [hi]) ts"
    using assms(1) by auto
  then obtain c where c: "c \<in> set ts" by (cases ts) auto
  obtain l u where ok: "tree_ok n l c u" using lpairs_ex [OF ts(2) c] by blast
  show ?thesis
  proof (cases "filled c")
    case True
    then show ?thesis using tree_ok_height [OF ok] by simp
  next
    case False
    then obtain q kvs where "ts = [TL q kvs]" using assms(2) t c by (auto simp: rfill_def)
    then show ?thesis using ok c by auto
  qed
qed

context node_memory
begin

lemma insert_finish:
  assumes rd: "ready n 0 key (2 ^ 32) NULL h0 t0 (bt_nodes b1) p as c bs ks"
    and rf: "rfill (as @ c # bs)" and m: "mem (b1, st1) (n + m)" and v: "v \<noteq> NULL" and n: "n \<le> 13"
  shows "\<exists>res b2 st2 c'. fdb_btree_insert_node BT_FUEL (b1, st1) (root_of c) key v = Inr (res, (b2, st2)) \<and>
    inserted key v b1 (TN p (as @ c # bs) ks) NULL b2 (TN p (as @ c' # bs) ks) \<and>
    tree_ok (Suc n) 0 (TN p (as @ c' # bs) ks) (2 ^ 32) \<and> rfill (as @ c' # bs) \<and>
    place_ok key (entries_of t0) (bt_nodes b2) (entries_of (TN p (as @ c' # bs) ks)) res \<and> mem (b2, st2) m"
proof -
  obtain xs l u ys where pl: "placed 0 key as ks (2 ^ 32) xs l u ys" using rd by (auto simp: ready_def Let_def)
  let ?t = "TN p (as @ c # bs) ks"
  have r1: "tree_ok (Suc n) 0 ?t (2 ^ 32)" "rep (bt_nodes b1) ?t NULL" "distinct (addrs ?t)" "nonfull c"
    "entries_of ?t = entries_of t0"
    using rd by (auto simp: ready_def Let_def upd_def)
  have cc: "tree_ok n l c u" "l \<le> unat key" "unat key < u"
    using r1(1) pl by (auto simp: placed_def lpairs_append)
  have crep: "rep (bt_nodes b1) c (firsts bs NULL)" "distinct (addrs c)" using r1(2,3) by (auto simp: reps_append)
  have fuel: "n < BT_FUEL" using n by (simp add: BT_FUEL_def)
  obtain res b2 st2 c' where rec: "fdb_btree_insert_node BT_FUEL (b1, st1) (root_of c) key v = Inr (res, (b2, st2))"
    "inserted key v b1 c (firsts bs NULL) b2 c'" "tree_ok n l c' u"
    "place_ok key (entries_of c) (bt_nodes b2) (entries_of c') res" "filled c \<longrightarrow> filled c'" "mem (b2, st2) m"
    using insert_node_spec [OF cc(1) r1(4) crep cc(2,3) v fuel m] by blast
  have "(\<exists>q kvs. c = TL q kvs) \<longrightarrow> (\<exists>q kvs. c' = TL q kvs)"
  proof
    assume "\<exists>q kvs. c = TL q kvs"
    then have "n = 0" using cc(1) by auto
    then show "\<exists>q kvs. c' = TL q kvs" using rec(3) tree_ok_0_leaf by blast
  qed
  from refilled_child [OF refilled_refl rec(5) this] rf have rf': "rfill (as @ c' # bs)"
    by (simp add: refilled_def)
  have rd': "ready n 0 key (2 ^ 32) NULL (bt_nodes b1) ?t (bt_nodes b1) p as c bs ks"
    using rd upd_refl [OF r1(3) rep_dom(1) [OF r1(2)]] by (auto simp: ready_def Let_def)
  show ?thesis
    using rec(1,6) rf' inserted_node [OF rd' pl rec(2-4) refl refl refl] r1(5)
    by (intro exI [of _ res] exI [of _ b2] exI [of _ st2] exI [of _ c']) simp
qed

lemma inserted_tree:
  assumes ins: "inserted key v b1 t1 NULL b2 t2" and b1: "dom (bt_nodes b1) = set (addrs t1)"
    "bt_size b1 = of_nat (length (entries_of t1))" "root_of t1 = bt_root b1"
    and ok: "tree_ok (Suc n) 0 t1 (2 ^ 32)" "tree_ok (Suc n) 0 t2 (2 ^ 32)" "rfill (kids t2)"
  shows "btree_tree b2 n t2"
proof -
  have i: "upd (bt_nodes b1) t1 (bt_nodes b2) t2" "rep (bt_nodes b2) t2 NULL" "root_of t2 = root_of t1"
    "entries_of t2 = ins key v (entries_of t1)" "bt_root b2 = bt_root b1"
    "bt_size b2 = bt_size b1 + of_bool (key \<notin> fst ` set (entries_of t1))"
    using ins by (auto simp: inserted_def)
  have "dom (bt_nodes b2) = set (addrs t2)" "distinct (addrs t2)" using i(1) b1(1) by (auto simp: upd_def)
  moreover have "ascending (entries_of t1)" using tree_ok_within [OF ok(1)] by (simp add: within_def)
  from length_ins [OF this, of key v] have "bt_size b2 = of_nat (length (entries_of t2))"
    using i(4,6) b1(2) by (cases "key \<in> fst ` set (entries_of t1)") simp_all
  ultimately show ?thesis using i b1(3) ok by (simp add: btree_tree_def)
qed

end

context node_memory
begin

lemma descend_nonfull:
  assumes b: "root_of t = bt_root b" "rep (bt_nodes b) t NULL" "distinct (addrs t)"
      "dom (bt_nodes b) = set (addrs t)" "bt_size b = of_nat (length (entries_of t))"
    and ok: "tree_ok (Suc n) 0 t (2 ^ 32)" "rfill (kids t)" "nonfull t" "n \<le> 13"
    and m: "mem (b, st) (Suc (n + m))" and v: "v \<noteq> NULL"
  shows "\<exists>res b' st' t'. descend (b, st) (bt_root b) key v = Inr (res, (b', st')) \<and>
    btree_tree b' n t' \<and> entries_of t' = ins key v (entries_of t) \<and>
    place_ok key (entries_of t) (bt_nodes b') (entries_of t') res \<and> mem (b', st') m"
proof -
  obtain p ts ks where t: "t = TN p ts ks" using ok(1) by (cases t) auto
  have p: "bt_root b = p" using b(1) t by simp
  have key: "0 \<le> unat key" "unat key < 2 ^ 32" using unat_lt_2p [of key] by simp_all
  have l9: "length ts \<le> 9" using ok(3) t by simp
  obtain as c bs ks' b1 st1 where c: "insert_child (b, st) p key = Inr (root_of c, (b1, st1))"
    "ready n 0 key (2 ^ 32) NULL (bt_nodes b) t (bt_nodes b1) p as c bs ks'"
    "refilled ts (as @ c # bs)" "mem (b1, st1) (n + m)" "bt_root b1 = bt_root b" "bt_size b1 = bt_size b"
    using insert_child_spec [OF ok(1) [unfolded t] l9 b(2,3) [unfolded t] key m] t by blast
  have rf: "rfill (as @ c # bs)" using c(3) ok(2) t by (simp add: refilled_def)
  let ?t1 = "TN p (as @ c # bs) ks'"
  obtain res b2 st2 c' where f: "fdb_btree_insert_node BT_FUEL (b1, st1) (root_of c) key v = Inr (res, (b2, st2))"
    "inserted key v b1 ?t1 NULL b2 (TN p (as @ c' # bs) ks')"
    "tree_ok (Suc n) 0 (TN p (as @ c' # bs) ks') (2 ^ 32)" "rfill (as @ c' # bs)"
    "place_ok key (entries_of t) (bt_nodes b2) (entries_of (TN p (as @ c' # bs) ks')) res" "mem (b2, st2) m"
    using insert_finish [OF c(2) rf c(4) v ok(4)] by blast
  have r1: "tree_ok (Suc n) 0 ?t1 (2 ^ 32)" "upd (bt_nodes b) t (bt_nodes b1) ?t1" "entries_of ?t1 = entries_of t"
    using c(2) by (auto simp: ready_def Let_def)
  have d1: "dom (bt_nodes b1) = set (addrs ?t1)" using r1(2) b(4) by (auto simp: upd_def)
  have "btree_tree b2 n (TN p (as @ c' # bs) ks')"
    by (rule inserted_tree [OF f(2) d1 _ _ r1(1) f(3)]) (use c(5,6) b(5) r1(3) p f(4) in simp_all)
  moreover have "entries_of (TN p (as @ c' # bs) ks') = ins key v (entries_of t)"
    using f(2) r1(3) by (simp add: inserted_def)
  moreover have "descend (b, st) (bt_root b) key v = Inr (res, (b2, st2))"
    using c(1) f(1) p by (simp add: descend_def)
  ultimately show ?thesis using f(5,6) by blast
qed

lemma descend_empty:
  assumes b: "root_of t = bt_root b" "rep (bt_nodes b) t NULL" "dom (bt_nodes b) = set (addrs t)"
      "bt_size b = 0" "t = TN p [] []"
    and m: "mem (b, st) (Suc m)" and v: "v \<noteq> NULL"
  shows "\<exists>res b' st' t'. descend (b, st) (bt_root b) key v = Inr (res, (b', st')) \<and>
    btree_tree b' 0 t' \<and> entries_of t' = ins key v (entries_of t) \<and>
    place_ok key (entries_of t) (bt_nodes b') (entries_of t') res \<and> mem (b', st') m"
proof -
  have p: "bt_root b = p" "p \<noteq> NULL" "dom (bt_nodes b) = {p}" using b by simp_all
  obtain i where i: "bt_nodes b p = Some (E_INTERNAL i)" "internal_rep i [] []" using b by auto
  have ch: "in_children i = replicate 10 NULL" "in_nchildren i = 0" "length (in_keys i) = 9"
    using i(2) by (auto simp: internal_rep_def)
  have scan: "fdb_btree_next_internal i key = 0"
    unfolding fdb_btree_next_internal_def by (subst next_internal_from.simps) (simp add: ch btree_consts)
  obtain s b1 st1 where c: "create_node (E_LEAF zero_leaf) (b, st) = Inr (s, (b1, st1))" "s \<noteq> NULL"
    "s \<notin> dom (bt_nodes b)" "bt_nodes b1 = (bt_nodes b)(s \<mapsto> E_LEAF zero_leaf)" "bt_root b1 = bt_root b" "bt_size b1 = bt_size b"
    "mem (b1, st1) m"
    using create [OF m, of "E_LEAF zero_leaf"] by blast
  have ne: "s \<noteq> p" using c(3) p(3) by simp
  let ?i = "i\<lparr>in_children := (in_children i)[0 := s], in_nchildren := in_nchildren i + 1\<rparr>"
  let ?b = "fst (write_node (b1, st1) p (E_INTERNAL ?i))"
  let ?t1 = "TN p ([] @ TL s [] # []) []"
  have rep1: "rep (bt_nodes ?b) ?t1 NULL"
    using p(2) c(2,4) ne leaf_rep_zero ch by (auto simp: internal_rep_def replicate_zeros)
  have d1: "distinct (addrs ?t1)" "dom (bt_nodes ?b) = set (addrs ?t1)" using ne c(4) p(3) by auto
  have ok1: "tree_ok (Suc 0) 0 ?t1 (2 ^ 32)" by (simp add: leaf_ok_def)
  have pl: "placed 0 key [] [] (2 ^ 32) [] 0 (2 ^ 32) []" using unat_lt_2p [of key] by (simp add: placed_def)
  have m1: "mem (?b, st1) m" by (rule mem_cong [OF c(7)]) (use c(4) i(1) in auto)
  have rd: "ready 0 0 key (2 ^ 32) NULL (bt_nodes ?b) ?t1 (bt_nodes ?b) p [] (TL s []) [] []"
    using ok1 rep1 upd_refl [OF d1(1)] d1(2) pl by (auto simp: ready_def Let_def)
  have "fdb_btree_split_child_full (?b, st1) p 0 key = Inr (s, (?b, st1))"
    using p(2) c(2,4) ne ch by (simp add: fdb_btree_split_child_full_def at_simps zero_leaf_def btree_consts)
  then have child: "insert_child (b, st) p key = Inr (s, (?b, st1))"
    using p(2) i(1) scan ch c(1) by (simp add: insert_child_def at_simps fdb_btree_create_leaf_def write_node_def)
  have "rfill ([] @ TL s [] # [])" by (simp add: rfill_def)
  moreover have "mem (?b, st1) (0 + m)" using m1 by simp
  ultimately obtain res b2 st2 c' where f: "fdb_btree_insert_node BT_FUEL (?b, st1) (root_of (TL s [])) key v = Inr (res, (b2, st2))"
    "inserted key v ?b ?t1 NULL b2 (TN p ([] @ c' # []) [])"
    "tree_ok (Suc 0) 0 (TN p ([] @ c' # []) []) (2 ^ 32)" "rfill ([] @ c' # [])"
    "place_ok key (entries_of ?t1) (bt_nodes b2) (entries_of (TN p ([] @ c' # []) [])) res" "mem (b2, st2) m"
    using insert_finish [OF rd _ _ v, of st1 m] by auto
  have "btree_tree b2 0 (TN p ([] @ c' # []) [])"
    by (rule inserted_tree [OF f(2) d1(2) _ _ ok1 f(3)]) (use c(5,6) b(4) p f(4) in simp_all)
  moreover have "entries_of (TN p ([] @ c' # []) []) = ins key v (entries_of t)"
    using f(2) b(5) by (simp add: inserted_def)
  moreover have "descend (b, st) (bt_root b) key v = Inr (res, (b2, st2))"
    using child f(1) p by (simp add: descend_def)
  ultimately show ?thesis using f(5,6) b(5) by auto
qed

text \<open>Splitting a full root puts a new root above its two halves.\<close>

lemma split_root_spec:
  assumes b: "rep (bt_nodes b) (TN p ts ks) NULL" "distinct (addrs (TN p ts ks))"
      "dom (bt_nodes b) = set (addrs (TN p ts ks))"
    and ok: "tree_ok (Suc n) 0 (TN p ts ks) (2 ^ 32)" "rfill ts" "length ts = 10"
    and m: "mem (b, st) (Suc (Suc m))"
  shows "\<exists>r b' st' t'. split_root (b, st) p = Inr (r, (b', st')) \<and> bt_root b' = r \<and> root_of t' = r \<and>
    rep (bt_nodes b') t' NULL \<and> distinct (addrs t') \<and> dom (bt_nodes b') = set (addrs t') \<and>
    entries_of t' = entries_of (TN p ts ks) \<and> tree_ok (Suc (Suc n)) 0 t' (2 ^ 32) \<and> rfill (kids t') \<and>
    nonfull t' \<and> bt_size b' = bt_size b \<and> mem (b', st') m"
proof -
  let ?h = "bt_nodes b" and ?k = "ks ! 4"
  have lk: "length ks = 9" using ok(1,3) by auto
  obtain i where i: "p \<noteq> NULL" "?h p = Some (E_INTERNAL i)" "internal_rep i (map root_of ts) ks" "reps ?h ts NULL"
    using b(1) by auto
  obtain s b1 st1 where c: "create_node (E_INTERNAL zero_internal) (b, st) = Inr (s, (b1, st1))" "s \<noteq> NULL"
    "s \<notin> dom ?h" "bt_nodes b1 = ?h(s \<mapsto> E_INTERNAL zero_internal)" "bt_root b1 = bt_root b" "bt_size b1 = bt_size b"
    "mem (b1, st1) (Suc m)"
    using create [OF m, of "E_INTERNAL zero_internal"] by blast
  obtain s' l' where sp: "split_internal_nodes zero_internal i = (s', l')" by fastforce
  have "length (map root_of ts) = 10" using ok(3) by simp
  note sr = split_internal_rep [OF i(3) this lk sp]
  have ne: "s \<noteq> p" using c(3) i(2) by auto
  define b2 where "b2 = fst (write_node (write_node (b1, st1) p (E_INTERNAL l')) s (E_INTERNAL s'))"
  have n2: "bt_nodes b2 = ?h(p \<mapsto> E_INTERNAL l', s \<mapsto> E_INTERNAL s')" "bt_size b2 = bt_size b"
    "bt_node_allocator b2 = bt_node_allocator b1"
    using ne by (simp_all add: b2_def c fun_upd_twist)
  have m2: "mem (b2, st1) (Suc m)" by (rule mem_cong [OF c(7)]) (use n2 c(4) i(2) in auto)
  obtain r b3 st3 where e: "create_node (E_INTERNAL zero_internal) (b2, st1) = Inr (r, (b3, st3))" "r \<noteq> NULL"
    "r \<notin> dom (bt_nodes b2)" "bt_nodes b3 = (bt_nodes b2)(r \<mapsto> E_INTERNAL zero_internal)" "bt_size b3 = bt_size b2"
    "mem (b3, st3) m"
    using create [OF m2, of "E_INTERNAL zero_internal"] by blast
  let ?nr = "zero_internal\<lparr>in_children := (in_children zero_internal)[0 := p, 1 := s],
            in_keys := (in_keys zero_internal)[0 := ?k], in_nchildren := 2\<rparr>"
  let ?b = "(fst (write_node (b3, st3) r (E_INTERNAL ?nr)))\<lparr>bt_root := r\<rparr>"
  let ?c1 = "TN p (take 5 ts) (take 4 ks)" and ?c2 = "TN s (drop 5 ts) (drop 5 ks)"
  let ?t = "TN r [?c1, ?c2] [?k]"
  have run: "split_root (b, st) p = Inr (r, (?b, st3))"
    using i(1,2) c(1,2,4) ne sp sr(3) e(1)
    by (simp add: split_root_def fdb_btree_split_internal_def fdb_btree_create_internal_def at_simps
        btree_consts b2_def write_node_def)
  have ner: "r \<noteq> p" "r \<noteq> s" using e(3) n2(1) by auto
  have nodes: "bt_nodes ?b = ?h(p \<mapsto> E_INTERNAL l', s \<mapsto> E_INTERNAL s', r \<mapsto> E_INTERNAL ?nr)"
    using n2(1) e(4) by simp
  have pts: "bt_nodes ?b p = Some (E_INTERNAL l')" "bt_nodes ?b s = Some (E_INTERNAL s')" "bt_nodes ?b r = Some (E_INTERNAL ?nr)"
    unfolding nodes using ne ner by simp_all
  have rd: "r \<notin> dom ?h" using e(3) n2(1) by auto
  have cdom: "(\<Union>t\<in>set ts. set (addrs t)) \<subseteq> dom ?h" by (rule rep_dom(2) [OF i(4)])
  have frame: "reps (bt_nodes ?b) us x = reps ?h us x" if "set us \<subseteq> set ts" for us x
  proof (rule rep_frame(2))
    fix q t assume "t \<in> set us" "q \<in> set (addrs t)"
    then have "q \<in> dom ?h" "q \<in> set (concat (map addrs ts))" using that cdom by auto
    moreover from this have "q \<noteq> p" using b(2) by auto
    ultimately show "bt_nodes ?b q = ?h q" using c(3) rd unfolding nodes by auto
  qed
  have two: "ts = take 5 ts @ drop 5 ts" "drop 5 ts \<noteq> []" using ok(3) by auto
  have "reps ?h (take 5 ts) (firsts (drop 5 ts) NULL) \<and> reps ?h (drop 5 ts) NULL"
    using i(4) by (subst (asm) two(1)) (simp only: reps_append)
  then have kr: "reps (bt_nodes ?b) (take 5 ts) (firsts (drop 5 ts) NULL)" "reps (bt_nodes ?b) (drop 5 ts) NULL"
    by (simp_all only: frame [OF set_take_subset] frame [OF set_drop_subset])
  have "internal_rep ?nr [p, s] [?k]"
    by (simp add: internal_rep_def zero_internal_def btree_consts eval_nat_numeral)
  with kr pts sr(1,2) i(1) c(2) e(2) have rep': "rep (bt_nodes ?b) ?t NULL"
    by (simp add: take_map drop_map two(2) firsts_append del: write_node_sel take_map [symmetric])
  have cat: "concat (map addrs (take 5 ts)) @ concat (map addrs (drop 5 ts)) = concat (map addrs ts)"
    by (simp flip: concat_append map_append)
  have dt: "distinct (addrs ?t) \<and> set (addrs ?t) = insert r (insert s (dom ?h))"
  proof -
    define A B where "A = concat (map addrs (take 5 ts))" and "B = concat (map addrs (drop 5 ts))"
    have ab: "A @ B = concat (map addrs ts)" by (simp only: A_def B_def cat)
    have "distinct (p # A @ B)" "dom ?h = set (p # A @ B)" using b(2,3) unfolding ab by simp_all
    moreover have "addrs ?t = r # (p # A) @ (s # B)" by (simp add: A_def B_def)
    ultimately show ?thesis using c(3) rd ner by auto
  qed
  have kids: "\<forall>t\<in>set ts. filled t" using ok(2,3) by (auto simp: rfill_def)
  have fl: "filled ?c1" "filled ?c2" using kids ok(3) by (auto dest: in_set_takeD in_set_dropD)
  note ks = internal_ok_split [OF ok(1,3) lk]
  have "tree_ok (Suc (Suc n)) 0 ?t (2 ^ 32)" using ks(1,2) ks(3) ks(4) by simp
  moreover have "entries_of ?t = entries_of (TN p ts ks)" by (simp flip: concat_append map_append)
  moreover have "rfill (kids ?t)" using fl by (simp add: rfill_def)
  moreover have "dom (bt_nodes ?b) = set (addrs ?t)" using dt i(2) unfolding nodes by auto
  moreover have "mem (?b, st3) m" by (rule mem_cong [OF e(6)]) (use e(4) in auto)
  moreover have "bt_size ?b = bt_size b" using e(5) n2(2) by simp
  ultimately show ?thesis using run rep' dt
    by (intro exI [of _ r] exI [of _ ?b] exI [of _ st3] exI [of _ ?t]) simp
qed

end

end
