(* ===== verification/BtreeMap.thy ===== *)
theory BtreeMap
  imports BtreeInsert
begin

text \<open>
  What the B+ tree promises: insertion, lookup, iteration, clearing and release over the sorted
  entries the tree holds, and that the pool allocator of the tree provides its nodes.
\<close>

section \<open>Insertion\<close>

lemma btree_tree_nchildren:
  assumes "btree_tree b n t"
  obtains p ts ks i where "t = TN p ts ks" "bt_root b = p" "p \<noteq> NULL" "bt_nodes b p = Some (E_INTERNAL i)"
    "in_nchildren i = of_nat (length ts)" "length ts \<le> 10" "internal_rep i (map root_of ts) ks"
proof -
  obtain p ts ks where t: "t = TN p ts ks" using assms by (cases t) (auto simp: btree_tree_def)
  moreover obtain i where "p \<noteq> NULL" "bt_nodes b p = Some (E_INTERNAL i)" "internal_rep i (map root_of ts) ks"
    using assms t by (auto simp: btree_tree_def)
  moreover have "length ts \<le> 10" using assms t by (auto simp: btree_tree_def)
  ultimately show ?thesis using that assms by (auto simp: btree_tree_def internal_rep_def)
qed

context node_memory
begin

lemma insert_spec:
  assumes h: "btree_holds b xs" and m: "mem (b, st) (BT_NODES + m)" and v: "v \<noteq> NULL"
  shows "\<exists>res b' st'. fdb_btree_insert (b, st) key v = Inr (res, (b', st')) \<and> btree_holds b' (ins key v xs) \<and>
    place_ok key xs (bt_nodes b') (ins key v xs) res \<and> mem (b', st') m"
proof -
  obtain n t where t: "btree_tree b n t" "entries_of t = xs" using h by (auto simp: btree_holds_def)
  obtain p ts ks i where p: "t = TN p ts ks" "bt_root b = p" "p \<noteq> NULL" "bt_nodes b p = Some (E_INTERNAL i)"
    "in_nchildren i = of_nat (length ts)" "length ts \<le> 10"
    using btree_tree_nchildren [OF t(1)] by metis
  have full: "in_nchildren i = of_nat FDB_BTREE_INTERNAL_MAX_ARITY \<longleftrightarrow> length ts = 10"
    using of_nat_u16_eq [OF p(6), of 10] p(5) by (simp add: btree_consts)
  have tr: "root_of t = bt_root b" "rep (bt_nodes b) t NULL" "distinct (addrs t)"
    "dom (bt_nodes b) = set (addrs t)" "bt_size b = of_nat (length (entries_of t))"
    using t(1) by (auto simp: btree_tree_def)
  have fin: "\<exists>res b' st'. fdb_btree_insert (b, st) key v = Inr (res, (b', st')) \<and> btree_holds b' (ins key v xs) \<and>
      place_ok key xs (bt_nodes b') (ins key v xs) res \<and> mem (b', st') m"
    if d: "\<exists>res b' st' t'. fdb_btree_insert (b, st) key v = Inr (res, (b', st')) \<and> btree_tree b' k t' \<and>
      entries_of t' = ins key v (entries_of t) \<and> place_ok key (entries_of t) (bt_nodes b') (entries_of t') res \<and>
      mem (b', st') m'" and k: "m \<le> m'" for k m'
  proof -
    obtain res b' st' t' where r: "fdb_btree_insert (b, st) key v = Inr (res, (b', st'))" "btree_tree b' k t'"
      "entries_of t' = ins key v xs" "place_ok key xs (bt_nodes b') (ins key v xs) res" "mem (b', st') m'"
      using d t(2) by auto
    then have "btree_holds b' (ins key v xs)" by (auto simp: btree_holds_def)
    then show ?thesis using r(1,4) mem_le [OF r(5) k] by blast
  qed
  consider "ts = []" | "ts \<noteq> []" "length ts \<le> 9" | "length ts = 10" using p(6) by linarith
  then show ?thesis
  proof cases
    case 1
    then have e: "ks = []" "n = 0" "xs = []" using t p(1) by (auto simp: btree_tree_def)
    have run: "fdb_btree_insert (b, st) key v = descend (b, st) (bt_root b) key v"
      using p full 1 by (simp add: fdb_btree_insert_def at_simps)
    have "mem (b, st) (Suc m)" by (rule mem_le [OF m]) (simp add: BT_NODES_def)
    from descend_empty [OF tr(1,2,4) _ _ this v, of p key] show ?thesis
      using fin [of 0 m] tr(5) p(1) 1 e t(2) unfolding run by simp
  next
    case 2
    then have ok: "tree_ok (Suc n) 0 t (2 ^ 32)" "rfill (kids t)" using t p(1) by (auto simp: btree_tree_def)
    have run: "fdb_btree_insert (b, st) key v = descend (b, st) (bt_root b) key v"
      using p full 2 by (simp add: fdb_btree_insert_def at_simps)
    have n: "n \<le> 13" by (rule rfill_height [OF ok])
    have nf: "nonfull t" using 2 p(1) by simp
    have "mem (b, st) (Suc (n + m))" by (rule mem_le [OF m]) (use n in \<open>simp add: BT_NODES_def\<close>)
    from descend_nonfull [OF tr ok nf n this v, of key] show ?thesis
      using fin [of n m] unfolding run by simp
  next
    case 3
    then have ok: "tree_ok (Suc n) 0 (TN p ts ks) (2 ^ 32)" "rfill ts" using t p(1) by (auto simp: btree_tree_def)
    have "mem (b, st) (Suc (Suc (14 + m)))" using m by (simp add: BT_NODES_def)
    from split_root_spec [OF tr(2,3,4) [unfolded p(1)] ok 3 this]
    obtain r b1 st1 t1 where s: "split_root (b, st) p = Inr (r, (b1, st1))" "bt_root b1 = r" "root_of t1 = bt_root b1"
      "rep (bt_nodes b1) t1 NULL" "distinct (addrs t1)" "dom (bt_nodes b1) = set (addrs t1)"
      "entries_of t1 = entries_of t" "tree_ok (Suc (Suc n)) 0 t1 (2 ^ 32)" "rfill (kids t1)" "nonfull t1"
      "bt_size b1 = bt_size b" "mem (b1, st1) (14 + m)"
      using p(1) by auto
    have n: "Suc n \<le> 13" by (rule rfill_height [OF s(8,9)])
    have run: "fdb_btree_insert (b, st) key v = descend (b1, st1) (bt_root b1) key v"
      using p full 3 s(1,2) by (simp add: fdb_btree_insert_def at_simps)
    have sz: "bt_size b1 = of_nat (length (entries_of t1))" using s(7,11) tr(5) by simp
    have "mem (b1, st1) (Suc (Suc n + m))" by (rule mem_le [OF s(12)]) (use n in simp)
    from descend_nonfull [OF s(3-6) sz s(8-10) n this v, of key] show ?thesis
      using fin [of "Suc n" m] s(7) unfolding run by simp
  qed
qed

end

section \<open>Lookup\<close>

lemma get_spec:
  assumes "btree_holds b xs" shows "fdb_btree_get b key = Inr (lookup xs key)"
proof -
  obtain n t where t: "btree_tree b n t" "entries_of t = xs" using assms by (auto simp: btree_holds_def)
  obtain p ts ks i where p: "t = TN p ts ks" "bt_root b = p" "p \<noteq> NULL" "bt_nodes b p = Some (E_INTERNAL i)"
    "internal_rep i (map root_of ts) ks"
    using btree_tree_nchildren [OF t(1)] by metis
  have tr: "rep (bt_nodes b) t NULL" using t(1) by (simp add: btree_tree_def)
  show ?thesis
  proof (cases "ts = []")
    case True
    then have e: "ks = []" "xs = []" using t p(1) by (auto simp: btree_tree_def)
    have ch: "in_children i = replicate 10 NULL" using p(5) True by (simp add: internal_rep_def)
    have scan: "fdb_btree_next_internal i key = 0"
      unfolding fdb_btree_next_internal_def by (subst next_internal_from.simps) (simp add: ch btree_consts)
    show ?thesis using p scan ch e(2)
      by (simp add: fdb_btree_get_def BT_FUEL_def eval_nat_numeral at_simps btree_consts lookup_def)
  next
    case False
    then have ok: "tree_ok (Suc n) 0 t (2 ^ 32)" "rfill (kids t)" using t p(1) by (auto simp: btree_tree_def)
    have n: "n \<le> 13" by (rule rfill_height [OF ok])
    have key: "0 \<le> unat key" "unat key < 2 ^ 32" using unat_lt_2p [of key] by simp_all
    have "fdb_btree_get_node BT_FUEL (bt_nodes b) (bt_root b) key = Inr (lookup xs key)"
      using get_node_rep [OF ok(1) tr key, of BT_FUEL] n p t(2) by (simp add: BT_FUEL_def)
    then show ?thesis by (simp add: fdb_btree_get_def)
  qed
qed


section \<open>Iteration\<close>

text \<open>The loop of the clients: \<open>while(fdb_btree_iter_has_next(&iter)) entry = fdb_btree_iter_next(&iter)\<close>.\<close>

fun btree_walk :: "nat \<Rightarrow> btheap \<Rightarrow> fdb_btree_iter_t \<Rightarrow> entries res" where
  "btree_walk 0 h it = Inl OutOfFuel"
| "btree_walk (Suc fuel) h it =
     bind_res (fdb_btree_iter_has_next h it) (\<lambda>more.
     if more then bind_res (fdb_btree_iter_next h it) (\<lambda>(e, it).
       bind_res (btree_walk fuel h it) (\<lambda>es. Inr ((be_key e, be_value e) # es)))
     else Inr [])"

definition btree_iterate :: "nat \<Rightarrow> 'st fdb_btree_t \<Rightarrow> entries res" where
  "btree_iterate fuel b = bind_res (fdb_btree_iter_init b) (btree_walk fuel (bt_nodes b))"

text \<open>The leaves of a tree are a chain through \<open>m_next\<close>.\<close>

fun leaves :: "tree \<Rightarrow> (ptr \<times> entries) list" where
  "leaves (TL p kvs) = [(p, kvs)]"
| "leaves (TN p ts ks) = concat (map leaves ts)"

fun leaf_chain :: "btheap \<Rightarrow> ptr \<Rightarrow> (ptr \<times> entries) list \<Rightarrow> ptr \<Rightarrow> bool" where
  "leaf_chain h p [] nx \<longleftrightarrow> p = nx"
| "leaf_chain h p ((q, kvs) # r) nx \<longleftrightarrow> p = q \<and> q \<noteq> NULL \<and>
     (\<exists>l. h q = Some (E_LEAF l) \<and> leaf_rep l kvs (lf_next l) \<and> leaf_chain h (lf_next l) r nx)"

lemma leaf_chain_append: "leaf_chain h p (as @ bs) nx \<longleftrightarrow> (\<exists>q. leaf_chain h p as q \<and> leaf_chain h q bs nx)"
  by (induction h p as nx rule: leaf_chain.induct) auto

fun solid :: "tree \<Rightarrow> bool" where
  "solid (TL p kvs) \<longleftrightarrow> True"
| "solid (TN p ts ks) \<longleftrightarrow> ts \<noteq> [] \<and> (\<forall>t\<in>set ts. solid t)"

lemma tree_ok_solid: "tree_ok n lo t hi \<Longrightarrow> solid t"
proof (induction n arbitrary: lo t hi)
  case (Suc n)
  then obtain p ts ks where t: "t = TN p ts ks" by (cases t) auto
  then have "lpairs (tree_ok n) (lo # map unat ks @ [hi]) ts" using Suc.prems by simp
  then have "solid c" if "c \<in> set ts" for c using lpairs_ex [OF _ that] Suc.IH by blast
  then show ?case using Suc.prems t by auto
qed (auto split: tree.splits)

lemma rep_leaf_chain:
  "rep h t nx \<Longrightarrow> solid t \<Longrightarrow> leaf_chain h (first t) (leaves t) nx"
  "reps h ts nx \<Longrightarrow> \<forall>t\<in>set ts. solid t \<Longrightarrow> leaf_chain h (firsts ts nx) (concat (map leaves ts)) nx"
proof (induction h t nx and h ts nx rule: rep_reps.induct)
  case (2 h p ts ks nx)
  then show ?case by (cases ts) auto
qed (auto simp: leaf_rep_def leaf_chain_append)

lemma leaves_entries: "concat (map snd (leaves t)) = entries_of t"
proof (induction t)
  case (TN p ts ks)
  then have "concat (map snd (concat (map leaves ts))) = concat (map entries_of ts)" by (induction ts) auto
  then show ?case by simp
qed simp

lemma filled_leaves: "filled t \<Longrightarrow> (q, kvs) \<in> set (leaves t) \<Longrightarrow> kvs \<noteq> []"
  by (induction t) auto

text \<open>From a leaf of the chain with entries left, \<open>has_next\<close> and \<open>next\<close> deliver the next entry.\<close>

lemma iter_step:
  assumes "leaf_chain h p ((q, kvs) # r) nx" "i < length kvs"
  shows "fdb_btree_iter_has_next h \<lparr>it_leaf = p, it_index = of_nat i\<rparr> = Inr True"
    "\<exists>p' i'. fdb_btree_iter_next h \<lparr>it_leaf = p, it_index = of_nat i\<rparr> =
       Inr (\<lparr>be_key = fst (kvs ! i), be_value = snd (kvs ! i)\<rparr>, \<lparr>it_leaf = p', it_index = of_nat i'\<rparr>) \<and>
       (if Suc i < length kvs then p' = p \<and> i' = Suc i else i' = 0 \<and> leaf_chain h p' r nx)"
proof -
  obtain l where l: "p = q" "q \<noteq> NULL" "h q = Some (E_LEAF l)" "leaf_rep l kvs (lf_next l)"
    "leaf_chain h (lf_next l) r nx" using assms(1) by auto
  have le: "length kvs \<le> 9" "lf_nleafs l = of_nat (length kvs)" "length (lf_leafs l) = 9" "length (lf_keys l) = 9"
    using l(4) by (auto simp: leaf_rep_def)
  have idx: "unat (of_nat k :: u32) = k" if "k \<le> 9" for k
    using that by (simp add: unsigned_of_nat take_bit_nat_eq_self)
  have nl: "unat (ucast (lf_nleafs l) :: u32) = length kvs"
    using le(1) unfolding le(2) by (simp add: unsigned_ucast_eq unsigned_of_nat take_bit_nat_eq_self)
  have cmp: "(of_nat k :: u32) < ucast (lf_nleafs l) \<longleftrightarrow> k < length kvs" if "k \<le> 9" for k
    using idx [OF that] nl by (simp add: word_less_nat_alt)
  have i9: "i \<le> 9" "Suc i \<le> 9" "i < 9" using assms(2) le(1) by simp_all
  show "fdb_btree_iter_has_next h \<lparr>it_leaf = p, it_index = of_nat i\<rparr> = Inr True"
    using l(1-3) cmp [OF i9(1)] assms(2) by (simp add: fdb_btree_iter_has_next_def at_simps)
  have ne: "lf_nleafs l \<noteq> 0"
    using le(1,2) assms(2) of_nat_u16_eq [of "length kvs" 0] by auto
  have suc: "(of_nat i + 1 :: u32) = of_nat (Suc i)" by simp
  note slot = leaf_rep_slot [OF l(4) less_imp_le [OF assms(2)] i9(3)]
  have "fdb_btree_iter_next h \<lparr>it_leaf = p, it_index = of_nat i\<rparr> =
    Inr (\<lparr>be_key = fst (kvs ! i), be_value = snd (kvs ! i)\<rparr>,
      if Suc i < length kvs then \<lparr>it_leaf = p, it_index = of_nat (Suc i)\<rparr> else \<lparr>it_leaf = lf_next l, it_index = 0\<rparr>)"
    using l(1-3) ne idx [OF i9(1)] le(3,4) i9(3) slot assms(2) cmp [OF i9(2), unfolded linorder_not_le [symmetric]]
    unfolding fdb_btree_iter_next_def by (simp add: at_simps suc del: of_nat_Suc)
  then show "\<exists>p' i'. fdb_btree_iter_next h \<lparr>it_leaf = p, it_index = of_nat i\<rparr> =
       Inr (\<lparr>be_key = fst (kvs ! i), be_value = snd (kvs ! i)\<rparr>, \<lparr>it_leaf = p', it_index = of_nat i'\<rparr>) \<and>
       (if Suc i < length kvs then p' = p \<and> i' = Suc i else i' = 0 \<and> leaf_chain h p' r nx)"
    using l(5) by (cases "Suc i < length kvs") auto
qed

lemma walk_chain:
  assumes "leaf_chain h p ls NULL" "\<forall>(q, kvs)\<in>set ls. kvs \<noteq> []" "ls \<noteq> [] \<longrightarrow> i < length (snd (hd ls))"
    "ls = [] \<longrightarrow> i = 0" "length (concat (map snd ls)) < fuel + i"
  shows "btree_walk fuel h \<lparr>it_leaf = p, it_index = of_nat i\<rparr> = Inr (drop i (concat (map snd ls)))"
  using assms
proof (induction fuel arbitrary: p ls i)
  case 0
  then show ?case by (cases ls) auto
next
  case (Suc fuel)
  show ?case
  proof (cases ls)
    case Nil
    then show ?thesis using Suc.prems by (simp add: fdb_btree_iter_has_next_def)
  next
    case (Cons a r)
    obtain q kvs where a: "a = (q, kvs)" by fastforce
    have i: "i < length kvs" using Suc.prems(3) Cons a by simp
    have ch: "leaf_chain h p ((q, kvs) # r) NULL" using Suc.prems(1) Cons a by simp
    obtain p' i' where s: "fdb_btree_iter_next h \<lparr>it_leaf = p, it_index = of_nat i\<rparr> =
       Inr (\<lparr>be_key = fst (kvs ! i), be_value = snd (kvs ! i)\<rparr>, \<lparr>it_leaf = p', it_index = of_nat i'\<rparr>)"
      "if Suc i < length kvs then p' = p \<and> i' = Suc i else i' = 0 \<and> leaf_chain h p' r NULL"
      using iter_step(2) [OF ch i] by blast
    have d: "drop i kvs = kvs ! i # drop (Suc i) kvs" using i by (simp add: Cons_nth_drop_Suc)
    have "btree_walk fuel h \<lparr>it_leaf = p', it_index = of_nat i'\<rparr> =
        Inr (drop (Suc i) kvs @ concat (map snd r))"
    proof (cases "Suc i < length kvs")
      case True
      then show ?thesis using s(2) Suc.IH [of p ls "Suc i"] Suc.prems Cons a by (simp del: of_nat_Suc)
    next
      case False
      have "r \<noteq> [] \<longrightarrow> snd (hd r) \<noteq> []" using Suc.prems(2) Cons by (cases r) auto
      then show ?thesis
        using False s(2) Suc.IH [of p' r 0] Suc.prems(2,5) Cons a i by simp
    qed
    then show ?thesis
      using iter_step(1) [OF ch i] s(1) d Cons a i by simp
  qed
qed

lemma iter_leftmost_spec:
  "tree_ok n lo t hi \<Longrightarrow> rep h t nx \<Longrightarrow> n < fuel \<Longrightarrow> iter_leftmost fuel h (root_of t) = Inr (first t)"
proof (induction n arbitrary: lo t hi nx fuel)
  case 0
  then obtain p kvs f where "t = TL p kvs" "fuel = Suc f" by (cases t; cases fuel) auto
  then show ?case using 0 by (auto simp: at_simps)
next
  case (Suc n)
  obtain p ts ks f where t: "t = TN p ts ks" "fuel = Suc f" using Suc.prems by (cases t; cases fuel) auto
  then obtain i where i: "p \<noteq> NULL" "h p = Some (E_INTERNAL i)" "internal_rep i (map root_of ts) ks" "reps h ts nx"
    using Suc.prems(2) by auto
  have l: "length ts = Suc (length ks)" "lpairs (tree_ok n) (lo # map unat ks @ [hi]) ts"
    using Suc.prems(1) t by auto
  then obtain c r where ts: "ts = c # r" by (cases ts) auto
  have "\<exists>l u. tree_ok n l c u" using lpairs_ex [OF l(2)] ts by simp
  moreover have "rep h c (firsts r nx)" using i(4) ts by simp
  ultimately have "iter_leftmost f h (root_of c) = Inr (first c)" using Suc.IH Suc.prems(3) t by blast
  moreover have "in_children i ! 0 = root_of c" using i(3) ts by (simp add: internal_rep_def)
  ultimately show ?case using t i(1,2) ts by (simp add: at_simps)
qed

lemma iterate_spec:
  assumes "btree_holds b xs" "length xs < fuel" shows "btree_iterate fuel b = Inr xs"
proof -
  obtain n t where t: "btree_tree b n t" "entries_of t = xs" using assms by (auto simp: btree_holds_def)
  obtain p ts ks i where p: "t = TN p ts ks" "bt_root b = p" "p \<noteq> NULL" "bt_nodes b p = Some (E_INTERNAL i)"
    "internal_rep i (map root_of ts) ks"
    using btree_tree_nchildren [OF t(1)] by metis
  have tr: "rep (bt_nodes b) t NULL" using t(1) by (simp add: btree_tree_def)
  obtain f where f: "fuel = Suc f" using assms(2) by (cases fuel) auto
  show ?thesis
  proof (cases "ts = []")
    case True
    then have "in_children i ! 0 = NULL" "xs = []" using p(1,5) t by (simp_all add: internal_rep_def)
    then show ?thesis using p f
      by (simp add: btree_iterate_def fdb_btree_iter_init_def BT_FUEL_def eval_nat_numeral at_simps
          fdb_btree_iter_has_next_def)
  next
    case False
    then have ok: "tree_ok (Suc n) 0 t (2 ^ 32)" "rfill ts" using t p(1) by (auto simp: btree_tree_def)
    have n: "n \<le> 13" by (rule rfill_height [OF ok(1)]) (use ok(2) p(1) in simp)
    have init: "fdb_btree_iter_init b = Inr \<lparr>it_leaf = first t, it_index = 0\<rparr>"
      using iter_leftmost_spec [OF ok(1) tr, of BT_FUEL] n p(1,2) by (simp add: fdb_btree_iter_init_def BT_FUEL_def)
    have ch: "leaf_chain (bt_nodes b) (first t) (leaves t) NULL"
      by (rule rep_leaf_chain(1) [OF tr tree_ok_solid [OF ok(1)]])
    show ?thesis
    proof (cases "\<exists>q. ts = [TL q []]")
      case True
      then show ?thesis using ch init f t(2) p(1)
        by (auto simp: btree_iterate_def fdb_btree_iter_has_next_def at_simps leaf_rep_def)
    next
      case one: False
      have ne: "kvs \<noteq> []" if "(q, kvs) \<in> set (leaves t)" for q kvs
        using ok(2) that one p(1) filled_leaves by (fastforce simp: rfill_def)
      have hd: "leaves t \<noteq> [] \<longrightarrow> snd (hd (leaves t)) \<noteq> []"
        using ne by (cases "leaves t") (auto, metis list.set_intros(1) prod.collapse)
      have "btree_walk fuel (bt_nodes b) \<lparr>it_leaf = first t, it_index = of_nat 0\<rparr> = Inr (drop 0 (concat (map snd (leaves t))))"
        by (rule walk_chain [OF ch]) (use ne hd assms(2) leaves_entries [of t] t(2) in auto)
      then show ?thesis using init leaves_entries [of t] t(2) by (simp add: btree_iterate_def)
    qed
  qed
qed


section \<open>Creation and destruction\<close>

text \<open>\<open>tall n t\<close>: the height of a tree is at most \<open>n\<close>; a node without children has height 0.\<close>

fun tall :: "nat \<Rightarrow> tree \<Rightarrow> bool" where
  "tall n (TL p kvs) \<longleftrightarrow> True"
| "tall 0 (TN p ts ks) \<longleftrightarrow> ts = []"
| "tall (Suc n) (TN p ts ks) \<longleftrightarrow> (\<forall>t\<in>set ts. tall n t)"

lemma tree_ok_tall: "tree_ok n lo t hi \<Longrightarrow> tall n t"
proof (induction n arbitrary: lo t hi)
  case 0
  then show ?case by (cases t) auto
next
  case (Suc n)
  then obtain p ts ks where t: "t = TN p ts ks" by (cases t) auto
  then have "lpairs (tree_ok n) (lo # map unat ks @ [hi]) ts" using Suc.prems by simp
  then have "tall n c" if "c \<in> set ts" for c using lpairs_ex [OF _ that] Suc.IH by blast
  then show ?case using t by auto
qed

lemma destroy_children_nulls: "destroy_children d (replicate n NULL) bs = Inr bs"
  by (induction n) auto

context node_memory
begin

lemma free_node_spec:
  assumes "mem (b, st) m" "p \<in> dom (bt_nodes b)"
  shows "\<exists>b' st'. free_node (b, st) p = (b', st') \<and> bt_nodes b' = (bt_nodes b)(p := None) \<and>
    bt_root b' = bt_root b \<and> bt_size b' = bt_size b \<and> mem (b', st') m"
  using release [OF assms]
  by (cases "fdb_pool_alloc_free (bt_node_allocator b, st) p") (auto simp: free_node_def)

lemma destroy_children_spec:
  assumes "reps (bt_nodes b) ts nx" "distinct (concat (map addrs ts))" "mem (b, st) m"
    and "\<And>b t nx st. t \<in> set ts \<Longrightarrow> rep (bt_nodes b) t nx \<Longrightarrow> distinct (addrs t) \<Longrightarrow> mem (b, st) m \<Longrightarrow>
      \<exists>b' st'. d (b, st) (root_of t) = Inr (b', st') \<and> bt_nodes b' = bt_nodes b |` (- set (addrs t)) \<and>
        bt_root b' = bt_root b \<and> bt_size b' = bt_size b \<and> mem (b', st') m"
  shows "\<exists>b' st'. destroy_children d (map root_of ts @ replicate k NULL) (b, st) = Inr (b', st') \<and>
    bt_nodes b' = bt_nodes b |` (- set (concat (map addrs ts))) \<and>
    bt_root b' = bt_root b \<and> bt_size b' = bt_size b \<and> mem (b', st') m"
  using assms
proof (induction ts arbitrary: b st)
  case Nil
  then show ?case by (simp add: destroy_children_nulls)
next
  case (Cons t ts)
  have r: "rep (bt_nodes b) t (firsts ts nx)" "reps (bt_nodes b) ts nx" "root_of t \<noteq> NULL"
    using Cons.prems(1) rep_root by auto
  have dis: "distinct (addrs t)" "distinct (concat (map addrs ts))"
    "set (addrs t) \<inter> set (concat (map addrs ts)) = {}" using Cons.prems(2) by auto
  obtain b1 st1 where 1: "d (b, st) (root_of t) = Inr (b1, st1)" "bt_nodes b1 = bt_nodes b |` (- set (addrs t))"
      "bt_root b1 = bt_root b" "bt_size b1 = bt_size b" "mem (b1, st1) m"
    using Cons.prems(4) [OF _ r(1) dis(1) Cons.prems(3)] by auto
  have "reps (bt_nodes b1) ts nx = reps (bt_nodes b) ts nx"
    by (rule rep_frame(2)) (use dis(3) in \<open>auto simp: 1 restrict_map_def\<close>)
  then obtain b2 st2 where 2: "destroy_children d (map root_of ts @ replicate k NULL) (b1, st1) = Inr (b2, st2)"
    "bt_nodes b2 = bt_nodes b1 |` (- set (concat (map addrs ts)))" "bt_root b2 = bt_root b1"
    "bt_size b2 = bt_size b1" "mem (b2, st2) m"
    using Cons.IH [OF _ dis(2) 1(5)] Cons.prems(4) r(2) by auto
  have "bt_nodes b2 = bt_nodes b |` (- set (concat (map addrs (t # ts))))"
    using 1(2) 2(2) by (auto simp: restrict_map_def fun_eq_iff)
  then show ?case using 1 2 r(3) by simp
qed

lemma destroy_spec:
  assumes "rep (bt_nodes b) t nx" "distinct (addrs t)" "mem (b, st) m" "tall n t" "n < fuel"
  shows "\<exists>b' st'. fdb_btree_destroy_node fuel (b, st) (root_of t) = Inr (b', st') \<and>
    bt_nodes b' = bt_nodes b |` (- set (addrs t)) \<and> bt_root b' = bt_root b \<and> bt_size b' = bt_size b \<and> mem (b', st') m"
  using assms
proof (induction fuel arbitrary: b t nx st n)
  case (Suc fuel)
  show ?case
  proof (cases t)
    case (TL p kvs)
    then have "p \<noteq> NULL" "p \<in> dom (bt_nodes b)" using Suc.prems(1) by auto
    then obtain l where l: "bt_nodes b p = Some (E_LEAF l)" "p \<noteq> NULL" using TL Suc.prems(1) by auto
    obtain b' st' where f: "free_node (b, st) p = (b', st')" "bt_nodes b' = (bt_nodes b)(p := None)"
      "bt_root b' = bt_root b" "bt_size b' = bt_size b" "mem (b', st') m"
      using free_node_spec [OF Suc.prems(3)] l(1) by blast
    have "bt_nodes b' = bt_nodes b |` (- set (addrs t))" unfolding f(2) TL by (auto simp: restrict_map_def fun_eq_iff)
    then show ?thesis using f TL l by (simp add: at_simps)
  next
    case (TN p ts ks)
    then obtain i where i: "p \<noteq> NULL" "bt_nodes b p = Some (E_INTERNAL i)" "internal_rep i (map root_of ts) ks"
      "reps (bt_nodes b) ts nx" using Suc.prems(1) by auto
    have ch: "in_children i = map root_of ts @ replicate (10 - length ts) NULL" using i(3) by (simp add: internal_rep_def)
    have dis: "distinct (concat (map addrs ts))" "p \<notin> set (concat (map addrs ts))" using Suc.prems(2) TN by auto
    have kids: "\<exists>m. tall m c \<and> m < fuel" if "c \<in> set ts" for c
      using Suc.prems(4,5) TN that by (cases n) auto
    obtain b1 st1 where 1: "destroy_children (fdb_btree_destroy_node fuel) (in_children i) (b, st) = Inr (b1, st1)"
      "bt_nodes b1 = bt_nodes b |` (- set (concat (map addrs ts)))" "bt_root b1 = bt_root b" "bt_size b1 = bt_size b" "mem (b1, st1) m"
      unfolding ch using destroy_children_spec [OF i(4) dis(1) Suc.prems(3), of "fdb_btree_destroy_node fuel" "10 - length ts"]
        Suc.IH kids by blast
    have "p \<in> dom (bt_nodes b1)" using 1(2) i(2) dis(2) by (auto simp: restrict_map_def)
    from free_node_spec [OF 1(5) this] obtain b2 st2 where
      2: "free_node (b1, st1) p = (b2, st2)" "bt_nodes b2 = (bt_nodes b1)(p := None)" "bt_root b2 = bt_root b1"
       "bt_size b2 = bt_size b1" "mem (b2, st2) m" by blast
    have "fdb_btree_destroy_node (Suc fuel) (b, st) p = Inr (b2, st2)"
      using 1(1) 2(1) i(1,2) by (simp add: at_simps)
    moreover have "bt_nodes b2 = bt_nodes b |` (- set (addrs t))"
      unfolding 2(2) 1(2) TN by (auto simp: restrict_map_def fun_eq_iff)
    ultimately show ?thesis using 1 2 TN by simp
  qed
qed simp

text \<open>The empty tree: one internal node without children.\<close>

lemma create_root_spec:
  assumes "mem (b, st) (Suc m)" "bt_nodes b = Map.empty"
  shows "\<exists>p b' st'. fdb_btree_create_internal (b, st) = Inr (p, (b', st')) \<and>
    btree_holds (b'\<lparr>bt_root := p, bt_size := 0\<rparr>) [] \<and> mem (b'\<lparr>bt_root := p, bt_size := 0\<rparr>, st') m \<and>
    bt_size b' = bt_size b \<and> bt_root b' = bt_root b"
proof -
  obtain p b1 st1 where c: "create_node (E_INTERNAL zero_internal) (b, st) = Inr (p, (b1, st1))" "p \<noteq> NULL"
    "bt_nodes b1 = (bt_nodes b)(p \<mapsto> E_INTERNAL zero_internal)" "mem (b1, st1) m"
    "bt_size b1 = bt_size b" "bt_root b1 = bt_root b"
    using create [OF assms(1), of "E_INTERNAL zero_internal"] by blast
  let ?b = "b1\<lparr>bt_root := p, bt_size := 0\<rparr>"
  have "btree_tree ?b 0 (TN p [] [])"
    using c(2,3) assms(2) internal_rep_zero by (auto simp: btree_tree_def)
  then have "btree_holds ?b []" unfolding btree_holds_def by (intro exI [of _ 0] exI [of _ "TN p [] []"]) simp
  moreover have "mem (?b, st1) m" by (rule mem_cong [OF c(4)]) simp_all
  ultimately show ?thesis using c(1,5,6) by (auto simp: fdb_btree_create_internal_def)
qed

lemma btree_destroy_all:
  assumes "btree_holds b xs" "mem (b, st) m"
  shows "\<exists>b' st'. fdb_btree_destroy_node BT_FUEL (b, st) (bt_root b) = Inr (b', st') \<and>
    bt_nodes b' = Map.empty \<and> mem (b', st') m"
proof -
  obtain n t where t: "btree_tree b n t" using assms by (auto simp: btree_holds_def)
  have tr: "root_of t = bt_root b" "rep (bt_nodes b) t NULL" "distinct (addrs t)"
    "dom (bt_nodes b) = set (addrs t)" using t by (auto simp: btree_tree_def)
  have "\<exists>n. tall n t \<and> n < BT_FUEL"
  proof (cases "\<exists>p. t = TN p [] []")
    case True
    then show ?thesis by (auto simp: BT_FUEL_def intro!: exI [of _ 0])
  next
    case False
    then have ok: "tree_ok (Suc n) 0 t (2 ^ 32)" "rfill (kids t)" using t by (auto simp: btree_tree_def)
    show ?thesis using tree_ok_tall [OF ok(1)] rfill_height [OF ok] by (auto simp: BT_FUEL_def intro!: exI [of _ "Suc n"])
  qed
  then obtain n where "tall n t" "n < BT_FUEL" by blast
  from destroy_spec [OF tr(2,3) assms(2) this] obtain b' st' where
    d: "fdb_btree_destroy_node BT_FUEL (b, st) (bt_root b) = Inr (b', st')"
      "bt_nodes b' = bt_nodes b |` (- set (addrs t))" "mem (b', st') m" using tr(1) by auto
  have "bt_nodes b' = Map.empty"
    unfolding d(2) tr(4) [symmetric] by (auto simp: restrict_map_def fun_eq_iff)
  then show ?thesis using d by blast
qed

lemma clear_spec:
  assumes "btree_holds b xs" "mem (b, st) (Suc m)"
  shows "\<exists>b' st'. fdb_btree_clear (b, st) = Inr (b', st') \<and> btree_holds b' [] \<and> mem (b', st') m"
proof -
  obtain b1 st1 where d: "fdb_btree_destroy_node BT_FUEL (b, st) (bt_root b) = Inr (b1, st1)"
    "bt_nodes b1 = Map.empty" "mem (b1, st1) (Suc m)" using btree_destroy_all [OF assms] by blast
  then show ?thesis using create_root_spec [OF d(3,2)] by (auto simp: fdb_btree_clear_def)
qed

end


section \<open>Sequences of operations\<close>

text \<open>What a client does with a tree, and what it sees: for an insertion, whether the key was
  new and the value found at \<open>p_place\<close>.\<close>

datatype bt_cmd = BInsert u32 ptr | BGet u32 | BIterate | BClear
datatype bt_out = OInserted bool ptr | OGot ptr | OEntries entries | OCleared

definition place_value :: "btheap \<Rightarrow> fdb_btree_insert_t \<Rightarrow> ptr res" where
  "place_value h r = (case bi_place r of None \<Rightarrow> Inl NullDeref
     | Some (q, i) \<Rightarrow> bind_res (node_at h q) (\<lambda>n. case n of
         E_INTERNAL _ \<Rightarrow> Inl BadPointer | E_LEAF l \<Rightarrow> rd (lf_leafs l) i))"

fun bt_step :: "nat \<Rightarrow> bt_cmd \<Rightarrow> 'st fdb_btree_t \<times> 'st \<Rightarrow> (bt_out \<times> ('st fdb_btree_t \<times> 'st)) res" where
  "bt_step fuel (BInsert key p) bs = bind_res (fdb_btree_insert bs key p) (\<lambda>(r, bs).
     bind_res (place_value (bt_nodes (fst bs)) r) (\<lambda>v. Inr (OInserted (bi_inserted r) v, bs)))"
| "bt_step fuel (BGet key) bs = bind_res (fdb_btree_get (fst bs) key) (\<lambda>v. Inr (OGot v, bs))"
| "bt_step fuel BIterate bs = bind_res (btree_iterate fuel (fst bs)) (\<lambda>es. Inr (OEntries es, bs))"
| "bt_step fuel BClear bs = bind_res (fdb_btree_clear bs) (\<lambda>bs. Inr (OCleared, bs))"

fun run_bt :: "nat \<Rightarrow> bt_cmd list \<Rightarrow> 'st fdb_btree_t \<times> 'st \<Rightarrow> (bt_out list \<times> ('st fdb_btree_t \<times> 'st)) res" where
  "run_bt fuel [] bs = Inr ([], bs)"
| "run_bt fuel (c # cs) bs = bind_res (bt_step fuel c bs) (\<lambda>(out, bs).
     bind_res (run_bt fuel cs bs) (\<lambda>(outs, bs). Inr (out # outs, bs)))"

text \<open>The specification: a finite map that keeps the first value of a key, listed by key.\<close>

definition sorted_entries :: "(u32 \<rightharpoonup> ptr) \<Rightarrow> entries" where
  "sorted_entries m = map (\<lambda>k. (k, the (m k))) (sorted_list_of_set (dom m))"

fun map_step :: "bt_cmd \<Rightarrow> (u32 \<rightharpoonup> ptr) \<Rightarrow> bt_out \<times> (u32 \<rightharpoonup> ptr)" where
  "map_step (BInsert key p) m = (case m key of None \<Rightarrow> (OInserted True p, m(key \<mapsto> p))
     | Some w \<Rightarrow> (OInserted False w, m))"
| "map_step (BGet key) m = (OGot (case m key of None \<Rightarrow> NULL | Some w \<Rightarrow> w), m)"
| "map_step BIterate m = (OEntries (sorted_entries m), m)"
| "map_step BClear m = (OCleared, Map.empty)"

fun run_map :: "bt_cmd list \<Rightarrow> (u32 \<rightharpoonup> ptr) \<Rightarrow> bt_out list \<times> (u32 \<rightharpoonup> ptr)" where
  "run_map [] m = ([], m)"
| "run_map (c # cs) m = (let (out, m) = map_step c m; (outs, m) = run_map cs m in (out # outs, m))"

text \<open>Nodes a sequence may need, and that it stores no NULL value.\<close>

fun bt_need :: "bt_cmd \<Rightarrow> nat" where
  "bt_need (BInsert _ _) = BT_NODES"
| "bt_need BClear = 1"
| "bt_need _ = 0"

fun bt_legal :: "bt_cmd \<Rightarrow> bool" where
  "bt_legal (BInsert _ p) \<longleftrightarrow> p \<noteq> NULL"
| "bt_legal _ \<longleftrightarrow> True"

lemma sorted_entries_map_of:
  assumes "ascending xs" shows "sorted_entries (map_of xs) = xs"
proof -
  have d: "distinct (map fst xs)" "sorted (map fst xs)" using assms by (simp_all add: strict_sorted_iff)
  have "sorted_list_of_set (set (map fst xs)) = map fst xs"
    by (rule sorted_list_of_set.idem_if_sorted_distinct) (use d in simp_all)
  moreover have "the (map_of xs (fst e)) = snd e" if "e \<in> set xs" for e
    using map_of_is_SomeI [OF d(1), of "fst e" "snd e"] that by simp
  ultimately show ?thesis
    by (simp add: sorted_entries_def dom_map_of_conv_image_fst comp_def map_idI)
qed

lemma btree_holds_ascending:
  assumes "btree_holds b xs" shows "ascending xs"
proof -
  obtain n t where t: "btree_tree b n t" "entries_of t = xs" using assms by (auto simp: btree_holds_def)
  show ?thesis
  proof (cases "\<exists>p. t = TN p [] []")
    case False
    then have "tree_ok (Suc n) 0 t (2 ^ 32)" using t(1) by (auto simp: btree_tree_def)
    from tree_ok_within [OF this] show ?thesis using t(2) by (simp add: within_def)
  qed (use t(2) in auto)
qed

lemma place_ok_value:
  assumes "place_ok key old h new r" "\<And>q n. h q = Some n \<Longrightarrow> q \<noteq> NULL" "\<And>q l. h q = Some (E_LEAF l) \<Longrightarrow> length (lf_leafs l) = 9"
  shows "place_value h r = Inr (lookup new key)"
proof -
  obtain q i l where q: "bi_place r = Some (q, i)" "h q = Some (E_LEAF l)" "i < 9" "lf_leafs l ! i = lookup new key"
    using assms(1) by (auto simp: place_ok_def)
  then have "q \<noteq> NULL" "length (lf_leafs l) = 9" using assms(2,3) by blast+
  then show ?thesis using q by (simp add: place_value_def at_simps)
qed

lemma rep_nodes:
  "rep h t nx \<Longrightarrow> q \<in> set (addrs t) \<Longrightarrow> q \<noteq> NULL \<and> (\<forall>l. h q = Some (E_LEAF l) \<longrightarrow> length (lf_leafs l) = 9)"
  "reps h ts nx \<Longrightarrow> t \<in> set ts \<Longrightarrow> q \<in> set (addrs t) \<Longrightarrow>
     q \<noteq> NULL \<and> (\<forall>l. h q = Some (E_LEAF l) \<longrightarrow> length (lf_leafs l) = 9)"
  by (induction h t nx and h ts nx arbitrary: and t rule: rep_reps.induct) (auto simp: leaf_rep_def)

lemma btree_holds_nodes:
  assumes "btree_holds b xs" "bt_nodes b q = Some n"
  shows "q \<noteq> NULL \<and> (\<forall>l. n = E_LEAF l \<longrightarrow> length (lf_leafs l) = 9)"
proof -
  obtain t where "rep (bt_nodes b) t NULL" "dom (bt_nodes b) = set (addrs t)"
    using assms(1) by (auto simp: btree_holds_def btree_tree_def)
  then show ?thesis using rep_nodes(1) [of "bt_nodes b" t NULL q] assms(2) by auto
qed

lemma map_of_ins_step: "ascending xs \<Longrightarrow> map_of (ins k v xs) = snd (map_step (BInsert k v) (map_of xs))"
  using map_of_ins [of xs k v] by (auto split: option.splits)

lemma lookup_map: "lookup xs key = (case map_of xs key of None \<Rightarrow> NULL | Some w \<Rightarrow> w)"
  by (simp add: lookup_def)

lemma length_ins_le: "length (ins k v xs) \<le> Suc (length xs)"
  by (induction xs) auto

context node_memory
begin

lemma bt_step_spec:
  assumes h: "btree_holds b xs" and m: "mem (b, st) (bt_need c + m)" and ok: "bt_legal c" "length xs < fuel"
  shows "\<exists>b' st' ys. bt_step fuel c (b, st) = Inr (fst (map_step c (map_of xs)), (b', st')) \<and> btree_holds b' ys \<and>
    map_of ys = snd (map_step c (map_of xs)) \<and> length ys \<le> Suc (length xs) \<and> mem (b', st') m"
proof -
  note asc = btree_holds_ascending [OF h]
  show ?thesis
  proof (cases c)
    case (BInsert key p)
    have "mem (b, st) (BT_NODES + m)" "p \<noteq> NULL" using m ok BInsert by simp_all
    from insert_spec [OF h this, of key] obtain r b' st' where
      i: "fdb_btree_insert (b, st) key p = Inr (r, (b', st'))" "btree_holds b' (ins key p xs)"
      "place_ok key xs (bt_nodes b') (ins key p xs) r" "mem (b', st') m" by blast
    have pv: "place_value (bt_nodes b') r = Inr (lookup (ins key p xs) key)"
      by (rule place_ok_value [OF i(3)]) (use btree_holds_nodes [OF i(2)] in blast)+
    have fl: "bi_inserted r = (map_of xs key = None)" using i(3) by (simp add: place_ok_def map_of_eq_None_iff)
    have "lookup (ins key p xs) key = (case map_of xs key of None \<Rightarrow> p | Some w \<Rightarrow> w)"
      using map_of_ins [OF asc, of key p] by (auto simp: lookup_def split: option.splits)
    then have "bt_step fuel c (b, st) = Inr (fst (map_step c (map_of xs)), (b', st'))"
      using i(1) pv fl BInsert by (cases "map_of xs key") simp_all
    moreover have "map_of (ins key p xs) = snd (map_step c (map_of xs))"
      using map_of_ins_step [OF asc, of key p] BInsert by simp
    ultimately show ?thesis using i(2,4) length_ins_le by blast
  next
    case (BGet key)
    then have "bt_step fuel c (b, st) = Inr (fst (map_step c (map_of xs)), (b, st))"
      using get_spec [OF h, of key] by (simp add: lookup_map)
    then show ?thesis using h m BGet by (intro exI [of _ b] exI [of _ st] exI [of _ xs]) simp
  next
    case BIterate
    then have "bt_step fuel c (b, st) = Inr (fst (map_step c (map_of xs)), (b, st))"
      using iterate_spec [OF h ok(2)] sorted_entries_map_of [OF asc] by simp
    then show ?thesis using h m BIterate by (intro exI [of _ b] exI [of _ st] exI [of _ xs]) simp
  next
    case BClear
    then have "mem (b, st) (Suc m)" using m by simp
    from clear_spec [OF h this] show ?thesis using BClear by fastforce
  qed
qed

lemma run_bt_spec:
  assumes "btree_holds b xs" "mem (b, st) ((\<Sum>c\<leftarrow>cs. bt_need c) + m)" "\<forall>c\<in>set cs. bt_legal c"
    "length xs + length cs < fuel"
  shows "\<exists>b' st' ys. run_bt fuel cs (b, st) = Inr (fst (run_map cs (map_of xs)), (b', st')) \<and> btree_holds b' ys \<and>
    map_of ys = snd (run_map cs (map_of xs)) \<and> mem (b', st') m"
  using assms
proof (induction cs arbitrary: b st xs)
  case (Cons c cs)
  have "mem (b, st) (bt_need c + ((\<Sum>c\<leftarrow>cs. bt_need c) + m))" "bt_legal c" "length xs < fuel"
    using Cons.prems(2-4) by (simp_all add: add.assoc)
  from bt_step_spec [OF Cons.prems(1) this] obtain b1 st1 ys where
    1: "bt_step fuel c (b, st) = Inr (fst (map_step c (map_of xs)), (b1, st1))" "btree_holds b1 ys"
      "map_of ys = snd (map_step c (map_of xs))" "length ys \<le> Suc (length xs)" "mem (b1, st1) ((\<Sum>c\<leftarrow>cs. bt_need c) + m)"
    by blast
  obtain b2 st2 zs where 2: "run_bt fuel cs (b1, st1) = Inr (fst (run_map cs (map_of ys)), (b2, st2))" "btree_holds b2 zs"
    "map_of zs = snd (run_map cs (map_of ys))" "mem (b2, st2) m"
    using Cons.IH [OF 1(2,5)] Cons.prems(3,4) 1(4) by auto
  show ?case
    using 1(1,3) 2 by (intro exI [of _ b2] exI [of _ st2] exI [of _ zs]) (simp add: split_beta Let_def)
qed auto

end


section \<open>Nodes from the pool of the tree\<close>

definition bt_mem ::
  "('st \<Rightarrow> u32 \<Rightarrow> u32 \<Rightarrow> u32 \<Rightarrow> ptr \<times> 'st) \<Rightarrow> ('st \<Rightarrow> ptr \<Rightarrow> 'st) \<Rightarrow> ('st \<Rightarrow> (ptr \<rightharpoonup> nat) \<Rightarrow> bool) \<Rightarrow>
   ('st \<Rightarrow> nat \<Rightarrow> bool) \<Rightarrow> ('st \<Rightarrow> u32 \<Rightarrow> u32 \<Rightarrow> bool) \<Rightarrow> 'st fdb_btree_t \<times> 'st \<Rightarrow> nat \<Rightarrow> bool" where
  "bt_mem alloc free ainv room serves bs n \<longleftrightarrow> (case bs of (b, st) \<Rightarrow>
     \<exists>live. pool_inv alloc free ainv (bt_node_allocator b, st) live \<and> dom live = dom (bt_nodes b) \<and>
       room st n \<and> pool_serves serves (bt_node_allocator b, st) FDB_BTREE_NODE_ALIGNMENT sizeof_node)"

lemma pool_live_size:
  assumes "pool_inv alloc free ainv (pa, st) live" "live q = Some m"
  shows "0 < m"
proof -
  obtain plive chunks fs where i: "pool_config pa" "live = pool_live pa (pool_blocks pa chunks - set fs)"
    using assms(1) by (auto elim: pool_invE)
  then have "m = unat (pl_block_size pa)" using assms(2) by (auto simp: pool_live_def split: if_splits)
  then show ?thesis using i(1) by (simp add: pool_config_def)
qed

context pool_over
begin

lemma bt_node_memory: "node_memory (bt_mem alloc free ainv room serves)"
proof (unfold_locales, goal_cases)
  case (1 b st n z)
  then obtain live where l: "pool_inv alloc free ainv (bt_node_allocator b, st) live" "dom live = dom (bt_nodes b)"
    "room st (Suc n)" "pool_serves serves (bt_node_allocator b, st) FDB_BTREE_NODE_ALIGNMENT sizeof_node"
    by (auto simp: bt_mem_def)
  obtain p pa' st' where a: "fdb_pool_alloc_alloc (bt_node_allocator b, st) FDB_BTREE_NODE_ALIGNMENT sizeof_node (- 1)
    = (p, (pa', st'))" by (metis prod.collapse)
  note s = pool_alloc_step [OF l(1,3,4) a]
  have f: "fits live p 128" using s by (simp add: sizeof_node_def)
  have "p \<notin> dom live" by (rule fits_dom [OF f])
  then have new: "p \<noteq> NULL" "p \<notin> dom (bt_nodes b)" using f l(2) by (auto simp: fits_def)
  have dom: "dom (live(p \<mapsto> unat sizeof_node)) = dom ((bt_nodes b)(p \<mapsto> z))" using l(2) by simp
  have "bt_mem alloc free ainv room serves (b\<lparr>bt_node_allocator := pa', bt_nodes := (bt_nodes b)(p \<mapsto> z)\<rparr>, st') n"
    unfolding bt_mem_def prod.case
    by (intro exI [of _ "live(p \<mapsto> unat sizeof_node)"] conjI) (use s l(4) dom in \<open>simp_all del: fun_upd_apply\<close>)
  then show ?case using a new by (simp add: create_node_def del: fun_upd_apply)
next
  case (2 bs n)
  then show ?case using room_mono by (auto simp: bt_mem_def split: prod.splits)
next
  case (3 b st n b')
  then show ?case by (simp add: bt_mem_def)
next
  case (4 b st n p pool st')
  then obtain live where l: "pool_inv alloc free ainv (bt_node_allocator b, st) live" "dom live = dom (bt_nodes b)"
    "room st n" "pool_serves serves (bt_node_allocator b, st) FDB_BTREE_NODE_ALIGNMENT sizeof_node"
    by (auto simp: bt_mem_def)
  obtain m where m: "live p = Some m" using 4(2) l(2) by auto
  have "pool_inv alloc free ainv (pool, st') (live(p := None))" using pool.free_inv [OF l(1) m] 4(3) by simp
  moreover have "room st' n" using pool.free_room [OF l(1) m, of n] l(3) 4(3) by (simp add: pool_room_def)
  moreover have "pool_serves serves (pool, st') = pool_serves serves (bt_node_allocator b, st)"
    using pool_free_serves [of serves "(bt_node_allocator b, st)" p] 4(3) by simp
  ultimately show ?case unfolding bt_mem_def prod.case
    by (intro exI [of _ "live(p := None)"]) (use l(2,4) in simp)
qed

end

interpretation page_nodes: node_memory "bt_mem fdb_page_alloc_alloc fdb_page_alloc_free page_inv page_room page_serves"
  by (rule pool_page.bt_node_memory)

sublocale pool_over \<subseteq> nodes: node_memory "bt_mem alloc free ainv room serves"
  by (rule bt_node_memory)

context pool_over
begin

text \<open>The tree that \<open>fdb_btree_init\<close> leaves is empty and has its nodes from the parent.\<close>

lemma btree_init_spec:
  assumes alloc: "p_mem_alloc (case a of Some a \<Rightarrow> a | None \<Rightarrow> g) = alloc" "p_mem_free (case a of Some a \<Rightarrow> a | None \<Rightarrow> g) = free"
    and st: "ainv st plive" "live_apart plive" "room st (Suc n)" "serves st 64 4096"
  shows "\<exists>b st'. fdb_btree_init a g hdr st = Inr (b, st') \<and> btree_holds b [] \<and> bt_mem alloc free ainv room serves (b, st') n"
proof -
  obtain pa where pa: "fdb_pool_alloc_init FDB_BTREE_ALIGNMENT sizeof_node FDB_BTREE_PAGE_SIZE
      (Some (case a of Some a \<Rightarrow> a | None \<Rightarrow> g)) g hdr = Inr pa"
    by (simp add: fdb_pool_alloc_init_def FDB_BTREE_ALIGNMENT_def sizeof_node_def FDB_MIN_ALIGNMENT_def)
  have sz: "unat FDB_BTREE_ALIGNMENT < 2 ^ 31"
    "2 * max 8 (unat sizeof_node) + max 16 (unat FDB_BTREE_ALIGNMENT) \<le> unat FDB_BTREE_PAGE_SIZE"
    by (simp_all add: FDB_BTREE_ALIGNMENT_def sizeof_node_def FDB_BTREE_PAGE_SIZE_def)
  note c = pool_init_config [OF pa sz]
  have inv: "pool_inv alloc free ainv (pa, st) Map.empty"
    by (rule pool_init_inv [where ainv = ainv, OF pa sz _ _ st(1,2)]) (use alloc in simp_all)
  have al: "pl_alignment pa = 64" "pl_page_size pa = 4096"
    using c(2,4) by (simp_all add: FDB_BTREE_ALIGNMENT_def FDB_BTREE_PAGE_SIZE_def word_unat_eq_iff)
  let ?b = "\<lparr>bt_root = NULL, bt_size = 0, bt_node_allocator = pa, bt_nodes = Map.empty\<rparr>"
  have sv: "pool_serves serves (pa, st) FDB_BTREE_NODE_ALIGNMENT sizeof_node"
    using c(3) st(4) al by (simp add: pool_serves_def FDB_BTREE_NODE_ALIGNMENT_def sizeof_node_def)
  have m: "bt_mem alloc free ainv room serves (?b, st) (Suc n)"
    unfolding bt_mem_def prod.case by (rule exI [of _ Map.empty]) (use inv st(3) sv in simp)
  obtain p b1 st1 where r: "fdb_btree_create_internal (?b, st) = Inr (p, (b1, st1))"
    "btree_holds (b1\<lparr>bt_root := p, bt_size := 0\<rparr>) []" "bt_mem alloc free ainv room serves (b1\<lparr>bt_root := p, bt_size := 0\<rparr>, st1) n"
    "bt_size b1 = 0"
    using nodes.create_root_spec [OF m] by auto
  have "b1\<lparr>bt_root := p\<rparr> = b1\<lparr>bt_root := p, bt_size := 0\<rparr>" using r(4) by (cases b1) simp
  then have "fdb_btree_init a g hdr st = Inr (b1\<lparr>bt_root := p, bt_size := 0\<rparr>, st1)"
    using pa r(1) by (simp add: fdb_btree_init_def)
  then show ?thesis using r(2,3) by blast
qed

end

section \<open>Properties\<close>

text \<open>C26: The B+ tree is a map sorted by key. From \<open>fdb_btree_init\<close> over a page allocator on,
  any sequence of insertions of values that are not NULL, lookups, iterations and clearings for
  which the allocator has pages returns, without an error and within \<open>BT_FUEL\<close> levels, exactly
  what a finite map returns: an insertion keeps the value of a key that is present and reports
  whether it was new, its \<open>p_place\<close> is the slot of the value, a lookup finds the value or NULL,
  and an iteration delivers every entry once, in ascending order of the keys.\<close>

theorem btree_refines_map:
  assumes "page_inv pg live" "live_apart live" "page_room pg (Suc ((\<Sum>c\<leftarrow>cs. bt_need c)))"
    and "page_serves pg 64 4096" "\<forall>c\<in>set cs. bt_legal c" "length cs < fuel"
  shows "\<exists>b pg' bs. fdb_btree_init (Some fdb_page_alloc_super) g hdr pg = Inr (b, pg') \<and>
    run_bt fuel cs (b, pg') = Inr (fst (run_map cs Map.empty), bs)"
proof -
  obtain b pg' where b: "fdb_btree_init (Some fdb_page_alloc_super) g hdr pg = Inr (b, pg')" "btree_holds b []"
    "bt_mem fdb_page_alloc_alloc fdb_page_alloc_free page_inv page_room page_serves (b, pg') (\<Sum>c\<leftarrow>cs. bt_need c)"
    using pool_page.btree_init_spec [where a = "Some fdb_page_alloc_super" and g = g and hdr = hdr, OF _ _ assms(1-4)]
    by (auto simp: fdb_page_alloc_super_def)
  then show ?thesis
    using page_nodes.run_bt_spec [OF b(2), of pg' cs 0 fuel] assms(5,6) by fastforce
qed

text \<open>A region of 256 KB in small pages of 64 bytes and large pages of 4096 bytes.\<close>

definition demo_bt_page :: fdb_page_alloc_t where
  "demo_bt_page = \<lparr>pg_data = 4096, pg_stop = 4096, pg_ltop = 262144, pg_snextfree = NULL,
     pg_lnextfree = NULL, pg_sregion = 262144, pg_ssize = 64, pg_lsize = 4096,
     pg_stats = \<lparr>st_allocated = 262144, st_lost = 0, st_used = 0\<rparr>, pg_hdr = (\<lambda>_. 0)\<rparr>"

lemma demo_bt_page_init:
  "fdb_page_alloc_init demo_heap () (\<lambda>_. 0) 262144 64 4096 = Inr (demo_bt_page, ())"
  by (simp add: fdb_page_alloc_init_def demo_heap_def demo_bt_page_def mem_alloc_def)

lemma demo_bt_page_inv: "page_inv demo_bt_page Map.empty" "page_room demo_bt_page 60" "page_serves demo_bt_page 64 4096"
proof -
  have "0 < unat (pg_data demo_bt_page)" "unat (pg_data demo_bt_page) + unat (262144 :: u64) < 2 ^ 64"
    "unat (64 :: u32) + 2 * unat (4096 :: u32) + 60 * (unat (64 :: u32) + unat (4096 :: u32)) \<le> unat (262144 :: u64)"
    by (simp_all add: demo_bt_page_def)
  from page_init_inv [OF demo_bt_page_init this] show "page_inv demo_bt_page Map.empty" "page_room demo_bt_page 60" by simp_all
  show "page_serves demo_bt_page 64 4096" by (simp add: page_serves_def demo_bt_page_def)
qed

theorem btree_refines_map_witness:
  "\<exists>b pg' bs. fdb_btree_init (Some fdb_page_alloc_super) fdb_page_alloc_super (\<lambda>_. 0) demo_bt_page = Inr (b, pg') \<and>
    run_bt 6 [BInsert 5 100, BInsert 3 200, BInsert 5 300, BGet 5, BIterate] (b, pg') =
      Inr ([OInserted True 100, OInserted True 200, OInserted False 100, OGot 100,
            OEntries [(3, 200), (5, 100)]], bs)"
proof -
  let ?cs = "[BInsert 5 100, BInsert 3 200, BInsert 5 300, BGet 5, BIterate]"
  have "page_room demo_bt_page (Suc (\<Sum>c\<leftarrow>?cs. bt_need c))"
    by (simp add: BT_NODES_def page_room_def demo_bt_page_def)
  moreover have "fst (run_map ?cs Map.empty) = [OInserted True 100, OInserted True 200, OInserted False 100, OGot 100,
            OEntries [(3, 200), (5, 100)]]"
    by (simp add: sorted_entries_def)
  ultimately show ?thesis
    using btree_refines_map [OF demo_bt_page_inv(1) live_apart_empty _ demo_bt_page_inv(3), of ?cs 6] by simp
qed

end
