(* ===== verification/BtreeRemove.thy ===== *)
theory BtreeRemove
  imports BtreeMap
begin

text \<open>
  Removal from the B+ tree of src/src/common/btree.c, as the code has it, and what modelling it
  showed: the cases in which it reads outside a leaf, through NULL, or leaves a sibling pointer
  to a freed leaf. The plain \<open>assert\<close> calls of the merges are \<open>AssertFail\<close>.
\<close>

section \<open>Operations\<close>

definition fdb_btree_remove_shift_internal ::
  "'st fdb_btree_t \<times> 'st \<Rightarrow> ptr \<Rightarrow> nat \<Rightarrow> ('st fdb_btree_t \<times> 'st) res" where
  "fdb_btree_remove_shift_internal bs node idx =
     bind_res (internal_at (bt_nodes (fst bs)) node) (\<lambda>n.
     bind_res (rd (in_children n) idx) (\<lambda>old.
     let start = (if idx = 0 then 0 else idx - 1) in
     bind_res (if in_nchildren n = 0 then Inl OutOfBounds
               else wr (shift_down (in_children n) idx) (unat (in_nchildren n) - 1) NULL) (\<lambda>children.
     fdb_btree_destroy_node BT_FUEL (write_node bs node (E_INTERNAL
       (n\<lparr>in_children := children, in_keys := shift_down (in_keys n) start,
          in_nchildren := in_nchildren n - 1\<rparr>))) old)))"

definition fdb_btree_remove_shift_leaf ::
  "fdb_btree_leaf_t \<Rightarrow> nat \<Rightarrow> (ptr \<times> fdb_btree_leaf_t) res" where
  "fdb_btree_remove_shift_leaf node idx =
     bind_res (rd (lf_leafs node) idx) (\<lambda>value.
     let leafs = shift_down ((lf_leafs node)[idx := NULL]) idx;
         keys = shift_down (lf_keys node) idx in
     bind_res (if lf_nleafs node = 0 then Inl OutOfBounds
               else wr leafs (unat (lf_nleafs node) - 1) NULL) (\<lambda>leafs.
     Inr (value, node\<lparr>lf_leafs := leafs, lf_keys := keys, lf_nleafs := lf_nleafs node - 1\<rparr>)))"

text \<open>The loops of the two merges, over the pair of the children.\<close>

definition merge_internal_nodes ::
  "fdb_btree_internal_t \<Rightarrow> fdb_btree_internal_t \<Rightarrow> u32 \<Rightarrow> fdb_btree_internal_t \<times> fdb_btree_internal_t" where
  "merge_internal_nodes child1 child2 separator =
     (let num_elements1 = unat (in_nchildren child1); num_elements2 = unat (in_nchildren child2);
          (child1, child2) = fold (\<lambda>i (c1, c2).
              (c1\<lparr>in_children := (in_children c1)[unat (in_nchildren c1) := in_children c2 ! i],
                  in_nchildren := in_nchildren c1 + 1\<rparr>,
               c2\<lparr>in_children := (in_children c2)[i := NULL]\<rparr>)) [0..<num_elements2] (child1, child2)
      in if 1 < num_elements2 then
           (child1\<lparr>in_keys := fold (\<lambda>i keys. keys[num_elements1 - 1 + i + 1 := in_keys child2 ! i])
              [0..<num_elements2 - 1] ((in_keys child1)[num_elements1 - 1 := separator])\<rparr>, child2)
         else (child1, child2))"

definition fdb_btree_merge_internal ::
  "'st fdb_btree_t \<times> 'st \<Rightarrow> ptr \<Rightarrow> nat \<Rightarrow> nat \<Rightarrow> ('st fdb_btree_t \<times> 'st) res" where
  "fdb_btree_merge_internal bs node idx1 idx2 =
     (if idx2 \<noteq> idx1 + 1 then Inl AssertFail else
     bind_res (internal_at (bt_nodes (fst bs)) node) (\<lambda>n.
     bind_res (rd (in_children n) idx1) (\<lambda>child1.
     bind_res (rd (in_children n) idx2) (\<lambda>child2.
     bind_res (internal_at (bt_nodes (fst bs)) child1) (\<lambda>c1.
     bind_res (internal_at (bt_nodes (fst bs)) child2) (\<lambda>c2.
     if FDB_BTREE_INTERNAL_MAX_ARITY < unat (in_nchildren c1) + unat (in_nchildren c2) then Inl AssertFail else
     if in_nchildren c1 = 0 \<and> 1 < in_nchildren c2 then Inl OutOfBounds else
     let (c1, c2) = merge_internal_nodes c1 c2 (in_keys n ! (idx2 - 1)) in
     fdb_btree_remove_shift_internal
       (write_node (write_node bs child1 (E_INTERNAL c1)) child2 (E_INTERNAL c2)) node idx2))))))"

definition merge_leaf_nodes ::
  "fdb_btree_leaf_t \<Rightarrow> fdb_btree_leaf_t \<Rightarrow> fdb_btree_leaf_t \<times> fdb_btree_leaf_t" where
  "merge_leaf_nodes child1 child2 =
     (let (child1, child2) = fold (\<lambda>i (c1, c2).
          (c1\<lparr>lf_leafs := (lf_leafs c1)[unat (lf_nleafs c1) := lf_leafs c2 ! i],
              lf_keys := (lf_keys c1)[unat (lf_nleafs c1) := lf_keys c2 ! i],
              lf_nleafs := lf_nleafs c1 + 1\<rparr>,
           c2\<lparr>lf_leafs := (lf_leafs c2)[i := NULL]\<rparr>)) [0..<unat (lf_nleafs child2)] (child1, child2)
      in (child1\<lparr>lf_next := lf_next child2\<rparr>, child2))"

definition fdb_btree_merge_leaf ::
  "'st fdb_btree_t \<times> 'st \<Rightarrow> ptr \<Rightarrow> nat \<Rightarrow> nat \<Rightarrow> ('st fdb_btree_t \<times> 'st) res" where
  "fdb_btree_merge_leaf bs node idx1 idx2 =
     (if idx2 \<noteq> idx1 + 1 then Inl AssertFail else
     bind_res (internal_at (bt_nodes (fst bs)) node) (\<lambda>n.
     bind_res (rd (in_children n) idx1) (\<lambda>child1.
     bind_res (rd (in_children n) idx2) (\<lambda>child2.
     bind_res (leaf_at (bt_nodes (fst bs)) child1) (\<lambda>c1.
     bind_res (leaf_at (bt_nodes (fst bs)) child2) (\<lambda>c2.
     let (c1, c2) = merge_leaf_nodes c1 c2 in
     fdb_btree_remove_shift_internal
       (write_node (write_node bs child1 (E_LEAF c1)) child2 (E_LEAF c2)) node idx2))))))"

text \<open>\<open>node_empty\<close> and \<open>try_merge\<close> are the two tests after the recursive call. The reference
  parameters \<open>min_changed\<close> and \<open>new_min\<close> are an option: the new minimum, if it changed.\<close>

definition node_empty :: "btheap \<Rightarrow> ptr \<Rightarrow> bool res" where
  "node_empty h child = bind_res (node_at h child) (\<lambda>c. Inr (case c of
     E_INTERNAL i \<Rightarrow> in_nchildren i = 0 | E_LEAF l \<Rightarrow> lf_nleafs l = 0))"

definition try_merge :: "'st fdb_btree_t \<times> 'st \<Rightarrow> ptr \<Rightarrow> nat \<Rightarrow> ('st fdb_btree_t \<times> 'st) res" where
  "try_merge bs node child_idx =
     bind_res (internal_at (bt_nodes (fst bs)) node) (\<lambda>n.
     if child_idx < FDB_BTREE_INTERNAL_MAX_ARITY - 1 \<and> in_children n ! (child_idx + 1) \<noteq> NULL then
       let child1 = in_children n ! child_idx; child2 = in_children n ! (child_idx + 1) in
       bind_res (node_at (bt_nodes (fst bs)) child1) (\<lambda>c1. case c1 of
         E_INTERNAL i1 \<Rightarrow> bind_res (internal_at (bt_nodes (fst bs)) child2) (\<lambda>i2.
           if unat (in_nchildren i1) + unat (in_nchildren i2) \<le> FDB_BTREE_INTERNAL_MAX_ARITY
           then fdb_btree_merge_internal bs node child_idx (child_idx + 1) else Inr bs)
       | E_LEAF l1 \<Rightarrow> bind_res (leaf_at (bt_nodes (fst bs)) child2) (\<lambda>l2.
           if unat (lf_nleafs l1) + unat (lf_nleafs l2) \<le> FDB_BTREE_LEAF_MAX_ARITY
           then fdb_btree_merge_leaf bs node child_idx (child_idx + 1) else Inr bs))
     else Inr bs)"

fun fdb_btree_remove_node ::
  "nat \<Rightarrow> 'st fdb_btree_t \<times> 'st \<Rightarrow> ptr \<Rightarrow> u32 \<Rightarrow>
   ((ptr \<times> u32 option) \<times> ('st fdb_btree_t \<times> 'st)) res" where
  "fdb_btree_remove_node 0 bs node key = Inl OutOfFuel"
| "fdb_btree_remove_node (Suc fuel) bs node key =
     bind_res (node_at (bt_nodes (fst bs)) node) (\<lambda>n. case n of
       E_INTERNAL i \<Rightarrow>
         let child_idx = fdb_btree_next_internal i key; child = in_children i ! child_idx in
         bind_res (fdb_btree_remove_node fuel bs child key) (\<lambda>((removed, new_min), bs).
         bind_res (internal_at (bt_nodes (fst bs)) node) (\<lambda>i.
         let (bs, new_min) = (case new_min of
               Some m \<Rightarrow> if 0 < child_idx
                 then (write_node bs node (E_INTERNAL (i\<lparr>in_keys := (in_keys i)[child_idx - 1 := m]\<rparr>)), None)
                 else (bs, new_min)
             | None \<Rightarrow> (bs, new_min)) in
         bind_res (node_empty (bt_nodes (fst bs)) child) (\<lambda>gone.
         bind_res (if gone then fdb_btree_remove_shift_internal bs node child_idx else Inr bs) (\<lambda>bs'.
         let new_min = (if gone \<and> child_idx = 0 then Some (in_keys i ! 0) else new_min) in
         bind_res (try_merge bs' node child_idx) (\<lambda>bs.
         Inr ((removed, new_min), bs))))))
     | E_LEAF l \<Rightarrow>
         let child_idx = fdb_btree_next_leaf l key in
         bind_res (rd (lf_leafs l) child_idx) (\<lambda>v.
         bind_res (rd (lf_keys l) child_idx) (\<lambda>k.
         if v = NULL \<or> k \<noteq> key then Inr ((NULL, None), bs) else
         bind_res (fdb_btree_remove_shift_leaf l child_idx) (\<lambda>(value, l).
         let (btree, st) = write_node bs node (E_LEAF l) in
         Inr ((value, if child_idx = 0 then Some (lf_keys l ! child_idx) else None),
              (btree\<lparr>bt_size := bt_size btree - 1\<rparr>, st))))))"

definition fdb_btree_remove ::
  "'st fdb_btree_t \<times> 'st \<Rightarrow> u32 \<Rightarrow> (ptr \<times> ('st fdb_btree_t \<times> 'st)) res" where
  "fdb_btree_remove bs key =
     (let root = bt_root (fst bs) in
     bind_res (fdb_btree_remove_node BT_FUEL bs root key) (\<lambda>((value, new_min), bs).
     bind_res (internal_at (bt_nodes (fst bs)) root) (\<lambda>n.
     bind_res (if in_nchildren n = 1 then bind_res (node_at (bt_nodes (fst bs)) (in_children n ! 0))
                 (\<lambda>c. Inr (case c of E_INTERNAL i \<Rightarrow> True | E_LEAF l \<Rightarrow> False))
               else Inr False) (\<lambda>collapse.
     if collapse then
       let (btree, st) = write_node bs root (E_INTERNAL (n\<lparr>in_nchildren := 0,
             in_children := (in_children n)[0 := NULL]\<rparr>)) in
       bind_res (fdb_btree_destroy_node BT_FUEL (btree\<lparr>bt_root := in_children n ! 0\<rparr>, st) root) (\<lambda>bs.
       Inr (value, bs))
     else Inr (value, bs)))))"

section \<open>Properties\<close>

lemma create_node_result:
  assumes "create_node z (b, st) = Inr (p, (b', st'))"
  shows "p \<noteq> NULL \<and> bt_nodes b' = (bt_nodes b)(p \<mapsto> z)"
  using assms by (cases "fdb_pool_alloc_alloc (bt_node_allocator b, st) FDB_BTREE_NODE_ALIGNMENT sizeof_node (- 1)")
    (auto simp: create_node_def split: if_splits)

text \<open>Removing from a tree that \<open>fdb_btree_init\<close> has just made reads through NULL: the root
  has no child, and \<open>fdb_btree_remove_node\<close> is called on it without a test.\<close>

theorem btree_remove_empty_crashes:
  assumes "fdb_btree_init a g hdr st = Inr (b, st')"
  shows "fdb_btree_remove (b, st') key = Inl NullDeref"
proof -
  obtain pool p b1 st1 where c: "create_node (E_INTERNAL zero_internal)
      (\<lparr>bt_root = NULL, bt_size = 0, bt_node_allocator = pool, bt_nodes = Map.empty\<rparr>, st) = Inr (p, (b1, st1))"
    "b = b1\<lparr>bt_root := p\<rparr>"
    using assms by (auto simp: fdb_btree_init_def fdb_btree_create_internal_def res_simps)
  have b: "bt_root b = p" "p \<noteq> NULL" "bt_nodes b p = Some (E_INTERNAL zero_internal)"
    using create_node_result [OF c(1)] c(2) by simp_all
  have scan: "fdb_btree_next_internal zero_internal key = 0"
    unfolding fdb_btree_next_internal_def
    by (subst next_internal_from.simps) (simp add: zero_internal_def btree_consts)
  obtain f where fuel: "BT_FUEL = Suc (Suc f)" using that [of 62] by (simp add: BT_FUEL_def)
  have "fdb_btree_remove_node BT_FUEL (b, st') p key = Inl NullDeref"
    unfolding fuel using b scan by (simp add: at_simps node_at_def zero_internal_def btree_consts)
  then show ?thesis using b(1) by (simp add: fdb_btree_remove_def)
qed

text \<open>The leaf that a key descends to.\<close>

function leaf_for :: "tree \<Rightarrow> u32 \<Rightarrow> entries" where
  "leaf_for (TL p kvs) key = kvs"
| "leaf_for (TN p ts ks) key = (let i = length (takeWhile (\<lambda>k. k \<le> key) ks)
     in if i < length ts then leaf_for (ts ! i) key else [])"
  by pat_completeness auto
termination
  by (relation "measure (\<lambda>(t, key). size t)") (auto simp: less_Suc_eq_le intro: size_list_estimation' nth_mem)

lemma remove_node_overruns:
  assumes "tree_ok n lo t hi" "rep (bt_nodes b) t nx" "n < fuel"
    and "length (leaf_for t key) = 9" "\<forall>e\<in>set (leaf_for t key). fst e < key"
  shows "fdb_btree_remove_node fuel (b, st) (root_of t) key = Inl OutOfBounds"
  using assms
proof (induction n arbitrary: lo t hi nx fuel)
  case 0
  obtain f where f: "fuel = Suc f" using 0 by (cases fuel) auto
  obtain p kvs where t: "t = TL p kvs" and ok: "leaf_ok lo kvs hi" using 0 by (cases t) auto
  obtain l where l: "p \<noteq> NULL" "bt_nodes b p = Some (E_LEAF l)" "leaf_rep l kvs nx" using 0 t by auto
  have "fdb_btree_next_leaf l key = 9"
    using leaf_scan(1) [OF l(3) ok refl, of key] 0(4,5) t by (simp add: takeWhile_eq_all_conv [THEN iffD2])
  moreover have "length (lf_leafs l) = 9" using l(3) by (simp add: leaf_rep_def)
  ultimately show ?case using l f t by (simp add: at_simps)
next
  case (Suc n)
  obtain f where f: "fuel = Suc f" "n < f" using Suc.prems(3) by (cases fuel) auto
  obtain p ts ks where t: "t = TN p ts ks" using Suc.prems(1) by (cases t) auto
  then obtain i where i: "p \<noteq> NULL" "bt_nodes b p = Some (E_INTERNAL i)" "internal_rep i (map root_of ts) ks"
    "reps (bt_nodes b) ts nx" using Suc.prems(2) by auto
  define j where "j = length (takeWhile (\<lambda>k. k \<le> key) ks)"
  have ok: "length ts = Suc (length ks)" "lpairs (tree_ok n) (lo # map unat ks @ [hi]) ts"
    using Suc.prems(1) t by auto
  have j: "j < length ts" using ok(1) length_takeWhile_le [of "\<lambda>k. k \<le> key" ks] by (simp add: j_def less_Suc_eq_le)
  have scan: "fdb_btree_next_internal i key = j"
    unfolding j_def by (rule next_internal_rep [OF i(3)]) (use ok(1) reps_roots [OF i(4)] in auto)
  have c: "in_children i ! j = root_of (ts ! j)"
    using i(3) j by (simp add: internal_rep_def nth_append)
  obtain as bs where ab: "ts = as @ ts ! j # bs" using id_take_nth_drop [OF j] by blast
  with i(4) have "reps (bt_nodes b) (as @ ts ! j # bs) nx" by simp
  then have "rep (bt_nodes b) (ts ! j) (firsts bs nx)" by (simp add: reps_append)
  moreover obtain l u where "tree_ok n l (ts ! j) u" using lpairs_ex [OF ok(2) nth_mem [OF j]] by blast
  moreover have "leaf_for t key = leaf_for (ts ! j) key" using t j by (simp add: j_def Let_def)
  ultimately have "fdb_btree_remove_node f (b, st) (root_of (ts ! j)) key = Inl OutOfBounds"
    using Suc.IH f(2) Suc.prems(4,5) by metis
  then show ?case using i(1,2) f(1) t scan c by (simp add: at_simps Let_def)
qed

text \<open>C29: Removing a key that is absent and larger than all keys of a full leaf reads behind the
  arrays of the leaf: \<open>fdb_btree_next_leaf\<close> returns 9 and \<open>fdb_btree_remove_node\<close> does not test
  it, as \<open>fdb_btree_get_node\<close> does.\<close>

theorem btree_remove_absent_overruns:
  assumes "btree_tree b n t" "length (leaf_for t key) = 9" "\<forall>e\<in>set (leaf_for t key). fst e < key"
  shows "fdb_btree_remove (b, st) key = Inl OutOfBounds"
proof -
  have ok: "tree_ok (Suc n) 0 t (2 ^ 32)" "rfill (kids t)" using assms(1,2) by (auto simp: btree_tree_def)
  have tr: "rep (bt_nodes b) t NULL" "root_of t = bt_root b" using assms(1) by (auto simp: btree_tree_def)
  have "Suc n < BT_FUEL" using rfill_height [OF ok] by (simp add: BT_FUEL_def)
  from remove_node_overruns [OF ok(1) tr(1) this assms(2,3)] show ?thesis
    using tr(2) by (simp add: fdb_btree_remove_def)
qed

text \<open>A tree whose root has two leaves, the second with one entry.\<close>

definition two_leaves :: "'st fdb_btree_t \<Rightarrow> ptr \<Rightarrow> ptr \<Rightarrow> entries \<Rightarrow> ptr \<Rightarrow> u32 \<Rightarrow> u32 \<Rightarrow> ptr \<Rightarrow> bool" where
  "two_leaves b p q kvs q' sep k v \<longleftrightarrow> bt_root b = p \<and>
     rep (bt_nodes b) (TN p [TL q kvs, TL q' [(k, v)]] [sep]) NULL \<and>
     tree_ok (Suc 0) 0 (TN p [TL q kvs, TL q' [(k, v)]] [sep]) (2 ^ 32) \<and> distinct [p, q, q']"

lemma remove_last_entry:
  assumes "leaf_rep l [(k, v)] nx"
  shows "fdb_btree_remove_shift_leaf l 0 = Inr (v, l\<lparr>lf_leafs := replicate 9 NULL,
    lf_keys := shift_down (lf_keys l) 0, lf_nleafs := 0\<rparr>)"
proof -
  have l: "lf_leafs l = v # replicate 8 NULL" "lf_nleafs l = 1" "length (lf_keys l) = 9"
    using assms by (auto simp: leaf_rep_def)
  have "(shift_down (NULL # replicate 8 NULL) 0)[0 := NULL] = replicate 9 NULL"
    by (simp add: shift_down_remove eval_nat_numeral)
  then show ?thesis using l by (simp add: fdb_btree_remove_shift_leaf_def)
qed

lemma free_node_sel [simp]:
  "bt_nodes (fst (free_node bs p)) = (bt_nodes (fst bs))(p := None)"
  "bt_root (fst (free_node bs p)) = bt_root (fst bs)"
  by (simp_all add: free_node_def split: prod.splits)

lemma destroy_leaf:
  "p \<noteq> NULL \<Longrightarrow> bt_nodes (fst bs) p = Some (E_LEAF l) \<Longrightarrow>
   fdb_btree_destroy_node BT_FUEL bs p = Inr (free_node bs p)"
  by (simp add: BT_FUEL_def numeral_eq_Suc at_simps)

text \<open>Dropping the second of two children.\<close>

lemma remove_second_child:
  assumes "p \<noteq> NULL" "bt_nodes (fst bs) p = Some (E_INTERNAL i)" "in_children i = q # q' # replicate 8 NULL"
    "in_nchildren i = 2" "q' \<noteq> NULL" "bt_nodes (fst bs) q' = Some (E_LEAF l)" "p \<noteq> q'"
  shows "fdb_btree_remove_shift_internal bs p 1 = Inr (free_node (write_node bs p (E_INTERNAL
    (i\<lparr>in_children := q # replicate 9 NULL, in_keys := shift_down (in_keys i) 0, in_nchildren := 1\<rparr>))) q')"
proof -
  have "(shift_down (q # q' # replicate 8 NULL) 1)[1 := NULL] = q # replicate 9 NULL"
    by (simp add: shift_down_remove eval_nat_numeral)
  then show ?thesis using assms
    by (simp add: fdb_btree_remove_shift_internal_def at_simps destroy_leaf)
qed

lemma walk_dangling:
  assumes "leaf_chain h q [(q, kvs)] q'" "q' \<noteq> NULL" "h q' = None" "i < length kvs" "length kvs < fuel + i"
  shows "btree_walk fuel h \<lparr>it_leaf = q, it_index = of_nat i\<rparr> = Inl BadPointer"
  using assms(4,5)
proof (induction fuel arbitrary: i)
  case (Suc fuel)
  obtain p' i' where s: "fdb_btree_iter_next h \<lparr>it_leaf = q, it_index = of_nat i\<rparr> =
     Inr (\<lparr>be_key = fst (kvs ! i), be_value = snd (kvs ! i)\<rparr>, \<lparr>it_leaf = p', it_index = of_nat i'\<rparr>)"
    "if Suc i < length kvs then p' = q \<and> i' = Suc i else i' = 0 \<and> leaf_chain h p' [] q'"
    using iter_step(2) [OF assms(1) Suc.prems(1)] by blast
  have "btree_walk fuel h \<lparr>it_leaf = p', it_index = of_nat i'\<rparr> = Inl BadPointer"
  proof (cases "Suc i < length kvs")
    case True
    then show ?thesis using s(2) Suc.IH [of "Suc i"] Suc.prems(2) by (simp del: of_nat_Suc)
  next
    case False
    then have "p' = q'" "i' = 0" using s(2) by simp_all
    moreover obtain f where "fuel = Suc f" using Suc.prems False by (cases fuel) auto
    ultimately show ?thesis using assms(2,3) by (simp add: fdb_btree_iter_has_next_def leaf_at_def node_at_def)
  qed
  then show ?case using iter_step(1) [OF assms(1) Suc.prems(1)] s(1) by simp
qed simp

text \<open>C28: Removing the only entry of the second leaf frees that leaf, but its left sibling keeps
  pointing to it: \<open>m_next\<close> is only corrected when leaves are merged. An iteration over the tree
  then reads the freed leaf after the last entry.\<close>

theorem btree_remove_dangling_sibling:
  assumes "two_leaves b p q kvs q' sep k v" "kvs \<noteq> []" "length kvs < fuel"
  shows "\<exists>b' st'. fdb_btree_remove (b, st) k = Inr (v, (b', st')) \<and> q' \<notin> dom (bt_nodes b') \<and>
    (\<exists>l. bt_nodes b' q = Some (E_LEAF l) \<and> lf_next l = q') \<and> btree_iterate fuel b' = Inl BadPointer"
proof -
  let ?t = "TN p [TL q kvs, TL q' [(k, v)]] [sep]"
  have t: "bt_root b = p" "distinct [p, q, q']" "rep (bt_nodes b) ?t NULL" "tree_ok (Suc 0) 0 ?t (2 ^ 32)"
    using assms(1) by (auto simp: two_leaves_def)
  obtain i l l' where n: "p \<noteq> NULL" "q \<noteq> NULL" "q' \<noteq> NULL" "bt_nodes b p = Some (E_INTERNAL i)"
    "bt_nodes b q = Some (E_LEAF l)" "bt_nodes b q' = Some (E_LEAF l')" "internal_rep i [q, q'] [sep]"
    "leaf_rep l kvs q'" "leaf_rep l' [(k, v)] NULL" using t(3) by auto
  let ?g = "lf_keys l' ! 1"
  let ?l0 = "l'\<lparr>lf_leafs := replicate 9 NULL, lf_keys := shift_down (lf_keys l') 0, lf_nleafs := 0\<rparr>"
  let ?b1 = "(fst (write_node (b, st) q' (E_LEAF ?l0)))\<lparr>bt_size := bt_size b - 1\<rparr>"
  let ?i1 = "i\<lparr>in_keys := (in_keys i)[0 := ?g]\<rparr>"
  let ?i2 = "?i1\<lparr>in_children := q # replicate 9 NULL, in_keys := shift_down (in_keys ?i1) 0, in_nchildren := 1\<rparr>"
  let ?bs2 = "write_node (?b1, st) p (E_INTERNAL ?i1)"
  let ?bs3 = "free_node (write_node ?bs2 p (E_INTERNAL ?i2)) q'"
  have ch: "in_children i = q # q' # replicate 8 NULL" "in_nchildren i = 2" using n(7) by (auto simp: internal_rep_def)
  have kv: "v \<noteq> NULL" "unat sep \<le> unat k" using t(4) by (auto simp: leaf_ok_def)
  have "fdb_btree_next_internal i k = length (takeWhile (\<lambda>x. x \<le> k) [sep])"
    by (rule next_internal_rep [OF n(7)]) (use n(2,3) in auto)
  then have scan: "fdb_btree_next_internal i k = 1" using kv(2) by (simp add: word_le_nat_alt)
  have scan': "fdb_btree_next_leaf l' k = 0"
    using next_leaf_rep [OF n(9), of k] kv(1) by simp
  have slot: "lf_leafs l' = v # replicate 8 NULL" "lf_keys l' ! 0 = k" "length (lf_keys l') = 9"
    using n(9) by (auto simp: leaf_rep_def take_Suc_conv_app_nth)
  have g: "shift_down (lf_keys l') 0 ! 0 = ?g" using slot(3) by (simp add: shift_down_nth)
  obtain f where f: "BT_FUEL = Suc (Suc f)" using that [of 62] by (simp add: BT_FUEL_def)
  have leaf: "fdb_btree_remove_node (Suc f) (b, st) q' k = Inr ((v, Some ?g), (?b1, st))"
    using n(3,6) scan' slot kv(1) remove_last_entry [OF n(9)] g
    by (simp add: at_simps write_node_def)
  have ne: "q' \<noteq> p" "p \<noteq> q'" "q \<noteq> q'" "q \<noteq> p" using t(2) by auto
  have gone: "node_empty (bt_nodes (fst ?bs2)) q' = Inr True"
    using n(3) ne by (simp add: node_empty_def at_simps)
  have drop: "fdb_btree_remove_shift_internal ?bs2 p 1 = Inr ?bs3"
    by (rule remove_second_child [where l = ?l0]) (use n t(2) ch in auto)
  have merge: "try_merge ?bs3 p 1 = Inr ?bs3"
    using n(1) t(2) by (simp add: try_merge_def at_simps btree_consts)
  have "fdb_btree_remove_node BT_FUEL (b, st) p k = Inr ((v, None), ?bs3)"
    unfolding f using n(1,3,4) scan ch leaf drop merge ne gone
    by (subst fdb_btree_remove_node.simps(2)) (simp add: at_simps Let_def del: fdb_btree_remove_node.simps)
  then have run: "fdb_btree_remove (b, st) k = Inr (v, ?bs3)"
    using t(1) ne n(1,2,5) by (simp add: fdb_btree_remove_def at_simps)
  have nodes: "bt_nodes (fst ?bs3) q = Some (E_LEAF l)" "bt_nodes (fst ?bs3) q' = None"
    "bt_nodes (fst ?bs3) p = Some (E_INTERNAL ?i2)" "bt_root (fst ?bs3) = p"
    using t(1) ne n(5) by simp_all
  have next': "lf_next l = q'" "leaf_chain (bt_nodes (fst ?bs3)) q [(q, kvs)] q'"
    using n(2,8) nodes(1) by (simp_all add: leaf_rep_def)
  have "fdb_btree_iter_init (fst ?bs3) = Inr \<lparr>it_leaf = q, it_index = of_nat 0\<rparr>"
    unfolding fdb_btree_iter_init_def f nodes(4) using n(1,2) nodes(1,3) by (simp add: at_simps)
  moreover have "btree_walk fuel (bt_nodes (fst ?bs3)) \<lparr>it_leaf = q, it_index = of_nat 0\<rparr> = Inl BadPointer"
    by (rule walk_dangling [OF next'(2) n(3) nodes(2)]) (use assms(2,3) in simp_all)
  ultimately have "btree_iterate fuel (fst ?bs3) = Inl BadPointer"
    by (simp only: btree_iterate_def bind_res.simps)
  then show ?thesis using next'(1) run nodes(1,2)
    by (intro exI [of _ "fst ?bs3"] exI [of _ "snd ?bs3"]) (simp add: domIff del: free_node_sel)
qed

text \<open>Merging a node with a right sibling that has a single child does not write the key that
  separates the two: the test \<open>m_nchildren > 1\<close> skips it. The key slot keeps the 0 that an
  earlier split left there, so a key that descended to the last child of the left node before
  the merge descends to the child of the right one after it, and is no longer found.\<close>

theorem merge_internal_misroutes:
  assumes "internal_rep c1 cs ks" "length cs = Suc (length ks)" "length ks < 9" "\<forall>c\<in>set cs. c \<noteq> NULL"
    and "in_keys c1 ! length ks = 0" "internal_rep c2 [x] []" "x \<noteq> NULL" "\<forall>k\<in>set ks. k \<le> key"
  shows "in_children c1 ! fdb_btree_next_internal c1 key = last cs \<and>
    (let c1' = fst (merge_internal_nodes c1 c2 sep) in in_children c1' ! fdb_btree_next_internal c1' key = x)"
proof -
  have i: "in_children c1 = cs @ replicate (10 - length cs) NULL" "take (length ks) (in_keys c1) = ks"
    "length (in_keys c1) = 9" "in_nchildren c1 = of_nat (length cs)" "length cs \<le> 10"
    using assms(1) by (auto simp: internal_rep_def)
  have n1: "unat (in_nchildren c1) = length cs"
    using i(5) unfolding i(4) by (simp add: unsigned_of_nat take_bit_nat_eq_self)
  have j: "in_children c2 = x # replicate 9 NULL" "unat (in_nchildren c2) = 1"
    using assms(6) by (auto simp: internal_rep_def)
  have tw: "takeWhile (\<lambda>k. k \<le> key) ks = ks" using assms(8) by (simp add: takeWhile_eq_all_conv)
  have "fdb_btree_next_internal c1 key = length ks"
    using next_internal_rep [OF assms(1,2,4), of key] tw by simp
  then have 1: "in_children c1 ! fdb_btree_next_internal c1 key = last cs"
    using assms(2) i(1) last_conv_nth [of cs] by (cases "cs = []") (simp_all add: nth_append)
  let ?c1 = "fst (merge_internal_nodes c1 c2 sep)"
  have m: "?c1 = c1\<lparr>in_children := (in_children c1)[length cs := x], in_nchildren := in_nchildren c1 + 1\<rparr>"
    using j n1 by (simp add: merge_internal_nodes_def)
  have "replicate (10 - length cs) NULL = NULL # replicate (9 - length cs) NULL"
    using assms(2,3) by (simp add: Suc_diff_le flip: replicate_Suc)
  then have ch: "in_children ?c1 = (cs @ [x]) @ replicate (10 - length (cs @ [x])) NULL"
    unfolding m by (simp add: i(1))
  have "take (Suc (length ks)) (in_keys c1) = ks @ [0]"
    using i(2,3) assms(3,5) by (simp add: take_Suc_conv_app_nth)
  then have "internal_rep ?c1 (cs @ [x]) (ks @ [0])"
    unfolding internal_rep_def ch using i assms(2,3) m by simp
  from next_internal_rep [OF this, of key] have "fdb_btree_next_internal ?c1 key = length cs"
    using assms(2,4,7,8) tw by (simp add: takeWhile_append)
  then show ?thesis unfolding Let_def using 1 ch by (simp add: nth_append)
qed

section \<open>Witnesses\<close>

theorem btree_remove_empty_crashes_witness:
  "\<exists>b pg. fdb_btree_init (Some fdb_page_alloc_super) fdb_page_alloc_super (\<lambda>_. 0) demo_bt_page = Inr (b, pg) \<and>
     fdb_btree_remove (b, pg) 7 = Inl NullDeref"
proof -
  have "page_room demo_bt_page (Suc 0)" by (simp add: page_room_def demo_bt_page_def)
  then obtain b pg where i: "fdb_btree_init (Some fdb_page_alloc_super) fdb_page_alloc_super (\<lambda>_. 0) demo_bt_page = Inr (b, pg)"
    using pool_page.btree_init_spec [where a = "Some fdb_page_alloc_super" and g = fdb_page_alloc_super and hdr = "\<lambda>_. 0",
        OF _ _ demo_bt_page_inv(1) live_apart_empty, of 0] demo_bt_page_inv(3)
    by (auto simp: fdb_page_alloc_super_def)
  then show ?thesis using btree_remove_empty_crashes [OF i, of 7] by blast
qed

text \<open>A tree with one full leaf, and one with two leaves.\<close>

definition demo_leaf :: "entries \<Rightarrow> ptr \<Rightarrow> fdb_btree_leaf_t" where
  "demo_leaf kvs nx = \<lparr>lf_leafs = map snd kvs @ replicate (9 - length kvs) NULL, lf_next = nx,
     lf_keys = map fst kvs @ replicate (9 - length kvs) 0, lf_nleafs = of_nat (length kvs)\<rparr>"

definition demo_internal :: "ptr list \<Rightarrow> u32 list \<Rightarrow> fdb_btree_internal_t" where
  "demo_internal cs ks = \<lparr>in_children = cs @ replicate (10 - length cs) NULL,
     in_keys = ks @ replicate (9 - length ks) 0, in_nchildren = of_nat (length cs)\<rparr>"

definition demo_full :: entries where
  "demo_full = [(1, 101), (2, 102), (3, 103), (4, 104), (5, 105), (6, 106), (7, 107), (8, 108), (9, 109)]"

definition demo_btree :: "btheap \<Rightarrow> u32 \<Rightarrow> fdb_page_alloc_t fdb_btree_t" where
  "demo_btree h n = \<lparr>bt_root = 64, bt_size = n, bt_node_allocator = demo_pool, bt_nodes = h\<rparr>"

lemma demo_reps:
  "length kvs \<le> 9 \<Longrightarrow> leaf_rep (demo_leaf kvs nx) kvs nx"
  "length cs \<le> 10 \<Longrightarrow> length ks \<le> 9 \<Longrightarrow> internal_rep (demo_internal cs ks) cs ks"
  by (simp_all add: leaf_rep_def demo_leaf_def internal_rep_def demo_internal_def)

theorem btree_remove_absent_overruns_witness:
  "fdb_btree_remove (demo_btree [64 \<mapsto> E_INTERNAL (demo_internal [128] []), 128 \<mapsto> E_LEAF (demo_leaf demo_full NULL)] 9,
     demo_page) 10 = Inl OutOfBounds"
proof -
  let ?b = "demo_btree [64 \<mapsto> E_INTERNAL (demo_internal [128] []), 128 \<mapsto> E_LEAF (demo_leaf demo_full NULL)] 9"
  let ?t = "TN 64 [TL 128 demo_full] []"
  have "btree_tree ?b 0 ?t"
    using demo_reps(1) [of demo_full NULL] demo_reps(2) [of "[128]" "[]"]
    by (auto simp: btree_tree_def demo_btree_def rfill_def leaf_ok_def demo_full_def)
  moreover have "length (leaf_for ?t 10) = 9" "\<forall>e\<in>set (leaf_for ?t 10). fst e < 10"
    by (simp_all add: demo_full_def)
  ultimately show ?thesis by (rule btree_remove_absent_overruns)
qed

theorem btree_remove_dangling_sibling_witness:
  "\<exists>b' st'. fdb_btree_remove (demo_btree [64 \<mapsto> E_INTERNAL (demo_internal [128, 192] [6]),
       128 \<mapsto> E_LEAF (demo_leaf [(1, 101)] 192), 192 \<mapsto> E_LEAF (demo_leaf [(6, 106)] NULL)] 2, demo_page) 6 =
       Inr (106, (b', st')) \<and> btree_iterate 2 b' = Inl BadPointer"
proof -
  let ?b = "demo_btree [64 \<mapsto> E_INTERNAL (demo_internal [128, 192] [6]),
       128 \<mapsto> E_LEAF (demo_leaf [(1, 101)] 192), 192 \<mapsto> E_LEAF (demo_leaf [(6, 106)] NULL)] 2"
  have "two_leaves ?b 64 128 [(1, 101)] 192 6 6 106"
    using demo_reps(1) [of "[(1, 101)]" 192] demo_reps(1) [of "[(6, 106)]" NULL] demo_reps(2) [of "[128, 192]" "[6]"]
    by (simp add: two_leaves_def demo_btree_def leaf_ok_def)
  from btree_remove_dangling_sibling [OF this, of 2 demo_page] show ?thesis by auto
qed

theorem merge_internal_misroutes_witness:
  "let c1 = demo_internal [128, 192] [6]; c1' = fst (merge_internal_nodes c1 (demo_internal [256] []) 9)
   in in_children c1 ! fdb_btree_next_internal c1 7 = 192 \<and> in_children c1' ! fdb_btree_next_internal c1' 7 = 256"
proof -
  have "in_keys (demo_internal [128, 192] [6]) ! length [6 :: u32] = 0" by (simp add: demo_internal_def)
  from merge_internal_misroutes [OF demo_reps(2) _ _ _ this demo_reps(2), of 256 7 9] show ?thesis
    by (simp add: Let_def)
qed

end
