(* ===== verification/Task.thy ===== *)
theory Task
  imports Memory
begin

text \<open>
  src/src/runtime/task/task.c: the graph of tasks that the generated code runs once per frame.
  A task holds the ids of its parents and its children; \<open>fdb_task_graph_run\<close> visits the graph
  breadth first. The function of a task is a parameter \<open>call\<close> of the run: given the function
  pointer it changes the state of the program (database and user data) in its own way. The
  arrays on the stack of the run are lists with their bounds written out; its loops have fuel,
  and the theorems show that \<open>TASK_FUEL\<close> suffices.
\<close>

section \<open>State and operations\<close>

record fdb_task_t =
  tk_id :: u32
  tk_info :: ptr
  tk_func :: ptr
  tk_requires_sync :: bool
  tk_parents :: "u32 list"
  tk_children :: "u32 list"
  tk_num_parents :: u32
  tk_num_children :: u32

record fdb_task_graph_t =
  tg_tasks :: "fdb_task_t list"
  tg_roots :: "u32 list"
  tg_num_tasks :: u32
  tg_num_roots :: u32
  tg_tasks_at :: ptr
  tg_roots_at :: ptr

definition FCC_MAX_TASK_PARENTS :: nat where "FCC_MAX_TASK_PARENTS = 16"
definition FCC_MAX_TASK_CHILDREN :: nat where "FCC_MAX_TASK_CHILDREN = 16"

text \<open>The new arrays have the contents that the memory had. The sizes are truncated to the 32 bits of the
  allocator and its result is not tested: an array has as many whole elements as fit into the memory that was
  asked for, and none when the allocator returns \<open>NULL\<close>, so that any access behind them is out of bounds.\<close>

definition sizeof_task :: u32 where "sizeof_task = 168"

definition fdb_task_graph_init ::
  "('st \<Rightarrow> u32 \<Rightarrow> u32 \<Rightarrow> ptr \<times> 'st) \<Rightarrow> (nat \<Rightarrow> fdb_task_t) \<Rightarrow> (nat \<Rightarrow> u32) \<Rightarrow> u32 \<Rightarrow> u32 \<Rightarrow> 'st \<Rightarrow>
   fdb_task_graph_t \<times> 'st" where
  "fdb_task_graph_init posix_memalign tmem rmem num_tasks num_roots st =
     (let (tasks, st) = fdb_numa_alloc posix_memalign st 64 (sizeof_task * num_tasks) FDB_NO_HINT;
          (roots, st) = fdb_numa_alloc posix_memalign st 64 (4 * num_roots) FDB_NO_HINT
      in (\<lparr>tg_tasks = (if tasks = NULL then [] else map tmem [0..<unat (sizeof_task * num_tasks) div unat sizeof_task]),
           tg_roots = (if roots = NULL then [] else map rmem [0..<unat (4 * num_roots) div 4]),
           tg_num_tasks = num_tasks, tg_num_roots = num_roots, tg_tasks_at = tasks, tg_roots_at = roots\<rparr>, st))"

definition fdb_task_graph_release :: "('st \<Rightarrow> ptr \<Rightarrow> 'st) \<Rightarrow> fdb_task_graph_t \<Rightarrow> 'st \<Rightarrow> 'st" where
  "fdb_task_graph_release libc_free g st =
     fdb_numa_free libc_free (fdb_numa_free libc_free st (tg_tasks_at g)) (tg_roots_at g)"

definition zero_task :: fdb_task_t where
  "zero_task = \<lparr>tk_id = 0, tk_info = NULL, tk_func = NULL, tk_requires_sync = False,
     tk_parents = replicate FCC_MAX_TASK_PARENTS 0, tk_children = replicate FCC_MAX_TASK_CHILDREN 0,
     tk_num_parents = 0, tk_num_children = 0\<rparr>"

definition fdb_task_graph_insert_task ::
  "fdb_task_graph_t \<Rightarrow> u32 \<Rightarrow> ptr \<Rightarrow> bool \<Rightarrow> ptr \<Rightarrow> fdb_task_graph_t res" where
  "fdb_task_graph_insert_task g task_id func requires_sync info =
     bind_res (wr (tg_tasks g) (unat task_id)
       (zero_task\<lparr>tk_id := task_id, tk_info := info, tk_func := func, tk_requires_sync := requires_sync\<rparr>))
       (\<lambda>tasks. Inr (g\<lparr>tg_tasks := tasks\<rparr>))"

text \<open>\<open>c\<close> and \<open>p\<close> may be the same task: the two updates are made one after the other.\<close>

definition fdb_task_graph_set_parent ::
  "fdb_task_graph_t \<Rightarrow> u32 \<Rightarrow> u32 \<Rightarrow> fdb_task_graph_t res" where
  "fdb_task_graph_set_parent g task_id parent_id =
     bind_res (rd (tg_tasks g) (unat task_id)) (\<lambda>c.
     bind_res (wr (tk_parents c) (unat (tk_num_parents c)) parent_id) (\<lambda>parents.
     let tasks = (tg_tasks g)[unat task_id := c\<lparr>tk_parents := parents, tk_num_parents := tk_num_parents c + 1\<rparr>] in
     bind_res (rd tasks (unat parent_id)) (\<lambda>p.
     bind_res (wr (tk_children p) (unat (tk_num_children p)) task_id) (\<lambda>children.
     Inr (g\<lparr>tg_tasks := tasks[unat parent_id :=
       p\<lparr>tk_children := children, tk_num_children := tk_num_children p + 1\<rparr>]\<rparr>)))))"

definition fdb_task_graph_set_root :: "fdb_task_graph_t \<Rightarrow> u32 \<Rightarrow> u32 \<Rightarrow> fdb_task_graph_t res" where
  "fdb_task_graph_set_root g root_idx task_id =
     bind_res (wr (tg_roots g) (unat root_idx) task_id) (\<lambda>roots. Inr (g\<lparr>tg_roots := roots\<rparr>))"

section \<open>The run\<close>

text \<open>The loop of \<open>all_visited_parents\<close>, over the indices it has left.\<close>

fun visited_all :: "u32 list \<Rightarrow> bool list \<Rightarrow> nat list \<Rightarrow> bool res" where
  "visited_all parents visited [] = Inr True"
| "visited_all parents visited (i # is) =
     bind_res (rd parents i) (\<lambda>p. bind_res (rd visited (unat p)) (\<lambda>v.
     if \<not> v then Inr False else visited_all parents visited is))"

definition all_visited_parents :: "fdb_task_graph_t \<Rightarrow> u32 \<Rightarrow> bool list \<Rightarrow> bool res" where
  "all_visited_parents g node_id visited =
     bind_res (rd (tg_tasks g) (unat node_id)) (\<lambda>t.
     visited_all (tk_parents t) visited [0..<unat (tk_num_parents t)])"

text \<open>The loop over the children: \<open>nfrontier\<close> is an array of \<open>m_num_tasks\<close> elements.\<close>

definition is_ready :: "fdb_task_graph_t \<Rightarrow> u32 \<Rightarrow> bool list \<Rightarrow> bool res" where
  "is_ready g node visited = bind_res (rd visited (unat node)) (\<lambda>v.
     if v then Inr False else all_visited_parents g node visited)"

fun visit_children ::
  "fdb_task_graph_t \<Rightarrow> u32 list \<Rightarrow> nat list \<Rightarrow> u32 list \<times> bool list \<Rightarrow> (u32 list \<times> bool list) res" where
  "visit_children g children [] fv = Inr fv"
| "visit_children g children (j # js) (nfrontier, visited) =
     bind_res (rd children j) (\<lambda>child_id. bind_res (is_ready g child_id visited) (\<lambda>r.
     if r then (if length nfrontier < unat (tg_num_tasks g)
                then visit_children g children js (nfrontier @ [child_id], visited[unat child_id := True])
                else Inl OutOfBounds)
     else visit_children g children js (nfrontier, visited)))"

text \<open>One pass over the current frontier: each task is run, then its children are visited.\<close>

fun visit_frontier ::
  "(ptr \<Rightarrow> 's \<Rightarrow> 's) \<Rightarrow> fdb_task_graph_t \<Rightarrow> u32 list \<Rightarrow> u32 list \<times> bool list \<times> 's \<Rightarrow>
   (u32 list \<times> bool list \<times> 's) res" where
  "visit_frontier call g [] x = Inr x"
| "visit_frontier call g (node # rest) (nfrontier, visited, s) =
     bind_res (rd (tg_tasks g) (unat node)) (\<lambda>t.
     let s = call (tk_func t) s in
     bind_res (visit_children g (tk_children t) [0..<unat (tk_num_children t)] (nfrontier, visited))
       (\<lambda>(nfrontier, visited). visit_frontier call g rest (nfrontier, visited, s)))"

fun visit_levels ::
  "nat \<Rightarrow> (ptr \<Rightarrow> 's \<Rightarrow> 's) \<Rightarrow> fdb_task_graph_t \<Rightarrow> u32 list \<Rightarrow> bool list \<times> 's \<Rightarrow> (bool list \<times> 's) res" where
  "visit_levels 0 call g cfrontier (visited, s) = Inl OutOfFuel"
| "visit_levels (Suc fuel) call g cfrontier (visited, s) =
     (if cfrontier = [] then Inr (visited, s) else
      bind_res (visit_frontier call g cfrontier ([], visited, s))
        (\<lambda>(nfrontier, visited, s). visit_levels fuel call g nfrontier (visited, s)))"

definition TASK_FUEL :: "fdb_task_graph_t \<Rightarrow> nat" where
  "TASK_FUEL g = unat (tg_num_tasks g) + 2"

text \<open>The loop over all nodes, which starts a visit at every node that is ready.\<close>

fun run_nodes ::
  "(ptr \<Rightarrow> 's \<Rightarrow> 's) \<Rightarrow> fdb_task_graph_t \<Rightarrow> nat list \<Rightarrow> bool \<times> bool list \<times> 's \<Rightarrow>
   (bool \<times> bool list \<times> 's) res" where
  "run_nodes call g [] x = Inr x"
| "run_nodes call g (i # is) (found, visited, s) =
     bind_res (is_ready g (of_nat i) visited) (\<lambda>r.
     if r then bind_res (visit_levels (TASK_FUEL g) call g [of_nat i] (visited[i := True], s))
                 (\<lambda>(visited, s). run_nodes call g is (True, visited, s))
     else run_nodes call g is (found, visited, s))"

fun run_while ::
  "nat \<Rightarrow> (ptr \<Rightarrow> 's \<Rightarrow> 's) \<Rightarrow> fdb_task_graph_t \<Rightarrow> bool list \<times> 's \<Rightarrow> 's res" where
  "run_while 0 call g (visited, s) = Inl OutOfFuel"
| "run_while (Suc fuel) call g (visited, s) =
     bind_res (run_nodes call g [0..<unat (tg_num_tasks g)] (False, visited, s))
       (\<lambda>(found, visited, s). if found then run_while fuel call g (visited, s) else Inr s)"

definition fdb_task_graph_run :: "(ptr \<Rightarrow> 's \<Rightarrow> 's) \<Rightarrow> fdb_task_graph_t \<Rightarrow> 's \<Rightarrow> 's res" where
  "fdb_task_graph_run call g s =
     run_while (TASK_FUEL g) call g (replicate (unat (tg_num_tasks g)) False, s)"

section \<open>Well-formed graphs\<close>

text \<open>The parents and children that the counters of a task cover.\<close>

definition parents_of :: "fdb_task_graph_t \<Rightarrow> nat \<Rightarrow> nat list" where
  "parents_of g i = map unat (take (unat (tk_num_parents (tg_tasks g ! i))) (tk_parents (tg_tasks g ! i)))"

definition children_of :: "fdb_task_graph_t \<Rightarrow> nat \<Rightarrow> nat list" where
  "children_of g i = map unat (take (unat (tk_num_children (tg_tasks g ! i))) (tk_children (tg_tasks g ! i)))"

definition graph_ok :: "fdb_task_graph_t \<Rightarrow> bool" where
  "graph_ok g \<longleftrightarrow> length (tg_tasks g) = unat (tg_num_tasks g) \<and>
     (\<forall>t\<in>set (tg_tasks g). unat (tk_num_parents t) \<le> length (tk_parents t) \<and>
        unat (tk_num_children t) \<le> length (tk_children t)) \<and>
     (\<forall>i<length (tg_tasks g). \<forall>p\<in>set (parents_of g i) \<union> set (children_of g i). p < length (tg_tasks g))"

text \<open>\<open>topo g q\<close>: the list \<open>q\<close> of tasks has no repetitions and each task comes after its parents.\<close>

definition topo :: "fdb_task_graph_t \<Rightarrow> nat list \<Rightarrow> bool" where
  "topo g q \<longleftrightarrow> distinct q \<and> set q \<subseteq> {..<length (tg_tasks g)} \<and>
     (\<forall>k<length q. set (parents_of g (q ! k)) \<subseteq> set (take k q))"

lemma topo_snoc:
  assumes "topo g q" "i \<notin> set q" "i < length (tg_tasks g)" "set (parents_of g i) \<subseteq> set q"
  shows "topo g (q @ [i])"
  using assms by (auto simp: topo_def nth_append less_Suc_eq)

lemma topo_length: "topo g q \<Longrightarrow> length q \<le> length (tg_tasks g)"
  unfolding topo_def by (metis card_lessThan card_mono distinct_card finite_lessThan)

definition marks :: "fdb_task_graph_t \<Rightarrow> bool list \<Rightarrow> nat list \<Rightarrow> bool" where
  "marks g visited q \<longleftrightarrow> length visited = length (tg_tasks g) \<and> (\<forall>i<length visited. visited ! i \<longleftrightarrow> i \<in> set q)"

lemma visited_all_spec:
  assumes "\<forall>i\<in>set is. i < length ps \<and> unat (ps ! i) < length visited"
  shows "visited_all ps visited is = Inr (\<forall>i\<in>set is. visited ! unat (ps ! i))"
  using assms by (induction "is") auto

lemma is_ready_spec:
  assumes g: "graph_ok g" and m: "marks g visited q" and i: "unat node < length (tg_tasks g)"
  shows "is_ready g node visited = Inr (unat node \<notin> set q \<and> set (parents_of g (unat node)) \<subseteq> set q)"
proof -
  let ?t = "tg_tasks g ! unat node"
  have n: "unat (tk_num_parents ?t) \<le> length (tk_parents ?t)" using g i by (simp add: graph_ok_def)
  have p: "parents_of g (unat node) = map (\<lambda>j. unat (tk_parents ?t ! j)) [0..<unat (tk_num_parents ?t)]"
    unfolding parents_of_def using n by (intro nth_equalityI) simp_all
  have r: "\<forall>p\<in>set (parents_of g (unat node)). p < length visited" using g i m by (auto simp: graph_ok_def marks_def)
  then have "visited_all (tk_parents ?t) visited [0..<unat (tk_num_parents ?t)] =
      Inr (\<forall>p\<in>set (parents_of g (unat node)). visited ! p)"
    using n unfolding p by (subst visited_all_spec) auto
  also have "(\<forall>p\<in>set (parents_of g (unat node)). visited ! p) = (set (parents_of g (unat node)) \<subseteq> set q)"
    using r m by (auto simp: marks_def)
  finally show ?thesis using i m by (simp add: is_ready_def all_visited_parents_def marks_def)
qed

lemma marks_snoc: "marks g visited q \<Longrightarrow> i < length visited \<Longrightarrow> marks g (visited[i := True]) (q @ [i])"
  by (auto simp: marks_def nth_list_update)

section \<open>The visit keeps the order\<close>

text \<open>All lists of nodes below are queues: \<open>q\<close> is what has been marked so far, in that order.\<close>

lemma visit_children_spec:
  assumes g: "graph_ok g" and js: "\<forall>j\<in>set js. j < length children \<and> unat (children ! j) < length (tg_tasks g)"
    and q: "topo g q" "marks g visited q" "q = pre @ map unat nf"
  shows "\<exists>new visited'. visit_children g children js (nf, visited) = Inr (nf @ new, visited') \<and>
    topo g (q @ map unat new) \<and> marks g visited' (q @ map unat new)"
  using js q
proof (induction js arbitrary: nf visited q)
  case Nil
  then show ?case by (intro exI [of _ "[]"] exI [of _ visited]) simp
next
  case (Cons j js)
  let ?c = "children ! j"
  have c: "j < length children" "unat ?c < length (tg_tasks g)" using Cons.prems(1) by auto
  note r = is_ready_spec [OF g Cons.prems(3) c(2)]
  show ?case
  proof (cases "unat ?c \<notin> set q \<and> set (parents_of g (unat ?c)) \<subseteq> set q")
    case True
    then have t: "topo g (q @ [unat ?c])" using topo_snoc [OF Cons.prems(2) _ c(2)] by blast
    then have "length nf < length (tg_tasks g)" using topo_length [OF t] Cons.prems(4) by simp
    then have len: "length nf < unat (tg_num_tasks g)" using g by (simp add: graph_ok_def)
    have m: "marks g (visited[unat ?c := True]) (q @ [unat ?c])"
      by (rule marks_snoc [OF Cons.prems(3)]) (use c(2) Cons.prems(3) in \<open>simp add: marks_def\<close>)
    have "q @ [unat ?c] = pre @ map unat (nf @ [?c])" using Cons.prems(4) by simp
    from Cons.IH [OF _ t m this] Cons.prems(1) obtain new visited' where
      n: "visit_children g children js (nf @ [?c], visited[unat ?c := True]) = Inr ((nf @ [?c]) @ new, visited')"
        "topo g ((q @ [unat ?c]) @ map unat new)" "marks g visited' ((q @ [unat ?c]) @ map unat new)" by auto
    then show ?thesis using c(1) r True len
      by (intro exI [of _ "?c # new"] exI [of _ visited']) simp
  next
    case False
    then show ?thesis using Cons.IH [OF _ Cons.prems(2-4)] Cons.prems(1) c(1) r by auto
  qed
qed

lemma visit_frontier_spec:
  assumes "graph_ok g" "topo g (ex @ map unat cf @ map unat nf)" "marks g visited (ex @ map unat cf @ map unat nf)"
  shows "\<exists>nf' visited'. visit_frontier call g cf (nf, visited, s) =
      Inr (nf', visited', fold (\<lambda>i. call (tk_func (tg_tasks g ! i))) (map unat cf) s) \<and>
    topo g (ex @ map unat cf @ map unat nf') \<and> marks g visited' (ex @ map unat cf @ map unat nf')"
  using assms(2,3)
proof (induction cf arbitrary: ex nf visited s)
  case Nil
  then show ?case by auto
next
  case (Cons node cf)
  let ?t = "tg_tasks g ! unat node"
  have n: "unat node < length (tg_tasks g)" using Cons.prems(1) by (simp add: topo_def)
  have ch: "unat (tk_num_children ?t) \<le> length (tk_children ?t)" using assms(1) n by (simp add: graph_ok_def)
  have "\<forall>p\<in>set (children_of g (unat node)). p < length (tg_tasks g)" using assms(1) n by (auto simp: graph_ok_def)
  moreover have "unat (tk_children ?t ! j) \<in> set (children_of g (unat node))" if "j < unat (tk_num_children ?t)" for j
    using that ch nth_mem [of j "take (unat (tk_num_children ?t)) (tk_children ?t)"] by (simp add: children_of_def)
  ultimately have kids: "unat (tk_children ?t ! j) < length (tg_tasks g)" if "j < unat (tk_num_children ?t)" for j
    using that by blast
  have js: "\<forall>j\<in>set [0..<unat (tk_num_children ?t)]. j < length (tk_children ?t) \<and>
      unat (tk_children ?t ! j) < length (tg_tasks g)"
    using kids ch by auto
  have q: "ex @ map unat (node # cf) @ map unat nf = (ex @ map unat (node # cf)) @ map unat nf" by simp
  obtain new visited1 where 1: "visit_children g (tk_children ?t) [0..<unat (tk_num_children ?t)] (nf, visited) = Inr (nf @ new, visited1)"
    "topo g ((ex @ [unat node]) @ map unat cf @ map unat (nf @ new))"
    "marks g visited1 ((ex @ [unat node]) @ map unat cf @ map unat (nf @ new))"
    using visit_children_spec [OF assms(1) js Cons.prems q] by auto
  from Cons.IH [OF 1(2,3)] 1(1) n show ?case by (fastforce simp: Let_def)
qed

lemma visit_levels_spec:
  assumes "graph_ok g" "topo g (ex @ map unat cf)" "marks g visited (ex @ map unat cf)"
    and "length (tg_tasks g) + 1 < fuel + length ex"
  shows "\<exists>new visited'. visit_levels fuel call g cf (visited, s) =
      Inr (visited', fold (\<lambda>i. call (tk_func (tg_tasks g ! i))) (map unat cf @ new) s) \<and>
    topo g (ex @ map unat cf @ new) \<and> marks g visited' (ex @ map unat cf @ new)"
  using assms(2-4)
proof (induction fuel arbitrary: ex cf visited s)
  case 0
  then show ?case using topo_length [OF 0(1)] by simp
next
  case (Suc fuel)
  show ?case
  proof (cases "cf = []")
    case True
    then show ?thesis using Suc.prems by (intro exI [of _ "[] :: nat list"] exI [of _ visited]) simp
  next
    case False
    let ?call = "\<lambda>i. call (tk_func (tg_tasks g ! i))"
    obtain nf visited1 where 1: "visit_frontier call g cf ([], visited, s) = Inr (nf, visited1, fold ?call (map unat cf) s)"
      "topo g ((ex @ map unat cf) @ map unat nf)" "marks g visited1 ((ex @ map unat cf) @ map unat nf)"
      using visit_frontier_spec [OF assms(1), of ex cf "[]" visited call s] Suc.prems by auto
    have "length (tg_tasks g) + 1 < fuel + length (ex @ map unat cf)" using Suc.prems(3) False by (cases cf) auto
    from Suc.IH [OF 1(2,3) this, of "fold ?call (map unat cf) s"] obtain new visited2 where
      2: "visit_levels fuel call g nf (visited1, fold ?call (map unat cf) s) =
          Inr (visited2, fold ?call (map unat nf @ new) (fold ?call (map unat cf) s))"
        "topo g ((ex @ map unat cf) @ map unat nf @ new)" "marks g visited2 ((ex @ map unat cf) @ map unat nf @ new)" by blast
    then show ?thesis using 1(1) False
      by (intro exI [of _ "map unat nf @ new"] exI [of _ visited2]) simp
  qed
qed

text \<open>\<open>blocked g q i\<close>: task \<open>i\<close> has run, or a parent of it has not.\<close>

definition blocked :: "fdb_task_graph_t \<Rightarrow> nat list \<Rightarrow> nat \<Rightarrow> bool" where
  "blocked g q i \<longleftrightarrow> i \<in> set q \<or> \<not> set (parents_of g i) \<subseteq> set q"

lemma run_nodes_spec:
  assumes "graph_ok g" "topo g q" "marks g visited q" "set is \<subseteq> {..<length (tg_tasks g)}"
  shows "\<exists>new visited' found'. run_nodes call g is (found, visited, s) =
      Inr (found', visited', fold (\<lambda>i. call (tk_func (tg_tasks g ! i))) new s) \<and>
    topo g (q @ new) \<and> marks g visited' (q @ new) \<and> (found' \<longleftrightarrow> found \<or> new \<noteq> []) \<and>
    (new = [] \<longrightarrow> (\<forall>i\<in>set is. blocked g q i))"
  using assms(2-4)
proof (induction "is" arbitrary: q visited found s)
  case Nil
  then show ?case by (intro exI [of _ "[] :: nat list"] exI [of _ visited] exI [of _ found]) simp
next
  case (Cons i "is")
  let ?call = "\<lambda>i. call (tk_func (tg_tasks g ! i))"
  have n: "i < length (tg_tasks g)" using Cons.prems(3) by simp
  have len: "length (tg_tasks g) = unat (tg_num_tasks g)" using assms(1) by (simp add: graph_ok_def)
  have "i < 4294967296" using n unfolding len by (rule less_trans) (rule unat_u32_bound)
  then have u: "unat (of_nat i :: u32) = i" by (simp add: unsigned_of_nat take_bit_nat_eq_self)
  have r: "is_ready g (of_nat i) visited = Inr (i \<notin> set q \<and> set (parents_of g i) \<subseteq> set q)"
    using is_ready_spec [OF assms(1) Cons.prems(2), of "of_nat i"] n u by simp
  show ?case
  proof (cases "blocked g q i")
    case True
    then have "\<not> (i \<notin> set q \<and> set (parents_of g i) \<subseteq> set q)" by (auto simp: blocked_def)
    then have skip: "run_nodes call g (i # is) (found, visited, s) = run_nodes call g is (found, visited, s)"
      using r by auto
    obtain new visited1 found1 where
      "run_nodes call g is (found, visited, s) = Inr (found1, visited1, fold ?call new s)" "topo g (q @ new)"
      "marks g visited1 (q @ new)" "found1 \<longleftrightarrow> found \<or> new \<noteq> []" "new = [] \<longrightarrow> (\<forall>i\<in>set is. blocked g q i)"
      using Cons.IH [OF Cons.prems(1,2), of found s] Cons.prems(3) by auto
    then show ?thesis unfolding skip using True
      by (intro exI [of _ new] exI [of _ visited1] exI [of _ found1]) simp
  next
    case False
    then have t: "topo g (q @ map unat [of_nat i :: u32])"
      using topo_snoc [OF Cons.prems(1) _ n] u by (simp add: blocked_def)
    have m: "marks g (visited[i := True]) (q @ map unat [of_nat i :: u32])"
      using marks_snoc [OF Cons.prems(2), of i] n Cons.prems(2) u by (simp add: marks_def)
    have "length (tg_tasks g) + 1 < TASK_FUEL g + length q" using len by (simp add: TASK_FUEL_def)
    from visit_levels_spec [OF assms(1) t m this, of call s] u obtain new visited1 where
      1: "visit_levels (TASK_FUEL g) call g [of_nat i] (visited[i := True], s) = Inr (visited1, fold ?call (i # new) s)"
        "topo g (q @ i # new)" "marks g visited1 (q @ i # new)" by auto
    from Cons.IH [OF 1(2,3), of True "fold ?call (i # new) s"] Cons.prems(3) obtain new2 visited2 where
      2: "run_nodes call g is (True, visited1, fold ?call (i # new) s) = Inr (True, visited2, fold ?call new2 (fold ?call (i # new) s))"
        "topo g ((q @ i # new) @ new2)" "marks g visited2 ((q @ i # new) @ new2)" by auto
    then show ?thesis using r 1(1) False
      by (intro exI [of _ "i # new @ new2"] exI [of _ visited2] exI [of _ True]) (simp add: blocked_def)
  qed
qed

lemma run_while_spec:
  assumes "graph_ok g" "topo g q" "marks g visited q" "length (tg_tasks g) < fuel + length q"
  shows "\<exists>new. run_while fuel call g (visited, s) = Inr (fold (\<lambda>i. call (tk_func (tg_tasks g ! i))) new s) \<and>
    topo g (q @ new) \<and> (\<forall>i<length (tg_tasks g). blocked g (q @ new) i)"
  using assms(2-4)
proof (induction fuel arbitrary: q visited s)
  case 0
  then show ?case using topo_length [OF 0(1)] by simp
next
  case (Suc fuel)
  let ?call = "\<lambda>i. call (tk_func (tg_tasks g ! i))"
  have len: "length (tg_tasks g) = unat (tg_num_tasks g)" using assms(1) by (simp add: graph_ok_def)
  have rng: "set [0..<unat (tg_num_tasks g)] \<subseteq> {..<length (tg_tasks g)}" using len by auto
  obtain new visited1 found where 1: "run_nodes call g [0..<unat (tg_num_tasks g)] (False, visited, s) =
      Inr (found, visited1, fold ?call new s)" "topo g (q @ new)" "marks g visited1 (q @ new)" "found \<longleftrightarrow> new \<noteq> []"
      "new = [] \<longrightarrow> (\<forall>i\<in>set [0..<unat (tg_num_tasks g)]. blocked g q i)"
    using run_nodes_spec [OF assms(1) Suc.prems(1,2) rng, of call False s] by blast
  show ?case
  proof (cases "new = []")
    case True
    then show ?thesis using 1 len Suc.prems by (intro exI [of _ "[] :: nat list"]) simp
  next
    case False
    then have "length (tg_tasks g) < fuel + length (q @ new)" using Suc.prems(3) by (cases new) auto
    from Suc.IH [OF 1(2,3) this, of "fold ?call new s"] obtain new2 where
      2: "run_while fuel call g (visited1, fold ?call new s) = Inr (fold ?call new2 (fold ?call new s))"
        "topo g ((q @ new) @ new2)" "\<forall>i<length (tg_tasks g). blocked g ((q @ new) @ new2) i" by blast
    then show ?thesis using 1(1,4) False by (intro exI [of _ "new @ new2"]) simp
  qed
qed

section \<open>Building a graph\<close>

text \<open>What the generated code does with a new graph: insert the tasks, then set their parents.\<close>

fun insert_tasks :: "(u32 \<Rightarrow> ptr) \<Rightarrow> (u32 \<Rightarrow> bool) \<Rightarrow> (u32 \<Rightarrow> ptr) \<Rightarrow> u32 list \<Rightarrow> fdb_task_graph_t \<Rightarrow> fdb_task_graph_t res" where
  "insert_tasks func sync info [] g = Inr g"
| "insert_tasks func sync info (i # is) g =
     bind_res (fdb_task_graph_insert_task g i (func i) (sync i) (info i)) (insert_tasks func sync info is)"

fun set_parents :: "(u32 \<times> u32) list \<Rightarrow> fdb_task_graph_t \<Rightarrow> fdb_task_graph_t res" where
  "set_parents [] g = Inr g"
| "set_parents ((c, p) # es) g = bind_res (fdb_task_graph_set_parent g c p) (set_parents es)"

text \<open>\<open>built g n func es\<close>: the graph has \<open>n\<close> tasks with these functions and these pairs of a task
  and its parent, in the order they were set.\<close>

definition built :: "fdb_task_graph_t \<Rightarrow> nat \<Rightarrow> (u32 \<Rightarrow> ptr) \<Rightarrow> (u32 \<times> u32) list \<Rightarrow> bool" where
  "built g n func es \<longleftrightarrow> length (tg_tasks g) = n \<and> unat (tg_num_tasks g) = n \<and>
     (\<forall>i<n. let t = tg_tasks g ! i in tk_func t = func (of_nat i) \<and>
        length (tk_parents t) = 16 \<and> length (tk_children t) = 16 \<and>
        (let ps = map snd (filter (\<lambda>e. unat (fst e) = i) es); cs = map fst (filter (\<lambda>e. unat (snd e) = i) es)
         in length ps \<le> 16 \<and> length cs \<le> 16 \<and> tk_num_parents t = of_nat (length ps) \<and> tk_num_children t = of_nat (length cs) \<and>
            take (length ps) (tk_parents t) = ps \<and> take (length cs) (tk_children t) = cs))"

lemma unat_le_16: "n \<le> 16 \<Longrightarrow> unat (of_nat n :: u32) = n"
  by (simp add: unsigned_of_nat take_bit_nat_eq_self)

lemma insert_tasks_spec:
  assumes "length (tg_tasks g) = unat (tg_num_tasks g)" "\<forall>i\<in>set is. unat i < length (tg_tasks g)"
  shows "\<exists>g'. insert_tasks func sync info is g = Inr g' \<and> tg_num_tasks g' = tg_num_tasks g \<and>
    length (tg_tasks g') = length (tg_tasks g) \<and>
    (\<forall>j<length (tg_tasks g). of_nat j \<in> set is \<longrightarrow> tg_tasks g' ! j = zero_task\<lparr>tk_id := of_nat j, tk_info := info (of_nat j),
       tk_func := func (of_nat j), tk_requires_sync := sync (of_nat j)\<rparr>) \<and>
    (\<forall>j<length (tg_tasks g). of_nat j \<notin> set is \<longrightarrow> tg_tasks g' ! j = tg_tasks g ! j)"
  using assms
proof (induction "is" arbitrary: g)
  case (Cons i "is")
  let ?t = "zero_task\<lparr>tk_id := i, tk_info := info i, tk_func := func i, tk_requires_sync := sync i\<rparr>"
  let ?g = "g\<lparr>tg_tasks := (tg_tasks g)[unat i := ?t]\<rparr>"
  have i: "unat i < length (tg_tasks g)" using Cons.prems(2) by simp
  have eq: "(of_nat j = i) = (j = unat i)" if "j < length (tg_tasks g)" for j
  proof -
    have "j < 4294967296" using that unfolding Cons.prems(1) by (rule less_trans) (rule unat_u32_bound)
    then have "of_nat j = i \<Longrightarrow> unat i = j" by (intro of_nat_inverse [where 'a = 32]) simp_all
    then show ?thesis by auto
  qed
  obtain g' where g: "insert_tasks func sync info is ?g = Inr g'" "tg_num_tasks g' = tg_num_tasks g"
    "length (tg_tasks g') = length (tg_tasks g)"
    "\<forall>j<length (tg_tasks g). of_nat j \<in> set is \<longrightarrow> tg_tasks g' ! j = zero_task\<lparr>tk_id := of_nat j, tk_info := info (of_nat j),
       tk_func := func (of_nat j), tk_requires_sync := sync (of_nat j)\<rparr>"
    "\<forall>j<length (tg_tasks g). of_nat j \<notin> set is \<longrightarrow> tg_tasks g' ! j = tg_tasks ?g ! j"
    using Cons.IH [of ?g] Cons.prems by auto
  have "insert_tasks func sync info (i # is) g = Inr g'"
    using i g(1) by (simp add: fdb_task_graph_insert_task_def)
  moreover have "tg_tasks g' ! j = zero_task\<lparr>tk_id := of_nat j, tk_info := info (of_nat j),
       tk_func := func (of_nat j), tk_requires_sync := sync (of_nat j)\<rparr>"
    if "j < length (tg_tasks g)" "of_nat j \<in> set (i # is)" for j
  proof (cases "of_nat j \<in> set is")
    case False
    then have "of_nat j = i" "j = unat i" using that eq by auto
    then show ?thesis using g(5) that(1) False i by simp
  qed (use g(4) that in simp)
  moreover have "tg_tasks g' ! j = tg_tasks g ! j" if "j < length (tg_tasks g)" "of_nat j \<notin> set (i # is)" for j
    using g(5) that eq [OF that(1)] by auto
  ultimately show ?case using g(2,3) by blast
qed simp

lemma built_start:
  assumes "length (tg_tasks g) = unat (tg_num_tasks g)" "set is = {i. unat i < unat (tg_num_tasks g)}"
  shows "\<exists>g'. insert_tasks func sync info is g = Inr g' \<and> built g' (unat (tg_num_tasks g)) func []"
proof -
  have "\<forall>i\<in>set is. unat i < length (tg_tasks g)" using assms by simp
  from insert_tasks_spec [OF assms(1) this] obtain g' where g: "insert_tasks func sync info is g = Inr g'"
    "tg_num_tasks g' = tg_num_tasks g" "length (tg_tasks g') = length (tg_tasks g)"
    "\<forall>j<length (tg_tasks g). of_nat j \<in> set is \<longrightarrow> tg_tasks g' ! j = zero_task\<lparr>tk_id := of_nat j, tk_info := info (of_nat j),
       tk_func := func (of_nat j), tk_requires_sync := sync (of_nat j)\<rparr>" by blast
  have "of_nat j \<in> set is" if "j < unat (tg_num_tasks g)" for j
  proof -
    have "j < 4294967296" using that by (rule less_trans) (rule unat_u32_bound)
    then show ?thesis using that unfolding assms(2) by (simp add: unsigned_of_nat take_bit_nat_eq_self)
  qed
  then have "built g' (unat (tg_num_tasks g)) func []"
    using g assms(1) by (simp add: built_def zero_task_def FCC_MAX_TASK_PARENTS_def FCC_MAX_TASK_CHILDREN_def)
  then show ?thesis using g(1) by blast
qed

text \<open>One pair more: \<open>set_parent\<close> appends to the parents of one task and to the children of the
  other, as long as neither has 16.\<close>

definition num_of :: "(u32 \<times> u32 \<Rightarrow> u32) \<Rightarrow> u32 \<Rightarrow> (u32 \<times> u32) list \<Rightarrow> nat" where
  "num_of sel i es = length (filter (\<lambda>e. sel e = i) es)"

lemma filter_unat: "filter (\<lambda>e. unat (sel e) = unat (i :: u32)) es = filter (\<lambda>e. sel e = i) es"
  by (rule filter_cong) (auto simp: word_unat_eq_iff)

lemma set_parent_spec:
  assumes b: "built g n func es" and r: "unat c < n" "unat p < n"
    and m: "num_of fst c es < 16" "num_of snd p es < 16"
  shows "\<exists>g'. fdb_task_graph_set_parent g c p = Inr g' \<and> built g' n func (es @ [(c, p)])"
proof -
  let ?ps = "\<lambda>i. map snd (filter (\<lambda>e. unat (fst e) = i) es)" and ?cs = "\<lambda>i. map fst (filter (\<lambda>e. unat (snd e) = i) es)"
  have t: "tk_func (tg_tasks g ! i) = func (of_nat i)" "length (tk_parents (tg_tasks g ! i)) = 16"
    "length (tk_children (tg_tasks g ! i)) = 16" "length (?ps i) \<le> 16" "length (?cs i) \<le> 16"
    "tk_num_parents (tg_tasks g ! i) = of_nat (length (?ps i))" "tk_num_children (tg_tasks g ! i) = of_nat (length (?cs i))"
    "take (length (?ps i)) (tk_parents (tg_tasks g ! i)) = ?ps i" "take (length (?cs i)) (tk_children (tg_tasks g ! i)) = ?cs i"
    if "i < n" for i
    using b that by (auto simp: built_def Let_def)
  have n: "length (tg_tasks g) = n" "unat (tg_num_tasks g) = n" using b by (auto simp: built_def)
  have cp: "length (?ps (unat c)) < 16" "length (?cs (unat p)) < 16"
    using m by (simp_all add: num_of_def filter_unat)
  let ?tc = "tg_tasks g ! unat c"
  let ?tc' = "?tc\<lparr>tk_parents := (tk_parents ?tc)[length (?ps (unat c)) := p], tk_num_parents := tk_num_parents ?tc + 1\<rparr>"
  let ?ts = "(tg_tasks g)[unat c := ?tc']"
  let ?tp = "?ts ! unat p"
  have tp: "tk_num_children ?tp = of_nat (length (?cs (unat p)))" "length (tk_children ?tp) = 16"
    using t [OF r(2)] r n by (auto simp: nth_list_update)
  let ?g' = "g\<lparr>tg_tasks := ?ts[unat p := ?tp\<lparr>tk_children := (tk_children ?tp)[length (?cs (unat p)) := c],
     tk_num_children := tk_num_children ?tp + 1\<rparr>]\<rparr>"
  have u: "unat (of_nat (length (?ps (unat c))) :: u32) = length (?ps (unat c))"
    "unat (of_nat (length (?cs (unat p))) :: u32) = length (?cs (unat p))"
    using cp by (intro unat_le_16; simp)+
  have run: "fdb_task_graph_set_parent g c p = Inr ?g'"
  proof -
    have 1: "rd (tg_tasks g) (unat c) = Inr ?tc" "rd ?ts (unat p) = Inr ?tp" using r n by simp_all
    have 2: "wr (tk_parents ?tc) (unat (tk_num_parents ?tc)) p = Inr ((tk_parents ?tc)[length (?ps (unat c)) := p])"
      unfolding t(6) [OF r(1)] u(1) using cp(1) t(2) [OF r(1)] by (intro wr_in) simp
    have 3: "wr (tk_children ?tp) (unat (tk_num_children ?tp)) c = Inr ((tk_children ?tp)[length (?cs (unat p)) := c])"
      unfolding tp(1) u(2) using cp(2) tp(2) by (intro wr_in) simp
    show ?thesis unfolding fdb_task_graph_set_parent_def Let_def by (simp only: 1 2 3 bind_res.simps)
  qed
  have app: "take (Suc (length xs)) (ys[length xs := x]) = xs @ [x]"
    if "take (length xs) ys = xs" "length xs < length ys" for xs ys and x :: u32
    using that by (simp add: take_Suc_conv_app_nth)
  have "built ?g' n func (es @ [(c, p)])"
    unfolding built_def Let_def
  proof (intro conjI allI impI)
    fix i assume i: "i < n"
    let ?t = "tg_tasks ?g' ! i"
    have par: "tk_parents ?t = (if i = unat c then (tk_parents ?tc)[length (?ps (unat c)) := p] else tk_parents (tg_tasks g ! i))"
      "tk_num_parents ?t = (if i = unat c then tk_num_parents ?tc + 1 else tk_num_parents (tg_tasks g ! i))"
      using i n r by (cases "i = unat p"; cases "i = unat c"; simp)+
    have chi: "tk_children ?t = (if i = unat p then (tk_children (tg_tasks g ! i))[length (?cs (unat p)) := c] else tk_children (tg_tasks g ! i))"
      "tk_num_children ?t = (if i = unat p then tk_num_children (tg_tasks g ! i) + 1 else tk_num_children (tg_tasks g ! i))"
      using i n r by (cases "i = unat p"; cases "i = unat c"; simp)+
    show "tk_func ?t = func (of_nat i)" using i n t(1) [OF i] r by (cases "i = unat p"; cases "i = unat c"; simp)
    show "length (tk_parents ?t) = 16" "length (tk_children ?t) = 16" using par chi t [OF i] by auto
    let ?es = "es @ [(c, p)]"
    show "length (map snd (filter (\<lambda>e. unat (fst e) = i) ?es)) \<le> 16" "length (map fst (filter (\<lambda>e. unat (snd e) = i) ?es)) \<le> 16"
      using t(4,5) [OF i] cp by auto
    show "tk_num_parents ?t = of_nat (length (map snd (filter (\<lambda>e. unat (fst e) = i) ?es)))"
      "tk_num_children ?t = of_nat (length (map fst (filter (\<lambda>e. unat (snd e) = i) ?es)))"
      using par(2) chi(2) t(6,7) [OF i] by auto
    show "take (length (map snd (filter (\<lambda>e. unat (fst e) = i) ?es))) (tk_parents ?t) = map snd (filter (\<lambda>e. unat (fst e) = i) ?es)"
      using par(1) t(2,8) [OF i] cp(1) app [of "?ps i" "tk_parents (tg_tasks g ! i)" p] by (cases "i = unat c") auto
    show "take (length (map fst (filter (\<lambda>e. unat (snd e) = i) ?es))) (tk_children ?t) = map fst (filter (\<lambda>e. unat (snd e) = i) ?es)"
      using chi(1) t(3,9) [OF i] cp(2) app [of "?cs i" "tk_children (tg_tasks g ! i)" c] by (cases "i = unat p") auto
  qed (use n in simp_all)
  then show ?thesis using run by blast
qed

lemma set_parents_spec:
  assumes "built g n func es" "\<forall>(c, p)\<in>set new. unat c < n \<and> unat p < n"
    "\<forall>i. num_of fst i (es @ new) \<le> 16 \<and> num_of snd i (es @ new) \<le> 16"
  shows "\<exists>g'. set_parents new g = Inr g' \<and> built g' n func (es @ new)"
  using assms
proof (induction new arbitrary: g es)
  case (Cons e new)
  obtain c p where e: "e = (c, p)" by fastforce
  have "num_of fst c es < 16" "num_of snd p es < 16"
    using Cons.prems(3) [rule_format, of c] Cons.prems(3) [rule_format, of p] by (auto simp: num_of_def e)
  then obtain g1 where g1: "fdb_task_graph_set_parent g c p = Inr g1" "built g1 n func (es @ [(c, p)])"
    using set_parent_spec [OF Cons.prems(1), of c p] Cons.prems(2) e by auto
  have "\<exists>g'. set_parents new g1 = Inr g' \<and> built g' n func ((es @ [(c, p)]) @ new)"
    by (rule Cons.IH [OF g1(2)]) (use Cons.prems(2,3) e in auto)
  then show ?case using g1(1) e by auto
qed auto

lemma built_parents:
  assumes "built g n func es" "i < n"
  shows "parents_of g i = map (unat \<circ> snd) (filter (\<lambda>e. unat (fst e) = i) es)"
    "children_of g i = map (unat \<circ> fst) (filter (\<lambda>e. unat (snd e) = i) es)"
  using assms by (auto simp: built_def Let_def parents_of_def children_of_def unat_le_16)

lemma built_ok:
  assumes "built g n func es" "\<forall>(c, p)\<in>set es. unat c < n \<and> unat p < n"
  shows "graph_ok g"
proof -
  have n: "length (tg_tasks g) = n" "unat (tg_num_tasks g) = n" using assms(1) by (auto simp: built_def)
  have "unat (tk_num_parents t) \<le> length (tk_parents t) \<and> unat (tk_num_children t) \<le> length (tk_children t)"
    if t: "t \<in> set (tg_tasks g)" for t
  proof -
    obtain i where "i < n" "t = tg_tasks g ! i" using t n by (auto simp: in_set_conv_nth)
    then show ?thesis using assms(1) by (auto simp: built_def Let_def unat_le_16)
  qed
  moreover have "q < n" if "i < n" "q \<in> set (parents_of g i) \<union> set (children_of g i)" for i q
    using that(2) assms(2) unfolding built_parents [OF assms(1) that(1)] by auto
  ultimately show ?thesis using n by (auto simp: graph_ok_def)
qed

lemma task_graph_init_room:
  assumes "fdb_task_graph_init memalign tmem rmem num_tasks num_roots st = (g0, st')"
  shows "tg_num_tasks g0 = num_tasks" "tg_num_roots g0 = num_roots"
    "tg_tasks_at g0 \<noteq> NULL \<Longrightarrow> 168 * unat num_tasks < 2 ^ 32 \<Longrightarrow> length (tg_tasks g0) = unat num_tasks"
    "tg_roots_at g0 \<noteq> NULL \<Longrightarrow> 4 * unat num_roots < 2 ^ 32 \<Longrightarrow> length (tg_roots g0) = unat num_roots"
  using assms by (auto simp: fdb_task_graph_init_def sizeof_task_def unat_word_ariths split: prod.splits)

section \<open>Properties\<close>

lemma run_order:
  assumes "graph_ok g"
  shows "\<exists>order. fdb_task_graph_run call g s = Inr (fold (\<lambda>i. call (tk_func (tg_tasks g ! i))) order s) \<and>
    distinct order \<and> set order \<subseteq> {..<length (tg_tasks g)} \<and>
    (\<forall>k<length order. set (parents_of g (order ! k)) \<subseteq> set (take k order)) \<and>
    (\<forall>i<length (tg_tasks g). i \<in> set order \<or> \<not> set (parents_of g i) \<subseteq> set order)"
proof -
  have len: "length (tg_tasks g) = unat (tg_num_tasks g)" using assms by (simp add: graph_ok_def)
  have t: "topo g []" by (simp add: topo_def)
  have m: "marks g (replicate (unat (tg_num_tasks g)) False) []" using len by (simp add: marks_def)
  have f: "length (tg_tasks g) < TASK_FUEL g + length []" using len by (simp add: TASK_FUEL_def)
  from run_while_spec [OF assms t m f, of call s] show ?thesis
    unfolding fdb_task_graph_run_def append_Nil topo_def blocked_def by blast
qed



text \<open>C24: A run of a task graph whose ids are in range returns, never indexes outside its arrays,
  and calls the functions of some tasks one after another: each at most once, each after all of
  its parents, and when it stops every task that has not run has a parent that has not run.\<close>

theorem task_graph_run_order:
  assumes "graph_ok g"
  shows "\<exists>order. fdb_task_graph_run call g s = Inr (fold (\<lambda>i. call (tk_func (tg_tasks g ! i))) order s) \<and>
    distinct order \<and> set order \<subseteq> {..<length (tg_tasks g)} \<and>
    (\<forall>k<length order. set (parents_of g (order ! k)) \<subseteq> set (take k order)) \<and>
    (\<forall>i<length (tg_tasks g). i \<in> set order \<or> \<not> set (parents_of g i) \<subseteq> set order)"
  by (rule run_order [OF assms])

text \<open>C23: The graph that the generated code builds, with up to 16 parents and children per task and
  no cycle, is scheduled completely: the run calls the function of every task exactly once, and
  those of the parents of a task before its own. The allocator has to give the memory of the tasks, whose
  size has to fit into the 32 bits of its argument.\<close>

theorem task_graph_schedule:
  assumes g0: "fdb_task_graph_init memalign tmem rmem num_tasks num_roots st = (g0, st')"
    and mem: "tg_tasks_at g0 \<noteq> NULL" "168 * unat num_tasks < 2 ^ 32"
    and ids: "set is = {i. unat i < unat num_tasks}"
    and es: "\<forall>(c, p)\<in>set es. unat c < unat num_tasks \<and> unat p < unat num_tasks"
    and few: "\<forall>i. num_of fst i es \<le> 16 \<and> num_of snd i es \<le> 16"
    and rank: "\<forall>(c, p)\<in>set es. (rank p :: nat) < rank c"
  shows "\<exists>g1 g order. insert_tasks func sync info is g0 = Inr g1 \<and> set_parents es g1 = Inr g \<and>
    fdb_task_graph_run call g s = Inr (fold (\<lambda>i. call (func (of_nat i))) order s) \<and>
    distinct order \<and> set order = {..<unat num_tasks} \<and>
    (\<forall>(c, p)\<in>set es. \<exists>j k. j < k \<and> k < length order \<and> order ! j = unat p \<and> order ! k = unat c)"
proof -
  let ?n = "unat num_tasks"
  have n: "length (tg_tasks g0) = unat (tg_num_tasks g0)" "tg_num_tasks g0 = num_tasks"
    using task_graph_init_room(1,3) [OF g0] mem by simp_all
  obtain g1 where g1: "insert_tasks func sync info is g0 = Inr g1" "built g1 ?n func []"
    using built_start [OF n(1), of "is" func sync info] ids n(2) by auto
  obtain g where g: "set_parents es g1 = Inr g" "built g ?n func es"
    using set_parents_spec [OF g1(2), of es] es few by auto
  obtain order where o: "fdb_task_graph_run call g s = Inr (fold (\<lambda>i. call (tk_func (tg_tasks g ! i))) order s)"
    "distinct order" "set order \<subseteq> {..<length (tg_tasks g)}"
    "\<forall>k<length order. set (parents_of g (order ! k)) \<subseteq> set (take k order)"
    "\<forall>i<length (tg_tasks g). i \<in> set order \<or> \<not> set (parents_of g i) \<subseteq> set order"
    using run_order [OF built_ok [OF g(2) es], of call s] by blast
  have len: "length (tg_tasks g) = ?n" using g(2) by (auto simp: built_def)
  have par: "unat p \<in> set (parents_of g (unat c))" if "(c, p) \<in> set es" for c p
    using that es built_parents(1) [OF g(2), of "unat c"] by force
  have all: "\<forall>i. unat i < ?n \<longrightarrow> rank i = r \<longrightarrow> unat i \<in> set order" for r
  proof (induction r rule: less_induct)
    case (less r)
    show ?case
    proof (intro allI impI)
      fix i assume i: "unat i < ?n" "rank i = r"
      have "unat p \<in> set order" if "(i, p) \<in> set es" for p using less.IH that rank es i by fastforce
      then have "set (parents_of g (unat i)) \<subseteq> set order"
        unfolding built_parents(1) [OF g(2) i(1)] by (auto simp flip: word_unat_eq_iff)
      then show "unat i \<in> set order" using o(5) i(1) len by auto
    qed
  qed
  have "j \<in> set order" if "j < ?n" for j
  proof -
    have "j < 4294967296" using that by (rule less_trans) (rule unat_u32_bound)
    then have "unat (of_nat j :: u32) = j" by (simp add: unsigned_of_nat take_bit_nat_eq_self)
    then show ?thesis using all that by metis
  qed
  then have set: "set order = {..<?n}" using o(3) len by auto
  have funs: "tk_func (tg_tasks g ! i) = func (of_nat i)" if "i \<in> set order" for i
    using g(2) that set by (auto simp: built_def Let_def)
  have "fold (\<lambda>i. call (tk_func (tg_tasks g ! i))) order s = fold (\<lambda>i. call (func (of_nat i))) order s"
    by (rule fold_cong) (use funs in auto)
  moreover have "\<exists>j k. j < k \<and> k < length order \<and> order ! j = unat p \<and> order ! k = unat c"
    if e: "(c, p) \<in> set es" for c p
  proof -
    have "unat c \<in> set order" using e es set by auto
    then obtain k where k: "k < length order" "order ! k = unat c" by (auto simp: in_set_conv_nth)
    then have "unat p \<in> set (take k order)" using o(4) [rule_format, OF k(1)] par [OF e] k(2) by auto
    then obtain j where "j < k" "order ! j = unat p" using k(1) by (auto simp: in_set_conv_nth)
    then show ?thesis using k by blast
  qed
  ultimately show ?thesis using g1(1) g(1) o(1,2) set by auto
qed

text \<open>C25: The assertions of \<open>set_parent\<close> look at the number of parents of the parent instead of its
  number of children: a task without parents that has 16 children passes them, and the write
  of the next child goes past \<open>m_children\<close>.\<close>

theorem task_children_overflow:
  assumes "unat c < length (tg_tasks g)" "unat p < length (tg_tasks g)" "c \<noteq> p"
    and "length (tk_parents (tg_tasks g ! unat c)) = 16" "length (tk_children (tg_tasks g ! unat p)) = 16"
    and "unat (tk_num_parents (tg_tasks g ! unat c)) < FCC_MAX_TASK_PARENTS"
    and "unat (tk_num_parents (tg_tasks g ! unat p)) < FCC_MAX_TASK_CHILDREN"
    and "tk_num_children (tg_tasks g ! unat p) = 16"
  shows "fdb_task_graph_set_parent g c p = Inl OutOfBounds"
proof -
  have "unat c \<noteq> unat p" using assms(3) by (simp flip: word_unat_eq_iff)
  then show ?thesis using assms by (simp add: fdb_task_graph_set_parent_def FCC_MAX_TASK_PARENTS_def)
qed

text \<open>Three tasks: task 2 waits for 0 and 1, task 1 for 0. Their functions append to a log.\<close>

definition demo_memalign :: "unit \<Rightarrow> u32 \<Rightarrow> u32 \<Rightarrow> ptr \<times> unit" where
  "demo_memalign s al sz = (4096, ())"

definition demo_graph :: fdb_task_graph_t where
  "demo_graph = fst (fdb_task_graph_init demo_memalign (\<lambda>_. zero_task) (\<lambda>_. 0) 3 1 ())"

theorem task_graph_schedule_witness:
  "\<exists>g1 g order. insert_tasks (\<lambda>i. ucast i + 100) (\<lambda>_. False) (\<lambda>_. 0) [0, 1, 2] demo_graph = Inr g1 \<and>
    set_parents [(2, 0), (2, 1), (1, 0)] g1 = Inr g \<and>
    fdb_task_graph_run (\<lambda>f log. log @ [f]) g [] = Inr (fold (\<lambda>i log. log @ [ucast (of_nat i :: u32) + 100]) order []) \<and>
    distinct order \<and> set order = {..<3} \<and>
    (\<forall>(c, p)\<in>{(2, 0), (2, 1), (1, 0)} :: (u32 \<times> u32) set.
       \<exists>j k. j < k \<and> k < length order \<and> order ! j = unat p \<and> order ! k = unat c)"
proof -
  let ?es = "[(2, 0), (2, 1), (1, 0)] :: (u32 \<times> u32) list"
  have g: "fdb_task_graph_init demo_memalign (\<lambda>_. zero_task) (\<lambda>_. 0) 3 1 () = (demo_graph, ())"
    by (simp add: demo_graph_def fdb_task_graph_init_def split: prod.splits)
  have mem: "tg_tasks_at demo_graph \<noteq> NULL" "168 * unat (3 :: u32) < 2 ^ 32"
    by (simp_all add: demo_graph_def fdb_task_graph_init_def demo_memalign_def fdb_numa_alloc_def)
  have "i \<in> {0, 1, 2}" if "unat i < 3" for i :: u32
  proof -
    have "unat i = 0 \<or> unat i = 1 \<or> unat i = 2" using that by linarith
    then show ?thesis by (auto simp: word_unat_eq_iff)
  qed
  then have ids: "set [0, 1, 2] = {i :: u32. unat i < unat (3 :: u32)}" by auto
  have es: "\<forall>(c, p)\<in>set ?es. unat c < unat (3 :: u32) \<and> unat p < unat (3 :: u32)" by simp
  have few: "\<forall>i. num_of fst i ?es \<le> 16 \<and> num_of snd i ?es \<le> 16"
    using length_filter_le [of _ ?es] by (simp add: num_of_def)
  have rank: "\<forall>(c, p)\<in>set ?es. unat p < unat c" by simp
  show ?thesis
    using task_graph_schedule [OF g mem ids es few rank, where func = "\<lambda>i. ucast i + 100" and sync = "\<lambda>_. False" and info = "\<lambda>_. 0"
        and call = "\<lambda>f log. log @ [f]" and s = "[]"] by simp
qed

text \<open>Two tasks that wait for each other and one that waits for nothing: the run still stops.\<close>

definition demo_cycle :: fdb_task_graph_t where
  "demo_cycle = \<lparr>tg_tasks = [zero_task\<lparr>tk_func := 100\<rparr>,
       zero_task\<lparr>tk_func := 101, tk_parents := 2 # replicate 15 0, tk_num_parents := 1, tk_children := 2 # replicate 15 0, tk_num_children := 1\<rparr>,
       zero_task\<lparr>tk_func := 102, tk_parents := 1 # replicate 15 0, tk_num_parents := 1, tk_children := 1 # replicate 15 0, tk_num_children := 1\<rparr>],
     tg_roots = [0], tg_num_tasks = 3, tg_num_roots = 1, tg_tasks_at = 4096, tg_roots_at = 8192\<rparr>"

theorem task_graph_run_order_witness:
  "\<exists>order. fdb_task_graph_run (\<lambda>f log. log @ [f]) demo_cycle [] =
      Inr (fold (\<lambda>i log. log @ [tk_func (tg_tasks demo_cycle ! i)]) order []) \<and> distinct order"
proof -
  have lt: "i < Suc (Suc (Suc 0)) \<longleftrightarrow> i = 0 \<or> i = 1 \<or> i = 2" for i :: nat by arith
  have "graph_ok demo_cycle"
    by (auto simp: graph_ok_def demo_cycle_def parents_of_def children_of_def zero_task_def
        FCC_MAX_TASK_PARENTS_def FCC_MAX_TASK_CHILDREN_def lt)
  from task_graph_run_order [OF this, of "\<lambda>f log. log @ [f]" "[]"] show ?thesis by blast
qed

definition demo_wide :: fdb_task_graph_t where
  "demo_wide = demo_graph\<lparr>tg_tasks := [zero_task\<lparr>tk_num_children := 16\<rparr>, zero_task, zero_task]\<rparr>"

theorem task_children_overflow_witness: "fdb_task_graph_set_parent demo_wide 1 0 = Inl OutOfBounds"
proof -
  have "unat (1 :: u32) < length (tg_tasks demo_wide)" "unat (0 :: u32) < length (tg_tasks demo_wide)" "(1 :: u32) \<noteq> 0"
    "length (tk_parents (tg_tasks demo_wide ! unat (1 :: u32))) = 16" "length (tk_children (tg_tasks demo_wide ! unat (0 :: u32))) = 16"
    "unat (tk_num_parents (tg_tasks demo_wide ! unat (1 :: u32))) < FCC_MAX_TASK_PARENTS"
    "unat (tk_num_parents (tg_tasks demo_wide ! unat (0 :: u32))) < FCC_MAX_TASK_CHILDREN"
    "tk_num_children (tg_tasks demo_wide ! unat (0 :: u32)) = 16"
    by (simp_all add: demo_wide_def zero_task_def FCC_MAX_TASK_PARENTS_def FCC_MAX_TASK_CHILDREN_def)
  then show ?thesis by (rule task_children_overflow)
qed

end
