(* ===== verification/Clients.thy ===== *)
theory Clients
  imports BtreeMap
begin

text \<open>
  Several pools and trees over one parent allocator, as the tables and the database have them:
  each client holds chunks of its own, and what one does leaves the others' chunks alone.
  \<open>clients\<close> is the invariant of the shared parent; the lemmas of \<open>steady_provider\<close> let a client
  allocate, free, insert and clear while the others stay as they are. The second part is the
  iterator of the B+ tree as a list of the entries that are left.
\<close>

section \<open>One parent, several clients\<close>

definition clients ::
  "('st \<Rightarrow> (ptr \<rightharpoonup> nat) \<Rightarrow> bool) \<Rightarrow> 'st \<Rightarrow> ('c \<Rightarrow> ptr \<rightharpoonup> nat) \<Rightarrow> bool" where
  "clients ainv st Ps \<longleftrightarrow> (\<exists>full. ainv st full \<and> live_apart full \<and> (\<forall>c. Ps c \<subseteq>\<^sub>m full) \<and>
     (\<forall>c d. c \<noteq> d \<longrightarrow> dom (Ps c) \<inter> dom (Ps d) = {}))"

definition pool_holds ::
  "('st \<Rightarrow> u32 \<Rightarrow> u32 \<Rightarrow> u32 \<Rightarrow> ptr \<times> 'st) \<Rightarrow> ('st \<Rightarrow> ptr \<Rightarrow> 'st) \<Rightarrow> 'st fdb_pool_alloc_t \<Rightarrow> (ptr \<rightharpoonup> nat) \<Rightarrow>
   (ptr \<rightharpoonup> nat) \<Rightarrow> bool" where
  "pool_holds alloc free pa P live \<longleftrightarrow>
     pool_config pa \<and> p_mem_alloc (pl_allocator pa) = alloc \<and> p_mem_free (pl_allocator pa) = free \<and>
     (\<exists>chunks fs. pool_chunks pa P chunks \<and> chained (pl_hdr pa) (pl_first_free pa) fs \<and> distinct fs \<and>
        set fs \<subseteq> pool_blocks pa chunks \<and> live = pool_live pa (pool_blocks pa chunks - set fs))"

lemma pool_inv_holds: "pool_inv alloc free ainv (pa, st) live \<longleftrightarrow> (\<exists>P. ainv st P \<and> pool_holds alloc free pa P live)"
  unfolding pool_inv_def pool_holds_def prod.case by blast

text \<open>What client \<open>c\<close> sees of the parent: \<open>F\<close> are the chunks of the others.\<close>

lemma clients_shared:
  assumes "clients ainv st Ps"
  obtains F where "shared ainv F st (Ps c)" "\<And>d. d \<noteq> c \<Longrightarrow> Ps d \<subseteq>\<^sub>m F" "dom F = (\<Union>d\<in>-{c}. dom (Ps d))"
proof -
  obtain full where f: "ainv st full" "live_apart full" "\<And>c. Ps c \<subseteq>\<^sub>m full"
    "\<And>c d. c \<noteq> d \<Longrightarrow> dom (Ps c) \<inter> dom (Ps d) = {}" using assms by (auto simp: clients_def)
  let ?D = "\<Union>d\<in>-{c}. dom (Ps d)"
  let ?F = "full |` ?D"
  have sub: "dom (Ps d) \<subseteq> dom full" for d by (rule map_le_implies_dom_le [OF f(3)])
  have dom: "dom ?F = ?D" using sub by auto
  have le: "?F \<subseteq>\<^sub>m full" by (auto simp: map_le_def restrict_map_def split: if_splits)
  have disj: "dom ?F \<inter> dom (Ps c) = {}" unfolding dom using f(4) by fastforce
  have "shared ainv ?F st (Ps c)" unfolding shared_def using f(1,2,3) le disj by blast
  moreover have "Ps d \<subseteq>\<^sub>m ?F" if "d \<noteq> c" for d
    using f(3) [of d] that by (fastforce simp: map_le_def restrict_map_def)
  ultimately show thesis using that dom by blast
qed

lemma shared_clients:
  assumes "shared ainv F st P" "\<And>d. d \<noteq> c \<Longrightarrow> Ps d \<subseteq>\<^sub>m F" "\<And>d e. d \<noteq> e \<Longrightarrow> dom (Ps d) \<inter> dom (Ps e) = {}"
  shows "clients ainv st (Ps(c := P))"
proof -
  obtain full where f: "ainv st full" "live_apart full" "F \<subseteq>\<^sub>m full" "P \<subseteq>\<^sub>m full" "dom F \<inter> dom P = {}"
    using assms(1) by (rule shared_full)
  have "Ps d \<subseteq>\<^sub>m full" if "d \<noteq> c" for d using assms(2) [OF that] f(3) by (rule map_le_trans)
  moreover have "dom (Ps d) \<inter> dom P = {}" if "d \<noteq> c" for d
    using map_le_implies_dom_le [OF assms(2) [OF that]] f(5) by blast
  ultimately show ?thesis unfolding clients_def
    by (intro exI [of _ full]) (use f assms(3) in \<open>auto simp: Int_commute\<close>)
qed

lemma clients_disjoint: "clients ainv st Ps \<Longrightarrow> d \<noteq> e \<Longrightarrow> dom (Ps d) \<inter> dom (Ps e) = {}"
  unfolding clients_def by blast

lemma pool_holds_live_apart:
  assumes "pool_holds alloc free pa P live" shows "live_apart live"
proof -
  obtain chunks fs where i: "pool_config pa" "pool_chunks pa P chunks"
    "live = pool_live pa (pool_blocks pa chunks - set fs)"
    using assms by (auto simp: pool_holds_def)
  show ?thesis unfolding live_apart_def
  proof (intro allI impI)
    fix p q n m assume pq: "live p = Some n" "live q = Some m" "p \<noteq> q"
    then have n: "n = unat (pl_block_size pa)" "m = unat (pl_block_size pa)"
      "p \<in> pool_blocks pa chunks" "q \<in> pool_blocks pa chunks"
      using i(3) by (auto simp: pool_live_def split: if_splits)
    obtain c j where c: "c \<in> set chunks" "1 \<le> j" "j \<le> pool_cap pa" "p = block_at pa c j"
      using pool_block_cases [OF n(3) i(1,2)] by metis
    obtain d k where d: "d \<in> set chunks" "1 \<le> k" "k \<le> pool_cap pa" "q = block_at pa d k"
      using pool_block_cases [OF n(4) i(1,2)] by metis
    have "(c, j) \<noteq> (d, k)" using pq(3) c(4) d(4) by auto
    from blocks_apart [OF i(1,2) c(1) d(1) c(2,3) d(2,3) this]
    show "apart p n q m" using n(1,2) c(4) d(4) by simp
  qed
qed

lemma pool_holds_end:
  assumes "pool_holds alloc free pa P live" "live p = Some n" shows "p \<noteq> NULL" "unat p + n < 2 ^ 64"
proof -
  obtain chunks fs where i: "pool_config pa" "pool_chunks pa P chunks"
    "live = pool_live pa (pool_blocks pa chunks - set fs)"
    using assms(1) by (auto simp: pool_holds_def)
  then have n: "n = unat (pl_block_size pa)" "p \<in> pool_blocks pa chunks"
    using assms(2) by (auto simp: pool_live_def split: if_splits)
  show "p \<noteq> NULL" "unat p + n < 2 ^ 64" using pool_block_facts [OF n(2) i(1,2)] n(1) by simp_all
qed

text \<open>What a pool asks of a parent that serves \<open>S\<close>.\<close>

definition pool_takes :: "(u32 \<Rightarrow> u32 \<Rightarrow> bool) \<Rightarrow> 'st fdb_pool_alloc_t \<Rightarrow> u32 \<Rightarrow> u32 \<Rightarrow> bool" where
  "pool_takes S pa al sz \<longleftrightarrow> unat sz = unat (pl_block_size pa) \<and> unat al dvd unat (pl_alignment pa) \<and>
     S (ucast (pl_alignment pa)) (ucast (pl_page_size pa))"

lemma pool_serves_takes: "pool_serves serves (pa, st) al sz = pool_takes (serves st) pa al sz"
  by (simp add: pool_serves_def pool_takes_def)

definition tree_client ::
  "('st \<Rightarrow> u32 \<Rightarrow> u32 \<Rightarrow> u32 \<Rightarrow> ptr \<times> 'st) \<Rightarrow> ('st \<Rightarrow> ptr \<Rightarrow> 'st) \<Rightarrow> (u32 \<Rightarrow> u32 \<Rightarrow> bool) \<Rightarrow> 'st fdb_btree_t \<Rightarrow>
   (ptr \<rightharpoonup> nat) \<Rightarrow> bool" where
  "tree_client alloc free S b P \<longleftrightarrow> pool_takes S (bt_node_allocator b) FDB_BTREE_NODE_ALIGNMENT sizeof_node \<and>
     (\<exists>live. pool_holds alloc free (bt_node_allocator b) P live \<and> dom live = dom (bt_nodes b))"

text \<open>A parent whose served sizes are fixed.\<close>

locale steady_provider = mem_provider +
  fixes S :: "u32 \<Rightarrow> u32 \<Rightarrow> bool"
  assumes steady: "ainv s live \<Longrightarrow> serves s = S"

context steady_provider
begin

lemma steady_shared: "shared ainv F s live \<Longrightarrow> serves s = S"
  by (auto elim: shared_full dest: steady)

lemma client_pool: "pool_over alloc free (shared ainv F) room serves"
  by (rule pool_over.intro [OF shared_provider])

lemma client_step:
  assumes run: "\<And>F. shared ainv F st (Ps c) \<Longrightarrow> \<exists>P'. shared ainv F st' P' \<and> Q P'" and cl: "clients ainv st Ps"
  shows "\<exists>P'. clients ainv st' (Ps(c := P')) \<and> Q P'"
proof -
  obtain F where F: "shared ainv F st (Ps c)" "\<And>d. d \<noteq> c \<Longrightarrow> Ps d \<subseteq>\<^sub>m F" using clients_shared [OF cl] by metis
  obtain P' where P': "shared ainv F st' P'" "Q P'" using run [OF F(1)] by blast
  have "clients ainv st' (Ps(c := P'))"
    by (rule shared_clients [OF P'(1) F(2) clients_disjoint [OF cl]])
  then show ?thesis using P'(2) by blast
qed

lemma client_alloc:
  assumes cl: "clients ainv st Ps" and pa: "pool_holds alloc free pa (Ps c) live" and room: "room st (Suc n)"
    and S: "pool_takes S pa al sz" and run: "fdb_pool_alloc_alloc (pa, st) al sz h = (p, (pa', st'))"
  shows "fits live p (unat sz) \<and> room st' n \<and> pool_takes S pa' = pool_takes S pa \<and>
    (\<exists>P'. clients ainv st' (Ps(c := P')) \<and> pool_holds alloc free pa' P' (live(p \<mapsto> unat sz)))"
proof -
  have step: "fits live p (unat sz) \<and> unat al dvd unat p \<and>
    pool_inv alloc free (shared ainv F) (pa', st') (live(p \<mapsto> unat sz)) \<and> room st' n \<and>
    pool_serves serves (pa', st') = pool_serves serves (pa, st)" if "shared ainv F st (Ps c)" for F
    by (rule pool_over.pool_alloc_step [OF client_pool _ room _ run])
      (use that pa S steady_shared in \<open>auto simp: pool_inv_holds pool_serves_takes\<close>)
  obtain F where F: "shared ainv F st (Ps c)" using clients_shared [OF cl] by metis
  have sv: "serves st = S" by (rule steady_shared [OF F])
  obtain P' where P': "shared ainv F st' P'" using step [OF F] by (auto simp: pool_inv_holds)
  have "serves st' = S" by (rule steady_shared [OF P'])
  then have "pool_takes S pa' a b = pool_takes S pa a b" for a b
    using step [OF F] sv pool_serves_takes [of serves] by metis
  then have "pool_takes S pa' = pool_takes S pa" by blast
  moreover have "\<exists>P'. clients ainv st' (Ps(c := P')) \<and> pool_holds alloc free pa' P' (live(p \<mapsto> unat sz))"
    by (rule client_step [OF _ cl]) (use step in \<open>auto simp: pool_inv_holds simp del: fun_upd_apply\<close>)
  ultimately show ?thesis using step [OF F] by blast
qed

lemma client_free:
  assumes cl: "clients ainv st Ps" and pa: "pool_holds alloc free pa (Ps c) live" and p: "live p = Some m"
    and run: "fdb_pool_alloc_free (pa, st) p = (pa', st')"
  shows "st' = st \<and> pool_takes S pa' = pool_takes S pa \<and> pool_holds alloc free pa' (Ps c) (live(p := None))"
proof -
  have st: "st' = st" "pool_takes S pa' = pool_takes S pa"
    using run by (auto simp: fdb_pool_alloc_free_def pool_takes_def fun_eq_iff)
  have "pool_inv alloc free (\<lambda>_ P. P = Ps c) (fdb_pool_alloc_free (pa, st) p) (live(p := None))"
    by (rule pool_free_step) (use pa p in \<open>auto simp: pool_inv_holds\<close>)
  then show ?thesis using st run by (simp add: pool_inv_holds)
qed

lemma tree_mem:
  assumes "serves st = S"
  shows "bt_mem alloc free ainv' room serves (b, st) n \<longleftrightarrow> room st n \<and> (\<exists>P. ainv' st P \<and> tree_client alloc free S b P)"
  unfolding bt_mem_def prod.case tree_client_def pool_inv_holds pool_serves_takes assms by blast

lemma client_nodes: "node_memory (bt_mem alloc free (shared ainv F) room serves)"
  by (rule pool_over.bt_node_memory [OF client_pool])

lemma tree_step:
  assumes cl: "clients ainv st Ps" and b: "tree_client alloc free S b (Ps c)" and room: "room st n"
    and run: "\<And>F. bt_mem alloc free (shared ainv F) room serves (b, st) n \<Longrightarrow>
      bt_mem alloc free (shared ainv F) room serves (b', st') m"
  shows "room st' m \<and> (\<exists>P'. clients ainv st' (Ps(c := P')) \<and> tree_client alloc free S b' P')"
proof -
  have one: "room st' m \<and> (\<exists>P. shared ainv F st' P \<and> tree_client alloc free S b' P)" if F: "shared ainv F st (Ps c)" for F
  proof -
    have sv: "serves st = S" by (rule steady_shared [OF F])
    have "bt_mem alloc free (shared ainv F) room serves (b, st) n" unfolding tree_mem [OF sv] using F b room by blast
    then have m: "bt_mem alloc free (shared ainv F) room serves (b', st') m" by (rule run)
    then obtain P where "shared ainv F st' P" by (auto simp: bt_mem_def pool_inv_holds)
    then have "serves st' = S" by (rule steady_shared)
    then show ?thesis using m tree_mem by blast
  qed
  obtain F where F: "shared ainv F st (Ps c)" using clients_shared [OF cl] by metis
  have "\<exists>P'. clients ainv st' (Ps(c := P')) \<and> tree_client alloc free S b' P'"
    by (rule client_step [OF _ cl]) (use one in blast)
  then show ?thesis using one [OF F] by blast
qed

lemma client_insert:
  assumes cl: "clients ainv st Ps" and b: "tree_client alloc free S b (Ps c)" and room: "room st (BT_NODES + n)"
    and h: "btree_holds b xs" and v: "v \<noteq> NULL"
  shows "\<exists>res b' st'. fdb_btree_insert (b, st) key v = Inr (res, (b', st')) \<and> btree_holds b' (ins key v xs) \<and>
    place_ok key xs (bt_nodes b') (ins key v xs) res \<and> room st' n \<and>
    (\<exists>P'. clients ainv st' (Ps(c := P')) \<and> tree_client alloc free S b' P')"
proof -
  have step: "\<exists>res b' st'. fdb_btree_insert (b, st) key v = Inr (res, (b', st')) \<and> btree_holds b' (ins key v xs) \<and>
      place_ok key xs (bt_nodes b') (ins key v xs) res \<and> bt_mem alloc free (shared ainv F) room serves (b', st') n"
    if "bt_mem alloc free (shared ainv F) room serves (b, st) (BT_NODES + n)" for F
    by (rule node_memory.insert_spec [OF client_nodes h that v])
  obtain F where F: "shared ainv F st (Ps c)" using clients_shared [OF cl] by metis
  then have "bt_mem alloc free (shared ainv F) room serves (b, st) (BT_NODES + n)"
    unfolding tree_mem [OF steady_shared [OF F]] using b room by blast
  from step [OF this] obtain res b' st' where r: "fdb_btree_insert (b, st) key v = Inr (res, (b', st'))"
    "btree_holds b' (ins key v xs)" "place_ok key xs (bt_nodes b') (ins key v xs) res" by blast
  have "room st' n \<and> (\<exists>P'. clients ainv st' (Ps(c := P')) \<and> tree_client alloc free S b' P')"
    by (rule tree_step [OF cl b room]) (use step r(1) in fastforce)
  then show ?thesis using r by blast
qed

lemma client_clear:
  assumes cl: "clients ainv st Ps" and b: "tree_client alloc free S b (Ps c)" and room: "room st (Suc n)"
    and h: "btree_holds b xs"
  shows "\<exists>b' st'. fdb_btree_clear (b, st) = Inr (b', st') \<and> btree_holds b' [] \<and> room st' n \<and>
    (\<exists>P'. clients ainv st' (Ps(c := P')) \<and> tree_client alloc free S b' P')"
proof -
  have step: "\<exists>b' st'. fdb_btree_clear (b, st) = Inr (b', st') \<and> btree_holds b' [] \<and>
      bt_mem alloc free (shared ainv F) room serves (b', st') n"
    if "bt_mem alloc free (shared ainv F) room serves (b, st) (Suc n)" for F
    by (rule node_memory.clear_spec [OF client_nodes h that])
  obtain F where F: "shared ainv F st (Ps c)" using clients_shared [OF cl] by metis
  then have "bt_mem alloc free (shared ainv F) room serves (b, st) (Suc n)"
    unfolding tree_mem [OF steady_shared [OF F]] using b room by blast
  from step [OF this] obtain b' st' where r: "fdb_btree_clear (b, st) = Inr (b', st')" "btree_holds b' []" by blast
  have "room st' n \<and> (\<exists>P'. clients ainv st' (Ps(c := P')) \<and> tree_client alloc free S b' P')"
    by (rule tree_step [OF cl b room]) (use step r(1) in fastforce)
  then show ?thesis using r by blast
qed

text \<open>A new client: a pool holds no chunk yet, a tree takes one node.\<close>

lemma client_pool_init:
  assumes "fdb_pool_alloc_init alignment block_size page_size a g mem = Inr pa" "unat alignment < 2 ^ 31"
    and "2 * max 8 (unat block_size) + max 16 (unat alignment) \<le> unat page_size"
    and "p_mem_alloc (case a of Some a \<Rightarrow> a | None \<Rightarrow> g) = alloc"
    and "p_mem_free (case a of Some a \<Rightarrow> a | None \<Rightarrow> g) = free"
  shows "pool_holds alloc free pa Map.empty Map.empty"
proof -
  have "pool_inv alloc free (\<lambda>_ P. P = Map.empty) (pa, undefined) Map.empty"
    by (rule pool_init_inv [where ainv = "\<lambda>_ P. P = Map.empty" and plive = Map.empty, OF assms]) simp_all
  then show ?thesis by (simp add: pool_inv_holds)
qed

lemma client_tree_init:
  assumes alloc: "p_mem_alloc (case a of Some a \<Rightarrow> a | None \<Rightarrow> g) = alloc" "p_mem_free (case a of Some a \<Rightarrow> a | None \<Rightarrow> g) = free"
    and cl: "clients ainv st Ps" "Ps c = Map.empty" and room: "room st (Suc n)" and S: "S 64 4096"
  shows "\<exists>b st'. fdb_btree_init a g hdr st = Inr (b, st') \<and> btree_holds b [] \<and> room st' n \<and>
    (\<exists>P'. clients ainv st' (Ps(c := P')) \<and> tree_client alloc free S b P')"
proof -
  have step: "\<exists>b st'. fdb_btree_init a g hdr st = Inr (b, st') \<and> btree_holds b [] \<and>
      bt_mem alloc free (shared ainv F) room serves (b, st') n" if F: "shared ainv F st (Ps c)" for F
    by (rule pool_over.btree_init_spec [OF client_pool alloc F _ room])
      (use cl(2) steady_shared [OF F] S in simp_all)
  have one: "room st' n \<and> (\<exists>P. shared ainv F st' P \<and> tree_client alloc free S b P)"
    if "shared ainv F st (Ps c)" "fdb_btree_init a g hdr st = Inr (b, st')" for F b st'
  proof -
    have m: "bt_mem alloc free (shared ainv F) room serves (b, st') n" using step [OF that(1)] that(2) by auto
    then obtain P where "shared ainv F st' P" by (auto simp: bt_mem_def pool_inv_holds)
    then have "serves st' = S" by (rule steady_shared)
    then show ?thesis using m tree_mem by blast
  qed
  obtain F where F: "shared ainv F st (Ps c)" using clients_shared [OF cl(1)] by metis
  from step [OF F] obtain b st' where r: "fdb_btree_init a g hdr st = Inr (b, st')" "btree_holds b []" by blast
  have "\<exists>P'. clients ainv st' (Ps(c := P')) \<and> tree_client alloc free S b P'"
    by (rule client_step [OF _ cl(1)]) (use one r(1) in blast)
  then show ?thesis using r one [OF F r(1)] by blast
qed

end

context mem_provider
begin

lemma steady_instance: "steady_provider alloc free (\<lambda>s live. ainv s live \<and> serves s = S) room serves S"
proof (unfold_locales, goal_cases)
  case (1 s live n al sz h p s')
  show ?case by (rule alloc_fits [OF conjunct1 [OF 1(1)] 1(2-)])
next
  case (2 s live n al sz h p s')
  show ?case by (rule alloc_aligned [OF conjunct1 [OF 2(1)] 2(2-)])
next
  case (3 s live n al sz h p s')
  show ?case using alloc_inv [OF conjunct1 [OF 3(1)] 3(2-)] alloc_serves [OF conjunct1 [OF 3(1)] 3(2-)] 3(1) by simp
next
  case (4 s live n al sz h p s')
  show ?case by (rule alloc_room [OF conjunct1 [OF 4(1)] 4(2-)])
next
  case (5 s live n al sz h p s')
  show ?case by (rule alloc_serves [OF conjunct1 [OF 5(1)] 5(2-)])
next
  case (6 s n)
  then show ?case by (rule room_mono)
next
  case (7 s live p m)
  show ?case using free_inv [OF conjunct1 [OF 7(1)] 7(2)] free_serves 7(1) by simp
next
  case (8 s live p m n)
  show ?case by (rule free_room [OF conjunct1 [OF 8(1)] 8(2-)])
next
  case (9 s p)
  show ?case by (rule free_serves)
next
  case (10 s live)
  then show ?case by simp
qed

end

text \<open>The page allocator serves the same two sizes for ever.\<close>

abbreviation page_steady :: "(u32 \<Rightarrow> u32 \<Rightarrow> bool) \<Rightarrow> fdb_page_alloc_t \<Rightarrow> (ptr \<rightharpoonup> nat) \<Rightarrow> bool" where
  "page_steady S \<equiv> \<lambda>s live. page_inv s live \<and> page_serves s = S"

lemma steady_page_provider:
  "steady_provider fdb_page_alloc_alloc fdb_page_alloc_free (page_steady S) page_room page_serves S"
  by (rule page.steady_instance)

interpretation steady_page: steady_provider fdb_page_alloc_alloc fdb_page_alloc_free "page_steady S" page_room page_serves S
  for S by (rule steady_page_provider)

section \<open>The iterator of a tree as the list of what is left\<close>

definition iter_at :: "btheap \<Rightarrow> fdb_btree_iter_t \<Rightarrow> entries \<Rightarrow> bool" where
  "iter_at h it ys \<longleftrightarrow> (\<forall>fuel. length ys < fuel \<longrightarrow> btree_walk fuel h it = Inr ys)"

lemma iter_at_init:
  assumes "btree_holds b xs"
  obtains it where "fdb_btree_iter_init b = Inr it" "iter_at (bt_nodes b) it xs"
proof -
  have w: "bind_res (fdb_btree_iter_init b) (btree_walk fuel (bt_nodes b)) = Inr xs" if "length xs < fuel" for fuel
    using iterate_spec [OF assms that] by (simp add: btree_iterate_def)
  obtain it where it: "fdb_btree_iter_init b = Inr it" using w [OF lessI] by (auto simp: res_simps)
  then show thesis using that w by (auto simp: iter_at_def)
qed

lemma iter_at_has_next:
  assumes "iter_at h it ys" shows "fdb_btree_iter_has_next h it = Inr (ys \<noteq> [])"
proof -
  have "btree_walk (Suc (length ys)) h it = Inr ys"
    by (rule assms [unfolded iter_at_def, rule_format]) simp
  then show ?thesis by (auto simp: res_simps split: if_splits)
qed

lemma iter_at_next:
  assumes "iter_at h it ((k, v) # ys)"
  obtains it' where "fdb_btree_iter_next h it = Inr (\<lparr>be_key = k, be_value = v\<rparr>, it')" "iter_at h it' ys"
proof -
  have w: "btree_walk (Suc fuel) h it = Inr ((k, v) # ys)" if "length ys < fuel" for fuel
    by (rule assms [unfolded iter_at_def, rule_format]) (use that in simp)
  have more: "fdb_btree_iter_has_next h it = Inr True" using iter_at_has_next [OF assms] by simp
  obtain e it' where n: "fdb_btree_iter_next h it = Inr (e, it')" "e = \<lparr>be_key = k, be_value = v\<rparr>"
    using w [OF lessI] more by (auto simp: res_simps)
  have "btree_walk fuel h it' = Inr ys" if "length ys < fuel" for fuel
    using w [OF that] more n(1) by (auto simp: res_simps)
  then have "iter_at h it' ys" by (simp add: iter_at_def)
  then show thesis using that n by simp
qed

section \<open>The start, and a page allocator for the witnesses\<close>

lemma clients_start:
  assumes "ainv st live" "live_apart live" shows "clients ainv st (\<lambda>_. Map.empty)"
  using assms by (auto simp: clients_def)

text \<open>A region of 8 MB with small pages of 4 KB and large pages of 64 KB, the sizes the tables ask for.\<close>

definition demo_db_heap :: "unit fdb_mem_allocator_t" where
  "demo_db_heap = \<lparr>p_mem_alloc = (\<lambda>s al sz h. (65536, s)), p_mem_free = (\<lambda>s p. s), p_mem_stats = None\<rparr>"

definition demo_db_page :: fdb_page_alloc_t where
  "demo_db_page = \<lparr>pg_data = 65536, pg_stop = 65536, pg_ltop = 8323072, pg_snextfree = NULL,
     pg_lnextfree = NULL, pg_sregion = 8323072, pg_ssize = 4096, pg_lsize = 65536,
     pg_stats = \<lparr>st_allocated = 8323072, st_lost = 0, st_used = 0\<rparr>, pg_hdr = (\<lambda>_. 0)\<rparr>"

lemma demo_db_page_inv: "page_inv demo_db_page Map.empty" "page_room demo_db_page 100"
  "page_serves demo_db_page 64 4096" "page_serves demo_db_page 64 65536"
proof -
  have i: "fdb_page_alloc_init demo_db_heap () (\<lambda>_. 0) 8323072 4096 65536 = Inr (demo_db_page, ())"
    by (simp add: fdb_page_alloc_init_def demo_db_heap_def demo_db_page_def mem_alloc_def)
  have "0 < unat (pg_data demo_db_page)" "unat (pg_data demo_db_page) + unat (8323072 :: u64) < 2 ^ 64"
    "unat (4096 :: u32) + 2 * unat (65536 :: u32) + 100 * (unat (4096 :: u32) + unat (65536 :: u32)) \<le> unat (8323072 :: u64)"
    by (simp_all add: demo_db_page_def)
  from page_init_inv [OF i this] show "page_inv demo_db_page Map.empty" "page_room demo_db_page 100" by simp_all
  show "page_serves demo_db_page 64 4096" "page_serves demo_db_page 64 65536"
    by (simp_all add: page_serves_def demo_db_page_def)
qed

end
