(* ===== verification/Table.thy ===== *)
theory Table
  imports Bitmap Clients
begin

text \<open>
  src/src/runtime/data/table.c and table.h: the component tables. A table maps entity ids to
  component storage: an id is split into a block id and an offset, a B+ tree finds the block,
  and two bitmaps of the block tell which components exist and which are enabled. Block
  structures live in \<open>tb_heap\<close>; their storage, the component data and the bitmap bytes come from
  three pools. The bytes of the components belong to the program: operations that change them
  (destructor and memset) thread them as a byte memory. The critical sections of the mutex are
  single steps.
\<close>

section \<open>Constants and records\<close>

definition FDB_TABLE_BLOCK_SIZE :: u32 where "FDB_TABLE_BLOCK_SIZE = 256"
definition FDB_TABLE_BLOCK_ALIGNMENT :: u32 where "FDB_TABLE_BLOCK_ALIGNMENT = 64"
definition FDB_TABLE_BLOCK_DATA_ALIGNMENT :: u32 where "FDB_TABLE_BLOCK_DATA_ALIGNMENT = 64"
definition FDB_BITMAP_DATA_ALIGNMENT :: u32 where "FDB_BITMAP_DATA_ALIGNMENT = 64"
definition FDB_TABLE_BLOCK_PAGE_SIZE :: u32 where "FDB_TABLE_BLOCK_PAGE_SIZE = 4 * 1024"
definition FDB_TABLE_BLOCK_DATA_PAGE_SIZE :: u32 where "FDB_TABLE_BLOCK_DATA_PAGE_SIZE = 64 * 1024"
definition FDB_BITMAP_DATA_PAGE_SIZE :: u32 where "FDB_BITMAP_DATA_PAGE_SIZE = 4 * 1024"

text \<open>\<open>FDB\_ALIGNED\<close> aligns the pointer fields of the structures: a bitmap takes 128 bytes, a block
  64 for its header and two bitmaps.\<close>

definition sizeof_tblock :: u32 where "sizeof_tblock = 320"

lemmas table_consts = FDB_TABLE_BLOCK_ALIGNMENT_def FDB_TABLE_BLOCK_DATA_ALIGNMENT_def
  FDB_BITMAP_DATA_ALIGNMENT_def FDB_TABLE_BLOCK_PAGE_SIZE_def FDB_TABLE_BLOCK_DATA_PAGE_SIZE_def
  FDB_BITMAP_DATA_PAGE_SIZE_def sizeof_tblock_def FDB_TABLE_BLOCK_SIZE_def

type_synonym bytes = "ptr \<Rightarrow> u8"

definition memset0 :: "ptr \<Rightarrow> u64 \<Rightarrow> bytes \<Rightarrow> bytes" where
  "memset0 p n w = (\<lambda>a. if a - p < n then 0 else w a)"

record fdb_table_entry_t =
  te_id :: u32
  te_data :: ptr
  te_enabled :: bool

record fdb_table_block_t =
  tbk_data :: ptr
  tbk_start :: u32
  tbk_num_components :: u64
  tbk_num_enabled :: u64
  tbk_esize :: u64
  tbk_exists :: fdb_bitmap_t
  tbk_enabled :: fdb_bitmap_t

record 'st fdb_table_t =
  tb_name :: string
  tb_id :: u64
  tb_esize :: u64
  tb_blocks :: "'st fdb_btree_t"
  tb_num_components :: u64
  tb_destructor :: ptr
  tb_tblock_allocator :: "'st fdb_pool_alloc_t"
  tb_data_allocator :: "'st fdb_pool_alloc_t"
  tb_bitmap_data_allocator :: "'st fdb_pool_alloc_t"
  tb_heap :: "ptr \<rightharpoonup> fdb_table_block_t"

definition tblock_at :: "(ptr \<rightharpoonup> fdb_table_block_t) \<Rightarrow> ptr \<Rightarrow> fdb_table_block_t res" where
  "tblock_at h p = (if p = NULL then Inl NullDeref
     else case h p of None \<Rightarrow> Inl BadPointer | Some b \<Rightarrow> Inr b)"

definition decode_id :: "u32 \<Rightarrow> (u32 \<times> u32) res" where
  "decode_id eid = (if eid = FDB_INVALID_ID then Inl AssertFail
     else Inr (eid div FDB_TABLE_BLOCK_SIZE, eid mod FDB_TABLE_BLOCK_SIZE))"

section \<open>Blocks\<close>

text \<open>Both allocators are parts of one state \<open>'x\<close>.\<close>

definition fdb_table_block_init ::
  "u32 \<Rightarrow> u64 \<Rightarrow> 'x fdb_mem_allocator_t \<Rightarrow> 'x fdb_mem_allocator_t \<Rightarrow> 'x \<Rightarrow> (fdb_table_block_t \<times> 'x) res" where
  "fdb_table_block_init start esize data_allocator bitmap_allocator x =
     (let (p, x) = mem_alloc data_allocator x 64 (ucast (esize * ucast FDB_TABLE_BLOCK_SIZE))
            (start div FDB_TABLE_BLOCK_SIZE) in
      bind_res (fdb_bitmap_init FDB_TABLE_BLOCK_SIZE bitmap_allocator x) (\<lambda>(exs, x).
      bind_res (fdb_bitmap_init FDB_TABLE_BLOCK_SIZE bitmap_allocator x) (\<lambda>(en, x).
      Inr (\<lparr>tbk_data = p, tbk_start = start, tbk_num_components = 0, tbk_num_enabled = 0,
            tbk_esize = esize, tbk_exists = exs, tbk_enabled = en\<rparr>, x))))"

definition fdb_table_block_release ::
  "fdb_table_block_t \<Rightarrow> 'x fdb_mem_allocator_t \<Rightarrow> 'x fdb_mem_allocator_t \<Rightarrow> 'x \<Rightarrow> 'x" where
  "fdb_table_block_release tblock data_allocator bitmap_allocator x =
     mem_free data_allocator
       (fdb_bitmap_release (tbk_exists tblock) bitmap_allocator
         (fdb_bitmap_release (tbk_enabled tblock) bitmap_allocator x)) (tbk_data tblock)"

definition zero_entry :: fdb_table_entry_t where
  "zero_entry = \<lparr>te_id = 0, te_data = NULL, te_enabled = False\<rparr>"

definition fdb_table_block_get_component :: "fdb_table_block_t \<Rightarrow> u32 \<Rightarrow> fdb_table_entry_t res" where
  "fdb_table_block_get_component block eid =
     bind_res (decode_id eid) (\<lambda>(_, block_offset).
     if tbk_start block \<noteq> eid div FDB_TABLE_BLOCK_SIZE * FDB_TABLE_BLOCK_SIZE then Inl AssertFail else
     bind_res (fdb_bitmap_is_set (tbk_enabled block) block_offset) (\<lambda>e.
     if e then bind_res (fdb_bitmap_is_set (tbk_enabled block) block_offset) (\<lambda>enabled.
       Inr \<lparr>te_id = tbk_start block + block_offset,
            te_data = tbk_data block + ucast block_offset * tbk_esize block, te_enabled = enabled\<rparr>)
     else Inr zero_entry))"

definition fdb_table_block_has_component :: "fdb_table_block_t \<Rightarrow> u32 \<Rightarrow> bool res" where
  "fdb_table_block_has_component block eid =
     (if eid = FDB_INVALID_ID then Inl AssertFail
      else bind_res (fdb_table_block_get_component block eid) (\<lambda>e. Inr (te_data e \<noteq> NULL)))"

subsection \<open>The iterator of a block\<close>

record fdb_tblock_iter_t =
  ti_block :: ptr
  ti_next_position :: u32

text \<open>The loop that advances to the next component that the block has.\<close>

function tblock_skip :: "fdb_table_block_t \<Rightarrow> u32 \<Rightarrow> u32 res" where
  "tblock_skip block pos =
     (if pos < FDB_TABLE_BLOCK_SIZE then
        bind_res (fdb_table_block_has_component block (tbk_start block + pos)) (\<lambda>has.
        if has then Inr pos else tblock_skip block (pos + 1))
      else Inr pos)"
  by pat_completeness auto
termination
proof (relation "measure (\<lambda>(b, pos). 256 - unat pos)")
  fix block :: fdb_table_block_t and pos :: u32 and has
  assume "pos < FDB_TABLE_BLOCK_SIZE"
  then have lt: "unat pos < 256" by (simp add: FDB_TABLE_BLOCK_SIZE_def word_less_nat_alt)
  then have "unat (pos + 1) = unat pos + 1" by (simp add: unat_word_ariths)
  then show "((block, pos + 1), block, pos) \<in> measure (\<lambda>(b, pos). 256 - unat pos)" using lt by simp
qed simp

declare tblock_skip.simps [simp del]

definition fdb_tblock_iter_init :: "(ptr \<rightharpoonup> fdb_table_block_t) \<Rightarrow> ptr \<Rightarrow> fdb_tblock_iter_t res" where
  "fdb_tblock_iter_init h tblock =
     (if tblock = NULL then Inr \<lparr>ti_block = tblock, ti_next_position = 0\<rparr>
      else bind_res (tblock_at h tblock) (\<lambda>block. bind_res (tblock_skip block 0) (\<lambda>pos.
        Inr \<lparr>ti_block = tblock, ti_next_position = pos\<rparr>)))"

definition fdb_tblock_iter_has_next :: "fdb_tblock_iter_t \<Rightarrow> bool" where
  "fdb_tblock_iter_has_next it \<longleftrightarrow> ti_block it \<noteq> NULL \<and> ti_next_position it < FDB_TABLE_BLOCK_SIZE"

definition fdb_tblock_iter_next ::
  "(ptr \<rightharpoonup> fdb_table_block_t) \<Rightarrow> fdb_tblock_iter_t \<Rightarrow> (fdb_table_entry_t \<times> fdb_tblock_iter_t) res" where
  "fdb_tblock_iter_next h it =
     bind_res (tblock_at h (ti_block it)) (\<lambda>block.
     bind_res (fdb_table_block_get_component block (tbk_start block + ti_next_position it)) (\<lambda>e.
     bind_res (tblock_skip block (ti_next_position it + 1)) (\<lambda>pos.
     Inr (e, it\<lparr>ti_next_position := pos\<rparr>))))"

definition fdb_tblock_iter_reset :: "(ptr \<rightharpoonup> fdb_table_block_t) \<Rightarrow> ptr \<Rightarrow> fdb_tblock_iter_t res" where
  "fdb_tblock_iter_reset h block = fdb_tblock_iter_init h block"

section \<open>The iterator of a table\<close>

record fdb_table_iter_t =
  ta_it :: fdb_btree_iter_t
  ta_chunk_size :: u32
  ta_offset :: u32
  ta_stride :: u32
  ta_next :: ptr

definition fdb_table_iter_init ::
  "'st fdb_table_t \<Rightarrow> u32 \<Rightarrow> u32 \<Rightarrow> u32 \<Rightarrow> fdb_table_iter_t res" where
  "fdb_table_iter_init table chunk_size offset stride =
     bind_res (fdb_btree_iter_init (tb_blocks table)) (\<lambda>it.
     Inr \<lparr>ta_it = it, ta_chunk_size = chunk_size, ta_offset = offset, ta_stride = stride, ta_next = NULL\<rparr>)"

definition is_selected :: "u32 \<Rightarrow> u32 \<Rightarrow> u32 \<Rightarrow> u32 \<Rightarrow> bool res" where
  "is_selected chunk_id chunk_size offset stride =
     (if chunk_size = 0 \<or> stride = 0 then Inl DivByZero
      else Inr ((chunk_id div chunk_size + (stride - offset)) mod stride = 0))"

definition block_get_offset :: "u32 \<Rightarrow> u32 \<Rightarrow> u32 \<Rightarrow> u32 res" where
  "block_get_offset block_id chunk_size stride =
     (if chunk_size = 0 \<or> stride = 0 then Inl DivByZero
      else let chunk_id = block_id div chunk_size in Inr (chunk_id mod stride))"

text \<open>The loops have fuel, one unit per entry of the tree.\<close>

fun iter_seek :: "nat \<Rightarrow> btheap \<Rightarrow> fdb_table_iter_t \<Rightarrow> fdb_table_iter_t res" where
  "iter_seek 0 h iter = Inl OutOfFuel"
| "iter_seek (Suc fuel) h iter =
     bind_res (fdb_btree_iter_has_next h (ta_it iter)) (\<lambda>more.
     if more \<and> ta_next iter = NULL then
       bind_res (fdb_btree_iter_next h (ta_it iter)) (\<lambda>(entry, it).
       bind_res (is_selected (be_key entry) (ta_chunk_size iter) (ta_offset iter) (ta_stride iter)) (\<lambda>is_next.
       if is_next then Inr (iter\<lparr>ta_it := it, ta_next := be_value entry\<rparr>)
       else iter_seek fuel h (iter\<lparr>ta_it := it, ta_next := NULL\<rparr>)))
     else Inr iter)"

definition fdb_table_iter_has_next ::
  "nat \<Rightarrow> 'st fdb_table_t \<Rightarrow> fdb_table_iter_t \<Rightarrow> (bool \<times> fdb_table_iter_t) res" where
  "fdb_table_iter_has_next fuel table iter =
     bind_res (iter_seek fuel (bt_nodes (tb_blocks table)) iter) (\<lambda>iter. Inr (ta_next iter \<noteq> NULL, iter))"

fun next_selected ::
  "nat \<Rightarrow> 'st fdb_table_t \<Rightarrow> fdb_table_iter_t \<Rightarrow> (ptr \<times> fdb_table_iter_t) res" where
  "next_selected 0 table iter = Inl OutOfFuel"
| "next_selected (Suc fuel) table iter =
     bind_res (fdb_btree_iter_next (bt_nodes (tb_blocks table)) (ta_it iter)) (\<lambda>(entry, it).
     let iter = iter\<lparr>ta_it := it\<rparr>; nxt = be_value entry in
     if nxt = NULL then Inr (nxt, iter) else
     bind_res (tblock_at (tb_heap table) nxt) (\<lambda>block.
     bind_res (is_selected (tbk_start block div FDB_TABLE_BLOCK_SIZE) (ta_chunk_size iter) (ta_offset iter)
       (ta_stride iter)) (\<lambda>found.
     if found then Inr (nxt, iter) else next_selected fuel table iter)))"

definition fdb_table_iter_next ::
  "nat \<Rightarrow> 'st fdb_table_t \<Rightarrow> fdb_table_iter_t \<Rightarrow> (ptr \<times> fdb_table_iter_t) res" where
  "fdb_table_iter_next fuel table iter =
     (if ta_next iter \<noteq> NULL then Inr (ta_next iter, iter\<lparr>ta_next := NULL\<rparr>)
      else next_selected fuel table iter)"

section \<open>Tables\<close>

definition fdb_table_init ::
  "string \<Rightarrow> u64 \<Rightarrow> u64 \<Rightarrow> ptr \<Rightarrow> 'st fdb_mem_allocator_t option \<Rightarrow> 'st fdb_mem_allocator_t \<Rightarrow> (ptr \<Rightarrow> ptr) \<Rightarrow>
   'st \<Rightarrow> ('st fdb_table_t \<times> 'st) res" where
  "fdb_table_init name i esize destructor allocator gallocator mem st =
     (if FDB_MAX_TABLE_NAME \<le> length name then Inl AssertFail else
      let mallocator = (case allocator of Some a \<Rightarrow> a | None \<Rightarrow> gallocator) in
      bind_res (fdb_pool_alloc_init FDB_TABLE_BLOCK_ALIGNMENT sizeof_tblock FDB_TABLE_BLOCK_PAGE_SIZE
        (Some mallocator) gallocator mem) (\<lambda>tblock_allocator.
      bind_res (fdb_pool_alloc_init FDB_TABLE_BLOCK_DATA_ALIGNMENT (ucast (esize * ucast FDB_TABLE_BLOCK_SIZE))
        FDB_TABLE_BLOCK_DATA_PAGE_SIZE (Some mallocator) gallocator mem) (\<lambda>data_allocator.
      bind_res (fdb_pool_alloc_init FDB_BITMAP_DATA_ALIGNMENT (FDB_BITMAP_NUM_CHUNKS FDB_TABLE_BLOCK_SIZE)
        FDB_BITMAP_DATA_PAGE_SIZE (Some mallocator) gallocator mem) (\<lambda>bitmap_data_allocator.
      bind_res (fdb_btree_init (Some mallocator) gallocator mem st) (\<lambda>(blocks, st).
      Inr (\<lparr>tb_name = name, tb_id = i, tb_esize = esize, tb_blocks = blocks, tb_num_components = 0,
             tb_destructor = destructor, tb_tblock_allocator = tblock_allocator,
             tb_data_allocator = data_allocator, tb_bitmap_data_allocator = bitmap_data_allocator,
             tb_heap = Map.empty\<rparr>, st))))))"

text \<open>\<open>&table->m_data_allocator.m_super\<close> and \<open>&table->m_bitmap_data_allocator.m_super\<close>: allocators
  whose state is the table.\<close>

definition table_data_super :: "('st fdb_table_t \<times> 'st) fdb_mem_allocator_t" where
  "table_data_super = \<lparr>
     p_mem_alloc = (\<lambda>(t, st) al sz h. let (p, (pa, st)) = mem_alloc fdb_pool_alloc_super (tb_data_allocator t, st) al sz h
        in (p, (t\<lparr>tb_data_allocator := pa\<rparr>, st))),
     p_mem_free = (\<lambda>(t, st) p. let (pa, st) = mem_free fdb_pool_alloc_super (tb_data_allocator t, st) p
        in (t\<lparr>tb_data_allocator := pa\<rparr>, st)),
     p_mem_stats = None\<rparr>"

definition table_bitmap_super :: "('st fdb_table_t \<times> 'st) fdb_mem_allocator_t" where
  "table_bitmap_super = \<lparr>
     p_mem_alloc = (\<lambda>(t, st) al sz h. let (p, (pa, st)) = mem_alloc fdb_pool_alloc_super (tb_bitmap_data_allocator t, st) al sz h
        in (p, (t\<lparr>tb_bitmap_data_allocator := pa\<rparr>, st))),
     p_mem_free = (\<lambda>(t, st) p. let (pa, st) = mem_free fdb_pool_alloc_super (tb_bitmap_data_allocator t, st) p
        in (t\<lparr>tb_bitmap_data_allocator := pa\<rparr>, st)),
     p_mem_stats = None\<rparr>"

definition fdb_table_size :: "'st fdb_table_t \<Rightarrow> u64" where
  "fdb_table_size table = tb_num_components table"

definition fdb_table_get_component :: "'st fdb_table_t \<Rightarrow> u32 \<Rightarrow> ptr res" where
  "fdb_table_get_component table eid =
     bind_res (decode_id eid) (\<lambda>(block_id, block_offset).
     bind_res (fdb_btree_get (tb_blocks table) block_id) (\<lambda>component.
     if component = NULL then Inr NULL else
     bind_res (tblock_at (tb_heap table) component) (\<lambda>block.
     bind_res (fdb_bitmap_is_set (tbk_exists block) block_offset) (\<lambda>e.
     if e then Inr (tbk_data block + ucast block_offset * tb_esize table) else Inr NULL))))"

text \<open>The part of \<open>create_component\<close> for an id whose block does not exist yet.\<close>

definition create_block ::
  "u32 \<Rightarrow> 'st fdb_table_t \<times> 'st \<Rightarrow> (ptr \<times> ('st fdb_table_t \<times> 'st)) res" where
  "create_block block_id ts =
     (let (table, st) = ts;
          (p, (pa, st)) = fdb_pool_alloc_alloc (tb_tblock_allocator table, st) FDB_TABLE_BLOCK_ALIGNMENT
             sizeof_tblock block_id
      in if p = NULL then Inl NullDeref else
         bind_res (fdb_table_block_init (block_id * FDB_TABLE_BLOCK_SIZE) (tb_esize table)
             table_data_super table_bitmap_super (table\<lparr>tb_tblock_allocator := pa\<rparr>, st)) (\<lambda>(block, (table, st)).
         bind_res (fdb_btree_insert (tb_blocks table, st) block_id p) (\<lambda>(_, (blocks, st)).
         Inr (p, (table\<lparr>tb_heap := (tb_heap table)(p \<mapsto> block), tb_blocks := blocks\<rparr>, st)))))"

definition fdb_table_create_component ::
  "'st fdb_table_t \<times> 'st \<Rightarrow> u32 \<Rightarrow> (ptr \<times> ('st fdb_table_t \<times> 'st)) res" where
  "fdb_table_create_component ts eid =
     bind_res (decode_id eid) (\<lambda>(block_id, block_offset).
     bind_res (fdb_btree_get (tb_blocks (fst ts)) block_id) (\<lambda>p.
     bind_res (if p = NULL then create_block block_id ts else Inr (p, ts)) (\<lambda>(p, (table, st)).
     bind_res (tblock_at (tb_heap table) p) (\<lambda>block.
     bind_res (fdb_bitmap_is_set (tbk_exists block) block_offset) (\<lambda>e.
     let (table, block) =
           (if \<not> e then (table\<lparr>tb_num_components := tb_num_components table + 1\<rparr>,
               block\<lparr>tbk_num_components := tbk_num_components block + 1,
                     tbk_num_enabled := tbk_num_enabled block + 1\<rparr>)
            else (table, block)) in
     bind_res (fdb_bitmap_set (tbk_exists block) block_offset) (\<lambda>exs.
     bind_res (fdb_bitmap_set (tbk_enabled block) block_offset) (\<lambda>en.
     Inr (tbk_data block + ucast block_offset * tb_esize table,
          (table\<lparr>tb_heap := (tb_heap table)(p \<mapsto> block\<lparr>tbk_exists := exs, tbk_enabled := en\<rparr>)\<rparr>, st)))))))))"

text \<open>The destructor is a function pointer of the program: \<open>call f p\<close> is what it does to the
  program's memory when called on \<open>p\<close>.\<close>

definition fdb_table_destroy_component ::
  "(ptr \<Rightarrow> ptr \<Rightarrow> bytes \<Rightarrow> bytes) \<Rightarrow> 'st fdb_table_t \<Rightarrow> u32 \<Rightarrow> bytes \<Rightarrow> ('st fdb_table_t \<times> bytes) res" where
  "fdb_table_destroy_component call table eid w =
     bind_res (decode_id eid) (\<lambda>(block_id, block_offset).
     bind_res (fdb_btree_get (tb_blocks table) block_id) (\<lambda>p.
     if p = NULL then Inr (table, w) else
     bind_res (tblock_at (tb_heap table) p) (\<lambda>block.
     bind_res (fdb_bitmap_is_set (tbk_exists block) block_offset) (\<lambda>e.
     let (table, block) =
           (if e then (table\<lparr>tb_num_components := tb_num_components table - 1\<rparr>,
               block\<lparr>tbk_num_components := tbk_num_components block - 1,
                     tbk_num_enabled := tbk_num_enabled block - 1\<rparr>)
            else (table, block)) in
     bind_res (fdb_bitmap_unset (tbk_exists block) block_offset) (\<lambda>exs.
     bind_res (fdb_bitmap_unset (tbk_enabled block) block_offset) (\<lambda>en.
     let data = tbk_data block + ucast block_offset * tb_esize table;
         w = (if tb_destructor table \<noteq> NULL then call (tb_destructor table) data w else w)
     in Inr (table\<lparr>tb_heap := (tb_heap table)(p \<mapsto> block\<lparr>tbk_exists := exs, tbk_enabled := en\<rparr>)\<rparr>,
             memset0 data (tb_esize table) w)))))))"

definition fdb_table_enable_component :: "'st fdb_table_t \<Rightarrow> u32 \<Rightarrow> 'st fdb_table_t res" where
  "fdb_table_enable_component table eid =
     bind_res (decode_id eid) (\<lambda>(block_id, block_offset).
     bind_res (fdb_btree_get (tb_blocks table) block_id) (\<lambda>p.
     if p = NULL then Inr table else
     bind_res (tblock_at (tb_heap table) p) (\<lambda>block.
     bind_res (fdb_bitmap_set (tbk_enabled block) block_offset) (\<lambda>en.
     Inr (table\<lparr>tb_heap := (tb_heap table)(p \<mapsto> block\<lparr>tbk_enabled := en,
       tbk_num_enabled := tbk_num_enabled block + 1\<rparr>)\<rparr>)))))"

definition fdb_table_disable_component :: "'st fdb_table_t \<Rightarrow> u32 \<Rightarrow> 'st fdb_table_t res" where
  "fdb_table_disable_component table eid =
     bind_res (decode_id eid) (\<lambda>(block_id, block_offset).
     bind_res (fdb_btree_get (tb_blocks table) block_id) (\<lambda>p.
     if p = NULL then Inr table else
     bind_res (tblock_at (tb_heap table) p) (\<lambda>block.
     bind_res (fdb_bitmap_unset (tbk_enabled block) block_offset) (\<lambda>en.
     Inr (table\<lparr>tb_heap := (tb_heap table)(p \<mapsto> block\<lparr>tbk_enabled := en,
       tbk_num_enabled := tbk_num_enabled block - 1\<rparr>)\<rparr>)))))"

definition fdb_table_is_enabled :: "'st fdb_table_t \<Rightarrow> u32 \<Rightarrow> bool res" where
  "fdb_table_is_enabled table eid =
     bind_res (decode_id eid) (\<lambda>(block_id, block_offset).
     bind_res (fdb_btree_get (tb_blocks table) block_id) (\<lambda>p.
     if p = NULL then Inr False else
     bind_res (tblock_at (tb_heap table) p) (\<lambda>block.
     fdb_bitmap_is_set (tbk_enabled block) block_offset)))"

definition fdb_table_get_block :: "'st fdb_table_t \<Rightarrow> u32 \<Rightarrow> ptr res" where
  "fdb_table_get_block table block_id = fdb_btree_get (tb_blocks table) block_id"

definition fdb_table_set_component_destructor :: "'st fdb_table_t \<Rightarrow> ptr \<Rightarrow> 'st fdb_table_t" where
  "fdb_table_set_component_destructor table destr = table\<lparr>tb_destructor := destr\<rparr>"

section \<open>Clearing and releasing\<close>

fun destroy_entries ::
  "nat \<Rightarrow> (ptr \<Rightarrow> bytes \<Rightarrow> bytes) \<Rightarrow> (ptr \<rightharpoonup> fdb_table_block_t) \<Rightarrow> fdb_tblock_iter_t \<Rightarrow> bytes \<Rightarrow> bytes res" where
  "destroy_entries 0 destr h it w = Inl OutOfFuel"
| "destroy_entries (Suc fuel) destr h it w =
     (if fdb_tblock_iter_has_next it then
        bind_res (fdb_tblock_iter_next h it) (\<lambda>(e, it). destroy_entries fuel destr h it (destr (te_data e) w))
      else Inr w)"

text \<open>A block has 256 entries.\<close>

definition TB_FUEL :: nat where "TB_FUEL = 257"

definition clear_block ::
  "(ptr \<Rightarrow> ptr \<Rightarrow> bytes \<Rightarrow> bytes) \<Rightarrow> 'st fdb_table_t \<times> 'st \<Rightarrow> ptr \<Rightarrow> bytes \<Rightarrow> (('st fdb_table_t \<times> 'st) \<times> bytes) res" where
  "clear_block call ts p w =
     bind_res (if tb_destructor (fst ts) \<noteq> NULL then
         bind_res (fdb_tblock_iter_init (tb_heap (fst ts)) p) (\<lambda>it.
           destroy_entries TB_FUEL (call (tb_destructor (fst ts))) (tb_heap (fst ts)) it w)
       else Inr w) (\<lambda>w.
     bind_res (tblock_at (tb_heap (fst ts)) p) (\<lambda>block.
     let (table, st) = fdb_table_block_release block table_data_super table_bitmap_super ts;
         (pa, st) = fdb_pool_alloc_free (tb_tblock_allocator table, st) p
     in Inr ((table\<lparr>tb_tblock_allocator := pa, tb_heap := (tb_heap table)(p := None)\<rparr>, st), w)))"

fun clear_blocks ::
  "nat \<Rightarrow> (ptr \<Rightarrow> ptr \<Rightarrow> bytes \<Rightarrow> bytes) \<Rightarrow> fdb_table_iter_t \<Rightarrow> 'st fdb_table_t \<times> 'st \<Rightarrow> bytes \<Rightarrow>
   (('st fdb_table_t \<times> 'st) \<times> bytes) res" where
  "clear_blocks 0 call iter ts w = Inl OutOfFuel"
| "clear_blocks (Suc fuel) call iter ts w =
     bind_res (fdb_table_iter_has_next (Suc fuel) (fst ts) iter) (\<lambda>(more, iter).
     if more then
       bind_res (fdb_table_iter_next (Suc fuel) (fst ts) iter) (\<lambda>(p, iter).
       bind_res (clear_block call ts p w) (\<lambda>(ts, w). clear_blocks fuel call iter ts w))
     else Inr (ts, w))"

definition fdb_table_clear ::
  "nat \<Rightarrow> (ptr \<Rightarrow> ptr \<Rightarrow> bytes \<Rightarrow> bytes) \<Rightarrow> 'st fdb_table_t \<times> 'st \<Rightarrow> bytes \<Rightarrow> (('st fdb_table_t \<times> 'st) \<times> bytes) res" where
  "fdb_table_clear fuel call ts w =
     bind_res (fdb_table_iter_init (fst ts) 1 0 1) (\<lambda>iter.
     bind_res (clear_blocks fuel call iter ts w) (\<lambda>((table, st), w).
     bind_res (fdb_btree_clear (tb_blocks table, st)) (\<lambda>(blocks, st).
     Inr ((table\<lparr>tb_blocks := blocks, tb_num_components := 0\<rparr>, st), w))))"

definition fdb_table_release ::
  "nat \<Rightarrow> (ptr \<Rightarrow> ptr \<Rightarrow> bytes \<Rightarrow> bytes) \<Rightarrow> 'st fdb_table_t \<times> 'st \<Rightarrow> bytes \<Rightarrow> (('st fdb_table_t \<times> 'st) \<times> bytes) res" where
  "fdb_table_release fuel call ts w =
     bind_res (fdb_table_clear fuel call ts w) (\<lambda>((table, st), w).
     bind_res (fdb_btree_release fuel (tb_blocks table, st)) (\<lambda>(blocks, st).
     bind_res (fdb_pool_alloc_release fuel (tb_bitmap_data_allocator table, st)) (\<lambda>(ba, st).
     bind_res (fdb_pool_alloc_release fuel (tb_data_allocator table, st)) (\<lambda>(da, st).
     bind_res (fdb_pool_alloc_release fuel (tb_tblock_allocator table, st)) (\<lambda>(ta, st).
     Inr ((table\<lparr>tb_blocks := blocks, tb_bitmap_data_allocator := ba, tb_data_allocator := da,
       tb_tblock_allocator := ta\<rparr>, st), w))))))"

end
