(* ===== verification/TableSpec.thy ===== *)
theory TableSpec
  imports Table
begin

text \<open>
  What the component tables promise. \<open>table_view\<close> relates a table to the entries of its B+ tree and
  to the sets of existing and enabled ids; \<open>table_mem\<close> says which blocks of its pools are in use.
  The commands of a table are then refined to operations on those sets.
\<close>

section \<open>The sets a table stands for\<close>

definition id_ok :: "u32 \<Rightarrow> bool" where "id_ok eid \<longleftrightarrow> eid \<noteq> FDB_INVALID_ID"

definition block_ok :: "u32 \<Rightarrow> u64 \<Rightarrow> u32 set \<Rightarrow> u32 set \<Rightarrow> fdb_table_block_t \<Rightarrow> bool" where
  "block_ok b esize ex en k \<longleftrightarrow> tbk_start k = b * 256 \<and> tbk_esize k = esize \<and>
     bm_inv (tbk_exists k) \<and> bm_max_bits (tbk_exists k) = 256 \<and>
     bm_inv (tbk_enabled k) \<and> bm_max_bits (tbk_enabled k) = 256 \<and>
     (\<forall>eid. eid div 256 = b \<longrightarrow> (unat (eid mod 256) \<in> bits (tbk_exists k) \<longleftrightarrow> eid \<in> ex) \<and>
        (unat (eid mod 256) \<in> bits (tbk_enabled k) \<longleftrightarrow> eid \<in> en))"

definition table_view :: "'st fdb_table_t \<Rightarrow> entries \<Rightarrow> u32 set \<Rightarrow> u32 set \<Rightarrow> bool" where
  "table_view t xs ex en \<longleftrightarrow> btree_holds (tb_blocks t) xs \<and> distinct (map snd xs) \<and>
     dom (tb_heap t) = snd ` set xs \<and>
     (\<forall>b p. (b, p) \<in> set xs \<longrightarrow> p \<noteq> NULL \<and> unat b < 2 ^ 24 \<and>
        (\<exists>k. tb_heap t p = Some k \<and> block_ok b (tb_esize t) ex en k)) \<and>
     (\<forall>eid\<in>ex \<union> en. id_ok eid \<and> eid div 256 \<in> fst ` set xs) \<and>
     tb_num_components t = of_nat (card ex)"

lemma decode_id_ok: "id_ok eid \<Longrightarrow> decode_id eid = Inr (eid div 256, eid mod 256)"
  by (simp add: decode_id_def id_ok_def FDB_TABLE_BLOCK_SIZE_def)

lemma decode_id_invalid: "decode_id FDB_INVALID_ID = Inl AssertFail"
  by (simp add: decode_id_def)

lemma mod_256_lt: "unat ((eid :: u32) mod 256) < 256"
  by (simp add: unat_mod)

lemma id_parts: "(eid :: u32) div 256 = eid' div 256 \<Longrightarrow> unat (eid mod 256) = unat (eid' mod 256) \<Longrightarrow> eid = eid'"
  by (metis div_mult_mod_eq word_unat_eq_iff)

lemma block_position:
  assumes "unat (b :: u32) < 2 ^ 24" "i < 256"
  shows "(b * 256 + of_nat i) div 256 = b" "unat ((b * 256 + of_nat i) mod 256) = i"
proof -
  have i: "unat (of_nat i :: u32) = i" using assms(2) by (simp add: unat_of_nat take_bit_nat_eq_self)
  have "unat (b * 256) = unat b * 256" using assms(1) by (simp add: unat_word_ariths)
  then have e: "unat (b * 256 + of_nat i) = unat b * 256 + i" using assms i by (simp add: unat_word_ariths)
  show "(b * 256 + of_nat i) div 256 = b" by (simp add: word_unat_eq_iff unat_div e assms(2))
  show "unat ((b * 256 + of_nat i) mod 256) = i" by (simp add: unat_mod e assms(2))
qed

lemma table_view_ascending: "table_view t xs ex en \<Longrightarrow> ascending xs"
  unfolding table_view_def using btree_holds_ascending by blast

text \<open>What the lookup of a block finds.\<close>

lemma view_absent:
  assumes "table_view t xs ex en" "b \<notin> fst ` set xs"
  shows "fdb_btree_get (tb_blocks t) b = Inr NULL"
proof -
  have "map_of xs b = None" using assms(2) by (simp only: map_of_eq_None_iff not_False_eq_True)
  moreover have "btree_holds (tb_blocks t) xs" using assms(1) by (simp add: table_view_def)
  ultimately show ?thesis using get_spec by (fastforce simp: lookup_def)
qed

lemma view_present:
  assumes "table_view t xs ex en" "b \<in> fst ` set xs"
  obtains p k where "(b, p) \<in> set xs" "fdb_btree_get (tb_blocks t) b = Inr p" "p \<noteq> NULL" "tb_heap t p = Some k"
    "tblock_at (tb_heap t) p = Inr k" "block_ok b (tb_esize t) ex en k"
proof -
  obtain p where p: "(b, p) \<in> set xs" using assms(2) by auto
  have d: "distinct (map fst xs)" using table_view_ascending [OF assms(1)] by (simp add: strict_sorted_iff)
  have "map_of xs b = Some p" using p d by simp
  moreover have h: "btree_holds (tb_blocks t) xs" using assms(1) by (simp add: table_view_def)
  ultimately have "fdb_btree_get (tb_blocks t) b = Inr p" using get_spec [OF h, of b] by (simp add: lookup_def)
  moreover obtain k where "p \<noteq> NULL" "tb_heap t p = Some k" "block_ok b (tb_esize t) ex en k"
    using assms(1) p unfolding table_view_def by blast
  ultimately show thesis using that p by (simp add: tblock_at_def)
qed

text \<open>Replacing a block by one of other bits.\<close>

lemma block_ok_other: "block_ok c esize ex en k \<Longrightarrow> eid div 256 \<noteq> c \<Longrightarrow>
    block_ok c esize (insert eid ex) (insert eid en) k \<and> block_ok c esize (ex - {eid}) (en - {eid}) k \<and>
    block_ok c esize ex (insert eid en) k \<and> block_ok c esize ex (en - {eid}) k"
  unfolding block_ok_def by auto

lemma distinct_snd: "distinct (map snd xs) \<Longrightarrow> (c, p) \<in> set xs \<Longrightarrow> (b, p) \<in> set xs \<Longrightarrow> c = b"
  by (induction xs) force+

lemma view_update:
  assumes v: "table_view t xs ex en" and p: "(b, p) \<in> set xs" and k: "block_ok b (tb_esize t) ex' en' k"
    and other: "\<And>c l. c \<noteq> b \<Longrightarrow> block_ok c (tb_esize t) ex en l \<Longrightarrow> block_ok c (tb_esize t) ex' en' l"
    and ids: "\<forall>eid\<in>ex' \<union> en'. id_ok eid \<and> eid div 256 \<in> fst ` set xs"
    and n: "tb_num_components t' = of_nat (card ex')" and t': "tb_heap t' = (tb_heap t)(p \<mapsto> k)"
    "tb_blocks t' = tb_blocks t" "tb_esize t' = tb_esize t"
  shows "table_view t' xs ex' en'"
proof -
  have v1: "distinct (map snd xs)" "dom (tb_heap t) = snd ` set xs" "btree_holds (tb_blocks t) xs"
    and v2: "\<And>b p. (b, p) \<in> set xs \<Longrightarrow> p \<noteq> NULL \<and> unat b < 2 ^ 24 \<and>
      (\<exists>k. tb_heap t p = Some k \<and> block_ok b (tb_esize t) ex en k)"
    using v unfolding table_view_def by blast+
  have d: "distinct (map fst xs)" using table_view_ascending [OF v] by (simp add: strict_sorted_iff)
  have "q \<noteq> NULL \<and> unat c < 2 ^ 24 \<and> (\<exists>l. tb_heap t' q = Some l \<and> block_ok c (tb_esize t') ex' en' l)"
    if q: "(c, q) \<in> set xs" for c q
  proof (cases "q = p")
    case True
    then have "c = b" using distinct_snd [OF v1(1) _ p] q by blast
    then show ?thesis using True v2 [OF q] k t' by simp
  next
    case False
    then have "c \<noteq> b" using p q d by (metis eq_key_imp_eq_value)
    then show ?thesis using v2 [OF q] other False t' by (metis fun_upd_other)
  qed
  then have blocks: "\<forall>b p. (b, p) \<in> set xs \<longrightarrow> p \<noteq> NULL \<and> unat b < 2 ^ 24 \<and>
      (\<exists>k. tb_heap t' p = Some k \<and> block_ok b (tb_esize t') ex' en' k)" by blast
  have "p \<in> snd ` set xs" using p by force
  then have dom: "dom (tb_heap t') = snd ` set xs" using v1(2) t'(1) by auto
  have "btree_holds (tb_blocks t') xs" "distinct (map snd xs)" using v1 t'(2) by simp_all
  then show ?thesis unfolding table_view_def using blocks dom ids n by blast
qed

section \<open>Queries\<close>

lemma get_component_view:
  assumes v: "table_view t xs ex en" and id: "id_ok eid"
  shows "fdb_table_get_component t eid = (if eid \<in> ex
    then Inr (tbk_data (the (tb_heap t (the (map_of xs (eid div 256))))) + ucast (eid mod 256) * tb_esize t)
    else Inr NULL)"
proof (cases "eid div 256 \<in> fst ` set xs")
  case False
  then have "eid \<notin> ex" using v by (auto simp: table_view_def)
  then show ?thesis using view_absent [OF v False] decode_id_ok [OF id] by (simp add: fdb_table_get_component_def)
next
  case True
  from view_present [OF v True] obtain p k where p: "(eid div 256, p) \<in> set xs"
    "fdb_btree_get (tb_blocks t) (eid div 256) = Inr p" "p \<noteq> NULL" "tb_heap t p = Some k"
    "tblock_at (tb_heap t) p = Inr k" "block_ok (eid div 256) (tb_esize t) ex en k" by blast
  have d: "distinct (map fst xs)" using table_view_ascending [OF v] by (simp add: strict_sorted_iff)
  have "fdb_bitmap_is_set (tbk_exists k) (eid mod 256) = Inr (eid \<in> ex)"
    using p(6) fdb_bitmap_is_set_iff [of "tbk_exists k" "eid mod 256"] mod_256_lt [of eid] by (simp add: block_ok_def)
  then show ?thesis using p d decode_id_ok [OF id] by (simp add: fdb_table_get_component_def)
qed

lemma is_enabled_view:
  assumes v: "table_view t xs ex en" and id: "id_ok eid"
  shows "fdb_table_is_enabled t eid = Inr (eid \<in> en)"
proof (cases "eid div 256 \<in> fst ` set xs")
  case False
  then have "eid \<notin> en" using v by (auto simp: table_view_def)
  then show ?thesis using view_absent [OF v False] decode_id_ok [OF id] by (simp add: fdb_table_is_enabled_def)
next
  case True
  from view_present [OF v True] obtain p k where p: "(eid div 256, p) \<in> set xs"
    "fdb_btree_get (tb_blocks t) (eid div 256) = Inr p" "p \<noteq> NULL" "tb_heap t p = Some k"
    "tblock_at (tb_heap t) p = Inr k" "block_ok (eid div 256) (tb_esize t) ex en k" by blast
  have "fdb_bitmap_is_set (tbk_enabled k) (eid mod 256) = Inr (eid \<in> en)"
    using p(6) fdb_bitmap_is_set_iff [of "tbk_enabled k" "eid mod 256"] mod_256_lt [of eid] by (simp add: block_ok_def)
  then show ?thesis using p decode_id_ok [OF id] by (simp add: fdb_table_is_enabled_def)
qed

section \<open>Operations on a block\<close>

text \<open>The pointers of a block stay the same as long as it lives.\<close>

definition block_ptrs :: "fdb_table_block_t \<Rightarrow> ptr \<times> ptr \<times> ptr" where
  "block_ptrs k = (tbk_data k, bm_p_data (tbk_enabled k), bm_p_data (tbk_exists k))"

definition kept :: "'st fdb_table_t \<Rightarrow> 'st fdb_table_t \<Rightarrow> bool" where
  "kept t t' \<longleftrightarrow> tb_tblock_allocator t' = tb_tblock_allocator t \<and> tb_data_allocator t' = tb_data_allocator t \<and>
     tb_bitmap_data_allocator t' = tb_bitmap_data_allocator t \<and> tb_blocks t' = tb_blocks t \<and>
     tb_esize t' = tb_esize t \<and> tb_destructor t' = tb_destructor t \<and>
     (\<forall>p. map_option block_ptrs (tb_heap t' p) = map_option block_ptrs (tb_heap t p))"

lemma kept_refl [simp]: "kept t t"
  by (simp add: kept_def)

lemma kept_block:
  assumes "tb_heap t p = Some k" "block_ptrs k' = block_ptrs k" "tb_heap t' = (tb_heap t)(p \<mapsto> k')"
    "tb_tblock_allocator t' = tb_tblock_allocator t" "tb_data_allocator t' = tb_data_allocator t"
    "tb_bitmap_data_allocator t' = tb_bitmap_data_allocator t" "tb_blocks t' = tb_blocks t"
    "tb_esize t' = tb_esize t" "tb_destructor t' = tb_destructor t"
  shows "kept t t'"
  using assms by (simp add: kept_def)

text \<open>Where the component data of an id lies.\<close>

definition block_base :: "'st fdb_table_t \<Rightarrow> entries \<Rightarrow> u32 \<Rightarrow> ptr option" where
  "block_base t xs b = (case map_of xs b of None \<Rightarrow> None | Some p \<Rightarrow> map_option tbk_data (tb_heap t p))"

lemma kept_base: "kept t t' \<Longrightarrow> block_base t' xs = block_base t xs"
proof
  fix b assume k: "kept t t'"
  have "map_option tbk_data (tb_heap t' p) = map_option tbk_data (tb_heap t p)" for p
  proof -
    have "map_option block_ptrs (tb_heap t' p) = map_option block_ptrs (tb_heap t p)" using k by (simp add: kept_def)
    then have "map_option fst (map_option block_ptrs (tb_heap t' p)) = map_option fst (map_option block_ptrs (tb_heap t p))"
      by simp
    then show ?thesis by (simp add: option.map_comp comp_def block_ptrs_def)
  qed
  then show "block_base t' xs b = block_base t xs b" by (simp add: block_base_def split: option.splits)
qed

abbreviation blocks_of :: "entries \<Rightarrow> u32 set" where "blocks_of xs \<equiv> fst ` set xs"

text \<open>The bit of an id in a bitmap of 256 bits.\<close>

lemma set_bit_256:
  assumes "bm_inv b" "bm_max_bits b = 256"
  obtains b' where "fdb_bitmap_set b (eid mod 256) = Inr b'" "bm_p_data b' = bm_p_data b" "bm_inv b'"
    "bm_max_bits b' = 256" "bits b' = insert (unat (eid mod 256)) (bits b)"
  using fdb_bitmap_set_spec [OF assms(1), of "eid mod 256"] mod_256_lt [of eid] assms(2) by force

lemma unset_bit_256:
  assumes "bm_inv b" "bm_max_bits b = 256"
  obtains b' where "fdb_bitmap_unset b (eid mod 256) = Inr b'" "bm_p_data b' = bm_p_data b" "bm_inv b'"
    "bm_max_bits b' = 256" "bits b' = bits b - {unat (eid mod 256)}"
  using fdb_bitmap_unset_spec [OF assms(1), of "eid mod 256"] mod_256_lt [of eid] assms(2) by force

lemma block_ok_bitmaps:
  assumes "block_ok b esize ex en k"
  shows "bm_inv (tbk_exists k)" "bm_max_bits (tbk_exists k) = 256" "bm_inv (tbk_enabled k)" "bm_max_bits (tbk_enabled k) = 256"
  using assms by (simp_all add: block_ok_def)

lemma block_ok_update:
  assumes k: "block_ok (eid div 256) esize ex en k" and k': "tbk_start k' = tbk_start k" "tbk_esize k' = tbk_esize k"
    "bm_inv (tbk_exists k')" "bm_inv (tbk_enabled k')" "bm_max_bits (tbk_exists k') = 256" "bm_max_bits (tbk_enabled k') = 256"
    and b: "\<And>i. i \<noteq> unat (eid mod 256) \<Longrightarrow> (i \<in> bits (tbk_exists k') \<longleftrightarrow> i \<in> bits (tbk_exists k)) \<and>
      (i \<in> bits (tbk_enabled k') \<longleftrightarrow> i \<in> bits (tbk_enabled k))"
    and e: "unat (eid mod 256) \<in> bits (tbk_exists k') \<longleftrightarrow> eid \<in> ex'" "unat (eid mod 256) \<in> bits (tbk_enabled k') \<longleftrightarrow> eid \<in> en'"
    and o: "\<And>x. x \<noteq> eid \<Longrightarrow> (x \<in> ex' \<longleftrightarrow> x \<in> ex) \<and> (x \<in> en' \<longleftrightarrow> x \<in> en)"
  shows "block_ok (eid div 256) esize ex' en' k'"
proof -
  have "(unat (x mod 256) \<in> bits (tbk_exists k') \<longleftrightarrow> x \<in> ex') \<and> (unat (x mod 256) \<in> bits (tbk_enabled k') \<longleftrightarrow> x \<in> en')"
    if x: "x div 256 = eid div 256" for x
  proof (cases "x = eid")
    case False
    then have "unat (x mod 256) \<noteq> unat (eid mod 256)" using id_parts [OF x] by blast
    then show ?thesis using k x b o [OF False] by (simp add: block_ok_def)
  qed (use e in simp)
  then show ?thesis using k k' by (simp add: block_ok_def)
qed

lemma card_insert_word: "(of_nat (card (insert (x :: u32) A)) :: u64) = (if x \<in> A then of_nat (card A) else of_nat (card A) + 1)"
  by (simp add: insert_absorb)

lemma card_remove_word: "(of_nat (card (A - {x :: u32})) :: u64) = (if x \<in> A then of_nat (card A) - 1 else of_nat (card A))"
proof (cases "x \<in> A")
  case True
  then have "card A = Suc (card (A - {x}))" by (intro card.remove) simp_all
  then show ?thesis using True by simp
qed simp

lemma enable_view:
  assumes v: "table_view t xs ex en" and id: "id_ok eid"
  shows "\<exists>t'. fdb_table_enable_component t eid = Inr t' \<and> kept t t' \<and>
    table_view t' xs ex (if eid div 256 \<in> blocks_of xs then insert eid en else en)"
proof (cases "eid div 256 \<in> blocks_of xs")
  case False
  then show ?thesis using view_absent [OF v False] decode_id_ok [OF id] v by (simp add: fdb_table_enable_component_def)
next
  case True
  from view_present [OF v True] obtain p k where p: "(eid div 256, p) \<in> set xs"
    "fdb_btree_get (tb_blocks t) (eid div 256) = Inr p" "p \<noteq> NULL" "tb_heap t p = Some k"
    "tblock_at (tb_heap t) p = Inr k" "block_ok (eid div 256) (tb_esize t) ex en k" by blast
  obtain en' where b: "fdb_bitmap_set (tbk_enabled k) (eid mod 256) = Inr en'"
    "bm_p_data en' = bm_p_data (tbk_enabled k)" "bm_inv en'" "bm_max_bits en' = 256"
    "bits en' = insert (unat (eid mod 256)) (bits (tbk_enabled k))"
    using block_ok_bitmaps(3,4) [OF p(6)] by (rule set_bit_256)
  let ?k = "k\<lparr>tbk_enabled := en', tbk_num_enabled := tbk_num_enabled k + 1\<rparr>"
  let ?t = "t\<lparr>tb_heap := (tb_heap t)(p \<mapsto> ?k)\<rparr>"
  have run: "fdb_table_enable_component t eid = Inr ?t"
    using p b(1) decode_id_ok [OF id] by (simp add: fdb_table_enable_component_def)
  have "block_ok (eid div 256) (tb_esize t) ex (insert eid en) ?k"
    by (rule block_ok_update [OF p(6)]) (use p(6) b in \<open>auto simp: block_ok_def\<close>)
  then have "table_view ?t xs ex (insert eid en)"
    by (rule view_update [OF v p(1)]) (use v id True block_ok_other in \<open>auto simp: table_view_def\<close>)
  moreover have "kept t ?t" by (rule kept_block [OF p(4)]) (use b in \<open>simp_all add: block_ptrs_def\<close>)
  ultimately show ?thesis using run True by simp
qed

lemma disable_view:
  assumes v: "table_view t xs ex en" and id: "id_ok eid"
  shows "\<exists>t'. fdb_table_disable_component t eid = Inr t' \<and> kept t t' \<and> table_view t' xs ex (en - {eid})"
proof (cases "eid div 256 \<in> blocks_of xs")
  case False
  then have "en - {eid} = en" using v by (auto simp: table_view_def)
  then show ?thesis using view_absent [OF v False] decode_id_ok [OF id] v by (simp add: fdb_table_disable_component_def)
next
  case True
  from view_present [OF v True] obtain p k where p: "(eid div 256, p) \<in> set xs"
    "fdb_btree_get (tb_blocks t) (eid div 256) = Inr p" "p \<noteq> NULL" "tb_heap t p = Some k"
    "tblock_at (tb_heap t) p = Inr k" "block_ok (eid div 256) (tb_esize t) ex en k" by blast
  obtain en' where b: "fdb_bitmap_unset (tbk_enabled k) (eid mod 256) = Inr en'"
    "bm_p_data en' = bm_p_data (tbk_enabled k)" "bm_inv en'" "bm_max_bits en' = 256"
    "bits en' = bits (tbk_enabled k) - {unat (eid mod 256)}"
    using block_ok_bitmaps(3,4) [OF p(6)] by (rule unset_bit_256)
  let ?k = "k\<lparr>tbk_enabled := en', tbk_num_enabled := tbk_num_enabled k - 1\<rparr>"
  let ?t = "t\<lparr>tb_heap := (tb_heap t)(p \<mapsto> ?k)\<rparr>"
  have run: "fdb_table_disable_component t eid = Inr ?t"
    using p b(1) decode_id_ok [OF id] by (simp add: fdb_table_disable_component_def)
  have "block_ok (eid div 256) (tb_esize t) ex (en - {eid}) ?k"
    by (rule block_ok_update [OF p(6)]) (use p(6) b in \<open>auto simp: block_ok_def\<close>)
  then have "table_view ?t xs ex (en - {eid})"
    by (rule view_update [OF v p(1)]) (use v id True block_ok_other in \<open>auto simp: table_view_def\<close>)
  moreover have "kept t ?t" by (rule kept_block [OF p(4)]) (use b in \<open>simp_all add: block_ptrs_def\<close>)
  ultimately show ?thesis using run by simp
qed

text \<open>The address of a component whose block starts at \<open>base\<close>.\<close>

definition comp_addr :: "(u32 \<Rightarrow> ptr option) \<Rightarrow> u64 \<Rightarrow> u32 \<Rightarrow> ptr" where
  "comp_addr base esize eid = the (base (eid div 256)) + ucast (eid mod 256) * esize"

lemma base_present:
  assumes v: "table_view t xs ex en" and p: "(b, p) \<in> set xs" "tb_heap t p = Some k"
  shows "block_base t xs b = Some (tbk_data k)"
proof -
  have "distinct (map fst xs)" using table_view_ascending [OF v] by (simp add: strict_sorted_iff)
  then show ?thesis using p by (simp add: block_base_def)
qed

lemma get_component_addr:
  assumes v: "table_view t xs ex en" and id: "id_ok eid"
  shows "fdb_table_get_component t eid = Inr (if eid \<in> ex then comp_addr (block_base t xs) (tb_esize t) eid else NULL)"
proof (cases "eid \<in> ex")
  case True
  then have "eid div 256 \<in> blocks_of xs" using v by (auto simp: table_view_def)
  from view_present [OF v this] obtain p k where p: "(eid div 256, p) \<in> set xs" "tb_heap t p = Some k" by blast
  have d: "distinct (map fst xs)" using table_view_ascending [OF v] by (simp add: strict_sorted_iff)
  show ?thesis using get_component_view [OF v id] True p d base_present [OF v p] by (simp add: comp_addr_def)
qed (use get_component_view [OF v id] in simp)

definition destroyed :: "(ptr \<Rightarrow> ptr \<Rightarrow> bytes \<Rightarrow> bytes) \<Rightarrow> ptr \<Rightarrow> u64 \<Rightarrow> ptr \<Rightarrow> bytes \<Rightarrow> bytes" where
  "destroyed call f esize a w = memset0 a esize (if f \<noteq> NULL then call f a w else w)"

lemma destroy_view:
  assumes v: "table_view t xs ex en" and id: "id_ok eid"
  shows "\<exists>t'. fdb_table_destroy_component call t eid w = Inr (t', if eid div 256 \<in> blocks_of xs
        then destroyed call (tb_destructor t) (tb_esize t) (comp_addr (block_base t xs) (tb_esize t) eid) w else w) \<and>
    kept t t' \<and> table_view t' xs (ex - {eid}) (en - {eid})"
proof (cases "eid div 256 \<in> blocks_of xs")
  case False
  then have "en - {eid} = en" "ex - {eid} = ex" using v by (auto simp: table_view_def)
  then show ?thesis using view_absent [OF v False] decode_id_ok [OF id] v False
    by (simp add: fdb_table_destroy_component_def)
next
  case True
  from view_present [OF v True] obtain p k where p: "(eid div 256, p) \<in> set xs"
    "fdb_btree_get (tb_blocks t) (eid div 256) = Inr p" "p \<noteq> NULL" "tb_heap t p = Some k"
    "tblock_at (tb_heap t) p = Inr k" "block_ok (eid div 256) (tb_esize t) ex en k" by blast
  note bm = block_ok_bitmaps [OF p(6)]
  obtain en' where b: "fdb_bitmap_unset (tbk_enabled k) (eid mod 256) = Inr en'"
    "bm_p_data en' = bm_p_data (tbk_enabled k)" "bm_inv en'" "bm_max_bits en' = 256"
    "bits en' = bits (tbk_enabled k) - {unat (eid mod 256)}" using bm(3,4) by (rule unset_bit_256)
  obtain exs where c: "fdb_bitmap_unset (tbk_exists k) (eid mod 256) = Inr exs"
    "bm_p_data exs = bm_p_data (tbk_exists k)" "bm_inv exs" "bm_max_bits exs = 256"
    "bits exs = bits (tbk_exists k) - {unat (eid mod 256)}" using bm(1,2) by (rule unset_bit_256)
  have e: "fdb_bitmap_is_set (tbk_exists k) (eid mod 256) = Inr (eid \<in> ex)"
    using fdb_bitmap_is_set_iff [OF bm(1), of "eid mod 256"] mod_256_lt [of eid] p(6) bm(2) by (simp add: block_ok_def)
  let ?k0 = "if eid \<in> ex then k\<lparr>tbk_num_components := tbk_num_components k - 1, tbk_num_enabled := tbk_num_enabled k - 1\<rparr> else k"
  let ?k = "?k0\<lparr>tbk_exists := exs, tbk_enabled := en'\<rparr>"
  let ?t0 = "if eid \<in> ex then t\<lparr>tb_num_components := tb_num_components t - 1\<rparr> else t"
  let ?t = "?t0\<lparr>tb_heap := (tb_heap t)(p \<mapsto> ?k)\<rparr>"
  have run: "fdb_table_destroy_component call t eid w = Inr (?t,
      destroyed call (tb_destructor t) (tb_esize t) (comp_addr (block_base t xs) (tb_esize t) eid) w)"
    using p b(1) c(1) e decode_id_ok [OF id] base_present [OF v p(1,4)]
    by (simp add: fdb_table_destroy_component_def destroyed_def comp_addr_def Let_def)
  have "block_ok (eid div 256) (tb_esize t) (ex - {eid}) (en - {eid}) ?k"
    by (rule block_ok_update [OF p(6)]) (use p(6) b c in \<open>auto simp: block_ok_def\<close>)
  then have "table_view ?t xs (ex - {eid}) (en - {eid})"
  proof (rule view_update [OF v p(1)])
    show "tb_num_components ?t = of_nat (card (ex - {eid}))"
      unfolding card_remove_word using v by (simp add: table_view_def)
  qed (use v block_ok_other in \<open>auto simp: table_view_def\<close>)
  moreover have "kept t ?t" by (rule kept_block [OF p(4)]) (use b c in \<open>simp_all add: block_ptrs_def\<close>)
  ultimately show ?thesis using run True by simp
qed

text \<open>The second half of \<open>create_component\<close>, in a block that exists.\<close>

lemma create_in_block:
  assumes v: "table_view t xs ex en" and id: "id_ok eid" and b: "eid div 256 \<in> blocks_of xs"
  shows "\<exists>t'. fdb_table_create_component (t, st) eid = Inr (comp_addr (block_base t xs) (tb_esize t) eid, (t', st)) \<and>
    kept t t' \<and> table_view t' xs (insert eid ex) (insert eid en)"
proof -
  from view_present [OF v b] obtain p k where p: "(eid div 256, p) \<in> set xs"
    "fdb_btree_get (tb_blocks t) (eid div 256) = Inr p" "p \<noteq> NULL" "tb_heap t p = Some k"
    "tblock_at (tb_heap t) p = Inr k" "block_ok (eid div 256) (tb_esize t) ex en k" by blast
  note bm = block_ok_bitmaps [OF p(6)]
  obtain en' where b: "fdb_bitmap_set (tbk_enabled k) (eid mod 256) = Inr en'"
    "bm_p_data en' = bm_p_data (tbk_enabled k)" "bm_inv en'" "bm_max_bits en' = 256"
    "bits en' = insert (unat (eid mod 256)) (bits (tbk_enabled k))" using bm(3,4) by (rule set_bit_256)
  obtain exs where c: "fdb_bitmap_set (tbk_exists k) (eid mod 256) = Inr exs"
    "bm_p_data exs = bm_p_data (tbk_exists k)" "bm_inv exs" "bm_max_bits exs = 256"
    "bits exs = insert (unat (eid mod 256)) (bits (tbk_exists k))" using bm(1,2) by (rule set_bit_256)
  have e: "fdb_bitmap_is_set (tbk_exists k) (eid mod 256) = Inr (eid \<in> ex)"
    using fdb_bitmap_is_set_iff [OF bm(1), of "eid mod 256"] mod_256_lt [of eid] p(6) bm(2) by (simp add: block_ok_def)
  let ?k0 = "if eid \<in> ex then k else k\<lparr>tbk_num_components := tbk_num_components k + 1, tbk_num_enabled := tbk_num_enabled k + 1\<rparr>"
  let ?k = "?k0\<lparr>tbk_exists := exs, tbk_enabled := en'\<rparr>"
  let ?t0 = "if eid \<in> ex then t else t\<lparr>tb_num_components := tb_num_components t + 1\<rparr>"
  let ?t = "?t0\<lparr>tb_heap := (tb_heap t)(p \<mapsto> ?k)\<rparr>"
  have run: "fdb_table_create_component (t, st) eid = Inr (comp_addr (block_base t xs) (tb_esize t) eid, (?t, st))"
    using p b(1) c(1) e decode_id_ok [OF id] base_present [OF v p(1,4)]
    by (simp add: fdb_table_create_component_def comp_addr_def)
  have "block_ok (eid div 256) (tb_esize t) (insert eid ex) (insert eid en) ?k"
    by (rule block_ok_update [OF p(6)]) (use p(6) b c in \<open>auto simp: block_ok_def\<close>)
  then have "table_view ?t xs (insert eid ex) (insert eid en)"
  proof (rule view_update [OF v p(1)])
    show "tb_num_components ?t = of_nat (card (insert eid ex))"
      unfolding card_insert_word using v by (simp add: table_view_def)
  qed (use v block_ok_other id assms(3) in \<open>auto simp: table_view_def\<close>)
  moreover have "kept t ?t" by (rule kept_block [OF p(4)]) (use b c in \<open>simp_all add: block_ptrs_def\<close>)
  ultimately show ?thesis using run by blast
qed

section \<open>The memory of a table\<close>

datatype table_client = CBlocks | CData | CBitmaps | CTree

text \<open>\<open>owned g live\<close>: the pointer lists of the blocks are disjoint, and together they are what a
  pool has handed out.\<close>

definition owned :: "(ptr \<Rightarrow> ptr list option) \<Rightarrow> (ptr \<rightharpoonup> nat) \<Rightarrow> bool" where
  "owned g live \<longleftrightarrow> (\<forall>p l. g p = Some l \<longrightarrow> distinct l) \<and>
     (\<forall>p q l m. g p = Some l \<longrightarrow> g q = Some m \<longrightarrow> p \<noteq> q \<longrightarrow> set l \<inter> set m = {}) \<and>
     dom live = (\<Union>l\<in>ran g. set l)"

lemma owned_empty: "owned Map.empty Map.empty"
  by (simp add: owned_def)

lemma owned_in: "owned g live \<Longrightarrow> g p = Some l \<Longrightarrow> set l \<subseteq> dom live"
  by (auto simp: owned_def ran_def)

lemma owned_disj: "owned g live \<Longrightarrow> g p = Some l \<Longrightarrow> g q = Some m \<Longrightarrow> p \<noteq> q \<Longrightarrow> set l \<inter> set m = {}"
  unfolding owned_def by blast

lemma owned_new:
  assumes "owned g live" "g p = None" "distinct l" "set l \<inter> dom live = {}" "dom live' = dom live \<union> set l"
  shows "owned (g(p \<mapsto> l)) live'"
proof -
  have o: "set m \<subseteq> dom live" if "g q = Some m" for q m using owned_in [OF assms(1) that] .
  have "set l \<inter> set m = {}" "set m \<inter> set l = {}" if "g q = Some m" for q m using o [OF that] assms(4) by blast+
  then show ?thesis using assms unfolding owned_def by (auto simp: ran_map_upd)
qed

lemma owned_del:
  assumes "owned g live" "g p = Some l" "dom live' = dom live - set l"
  shows "owned (g(p := None)) live'"
proof -
  have "dom live' = (\<Union>m\<in>ran (g(p := None)). set m)"
  proof (intro set_eqI iffI)
    fix x assume "x \<in> dom live'"
    then have x: "x \<in> dom live" "x \<notin> set l" using assms(3) by simp_all
    then obtain q m where "g q = Some m" "x \<in> set m" using assms(1) by (auto simp: owned_def ran_def)
    moreover from this have "q \<noteq> p" using assms(2) x(2) by auto
    ultimately show "x \<in> (\<Union>m\<in>ran (g(p := None)). set m)" by (auto simp: ran_def)
  next
    fix x assume "x \<in> (\<Union>m\<in>ran (g(p := None)). set m)"
    then obtain q m where q: "q \<noteq> p" "g q = Some m" "x \<in> set m" by (auto simp: ran_def split: if_splits)
    have "set m \<inter> set l = {}" by (rule owned_disj [OF assms(1) q(2) assms(2) q(1)])
    then show "x \<in> dom live'" using q owned_in [OF assms(1) q(2)] assms(3) by blast
  qed
  then show ?thesis using assms(1) unfolding owned_def by (auto split: if_splits)
qed

definition data_ptrs :: "(ptr \<rightharpoonup> fdb_table_block_t) \<Rightarrow> ptr \<Rightarrow> ptr list option" where
  [simp]: "data_ptrs h p = map_option (\<lambda>k. [tbk_data k]) (h p)"

definition bitmap_ptrs :: "(ptr \<rightharpoonup> fdb_table_block_t) \<Rightarrow> ptr \<Rightarrow> ptr list option" where
  [simp]: "bitmap_ptrs h p = map_option (\<lambda>k. [bm_p_data (tbk_enabled k), bm_p_data (tbk_exists k)]) (h p)"

definition table_mem ::
  "('st \<Rightarrow> u32 \<Rightarrow> u32 \<Rightarrow> u32 \<Rightarrow> ptr \<times> 'st) \<Rightarrow> ('st \<Rightarrow> ptr \<Rightarrow> 'st) \<Rightarrow> (u32 \<Rightarrow> u32 \<Rightarrow> bool) \<Rightarrow> 'st fdb_table_t \<Rightarrow>
   (table_client \<Rightarrow> ptr \<rightharpoonup> nat) \<Rightarrow> bool" where
  "table_mem alloc free S t Ps \<longleftrightarrow>
     (\<exists>bl. pool_holds alloc free (tb_tblock_allocator t) (Ps CBlocks) bl \<and> dom bl = dom (tb_heap t)) \<and>
     (\<exists>dl. pool_holds alloc free (tb_data_allocator t) (Ps CData) dl \<and> owned (data_ptrs (tb_heap t)) dl) \<and>
     (\<exists>ml. pool_holds alloc free (tb_bitmap_data_allocator t) (Ps CBitmaps) ml \<and> owned (bitmap_ptrs (tb_heap t)) ml) \<and>
     pool_takes S (tb_tblock_allocator t) 64 320 \<and>
     pool_takes S (tb_data_allocator t) 64 (ucast (tb_esize t * 256)) \<and>
     pool_takes S (tb_bitmap_data_allocator t) 64 32 \<and>
     unat (tb_esize t) < 2 ^ 16 \<and> tree_client alloc free S (tb_blocks t) (Ps CTree)"

lemma table_memI:
  assumes "pool_holds alloc free (tb_tblock_allocator t) (Ps CBlocks) bl" "dom bl = dom (tb_heap t)"
    "pool_holds alloc free (tb_data_allocator t) (Ps CData) dl" "owned (data_ptrs (tb_heap t)) dl"
    "pool_holds alloc free (tb_bitmap_data_allocator t) (Ps CBitmaps) ml" "owned (bitmap_ptrs (tb_heap t)) ml"
    "pool_takes S (tb_tblock_allocator t) 64 320" "pool_takes S (tb_data_allocator t) 64 (ucast (tb_esize t * 256))"
    "pool_takes S (tb_bitmap_data_allocator t) 64 32" "unat (tb_esize t) < 2 ^ 16"
    "tree_client alloc free S (tb_blocks t) (Ps CTree)"
  shows "table_mem alloc free S t Ps"
  using assms unfolding table_mem_def by blast

lemma kept_mem:
  assumes "kept t t'" shows "table_mem alloc free S t' Ps = table_mem alloc free S t Ps"
proof -
  have h: "map_option block_ptrs (tb_heap t' p) = map_option block_ptrs (tb_heap t p)" for p
    using assms by (simp add: kept_def)
  have via: "map_option (\<lambda>k. g (block_ptrs k)) (tb_heap t' p) = map_option (\<lambda>k. g (block_ptrs k)) (tb_heap t p)"
    for g :: "ptr \<times> ptr \<times> ptr \<Rightarrow> ptr list" and p
    using arg_cong [OF h [of p], of "map_option g"] by (simp add: option.map_comp comp_def)
  have "data_ptrs (tb_heap t') = data_ptrs (tb_heap t)"
    using via [of "\<lambda>(d, _). [d]"] by (simp add: block_ptrs_def fun_eq_iff)
  moreover have "bitmap_ptrs (tb_heap t') = bitmap_ptrs (tb_heap t)"
    using via [of "\<lambda>(_, e, x). [e, x]"] by (simp add: block_ptrs_def fun_eq_iff)
  moreover have "dom (tb_heap t') = dom (tb_heap t)"
    using h by (auto simp: dom_def fun_eq_iff) (metis map_option_eq_Some option.map_disc_iff option.distinct(1) option.exhaust)+
  ultimately show ?thesis using assms unfolding table_mem_def kept_def by simp
qed

lemma apart_within:
  assumes "apart a n b m" "unat a \<le> unat p" "unat p + i \<le> unat a + n" "unat b \<le> unat q" "unat q + j \<le> unat b + m"
  shows "apart p i q j"
  using assms by (auto simp: apart_def)

text \<open>The place of a component: inside the data of its block, which ends inside the address space.\<close>

lemma comp_place:
  assumes v: "table_view t xs ex en" and m: "table_mem alloc free S t Ps"
    and d: "pool_holds alloc free (tb_data_allocator t) (Ps CData) dl" "owned (data_ptrs (tb_heap t)) dl"
    and x: "x div 256 \<in> blocks_of xs"
  shows "\<exists>p k a. (x div 256, p) \<in> set xs \<and> tb_heap t p = Some k \<and> tbk_data k = a \<and> dl a = Some (unat (tb_esize t) * 256) \<and>
    unat (comp_addr (block_base t xs) (tb_esize t) x) = unat a + unat (x mod 256) * unat (tb_esize t) \<and>
    a \<noteq> NULL \<and> unat a + unat (tb_esize t) * 256 < 2 ^ 64"
proof -
  let ?e = "unat (tb_esize t)"
  have e: "?e < 2 ^ 16" using m by (simp add: table_mem_def)
  have e256: "unat (tb_esize t * 256) = ?e * 256" using e by (simp add: unat_word_ariths)
  then have size: "unat (ucast (tb_esize t * 256) :: u32) = ?e * 256" using e by (simp add: unat_ucast_u64_u32)
  have live: "dl a = Some (?e * 256)" if "a \<in> dom dl" for a
    using that d(1) m size by (auto simp: pool_holds_def table_mem_def pool_takes_def pool_live_def split: if_splits)
  from view_present [OF v x] obtain p k where p: "(x div 256, p) \<in> set xs" "tb_heap t p = Some k" by blast
  have a: "dl (tbk_data k) = Some (?e * 256)" by (rule live) (use owned_in [OF d(2), of p] p(2) in simp)
  have lt: "unat (tbk_data k) + ?e * 256 < 18446744073709551616" using pool_holds_end(2) [OF d(1) a] by simp
  have le: "unat (x mod 256) * ?e \<le> 255 * ?e" using mod_256_lt [of x] by (intro mult_le_mono1) simp
  have u: "unat (ucast (x mod 256) :: u64) = unat (x mod 256)"
    by (rule unat_ucast_u32_u64)
  have "unat (x mod 256) * ?e < 2 ^ LENGTH(64)" by (rule le_less_trans [OF le]) (use e in simp)
  then have mu: "unat (ucast (x mod 256) * tb_esize t) = unat (x mod 256) * ?e"
    unfolding u [symmetric] by (rule unat_mult_lem [THEN iffD1])
  have g: "unat (tbk_data k) + unat (x mod 256) * ?e < 18446744073709551616" using lt le by linarith
  have "unat (tbk_data k + ucast (x mod 256) * tb_esize t) = unat (tbk_data k) + unat (x mod 256) * ?e"
    unfolding mu [symmetric] by (rule unat_add_no_wrap) (use g mu in simp)
  moreover have "unat (tbk_data k) + ?e * 256 < 2 ^ 64" using lt by simp
  ultimately show ?thesis using p a base_present [OF v p] pool_holds_end(1) [OF d(1) a] by (auto simp: comp_addr_def)
qed

lemma comp_within: "unat ((eid :: u32) mod 256) * e + e \<le> 256 * e"
  using mult_le_mono1 [of "Suc (unat (eid mod 256))" 256 e] mod_256_lt [of eid] by simp

lemma comp_addr_end:
  assumes v: "table_view t xs ex en" and m: "table_mem alloc free S t Ps" and x: "x div 256 \<in> blocks_of xs"
  shows "comp_addr (block_base t xs) (tb_esize t) x \<noteq> NULL"
    "unat (comp_addr (block_base t xs) (tb_esize t) x) + unat (tb_esize t) < 2 ^ 64"
proof -
  let ?e = "unat (tb_esize t)"
  obtain dl where d: "pool_holds alloc free (tb_data_allocator t) (Ps CData) dl" "owned (data_ptrs (tb_heap t)) dl"
    using m by (auto simp: table_mem_def)
  obtain a where a: "unat (comp_addr (block_base t xs) (tb_esize t) x) = unat a + unat (x mod 256) * ?e" "a \<noteq> NULL"
    "unat a + ?e * 256 < 2 ^ 64" using comp_place [OF v m d x] by blast
  show "unat (comp_addr (block_base t xs) (tb_esize t) x) + ?e < 2 ^ 64" using a(1,3) comp_within [of x ?e] by linarith
  show "comp_addr (block_base t xs) (tb_esize t) x \<noteq> NULL" using a(1,2) by (metis add_is_0 unat_0 unat_0_iff)
qed

text \<open>Components of different ids never overlap.\<close>

lemma comp_addr_apart:
  assumes v: "table_view t xs ex en" and m: "table_mem alloc free S t Ps"
    and ids: "eid \<noteq> eid'" "eid div 256 \<in> blocks_of xs" "eid' div 256 \<in> blocks_of xs"
  shows "apart (comp_addr (block_base t xs) (tb_esize t) eid) (unat (tb_esize t))
    (comp_addr (block_base t xs) (tb_esize t) eid') (unat (tb_esize t))"
proof -
  let ?e = "unat (tb_esize t)"
  obtain dl where d: "pool_holds alloc free (tb_data_allocator t) (Ps CData) dl" "owned (data_ptrs (tb_heap t)) dl"
    using m by (auto simp: table_mem_def)
  note place = comp_place [OF v m d]
  obtain p k a where 1: "(eid div 256, p) \<in> set xs" "tb_heap t p = Some k" "tbk_data k = a" "dl a = Some (?e * 256)"
    "unat (comp_addr (block_base t xs) (tb_esize t) eid) = unat a + unat (eid mod 256) * ?e" using place [OF ids(2)] by blast
  obtain q l a' where 2: "(eid' div 256, q) \<in> set xs" "tb_heap t q = Some l" "tbk_data l = a'" "dl a' = Some (?e * 256)"
    "unat (comp_addr (block_base t xs) (tb_esize t) eid') = unat a' + unat (eid' mod 256) * ?e" using place [OF ids(3)] by blast
  note in1 = comp_within [of eid ?e] comp_within [of eid' ?e]
  show ?thesis
  proof (cases "eid div 256 = eid' div 256")
    case True
    then have "p = q" using 1(1) 2(1) table_view_ascending [OF v] by (metis eq_key_imp_eq_value strict_sorted_iff)
    then have aa: "a = a'" using 1 2 by simp
    have "unat (eid mod 256) \<noteq> unat (eid' mod 256)" using id_parts [OF True] ids(1) by blast
    then have "unat (eid mod 256) * ?e + ?e \<le> unat (eid' mod 256) * ?e \<or> unat (eid' mod 256) * ?e + ?e \<le> unat (eid mod 256) * ?e"
      using mult_le_mono1 [of "Suc (unat (eid mod 256))" "unat (eid' mod 256)" ?e]
        mult_le_mono1 [of "Suc (unat (eid' mod 256))" "unat (eid mod 256)" ?e] by fastforce
    then show ?thesis using 1(5) 2(5) aa by (auto simp: apart_def)
  next
    case False
    have "p \<noteq> q" using False 1(1) 2(1) v by (auto simp: table_view_def dest: distinct_snd)
    then have "a \<noteq> a'" using owned_disj [OF d(2), of p "[a]" q "[a']"] 1(2,3) 2(2,3) by simp
    then have "apart a (?e * 256) a' (?e * 256)"
      using pool_holds_live_apart [OF d(1)] 1(4) 2(4) unfolding live_apart_def by blast
    then show ?thesis
      by (rule apart_within) (use 1(5) 2(5) in1 in linarith)+
  qed
qed

section \<open>Creating a block\<close>

lemma empty_block_ok:
  assumes "bm_inv exs" "bits exs = {}" "bm_max_bits exs = 256" "bm_inv en'" "bits en' = {}" "bm_max_bits en' = 256"
    and "tbk_start k = b * 256" "tbk_esize k = esize" "tbk_exists k = exs" "tbk_enabled k = en'"
    and "\<forall>eid\<in>ex \<union> en. eid div 256 \<noteq> b"
  shows "block_ok b esize ex en k"
  using assms by (auto simp: block_ok_def)

lemma set_ins_new: "ascending xs \<Longrightarrow> b \<notin> fst ` set xs \<Longrightarrow> set (ins b p xs) = insert (b, p) (set xs)"
  by (induction xs) (auto split: if_splits)

lemma distinct_snd_ins:
  "b \<notin> fst ` set xs \<Longrightarrow> distinct (map snd xs) \<Longrightarrow> p \<notin> snd ` set xs \<Longrightarrow> ascending xs \<Longrightarrow> distinct (map snd (ins b p xs))"
  by (induction xs) (auto simp: set_ins_new split: if_splits)

lemma map_of_ins_new: "ascending xs \<Longrightarrow> b \<notin> fst ` set xs \<Longrightarrow> map_of (ins b p xs) = (map_of xs)(b \<mapsto> p)"
  using map_of_ins_step [of xs b p] map_of_eq_None_iff [of xs b, symmetric] by simp

text \<open>A table gains an empty block \<open>p\<close> for the block id \<open>b\<close>.\<close>

lemma view_new_block:
  assumes v: "table_view t xs ex en" and b: "b \<notin> blocks_of xs" "unat b < 2 ^ 24"
    and p: "p \<noteq> NULL" "tb_heap t p = None"
    and t': "btree_holds (tb_blocks t') (ins b p xs)" "tb_heap t' = (tb_heap t)(p \<mapsto> k)"
      "tb_esize t' = tb_esize t" "tb_num_components t' = tb_num_components t"
    and k: "block_ok b (tb_esize t) ex en k"
  shows "table_view t' (ins b p xs) ex en" "block_base t xs \<subseteq>\<^sub>m block_base t' (ins b p xs)"
proof -
  have v1: "distinct (map snd xs)" "dom (tb_heap t) = snd ` set xs" "btree_holds (tb_blocks t) xs"
      "\<forall>eid\<in>ex \<union> en. id_ok eid \<and> eid div 256 \<in> fst ` set xs" "tb_num_components t = of_nat (card ex)"
    and v2: "\<And>b p. (b, p) \<in> set xs \<Longrightarrow> p \<noteq> NULL \<and> unat b < 2 ^ 24 \<and>
      (\<exists>k. tb_heap t p = Some k \<and> block_ok b (tb_esize t) ex en k)"
    using v unfolding table_view_def by blast+
  have asc: "ascending xs" by (rule table_view_ascending [OF v])
  have np: "p \<notin> snd ` set xs" using p(2) v1(2) by blast
  have set: "set (ins b p xs) = insert (b, p) (set xs)" by (rule set_ins_new [OF asc b(1)])
  have "distinct (map snd (ins b p xs))" by (rule distinct_snd_ins [OF b(1) v1(1) np asc])
  moreover have "dom (tb_heap t') = snd ` set (ins b p xs)" using v1(2) t'(2) set by auto
  moreover have "q \<noteq> NULL \<and> unat c < 2 ^ 24 \<and> (\<exists>l. tb_heap t' q = Some l \<and> block_ok c (tb_esize t') ex en l)"
    if q: "(c, q) \<in> set (ins b p xs)" for c q
  proof (cases "q = p")
    case True
    then have "(c, q) = (b, p)" using q np set by (auto simp: image_iff)
    then show ?thesis using p(1) b(2) k t' by simp
  next
    case False
    then have "(c, q) \<in> set xs" using q set by auto
    then show ?thesis using v2 t' False by simp
  qed
  ultimately show "table_view t' (ins b p xs) ex en"
    unfolding table_view_def using t' v1(4,5) set by simp
  have q: "map_of xs c = Some q \<Longrightarrow> q \<noteq> p" for c q using np by (metis image_eqI map_of_SomeD snd_conv)
  have "map_of xs b = None" using b(1) by (simp only: map_of_eq_None_iff not_False_eq_True)
  then show "block_base t xs \<subseteq>\<^sub>m block_base t' (ins b p xs)"
    using q t'(2) map_of_ins_new [OF asc b(1)] by (auto simp: map_le_def block_base_def split: option.splits)
qed

lemma zero_bitmap:
  fixes x :: ptr
  defines "b \<equiv> \<lparr>bm_max_bits = 256, bm_num_set = 0, bm_p_data = x, bm_data = replicate 32 0\<rparr>"
  shows "bm_inv b" "bits b = {}"
proof -
  show e: "bits b = {}" by (auto simp: bits_def b_def)
  show "bm_inv b" unfolding bm_inv_def e by (simp add: b_def FDB_BITMAP_NUM_CHUNKS_def)
qed

lemma data_ptrs_upd: "data_ptrs (h(p \<mapsto> k)) = (data_ptrs h)(p \<mapsto> [tbk_data k])"
  by (simp add: fun_eq_iff)

lemma bitmap_ptrs_upd:
  "bitmap_ptrs (h(p \<mapsto> k)) = (bitmap_ptrs h)(p \<mapsto> [bm_p_data (tbk_enabled k), bm_p_data (tbk_exists k)])"
  by (simp add: fun_eq_iff)

context steady_provider
begin

lemma room_le: "room s n \<Longrightarrow> m \<le> n \<Longrightarrow> room s m"
  by (induction n) (use room_mono le_Suc_eq in blast)+

lemma create_block_spec:
  assumes v: "table_view t xs ex en" and m: "table_mem alloc free S t (Ps \<circ> e)" and e: "inj e"
    and cl: "clients ainv st Ps" and room: "room st (20 + n)"
    and b: "b \<notin> blocks_of xs" "unat b < 2 ^ 24"
  shows "\<exists>p t' st' Ps'. create_block b (t, st) = Inr (p, (t', st')) \<and> table_view t' (ins b p xs) ex en \<and>
    block_base t xs \<subseteq>\<^sub>m block_base t' (ins b p xs) \<and> p \<noteq> NULL \<and>
    table_mem alloc free S t' (Ps' \<circ> e) \<and> clients ainv st' Ps' \<and> room st' n \<and>
    tb_esize t' = tb_esize t \<and> tb_destructor t' = tb_destructor t \<and> (\<forall>c. c \<notin> range e \<longrightarrow> Ps' c = Ps c)"
proof -
  have ne: "e x = e y \<longleftrightarrow> x = y" for x y using e by (auto dest: injD)
  obtain bl dl ml where h: "pool_holds alloc free (tb_tblock_allocator t) (Ps (e CBlocks)) bl" "dom bl = dom (tb_heap t)"
    "pool_holds alloc free (tb_data_allocator t) (Ps (e CData)) dl" "owned (data_ptrs (tb_heap t)) dl"
    "pool_holds alloc free (tb_bitmap_data_allocator t) (Ps (e CBitmaps)) ml" "owned (bitmap_ptrs (tb_heap t)) ml"
    using m by (auto simp: table_mem_def)
  have tk: "pool_takes S (tb_tblock_allocator t) 64 320" "pool_takes S (tb_data_allocator t) 64 (ucast (tb_esize t * 256))"
    "pool_takes S (tb_bitmap_data_allocator t) 64 32" "tree_client alloc free S (tb_blocks t) (Ps (e CTree))"
    "unat (tb_esize t) < 2 ^ 16"
    using m by (simp_all add: table_mem_def)
  obtain p pa1 st1 where a1: "fdb_pool_alloc_alloc (tb_tblock_allocator t, st) 64 320 b = (p, (pa1, st1))"
    by (metis prod.collapse)
  have r1: "room st (Suc (19 + n))" using room by simp
  from client_alloc [OF cl h(1) r1 tk(1) a1] obtain P1 where
    1: "fits bl p 320" "room st1 (19 + n)" "pool_takes S pa1 = pool_takes S (tb_tblock_allocator t)"
      "clients ainv st1 (Ps(e CBlocks := P1))" "pool_holds alloc free pa1 P1 (bl(p \<mapsto> 320))" by (auto simp del: fun_upd_apply)
  obtain d pa2 st2 where a2: "fdb_pool_alloc_alloc (tb_data_allocator t, st1) 64 (ucast (tb_esize t * 256)) (b * 256 div 256) = (d, (pa2, st2))"
    by (metis prod.collapse)
  have h2: "pool_holds alloc free (tb_data_allocator t) ((Ps(e CBlocks := P1)) (e CData)) dl" using h(3) ne by simp
  have r2: "room st1 (Suc (18 + n))" using 1(2) by simp
  from client_alloc [OF 1(4) h2 r2 tk(2) a2] obtain P2 where
    2: "fits dl d (unat (ucast (tb_esize t * 256) :: u32))" "room st2 (18 + n)"
      "pool_takes S pa2 = pool_takes S (tb_data_allocator t)" "clients ainv st2 (Ps(e CBlocks := P1, e CData := P2))"
      "pool_holds alloc free pa2 P2 (dl(d \<mapsto> unat (ucast (tb_esize t * 256) :: u32)))" by (auto simp del: fun_upd_apply)
  obtain x pa3 st3 where a3: "fdb_pool_alloc_alloc (tb_bitmap_data_allocator t, st2) 64 32 (- 1) = (x, (pa3, st3))"
    by (metis prod.collapse)
  have h3: "pool_holds alloc free (tb_bitmap_data_allocator t) ((Ps(e CBlocks := P1, e CData := P2)) (e CBitmaps)) ml"
    using h(5) ne by simp
  have r3: "room st2 (Suc (17 + n))" using 2(2) by simp
  from client_alloc [OF 2(4) h3 r3 tk(3) a3] obtain P3 where
    3: "fits ml x 32" "room st3 (17 + n)" "pool_takes S pa3 = pool_takes S (tb_bitmap_data_allocator t)"
      "clients ainv st3 (Ps(e CBlocks := P1, e CData := P2, e CBitmaps := P3))"
      "pool_holds alloc free pa3 P3 (ml(x \<mapsto> 32))" by (auto simp del: fun_upd_apply)
  obtain y pa4 st4 where a4: "fdb_pool_alloc_alloc (pa3, st3) 64 32 (- 1) = (y, (pa4, st4))"
    by (metis prod.collapse)
  have h4: "pool_holds alloc free pa3 ((Ps(e CBlocks := P1, e CData := P2, e CBitmaps := P3)) (e CBitmaps)) (ml(x \<mapsto> 32))"
    using 3(5) by simp
  have r4: "room st3 (Suc (16 + n))" "pool_takes S pa3 64 32" using 3(2,3) tk(3) by simp_all
  from client_alloc [OF 3(4) h4 r4 a4] obtain P4 where
    4: "fits (ml(x \<mapsto> 32)) y 32" "room st4 (16 + n)" "pool_takes S pa4 = pool_takes S (tb_bitmap_data_allocator t)"
      "clients ainv st4 (Ps(e CBlocks := P1, e CData := P2, e CBitmaps := P4))"
      "pool_holds alloc free pa4 P4 (ml(x \<mapsto> 32, y \<mapsto> 32))" using 3(3) by (auto simp del: fun_upd_apply simp: fun_upd_upd)
  let ?Ps4 = "Ps(e CBlocks := P1, e CData := P2, e CBitmaps := P4)"
  have tree: "tree_client alloc free S (tb_blocks t) (?Ps4 (e CTree))" using tk(4) ne by simp
  have r5: "room st4 (BT_NODES + n)" using 4(2) by (simp add: BT_NODES_def)
  have pN: "p \<noteq> NULL" and xyN: "x \<noteq> NULL" "y \<noteq> NULL" using 1(1) 3(1) 4(1) by (simp_all add: fits_def)
  have hold: "btree_holds (tb_blocks t) xs" using v by (simp add: table_view_def)
  from client_insert [OF 4(4) tree r5 hold pN] obtain res b' st5 P5 where
    5: "fdb_btree_insert (tb_blocks t, st4) b p = Inr (res, (b', st5))" "btree_holds b' (ins b p xs)"
      "room st5 n" "clients ainv st5 (?Ps4(e CTree := P5))" "tree_client alloc free S b' P5" by blast
  let ?exs = "\<lparr>bm_max_bits = 256, bm_num_set = 0, bm_p_data = x, bm_data = replicate 32 0\<rparr>"
  let ?en = "\<lparr>bm_max_bits = 256, bm_num_set = 0, bm_p_data = y, bm_data = replicate 32 0\<rparr>"
  let ?k = "\<lparr>tbk_data = d, tbk_start = b * 256, tbk_num_components = 0, tbk_num_enabled = 0, tbk_esize = tb_esize t,
    tbk_exists = ?exs, tbk_enabled = ?en\<rparr>"
  let ?t = "t\<lparr>tb_tblock_allocator := pa1, tb_data_allocator := pa2, tb_bitmap_data_allocator := pa4,
    tb_heap := (tb_heap t)(p \<mapsto> ?k), tb_blocks := b'\<rparr>"
  have nc: "FDB_BITMAP_NUM_CHUNKS 256 = 32" by (simp add: FDB_BITMAP_NUM_CHUNKS_def)
  have run: "create_block b (t, st) = Inr (p, (?t, st5))"
    using a1 a2 a3 a4 5(1) pN xyN
    by (simp add: create_block_def fdb_table_block_init_def table_consts table_data_super_def table_bitmap_super_def
        mem_alloc_def fdb_pool_alloc_super_def fdb_bitmap_init_def nc FDB_BITMAP_ALIGNMENT_def)
  have bm: "bm_inv ?exs" "bits ?exs = {}" "bm_inv ?en" "bits ?en = {}"
    by (simp_all add: zero_bitmap)
  have new: "\<forall>eid\<in>ex \<union> en. eid div 256 \<noteq> b" using v b(1) unfolding table_view_def by blast
  have k: "block_ok b (tb_esize t) ex en ?k" by (rule empty_block_ok [OF bm(1,2) _ bm(3,4) _ _ _ _ _ new]) simp_all
  have np: "tb_heap t p = None" using fits_dom [OF 1(1)] h(2) by blast
  have view: "table_view ?t (ins b p xs) ex en" "block_base t xs \<subseteq>\<^sub>m block_base ?t (ins b p xs)"
    by (rule view_new_block [OF v b pN np _ _ _ _ k]; use 5(2) in simp)+
  have dom: "dom (bl(p \<mapsto> 320)) = dom (tb_heap ?t)" using h(2) by simp
  have od: "owned (data_ptrs (tb_heap ?t)) (dl(d \<mapsto> unat (ucast (tb_esize t * 256) :: u32)))"
    using owned_new [OF h(4), of p "[d]"] fits_dom [OF 2(1)] np by (simp add: data_ptrs_upd)
  have om: "owned (bitmap_ptrs (tb_heap ?t)) (ml(x \<mapsto> 32, y \<mapsto> 32))"
    using owned_new [OF h(6), of p "[y, x]"] fits_dom [OF 3(1)] fits_dom [OF 4(1)] np by (simp add: bitmap_ptrs_upd)
  have "table_mem alloc free S ?t (?Ps4(e CTree := P5) \<circ> e)"
    by (rule table_memI [OF _ dom _ od _ om]) (use 1(3,5) 2(3,5) 4(3,5) 5(5) tk ne in \<open>simp_all\<close>)
  then show ?thesis using run view pN 5(3,4) by (intro exI [of _ p] exI [of _ ?t] exI [of _ st5] exI [of _ "?Ps4(e CTree := P5)"]) auto
qed

end

section \<open>Creating a component and a table\<close>

lemma create_after_block:
  assumes "id_ok eid" "fdb_btree_get (tb_blocks t) (eid div 256) = Inr NULL"
    "create_block (eid div 256) (t, st) = Inr (p, (t', st'))" "fdb_btree_get (tb_blocks t') (eid div 256) = Inr p" "p \<noteq> NULL"
  shows "fdb_table_create_component (t, st) eid = fdb_table_create_component (t', st') eid"
  using assms by (simp add: fdb_table_create_component_def decode_id_ok)

lemma block_id_lt: "unat ((eid :: u32) div 256) < 2 ^ 24"
proof -
  have "unat eid < 4294967296" by (rule unat_u32_bound)
  then show ?thesis by (simp add: unat_div div_less_iff_less_mult)
qed

context steady_provider
begin

lemma create_component_spec:
  assumes v: "table_view t xs ex en" and m: "table_mem alloc free S t (Ps \<circ> e)" and e: "inj e"
    and cl: "clients ainv st Ps" and room: "room st (20 + n)" and id: "id_ok eid"
  shows "\<exists>t' st' xs' Ps'. fdb_table_create_component (t, st) eid = Inr (comp_addr (block_base t' xs') (tb_esize t) eid, (t', st')) \<and>
    table_view t' xs' (insert eid ex) (insert eid en) \<and> blocks_of xs' = insert (eid div 256) (blocks_of xs) \<and>
    block_base t xs \<subseteq>\<^sub>m block_base t' xs' \<and> table_mem alloc free S t' (Ps' \<circ> e) \<and> clients ainv st' Ps' \<and> room st' n \<and>
    tb_esize t' = tb_esize t \<and> tb_destructor t' = tb_destructor t \<and> (\<forall>c. c \<notin> range e \<longrightarrow> Ps' c = Ps c)"
proof (cases "eid div 256 \<in> blocks_of xs")
  case True
  from create_in_block [OF v id True, of st] obtain t' where
    c: "fdb_table_create_component (t, st) eid = Inr (comp_addr (block_base t xs) (tb_esize t) eid, (t', st))" "kept t t'"
      "table_view t' xs (insert eid ex) (insert eid en)" by blast
  have "block_base t' xs = block_base t xs" by (rule kept_base [OF c(2)])
  moreover have "table_mem alloc free S t' (Ps \<circ> e)" using m kept_mem [OF c(2)] by blast
  moreover have "room st n" by (rule room_le [OF room]) simp
  moreover have "tb_esize t' = tb_esize t" "tb_destructor t' = tb_destructor t" using c(2) by (simp_all add: kept_def)
  ultimately show ?thesis using c(1,3) cl True
    by (intro exI [of _ t'] exI [of _ st] exI [of _ xs] exI [of _ Ps]) (auto simp: insert_absorb)
next
  case False
  from create_block_spec [OF v m e cl room False block_id_lt] obtain p t1 st1 Ps1 where
    1: "create_block (eid div 256) (t, st) = Inr (p, (t1, st1))" "table_view t1 (ins (eid div 256) p xs) ex en"
      "block_base t xs \<subseteq>\<^sub>m block_base t1 (ins (eid div 256) p xs)" "p \<noteq> NULL"
      "table_mem alloc free S t1 (Ps1 \<circ> e)" "clients ainv st1 Ps1" "room st1 n"
      "tb_esize t1 = tb_esize t" "tb_destructor t1 = tb_destructor t" "\<forall>c. c \<notin> range e \<longrightarrow> Ps1 c = Ps c" by blast
  let ?xs = "ins (eid div 256) p xs"
  have set: "set ?xs = insert (eid div 256, p) (set xs)" by (rule set_ins_new [OF table_view_ascending [OF v] False])
  then have b: "eid div 256 \<in> blocks_of ?xs" by simp
  from view_present [OF 1(2) b] obtain q where q: "(eid div 256, q) \<in> set ?xs" "fdb_btree_get (tb_blocks t1) (eid div 256) = Inr q" by blast
  have "q = p" using q(1) set False by (auto simp: image_iff)
  then have run: "fdb_table_create_component (t, st) eid = fdb_table_create_component (t1, st1) eid"
    using create_after_block [OF id view_absent [OF v False] 1(1) _ 1(4)] q(2) by simp
  from create_in_block [OF 1(2) id b, of st1] obtain t' where
    c: "fdb_table_create_component (t1, st1) eid = Inr (comp_addr (block_base t1 ?xs) (tb_esize t1) eid, (t', st1))" "kept t1 t'"
      "table_view t' ?xs (insert eid ex) (insert eid en)" by blast
  have "block_base t' ?xs = block_base t1 ?xs" by (rule kept_base [OF c(2)])
  moreover have "table_mem alloc free S t' (Ps1 \<circ> e)" using 1(5) kept_mem [OF c(2)] by blast
  moreover have "tb_esize t' = tb_esize t1" "tb_destructor t' = tb_destructor t1" using c(2) by (simp_all add: kept_def)
  moreover have "blocks_of ?xs = insert (eid div 256) (blocks_of xs)" using set by simp
  ultimately show ?thesis using run c(1,3) 1(3,6-10)
    by (intro exI [of _ t'] exI [of _ st1] exI [of _ ?xs] exI [of _ Ps1]) auto
qed

text \<open>A new table over a parent that serves pages of 4 KB and 64 KB: components of up to 127 bytes.\<close>

lemma table_init_spec:
  assumes alloc: "p_mem_alloc (case a of Some a \<Rightarrow> a | None \<Rightarrow> g) = alloc" "p_mem_free (case a of Some a \<Rightarrow> a | None \<Rightarrow> g) = free"
    and cl: "clients ainv st Ps" "inj e" "\<And>c. Ps (e c) = Map.empty" and room: "room st (Suc n)"
    and S: "S 64 4096" "S 64 65536" and name: "length name < 256" and esize: "1 \<le> unat esize" "unat esize \<le> 127"
  shows "\<exists>t st' Ps'. fdb_table_init name i esize destr a g hdr st = Inr (t, st') \<and> table_view t [] {} {} \<and>
    table_mem alloc free S t (Ps' \<circ> e) \<and> clients ainv st' Ps' \<and> room st' n \<and> tb_esize t = esize \<and>
    tb_destructor t = destr \<and> tb_name t = name \<and> tb_id t = i \<and> (\<forall>c. c \<notin> range e \<longrightarrow> Ps' c = Ps c)"
proof -
  have ne: "e x = e y \<longleftrightarrow> x = y" for x y using cl(2) by (auto dest: injD)
  let ?a = "case a of Some a \<Rightarrow> a | None \<Rightarrow> g"
  have al: "p_mem_alloc (case Some ?a of Some a \<Rightarrow> a | None \<Rightarrow> g) = alloc" "p_mem_free (case Some ?a of Some a \<Rightarrow> a | None \<Rightarrow> g) = free"
    using alloc by simp_all
  have e256: "unat (esize * 256) = unat esize * 256" using esize by (simp add: unat_word_ariths)
  then have sz: "unat (ucast (esize * 256) :: u32) = unat esize * 256" using esize by (simp add: unat_ucast_u64_u32)
  have nc: "FDB_BITMAP_NUM_CHUNKS 256 = 32" by (simp add: FDB_BITMAP_NUM_CHUNKS_def)
  have al64: "unat (64 :: u32) < 2 ^ 31" by simp
  have s1: "2 * max 8 (unat (320 :: u32)) + max 16 (unat (64 :: u32)) \<le> unat (4096 :: u32)" by simp
  have s2: "2 * max 8 (unat (ucast (esize * 256) :: u32)) + max 16 (unat (64 :: u32)) \<le> unat (65536 :: u32)"
    using sz esize by simp
  have s3: "2 * max 8 (unat (32 :: u32)) + max 16 (unat (64 :: u32)) \<le> unat (4096 :: u32)" by simp
  obtain ta where 1: "fdb_pool_alloc_init 64 320 4096 (Some ?a) g hdr = Inr ta"
    by (simp add: fdb_pool_alloc_init_def FDB_MIN_ALIGNMENT_def)
  obtain da where 2: "fdb_pool_alloc_init 64 (ucast (esize * 256)) 65536 (Some ?a) g hdr = Inr da"
    using pool_init_ok [OF al64 s2] by blast
  obtain ba where 3: "fdb_pool_alloc_init 64 32 4096 (Some ?a) g hdr = Inr ba"
    by (simp add: fdb_pool_alloc_init_def FDB_MIN_ALIGNMENT_def)
  note c1 = pool_init_config [OF 1 al64 s1] and c2 = pool_init_config [OF 2 al64 s2] and c3 = pool_init_config [OF 3 al64 s3]
  have holds: "pool_holds alloc free ta Map.empty Map.empty" "pool_holds alloc free da Map.empty Map.empty"
    "pool_holds alloc free ba Map.empty Map.empty"
    using client_pool_init [OF 1 al64 s1 al] client_pool_init [OF 2 al64 s2 al] client_pool_init [OF 3 al64 s3 al] by blast+
  have w: "ucast (x :: u64) = (y :: u32)" if "unat x = unat y" for x y
    using that unat_u32_bound [of y] unat_ucast_u64_u32 [of x] by (simp add: word_unat_eq_iff)
  have takes: "pool_takes S ta 64 320" "pool_takes S da 64 (ucast (esize * 256))" "pool_takes S ba 64 32"
    using c1(2-4) c2(2-4) c3(2-4) sz esize S w [of "pl_alignment ta" 64] w [of "pl_alignment da" 64] w [of "pl_alignment ba" 64]
      w [of "pl_page_size ta" 4096] w [of "pl_page_size da" 65536] w [of "pl_page_size ba" 4096]
    by (simp_all add: pool_takes_def)
  from client_tree_init [where hdr = hdr, OF al cl(1) cl(3) [of CTree] room S(1)] obtain b st' P' where
    b: "fdb_btree_init (Some ?a) g hdr st = Inr (b, st')" "btree_holds b []" "room st' n"
      "clients ainv st' (Ps(e CTree := P'))" "tree_client alloc free S b P'" by blast
  let ?t = "\<lparr>tb_name = name, tb_id = i, tb_esize = esize, tb_blocks = b, tb_num_components = 0, tb_destructor = destr,
    tb_tblock_allocator = ta, tb_data_allocator = da, tb_bitmap_data_allocator = ba, tb_heap = Map.empty\<rparr>"
  have run: "fdb_table_init name i esize destr a g hdr st = Inr (?t, st')"
    using 1 2 3 b(1) name by (simp add: fdb_table_init_def table_consts nc FDB_MAX_TABLE_NAME_def Let_def)
  have "table_view ?t [] {} {}" using b(2) by (simp add: table_view_def)
  moreover have "table_mem alloc free S ?t (Ps(e CTree := P') \<circ> e)"
    by (rule table_memI [where bl = Map.empty and dl = Map.empty and ml = Map.empty])
      (use holds takes b(5) ne cl(3) esize in \<open>simp_all add: owned_def ran_def\<close>)
  ultimately show ?thesis using run b(3,4)
    by (intro exI [of _ ?t] exI [of _ st'] exI [of _ "Ps(e CTree := P')"]) auto
qed

end

section \<open>Sequences of operations\<close>

datatype tab_cmd = TCreate u32 | TDestroy u32 | TGet u32 | TEnable u32 | TDisable u32 | TIsEnabled u32 | TSize
datatype tab_out = TPtr ptr | TBool bool | TCount u64 | TDone

fun tab_step ::
  "(ptr \<Rightarrow> ptr \<Rightarrow> bytes \<Rightarrow> bytes) \<Rightarrow> tab_cmd \<Rightarrow> ('st fdb_table_t \<times> 'st) \<times> bytes \<Rightarrow>
   (tab_out \<times> ('st fdb_table_t \<times> 'st) \<times> bytes) res" where
  "tab_step call (TCreate i) (ts, w) = bind_res (fdb_table_create_component ts i) (\<lambda>(p, ts). Inr (TPtr p, ts, w))"
| "tab_step call (TDestroy i) ((t, st), w) = bind_res (fdb_table_destroy_component call t i w) (\<lambda>(t, w). Inr (TDone, (t, st), w))"
| "tab_step call (TGet i) ((t, st), w) = bind_res (fdb_table_get_component t i) (\<lambda>p. Inr (TPtr p, (t, st), w))"
| "tab_step call (TEnable i) ((t, st), w) = bind_res (fdb_table_enable_component t i) (\<lambda>t. Inr (TDone, (t, st), w))"
| "tab_step call (TDisable i) ((t, st), w) = bind_res (fdb_table_disable_component t i) (\<lambda>t. Inr (TDone, (t, st), w))"
| "tab_step call (TIsEnabled i) ((t, st), w) = bind_res (fdb_table_is_enabled t i) (\<lambda>b. Inr (TBool b, (t, st), w))"
| "tab_step call TSize ((t, st), w) = Inr (TCount (fdb_table_size t), (t, st), w)"

fun tab_run ::
  "(ptr \<Rightarrow> ptr \<Rightarrow> bytes \<Rightarrow> bytes) \<Rightarrow> tab_cmd list \<Rightarrow> ('st fdb_table_t \<times> 'st) \<times> bytes \<Rightarrow>
   (tab_out list \<times> ('st fdb_table_t \<times> 'st) \<times> bytes) res" where
  "tab_run call [] tw = Inr ([], tw)"
| "tab_run call (c # cs) tw = bind_res (tab_step call c tw) (\<lambda>(out, tw). bind_res (tab_run call cs tw)
     (\<lambda>(outs, tw). Inr (out # outs, tw)))"

text \<open>The specification: three sets and the bytes of the components. \<open>addr\<close> gives the place of each
  component, \<open>fin\<close> is what destroying the component at an address does to the bytes.\<close>

record table_sets =
  ts_blocks :: "u32 set"
  ts_exist :: "u32 set"
  ts_enabled :: "u32 set"
  ts_bytes :: bytes

fun tab_spec :: "(u32 \<Rightarrow> ptr) \<Rightarrow> (ptr \<Rightarrow> bytes \<Rightarrow> bytes) \<Rightarrow> tab_cmd \<Rightarrow> table_sets \<Rightarrow> tab_out \<times> table_sets" where
  "tab_spec addr fin (TCreate i) s = (TPtr (addr i), s\<lparr>ts_blocks := insert (i div 256) (ts_blocks s),
     ts_exist := insert i (ts_exist s), ts_enabled := insert i (ts_enabled s)\<rparr>)"
| "tab_spec addr fin (TDestroy i) s = (TDone, if i div 256 \<in> ts_blocks s
     then s\<lparr>ts_exist := ts_exist s - {i}, ts_enabled := ts_enabled s - {i}, ts_bytes := fin (addr i) (ts_bytes s)\<rparr> else s)"
| "tab_spec addr fin (TGet i) s = (TPtr (if i \<in> ts_exist s then addr i else NULL), s)"
| "tab_spec addr fin (TEnable i) s = (TDone, if i div 256 \<in> ts_blocks s then s\<lparr>ts_enabled := insert i (ts_enabled s)\<rparr> else s)"
| "tab_spec addr fin (TDisable i) s = (TDone, s\<lparr>ts_enabled := ts_enabled s - {i}\<rparr>)"
| "tab_spec addr fin (TIsEnabled i) s = (TBool (i \<in> ts_enabled s), s)"
| "tab_spec addr fin TSize s = (TCount (of_nat (card (ts_exist s))), s)"

fun tab_run_spec :: "(u32 \<Rightarrow> ptr) \<Rightarrow> (ptr \<Rightarrow> bytes \<Rightarrow> bytes) \<Rightarrow> tab_cmd list \<Rightarrow> table_sets \<Rightarrow> tab_out list \<times> table_sets" where
  "tab_run_spec addr fin [] s = ([], s)"
| "tab_run_spec addr fin (c # cs) s = (let (out, s) = tab_spec addr fin c s; (outs, s) = tab_run_spec addr fin cs s in (out # outs, s))"

fun tab_legal :: "tab_cmd \<Rightarrow> bool" where
  "tab_legal (TCreate i) = id_ok i"
| "tab_legal (TDestroy i) = id_ok i"
| "tab_legal (TGet i) = id_ok i"
| "tab_legal (TEnable i) = id_ok i"
| "tab_legal (TDisable i) = id_ok i"
| "tab_legal (TIsEnabled i) = id_ok i"
| "tab_legal TSize = True"

fun tab_need :: "tab_cmd \<Rightarrow> nat" where
  "tab_need (TCreate i) = 20"
| "tab_need _ = 0"

definition no_sets :: "bytes \<Rightarrow> table_sets" where
  "no_sets w = \<lparr>ts_blocks = {}, ts_exist = {}, ts_enabled = {}, ts_bytes = w\<rparr>"

text \<open>A table with its memory, and the sets it stands for. \<open>base\<close> are the places of its blocks.\<close>

definition table_state ::
  "('st \<Rightarrow> u32 \<Rightarrow> u32 \<Rightarrow> u32 \<Rightarrow> ptr \<times> 'st) \<Rightarrow> ('st \<Rightarrow> ptr \<Rightarrow> 'st) \<Rightarrow> ('st \<Rightarrow> (ptr \<rightharpoonup> nat) \<Rightarrow> bool) \<Rightarrow> (u32 \<Rightarrow> u32 \<Rightarrow> bool) \<Rightarrow>
   (table_client \<Rightarrow> 'c) \<Rightarrow> ('st fdb_table_t \<times> 'st) \<times> bytes \<Rightarrow> ('c \<Rightarrow> ptr \<rightharpoonup> nat) \<Rightarrow> (u32 \<Rightarrow> ptr option) \<Rightarrow> table_sets \<Rightarrow> bool" where
  "table_state alloc free ainv S e tw Ps base s \<longleftrightarrow> (case tw of ((t, st), w) \<Rightarrow>
     (\<exists>xs. table_view t xs (ts_exist s) (ts_enabled s) \<and> ts_blocks s = blocks_of xs \<and> base = block_base t xs \<and>
       table_mem alloc free S t (Ps \<circ> e) \<and> clients ainv st Ps \<and> ts_bytes s = w))"

definition agrees :: "(u32 \<Rightarrow> ptr) \<Rightarrow> (u32 \<Rightarrow> ptr option) \<Rightarrow> u64 \<Rightarrow> bool" where
  "agrees addr base esize \<longleftrightarrow> (\<forall>i. base (i div 256) \<noteq> None \<longrightarrow> addr i = comp_addr base esize i)"

lemma agrees_le: "agrees addr base' esize \<Longrightarrow> base \<subseteq>\<^sub>m base' \<Longrightarrow> agrees addr base esize"
  unfolding agrees_def map_le_def comp_addr_def by (metis domIff)

lemma base_dom: "table_view t xs ex en \<Longrightarrow> block_base t xs b \<noteq> None \<longleftrightarrow> b \<in> blocks_of xs"
proof
  assume v: "table_view t xs ex en" and b: "b \<in> blocks_of xs"
  from view_present [OF v b] obtain p k where "(b, p) \<in> set xs" "tb_heap t p = Some k" by blast
  from base_present [OF v this] show "block_base t xs b \<noteq> None" by simp
next
  assume v: "table_view t xs ex en" and b: "block_base t xs b \<noteq> None"
  then have "map_of xs b \<noteq> None" by (simp add: block_base_def split: option.splits)
  then show "b \<in> blocks_of xs" by (simp only: map_of_eq_None_iff not_not)
qed

context steady_provider
begin

lemma tab_step_spec:
  assumes s: "table_state alloc free ainv S e ((t, st), w) Ps base s" and e: "inj e"
    and room: "room st (tab_need c + n)" and ok: "tab_legal c"
  shows "\<exists>out t' st' w' Ps' base' s'. tab_step call c ((t, st), w) = Inr (out, (t', st'), w') \<and> base \<subseteq>\<^sub>m base' \<and>
    (\<forall>addr. agrees addr base' (tb_esize t) \<longrightarrow>
      tab_spec addr (destroyed call (tb_destructor t) (tb_esize t)) c s = (out, s')) \<and>
    table_state alloc free ainv S e ((t', st'), w') Ps' base' s' \<and> room st' n \<and>
    tb_esize t' = tb_esize t \<and> tb_destructor t' = tb_destructor t \<and> (\<forall>c. c \<notin> range e \<longrightarrow> Ps' c = Ps c)"
proof -
  obtain xs where v: "table_view t xs (ts_exist s) (ts_enabled s)" and b: "ts_blocks s = blocks_of xs" "base = block_base t xs"
    and m: "table_mem alloc free S t (Ps \<circ> e)" and cl: "clients ainv st Ps" and w: "ts_bytes s = w"
    using s by (auto simp: table_state_def)
  note bd = base_dom [OF v]
  have n: "room st n" by (rule room_le [OF room]) simp
  have addr: "addr i = comp_addr (block_base t xs) (tb_esize t) i"
    if "agrees addr base (tb_esize t)" "i div 256 \<in> blocks_of xs" for addr i
    using that b(2) bd unfolding agrees_def by blast
  have keep: ?thesis if "tab_step call c ((t, st), w) = Inr (out, (t', st), w')" "kept t t'"
      "table_view t' xs (ts_exist s') (ts_enabled s')" "ts_blocks s' = ts_blocks s" "ts_bytes s' = w'"
      "\<And>addr. agrees addr base (tb_esize t) \<Longrightarrow>
        tab_spec addr (destroyed call (tb_destructor t) (tb_esize t)) c s = (out, s')" for out t' w' s'
  proof -
    have "table_mem alloc free S t' (Ps \<circ> e)" using m kept_mem [OF that(2)] by blast
    then have "table_state alloc free ainv S e ((t', st), w') Ps base s'"
      unfolding table_state_def prod.case using that(3-5) b cl kept_base [OF that(2)] by (intro exI [of _ xs]) simp
    moreover have "tb_esize t' = tb_esize t" "tb_destructor t' = tb_destructor t" using that(2) by (simp_all add: kept_def)
    ultimately show ?thesis using that(1,6) n by (metis map_le_refl)
  qed
  show ?thesis
  proof (cases c)
    case (TCreate i)
    have r: "room st (20 + n)" "id_ok i" using room ok TCreate by simp_all
    from create_component_spec [OF v m e cl r] obtain t' st' xs' Ps' where
      r: "fdb_table_create_component (t, st) i = Inr (comp_addr (block_base t' xs') (tb_esize t) i, (t', st'))"
        "table_view t' xs' (insert i (ts_exist s)) (insert i (ts_enabled s))"
        "blocks_of xs' = insert (i div 256) (blocks_of xs)" "block_base t xs \<subseteq>\<^sub>m block_base t' xs'"
        "table_mem alloc free S t' (Ps' \<circ> e)" "clients ainv st' Ps'" "room st' n"
        "tb_esize t' = tb_esize t" "tb_destructor t' = tb_destructor t" "\<forall>c. c \<notin> range e \<longrightarrow> Ps' c = Ps c" by blast
    let ?s = "s\<lparr>ts_blocks := insert (i div 256) (ts_blocks s), ts_exist := insert i (ts_exist s), ts_enabled := insert i (ts_enabled s)\<rparr>"
    have "table_state alloc free ainv S e ((t', st'), w) Ps' (block_base t' xs') ?s"
      unfolding table_state_def prod.case using r b w by (intro exI [of _ xs']) simp
    moreover have "block_base t' xs' (i div 256) \<noteq> None" using base_dom [OF r(2), of "i div 256"] r(3) by simp
    then have "addr i = comp_addr (block_base t' xs') (tb_esize t) i" if "agrees addr (block_base t' xs') (tb_esize t)" for addr
      using that unfolding agrees_def by blast
    ultimately show ?thesis using r(1,4,7-10) b(2) TCreate
      by (intro exI [of _ "TPtr (comp_addr (block_base t' xs') (tb_esize t) i)"] exI [of _ t'] exI [of _ st'] exI [of _ w]
          exI [of _ Ps'] exI [of _ "block_base t' xs'"] exI [of _ ?s]) simp
  next
    case (TDestroy i)
    have id: "id_ok i" using ok TDestroy by simp
    from destroy_view [OF v id, of call w] obtain t' where
      r: "fdb_table_destroy_component call t i w = Inr (t', if i div 256 \<in> blocks_of xs
        then destroyed call (tb_destructor t) (tb_esize t) (comp_addr (block_base t xs) (tb_esize t) i) w else w)"
        "kept t t'" "table_view t' xs (ts_exist s - {i}) (ts_enabled s - {i})" by blast
    show ?thesis
    proof (cases "i div 256 \<in> blocks_of xs")
      case True
      let ?w = "destroyed call (tb_destructor t) (tb_esize t) (comp_addr (block_base t xs) (tb_esize t) i) w"
      show ?thesis
        by (rule keep [of TDone t' ?w "s\<lparr>ts_exist := ts_exist s - {i}, ts_enabled := ts_enabled s - {i}, ts_bytes := ?w\<rparr>"])
          (use r True TDestroy b w addr [OF _ True] in simp_all)
    next
      case False
      then have "ts_exist s - {i} = ts_exist s" "ts_enabled s - {i} = ts_enabled s" using v by (auto simp: table_view_def)
      then show ?thesis
        by (intro keep [of TDone t' w s]) (use r False TDestroy b w in simp_all)
    qed
  next
    case (TGet i)
    show ?thesis
      by (rule keep [of "TPtr (if i \<in> ts_exist s then comp_addr (block_base t xs) (tb_esize t) i else NULL)" t w s])
        (use get_component_addr [OF v, of i] ok TGet v w addr in \<open>auto simp: table_view_def\<close>)
  next
    case (TEnable i)
    have id: "id_ok i" using ok TEnable by simp
    from enable_view [OF v id] obtain t' where r: "fdb_table_enable_component t i = Inr t'" "kept t t'"
      "table_view t' xs (ts_exist s) (if i div 256 \<in> blocks_of xs then insert i (ts_enabled s) else ts_enabled s)" by blast
    show ?thesis
      by (rule keep [of TDone t' w "if i div 256 \<in> blocks_of xs then s\<lparr>ts_enabled := insert i (ts_enabled s)\<rparr> else s"])
        (use r TEnable w b in \<open>cases "i div 256 \<in> blocks_of xs"; simp\<close>)+
  next
    case (TDisable i)
    have id: "id_ok i" using ok TDisable by simp
    from disable_view [OF v id] obtain t' where r: "fdb_table_disable_component t i = Inr t'" "kept t t'"
      "table_view t' xs (ts_exist s) (ts_enabled s - {i})" by blast
    show ?thesis
      by (rule keep [of TDone t' w "s\<lparr>ts_enabled := ts_enabled s - {i}\<rparr>"]) (use r TDisable w in simp_all)
  next
    case (TIsEnabled i)
    show ?thesis
      by (rule keep [of "TBool (i \<in> ts_enabled s)" t w s]) (use is_enabled_view [OF v, of i] ok TIsEnabled v w in simp_all)
  next
    case TSize
    show ?thesis
      by (rule keep [of "TCount (of_nat (card (ts_exist s)))" t w s])
        (use TSize v w in \<open>simp_all add: fdb_table_size_def table_view_def\<close>)
  qed
qed

lemma tab_run_sim:
  assumes "table_state alloc free ainv S e ((t, st), w) Ps base s" "inj e" "room st ((\<Sum>c\<leftarrow>cs. tab_need c) + n)"
    "\<forall>c\<in>set cs. tab_legal c"
  shows "\<exists>outs t' st' w' Ps' base' s'. tab_run call cs ((t, st), w) = Inr (outs, (t', st'), w') \<and> base \<subseteq>\<^sub>m base' \<and>
    (\<forall>addr. agrees addr base' (tb_esize t) \<longrightarrow>
      tab_run_spec addr (destroyed call (tb_destructor t) (tb_esize t)) cs s = (outs, s')) \<and>
    table_state alloc free ainv S e ((t', st'), w') Ps' base' s' \<and> room st' n \<and>
    tb_esize t' = tb_esize t \<and> tb_destructor t' = tb_destructor t \<and> (\<forall>c. c \<notin> range e \<longrightarrow> Ps' c = Ps c)"
  using assms
proof (induction cs arbitrary: t st w Ps base s)
  case Nil
  then show ?case by (intro exI [of _ "[]"] exI [of _ t] exI [of _ st] exI [of _ w] exI [of _ Ps] exI [of _ base] exI [of _ s]) simp
next
  case (Cons c cs)
  have "room st (tab_need c + ((\<Sum>c\<leftarrow>cs. tab_need c) + n))" "tab_legal c" using Cons.prems(3,4) by (simp_all add: add.assoc)
  from tab_step_spec [OF Cons.prems(1,2) this] obtain out t1 st1 w1 Ps1 base1 s1 where
    1: "tab_step call c ((t, st), w) = Inr (out, (t1, st1), w1)" "base \<subseteq>\<^sub>m base1"
      "\<And>addr. agrees addr base1 (tb_esize t) \<Longrightarrow>
        tab_spec addr (destroyed call (tb_destructor t) (tb_esize t)) c s = (out, s1)"
      "table_state alloc free ainv S e ((t1, st1), w1) Ps1 base1 s1" "room st1 ((\<Sum>c\<leftarrow>cs. tab_need c) + n)"
      "tb_esize t1 = tb_esize t" "tb_destructor t1 = tb_destructor t" "\<forall>c. c \<notin> range e \<longrightarrow> Ps1 c = Ps c" by blast
  have "\<forall>c\<in>set cs. tab_legal c" using Cons.prems(4) by simp
  from Cons.IH [OF 1(4) Cons.prems(2) 1(5) this] obtain outs t2 st2 w2 Ps2 base2 s2 where
    2: "tab_run call cs ((t1, st1), w1) = Inr (outs, (t2, st2), w2)" "base1 \<subseteq>\<^sub>m base2"
      "\<And>addr. agrees addr base2 (tb_esize t) \<Longrightarrow>
        tab_run_spec addr (destroyed call (tb_destructor t) (tb_esize t)) cs s1 = (outs, s2)"
      "table_state alloc free ainv S e ((t2, st2), w2) Ps2 base2 s2" "room st2 n"
      "tb_esize t2 = tb_esize t" "tb_destructor t2 = tb_destructor t" "\<forall>c. c \<notin> range e \<longrightarrow> Ps2 c = Ps1 c"
    unfolding 1(6,7) by blast
  have "tab_run_spec addr (destroyed call (tb_destructor t) (tb_esize t)) (c # cs) s = (out # outs, s2)"
    if "agrees addr base2 (tb_esize t)" for addr
    using 1(3) [OF agrees_le [OF that 2(2)]] 2(3) [OF that] by simp
  then show ?case using 1(1,8) 2(1,4-8) map_le_trans [OF 1(2) 2(2)]
    by (intro exI [of _ "out # outs"] exI [of _ t2] exI [of _ st2] exI [of _ w2] exI [of _ Ps2] exI [of _ base2] exI [of _ s2]) simp
qed

end

section \<open>Properties\<close>

text \<open>C15: A table of components of 1 to 127 bytes is three sets. From \<open>fdb_table_init\<close> over a page allocator
  on, any sequence of creating, destroying, looking up, enabling, disabling and querying components
  returns, without an error, what the sets of existing and of enabled ids say, and the size is
  the number of components; every component has a place of its own that never moves, the places
  of different ids do not overlap, and destroying a component runs the destructor on its place
  and zeroes its bytes. As the code has it, and against the comment in table.h, enabling an id marks it
  enabled whether or not it exists, as long as its block does; destroying an absent id of an existing
  block runs the destructor too.\<close>

theorem table_refines_sets:
  assumes "page_inv pg live" "live_apart live" "page_room pg (Suc (\<Sum>c\<leftarrow>cs. tab_need c))"
    and "page_serves pg 64 4096" "page_serves pg 64 65536" "length name < 256" "1 \<le> unat esize" "unat esize \<le> 127"
    and "\<forall>c\<in>set cs. tab_legal c"
  shows "\<exists>t pg' outs t' w' addr s. fdb_table_init name i esize destr (Some fdb_page_alloc_super) g hdr pg = Inr (t, pg') \<and>
    tab_run call cs ((t, pg'), w) = Inr (outs, t', w') \<and>
    tab_run_spec addr (destroyed call destr esize) cs (no_sets w) = (outs, s) \<and> ts_bytes s = w' \<and>
    (\<forall>x y. x \<noteq> y \<longrightarrow> x div 256 \<in> ts_blocks s \<longrightarrow> y div 256 \<in> ts_blocks s \<longrightarrow>
      apart (addr x) (unat esize) (addr y) (unat esize))"
proof -
  let ?S = "page_serves pg" and ?inv = "page_steady (page_serves pg)"
  have cl: "clients ?inv pg (\<lambda>_ :: table_client. Map.empty)" by (rule clients_start) (use assms(1,2) in auto)
  from steady_page.table_init_spec [where a = "Some fdb_page_alloc_super" and g = g and hdr = hdr and e = id and destr = destr and i = i,
      OF _ _ cl _ _ assms(3,4,5,6,7,8)]
  obtain t pg' Ps where t: "fdb_table_init name i esize destr (Some fdb_page_alloc_super) g hdr pg = Inr (t, pg')"
    "table_view t [] {} {}" "table_mem fdb_page_alloc_alloc fdb_page_alloc_free ?S t (Ps \<circ> id)" "clients ?inv pg' Ps"
    "page_room pg' (\<Sum>c\<leftarrow>cs. tab_need c)" "tb_esize t = esize" "tb_destructor t = destr"
    by (auto simp: fdb_page_alloc_super_def)
  have s0: "table_state fdb_page_alloc_alloc fdb_page_alloc_free ?inv ?S id ((t, pg'), w) Ps (block_base t []) (no_sets w)"
    unfolding table_state_def prod.case using t(2-4) by (intro exI [of _ "[]"]) (simp add: no_sets_def)
  have room: "page_room pg' ((\<Sum>c\<leftarrow>cs. tab_need c) + 0)" using t(5) by simp
  from steady_page.tab_run_sim [where call = call, OF s0 inj_on_id room assms(9)] obtain outs t' pg2 w' Ps' base s where
    r: "tab_run call cs ((t, pg'), w) = Inr (outs, (t', pg2), w')"
      "\<forall>addr. agrees addr base esize \<longrightarrow> tab_run_spec addr (destroyed call destr esize) cs (no_sets w) = (outs, s)"
      "table_state fdb_page_alloc_alloc fdb_page_alloc_free ?inv ?S id ((t', pg2), w') Ps' base s" "tb_esize t' = esize"
    unfolding t(6,7) by blast
  let ?addr = "comp_addr base esize"
  have "agrees ?addr base esize" by (simp add: agrees_def)
  then have spec: "tab_run_spec ?addr (destroyed call destr esize) cs (no_sets w) = (outs, s)" using r(2) by blast
  obtain xs where x: "table_view t' xs (ts_exist s) (ts_enabled s)" "ts_blocks s = blocks_of xs" "base = block_base t' xs"
    "table_mem fdb_page_alloc_alloc fdb_page_alloc_free ?S t' (Ps' \<circ> id)" "ts_bytes s = w'"
    using r(3) by (auto simp: table_state_def)
  have "apart (?addr x) (unat esize) (?addr y) (unat esize)"
    if "x \<noteq> y" "x div 256 \<in> ts_blocks s" "y div 256 \<in> ts_blocks s" for x y
    using comp_addr_apart [OF x(1,4) that(1)] that(2,3) x(2,3) r(4) by simp
  then show ?thesis using t(1) r(1) spec x(5) by blast
qed

theorem table_refines_sets_witness:
  "\<exists>t pg' t' w' a b. fdb_table_init ''pos'' 7 12 0 (Some fdb_page_alloc_super) fdb_page_alloc_super (\<lambda>_. 0) demo_db_page = Inr (t, pg') \<and>
    tab_run (\<lambda>f p w. w) [TCreate 3, TCreate 300, TDisable 3, TGet 3, TIsEnabled 3, TDestroy 300, TGet 300, TSize] ((t, pg'), \<lambda>_. 1) =
      Inr ([TPtr a, TPtr b, TDone, TPtr a, TBool False, TDone, TPtr NULL, TCount 1], t', w') \<and> apart a 12 b 12"
proof -
  let ?cs = "[TCreate 3, TCreate 300, TDisable 3, TGet 3, TIsEnabled 3, TDestroy 300, TGet 300, TSize]"
  have room: "page_room demo_db_page (Suc (\<Sum>c\<leftarrow>?cs. tab_need c))"
    by (simp add: page_room_def demo_db_page_def)
  have legal: "\<forall>c\<in>set ?cs. tab_legal c" by (simp add: id_ok_def FDB_INVALID_ID_def)
  have name: "length ''pos'' < 256" and sz: "1 \<le> unat (12 :: u64)" "unat (12 :: u64) \<le> 127" by simp_all
  from table_refines_sets [where i = 7 and destr = 0 and g = fdb_page_alloc_super and hdr = "\<lambda>_. 0" and call = "\<lambda>f p w. w" and w = "\<lambda>_. 1",
      OF demo_db_page_inv(1) live_apart_empty room demo_db_page_inv(3,4) name sz legal]
  obtain t pg' outs t' w' addr s where
    r: "fdb_table_init ''pos'' 7 12 0 (Some fdb_page_alloc_super) fdb_page_alloc_super (\<lambda>_. 0) demo_db_page = Inr (t, pg')"
      "tab_run (\<lambda>f p w. w) ?cs ((t, pg'), \<lambda>_. 1) = Inr (outs, t', w')"
      "tab_run_spec addr (destroyed (\<lambda>f p w. w) 0 12) ?cs (no_sets (\<lambda>_. 1)) = (outs, s)"
      "\<forall>x y. x \<noteq> y \<longrightarrow> x div 256 \<in> ts_blocks s \<longrightarrow> y div 256 \<in> ts_blocks s \<longrightarrow> apart (addr x) (unat (12 :: u64)) (addr y) (unat (12 :: u64))"
    by blast
  have o: "outs = [TPtr (addr 3), TPtr (addr 300), TDone, TPtr (addr 3), TBool False, TDone, TPtr NULL, TCount 1]"
    "ts_blocks s = {1, 0}" using r(3) by (auto simp: no_sets_def)
  have "apart (addr 3) (unat (12 :: u64)) (addr 300) (unat (12 :: u64))" using r(4) [rule_format, of 3 300] o(2) by simp
  then show ?thesis using r(1,2) unfolding o(1) by auto
qed

end
