(* ===== verification/TableIter.thy ===== *)
theory TableIter
  imports TableSpec
begin

text \<open>
  Iterating over component tables: the entries of a block, the blocks of a table that one of
  several threads takes, and clearing a table, which walks over both. Then what the tables do
  not guard against: the last block, components too large for their pages, and the counter of
  enabled components.
\<close>

section \<open>The components of a block\<close>

definition block_id :: "u32 \<Rightarrow> nat \<Rightarrow> u32" where "block_id b i = b * 256 + of_nat i"

text \<open>A block whose component addresses are not NULL; it is walkable when all its ids are valid.\<close>

definition readable :: "u32 \<Rightarrow> u64 \<Rightarrow> u32 set \<Rightarrow> fdb_table_block_t \<Rightarrow> bool" where
  "readable b esize en k \<longleftrightarrow> unat b < 2 ^ 24 \<and> tbk_start k = b * 256 \<and> tbk_esize k = esize \<and>
     bm_inv (tbk_enabled k) \<and> bm_max_bits (tbk_enabled k) = 256 \<and>
     (\<forall>eid. eid div 256 = b \<longrightarrow> (unat (eid mod 256) \<in> bits (tbk_enabled k) \<longleftrightarrow> eid \<in> en)) \<and>
     (\<forall>i<256. tbk_data k + of_nat i * esize \<noteq> NULL)"

definition walkable :: "u32 \<Rightarrow> u64 \<Rightarrow> u32 set \<Rightarrow> fdb_table_block_t \<Rightarrow> bool" where
  "walkable b esize en k \<longleftrightarrow> readable b esize en k \<and> unat b < 2 ^ 24 - 1"

lemma block_id_parts:
  assumes "unat b < 2 ^ 24" "i < 256"
  shows "unat (block_id b i) = unat b * 256 + i" "block_id b i div 256 = b" "unat (block_id b i mod 256) = i"
    "ucast (block_id b i mod 256) = (of_nat i :: u64)"
proof -
  have i: "unat (of_nat i :: u32) = i" using assms(2) by (simp add: unsigned_of_nat take_bit_nat_eq_self)
  have b: "unat b < 16777216" using assms(1) by simp
  then have m: "unat (b * 256) = unat b * 256" by (simp add: unat_word_ariths)
  have "unat (b * 256) + unat (of_nat i :: u32) < 2 ^ 32" unfolding m i using b assms(2) by simp
  then show u: "unat (block_id b i) = unat b * 256 + i" unfolding block_id_def by (subst unat_add_no_wrap) (use m i in simp_all)
  show "block_id b i div 256 = b" using u assms(2) by (simp add: word_unat_eq_iff unat_div)
  show r: "unat (block_id b i mod 256) = i" using u assms(2) by (simp add: unat_mod)
  then have "unat (ucast (block_id b i mod 256) :: u64) = unat (of_nat i :: u64)"
    using assms(2) by (simp only: unat_ucast_u32_u64) (simp add: unsigned_of_nat take_bit_nat_eq_self)
  then show "ucast (block_id b i mod 256) = (of_nat i :: u64)" by (simp only: word_unat_eq_iff)
qed

lemma block_id_ok:
  assumes "unat b < 2 ^ 24 - 1" "i < 256" shows "id_ok (block_id b i)"
proof -
  have "unat (block_id b i) = unat b * 256 + i" using block_id_parts(1) [of b i] assms by simp
  then have "unat (block_id b i) \<noteq> unat FDB_INVALID_ID" using assms by (simp add: FDB_INVALID_ID_def)
  then show ?thesis by (auto simp: id_ok_def)
qed

definition entry_of :: "fdb_table_block_t \<Rightarrow> u32 \<Rightarrow> fdb_table_entry_t" where
  "entry_of k x = \<lparr>te_id = x, te_data = tbk_data k + ucast (x mod 256) * tbk_esize k, te_enabled = True\<rparr>"

lemma block_get_component:
  assumes k: "readable b esize en k" and i: "i < 256" and ok: "id_ok (block_id b i)"
  shows "fdb_table_block_get_component k (block_id b i) =
    Inr (if block_id b i \<in> en then entry_of k (block_id b i) else zero_entry)"
proof -
  let ?x = "block_id b i"
  have b: "unat b < 2 ^ 24" using k by (simp add: readable_def)
  note p = block_id_parts [OF b i]
  have d: "decode_id ?x = Inr (?x div 256, ?x mod 256)" by (rule decode_id_ok [OF ok])
  have "fdb_bitmap_is_set (tbk_enabled k) (?x mod 256) = Inr (?x \<in> en)"
    using fdb_bitmap_is_set_iff [of "tbk_enabled k" "?x mod 256"] k p(2) mod_256_lt [of ?x] by (simp add: readable_def)
  moreover have s: "tbk_start k = ?x div 256 * 256" using k p(2) by (simp add: readable_def)
  moreover have "?x div 256 * 256 + ?x mod 256 = ?x" by (rule div_mult_mod_eq)
  ultimately show ?thesis using d by (simp add: fdb_table_block_get_component_def FDB_TABLE_BLOCK_SIZE_def entry_of_def)
qed

lemma block_has_component:
  assumes k: "readable b esize en k" and i: "i < 256" and ok: "id_ok (block_id b i)"
  shows "fdb_table_block_has_component k (block_id b i) = Inr (block_id b i \<in> en)"
proof -
  have b: "unat b < 2 ^ 24" using k by (simp add: readable_def)
  have "te_data (entry_of k (block_id b i)) \<noteq> NULL"
    using k i block_id_parts(4) [OF b i] by (simp add: readable_def entry_of_def)
  then show ?thesis using block_get_component [OF k i ok] ok
    by (simp add: fdb_table_block_has_component_def zero_entry_def id_ok_def)
qed

lemma of_nat_lt_256: "n \<le> 256 \<Longrightarrow> (of_nat n :: u32) < 256 \<longleftrightarrow> n < 256"
  by (simp add: word_less_nat_alt unsigned_of_nat take_bit_nat_eq_self)

text \<open>One turn of the loop that looks for the next component.\<close>

lemma skip_step:
  assumes k: "readable b esize en k" and n: "n < 256" and ok: "id_ok (block_id b n)"
  shows "tblock_skip k (of_nat n) = (if block_id b n \<in> en then Inr (of_nat n) else tblock_skip k (of_nat (Suc n)))"
proof -
  have "tbk_start k + of_nat n = block_id b n" using k by (simp add: readable_def block_id_def)
  then show ?thesis using block_has_component [OF k n ok] of_nat_lt_256 [of n] n
    by (subst tblock_skip.simps) (simp add: FDB_TABLE_BLOCK_SIZE_def add.commute)
qed

definition enabled_from :: "u32 \<Rightarrow> u32 set \<Rightarrow> nat \<Rightarrow> u32 list" where
  "enabled_from b en n = filter (\<lambda>x. x \<in> en) (map (block_id b) [n..<256])"

lemma enabled_from_Suc: "n < 256 \<Longrightarrow> enabled_from b en n =
    (if block_id b n \<in> en then block_id b n # enabled_from b en (Suc n) else enabled_from b en (Suc n))"
  by (simp add: enabled_from_def upt_conv_Cons)

lemma enabled_from_256 [simp]: "enabled_from b en 256 = []"
  by (simp add: enabled_from_def)

text \<open>The loop stops at the next enabled component, or at the end.\<close>

lemma skip_spec:
  assumes k: "walkable b esize en k" and n: "n \<le> 256"
  shows "\<exists>m. tblock_skip k (of_nat n) = Inr (of_nat m) \<and> n \<le> m \<and> m \<le> 256 \<and>
    (m < 256 \<longrightarrow> block_id b m \<in> en) \<and> enabled_from b en n = enabled_from b en m"
  using n
proof (induction "256 - n" arbitrary: n)
  case 0
  then have "n = 256" by simp
  then show ?case by (intro exI [of _ 256]) (simp add: tblock_skip.simps FDB_TABLE_BLOCK_SIZE_def)
next
  case (Suc j)
  then have n: "n < 256" by simp
  have rd: "readable b esize en k" and b: "unat b < 2 ^ 24 - 1" using k by (simp_all add: walkable_def)
  note step = skip_step [OF rd n block_id_ok [OF b n]]
  show ?case
  proof (cases "block_id b n \<in> en")
    case True
    then show ?thesis using step n by (intro exI [of _ n]) simp
  next
    case False
    have "j = 256 - Suc n" "Suc n \<le> 256" using Suc.hyps(2) n by simp_all
    from Suc.hyps(1) [OF this] obtain m where m: "tblock_skip k (of_nat (Suc n)) = Inr (of_nat m)" "Suc n \<le> m" "m \<le> 256"
      "m < 256 \<longrightarrow> block_id b m \<in> en" "enabled_from b en (Suc n) = enabled_from b en m" by blast
    then show ?thesis using step False enabled_from_Suc [OF n, of b en] by (intro exI [of _ m]) simp
  qed
qed

text \<open>An iterator of a block stands for the list of enabled ids it has not delivered.\<close>

definition titer_at :: "u32 \<Rightarrow> u32 set \<Rightarrow> ptr \<Rightarrow> fdb_tblock_iter_t \<Rightarrow> u32 list \<Rightarrow> bool" where
  "titer_at b en p it xs \<longleftrightarrow> (\<exists>n\<le>256. it = \<lparr>ti_block = p, ti_next_position = of_nat n\<rparr> \<and>
     (n < 256 \<longrightarrow> block_id b n \<in> en) \<and> xs = enabled_from b en n)"

lemma titer_init:
  assumes k: "walkable b esize en k" and p: "tblock_at h p = Inr k" "p \<noteq> NULL"
  obtains it where "fdb_tblock_iter_init h p = Inr it" "titer_at b en p it (enabled_from b en 0)"
proof -
  obtain m where "tblock_skip k (of_nat 0) = Inr (of_nat m)" "m \<le> 256" "m < 256 \<longrightarrow> block_id b m \<in> en"
    "enabled_from b en 0 = enabled_from b en m" using skip_spec [OF k, of 0] by auto
  then show thesis using that [of "\<lparr>ti_block = p, ti_next_position = of_nat m\<rparr>"] p
    by (auto simp: fdb_tblock_iter_init_def titer_at_def)
qed

lemma titer_has_next:
  assumes "titer_at b en p it xs" "p \<noteq> NULL" shows "fdb_tblock_iter_has_next it \<longleftrightarrow> xs \<noteq> []"
proof -
  obtain n where n: "n \<le> 256" "it = \<lparr>ti_block = p, ti_next_position = of_nat n\<rparr>" "n < 256 \<longrightarrow> block_id b n \<in> en"
    "xs = enabled_from b en n" using assms(1) by (auto simp: titer_at_def)
  then show ?thesis
    using assms(2) of_nat_lt_256 [OF n(1)] enabled_from_Suc [of n b en] enabled_from_256 [of b en]
    by (cases "n < 256") (auto simp: fdb_tblock_iter_has_next_def FDB_TABLE_BLOCK_SIZE_def)
qed

lemma titer_next:
  assumes k: "walkable b esize en k" and p: "tblock_at h p = Inr k" and it: "titer_at b en p it (x # xs)"
  obtains it' where "fdb_tblock_iter_next h it = Inr (entry_of k x, it')" "titer_at b en p it' xs"
proof -
  obtain n where n: "n \<le> 256" "it = \<lparr>ti_block = p, ti_next_position = of_nat n\<rparr>" "n < 256 \<longrightarrow> block_id b n \<in> en"
    "x # xs = enabled_from b en n" using it by (auto simp: titer_at_def)
  then have lt: "n < 256" using enabled_from_256 [of b en] by (cases "n = 256") auto
  then have x: "x = block_id b n" "xs = enabled_from b en (Suc n)" "block_id b n \<in> en"
    using n(3,4) enabled_from_Suc [OF lt, of b en] by simp_all
  obtain m where m: "tblock_skip k (of_nat (Suc n)) = Inr (of_nat m)" "m \<le> 256" "m < 256 \<longrightarrow> block_id b m \<in> en"
    "enabled_from b en (Suc n) = enabled_from b en m" using skip_spec [OF k, of "Suc n"] lt by auto
  have rd: "readable b esize en k" and b: "unat b < 2 ^ 24 - 1" using k by (simp_all add: walkable_def)
  have start: "tbk_start k + of_nat n = block_id b n" using rd by (simp add: readable_def block_id_def)
  have "fdb_tblock_iter_next h it = Inr (entry_of k x, \<lparr>ti_block = p, ti_next_position = of_nat m\<rparr>)"
    using p n(2) start block_get_component [OF rd lt block_id_ok [OF b lt]] x m(1)
    by (simp add: fdb_tblock_iter_next_def add.commute)
  moreover have "titer_at b en p \<lparr>ti_block = p, ti_next_position = of_nat m\<rparr> xs" using m x(2) by (auto simp: titer_at_def)
  ultimately show thesis by (rule that)
qed

text \<open>The loop of the clients over a block.\<close>

fun tblock_walk :: "nat \<Rightarrow> (ptr \<rightharpoonup> fdb_table_block_t) \<Rightarrow> fdb_tblock_iter_t \<Rightarrow> fdb_table_entry_t list res" where
  "tblock_walk 0 h it = Inl OutOfFuel"
| "tblock_walk (Suc fuel) h it =
     (if fdb_tblock_iter_has_next it then
        bind_res (fdb_tblock_iter_next h it) (\<lambda>(e, it). bind_res (tblock_walk fuel h it) (\<lambda>es. Inr (e # es)))
      else Inr [])"

lemma walk_block:
  assumes k: "walkable b esize en k" and p: "tblock_at h p = Inr k" "p \<noteq> NULL" and it: "titer_at b en p it xs"
    and fuel: "length xs < fuel"
  shows "tblock_walk fuel h it = Inr (map (entry_of k) xs)"
    "destroy_entries fuel destr h it w = Inr (fold (\<lambda>x. destr (te_data (entry_of k x))) xs w)"
  using it fuel
proof (induction xs arbitrary: it fuel w)
  case Nil
  { case 1 then show ?case using titer_has_next [OF 1(1) p(2)] by (cases fuel) auto }
  { case 2 then show ?case using titer_has_next [OF 2(1) p(2)] by (cases fuel) auto }
next
  case (Cons x xs)
  { case 1
    obtain f where f: "fuel = Suc f" using 1(2) by (cases fuel) auto
    obtain it' where n: "fdb_tblock_iter_next h it = Inr (entry_of k x, it')" "titer_at b en p it' xs"
      using titer_next [OF k p(1) 1(1)] by blast
    show ?case using f n titer_has_next [OF 1(1) p(2)] Cons.IH(1) [OF n(2), of f] 1(2) by simp }
  { case 2
    obtain f where f: "fuel = Suc f" using 2(2) by (cases fuel) auto
    obtain it' where n: "fdb_tblock_iter_next h it = Inr (entry_of k x, it')" "titer_at b en p it' xs"
      using titer_next [OF k p(1) 2(1)] by blast
    show ?case using f n titer_has_next [OF 2(1) p(2)] Cons.IH(2) [OF n(2), of f] 2(2) by simp }
qed

section \<open>The blocks that one thread takes\<close>

lemma mod_turn:
  fixes q s k :: nat
  assumes "k < s" shows "(q + (s - k)) mod s = 0 \<longleftrightarrow> q mod s = k"
proof -
  define r where "r = q mod s"
  have r: "r < s" using assms by (simp add: r_def)
  have "(q + (s - k)) mod s = (r + (s - k)) mod s" by (simp add: r_def mod_add_left_eq)
  also have "\<dots> = 0 \<longleftrightarrow> r = k"
  proof (cases "r < k")
    case True
    then have "r + (s - k) < s" "r + (s - k) \<noteq> 0" using assms by simp_all
    then show ?thesis using True by simp
  next
    case False
    then have "r + (s - k) = (r - k) + s" using assms by simp
    then have "(r + (s - k)) mod s = (r - k) mod s" by simp
    also have "\<dots> = r - k" using r by simp
    finally show ?thesis using False by simp
  qed
  finally show ?thesis by (simp add: r_def)
qed

lemma is_selected_iff:
  assumes "0 < unat cs" "unat off < unat stride" "unat stride \<le> 2 ^ 31" "unat b < 2 ^ 24"
  shows "is_selected b cs off stride = Inr (unat b div unat cs mod unat stride = unat off)"
proof -
  have nz: "cs \<noteq> 0" "stride \<noteq> 0" using assms by auto
  have q: "unat (b div cs) = unat b div unat cs" by (simp add: unat_div)
  have lt: "unat (b div cs) < 16777216"
    unfolding q by (rule le_less_trans [OF div_le_dividend]) (use assms(4) in simp)
  have o: "off \<le> stride" using assms(2) by (simp add: word_le_nat_alt)
  have d: "unat (stride - off) = unat stride - unat off" by (rule unat_sub [OF o])
  have "unat (b div cs) + unat (stride - off) < 2 ^ 32" using lt d assms(3) by simp
  then have "unat (b div cs + (stride - off)) = unat b div unat cs + (unat stride - unat off)"
    by (subst unat_add_no_wrap) (use q d in simp_all)
  then have "unat ((b div cs + (stride - off)) mod stride) = (unat b div unat cs + (unat stride - unat off)) mod unat stride"
    by (simp only: unat_mod)
  then have "(b div cs + (stride - off)) mod stride = 0 \<longleftrightarrow> (unat b div unat cs + (unat stride - unat off)) mod unat stride = 0"
    by (metis unat_0 word_unat_eq_iff)
  then show ?thesis using nz mod_turn [OF assms(2), of "unat b div unat cs"] by (simp add: is_selected_def)
qed

lemma block_get_offset_iff:
  assumes "0 < unat cs" "0 < unat stride"
  shows "block_get_offset b cs stride = Inr off \<longleftrightarrow> unat b div unat cs mod unat stride = unat off"
proof -
  have "cs \<noteq> 0" "stride \<noteq> 0" using assms by auto
  then show ?thesis by (simp add: block_get_offset_def Let_def word_unat_eq_iff unat_mod unat_div)
qed

definition mine :: "u32 \<Rightarrow> u32 \<Rightarrow> u32 \<Rightarrow> u32 \<times> ptr \<Rightarrow> bool" where
  "mine cs off stride e \<longleftrightarrow> block_get_offset (fst e) cs stride = Inr off"

definition schedule_ok :: "u32 \<Rightarrow> u32 \<Rightarrow> u32 \<Rightarrow> bool" where
  "schedule_ok cs off stride \<longleftrightarrow> 0 < unat cs \<and> unat off < unat stride \<and> unat stride \<le> 2 ^ 31"

lemma is_selected_mine:
  assumes "schedule_ok cs off stride" "unat b < 2 ^ 24"
  shows "is_selected b cs off stride = Inr (mine cs off stride (b, p))"
proof -
  have "0 < unat cs" "unat off < unat stride" "unat stride \<le> 2 ^ 31" "0 < unat stride" using assms(1) by (auto simp: schedule_ok_def)
  then show ?thesis using is_selected_iff [of cs off stride b] block_get_offset_iff [of cs stride b off] assms(2)
    by (simp add: mine_def)
qed

text \<open>An iterator of a table stands for the entries of the tree it has not looked at.\<close>

definition taiter_at :: "btheap \<Rightarrow> u32 \<Rightarrow> u32 \<Rightarrow> u32 \<Rightarrow> fdb_table_iter_t \<Rightarrow> entries \<Rightarrow> bool" where
  "taiter_at h cs off stride it ys \<longleftrightarrow> ta_chunk_size it = cs \<and> ta_offset it = off \<and> ta_stride it = stride \<and>
     ta_next it = NULL \<and> iter_at h (ta_it it) ys"

definition blocks_ok :: "entries \<Rightarrow> bool" where
  "blocks_ok ys \<longleftrightarrow> (\<forall>(b, p)\<in>set ys. p \<noteq> NULL \<and> unat b < 2 ^ 24)"

lemma taiter_init:
  assumes "btree_holds (tb_blocks t) xs"
  obtains it where "fdb_table_iter_init t cs off stride = Inr it" "taiter_at (bt_nodes (tb_blocks t)) cs off stride it xs"
proof -
  obtain i where "fdb_btree_iter_init (tb_blocks t) = Inr i" "iter_at (bt_nodes (tb_blocks t)) i xs"
    using iter_at_init [OF assms] by blast
  then show thesis using that by (simp add: fdb_table_iter_init_def taiter_at_def)
qed

text \<open>\<open>has_next\<close> moves to the next block of the thread; \<open>next\<close> then delivers it.\<close>

lemma seek_spec:
  assumes "schedule_ok cs off stride" "taiter_at h cs off stride it ys" "blocks_ok ys" "length ys < fuel"
  shows "\<exists>it'. iter_seek fuel h it = Inr it' \<and>
    (case dropWhile (\<lambda>e. \<not> mine cs off stride e) ys of
       [] \<Rightarrow> taiter_at h cs off stride it' []
     | (b, p) # zs \<Rightarrow> ta_next it' = p \<and> taiter_at h cs off stride (it'\<lparr>ta_next := NULL\<rparr>) zs)"
  using assms(2-)
proof (induction ys arbitrary: it fuel)
  case Nil
  then obtain f where "fuel = Suc f" by (cases fuel) auto
  then show ?case using Nil iter_at_has_next [of h "ta_it it" "[]"] by (simp add: taiter_at_def)
next
  case (Cons e ys)
  obtain b p where e: "e = (b, p)" by (cases e)
  obtain f where f: "fuel = Suc f" "length ys < f" using Cons.prems(3) by (cases fuel) auto
  have it: "ta_chunk_size it = cs" "ta_offset it = off" "ta_stride it = stride" "ta_next it = NULL"
    "iter_at h (ta_it it) ((b, p) # ys)" using Cons.prems(1) e by (auto simp: taiter_at_def)
  have more: "fdb_btree_iter_has_next h (ta_it it) = Inr True" using iter_at_has_next [OF it(5)] by simp
  obtain i where i: "fdb_btree_iter_next h (ta_it it) = Inr (\<lparr>be_key = b, be_value = p\<rparr>, i)" "iter_at h i ys"
    using iter_at_next [OF it(5)] by blast
  have b: "unat b < 2 ^ 24" "p \<noteq> NULL" "blocks_ok ys" using Cons.prems(2) e by (auto simp: blocks_ok_def)
  have sel: "is_selected b cs off stride = Inr (mine cs off stride (b, p))" by (rule is_selected_mine [OF assms(1) b(1)])
  show ?case
  proof (cases "mine cs off stride (b, p)")
    case True
    then show ?thesis using f(1) more i sel it e by (simp add: taiter_at_def)
  next
    case False
    let ?it = "it\<lparr>ta_it := i, ta_next := NULL\<rparr>"
    have at: "taiter_at h cs off stride ?it ys" using i(2) it by (simp add: taiter_at_def)
    have "iter_seek fuel h it = iter_seek f h ?it" using f(1) more i(1) sel it False by simp
    then show ?thesis using Cons.IH [OF at b(3) f(2)] False e by simp
  qed
qed

lemma taiter_has_next:
  assumes "schedule_ok cs off stride" "taiter_at (bt_nodes (tb_blocks t)) cs off stride it ys" "blocks_ok ys" "length ys < fuel"
  shows "case dropWhile (\<lambda>e. \<not> mine cs off stride e) ys of
      [] \<Rightarrow> (\<exists>it'. fdb_table_iter_has_next fuel t it = Inr (False, it'))
    | (b, p) # zs \<Rightarrow> \<exists>it' it''. fdb_table_iter_has_next fuel t it = Inr (True, it') \<and>
        fdb_table_iter_next fuel' t it' = Inr (p, it'') \<and> taiter_at (bt_nodes (tb_blocks t)) cs off stride it'' zs"
proof -
  let ?d = "dropWhile (\<lambda>e. \<not> mine cs off stride e) ys"
  obtain it' where s: "iter_seek fuel (bt_nodes (tb_blocks t)) it = Inr it'"
    "case ?d of [] \<Rightarrow> taiter_at (bt_nodes (tb_blocks t)) cs off stride it' []
     | (b, p) # zs \<Rightarrow> ta_next it' = p \<and> taiter_at (bt_nodes (tb_blocks t)) cs off stride (it'\<lparr>ta_next := NULL\<rparr>) zs"
    using seek_spec [OF assms] by blast
  show ?thesis
  proof (cases ?d)
    case Nil
    have "taiter_at (bt_nodes (tb_blocks t)) cs off stride it' []" using s(2) unfolding Nil by simp
    then show ?thesis using s(1) unfolding Nil by (simp add: fdb_table_iter_has_next_def taiter_at_def)
  next
    case (Cons e zs)
    obtain b p where e: "e = (b, p)" by (cases e)
    have "e \<in> set ys" using Cons by (metis list.set_intros(1) set_dropWhileD)
    then have "p \<noteq> NULL" using assms(3) e by (auto simp: blocks_ok_def)
    then show ?thesis using s Cons e by (simp add: fdb_table_iter_has_next_def fdb_table_iter_next_def)
  qed
qed

text \<open>The loop of the clients over the blocks.\<close>

fun table_walk :: "nat \<Rightarrow> 'st fdb_table_t \<Rightarrow> fdb_table_iter_t \<Rightarrow> ptr list res" where
  "table_walk 0 t it = Inl OutOfFuel"
| "table_walk (Suc fuel) t it =
     bind_res (fdb_table_iter_has_next (Suc fuel) t it) (\<lambda>(more, it).
     if more then bind_res (fdb_table_iter_next (Suc fuel) t it) (\<lambda>(p, it).
       bind_res (table_walk fuel t it) (\<lambda>ps. Inr (p # ps)))
     else Inr [])"

lemma filter_dropWhile: "filter P ys = (case dropWhile (\<lambda>e. \<not> P e) ys of [] \<Rightarrow> [] | e # zs \<Rightarrow> e # filter P zs)"
  by (induction ys) auto

lemma length_dropWhile_Cons: "dropWhile P ys = e # zs \<Longrightarrow> length zs < length ys"
  using length_dropWhile_le [of P ys] by simp

lemma walk_table:
  assumes "schedule_ok cs off stride" "taiter_at (bt_nodes (tb_blocks t)) cs off stride it ys" "blocks_ok ys" "length ys < fuel"
  shows "table_walk fuel t it = Inr (map snd (filter (mine cs off stride) ys))"
  using assms(2-)
proof (induction fuel arbitrary: it ys)
  case (Suc fuel)
  let ?d = "dropWhile (\<lambda>e. \<not> mine cs off stride e) ys"
  note hn = taiter_has_next [OF assms(1) Suc.prems, of "Suc fuel"]
  show ?case
  proof (cases ?d)
    case Nil
    have "filter (mine cs off stride) ys = []" using filter_dropWhile [of "mine cs off stride" ys] unfolding Nil by simp
    moreover have "\<exists>it'. fdb_table_iter_has_next (Suc fuel) t it = Inr (False, it')" using hn unfolding Nil by simp
    ultimately show ?thesis by (elim exE) (simp only: table_walk.simps, simp)
  next
    case (Cons e zs)
    obtain b p where e: "e = (b, p)" by (cases e)
    obtain it' it'' where n: "fdb_table_iter_has_next (Suc fuel) t it = Inr (True, it')"
      "fdb_table_iter_next (Suc fuel) t it' = Inr (p, it'')" "taiter_at (bt_nodes (tb_blocks t)) cs off stride it'' zs"
      using hn Cons e by auto
    have "set zs \<subseteq> set ys" using Cons set_dropWhileD by (metis list.set_intros(2) subsetI)
    then have "blocks_ok zs" using Suc.prems(2) by (auto simp: blocks_ok_def)
    moreover have "length zs < fuel" using length_dropWhile_Cons [OF Cons] Suc.prems(3) by simp
    ultimately have "table_walk fuel t it'' = Inr (map snd (filter (mine cs off stride) zs))" using Suc.IH [OF n(3)] by blast
    then show ?thesis using n(1,2) Cons e filter_dropWhile [of "mine cs off stride" ys] by simp
  qed
qed simp

lemma table_view_blocks_ok: "table_view t xs ex en \<Longrightarrow> blocks_ok xs"
  unfolding table_view_def blocks_ok_def by blast

section \<open>Clearing a table\<close>

lemma data_ptrs_del: "data_ptrs (h(p := None)) = (data_ptrs h)(p := None)"
  by (simp add: fun_eq_iff)

lemma bitmap_ptrs_del: "bitmap_ptrs (h(p := None)) = (bitmap_ptrs h)(p := None)"
  by (simp add: fun_eq_iff)

lemma length_enabled_from: "length (enabled_from b en n) \<le> 256 - n"
  unfolding enabled_from_def by (metis length_filter_le length_map length_upt)

definition end_block :: "(ptr \<Rightarrow> bytes \<Rightarrow> bytes) \<Rightarrow> u32 set \<Rightarrow> u32 \<Rightarrow> fdb_table_block_t \<Rightarrow> bytes \<Rightarrow> bytes" where
  "end_block destr en b k = fold (\<lambda>x. destr (te_data (entry_of k x))) (enabled_from b en 0)"

context steady_provider
begin

lemma clear_block_spec:
  assumes m: "table_mem alloc free S t (Ps \<circ> e)" and e: "inj e" and cl: "clients ainv st Ps"
    and p: "tb_heap t p = Some k" "p \<noteq> NULL"
    and walk: "tb_destructor t \<noteq> NULL \<Longrightarrow> walkable b (tb_esize t) en k"
  shows "\<exists>t'. clear_block call (t, st) p w = Inr ((t', st),
      if tb_destructor t \<noteq> NULL then end_block (call (tb_destructor t)) en b k w else w) \<and>
    table_mem alloc free S t' (Ps \<circ> e) \<and> tb_heap t' = (tb_heap t)(p := None) \<and> tb_blocks t' = tb_blocks t \<and>
    tb_esize t' = tb_esize t \<and> tb_destructor t' = tb_destructor t"
proof -
  let ?w = "if tb_destructor t \<noteq> NULL then end_block (call (tb_destructor t)) en b k w else w"
  have at: "tblock_at (tb_heap t) p = Inr k" using p by (simp add: tblock_at_def)
  have bytes: "(if tb_destructor t \<noteq> NULL then bind_res (fdb_tblock_iter_init (tb_heap t) p)
      (\<lambda>it. destroy_entries TB_FUEL (call (tb_destructor t)) (tb_heap t) it w) else Inr w) = Inr ?w"
  proof (cases "tb_destructor t \<noteq> NULL")
    case True
    obtain it where it: "fdb_tblock_iter_init (tb_heap t) p = Inr it" "titer_at b en p it (enabled_from b en 0)"
      using titer_init [OF walk [OF True] at p(2)] by blast
    have "length (enabled_from b en 0) < TB_FUEL" using length_enabled_from [of b en 0] by (simp add: TB_FUEL_def)
    from walk_block(2) [OF walk [OF True] at p(2) it(2) this] show ?thesis using True it(1) by (simp add: end_block_def)
  qed simp
  obtain bl dl ml where h: "pool_holds alloc free (tb_tblock_allocator t) (Ps (e CBlocks)) bl" "dom bl = dom (tb_heap t)"
    "pool_holds alloc free (tb_data_allocator t) (Ps (e CData)) dl" "owned (data_ptrs (tb_heap t)) dl"
    "pool_holds alloc free (tb_bitmap_data_allocator t) (Ps (e CBitmaps)) ml" "owned (bitmap_ptrs (tb_heap t)) ml"
    using m by (auto simp: table_mem_def)
  let ?y = "bm_p_data (tbk_enabled k)" and ?x = "bm_p_data (tbk_exists k)"
  have o: "bitmap_ptrs (tb_heap t) p = Some [?y, ?x]" "data_ptrs (tb_heap t) p = Some [tbk_data k]" using p(1) by simp_all
  have "distinct [?y, ?x]" using h(6) o(1) unfolding owned_def by blast
  then have "{?y, ?x} \<subseteq> dom ml" "?x \<noteq> ?y" using owned_in [OF h(6) o(1)] by auto
  then obtain n1 n2 where ml: "ml ?y = Some n1" "(ml(?y := None)) ?x = Some n2" by auto
  obtain n3 where dl: "dl (tbk_data k) = Some n3" using owned_in [OF h(4) o(2)] by auto
  obtain n4 where bl: "bl p = Some n4" using h(2) p(1) by (metis domD domI)
  obtain pa1 s1 where f1: "fdb_pool_alloc_free (tb_bitmap_data_allocator t, st) ?y = (pa1, s1)" by fastforce
  note 1 = client_free [OF cl h(5) ml(1) f1]
  have s1: "s1 = st" and pa1: "pool_holds alloc free pa1 (Ps (e CBitmaps)) (ml(?y := None))" using 1 by blast+
  obtain pa2 s2 where f2: "fdb_pool_alloc_free (pa1, st) ?x = (pa2, s2)" by fastforce
  note 2 = client_free [OF cl pa1 ml(2) f2]
  obtain pa3 s3 where f3: "fdb_pool_alloc_free (tb_data_allocator t, st) (tbk_data k) = (pa3, s3)" by fastforce
  note 3 = client_free [OF cl h(3) dl f3]
  obtain pa4 s4 where f4: "fdb_pool_alloc_free (tb_tblock_allocator t, st) p = (pa4, s4)" by fastforce
  note 4 = client_free [OF cl h(1) bl f4]
  have st: "s2 = st" "s3 = st" "s4 = st" using 2 3 4 by blast+
  let ?t = "t\<lparr>tb_bitmap_data_allocator := pa2, tb_data_allocator := pa3, tb_tblock_allocator := pa4,
    tb_heap := (tb_heap t)(p := None)\<rparr>"
  have "clear_block call (t, st) p w = Inr ((?t, st), ?w)"
    unfolding clear_block_def fst_conv bytes bind_res.simps using at f1 f2 f3 f4 s1 st
    by (simp add: fdb_table_block_release_def fdb_bitmap_release_def mem_free_def table_bitmap_super_def
        table_data_super_def fdb_pool_alloc_super_def)
  moreover have eq: "data_ptrs (tb_heap ?t) = (data_ptrs (tb_heap t))(p := None)"
    "bitmap_ptrs (tb_heap ?t) = (bitmap_ptrs (tb_heap t))(p := None)" by (simp_all add: data_ptrs_del bitmap_ptrs_del)
  have "table_mem alloc free S ?t (Ps \<circ> e)"
  proof (rule table_memI)
    show "pool_holds alloc free (tb_tblock_allocator ?t) ((Ps \<circ> e) CBlocks) (bl(p := None))" using 4 by simp
    show "dom (bl(p := None)) = dom (tb_heap ?t)" using h(2) by simp
    show "pool_holds alloc free (tb_data_allocator ?t) ((Ps \<circ> e) CData) (dl(tbk_data k := None))" using 3 by simp
    show "owned (data_ptrs (tb_heap ?t)) (dl(tbk_data k := None))"
      unfolding eq by (rule owned_del [OF h(4) o(2)]) auto
    show "pool_holds alloc free (tb_bitmap_data_allocator ?t) ((Ps \<circ> e) CBitmaps) (ml(?y := None, ?x := None))" using 2
      by (simp del: fun_upd_apply)
    show "owned (bitmap_ptrs (tb_heap ?t)) (ml(?y := None, ?x := None))"
      unfolding eq by (rule owned_del [OF h(6) o(1)]) auto
  qed (use m 1 2 3 4 in \<open>simp_all add: table_mem_def\<close>)
  ultimately show ?thesis by (intro exI [of _ ?t]) simp
qed

lemma clear_blocks_spec:
  assumes "taiter_at (bt_nodes (tb_blocks t)) 1 0 1 it ys" "blocks_ok ys" "length ys < fuel"
    and "table_mem alloc free S t (Ps \<circ> e)" "inj e" "clients ainv st Ps" "distinct (map snd ys)" "dom (tb_heap t) = snd ` set ys"
    and "\<And>b p. (b, p) \<in> set ys \<Longrightarrow> \<exists>k. tb_heap t p = Some k \<and> (tb_destructor t \<noteq> NULL \<longrightarrow> walkable b (tb_esize t) en k)"
  shows "\<exists>t'. clear_blocks fuel call it (t, st) w = Inr ((t', st), if tb_destructor t \<noteq> NULL
      then fold (\<lambda>(b, p). end_block (call (tb_destructor t)) en b (the (tb_heap t p))) ys w else w) \<and>
    table_mem alloc free S t' (Ps \<circ> e) \<and> tb_heap t' = Map.empty \<and> tb_blocks t' = tb_blocks t \<and>
    tb_esize t' = tb_esize t \<and> tb_destructor t' = tb_destructor t"
  using assms
proof (induction ys arbitrary: t it fuel w)
  case Nil
  obtain f where f: "fuel = Suc f" using Nil.prems(3) by (cases fuel) auto
  have ok: "schedule_ok 1 0 1" by (simp add: schedule_ok_def)
  have "\<exists>it'. fdb_table_iter_has_next fuel t it = Inr (False, it')"
    using taiter_has_next [OF ok Nil.prems(1-3)] by simp
  then show ?case using f Nil.prems by (auto simp: fun_eq_iff)
next
  case (Cons e0 ys)
  obtain b p where e0: "e0 = (b, p)" by (cases e0)
  obtain f where f: "fuel = Suc f" "length ys < f" using Cons.prems(3) by (cases fuel) auto
  have ok: "schedule_ok 1 0 1" by (simp add: schedule_ok_def)
  have mine: "mine 1 0 1 (b, p)" by (simp add: mine_def block_get_offset_def)
  obtain it' it'' where n: "fdb_table_iter_has_next fuel t it = Inr (True, it')"
    "fdb_table_iter_next fuel t it' = Inr (p, it'')" "taiter_at (bt_nodes (tb_blocks t)) 1 0 1 it'' ys"
    using taiter_has_next [OF ok Cons.prems(1-3), of fuel] mine e0 by auto
  have bo: "blocks_ok ys" "p \<noteq> NULL" using Cons.prems(2) e0 by (auto simp: blocks_ok_def)
  obtain k where k: "tb_heap t p = Some k" "tb_destructor t \<noteq> NULL \<Longrightarrow> walkable b (tb_esize t) en k"
    using Cons.prems(9) [of b p] e0 by auto
  from clear_block_spec [where call = call and w = w, OF Cons.prems(4-6) k(1) bo(2) k(2)] obtain t1 where
    c: "clear_block call (t, st) p w = Inr ((t1, st),
        if tb_destructor t \<noteq> NULL then end_block (call (tb_destructor t)) en b k w else w)"
      "table_mem alloc free S t1 (Ps \<circ> e)" "tb_heap t1 = (tb_heap t)(p := None)" "tb_blocks t1 = tb_blocks t"
      "tb_esize t1 = tb_esize t" "tb_destructor t1 = tb_destructor t" by blast
  let ?w = "if tb_destructor t \<noteq> NULL then end_block (call (tb_destructor t)) en b k w else w"
  have np: "p \<notin> snd ` set ys" "distinct (map snd ys)" using Cons.prems(7) e0 by auto
  have dom: "dom (tb_heap t1) = snd ` set ys" using Cons.prems(8) c(3) e0 np(1) by auto
  have "taiter_at (bt_nodes (tb_blocks t1)) 1 0 1 it'' ys" using n(3) c(4) by simp
  moreover have "\<exists>k. tb_heap t1 q = Some k \<and> (tb_destructor t1 \<noteq> NULL \<longrightarrow> walkable a (tb_esize t1) en k)"
    if "(a, q) \<in> set ys" for a q
  proof -
    have "q \<noteq> p" using that np(1) by force
    then show ?thesis using Cons.prems(9) [of a q] that c(3,5,6) by simp
  qed
  ultimately obtain t2 where
    r: "clear_blocks f call it'' (t1, st) ?w = Inr ((t2, st), if tb_destructor t1 \<noteq> NULL
        then fold (\<lambda>(b, p). end_block (call (tb_destructor t1)) en b (the (tb_heap t1 p))) ys ?w else ?w)"
      "table_mem alloc free S t2 (Ps \<circ> e)" "tb_heap t2 = Map.empty" "tb_blocks t2 = tb_blocks t1"
      "tb_esize t2 = tb_esize t1" "tb_destructor t2 = tb_destructor t1"
    using Cons.IH [of t1 it'' f ?w] bo(1) f(2) c(2) Cons.prems(5,6) np(2) dom by blast
  have same: "fold (\<lambda>(b, p). end_block (call (tb_destructor t)) en b (the (tb_heap t1 p))) ys x =
      fold (\<lambda>(b, p). end_block (call (tb_destructor t)) en b (the (tb_heap t p))) ys x" for x
  proof (rule fold_cong [OF refl refl])
    fix y assume "y \<in> set ys"
    then have "snd y \<noteq> p" using np(1) by force
    then show "(\<lambda>(b, p). end_block (call (tb_destructor t)) en b (the (tb_heap t1 p))) y =
      (\<lambda>(b, p). end_block (call (tb_destructor t)) en b (the (tb_heap t p))) y" using c(3) by (cases y) simp
  qed
  have "clear_blocks fuel call it (t, st) w = clear_blocks f call it'' (t1, st) ?w"
    using n(1,2) c(1) f(1) by simp
  then show ?case using r [unfolded c(4-6) same] k(1) e0 by (intro exI [of _ t2]) (simp add: comp_def)
qed

end

text \<open>The addresses of the components of a table are not NULL.\<close>

lemma view_readable:
  assumes v: "table_view t xs ex en" and m: "table_mem alloc free S t Ps" and p: "(b, p) \<in> set xs" "tb_heap t p = Some k"
  shows "readable b (tb_esize t) en k"
proof -
  have "b \<in> blocks_of xs" using p(1) by force
  from view_present [OF v this] obtain q l where q: "(b, q) \<in> set xs" "tb_heap t q = Some l" "block_ok b (tb_esize t) ex en l"
    by blast
  have "distinct (map fst xs)" using table_view_ascending [OF v] by (simp add: strict_sorted_iff)
  then have k: "block_ok b (tb_esize t) ex en k" using q p by (metis eq_key_imp_eq_value option.inject)
  let ?e = "unat (tb_esize t)"
  obtain dl where d: "pool_holds alloc free (tb_data_allocator t) (Ps CData) dl" "owned (data_ptrs (tb_heap t)) dl"
    using m by (auto simp: table_mem_def)
  have e: "?e < 2 ^ 16" using m by (simp add: table_mem_def)
  have "unat (tb_esize t * 256) = ?e * 256" using e by (simp add: unat_word_ariths)
  then have size: "unat (ucast (tb_esize t * 256) :: u32) = ?e * 256" using e by (simp add: unat_ucast_u64_u32)
  have "tbk_data k \<in> dom dl" using owned_in [OF d(2), of p] p(2) by simp
  then have a: "dl (tbk_data k) = Some (?e * 256)"
    using d(1) m size by (auto simp: pool_holds_def table_mem_def pool_takes_def pool_live_def split: if_splits)
  note pe = pool_holds_end [OF d(1) a]
  have "tbk_data k + of_nat i * tb_esize t \<noteq> NULL" if i: "i < 256" for i
  proof
    assume z: "tbk_data k + of_nat i * tb_esize t = NULL"
    have i': "unat (of_nat i :: u64) = i" using i by (simp add: unsigned_of_nat take_bit_nat_eq_self)
    have le: "i * ?e \<le> 255 * ?e" using i by (intro mult_le_mono1) simp
    then have "i * ?e < 2 ^ LENGTH(64)" by (rule le_less_trans) (use e in simp)
    then have m: "unat (of_nat i * tb_esize t) = i * ?e"
      using i' unat_mult_lem [of "of_nat i" "tb_esize t", THEN iffD1] by simp
    have lt: "unat (tbk_data k) + i * ?e < 2 ^ 64" by (rule le_less_trans [OF _ pe(2)]) (use le in linarith)
    have "unat (tbk_data k + of_nat i * tb_esize t) = unat (tbk_data k) + i * ?e"
      unfolding m [symmetric] by (rule unat_add_no_wrap) (use lt m in simp)
    then have "unat (tbk_data k) = 0" unfolding z by simp
    then show False using pe(1) by (simp add: unat_eq_zero)
  qed
  moreover have "unat b < 2 ^ 24" using v p(1) unfolding table_view_def by blast
  ultimately show ?thesis using k by (auto simp: readable_def block_ok_def)
qed

text \<open>What clearing does to the bytes: the destructor runs on each enabled component, by ascending id.\<close>

definition clear_bytes :: "(ptr \<Rightarrow> bytes \<Rightarrow> bytes) \<Rightarrow> (u32 \<Rightarrow> ptr) \<Rightarrow> u32 set \<Rightarrow> u32 list \<Rightarrow> bytes \<Rightarrow> bytes" where
  "clear_bytes destr addr en bs = fold (\<lambda>b. fold (\<lambda>x. destr (addr x)) (enabled_from b en 0)) bs"

context steady_provider
begin

lemma table_clear_spec:
  assumes v: "table_view t xs ex en" and m: "table_mem alloc free S t (Ps \<circ> e)" and e: "inj e" and cl: "clients ainv st Ps"
    and room: "room st (Suc n)" and fuel: "length xs < fuel" and walk: "tb_destructor t \<noteq> NULL \<Longrightarrow> 0xffffff \<notin> blocks_of xs"
  shows "\<exists>t' st' Ps'. fdb_table_clear fuel call (t, st) w = Inr ((t', st'), if tb_destructor t \<noteq> NULL
      then clear_bytes (call (tb_destructor t)) (comp_addr (block_base t xs) (tb_esize t)) en (map fst xs) w else w) \<and>
    table_view t' [] {} {} \<and> table_mem alloc free S t' (Ps' \<circ> e) \<and> clients ainv st' Ps' \<and> room st' n \<and>
    tb_esize t' = tb_esize t \<and> tb_destructor t' = tb_destructor t \<and> tb_heap t' = Map.empty \<and> (\<forall>c. c \<notin> range e \<longrightarrow> Ps' c = Ps c)"
proof -
  have ne: "e x = e y \<longleftrightarrow> x = y" for x y using e by (auto dest: injD)
  have v1: "distinct (map snd xs)" "dom (tb_heap t) = snd ` set xs" "btree_holds (tb_blocks t) xs"
    and v2: "\<And>b p. (b, p) \<in> set xs \<Longrightarrow> p \<noteq> NULL \<and> unat b < 2 ^ 24 \<and>
      (\<exists>k. tb_heap t p = Some k \<and> block_ok b (tb_esize t) ex en k)"
    using v unfolding table_view_def by blast+
  obtain it where it: "fdb_table_iter_init t 1 0 1 = Inr it" "taiter_at (bt_nodes (tb_blocks t)) 1 0 1 it xs"
    using taiter_init [OF v1(3)] by blast
  have w: "\<exists>k. tb_heap t p = Some k \<and> (tb_destructor t \<noteq> NULL \<longrightarrow> walkable b (tb_esize t) en k)" if bp: "(b, p) \<in> set xs" for b p
  proof -
    obtain k where k: "tb_heap t p = Some k" "unat b < 2 ^ 24" using v2 [OF bp] by blast
    have "walkable b (tb_esize t) en k" if "tb_destructor t \<noteq> NULL"
    proof (unfold walkable_def, rule conjI [OF view_readable [OF v m bp k(1)]])
      have "b \<noteq> 0xffffff" using walk [OF that] bp by force
      then have "unat b \<noteq> unat (0xffffff :: u32)" by (simp add: word_unat_eq_iff)
      then show "unat b < 2 ^ 24 - 1" using k(2) by simp
    qed
    then show ?thesis using k(1) by blast
  qed
  from clear_blocks_spec [where call = call and w = w, OF it(2) table_view_blocks_ok [OF v] fuel m e cl v1(1,2) w]
  obtain t1 where c: "clear_blocks fuel call it (t, st) w = Inr ((t1, st), if tb_destructor t \<noteq> NULL
      then fold (\<lambda>(b, p). end_block (call (tb_destructor t)) en b (the (tb_heap t p))) xs w else w)"
    "table_mem alloc free S t1 (Ps \<circ> e)" "tb_heap t1 = Map.empty" "tb_blocks t1 = tb_blocks t"
    "tb_esize t1 = tb_esize t" "tb_destructor t1 = tb_destructor t" by blast
  let ?addr = "comp_addr (block_base t xs) (tb_esize t)"
  have eb: "end_block (call (tb_destructor t)) en b (the (tb_heap t p)) =
      fold (\<lambda>x. call (tb_destructor t) (?addr x)) (enabled_from b en 0)" if bp: "(b, p) \<in> set xs" for b p
  proof -
    obtain k where k: "tb_heap t p = Some k" "unat b < 2 ^ 24" "tbk_esize k = tb_esize t" using v2 [OF bp] by (auto simp: block_ok_def)
    have "te_data (entry_of k x) = ?addr x" if "x \<in> set (enabled_from b en 0)" for x
    proof -
      obtain i where "i < 256" "x = block_id b i" using \<open>x \<in> set (enabled_from b en 0)\<close> by (auto simp: enabled_from_def)
      then have "x div 256 = b" using block_id_parts(2) [OF k(2)] by simp
      then show ?thesis using base_present [OF v bp k(1)] k(3) by (simp add: entry_of_def comp_addr_def)
    qed
    then show ?thesis unfolding end_block_def k(1) option.sel by (intro ext fold_cong) simp_all
  qed
  have bytes: "fold (\<lambda>(b, p). end_block (call (tb_destructor t)) en b (the (tb_heap t p))) xs w =
      clear_bytes (call (tb_destructor t)) ?addr en (map fst xs) w"
    unfolding clear_bytes_def fold_map by (rule fold_cong) (use eb in \<open>auto simp: comp_def\<close>)
  have tree: "tree_client alloc free S (tb_blocks t1) (Ps (e CTree))" using c(2) by (simp add: table_mem_def)
  have hold: "btree_holds (tb_blocks t1) xs" using v1(3) c(4) by simp
  from client_clear [OF cl tree room hold] obtain b' st' P' where b: "fdb_btree_clear (tb_blocks t1, st) = Inr (b', st')"
    "btree_holds b' []" "room st' n" "clients ainv st' (Ps(e CTree := P'))" "tree_client alloc free S b' P'" by blast
  let ?t = "t1\<lparr>tb_blocks := b', tb_num_components := 0\<rparr>"
  have "fdb_table_clear fuel call (t, st) w = Inr ((?t, st'), if tb_destructor t \<noteq> NULL
      then clear_bytes (call (tb_destructor t)) ?addr en (map fst xs) w else w)"
    unfolding fdb_table_clear_def fst_conv it(1) bind_res.simps c(1) prod.case b(1) bytes by simp
  moreover have "table_view ?t [] {} {}" using b(2) c(3) by (simp add: table_view_def)
  moreover have "table_mem alloc free S ?t (Ps(e CTree := P') \<circ> e)"
    using c(2) b(5) ne by (simp add: table_mem_def comp_def)
  ultimately show ?thesis using b(3,4) c(3,5,6) by (intro exI [of _ ?t] exI [of _ st'] exI [of _ "Ps(e CTree := P')"]) auto
qed

end

section \<open>The last block\<close>

text \<open>The id 0xffffffff is invalid, but it is the last position of the last block: a loop over that
  block gets to it.\<close>

lemma last_id: "block_id 0xffffff 255 = FDB_INVALID_ID" "i < 255 \<Longrightarrow> id_ok (block_id 0xffffff i)"
proof -
  show "block_id 0xffffff 255 = FDB_INVALID_ID" by (simp add: block_id_def FDB_INVALID_ID_def)
  assume i: "i < 255"
  have "unat (block_id 0xffffff i) = unat (0xffffff :: u32) * 256 + i" by (rule block_id_parts(1)) (use i in simp_all)
  then have "unat (block_id 0xffffff i) \<noteq> unat FDB_INVALID_ID" using i by (simp add: FDB_INVALID_ID_def)
  then show "id_ok (block_id 0xffffff i)" by (auto simp: id_ok_def)
qed

lemma skip_last:
  assumes k: "readable 0xffffff esize en k" and n: "n \<le> 255"
  shows "tblock_skip k (of_nat n) = Inl AssertFail \<or>
    (\<exists>m. tblock_skip k (of_nat n) = Inr (of_nat m) \<and> n \<le> m \<and> m < 255 \<and> block_id 0xffffff m \<in> en)"
  using n
proof (induction "255 - n" arbitrary: n)
  case 0
  then have n: "n = 255" by simp
  have "tbk_start k + of_nat 255 = block_id 0xffffff 255" using k by (simp add: readable_def block_id_def)
  then have "fdb_table_block_has_component k (tbk_start k + 255) = Inl AssertFail"
    unfolding last_id(1) by (simp add: fdb_table_block_has_component_def)
  then show ?case unfolding n by (subst tblock_skip.simps) (simp add: FDB_TABLE_BLOCK_SIZE_def)
next
  case (Suc j)
  then have n: "n < 255" by simp
  have j: "j = 255 - Suc n" "Suc n \<le> 255" using Suc.hyps(2) n by simp_all
  note step = skip_step [OF k _ last_id(2) [OF n]]
  show ?case
  proof (cases "block_id 0xffffff n \<in> en")
    case True
    then show ?thesis using step n by auto
  next
    case False
    then show ?thesis using Suc.hyps(1) [OF j] step n by (auto dest: Suc_leD)
  qed
qed

lemma walk_last:
  assumes k: "readable 0xffffff esize en k" and p: "tblock_at h p = Inr k" "p \<noteq> NULL"
    and m: "m < 255" "block_id 0xffffff m \<in> en" "256 - m \<le> fuel"
  shows "tblock_walk fuel h \<lparr>ti_block = p, ti_next_position = of_nat m\<rparr> = Inl AssertFail"
  using m
proof (induction "255 - m" arbitrary: m fuel rule: less_induct)
  case less
  obtain f where f: "fuel = Suc f" using less.prems(1,3) by (cases fuel) auto
  let ?it = "\<lparr>ti_block = p, ti_next_position = of_nat m :: u32\<rparr>"
  have start: "tbk_start k + of_nat m = block_id 0xffffff m" using k by (simp add: readable_def block_id_def)
  have more: "fdb_tblock_iter_has_next ?it"
    using of_nat_lt_256 [of m] less.prems(1) p(2) by (simp add: fdb_tblock_iter_has_next_def FDB_TABLE_BLOCK_SIZE_def)
  have get: "fdb_table_block_get_component k (block_id 0xffffff m) = Inr (entry_of k (block_id 0xffffff m))"
    using block_get_component [OF k _ last_id(2) [OF less.prems(1)]] less.prems(1,2) by simp
  have nx: "fdb_tblock_iter_next h ?it = bind_res (tblock_skip k (of_nat (Suc m)))
      (\<lambda>pos. Inr (entry_of k (block_id 0xffffff m), \<lparr>ti_block = p, ti_next_position = pos\<rparr>))"
    using p(1) start get by (simp add: fdb_tblock_iter_next_def add.commute)
  have "Suc m \<le> 255" using less.prems(1) by simp
  from skip_last [OF k this] consider "tblock_skip k (of_nat (Suc m)) = Inl AssertFail" |
    m' where "tblock_skip k (of_nat (Suc m)) = Inr (of_nat m')" "Suc m \<le> m'" "m' < 255" "block_id 0xffffff m' \<in> en" by blast
  then show ?case
  proof cases
    case 1
    then show ?thesis using f more nx by simp
  next
    case 2
    have "tblock_walk f h \<lparr>ti_block = p, ti_next_position = of_nat m'\<rparr> = Inl AssertFail"
      by (rule less.hyps) (use 2 less.prems f in simp_all)
    then show ?thesis using f more nx 2 by simp
  qed
qed

section \<open>Properties\<close>

text \<open>C20: Iterating over a block of a table delivers, in ascending order of their ids, exactly the
  enabled components whose ids belong to the block, each with its id and the address that
  \<open>fdb_table_get_component\<close> gives; this holds for every block but the last.\<close>

theorem tblock_iter_lists_enabled:
  assumes v: "table_view t xs ex en" and m: "table_mem alloc free S t Ps" and p: "(b, p) \<in> set xs" and b: "b \<noteq> 0xffffff"
  shows "bind_res (fdb_tblock_iter_init (tb_heap t) p) (tblock_walk TB_FUEL (tb_heap t)) =
    Inr (map (\<lambda>x. \<lparr>te_id = x, te_data = comp_addr (block_base t xs) (tb_esize t) x, te_enabled = True\<rparr>)
      (filter (\<lambda>x. x \<in> en) (map (\<lambda>i. b * 256 + of_nat i) [0..<256])))"
proof -
  have v2: "p \<noteq> NULL \<and> unat b < 2 ^ 24 \<and> (\<exists>k. tb_heap t p = Some k \<and> block_ok b (tb_esize t) ex en k)"
    using v p unfolding table_view_def by blast
  then obtain k where k: "tb_heap t p = Some k" "tbk_esize k = tb_esize t" by (auto simp: block_ok_def)
  have "unat b \<noteq> unat (0xffffff :: u32)" using b by (simp add: word_unat_eq_iff)
  then have lt: "unat b < 2 ^ 24 - 1" "unat b < 2 ^ 24" using v2 by simp_all
  have w: "walkable b (tb_esize t) en k" unfolding walkable_def using view_readable [OF v m p k(1)] lt(1) by blast
  have at: "tblock_at (tb_heap t) p = Inr k" "p \<noteq> NULL" using k v2 by (simp_all add: tblock_at_def)
  obtain it where it: "fdb_tblock_iter_init (tb_heap t) p = Inr it" "titer_at b en p it (enabled_from b en 0)"
    using titer_init [OF w at] by blast
  have "length (enabled_from b en 0) < TB_FUEL" using length_enabled_from [of b en 0] by (simp add: TB_FUEL_def)
  from walk_block(1) [OF w at it(2) this]
  have "bind_res (fdb_tblock_iter_init (tb_heap t) p) (tblock_walk TB_FUEL (tb_heap t)) = Inr (map (entry_of k) (enabled_from b en 0))"
    using it(1) by simp
  moreover have "entry_of k x = \<lparr>te_id = x, te_data = comp_addr (block_base t xs) (tb_esize t) x, te_enabled = True\<rparr>"
    if "x \<in> set (enabled_from b en 0)" for x
  proof -
    obtain i where "i < 256" "x = block_id b i"
      using \<open>x \<in> set (enabled_from b en 0)\<close> by (auto simp: enabled_from_def)
    then have "x div 256 = b" using block_id_parts(2) [OF lt(2)] by simp
    then show ?thesis using base_present [OF v p k(1)] k(2) by (simp add: entry_of_def comp_addr_def)
  qed
  moreover have "enabled_from b en 0 = filter (\<lambda>x. x \<in> en) (map (\<lambda>i. b * 256 + of_nat i) [0..<256])"
    unfolding enabled_from_def block_id_def by (rule refl)
  ultimately show ?thesis by (metis (no_types, lifting) map_cong)
qed

text \<open>C16: Several threads can iterate over a table at the same time, each with its own offset below
  the stride: the iterator with offset \<open>off\<close> delivers, by ascending block id, exactly the blocks
  that \<open>block_get_offset\<close> assigns to \<open>off\<close>, and that function assigns every block to exactly one
  offset, so that together the threads see every block once.\<close>

theorem table_iter_partition:
  assumes v: "table_view t xs ex en" and ok: "schedule_ok cs off stride" and fuel: "length xs < fuel"
  shows "bind_res (fdb_table_iter_init t cs off stride) (table_walk fuel t) =
      Inr (map snd (filter (\<lambda>(b, p). block_get_offset b cs stride = Inr off) xs)) \<and>
    (\<forall>b. \<exists>!i. unat i < unat stride \<and> block_get_offset b cs stride = Inr i)"
proof
  have h: "btree_holds (tb_blocks t) xs" using v by (simp add: table_view_def)
  obtain it where it: "fdb_table_iter_init t cs off stride = Inr it" "taiter_at (bt_nodes (tb_blocks t)) cs off stride it xs"
    using taiter_init [OF h] by blast
  have m: "mine cs off stride = (\<lambda>(b, p). block_get_offset b cs stride = Inr off)" by (auto simp: mine_def fun_eq_iff)
  show "bind_res (fdb_table_iter_init t cs off stride) (table_walk fuel t) =
      Inr (map snd (filter (\<lambda>(b, p). block_get_offset b cs stride = Inr off) xs))"
    using it(1) walk_table [OF ok it(2) table_view_blocks_ok [OF v] fuel] unfolding m by simp
  have nz: "cs \<noteq> 0" "stride \<noteq> 0" using ok by (auto simp: schedule_ok_def)
  then have "block_get_offset b cs stride = Inr (b div cs mod stride)" for b by (simp add: block_get_offset_def)
  moreover have "unat (b div cs mod stride) < unat stride" for b
    using ok by (simp add: schedule_ok_def unat_mod)
  ultimately show "\<forall>b. \<exists>!i. unat i < unat stride \<and> block_get_offset b cs stride = Inr i" by auto
qed

text \<open>C21: Clearing a table runs the destructor, if there is one, on every enabled component by
  ascending id, gives the memory of every block back to the pools, and leaves an empty table
  that can be used again; the table must not have the last block when it has a destructor.
  (Components that are disabled are dropped without their destructor.)\<close>

theorem table_clear_empties:
  fixes e :: "table_client \<Rightarrow> 'c"
  assumes v: "table_view t xs ex en" and m: "table_mem fdb_page_alloc_alloc fdb_page_alloc_free S t (Ps \<circ> e)"
    and e: "inj e" and cl: "clients (page_steady S) pg Ps" and room: "page_room pg (Suc n)" and fuel: "length xs < fuel"
    and walk: "tb_destructor t \<noteq> NULL \<Longrightarrow> 0xffffff \<notin> blocks_of xs"
  shows "\<exists>t' pg' Ps'. fdb_table_clear fuel call (t, pg) w = Inr ((t', pg'), if tb_destructor t \<noteq> NULL
      then clear_bytes (call (tb_destructor t)) (comp_addr (block_base t xs) (tb_esize t)) en (map fst xs) w else w) \<and>
    tb_heap t' = Map.empty \<and> table_state fdb_page_alloc_alloc fdb_page_alloc_free (page_steady S) S e ((t', pg'), w') Ps' Map.empty (no_sets w') \<and>
    page_room pg' n"
proof -
  from steady_page.table_clear_spec [where call = call and w = w and S = S, OF v m e cl room fuel walk]
  obtain t' pg' Ps' where r: "fdb_table_clear fuel call (t, pg) w = Inr ((t', pg'), if tb_destructor t \<noteq> NULL
      then clear_bytes (call (tb_destructor t)) (comp_addr (block_base t xs) (tb_esize t)) en (map fst xs) w else w)"
    "table_view t' [] {} {}" "table_mem fdb_page_alloc_alloc fdb_page_alloc_free S t' (Ps' \<circ> e)" "clients (page_steady S) pg' Ps'"
    "page_room pg' n" "tb_heap t' = Map.empty" by blast
  have "block_base t' [] = Map.empty" by (simp add: block_base_def fun_eq_iff)
  then have "table_state fdb_page_alloc_alloc fdb_page_alloc_free (page_steady S) S e ((t', pg'), w') Ps' Map.empty (no_sets w')"
    unfolding table_state_def prod.case using r(2-4) by (intro exI [of _ "[]"]) (simp add: no_sets_def)
  then show ?thesis using r(1,5,6) by blast
qed

text \<open>The last block of the id space cannot be iterated: the loop over its components fails the
  assertion \<open>id != FDB_INVALID_ID\<close> when it comes to position 255, although every id below is
  valid and can be created.\<close>

theorem tblock_iter_last_block_aborts:
  assumes v: "table_view t xs ex en" and m: "table_mem alloc free S t Ps" and p: "(0xffffff, p) \<in> set xs"
  shows "bind_res (fdb_tblock_iter_init (tb_heap t) p) (tblock_walk TB_FUEL (tb_heap t)) = Inl AssertFail"
proof -
  obtain k where k: "p \<noteq> NULL" "tb_heap t p = Some k" using v p unfolding table_view_def by blast
  have r: "readable 0xffffff (tb_esize t) en k" by (rule view_readable [OF v m p k(2)])
  have at: "tblock_at (tb_heap t) p = Inr k" using k by (simp add: tblock_at_def)
  from skip_last [OF r, of 0] consider "tblock_skip k 0 = Inl AssertFail" |
    i where "tblock_skip k 0 = Inr (of_nat i)" "i < 255" "block_id 0xffffff i \<in> en" by auto
  then show ?thesis
  proof cases
    case 1
    then show ?thesis using at k(1) by (simp add: fdb_tblock_iter_init_def)
  next
    case 2
    have "tblock_walk TB_FUEL (tb_heap t) \<lparr>ti_block = p, ti_next_position = of_nat i\<rparr> = Inl AssertFail"
      by (rule walk_last [OF r at k(1) 2(2,3)]) (simp add: TB_FUEL_def)
    then show ?thesis using 2(1) at k(1) by (simp add: fdb_tblock_iter_init_def)
  qed
qed

text \<open>A pool whose blocks take more than half of a page: the first request cuts the block behind the
  grow offset of a second page, and the block ends outside it.\<close>

lemma pool_first_too_large:
  assumes "pl_first_free pa = NULL" "pl_first_chunk pa = NULL" "\<not> pl_grow_offset pa + pl_block_size pa \<le> pl_page_size pa"
    and "mem_alloc (pl_allocator pa) st (ucast (pl_alignment pa)) (ucast (pl_page_size pa)) h = (c1, st1)"
    and "mem_alloc (pl_allocator pa) st1 (ucast (pl_alignment pa)) (ucast (pl_page_size pa)) h = (c2, st2)"
  shows "\<exists>pa'. fdb_pool_alloc_alloc (pa, st) al sz h = (c2 + pl_grow_offset pa, (pa', st2))"
  using assms by (simp add: fdb_pool_alloc_alloc_def)

text \<open>C22: The pages for component data have 64 KB, room for a header and 256 components of up to 128
  bytes. \<open>fdb_table_init\<close> accepts larger components (the check is an FDB_ASSERT, compiled out by
  default); then the storage of the first block of the table begins inside a page that the
  parent handed out, but its 256 components do not fit into the rest of that page.\<close>

theorem table_block_overrun:
  assumes t: "fdb_table_init name i esize destr a g hdr st = Inr (t, st')" and e: "128 < unat esize" "unat esize < 2 ^ 15"
    and c: "mem_alloc (case a of Some a \<Rightarrow> a | None \<Rightarrow> g) st1 64 65536 h = (c1, st2)"
      "mem_alloc (case a of Some a \<Rightarrow> a | None \<Rightarrow> g) st2 64 65536 h = (c2, st3)"
    and fit: "unat c2 + 65536 < 2 ^ 63"
  shows "\<exists>d t'. mem_alloc table_data_super (t, st1) 64 (ucast (esize * 256)) h = (d, (t', st3)) \<and>
    unat c2 \<le> unat d \<and> unat c2 + 65536 < unat d + 256 * unat esize"
proof -
  obtain pa where tp: "tb_data_allocator t = pa" by simp
  let ?sz = "ucast (esize * 256) :: u32"
  have e256: "unat (esize * 256) = unat esize * 256" using e by (simp add: unat_word_ariths)
  then have sz: "unat ?sz = unat esize * 256" using e by (simp add: unat_ucast_u64_u32)
  have init: "fdb_pool_alloc_init 64 ?sz 65536 (Some (case a of Some a \<Rightarrow> a | None \<Rightarrow> g)) g hdr = Inr pa"
    using t tp by (auto simp: fdb_table_init_def res_simps table_consts Let_def split: if_splits prod.splits)
  have A: "init_alignment 64 = 64" by (simp add: init_alignment_def FDB_MIN_ALIGNMENT_def)
  have B: "unat (init_block_size ?sz) = unat esize * 256" unfolding unat_init_block_size sz using e by simp
  have small: "unat (init_block_size ?sz) + unat (64 :: u64) < 4294967296" using B e by simp
  have G: "unat ((init_block_size ?sz + 64 - 1) div 64 * 64) = unat esize * 256"
    by (subst unat_round_up [OF _ small]) (simp_all add: B)
  have g8: "(if 8 \<le> init_block_size ?sz then init_block_size ?sz else 8) = init_block_size ?sz"
    using B e by (auto simp: word_le_nat_alt)
  have f: "pl_first_free pa = NULL" "pl_first_chunk pa = NULL" "pl_alignment pa = 64" "pl_page_size pa = 65536"
    "pl_allocator pa = (case a of Some a \<Rightarrow> a | None \<Rightarrow> g)" "pl_block_size pa = init_block_size ?sz"
    "pl_grow_offset pa = (init_block_size ?sz + 64 - 1) div 64 * 64"
    using init unfolding fdb_pool_alloc_init_def Let_def init_alignment_def [symmetric] init_block_size_def [symmetric] g8 A
    by (auto split: if_splits)
  have u: "unat (pl_grow_offset pa) = unat esize * 256" "unat (pl_block_size pa) = unat esize * 256" using G B f(6,7) by simp_all
  have "unat (pl_grow_offset pa + pl_block_size pa) = unat esize * 512" using u e by (simp add: unat_word_ariths)
  then have "\<not> pl_grow_offset pa + pl_block_size pa \<le> pl_page_size pa" using e f(4) by (simp add: word_le_nat_alt)
  then obtain pa' where r: "fdb_pool_alloc_alloc (pa, st1) 64 ?sz h = (c2 + pl_grow_offset pa, (pa', st3))"
    using pool_first_too_large [OF f(1,2), of st1 h c1 st2 c2 st3] c f(3-5) by auto
  have "unat (c2 + pl_grow_offset pa) = unat c2 + unat esize * 256"
    unfolding u(1) [symmetric] by (rule unat_add_no_wrap) (use u fit e in simp)
  then show ?thesis using r e
    by (intro exI [of _ "c2 + pl_grow_offset pa"] exI [of _ "t\<lparr>tb_data_allocator := pa'\<rparr>"])
      (simp add: tp table_data_super_def mem_alloc_def fdb_pool_alloc_super_def)
qed

section \<open>Examples\<close>

text \<open>A table of 12-byte components with a destructor at address 5, holding the given ids.\<close>

lemma demo_table:
  assumes ids: "\<forall>i\<in>{x, y}. id_ok i"
  shows "\<exists>t pg Ps xs. table_view t xs {y, x} {y, x} \<and> table_mem fdb_page_alloc_alloc fdb_page_alloc_free (page_serves demo_db_page) t (Ps \<circ> id) \<and>
    clients (page_steady (page_serves demo_db_page)) pg Ps \<and> page_room pg 50 \<and> blocks_of xs = {y div 256, x div 256} \<and>
    tb_esize t = 12 \<and> tb_destructor t = 5"
proof -
  let ?S = "page_serves demo_db_page"
  have cl: "clients (page_steady ?S) demo_db_page (\<lambda>_ :: table_client. Map.empty)"
    by (rule clients_start) (use demo_db_page_inv(1) in auto)
  have room: "page_room demo_db_page (Suc 99)" using demo_db_page_inv(2) by (simp del: One_nat_def)
  have sz: "length ''pos'' < 256" "1 \<le> unat (12 :: u64)" "unat (12 :: u64) \<le> 127" by simp_all
  from steady_page.table_init_spec [where a = "Some fdb_page_alloc_super" and g = fdb_page_alloc_super and hdr = "\<lambda>_. 0" and e = id
      and destr = 5 and i = 7, OF _ _ cl _ _ room demo_db_page_inv(3,4) sz]
  obtain t pg Ps where t: "table_view t [] {} {}" "table_mem fdb_page_alloc_alloc fdb_page_alloc_free ?S t (Ps \<circ> id)"
    "clients (page_steady ?S) pg Ps" "page_room pg 99" "tb_esize t = 12" "tb_destructor t = 5"
    by (auto simp: fdb_page_alloc_super_def)
  have r1: "page_room pg (20 + 79)" using t(4) by simp
  have ix: "id_ok x" "id_ok y" using ids by simp_all
  from steady_page.create_component_spec [OF t(1,2) inj_on_id t(3) r1 ix(1)] obtain t1 pg1 xs1 Ps1 where
    t1: "table_view t1 xs1 {x} {x}" "blocks_of xs1 = insert (x div 256) (blocks_of [])"
      "table_mem fdb_page_alloc_alloc fdb_page_alloc_free ?S t1 (Ps1 \<circ> id)" "clients (page_steady ?S) pg1 Ps1" "page_room pg1 79"
      "tb_esize t1 = tb_esize t" "tb_destructor t1 = tb_destructor t" by blast
  have r2: "page_room pg1 (20 + 59)" using t1(5) by simp
  from steady_page.create_component_spec [OF t1(1,3) inj_on_id t1(4) r2 ix(2)] obtain t2 pg2 xs2 Ps2 where
    t2: "table_view t2 xs2 {y, x} {y, x}" "blocks_of xs2 = insert (y div 256) (blocks_of xs1)"
      "table_mem fdb_page_alloc_alloc fdb_page_alloc_free ?S t2 (Ps2 \<circ> id)" "clients (page_steady ?S) pg2 Ps2" "page_room pg2 59"
      "tb_esize t2 = tb_esize t1" "tb_destructor t2 = tb_destructor t1" by blast
  have "page_room pg2 50" by (rule steady_page.room_le [OF t2(5)]) simp
  then show ?thesis using t(5,6) t1(2,6,7) t2 by (intro exI [of _ t2] exI [of _ pg2] exI [of _ Ps2] exI [of _ xs2]) simp
qed

lemma entries_two:
  assumes "ascending xs" "fst ` set xs = {a, b}" "a < b"
  obtains p q where "xs = [(a, p), (b, q)]"
proof -
  have "map fst xs = sorted_list_of_set {a, b}"
    using assms(1,2) by (metis list.set_map sorted_list_of_set.idem_if_sorted_distinct strict_sorted_iff)
  also have "sorted_list_of_set (set [a, b]) = [a, b]"
    by (rule sorted_list_of_set.idem_if_sorted_distinct) (use assms(3) in auto)
  then have "sorted_list_of_set {a, b} = [a, b]" by simp
  finally show thesis using that by (cases xs; cases "tl xs") auto
qed

theorem tblock_iter_lists_enabled_witness:
  "\<exists>(t :: fdb_page_alloc_t fdb_table_t) p a b. bind_res (fdb_tblock_iter_init (tb_heap t) p) (tblock_walk TB_FUEL (tb_heap t)) =
    Inr [\<lparr>te_id = 3, te_data = a, te_enabled = True\<rparr>, \<lparr>te_id = 200, te_data = b, te_enabled = True\<rparr>]"
proof -
  have "\<forall>i\<in>{200, 3 :: u32}. id_ok i" by (simp add: id_ok_def FDB_INVALID_ID_def)
  from demo_table [OF this] obtain t :: "fdb_page_alloc_t fdb_table_t" and Ps xs where
    t: "table_view t xs {3, 200} {3, 200}" "table_mem fdb_page_alloc_alloc fdb_page_alloc_free (page_serves demo_db_page) t (Ps \<circ> id)"
      "blocks_of xs = {0}" by auto
  then obtain p where p: "(0, p) \<in> set xs" by (metis (no_types, lifting) image_iff prod.collapse singletonI)
  have "filter (\<lambda>x. x \<in> {3, 200}) (map (\<lambda>i. 0 * 256 + of_nat i) [0..<256]) = [3, 200 :: u32]" by code_simp
  then show ?thesis using tblock_iter_lists_enabled [OF t(1,2) p] by auto
qed

theorem table_iter_partition_witness:
  "\<exists>(t :: fdb_page_alloc_t fdb_table_t) p q.
    bind_res (fdb_table_iter_init t 1 0 2) (table_walk 3 t) = Inr [p] \<and>
    bind_res (fdb_table_iter_init t 1 1 2) (table_walk 3 t) = Inr [q]"
proof -
  have "\<forall>i\<in>{300, 3 :: u32}. id_ok i" by (simp add: id_ok_def FDB_INVALID_ID_def)
  from demo_table [OF this] obtain t :: "fdb_page_alloc_t fdb_table_t" and xs where
    t: "table_view t xs {3, 300} {3, 300}" "blocks_of xs = {0, 1}" by auto
  obtain p q where xs: "xs = [(0, p), (1, q)]" using entries_two [OF table_view_ascending [OF t(1)] t(2)] by auto
  have ok: "schedule_ok 1 0 2" "schedule_ok 1 1 2" "length xs < 3" by (simp_all add: schedule_ok_def xs)
  have "block_get_offset 0 1 2 = Inr 0" "block_get_offset 1 1 2 = Inr 1" by (simp_all add: block_get_offset_def)
  then show ?thesis using table_iter_partition [OF t(1) ok(1,3)] table_iter_partition [OF t(1) ok(2,3)] unfolding xs by auto
qed

theorem table_clear_empties_witness:
  "\<exists>(t :: fdb_page_alloc_t fdb_table_t) pg t' a b.
    fdb_table_clear 3 (\<lambda>f p w. w(p := w p + 1)) (t, pg) (\<lambda>_. 0) = Inr (t', (\<lambda>_. 0)(a := 1, b := 1)) \<and> a \<noteq> b"
proof -
  have "\<forall>i\<in>{300, 3 :: u32}. id_ok i" by (simp add: id_ok_def FDB_INVALID_ID_def)
  from demo_table [OF this] obtain t :: "fdb_page_alloc_t fdb_table_t" and pg Ps xs where
    t: "table_view t xs {3, 300} {3, 300}" "table_mem fdb_page_alloc_alloc fdb_page_alloc_free (page_serves demo_db_page) t (Ps \<circ> id)"
      "clients (page_steady (page_serves demo_db_page)) pg Ps" "page_room pg 50" "blocks_of xs = {0, 1}" "tb_esize t = 12" "tb_destructor t = 5"
    by auto
  obtain p q where xs: "xs = [(0, p), (1, q)]" using entries_two [OF table_view_ascending [OF t(1)] t(5)] by auto
  have r: "page_room pg (Suc 49)" "length xs < 3" "0xffffff \<notin> blocks_of xs" using t(4,5) xs by simp_all
  let ?addr = "comp_addr (block_base t xs) (tb_esize t)"
  have "apart (?addr 3) (unat (tb_esize t)) (?addr 300) (unat (tb_esize t))"
    by (rule comp_addr_apart [OF t(1,2)]) (simp_all add: t(5))
  then have ne: "?addr 3 \<noteq> ?addr 300" by (auto simp: apart_def t(6))
  have e: "enabled_from 0 {3, 300} 0 = [3]" "enabled_from 1 {3, 300} 0 = [300]" by (code_simp, code_simp)
  have bytes: "clear_bytes (\<lambda>p w. w(p := w p + 1)) ?addr {3, 300} (map fst xs) (\<lambda>_. 0) = (\<lambda>_. 0)(?addr 3 := 1, ?addr 300 := 1)"
    using ne by (simp add: clear_bytes_def xs e)
  from table_clear_empties [where call = "\<lambda>f p w. w(p := w p + 1)" and w = "\<lambda>_. 0", OF t(1,2) inj_on_id t(3) r(1,2) r(3)]
  obtain t' pg' where c: "fdb_table_clear 3 (\<lambda>f p w. w(p := w p + 1)) (t, pg) (\<lambda>_. 0) = Inr ((t', pg'), if tb_destructor t \<noteq> NULL
      then clear_bytes (\<lambda>p w. w(p := w p + 1)) ?addr {3, 300} (map fst xs) (\<lambda>_. 0) else (\<lambda>_. 0))" by blast
  show ?thesis
    by (rule exI [of _ t], rule exI [of _ pg], rule exI [of _ "(t', pg')"], rule exI [of _ "?addr 3"], rule exI [of _ "?addr 300"])
      (use c ne in \<open>simp only: t(7) bytes\<close>, simp)
qed

theorem tblock_iter_last_block_aborts_witness:
  "\<exists>(t :: fdb_page_alloc_t fdb_table_t) p.
    bind_res (fdb_tblock_iter_init (tb_heap t) p) (tblock_walk TB_FUEL (tb_heap t)) = Inl AssertFail"
proof -
  have "\<forall>i\<in>{0xffffff05, 3 :: u32}. id_ok i" by (simp add: id_ok_def FDB_INVALID_ID_def)
  from demo_table [OF this] obtain t :: "fdb_page_alloc_t fdb_table_t" and Ps xs where
    t: "table_view t xs {3, 0xffffff05} {3, 0xffffff05}"
      "table_mem fdb_page_alloc_alloc fdb_page_alloc_free (page_serves demo_db_page) t (Ps \<circ> id)" "blocks_of xs = {0, 0xffffff}" by auto
  then have "0xffffff \<in> blocks_of xs" by simp
  then obtain p where p: "(0xffffff, p) \<in> set xs" by auto
  show ?thesis using tblock_iter_last_block_aborts [OF t(1,2) p] by blast
qed

theorem table_block_overrun_witness:
  "\<exists>(t :: unit fdb_table_t) d t'. mem_alloc table_data_super (t, ()) 64 (200 * 256) 0 = (d, (t', ())) \<and> 65536 + 65536 < unat d + 256 * 200"
proof -
  let ?pool = "\<lambda>t :: unit fdb_table_t. True"
  obtain t where t: "fdb_table_init ''big'' 1 200 0 (Some demo_db_heap) demo_db_heap (\<lambda>_. 0) () = Inr (t, ())"
    by (simp add: fdb_table_init_def FDB_MAX_TABLE_NAME_def table_consts FDB_BITMAP_NUM_CHUNKS_def fdb_pool_alloc_init_def FDB_MIN_ALIGNMENT_def
        fdb_btree_init_def FDB_BTREE_ALIGNMENT_def FDB_BTREE_PAGE_SIZE_def sizeof_node_def fdb_btree_create_internal_def create_node_def
        fdb_pool_alloc_alloc_def mem_alloc_def demo_db_heap_def Let_def)
  show ?thesis
    using table_block_overrun [OF t, of "()" 0 65536 "()" 65536 "()"] by (auto simp: mem_alloc_def demo_db_heap_def)
qed

end
