(* ===== verification/BlockCluster.thy ===== *)
theory BlockCluster
  imports TableIter
begin

text \<open>
  src/src/runtime/data/block\_cluster.c and block\_cluster.h: the blocks of several tables for one
  range of ids, and pointers to globals, joined in one structure. The block cluster stands for a
  list of columns, the start of the range and the set of positions enabled in all the blocks;
  appending and filtering refine list append and set intersection. The last property composes it
  with the tables: a position is enabled in the cluster exactly when the id is enabled in each table.
\<close>

section \<open>State and operations\<close>

definition FDB_INVALID_BLOCK_START :: u32 where "FDB_INVALID_BLOCK_START = 0xffffffff"
definition FDB_MAX_CLUSTER_SIZE :: u32 where "FDB_MAX_CLUSTER_SIZE = 16"

record fdb_bcluster_t =
  bc_num_columns :: u32
  bc_enabled :: fdb_bitmap_t
  bc_global :: fdb_bitmap_t
  bc_start :: u32
  bc_blocks :: "ptr list"

definition fdb_bcluster_init ::
  "'st fdb_mem_allocator_t option \<Rightarrow> 'st fdb_mem_allocator_t \<Rightarrow> 'st \<Rightarrow> (fdb_bcluster_t \<times> 'st) res" where
  "fdb_bcluster_init allocator gallocator st =
     (let al = (case allocator of Some a \<Rightarrow> a | None \<Rightarrow> gallocator) in
      bind_res (fdb_bitmap_init FDB_TABLE_BLOCK_SIZE al st) (\<lambda>(enabled, st).
      bind_res (fdb_bitmap_init FDB_MAX_CLUSTER_SIZE al st) (\<lambda>(global, st).
      Inr (\<lparr>bc_num_columns = 0, bc_enabled = enabled, bc_global = global,
            bc_start = FDB_INVALID_BLOCK_START, bc_blocks = replicate (unat FDB_MAX_CLUSTER_SIZE) NULL\<rparr>, st))))"

definition fdb_bcluster_release ::
  "fdb_bcluster_t \<Rightarrow> 'st fdb_mem_allocator_t option \<Rightarrow> 'st fdb_mem_allocator_t \<Rightarrow> 'st \<Rightarrow> 'st" where
  "fdb_bcluster_release bc allocator gallocator st =
     (let al = (case allocator of Some a \<Rightarrow> a | None \<Rightarrow> gallocator)
      in fdb_bitmap_release (bc_global bc) al (fdb_bitmap_release (bc_enabled bc) al st))"

definition fdb_bcluster_append_block ::
  "(ptr \<rightharpoonup> fdb_table_block_t) \<Rightarrow> fdb_bcluster_t \<Rightarrow> ptr \<Rightarrow> fdb_bcluster_t res" where
  "fdb_bcluster_append_block h bc p =
     bind_res (tblock_at h p) (\<lambda>block.
     bind_res (if bc_start bc = FDB_INVALID_BLOCK_START then
         bind_res (fdb_bitmap_set_bitmap (bc_enabled bc) (tbk_enabled block)) (\<lambda>en.
         Inr (bc\<lparr>bc_start := tbk_start block, bc_enabled := en\<rparr>))
       else Inr bc) (\<lambda>bc.
     bind_res (wr (bc_blocks bc) (unat (bc_num_columns bc)) p) (\<lambda>bs.
     bind_res (fdb_bitmap_set_and (bc_enabled bc) (tbk_enabled block)) (\<lambda>en.
     Inr (bc\<lparr>bc_blocks := bs, bc_num_columns := bc_num_columns bc + 1, bc_enabled := en\<rparr>)))))"

definition fdb_bcluster_append_global :: "fdb_bcluster_t \<Rightarrow> ptr \<Rightarrow> fdb_bcluster_t res" where
  "fdb_bcluster_append_global bc p =
     bind_res (fdb_bitmap_set (bc_global bc) (bc_num_columns bc)) (\<lambda>gl.
     bind_res (wr (bc_blocks bc) (unat (bc_num_columns bc)) p) (\<lambda>bs.
     Inr (bc\<lparr>bc_global := gl, bc_blocks := bs, bc_num_columns := bc_num_columns bc + 1\<rparr>)))"

text \<open>The loop of \<open>append_cluster\<close> over the columns of the other cluster.\<close>

fun append_columns :: "fdb_bcluster_t \<Rightarrow> nat list \<Rightarrow> fdb_bcluster_t \<Rightarrow> fdb_bcluster_t res" where
  "append_columns other [] bc = Inr bc"
| "append_columns other (i # js) bc =
     bind_res (rd (bc_blocks other) i) (\<lambda>p.
     bind_res (wr (bc_blocks bc) (unat (bc_num_columns bc)) p) (\<lambda>bs.
     bind_res (fdb_bitmap_is_set (bc_global other) (of_nat i)) (\<lambda>g.
     bind_res (if g then fdb_bitmap_set (bc_global bc) (bc_num_columns bc) else Inr (bc_global bc)) (\<lambda>gl.
     append_columns other js
       (bc\<lparr>bc_blocks := bs, bc_global := gl, bc_num_columns := bc_num_columns bc + 1\<rparr>)))))"

definition fdb_bcluster_append_cluster :: "fdb_bcluster_t \<Rightarrow> fdb_bcluster_t \<Rightarrow> fdb_bcluster_t res" where
  "fdb_bcluster_append_cluster bc other =
     bind_res (if bc_start other \<noteq> FDB_INVALID_BLOCK_START then
         bind_res (if bc_start bc = FDB_INVALID_BLOCK_START
           then fdb_bitmap_set_bitmap (bc_enabled bc) (bc_enabled other)
           else fdb_bitmap_set_and (bc_enabled bc) (bc_enabled other)) (\<lambda>en.
         Inr (bc\<lparr>bc_enabled := en, bc_start := bc_start other\<rparr>))
       else Inr bc) (\<lambda>bc.
     append_columns other [0..<unat (bc_num_columns other)] bc)"

definition fdb_bcluster_filter :: "fdb_bcluster_t \<Rightarrow> fdb_bcluster_t \<Rightarrow> fdb_bcluster_t res" where
  "fdb_bcluster_filter bc other =
     bind_res (fdb_bitmap_set_and (bc_enabled bc) (bc_enabled other)) (\<lambda>en. Inr (bc\<lparr>bc_enabled := en\<rparr>))"

definition fdb_bcluster_get_tblock :: "fdb_bcluster_t \<Rightarrow> u32 \<Rightarrow> ptr res" where
  "fdb_bcluster_get_tblock bc index = rd (bc_blocks bc) (unat index)"

definition fdb_bcluster_get_global :: "fdb_bcluster_t \<Rightarrow> u32 \<Rightarrow> ptr res" where
  "fdb_bcluster_get_global bc index = rd (bc_blocks bc) (unat index)"

definition fdb_bcluster_has_elements :: "fdb_bcluster_t \<Rightarrow> bool res" where
  "fdb_bcluster_has_elements bc =
     (if bm_num_set (bc_enabled bc) > 0 then Inr True else fdb_bitmap_is_set (bc_global bc) 0)"

section \<open>The cluster as columns, a start and a set\<close>

datatype column = Block ptr | Global ptr

type_synonym cluster = "column list \<times> u32 option \<times> nat set"

fun col_ptr :: "column \<Rightarrow> ptr" where
  "col_ptr (Block p) = p"
| "col_ptr (Global p) = p"

fun is_global :: "column \<Rightarrow> bool" where
  "is_global (Block p) = False"
| "is_global (Global p) = True"

definition cluster_col :: "fdb_bcluster_t \<Rightarrow> nat \<Rightarrow> column" where
  "cluster_col bc i = (if i \<in> bits (bc_global bc) then Global (bc_blocks bc ! i) else Block (bc_blocks bc ! i))"

definition cluster_abs :: "fdb_bcluster_t \<Rightarrow> cluster" where
  "cluster_abs bc = (map (cluster_col bc) [0..<unat (bc_num_columns bc)],
     if bc_start bc = FDB_INVALID_BLOCK_START then None else Some (bc_start bc), bits (bc_enabled bc))"

definition cluster_inv :: "fdb_bcluster_t \<Rightarrow> bool" where
  "cluster_inv bc \<longleftrightarrow> unat (bc_num_columns bc) \<le> 16 \<and> length (bc_blocks bc) = 16 \<and>
     bm_inv (bc_enabled bc) \<and> bm_max_bits (bc_enabled bc) = 256 \<and>
     bm_inv (bc_global bc) \<and> bm_max_bits (bc_global bc) = 16 \<and>
     bits (bc_global bc) \<subseteq> {..<unat (bc_num_columns bc)}"

text \<open>A block as the tables make it: its bitmap has 256 positions and its start is a multiple of 256.\<close>

definition block_shape :: "fdb_table_block_t \<Rightarrow> bool" where
  "block_shape k \<longleftrightarrow> bm_inv (tbk_enabled k) \<and> bm_max_bits (tbk_enabled k) = 256 \<and> 256 dvd unat (tbk_start k)"

lemma block_shape_start: "block_shape k \<Longrightarrow> tbk_start k \<noteq> FDB_INVALID_BLOCK_START"
  by (auto simp: block_shape_def FDB_INVALID_BLOCK_START_def)

definition join_start :: "u32 option \<Rightarrow> nat set \<Rightarrow> nat set \<Rightarrow> nat set" where
  "join_start s old new = (if s = None then new else old \<inter> new)"

definition abs_block :: "ptr \<Rightarrow> fdb_table_block_t \<Rightarrow> cluster \<Rightarrow> cluster" where
  "abs_block p k = (\<lambda>(cols, s, en). (cols @ [Block p], if s = None then Some (tbk_start k) else s,
     join_start s en (bits (tbk_enabled k))))"

definition abs_join :: "cluster \<Rightarrow> cluster \<Rightarrow> cluster" where
  "abs_join other = (\<lambda>(cols, s, en). case other of (cols', s', en') \<Rightarrow>
     (cols @ cols', if s' = None then s else s', if s' = None then en else join_start s en en'))"

subsection \<open>One more column\<close>

lemma col_word: "unat (n :: u32) < 16 \<Longrightarrow> unat (n + 1) = unat n + 1"
  by (simp add: unat_word_ariths)

lemma cols_snoc:
  assumes "unat (bc_num_columns bc) < 16" "length (bc_blocks bc) = 16" "bits (bc_global bc) \<subseteq> {..<unat (bc_num_columns bc)}"
    and "bc_blocks bc' = (bc_blocks bc)[unat (bc_num_columns bc) := p]" "bc_num_columns bc' = bc_num_columns bc + 1"
    and "bits (bc_global bc') = (if g then insert (unat (bc_num_columns bc)) (bits (bc_global bc)) else bits (bc_global bc))"
  shows "map (cluster_col bc') [0..<unat (bc_num_columns bc')] =
    map (cluster_col bc) [0..<unat (bc_num_columns bc)] @ [if g then Global p else Block p]"
  using assms col_word [OF assms(1)] by (auto simp: cluster_col_def)

lemma append_global_spec:
  assumes inv: "cluster_inv bc" and room: "unat (bc_num_columns bc) < 16"
  shows "\<exists>bc'. fdb_bcluster_append_global bc p = Inr bc' \<and> cluster_inv bc' \<and>
    cluster_abs bc' = (fst (cluster_abs bc) @ [Global p], snd (cluster_abs bc))"
proof -
  note i = inv [unfolded cluster_inv_def]
  obtain gl where gl: "fdb_bitmap_set (bc_global bc) (bc_num_columns bc) = Inr gl" "bm_inv gl"
    "bits gl = insert (unat (bc_num_columns bc)) (bits (bc_global bc))" "bm_max_bits gl = bm_max_bits (bc_global bc)"
    by (rule fdb_bitmap_set_spec [of "bc_global bc" "bc_num_columns bc"]) (use i room in simp_all)
  let ?bc = "bc\<lparr>bc_global := gl, bc_blocks := (bc_blocks bc)[unat (bc_num_columns bc) := p],
    bc_num_columns := bc_num_columns bc + 1\<rparr>"
  have "fdb_bcluster_append_global bc p = Inr ?bc"
    using gl(1) i room by (simp add: fdb_bcluster_append_global_def)
  moreover have "cluster_inv ?bc" using i gl(2-4) room col_word [OF room] by (auto simp: cluster_inv_def)
  moreover have "cluster_abs ?bc = (fst (cluster_abs bc) @ [Global p], snd (cluster_abs bc))"
    using cols_snoc [of bc ?bc p True] i gl(3) room by (simp add: cluster_abs_def)
  ultimately show ?thesis by blast
qed

lemma append_block_spec:
  assumes inv: "cluster_inv bc" and room: "unat (bc_num_columns bc) < 16"
    and k: "tblock_at h p = Inr k" "block_shape k"
  shows "\<exists>bc'. fdb_bcluster_append_block h bc p = Inr bc' \<and> cluster_inv bc' \<and>
    cluster_abs bc' = abs_block p k (cluster_abs bc)"
proof -
  note i = inv [unfolded cluster_inv_def] and s = k(2) [unfolded block_shape_def]
  let ?S = "bc_start bc = FDB_INVALID_BLOCK_START"
  obtain c where c: "(if ?S then fdb_bitmap_set_bitmap (bc_enabled bc) (tbk_enabled k) else Inr (bc_enabled bc)) = Inr c"
    "bm_inv c" "bm_max_bits c = 256" "bits c = (if ?S then bits (tbk_enabled k) else bits (bc_enabled bc))"
  proof (cases ?S)
    case True
    show thesis by (rule fdb_bitmap_set_bitmap_spec [of "bc_enabled bc" "tbk_enabled k"])
        (use i s True that in simp_all)
  qed (use i that in simp)
  obtain en where en: "fdb_bitmap_set_and c (tbk_enabled k) = Inr en" "bm_inv en"
    "bits en = bits c \<inter> bits (tbk_enabled k)" "bm_max_bits en = bm_max_bits c"
    by (rule fdb_bitmap_set_and_spec [of c "tbk_enabled k"]) (use c s in simp_all)
  let ?bc = "bc\<lparr>bc_start := if ?S then tbk_start k else bc_start bc, bc_blocks := (bc_blocks bc)[unat (bc_num_columns bc) := p],
    bc_num_columns := bc_num_columns bc + 1, bc_enabled := en\<rparr>"
  have "fdb_bcluster_append_block h bc p = Inr ?bc"
    using c(1) en(1) k i room by (auto simp: fdb_bcluster_append_block_def split: if_splits)
  moreover have "cluster_inv ?bc" using i c(3) en(2,4) room col_word [OF room] by (auto simp: cluster_inv_def)
  moreover have "cluster_abs ?bc = abs_block p k (cluster_abs bc)"
    using cols_snoc [of bc ?bc p False] i c(4) en(3) room block_shape_start [OF k(2)]
    by (simp add: cluster_abs_def abs_block_def join_start_def)
  ultimately show ?thesis by blast
qed

lemma append_columns_spec:
  assumes "cluster_inv bc" "cluster_inv other" "\<forall>i\<in>set js. i < unat (bc_num_columns other)"
    and "unat (bc_num_columns bc) + length js \<le> 16"
  shows "\<exists>bc'. append_columns other js bc = Inr bc' \<and> cluster_inv bc' \<and>
    cluster_abs bc' = (fst (cluster_abs bc) @ map (cluster_col other) js, snd (cluster_abs bc))"
  using assms
proof (induction js arbitrary: bc)
  case Nil
  then show ?case by simp
next
  case (Cons i js)
  note inv = Cons.prems(1) [unfolded cluster_inv_def] and o = Cons.prems(2) [unfolded cluster_inv_def]
  have i: "i < unat (bc_num_columns other)" "i < 16" using Cons.prems(3) o by auto
  have room: "unat (bc_num_columns bc) < 16" using Cons.prems(4) by simp
  have w: "unat (of_nat i :: u32) = i" using i(2) by (simp add: unat_of_nat take_bit_nat_eq_self)
  have g: "fdb_bitmap_is_set (bc_global other) (of_nat i) = Inr (i \<in> bits (bc_global other))"
    using fdb_bitmap_is_set_iff [of "bc_global other" "of_nat i"] o w i(2) by simp
  obtain gl where gl: "(if i \<in> bits (bc_global other) then fdb_bitmap_set (bc_global bc) (bc_num_columns bc)
      else Inr (bc_global bc)) = Inr gl" "bm_inv gl" "bm_max_bits gl = 16"
    "bits gl = (if i \<in> bits (bc_global other) then insert (unat (bc_num_columns bc)) (bits (bc_global bc)) else bits (bc_global bc))"
  proof (cases "i \<in> bits (bc_global other)")
    case True
    show thesis by (rule fdb_bitmap_set_spec [of "bc_global bc" "bc_num_columns bc"])
        (use inv room True that in simp_all)
  qed (use inv that in simp)
  let ?bc = "bc\<lparr>bc_blocks := (bc_blocks bc)[unat (bc_num_columns bc) := bc_blocks other ! i], bc_global := gl,
    bc_num_columns := bc_num_columns bc + 1\<rparr>"
  have run: "append_columns other (i # js) bc = append_columns other js ?bc"
    using g gl(1) inv o room i(2) by simp
  have inv': "cluster_inv ?bc" using inv gl(2-4) room col_word [OF room] by (auto simp: cluster_inv_def)
  have abs': "cluster_abs ?bc = (fst (cluster_abs bc) @ [cluster_col other i], snd (cluster_abs bc))"
    using cols_snoc [of bc ?bc "bc_blocks other ! i" "i \<in> bits (bc_global other)"] inv gl(4) room
    by (simp add: cluster_abs_def cluster_col_def [of other])
  obtain bc' where "append_columns other js ?bc = Inr bc'" "cluster_inv bc'"
    "cluster_abs bc' = (fst (cluster_abs ?bc) @ map (cluster_col other) js, snd (cluster_abs ?bc))"
    using Cons.IH [OF inv' Cons.prems(2)] Cons.prems(3,4) col_word [OF room] by auto
  then show ?case unfolding run abs' by auto
qed

lemma append_cluster_spec:
  assumes inv: "cluster_inv bc" "cluster_inv other" and room: "unat (bc_num_columns bc) + unat (bc_num_columns other) \<le> 16"
  shows "\<exists>bc'. fdb_bcluster_append_cluster bc other = Inr bc' \<and> cluster_inv bc' \<and>
    cluster_abs bc' = abs_join (cluster_abs other) (cluster_abs bc)"
proof -
  note i = inv(1) [unfolded cluster_inv_def] and o = inv(2) [unfolded cluster_inv_def]
  let ?S = "bc_start bc = FDB_INVALID_BLOCK_START" and ?T = "bc_start other = FDB_INVALID_BLOCK_START"
  obtain en where en: "(if ?S then fdb_bitmap_set_bitmap (bc_enabled bc) (bc_enabled other)
      else fdb_bitmap_set_and (bc_enabled bc) (bc_enabled other)) = Inr en" "bm_inv en" "bm_max_bits en = 256"
    "bits en = (if ?S then bits (bc_enabled other) else bits (bc_enabled bc) \<inter> bits (bc_enabled other))"
  proof (cases ?S)
    case True
    show thesis by (rule fdb_bitmap_set_bitmap_spec [of "bc_enabled bc" "bc_enabled other"])
        (use i o True that in simp_all)
  next
    case False
    show thesis by (rule fdb_bitmap_set_and_spec [of "bc_enabled bc" "bc_enabled other"])
        (use i o False that in simp_all)
  qed
  let ?bc = "if ?T then bc else bc\<lparr>bc_enabled := en, bc_start := bc_start other\<rparr>"
  have run: "fdb_bcluster_append_cluster bc other = append_columns other [0..<unat (bc_num_columns other)] ?bc"
    using en(1) by (auto simp: fdb_bcluster_append_cluster_def split: if_splits)
  have inv': "cluster_inv ?bc" using i en(2,3) by (auto simp: cluster_inv_def)
  have num: "bc_num_columns ?bc = bc_num_columns bc" by simp
  have cols: "map (cluster_col ?bc) = map (cluster_col bc)" by (simp add: cluster_col_def fun_eq_iff)
  have abs': "cluster_abs ?bc = (fst (cluster_abs bc), snd (abs_join (cluster_abs other) (cluster_abs bc)))"
    using en(4) unfolding cluster_abs_def abs_join_def join_start_def prod.case fst_conv cols by auto
  obtain bc' where bc': "append_columns other [0..<unat (bc_num_columns other)] ?bc = Inr bc'" "cluster_inv bc'"
    "cluster_abs bc' = (fst (cluster_abs ?bc) @ map (cluster_col other) [0..<unat (bc_num_columns other)], snd (cluster_abs ?bc))"
    using append_columns_spec [OF inv' inv(2), of "[0..<unat (bc_num_columns other)]"] room
    unfolding num [symmetric] by auto
  have "cluster_abs bc' = abs_join (cluster_abs other) (cluster_abs bc)"
    unfolding bc'(3) abs' by (simp add: cluster_abs_def abs_join_def)
  then show ?thesis unfolding run using bc'(1,2) by blast
qed

lemma filter_spec:
  assumes "cluster_inv bc" "cluster_inv other"
  shows "\<exists>bc'. fdb_bcluster_filter bc other = Inr bc' \<and> cluster_inv bc' \<and>
    cluster_abs bc' = (case cluster_abs bc of (cols, s, en) \<Rightarrow> (cols, s, en \<inter> snd (snd (cluster_abs other))))"
proof -
  note i = assms [unfolded cluster_inv_def]
  obtain en where en: "fdb_bitmap_set_and (bc_enabled bc) (bc_enabled other) = Inr en" "bm_inv en"
    "bits en = bits (bc_enabled bc) \<inter> bits (bc_enabled other)" "bm_max_bits en = bm_max_bits (bc_enabled bc)"
    by (rule fdb_bitmap_set_and_spec [of "bc_enabled bc" "bc_enabled other"]) (use i in simp_all)
  have "cluster_inv (bc\<lparr>bc_enabled := en\<rparr>)" using i en by (simp add: cluster_inv_def)
  moreover have "cluster_col (bc\<lparr>bc_enabled := en\<rparr>) = cluster_col bc" by (simp add: cluster_col_def fun_eq_iff)
  ultimately show ?thesis using en by (simp add: fdb_bcluster_filter_def cluster_abs_def)
qed

lemma bcluster_init_spec:
  assumes "fdb_bcluster_init a g st = Inr (bc, st')"
  shows "cluster_inv bc" "cluster_abs bc = ([], None, {})"
proof -
  obtain al en gl st1 where r: "fdb_bitmap_init FDB_TABLE_BLOCK_SIZE al st = Inr (en, st1)"
    "fdb_bitmap_init FDB_MAX_CLUSTER_SIZE al st1 = Inr (gl, st')"
    and bc: "bc = \<lparr>bc_num_columns = 0, bc_enabled = en, bc_global = gl,
       bc_start = FDB_INVALID_BLOCK_START, bc_blocks = replicate (unat FDB_MAX_CLUSTER_SIZE) NULL\<rparr>"
    using assms by (auto simp: fdb_bcluster_init_def Let_def bind_res_Inr split: prod.splits)
  have "unat FDB_TABLE_BLOCK_SIZE = 256" "unat FDB_MAX_CLUSTER_SIZE = 16"
    by (simp_all add: FDB_TABLE_BLOCK_SIZE_def FDB_MAX_CLUSTER_SIZE_def)
  then show "cluster_inv bc" "cluster_abs bc = ([], None, {})"
    using fdb_bitmap_init_inv [OF _ r(1)] fdb_bitmap_init_inv [OF _ r(2)] unfolding bc
    by (simp_all add: cluster_inv_def cluster_abs_def FDB_TABLE_BLOCK_SIZE_def FDB_MAX_CLUSTER_SIZE_def)
qed

text \<open>What the queries answer.\<close>

lemma get_column_spec:
  assumes "cluster_inv bc" "unat i < length (fst (cluster_abs bc))"
  shows "fdb_bcluster_get_tblock bc i = Inr (col_ptr (fst (cluster_abs bc) ! unat i))"
    "fdb_bcluster_get_global bc i = Inr (col_ptr (fst (cluster_abs bc) ! unat i))"
  using assms by (simp_all add: fdb_bcluster_get_tblock_def fdb_bcluster_get_global_def cluster_abs_def
      cluster_inv_def cluster_col_def)

lemma has_elements_spec:
  assumes "cluster_inv bc" "cluster_abs bc = (cols, s, en)"
  shows "fdb_bcluster_has_elements bc = Inr (en \<noteq> {} \<or> (cols \<noteq> [] \<and> is_global (hd cols)))"
proof -
  note i = assms(1) [unfolded cluster_inv_def]
  have "unat (bm_num_set (bc_enabled bc)) = card (bits (bc_enabled bc))" using i by (simp add: bm_inv_def)
  then have n: "bm_num_set (bc_enabled bc) > 0 \<longleftrightarrow> en \<noteq> {}"
    using assms(2) by (auto simp: cluster_abs_def word_less_nat_alt card_gt_0_iff)
  have "fdb_bitmap_is_set (bc_global bc) 0 = Inr (0 \<in> bits (bc_global bc))"
    using fdb_bitmap_is_set_iff [of "bc_global bc" 0] i by simp
  moreover have "0 \<in> bits (bc_global bc) \<longleftrightarrow> cols \<noteq> [] \<and> is_global (hd cols)"
  proof (cases "unat (bc_num_columns bc)")
    case 0
    then show ?thesis using i assms(2) by (auto simp: cluster_abs_def)
  next
    case (Suc n)
    have "[0..<Suc n] = 0 # [1..<Suc n]" by (simp only: upt_conv_Cons zero_less_Suc One_nat_def)
    then have "cols = cluster_col bc 0 # map (cluster_col bc) [1..<Suc n]"
      using assms(2) Suc by (simp only: cluster_abs_def prod.inject list.map)
    then show ?thesis by (simp add: cluster_col_def)
  qed
  ultimately show ?thesis using n by (simp add: fdb_bcluster_has_elements_def)
qed

section \<open>Sequences of operations\<close>

datatype bc_cmd = BcBlock ptr | BcGlobal ptr | BcCluster fdb_bcluster_t | BcFilter fdb_bcluster_t

fun bc_exec :: "(ptr \<rightharpoonup> fdb_table_block_t) \<Rightarrow> bc_cmd \<Rightarrow> fdb_bcluster_t \<Rightarrow> fdb_bcluster_t res" where
  "bc_exec h (BcBlock p) bc = fdb_bcluster_append_block h bc p"
| "bc_exec h (BcGlobal p) bc = fdb_bcluster_append_global bc p"
| "bc_exec h (BcCluster other) bc = fdb_bcluster_append_cluster bc other"
| "bc_exec h (BcFilter other) bc = fdb_bcluster_filter bc other"

fun bc_run :: "(ptr \<rightharpoonup> fdb_table_block_t) \<Rightarrow> bc_cmd list \<Rightarrow> fdb_bcluster_t \<Rightarrow> fdb_bcluster_t res" where
  "bc_run h [] bc = Inr bc"
| "bc_run h (c # cs) bc = bind_res (bc_exec h c bc) (bc_run h cs)"

fun bc_abs :: "(ptr \<rightharpoonup> fdb_table_block_t) \<Rightarrow> bc_cmd \<Rightarrow> cluster \<Rightarrow> cluster" where
  "bc_abs h (BcBlock p) = abs_block p (the (h p))"
| "bc_abs h (BcGlobal p) = (\<lambda>(cols, s, en). (cols @ [Global p], s, en))"
| "bc_abs h (BcCluster other) = abs_join (cluster_abs other)"
| "bc_abs h (BcFilter other) = (\<lambda>(cols, s, en). (cols, s, en \<inter> snd (snd (cluster_abs other))))"

fun bc_legal :: "(ptr \<rightharpoonup> fdb_table_block_t) \<Rightarrow> bc_cmd \<Rightarrow> bool" where
  "bc_legal h (BcBlock p) \<longleftrightarrow> p \<noteq> NULL \<and> (case h p of None \<Rightarrow> False | Some k \<Rightarrow> block_shape k)"
| "bc_legal h (BcGlobal p) \<longleftrightarrow> True"
| "bc_legal h (BcCluster other) \<longleftrightarrow> cluster_inv other"
| "bc_legal h (BcFilter other) \<longleftrightarrow> cluster_inv other"

fun bc_width :: "bc_cmd \<Rightarrow> nat" where
  "bc_width (BcBlock p) = 1"
| "bc_width (BcGlobal p) = 1"
| "bc_width (BcCluster other) = unat (bc_num_columns other)"
| "bc_width (BcFilter other) = 0"

lemma abs_width: "length (fst (cluster_abs bc)) = unat (bc_num_columns bc)"
  by (simp add: cluster_abs_def)

lemma bc_exec_spec:
  assumes inv: "cluster_inv bc" and "bc_legal h c" "unat (bc_num_columns bc) + bc_width c \<le> 16"
  shows "\<exists>bc'. bc_exec h c bc = Inr bc' \<and> cluster_inv bc' \<and> cluster_abs bc' = bc_abs h c (cluster_abs bc) \<and>
    unat (bc_num_columns bc') = unat (bc_num_columns bc) + bc_width c"
proof -
  have "\<exists>bc'. bc_exec h c bc = Inr bc' \<and> cluster_inv bc' \<and> cluster_abs bc' = bc_abs h c (cluster_abs bc)"
  proof (cases c)
    case (BcBlock p)
    with assms(2) obtain k where "tblock_at h p = Inr k" "h p = Some k" "block_shape k"
      by (auto simp: tblock_at_def split: option.splits)
    then show ?thesis using append_block_spec [OF inv, of h p k] assms(3) BcBlock by simp
  next
    case (BcGlobal p)
    then show ?thesis using append_global_spec [OF inv, of p] assms(3) by (simp add: case_prod_unfold)
  next
    case (BcCluster other)
    then show ?thesis using append_cluster_spec [OF inv, of other] assms(2,3) by simp
  next
    case (BcFilter other)
    then show ?thesis using filter_spec [OF inv, of other] assms(2) by simp
  qed
  moreover have "length (fst (bc_abs h c (cluster_abs bc))) = length (fst (cluster_abs bc)) + bc_width c"
    by (cases c) (simp_all add: abs_block_def abs_join_def case_prod_unfold abs_width)
  ultimately show ?thesis using abs_width by metis
qed

lemma bc_run_spec:
  assumes "cluster_inv bc" "\<forall>c\<in>set cs. bc_legal h c" "unat (bc_num_columns bc) + sum_list (map bc_width cs) \<le> 16"
  shows "\<exists>bc'. bc_run h cs bc = Inr bc' \<and> cluster_inv bc' \<and> cluster_abs bc' = fold (bc_abs h) cs (cluster_abs bc)"
  using assms
proof (induction cs arbitrary: bc)
  case Nil
  then show ?case by simp
next
  case (Cons c cs)
  obtain b where b: "bc_exec h c bc = Inr b" "cluster_inv b" "cluster_abs b = bc_abs h c (cluster_abs bc)"
    "unat (bc_num_columns b) = unat (bc_num_columns bc) + bc_width c"
    using bc_exec_spec [OF Cons.prems(1), of h c] Cons.prems(2,3) by auto
  show ?case using Cons.IH [OF b(2)] Cons.prems(2,3) b by simp
qed

section \<open>Tables joined\<close>

text \<open>One block of each table, as the code that walks several tables gathers them.\<close>

fun join_tables :: "u32 \<Rightarrow> 'st fdb_table_t list \<Rightarrow> fdb_bcluster_t \<Rightarrow> fdb_bcluster_t res" where
  "join_tables b [] bc = Inr bc"
| "join_tables b (t # ts) bc =
     bind_res (fdb_table_get_block t b) (\<lambda>p.
     bind_res (fdb_bcluster_append_block (tb_heap t) bc p) (join_tables b ts))"

definition enabled_in_all :: "'st fdb_table_t list \<Rightarrow> u32 \<Rightarrow> nat set" where
  "enabled_in_all ts b = {i. i < 256 \<and> (\<forall>t\<in>set ts. fdb_table_is_enabled t (b * 256 + of_nat i) = Inr True)}"


lemma block_enabled:
  assumes v: "table_view t xs ex en" and b: "b \<in> fst ` set xs"
  obtains p k where "fdb_table_get_block t b = Inr p" "tblock_at (tb_heap t) p = Inr k" "block_shape k"
    "tbk_start k = b * 256" "bits (tbk_enabled k) = enabled_in_all [t] b"
proof -
  from view_present [OF v b] obtain p k where k: "(b, p) \<in> set xs" "fdb_btree_get (tb_blocks t) b = Inr p"
    "tblock_at (tb_heap t) p = Inr k" "block_ok b (tb_esize t) ex en k" by blast
  have lt: "unat b < 2 ^ 24" using v k(1) unfolding table_view_def by blast
  have s: "unat (b * 256) = unat b * 256" using lt by (simp add: unat_word_ariths)
  have is_en: "fdb_table_is_enabled t e = Inr True \<longleftrightarrow> e \<in> en" for e
  proof (cases "id_ok e")
    case False
    then have "e \<notin> en" using v unfolding table_view_def by blast
    then show ?thesis using False by (simp add: fdb_table_is_enabled_def id_ok_def decode_id_def)
  qed (simp add: is_enabled_view [OF v])
  have "i \<in> bits (tbk_enabled k) \<longleftrightarrow> i < 256 \<and> b * 256 + of_nat i \<in> en" for i
  proof (cases "i < 256")
    case True
    then show ?thesis using k(4) block_position [OF lt True] unfolding block_ok_def by metis
  next
    case False
    have "bits (tbk_enabled k) \<subseteq> {..<256}" using k(4) unfolding block_ok_def bm_inv_def by auto
    with False show ?thesis by auto
  qed
  then have "bits (tbk_enabled k) = enabled_in_all [t] b" by (auto simp: enabled_in_all_def is_en)
  moreover have "block_shape k" "tbk_start k = b * 256" using k(4) s by (simp_all add: block_ok_def block_shape_def)
  ultimately show thesis using that k(2,3) by (simp add: fdb_table_get_block_def)
qed

lemma enabled_in_all_Cons: "enabled_in_all (t # ts) b = enabled_in_all [t] b \<inter> enabled_in_all ts b"
  by (auto simp: enabled_in_all_def)

lemma join_tables_spec:
  assumes "cluster_inv bc" "unat (bc_num_columns bc) + length ts \<le> 16"
    and "\<forall>t\<in>set ts. \<exists>xs ex en. table_view t xs ex en \<and> b \<in> fst ` set xs"
    and "cluster_abs bc = (cols, s, en0)" "s \<noteq> None \<longrightarrow> s = Some (b * 256)" "en0 \<subseteq> {..<256}"
  shows "\<exists>bc' cols'. join_tables b ts bc = Inr bc' \<and> cluster_inv bc' \<and> length cols' = length ts \<and>
    (\<forall>c\<in>set cols'. \<not> is_global c) \<and>
    cluster_abs bc' = (cols @ cols', if ts = [] then s else Some (b * 256),
      if ts = [] then en0 else join_start s en0 (enabled_in_all ts b))"
  using assms
proof (induction ts arbitrary: bc cols s en0)
  case Nil
  then show ?case by simp
next
  case (Cons t ts)
  obtain xs ex en where v: "table_view t xs ex en" "b \<in> fst ` set xs" using Cons.prems(3) by auto
  obtain p k where k: "fdb_table_get_block t b = Inr p" "tblock_at (tb_heap t) p = Inr k" "block_shape k"
    "tbk_start k = b * 256" "bits (tbk_enabled k) = enabled_in_all [t] b" by (rule block_enabled [OF v])
  have room: "unat (bc_num_columns bc) < 16" using Cons.prems(2) by simp
  obtain bc1 where b1: "fdb_bcluster_append_block (tb_heap t) bc p = Inr bc1" "cluster_inv bc1"
    "cluster_abs bc1 = abs_block p k (cluster_abs bc)"
    using append_block_spec [OF Cons.prems(1) room k(2,3)] by blast
  let ?en = "join_start s en0 (enabled_in_all [t] b)"
  have abs1: "cluster_abs bc1 = (cols @ [Block p], Some (b * 256), ?en)"
    using Cons.prems(4,5) k(4,5) by (auto simp: b1(3) abs_block_def)
  have n: "unat (bc_num_columns bc1) = Suc (unat (bc_num_columns bc))"
    using abs_width [of bc] abs_width [of bc1] abs1 Cons.prems(4) by simp
  have sub: "?en \<subseteq> {..<256}" using Cons.prems(6) by (auto simp: join_start_def enabled_in_all_def)
  from Cons.IH [OF b1(2) _ _ abs1 _ sub] obtain bc' cols' where r: "join_tables b ts bc1 = Inr bc'" "cluster_inv bc'"
    "length cols' = length ts" "\<forall>c\<in>set cols'. \<not> is_global c"
    "cluster_abs bc' = ((cols @ [Block p]) @ cols', if ts = [] then Some (b * 256) else Some (b * 256),
      if ts = [] then ?en else join_start (Some (b * 256)) ?en (enabled_in_all ts b))"
    using Cons.prems(2,3) n by auto
  have "cluster_abs bc' = (cols @ Block p # cols', Some (b * 256), join_start s en0 (enabled_in_all (t # ts) b))"
    using r(5) enabled_in_all_Cons [of t ts b] by (auto simp: join_start_def)
  then show ?case using k(1) b1(1) r(1-4)
    by (intro exI [of _ bc'] exI [of _ "Block p # cols'"]) simp
qed

section \<open>Clusters of one block id\<close>

text \<open>The assertions of the source ask for clusters whose blocks all start at the same id. A filter is only
  kept once the cluster has a start: the first block overwrites what was filtered before it. \<open>bc_aligned\<close> says
  that a sequence of operations keeps to both; \<open>bc_bits\<close> are the positions that an operation lets through.\<close>

fun bc_start_of :: "(ptr \<rightharpoonup> fdb_table_block_t) \<Rightarrow> bc_cmd \<Rightarrow> u32 option" where
  "bc_start_of h (BcBlock p) = Some (tbk_start (the (h p)))"
| "bc_start_of h (BcGlobal p) = None"
| "bc_start_of h (BcCluster other) = fst (snd (cluster_abs other))"
| "bc_start_of h (BcFilter other) = None"

fun bc_bits :: "(ptr \<rightharpoonup> fdb_table_block_t) \<Rightarrow> bc_cmd \<Rightarrow> nat set" where
  "bc_bits h (BcBlock p) = bits (tbk_enabled (the (h p)))"
| "bc_bits h (BcGlobal p) = {..<256}"
| "bc_bits h (BcCluster other) = (if fst (snd (cluster_abs other)) = None then {..<256} else snd (snd (cluster_abs other)))"
| "bc_bits h (BcFilter other) = snd (snd (cluster_abs other))"

fun bc_aligned :: "(ptr \<rightharpoonup> fdb_table_block_t) \<Rightarrow> u32 option \<Rightarrow> bc_cmd list \<Rightarrow> bool" where
  "bc_aligned h s [] \<longleftrightarrow> True"
| "bc_aligned h s (BcFilter other # cs) \<longleftrightarrow> s \<noteq> None \<and> bc_aligned h s cs"
| "bc_aligned h s (c # cs) \<longleftrightarrow> (case bc_start_of h c of None \<Rightarrow> bc_aligned h s cs
     | Some b \<Rightarrow> (s = None \<or> s = Some b) \<and> bc_aligned h (Some b) cs)"

lemma bc_bits_range: "bc_legal h c \<Longrightarrow> bc_bits h c \<subseteq> {..<256}"
  by (cases c) (auto simp: block_shape_def cluster_inv_def cluster_abs_def bm_inv_def split: option.splits)

lemma bc_aligned_step:
  assumes "bc_aligned h s (c # cs)" "bc_abs h c (cols, s, en) = (cols', s', en')"
  shows "bc_aligned h s' cs" "s' = (if bc_start_of h c = None then s else bc_start_of h c)" "s \<noteq> None \<Longrightarrow> s' = s"
    "s = None \<Longrightarrow> s' = None \<Longrightarrow> en' = en \<and> bc_bits h c = {..<256}" "s = None \<Longrightarrow> s' \<noteq> None \<Longrightarrow> en' = bc_bits h c"
    "s \<noteq> None \<Longrightarrow> en \<subseteq> {..<256} \<Longrightarrow> en' = en \<inter> bc_bits h c"
  using assms by (cases c; auto simp: abs_block_def abs_join_def join_start_def split: if_splits option.splits prod.splits)+

lemma bc_fold_bits:
  assumes "bc_aligned h s cs" "fold (bc_abs h) cs (cols, s, en) = (cols', s', en')" "\<forall>c\<in>set cs. bc_legal h c" "en \<subseteq> {..<256}"
  shows "(s \<noteq> None \<longrightarrow> s' = s \<and> en' = en \<inter> {i. \<forall>c\<in>set cs. i \<in> bc_bits h c}) \<and>
    (s = None \<longrightarrow> en' = (if s' = None then en else {i. \<forall>c\<in>set cs. i \<in> bc_bits h c}))"
  using assms
proof (induction cs arbitrary: cols s en)
  case Nil
  then show ?case by simp
next
  case (Cons c cs)
  obtain cols1 s1 en1 where 1: "bc_abs h c (cols, s, en) = (cols1, s1, en1)" by (rule prod_cases3)
  note step = bc_aligned_step [OF Cons.prems(1) 1]
  have r: "bc_bits h c \<subseteq> {..<256}" using bc_bits_range Cons.prems(3) by simp
  have sub: "en1 \<subseteq> {..<256}"
    using step(4-6) r Cons.prems(4) by (cases "s = None"; cases "s1 = None") auto
  have IH: "(s1 \<noteq> None \<longrightarrow> s' = s1 \<and> en' = en1 \<inter> {i. \<forall>c\<in>set cs. i \<in> bc_bits h c}) \<and>
      (s1 = None \<longrightarrow> en' = (if s' = None then en1 else {i. \<forall>c\<in>set cs. i \<in> bc_bits h c}))"
    by (rule Cons.IH [OF step(1)]) (use 1 Cons.prems sub in auto)
  have all: "{i. \<forall>c\<in>set cs. i \<in> bc_bits h c} \<subseteq> {..<256}" if "cs \<noteq> []"
    using that bc_bits_range Cons.prems(3) by (cases cs) auto
  show ?case
  proof (cases "s = None")
    case False
    then show ?thesis using IH step(3,6) Cons.prems(4) by auto
  next
    case True
    show ?thesis
    proof (cases "s1 = None")
      case False
      then show ?thesis using True IH step(5) by auto
    next
      case s1: True
      then have "cs \<noteq> []" if "s' \<noteq> None" using that 1 Cons.prems(2) by auto
      then show ?thesis using True s1 IH step(4) all by auto
    qed
  qed
qed

section \<open>Properties\<close>

text \<open>C19: A block cluster made by \<open>fdb_bcluster_init\<close> refines its abstraction under every sequence of
  operations that leaves it at most 16 columns, appends only blocks and clusters that start at one id (as
  the assertions of the source ask) and filters only after the first of them (a filter before it is
  forgotten): the columns are the appended blocks and globals in order, a cluster appends all its columns,
  the enabled positions are the intersection over what was appended and filtered (none without a block), a
  column is read back at its index, and \<open>has_elements\<close> tells whether a position is left or the first column
  is a global.\<close>

theorem bcluster_refines_join:
  assumes "fdb_bcluster_init a g st = Inr (bc0, st')" "\<forall>c\<in>set cs. bc_legal h c" "sum_list (map bc_width cs) \<le> 16"
    and "fold (bc_abs h) cs ([], None, {}) = (cols, s, en)" "bc_aligned h None cs"
  shows "\<exists>bc. bc_run h cs bc0 = Inr bc \<and> cluster_abs bc = (cols, s, en) \<and>
    en = (if s = None then {} else {i. \<forall>c\<in>set cs. i \<in> bc_bits h c}) \<and>
    fdb_bcluster_has_elements bc = Inr (en \<noteq> {} \<or> (cols \<noteq> [] \<and> is_global (hd cols))) \<and>
    (\<forall>i. unat i < length cols \<longrightarrow> fdb_bcluster_get_tblock bc i = Inr (col_ptr (cols ! unat i)) \<and>
       fdb_bcluster_get_global bc i = Inr (col_ptr (cols ! unat i)))"
proof -
  note i = bcluster_init_spec [OF assms(1)]
  have "unat (bc_num_columns bc0) = 0" using i(2) by (simp add: cluster_abs_def)
  then obtain bc where bc: "bc_run h cs bc0 = Inr bc" "cluster_inv bc" "cluster_abs bc = (cols, s, en)"
    using bc_run_spec [OF i(1) assms(2)] assms(3,4) i(2) by auto
  have "fst (cluster_abs bc) = cols" using bc(3) by simp
  moreover have "en = (if s = None then {} else {i. \<forall>c\<in>set cs. i \<in> bc_bits h c})"
    using bc_fold_bits [OF assms(5,4,2)] by simp
  ultimately show ?thesis using bc has_elements_spec [OF bc(2,3)] get_column_spec [OF bc(2)] by blast
qed

text \<open>C17: Joining the blocks of several tables for one block id: when each table has the block, the
  cluster of the blocks starts at the first id of the block, and a position is enabled in the
  cluster exactly when \<open>fdb_table_is_enabled\<close> says yes for its id in each of the tables; the cluster
  has elements when there is such an id.\<close>

theorem bcluster_joins_tables:
  assumes "fdb_bcluster_init a g st = Inr (bc0, st')" "ts \<noteq> []" "length ts \<le> 16"
    and "\<forall>t\<in>set ts. \<exists>xs ex en. table_view t xs ex en \<and> b \<in> fst ` set xs"
  shows "\<exists>bc. join_tables b ts bc0 = Inr bc \<and> bc_start bc = b * 256 \<and> unat (bc_num_columns bc) = length ts \<and>
    (\<forall>i<256. fdb_bitmap_is_set (bc_enabled bc) (of_nat i) =
       Inr (\<forall>t\<in>set ts. fdb_table_is_enabled t (b * 256 + of_nat i) = Inr True)) \<and>
    fdb_bcluster_has_elements bc =
      Inr (\<exists>i<256. \<forall>t\<in>set ts. fdb_table_is_enabled t (b * 256 + of_nat i) = Inr True)"
proof -
  note i = bcluster_init_spec [OF assms(1)]
  have n: "unat (bc_num_columns bc0) = 0" using i(2) by (simp add: cluster_abs_def)
  obtain bc cols where bc: "join_tables b ts bc0 = Inr bc" "cluster_inv bc" "length cols = length ts"
    "\<forall>c\<in>set cols. \<not> is_global c" "cluster_abs bc = (cols, Some (b * 256), enabled_in_all ts b)"
    using join_tables_spec [OF i(1) _ assms(4) i(2)] n assms(2,3) by (auto simp: join_start_def)
  have e: "bits (bc_enabled bc) = enabled_in_all ts b" using bc(5) by (simp add: cluster_abs_def)
  have "fdb_bitmap_is_set (bc_enabled bc) (of_nat i) = Inr (i \<in> enabled_in_all ts b)" if "i < 256" for i
  proof -
    have "unat (of_nat i :: u32) = i" using that by (simp add: unat_of_nat take_bit_nat_eq_self)
    then show ?thesis using fdb_bitmap_is_set_iff [of "bc_enabled bc" "of_nat i"] bc(2) that e
      by (simp add: cluster_inv_def)
  qed
  moreover have "cols \<noteq> [] \<longrightarrow> \<not> is_global (hd cols)" using bc(4) by simp
  then have "fdb_bcluster_has_elements bc = Inr (enabled_in_all ts b \<noteq> {})"
    using has_elements_spec [OF bc(2,5)] by auto
  moreover have "unat (bc_num_columns bc) = length ts" using abs_width [of bc] bc(3,5) by simp
  moreover have "bc_start bc = b * 256" using bc(5) by (simp add: cluster_abs_def split: if_splits)
  ultimately show ?thesis using bc(1) by (auto simp: enabled_in_all_def)
qed

section \<open>Examples\<close>

definition demo_cluster :: fdb_bcluster_t where
  "demo_cluster = (case fdb_bcluster_init None demo_db_heap () of Inr (bc, _) \<Rightarrow> bc)"

lemma demo_cluster_init: "fdb_bcluster_init None demo_db_heap () = Inr (demo_cluster, ())"
  by (simp add: demo_cluster_def fdb_bcluster_init_def fdb_bitmap_init_def demo_db_heap_def mem_alloc_def Let_def)

lemma demo_bitmap:
  assumes "x < 256"
  obtains b where "bm_inv b" "bm_max_bits b = 256" "bits b = {x, 7 :: nat}"
proof -
  obtain b0 :: fdb_bitmap_t and st' where r: "fdb_bitmap_init 256 demo_db_heap () = Inr (b0, st')"
    by (simp add: fdb_bitmap_init_def demo_db_heap_def mem_alloc_def Let_def)
  have i: "bm_inv b0" "bits b0 = {}" "bm_max_bits b0 = 256" by (rule fdb_bitmap_init_inv [OF _ r]; simp)+
  obtain b1 where b1: "bm_inv b1" "bits b1 = insert 7 (bits b0)" "bm_max_bits b1 = bm_max_bits b0"
    by (rule fdb_bitmap_set_spec [of b0 7]) (use i in simp_all)
  have x: "unat (of_nat x :: u32) = x" using assms by (simp add: unat_of_nat take_bit_nat_eq_self)
  obtain b2 where b2: "bm_inv b2" "bits b2 = insert x (bits b1)" "bm_max_bits b2 = bm_max_bits b1"
    by (rule fdb_bitmap_set_spec [of b1 "of_nat x"]) (use i b1 x assms in simp_all)
  show thesis by (rule that [of b2]) (use i b1 b2 in simp_all)
qed

theorem bcluster_refines_join_witness:
  "\<exists>h bc. bc_run h [BcBlock 4096, BcGlobal 8, BcBlock 8192] demo_cluster = Inr bc \<and>
     cluster_abs bc = ([Block 4096, Global 8, Block 8192], Some 512, {7}) \<and>
     fdb_bcluster_has_elements bc = Inr True \<and> fdb_bcluster_get_tblock bc 2 = Inr 8192"
proof -
  obtain b where b: "bm_inv b" "bm_max_bits b = 256" "bits b = {3, 7}" by (rule demo_bitmap [of 3]) simp_all
  obtain c where c: "bm_inv c" "bm_max_bits c = 256" "bits c = {9, 7}" by (rule demo_bitmap [of 9]) simp_all
  let ?k = "\<lambda>b. \<lparr>tbk_data = 64, tbk_start = 512, tbk_num_components = 2, tbk_num_enabled = 2, tbk_esize = 12,
    tbk_exists = b, tbk_enabled = b\<rparr>"
  let ?h = "[4096 \<mapsto> ?k b, 8192 \<mapsto> ?k c]"
  let ?cs = "[BcBlock 4096, BcGlobal 8, BcBlock 8192]"
  note r = demo_cluster_init
  have k: "block_shape (?k b)" "block_shape (?k c)" using b c by (simp_all add: block_shape_def)
  have legal: "\<forall>c\<in>set ?cs. bc_legal ?h c" using k by simp
  have int: "{3, 7} \<inter> {9, 7} = {7 :: nat}" by auto
  have abs: "fold (bc_abs ?h) ?cs ([], None, {}) = ([Block 4096, Global 8, Block 8192], Some 512, {7})"
    using b(3) c(3) int by (simp add: abs_block_def join_start_def)
  have al: "bc_aligned ?h None ?cs" by simp
  from bcluster_refines_join [OF r legal _ abs al] obtain bc where bc: "bc_run ?h ?cs demo_cluster = Inr bc"
    "cluster_abs bc = ([Block 4096, Global 8, Block 8192], Some 512, {7})" "fdb_bcluster_has_elements bc = Inr True"
    "\<forall>i. unat i < 3 \<longrightarrow> fdb_bcluster_get_tblock bc i = Inr (col_ptr ([Block 4096, Global 8, Block 8192] ! unat i))" by auto
  have "unat (2 :: u32) < 3" by simp
  with bc(4) have "fdb_bcluster_get_tblock bc 2 = Inr (col_ptr ([Block 4096, Global 8, Block 8192] ! unat (2 :: u32)))" by blast
  then have "fdb_bcluster_get_tblock bc 2 = Inr 8192" by simp
  then show ?thesis using bc(1-3) by (intro exI [of _ ?h] exI [of _ bc]) simp
qed

theorem bcluster_joins_tables_witness:
  "\<exists>(t :: fdb_page_alloc_t fdb_table_t) u bc. join_tables 0 [t, u] demo_cluster = Inr bc \<and>
     unat (bc_num_columns bc) = 2 \<and> fdb_bitmap_is_set (bc_enabled bc) 200 = Inr True \<and>
     fdb_bitmap_is_set (bc_enabled bc) 3 = Inr False"
proof -
  have "\<forall>i\<in>{200, 3 :: u32}. id_ok i" "\<forall>i\<in>{200, 7 :: u32}. id_ok i" by (simp_all add: id_ok_def FDB_INVALID_ID_def)
  with demo_table [of 200 3] demo_table [of 200 7] obtain t u :: "fdb_page_alloc_t fdb_table_t" and xs ys where
    t: "table_view t xs {3, 200} {3, 200}" "blocks_of xs = {0}" and u: "table_view u ys {7, 200} {7, 200}" "blocks_of ys = {0}" by auto
  have z: "0 \<in> blocks_of xs" "0 \<in> blocks_of ys" using t(2) u(2) by simp_all
  have views: "\<forall>t\<in>set [t, u]. \<exists>xs ex en. table_view t xs ex en \<and> 0 \<in> blocks_of xs" using t(1) u(1) z by auto
  note r = demo_cluster_init
  from bcluster_joins_tables [OF r _ _ views] obtain bc where bc: "join_tables 0 [t, u] demo_cluster = Inr bc" "unat (bc_num_columns bc) = 2"
    "\<forall>i<256. fdb_bitmap_is_set (bc_enabled bc) (of_nat i) =
       Inr (\<forall>t\<in>set [t, u]. fdb_table_is_enabled t (0 * 256 + of_nat i) = Inr True)" by auto
  have en: "id_ok e \<Longrightarrow> fdb_table_is_enabled t e = Inr (e \<in> {3, 200})" "id_ok e \<Longrightarrow> fdb_table_is_enabled u e = Inr (e \<in> {7, 200})" for e
    using is_enabled_view [OF t(1)] is_enabled_view [OF u(1)] by auto
  have "fdb_bitmap_is_set (bc_enabled bc) 200 = Inr True" "fdb_bitmap_is_set (bc_enabled bc) 3 = Inr False"
    using bc(3) [rule_format, of 200] bc(3) [rule_format, of 3] en [of 200] en [of 3]
    by (simp_all add: id_ok_def FDB_INVALID_ID_def)
  then show ?thesis using bc(1,2) by (intro exI [of _ t] exI [of _ u] exI [of _ bc]) simp
qed

end
