(* ===== verification/BitTable.thy ===== *)
theory BitTable
  imports TableSpec
begin

text \<open>
  src/src/runtime/data/bittable.c and bittable.h: the tables of tags. A bit table is a set of ids,
  kept as bitmaps of 256 positions that a B+ tree finds by block id. The structures of the bitmaps
  live in \<open>bb_heap\<close>; they and their bytes come from two pools. The specification is the set itself:
  adding, removing, union and difference are the operations on sets, and \<open>m_size\<close> is the
  cardinality.
\<close>

section \<open>State and operations\<close>

definition FDB_BITMAP_PAGE_SIZE :: u32 where "FDB_BITMAP_PAGE_SIZE = 4 * 1024"
definition sizeof_bitmap :: u32 where "sizeof_bitmap = 128"

datatype fdb_bittable_op_t = E_AND | E_OR | E_DIFF

record 'st fdb_bittable_t =
  bb_bitmaps :: "'st fdb_btree_t"
  bb_size :: u32
  bb_bitmap_allocator :: "'st fdb_pool_alloc_t"
  bb_bitmap_data_allocator :: "'st fdb_pool_alloc_t"
  bb_heap :: "ptr \<rightharpoonup> fdb_bitmap_t"

definition bitmap_at :: "(ptr \<rightharpoonup> fdb_bitmap_t) \<Rightarrow> ptr \<Rightarrow> fdb_bitmap_t res" where
  "bitmap_at h p = (if p = NULL then Inl NullDeref
     else case h p of None \<Rightarrow> Inl BadPointer | Some b \<Rightarrow> Inr b)"

text \<open>\<open>&bt->m_bitmap_data_allocator.m_super\<close>, an allocator whose state is the bit table.\<close>

definition bittable_data_super :: "('st fdb_bittable_t \<times> 'st) fdb_mem_allocator_t" where
  "bittable_data_super = \<lparr>
     p_mem_alloc = (\<lambda>(bt, st) al sz h.
        let (p, (pa, st)) = mem_alloc fdb_pool_alloc_super (bb_bitmap_data_allocator bt, st) al sz h
        in (p, (bt\<lparr>bb_bitmap_data_allocator := pa\<rparr>, st))),
     p_mem_free = (\<lambda>(bt, st) p. let (pa, st) = mem_free fdb_pool_alloc_super (bb_bitmap_data_allocator bt, st) p
        in (bt\<lparr>bb_bitmap_data_allocator := pa\<rparr>, st)),
     p_mem_stats = None\<rparr>"

definition fdb_bittable_get_bitset :: "'st fdb_bittable_t \<Rightarrow> u32 \<Rightarrow> ptr res" where
  "fdb_bittable_get_bitset bt bitset_id = fdb_btree_get (bb_bitmaps bt) bitset_id"

text \<open>An empty bitmap for a block id that has none: the part \<open>apply_bitset\<close> and \<open>add\<close> share.\<close>

definition new_bitset :: "'st fdb_bittable_t \<times> 'st \<Rightarrow> u32 \<Rightarrow> (ptr \<times> ('st fdb_bittable_t \<times> 'st)) res" where
  "new_bitset bs bitset_id =
     (let (bt, st) = bs;
          (p, (pa, st)) = mem_alloc fdb_pool_alloc_super (bb_bitmap_allocator bt, st) FDB_BITMAP_ALIGNMENT sizeof_bitmap
             FDB_NO_HINT
      in if p = NULL then Inl NullDeref else
         bind_res (fdb_bitmap_init FDB_TABLE_BLOCK_SIZE bittable_data_super (bt\<lparr>bb_bitmap_allocator := pa\<rparr>, st)) (\<lambda>(bm, (bt, st)).
         bind_res (fdb_btree_insert (bb_bitmaps bt, st) bitset_id p) (\<lambda>(_, (bitmaps, st)).
         Inr (p, (bt\<lparr>bb_heap := (bb_heap bt)(p \<mapsto> bm), bb_bitmaps := bitmaps\<rparr>, st)))))"

definition bitset_op :: "fdb_bittable_op_t \<Rightarrow> fdb_bitmap_t \<Rightarrow> fdb_bitmap_t \<Rightarrow> fdb_bitmap_t res" where
  "bitset_op op = (case op of E_AND \<Rightarrow> fdb_bitmap_set_and | E_OR \<Rightarrow> fdb_bitmap_set_or | E_DIFF \<Rightarrow> fdb_bitmap_set_diff)"

definition fdb_bittable_apply_bitset ::
  "'st fdb_bittable_t \<times> 'st \<Rightarrow> u32 \<Rightarrow> fdb_bitmap_t \<Rightarrow> fdb_bittable_op_t \<Rightarrow> ('st fdb_bittable_t \<times> 'st) res" where
  "fdb_bittable_apply_bitset bs i bitmap op =
     bind_res (fdb_bittable_get_bitset (fst bs) i) (\<lambda>p.
     if p \<noteq> NULL then
       bind_res (bitmap_at (bb_heap (fst bs)) p) (\<lambda>bm.
       bind_res (bitset_op op bm bitmap) (\<lambda>bm'.
       let (bt, st) = bs in
       Inr (bt\<lparr>bb_size := bb_size bt - bm_num_set bm + bm_num_set bm', bb_heap := (bb_heap bt)(p \<mapsto> bm')\<rparr>, st)))
     else if op = E_OR then
       bind_res (new_bitset bs i) (\<lambda>(p, (bt, st)).
       bind_res (bitmap_at (bb_heap bt) p) (\<lambda>bm.
       bind_res (fdb_bitmap_set_or bm bitmap) (\<lambda>bm'.
       Inr (bt\<lparr>bb_size := bb_size bt + bm_num_set bm', bb_heap := (bb_heap bt)(p \<mapsto> bm')\<rparr>, st))))
     else Inr bs)"

definition fdb_bittable_init ::
  "'st fdb_mem_allocator_t option \<Rightarrow> 'st fdb_mem_allocator_t \<Rightarrow> (ptr \<Rightarrow> ptr) \<Rightarrow> 'st \<Rightarrow> ('st fdb_bittable_t \<times> 'st) res" where
  "fdb_bittable_init allocator gallocator mem st =
     bind_res (fdb_btree_init allocator gallocator mem st) (\<lambda>(bitmaps, st).
     bind_res (fdb_pool_alloc_init FDB_BITMAP_ALIGNMENT sizeof_bitmap FDB_BITMAP_PAGE_SIZE allocator gallocator mem) (\<lambda>ba.
     bind_res (fdb_pool_alloc_init FDB_BITMAP_ALIGNMENT (FDB_BITMAP_NUM_CHUNKS FDB_TABLE_BLOCK_SIZE)
       FDB_BITMAP_DATA_PAGE_SIZE allocator gallocator mem) (\<lambda>da.
     Inr (\<lparr>bb_bitmaps = bitmaps, bb_size = 0, bb_bitmap_allocator = ba, bb_bitmap_data_allocator = da,
            bb_heap = Map.empty\<rparr>, st))))"

definition fdb_bittable_exists :: "'st fdb_bittable_t \<Rightarrow> u32 \<Rightarrow> bool res" where
  "fdb_bittable_exists bt i =
     bind_res (fdb_btree_get (bb_bitmaps bt) (i div FDB_TABLE_BLOCK_SIZE)) (\<lambda>p.
     if p = NULL then Inr False else
     bind_res (bitmap_at (bb_heap bt) p) (\<lambda>bm. fdb_bitmap_is_set bm (i mod FDB_TABLE_BLOCK_SIZE)))"

definition fdb_bittable_add :: "'st fdb_bittable_t \<times> 'st \<Rightarrow> u32 \<Rightarrow> ('st fdb_bittable_t \<times> 'st) res" where
  "fdb_bittable_add bs i =
     (let bitset_id = i div FDB_TABLE_BLOCK_SIZE in
     bind_res (fdb_btree_get (bb_bitmaps (fst bs)) bitset_id) (\<lambda>p.
     bind_res (if p = NULL then new_bitset bs bitset_id else Inr (p, bs)) (\<lambda>(p, (bt, st)).
     let offset = i mod FDB_TABLE_BLOCK_SIZE in
     bind_res (bitmap_at (bb_heap bt) p) (\<lambda>bm.
     bind_res (fdb_bitmap_is_set bm offset) (\<lambda>e.
     if \<not> e then
       bind_res (fdb_bitmap_set bm offset) (\<lambda>bm'.
       Inr (bt\<lparr>bb_size := bb_size bt + 1, bb_heap := (bb_heap bt)(p \<mapsto> bm')\<rparr>, st))
     else Inr (bt, st))))))"

definition fdb_bittable_remove :: "'st fdb_bittable_t \<Rightarrow> u32 \<Rightarrow> 'st fdb_bittable_t res" where
  "fdb_bittable_remove bt i =
     bind_res (fdb_bittable_get_bitset bt (i div FDB_TABLE_BLOCK_SIZE)) (\<lambda>p.
     if p = NULL then Inr bt else
     let offset = i mod FDB_TABLE_BLOCK_SIZE in
     bind_res (bitmap_at (bb_heap bt) p) (\<lambda>bm.
     bind_res (fdb_bitmap_is_set bm offset) (\<lambda>e.
     if e then
       bind_res (fdb_bitmap_unset bm (i mod FDB_TABLE_BLOCK_SIZE)) (\<lambda>bm'.
       Inr (bt\<lparr>bb_size := bb_size bt - 1, bb_heap := (bb_heap bt)(p \<mapsto> bm')\<rparr>))
     else Inr bt)))"

definition fdb_bittable_get_bitmap :: "'st fdb_bittable_t \<Rightarrow> u32 \<Rightarrow> ptr res" where
  "fdb_bittable_get_bitmap bt i = fdb_bittable_get_bitset bt (i div FDB_TABLE_BLOCK_SIZE)"

definition fdb_bittable_size :: "'st fdb_bittable_t \<Rightarrow> u32" where
  "fdb_bittable_size bt = bb_size bt"

text \<open>The loops over the tree have fuel, one unit per entry.\<close>

fun clear_bitmaps :: "nat \<Rightarrow> btheap \<Rightarrow> fdb_btree_iter_t \<Rightarrow> (ptr \<rightharpoonup> fdb_bitmap_t) \<Rightarrow> (ptr \<rightharpoonup> fdb_bitmap_t) res" where
  "clear_bitmaps 0 h it hp = Inl OutOfFuel"
| "clear_bitmaps (Suc fuel) h it hp =
     bind_res (fdb_btree_iter_has_next h it) (\<lambda>more.
     if more then
       bind_res (fdb_btree_iter_next h it) (\<lambda>(entry, it).
       bind_res (bitmap_at hp (be_value entry)) (\<lambda>bm.
       bind_res (fdb_bitmap_nullify bm) (\<lambda>bm'.
       clear_bitmaps fuel h it (hp(be_value entry \<mapsto> bm')))))
     else Inr hp)"

definition fdb_bittable_clear :: "nat \<Rightarrow> 'st fdb_bittable_t \<Rightarrow> 'st fdb_bittable_t res" where
  "fdb_bittable_clear fuel bt =
     bind_res (fdb_btree_iter_init (bb_bitmaps bt)) (\<lambda>it.
     bind_res (clear_bitmaps fuel (bt_nodes (bb_bitmaps bt)) it (bb_heap bt)) (\<lambda>hp.
     Inr (bt\<lparr>bb_heap := hp, bb_size := 0\<rparr>)))"

fun apply_all ::
  "nat \<Rightarrow> fdb_bittable_op_t \<Rightarrow> 'st fdb_bittable_t \<Rightarrow> fdb_btree_iter_t \<Rightarrow> 'st fdb_bittable_t \<times> 'st \<Rightarrow>
   ('st fdb_bittable_t \<times> 'st) res" where
  "apply_all 0 op other it bs = Inl OutOfFuel"
| "apply_all (Suc fuel) op other it bs =
     bind_res (fdb_btree_iter_has_next (bt_nodes (bb_bitmaps other)) it) (\<lambda>more.
     if more then
       bind_res (fdb_btree_iter_next (bt_nodes (bb_bitmaps other)) it) (\<lambda>(entry, it).
       bind_res (bitmap_at (bb_heap other) (be_value entry)) (\<lambda>bitmap.
       bind_res (fdb_bittable_apply_bitset bs (be_key entry) bitmap op) (\<lambda>bs.
       apply_all fuel op other it bs)))
     else Inr bs)"

definition fdb_bittable_union ::
  "nat \<Rightarrow> 'st fdb_bittable_t \<times> 'st \<Rightarrow> 'st fdb_bittable_t \<Rightarrow> ('st fdb_bittable_t \<times> 'st) res" where
  "fdb_bittable_union fuel bs other =
     bind_res (fdb_btree_iter_init (bb_bitmaps other)) (\<lambda>it. apply_all fuel E_OR other it bs)"

definition fdb_bittable_difference ::
  "nat \<Rightarrow> 'st fdb_bittable_t \<times> 'st \<Rightarrow> 'st fdb_bittable_t \<Rightarrow> ('st fdb_bittable_t \<times> 'st) res" where
  "fdb_bittable_difference fuel bs other =
     bind_res (fdb_btree_iter_init (bb_bitmaps other)) (\<lambda>it. apply_all fuel E_DIFF other it bs)"

fun release_bitmaps ::
  "nat \<Rightarrow> fdb_btree_iter_t \<Rightarrow> 'st fdb_bittable_t \<times> 'st \<Rightarrow> ('st fdb_bittable_t \<times> 'st) res" where
  "release_bitmaps 0 it bs = Inl OutOfFuel"
| "release_bitmaps (Suc fuel) it bs =
     bind_res (fdb_btree_iter_has_next (bt_nodes (bb_bitmaps (fst bs))) it) (\<lambda>more.
     if more then
       bind_res (fdb_btree_iter_next (bt_nodes (bb_bitmaps (fst bs))) it) (\<lambda>(entry, it).
       bind_res (bitmap_at (bb_heap (fst bs)) (be_value entry)) (\<lambda>bm.
       let (bt, st) = fdb_bitmap_release bm bittable_data_super bs;
           (pa, st) = mem_free fdb_pool_alloc_super (bb_bitmap_allocator bt, st) (be_value entry)
       in release_bitmaps fuel it
            (bt\<lparr>bb_bitmap_allocator := pa, bb_heap := (bb_heap bt)(be_value entry := None)\<rparr>, st)))
     else Inr bs)"

definition fdb_bittable_release :: "nat \<Rightarrow> 'st fdb_bittable_t \<times> 'st \<Rightarrow> ('st fdb_bittable_t \<times> 'st) res" where
  "fdb_bittable_release fuel bs =
     bind_res (fdb_btree_iter_init (bb_bitmaps (fst bs))) (\<lambda>it.
     bind_res (release_bitmaps fuel it bs) (\<lambda>(bt, st).
     bind_res (fdb_btree_release fuel (bb_bitmaps bt, st)) (\<lambda>(bitmaps, st).
     bind_res (fdb_pool_alloc_release fuel (bb_bitmap_data_allocator bt, st)) (\<lambda>(da, st).
     bind_res (fdb_pool_alloc_release fuel (bb_bitmap_allocator bt, st)) (\<lambda>(ba, st).
     Inr (bt\<lparr>bb_bitmaps := bitmaps, bb_size := 0, bb_bitmap_data_allocator := da, bb_bitmap_allocator := ba\<rparr>, st))))))"

section \<open>The set a bit table stands for\<close>

definition ids_at :: "u32 \<Rightarrow> nat set \<Rightarrow> u32 set" where
  "ids_at b B = {i. i div 256 = b \<and> unat (i mod 256) \<in> B}"

definition bitset_ok :: "u32 \<Rightarrow> u32 set \<Rightarrow> fdb_bitmap_t \<Rightarrow> bool" where
  "bitset_ok b A bm \<longleftrightarrow> bm_inv bm \<and> bm_max_bits bm = 256 \<and> A \<inter> {i. i div 256 = b} = ids_at b (bits bm)"

definition bittable_view :: "'st fdb_bittable_t \<Rightarrow> entries \<Rightarrow> u32 set \<Rightarrow> bool" where
  "bittable_view t xs A \<longleftrightarrow> btree_holds (bb_bitmaps t) xs \<and> distinct (map snd xs) \<and>
     dom (bb_heap t) = snd ` set xs \<and>
     (\<forall>b p. (b, p) \<in> set xs \<longrightarrow> p \<noteq> NULL \<and> unat b < 2 ^ 24 \<and> (\<exists>k. bb_heap t p = Some k \<and> bitset_ok b A k)) \<and>
     (\<forall>i\<in>A. i div 256 \<in> fst ` set xs) \<and> bb_size t = of_nat (card A)"

lemma bits_256: "bm_inv bm \<Longrightarrow> bm_max_bits bm = 256 \<Longrightarrow> bits bm \<subseteq> {..<256}"
  by (simp add: bm_inv_def)

lemma card_ids_at:
  assumes "unat b < 2 ^ 24" "B \<subseteq> {..<256}" shows "card (ids_at b B) = card B"
proof (rule bij_betw_same_card [of "\<lambda>i. unat (i mod 256)"])
  show "bij_betw (\<lambda>i. unat (i mod 256)) (ids_at b B) B"
    unfolding bij_betw_def
  proof (intro conjI inj_onI set_eqI iffI)
    fix x y assume xy: "x \<in> ids_at b B" "y \<in> ids_at b B" and eq: "unat (x mod 256) = unat (y mod 256)"
    have "x div 256 = b" "y div 256 = b" using xy unfolding ids_at_def by blast+
    then have same: "x div 256 = y div 256" by (rule trans [OF _ sym])
    show "x = y" by (rule id_parts [OF same eq])
  next
    fix i assume i: "i \<in> B"
    then have "b * 256 + of_nat i \<in> ids_at b B" "unat ((b * 256 + of_nat i) mod 256) = i"
      using block_position [OF assms(1), of i] assms(2) by (auto simp: ids_at_def)
    then show "i \<in> (\<lambda>i. unat (i mod 256)) ` ids_at b B" by (metis imageI)
  qed (auto simp: ids_at_def)
qed

lemma num_set_card: "bm_inv bm \<Longrightarrow> bm_num_set bm = of_nat (card (bits bm))"
  unfolding bm_inv_def by (metis of_nat_unat ucast_id)

abbreviation ids_of :: "u32 \<Rightarrow> u32 set" where "ids_of b \<equiv> {i. i div 256 = b}"

lemma ids_at_block: "ids_at b B \<subseteq> ids_of b"
  unfolding ids_at_def by blast

lemma bittable_view_ascending: "bittable_view t xs A \<Longrightarrow> ascending xs"
  unfolding bittable_view_def using btree_holds_ascending by blast

lemma bitset_absent:
  assumes "bittable_view t xs A" "b \<notin> fst ` set xs"
  shows "fdb_btree_get (bb_bitmaps t) b = Inr NULL" "A \<inter> ids_of b = {}"
proof -
  have "map_of xs b = None" using assms(2) by (simp only: map_of_eq_None_iff not_False_eq_True)
  moreover have "btree_holds (bb_bitmaps t) xs" using assms(1) by (simp add: bittable_view_def)
  ultimately show "fdb_btree_get (bb_bitmaps t) b = Inr NULL" using get_spec by (fastforce simp: lookup_def)
  show "A \<inter> ids_of b = {}" using assms unfolding bittable_view_def by blast
qed

lemma bitset_present:
  assumes "bittable_view t xs A" "b \<in> fst ` set xs"
  obtains p k where "(b, p) \<in> set xs" "fdb_btree_get (bb_bitmaps t) b = Inr p" "p \<noteq> NULL" "bb_heap t p = Some k"
    "bitmap_at (bb_heap t) p = Inr k" "bitset_ok b A k" "unat b < 2 ^ 24"
proof -
  obtain p where p: "(b, p) \<in> set xs" using assms(2) by auto
  have d: "distinct (map fst xs)" using bittable_view_ascending [OF assms(1)] by (simp add: strict_sorted_iff)
  have "map_of xs b = Some p" using p d by simp
  moreover have h: "btree_holds (bb_bitmaps t) xs" using assms(1) by (simp add: bittable_view_def)
  ultimately have "fdb_btree_get (bb_bitmaps t) b = Inr p" using get_spec [OF h, of b] by (simp add: lookup_def)
  moreover obtain k where "p \<noteq> NULL" "bb_heap t p = Some k" "bitset_ok b A k" "unat b < 2 ^ 24"
    using assms(1) p unfolding bittable_view_def by blast
  ultimately show thesis using that p by (simp add: bitmap_at_def)
qed

lemma bitset_ok_other: "bitset_ok c A k \<Longrightarrow> c \<noteq> b \<Longrightarrow> bitset_ok c (A - ids_of b \<union> ids_at b B) k"
  unfolding bitset_ok_def ids_at_def by blast

lemma card_of_bitset:
  assumes "bitset_ok b A k" "unat b < 2 ^ 24"
  shows "(of_nat (card A) :: u32) = of_nat (card (A - ids_of b)) + bm_num_set k"
proof -
  note k = assms(1) [unfolded bitset_ok_def]
  have "A = (A - ids_of b) \<union> ids_at b (bits k)" using k by blast
  then have "card A = card ((A - ids_of b) \<union> ids_at b (bits k))" by simp
  also have "\<dots> = card (A - ids_of b) + card (ids_at b (bits k))"
    by (rule card_Un_disjoint) (use ids_at_block in auto)
  also have "card (ids_at b (bits k)) = card (bits k)" by (rule card_ids_at [OF assms(2) bits_256]) (use k in simp_all)
  finally have "card A = card (A - ids_of b) + card (bits k)" .
  then show ?thesis using num_set_card k by simp
qed

text \<open>One bitmap is replaced by another.\<close>

lemma bitset_put:
  assumes v: "bittable_view t xs A" and p: "(b, p) \<in> set xs" "bb_heap t p = Some k"
    and k: "bm_inv k'" "bm_max_bits k' = 256" and t': "bb_heap t' = (bb_heap t)(p \<mapsto> k')" "bb_bitmaps t' = bb_bitmaps t"
    "bb_size t' = bb_size t - bm_num_set k + bm_num_set k'"
  shows "bittable_view t' xs (A - ids_of b \<union> ids_at b (bits k'))"
proof -
  let ?A = "A - ids_of b \<union> ids_at b (bits k')"
  have v1: "distinct (map snd xs)" "dom (bb_heap t) = snd ` set xs" "btree_holds (bb_bitmaps t) xs"
    "\<forall>i\<in>A. i div 256 \<in> fst ` set xs" "bb_size t = of_nat (card A)"
    and v2: "\<And>b p. (b, p) \<in> set xs \<Longrightarrow> p \<noteq> NULL \<and> unat b < 2 ^ 24 \<and> (\<exists>k. bb_heap t p = Some k \<and> bitset_ok b A k)"
    using v unfolding bittable_view_def by blast+
  have d: "distinct (map fst xs)" using bittable_view_ascending [OF v] by (simp add: strict_sorted_iff)
  have ok: "bitset_ok b ?A k'" using k unfolding bitset_ok_def ids_at_def by blast
  have lt: "unat b < 2 ^ 24" and old: "bitset_ok b A k" using v2 [OF p(1)] p(2) by auto
  have "q \<noteq> NULL \<and> unat c < 2 ^ 24 \<and> (\<exists>l. bb_heap t' q = Some l \<and> bitset_ok c ?A l)" if q: "(c, q) \<in> set xs" for c q
  proof (cases "q = p")
    case True
    then have "c = b" using distinct_snd [OF v1(1) _ p(1)] q by blast
    then show ?thesis using True v2 [OF q] ok t' by simp
  next
    case False
    then have "c \<noteq> b" using p q d by (metis eq_key_imp_eq_value)
    obtain l where l: "q \<noteq> NULL" "unat c < 2 ^ 24" "bb_heap t q = Some l" "bitset_ok c A l" using v2 [OF q] by blast
    have "bb_heap t' q = Some l" using l(3) False t'(1) by simp
    moreover have "bitset_ok c ?A l" by (rule bitset_ok_other [OF l(4) \<open>c \<noteq> b\<close>])
    ultimately show ?thesis using l(1,2) by blast
  qed
  moreover have "p \<in> snd ` set xs" "b \<in> fst ` set xs" using p(1) by force+
  then have "dom (bb_heap t') = snd ` set xs" "\<forall>i\<in>?A. i div 256 \<in> fst ` set xs"
    using v1(2,4) t'(1) unfolding ids_at_def by auto
  moreover have "?A - ids_of b = A - ids_of b" using ids_at_block by auto
  then have "bb_size t' = of_nat (card ?A)"
    using card_of_bitset [OF old lt] card_of_bitset [OF ok lt] t'(3) v1(5) by simp
  ultimately show ?thesis unfolding bittable_view_def using v1(1,3) t'(2) by simp
qed

text \<open>An empty bitmap joins.\<close>

lemma bitset_new:
  assumes v: "bittable_view t xs A" and b: "b \<notin> fst ` set xs" "unat b < 2 ^ 24" and p: "p \<noteq> NULL" "bb_heap t p = None"
    and t': "btree_holds (bb_bitmaps t') (ins b p xs)" "bb_heap t' = (bb_heap t)(p \<mapsto> k)" "bb_size t' = bb_size t"
    and k: "bm_inv k" "bm_max_bits k = 256" "bits k = {}"
  shows "bittable_view t' (ins b p xs) A"
proof -
  have v1: "distinct (map snd xs)" "dom (bb_heap t) = snd ` set xs" "\<forall>i\<in>A. i div 256 \<in> fst ` set xs" "bb_size t = of_nat (card A)"
    and v2: "\<And>b p. (b, p) \<in> set xs \<Longrightarrow> p \<noteq> NULL \<and> unat b < 2 ^ 24 \<and> (\<exists>k. bb_heap t p = Some k \<and> bitset_ok b A k)"
    using v unfolding bittable_view_def by blast+
  have asc: "ascending xs" by (rule bittable_view_ascending [OF v])
  have np: "p \<notin> snd ` set xs" using p(2) v1(2) by blast
  have set: "set (ins b p xs) = insert (b, p) (set xs)" by (rule set_ins_new [OF asc b(1)])
  have ok: "bitset_ok b A k" using k bitset_absent(2) [OF v b(1)] by (simp add: bitset_ok_def ids_at_def)
  have "distinct (map snd (ins b p xs))" by (rule distinct_snd_ins [OF b(1) v1(1) np asc])
  moreover have "dom (bb_heap t') = snd ` set (ins b p xs)" using v1(2) t'(2) set by auto
  moreover have "q \<noteq> NULL \<and> unat c < 2 ^ 24 \<and> (\<exists>l. bb_heap t' q = Some l \<and> bitset_ok c A l)"
    if q: "(c, q) \<in> set (ins b p xs)" for c q
  proof (cases "q = p")
    case True
    then have "(c, q) = (b, p)" using q np set by (auto simp: image_iff)
    then show ?thesis using p(1) b(2) ok t' by simp
  next
    case False
    then have "(c, q) \<in> set xs" using q set by auto
    then show ?thesis using v2 t' False by simp
  qed
  ultimately show ?thesis unfolding bittable_view_def using t'(1,3) v1(3,4) set by simp
qed

section \<open>Operations that stay within the bitmaps\<close>

lemma mod_in_bits: "bitset_ok (i div 256) A k \<Longrightarrow> fdb_bitmap_is_set k (i mod 256) = Inr (i \<in> A)"
proof -
  assume k: "bitset_ok (i div 256) A k"
  then have "fdb_bitmap_is_set k (i mod 256) = Inr (unat (i mod 256) \<in> bits k)"
    using fdb_bitmap_is_set_iff [of k "i mod 256"] mod_256_lt [of i] by (simp add: bitset_ok_def)
  moreover have "unat (i mod 256) \<in> bits k \<longleftrightarrow> i \<in> A" using k unfolding bitset_ok_def ids_at_def by blast
  ultimately show ?thesis by simp
qed

lemma exists_spec:
  assumes "bittable_view t xs A" shows "fdb_bittable_exists t i = Inr (i \<in> A)"
proof (cases "i div 256 \<in> fst ` set xs")
  case False
  then show ?thesis using bitset_absent [OF assms False] by (auto simp: fdb_bittable_exists_def FDB_TABLE_BLOCK_SIZE_def)
next
  case True
  obtain p k where "fdb_btree_get (bb_bitmaps t) (i div 256) = Inr p" "p \<noteq> NULL" "bitmap_at (bb_heap t) p = Inr k"
    "bitset_ok (i div 256) A k" by (rule bitset_present [OF assms True])
  then show ?thesis using mod_in_bits by (simp add: fdb_bittable_exists_def FDB_TABLE_BLOCK_SIZE_def)
qed

text \<open>The structures stay where they are, with their bytes.\<close>

definition bitset_ptrs :: "(ptr \<rightharpoonup> fdb_bitmap_t) \<Rightarrow> ptr \<Rightarrow> ptr list option" where
  "bitset_ptrs h p = map_option (\<lambda>k. [bm_p_data k]) (h p)"

definition same_bitsets :: "'st fdb_bittable_t \<Rightarrow> 'st fdb_bittable_t \<Rightarrow> bool" where
  "same_bitsets t t' \<longleftrightarrow> bb_bitmaps t' = bb_bitmaps t \<and> bb_bitmap_allocator t' = bb_bitmap_allocator t \<and>
     bb_bitmap_data_allocator t' = bb_bitmap_data_allocator t \<and> bitset_ptrs (bb_heap t') = bitset_ptrs (bb_heap t) \<and>
     dom (bb_heap t') = dom (bb_heap t)"

lemma same_bitsets_refl [simp]: "same_bitsets t t"
  by (simp add: same_bitsets_def)

lemma same_bitsets_put: "bb_heap t p = Some k \<Longrightarrow> bm_p_data k' = bm_p_data k \<Longrightarrow>
    same_bitsets t (t\<lparr>bb_size := n, bb_heap := (bb_heap t)(p \<mapsto> k')\<rparr>)"
  by (auto simp: same_bitsets_def bitset_ptrs_def fun_eq_iff)

lemma add_present:
  assumes v: "bittable_view t xs A" and b: "i div 256 \<in> fst ` set xs"
  shows "\<exists>t'. fdb_bittable_add (t, st) i = Inr (t', st) \<and> bittable_view t' xs (insert i A) \<and> same_bitsets t t'"
proof -
  obtain p k where p: "(i div 256, p) \<in> set xs" "fdb_btree_get (bb_bitmaps t) (i div 256) = Inr p" "p \<noteq> NULL"
    "bb_heap t p = Some k" "bitmap_at (bb_heap t) p = Inr k" "bitset_ok (i div 256) A k"
    by (rule bitset_present [OF v b])
  note k = p(6) [unfolded bitset_ok_def] and is_in = mod_in_bits [OF p(6)]
  show ?thesis
  proof (cases "i \<in> A")
    case True
    then show ?thesis using p is_in v by (simp add: fdb_bittable_add_def FDB_TABLE_BLOCK_SIZE_def insert_absorb)
  next
    case False
    obtain k' where k': "fdb_bitmap_set k (i mod 256) = Inr k'" "bm_inv k'" "bits k' = insert (unat (i mod 256)) (bits k)"
      "bm_max_bits k' = bm_max_bits k" "bm_p_data k' = bm_p_data k"
      by (rule fdb_bitmap_set_spec [of k "i mod 256"]) (use k mod_256_lt [of i] in simp_all)
    have new: "unat (i mod 256) \<notin> bits k" using False k unfolding ids_at_def by blast
    then have n: "bm_num_set k' = bm_num_set k + 1" using k k'(2,3) by (simp add: num_set_card)
    let ?t = "t\<lparr>bb_size := bb_size t + 1, bb_heap := (bb_heap t)(p \<mapsto> k')\<rparr>"
    have "fdb_bittable_add (t, st) i = Inr (?t, st)"
      using p is_in k'(1) False by (simp add: fdb_bittable_add_def FDB_TABLE_BLOCK_SIZE_def)
    moreover have "bittable_view ?t xs (A - ids_of (i div 256) \<union> ids_at (i div 256) (bits k'))"
      by (rule bitset_put [OF v p(1,4)]) (use k k' n in simp_all)
    moreover have "A - ids_of (i div 256) \<union> ids_at (i div 256) (bits k') = insert i A"
      using k k'(3) id_parts unfolding ids_at_def by blast
    ultimately show ?thesis using same_bitsets_put [where k' = k', OF p(4) k'(5)] by auto
  qed
qed

lemma remove_spec:
  assumes v: "bittable_view t xs A"
  shows "\<exists>t'. fdb_bittable_remove t i = Inr t' \<and> bittable_view t' xs (A - {i}) \<and> same_bitsets t t'"
proof (cases "i div 256 \<in> fst ` set xs")
  case False
  have "i \<notin> A" using bitset_absent(2) [OF v False] by blast
  then show ?thesis using bitset_absent(1) [OF v False] v
    by (simp add: fdb_bittable_remove_def fdb_bittable_get_bitset_def FDB_TABLE_BLOCK_SIZE_def)
next
  case True
  obtain p k where p: "(i div 256, p) \<in> set xs" "fdb_btree_get (bb_bitmaps t) (i div 256) = Inr p" "p \<noteq> NULL"
    "bb_heap t p = Some k" "bitmap_at (bb_heap t) p = Inr k" "bitset_ok (i div 256) A k"
    by (rule bitset_present [OF v True])
  note k = p(6) [unfolded bitset_ok_def] and is_in = mod_in_bits [OF p(6)]
  show ?thesis
  proof (cases "i \<in> A")
    case False
    then show ?thesis using p is_in v
      by (simp add: fdb_bittable_remove_def fdb_bittable_get_bitset_def FDB_TABLE_BLOCK_SIZE_def)
  next
    case True
    obtain k' where k': "fdb_bitmap_unset k (i mod 256) = Inr k'" "bm_inv k'" "bits k' = bits k - {unat (i mod 256)}"
      "bm_max_bits k' = bm_max_bits k" "bm_p_data k' = bm_p_data k"
      by (rule fdb_bitmap_unset_spec [of k "i mod 256"]) (use k mod_256_lt [of i] in simp_all)
    have old: "unat (i mod 256) \<in> bits k" using True k unfolding ids_at_def by blast
    then have "card (bits k) = Suc (card (bits k'))" unfolding k'(3) by (intro card.remove) simp_all
    then have n: "bm_num_set k' = bm_num_set k - 1" using k k'(2) by (simp add: num_set_card)
    let ?t = "t\<lparr>bb_size := bb_size t - 1, bb_heap := (bb_heap t)(p \<mapsto> k')\<rparr>"
    have "fdb_bittable_remove t i = Inr ?t" using p is_in k'(1) True
      by (simp add: fdb_bittable_remove_def fdb_bittable_get_bitset_def FDB_TABLE_BLOCK_SIZE_def)
    moreover have "bittable_view ?t xs (A - ids_of (i div 256) \<union> ids_at (i div 256) (bits k'))"
      by (rule bitset_put [OF v p(1,4)]) (use k k' n in simp_all)
    moreover have "A - ids_of (i div 256) \<union> ids_at (i div 256) (bits k') = A - {i}"
      using k k'(3) id_parts unfolding ids_at_def by blast
    ultimately show ?thesis using same_bitsets_put [where k' = k', OF p(4) k'(5)] by auto
  qed
qed

section \<open>The memory of a bit table\<close>

datatype bittable_client = BBitmaps | BData | BTree

definition bittable_mem ::
  "('st \<Rightarrow> u32 \<Rightarrow> u32 \<Rightarrow> u32 \<Rightarrow> ptr \<times> 'st) \<Rightarrow> ('st \<Rightarrow> ptr \<Rightarrow> 'st) \<Rightarrow> (u32 \<Rightarrow> u32 \<Rightarrow> bool) \<Rightarrow> 'st fdb_bittable_t \<Rightarrow>
   (bittable_client \<Rightarrow> ptr \<rightharpoonup> nat) \<Rightarrow> bool" where
  "bittable_mem alloc free S t Ps \<longleftrightarrow>
     (\<exists>bl. pool_holds alloc free (bb_bitmap_allocator t) (Ps BBitmaps) bl \<and> dom bl = dom (bb_heap t)) \<and>
     (\<exists>dl. pool_holds alloc free (bb_bitmap_data_allocator t) (Ps BData) dl \<and> owned (bitset_ptrs (bb_heap t)) dl) \<and>
     pool_takes S (bb_bitmap_allocator t) 64 128 \<and> pool_takes S (bb_bitmap_data_allocator t) 64 32 \<and>
     tree_client alloc free S (bb_bitmaps t) (Ps BTree)"

lemma same_bitsets_mem: "same_bitsets t t' \<Longrightarrow> bittable_mem alloc free S t Ps \<Longrightarrow> bittable_mem alloc free S t' Ps"
  unfolding same_bitsets_def bittable_mem_def by simp

lemma bitset_ptrs_upd: "bitset_ptrs (h(p \<mapsto> k)) = (bitset_ptrs h)(p \<mapsto> [bm_p_data k])"
  by (simp add: bitset_ptrs_def fun_eq_iff)

definition bittable_state ::
  "('st \<Rightarrow> u32 \<Rightarrow> u32 \<Rightarrow> u32 \<Rightarrow> ptr \<times> 'st) \<Rightarrow> ('st \<Rightarrow> ptr \<Rightarrow> 'st) \<Rightarrow> ('st \<Rightarrow> (ptr \<rightharpoonup> nat) \<Rightarrow> bool) \<Rightarrow> (u32 \<Rightarrow> u32 \<Rightarrow> bool) \<Rightarrow>
   (bittable_client \<Rightarrow> 'c) \<Rightarrow> 'st fdb_bittable_t \<times> 'st \<Rightarrow> ('c \<Rightarrow> ptr \<rightharpoonup> nat) \<Rightarrow> entries \<Rightarrow> u32 set \<Rightarrow> bool" where
  "bittable_state alloc free ainv S e bs Ps xs A \<longleftrightarrow> (case bs of (t, st) \<Rightarrow>
     bittable_view t xs A \<and> bittable_mem alloc free S t (Ps \<circ> e) \<and> clients ainv st Ps)"

context steady_provider
begin

abbreviation bitstate :: "(bittable_client \<Rightarrow> 'c) \<Rightarrow> 'a fdb_bittable_t \<times> 'a \<Rightarrow> ('c \<Rightarrow> ptr \<rightharpoonup> nat) \<Rightarrow> entries \<Rightarrow> u32 set \<Rightarrow> bool" where
  "bitstate \<equiv> bittable_state alloc free ainv S"

lemma bitstate_same: "bitstate e (t, st) Ps xs A \<Longrightarrow> same_bitsets t t' \<Longrightarrow> bittable_view t' ys B \<Longrightarrow> bitstate e (t', st) Ps ys B"
  unfolding bittable_state_def using same_bitsets_mem by auto

lemma new_bitset_spec:
  assumes s: "bitstate e (t, st) Ps xs A" and e: "inj e" and room: "room st (18 + n)"
    and b: "b \<notin> fst ` set xs" "unat b < 2 ^ 24"
  shows "\<exists>p k t' st' Ps'. new_bitset (t, st) b = Inr (p, (t', st')) \<and> bb_heap t' p = Some k \<and>
    bm_inv k \<and> bm_max_bits k = 256 \<and> bits k = {} \<and> p \<noteq> NULL \<and> room st' n \<and>
    bitstate e (t', st') Ps' (ins b p xs) A \<and> (\<forall>c. c \<notin> range e \<longrightarrow> Ps' c = Ps c)"
proof -
  have ne: "e x = e y \<longleftrightarrow> x = y" for x y using e by (auto dest: injD)
  have v: "bittable_view t xs A" and m: "bittable_mem alloc free S t (Ps \<circ> e)" and cl: "clients ainv st Ps"
    using s by (simp_all add: bittable_state_def)
  obtain bl dl where h: "pool_holds alloc free (bb_bitmap_allocator t) (Ps (e BBitmaps)) bl" "dom bl = dom (bb_heap t)"
    "pool_holds alloc free (bb_bitmap_data_allocator t) (Ps (e BData)) dl" "owned (bitset_ptrs (bb_heap t)) dl"
    using m by (auto simp: bittable_mem_def)
  have tk: "pool_takes S (bb_bitmap_allocator t) 64 128" "pool_takes S (bb_bitmap_data_allocator t) 64 32"
    "tree_client alloc free S (bb_bitmaps t) (Ps (e BTree))" using m by (simp_all add: bittable_mem_def)
  obtain p pa1 st1 where a1: "fdb_pool_alloc_alloc (bb_bitmap_allocator t, st) 64 128 4294967295 = (p, (pa1, st1))"
    by (metis prod.collapse)
  have r1: "room st (Suc (17 + n))" using room by simp
  from client_alloc [OF cl h(1) r1 tk(1) a1] obtain P1 where
    1: "fits bl p 128" "room st1 (17 + n)" "pool_takes S pa1 = pool_takes S (bb_bitmap_allocator t)"
      "clients ainv st1 (Ps(e BBitmaps := P1))" "pool_holds alloc free pa1 P1 (bl(p \<mapsto> 128))" by (auto simp del: fun_upd_apply)
  obtain x pa2 st2 where a2: "fdb_pool_alloc_alloc (bb_bitmap_data_allocator t, st1) 64 32 (- 1) = (x, (pa2, st2))"
    by (metis prod.collapse)
  have h2: "pool_holds alloc free (bb_bitmap_data_allocator t) ((Ps(e BBitmaps := P1)) (e BData)) dl" using h(3) ne by simp
  have r2: "room st1 (Suc (16 + n))" using 1(2) by simp
  from client_alloc [OF 1(4) h2 r2 tk(2) a2] obtain P2 where
    2: "fits dl x 32" "room st2 (16 + n)" "pool_takes S pa2 = pool_takes S (bb_bitmap_data_allocator t)"
      "clients ainv st2 (Ps(e BBitmaps := P1, e BData := P2))" "pool_holds alloc free pa2 P2 (dl(x \<mapsto> 32))"
    by (auto simp del: fun_upd_apply)
  let ?Ps2 = "Ps(e BBitmaps := P1, e BData := P2)"
  have tree: "tree_client alloc free S (bb_bitmaps t) (?Ps2 (e BTree))" using tk(3) ne by simp
  have r3: "room st2 (BT_NODES + n)" using 2(2) by (simp add: BT_NODES_def)
  have pN: "p \<noteq> NULL" "x \<noteq> NULL" using 1(1) 2(1) by (simp_all add: fits_def)
  have hold: "btree_holds (bb_bitmaps t) xs" using v by (simp add: bittable_view_def)
  from client_insert [OF 2(4) tree r3 hold pN(1)] obtain res b' st3 P3 where
    3: "fdb_btree_insert (bb_bitmaps t, st2) b p = Inr (res, (b', st3))" "btree_holds b' (ins b p xs)"
      "room st3 n" "clients ainv st3 (?Ps2(e BTree := P3))" "tree_client alloc free S b' P3" by blast
  let ?k = "\<lparr>bm_max_bits = 256, bm_num_set = 0, bm_p_data = x, bm_data = replicate 32 0\<rparr>"
  let ?t = "t\<lparr>bb_bitmap_allocator := pa1, bb_bitmap_data_allocator := pa2, bb_heap := (bb_heap t)(p \<mapsto> ?k), bb_bitmaps := b'\<rparr>"
  have nc: "FDB_BITMAP_NUM_CHUNKS 256 = 32" by (simp add: FDB_BITMAP_NUM_CHUNKS_def)
  have run: "new_bitset (t, st) b = Inr (p, (?t, st3))"
    using a1 a2 3(1) pN
    by (simp add: new_bitset_def bittable_data_super_def mem_alloc_def fdb_pool_alloc_super_def fdb_bitmap_init_def nc
        FDB_BITMAP_ALIGNMENT_def FDB_TABLE_BLOCK_SIZE_def sizeof_bitmap_def FDB_NO_HINT_def)
  have k: "bm_inv ?k" "bits ?k = {}" by (simp_all add: zero_bitmap)
  have np: "bb_heap t p = None" using fits_dom [OF 1(1)] h(2) by blast
  have "bittable_view ?t (ins b p xs) A" by (rule bitset_new [OF v b pN(1) np _ _ _ k(1) _ k(2)]) (use 3(2) in simp_all)
  moreover have "owned (bitset_ptrs (bb_heap ?t)) (dl(x \<mapsto> 32))"
    using owned_new [OF h(4), of p "[x]"] fits_dom [OF 2(1)] np by (simp add: bitset_ptrs_upd) (simp add: bitset_ptrs_def)
  then have "bittable_mem alloc free S ?t (?Ps2(e BTree := P3) \<circ> e)"
    unfolding bittable_mem_def using 1(3,5) 2(3,5) 3(5) tk ne h(2)
    by (intro conjI exI [of _ "bl(p \<mapsto> 128)"] exI [of _ "dl(x \<mapsto> 32)"]) simp_all
  ultimately have "bitstate e (?t, st3) (?Ps2(e BTree := P3)) (ins b p xs) A" using 3(4) by (simp add: bittable_state_def)
  then show ?thesis using run pN 3(3) k
    by (intro exI [of _ p] exI [of _ ?k] exI [of _ ?t] exI [of _ st3] exI [of _ "?Ps2(e BTree := P3)"]) auto
qed

text \<open>A lookup after the insertion finds the new bitmap.\<close>

lemma new_bitset_get:
  assumes "bitstate e (t, st) Ps (ins b p xs) A" "ascending xs" "b \<notin> fst ` set xs"
  shows "b \<in> fst ` set (ins b p xs)" "fdb_btree_get (bb_bitmaps t) b = Inr p"
proof -
  have set: "set (ins b p xs) = insert (b, p) (set xs)" by (rule set_ins_new [OF assms(2,3)])
  then show b: "b \<in> fst ` set (ins b p xs)" by simp
  have v: "bittable_view t (ins b p xs) A" using assms(1) by (simp add: bittable_state_def)
  obtain q where "(b, q) \<in> set (ins b p xs)" "fdb_btree_get (bb_bitmaps t) b = Inr q" by (rule bitset_present [OF v b])
  moreover from this have "q = p" using set assms(3) by (auto simp: image_iff)
  ultimately show "fdb_btree_get (bb_bitmaps t) b = Inr p" by simp
qed

lemma add_spec:
  assumes s: "bitstate e (t, st) Ps xs A" and e: "inj e" and room: "room st (18 + n)"
  shows "\<exists>t' st' xs' Ps'. fdb_bittable_add (t, st) i = Inr (t', st') \<and> bitstate e (t', st') Ps' xs' (insert i A) \<and>
    fst ` set xs' = insert (i div 256) (fst ` set xs) \<and> room st' n \<and> (\<forall>c. c \<notin> range e \<longrightarrow> Ps' c = Ps c)"
proof (cases "i div 256 \<in> fst ` set xs")
  case True
  have v: "bittable_view t xs A" using s by (simp add: bittable_state_def)
  obtain t' where t': "fdb_bittable_add (t, st) i = Inr (t', st)" "bittable_view t' xs (insert i A)" "same_bitsets t t'"
    using add_present [OF v True] by blast
  have "room st n" by (rule room_le [OF room]) simp
  moreover have "fst ` set xs = insert (i div 256) (fst ` set xs)" using True by blast
  ultimately show ?thesis using t'(1) bitstate_same [OF s t'(3,2)] by blast
next
  case False
  have v: "bittable_view t xs A" using s by (simp add: bittable_state_def)
  from new_bitset_spec [OF s e room False block_id_lt] obtain p k t1 st1 Ps1 where
    1: "new_bitset (t, st) (i div 256) = Inr (p, (t1, st1))" "p \<noteq> NULL" "room st1 n"
      "bitstate e (t1, st1) Ps1 (ins (i div 256) p xs) A" "\<forall>c. c \<notin> range e \<longrightarrow> Ps1 c = Ps c" by blast
  note g = new_bitset_get [OF 1(4) bittable_view_ascending [OF v] False]
  have run: "fdb_bittable_add (t, st) i = fdb_bittable_add (t1, st1) i"
    using bitset_absent(1) [OF v False] 1(1,2) g(2) by (simp add: fdb_bittable_add_def FDB_TABLE_BLOCK_SIZE_def)
  have v1: "bittable_view t1 (ins (i div 256) p xs) A" using 1(4) by (simp add: bittable_state_def)
  obtain t' where t': "fdb_bittable_add (t1, st1) i = Inr (t', st1)" "bittable_view t' (ins (i div 256) p xs) (insert i A)"
    "same_bitsets t1 t'" using add_present [OF v1 g(1)] by blast
  have "fst ` set (ins (i div 256) p xs) = insert (i div 256) (fst ` set xs)"
    using set_ins_new [OF bittable_view_ascending [OF v] False] by simp
  then show ?thesis using run t'(1) bitstate_same [OF 1(4) t'(3,2)] 1(3,5) by auto
qed

end

section \<open>Bitmaps as a whole\<close>

fun set_op :: "fdb_bittable_op_t \<Rightarrow> 'a set \<Rightarrow> 'a set \<Rightarrow> 'a set" where
  "set_op E_AND A B = A \<inter> B"
| "set_op E_OR A B = A \<union> B"
| "set_op E_DIFF A B = A - B"

lemma set_op_ids_at: "set_op op (ids_at b B) (ids_at b C) = ids_at b (set_op op B C)"
  by (cases op) (auto simp: ids_at_def)

lemma bitset_op_spec:
  assumes "bm_inv k" "bm_max_bits k = 256" "bm_inv k2" "bm_max_bits k2 = 256"
  obtains k' where "bitset_op op k k2 = Inr k'" "bm_inv k'" "bits k' = set_op op (bits k) (bits k2)"
    "bm_max_bits k' = 256" "bm_p_data k' = bm_p_data k"
proof (cases op)
  case E_AND
  show thesis by (rule fdb_bitmap_set_and_spec [of k k2]) (use assms E_AND that in \<open>simp_all add: bitset_op_def\<close>)
next
  case E_OR
  show thesis by (rule fdb_bitmap_set_or_spec [of k k2]) (use assms E_OR that in \<open>simp_all add: bitset_op_def\<close>)
next
  case E_DIFF
  show thesis by (rule fdb_bitmap_set_diff_spec [of k k2]) (use assms E_DIFF that in \<open>simp_all add: bitset_op_def\<close>)
qed

lemma apply_present:
  assumes v: "bittable_view t xs A" and b: "b \<in> fst ` set xs" and k2: "bm_inv k2" "bm_max_bits k2 = 256"
  shows "\<exists>t'. fdb_bittable_apply_bitset (t, st) b k2 op = Inr (t', st) \<and> same_bitsets t t' \<and>
    bittable_view t' xs (A - ids_of b \<union> set_op op (A \<inter> ids_of b) (ids_at b (bits k2)))"
proof -
  obtain p k where p: "(b, p) \<in> set xs" "fdb_btree_get (bb_bitmaps t) b = Inr p" "p \<noteq> NULL" "bb_heap t p = Some k"
    "bitmap_at (bb_heap t) p = Inr k" "bitset_ok b A k" by (rule bitset_present [OF v b])
  note k = p(6) [unfolded bitset_ok_def]
  obtain k' where k': "bitset_op op k k2 = Inr k'" "bm_inv k'" "bits k' = set_op op (bits k) (bits k2)"
    "bm_max_bits k' = 256" "bm_p_data k' = bm_p_data k" by (rule bitset_op_spec [of k k2]) (use k k2 in simp_all)
  let ?t = "t\<lparr>bb_size := bb_size t - bm_num_set k + bm_num_set k', bb_heap := (bb_heap t)(p \<mapsto> k')\<rparr>"
  have "fdb_bittable_apply_bitset (t, st) b k2 op = Inr (?t, st)"
    using p k'(1) by (simp add: fdb_bittable_apply_bitset_def fdb_bittable_get_bitset_def)
  moreover have "bittable_view ?t xs (A - ids_of b \<union> ids_at b (bits k'))"
    by (rule bitset_put [OF v p(1,4)]) (use k' in simp_all)
  moreover have "ids_at b (bits k') = set_op op (A \<inter> ids_of b) (ids_at b (bits k2))"
    using k k'(3) set_op_ids_at by metis
  ultimately show ?thesis using same_bitsets_put [where k' = k', OF p(4) k'(5)] by auto
qed

lemma apply_absent:
  assumes v: "bittable_view t xs A" and b: "b \<notin> fst ` set xs" and op: "op \<noteq> E_OR"
  shows "fdb_bittable_apply_bitset (t, st) b k2 op = Inr (t, st) \<and>
    A - ids_of b \<union> set_op op (A \<inter> ids_of b) (ids_at b (bits k2)) = A"
  using bitset_absent [OF v b] op
  by (cases op) (auto simp: fdb_bittable_apply_bitset_def fdb_bittable_get_bitset_def)

context steady_provider
begin

lemma apply_spec:
  assumes s: "bitstate e (t, st) Ps xs A" and e: "inj e" and room: "room st (18 + n)"
    and b: "unat b < 2 ^ 24" and k2: "bm_inv k2" "bm_max_bits k2 = 256"
  shows "\<exists>t' st' xs' Ps'. fdb_bittable_apply_bitset (t, st) b k2 op = Inr (t', st') \<and> room st' n \<and>
    bitstate e (t', st') Ps' xs' (A - ids_of b \<union> set_op op (A \<inter> ids_of b) (ids_at b (bits k2))) \<and>
    (\<forall>c. c \<notin> range e \<longrightarrow> Ps' c = Ps c)"
proof -
  have v: "bittable_view t xs A" using s by (simp add: bittable_state_def)
  have n: "room st n" by (rule room_le [OF room]) simp
  consider "b \<in> fst ` set xs" | "b \<notin> fst ` set xs" "op \<noteq> E_OR" | "b \<notin> fst ` set xs" "op = E_OR" by blast
  then show ?thesis
  proof cases
    case 1
    obtain t' where t': "fdb_bittable_apply_bitset (t, st) b k2 op = Inr (t', st)" "same_bitsets t t'"
      "bittable_view t' xs (A - ids_of b \<union> set_op op (A \<inter> ids_of b) (ids_at b (bits k2)))"
      using apply_present [OF v 1 k2] by blast
    then show ?thesis using bitstate_same [OF s t'(2,3)] n by blast
  next
    case 2
    then show ?thesis using apply_absent [OF v 2, of st k2] s n by (intro exI [of _ t] exI [of _ st] exI [of _ xs] exI [of _ Ps]) simp
  next
    case 3
    from new_bitset_spec [OF s e room 3(1) b] obtain p k t1 st1 Ps1 where
      1: "new_bitset (t, st) b = Inr (p, (t1, st1))" "p \<noteq> NULL" "room st1 n" "bb_heap t1 p = Some k"
        "bm_inv k" "bm_max_bits k = 256" "bits k = {}"
        "bitstate e (t1, st1) Ps1 (ins b p xs) A" "\<forall>c. c \<notin> range e \<longrightarrow> Ps1 c = Ps c" by blast
    note g = new_bitset_get [OF 1(8) bittable_view_ascending [OF v] 3(1)]
    have at: "bitmap_at (bb_heap t1) p = Inr k" using 1(2,4) by (simp add: bitmap_at_def)
    have z: "bm_num_set k = 0" using num_set_card [OF 1(5)] 1(7) by simp
    have run: "fdb_bittable_apply_bitset (t, st) b k2 op = fdb_bittable_apply_bitset (t1, st1) b k2 op"
      using bitset_absent(1) [OF v 3(1)] 1(1,2) g(2) 3(2) at z
      by (simp add: fdb_bittable_apply_bitset_def fdb_bittable_get_bitset_def bitset_op_def)
    have v1: "bittable_view t1 (ins b p xs) A" using 1(8) by (simp add: bittable_state_def)
    obtain t' where t': "fdb_bittable_apply_bitset (t1, st1) b k2 op = Inr (t', st1)" "same_bitsets t1 t'"
      "bittable_view t' (ins b p xs) (A - ids_of b \<union> set_op op (A \<inter> ids_of b) (ids_at b (bits k2)))"
      using apply_present [OF v1 g(1) k2] by blast
    then show ?thesis using run bitstate_same [OF 1(8) t'(2,3)] 1(3,9) by auto
  qed
qed

lemma apply_all_spec:
  assumes "bitstate e (t, st) Ps xs A" "inj e" "room st (18 * length ys + n)" "op \<noteq> E_AND"
    and "bittable_view u zs T" "set ys \<subseteq> set zs" "iter_at (bt_nodes (bb_bitmaps u)) it ys" "length ys < fuel"
  shows "\<exists>t' st' xs' Ps'. apply_all fuel op u it (t, st) = Inr (t', st') \<and> room st' n \<and>
    bitstate e (t', st') Ps' xs' (set_op op A (T \<inter> {i. i div 256 \<in> fst ` set ys})) \<and>
    (\<forall>c. c \<notin> range e \<longrightarrow> Ps' c = Ps c)"
  using assms(1,3,6-8)
proof (induction ys arbitrary: fuel it t st Ps xs A)
  case Nil
  obtain f where f: "fuel = Suc f" using Nil.prems(5) by (cases fuel) auto
  have "fdb_btree_iter_has_next (bt_nodes (bb_bitmaps u)) it = Inr False" using iter_at_has_next [OF Nil.prems(4)] by simp
  moreover have "set_op op A (T \<inter> {i. i div 256 \<in> fst ` set []}) = A" using assms(4) by (cases op) simp_all
  ultimately show ?case using Nil.prems(1,2) f
    by (intro exI [of _ t] exI [of _ st] exI [of _ xs] exI [of _ Ps]) simp
next
  case (Cons y ys)
  obtain b p where y: "y = (b, p)" by (cases y)
  obtain f where f: "fuel = Suc f" "length ys < f" using Cons.prems(5) by (cases fuel) auto
  obtain it' where it: "fdb_btree_iter_next (bt_nodes (bb_bitmaps u)) it = Inr (\<lparr>be_key = b, be_value = p\<rparr>, it')"
    "iter_at (bt_nodes (bb_bitmaps u)) it' ys" using iter_at_next Cons.prems(4) unfolding y by metis
  have more: "fdb_btree_iter_has_next (bt_nodes (bb_bitmaps u)) it = Inr True" using iter_at_has_next [OF Cons.prems(4)] by simp
  have "(b, p) \<in> set zs" using Cons.prems(3) y by auto
  then obtain k2 where k2: "bb_heap u p = Some k2" "bitset_ok b T k2" "p \<noteq> NULL" and lt: "unat b < 2 ^ 24"
    using assms(5) unfolding bittable_view_def by blast
  have at: "bitmap_at (bb_heap u) p = Inr k2" using k2 by (simp add: bitmap_at_def)
  have kk: "bm_inv k2" "bm_max_bits k2 = 256" "T \<inter> ids_of b = ids_at b (bits k2)" using k2(2) by (simp_all add: bitset_ok_def)
  have r: "room st (18 + (18 * length ys + n))" using Cons.prems(2) by (simp add: add.assoc)
  from apply_spec [OF Cons.prems(1) assms(2) r lt kk(1,2), of op] obtain t1 st1 xs1 Ps1 where
    1: "fdb_bittable_apply_bitset (t, st) b k2 op = Inr (t1, st1)" "room st1 (18 * length ys + n)"
      "bitstate e (t1, st1) Ps1 xs1 (A - ids_of b \<union> set_op op (A \<inter> ids_of b) (T \<inter> ids_of b))"
      "\<forall>c. c \<notin> range e \<longrightarrow> Ps1 c = Ps c" unfolding kk(3) by blast
  let ?A = "A - ids_of b \<union> set_op op (A \<inter> ids_of b) (T \<inter> ids_of b)"
  have sub: "set ys \<subseteq> set zs" using Cons.prems(3) by simp
  from Cons.IH [OF 1(3,2) sub it(2) f(2)] obtain t2 st2 xs2 Ps2 where
    2: "apply_all f op u it' (t1, st1) = Inr (t2, st2)" "room st2 n"
      "bitstate e (t2, st2) Ps2 xs2 (set_op op ?A (T \<inter> {i. i div 256 \<in> fst ` set ys}))" "\<forall>c. c \<notin> range e \<longrightarrow> Ps2 c = Ps1 c" by blast
  have "set_op op ?A (T \<inter> {i. i div 256 \<in> fst ` set ys}) = set_op op A (T \<inter> {i. i div 256 \<in> fst ` set (y # ys)})"
    using assms(4) y by (cases op) auto
  then show ?case using 2 1(1,4) f(1) more it(1) at
    by (intro exI [of _ t2] exI [of _ st2] exI [of _ xs2] exI [of _ Ps2]) simp
qed

lemma combine_spec:
  assumes s: "bitstate e (t, st) Ps xs A" and e: "inj e" and u: "bittable_view u zs T" and op: "op \<noteq> E_AND"
    and room: "room st (18 * length zs + n)" and fuel: "length zs < fuel"
  shows "\<exists>t' st' xs' Ps'. bind_res (fdb_btree_iter_init (bb_bitmaps u)) (\<lambda>it. apply_all fuel op u it (t, st)) = Inr (t', st') \<and>
    room st' n \<and> bitstate e (t', st') Ps' xs' (set_op op A T) \<and> (\<forall>c. c \<notin> range e \<longrightarrow> Ps' c = Ps c)"
proof -
  have h: "btree_holds (bb_bitmaps u) zs" using u by (simp add: bittable_view_def)
  obtain it where it: "fdb_btree_iter_init (bb_bitmaps u) = Inr it" "iter_at (bt_nodes (bb_bitmaps u)) it zs"
    by (rule iter_at_init [OF h])
  have T: "T \<inter> {i. i div 256 \<in> fst ` set zs} = T" using u unfolding bittable_view_def by blast
  show ?thesis using apply_all_spec [OF s e room op u subset_refl it(2) fuel] it(1) unfolding T by simp
qed

end

section \<open>Clearing and making a bit table\<close>

lemma clear_bitmaps_spec:
  assumes "iter_at h it ys" "length ys < fuel"
    and "\<forall>p\<in>snd ` set ys. p \<noteq> NULL \<and> (\<exists>k. hp p = Some k \<and> bm_inv k \<and> bm_max_bits k = 256)"
  shows "\<exists>hp'. clear_bitmaps fuel h it hp = Inr hp' \<and> bitset_ptrs hp' = bitset_ptrs hp \<and> dom hp' = dom hp \<and>
    (\<forall>p\<in>snd ` set ys. \<exists>k. hp' p = Some k \<and> bm_inv k \<and> bm_max_bits k = 256 \<and> bits k = {}) \<and>
    (\<forall>p. p \<notin> snd ` set ys \<longrightarrow> hp' p = hp p)"
  using assms
proof (induction ys arbitrary: fuel it hp)
  case Nil
  obtain f where f: "fuel = Suc f" using Nil.prems(2) by (cases fuel) auto
  then show ?case using iter_at_has_next [OF Nil.prems(1)] by simp
next
  case (Cons y ys)
  obtain b p where y: "y = (b, p)" by (cases y)
  obtain f where f: "fuel = Suc f" "length ys < f" using Cons.prems(2) by (cases fuel) auto
  obtain it' where it: "fdb_btree_iter_next h it = Inr (\<lparr>be_key = b, be_value = p\<rparr>, it')" "iter_at h it' ys"
    using iter_at_next Cons.prems(1) unfolding y by metis
  have more: "fdb_btree_iter_has_next h it = Inr True" using iter_at_has_next [OF Cons.prems(1)] by simp
  obtain k where k: "p \<noteq> NULL" "hp p = Some k" "bm_inv k" "bm_max_bits k = 256" using Cons.prems(3) y by auto
  obtain k' where k': "fdb_bitmap_nullify k = Inr k'" "bm_inv k'" "bits k' = {}" "bm_max_bits k' = bm_max_bits k"
    "bm_p_data k' = bm_p_data k" by (rule fdb_bitmap_nullify_spec [OF k(3)])
  let ?hp = "hp(p \<mapsto> k')"
  have "\<forall>p\<in>snd ` set ys. p \<noteq> NULL \<and> (\<exists>k. ?hp p = Some k \<and> bm_inv k \<and> bm_max_bits k = 256)"
    using Cons.prems(3) k' k(4) by auto
  from Cons.IH [OF it(2) f(2) this] obtain hp' where
    h: "clear_bitmaps f h it' ?hp = Inr hp'" "bitset_ptrs hp' = bitset_ptrs ?hp" "dom hp' = dom ?hp"
      "\<forall>p\<in>snd ` set ys. \<exists>k. hp' p = Some k \<and> bm_inv k \<and> bm_max_bits k = 256 \<and> bits k = {}"
      "\<forall>p. p \<notin> snd ` set ys \<longrightarrow> hp' p = ?hp p" by blast
  have "clear_bitmaps fuel h it hp = Inr hp'" using f(1) more it(1) k k'(1) h(1) by (simp add: bitmap_at_def)
  moreover have "bitset_ptrs ?hp = bitset_ptrs hp" using k(2) k'(5) by (auto simp: bitset_ptrs_def fun_eq_iff)
  moreover have "dom ?hp = dom hp" using k(2) by auto
  moreover have "\<exists>k. hp' p = Some k \<and> bm_inv k \<and> bm_max_bits k = 256 \<and> bits k = {}"
    using h(4,5) k' k(4) by (cases "p \<in> snd ` set ys") auto
  ultimately show ?case using h(2-5) y by auto
qed

lemma view_length:
  assumes "bittable_view t xs A" shows "length xs \<le> 2 ^ 24" "card (dom (bb_heap t)) = length xs"
proof -
  have d: "distinct (map fst xs)" using bittable_view_ascending [OF assms] by (simp add: strict_sorted_iff)
  have "inj_on unat (set (map fst xs))" by (rule inj_onI) (simp add: word_unat_eq_iff)
  then have "card (unat ` set (map fst xs)) = length xs" using distinct_card [OF d] by (simp add: card_image)
  moreover have "unat ` set (map fst xs) \<subseteq> {..<2 ^ 24}" using assms unfolding bittable_view_def by auto
  then have "card (unat ` set (map fst xs)) \<le> card {..<2 ^ 24 :: nat}" by (rule card_mono [OF finite_lessThan])
  ultimately show "length xs \<le> 2 ^ 24" by simp
  have "distinct (map snd xs)" "dom (bb_heap t) = set (map snd xs)" using assms by (simp_all add: bittable_view_def)
  then show "card (dom (bb_heap t)) = length xs" using distinct_card [of "map snd xs"] by simp
qed

lemma bt_clear_spec:
  assumes v: "bittable_view t xs A" and fuel: "length xs < fuel"
  shows "\<exists>t'. fdb_bittable_clear fuel t = Inr t' \<and> same_bitsets t t' \<and> bittable_view t' xs {}"
proof -
  have v1: "btree_holds (bb_bitmaps t) xs" "distinct (map snd xs)" "dom (bb_heap t) = snd ` set xs"
    and v2: "\<And>b p. (b, p) \<in> set xs \<Longrightarrow> p \<noteq> NULL \<and> unat b < 2 ^ 24 \<and> (\<exists>k. bb_heap t p = Some k \<and> bitset_ok b A k)"
    using v unfolding bittable_view_def by blast+
  obtain it where it: "fdb_btree_iter_init (bb_bitmaps t) = Inr it" "iter_at (bt_nodes (bb_bitmaps t)) it xs"
    by (rule iter_at_init [OF v1(1)])
  have "\<forall>p\<in>snd ` set xs. p \<noteq> NULL \<and> (\<exists>k. bb_heap t p = Some k \<and> bm_inv k \<and> bm_max_bits k = 256)"
    using v2 by (fastforce simp: bitset_ok_def)
  from clear_bitmaps_spec [OF it(2) fuel this] obtain hp where
    hp: "clear_bitmaps fuel (bt_nodes (bb_bitmaps t)) it (bb_heap t) = Inr hp" "bitset_ptrs hp = bitset_ptrs (bb_heap t)"
      "dom hp = dom (bb_heap t)" "\<forall>p\<in>snd ` set xs. \<exists>k. hp p = Some k \<and> bm_inv k \<and> bm_max_bits k = 256 \<and> bits k = {}" by blast
  let ?t = "t\<lparr>bb_heap := hp, bb_size := 0\<rparr>"
  have "p \<noteq> NULL \<and> unat b < 2 ^ 24 \<and> (\<exists>k. hp p = Some k \<and> bitset_ok b {} k)" if "(b, p) \<in> set xs" for b p
    using v2 [OF that] hp(4) that by (fastforce simp: bitset_ok_def ids_at_def)
  then have "bittable_view ?t xs {}" unfolding bittable_view_def using v1 hp(3) by simp
  then show ?thesis using it(1) hp by (intro exI [of _ ?t]) (simp add: fdb_bittable_clear_def same_bitsets_def)
qed

context steady_provider
begin

lemma bittable_init_spec:
  assumes alloc: "p_mem_alloc (case a of Some a \<Rightarrow> a | None \<Rightarrow> g) = alloc" "p_mem_free (case a of Some a \<Rightarrow> a | None \<Rightarrow> g) = free"
    and cl: "clients ainv st Ps" "inj e" "\<And>c. Ps (e c) = Map.empty" and room: "room st (Suc n)" and S: "S 64 4096"
  shows "\<exists>t st' Ps'. fdb_bittable_init a g hdr st = Inr (t, st') \<and> bitstate e (t, st') Ps' [] {} \<and> room st' n \<and>
    (\<forall>c. c \<notin> range e \<longrightarrow> Ps' c = Ps c)"
proof -
  have ne: "e x = e y \<longleftrightarrow> x = y" for x y using cl(2) by (auto dest: injD)
  have nc: "FDB_BITMAP_NUM_CHUNKS 256 = 32" by (simp add: FDB_BITMAP_NUM_CHUNKS_def)
  have al64: "unat (64 :: u32) < 2 ^ 31" by simp
  have s1: "2 * max 8 (unat (128 :: u32)) + max 16 (unat (64 :: u32)) \<le> unat (4096 :: u32)" by simp
  have s2: "2 * max 8 (unat (32 :: u32)) + max 16 (unat (64 :: u32)) \<le> unat (4096 :: u32)" by simp
  obtain ba where 1: "fdb_pool_alloc_init 64 128 4096 a g hdr = Inr ba"
    by (simp add: fdb_pool_alloc_init_def FDB_MIN_ALIGNMENT_def)
  obtain da where 2: "fdb_pool_alloc_init 64 32 4096 a g hdr = Inr da"
    by (simp add: fdb_pool_alloc_init_def FDB_MIN_ALIGNMENT_def)
  note c1 = pool_init_config [OF 1 al64 s1] and c2 = pool_init_config [OF 2 al64 s2]
  have holds: "pool_holds alloc free ba Map.empty Map.empty" "pool_holds alloc free da Map.empty Map.empty"
    using client_pool_init [OF 1 al64 s1 alloc] client_pool_init [OF 2 al64 s2 alloc] by blast+
  have w: "ucast (x :: u64) = (y :: u32)" if "unat x = unat y" for x y
    using that unat_u32_bound [of y] unat_ucast_u64_u32 [of x] by (simp add: word_unat_eq_iff)
  have takes: "pool_takes S ba 64 128" "pool_takes S da 64 32"
    using c1(2-4) c2(2-4) S w [of "pl_alignment ba" 64] w [of "pl_alignment da" 64]
      w [of "pl_page_size ba" 4096] w [of "pl_page_size da" 4096] by (simp_all add: pool_takes_def)
  from client_tree_init [where hdr = hdr, OF alloc cl(1) cl(3) [of BTree] room S] obtain b st' P' where
    b: "fdb_btree_init a g hdr st = Inr (b, st')" "btree_holds b []" "room st' n"
      "clients ainv st' (Ps(e BTree := P'))" "tree_client alloc free S b P'" by blast
  let ?t = "\<lparr>bb_bitmaps = b, bb_size = 0, bb_bitmap_allocator = ba, bb_bitmap_data_allocator = da, bb_heap = Map.empty\<rparr>"
  have run: "fdb_bittable_init a g hdr st = Inr (?t, st')"
    using 1 2 b(1) by (simp add: fdb_bittable_init_def FDB_BITMAP_ALIGNMENT_def sizeof_bitmap_def FDB_BITMAP_PAGE_SIZE_def
        FDB_TABLE_BLOCK_SIZE_def FDB_BITMAP_DATA_PAGE_SIZE_def nc)
  have v: "bittable_view ?t [] {}" using b(2) by (simp add: bittable_view_def)
  have o: "owned (bitset_ptrs Map.empty) Map.empty" by (simp add: owned_def bitset_ptrs_def ran_def)
  have "bittable_mem alloc free S ?t (Ps(e BTree := P') \<circ> e)" unfolding bittable_mem_def
    using holds takes b(5) ne cl(3) o
    by (intro conjI exI [of _ "Map.empty :: ptr \<rightharpoonup> nat"]) simp_all
  then show ?thesis using run v b(3,4)
    by (intro exI [of _ ?t] exI [of _ st'] exI [of _ "Ps(e BTree := P')"]) (auto simp: bittable_state_def)
qed

end

section \<open>Sequences of operations\<close>

datatype 'st bit_cmd = BtAdd u32 | BtRemove u32 | BtExists u32 | BtSize | BtClear
  | BtUnion "'st fdb_bittable_t" | BtDiff "'st fdb_bittable_t"
datatype bit_out = BtBool bool | BtCount u32 | BtDone

text \<open>A bit table has at most \<open>2^24\<close> bitmaps, so this fuel lets every loop end.\<close>

definition BB_FUEL :: nat where "BB_FUEL = Suc (2 ^ 24)"

fun bit_step :: "'st bit_cmd \<Rightarrow> 'st fdb_bittable_t \<times> 'st \<Rightarrow> (bit_out \<times> 'st fdb_bittable_t \<times> 'st) res" where
  "bit_step (BtAdd i) bs = bind_res (fdb_bittable_add bs i) (\<lambda>bs. Inr (BtDone, bs))"
| "bit_step (BtRemove i) (t, st) = bind_res (fdb_bittable_remove t i) (\<lambda>t. Inr (BtDone, t, st))"
| "bit_step (BtExists i) (t, st) = bind_res (fdb_bittable_exists t i) (\<lambda>b. Inr (BtBool b, t, st))"
| "bit_step BtSize (t, st) = Inr (BtCount (fdb_bittable_size t), t, st)"
| "bit_step BtClear (t, st) = bind_res (fdb_bittable_clear BB_FUEL t) (\<lambda>t. Inr (BtDone, t, st))"
| "bit_step (BtUnion u) bs = bind_res (fdb_bittable_union BB_FUEL bs u) (\<lambda>bs. Inr (BtDone, bs))"
| "bit_step (BtDiff u) bs = bind_res (fdb_bittable_difference BB_FUEL bs u) (\<lambda>bs. Inr (BtDone, bs))"

fun bit_run :: "'st bit_cmd list \<Rightarrow> 'st fdb_bittable_t \<times> 'st \<Rightarrow> (bit_out list \<times> 'st fdb_bittable_t \<times> 'st) res" where
  "bit_run [] bs = Inr ([], bs)"
| "bit_run (c # cs) bs = bind_res (bit_step c bs) (\<lambda>(out, bs). bind_res (bit_run cs bs) (\<lambda>(outs, bs). Inr (out # outs, bs)))"

definition bittable_ids :: "'st fdb_bittable_t \<Rightarrow> u32 set" where
  "bittable_ids t = {i. fdb_bittable_exists t i = Inr True}"

fun bit_spec :: "'st bit_cmd \<Rightarrow> u32 set \<Rightarrow> bit_out \<times> u32 set" where
  "bit_spec (BtAdd i) A = (BtDone, insert i A)"
| "bit_spec (BtRemove i) A = (BtDone, A - {i})"
| "bit_spec (BtExists i) A = (BtBool (i \<in> A), A)"
| "bit_spec BtSize A = (BtCount (of_nat (card A)), A)"
| "bit_spec BtClear A = (BtDone, {})"
| "bit_spec (BtUnion u) A = (BtDone, A \<union> bittable_ids u)"
| "bit_spec (BtDiff u) A = (BtDone, A - bittable_ids u)"

fun bit_run_spec :: "'st bit_cmd list \<Rightarrow> u32 set \<Rightarrow> bit_out list \<times> u32 set" where
  "bit_run_spec [] A = ([], A)"
| "bit_run_spec (c # cs) A = (let (out, A) = bit_spec c A; (outs, A) = bit_run_spec cs A in (out # outs, A))"

fun bit_legal :: "'st bit_cmd \<Rightarrow> bool" where
  "bit_legal (BtUnion u) = (\<exists>zs T. bittable_view u zs T)"
| "bit_legal (BtDiff u) = (\<exists>zs T. bittable_view u zs T)"
| "bit_legal _ = True"

fun bit_need :: "'st bit_cmd \<Rightarrow> nat" where
  "bit_need (BtAdd i) = 18"
| "bit_need (BtUnion u) = 18 * card (dom (bb_heap u))"
| "bit_need (BtDiff u) = 18 * card (dom (bb_heap u))"
| "bit_need _ = 0"

lemma bittable_ids_view: "bittable_view t xs A \<Longrightarrow> bittable_ids t = A"
  by (simp add: bittable_ids_def exists_spec)

context steady_provider
begin

lemma bit_step_spec:
  assumes s: "bitstate e (t, st) Ps xs A" and e: "inj e" and room: "room st (bit_need c + n)" and ok: "bit_legal c"
  shows "\<exists>t' st' xs' Ps'. bit_step c (t, st) = Inr (fst (bit_spec c A), t', st') \<and>
    bitstate e (t', st') Ps' xs' (snd (bit_spec c A)) \<and> room st' n \<and> (\<forall>c. c \<notin> range e \<longrightarrow> Ps' c = Ps c)"
proof -
  have v: "bittable_view t xs A" using s by (simp add: bittable_state_def)
  have n: "room st n" by (rule room_le [OF room]) simp
  have fuel: "length ys < BB_FUEL" if "bittable_view u ys T" for u :: "'a fdb_bittable_t" and ys T
    using view_length(1) [OF that] by (simp add: BB_FUEL_def)
  have keep: "?thesis" if "bit_step c (t, st) = Inr (fst (bit_spec c A), t', st)" "same_bitsets t t'"
    "bittable_view t' xs (snd (bit_spec c A))" for t' using bitstate_same [OF s that(2,3)] that(1) n by blast
  have combine: "\<exists>t' st' xs' Ps'. bind_res (fdb_btree_iter_init (bb_bitmaps u)) (\<lambda>it. apply_all BB_FUEL op u it (t, st)) = Inr (t', st') \<and>
      room st' n \<and> bitstate e (t', st') Ps' xs' (set_op op A (bittable_ids u)) \<and> (\<forall>c. c \<notin> range e \<longrightarrow> Ps' c = Ps c)"
    if u: "\<exists>zs T. bittable_view u zs T" and r: "room st (18 * card (dom (bb_heap u)) + n)" and op: "op \<noteq> E_AND" for u op
  proof -
    obtain zs T where z: "bittable_view u zs T" using u by blast
    show ?thesis using combine_spec [OF s e z op _ fuel [OF z]] r view_length(2) [OF z] bittable_ids_view [OF z] by simp
  qed
  show ?thesis
  proof (cases c)
    case (BtAdd i)
    then have "room st (18 + n)" using room by simp
    from add_spec [OF s e this, of i] show ?thesis using BtAdd by fastforce
  next
    case (BtRemove i)
    obtain t' where "fdb_bittable_remove t i = Inr t'" "bittable_view t' xs (A - {i})" "same_bitsets t t'"
      using remove_spec [OF v, of i] by blast
    then show ?thesis by (intro keep [of t']) (use BtRemove in simp_all)
  next
    case (BtExists i)
    show ?thesis by (rule keep [of t]) (use BtExists exists_spec [OF v] v in simp_all)
  next
    case BtSize
    show ?thesis by (rule keep [of t]) (use BtSize v in \<open>simp_all add: fdb_bittable_size_def bittable_view_def\<close>)
  next
    case BtClear
    obtain t' where "fdb_bittable_clear BB_FUEL t = Inr t'" "same_bitsets t t'" "bittable_view t' xs {}"
      using bt_clear_spec [OF v fuel [OF v]] by blast
    then show ?thesis by (intro keep [of t']) (use BtClear in simp_all)
  next
    case (BtUnion u)
    show ?thesis using combine [of u E_OR] ok room BtUnion by (fastforce simp: fdb_bittable_union_def)
  next
    case (BtDiff u)
    show ?thesis using combine [of u E_DIFF] ok room BtDiff by (fastforce simp: fdb_bittable_difference_def)
  qed
qed

lemma bit_run_sim:
  assumes "bitstate e (t, st) Ps xs A" "inj e" "room st ((\<Sum>c\<leftarrow>cs. bit_need c) + n)" "\<forall>c\<in>set cs. bit_legal c"
  shows "\<exists>t' st' xs' Ps'. bit_run cs (t, st) = Inr (fst (bit_run_spec cs A), t', st') \<and>
    bitstate e (t', st') Ps' xs' (snd (bit_run_spec cs A)) \<and> room st' n \<and> (\<forall>c. c \<notin> range e \<longrightarrow> Ps' c = Ps c)"
  using assms
proof (induction cs arbitrary: t st Ps xs A)
  case Nil
  then show ?case by fastforce
next
  case (Cons c cs)
  have r: "room st (bit_need c + ((\<Sum>c\<leftarrow>cs. bit_need c) + n))" "bit_legal c" "\<forall>c\<in>set cs. bit_legal c"
    using Cons.prems(3,4) by (simp_all add: add.assoc)
  obtain out B where o: "bit_spec c A = (out, B)" by (cases "bit_spec c A")
  from bit_step_spec [OF Cons.prems(1,2) r(1,2)] obtain t1 st1 xs1 Ps1 where
    1: "bit_step c (t, st) = Inr (out, t1, st1)" "bitstate e (t1, st1) Ps1 xs1 B"
      "room st1 ((\<Sum>c\<leftarrow>cs. bit_need c) + n)" "\<forall>c. c \<notin> range e \<longrightarrow> Ps1 c = Ps c" unfolding o by auto
  from Cons.IH [OF 1(2) Cons.prems(2) 1(3) r(3)] obtain t2 st2 xs2 Ps2 where
    2: "bit_run cs (t1, st1) = Inr (fst (bit_run_spec cs B), t2, st2)" "bitstate e (t2, st2) Ps2 xs2 (snd (bit_run_spec cs B))"
      "room st2 n" "\<forall>c. c \<notin> range e \<longrightarrow> Ps2 c = Ps1 c" by blast
  show ?case using 1(1,4) 2 o
    by (intro exI [of _ t2] exI [of _ st2] exI [of _ xs2] exI [of _ Ps2]) (simp add: Let_def case_prod_unfold)
qed

end

section \<open>Properties\<close>

text \<open>C18: A bit table is a set of ids. From \<open>fdb_bittable_init\<close> over a page allocator on, any sequence of
  adding, removing, testing, clearing, and of union and difference with other bit tables returns,
  without an error and with the loops ending, what the set operations say, and the size is the
  cardinality (modulo \<open>2^32\<close>, the whole id space).\<close>

theorem bittable_refines_set:
  assumes "page_inv pg live" "live_apart live" "page_room pg (Suc (\<Sum>c\<leftarrow>cs. bit_need c))" "page_serves pg 64 4096"
    and "\<forall>c\<in>set cs. bit_legal c"
  shows "\<exists>t pg' t' pg2. fdb_bittable_init (Some fdb_page_alloc_super) g hdr pg = Inr (t, pg') \<and>
    bit_run cs (t, pg') = Inr (fst (bit_run_spec cs {}), t', pg2) \<and> bittable_ids t' = snd (bit_run_spec cs {}) \<and>
    fdb_bittable_size t' = of_nat (card (bittable_ids t'))"
proof -
  let ?S = "page_serves pg" and ?inv = "page_steady (page_serves pg)"
  have cl: "clients ?inv pg (\<lambda>_ :: bittable_client. Map.empty)" by (rule clients_start) (use assms(1,2) in auto)
  have al: "p_mem_alloc (case Some fdb_page_alloc_super of Some a \<Rightarrow> a | None \<Rightarrow> g) = fdb_page_alloc_alloc"
    "p_mem_free (case Some fdb_page_alloc_super of Some a \<Rightarrow> a | None \<Rightarrow> g) = fdb_page_alloc_free"
    by (simp_all add: fdb_page_alloc_super_def)
  from steady_page.bittable_init_spec [where hdr = hdr, OF al cl inj_on_id _ assms(3,4)] obtain t pg' Ps where
    t: "fdb_bittable_init (Some fdb_page_alloc_super) g hdr pg = Inr (t, pg')" "steady_page.bitstate ?S id (t, pg') Ps [] {}"
      "page_room pg' (\<Sum>c\<leftarrow>cs. bit_need c)" by auto
  have room: "page_room pg' ((\<Sum>c\<leftarrow>cs. bit_need c) + 0)" using t(3) by simp
  from steady_page.bit_run_sim [OF t(2) inj_on_id room assms(5)] obtain t' pg2 xs Ps' where
    r: "bit_run cs (t, pg') = Inr (fst (bit_run_spec cs {}), t', pg2)"
      "steady_page.bitstate ?S id (t', pg2) Ps' xs (snd (bit_run_spec cs {}))" by blast
  have v: "bittable_view t' xs (snd (bit_run_spec cs {}))" using r(2) by (simp add: bittable_state_def)
  then show ?thesis using t(1) r(1) bittable_ids_view [OF v] by (auto simp: fdb_bittable_size_def bittable_view_def)
qed

theorem bittable_refines_set_witness:
  "\<exists>(u :: fdb_page_alloc_t fdb_bittable_t) t pg' t' pg2. bittable_ids u = {9} \<and>
    fdb_bittable_init (Some fdb_page_alloc_super) fdb_page_alloc_super (\<lambda>_. 0) demo_db_page = Inr (t, pg') \<and>
    bit_run [BtAdd 3, BtAdd 700, BtUnion u, BtExists 9, BtRemove 3, BtSize] (t, pg') =
      Inr ([BtDone, BtDone, BtDone, BtBool True, BtDone, BtCount 2], t', pg2) \<and> bittable_ids t' = {9, 700}"
proof -
  let ?S = "page_serves demo_db_page"
  have cl: "clients (page_steady ?S) demo_db_page (\<lambda>_ :: bittable_client. Map.empty)"
    by (rule clients_start) (use demo_db_page_inv(1) in auto)
  have al: "p_mem_alloc (case Some fdb_page_alloc_super of Some a \<Rightarrow> a | None \<Rightarrow> fdb_page_alloc_super) = fdb_page_alloc_alloc"
    "p_mem_free (case Some fdb_page_alloc_super of Some a \<Rightarrow> a | None \<Rightarrow> fdb_page_alloc_super) = fdb_page_alloc_free"
    by (simp_all add: fdb_page_alloc_super_def)
  have room: "page_room demo_db_page (Suc (18 + 81))" using demo_db_page_inv(2) by simp
  from steady_page.bittable_init_spec [where hdr = "\<lambda>_. 0", OF al cl inj_on_id _ room demo_db_page_inv(3)] obtain u0 pg0 Ps0 where
    u0: "steady_page.bitstate ?S id (u0, pg0) Ps0 [] {}" "page_room pg0 (18 + 81)" by auto
  from steady_page.add_spec [OF u0(1) inj_on_id u0(2), of 9] obtain u pg1 xs Ps1 where
    u: "steady_page.bitstate ?S id (u, pg1) Ps1 xs {9}" "fst ` set xs = {0}" by auto
  have v: "bittable_view u xs {9}" using u(1) by (simp add: bittable_state_def)
  have "distinct (map fst xs)" using bittable_view_ascending [OF v] by (simp add: strict_sorted_iff)
  then have "length xs = 1" using distinct_card [of "map fst xs"] u(2) by simp
  then have n: "card (dom (bb_heap u)) = 1" using view_length(2) [OF v] by simp
  have ids: "bittable_ids u = {9}" by (rule bittable_ids_view [OF v])
  let ?cs = "[BtAdd 3, BtAdd 700, BtUnion u, BtExists 9, BtRemove 3, BtSize]"
  have r: "page_room demo_db_page (Suc (\<Sum>c\<leftarrow>?cs. bit_need c))"
    using n by (simp add: page_room_def demo_db_page_def)
  have legal: "\<forall>c\<in>set ?cs. bit_legal c" using v by auto
  have set: "insert 700 {3} \<union> {9} - {3} = {9, 700 :: u32}" by auto
  have "card {9, 700 :: u32} = 2" by simp
  then have spec: "bit_run_spec ?cs {} = ([BtDone, BtDone, BtDone, BtBool True, BtDone, BtCount 2], {9, 700})"
    using ids set by (simp add: Let_def insert_commute)
  from bittable_refines_set [where hdr = "\<lambda>_. 0" and g = fdb_page_alloc_super, OF demo_db_page_inv(1) live_apart_empty r demo_db_page_inv(3) legal]
  show ?thesis unfolding spec fst_conv snd_conv using ids by blast
qed

end
