(* ===== verification/Hashtable.thy ===== *)
theory Hashtable
  imports Memory
begin

text \<open>
  src/src/common/hashtable.c and hashtable.h: a hash table from 32-bit keys to pointers. The
  entries are an array of nodes; a node holds eight keys and eight values and points to the next
  node of its chain. The entries and the chained nodes live in one map \<open>ht_nodes\<close> from addresses to
  nodes. The specification is a finite map; the iterator lists it.
\<close>

section \<open>State and operations\<close>

definition HASHTABLE_NODE_CAPACITY :: nat where "HASHTABLE_NODE_CAPACITY = 8"
definition sizeof_htnode :: u64 where "sizeof_htnode = 112"

record fdb_hashtable_node_t =
  hn_elements :: "ptr list"
  hn_keys :: "u32 list"
  hn_num_elements :: u32
  hn_next :: ptr

record 'st fdb_hashtable_t =
  ht_capacity :: u32
  ht_num_elements :: u32
  ht_entries :: ptr
  ht_allocator :: "'st fdb_mem_allocator_t"
  ht_nodes :: "ptr \<rightharpoonup> fdb_hashtable_node_t"

record fdb_hashtable_iter_t =
  hi_next_node :: ptr
  hi_next_entry :: u32
  hi_next_element :: u32

record fdb_hashtable_entry_t =
  he_key :: u32
  he_value :: ptr

definition zero_node :: fdb_hashtable_node_t where
  "zero_node = \<lparr>hn_elements = replicate 8 NULL, hn_keys = replicate 8 0, hn_num_elements = 0, hn_next = NULL\<rparr>"

definition htnode_at :: "(ptr \<rightharpoonup> fdb_hashtable_node_t) \<Rightarrow> ptr \<Rightarrow> fdb_hashtable_node_t res" where
  "htnode_at h p = (if p = NULL then Inl NullDeref
     else case h p of None \<Rightarrow> Inl BadPointer | Some n \<Rightarrow> Inr n)"

text \<open>\<open>&table->m_entries[i]\<close>\<close>

definition entry_at :: "ptr \<Rightarrow> nat \<Rightarrow> ptr" where
  "entry_at p i = p + of_nat i * sizeof_htnode"

definition fdb_hashtable_init ::
  "u32 \<Rightarrow> 'st fdb_mem_allocator_t option \<Rightarrow> 'st fdb_mem_allocator_t \<Rightarrow> 'st \<Rightarrow> ('st fdb_hashtable_t \<times> 'st) res" where
  "fdb_hashtable_init capacity allocator gallocator st =
     (let al = (case allocator of Some a \<Rightarrow> a | None \<Rightarrow> gallocator);
          (p, st) = mem_alloc al st 1 (ucast (sizeof_htnode * ucast capacity)) FDB_NO_HINT
      in if p = NULL \<and> capacity \<noteq> 0 then Inl NullDeref
         else Inr (\<lparr>ht_capacity = capacity, ht_num_elements = 0, ht_entries = p, ht_allocator = al,
                ht_nodes = map_of (map (\<lambda>i. (entry_at p i, zero_node)) [0..<unat capacity])\<rparr>, st))"

text \<open>The loop over the keys of a node.\<close>

fun node_find :: "fdb_hashtable_node_t \<Rightarrow> u32 \<Rightarrow> nat list \<Rightarrow> nat option res" where
  "node_find n key [] = Inr None"
| "node_find n key (i # js) =
     bind_res (rd (hn_keys n) i) (\<lambda>k. if k = key then Inr (Some i) else node_find n key js)"

text \<open>The loop over a chain: the node and index of the key, or the last node. Each node takes one
  unit of fuel.\<close>

fun chain_find ::
  "nat \<Rightarrow> (ptr \<rightharpoonup> fdb_hashtable_node_t) \<Rightarrow> u32 \<Rightarrow> ptr \<Rightarrow> ptr \<Rightarrow> ((ptr \<times> nat) + ptr) res" where
  "chain_find 0 h key current last_node = Inl OutOfFuel"
| "chain_find (Suc fuel) h key current last_node =
     (if current = NULL then Inr (Inr last_node) else
      bind_res (htnode_at h current) (\<lambda>n.
      bind_res (node_find n key [0..<unat (hn_num_elements n)]) (\<lambda>r.
      case r of Some i \<Rightarrow> Inr (Inl (current, i)) | None \<Rightarrow> chain_find fuel h key (hn_next n) current)))"

text \<open>A chain has at most one node more than the table has elements.\<close>

definition HT_FUEL :: "'st fdb_hashtable_t \<Rightarrow> nat" where
  "HT_FUEL t = unat (ht_num_elements t) + 2"

definition bucket :: "'st fdb_hashtable_t \<Rightarrow> u32 \<Rightarrow> ptr res" where
  "bucket t key = (if ht_capacity t = 0 then Inl DivByZero
     else Inr (entry_at (ht_entries t) (unat (key mod ht_capacity t))))"

definition fdb_hashtable_add ::
  "'st fdb_hashtable_t \<times> 'st \<Rightarrow> u32 \<Rightarrow> ptr \<Rightarrow> (ptr \<times> 'st fdb_hashtable_t \<times> 'st) res" where
  "fdb_hashtable_add ts key v =
     (let (t, st) = ts in
     bind_res (bucket t key) (\<lambda>current.
     bind_res (chain_find (HT_FUEL t) (ht_nodes t) key current NULL) (\<lambda>r. case r of
       Inl (p, i) \<Rightarrow>
         bind_res (htnode_at (ht_nodes t) p) (\<lambda>n.
         bind_res (rd (hn_elements n) i) (\<lambda>prev.
         bind_res (wr (hn_elements n) i v) (\<lambda>es.
         Inr (prev, t\<lparr>ht_nodes := (ht_nodes t)(p \<mapsto> n\<lparr>hn_elements := es\<rparr>)\<rparr>, st))))
     | Inr last_node \<Rightarrow>
         bind_res (htnode_at (ht_nodes t) last_node) (\<lambda>n.
         let t = t\<lparr>ht_num_elements := ht_num_elements t + 1\<rparr> in
         if unat (hn_num_elements n) < HASHTABLE_NODE_CAPACITY then
           bind_res (wr (hn_keys n) (unat (hn_num_elements n)) key) (\<lambda>ks.
           bind_res (wr (hn_elements n) (unat (hn_num_elements n)) v) (\<lambda>es.
           Inr (NULL, t\<lparr>ht_nodes := (ht_nodes t)(last_node \<mapsto>
             n\<lparr>hn_keys := ks, hn_elements := es, hn_num_elements := hn_num_elements n + 1\<rparr>)\<rparr>, st)))
         else
           let (p, st) = mem_alloc (ht_allocator t) st 1 (ucast sizeof_htnode) (- 1) in
           if p = NULL then Inl NullDeref else
           Inr (NULL, t\<lparr>ht_nodes := (ht_nodes t)(
             p \<mapsto> zero_node\<lparr>hn_keys := (hn_keys zero_node)[0 := key],
               hn_elements := (hn_elements zero_node)[0 := v], hn_num_elements := 1\<rparr>,
             last_node \<mapsto> n\<lparr>hn_next := p\<rparr>)\<rparr>, st)))))"

definition fdb_hashtable_get :: "'st fdb_hashtable_t \<Rightarrow> u32 \<Rightarrow> ptr res" where
  "fdb_hashtable_get t key =
     bind_res (bucket t key) (\<lambda>current.
     bind_res (chain_find (HT_FUEL t) (ht_nodes t) key current NULL) (\<lambda>r. case r of
       Inl (p, i) \<Rightarrow> bind_res (htnode_at (ht_nodes t) p) (\<lambda>n. rd (hn_elements n) i)
     | Inr _ \<Rightarrow> Inr NULL))"

subsection \<open>The iterator\<close>

fun first_entry :: "'st fdb_hashtable_t \<Rightarrow> nat list \<Rightarrow> fdb_hashtable_iter_t \<Rightarrow> fdb_hashtable_iter_t res" where
  "first_entry t [] it = Inr it"
| "first_entry t (i # js) it =
     bind_res (htnode_at (ht_nodes t) (entry_at (ht_entries t) i)) (\<lambda>n.
     let it = it\<lparr>hi_next_entry := of_nat i + 1\<rparr> in
     if hn_num_elements n > 0 then Inr (it\<lparr>hi_next_node := entry_at (ht_entries t) i\<rparr>)
     else first_entry t js it)"

definition fdb_hashtable_iter_init :: "'st fdb_hashtable_t \<Rightarrow> fdb_hashtable_iter_t res" where
  "fdb_hashtable_iter_init t =
     first_entry t [0..<unat (ht_capacity t)] \<lparr>hi_next_node = NULL, hi_next_entry = 0, hi_next_element = 0\<rparr>"

definition fdb_hashtable_iter_has_next :: "fdb_hashtable_iter_t \<Rightarrow> bool" where
  "fdb_hashtable_iter_has_next it \<longleftrightarrow> hi_next_node it \<noteq> NULL"

text \<open>The do-while loop over the entries that are left: \<open>i # js\<close> are their indices.\<close>

fun seek_entry :: "'st fdb_hashtable_t \<Rightarrow> nat list \<Rightarrow> fdb_hashtable_iter_t \<Rightarrow> fdb_hashtable_iter_t res" where
  "seek_entry t [] it = Inr it"
| "seek_entry t (i # js) it =
     (let p = entry_at (ht_entries t) i;
          it = it\<lparr>hi_next_node := p, hi_next_entry := of_nat i + 1\<rparr>
      in bind_res (htnode_at (ht_nodes t) p) (\<lambda>n.
         if hn_num_elements n = 0 \<and> js \<noteq> [] then seek_entry t js it
         else if hn_num_elements n = 0 then Inr (it\<lparr>hi_next_node := NULL\<rparr>) else Inr it))"

definition fdb_hashtable_iter_next ::
  "'st fdb_hashtable_t \<Rightarrow> fdb_hashtable_iter_t \<Rightarrow> (fdb_hashtable_entry_t \<times> fdb_hashtable_iter_t) res" where
  "fdb_hashtable_iter_next t it =
     bind_res (htnode_at (ht_nodes t) (hi_next_node it)) (\<lambda>n.
     bind_res (rd (hn_keys n) (unat (hi_next_element it))) (\<lambda>k.
     bind_res (rd (hn_elements n) (unat (hi_next_element it))) (\<lambda>v.
     let entry = \<lparr>he_key = k, he_value = v\<rparr>;
         it = it\<lparr>hi_next_element := hi_next_element it + 1\<rparr>;
         it = (if hi_next_element it \<ge> hn_num_elements n
               then it\<lparr>hi_next_element := 0, hi_next_node := hn_next n\<rparr> else it)
     in if hi_next_node it = NULL \<and> hi_next_entry it < ht_capacity t
        then bind_res (seek_entry t [unat (hi_next_entry it)..<unat (ht_capacity t)] it) (\<lambda>it. Inr (entry, it))
        else Inr (entry, it))))"

subsection \<open>Release\<close>

fun free_chain ::
  "nat \<Rightarrow> 'st fdb_mem_allocator_t \<Rightarrow> ptr \<Rightarrow> (ptr \<rightharpoonup> fdb_hashtable_node_t) \<times> 'st \<Rightarrow> ((ptr \<rightharpoonup> fdb_hashtable_node_t) \<times> 'st) res" where
  "free_chain 0 al p hs = Inl OutOfFuel"
| "free_chain (Suc fuel) al p hs =
     (if p = NULL then Inr hs else
      let (h, st) = hs in
      bind_res (htnode_at h p) (\<lambda>n. free_chain fuel al (hn_next n) (h(p := None), mem_free al st p)))"

fun free_chains ::
  "nat \<Rightarrow> 'st fdb_hashtable_t \<Rightarrow> nat list \<Rightarrow> (ptr \<rightharpoonup> fdb_hashtable_node_t) \<times> 'st \<Rightarrow> ((ptr \<rightharpoonup> fdb_hashtable_node_t) \<times> 'st) res" where
  "free_chains fuel t [] hs = Inr hs"
| "free_chains fuel t (i # js) hs =
     bind_res (htnode_at (fst hs) (entry_at (ht_entries t) i)) (\<lambda>n.
     bind_res (free_chain fuel (ht_allocator t) (hn_next n) hs) (\<lambda>hs. free_chains fuel t js hs))"

definition fdb_hashtable_release :: "'st fdb_hashtable_t \<times> 'st \<Rightarrow> 'st res" where
  "fdb_hashtable_release ts =
     (let (t, st) = ts in
     bind_res (free_chains (HT_FUEL t) t [0..<unat (ht_capacity t)] (ht_nodes t, st)) (\<lambda>(h, st).
     Inr (mem_free (ht_allocator t) st (ht_entries t))))"

section \<open>Nodes and chains\<close>

definition htnode_ok :: "fdb_hashtable_node_t \<Rightarrow> bool" where
  "htnode_ok n \<longleftrightarrow> length (hn_keys n) = 8 \<and> length (hn_elements n) = 8 \<and> unat (hn_num_elements n) \<le> 8"

definition items :: "fdb_hashtable_node_t \<Rightarrow> (u32 \<times> ptr) list" where
  "items n = zip (take (unat (hn_num_elements n)) (hn_keys n)) (take (unat (hn_num_elements n)) (hn_elements n))"

type_synonym links = "(ptr \<times> fdb_hashtable_node_t) list"

fun linked :: "(ptr \<rightharpoonup> fdb_hashtable_node_t) \<Rightarrow> ptr \<Rightarrow> links \<Rightarrow> bool" where
  "linked h p [] \<longleftrightarrow> p = NULL"
| "linked h p ((q, n) # ns) \<longleftrightarrow> p = q \<and> p \<noteq> NULL \<and> h p = Some n \<and> htnode_ok n \<and> linked h (hn_next n) ns"

definition link_items :: "links \<Rightarrow> (u32 \<times> ptr) list" where
  "link_items ns = concat (map (items \<circ> snd) ns)"

lemma link_items_simps [simp]:
  "link_items [] = []" "link_items ((p, n) # ns) = items n @ link_items ns" "link_items (ns @ ms) = link_items ns @ link_items ms"
  by (simp_all add: link_items_def)

lemma length_items: "htnode_ok n \<Longrightarrow> length (items n) = unat (hn_num_elements n)"
  by (simp add: items_def htnode_ok_def)

lemma items_nth: "htnode_ok n \<Longrightarrow> i < unat (hn_num_elements n) \<Longrightarrow> items n ! i = (hn_keys n ! i, hn_elements n ! i)"
  by (simp add: items_def htnode_ok_def)

lemma linked_other: "q \<notin> fst ` set ns \<Longrightarrow> linked (h(q \<mapsto> m)) p ns = linked h p ns"
  by (induction ns arbitrary: p) auto

lemma linked_in: "linked h p ns \<Longrightarrow> (q, n) \<in> set ns \<Longrightarrow> q \<noteq> NULL \<and> h q = Some n \<and> htnode_ok n"
  by (induction ns arbitrary: p) auto

lemma linked_update:
  "linked h p (pre @ (q, n) # post) \<Longrightarrow> distinct (map fst (pre @ (q, n) # post)) \<Longrightarrow> htnode_ok m \<Longrightarrow> hn_next m = hn_next n \<Longrightarrow>
    linked (h(q \<mapsto> m)) p (pre @ (q, m) # post)"
proof (induction pre arbitrary: p)
  case Nil
  then show ?case using linked_other [of q post h m "hn_next n"] by (auto simp del: fun_upd_apply simp: fun_upd_same)
next
  case (Cons a pre)
  then show ?case by (cases a) auto
qed

lemma linked_append:
  "linked h p (pre @ [(q, n)]) \<Longrightarrow> distinct (map fst (pre @ [(q, n)])) \<Longrightarrow> r \<notin> fst ` set (pre @ [(q, n)]) \<Longrightarrow> r \<noteq> NULL \<Longrightarrow>
    htnode_ok m \<Longrightarrow> hn_next m = NULL \<Longrightarrow>
    linked (h(r \<mapsto> m, q \<mapsto> n\<lparr>hn_next := r\<rparr>)) p (pre @ [(q, n\<lparr>hn_next := r\<rparr>), (r, m)])"
proof (induction pre arbitrary: p)
  case Nil
  then show ?case by (auto simp: htnode_ok_def)
next
  case (Cons a pre)
  then show ?case by (cases a) auto
qed

subsection \<open>Searching\<close>

lemma node_find_spec: "\<forall>i\<in>set js. i < length (hn_keys n) \<Longrightarrow> node_find n key js = Inr (find (\<lambda>i. hn_keys n ! i = key) js)"
  by (induction js) simp_all

lemma find_in_node:
  assumes "htnode_ok n"
  obtains "node_find n key [0..<unat (hn_num_elements n)] = Inr None" "key \<notin> fst ` set (items n)"
  | i where "node_find n key [0..<unat (hn_num_elements n)] = Inr (Some i)" "i < unat (hn_num_elements n)" "hn_keys n ! i = key"
proof -
  let ?f = "find (\<lambda>i. hn_keys n ! i = key) [0..<unat (hn_num_elements n)]"
  have run: "node_find n key [0..<unat (hn_num_elements n)] = Inr ?f"
    by (rule node_find_spec) (use assms in \<open>auto simp: htnode_ok_def\<close>)
  have mem: "key \<notin> fst ` set (items n)" if "?f = None"
  proof
    assume "key \<in> fst ` set (items n)"
    then obtain i where "i < unat (hn_num_elements n)" "hn_keys n ! i = key"
      using length_items [OF assms] items_nth [OF assms] by (auto simp: in_set_conv_nth)
    then show False using that by (auto simp: find_None_iff)
  qed
  show thesis
  proof (cases ?f)
    case None
    then show thesis using that(1) run mem by simp
  next
    case (Some i)
    then have "i < unat (hn_num_elements n)" "hn_keys n ! i = key" by (auto simp: find_Some_iff)
    then show thesis using that(2) run Some by simp
  qed
qed

lemma chain_find_absent:
  assumes "linked h p ns" "length ns < fuel" "key \<notin> fst ` set (link_items ns)"
  shows "chain_find fuel h key p l = Inr (Inr (if ns = [] then l else fst (last ns)))"
  using assms
proof (induction ns arbitrary: fuel p l)
  case Nil
  then show ?case by (cases fuel) auto
next
  case (Cons a ns)
  obtain q n where a: "a = (q, n)" by (cases a)
  obtain f where f: "fuel = Suc f" "length ns < f" using Cons.prems(2) by (cases fuel) auto
  have q: "p = q" "p \<noteq> NULL" "h p = Some n" "htnode_ok n" "linked h (hn_next n) ns" using Cons.prems(1) a by auto
  have nf: "key \<notin> fst ` set (items n)" "key \<notin> fst ` set (link_items ns)" using Cons.prems(3) a by auto
  have "node_find n key [0..<unat (hn_num_elements n)] = Inr None"
  proof (rule find_in_node [OF q(4), of key])
    fix i assume i: "i < unat (hn_num_elements n)" "hn_keys n ! i = key"
    then have "items n ! i \<in> set (items n)" using length_items [OF q(4)] by simp
    then have "key \<in> fst ` set (items n)" using items_nth [OF q(4) i(1)] i(2) by force
    then show ?thesis using nf(1) by blast
  qed
  then show ?case using Cons.IH [OF q(5) f(2) nf(2), of p] f(1) q a by (simp add: htnode_at_def)
qed

lemma chain_find_present:
  assumes "linked h p ns" "length ns < fuel" "key \<in> fst ` set (link_items ns)"
  obtains pre q n post i where "ns = pre @ (q, n) # post" "i < unat (hn_num_elements n)" "hn_keys n ! i = key"
    "chain_find fuel h key p l = Inr (Inl (q, i))" "htnode_ok n" "h q = Some n" "q \<noteq> NULL"
  using assms
proof (induction ns arbitrary: fuel p l thesis)
  case Nil
  then show ?case by simp
next
  case (Cons a ns)
  obtain q n where a: "a = (q, n)" by (cases a)
  obtain f where f: "fuel = Suc f" "length ns < f" using Cons.prems(3) by (cases fuel) auto
  have q: "p = q" "p \<noteq> NULL" "h p = Some n" "htnode_ok n" "linked h (hn_next n) ns" using Cons.prems(2) a by auto
  show ?case
  proof (rule find_in_node [OF q(4), of key])
    assume r: "node_find n key [0..<unat (hn_num_elements n)] = Inr None" "key \<notin> fst ` set (items n)"
    then have "key \<in> fst ` set (link_items ns)" using Cons.prems(4) a by auto
    then obtain pre q' n' post i where "ns = pre @ (q', n') # post" "i < unat (hn_num_elements n')" "hn_keys n' ! i = key"
      "chain_find f h key (hn_next n) p = Inr (Inl (q', i))" "htnode_ok n'" "h q' = Some n'" "q' \<noteq> NULL"
      using Cons.IH [OF _ q(5) f(2)] by blast
    then show ?case using Cons.prems(1) [of "a # pre"] r(1) q f(1) by (simp add: htnode_at_def)
  next
    fix i assume r: "node_find n key [0..<unat (hn_num_elements n)] = Inr (Some i)" "i < unat (hn_num_elements n)" "hn_keys n ! i = key"
    then show ?case using Cons.prems(1) [of "[]" q n ns i] q f(1) a by (simp add: htnode_at_def)
  qed
qed

section \<open>The map a hash table stands for\<close>

definition chain_of :: "(u32 \<rightharpoonup> ptr) \<Rightarrow> nat \<Rightarrow> nat \<Rightarrow> links \<Rightarrow> bool" where
  "chain_of m n i ns \<longleftrightarrow> ns \<noteq> [] \<and> (length ns = 1 \<or> (\<forall>a\<in>set ns. 0 < hn_num_elements (snd a))) \<and> distinct (map fst (link_items ns)) \<and>
     set (link_items ns) = {(k, v). m k = Some v \<and> unat k mod n = i}"

lemma chain_tl: "chain_of m n i ns \<Longrightarrow> \<forall>a\<in>set (tl ns). 0 < hn_num_elements (snd a)"
  by (cases ns) (auto simp: chain_of_def)

definition ht_view :: "'st fdb_hashtable_t \<Rightarrow> links list \<Rightarrow> (u32 \<rightharpoonup> ptr) \<Rightarrow> bool" where
  "ht_view t cs m \<longleftrightarrow> unat (ht_capacity t) = length cs \<and> cs \<noteq> [] \<and>
     (\<forall>i<length cs. linked (ht_nodes t) (entry_at (ht_entries t) i) (cs ! i) \<and> chain_of m (length cs) i (cs ! i)) \<and>
     distinct (map fst (concat cs)) \<and> dom (ht_nodes t) = fst ` set (concat cs) \<and> unat (ht_num_elements t) = card (dom m)"

lemma view_linked: "ht_view t cs m \<Longrightarrow> j < length cs \<Longrightarrow> linked (ht_nodes t) (entry_at (ht_entries t) j) (cs ! j)"
  by (simp add: ht_view_def)

lemma view_bucket:
  assumes v: "ht_view t cs m"
  obtains i where "i < length cs" "unat key mod length cs = i" "bucket t key = Inr (entry_at (ht_entries t) i)"
    "linked (ht_nodes t) (entry_at (ht_entries t) i) (cs ! i)" "chain_of m (length cs) i (cs ! i)"
proof -
  let ?i = "unat key mod length cs"
  have n: "unat (ht_capacity t) = length cs" "length cs > 0" using v by (auto simp: ht_view_def)
  then have i: "?i < length cs" by simp
  have "ht_capacity t \<noteq> 0" using n by auto
  then have "bucket t key = Inr (entry_at (ht_entries t) ?i)" by (simp add: bucket_def unat_mod n(1))
  then show thesis using that [OF i] v i by (simp add: ht_view_def)
qed

lemma length_chain: "\<forall>a\<in>set ns. 0 < hn_num_elements (snd a) \<and> htnode_ok (snd a) \<Longrightarrow> length ns \<le> length (link_items ns)"
proof (induction ns)
  case (Cons a ns)
  obtain q n where a: "a = (q, n)" by (cases a)
  have "0 < unat (hn_num_elements n)" using Cons.prems a by (simp add: word_less_nat_alt)
  then show ?case using Cons a length_items [of n] by auto
qed simp

lemma chain_fuel:
  assumes v: "ht_view t cs m" and i: "i < length cs"
  shows "length (cs ! i) < HT_FUEL t"
proof -
  have l: "linked (ht_nodes t) (entry_at (ht_entries t) i) (cs ! i)" "chain_of m (length cs) i (cs ! i)"
    using v i by (simp_all add: ht_view_def)
  obtain a ns where ns: "cs ! i = a # ns" using l(2) by (cases "cs ! i") (auto simp: chain_of_def)
  have "htnode_ok (snd a)" if "a \<in> set ns" for a using linked_in [OF l(1), of "fst a" "snd a"] that ns by simp
  then have "\<forall>a\<in>set ns. 0 < hn_num_elements (snd a) \<and> htnode_ok (snd a)"
    using chain_tl [OF l(2)] ns by simp
  then have "length ns \<le> length (link_items ns)" by (rule length_chain)
  also have "\<dots> \<le> length (link_items (cs ! i))" unfolding ns by (cases a) simp
  also have "\<dots> = card (fst ` set (link_items (cs ! i)))"
    using l(2) distinct_card [of "map fst (link_items (cs ! i))"] by (simp add: chain_of_def)
  also have "\<dots> \<le> card (dom m)" by (rule card_mono) (use l(2) in \<open>auto simp: chain_of_def\<close>)
  finally show ?thesis using v ns by (simp add: HT_FUEL_def ht_view_def)
qed

lemma bucket_keys:
  assumes "chain_of m n i ns" "unat key mod n = i"
  shows "key \<in> fst ` set (link_items ns) \<longleftrightarrow> m key \<noteq> None"
proof -
  have "set (link_items ns) = {(k, v). m k = Some v \<and> unat k mod n = i}" using assms(1) by (simp add: chain_of_def)
  then show ?thesis using assms(2) by (auto simp: image_iff)
qed

lemma get_view:
  assumes v: "ht_view t cs m"
  shows "fdb_hashtable_get t key = Inr (case m key of None \<Rightarrow> NULL | Some v \<Rightarrow> v)"
proof -
  obtain i where i: "i < length cs" "unat key mod length cs = i" "bucket t key = Inr (entry_at (ht_entries t) i)"
    "linked (ht_nodes t) (entry_at (ht_entries t) i) (cs ! i)" "chain_of m (length cs) i (cs ! i)" by (rule view_bucket [OF v])
  note fuel = chain_fuel [OF v i(1)] and keys = bucket_keys [OF i(5,2)]
  show ?thesis
  proof (cases "m key")
    case None
    then show ?thesis using chain_find_absent [OF i(4) fuel, of key NULL] keys i(3) by (simp add: fdb_hashtable_get_def)
  next
    case (Some v)
    then have "key \<in> fst ` set (link_items (cs ! i))" using keys by simp
    then obtain pre q n post j where r: "cs ! i = pre @ (q, n) # post" "j < unat (hn_num_elements n)" "hn_keys n ! j = key"
      "chain_find (HT_FUEL t) (ht_nodes t) key (entry_at (ht_entries t) i) NULL = Inr (Inl (q, j))" "htnode_ok n"
      "ht_nodes t q = Some n" "q \<noteq> NULL" using chain_find_present [OF i(4) fuel] by blast
    have "(key, hn_elements n ! j) \<in> set (items n)"
      using items_nth [OF r(5,2)] length_items [OF r(5)] r(2,3) by (metis nth_mem)
    then have "(key, hn_elements n ! j) \<in> set (link_items (cs ! i))" using r(1) by simp
    then have "m key = Some (hn_elements n ! j)" using i(5) by (simp add: chain_of_def)
    moreover have "j < length (hn_elements n)" using r(2,5) by (simp add: htnode_ok_def)
    ultimately show ?thesis using i(3) r by (simp add: fdb_hashtable_get_def htnode_at_def)
  qed
qed

section \<open>Adding\<close>

lemma concat_update: "i < length cs \<Longrightarrow> concat (cs[i := ns]) = concat (take i cs) @ ns @ concat (drop (Suc i) cs)"
  by (simp add: upd_conv_take_nth_drop)

lemma concat_at: "i < length cs \<Longrightarrow> concat cs = concat (take i cs) @ cs ! i @ concat (drop (Suc i) cs)"
  using concat_update [of i cs "cs ! i"] by simp

lemma chains_apart:
  "distinct (map fst (concat cs)) \<Longrightarrow> i < length cs \<Longrightarrow> j < length cs \<Longrightarrow> i \<noteq> j \<Longrightarrow> fst ` set (cs ! i) \<inter> fst ` set (cs ! j) = {}"
proof (induction cs arbitrary: i j)
  case (Cons c cs)
  have sub: "fst ` set (cs ! k) \<subseteq> fst ` set (concat cs)" if "k < length cs" for k using that by force
  have d: "fst ` set c \<inter> fst ` set (concat cs) = {}" "distinct (map fst (concat cs))" using Cons.prems(1) by auto
  show ?case
  proof (cases i)
    case 0
    then obtain k where "j = Suc k" "k < length cs" using Cons.prems by (cases j) auto
    then show ?thesis using 0 sub [of k] d(1) by auto
  next
    case (Suc k)
    then have k: "k < length cs" using Cons.prems by simp
    show ?thesis
    proof (cases j)
      case 0
      then show ?thesis using Suc sub [OF k] d(1) by auto
    next
      case (Suc l)
      then show ?thesis using \<open>i = Suc k\<close> Cons.IH [OF d(2) k, of l] Cons.prems by simp
    qed
  qed
qed simp

lemma chain_distinct: "distinct (map fst (concat cs)) \<Longrightarrow> i < length cs \<Longrightarrow> distinct (map fst (cs ! i))"
  by (metis concat_at distinct_append map_append)

lemma chain_of_other: "chain_of m n j ns \<Longrightarrow> unat key mod n \<noteq> j \<Longrightarrow> chain_of (m(key \<mapsto> v)) n j ns"
proof -
  assume c: "chain_of m n j ns" and k: "unat key mod n \<noteq> j"
  have "{(k, w). (m(key \<mapsto> v)) k = Some w \<and> unat k mod n = j} = {(k, w). m k = Some w \<and> unat k mod n = j}"
    using k by (auto split: if_splits)
  then show ?thesis using c by (simp add: chain_of_def)
qed

lemma view_replace:
  assumes v: "ht_view t cs m" and i: "i < length cs" "unat key mod length cs = i"
    and ns: "linked (ht_nodes t') (entry_at (ht_entries t) i) ns" "chain_of (m(key \<mapsto> x)) (length cs) i ns"
    and other: "\<And>j. j < length cs \<Longrightarrow> j \<noteq> i \<Longrightarrow> linked (ht_nodes t') (entry_at (ht_entries t) j) (cs ! j)"
    and ptrs: "distinct (map fst (concat (cs[i := ns])))" "dom (ht_nodes t') = fst ` set (concat (cs[i := ns]))"
    and t': "ht_capacity t' = ht_capacity t" "ht_entries t' = ht_entries t" "unat (ht_num_elements t') = card (dom (m(key \<mapsto> x)))"
  shows "ht_view t' (cs[i := ns]) (m(key \<mapsto> x))"
proof -
  have "linked (ht_nodes t') (entry_at (ht_entries t') j) (cs[i := ns] ! j) \<and> chain_of (m(key \<mapsto> x)) (length (cs[i := ns])) j (cs[i := ns] ! j)"
    if j: "j < length cs" for j
  proof (cases "j = i")
    case True
    then show ?thesis using ns t' i by simp
  next
    case False
    have "chain_of m (length cs) j (cs ! j)" using v j by (simp add: ht_view_def)
    then show ?thesis using other [OF j False] False i(2) t' chain_of_other by simp
  qed
  then show ?thesis unfolding ht_view_def using v ptrs t' by (auto simp: ht_view_def)
qed

text \<open>The key is there: one value changes.\<close>

lemma items_update: "htnode_ok n \<Longrightarrow> j < unat (hn_num_elements n) \<Longrightarrow>
    items (n\<lparr>hn_elements := (hn_elements n)[j := x]\<rparr>) = (items n)[j := (hn_keys n ! j, x)]"
  by (rule nth_equalityI) (auto simp: items_def htnode_ok_def nth_list_update)

lemma without_key:
  assumes "key \<notin> fst ` R" "insert (key, old) R = {(k, v). m k = Some v \<and> P k}"
  shows "R = {(k, v). m k = Some v \<and> P k \<and> k \<noteq> key}"
proof -
  have "R = {y \<in> insert (key, old) R. fst y \<noteq> key}" using assms(1) by force
  also have "\<dots> = {(k, v). m k = Some v \<and> P k \<and> k \<noteq> key}" unfolding assms(2) by auto
  finally show ?thesis .
qed

lemma distinct_keys_update:
  assumes "distinct (map fst (A @ xs @ B))" "set (A @ xs @ B) = {(k, v). m k = Some v \<and> P k}" "j < length xs" "fst (xs ! j) = key"
  shows "distinct (map fst (A @ xs[j := (key, x)] @ B))"
    "set (A @ xs[j := (key, x)] @ B) = {(k, v). (m(key \<mapsto> x)) k = Some v \<and> P k}" "m key = Some (snd (xs ! j))" "P key"
proof -
  have at: "xs ! j = (key, snd (xs ! j))" using assms(4) by (metis prod.collapse)
  have m: "map fst (xs[j := (key, x)]) = map fst xs" using assms(3,4) by (simp add: map_update list_update_same_conv)
  then show d: "distinct (map fst (A @ xs[j := (key, x)] @ B))" using assms(1) by (metis map_append)
  have "(key, snd (xs ! j)) \<in> set xs" using at assms(3) by (metis nth_mem)
  then have in_old: "(key, snd (xs ! j)) \<in> set (A @ xs @ B)" by simp
  then have P: "m key = Some (snd (xs ! j)) \<and> P key" using assms(2) by auto
  then show "m key = Some (snd (xs ! j))" "P key" by simp_all
  have ys: "A @ xs @ B = (A @ take j xs) @ (key, snd (xs ! j)) # (drop (Suc j) xs @ B)"
    using assms(3) at by (metis append.assoc append_Cons id_take_nth_drop)
  have zs: "A @ xs[j := (key, x)] @ B = (A @ take j xs) @ (key, x) # (drop (Suc j) xs @ B)"
    using assms(3) by (simp add: upd_conv_take_nth_drop)
  let ?R = "set ((A @ take j xs) @ (drop (Suc j) xs @ B))"
  have "key \<notin> fst ` ?R" using assms(1) unfolding ys by auto
  moreover have "insert (key, snd (xs ! j)) ?R = {(k, v). m k = Some v \<and> P k}" using assms(2) unfolding ys by auto
  ultimately have R: "?R = {(k, v). m k = Some v \<and> P k \<and> k \<noteq> key}" by (rule without_key)
  show "set (A @ xs[j := (key, x)] @ B) = {(k, v). (m(key \<mapsto> x)) k = Some v \<and> P k}"
    unfolding zs using R P by (auto split: if_splits)
qed

lemma ht_add_present:
  assumes v: "ht_view t cs m" and key: "m key = Some old"
  shows "\<exists>t' cs'. fdb_hashtable_add (t, st) key x = Inr (old, t', st) \<and> ht_view t' cs' (m(key \<mapsto> x)) \<and> length cs' = length cs \<and>
    dom (ht_nodes t') = dom (ht_nodes t) \<and> ht_entries t' = ht_entries t \<and> ht_allocator t' = ht_allocator t"
proof -
  obtain i where i: "i < length cs" "unat key mod length cs = i" "bucket t key = Inr (entry_at (ht_entries t) i)"
    "linked (ht_nodes t) (entry_at (ht_entries t) i) (cs ! i)" "chain_of m (length cs) i (cs ! i)" by (rule view_bucket [OF v])
  have "key \<in> fst ` set (link_items (cs ! i))" using bucket_keys [OF i(5,2)] key by simp
  then obtain pre q n post j where r: "cs ! i = pre @ (q, n) # post" "j < unat (hn_num_elements n)" "hn_keys n ! j = key"
    "chain_find (HT_FUEL t) (ht_nodes t) key (entry_at (ht_entries t) i) NULL = Inr (Inl (q, j))" "htnode_ok n"
    "ht_nodes t q = Some n" "q \<noteq> NULL" using chain_find_present [OF i(4) chain_fuel [OF v i(1)]] by blast
  let ?n = "n\<lparr>hn_elements := (hn_elements n)[j := x]\<rparr>" and ?ns = "pre @ (q, n\<lparr>hn_elements := (hn_elements n)[j := x]\<rparr>) # post"
  let ?t = "t\<lparr>ht_nodes := (ht_nodes t)(q \<mapsto> ?n)\<rparr>"
  have j: "j < length (hn_elements n)" using r(2,5) by (simp add: htnode_ok_def)
  have c: "distinct (map fst (link_items (cs ! i)))" "set (link_items (cs ! i)) = {(k, v). m k = Some v \<and> unat k mod length cs = i}"
    "length (cs ! i) = 1 \<or> (\<forall>a\<in>set (cs ! i). 0 < hn_num_elements (snd a))" using i(5) by (simp_all add: chain_of_def)
  have jj: "j < length (items n)" "fst (items n ! j) = key" "snd (items n ! j) = hn_elements n ! j"
    using length_items [OF r(5)] items_nth [OF r(5,2)] r(2,3) by simp_all
  have li: "link_items (cs ! i) = link_items pre @ items n @ link_items post" unfolding r(1) by simp
  note u = distinct_keys_update [OF c(1,2) [unfolded li] jj(1,2)]
  have old: "hn_elements n ! j = old" using u(3) key jj(3) by simp
  have run: "fdb_hashtable_add (t, st) key x = Inr (old, ?t, st)"
    using i(3) r j old by (simp add: fdb_hashtable_add_def htnode_at_def)
  have items: "items ?n = (items n)[j := (key, x)]" using items_update [OF r(5,2)] r(3) by simp
  have dp: "distinct (map fst (concat cs))" using v by (simp add: ht_view_def)
  have dns: "distinct (map fst (pre @ (q, n) # post))" using chain_distinct [OF dp i(1)] r(1) by simp
  have CH: "chain_of (m(key \<mapsto> x)) (length cs) i ?ns"
  proof -
    have "link_items ?ns = link_items pre @ (items n)[j := (key, x)] @ link_items post" using items by simp
    moreover have "length ?ns = 1 \<or> (\<forall>a\<in>set ?ns. 0 < hn_num_elements (snd a))" using c(3) unfolding r(1) by simp
    ultimately show ?thesis unfolding chain_of_def using u(1,2) [of x] by simp
  qed
  have LI: "linked ((ht_nodes t)(q \<mapsto> ?n)) (entry_at (ht_entries t) i) ?ns"
    by (rule linked_update [OF i(4) [unfolded r(1)] dns]) (use r(5) in \<open>simp_all add: htnode_ok_def\<close>)
  have OT: "linked ((ht_nodes t)(q \<mapsto> ?n)) (entry_at (ht_entries t) k) (cs ! k)" if k: "k < length cs" "k \<noteq> i" for k
  proof -
    have "q \<notin> fst ` set (cs ! k)" using chains_apart [OF dp i(1) k(1)] k(2) r(1) by auto
    then show ?thesis using view_linked [OF v k(1)] by (simp only: linked_other not_False_eq_True)
  qed
  have ptrs: "map fst (concat (cs[i := ?ns])) = map fst (concat cs)"
    using concat_update [OF i(1), of ?ns] concat_at [OF i(1)] r(1) by simp
  have dom: "dom ((ht_nodes t)(q \<mapsto> ?n)) = dom (ht_nodes t)" using r(6) by auto
  have "dom (m(key \<mapsto> x)) = dom m" using key by auto
  then have num: "unat (ht_num_elements t) = card (dom (m(key \<mapsto> x)))" using v by (simp add: ht_view_def)
  have all: "dom ((ht_nodes t)(q \<mapsto> ?n)) = fst ` set (concat (cs[i := ?ns]))"
    unfolding dom by (metis ptrs list.set_map v ht_view_def)
  have nodes: "ht_nodes ?t = (ht_nodes t)(q \<mapsto> ?n)" by simp
  have "ht_view ?t (cs[i := ?ns]) (m(key \<mapsto> x))"
    by (rule view_replace [where t' = ?t, OF v i(1,2), unfolded nodes, OF LI CH OT _ all]) (use ptrs dp num in simp_all)
  then show ?thesis using run dom by (intro exI [of _ ?t] exI [of _ "cs[i := ?ns]"]) simp
qed

text \<open>The key is new: it goes to the last node of the chain, or to a node of its own behind it.\<close>

lemma items_snoc:
  assumes "htnode_ok n" "unat (hn_num_elements n) < 8"
  shows "items (n\<lparr>hn_keys := (hn_keys n)[unat (hn_num_elements n) := k], hn_elements := (hn_elements n)[unat (hn_num_elements n) := x],
      hn_num_elements := hn_num_elements n + 1\<rparr>) = items n @ [(k, x)]"
proof -
  have "unat (hn_num_elements n + 1) = Suc (unat (hn_num_elements n))" using assms(2) by (simp add: unat_word_ariths)
  then show ?thesis using assms by (simp add: items_def htnode_ok_def take_Suc_conv_app_nth)
qed

definition one_node :: "u32 \<Rightarrow> ptr \<Rightarrow> fdb_hashtable_node_t" where
  "one_node key x = zero_node\<lparr>hn_keys := (hn_keys zero_node)[0 := key], hn_elements := (hn_elements zero_node)[0 := x], hn_num_elements := 1\<rparr>"

lemma one_node: "items (one_node key x) = [(key, x)]" "htnode_ok (one_node key x)" "hn_next (one_node key x) = NULL"
  "hn_num_elements (one_node key x) = 1"
  by (simp_all add: one_node_def zero_node_def items_def htnode_ok_def numeral_eq_Suc)

lemma chain_of_snoc:
  assumes "chain_of m n i ns" "unat key mod n = i" "m key = None" "link_items ns' = link_items ns @ [(key, x)]" "ns' \<noteq> []"
    "length ns' = 1 \<or> (\<forall>a\<in>set ns'. 0 < hn_num_elements (snd a))"
  shows "chain_of (m(key \<mapsto> x)) n i ns'"
proof -
  have c: "set (link_items ns) = {(k, v). m k = Some v \<and> unat k mod n = i}" "distinct (map fst (link_items ns))"
    using assms(1) by (simp_all add: chain_of_def)
  have "key \<notin> fst ` set (link_items ns)" using c(1) assms(3) by (auto simp: image_iff)
  then have "distinct (map fst (link_items ns'))" using c(2) assms(4) by simp
  moreover have "set (link_items ns') = {(k, v). (m(key \<mapsto> x)) k = Some v \<and> unat k mod n = i}"
    unfolding assms(4) set_append c(1) using assms(2,3) by (auto split: if_splits)
  ultimately show ?thesis using assms(5,6) by (simp add: chain_of_def)
qed

lemma last_split: "ns \<noteq> [] \<Longrightarrow> ns = butlast ns @ [(fst (last ns), snd (last ns))]"
  by simp

lemma card_dom_upd: "m key = None \<Longrightarrow> card (dom (m(key \<mapsto> x))) = Suc (card (dom (m :: u32 \<rightharpoonup> ptr)))"
  by (simp add: card_insert_if domIff)

lemma add_to_last:
  assumes v: "ht_view t cs m" and key: "m key = None" and num: "card (dom m) + 1 < 2 ^ 32"
    and i: "i < length cs" "unat key mod length cs = i" "cs ! i = pre @ [(q, n)]" "chain_of m (length cs) i (cs ! i)"
    "linked (ht_nodes t) (entry_at (ht_entries t) i) (cs ! i)" and room: "unat (hn_num_elements n) < 8"
    and k: "k = n\<lparr>hn_keys := (hn_keys n)[unat (hn_num_elements n) := key], hn_elements := (hn_elements n)[unat (hn_num_elements n) := x],
      hn_num_elements := hn_num_elements n + 1\<rparr>"
  shows "ht_view (t\<lparr>ht_num_elements := ht_num_elements t + 1, ht_nodes := (ht_nodes t)(q \<mapsto> k)\<rparr>) (cs[i := pre @ [(q, k)]]) (m(key \<mapsto> x))"
proof -
  have n: "htnode_ok n" "ht_nodes t q = Some n" using linked_in [OF i(5), of q n] i(3) by simp_all
  have items: "items k = items n @ [(key, x)]" unfolding k by (rule items_snoc [OF n(1) room])
  have knum: "unat (hn_num_elements k) = Suc (unat (hn_num_elements n))" using room by (simp add: k unat_word_ariths)
  have kok: "htnode_ok k" using n(1) knum room by (simp add: htnode_ok_def) (simp add: k)
  have dp: "distinct (map fst (concat cs))" using v by (simp add: ht_view_def)
  have dns: "distinct (map fst (pre @ [(q, n)]))" using chain_distinct [OF dp i(1)] i(3) by simp
  have CH: "chain_of (m(key \<mapsto> x)) (length cs) i (pre @ [(q, k)])"
  proof (rule chain_of_snoc [OF i(4,2) key])
    have "0 < hn_num_elements k" using knum by (simp add: word_less_nat_alt)
    moreover have "length (cs ! i) = 1 \<or> (\<forall>a\<in>set (cs ! i). 0 < hn_num_elements (snd a))" using i(4) by (simp add: chain_of_def)
    ultimately show "length (pre @ [(q, k)]) = 1 \<or> (\<forall>a\<in>set (pre @ [(q, k)]). 0 < hn_num_elements (snd a))"
      unfolding i(3) by auto
  qed (simp_all add: i(3) items)
  have LI: "linked ((ht_nodes t)(q \<mapsto> k)) (entry_at (ht_entries t) i) (pre @ [(q, k)])"
    using linked_update [OF i(5) [unfolded i(3)] dns kok] by (simp add: k)
  have OT: "linked ((ht_nodes t)(q \<mapsto> k)) (entry_at (ht_entries t) j) (cs ! j)" if j: "j < length cs" "j \<noteq> i" for j
  proof -
    have "q \<notin> fst ` set (cs ! j)" using chains_apart [OF dp i(1) j(1)] j(2) i(3) by auto
    then show ?thesis using view_linked [OF v j(1)] by (simp only: linked_other not_False_eq_True)
  qed
  have ptrs: "map fst (concat (cs[i := pre @ [(q, k)]])) = map fst (concat cs)"
    using concat_update [OF i(1), of "pre @ [(q, k)]"] concat_at [OF i(1)] i(3) by simp
  have dom: "dom ((ht_nodes t)(q \<mapsto> k)) = dom (ht_nodes t)" using n(2) by auto
  have all: "dom ((ht_nodes t)(q \<mapsto> k)) = fst ` set (concat (cs[i := pre @ [(q, k)]]))"
    unfolding dom by (metis ptrs list.set_map v ht_view_def)
  have more: "unat (ht_num_elements t + 1) = card (dom (m(key \<mapsto> x)))"
    using v num card_dom_upd [where m = m and x = x, OF key] by (simp add: ht_view_def unat_word_ariths)
  let ?t = "t\<lparr>ht_num_elements := ht_num_elements t + 1, ht_nodes := (ht_nodes t)(q \<mapsto> k)\<rparr>"
  have nodes: "ht_nodes ?t = (ht_nodes t)(q \<mapsto> k)" by simp
  show ?thesis
    by (rule view_replace [where t' = ?t, OF v i(1,2), unfolded nodes, OF LI CH OT _ all]) (use ptrs dp more in simp_all)
qed

lemma add_new_node:
  assumes v: "ht_view t cs m" and key: "m key = None" and num: "card (dom m) + 1 < 2 ^ 32"
    and i: "i < length cs" "unat key mod length cs = i" "cs ! i = pre @ [(q, n)]" "chain_of m (length cs) i (cs ! i)"
    "linked (ht_nodes t) (entry_at (ht_entries t) i) (cs ! i)" and r: "r \<noteq> NULL" "ht_nodes t r = None"
    and full: "0 < hn_num_elements n"
  shows "ht_view (t\<lparr>ht_num_elements := ht_num_elements t + 1, ht_nodes := (ht_nodes t)(r \<mapsto> one_node key x, q \<mapsto> n\<lparr>hn_next := r\<rparr>)\<rparr>)
    (cs[i := pre @ [(q, n\<lparr>hn_next := r\<rparr>), (r, one_node key x)]]) (m(key \<mapsto> x))"
proof -
  let ?ns = "pre @ [(q, n\<lparr>hn_next := r\<rparr>), (r, one_node key x)]" and ?h = "(ht_nodes t)(r \<mapsto> one_node key x, q \<mapsto> n\<lparr>hn_next := r\<rparr>)"
  have q: "ht_nodes t q = Some n" using linked_in [OF i(5), of q n] i(3) by simp
  have dp: "distinct (map fst (concat cs))" and all: "dom (ht_nodes t) = fst ` set (concat cs)" using v by (simp_all add: ht_view_def)
  have dns: "distinct (map fst (pre @ [(q, n)]))" using chain_distinct [OF dp i(1)] i(3) by simp
  have new: "r \<notin> fst ` set (concat cs)" using r(2) all by blast
  have sub: "fst ` set (cs ! j) \<subseteq> fst ` set (concat cs)" if "j < length cs" for j using that by force
  have fresh: "r \<notin> fst ` set (pre @ [(q, n)])" using new sub [OF i(1)] i(3) by auto
  have items: "items (n\<lparr>hn_next := r\<rparr>) = items n" by (simp add: items_def)
  have CH: "chain_of (m(key \<mapsto> x)) (length cs) i ?ns"
  proof (rule chain_of_snoc [OF i(4,2) key])
    have "length (cs ! i) = 1 \<or> (\<forall>a\<in>set (cs ! i). 0 < hn_num_elements (snd a))" using i(4) by (simp add: chain_of_def)
    then show "length ?ns = 1 \<or> (\<forall>a\<in>set ?ns. 0 < hn_num_elements (snd a))" using full unfolding i(3) by (auto simp: one_node)
  qed (simp_all add: i(3) items one_node)
  have LI: "linked ?h (entry_at (ht_entries t) i) ?ns"
    by (rule linked_append [OF i(5) [unfolded i(3)] dns fresh r(1) one_node(2,3)])
  have OT: "linked ?h (entry_at (ht_entries t) j) (cs ! j)" if j: "j < length cs" "j \<noteq> i" for j
  proof -
    have "q \<notin> fst ` set (cs ! j)" using chains_apart [OF dp i(1) j(1)] j(2) i(3) by auto
    moreover have "r \<notin> fst ` set (cs ! j)" using new sub [OF j(1)] by blast
    ultimately show ?thesis using view_linked [OF v j(1)] by (simp only: linked_other not_False_eq_True)
  qed
  have c: "concat (cs[i := ?ns]) = concat (take i cs) @ pre @ [(q, n\<lparr>hn_next := r\<rparr>), (r, one_node key x)] @ concat (drop (Suc i) cs)"
    "concat cs = concat (take i cs) @ pre @ [(q, n)] @ concat (drop (Suc i) cs)"
    using concat_update [OF i(1), of ?ns] concat_at [OF i(1)] i(3) by simp_all
  have dist: "distinct (map fst (concat (cs[i := ?ns])))" using dp new unfolding c by auto
  have "dom ?h = insert r (dom (ht_nodes t))" using q by auto
  then have all2: "dom ?h = fst ` set (concat (cs[i := ?ns]))" unfolding all c by auto
  have more: "unat (ht_num_elements t + 1) = card (dom (m(key \<mapsto> x)))"
    using v num card_dom_upd [where m = m and x = x, OF key] by (simp add: ht_view_def unat_word_ariths)
  let ?t = "t\<lparr>ht_num_elements := ht_num_elements t + 1, ht_nodes := ?h\<rparr>"
  have nodes: "ht_nodes ?t = ?h" by simp
  show ?thesis
    by (rule view_replace [where t' = ?t, OF v i(1,2), unfolded nodes, OF LI CH OT dist all2]) (use more in simp_all)
qed

section \<open>The contract with the allocator\<close>

definition ht_mem ::
  "('st \<Rightarrow> u32 \<Rightarrow> u32 \<Rightarrow> u32 \<Rightarrow> ptr \<times> 'st) \<Rightarrow> ('st \<Rightarrow> ptr \<Rightarrow> 'st) \<Rightarrow> nat \<Rightarrow> 'st fdb_hashtable_t \<Rightarrow> (ptr \<rightharpoonup> nat) \<Rightarrow> bool" where
  "ht_mem alloc free n t live \<longleftrightarrow> p_mem_alloc (ht_allocator t) = alloc \<and> p_mem_free (ht_allocator t) = free \<and>
     live (ht_entries t) = Some (112 * n) \<and> unat (ht_entries t) + 112 * n < 2 ^ 64 \<and>
     (\<forall>p\<in>dom (ht_nodes t). p \<in> entry_at (ht_entries t) ` {..<n} \<or> live p = Some 112)"

lemma unat_entry_at:
  assumes "unat p + 112 * n < 2 ^ 64" "i < n" shows "unat (entry_at p i) = unat p + 112 * i"
proof -
  have i: "unat (of_nat i :: u64) = i" using assms by (simp add: unat_of_nat take_bit_nat_eq_self)
  have "unat (of_nat i * 112 :: u64) = i * 112" using assms i by (simp add: unat_word_ariths)
  then show ?thesis using assms by (simp add: entry_at_def sizeof_htnode_def unat_word_ariths)
qed

lemma fresh_node:
  assumes "ht_mem alloc free n t live" "fits live r 112" shows "r \<noteq> NULL" "ht_nodes t r = None"
proof -
  have m: "live (ht_entries t) = Some (112 * n)" "unat (ht_entries t) + 112 * n < 2 ^ 64"
    "\<And>p. p \<in> dom (ht_nodes t) \<Longrightarrow> p \<in> entry_at (ht_entries t) ` {..<n} \<or> live p = Some 112"
    using assms(1) unfolding ht_mem_def by blast+
  show "r \<noteq> NULL" using assms(2) by (simp add: fits_def)
  have a: "apart r 112 (ht_entries t) (112 * n)" "live r = None" using assms(2) m(1) by (auto simp: fits_def)
  show "ht_nodes t r = None"
  proof (rule ccontr)
    assume "ht_nodes t r \<noteq> None"
    then obtain i where i: "i < n" "r = entry_at (ht_entries t) i" using m(3) [of r] a(2) by auto
    then have "unat r = unat (ht_entries t) + 112 * i" using unat_entry_at [OF m(2)] by simp
    then show False using a(1) i(1) unfolding apart_def by linarith
  qed
qed

context mem_provider
begin

lemma ht_add_spec:
  assumes v: "ht_view t cs m" and mem: "ht_mem alloc free (length cs) t live" and a: "ainv st live" "room st (Suc n)" "serves st 1 112"
    and num: "card (dom m) + 1 < 2 ^ 32"
  shows "\<exists>t' st' cs' live'. fdb_hashtable_add (t, st) key x = Inr (case m key of None \<Rightarrow> NULL | Some v \<Rightarrow> v, t', st') \<and>
    ht_view t' cs' (m(key \<mapsto> x)) \<and> length cs' = length cs \<and> ht_mem alloc free (length cs) t' live' \<and>
    ainv st' live' \<and> room st' n \<and> serves st' 1 112"
proof (cases "m key")
  case (Some old)
  obtain t' cs' where t': "fdb_hashtable_add (t, st) key x = Inr (old, t', st)" "ht_view t' cs' (m(key \<mapsto> x))" "length cs' = length cs"
    "dom (ht_nodes t') = dom (ht_nodes t)" "ht_entries t' = ht_entries t" "ht_allocator t' = ht_allocator t"
    using ht_add_present [OF v Some] by blast
  have "ht_mem alloc free (length cs) t' live" using mem t'(4-6) by (simp add: ht_mem_def)
  then show ?thesis using t'(1-3) Some a room_mono [OF a(2)] by auto
next
  case None
  obtain i where i: "i < length cs" "unat key mod length cs = i" "bucket t key = Inr (entry_at (ht_entries t) i)"
    "linked (ht_nodes t) (entry_at (ht_entries t) i) (cs ! i)" "chain_of m (length cs) i (cs ! i)" by (rule view_bucket [OF v])
  have ne: "cs ! i \<noteq> []" using i(5) by (simp add: chain_of_def)
  obtain pre q k where pre: "cs ! i = pre @ [(q, k)]" using last_split [OF ne] by blast
  have "key \<notin> fst ` set (link_items (cs ! i))" using bucket_keys [OF i(5,2)] None by simp
  from chain_find_absent [OF i(4) chain_fuel [OF v i(1)] this, of NULL]
  have find: "chain_find (HT_FUEL t) (ht_nodes t) key (entry_at (ht_entries t) i) NULL = Inr (Inr q)" using pre by simp
  have k: "q \<noteq> NULL" "ht_nodes t q = Some k" "htnode_ok k" using linked_in [OF i(4), of q k] pre by simp_all
  show ?thesis
  proof (cases "unat (hn_num_elements k) < 8")
    case True
    let ?k = "k\<lparr>hn_keys := (hn_keys k)[unat (hn_num_elements k) := key], hn_elements := (hn_elements k)[unat (hn_num_elements k) := x],
      hn_num_elements := hn_num_elements k + 1\<rparr>"
    let ?t = "t\<lparr>ht_num_elements := ht_num_elements t + 1, ht_nodes := (ht_nodes t)(q \<mapsto> ?k)\<rparr>"
    have run: "fdb_hashtable_add (t, st) key x = Inr (NULL, ?t, st)"
      using i(3) find k True by (simp add: fdb_hashtable_add_def htnode_at_def HASHTABLE_NODE_CAPACITY_def htnode_ok_def)
    have "ht_view ?t (cs[i := pre @ [(q, ?k)]]) (m(key \<mapsto> x))"
      by (rule add_to_last [OF v None num i(1,2) pre i(5,4) True refl])
    moreover have "dom ((ht_nodes t)(q \<mapsto> ?k)) = dom (ht_nodes t)" using k(2) by auto
    then have "ht_mem alloc free (length cs) ?t live" using mem by (simp add: ht_mem_def)
    ultimately show ?thesis using run None a room_mono [OF a(2)]
      by (intro exI [of _ ?t] exI [of _ st] exI [of _ "cs[i := pre @ [(q, ?k)]]"] exI [of _ live]) simp
  next
    case False
    obtain r st' where r: "alloc st 1 112 (- 1) = (r, st')" by (metis prod.collapse)
    note f = alloc_fits [OF a r] alloc_inv [OF a r] alloc_room [OF a r] alloc_serves [OF a r]
    have fits: "fits live r 112" using f(1) by simp
    note fresh = fresh_node [OF mem fits]
    let ?t = "t\<lparr>ht_num_elements := ht_num_elements t + 1, ht_nodes := (ht_nodes t)(r \<mapsto> one_node key x, q \<mapsto> k\<lparr>hn_next := r\<rparr>)\<rparr>"
    have al: "p_mem_alloc (ht_allocator t) = alloc" using mem by (simp add: ht_mem_def)
    have run: "fdb_hashtable_add (t, st) key x = Inr (NULL, ?t, st')"
      using i(3) find k False r fresh(1) al
      by (simp add: fdb_hashtable_add_def htnode_at_def HASHTABLE_NODE_CAPACITY_def mem_alloc_def sizeof_htnode_def one_node_def)
    have "0 < hn_num_elements k" using False by (simp add: word_less_nat_alt)
    then have "ht_view ?t (cs[i := pre @ [(q, k\<lparr>hn_next := r\<rparr>), (r, one_node key x)]]) (m(key \<mapsto> x))"
      by (rule add_new_node [OF v None num i(1,2) pre i(5,4) fresh])
    moreover have "live r = None" using fits by (simp add: fits_def)
    then have "ht_mem alloc free (length cs) ?t (live(r \<mapsto> 112))" using mem k(2) unfolding ht_mem_def by auto
    ultimately show ?thesis using run None f a(3)
      by (intro exI [of _ ?t] exI [of _ st'] exI [of _ "cs[i := pre @ [(q, k\<lparr>hn_next := r\<rparr>), (r, one_node key x)]]"]
          exI [of _ "live(r \<mapsto> 112)"]) (simp del: fun_upd_apply)
  qed
qed

lemma ht_init_spec:
  assumes alloc: "p_mem_alloc (case al of Some a \<Rightarrow> a | None \<Rightarrow> g) = alloc" "p_mem_free (case al of Some a \<Rightarrow> a | None \<Rightarrow> g) = free"
    and a: "ainv st live" "room st (Suc n)" "serves st 1 (112 * cap)" "serves st 1 112"
    and cap: "0 < cap" "unat cap * 112 < 2 ^ 32"
  shows "\<exists>t st' cs live'. fdb_hashtable_init cap al g st = Inr (t, st') \<and> ht_view t cs Map.empty \<and> length cs = unat cap \<and>
    ht_mem alloc free (length cs) t live' \<and> ainv st' live' \<and> room st' n \<and> serves st' 1 112"
proof -
  obtain p st' where p: "alloc st 1 (112 * cap) FDB_NO_HINT = (p, st')" by (metis prod.collapse)
  note f = alloc_fits [OF a(1-3) p] alloc_inv [OF a(1-3) p] alloc_room [OF a(1-3) p] alloc_serves [OF a(1-3) p]
  have sz: "unat (112 * cap) = 112 * unat cap" using cap(2) by (simp add: unat_word_ariths)
  have w: "(ucast (sizeof_htnode * ucast cap) :: u32) = 112 * cap"
  proof -
    have "unat (sizeof_htnode * ucast cap :: u64) = 112 * unat cap" using cap(2) by (simp add: sizeof_htnode_def unat_word_ariths)
    then have "unat (ucast (sizeof_htnode * ucast cap :: u64) :: u32) = 112 * unat cap"
      using cap(2) by (simp add: unsigned_ucast_eq take_bit_nat_eq_self)
    then show ?thesis using sz by (simp add: word_unat_eq_iff)
  qed
  have pn: "p \<noteq> NULL" "unat p + 112 * unat cap < 2 ^ 64" using f(1) sz by (simp_all add: fits_def)
  let ?n = "unat cap" let ?al = "case al of Some a \<Rightarrow> a | None \<Rightarrow> g"
  have inj: "inj_on (entry_at p) {..<?n}"
    by (rule inj_onI) (use unat_entry_at [OF pn(2)] in \<open>metis add_left_cancel lessThan_iff mult_cancel1 zero_neq_numeral\<close>)
  let ?h = "map_of (map (\<lambda>i. (entry_at p i, zero_node)) [0..<?n])"
  have keys: "map fst (map (\<lambda>i. (entry_at p i, zero_node)) [0..<?n]) = map (entry_at p) [0..<?n]" by simp
  have dk: "distinct (map (entry_at p) [0..<?n])" using inj by (simp add: distinct_map lessThan_atLeast0)
  have h: "?h (entry_at p i) = Some zero_node" if "i < ?n" for i
    by (rule map_of_is_SomeI) (use dk that in \<open>auto simp: comp_def\<close>)
  let ?t = "\<lparr>ht_capacity = cap, ht_num_elements = 0, ht_entries = p, ht_allocator = ?al, ht_nodes = ?h\<rparr>"
  let ?cs = "map (\<lambda>i. [(entry_at p i, zero_node)]) [0..<?n]"
  have run: "fdb_hashtable_init cap al g st = Inr (?t, st')"
    using p pn(1) alloc(1) w by (simp add: fdb_hashtable_init_def mem_alloc_def)
  have z: "items zero_node = []" "htnode_ok zero_node" by (simp_all add: items_def htnode_ok_def zero_node_def)
  have nz: "entry_at p i \<noteq> NULL" if "i < ?n" for i using unat_entry_at [OF pn(2) that] pn(1) by (auto simp: word_unat_eq_iff)
  have cat: "concat ?cs = map (\<lambda>i. (entry_at p i, zero_node)) [0..<?n]" by (induction "?n") simp_all
  have "ht_view ?t ?cs Map.empty"
    unfolding ht_view_def
  proof (intro conjI allI impI)
    show "distinct (map fst (concat ?cs))" unfolding cat keys by (rule dk)
    show "dom (ht_nodes ?t) = fst ` set (concat ?cs)" unfolding cat by (simp add: dom_map_of_conv_image_fst)
    fix i assume i: "i < length ?cs"
    then have "?cs ! i = [(entry_at p i, zero_node)]" by simp
    then show "linked (ht_nodes ?t) (entry_at (ht_entries ?t) i) (?cs ! i)" "chain_of Map.empty (length ?cs) i (?cs ! i)"
      using i h nz z by (simp_all add: chain_of_def) (simp add: zero_node_def)
  qed (use cap(1) in \<open>auto simp: word_less_nat_alt\<close>)
  moreover have "ht_mem alloc free (length ?cs) ?t (live(p \<mapsto> unat (112 * cap)))"
    using alloc pn(2) sz by (auto simp: ht_mem_def dom_map_of_conv_image_fst)
  ultimately show ?thesis using run f a(4)
    by (intro exI [of _ ?t] exI [of _ st'] exI [of _ ?cs] exI [of _ "live(p \<mapsto> unat (112 * cap))"]) (simp del: fun_upd_apply)
qed

end

section \<open>The iterator as the list of what is left\<close>

definition hit_at :: "links list \<Rightarrow> fdb_hashtable_iter_t \<Rightarrow> (u32 \<times> ptr) list \<Rightarrow> bool" where
  "hit_at cs it ys \<longleftrightarrow> (hi_next_node it = NULL \<and> ys = []) \<or>
     (\<exists>i pre q n post. i < length cs \<and> cs ! i = pre @ (q, n) # post \<and> hi_next_node it = q \<and>
        hi_next_element it < hn_num_elements n \<and> unat (hi_next_entry it) = Suc i \<and>
        ys = drop (unat (hi_next_element it)) (items n) @ link_items post @ link_items (concat (drop (Suc i) cs)))"

lemma view_head:
  assumes v: "ht_view t cs m" and i: "i < length cs"
  obtains n ns where "cs ! i = (entry_at (ht_entries t) i, n) # ns" "htnode_at (ht_nodes t) (entry_at (ht_entries t) i) = Inr n"
    "htnode_ok n" "hn_num_elements n = 0 \<longrightarrow> link_items (cs ! i) = []" "entry_at (ht_entries t) i \<noteq> NULL"
proof -
  have l: "linked (ht_nodes t) (entry_at (ht_entries t) i) (cs ! i)" by (rule view_linked [OF v i])
  have c: "chain_of m (length cs) i (cs ! i)" using v i by (simp add: ht_view_def)
  then obtain q n ns where ns: "cs ! i = (q, n) # ns" by (cases "cs ! i") (auto simp: chain_of_def)
  have q: "q = entry_at (ht_entries t) i" "q \<noteq> NULL" "ht_nodes t q = Some n" "htnode_ok n" using l ns by auto
  have "link_items (cs ! i) = []" if "hn_num_elements n = 0"
  proof -
    have "ns = []" using c ns that by (auto simp: chain_of_def)
    then show ?thesis using ns that by (simp add: items_def)
  qed
  then show thesis using that ns q by (simp add: htnode_at_def)
qed

lemma drop_chain: "i < length cs \<Longrightarrow> link_items (concat (drop i cs)) = link_items (cs ! i) @ link_items (concat (drop (Suc i) cs))"
  by (simp add: Cons_nth_drop_Suc [symmetric])

lemma hit_at_head:
  assumes "i < length cs" "cs ! i = (p, n) # ns" "htnode_ok n" "hn_num_elements n \<noteq> 0" "length cs < 2 ^ 32"
  shows "hit_at cs (it\<lparr>hi_next_node := p, hi_next_entry := of_nat i + 1, hi_next_element := 0\<rparr>) (link_items (concat (drop i cs)))"
proof -
  have "unat (of_nat i :: u32) = i" using assms(1,5) by (simp add: unat_of_nat take_bit_nat_eq_self)
  then have "unat (of_nat i + 1 :: u32) = Suc i" using assms(1,5) by (simp add: unat_word_ariths)
  then show ?thesis unfolding hit_at_def
    using assms drop_chain [OF assms(1)]
    by (intro disjI2 exI [of _ i] exI [of _ "[]"] exI [of _ p] exI [of _ n] exI [of _ ns]) (simp add: word_neq_0_conv)
qed

lemma ht_seek_spec:
  assumes v: "ht_view t cs m" and e: "e < length cs" and it: "hi_next_element it = 0"
  shows "\<exists>it'. seek_entry t [e..<length cs] it = Inr it' \<and> hit_at cs it' (link_items (concat (drop e cs)))"
  using e it
proof (induction "length cs - e" arbitrary: e it)
  case 0
  then show ?case by simp
next
  case (Suc k)
  have N: "length cs < 2 ^ 32" using v unat_u32_bound [of "ht_capacity t"] by (simp add: ht_view_def)
  obtain n ns where n: "cs ! e = (entry_at (ht_entries t) e, n) # ns" "htnode_at (ht_nodes t) (entry_at (ht_entries t) e) = Inr n"
    "htnode_ok n" "hn_num_elements n = 0 \<longrightarrow> link_items (cs ! e) = []" "entry_at (ht_entries t) e \<noteq> NULL"
    by (rule view_head [OF v Suc.prems(1)])
  have js: "[e..<length cs] = e # [Suc e..<length cs]" using Suc.prems(1) by (simp add: upt_conv_Cons)
  let ?it = "it\<lparr>hi_next_node := entry_at (ht_entries t) e, hi_next_entry := of_nat e + 1\<rparr>"
  consider "hn_num_elements n \<noteq> 0" | "hn_num_elements n = 0" "Suc e < length cs" | "hn_num_elements n = 0" "length cs = Suc e"
    using Suc.prems(1) by linarith
  then show ?case
  proof cases
    case 1
    have "?it\<lparr>hi_next_element := 0\<rparr> = ?it" using Suc.prems(2) by simp
    then have "hit_at cs ?it (link_items (concat (drop e cs)))"
      using hit_at_head [OF Suc.prems(1) n(1,3) 1 N, of it] by simp
    then show ?thesis using 1 n(2) by (simp add: js Let_def)
  next
    case 2
    have "k = length cs - Suc e" using Suc.hyps(2) by simp
    from Suc.hyps(1) [OF this 2(2), of ?it] Suc.prems(2) obtain it' where
      "seek_entry t [Suc e..<length cs] ?it = Inr it'" "hit_at cs it' (link_items (concat (drop (Suc e) cs)))" by auto
    moreover have "link_items (concat (drop e cs)) = link_items (concat (drop (Suc e) cs))"
      using drop_chain [OF Suc.prems(1)] n(4) 2(1) by simp
    moreover have "[Suc e..<length cs] \<noteq> []" using 2(2) by (simp add: upt_conv_Cons)
    ultimately show ?thesis using 2(1) n(2) by (simp add: js Let_def del: upt_Suc upt_rec_numeral)
  next
    case 3
    have "link_items (concat (drop e cs)) = []" using drop_chain [OF Suc.prems(1)] n(4) 3 by simp
    then show ?thesis using 3 n(2) by (simp add: js Let_def hit_at_def)
  qed
qed

lemma first_spec:
  assumes v: "ht_view t cs m" and e: "e \<le> length cs" and it: "hi_next_element it = 0" "hi_next_node it = NULL"
  shows "\<exists>it'. first_entry t [e..<length cs] it = Inr it' \<and> hit_at cs it' (link_items (concat (drop e cs)))"
  using e it
proof (induction "length cs - e" arbitrary: e it)
  case 0
  then show ?case by (simp add: hit_at_def)
next
  case (Suc k)
  have N: "length cs < 2 ^ 32" using v unat_u32_bound [of "ht_capacity t"] by (simp add: ht_view_def)
  have e: "e < length cs" using Suc.hyps(2) by simp
  obtain n ns where n: "cs ! e = (entry_at (ht_entries t) e, n) # ns" "htnode_at (ht_nodes t) (entry_at (ht_entries t) e) = Inr n"
    "htnode_ok n" "hn_num_elements n = 0 \<longrightarrow> link_items (cs ! e) = []" "entry_at (ht_entries t) e \<noteq> NULL"
    by (rule view_head [OF v e])
  have js: "[e..<length cs] = e # [Suc e..<length cs]" using e by (simp add: upt_conv_Cons)
  show ?case
  proof (cases "hn_num_elements n = 0")
    case False
    let ?it = "it\<lparr>hi_next_entry := of_nat e + 1, hi_next_node := entry_at (ht_entries t) e\<rparr>"
    have "it\<lparr>hi_next_node := entry_at (ht_entries t) e, hi_next_entry := of_nat e + 1, hi_next_element := 0\<rparr> = ?it"
      using Suc.prems(2) by simp
    then have "hit_at cs ?it (link_items (concat (drop e cs)))"
      using hit_at_head [OF e n(1,3) False N, of it] by simp
    then show ?thesis using False n(2) by (simp add: js Let_def word_neq_0_conv)
  next
    case True
    have "k = length cs - Suc e" "Suc e \<le> length cs" using Suc.hyps(2) e by simp_all
    from Suc.hyps(1) [OF this, of "it\<lparr>hi_next_entry := of_nat e + 1\<rparr>"] Suc.prems(2,3) obtain it' where
      "first_entry t [Suc e..<length cs] (it\<lparr>hi_next_entry := of_nat e + 1\<rparr>) = Inr it'"
      "hit_at cs it' (link_items (concat (drop (Suc e) cs)))" by auto
    moreover have "link_items (concat (drop e cs)) = link_items (concat (drop (Suc e) cs))"
      using drop_chain [OF e] n(4) True by simp
    ultimately show ?thesis using True n(2) by (simp add: js Let_def del: upt_Suc upt_rec_numeral)
  qed
qed

lemma hit_at_has_next:
  assumes "ht_view t cs m" "hit_at cs it ys" shows "fdb_hashtable_iter_has_next it \<longleftrightarrow> ys \<noteq> []"
proof -
  have "hi_next_node it \<noteq> NULL \<and> ys \<noteq> []" if "i < length cs" "cs ! i = pre @ (q, n) # post" "hi_next_node it = q"
    "hi_next_element it < hn_num_elements n" "ys = drop (unat (hi_next_element it)) (items n) @ zs" for i pre q n post zs
  proof -
    have "linked (ht_nodes t) (entry_at (ht_entries t) i) (cs ! i)" by (rule view_linked [OF assms(1) that(1)])
    from linked_in [OF this, of q n] that(2) have "q \<noteq> NULL" "htnode_ok n" by simp_all
    then show ?thesis using that length_items [of n] by (auto simp: word_less_nat_alt)
  qed
  then show ?thesis using assms(2) unfolding hit_at_def fdb_hashtable_iter_has_next_def by metis
qed

lemma hit_at_next:
  assumes v: "ht_view t cs m" and it: "hit_at cs it ((k, x) # ys)"
  shows "\<exists>it'. fdb_hashtable_iter_next t it = Inr (\<lparr>he_key = k, he_value = x\<rparr>, it') \<and> hit_at cs it' ys"
proof -
  obtain i pre q n post where i: "i < length cs" "cs ! i = pre @ (q, n) # post" "hi_next_node it = q"
    "hi_next_element it < hn_num_elements n" "unat (hi_next_entry it) = Suc i"
    and ys: "(k, x) # ys = drop (unat (hi_next_element it)) (items n) @ link_items post @ link_items (concat (drop (Suc i) cs))"
    using it unfolding hit_at_def by blast
  have l: "linked (ht_nodes t) (entry_at (ht_entries t) i) (cs ! i)" by (rule view_linked [OF v i(1)])
  have c: "chain_of m (length cs) i (cs ! i)" using v i(1) by (simp add: ht_view_def)
  have q: "q \<noteq> NULL" "ht_nodes t q = Some n" "htnode_ok n" using linked_in [OF l, of q n] i(2) by simp_all
  let ?j = "unat (hi_next_element it)"
  have j: "?j < unat (hn_num_elements n)" "?j < 8" "?j < length (items n)"
    using i(4) q(3) length_items [OF q(3)] by (auto simp: word_less_nat_alt htnode_ok_def)
  have dj: "drop ?j (items n) = (hn_keys n ! ?j, hn_elements n ! ?j) # drop (Suc ?j) (items n)"
    using Cons_nth_drop_Suc [OF j(3)] items_nth [OF q(3) j(1)] by simp
  then have kx: "k = hn_keys n ! ?j" "x = hn_elements n ! ?j"
    and rest: "ys = drop (Suc ?j) (items n) @ link_items post @ link_items (concat (drop (Suc i) cs))" using ys by simp_all
  have sj: "unat (hi_next_element it + 1) = Suc ?j" using j(2) by (simp add: unat_word_ariths)
  have len: "?j < length (hn_keys n)" "?j < length (hn_elements n)" using j(2) q(3) by (simp_all add: htnode_ok_def)
  have tab: "htnode_at (ht_nodes t) (hi_next_node it) = Inr n" using q i(3) by (simp add: htnode_at_def)
  have cap: "unat (ht_capacity t) = length cs" using v by (simp add: ht_view_def)
  let ?it1 = "it\<lparr>hi_next_element := hi_next_element it + 1\<rparr>" and ?it2 = "it\<lparr>hi_next_element := 0, hi_next_node := hn_next n\<rparr>"
  show ?thesis
  proof (cases "hi_next_element it + 1 < hn_num_elements n")
    case True
    have "fdb_hashtable_iter_next t it = Inr (\<lparr>he_key = k, he_value = x\<rparr>, ?it1)"
      using tab len kx True i(3) q(1) by (simp add: fdb_hashtable_iter_next_def Let_def not_le)
    moreover have "hit_at cs ?it1 ys" unfolding hit_at_def
      using i True rest sj by (intro disjI2 exI [of _ i] exI [of _ pre] exI [of _ q] exI [of _ n] exI [of _ post]) simp
    ultimately show ?thesis by blast
  next
    case False
    then have leave: "hn_num_elements n \<le> hi_next_element it + 1" by simp
    from False have "Suc ?j = length (items n)" using sj j length_items [OF q(3)] by (simp add: word_less_nat_alt)
    then have rest': "ys = link_items post @ link_items (concat (drop (Suc i) cs))" using rest by simp
    have run: "fdb_hashtable_iter_next t it = (if hn_next n = NULL \<and> hi_next_entry it < ht_capacity t
        then bind_res (seek_entry t [Suc i..<length cs] ?it2) (\<lambda>it. Inr (\<lparr>he_key = k, he_value = x\<rparr>, it))
        else Inr (\<lparr>he_key = k, he_value = x\<rparr>, ?it2))"
      using tab len kx leave i(5) cap by (simp add: fdb_hashtable_iter_next_def Let_def)
    show ?thesis
    proof (cases post)
      case (Cons b post')
      obtain q' n' where b: "b = (q', n')" by (cases b)
      have q': "hn_next n = q'" "q' \<noteq> NULL"
      proof -
        have "linked h p (pre @ (q, n) # (q', n') # post') \<Longrightarrow> hn_next n = q' \<and> q' \<noteq> NULL" for h p
          by (induction pre arbitrary: p) auto
        then show "hn_next n = q'" "q' \<noteq> NULL" using l i(2) Cons b by simp_all
      qed
      have "0 < hn_num_elements n'" using c i(2) Cons b by (auto simp: chain_of_def)
      then have "hit_at cs ?it2 ys" unfolding hit_at_def
        using i q' rest' Cons b by (intro disjI2 exI [of _ i] exI [of _ "pre @ [(q, n)]"] exI [of _ q'] exI [of _ n'] exI [of _ post']) simp
      then show ?thesis using run q' by simp
    next
      case Nil
      have nn: "hn_next n = NULL"
      proof -
        have "linked h p (pre @ [(q, n)]) \<Longrightarrow> hn_next n = NULL" for h p by (induction pre arbitrary: p) auto
        then show ?thesis using l i(2) Nil by simp
      qed
      have ys2: "ys = link_items (concat (drop (Suc i) cs))" using rest' Nil by simp
      have lt: "hi_next_entry it < ht_capacity t \<longleftrightarrow> Suc i < length cs" using i(5) cap by (simp add: word_less_nat_alt)
      show ?thesis
      proof (cases "Suc i < length cs")
        case True
        obtain it' where "seek_entry t [Suc i..<length cs] ?it2 = Inr it'" "hit_at cs it' ys"
          using ht_seek_spec [OF v True, of ?it2] ys2 by auto
        then show ?thesis using run nn lt True by simp
      next
        case False
        then have "hit_at cs ?it2 ys" using nn ys2 i(1) by (simp add: hit_at_def)
        then show ?thesis using run lt False by simp
      qed
    qed
  qed
qed

fun ht_walk :: "nat \<Rightarrow> 'st fdb_hashtable_t \<Rightarrow> fdb_hashtable_iter_t \<Rightarrow> (u32 \<times> ptr) list res" where
  "ht_walk 0 t it = Inl OutOfFuel"
| "ht_walk (Suc fuel) t it = (if fdb_hashtable_iter_has_next it
     then bind_res (fdb_hashtable_iter_next t it) (\<lambda>(e, it). bind_res (ht_walk fuel t it) (\<lambda>xs. Inr ((he_key e, he_value e) # xs)))
     else Inr [])"

definition ht_iterate :: "'st fdb_hashtable_t \<Rightarrow> (u32 \<times> ptr) list res" where
  "ht_iterate t = bind_res (fdb_hashtable_iter_init t) (ht_walk (HT_FUEL t) t)"

lemma walk_spec: "ht_view t cs m \<Longrightarrow> hit_at cs it ys \<Longrightarrow> length ys < fuel \<Longrightarrow> ht_walk fuel t it = Inr ys"
proof (induction ys arbitrary: fuel it)
  case Nil
  then show ?case using hit_at_has_next [OF Nil.prems(1,2)] by (cases fuel) auto
next
  case (Cons y ys)
  obtain k x where y: "y = (k, x)" by (cases y)
  obtain f where f: "fuel = Suc f" "length ys < f" using Cons.prems(3) by (cases fuel) auto
  obtain it' where it': "fdb_hashtable_iter_next t it = Inr (\<lparr>he_key = k, he_value = x\<rparr>, it')" "hit_at cs it' ys"
    using hit_at_next [OF Cons.prems(1)] Cons.prems(2) unfolding y by blast
  have "fdb_hashtable_iter_has_next it" using hit_at_has_next [OF Cons.prems(1,2)] by simp
  then show ?case using it' Cons.IH [OF Cons.prems(1) it'(2) f(2)] f(1) y by simp
qed

lemma ht_iterate_spec:
  assumes v: "ht_view t cs m"
  shows "\<exists>xs. ht_iterate t = Inr xs \<and> distinct (map fst xs) \<and> map_of xs = m"
proof -
  let ?xs = "link_items (concat cs)"
  obtain it where it: "fdb_hashtable_iter_init t = Inr it" "hit_at cs it ?xs"
    using first_spec [OF v, of 0 "\<lparr>hi_next_node = NULL, hi_next_entry = 0, hi_next_element = 0\<rparr>"] v
    by (auto simp: fdb_hashtable_iter_init_def ht_view_def)
  have c: "chain_of m (length cs) i (cs ! i)" if "i < length cs" for i using v that by (simp add: ht_view_def)
  have part: "distinct (map fst (link_items (concat (take k cs)))) \<and>
      set (link_items (concat (take k cs))) = {(key, x). m key = Some x \<and> unat key mod length cs < k}" if "k \<le> length cs" for k
    using that
  proof (induction k)
    case (Suc k)
    have t: "take (Suc k) cs = take k cs @ [cs ! k]" using Suc.prems by (simp add: take_Suc_conv_app_nth)
    have k: "distinct (map fst (link_items (cs ! k)))" "set (link_items (cs ! k)) = {(key, x). m key = Some x \<and> unat key mod length cs = k}"
      using c [of k] Suc.prems by (simp_all add: chain_of_def)
    have IH: "distinct (map fst (link_items (concat (take k cs))))"
      "set (link_items (concat (take k cs))) = {(key, x). m key = Some x \<and> unat key mod length cs < k}" using Suc by simp_all
    have "fst ` set (link_items (concat (take k cs))) \<inter> fst ` set (link_items (cs ! k)) = {}" unfolding k(2) IH(2) by auto
    then have "distinct (map fst (link_items (concat (take (Suc k) cs))))" using k(1) IH(1) by (simp add: t)
    moreover have "set (link_items (concat (take (Suc k) cs))) = {(key, x). m key = Some x \<and> unat key mod length cs < Suc k}"
      using k(2) IH(2) by (auto simp: t less_Suc_eq)
    ultimately show ?case by blast
  qed simp
  have "cs \<noteq> []" using v by (simp add: ht_view_def)
  then have d: "distinct (map fst ?xs)" "set ?xs = {(key, x). m key = Some x}" using part [of "length cs"] by simp_all
  have m: "map_of ?xs = m"
  proof
    fix k
    have "map_of ?xs k = Some x \<longleftrightarrow> m k = Some x" for x using d by simp
    then show "map_of ?xs k = m k" by (cases "m k"; cases "map_of ?xs k") auto
  qed
  have "length ?xs = card (fst ` set ?xs)" using distinct_card [OF d(1)] by simp
  also have "fst ` set ?xs = dom m" unfolding d(2) by (auto simp: image_iff)
  finally have "length ?xs < HT_FUEL t" using v by (simp add: HT_FUEL_def ht_view_def)
  then have "ht_walk (HT_FUEL t) t it = Inr ?xs" by (rule walk_spec [OF v it(2)])
  then show ?thesis using it(1) d(1) m by (simp add: ht_iterate_def)
qed

section \<open>Sequences of operations\<close>

datatype ht_cmd = HAdd u32 ptr | HGet u32

fun ht_step :: "ht_cmd \<Rightarrow> 'st fdb_hashtable_t \<times> 'st \<Rightarrow> (ptr \<times> 'st fdb_hashtable_t \<times> 'st) res" where
  "ht_step (HAdd k v) ts = fdb_hashtable_add ts k v"
| "ht_step (HGet k) (t, st) = bind_res (fdb_hashtable_get t k) (\<lambda>v. Inr (v, t, st))"

fun ht_run :: "ht_cmd list \<Rightarrow> 'st fdb_hashtable_t \<times> 'st \<Rightarrow> (ptr list \<times> 'st fdb_hashtable_t \<times> 'st) res" where
  "ht_run [] ts = Inr ([], ts)"
| "ht_run (c # cs) ts = bind_res (ht_step c ts) (\<lambda>(out, ts). bind_res (ht_run cs ts) (\<lambda>(outs, ts). Inr (out # outs, ts)))"

fun ht_spec :: "ht_cmd list \<Rightarrow> (u32 \<rightharpoonup> ptr) \<Rightarrow> ptr list \<times> (u32 \<rightharpoonup> ptr)" where
  "ht_spec [] m = ([], m)"
| "ht_spec (HAdd k v # cs) m = (let (outs, m') = ht_spec cs (m(k \<mapsto> v)) in ((case m k of None \<Rightarrow> NULL | Some x \<Rightarrow> x) # outs, m'))"
| "ht_spec (HGet k # cs) m = (let (outs, m') = ht_spec cs m in ((case m k of None \<Rightarrow> NULL | Some x \<Rightarrow> x) # outs, m'))"

lemma card_dom_upd_le: "card (dom (m(key \<mapsto> x))) \<le> Suc (card (dom (m :: u32 \<rightharpoonup> ptr)))"
  by (simp add: card_insert_if)

context mem_provider
begin

lemma ht_run_spec:
  assumes "ht_view t ns m" "ht_mem alloc free (length ns) t live" "ainv st live" "room st (length cs)" "serves st 1 112"
    "card (dom m) + length cs < 2 ^ 32"
  shows "\<exists>t' st' ns'. ht_run cs (t, st) = Inr (fst (ht_spec cs m), t', st') \<and> ht_view t' ns' (snd (ht_spec cs m))"
  using assms
proof (induction cs arbitrary: t st ns m live)
  case Nil
  then show ?case by auto
next
  case (Cons c cs)
  have room: "room st (Suc (length cs))" using Cons.prems(4) by simp
  show ?case
  proof (cases c)
    case (HAdd k v)
    have n: "card (dom m) + 1 < 2 ^ 32" using Cons.prems(6) by simp
    from ht_add_spec [OF Cons.prems(1-3) room Cons.prems(5) n, of k v] obtain t1 st1 ns1 live1 where
      1: "fdb_hashtable_add (t, st) k v = Inr (case m k of None \<Rightarrow> NULL | Some v \<Rightarrow> v, t1, st1)" "ht_view t1 ns1 (m(k \<mapsto> v))"
        "length ns1 = length ns" "ht_mem alloc free (length ns1) t1 live1" "ainv st1 live1" "room st1 (length cs)" "serves st1 1 112" by auto
    have "card (dom (m(k \<mapsto> v))) + length cs < 2 ^ 32" using card_dom_upd_le [of m k v] Cons.prems(6) by simp
    from Cons.IH [OF 1(2,4-7) this] show ?thesis using 1(1) HAdd by (auto simp: Let_def case_prod_unfold simp del: fun_upd_apply)
  next
    case (HGet k)
    have "card (dom m) + length cs < 2 ^ 32" using Cons.prems(6) by simp
    from Cons.IH [OF Cons.prems(1-3) room_mono [OF room] Cons.prems(5) this]
    show ?thesis using get_view [OF Cons.prems(1), of k] HGet by (auto simp: Let_def case_prod_unfold)
  qed
qed

end

section \<open>Properties\<close>

text \<open>C33: A hash table is a finite map. Over any allocator that keeps the contract, every sequence of
  \<open>fdb_hashtable_add\<close> and \<open>fdb_hashtable_get\<close> on a new table of positive capacity returns what the
  map does: \<open>get\<close> the value of the key or NULL, \<open>add\<close> the value it replaced or NULL; and the iterator
  then ends after delivering every entry of the map exactly once.\<close>

theorem hashtable_refines_map:
  assumes "mem_provider (p_mem_alloc al) (p_mem_free al) ainv room serves" "ainv st live" "room st (Suc (length cs))"
    and "serves st 1 (112 * cap)" "serves st 1 112" "0 < cap" "unat cap * 112 < 2 ^ 32" "length cs < 2 ^ 32"
  shows "\<exists>t st' t' st2 xs. fdb_hashtable_init cap (Some al) g st = Inr (t, st') \<and>
    ht_run cs (t, st') = Inr (fst (ht_spec cs Map.empty), t', st2) \<and> ht_iterate t' = Inr xs \<and>
    distinct (map fst xs) \<and> map_of xs = snd (ht_spec cs Map.empty)"
proof -
  from mem_provider.ht_init_spec [where al = "Some al" and g = g, OF assms(1) _ _ assms(2-7)] obtain t st' ns live' where
    t: "fdb_hashtable_init cap (Some al) g st = Inr (t, st')" "ht_view t ns Map.empty" "length ns = unat cap"
      "ht_mem (p_mem_alloc al) (p_mem_free al) (length ns) t live'" "ainv st' live'" "room st' (length cs)" "serves st' 1 112" by auto
  have "card (dom (Map.empty :: u32 \<rightharpoonup> ptr)) + length cs < 2 ^ 32" using assms(8) by simp
  from mem_provider.ht_run_spec [OF assms(1) t(2,4-7) this] obtain t' st2 ns' where
    r: "ht_run cs (t, st') = Inr (fst (ht_spec cs Map.empty), t', st2)" "ht_view t' ns' (snd (ht_spec cs Map.empty))" by blast
  show ?thesis using t(1) r(1) ht_iterate_spec [OF r(2)] by blast
qed

text \<open>A hash table of capacity 0 is made without complaint, and the first use of it divides by zero.\<close>

theorem hashtable_zero_capacity:
  assumes "fdb_hashtable_init 0 al g st = Inr (t, st')"
  shows "fdb_hashtable_add (t, st') key v = Inl DivByZero \<and> fdb_hashtable_get t key = Inl DivByZero"
proof -
  have "ht_capacity t = 0" using assms by (auto simp: fdb_hashtable_init_def Let_def split: prod.splits)
  then show ?thesis by (simp add: fdb_hashtable_add_def fdb_hashtable_get_def bucket_def)
qed

section \<open>Examples\<close>

text \<open>An allocator that never reuses memory and gives every request 4 KB of its own.\<close>

definition bump :: "u64 fdb_mem_allocator_t" where
  "bump = \<lparr>p_mem_alloc = (\<lambda>s al sz h. (s, s + 4096)), p_mem_free = (\<lambda>s p. s), p_mem_stats = None\<rparr>"

definition bump_inv :: "u64 \<Rightarrow> (ptr \<rightharpoonup> nat) \<Rightarrow> bool" where
  "bump_inv s live \<longleftrightarrow> s \<noteq> 0 \<and> 4096 dvd unat s \<and> (\<forall>q m. live q = Some m \<longrightarrow> unat q + m \<le> unat s \<and> q \<noteq> s)"

definition bump_room :: "u64 \<Rightarrow> nat \<Rightarrow> bool" where
  "bump_room s n \<longleftrightarrow> unat s + n * 4096 < 2 ^ 64"

definition bump_serves :: "u64 \<Rightarrow> u32 \<Rightarrow> u32 \<Rightarrow> bool" where
  "bump_serves s al sz \<longleftrightarrow> unat al dvd 4096 \<and> 0 < unat sz \<and> unat sz \<le> 4096"

lemma bump_provider: "mem_provider (p_mem_alloc bump) (p_mem_free bump) bump_inv bump_room bump_serves"
proof -
  have step: "unat (s + 4096) = unat s + 4096" if "bump_room s (Suc n)" for s n
    using that by (simp add: bump_room_def unat_word_ariths)
  show ?thesis
  proof (unfold_locales, goal_cases)
    case (1 s live n al sz h p s')
    then have p: "p = s" by (simp add: bump_def)
    have "apart s (unat sz) q m" if "live q = Some m" for q m using 1(1) that by (auto simp: bump_inv_def apart_def)
    moreover have "live s = None" using 1(1) by (cases "live s") (auto simp: bump_inv_def)
    ultimately show ?case using 1(1-3) p unfolding fits_def bump_inv_def bump_room_def bump_serves_def by simp
  next
    case (2 s live n al sz h p s')
    then show ?case by (auto simp: bump_def bump_inv_def bump_serves_def intro: dvd_trans)
  next
    case (3 s live n al sz h p s')
    then have p: "p = s" "s' = s + 4096" by (auto simp: bump_def)
    have u: "unat s' = unat s + 4096" using step 3(2) p(2) by blast
    have "q \<noteq> s'" if "unat q \<le> unat s" for q using that u by auto
    then show ?case using 3(1,3) p(1) u by (fastforce simp: bump_inv_def bump_serves_def)
  next
    case (4 s live n al sz h p s')
    then show ?case using step [of s n] by (auto simp: bump_def bump_room_def)
  qed (auto simp: bump_def bump_serves_def bump_room_def bump_inv_def fun_eq_iff)
qed

theorem hashtable_refines_map_witness:
  "\<exists>t st' t' st2 xs. fdb_hashtable_init 7 (Some bump) bump 4096 = Inr (t, st') \<and>
    ht_run [HAdd 3 100, HAdd 10 200, HGet 3, HAdd 3 300, HGet 4] (t, st') = Inr ([NULL, NULL, 100, 100, NULL], t', st2) \<and>
    ht_iterate t' = Inr xs \<and> distinct (map fst xs) \<and> map_of xs = [3 \<mapsto> 300, 10 \<mapsto> 200]"
proof -
  let ?cs = "[HAdd 3 100, HAdd 10 200, HGet 3, HAdd 3 300, HGet 4]"
  have h: "bump_inv 4096 Map.empty" "bump_room 4096 (Suc (length ?cs))" "bump_serves 4096 1 (112 * 7)" "bump_serves 4096 1 112"
    "0 < (7 :: u32)" "unat (7 :: u32) * 112 < 2 ^ 32" "length ?cs < 2 ^ 32"
    by (simp_all add: bump_inv_def bump_room_def bump_serves_def)
  have "[3 \<mapsto> 300, 10 \<mapsto> 200, 3 \<mapsto> 300] = [3 :: u32 \<mapsto> 300, 10 \<mapsto> (200 :: ptr)]" by (simp add: fun_eq_iff)
  then have s: "ht_spec ?cs Map.empty = ([NULL, NULL, 100, 100, NULL], [3 \<mapsto> 300, 10 \<mapsto> 200])"
    by (simp add: Let_def fun_upd_twist)
  from hashtable_refines_map [where g = bump, OF bump_provider h] show ?thesis unfolding s fst_conv snd_conv .
qed

theorem hashtable_zero_capacity_witness:
  "\<exists>t st'. fdb_hashtable_init 0 (Some bump) bump 4096 = Inr (t, st') \<and> fdb_hashtable_get t 5 = Inl DivByZero"
proof -
  obtain t st' where t: "fdb_hashtable_init 0 (Some bump) bump 4096 = Inr (t, st')"
    by (simp add: fdb_hashtable_init_def bump_def mem_alloc_def)
  show ?thesis using t hashtable_zero_capacity [OF t, of 5 0] by blast
qed

end
