(* ===== verification/RefTable.thy ===== *)
theory RefTable
  imports TableSpec
begin

text \<open>
  src/src/runtime/data/reftable.c and reftable.h: a table of references, one head for each tail. It
  is a component table of 4-byte components without a destructor; the head is the component's
  bytes. The specification is a partial function from tails to heads.
\<close>

section \<open>Reading and writing an id\<close>

text \<open>\<open>*(entity_id_t*)p\<close>, little-endian.\<close>

definition load32 :: "ptr \<Rightarrow> bytes \<Rightarrow> u32" where
  "load32 p w = ucast (w p) OR push_bit 8 (ucast (w (p + 1))) OR push_bit 16 (ucast (w (p + 2))) OR push_bit 24 (ucast (w (p + 3)))"

definition store32 :: "ptr \<Rightarrow> u32 \<Rightarrow> bytes \<Rightarrow> bytes" where
  "store32 p v w = (\<lambda>a. if a - p < 4 then ucast (drop_bit (8 * unat (a - p)) v) else w a)"

lemma load32_four: "load32 p w = ucast (w p) OR push_bit 8 (ucast (w (p + 1))) OR push_bit 16 (ucast (w (p + 2))) OR
    push_bit 24 (ucast (w (p + 3)))"
  by (simp add: load32_def)

lemma bytes_of_word: "ucast (ucast (v :: u32) :: u8) OR push_bit 8 (ucast (ucast (drop_bit 8 v) :: u8)) OR
    push_bit 16 (ucast (ucast (drop_bit 16 v) :: u8)) OR push_bit 24 (ucast (ucast (drop_bit 24 v) :: u8)) = v"
proof (rule bit_word_eqI)
  fix n assume "n < LENGTH(32)"
  then consider "n < 8" | "8 \<le> n" "n < 16" | "16 \<le> n" "n < 24" | "24 \<le> n" "n < 32" by force
  then show "bit (ucast (ucast v :: u8) OR push_bit 8 (ucast (ucast (drop_bit 8 v) :: u8)) OR
      push_bit 16 (ucast (ucast (drop_bit 16 v) :: u8)) OR push_bit 24 (ucast (ucast (drop_bit 24 v) :: u8)) :: u32) n = bit v n"
    by cases (auto simp: bit_simps)
qed

lemma load_store: "load32 p (store32 p v w) = v"
proof -
  have "p + 1 - p < 4" "p + 2 - p < 4" "p + 3 - p < (4 :: u64)" by simp_all
  then show ?thesis using bytes_of_word [of v] by (simp add: load32_def store32_def)
qed

text \<open>What is written at one place does not show at another.\<close>

lemma apart_byte:
  assumes a: "apart p 4 q n" and p: "unat p + 4 < 2 ^ 64" and q: "unat q + n < 2 ^ 64" and i: "i < 4"
  shows "n \<le> unat (p + of_nat i - q)"
proof -
  have "unat (of_nat i :: u64) = i" using i by (simp add: unat_of_nat take_bit_nat_eq_self)
  then have u: "unat (p + of_nat i) = unat p + i" using p i by (simp add: unat_plus_if')
  show ?thesis using a p q i u unfolding apart_def unat_sub_if' by auto
qed

lemma load32_cong:
  assumes "\<And>i. i < 4 \<Longrightarrow> w' (p + of_nat i) = w (p + of_nat i)"
  shows "load32 p w' = load32 p w"
  using assms [of 0] assms [of 1] assms [of 2] assms [of 3] by (simp add: load32_def)

lemma load32_store32_apart:
  assumes "apart p 4 q 4" "unat p + 4 < 2 ^ 64" "unat q + 4 < 2 ^ 64"
  shows "load32 p (store32 q v w) = load32 p w"
proof (rule load32_cong)
  fix i :: nat assume "i < 4"
  from apart_byte [OF assms this] have "\<not> p + of_nat i - q < 4" by (simp add: word_less_nat_alt)
  then show "store32 q v w (p + of_nat i) = w (p + of_nat i)" by (simp add: store32_def)
qed

lemma load32_memset0_apart:
  assumes "apart p 4 q (unat n)" "unat p + 4 < 2 ^ 64" "unat q + unat n < 2 ^ 64"
  shows "load32 p (memset0 q n w) = load32 p w"
proof (rule load32_cong)
  fix i :: nat assume "i < 4"
  from apart_byte [OF assms this] have "\<not> p + of_nat i - q < n" by (simp add: word_less_nat_alt)
  then show "memset0 q n w (p + of_nat i) = w (p + of_nat i)" by (simp add: memset0_def)
qed

section \<open>The operations\<close>

record 'st fdb_reftable_t = rt_table :: "'st fdb_table_t"

definition fdb_reftable_init ::
  "string \<Rightarrow> u32 \<Rightarrow> 'st fdb_mem_allocator_t option \<Rightarrow> 'st fdb_mem_allocator_t \<Rightarrow> (ptr \<Rightarrow> ptr) \<Rightarrow>
   'st \<Rightarrow> ('st fdb_reftable_t \<times> 'st) res" where
  "fdb_reftable_init rname i allocator gallocator mem st =
     bind_res (fdb_table_init rname (ucast i) 4 NULL allocator gallocator mem st) (\<lambda>(t, st).
     Inr (\<lparr>rt_table = t\<rparr>, st))"

definition fdb_reftable_release ::
  "nat \<Rightarrow> (ptr \<Rightarrow> ptr \<Rightarrow> bytes \<Rightarrow> bytes) \<Rightarrow> 'st fdb_reftable_t \<times> 'st \<Rightarrow> bytes \<Rightarrow> (('st fdb_reftable_t \<times> 'st) \<times> bytes) res" where
  "fdb_reftable_release fuel call rs w =
     bind_res (fdb_table_release fuel call (rt_table (fst rs), snd rs) w) (\<lambda>((t, st), w).
     Inr ((\<lparr>rt_table = t\<rparr>, st), w))"

definition fdb_reftable_add ::
  "'st fdb_reftable_t \<times> 'st \<Rightarrow> u32 \<Rightarrow> u32 \<Rightarrow> bytes \<Rightarrow> (('st fdb_reftable_t \<times> 'st) \<times> bytes) res" where
  "fdb_reftable_add rs tail head w =
     bind_res (fdb_table_create_component (rt_table (fst rs), snd rs) tail) (\<lambda>(phead, (t, st)).
     if phead = NULL then Inl NullDeref else Inr ((\<lparr>rt_table = t\<rparr>, st), store32 phead head w))"

definition fdb_reftable_get :: "'st fdb_reftable_t \<Rightarrow> u32 \<Rightarrow> ptr res" where
  "fdb_reftable_get rt tail = fdb_table_get_component (rt_table rt) tail"

definition fdb_reftable_remove ::
  "(ptr \<Rightarrow> ptr \<Rightarrow> bytes \<Rightarrow> bytes) \<Rightarrow> 'st fdb_reftable_t \<Rightarrow> u32 \<Rightarrow> u32 \<Rightarrow> bytes \<Rightarrow> ('st fdb_reftable_t \<times> bytes) res" where
  "fdb_reftable_remove call rt tail head w =
     bind_res (fdb_table_destroy_component call (rt_table rt) tail w) (\<lambda>(t, w). Inr (\<lparr>rt_table = t\<rparr>, w))"

definition fdb_reftable_exists :: "'st fdb_reftable_t \<Rightarrow> u32 \<Rightarrow> u32 \<Rightarrow> bytes \<Rightarrow> bool res" where
  "fdb_reftable_exists rt tail head w =
     bind_res (fdb_table_get_component (rt_table rt) tail) (\<lambda>phead. Inr (phead \<noteq> NULL \<and> load32 phead w = head))"

section \<open>The reference of every tail\<close>

definition refs_held :: "'st fdb_table_t \<Rightarrow> entries \<Rightarrow> bytes \<Rightarrow> (u32 \<rightharpoonup> u32) \<Rightarrow> bool" where
  "refs_held t xs w m \<longleftrightarrow> table_view t xs (dom m) (dom m) \<and> tb_esize t = 4 \<and> tb_destructor t = NULL \<and>
     (\<forall>a b. m a = Some b \<longrightarrow> load32 (comp_addr (block_base t xs) 4 a) w = b)"

lemma refs_block: "refs_held t xs w m \<Longrightarrow> m a = Some b \<Longrightarrow> a div 256 \<in> blocks_of xs"
  by (auto simp: refs_held_def table_view_def)

lemma refs_place:
  assumes r: "refs_held t xs w m" and m: "table_mem alloc free S t Ps" and a: "a div 256 \<in> blocks_of xs"
  shows "comp_addr (block_base t xs) 4 a \<noteq> NULL" "unat (comp_addr (block_base t xs) 4 a) + 4 < 2 ^ 64"
proof -
  have v: "table_view t xs (dom m) (dom m)" and e: "tb_esize t = 4" using r by (simp_all add: refs_held_def)
  show "comp_addr (block_base t xs) 4 a \<noteq> NULL" "unat (comp_addr (block_base t xs) 4 a) + 4 < 2 ^ 64"
    using comp_addr_end [OF v m a] unfolding e by simp_all
qed

lemma refs_apart:
  assumes r: "refs_held t xs w m" and m: "table_mem alloc free S t Ps"
    and "a \<noteq> c" "a div 256 \<in> blocks_of xs" "c div 256 \<in> blocks_of xs"
  shows "apart (comp_addr (block_base t xs) 4 a) 4 (comp_addr (block_base t xs) 4 c) 4"
proof -
  have v: "table_view t xs (dom m) (dom m)" and e: "tb_esize t = 4" using r by (simp_all add: refs_held_def)
  show ?thesis using comp_addr_apart [OF v m assms(3-5)] unfolding e by simp
qed

section \<open>Every operation\<close>

lemma refs_get:
  assumes r: "refs_held t xs w m" and id: "id_ok a"
  shows "fdb_table_get_component t a = Inr (if a \<in> dom m then comp_addr (block_base t xs) 4 a else NULL)"
proof -
  have v: "table_view t xs (dom m) (dom m)" and e: "tb_esize t = 4" using r by (simp_all add: refs_held_def)
  show ?thesis using get_component_addr [OF v id] unfolding e by simp
qed

lemma refs_exists:
  assumes r: "refs_held t xs w m" and tm: "table_mem alloc free S t Ps" and id: "id_ok a"
  shows "fdb_reftable_exists \<lparr>rt_table = t\<rparr> a b w = Inr (m a = Some b)"
proof (cases "m a")
  case None
  then show ?thesis using refs_get [OF r id] by (simp add: fdb_reftable_exists_def dom_def)
next
  case (Some c)
  then have "comp_addr (block_base t xs) 4 a \<noteq> NULL" by (rule refs_place(1) [OF r tm refs_block [OF r]])
  moreover have "load32 (comp_addr (block_base t xs) 4 a) w = c" using r Some by (simp add: refs_held_def)
  ultimately show ?thesis using refs_get [OF r id] Some by (simp add: fdb_reftable_exists_def dom_def)
qed

lemma refs_remove:
  assumes r: "refs_held t xs w m" and tm: "table_mem alloc free S t Ps" and id: "id_ok a"
  shows "\<exists>t' w'. fdb_reftable_remove call \<lparr>rt_table = t\<rparr> a b w = Inr (\<lparr>rt_table = t'\<rparr>, w') \<and>
    refs_held t' xs w' (m(a := None)) \<and> table_mem alloc free S t' Ps"
proof -
  have v: "table_view t xs (dom m) (dom m)" and e: "tb_esize t = 4" and d: "tb_destructor t = NULL"
    using r by (simp_all add: refs_held_def)
  let ?w = "if a div 256 \<in> blocks_of xs then memset0 (comp_addr (block_base t xs) 4 a) 4 w else w"
  from destroy_view [OF v id, of call w] obtain t' where t':
    "fdb_table_destroy_component call t a w = Inr (t', ?w)" "kept t t'" "table_view t' xs (dom m - {a}) (dom m - {a})"
    unfolding e d destroyed_def by auto
  have base: "block_base t' xs = block_base t xs" by (rule kept_base [OF t'(2)])
  have loads: "load32 (comp_addr (block_base t xs) 4 c) ?w = b" if "c \<noteq> a" "m c = Some b" for c b
  proof (cases "a div 256 \<in> blocks_of xs")
    case True
    have c: "c div 256 \<in> blocks_of xs" by (rule refs_block [OF r that(2)])
    have "load32 (comp_addr (block_base t xs) 4 c) ?w = load32 (comp_addr (block_base t xs) 4 c) w"
      using load32_memset0_apart [where n = 4, of "comp_addr (block_base t xs) 4 c" "comp_addr (block_base t xs) 4 a" w]
        refs_apart [OF r tm that(1) c True] refs_place(2) [OF r tm c] refs_place(2) [OF r tm True] True by simp
    then show ?thesis using r that(2) by (simp add: refs_held_def)
  qed (use r that(2) in \<open>simp add: refs_held_def\<close>)
  have "dom (m(a := None)) = dom m - {a}" by auto
  moreover have "load32 (comp_addr (block_base t xs) 4 c) ?w = b" if "(m(a := None)) c = Some b" for c b
    by (rule loads) (use that in \<open>simp_all split: if_splits\<close>)
  moreover have "tb_esize t' = 4" "tb_destructor t' = NULL" using t'(2) e d by (simp_all add: kept_def)
  ultimately have "refs_held t' xs ?w (m(a := None))" unfolding refs_held_def base using t'(3) by simp
  moreover have "table_mem alloc free S t' Ps" using tm kept_mem [OF t'(2)] by blast
  ultimately show ?thesis using t'(1) by (intro exI [of _ t'] exI [of _ ?w]) (simp add: fdb_reftable_remove_def)
qed

context steady_provider
begin

lemma refs_add:
  assumes r: "refs_held t xs w m" and tm: "table_mem alloc free S t (Ps \<circ> e)" and e: "inj e"
    and cl: "clients ainv st Ps" and room: "room st (20 + n)" and id: "id_ok a"
  shows "\<exists>t' st' xs' Ps' w'. fdb_reftable_add (\<lparr>rt_table = t\<rparr>, st) a b w = Inr ((\<lparr>rt_table = t'\<rparr>, st'), w') \<and>
    refs_held t' xs' w' (m(a \<mapsto> b)) \<and> table_mem alloc free S t' (Ps' \<circ> e) \<and> clients ainv st' Ps' \<and> room st' n \<and>
    (\<forall>c. c \<notin> range e \<longrightarrow> Ps' c = Ps c)"
proof -
  have v: "table_view t xs (dom m) (dom m)" and s: "tb_esize t = 4" and d: "tb_destructor t = NULL"
    using r by (simp_all add: refs_held_def)
  from create_component_spec [OF v tm e cl room id] obtain t' st' xs' Ps' where
    c: "fdb_table_create_component (t, st) a = Inr (comp_addr (block_base t' xs') 4 a, (t', st'))"
      "table_view t' xs' (insert a (dom m)) (insert a (dom m))" "blocks_of xs' = insert (a div 256) (blocks_of xs)"
      "block_base t xs \<subseteq>\<^sub>m block_base t' xs'" "table_mem alloc free S t' (Ps' \<circ> e)" "clients ainv st' Ps'" "room st' n"
      "tb_esize t' = 4" "tb_destructor t' = NULL" "\<forall>c. c \<notin> range e \<longrightarrow> Ps' c = Ps c" unfolding s d by blast
  let ?p = "\<lambda>x. comp_addr (block_base t' xs') 4 x" and ?w = "store32 (comp_addr (block_base t' xs') 4 a) b w"
  have a: "a div 256 \<in> blocks_of xs'" using c(3) by simp
  have place: "?p x \<noteq> NULL" "unat (?p x) + 4 < 2 ^ 64" if "x div 256 \<in> blocks_of xs'" for x
    using comp_addr_end [OF c(2,5) that] unfolding c(8) by simp_all
  have "load32 (?p x) ?w = y" if x: "(m(a \<mapsto> b)) x = Some y" for x y
  proof (cases "x = a")
    case True
    then show ?thesis using x by (simp add: load_store)
  next
    case False
    then have mx: "m x = Some y" using x by simp
    then have xb: "x div 256 \<in> blocks_of xs" by (rule refs_block [OF r])
    then have "block_base t xs (x div 256) \<noteq> None" using base_dom [OF v] by simp
    then have "block_base t' xs' (x div 256) = block_base t xs (x div 256)" using c(4) by (auto simp: map_le_def dom_def)
    then have px: "?p x = comp_addr (block_base t xs) 4 x" by (simp add: comp_addr_def)
    have xb': "x div 256 \<in> blocks_of xs'" using xb c(3) by simp
    have "apart (?p x) 4 (?p a) 4" using comp_addr_apart [OF c(2,5) False xb' a] unfolding c(8) by simp
    then have "load32 (?p x) ?w = load32 (?p x) w" by (rule load32_store32_apart [OF _ place(2) [OF xb'] place(2) [OF a]])
    then show ?thesis using r mx by (simp add: refs_held_def px)
  qed
  moreover have "dom (m(a \<mapsto> b)) = insert a (dom m)" by simp
  ultimately have "refs_held t' xs' ?w (m(a \<mapsto> b))" unfolding refs_held_def using c(2,8,9) by simp
  then show ?thesis using c(1,5-7,10) place(1) [OF a]
    by (intro exI [of _ t'] exI [of _ st'] exI [of _ xs'] exI [of _ Ps'] exI [of _ ?w]) (simp add: fdb_reftable_add_def)
qed

end

section \<open>Sequences of operations\<close>

datatype ref_cmd = RAdd u32 u32 | RGet u32 | RRemove u32 u32 | RExists u32 u32
datatype ref_out = RDone | RHead "u32 option" | RBool bool

text \<open>What a caller sees: a lookup gives a pointer, and the caller reads the head through it.\<close>

fun ref_step ::
  "(ptr \<Rightarrow> ptr \<Rightarrow> bytes \<Rightarrow> bytes) \<Rightarrow> ref_cmd \<Rightarrow> ('st fdb_reftable_t \<times> 'st) \<times> bytes \<Rightarrow>
   (ref_out \<times> ('st fdb_reftable_t \<times> 'st) \<times> bytes) res" where
  "ref_step call (RAdd a b) (rs, w) = bind_res (fdb_reftable_add rs a b w) (\<lambda>(rs, w). Inr (RDone, rs, w))"
| "ref_step call (RGet a) (rs, w) = bind_res (fdb_reftable_get (fst rs) a) (\<lambda>p.
     Inr (RHead (if p = NULL then None else Some (load32 p w)), rs, w))"
| "ref_step call (RRemove a b) (rs, w) = bind_res (fdb_reftable_remove call (fst rs) a b w) (\<lambda>(rt, w).
     Inr (RDone, (rt, snd rs), w))"
| "ref_step call (RExists a b) (rs, w) = bind_res (fdb_reftable_exists (fst rs) a b w) (\<lambda>x. Inr (RBool x, rs, w))"

fun ref_run ::
  "(ptr \<Rightarrow> ptr \<Rightarrow> bytes \<Rightarrow> bytes) \<Rightarrow> ref_cmd list \<Rightarrow> ('st fdb_reftable_t \<times> 'st) \<times> bytes \<Rightarrow>
   (ref_out list \<times> ('st fdb_reftable_t \<times> 'st) \<times> bytes) res" where
  "ref_run call [] x = Inr ([], x)"
| "ref_run call (c # cs) x = bind_res (ref_step call c x) (\<lambda>(out, x). bind_res (ref_run call cs x)
     (\<lambda>(outs, x). Inr (out # outs, x)))"

text \<open>The specification. Removing a reference does not look at the head it is given.\<close>

fun ref_spec :: "ref_cmd \<Rightarrow> (u32 \<rightharpoonup> u32) \<Rightarrow> ref_out \<times> (u32 \<rightharpoonup> u32)" where
  "ref_spec (RAdd a b) m = (RDone, m(a \<mapsto> b))"
| "ref_spec (RGet a) m = (RHead (m a), m)"
| "ref_spec (RRemove a b) m = (RDone, m(a := None))"
| "ref_spec (RExists a b) m = (RBool (m a = Some b), m)"

fun ref_run_spec :: "ref_cmd list \<Rightarrow> (u32 \<rightharpoonup> u32) \<Rightarrow> ref_out list" where
  "ref_run_spec [] m = []"
| "ref_run_spec (c # cs) m = fst (ref_spec c m) # ref_run_spec cs (snd (ref_spec c m))"

definition ref_final :: "ref_cmd list \<Rightarrow> (u32 \<rightharpoonup> u32) \<Rightarrow> u32 \<rightharpoonup> u32" where
  "ref_final cs m = fold (\<lambda>c m. snd (ref_spec c m)) cs m"

lemma ref_final_simps [simp]: "ref_final [] m = m" "ref_final (c # cs) m = ref_final cs (snd (ref_spec c m))"
  by (simp_all add: ref_final_def)

fun ref_legal :: "ref_cmd \<Rightarrow> bool" where
  "ref_legal (RAdd a b) = id_ok a"
| "ref_legal (RGet a) = id_ok a"
| "ref_legal (RRemove a b) = id_ok a"
| "ref_legal (RExists a b) = id_ok a"

fun ref_need :: "ref_cmd \<Rightarrow> nat" where
  "ref_need (RAdd a b) = 20"
| "ref_need _ = 0"

definition reftable_state ::
  "('st \<Rightarrow> u32 \<Rightarrow> u32 \<Rightarrow> u32 \<Rightarrow> ptr \<times> 'st) \<Rightarrow> ('st \<Rightarrow> ptr \<Rightarrow> 'st) \<Rightarrow> ('st \<Rightarrow> (ptr \<rightharpoonup> nat) \<Rightarrow> bool) \<Rightarrow> (u32 \<Rightarrow> u32 \<Rightarrow> bool) \<Rightarrow>
   (table_client \<Rightarrow> 'c) \<Rightarrow> ('st fdb_reftable_t \<times> 'st) \<times> bytes \<Rightarrow> (u32 \<rightharpoonup> u32) \<Rightarrow> ('c \<Rightarrow> ptr \<rightharpoonup> nat) \<Rightarrow> bool" where
  "reftable_state alloc free ainv S e x m Ps \<longleftrightarrow> (case x of ((rt, st), w) \<Rightarrow> (\<exists>xs. refs_held (rt_table rt) xs w m \<and>
     table_mem alloc free S (rt_table rt) (Ps \<circ> e) \<and> clients ainv st Ps))"

context steady_provider
begin

abbreviation "refstate \<equiv> reftable_state alloc free ainv S"

lemma refstateI:
  assumes "refs_held t xs w m" "table_mem alloc free S t (Ps \<circ> e)" "clients ainv st Ps"
  shows "refstate e ((\<lparr>rt_table = t\<rparr>, st), w) m Ps"
  unfolding reftable_state_def prod.case using assms by (intro exI [of _ xs]) simp

lemma ref_step_spec:
  assumes s: "refstate e ((rt, st), w) m Ps" and e: "inj e" and room: "room st (ref_need c + n)" and ok: "ref_legal c"
  shows "\<exists>rt' st' w' Ps'. ref_step call c ((rt, st), w) = Inr (fst (ref_spec c m), (rt', st'), w') \<and>
    refstate e ((rt', st'), w') (snd (ref_spec c m)) Ps' \<and> room st' n \<and> (\<forall>c. c \<notin> range e \<longrightarrow> Ps' c = Ps c)"
proof -
  obtain t where t: "rt = \<lparr>rt_table = t\<rparr>" by (cases rt) simp
  obtain xs where r: "refs_held t xs w m" and tm: "table_mem alloc free S t (Ps \<circ> e)" and cl: "clients ainv st Ps"
    using s unfolding t reftable_state_def by auto
  note here = refstateI [OF r tm cl]
  show ?thesis
  proof (cases c)
    case (RAdd a b)
    have "room st (20 + n)" "id_ok a" using room ok RAdd by simp_all
    from refs_add [OF r tm e cl this, of b] obtain t' st' xs' Ps' w' where
      a: "fdb_reftable_add (\<lparr>rt_table = t\<rparr>, st) a b w = Inr ((\<lparr>rt_table = t'\<rparr>, st'), w')" "refs_held t' xs' w' (m(a \<mapsto> b))"
        "table_mem alloc free S t' (Ps' \<circ> e)" "clients ainv st' Ps'" "room st' n" "\<forall>c. c \<notin> range e \<longrightarrow> Ps' c = Ps c" by blast
    show ?thesis using a(1,5,6) refstateI [OF a(2-4)] RAdd t
      by (intro exI [of _ "\<lparr>rt_table = t'\<rparr>"] exI [of _ st'] exI [of _ w'] exI [of _ Ps']) (simp del: fun_upd_apply)
  next
    case (RGet a)
    have "RHead (if p = NULL then None else Some (load32 p w)) = RHead (m a)"
      if "p = (if a \<in> dom m then comp_addr (block_base t xs) 4 a else NULL)" for p
      using that r refs_place(1) [OF r tm refs_block [OF r]] by (cases "m a") (auto simp: refs_held_def dom_def)
    then have "ref_step call c ((rt, st), w) = Inr (RHead (m a), (rt, st), w)"
      using refs_get [OF r, of a] ok RGet t by (simp add: fdb_reftable_get_def)
    moreover have "room st n" using room RGet by simp
    ultimately show ?thesis using RGet here t by auto
  next
    case (RRemove a b)
    have "id_ok a" using ok RRemove by simp
    from refs_remove [OF r tm this, of call b] obtain t' w' where
      a: "fdb_reftable_remove call \<lparr>rt_table = t\<rparr> a b w = Inr (\<lparr>rt_table = t'\<rparr>, w')" "refs_held t' xs w' (m(a := None))"
        "table_mem alloc free S t' (Ps \<circ> e)" by blast
    have "room st n" using room RRemove by simp
    then show ?thesis using a(1) refstateI [OF a(2,3) cl] RRemove t
      by (intro exI [of _ "\<lparr>rt_table = t'\<rparr>"] exI [of _ st] exI [of _ w'] exI [of _ Ps]) (simp del: fun_upd_apply)
  next
    case (RExists a b)
    have "room st n" using room RExists by simp
    then show ?thesis using refs_exists [OF r tm, of a b] ok RExists here t by auto
  qed
qed

lemma ref_run_sim:
  assumes "refstate e x m Ps" "inj e" "room (snd (fst x)) ((\<Sum>c\<leftarrow>cs. ref_need c) + n)" "\<forall>c\<in>set cs. ref_legal c"
  shows "\<exists>x' Ps'. ref_run call cs x = Inr (ref_run_spec cs m, x') \<and> refstate e x' (ref_final cs m) Ps' \<and>
    room (snd (fst x')) n \<and> (\<forall>c. c \<notin> range e \<longrightarrow> Ps' c = Ps c)"
  using assms
proof (induction cs arbitrary: x m Ps)
  case (Cons c cs)
  obtain rt st w where x: "x = ((rt, st), w)" by (metis prod.collapse)
  have rm: "room st (ref_need c + ((\<Sum>c\<leftarrow>cs. ref_need c) + n))" "ref_legal c" using Cons.prems(3,4) x by (simp_all add: add.assoc)
  from ref_step_spec [OF Cons.prems(1) [unfolded x] Cons.prems(2) this] obtain rt' st' w' Ps' where
    1: "ref_step call c x = Inr (fst (ref_spec c m), (rt', st'), w')" "refstate e ((rt', st'), w') (snd (ref_spec c m)) Ps'"
      "room st' ((\<Sum>c\<leftarrow>cs. ref_need c) + n)" "\<forall>c. c \<notin> range e \<longrightarrow> Ps' c = Ps c" unfolding x by blast
  have "room (snd (fst ((rt', st'), w'))) ((\<Sum>c\<leftarrow>cs. ref_need c) + n)" "\<forall>c\<in>set cs. ref_legal c"
    using 1(3) Cons.prems(4) by simp_all
  from Cons.IH [OF 1(2) Cons.prems(2) this] show ?case using 1(1,4) by fastforce
qed auto

lemma reftable_init_spec:
  assumes alloc: "p_mem_alloc (case a of Some a \<Rightarrow> a | None \<Rightarrow> g) = alloc" "p_mem_free (case a of Some a \<Rightarrow> a | None \<Rightarrow> g) = free"
    and cl: "clients ainv st Ps" "inj e" "\<And>c. Ps (e c) = Map.empty" and room: "room st (Suc n)"
    and S: "S 64 4096" "S 64 65536" and name: "length name < 256"
  shows "\<exists>rt st' Ps'. fdb_reftable_init name i a g hdr st = Inr (rt, st') \<and> refstate e ((rt, st'), w) Map.empty Ps' \<and>
    room st' n \<and> (\<forall>c. c \<notin> range e \<longrightarrow> Ps' c = Ps c)"
proof -
  from table_init_spec [where hdr = hdr and destr = NULL and i = "ucast i" and esize = 4, OF alloc cl room S name]
  obtain t st' Ps' where t: "fdb_table_init name (ucast i) 4 NULL a g hdr st = Inr (t, st')"
    "table_view t [] {} {}" "table_mem alloc free S t (Ps' \<circ> e)" "clients ainv st' Ps'"
    "room st' n" "tb_esize t = 4" "tb_destructor t = NULL" "\<forall>c. c \<notin> range e \<longrightarrow> Ps' c = Ps c" by auto
  have "refs_held t [] w Map.empty" using t(2,6,7) by (simp add: refs_held_def)
  from refstateI [OF this t(3,4)] show ?thesis using t(1,5,8) by (auto simp: fdb_reftable_init_def)
qed

end

section \<open>Properties\<close>

text \<open>Reading an id back from where it was written gives the id, and nothing that lies apart from
  it changes: the heads of a reference table survive the little-endian bytes they are kept in.\<close>

theorem reference_roundtrip: "load32 p (store32 p v w) = v \<and>
    (unat p + 4 < 2 ^ 64 \<longrightarrow> unat q + 4 < 2 ^ 64 \<longrightarrow> apart q 4 p 4 \<longrightarrow> load32 q (store32 p v w) = load32 q w)"
  using load_store load32_store32_apart by blast

theorem reference_roundtrip_witness: "load32 4096 (store32 4096 7 (\<lambda>_. 1)) = 7 \<and>
    load32 8192 (store32 4096 7 (\<lambda>_. 1)) = load32 8192 (\<lambda>_. 1)"
proof -
  have "unat (4096 :: u64) + 4 < 2 ^ 64" "unat (8192 :: u64) + 4 < 2 ^ 64" "apart 8192 4 4096 4" by (simp_all add: apart_def)
  then show ?thesis using reference_roundtrip [of 4096 7 "\<lambda>_. 1" 8192] by blast
qed

text \<open>C34: A reference table is a partial function from tails to heads. From \<open>fdb_reftable_init\<close> over
  a page allocator on, any sequence of adding, looking up, removing and testing references answers,
  without an error, what that function says: a later reference replaces an earlier one of the same
  tail, and removing a tail removes its reference whatever head is given.\<close>

theorem reftable_refines_map:
  assumes "page_inv pg live" "live_apart live" "page_room pg (Suc (\<Sum>c\<leftarrow>cs. ref_need c))"
    and "page_serves pg 64 4096" "page_serves pg 64 65536" "length name < 256" and "\<forall>c\<in>set cs. ref_legal c"
  shows "\<exists>rt pg' x'. fdb_reftable_init name i (Some fdb_page_alloc_super) g hdr pg = Inr (rt, pg') \<and>
    ref_run call cs ((rt, pg'), w) = Inr (ref_run_spec cs Map.empty, x')"
proof -
  let ?S = "page_serves pg" and ?inv = "page_steady (page_serves pg)"
  have cl: "clients ?inv pg (\<lambda>_ :: table_client. Map.empty)" by (rule clients_start) (use assms(1,2) in auto)
  have al: "p_mem_alloc (case Some fdb_page_alloc_super of Some a \<Rightarrow> a | None \<Rightarrow> g) = fdb_page_alloc_alloc"
    "p_mem_free (case Some fdb_page_alloc_super of Some a \<Rightarrow> a | None \<Rightarrow> g) = fdb_page_alloc_free"
    by (simp_all add: fdb_page_alloc_super_def)
  from steady_page.reftable_init_spec [where hdr = hdr and w = w and i = i, OF al cl inj_on_id _ assms(3-6)] obtain rt pg' Ps where
    t: "fdb_reftable_init name i (Some fdb_page_alloc_super) g hdr pg = Inr (rt, pg')"
      "reftable_state fdb_page_alloc_alloc fdb_page_alloc_free ?inv ?S id ((rt, pg'), w) Map.empty Ps"
      "page_room pg' (\<Sum>c\<leftarrow>cs. ref_need c)" by auto
  have room: "page_room (snd (fst ((rt, pg'), w))) ((\<Sum>c\<leftarrow>cs. ref_need c) + 0)" using t(3) by simp
  from steady_page.ref_run_sim [OF t(2) inj_on_id room assms(7)] show ?thesis using t(1) by blast
qed

theorem reftable_refines_map_witness:
  "\<exists>rt pg' x'. fdb_reftable_init ''parent'' 1 (Some fdb_page_alloc_super) fdb_page_alloc_super (\<lambda>_. 0) demo_db_page = Inr (rt, pg') \<and>
    ref_run (\<lambda>f p w. w) [RAdd 3 300, RAdd 4 3, RAdd 3 5, RExists 3 300, RGet 3, RRemove 4 77, RGet 4] ((rt, pg'), \<lambda>_. 0) =
      Inr ([RDone, RDone, RDone, RBool False, RHead (Some 5), RDone, RHead None], x')"
proof -
  let ?cs = "[RAdd 3 300, RAdd 4 3, RAdd 3 5, RExists 3 300, RGet 3, RRemove 4 77, RGet 4]"
  have room: "page_room demo_db_page (Suc (\<Sum>c\<leftarrow>?cs. ref_need c))" by (simp add: page_room_def demo_db_page_def)
  have legal: "\<forall>c\<in>set ?cs. ref_legal c" by (simp add: id_ok_def FDB_INVALID_ID_def)
  have name: "length ''parent'' < 256" by simp
  have "ref_run_spec ?cs Map.empty = [RDone, RDone, RDone, RBool False, RHead (Some 5), RDone, RHead None]" by simp
  then show ?thesis
    using reftable_refines_map [where i = 1 and g = fdb_page_alloc_super and hdr = "\<lambda>_. 0" and call = "\<lambda>f p w. w" and w = "\<lambda>_. 0",
      OF demo_db_page_inv(1) live_apart_empty room demo_db_page_inv(3,4) name legal] by simp
qed

end
