(* ===== verification/Utils.thy ===== *)
theory Utils
  imports Prelude
begin

text \<open>
  src/src/common/utils.c: the hash of names (MurmurHash2) under which registries and tables of the
  database are filed. A name is the list of its characters before the terminating zero. The hash
  is not injective, and the registries do not compare names; the property says which names are
  certain to have different hashes.
\<close>

section \<open>The hash\<close>

definition murmur_m :: u32 where "murmur_m = 0x5bd1e995"
definition murmur_seed :: u32 where "murmur_seed = 123456"

definition xor_shift :: "nat \<Rightarrow> u32 \<Rightarrow> u32" where "xor_shift r x = x XOR drop_bit r x"

text \<open>\<open>*(unsigned int*)data\<close>, little-endian.\<close>

definition word_of :: "u8 \<Rightarrow> u8 \<Rightarrow> u8 \<Rightarrow> u8 \<Rightarrow> u32" where
  "word_of a b c d = ucast a OR push_bit 8 (ucast b) OR push_bit 16 (ucast c) OR push_bit 24 (ucast d)"

definition mix :: "u32 \<Rightarrow> u32 \<Rightarrow> u32" where
  "mix h k = (h * murmur_m) XOR (xor_shift 24 (k * murmur_m) * murmur_m)"

text \<open>The loop over groups of four bytes, then the switch over what is left.\<close>

fun hash_words :: "u32 \<Rightarrow> u8 list \<Rightarrow> u32 \<times> u8 list" where
  "hash_words h (a # b # c # d # rest) = hash_words (mix h (word_of a b c d)) rest"
| "hash_words h rest = (h, rest)"

definition hash_tail :: "u32 \<Rightarrow> u8 list \<Rightarrow> u32" where
  "hash_tail h rest =
     (let h = (if length rest = 3 then h XOR push_bit 16 (ucast (rest ! 2)) else h);
          h = (if 2 \<le> length rest then h XOR push_bit 8 (ucast (rest ! 1)) else h)
      in if 1 \<le> length rest then (h XOR ucast (rest ! 0)) * murmur_m else h)"

definition hash :: "string \<Rightarrow> u32" where
  "hash str =
     (let len = of_nat (length str) :: u32;
          (h, rest) = hash_words (murmur_seed XOR len) (take (unat len) (map of_char str));
          h = hash_tail h rest;
          h = xor_shift 13 h * murmur_m
      in xor_shift 15 h)"

section \<open>Every step is injective\<close>

lemma xor_xor: "a XOR (a XOR b) = (b :: u32)"
  by (simp flip: xor.assoc)

lemma xor_cancel: "(a :: u32) XOR b = a XOR c \<longleftrightarrow> b = c" "b XOR a = c XOR a \<longleftrightarrow> b = c"
proof -
  show "a XOR b = a XOR c \<longleftrightarrow> b = c" by (metis xor_xor)
  then show "b XOR a = c XOR a \<longleftrightarrow> b = c" by (simp only: xor.commute [of b a] xor.commute [of c a])
qed

lemma xor_shift_inj:
  assumes "32 \<le> 4 * r" "xor_shift r x = xor_shift r y" shows "x = y"
proof -
  define d where "d = x XOR y"
  have "d XOR drop_bit r d = (x XOR drop_bit r x) XOR (y XOR drop_bit r y)"
    unfolding d_def by (rule bit_word_eqI) (auto simp: bit_simps)
  also have "\<dots> = 0" using assms(2) by (simp only: xor_shift_def xor_self_eq)
  finally have dd: "drop_bit r d = d" using xor_xor [of d "drop_bit r d"] by simp
  have "drop_bit (n * r) d = d" for n
  proof (induction n)
    case (Suc n)
    have "drop_bit (Suc n * r) d = drop_bit (n * r) (drop_bit r d)" by (simp only: drop_bit_drop_bit mult_Suc add.commute)
    then show ?case using Suc dd by simp
  qed simp
  then have "d = drop_bit (4 * r) d" by metis
  moreover have "drop_bit (4 * r) d = 0"
    by (rule bit_word_eqI) (use assms(1) in \<open>auto simp: bit_simps dest: bit_imp_le_length\<close>)
  ultimately have "d = 0" by (rule trans)
  then have "x XOR y = 0" by (simp only: d_def)
  then show ?thesis using xor_xor [of x y] by simp
qed

lemma times_m_inj: "(x :: u32) * murmur_m = y * murmur_m \<longleftrightarrow> x = y"
proof
  assume a: "x * murmur_m = y * murmur_m"
  have m: "murmur_m * 3852147133 = 1" by (simp add: murmur_m_def)
  have "x = x * (murmur_m * 3852147133)" by (simp only: m mult_1_right)
  also have "\<dots> = y * (murmur_m * 3852147133)" using a by (simp only: mult.assoc [symmetric])
  also have "\<dots> = y" by (simp only: m mult_1_right)
  finally show "x = y" .
qed simp

lemma mix_inj: "mix h k = mix h k' \<longleftrightarrow> k = k'" "mix h k = mix h' k \<longleftrightarrow> h = h'"
proof -
  have x: "xor_shift 24 x = xor_shift 24 y \<longleftrightarrow> x = y" for x y using xor_shift_inj [of 24 x y] by auto
  show "mix h k = mix h k' \<longleftrightarrow> k = k'" "mix h k = mix h' k \<longleftrightarrow> h = h'"
    by (simp_all only: mix_def xor_cancel times_m_inj x)
qed

lemma hash_words_append: "4 dvd length p \<Longrightarrow> hash_words h (p @ rest) = hash_words (fst (hash_words h p)) rest"
proof (induction h p rule: hash_words.induct)
  case (1 h a b c d p)
  have "length (a # b # c # d # p) = length p + 4" by simp
  then have "4 dvd length p" using 1(2) by (metis dvd_add_triv_right_iff)
  then show ?case using 1(1) by simp
qed (auto dest: dvd_imp_le)

lemma hash_words_inj: "hash_words h xs = hash_words h' xs \<Longrightarrow> h = h'"
proof (induction h xs arbitrary: h' rule: hash_words.induct)
  case (1 h a b c d p)
  then have "mix h (word_of a b c d) = mix h' (word_of a b c d)" by simp
  then show ?case by (simp add: mix_inj)
qed simp_all

lemma hash_words_rest: "snd (hash_words h xs) = drop (length xs - length xs mod 4) xs"
proof (induction h xs rule: hash_words.induct)
  case (1 h a b c d p)
  have l: "length (a # b # c # d # p) = length p + 4" by simp
  have m: "(length p + 4) mod 4 = length p mod 4" by (rule mod_add_self2)
  have "length p + 4 - length p mod 4 = 4 + (length p - length p mod 4)"
    using mod_less_eq_dividend [of "length p" 4] by linarith
  moreover have "drop (4 + n) (a # b # c # d # p) = drop n p" for n
    using drop_append [of "4 + n" "[a, b, c, d]" p] by simp
  ultimately have "drop (length p + 4 - length p mod 4) (a # b # c # d # p) = drop (length p - length p mod 4) p" by (simp only:)
  then show ?case unfolding l m hash_words.simps using 1 by (simp only:)
qed auto

lemma word_of_bytes:
  "(ucast (word_of a b c d) :: u8) = a" "(ucast (drop_bit 8 (word_of a b c d)) :: u8) = b"
  "(ucast (drop_bit 16 (word_of a b c d)) :: u8) = c" "(ucast (drop_bit 24 (word_of a b c d)) :: u8) = d"
  by (rule bit_word_eqI; auto simp: word_of_def bit_simps dest: bit_imp_le_length)+

lemma word_of_inj: "word_of a b c d = word_of a' b' c' d' \<longleftrightarrow> a = a' \<and> b = b' \<and> c = c' \<and> d = d'"
  using word_of_bytes by metis

lemma hash_tail_word:
  "length xs < 4 \<Longrightarrow> xs \<noteq> [] \<Longrightarrow> hash_tail h xs = (h XOR word_of (xs ! 0) (if 2 \<le> length xs then xs ! 1 else 0)
     (if length xs = 3 then xs ! 2 else 0) 0) * murmur_m"
proof -
  assume "length xs < 4" "xs \<noteq> []"
  then have "length xs < 4" "length xs \<noteq> 0" by simp_all
  then have l: "length xs = 1 \<or> length xs = 2 \<or> length xs = 3" by linarith
  have w: "word_of a b c 0 = ucast a XOR push_bit 8 (ucast b) XOR push_bit 16 (ucast c)" for a b c
    by (rule bit_word_eqI) (auto simp: word_of_def bit_simps dest: bit_imp_le_length)
  show ?thesis using l by (auto simp: hash_tail_def Let_def w xor.assoc xor.left_commute xor.commute)
qed

lemma hash_tail_inj: "length xs < 4 \<Longrightarrow> hash_tail h xs = hash_tail h' xs \<Longrightarrow> h = h'"
proof (cases "xs = []")
  case False
  assume a: "length xs < 4" "hash_tail h xs = hash_tail h' xs"
  show ?thesis using a(2) unfolding hash_tail_word [OF a(1) False] times_m_inj xor_cancel .
qed (simp add: hash_tail_def)

lemma hash_tail_bytes:
  assumes "length xs = length ys" "length xs < 4" "hash_tail h xs = hash_tail h ys" shows "xs = ys"
proof (cases "xs = []")
  case False
  then have "ys \<noteq> []" using assms(1) by auto
  have y: "length ys < 4" using assms(1,2) by simp
  note w = hash_tail_word [OF assms(2) False] hash_tail_word [OF y \<open>ys \<noteq> []\<close>]
  have "xs ! 0 = ys ! 0 \<and> (2 \<le> length xs \<longrightarrow> xs ! 1 = ys ! 1) \<and> (length xs = 3 \<longrightarrow> xs ! 2 = ys ! 2)"
    using assms(3) unfolding w times_m_inj xor_cancel word_of_inj assms(1) by presburger
  then have "xs ! i = ys ! i" if "i < length xs" for i
  proof -
    have "i = 0 \<or> i = 1 \<and> 2 \<le> length xs \<or> i = 2 \<and> length xs = 3" using that assms(2) by linarith
    then show ?thesis using \<open>xs ! 0 = ys ! 0 \<and> _\<close> by auto
  qed
  then show ?thesis using assms(1) by (simp add: list_eq_iff_nth_eq)
qed (use assms in simp)

section \<open>Which names have different hashes\<close>

definition hash_bytes :: "u32 \<Rightarrow> u8 list \<Rightarrow> u32" where
  "hash_bytes h xs = (let (h, rest) = hash_words h xs in xor_shift 15 (xor_shift 13 (hash_tail h rest) * murmur_m))"

lemma hash_hash_bytes: "length s < 2 ^ 32 \<Longrightarrow> hash s = hash_bytes (murmur_seed XOR of_nat (length s)) (map of_char s)"
  by (simp add: hash_def hash_bytes_def Let_def unat_of_nat take_bit_nat_eq_self split_beta)

lemma finish_inj: "xor_shift 15 (xor_shift 13 x * murmur_m) = xor_shift 15 (xor_shift 13 y * murmur_m) \<longleftrightarrow> x = y"
proof
  assume "xor_shift 15 (xor_shift 13 x * murmur_m) = xor_shift 15 (xor_shift 13 y * murmur_m)"
  then have "xor_shift 13 x * murmur_m = xor_shift 13 y * murmur_m" by (rule xor_shift_inj [rotated]) simp
  then show "x = y" unfolding times_m_inj by (rule xor_shift_inj [rotated]) simp
qed simp

lemma hash_bytes_inj: "hash_bytes h xs = hash_bytes h' xs \<Longrightarrow> h = h'"
proof -
  assume a: "hash_bytes h xs = hash_bytes h' xs"
  have r: "snd (hash_words h xs) = snd (hash_words h' xs)" by (simp add: hash_words_rest)
  have "fst (hash_words h xs) = fst (hash_words h' xs)"
    by (rule hash_tail_inj [of "snd (hash_words h xs)"])
      (use a r in \<open>simp_all add: hash_bytes_def split_beta Let_def finish_inj hash_words_rest\<close>)
  then show "h = h'" using r by (metis hash_words_inj prod.collapse)
qed

lemma hash_bytes_group:
  assumes "4 dvd length p" "length u = length v" "length u = 4 \<or> length u < 4 \<and> suf = []"
    and "hash_bytes h (p @ u @ suf) = hash_bytes h (p @ v @ suf)"
  shows "u = v"
proof -
  define g where "g = fst (hash_words h p)"
  have app: "hash_bytes h (p @ w) = hash_bytes g w" for w
    by (simp add: hash_bytes_def hash_words_append [OF assms(1)] g_def)
  have eq: "hash_bytes g (u @ suf) = hash_bytes g (v @ suf)" using assms(4) by (simp add: app)
  from assms(3) show ?thesis
  proof
    assume l: "length u = 4"
    then obtain a b c d where u: "u = [a, b, c, d]" by (auto simp: numeral_eq_Suc length_Suc_conv)
    obtain a' b' c' d' where v: "v = [a', b', c', d']" using l assms(2) by (auto simp: numeral_eq_Suc length_Suc_conv)
    have w: "hash_bytes g ([a, b, c, d] @ suf) = hash_bytes (mix g (word_of a b c d)) suf" for a b c d
      by (simp add: hash_bytes_def)
    have "mix g (word_of a b c d) = mix g (word_of a' b' c' d')"
      by (rule hash_bytes_inj) (use eq w u v in simp)
    then show ?thesis by (simp add: mix_inj word_of_inj u v)
  next
    assume l: "length u < 4 \<and> suf = []"
    have "hash_words g w = (g, w)" if "length w < 4" for w
      using that by (cases "(g, w)" rule: hash_words.cases) auto
    then show ?thesis using eq l assms(2) hash_tail_bytes [of u v g]
      by (simp add: hash_bytes_def finish_inj)
  qed
qed

lemma of_char_u8_inj: "inj (of_char :: char \<Rightarrow> u8)"
proof (rule injI)
  fix c d :: char assume "(of_char c :: u8) = of_char d"
  moreover have "unat (of_char c :: u8) = of_char c" for c :: char
  proof -
    have "of_char c = (of_nat (of_char c) :: u8)" by (simp add: of_char_def)
    moreover have "of_char c < (256 :: nat)" by simp
    ultimately show ?thesis by (simp add: unat_of_nat take_bit_nat_eq_self)
  qed
  ultimately have "(of_char c :: nat) = of_char d" by metis
  then show "c = d" by simp
qed

section \<open>Property\<close>

text \<open>C40: Two names that differ in only one group of four characters (the groups counted from the
  front, the last one possibly shorter) never have the same hash: each step of the hash is
  injective. In particular names of the same length of up to four characters never collide.\<close>

theorem hash_separates:
  assumes "4 dvd length p" "length u = length v" "length u = 4 \<or> length u < 4 \<and> suf = []" "u \<noteq> v"
    and "length (p @ u @ suf) < 2 ^ 32"
  shows "hash (p @ u @ suf) \<noteq> hash (p @ v @ suf)"
proof
  assume a: "hash (p @ u @ suf) = hash (p @ v @ suf)"
  let ?b = "map of_char :: string \<Rightarrow> u8 list"
  let ?h = "murmur_seed XOR of_nat (length p + (length u + length suf))"
  have "hash_bytes ?h (?b p @ ?b u @ ?b suf) = hash_bytes ?h (?b p @ ?b v @ ?b suf)"
    using a assms(2,5) by (simp add: hash_hash_bytes)
  then have "?b u = ?b v"
    by (rule hash_bytes_group [rotated 3]) (use assms(1-3) in auto)
  then show False using assms(4) of_char_u8_inj by (simp add: inj_map_eq_map)
qed

theorem hash_separates_witness: "hash ''position'' \<noteq> hash ''positron''"
proof -
  have d: "4 dvd length ''posi''" by (simp add: numeral_eq_Suc)
  have "length ''tion'' = length ''tron''" "length ''tion'' = 4 \<or> length ''tion'' < 4 \<and> ([] :: string) = []"
    "''tion'' \<noteq> ''tron''" "length (''posi'' @ ''tion'' @ []) < 2 ^ 32" by simp_all
  from hash_separates [OF d this] show ?thesis by simp
qed

end
