(* ===== verification/Registry.thy ===== *)
theory Registry
  imports TableSpec BtreeRemove Utils
begin

text \<open>
  src/src/runtime/data/ht_registry.c and ht_registry.h: a registry from names to pointers, a B+ tree
  over the hashes of the names. An insertion of a name whose hash is present overwrites the value
  through the \<open>p_place\<close> that the tree returns; the first section shows what that write does to the
  tree. Every operation is one critical section of the registry's mutex.
\<close>

section \<open>Writing through \<open>p\_place\<close>\<close>

definition write_place :: "btheap \<Rightarrow> (ptr \<times> nat) option \<Rightarrow> ptr \<Rightarrow> btheap res" where
  "write_place h place v = (case place of None \<Rightarrow> Inl NullDeref
     | Some (q, i) \<Rightarrow> bind_res (leaf_at h q) (\<lambda>l. bind_res (wr (lf_leafs l) i v) (\<lambda>vs.
         Inr (h(q \<mapsto> E_LEAF (l\<lparr>lf_leafs := vs\<rparr>))))))"

definition put :: "u32 \<Rightarrow> ptr \<Rightarrow> entries \<Rightarrow> entries" where
  "put key v xs = map (\<lambda>e. if fst e = key then (key, v) else e) xs"

primrec put_tree :: "u32 \<Rightarrow> ptr \<Rightarrow> tree \<Rightarrow> tree" where
  "put_tree key v (TL p kvs) = TL p (put key v kvs)"
| "put_tree key v (TN p ts ks) = TN p (map (put_tree key v) ts) ks"

lemma put_keys [simp]: "map fst (put key v xs) = map fst xs" "length (put key v xs) = length xs"
  by (simp_all add: put_def)

lemma put_absent: "key \<notin> fst ` set xs \<Longrightarrow> put key v xs = xs"
  unfolding put_def by (rule map_idI) (auto simp: image_iff)

lemma map_of_put: "key \<in> fst ` set xs \<Longrightarrow> map_of (put key v xs) = (map_of xs)(key \<mapsto> v)"
proof (induction xs)
  case (Cons e xs)
  show ?case
  proof (cases "key \<in> fst ` set xs")
    case True
    then have "map_of (put key v xs) = (map_of xs)(key \<mapsto> v)" by (rule Cons.IH)
    then show ?thesis by (cases e) (auto simp: put_def fun_eq_iff)
  next
    case False
    then have "fst e = key" "put key v xs = xs" using Cons.prems put_absent [OF False] by auto
    then show ?thesis by (cases e) (auto simp: put_def fun_eq_iff)
  qed
qed simp

lemma put_nth:
  assumes "distinct (map fst xs)" "i < length xs" "fst (xs ! i) = key"
  shows "put key v xs = xs[i := (key, v)]"
proof (rule nth_equalityI)
  fix j assume j: "j < length (put key v xs)"
  have "fst (xs ! j) = key \<longleftrightarrow> j = i"
    using nth_eq_iff_index_eq [OF assms(1), of j i] assms(2,3) j by auto
  then show "put key v xs ! j = xs[i := (key, v)] ! j" using j by (auto simp: put_def nth_list_update)
qed simp

lemma put_tree_entries [simp]: "entries_of (put_tree key v t) = put key v (entries_of t)"
proof (induction t)
  case (TN p ts ks)
  then have "map (entries_of \<circ> put_tree key v) ts = map (put key v \<circ> entries_of) ts" by simp
  then show ?case by (simp only: put_tree.simps entries_of.simps map_map) (simp add: put_def map_concat comp_def)
qed simp

lemma put_tree_root [simp]: "root_of (put_tree key v t) = root_of t"
  by (cases t) auto

lemma put_tree_first [simp]: "first (put_tree key v t) = first t"
proof (induction t)
  case (TN p ts ks)
  then show ?case by (cases ts) auto
qed simp

lemma put_tree_firsts [simp]: "firsts (map (put_tree key v) ts) nx = firsts ts nx"
  by (cases ts) auto

lemma put_tree_addrs [simp]: "addrs (put_tree key v t) = addrs t"
proof (induction t)
  case (TN p ts ks)
  then have "map (addrs \<circ> put_tree key v) ts = map addrs ts" by simp
  then show ?case by (simp only: put_tree.simps addrs.simps map_map)
qed simp

lemma put_tree_filled [simp]: "filled (put_tree key v t) = filled t"
  by (induction t) auto

lemma lpairs_map: "lpairs Q bs ts \<Longrightarrow> (\<And>l t u. Q l t u \<Longrightarrow> P l (f t) u) \<Longrightarrow> lpairs P bs (map f ts)"
  by (induction Q bs ts rule: lpairs.induct) auto

lemma leaf_ok_put: "leaf_ok lo kvs hi \<Longrightarrow> v \<noteq> NULL \<Longrightarrow> leaf_ok lo (put key v kvs) hi"
  unfolding leaf_ok_def put_keys by (auto simp: put_def)

lemma put_tree_ok: "tree_ok n lo t hi \<Longrightarrow> v \<noteq> NULL \<Longrightarrow> tree_ok n lo (put_tree key v t) hi"
proof (induction n arbitrary: lo t hi)
  case 0
  then show ?case by (cases t) (auto simp: leaf_ok_put)
next
  case (Suc n)
  then obtain p ts ks where t: "t = TN p ts ks" by (cases t) auto
  then show ?case using Suc lpairs_map [of "tree_ok n" "lo # map unat ks @ [hi]" ts "tree_ok n" "put_tree key v"] by auto
qed

lemma leaf_in_leaves:
  "rep h t nx \<Longrightarrow> q \<in> set (addrs t) \<Longrightarrow> h q = Some (E_LEAF l) \<Longrightarrow> \<exists>kvs nx. (q, kvs) \<in> set (leaves t) \<and> leaf_rep l kvs nx"
  "reps h ts nx \<Longrightarrow> t \<in> set ts \<Longrightarrow> q \<in> set (addrs t) \<Longrightarrow> h q = Some (E_LEAF l) \<Longrightarrow>
     \<exists>kvs nx. (q, kvs) \<in> set (leaves t) \<and> leaf_rep l kvs nx"
proof (induction h t nx and h ts nx arbitrary: and t rule: rep_reps.induct)
  case (2 h p ts ks nx)
  then have "q \<noteq> p" by auto
  then obtain c where "c \<in> set ts" "q \<in> set (addrs c)" using 2(3) by auto
  then show ?case using 2 by fastforce
qed auto

lemma concat_same:
  "distinct (concat (map f xs)) \<Longrightarrow> x \<in> set xs \<Longrightarrow> y \<in> set xs \<Longrightarrow> k \<in> set (f x) \<Longrightarrow> k \<in> set (f y) \<Longrightarrow> x = y"
  by (induction xs) (auto simp: disjoint_iff)

lemma put_tree_rep:
  "rep h t nx \<Longrightarrow> h q = Some (E_LEAF l) \<Longrightarrow> h' = h(q \<mapsto> E_LEAF (l\<lparr>lf_leafs := (lf_leafs l)[i := v]\<rparr>)) \<Longrightarrow>
     i < 9 \<Longrightarrow> lf_keys l ! i = key \<Longrightarrow> lf_leafs l ! i \<noteq> NULL \<Longrightarrow>
     \<forall>(p, kvs)\<in>set (leaves t). distinct (map fst kvs) \<and> (key \<in> fst ` set kvs \<longrightarrow> p = q) \<Longrightarrow>
     rep h' (put_tree key v t) nx"
  "reps h ts nx \<Longrightarrow> h q = Some (E_LEAF l) \<Longrightarrow> h' = h(q \<mapsto> E_LEAF (l\<lparr>lf_leafs := (lf_leafs l)[i := v]\<rparr>)) \<Longrightarrow>
     i < 9 \<Longrightarrow> lf_keys l ! i = key \<Longrightarrow> lf_leafs l ! i \<noteq> NULL \<Longrightarrow>
     \<forall>t\<in>set ts. \<forall>(p, kvs)\<in>set (leaves t). distinct (map fst kvs) \<and> (key \<in> fst ` set kvs \<longrightarrow> p = q) \<Longrightarrow>
     reps h' (map (put_tree key v) ts) nx"
proof (induction h t nx and h ts nx rule: rep_reps.induct)
  case (1 h p kvs nx)
  show ?case
  proof (cases "p = q")
    case True
    then have l: "leaf_rep l kvs nx" "p \<noteq> NULL" using 1(1,2) by auto
    note slot = leaf_rep_slot [OF l(1), of i]
    have len: "length kvs \<le> 9" "lf_leafs l = map snd kvs @ replicate (9 - length kvs) NULL" using l(1) by (auto simp: leaf_rep_def)
    have i: "i < length kvs" using 1(4,6) unfolding len(2) by (auto simp: nth_append split: if_splits)
    then have k: "fst (kvs ! i) = key" using slot 1(4,5) len(1) by simp
    have "put key v kvs = kvs[i := (key, v)]" by (rule put_nth) (use 1(7) i k in auto)
    moreover have "map fst (kvs[i := (key, v)]) = map fst kvs" using k i by (simp add: map_update list_update_same_conv)
    moreover have "(lf_leafs l)[i := v] = map snd (kvs[i := (key, v)]) @ replicate (9 - length kvs) NULL"
      unfolding len(2) using i by (simp add: list_update_append map_update)
    ultimately have "leaf_rep (l\<lparr>lf_leafs := (lf_leafs l)[i := v]\<rparr>) (put key v kvs) nx"
      using l(1) by (simp add: leaf_rep_def)
    then show ?thesis using l(2) 1(3) True by simp
  next
    case False
    then have "put key v kvs = kvs" using 1(7) put_absent by auto
    then show ?thesis using 1(1,3) False by simp
  qed
next
  case (2 h p ts ks nx)
  have "p \<noteq> q" using 2(2,3) by auto
  moreover have "reps h' (map (put_tree key v) ts) nx" using 2 by fastforce
  moreover have "map (root_of \<circ> put_tree key v) ts = map root_of ts" by simp
  ultimately show ?case using 2(2,4) by (simp del: fun_upd_apply) (simp add: comp_def)
next
  case (4 h t ts nx)
  then show ?case by (simp del: fun_upd_apply)
qed simp

lemma write_place_holds:
  assumes h: "btree_holds b xs" and key: "key \<in> fst ` set xs" and v: "v \<noteq> NULL" and ok: "place_ok key old (bt_nodes b) xs r"
  shows "\<exists>nodes. write_place (bt_nodes b) (bi_place r) v = Inr nodes \<and> dom nodes = dom (bt_nodes b) \<and>
    btree_holds (b\<lparr>bt_nodes := nodes\<rparr>) (put key v xs)"
proof -
  obtain q i l where q: "bi_place r = Some (q, i)" "bt_nodes b q = Some (E_LEAF l)" "i < 9" "lf_keys l ! i = key"
    "lf_leafs l ! i \<noteq> NULL" using ok unfolding place_ok_def by metis
  obtain n t where t: "btree_tree b n t" "entries_of t = xs" using h by (auto simp: btree_holds_def)
  then have tr: "root_of t = bt_root b" "rep (bt_nodes b) t NULL" "distinct (addrs t)"
    "dom (bt_nodes b) = set (addrs t)" "bt_size b = of_nat (length xs)" by (auto simp: btree_tree_def)
  let ?l = "l\<lparr>lf_leafs := (lf_leafs l)[i := v]\<rparr>"
  let ?h = "(bt_nodes b)(q \<mapsto> E_LEAF ?l)"
  have qn: "q \<noteq> NULL" "length (lf_leafs l) = 9" using btree_holds_nodes [OF h q(2)] by auto
  have run: "write_place (bt_nodes b) (bi_place r) v = Inr ?h"
    using q(1-3) qn by (simp add: write_place_def at_simps)
  obtain kvs nx where kvs: "(q, kvs) \<in> set (leaves t)" "leaf_rep l kvs nx"
    using leaf_in_leaves(1) [OF tr(2) _ q(2)] tr(4) q(2) by blast
  have d: "distinct (map fst xs)" using btree_holds_ascending [OF h] by (simp add: strict_sorted_iff)
  have "concat (map (\<lambda>e. map fst (snd e)) (leaves t)) = map fst xs"
    unfolding t(2) [symmetric] leaves_entries [of t, symmetric] by (simp only: map_concat map_map comp_def)
  then have dl: "distinct (concat (map (\<lambda>e. map fst (snd e)) (leaves t)))" using d by simp
  have i: "i < length kvs" using kvs(2) q(3,5) by (auto simp: leaf_rep_def nth_append split: if_splits)
  have in_q: "key \<in> fst ` set kvs"
    using leaf_rep_slot [OF kvs(2), of i] i q(3,4) kvs(2) by (auto simp: leaf_rep_def intro!: rev_image_eqI [OF nth_mem])
  have uniq: "\<forall>(p, ys)\<in>set (leaves t). distinct (map fst ys) \<and> (key \<in> fst ` set ys \<longrightarrow> p = q)"
  proof (rule ballI)
    fix e assume e: "e \<in> set (leaves t)"
    have "distinct (map fst (snd e))" using dl e by (auto simp: distinct_concat_iff)
    moreover have "e = (q, kvs)" if "key \<in> fst ` set (snd e)"
      by (rule concat_same [OF dl e kvs(1)]) (use that in_q in auto)
    ultimately show "case e of (p, ys) \<Rightarrow> distinct (map fst ys) \<and> (key \<in> fst ` set ys \<longrightarrow> p = q)" by (cases e) auto
  qed
  have "rep ?h (put_tree key v t) NULL" by (rule put_tree_rep(1) [OF tr(2) q(2) refl q(3-5) uniq])
  moreover have "dom ?h = dom (bt_nodes b)" using q(2) by auto
  moreover have "(\<exists>p. put_tree key v t = TN p [] []) \<and> n = 0 \<or>
    tree_ok (Suc n) 0 (put_tree key v t) (2 ^ 32) \<and> rfill (kids (put_tree key v t))"
  proof (cases "\<exists>p. t = TN p [] []")
    case True
    then show ?thesis using t(2) key by auto
  next
    case False
    then have o: "tree_ok (Suc n) 0 t (2 ^ 32)" "rfill (kids t)" using t(1) by (auto simp: btree_tree_def)
    have "rfill (kids (put_tree key v t))" using o(2) by (cases t) (auto simp: rfill_def)
    then show ?thesis using put_tree_ok [OF o(1) v] by blast
  qed
  ultimately have "btree_tree (b\<lparr>bt_nodes := ?h\<rparr>) n (put_tree key v t)"
    using tr(1,3-5) t(2) unfolding btree_tree_def by (simp del: fun_upd_apply)
  then have "btree_holds (b\<lparr>bt_nodes := ?h\<rparr>) (put key v xs)" unfolding btree_holds_def
    by (intro exI [of _ n] exI [of _ "put_tree key v t"] conjI) (use t(2) in simp_all)
  then show ?thesis using run \<open>dom ?h = dom (bt_nodes b)\<close> by blast
qed

text \<open>Inserting and overwriting what is there: the registry's way of storing an entry. \<open>bi\_inserted\<close>
  is false when there was one.\<close>

definition insert_or_replace ::
  "'st fdb_btree_t \<times> 'st \<Rightarrow> u32 \<Rightarrow> ptr \<Rightarrow> ('st fdb_btree_t \<times> 'st) res" where
  "insert_or_replace bs key value =
     bind_res (fdb_btree_insert bs key value) (\<lambda>(insert, (b, st)).
     if bi_inserted insert then Inr (b, st)
     else bind_res (write_place (bt_nodes b) (bi_place insert) value) (\<lambda>nodes. Inr (b\<lparr>bt_nodes := nodes\<rparr>, st)))"

lemma tree_client_nodes:
  "dom nodes = dom (bt_nodes b) \<Longrightarrow> tree_client alloc free S (b\<lparr>bt_nodes := nodes\<rparr>) P = tree_client alloc free S b P"
  by (simp add: tree_client_def)

lemma place_ok_key: "place_ok key old h new r \<Longrightarrow> key \<in> fst ` set new"
proof -
  assume "place_ok key old h new r"
  then have "lookup new key \<noteq> NULL" unfolding place_ok_def by blast
  then have "map_of new key \<noteq> None" by (auto simp: lookup_def split: option.splits)
  then show ?thesis by (simp only: map_of_eq_None_iff not_not)
qed

context steady_provider
begin

lemma client_replace:
  assumes cl: "clients ainv st Ps" and b: "tree_client alloc free S b (Ps c)" and room: "room st (BT_NODES + n)"
    and h: "btree_holds b xs" and v: "v \<noteq> NULL"
  shows "\<exists>b' st' ys P'. insert_or_replace (b, st) key v = Inr (b', st') \<and> btree_holds b' ys \<and>
    map_of ys = (map_of xs)(key \<mapsto> v) \<and> room st' n \<and> clients ainv st' (Ps(c := P')) \<and> tree_client alloc free S b' P'"
proof -
  note asc = btree_holds_ascending [OF h]
  from client_insert [where c = c, OF cl b room h v, of key] obtain r b' st' P' where
    i: "fdb_btree_insert (b, st) key v = Inr (r, (b', st'))" "btree_holds b' (ins key v xs)"
      "place_ok key xs (bt_nodes b') (ins key v xs) r" "room st' n" "clients ainv st' (Ps(c := P'))"
      "tree_client alloc free S b' P'" by blast
  have fl: "bi_inserted r = (key \<notin> fst ` set xs)" using i(3) by (simp add: place_ok_def)
  show ?thesis
  proof (cases "key \<in> fst ` set xs")
    case False
    then have "map_of (ins key v xs) = (map_of xs)(key \<mapsto> v)"
      using map_of_ins [OF asc, of key v] by (simp add: map_of_eq_None_iff [THEN iffD2])
    then show ?thesis using i fl False by (auto simp: insert_or_replace_def)
  next
    case True
    have k: "key \<in> fst ` set (ins key v xs)" by (rule place_ok_key [OF i(3)])
    from write_place_holds [OF i(2) k v i(3)] obtain nodes where
      w: "write_place (bt_nodes b') (bi_place r) v = Inr nodes" "dom nodes = dom (bt_nodes b')"
        "btree_holds (b'\<lparr>bt_nodes := nodes\<rparr>) (put key v (ins key v xs))" by blast
    have "(map_of xs key) \<noteq> None" using True by (simp add: map_of_eq_None_iff)
    then have "map_of (put key v (ins key v xs)) = (map_of xs)(key \<mapsto> v)"
      using map_of_put [OF k, of v] map_of_ins [OF asc, of key v] by auto
    then show ?thesis using i(1,4,5,6) fl True w tree_client_nodes [OF w(2)]
      by (intro exI [of _ "b'\<lparr>bt_nodes := nodes\<rparr>"] exI [of _ st'] exI [of _ "put key v (ins key v xs)"] exI [of _ P'])
        (simp add: insert_or_replace_def)
  qed
qed

end

section \<open>The registry\<close>

record 'st fdb_htregistry_t = hr_registry :: "'st fdb_btree_t"

definition fdb_htregistry_init ::
  "'st fdb_mem_allocator_t option \<Rightarrow> 'st fdb_mem_allocator_t \<Rightarrow> (ptr \<Rightarrow> ptr) \<Rightarrow> 'st \<Rightarrow>
   ('st fdb_htregistry_t \<times> 'st) res" where
  "fdb_htregistry_init allocator gallocator mem st =
     bind_res (fdb_btree_init allocator gallocator mem st) (\<lambda>(b, st). Inr (\<lparr>hr_registry = b\<rparr>, st))"

definition fdb_htregistry_release ::
  "nat \<Rightarrow> 'st fdb_htregistry_t \<times> 'st \<Rightarrow> ('st fdb_htregistry_t \<times> 'st) res" where
  "fdb_htregistry_release fuel rs =
     bind_res (fdb_btree_release fuel (hr_registry (fst rs), snd rs)) (\<lambda>(b, st). Inr (\<lparr>hr_registry = b\<rparr>, st))"

definition fdb_htregistry_insert ::
  "'st fdb_htregistry_t \<times> 'st \<Rightarrow> string \<Rightarrow> ptr \<Rightarrow> ('st fdb_htregistry_t \<times> 'st) res" where
  "fdb_htregistry_insert rs key value =
     bind_res (insert_or_replace (hr_registry (fst rs), snd rs) (hash key) value) (\<lambda>(b, st). Inr (\<lparr>hr_registry = b\<rparr>, st))"

definition fdb_htregistry_get :: "'st fdb_htregistry_t \<Rightarrow> string \<Rightarrow> ptr res" where
  "fdb_htregistry_get registry key = fdb_btree_get (hr_registry registry) (hash key)"

definition fdb_htregistry_remove ::
  "'st fdb_htregistry_t \<times> 'st \<Rightarrow> string \<Rightarrow> ('st fdb_htregistry_t \<times> 'st) res" where
  "fdb_htregistry_remove rs key =
     bind_res (fdb_btree_remove (hr_registry (fst rs), snd rs) (hash key)) (\<lambda>(_, (b, st)). Inr (\<lparr>hr_registry = b\<rparr>, st))"

section \<open>Sequences of insertions and lookups\<close>

datatype reg_cmd = RegInsert string ptr | RegGet string

fun reg_run :: "reg_cmd list \<Rightarrow> 'st fdb_htregistry_t \<times> 'st \<Rightarrow> (ptr list \<times> ('st fdb_htregistry_t \<times> 'st)) res" where
  "reg_run [] rs = Inr ([], rs)"
| "reg_run (RegInsert key v # cs) rs = bind_res (fdb_htregistry_insert rs key v) (reg_run cs)"
| "reg_run (RegGet key # cs) rs = bind_res (fdb_htregistry_get (fst rs) key) (\<lambda>p.
     bind_res (reg_run cs rs) (\<lambda>(ps, rs). Inr (p # ps, rs)))"

text \<open>The specification: a map from names.\<close>

fun reg_spec :: "reg_cmd list \<Rightarrow> (string \<rightharpoonup> ptr) \<Rightarrow> ptr list" where
  "reg_spec [] m = []"
| "reg_spec (RegInsert key v # cs) m = reg_spec cs (m(key \<mapsto> v))"
| "reg_spec (RegGet key # cs) m = (case m key of None \<Rightarrow> NULL | Some v \<Rightarrow> v) # reg_spec cs m"

fun reg_name :: "reg_cmd \<Rightarrow> string" where
  "reg_name (RegInsert key v) = key"
| "reg_name (RegGet key) = key"

fun reg_legal :: "reg_cmd \<Rightarrow> bool" where
  "reg_legal (RegInsert key v) \<longleftrightarrow> v \<noteq> NULL"
| "reg_legal (RegGet key) \<longleftrightarrow> True"

context steady_provider
begin

lemma reg_run_sim:
  assumes "clients ainv st Ps" "tree_client alloc free S b (Ps c)" "room st (BT_NODES * length cs)" "btree_holds b xs"
    and "\<forall>x\<in>set cs. reg_legal x" "inj_on hash N" "reg_name ` set cs \<subseteq> N" "\<forall>x\<in>N. map_of xs (hash x) = m x"
  shows "\<exists>rs. reg_run cs (\<lparr>hr_registry = b\<rparr>, st) = Inr (reg_spec cs m, rs)"
  using assms
proof (induction cs arbitrary: st Ps b xs m)
  case (Cons x cs)
  show ?case
  proof (cases x)
    case (RegInsert key v)
    have r: "room st (BT_NODES + BT_NODES * length cs)" "v \<noteq> NULL" using Cons.prems(3,5) RegInsert by simp_all
    from client_replace [where c = c, OF Cons.prems(1,2) r(1) Cons.prems(4) r(2), of "hash key"] obtain b' st' ys P' where
      i: "insert_or_replace (b, st) (hash key) v = Inr (b', st')" "btree_holds b' ys" "map_of ys = (map_of xs)(hash key \<mapsto> v)"
        "room st' (BT_NODES * length cs)" "clients ainv st' (Ps(c := P'))" "tree_client alloc free S b' P'" by blast
    have kN: "key \<in> N" using Cons.prems(7) RegInsert by auto
    have "\<forall>x\<in>N. map_of ys (hash x) = (m(key \<mapsto> v)) x"
      using Cons.prems(8) i(3) inj_onD [OF Cons.prems(6) _ _ kN] by auto
    moreover have "tree_client alloc free S b' ((Ps(c := P')) c)" using i(6) by simp
    ultimately obtain rs where "reg_run cs (\<lparr>hr_registry = b'\<rparr>, st') = Inr (reg_spec cs (m(key \<mapsto> v)), rs)"
      using Cons.IH [OF i(5) _ i(4,2), of "m(key \<mapsto> v)"] Cons.prems(5-7) by (auto simp del: fun_upd_apply)
    then show ?thesis using i(1) RegInsert by (simp add: fdb_htregistry_insert_def)
  next
    case (RegGet key)
    have kN: "key \<in> N" using Cons.prems(7) RegGet by auto
    have "fdb_btree_get b (hash key) = Inr (case m key of None \<Rightarrow> NULL | Some v \<Rightarrow> v)"
      using get_spec [OF Cons.prems(4), of "hash key"] Cons.prems(8) kN by (simp add: lookup_map)
    moreover have "room st (BT_NODES * length cs)" using Cons.prems(3) by (rule room_le) simp
    then obtain rs where "reg_run cs (\<lparr>hr_registry = b\<rparr>, st) = Inr (reg_spec cs m, rs)"
      using Cons.IH [OF Cons.prems(1,2) _ Cons.prems(4), of m] Cons.prems(5-8) by auto
    ultimately show ?thesis using RegGet by (simp add: fdb_htregistry_get_def)
  qed
qed simp

end

section \<open>Property\<close>

text \<open>C36: A registry over a page allocator is a map from names to pointers, as long as the hashes of
  the names in use differ: any sequence of insertions of pointers that are not NULL and lookups
  gives what the map gives, a later insertion of a name replacing the earlier one.\<close>

theorem htregistry_refines_map:
  assumes "page_inv pg live" "live_apart live" "page_room pg (Suc (BT_NODES * length cs))" "page_serves pg 64 4096"
    and "\<forall>x\<in>set cs. reg_legal x" "inj_on hash (reg_name ` set cs)"
  shows "\<exists>r pg' rs. fdb_htregistry_init (Some fdb_page_alloc_super) g hdr pg = Inr (r, pg') \<and>
    reg_run cs (r, pg') = Inr (reg_spec cs Map.empty, rs)"
proof -
  let ?S = "page_serves pg" and ?inv = "page_steady (page_serves pg)"
  have cl: "clients ?inv pg (\<lambda>_ :: unit. Map.empty)" by (rule clients_start) (use assms(1,2) in auto)
  have al: "p_mem_alloc (case Some fdb_page_alloc_super of Some a \<Rightarrow> a | None \<Rightarrow> g) = fdb_page_alloc_alloc"
    "p_mem_free (case Some fdb_page_alloc_super of Some a \<Rightarrow> a | None \<Rightarrow> g) = fdb_page_alloc_free"
    by (simp_all add: fdb_page_alloc_super_def)
  from steady_page.client_tree_init [where hdr = hdr and c = "()", OF al cl _ assms(3,4)] obtain b pg' P where
    b: "fdb_btree_init (Some fdb_page_alloc_super) g hdr pg = Inr (b, pg')" "btree_holds b []"
      "page_room pg' (BT_NODES * length cs)" "clients ?inv pg' ((\<lambda>_. Map.empty)(() := P))"
      "tree_client fdb_page_alloc_alloc fdb_page_alloc_free ?S b P" by auto
  have t: "tree_client fdb_page_alloc_alloc fdb_page_alloc_free ?S b (((\<lambda>_. Map.empty)(() := P)) ())" using b(5) by simp
  have m: "\<forall>x\<in>reg_name ` set cs. map_of [] (hash x) = Map.empty x" by simp
  obtain rs where "reg_run cs (\<lparr>hr_registry = b\<rparr>, pg') = Inr (reg_spec cs Map.empty, rs)"
    using steady_page.reg_run_sim [OF b(4) t b(3,2) assms(5,6) subset_refl m] by blast
  then show ?thesis using b(1) by (simp add: fdb_htregistry_init_def)
qed

lemma demo_names: "inj_on hash {''pos'', ''vel''}"
proof -
  have "hash ''pos'' \<noteq> hash ''vel''"
  proof
    assume a: "hash ''pos'' = hash ''vel''"
    let ?b = "map of_char :: string \<Rightarrow> u8 list" and ?h = "murmur_seed XOR 3"
    have "hash_bytes ?h (?b s) = hash s" if "length s = 3" for s using that by (simp add: hash_hash_bytes)
    then have "hash_bytes ?h (?b ''pos'') = hash_bytes ?h (?b ''vel'')" using a by (metis list.size(3,4) numeral_3_eq_3 One_nat_def add_Suc_right add_0_right)
    then have "hash_bytes ?h ([] @ ?b ''pos'' @ []) = hash_bytes ?h ([] @ ?b ''vel'' @ [])" by (simp only: append_Nil append_Nil2)
    then have "?b ''pos'' = ?b ''vel''" by (rule hash_bytes_group [rotated 3]) simp_all
    then have "''pos'' = ''vel''" by (rule inj_map_eq_map [OF of_char_u8_inj, THEN iffD1])
    then show False by simp
  qed
  then show ?thesis by (auto simp: inj_on_def)
qed

theorem htregistry_refines_map_witness:
  "\<exists>r pg' rs. fdb_htregistry_init (Some fdb_page_alloc_super) fdb_page_alloc_super (\<lambda>_. 0) demo_db_page = Inr (r, pg') \<and>
    reg_run [RegInsert ''pos'' 64, RegInsert ''vel'' 128, RegInsert ''pos'' 192, RegGet ''pos'', RegGet ''vel''] (r, pg') =
      Inr ([192, 128], rs)"
proof -
  let ?cs = "[RegInsert ''pos'' 64, RegInsert ''vel'' 128, RegInsert ''pos'' 192, RegGet ''pos'', RegGet ''vel'']"
  have room: "page_room demo_db_page (Suc (BT_NODES * length ?cs))"
    by (simp add: BT_NODES_def page_room_def demo_db_page_def)
  have legal: "\<forall>x\<in>set ?cs. reg_legal x" by simp
  have "reg_name ` set ?cs = {''pos'', ''vel''}" by auto
  then have inj: "inj_on hash (reg_name ` set ?cs)" using demo_names by simp
  have "reg_spec ?cs Map.empty = [192, 128]" by simp
  then show ?thesis
    using htregistry_refines_map [OF demo_db_page_inv(1) live_apart_empty room demo_db_page_inv(3) legal inj,
      where g = fdb_page_alloc_super and hdr = "\<lambda>_. 0"] by simp
qed

end
