(* ===== verification/StackAlloc.thy ===== *)
theory StackAlloc
  imports PoolAlloc
begin

text \<open>
  src/src/common/memory/stack_allocator.c and stack_allocator.h: allocations that are given back in
  the reverse order. Data pages are cut from the front; the addresses handed out are kept on a second
  chain of pages, the frames, so that \<open>fdb_stack_alloc_pop\<close> finds where the last allocation began.
  A frame is its header and the slots that follow it, by their offset behind the header.
\<close>

section \<open>State\<close>

record fdb_stack_alloc_fheader_t =
  fh_next_page :: ptr
  fh_previous_page :: ptr
  fh_next_free :: u32
  fh_slots :: "u32 \<rightharpoonup> ptr"   \<comment> \<open>the memory behind the header; \<open>None\<close> while it was not written\<close>

record 'st fdb_stack_alloc_t =
  sa_page_size :: u32
  sa_page_mask :: u64
  sa_allocator :: "'st fdb_mem_allocator_t"
  sa_next_page :: ptr
  sa_next_offset :: u32
  sa_last_frame :: ptr
  sa_max_frame_offset :: u32
  sa_stats :: fdb_mem_stats_t
  sa_frames :: "ptr \<rightharpoonup> fdb_stack_alloc_fheader_t"

definition sizeof_fheader :: u32 where "sizeof_fheader = 24"

text \<open>src/src/common/platform.c: \<open>\<open>__builtin_ffs\<close>\<close>, one more than the number of trailing zeros of an \<open>int\<close>, 0 for 0.\<close>

definition fdb_os_pow2_bit :: "u64 \<Rightarrow> u32" where
  "fdb_os_pow2_bit x = (let i = (ucast x :: u32) in
     if i = 0 then 0 else of_nat (length (takeWhile (\<lambda>n. \<not> bit i n) [0..<32]) + 1))"

definition fdb_stack_alloc_page_addr_decode :: "'st fdb_stack_alloc_t \<Rightarrow> ptr \<Rightarrow> ptr \<times> u32" where
  "fdb_stack_alloc_page_addr_decode salloc addr =
     (addr AND sa_page_mask salloc, ucast (addr AND NOT (sa_page_mask salloc)))"

definition fheader_at :: "(ptr \<rightharpoonup> fdb_stack_alloc_fheader_t) \<Rightarrow> ptr \<Rightarrow> fdb_stack_alloc_fheader_t res" where
  "fheader_at h p = (if p = NULL then Inl NullDeref else case h p of None \<Rightarrow> Inl BadPointer | Some f \<Rightarrow> Inr f)"

text \<open>\<open>memcpy\<close> from and to the frame data.\<close>

definition read_slot :: "'st fdb_stack_alloc_t \<Rightarrow> ptr \<Rightarrow> u32 \<Rightarrow> ptr res" where
  "read_slot salloc frame off = bind_res (fheader_at (sa_frames salloc) frame) (\<lambda>f.
     case fh_slots f off of None \<Rightarrow> Inl BadPointer | Some p \<Rightarrow> Inr p)"

section \<open>Operations\<close>

definition fdb_stack_alloc_init ::
  "u32 \<Rightarrow> 'st fdb_mem_allocator_t option \<Rightarrow> 'st fdb_mem_allocator_t \<Rightarrow> 'st fdb_stack_alloc_t" where
  "fdb_stack_alloc_init page_size allocator gallocator =
     (let shift = fdb_os_pow2_bit (ucast page_size) - 1 in
      \<lparr>sa_page_size = page_size,
       sa_page_mask = scast (NOT (push_bit (unat shift) 1 - 1) :: u32),
       sa_allocator = (case allocator of Some a \<Rightarrow> a | None \<Rightarrow> gallocator),
       sa_next_page = NULL, sa_next_offset = 0, sa_last_frame = NULL,
       sa_max_frame_offset = ucast (8 * (ucast page_size - ucast sizeof_fheader) div 8 :: u64),
       sa_stats = \<lparr>st_allocated = 0, st_lost = 0, st_used = 0\<rparr>, sa_frames = Map.empty\<rparr>)"

text \<open>A new page for the data, the first part of an allocation.\<close>

definition new_data_page :: "'st fdb_stack_alloc_t \<times> 'st \<Rightarrow> 'st fdb_stack_alloc_t \<times> 'st" where
  "new_data_page ss =
     (let (salloc, st) = ss;
          (p, st) = mem_alloc (sa_allocator salloc) st (sa_page_size salloc) (sa_page_size salloc) FDB_NO_HINT
      in (salloc\<lparr>sa_next_page := p, sa_next_offset := 0,
            sa_stats := (sa_stats salloc)\<lparr>st_allocated := st_allocated (sa_stats salloc) + ucast (sa_page_size salloc)\<rparr>\<rparr>, st))"

text \<open>The slack before an aligned address; \<open>min_alignment\<close> is an \<open>int32_t\<close>.\<close>

definition slack_of :: "'st fdb_stack_alloc_t \<Rightarrow> u32 \<Rightarrow> u32" where
  "slack_of salloc alignment =
     (let min_alignment = (if FDB_MIN_ALIGNMENT < alignment then alignment else FDB_MIN_ALIGNMENT);
          modulo = ucast ((sa_next_page salloc + ucast (sa_next_offset salloc)) AND scast (min_alignment - 1)) :: u32
      in if modulo \<noteq> 0 then min_alignment - modulo else 0)"

definition reserve_page ::
  "'st fdb_stack_alloc_t \<times> 'st \<Rightarrow> u32 \<Rightarrow> u32 \<Rightarrow> u32 \<times> ('st fdb_stack_alloc_t \<times> 'st)" where
  "reserve_page ss alignment sz =
     (let (salloc, st) = ss; slack = slack_of salloc alignment in
      if sa_page_size salloc \<le> sa_next_offset salloc + slack + sz \<or> sa_next_page salloc = NULL then
        (let (salloc, st) = new_data_page (salloc, st)
         in (0, (salloc\<lparr>sa_stats := (sa_stats salloc)\<lparr>st_used := st_used (sa_stats salloc) + 1\<rparr>\<rparr>, st)))
      else (slack, (salloc, st)))"

text \<open>A frame with a free slot. The header of a new frame is written field by field; its
  \<open>p_next_page\<close> is left as it is (and never read).\<close>

definition new_frame :: "'st fdb_stack_alloc_t \<times> 'st \<Rightarrow> ptr \<Rightarrow> ('st fdb_stack_alloc_t \<times> 'st) res" where
  "new_frame ss garbage =
     (let (salloc, st) = ss;
          (p, st) = mem_alloc (sa_allocator salloc) st (sa_page_size salloc) (sa_page_size salloc) FDB_NO_HINT;
          last = sa_last_frame salloc
      in if p = NULL then Inl NullDeref else
         bind_res (if last = NULL then Inr (sa_frames salloc)
           else bind_res (fheader_at (sa_frames salloc) last) (\<lambda>f. Inr ((sa_frames salloc)(last \<mapsto> f\<lparr>fh_next_page := p\<rparr>)))) (\<lambda>frames.
         Inr (salloc\<lparr>sa_frames := frames(p \<mapsto> \<lparr>fh_next_page = garbage, fh_previous_page = last, fh_next_free = 0,
                fh_slots = Map.empty\<rparr>), sa_last_frame := p,
              sa_stats := (sa_stats salloc)\<lparr>st_allocated := st_allocated (sa_stats salloc) + ucast (sa_page_size salloc)\<rparr>\<rparr>, st)))"

definition reserve_frame :: "'st fdb_stack_alloc_t \<times> 'st \<Rightarrow> ptr \<Rightarrow> ('st fdb_stack_alloc_t \<times> 'st) res" where
  "reserve_frame ss garbage =
     (if sa_last_frame (fst ss) = NULL then new_frame ss garbage
      else bind_res (fheader_at (sa_frames (fst ss)) (sa_last_frame (fst ss))) (\<lambda>f.
        if fh_next_free f = sa_max_frame_offset (fst ss) then new_frame ss garbage else Inr ss))"

definition push_slot :: "'st fdb_stack_alloc_t \<Rightarrow> ptr \<Rightarrow> 'st fdb_stack_alloc_t res" where
  "push_slot salloc addr =
     bind_res (fheader_at (sa_frames salloc) (sa_last_frame salloc)) (\<lambda>f.
     if unat (sa_page_size salloc) < unat sizeof_fheader + unat (fh_next_free f) + 8 then Inl OutOfBounds
     else Inr (salloc\<lparr>sa_frames := (sa_frames salloc)(sa_last_frame salloc \<mapsto>
       f\<lparr>fh_slots := (fh_slots f)(fh_next_free f \<mapsto> addr), fh_next_free := fh_next_free f + 8\<rparr>)\<rparr>))"

definition fdb_stack_alloc_alloc ::
  "ptr \<Rightarrow> 'st fdb_stack_alloc_t \<times> 'st \<Rightarrow> u32 \<Rightarrow> u32 \<Rightarrow> u32 \<Rightarrow> (ptr \<times> ('st fdb_stack_alloc_t \<times> 'st)) res" where
  "fdb_stack_alloc_alloc garbage ss alignment sz hint =
     (let (slack, ss) = reserve_page ss alignment sz in
      bind_res (reserve_frame ss garbage) (\<lambda>(salloc, st).
      let ret_addr = sa_next_page salloc + ucast (sa_next_offset salloc) + ucast slack in
      bind_res (push_slot salloc ret_addr) (\<lambda>salloc.
      let salloc = salloc\<lparr>sa_next_offset := sa_next_offset salloc + (slack + sz),
            sa_stats := (sa_stats salloc)\<lparr>st_used := st_used (sa_stats salloc) + ucast (slack + sz)\<rparr>\<rparr>
      in Inr (ret_addr, if sa_next_offset salloc = sa_page_size salloc then new_data_page (salloc, st) else (salloc, st)))))"

definition fdb_stack_alloc_free :: "'st fdb_stack_alloc_t \<times> 'st \<Rightarrow> ptr \<Rightarrow> 'st fdb_stack_alloc_t \<times> 'st" where
  "fdb_stack_alloc_free ss p = ss"

text \<open>An empty last frame is given back first; the frame below it, if there is none, is NULL.\<close>

definition drop_frame :: "'st fdb_stack_alloc_t \<times> 'st \<Rightarrow> ('st fdb_stack_alloc_t \<times> 'st) res" where
  "drop_frame ss =
     (let (salloc, st) = ss in
      bind_res (fheader_at (sa_frames salloc) (sa_last_frame salloc)) (\<lambda>f.
      if fh_next_free f = 0 then
        (let st = mem_free (sa_allocator salloc) st (sa_last_frame salloc);
             frames = (sa_frames salloc)(sa_last_frame salloc := None)
         in bind_res (fheader_at frames (fh_previous_page f)) (\<lambda>g.
            Inr (salloc\<lparr>sa_frames := frames(fh_previous_page f \<mapsto> g\<lparr>fh_next_page := NULL\<rparr>), sa_last_frame := fh_previous_page f,
              sa_stats := (sa_stats salloc)\<lparr>st_allocated := st_allocated (sa_stats salloc) - ucast (sa_page_size salloc)\<rparr>\<rparr>, st)))
      else Inr (salloc, st)))"

definition fdb_stack_alloc_pop :: "'st fdb_stack_alloc_t \<times> 'st \<Rightarrow> ptr \<Rightarrow> ('st fdb_stack_alloc_t \<times> 'st) res" where
  "fdb_stack_alloc_pop ss p =
     bind_res (drop_frame ss) (\<lambda>(salloc, st).
     bind_res (fheader_at (sa_frames salloc) (sa_last_frame salloc)) (\<lambda>f.
     bind_res (read_slot salloc (sa_last_frame salloc) (fh_next_free f - 8)) (\<lambda>pop_addr.
     let salloc = salloc\<lparr>sa_frames := (sa_frames salloc)(sa_last_frame salloc \<mapsto> f\<lparr>fh_next_free := fh_next_free f - 8\<rparr>)\<rparr>;
         (page_addr, page_offset) = fdb_stack_alloc_page_addr_decode salloc pop_addr;
         stats = sa_stats salloc;
         (stats, st) = (if sa_next_page salloc \<noteq> page_addr
           then (stats\<lparr>st_allocated := st_allocated stats - ucast (sa_page_size salloc), st_used := st_used stats - 1\<rparr>,
                 mem_free (sa_allocator salloc) st (sa_next_page salloc))
           else (stats\<lparr>st_used := st_used stats - ucast (sa_next_offset salloc - page_offset)\<rparr>, st))
     in Inr (salloc\<lparr>sa_next_page := page_addr, sa_next_offset := page_offset,
          sa_stats := stats\<lparr>st_used := st_used stats - ucast (sa_page_size salloc)\<rparr>\<rparr>, st))))"

definition fdb_stack_alloc_stats :: "'st fdb_stack_alloc_t \<Rightarrow> fdb_mem_stats_t" where
  "fdb_stack_alloc_stats salloc = (sa_stats salloc)
     \<lparr>st_used := st_used (sa_stats salloc) * ucast (sa_page_size salloc) + ucast (sa_next_offset salloc)\<rparr>"

section \<open>Flushing\<close>

text \<open>The loop over the slots. \<open>next_alloc\<close> is only read again when the offset reaches 0, where the
  previous frame starts.\<close>

fun flush_pages ::
  "nat \<Rightarrow> 'st fdb_stack_alloc_t \<Rightarrow> ptr \<Rightarrow> u32 \<Rightarrow> ptr \<Rightarrow> ptr \<Rightarrow> 'st \<Rightarrow> (ptr \<times> 'st) res" where
  "flush_pages 0 salloc frame next_offset next_alloc last_page st = Inl OutOfFuel"
| "flush_pages (Suc fuel) salloc frame next_offset next_alloc last_page st =
     (if next_alloc = NULL then Inr (last_page, st) else
      let page_addr = fst (fdb_stack_alloc_page_addr_decode salloc next_alloc);
          (last_page, st) = (if page_addr \<noteq> last_page then (page_addr, mem_free (sa_allocator salloc) st last_page) else (last_page, st));
          next_offset = next_offset - 8
      in if next_offset = 0 then
           bind_res (fheader_at (sa_frames salloc) frame) (\<lambda>f.
           let frame = fh_previous_page f in
           if frame \<noteq> NULL then
             bind_res (fheader_at (sa_frames salloc) frame) (\<lambda>g.
             bind_res (read_slot salloc frame (fh_next_free g - 8)) (\<lambda>next_alloc.
             flush_pages fuel salloc frame (fh_next_free g - 8) next_alloc last_page st))
           else flush_pages fuel salloc frame next_offset NULL last_page st)
         else flush_pages fuel salloc frame next_offset next_alloc last_page st)"

fun free_frames :: "nat \<Rightarrow> 'st fdb_stack_alloc_t \<Rightarrow> ptr \<Rightarrow> 'st \<Rightarrow> ('st fdb_stack_alloc_t \<times> 'st) res" where
  "free_frames 0 salloc frame st = Inl OutOfFuel"
| "free_frames (Suc fuel) salloc frame st =
     (if frame = NULL then Inr (salloc, st) else
      bind_res (fheader_at (sa_frames salloc) frame) (\<lambda>f.
      free_frames fuel (salloc\<lparr>sa_frames := (sa_frames salloc)(frame := None)\<rparr>) (fh_previous_page f)
        (mem_free (sa_allocator salloc) st frame)))"

text \<open>The frame at which the flush starts: the last one that is not empty.\<close>

definition flush_start :: "'st fdb_stack_alloc_t \<Rightarrow> ptr res" where
  "flush_start salloc =
     (if sa_last_frame salloc = NULL then Inr NULL
      else bind_res (fheader_at (sa_frames salloc) (sa_last_frame salloc)) (\<lambda>f.
        Inr (if fh_next_free f = 0 then fh_previous_page f else sa_last_frame salloc)))"

definition fdb_stack_alloc_flush :: "nat \<Rightarrow> 'st fdb_stack_alloc_t \<times> 'st \<Rightarrow> ('st fdb_stack_alloc_t \<times> 'st) res" where
  "fdb_stack_alloc_flush fuel ss =
     (let (salloc, st) = ss in
      bind_res (flush_start salloc) (\<lambda>frame.
      bind_res (if frame = NULL then Inr st else
        bind_res (fheader_at (sa_frames salloc) frame) (\<lambda>f.
        bind_res (read_slot salloc frame (fh_next_free f - 8)) (\<lambda>next_alloc.
        bind_res (flush_pages fuel salloc frame (fh_next_free f - 8) next_alloc
           (fst (fdb_stack_alloc_page_addr_decode salloc next_alloc)) st) (\<lambda>(last_page, st).
        Inr (mem_free (sa_allocator salloc) st last_page))))) (\<lambda>st.
      bind_res (free_frames fuel salloc (sa_last_frame salloc) st) (\<lambda>(salloc, st).
      Inr (salloc\<lparr>sa_next_offset := 0, sa_next_page := NULL, sa_last_frame := NULL,
             sa_stats := \<lparr>st_allocated = 0, st_lost = 0, st_used = 0\<rparr>\<rparr>, st)))))"

definition fdb_stack_alloc_release :: "nat \<Rightarrow> 'st fdb_stack_alloc_t \<times> 'st \<Rightarrow> ('st fdb_stack_alloc_t \<times> 'st) res" where
  "fdb_stack_alloc_release fuel ss = fdb_stack_alloc_flush fuel ss"

end
