(* ===== verification/StackSpec.thy ===== *)
theory StackSpec
  imports StackAlloc Hashtable
begin

text \<open>
  What the stack allocator promises: every allocation has memory of its own inside a live page of the
  parent, and popping them in the reverse order never fails. The abstract state is the list of
  the allocations, the last one first, each with its page, its offset and its size.
\<close>

section \<open>Offsets and pages\<close>

type_synonym allocation = "ptr \<times> nat \<times> nat"

fun addr_of :: "allocation \<Rightarrow> ptr" where "addr_of (p, off, sz) = p + of_nat off"

text \<open>\<open>stacked N pg cur xs\<close>: pages of \<open>N\<close> bytes; the next allocation goes to page \<open>pg\<close> from \<open>cur\<close> on, the
  last allocation ends before that or is in another page, and below it the same holds from its
  beginning.\<close>

fun stacked :: "nat \<Rightarrow> ptr \<Rightarrow> nat \<Rightarrow> allocation list \<Rightarrow> bool" where
  "stacked N pg cur [] \<longleftrightarrow> True"
| "stacked N pg cur ((p, off, sz) # r) \<longleftrightarrow> (if p = pg then off + sz \<le> cur else pg \<notin> fst ` set r) \<and>
     off < N \<and> off + sz \<le> N \<and> stacked N p off r"

lemma stacked_mono: "stacked N pg cur xs \<Longrightarrow> cur \<le> cur' \<Longrightarrow> stacked N pg cur' xs"
  by (cases xs) auto

lemma stacked_fresh: "stacked N pg cur xs \<Longrightarrow> pg' \<notin> fst ` set xs \<Longrightarrow> stacked N pg' 0 xs"
  by (cases xs) (auto split: if_splits)

lemma stacked_below: "stacked N pg cur xs \<Longrightarrow> (pg, off, sz) \<in> set xs \<Longrightarrow> off + sz \<le> cur"
proof (induction xs arbitrary: pg cur)
  case (Cons x r)
  obtain p o' s where x: "x = (p, o', s)" by (metis prod.collapse)
  show ?case
  proof (cases "p = pg")
    case True
    then have "off + sz \<le> o'" if "(pg, off, sz) \<in> set r" using Cons.IH [of pg o'] Cons.prems(1) that x by simp
    then show ?thesis using Cons.prems True x by fastforce
  qed (use Cons.prems x in \<open>force split: if_splits\<close>)
qed simp

text \<open>Two allocations of a stack lie apart.\<close>

definition good_page :: "(ptr \<rightharpoonup> nat) \<Rightarrow> nat \<Rightarrow> ptr \<Rightarrow> bool" where
  "good_page P N q \<longleftrightarrow> q \<noteq> NULL \<and> P q = Some N \<and> unat q + N < 2 ^ 64 \<and> N dvd unat q"

lemma addr_of_unat: "good_page P N p \<Longrightarrow> off < N \<Longrightarrow> unat (addr_of (p, off, sz)) = unat p + off"
proof -
  assume a: "good_page P N p" "off < N"
  then have "unat p + off < 18446744073709551616" by (simp add: good_page_def)
  then show ?thesis by (simp add: unat_word_ariths unat_of_nat take_bit_nat_eq_self)
qed

lemma stacked_within: "stacked N pg cur xs \<Longrightarrow> (p, off, sz) \<in> set xs \<Longrightarrow> off < N \<and> off + sz \<le> N"
  by (induction xs arbitrary: pg cur) auto

lemma stacked_apart:
  assumes "stacked N pg cur xs" "live_apart P" "\<forall>p\<in>fst ` set xs. good_page P N p"
  shows "sorted_wrt (\<lambda>a b. apart (addr_of a) (snd (snd a)) (addr_of b) (snd (snd b))) xs"
  using assms(1,3)
proof (induction xs arbitrary: pg cur)
  case (Cons x r)
  obtain p off sz where x: "x = (p, off, sz)" by (metis prod.collapse)
  have s: "stacked N p off r" "off < N" "off + sz \<le> N" and p: "good_page P N p" using Cons.prems x by auto
  have "apart (addr_of x) sz (addr_of y) (snd (snd y))" if y: "y \<in> set r" for y
  proof -
    obtain q o' s' where q: "y = (q, o', s')" by (metis prod.collapse)
    have g: "good_page P N q" using Cons.prems(2) y q by force
    have o': "o' < N" "o' + s' \<le> N" using stacked_within [OF s(1)] y q by auto
    note u = addr_of_unat [OF p s(2), of sz] addr_of_unat [OF g o'(1), of s']
    show ?thesis
    proof (cases "q = p")
      case True
      then have "o' + s' \<le> off" using stacked_below [OF s(1)] y q by blast
      then show ?thesis using u x q True by (simp add: apart_def)
    next
      case False
      then have "apart p N q N" using assms(2) p g by (auto simp: live_apart_def good_page_def)
      then show ?thesis using u s(3) o'(2) x q unfolding apart_def by auto
    qed
  qed
  moreover have "sorted_wrt (\<lambda>a b. apart (addr_of a) (snd (snd a)) (addr_of b) (snd (snd b))) r"
    by (rule Cons.IH [OF s(1)]) (use Cons.prems(2) in simp)
  ultimately show ?case using x by simp
qed simp

text \<open>The masks of a page size that is a power of two.\<close>

definition page_mask :: "nat \<Rightarrow> u64" where "page_mask k = NOT (mask k)"

lemma pow2_word: "k \<le> 30 \<Longrightarrow> unat (2 ^ k :: u32) = 2 ^ k"
proof -
  assume "k \<le> 30"
  then have "(2 :: nat) ^ k < 2 ^ 32" by (intro power_strict_increasing) simp_all
  moreover have "(2 ^ k :: u32) = of_nat (2 ^ k)" by simp
  ultimately show ?thesis by (simp add: unat_of_nat take_bit_nat_eq_self del: of_nat_power of_nat_numeral)
qed

lemma ffs_pow2: assumes "k \<le> 30" shows "fdb_os_pow2_bit (ucast (2 ^ k :: u32)) = of_nat (Suc k)"
proof -
  have u: "(ucast (ucast (2 ^ k :: u32) :: u64) :: u32) = 2 ^ k"
    using unat_u32_bound [of "2 ^ k"] by (simp add: word_unat_eq_iff unat_ucast_u64_u32)
  have b: "bit (2 ^ k :: u32) n \<longleftrightarrow> n = k" for n using assms by (auto simp: bit_exp_iff)
  have "[0..<32] = [0..<k] @ k # [Suc k..<32]"
    using assms upt_add_eq_append [of 0 k "32 - k"] by (simp add: upt_conv_Cons)
  then have "takeWhile (\<lambda>n. \<not> bit (2 ^ k :: u32) n) [0..<32] = [0..<k]"
    using b by (simp add: takeWhile_tail takeWhile_eq_all_conv)
  moreover have "(2 ^ k :: u32) \<noteq> 0" using pow2_word [OF assms] by (metis power_not_zero unat_0 zero_neq_numeral)
  ultimately show ?thesis by (simp add: fdb_os_pow2_bit_def u Let_def)
qed

lemma mask_init: assumes "k \<le> 30" shows "scast (NOT (push_bit k 1 - 1) :: u32) = page_mask k"
proof -
  have "push_bit k 1 - 1 = (mask k :: u32)" by (simp add: mask_eq_decr_exp push_bit_eq_mult)
  then show ?thesis unfolding page_mask_def
    by (intro bit_word_eqI) (use assms in \<open>auto simp: bit_simps\<close>)
qed

lemma decode_addr:
  assumes p: "good_page P (2 ^ k) p" and off: "off < 2 ^ k" and k: "k \<le> 30" and m: "sa_page_mask salloc = page_mask k"
  shows "fdb_stack_alloc_page_addr_decode salloc (addr_of (p, off, sz)) = (p, of_nat off)"
proof -
  let ?a = "addr_of (p, off, sz)"
  have u: "unat ?a = unat p + off" by (rule addr_of_unat [OF p off])
  obtain c where c: "unat p = 2 ^ k * c" using p by (auto simp: good_page_def dvd_def)
  have t: "unat (?a AND mask k) = off"
  proof -
    have "unat (?a AND mask k) = take_bit k (unat ?a)" by (simp only: take_bit_eq_mask [symmetric] unsigned_take_bit_eq)
    then show ?thesis unfolding u c take_bit_eq_mod using off by simp
  qed
  have "?a AND NOT (mask k) = ?a - (?a AND mask k)"
  proof -
    have "?a AND NOT (mask k) = push_bit k (drop_bit k ?a)" by (rule bit_word_eqI) (auto simp: bit_simps)
    moreover have "?a AND mask k = take_bit k ?a" by (simp only: take_bit_eq_mask)
    ultimately show ?thesis using bits_ident [of k ?a] by (metis add_diff_cancel_right')
  qed
  then have "unat (?a AND NOT (mask k)) = unat ?a - unat (?a AND mask k)"
    using u t by (simp add: unat_sub_if')
  then have pa: "?a AND page_mask k = p" unfolding page_mask_def by (simp add: word_unat_eq_iff u t del: addr_of.simps)
  have "unat (ucast (?a AND mask k) :: u32) = off"
  proof -
    have "off < 2 ^ 30" by (rule less_le_trans [OF off power_increasing]) (use k in simp_all)
    then show ?thesis using t by (subst unat_ucast_u64_u32) simp_all
  qed
  then have "unat (ucast (?a AND NOT (page_mask k)) :: u32) = off" by (simp add: page_mask_def del: addr_of.simps)
  moreover have "off < 2 ^ 32" by (rule less_le_trans [OF off power_increasing]) (use k in simp_all)
  then have "unat (of_nat off :: u32) = off" by (simp add: unat_of_nat take_bit_nat_eq_self)
  ultimately have "ucast (?a AND NOT (page_mask k)) = (of_nat off :: u32)" by (simp only: word_unat_eq_iff)
  then show ?thesis unfolding fdb_stack_alloc_page_addr_decode_def m using pa by simp
qed

section \<open>Frames\<close>

text \<open>One frame with \<open>n\<close> addresses, the last of them first in the list.\<close>

definition frame_rep :: "(ptr \<rightharpoonup> fdb_stack_alloc_fheader_t) \<Rightarrow> ptr \<Rightarrow> ptr \<Rightarrow> nat \<Rightarrow> ptr list \<Rightarrow> bool" where
  "frame_rep h q prev n as \<longleftrightarrow> q \<noteq> NULL \<and> length as = n \<and> (\<exists>f. h q = Some f \<and> fh_previous_page f = prev \<and>
     fh_next_free f = of_nat (8 * n) \<and> (\<forall>i<n. fh_slots f (of_nat (8 * i)) = Some (as ! (n - 1 - i))))"

text \<open>Full frames below, at most \<open>c\<close> addresses in the last one.\<close>

fun full_frames :: "nat \<Rightarrow> (ptr \<rightharpoonup> fdb_stack_alloc_fheader_t) \<Rightarrow> ptr \<Rightarrow> ptr list \<Rightarrow> ptr list \<Rightarrow> bool" where
  "full_frames c h p [] as \<longleftrightarrow> p = NULL \<and> as = []"
| "full_frames c h p (q # qs) as \<longleftrightarrow> p = q \<and> q \<notin> set qs \<and> c \<le> length as \<and>
     (\<exists>prev. frame_rep h q prev c (take c as) \<and> full_frames c h prev qs (drop c as))"

definition frames_hold :: "nat \<Rightarrow> (ptr \<rightharpoonup> fdb_stack_alloc_fheader_t) \<Rightarrow> ptr \<Rightarrow> ptr list \<Rightarrow> ptr list \<Rightarrow> bool" where
  "frames_hold c h p qs as \<longleftrightarrow> (case qs of [] \<Rightarrow> p = NULL \<and> as = []
     | q # qs \<Rightarrow> p = q \<and> q \<notin> set qs \<and> (\<exists>n prev. n \<le> c \<and> n \<le> length as \<and> frame_rep h q prev n (take n as) \<and>
         full_frames c h prev qs (drop n as)))"

lemma frame_rep_frame: "h' q = h q \<Longrightarrow> frame_rep h' q prev n as = frame_rep h q prev n as"
  by (simp add: frame_rep_def)

lemma full_frames_frame: "(\<And>q. q \<in> set qs \<Longrightarrow> h' q = h q) \<Longrightarrow> full_frames c h' p qs as = full_frames c h p qs as"
proof (induction qs arbitrary: p as)
  case (Cons q qs)
  have "frame_rep h' q prev n as = frame_rep h q prev n as" for prev n as by (rule frame_rep_frame) (use Cons.prems in simp)
  then show ?case using Cons by simp
qed simp

lemma full_frames_hold: "full_frames c h p qs as \<Longrightarrow> frames_hold c h p qs as"
  by (cases qs) (auto simp: frames_hold_def)

lemma frame_rep_push:
  assumes "frame_rep h q prev n as" "h q = Some f" "8 * n < 2 ^ 32 - 8"
  shows "fh_next_free f = of_nat (8 * n)"
    "frame_rep (h(q \<mapsto> f\<lparr>fh_slots := (fh_slots f)(fh_next_free f \<mapsto> a), fh_next_free := fh_next_free f + 8\<rparr>)) q prev (Suc n) (a # as)"
proof -
  show n: "fh_next_free f = of_nat (8 * n)" using assms(1,2) by (simp add: frame_rep_def)
  have inj: "(of_nat (8 * i) :: u32) = of_nat (8 * j) \<longleftrightarrow> i = j" if "i \<le> n" "j \<le> n" for i j
  proof -
    have "8 * i < 2 ^ 32" "8 * j < 2 ^ 32" using that assms(3) by linarith+
    then have "unat (of_nat (8 * i) :: u32) = 8 * i" "unat (of_nat (8 * j) :: u32) = 8 * j"
      by (simp_all add: unat_of_nat take_bit_nat_eq_self del: of_nat_mult)
    then show ?thesis by (metis mult_left_cancel zero_neq_numeral)
  qed
  have "((fh_slots f)(of_nat (8 * n) \<mapsto> a)) (of_nat (8 * i)) = Some ((a # as) ! (n - i))" if "i < Suc n" for i
  proof (cases "i = n")
    case False
    then have "i < n" using that by simp
    then have "n - i = Suc (n - 1 - i)" by simp
    then show ?thesis using assms(1,2) \<open>i < n\<close> inj [of i n] by (simp add: frame_rep_def del: of_nat_mult)
  qed simp
  then show "frame_rep (h(q \<mapsto> f\<lparr>fh_slots := (fh_slots f)(fh_next_free f \<mapsto> a), fh_next_free := fh_next_free f + 8\<rparr>)) q prev (Suc n) (a # as)"
    using assms(1,2) unfolding n frame_rep_def by (simp add: add.commute)
qed

lemma frame_rep_pop:
  assumes "frame_rep h q prev (Suc n) (a # as)" "h q = Some f" "8 * Suc n < 2 ^ 32"
  shows "fh_next_free f - 8 = of_nat (8 * n)" "fh_slots f (of_nat (8 * n)) = Some a"
    "frame_rep (h(q \<mapsto> f\<lparr>fh_next_free := fh_next_free f - 8\<rparr>)) q prev n as"
proof -
  show n: "fh_next_free f - 8 = of_nat (8 * n)" using assms(1,2) by (simp add: frame_rep_def)
  have s: "fh_slots f (of_nat (8 * i)) = Some ((a # as) ! (n - i))" if "i < Suc n" for i
    using assms(1,2) that by (simp add: frame_rep_def)
  show "fh_slots f (of_nat (8 * n)) = Some a" using s [of n] by simp
  have "fh_slots f (of_nat (8 * i)) = Some (as ! (n - 1 - i))" if "i < n" for i
  proof -
    have "n - i = Suc (n - 1 - i)" using that by simp
    then show ?thesis using s [of i] that by simp
  qed
  then show "frame_rep (h(q \<mapsto> f\<lparr>fh_next_free := fh_next_free f - 8\<rparr>)) q prev n as"
    using assms(1,2) unfolding n frame_rep_def by simp
qed

section \<open>The invariant\<close>

text \<open>Page size \<open>2 ^ k\<close>; \<open>xs\<close> are the allocations, \<open>fs\<close> the frames and \<open>P\<close> what the parent has
  handed out.\<close>

definition frame_cap :: "nat \<Rightarrow> nat" where "frame_cap k = (2 ^ k - 24) div 8"

definition stack_config :: "('st \<Rightarrow> u32 \<Rightarrow> u32 \<Rightarrow> u32 \<Rightarrow> ptr \<times> 'st) \<Rightarrow> ('st \<Rightarrow> ptr \<Rightarrow> 'st) \<Rightarrow> nat \<Rightarrow> 'st fdb_stack_alloc_t \<Rightarrow> bool" where
  "stack_config alloc free k s \<longleftrightarrow> 5 \<le> k \<and> k \<le> 30 \<and> sa_page_size s = 2 ^ k \<and> sa_page_mask s = page_mask k \<and>
     sa_max_frame_offset s = of_nat (2 ^ k - 24) \<and> p_mem_alloc (sa_allocator s) = alloc \<and> p_mem_free (sa_allocator s) = free"

definition stack_layout :: "nat \<Rightarrow> 'st fdb_stack_alloc_t \<Rightarrow> allocation list \<Rightarrow> ptr list \<Rightarrow> (ptr \<rightharpoonup> nat) \<Rightarrow> bool" where
  "stack_layout k s xs fs P \<longleftrightarrow>
     stacked (2 ^ k) (sa_next_page s) (unat (sa_next_offset s)) xs \<and> unat (sa_next_offset s) \<le> 2 ^ k \<and>
     (sa_next_page s \<noteq> NULL \<longrightarrow> good_page P (2 ^ k) (sa_next_page s)) \<and> (xs \<noteq> [] \<longrightarrow> sa_next_page s \<noteq> NULL) \<and>
     (\<forall>p\<in>fst ` set xs. good_page P (2 ^ k) p) \<and>
     (\<forall>q\<in>set fs. P q = Some (2 ^ k) \<and> q \<noteq> sa_next_page s \<and> q \<notin> fst ` set xs) \<and>
     frames_hold (frame_cap k) (sa_frames s) (sa_last_frame s) fs (map addr_of xs)"

definition stack_inv ::
  "('st \<Rightarrow> u32 \<Rightarrow> u32 \<Rightarrow> u32 \<Rightarrow> ptr \<times> 'st) \<Rightarrow> ('st \<Rightarrow> ptr \<Rightarrow> 'st) \<Rightarrow> ('st \<Rightarrow> (ptr \<rightharpoonup> nat) \<Rightarrow> bool) \<Rightarrow> ('st \<Rightarrow> u32 \<Rightarrow> u32 \<Rightarrow> bool) \<Rightarrow>
   nat \<Rightarrow> 'st fdb_stack_alloc_t \<times> 'st \<Rightarrow> allocation list \<Rightarrow> ptr list \<Rightarrow> (ptr \<rightharpoonup> nat) \<Rightarrow> bool" where
  "stack_inv alloc free ainv serves k ss xs fs P \<longleftrightarrow> (case ss of (s, st) \<Rightarrow>
     stack_config alloc free k s \<and> ainv st P \<and> live_apart P \<and> serves st (2 ^ k) (2 ^ k) \<and> stack_layout k s xs fs P)"

lemma pow_bounds:
  assumes "5 \<le> k" "k \<le> 30"
  shows "(32 :: nat) \<le> 2 ^ k" "(2 :: nat) ^ k \<le> 2 ^ 30" "8 * frame_cap k = 2 ^ k - 24"
proof -
  show "(32 :: nat) \<le> 2 ^ k" using power_increasing [of 5 k "2 :: nat"] assms by simp
  show "(2 :: nat) ^ k \<le> 2 ^ 30" by (rule power_increasing) (use assms in simp_all)
  have "(2 :: nat) ^ k = 2 ^ (3 + (k - 3))" using assms by simp
  then have "(2 :: nat) ^ k = 2 ^ 3 * 2 ^ (k - 3)" by (simp only: power_add)
  then have "8 dvd (2 :: nat) ^ k - 24" by (intro dvd_diff_nat) simp_all
  then show "8 * frame_cap k = 2 ^ k - 24" by (simp add: frame_cap_def)
qed

lemma page_size_nat: "stack_config alloc free k s \<Longrightarrow> unat (sa_page_size s) = 2 ^ k"
  by (simp add: stack_config_def pow2_word)

context mem_provider
begin

abbreviation "stk_inv \<equiv> stack_inv alloc free ainv serves"

lemma page_alloc_spec:
  assumes i: "stk_inv k (s, st) xs fs P" and room: "room st (Suc n)"
    and a: "mem_alloc (sa_allocator s) st (sa_page_size s) (sa_page_size s) FDB_NO_HINT = (p, st')"
  shows "p \<notin> dom P" "good_page (P(p \<mapsto> 2 ^ k)) (2 ^ k) p" "ainv st' (P(p \<mapsto> 2 ^ k))" "live_apart (P(p \<mapsto> 2 ^ k))"
    "serves st' (2 ^ k) (2 ^ k)" "room st' n"
proof -
  have c: "stack_config alloc free k s" and inv: "ainv st P" "live_apart P" "serves st (2 ^ k) (2 ^ k)"
    using i by (simp_all add: stack_inv_def)
  have ps: "sa_page_size s = 2 ^ k" "unat (2 ^ k :: u32) = 2 ^ k" using c page_size_nat [OF c] by (simp_all add: stack_config_def)
  have r: "alloc st (2 ^ k) (2 ^ k) FDB_NO_HINT = (p, st')" using a c by (simp add: mem_alloc_def stack_config_def)
  note laws = alloc_fits [OF inv(1) room inv(3) r] alloc_aligned [OF inv(1) room inv(3) r] alloc_inv [OF inv(1) room inv(3) r]
    alloc_room [OF inv(1) room inv(3) r] alloc_serves [OF inv(1) room inv(3) r]
  show "p \<notin> dom P" by (rule fits_dom [OF laws(1)])
  show "good_page (P(p \<mapsto> 2 ^ k)) (2 ^ k) p" using laws(1,2) unfolding ps(2) by (simp add: good_page_def fits_def)
  show "ainv st' (P(p \<mapsto> 2 ^ k))" using laws(3) unfolding ps(2) .
  show "live_apart (P(p \<mapsto> 2 ^ k))" using live_apart_alloc [OF inv(2) laws(1)] unfolding ps(2) .
  show "serves st' (2 ^ k) (2 ^ k)" using laws(5) inv(3) by simp
  show "room st' n" by (rule laws(4))
qed

lemma good_page_new: "good_page P N q \<Longrightarrow> p \<notin> dom P \<Longrightarrow> good_page (P(p \<mapsto> m)) N q"
  by (auto simp: good_page_def)

lemma new_data_page_spec:
  assumes i: "stk_inv k (s, st) xs fs P" and room: "room st (Suc n)"
  shows "\<exists>s' st' P'. new_data_page (s, st) = (s', st') \<and> stk_inv k (s', st') xs fs P' \<and> room st' n \<and>
    sa_next_page s' \<noteq> NULL \<and> sa_next_offset s' = 0 \<and> good_page P' (2 ^ k) (sa_next_page s') \<and> sa_frames s' = sa_frames s \<and>
    sa_last_frame s' = sa_last_frame s"
proof -
  obtain p st' where a: "mem_alloc (sa_allocator s) st (sa_page_size s) (sa_page_size s) FDB_NO_HINT = (p, st')" by fastforce
  note p = page_alloc_spec [OF i room a]
  have c: "stack_config alloc free k s" and l: "stack_layout k s xs fs P" using i by (simp_all add: stack_inv_def)
  let ?s = "fst (new_data_page (s, st))"
  have s: "new_data_page (s, st) = (?s, st')" "sa_next_page ?s = p" "sa_next_offset ?s = 0" "sa_frames ?s = sa_frames s"
    "sa_last_frame ?s = sa_last_frame s" and c': "stack_config alloc free k ?s"
    using a c by (simp_all add: new_data_page_def stack_config_def)
  have new: "p \<notin> fst ` set xs" "p \<notin> set fs" using l p(1) by (auto simp: stack_layout_def good_page_def)
  have "stacked (2 ^ k) p 0 xs" using l new(1) by (auto simp: stack_layout_def intro: stacked_fresh)
  moreover have "good_page (P(p \<mapsto> 2 ^ k)) (2 ^ k) q" if "q \<in> fst ` set xs" for q
    using l that good_page_new [OF _ p(1)] by (auto simp: stack_layout_def)
  moreover have "p \<noteq> NULL" using p(2) by (simp add: good_page_def)
  ultimately have "stack_layout k ?s xs fs (P(p \<mapsto> 2 ^ k))"
    unfolding stack_layout_def s(2-5) using l p(2) new(2) by (auto simp: stack_layout_def)
  then have "stk_inv k (?s, st') xs fs (P(p \<mapsto> 2 ^ k))" using c' p(3-5) by (simp add: stack_inv_def del: fun_upd_apply)
  then show ?thesis using s(1,4,5) s(2,3) p(2,6) \<open>p \<noteq> NULL\<close> by (intro exI [of _ ?s] exI [of _ st'] exI [of _ "P(p \<mapsto> 2 ^ k)"]) (simp del: fun_upd_apply)
qed

end

section \<open>An allocation\<close>

lemma slack_spec:
  assumes j: "j \<le> 30" and nw: "unat (sa_next_page s) + unat (sa_next_offset s) < 2 ^ 64"
  shows "2 ^ j dvd unat (sa_next_page s) + unat (sa_next_offset s) + unat (slack_of s (2 ^ j))"
    "unat (slack_of s (2 ^ j)) < 2 ^ max 4 j"
proof -
  define m where "m = max 4 j"
  let ?a = "unat (sa_next_page s) + unat (sa_next_offset s)"
  have m: "m \<le> 30" "4 \<le> m" "j \<le> m" using j by (simp_all add: m_def)
  have al: "(if FDB_MIN_ALIGNMENT < 2 ^ j then 2 ^ j else FDB_MIN_ALIGNMENT) = (2 ^ m :: u32)"
  proof (cases "4 < j")
    case True
    have "(2 :: nat) ^ 4 < 2 ^ j" by (rule power_strict_increasing [OF True]) simp
    then have "FDB_MIN_ALIGNMENT < 2 ^ j" using pow2_word [OF j] by (simp add: FDB_MIN_ALIGNMENT_def word_less_nat_alt)
    then show ?thesis using True by (simp add: m_def)
  next
    case False
    have "(2 :: nat) ^ j \<le> 2 ^ 4" by (rule power_increasing) (use False in simp_all)
    then have "\<not> FDB_MIN_ALIGNMENT < 2 ^ j" using pow2_word [OF j] by (simp add: FDB_MIN_ALIGNMENT_def word_less_nat_alt)
    then show ?thesis using False by (simp add: m_def FDB_MIN_ALIGNMENT_def)
  qed
  have "(2 ^ m - 1 :: u32) = mask m" by (simp add: mask_eq_decr_exp)
  then have sc: "(scast (2 ^ m - 1 :: u32) :: u64) = mask m"
    by (intro bit_word_eqI) (use m(1) in \<open>auto simp: bit_simps\<close>)
  have lt: "?a < 18446744073709551616" using nw by simp
  have a: "unat (sa_next_page s + ucast (sa_next_offset s)) = ?a" using lt by (simp add: unat_word_ariths)
  have "unat ((sa_next_page s + ucast (sa_next_offset s)) AND mask m) = take_bit m ?a"
    by (simp only: take_bit_eq_mask [symmetric] unsigned_take_bit_eq a)
  then have r: "unat ((sa_next_page s + ucast (sa_next_offset s)) AND mask m) = ?a mod 2 ^ m" by (simp add: take_bit_eq_mod)
  have p30: "(2 :: nat) ^ m \<le> 2 ^ 30" by (rule power_increasing [OF m(1)]) simp
  then have rl: "?a mod 2 ^ m < 2 ^ 30" by (rule less_le_trans [rotated]) simp
  define md where "md = (ucast ((sa_next_page s + ucast (sa_next_offset s)) AND mask m) :: u32)"
  have md: "unat md = ?a mod 2 ^ m" unfolding md_def using rl r by (subst unat_ucast_u64_u32) simp_all
  have sl: "slack_of s (2 ^ j) = (if md \<noteq> 0 then 2 ^ m - md else 0)" by (simp add: slack_of_def al sc md_def)
  have u: "unat (slack_of s (2 ^ j)) = (if ?a mod 2 ^ m = 0 then 0 else 2 ^ m - ?a mod 2 ^ m)"
  proof (cases "md = 0")
    case True
    then show ?thesis using md sl by simp
  next
    case False
    have "md \<le> 2 ^ m" using md pow2_word [OF m(1)] by (simp add: word_le_nat_alt less_imp_le)
    then have "unat (2 ^ m - md) = unat (2 ^ m :: u32) - unat md" by (rule unat_sub)
    moreover have "?a mod 2 ^ m \<noteq> 0" using False md by (metis unat_eq_zero)
    ultimately show ?thesis using False md sl pow2_word [OF m(1)] by simp
  qed
  then show "unat (slack_of s (2 ^ j)) < 2 ^ max 4 j" by (simp add: m_def)
  have "(?a + unat (slack_of s (2 ^ j))) mod 2 ^ m = 0"
  proof (cases "?a mod 2 ^ m = 0")
    case False
    have "?a + (2 ^ m - ?a mod 2 ^ m) = (?a div 2 ^ m) * 2 ^ m + 2 ^ m"
      using div_mult_mod_eq [of ?a "2 ^ m"] mod_less_divisor [of "2 ^ m" ?a] by simp
    then show ?thesis unfolding u using False by (simp only: if_False) simp
  qed (use u in simp)
  then have "2 ^ m dvd ?a + unat (slack_of s (2 ^ j))" by (simp add: dvd_eq_mod_eq_0)
  then show "2 ^ j dvd ?a + unat (slack_of s (2 ^ j))" using le_imp_power_dvd [OF m(3), of 2] by (rule dvd_trans [rotated])
qed

context mem_provider
begin

lemma reserve_page_spec:
  assumes i: "stk_inv k (s, st) xs fs P" and room: "room st (Suc n)" and sz: "unat sz \<le> 2 ^ k" and j: "j \<le> k"
  shows "\<exists>slack s' st' P'. reserve_page (s, st) (2 ^ j) sz = (slack, (s', st')) \<and> stk_inv k (s', st') xs fs P' \<and> room st' n \<and>
    good_page P' (2 ^ k) (sa_next_page s') \<and> unat (sa_next_offset s') + unat slack < 2 ^ k \<and>
    unat (sa_next_offset s') + unat slack + unat sz \<le> 2 ^ k \<and>
    2 ^ j dvd unat (sa_next_page s') + unat (sa_next_offset s') + unat slack"
proof -
  have c: "stack_config alloc free k s" and l: "stack_layout k s xs fs P" using i by (simp_all add: stack_inv_def)
  have k: "5 \<le> k" "k \<le> 30" using c by (simp_all add: stack_config_def)
  note b = pow_bounds [OF k]
  have off: "unat (sa_next_offset s) \<le> 2 ^ k" using l by (simp add: stack_layout_def)
  let ?sl = "slack_of s (2 ^ j)"
  show ?thesis
  proof (cases "sa_page_size s \<le> sa_next_offset s + ?sl + sz \<or> sa_next_page s = NULL")
    case True
    from new_data_page_spec [OF i room] obtain s' st' P' where
      d: "new_data_page (s, st) = (s', st')" "stk_inv k (s', st') xs fs P'" "room st' n" "sa_next_offset s' = 0"
        "good_page P' (2 ^ k) (sa_next_page s')" by blast
    let ?s = "s'\<lparr>sa_stats := (sa_stats s')\<lparr>st_used := st_used (sa_stats s') + 1\<rparr>\<rparr>"
    have "reserve_page (s, st) (2 ^ j) sz = (0, (?s, st'))" using True d(1) by (simp add: reserve_page_def)
    moreover have "stk_inv k (?s, st') xs fs P'" using d(2) by (simp add: stack_inv_def stack_config_def stack_layout_def)
    moreover have "2 ^ j dvd unat (sa_next_page s')"
      using d(5) le_imp_power_dvd [OF j, of "2 :: nat"] by (auto simp: good_page_def intro: dvd_trans)
    ultimately show ?thesis using d(3-5) sz
      by (intro exI [of _ 0] exI [of _ ?s] exI [of _ st'] exI [of _ P']) simp
  next
    case False
    then have g: "good_page P (2 ^ k) (sa_next_page s)" using l by (simp add: stack_layout_def)
    have nw: "unat (sa_next_page s) + unat (sa_next_offset s) < 2 ^ 64" using g off by (simp add: good_page_def)
    have j30: "j \<le> 30" using j k by simp
    note sl = slack_spec [OF j30 nw]
    have "(2 :: nat) ^ max 4 j \<le> 2 ^ k" by (rule power_increasing) (use j k in simp_all)
    then have s2: "unat ?sl < 2 ^ k" using sl(2) by linarith
    have "unat (sa_next_offset s) + unat ?sl + unat sz < 2 ^ 32" using off s2 sz b(2) by simp
    then have "unat (sa_next_offset s + ?sl + sz) = unat (sa_next_offset s) + unat ?sl + unat sz"
      by (simp add: unat_word_ariths)
    then have lt: "unat (sa_next_offset s) + unat ?sl + unat sz < 2 ^ k"
      using False page_size_nat [OF c] by (simp add: word_le_nat_alt)
    have "reserve_page (s, st) (2 ^ j) sz = (?sl, (s, st))" using False by (simp add: reserve_page_def)
    then show ?thesis using i room_mono [OF room] g lt sl(1)
      by (intro exI [of _ ?sl] exI [of _ s] exI [of _ st] exI [of _ P]) simp
  qed
qed

end

text \<open>The last frame and the number \<open>m\<close> of the addresses in it.\<close>

definition top_frame :: "nat \<Rightarrow> 'st fdb_stack_alloc_t \<Rightarrow> allocation list \<Rightarrow> ptr list \<Rightarrow> nat \<Rightarrow> bool" where
  "top_frame k s xs fs m \<longleftrightarrow> (\<exists>q qs prev. fs = q # qs \<and> sa_last_frame s = q \<and> q \<notin> set qs \<and> m \<le> length xs \<and>
     frame_rep (sa_frames s) q prev m (take m (map addr_of xs)) \<and>
     full_frames (frame_cap k) (sa_frames s) prev qs (drop m (map addr_of xs)))"

lemma top_frame_hold: "top_frame k s xs fs m \<Longrightarrow> m \<le> frame_cap k \<Longrightarrow> frames_hold (frame_cap k) (sa_frames s) (sa_last_frame s) fs (map addr_of xs)"
  unfolding top_frame_def frames_hold_def by (elim exE conjE) (simp, blast)

lemma layout_top:
  assumes "stack_layout k s xs fs P"
  shows "(fs = [] \<and> xs = [] \<and> sa_last_frame s = NULL) \<or> (\<exists>m\<le>frame_cap k. top_frame k s xs fs m)"
  using assms by (cases fs) (auto simp: stack_layout_def frames_hold_def top_frame_def)

lemma top_frame_at: "top_frame k s xs fs m \<Longrightarrow> \<exists>f. fheader_at (sa_frames s) (sa_last_frame s) = Inr f \<and>
    sa_frames s (sa_last_frame s) = Some f \<and> fh_next_free f = of_nat (8 * m)"
  by (auto simp: top_frame_def frame_rep_def fheader_at_def)

lemma slots_word: "5 \<le> k \<Longrightarrow> k \<le> 30 \<Longrightarrow> m \<le> frame_cap k \<Longrightarrow> (of_nat (8 * m) :: u32) = of_nat (2 ^ k - 24) \<longleftrightarrow> m = frame_cap k"
proof -
  assume k: "5 \<le> k" "k \<le> 30" and m: "m \<le> frame_cap k"
  note b = pow_bounds [OF k]
  have "8 * m \<le> 2 ^ k - 24" using m b(3) by linarith
  then have "8 * m < 2 ^ 32" "(2 :: nat) ^ k - 24 < 2 ^ 32" using b(2) by simp_all
  then have "unat (of_nat (8 * m) :: u32) = 8 * m" "unat (of_nat (2 ^ k - 24) :: u32) = 2 ^ k - 24"
    by (simp_all add: unat_of_nat take_bit_nat_eq_self del: of_nat_mult of_nat_diff)
  then have "(of_nat (8 * m) :: u32) = of_nat (2 ^ k - 24) \<longleftrightarrow> 8 * m = 2 ^ k - 24" by (metis word_unat_eq_iff)
  then show ?thesis using b(3) by linarith
qed

lemma layout_frames:
  assumes "stack_layout k s xs fs P" "sa_next_page s' = sa_next_page s" "sa_next_offset s' = sa_next_offset s"
    and "\<forall>q\<in>set fs'. P' q = Some (2 ^ k) \<and> q \<noteq> sa_next_page s \<and> q \<notin> fst ` set xs"
    and "\<And>q. q \<in> fst ` set xs \<or> q = sa_next_page s \<Longrightarrow> good_page P (2 ^ k) q \<Longrightarrow> good_page P' (2 ^ k) q"
    and "frames_hold (frame_cap k) (sa_frames s') (sa_last_frame s') fs' (map addr_of xs)"
  shows "stack_layout k s' xs fs' P'"
proof -
  have l: "stacked (2 ^ k) (sa_next_page s) (unat (sa_next_offset s)) xs" "unat (sa_next_offset s) \<le> 2 ^ k"
    "sa_next_page s \<noteq> NULL \<longrightarrow> good_page P (2 ^ k) (sa_next_page s)" "xs \<noteq> [] \<longrightarrow> sa_next_page s \<noteq> NULL"
    "\<forall>p\<in>fst ` set xs. good_page P (2 ^ k) p" using assms(1) by (simp_all add: stack_layout_def)
  then have "sa_next_page s \<noteq> NULL \<longrightarrow> good_page P' (2 ^ k) (sa_next_page s)" "\<forall>p\<in>fst ` set xs. good_page P' (2 ^ k) p"
    using assms(5) by simp_all
  then show ?thesis unfolding stack_layout_def assms(2,3) using l assms(4,6) by simp
qed

context mem_provider
begin

lemma new_frame_spec:
  assumes i: "stk_inv k (s, st) xs fs P" and room: "room st (Suc n)"
    and full: "full_frames (frame_cap k) (sa_frames s) (sa_last_frame s) fs (map addr_of xs)"
  shows "\<exists>s' st' P' fs'. new_frame (s, st) garbage = Inr (s', st') \<and> stk_inv k (s', st') xs fs' P' \<and> room st' n \<and>
    sa_next_page s' = sa_next_page s \<and> sa_next_offset s' = sa_next_offset s \<and> top_frame k s' xs fs' 0"
proof -
  obtain p st' where a: "mem_alloc (sa_allocator s) st (sa_page_size s) (sa_page_size s) FDB_NO_HINT = (p, st')" by fastforce
  note p = page_alloc_spec [OF i room a]
  have c: "stack_config alloc free k s" and l: "stack_layout k s xs fs P" using i by (simp_all add: stack_inv_def)
  have pn: "p \<noteq> NULL" using p(2) by (simp add: good_page_def)
  have old: "p \<notin> set fs" "p \<notin> fst ` set xs" "p \<noteq> sa_next_page s"
    using l p(1) pn by (auto simp: stack_layout_def good_page_def)
  define frames where "frames = (if sa_last_frame s = NULL then sa_frames s else
    (sa_frames s)(sa_last_frame s \<mapsto> (the (sa_frames s (sa_last_frame s)))\<lparr>fh_next_page := p\<rparr>))"
  have fr: "(if sa_last_frame s = NULL then Inr (sa_frames s) else bind_res (fheader_at (sa_frames s) (sa_last_frame s))
      (\<lambda>f. Inr ((sa_frames s)(sa_last_frame s \<mapsto> f\<lparr>fh_next_page := p\<rparr>)))) = Inr frames"
    using full by (cases fs) (auto simp: frames_def frame_rep_def fheader_at_def)
  have rep: "frame_rep frames q prev m as" if "frame_rep (sa_frames s) q prev m as" for q prev m as
    using that by (auto simp: frames_def frame_rep_def)
  have "full_frames (frame_cap k) frames p' qs as" if "full_frames (frame_cap k) (sa_frames s) p' qs as" for p' qs as
    using that
  proof (induction qs arbitrary: p' as)
    case (Cons q qs)
    then show ?case unfolding full_frames.simps using rep by blast
  qed simp
  then have full': "full_frames (frame_cap k) frames (sa_last_frame s) fs (map addr_of xs)" using full by blast
  let ?hd = "\<lparr>fh_next_page = garbage, fh_previous_page = sa_last_frame s, fh_next_free = 0, fh_slots = Map.empty\<rparr>"
  let ?s = "s\<lparr>sa_frames := frames(p \<mapsto> ?hd), sa_last_frame := p,
      sa_stats := (sa_stats s)\<lparr>st_allocated := st_allocated (sa_stats s) + ucast (sa_page_size s)\<rparr>\<rparr>"
  have run: "new_frame (s, st) garbage = Inr (?s, st')"
    using a fr pn by (simp add: new_frame_def del: fun_upd_apply)
  have "full_frames (frame_cap k) (frames(p \<mapsto> ?hd)) (sa_last_frame s) fs (map addr_of xs)"
    using full' old(1) by (subst full_frames_frame) auto
  then have top: "top_frame k ?s xs (p # fs) 0" unfolding top_frame_def using pn old(1)
    by (intro exI [of _ p] exI [of _ fs] exI [of _ "sa_last_frame s"]) (simp add: frame_rep_def)
  have "stack_layout k ?s xs (p # fs) (P(p \<mapsto> 2 ^ k))"
  proof (rule layout_frames [OF l])
    show "frames_hold (frame_cap k) (sa_frames ?s) (sa_last_frame ?s) (p # fs) (map addr_of xs)"
      by (rule top_frame_hold [OF top]) simp
    show "\<forall>q\<in>set (p # fs). (P(p \<mapsto> 2 ^ k)) q = Some (2 ^ k) \<and> q \<noteq> sa_next_page s \<and> q \<notin> fst ` set xs"
      using l old by (auto simp: stack_layout_def)
    show "good_page P (2 ^ k) q \<Longrightarrow> good_page (P(p \<mapsto> 2 ^ k)) (2 ^ k) q" for q by (rule good_page_new [OF _ p(1)])
  qed simp_all
  then have "stk_inv k (?s, st') xs (p # fs) (P(p \<mapsto> 2 ^ k))"
    using c p(3-5) by (simp add: stack_inv_def stack_config_def del: fun_upd_apply)
  then show ?thesis using run p(6) top
    by (intro exI [of _ ?s] exI [of _ st'] exI [of _ "P(p \<mapsto> 2 ^ k)"] exI [of _ "p # fs"]) simp
qed

lemma reserve_frame_spec:
  assumes i: "stk_inv k (s, st) xs fs P" and room: "room st (Suc n)"
  shows "\<exists>s' st' P' fs' m. reserve_frame (s, st) garbage = Inr (s', st') \<and> stk_inv k (s', st') xs fs' P' \<and> room st' n \<and>
    sa_next_page s' = sa_next_page s \<and> sa_next_offset s' = sa_next_offset s \<and> top_frame k s' xs fs' m \<and> m < frame_cap k"
proof -
  have c: "stack_config alloc free k s" and l: "stack_layout k s xs fs P" using i by (simp_all add: stack_inv_def)
  have k: "5 \<le> k" "k \<le> 30" using c by (simp_all add: stack_config_def)
  have cap: "0 < frame_cap k" using pow_bounds [OF k] by simp
  have new: ?thesis if "reserve_frame (s, st) garbage = new_frame (s, st) garbage"
    "full_frames (frame_cap k) (sa_frames s) (sa_last_frame s) fs (map addr_of xs)"
    using new_frame_spec [OF i room that(2), of garbage] that(1) cap by metis
  show ?thesis
  proof (cases "fs = [] \<and> xs = [] \<and> sa_last_frame s = NULL")
    case True
    then show ?thesis by (intro new) (simp_all add: reserve_frame_def)
  next
    case False
    then obtain m where m: "m \<le> frame_cap k" "top_frame k s xs fs m" using layout_top [OF l] by blast
    then obtain f where f: "fheader_at (sa_frames s) (sa_last_frame s) = Inr f" "fh_next_free f = of_nat (8 * m)"
      using top_frame_at by blast
    have nn: "sa_last_frame s \<noteq> NULL" using f(1) by (auto simp: fheader_at_def)
    have eq: "fh_next_free f = sa_max_frame_offset s \<longleftrightarrow> m = frame_cap k"
      using slots_word [OF k m(1)] f(2) c by (simp add: stack_config_def)
    show ?thesis
    proof (cases "m = frame_cap k")
      case True
      then have "full_frames (frame_cap k) (sa_frames s) (sa_last_frame s) fs (map addr_of xs)"
        using m(2) by (auto simp: top_frame_def)
      moreover have "reserve_frame (s, st) garbage = new_frame (s, st) garbage"
        using f(1) nn eq True by (simp add: reserve_frame_def)
      ultimately show ?thesis by (intro new)
    next
      case ne: False
      then have "reserve_frame (s, st) garbage = Inr (s, st)" using f(1) nn eq by (simp add: reserve_frame_def)
      then show ?thesis using i room_mono [OF room] m ne
        by (intro exI [of _ s] exI [of _ st] exI [of _ P] exI [of _ fs] exI [of _ m]) simp
    qed
  qed
qed

end

text \<open>Writing the address into the slot.\<close>

lemma push_slot_spec:
  assumes c: "stack_config alloc free k s" and t: "top_frame k s xs fs m" "m < frame_cap k"
  shows "\<exists>h. push_slot s (addr_of x) = Inr (s\<lparr>sa_frames := h\<rparr>) \<and> top_frame k (s\<lparr>sa_frames := h\<rparr>) (x # xs) fs (Suc m)"
proof -
  have k: "5 \<le> k" "k \<le> 30" using c by (simp_all add: stack_config_def)
  note b = pow_bounds [OF k]
  obtain q qs prev where q: "fs = q # qs" "sa_last_frame s = q" "q \<notin> set qs" "m \<le> length xs"
    "frame_rep (sa_frames s) q prev m (take m (map addr_of xs))"
    "full_frames (frame_cap k) (sa_frames s) prev qs (drop m (map addr_of xs))" using t(1) by (auto simp: top_frame_def)
  obtain f where f: "fheader_at (sa_frames s) q = Inr f" "sa_frames s q = Some f" "fh_next_free f = of_nat (8 * m)"
    using top_frame_at [OF t(1)] q(2) by blast
  have "8 * m + 8 \<le> 2 ^ k - 24" using t(2) b(3) by linarith
  then have m8: "8 * m + 32 \<le> 2 ^ k" "8 * m < 2 ^ 32 - 8" using b(1,2) by simp_all
  have "unat (of_nat (8 * m) :: u32) = 8 * m" using m8 by (simp add: unat_of_nat take_bit_nat_eq_self del: of_nat_mult)
  then have room: "\<not> unat (sa_page_size s) < unat sizeof_fheader + unat (fh_next_free f) + 8"
    using m8(1) page_size_nat [OF c] unfolding f(3) by (simp add: sizeof_fheader_def del: of_nat_mult)
  let ?f = "f\<lparr>fh_slots := (fh_slots f)(fh_next_free f \<mapsto> addr_of x), fh_next_free := fh_next_free f + 8\<rparr>"
  let ?h = "(sa_frames s)(q \<mapsto> ?f)"
  have run: "push_slot s (addr_of x) = Inr (s\<lparr>sa_frames := ?h\<rparr>)"
    using f(1) q(2) room by (simp add: push_slot_def del: fun_upd_apply)
  have "frame_rep ?h q prev (Suc m) (take (Suc m) (map addr_of (x # xs)))"
    using frame_rep_push(2) [OF q(5) f(2) m8(2)] by simp
  moreover have "full_frames (frame_cap k) ?h prev qs (drop (Suc m) (map addr_of (x # xs)))"
    using q(3,6) by (subst full_frames_frame) auto
  ultimately have "top_frame k (s\<lparr>sa_frames := ?h\<rparr>) (x # xs) fs (Suc m)"
    unfolding top_frame_def using q(1-4) by (intro exI [of _ q] exI [of _ qs] exI [of _ prev]) simp
  then show ?thesis using run by blast
qed

context mem_provider
begin

lemma alloc_spec:
  assumes i: "stk_inv k (s, st) xs fs P" and room: "room st (3 + n)" and sz: "unat sz \<le> 2 ^ k" and j: "j \<le> k"
  shows "\<exists>x s' st' fs' P'. fdb_stack_alloc_alloc garbage (s, st) (2 ^ j) sz hint = Inr (addr_of x, (s', st')) \<and>
    stk_inv k (s', st') (x # xs) fs' P' \<and> room st' n \<and> snd (snd x) = unat sz \<and> 2 ^ j dvd unat (addr_of x)"
proof -
  have r1: "room st (Suc (Suc (Suc n)))" using room by (simp add: numeral_3_eq_3)
  from reserve_page_spec [OF i r1 sz j] obtain slack s1 st1 P1 where
    1: "reserve_page (s, st) (2 ^ j) sz = (slack, (s1, st1))" "stk_inv k (s1, st1) xs fs P1" "room st1 (Suc (Suc n))"
      "good_page P1 (2 ^ k) (sa_next_page s1)" "unat (sa_next_offset s1) + unat slack < 2 ^ k"
      "unat (sa_next_offset s1) + unat slack + unat sz \<le> 2 ^ k"
      "2 ^ j dvd unat (sa_next_page s1) + unat (sa_next_offset s1) + unat slack" by blast
  from reserve_frame_spec [OF 1(2,3), of garbage] obtain s2 st2 P2 fs2 m where
    2: "reserve_frame (s1, st1) garbage = Inr (s2, st2)" "stk_inv k (s2, st2) xs fs2 P2" "room st2 (Suc n)"
      "sa_next_page s2 = sa_next_page s1" "sa_next_offset s2 = sa_next_offset s1" "top_frame k s2 xs fs2 m" "m < frame_cap k" by blast
  have c: "stack_config alloc free k s2" and l: "stack_layout k s2 xs fs2 P2" using 2(2) by (simp_all add: stack_inv_def)
  have k: "5 \<le> k" "k \<le> 30" using c by (simp_all add: stack_config_def)
  note b = pow_bounds [OF k]
  let ?off = "unat (sa_next_offset s1) + unat slack"
  let ?x = "(sa_next_page s2, ?off, unat sz)"
  have np: "sa_next_page s2 \<noteq> NULL" using 1(4) 2(4) by (simp add: good_page_def)
  then have g: "good_page P2 (2 ^ k) (sa_next_page s2)" using l by (simp add: stack_layout_def)
  have addr: "sa_next_page s2 + ucast (sa_next_offset s2) + ucast slack = addr_of ?x"
    unfolding 2(5) by (simp add: add.assoc unat_ucast_u32_u64 flip: unat_ucast_u32_u64)
  from push_slot_spec [OF c 2(6,7), of ?x] obtain h where
    h: "push_slot s2 (addr_of ?x) = Inr (s2\<lparr>sa_frames := h\<rparr>)" "top_frame k (s2\<lparr>sa_frames := h\<rparr>) (?x # xs) fs2 (Suc m)" by blast
  let ?s = "s2\<lparr>sa_frames := h, sa_next_offset := sa_next_offset s2 + (slack + sz),
    sa_stats := (sa_stats s2)\<lparr>st_used := st_used (sa_stats s2) + ucast (slack + sz)\<rparr>\<rparr>"
  have "?off + unat sz < 2 ^ 32" using 1(6) b(2) by simp
  then have cur: "unat (sa_next_offset ?s) = ?off + unat sz" using 2(5) by (simp add: unat_word_ariths)
  have below: "stacked (2 ^ k) (sa_next_page s2) ?off xs"
    using l 2(5) by (auto simp: stack_layout_def intro: stacked_mono)
  have "frames_hold (frame_cap k) (sa_frames ?s) (sa_last_frame ?s) fs2 (map addr_of (?x # xs))"
    using top_frame_hold [OF h(2)] 2(7) by simp
  then have "stack_layout k ?s (?x # xs) fs2 P2"
    unfolding stack_layout_def cur using below g np 1(5,6) l by (auto simp: stack_layout_def)
  then have inv: "stk_inv k (?s, st2) (?x # xs) fs2 P2" using 2(2) by (simp add: stack_inv_def stack_config_def)
  have al: "2 ^ j dvd unat (addr_of ?x)" using addr_of_unat [OF g 1(5), of "unat sz"] 1(7) 2(4) by (simp add: add.assoc)
  have run: "fdb_stack_alloc_alloc garbage (s, st) (2 ^ j) sz hint =
      Inr (addr_of ?x, if sa_next_offset ?s = sa_page_size ?s then new_data_page (?s, st2) else (?s, st2))"
    using 1(1) 2(1) h(1) addr by (simp add: fdb_stack_alloc_alloc_def Let_def del: addr_of.simps)
  show ?thesis
  proof (cases "sa_next_offset ?s = sa_page_size ?s")
    case True
    from new_data_page_spec [OF inv 2(3)] obtain s3 st3 P3 where
      3: "new_data_page (?s, st2) = (s3, st3)" "stk_inv k (s3, st3) (?x # xs) fs2 P3" "room st3 n" by blast
    show ?thesis using run 3 True al
      by (intro exI [of _ ?x] exI [of _ s3] exI [of _ st3] exI [of _ fs2] exI [of _ P3]) (simp del: addr_of.simps)
  next
    case False
    show ?thesis using run inv False al room_mono [OF 2(3)]
      by (intro exI [of _ ?x] exI [of _ ?s] exI [of _ st2] exI [of _ fs2] exI [of _ P2]) (simp del: addr_of.simps)
  qed
qed

end

section \<open>Popping\<close>

lemma good_page_del: "good_page P N q \<Longrightarrow> q \<noteq> p \<Longrightarrow> good_page (P(p := None)) N q"
  by (simp add: good_page_def)

lemma full_frames_top:
  assumes "full_frames (frame_cap k) h p qs (map addr_of xs)" "xs \<noteq> []" "sa_frames s = h" "sa_last_frame s = p"
  shows "top_frame k s xs qs (frame_cap k)"
  using assms by (cases qs) (auto simp: top_frame_def)

context mem_provider
begin

lemma free_spec:
  assumes i: "stk_inv k (s, st) xs fs P" and p: "P p = Some (2 ^ k)"
  shows "ainv (mem_free (sa_allocator s) st p) (P(p := None))" "live_apart (P(p := None))"
    "serves (mem_free (sa_allocator s) st p) (2 ^ k) (2 ^ k)" "room st n \<Longrightarrow> room (mem_free (sa_allocator s) st p) n"
proof -
  have c: "stack_config alloc free k s" and inv: "ainv st P" "live_apart P" "serves st (2 ^ k) (2 ^ k)"
    using i by (simp_all add: stack_inv_def)
  have f: "mem_free (sa_allocator s) st p = free st p" using c by (simp add: mem_free_def stack_config_def)
  show "ainv (mem_free (sa_allocator s) st p) (P(p := None))" unfolding f by (rule free_inv [OF inv(1) p])
  show "live_apart (P(p := None))" by (rule live_apart_free [OF inv(2)])
  show "serves (mem_free (sa_allocator s) st p) (2 ^ k) (2 ^ k)" unfolding f free_serves by (rule inv(3))
  show "room st n \<Longrightarrow> room (mem_free (sa_allocator s) st p) n" unfolding f by (rule free_room [OF inv(1) p])
qed

lemma drop_frame_spec:
  assumes i: "stk_inv k (s, st) xs fs P" and xs: "xs \<noteq> []"
  shows "\<exists>s' st' fs' P' m. drop_frame (s, st) = Inr (s', st') \<and> stk_inv k (s', st') xs fs' P' \<and>
    (\<forall>n. room st n \<longrightarrow> room st' n) \<and> top_frame k s' xs fs' (Suc m) \<and> Suc m \<le> frame_cap k"
proof -
  have c: "stack_config alloc free k s" and l: "stack_layout k s xs fs P" using i by (simp_all add: stack_inv_def)
  have k: "5 \<le> k" "k \<le> 30" using c by (simp_all add: stack_config_def)
  note b = pow_bounds [OF k]
  obtain m where m: "m \<le> frame_cap k" "top_frame k s xs fs m" using layout_top [OF l] xs by blast
  obtain f where f: "fheader_at (sa_frames s) (sa_last_frame s) = Inr f" "sa_frames s (sa_last_frame s) = Some f"
    "fh_next_free f = of_nat (8 * m)" using top_frame_at [OF m(2)] by blast
  have "8 * m \<le> 2 ^ k - 24" using m(1) b(3) by linarith
  then have "8 * m < 2 ^ 32" using b(2) by simp
  then have u: "unat (of_nat (8 * m) :: u32) = 8 * m" by (simp add: unat_of_nat take_bit_nat_eq_self del: of_nat_mult)
  have zero: "fh_next_free f = 0 \<longleftrightarrow> m = 0"
  proof
    assume "fh_next_free f = 0"
    then have "unat (of_nat (8 * m) :: u32) = 0" using f(3) by (simp only: unat_0)
    then show "m = 0" using u by simp
  qed (use f(3) in simp)
  show ?thesis
  proof (cases m)
    case (Suc m')
    then have "drop_frame (s, st) = Inr (s, st)" using f(1) zero by (simp add: drop_frame_def)
    then show ?thesis using i m Suc by (intro exI [of _ s] exI [of _ st] exI [of _ fs] exI [of _ P] exI [of _ m']) simp
  next
    case 0
    obtain q qs prev where q: "fs = q # qs" "sa_last_frame s = q" "q \<notin> set qs" "frame_rep (sa_frames s) q prev 0 []"
      "full_frames (frame_cap k) (sa_frames s) prev qs (map addr_of xs)" using m(2) 0 by (auto simp: top_frame_def)
    have prev: "fh_previous_page f = prev" using q(2,4) f(2) by (simp add: frame_rep_def)
    obtain q2 qs2 where q2: "qs = q2 # qs2" "prev = q2" using q(5) xs by (cases qs) auto
    obtain g where g: "sa_frames s q2 = Some g" "q2 \<noteq> NULL" "q2 \<noteq> q"
      using q(3,5) q2 by (auto simp: frame_rep_def)
    let ?h0 = "(sa_frames s)(q := None)" and ?g = "g\<lparr>fh_next_page := NULL\<rparr>"
    let ?s = "s\<lparr>sa_frames := ?h0(q2 \<mapsto> ?g), sa_last_frame := q2,
      sa_stats := (sa_stats s)\<lparr>st_allocated := st_allocated (sa_stats s) - ucast (sa_page_size s)\<rparr>\<rparr>"
    let ?st = "mem_free (sa_allocator s) st q"
    have g0: "fheader_at ?h0 q2 = Inr g" using g by (simp add: fheader_at_def)
    have run: "drop_frame (s, st) = Inr (?s, ?st)"
      using f(1) zero 0 prev q(2) q2(2) g0 unfolding drop_frame_def by (simp add: Let_def del: fun_upd_apply)
    have rep: "frame_rep (?h0(q2 \<mapsto> ?g)) r pr n as = frame_rep (sa_frames s) r pr n as" if "r \<noteq> q" for r pr n as
      using that g by (auto simp: frame_rep_def)
    have "full_frames (frame_cap k) (?h0(q2 \<mapsto> ?g)) p' rs as = full_frames (frame_cap k) (sa_frames s) p' rs as"
      if "q \<notin> set rs" for p' rs as
      using that
    proof (induction rs arbitrary: p' as)
      case (Cons r rs)
      have r: "r \<noteq> q" "q \<notin> set rs" using Cons.prems by auto
      show ?case unfolding full_frames.simps rep [OF r(1)] Cons.IH [OF r(2)] ..
    qed simp
    then have "full_frames (frame_cap k) (?h0(q2 \<mapsto> ?g)) q2 qs (map addr_of xs)" using q(3,5) q2(2) by blast
    then have top: "top_frame k ?s xs qs (frame_cap k)" by (rule full_frames_top) (simp_all add: xs)
    have P: "P q = Some (2 ^ k)" "q \<noteq> sa_next_page s" "q \<notin> fst ` set xs" using l q(1) by (auto simp: stack_layout_def)
    have "stack_layout k ?s xs qs (P(q := None))"
    proof (rule layout_frames [OF l])
      show "frames_hold (frame_cap k) (sa_frames ?s) (sa_last_frame ?s) qs (map addr_of xs)" by (rule top_frame_hold [OF top]) simp
      show "\<forall>r\<in>set qs. (P(q := None)) r = Some (2 ^ k) \<and> r \<noteq> sa_next_page s \<and> r \<notin> fst ` set xs"
        using l q(1,3) by (auto simp: stack_layout_def)
      show "good_page (P(q := None)) (2 ^ k) r" if "r \<in> fst ` set xs \<or> r = sa_next_page s" "good_page P (2 ^ k) r" for r
        by (rule good_page_del [OF that(2)]) (use that(1) P in auto)
    qed simp_all
    then have "stk_inv k (?s, ?st) xs qs (P(q := None))"
      using c free_spec(1-3) [OF i P(1)] by (simp add: stack_inv_def stack_config_def del: fun_upd_apply)
    moreover obtain m' where "frame_cap k = Suc m'" using b(1,3) by (cases "frame_cap k") auto
    ultimately show ?thesis using run top free_spec(4) [OF i P(1)]
      by (intro exI [of _ ?s] exI [of _ ?st] exI [of _ qs] exI [of _ "P(q := None)"] exI [of _ m']) (simp del: fun_upd_apply)
  qed
qed

end

context mem_provider
begin

lemma pop_spec:
  assumes i: "stk_inv k (s, st) (x # xs) fs P"
  shows "\<exists>s' st' fs' P'. fdb_stack_alloc_pop (s, st) a = Inr (s', st') \<and> stk_inv k (s', st') xs fs' P' \<and>
    (\<forall>n. room st n \<longrightarrow> room st' n)"
proof -
  from drop_frame_spec [OF i] obtain s1 st1 fs1 P1 m where
    1: "drop_frame (s, st) = Inr (s1, st1)" "stk_inv k (s1, st1) (x # xs) fs1 P1" "\<forall>n. room st n \<longrightarrow> room st1 n"
      "top_frame k s1 (x # xs) fs1 (Suc m)" "Suc m \<le> frame_cap k" by auto
  have c: "stack_config alloc free k s1" and l: "stack_layout k s1 (x # xs) fs1 P1" using 1(2) by (simp_all add: stack_inv_def)
  have k: "5 \<le> k" "k \<le> 30" using c by (simp_all add: stack_config_def)
  note b = pow_bounds [OF k]
  obtain p off sz where x: "x = (p, off, sz)" by (metis prod.collapse)
  have sx: "off < 2 ^ k" "stacked (2 ^ k) p off xs" "p \<noteq> sa_next_page s1 \<longrightarrow> sa_next_page s1 \<notin> fst ` set xs"
    and g: "good_page P1 (2 ^ k) p" using l x by (auto simp: stack_layout_def split: if_splits)
  obtain q qs prev where q: "fs1 = q # qs" "sa_last_frame s1 = q" "q \<notin> set qs" "m \<le> length xs"
    "frame_rep (sa_frames s1) q prev (Suc m) (addr_of x # take m (map addr_of xs))"
    "full_frames (frame_cap k) (sa_frames s1) prev qs (drop m (map addr_of xs))" using 1(4) by (auto simp: top_frame_def)
  obtain f where f: "fheader_at (sa_frames s1) q = Inr f" "sa_frames s1 q = Some f"
    using top_frame_at [OF 1(4)] q(2) by blast
  have "8 * Suc m \<le> 2 ^ k - 24" using mult_le_mono2 [OF 1(5), of 8] by (simp only: b(3))
  then have m8: "8 * Suc m < 2 ^ 32" using b(2) by simp
  note pop = frame_rep_pop [OF q(5) f(2) m8]
  let ?h = "(sa_frames s1)(q \<mapsto> f\<lparr>fh_next_free := fh_next_free f - 8\<rparr>)"
  have slot: "read_slot s1 q (fh_next_free f - 8) = Inr (addr_of x)"
    using f(1) pop(1,2) by (simp add: read_slot_def)
  have dec: "fdb_stack_alloc_page_addr_decode (s1\<lparr>sa_frames := ?h\<rparr>) (addr_of x) = (p, of_nat off)"
    unfolding x by (rule decode_addr [OF g sx(1) k(2)]) (use c in \<open>simp add: stack_config_def\<close>)
  have off: "unat (of_nat off :: u32) = off"
  proof -
    have "off < 2 ^ 32" by (rule less_le_trans [OF sx(1) power_increasing]) (use k in simp_all)
    then show ?thesis by (simp add: unat_of_nat take_bit_nat_eq_self)
  qed
  have top: "top_frame k (s1\<lparr>sa_frames := ?h\<rparr>) xs fs1 m"
  proof -
    have "full_frames (frame_cap k) ?h prev qs (drop m (map addr_of xs))"
      using q(3,6) by (subst full_frames_frame) auto
    then show ?thesis unfolding top_frame_def using q(1-4) pop(3)
      by (intro exI [of _ q] exI [of _ qs] exI [of _ prev]) simp
  qed
  have np: "sa_next_page s1 \<noteq> NULL" using l by (simp add: stack_layout_def)
  have frames: "frames_hold (frame_cap k) ?h q fs1 (map addr_of xs)" using top_frame_hold [OF top] 1(5) q(2) by simp
  have fsP: "\<forall>r\<in>set fs1. P1 r = Some (2 ^ k) \<and> r \<noteq> sa_next_page s1 \<and> r \<noteq> p \<and> r \<notin> fst ` set xs"
    using l x by (auto simp: stack_layout_def)
  have pages: "\<forall>r\<in>fst ` set xs. good_page P1 (2 ^ k) r" using l by (simp add: stack_layout_def)
  have step: "\<exists>s' st' fs' P'. fdb_stack_alloc_pop (s, st) a = Inr (s', st') \<and> stk_inv k (s', st') xs fs' P' \<and>
      (\<forall>n. room st n \<longrightarrow> room st' n)"
    if run: "fdb_stack_alloc_pop (s, st) a = Inr (s1\<lparr>sa_frames := ?h, sa_next_page := p, sa_next_offset := of_nat off, sa_stats := ss\<rparr>, st2)"
      and env: "ainv st2 P2" "live_apart P2" "serves st2 (2 ^ k) (2 ^ k)" "\<forall>n. room st1 n \<longrightarrow> room st2 n"
      and P2: "good_page P2 (2 ^ k) p" "\<forall>r\<in>fst ` set xs. good_page P2 (2 ^ k) r" "\<forall>r\<in>set fs1. P2 r = Some (2 ^ k)" for ss st2 P2
  proof -
    let ?s = "s1\<lparr>sa_frames := ?h, sa_next_page := p, sa_next_offset := of_nat off, sa_stats := ss\<rparr>"
    have "stack_layout k ?s xs fs1 P2"
      unfolding stack_layout_def using sx(1,2) off P2 fsP frames q(2) by (auto simp: good_page_def simp del: fun_upd_apply)
    then have "stk_inv k (?s, st2) xs fs1 P2" using c env(1-3) by (simp add: stack_inv_def stack_config_def del: fun_upd_apply)
    then show ?thesis using run env(4) 1(3) by blast
  qed
  show ?thesis
  proof (cases "sa_next_page s1 = p")
    case True
    show ?thesis
      by (rule step [of _ st1 P1])
        (use 1(1,2) True q(2) f(1) slot dec g pages fsP in
          \<open>simp_all add: fdb_stack_alloc_pop_def Let_def stack_inv_def del: fun_upd_apply addr_of.simps\<close>)
  next
    case False
    let ?n = "sa_next_page s1"
    have Pn: "P1 ?n = Some (2 ^ k)" "?n \<notin> fst ` set xs" using l np sx(3) False by (auto simp: stack_layout_def good_page_def)
    show ?thesis
    proof (rule step [of _ "mem_free (sa_allocator s1) st1 ?n" "P1(?n := None)"])
      show "good_page (P1(?n := None)) (2 ^ k) p" by (rule good_page_del [OF g]) (use False in simp)
      show "\<forall>r\<in>fst ` set xs. good_page (P1(?n := None)) (2 ^ k) r" using pages Pn(2) good_page_del by metis
    qed (use 1(1) False q(2) f(1) slot dec fsP free_spec [OF 1(2) Pn(1)] in
          \<open>simp_all add: fdb_stack_alloc_pop_def Let_def del: addr_of.simps\<close>)
  qed
qed

lemma stack_init_spec:
  assumes k: "5 \<le> k" "k \<le> 30" and a: "p_mem_alloc (case al of Some a \<Rightarrow> a | None \<Rightarrow> g) = alloc" "p_mem_free (case al of Some a \<Rightarrow> a | None \<Rightarrow> g) = free"
    and st: "ainv st P" "live_apart P" "serves st (2 ^ k) (2 ^ k)"
  shows "stk_inv k (fdb_stack_alloc_init (2 ^ k) al g, st) [] [] P"
proof -
  note b = pow_bounds [OF k]
  have "unat (of_nat k :: u32) = k" using k by (simp add: unat_of_nat take_bit_nat_eq_self)
  then have mask: "scast (NOT (push_bit (unat (fdb_os_pow2_bit (ucast (2 ^ k :: u32)) - 1)) 1 - 1) :: u32) = page_mask k"
    unfolding ffs_pow2 [OF k(2)] using mask_init [OF k(2)] by simp
  have u: "unat (ucast (2 ^ k :: u32) :: u64) = 2 ^ k" using pow2_word [OF k(2)] by simp
  have "unat ((ucast (2 ^ k :: u32) - 24) :: u64) = 2 ^ k - 24"
    using u b(1) by (subst unat_sub) (simp_all add: word_le_nat_alt)
  moreover have "unat (8 :: u64) * (2 ^ k - 24) < 2 ^ LENGTH(64)" using b(2) by simp
  ultimately have "unat (8 * (ucast (2 ^ k :: u32) - 24) :: u64) = 8 * (2 ^ k - 24)"
    using unat_mult_lem [of "8 :: u64" "ucast (2 ^ k :: u32) - 24"] by simp
  then have "unat (8 * (ucast (2 ^ k :: u32) - 24) div 8 :: u64) = 2 ^ k - 24" by (simp add: unat_div)
  then have max: "(ucast (8 * (ucast (2 ^ k :: u32) - ucast sizeof_fheader) div 8 :: u64) :: u32) = of_nat (2 ^ k - 24)"
    using b(2) by (simp add: sizeof_fheader_def word_unat_eq_iff unat_ucast_u64_u32 unat_of_nat take_bit_nat_eq_self del: of_nat_diff)
  show ?thesis using k a st mask max
    by (simp add: stack_inv_def stack_config_def stack_layout_def fdb_stack_alloc_init_def Let_def frames_hold_def del: of_nat_diff)
qed

end

section \<open>Sequences of allocations and pops\<close>

text \<open>\<open>SAlloc j sz\<close> asks for \<open>sz\<close> bytes aligned to \<open>2 ^ j\<close>; \<open>SPop\<close> gives the last allocation back.\<close>

datatype stk_cmd = SAlloc nat u32 | SPop

fun stk_run ::
  "ptr \<Rightarrow> stk_cmd list \<Rightarrow> 'st fdb_stack_alloc_t \<times> 'st \<Rightarrow> (ptr \<times> u32) list \<Rightarrow>
   ((ptr \<times> u32) list \<times> ('st fdb_stack_alloc_t \<times> 'st)) res" where
  "stk_run garbage [] ss held = Inr (held, ss)"
| "stk_run garbage (SAlloc j sz # cs) ss held =
     bind_res (fdb_stack_alloc_alloc garbage ss (2 ^ j) sz FDB_NO_HINT) (\<lambda>(p, ss). stk_run garbage cs ss ((p, sz) # held))"
| "stk_run garbage (SPop # cs) ss held =
     bind_res (fdb_stack_alloc_pop ss (if held = [] then NULL else fst (hd held))) (\<lambda>ss. stk_run garbage cs ss (tl held))"

text \<open>The specification: a stack of the alignments and sizes.\<close>

fun stk_spec :: "stk_cmd list \<Rightarrow> (nat \<times> u32) list \<Rightarrow> (nat \<times> u32) list" where
  "stk_spec [] xs = xs"
| "stk_spec (SAlloc j sz # cs) xs = stk_spec cs ((j, sz) # xs)"
| "stk_spec (SPop # cs) xs = stk_spec cs (tl xs)"

fun stk_legal :: "nat \<Rightarrow> stk_cmd list \<Rightarrow> nat \<Rightarrow> bool" where
  "stk_legal k [] d \<longleftrightarrow> True"
| "stk_legal k (SAlloc j sz # cs) d \<longleftrightarrow> j \<le> k \<and> unat sz \<le> 2 ^ k \<and> stk_legal k cs (Suc d)"
| "stk_legal k (SPop # cs) d \<longleftrightarrow> 0 < d \<and> stk_legal k cs (d - 1)"

definition held_of :: "allocation list \<Rightarrow> (ptr \<times> u32) list" where
  "held_of xs = map (\<lambda>x. (addr_of x, of_nat (snd (snd x)))) xs"

abbreviation aligned_as :: "allocation list \<Rightarrow> (nat \<times> u32) list \<Rightarrow> bool" where
  "aligned_as \<equiv> list_all2 (\<lambda>x (j, sz). snd (snd x) = unat sz \<and> 2 ^ j dvd unat (addr_of x))"

context mem_provider
begin

lemma stk_run_sim:
  assumes "stk_inv k (s, st) xs fs P" "room st (3 * length cs + n)" "stk_legal k cs (length xs)" "aligned_as xs ys"
  shows "\<exists>s' st' xs' fs' P'. stk_run garbage cs (s, st) (held_of xs) = Inr (held_of xs', (s', st')) \<and>
    stk_inv k (s', st') xs' fs' P' \<and> aligned_as xs' (stk_spec cs ys) \<and> room st' n"
  using assms
proof (induction cs arbitrary: s st xs fs P ys)
  case Nil
  then show ?case by auto
next
  case (Cons c cs)
  show ?case
  proof (cases c)
    case (SAlloc j sz)
    have r: "room st (3 + (3 * length cs + n))" "unat sz \<le> 2 ^ k" "j \<le> k"
      using Cons.prems(2,3) SAlloc by (simp_all add: add.assoc)
    from alloc_spec [OF Cons.prems(1) r, of garbage FDB_NO_HINT] obtain x s' st' fs' P' where
      a: "fdb_stack_alloc_alloc garbage (s, st) (2 ^ j) sz FDB_NO_HINT = Inr (addr_of x, (s', st'))"
        "stk_inv k (s', st') (x # xs) fs' P'" "room st' (3 * length cs + n)" "snd (snd x) = unat sz" "2 ^ j dvd unat (addr_of x)"
      by blast
    have h: "held_of (x # xs) = (addr_of x, sz) # held_of xs" using a(4) by (simp add: held_of_def)
    have "stk_legal k cs (length (x # xs))" "aligned_as (x # xs) ((j, sz) # ys)" using Cons.prems(3,4) SAlloc a(4,5) by simp_all
    from Cons.IH [OF a(2,3) this] show ?thesis using a(1) SAlloc unfolding h by simp
  next
    case SPop
    obtain x xs' where xs: "xs = x # xs'" using Cons.prems(3) SPop by (cases xs) auto
    from pop_spec [OF Cons.prems(1) [unfolded xs], of "addr_of x"] obtain s' st' fs' P' where
      p: "fdb_stack_alloc_pop (s, st) (addr_of x) = Inr (s', st')" "stk_inv k (s', st') xs' fs' P'"
        "\<forall>n. room st n \<longrightarrow> room st' n" by blast
    have "room st (3 + (3 * length cs + n))" using Cons.prems(2) by (simp add: add.assoc)
    then have "room st (3 * length cs + n)" using room_mono by (simp add: numeral_3_eq_3)
    then have r: "room st' (3 * length cs + n)" using p(3) by blast
    have "stk_legal k cs (length xs')" "aligned_as xs' (tl ys)" using Cons.prems(3,4) SPop xs by (auto simp: list_all2_Cons1)
    from Cons.IH [OF p(2) r this] show ?thesis using p(1) SPop xs by (simp add: held_of_def)
  qed
qed

lemma pop_empty:
  assumes i: "stk_inv k (s, st) [] fs P" shows "fdb_stack_alloc_pop (s, st) a = Inl NullDeref"
proof -
  have c: "stack_config alloc free k s" and l: "stack_layout k s [] fs P" using i by (simp_all add: stack_inv_def)
  have k: "5 \<le> k" "k \<le> 30" using c by (simp_all add: stack_config_def)
  have cap: "0 < frame_cap k" using pow_bounds [OF k] by (cases "frame_cap k") simp_all
  show ?thesis
  proof (cases "fs = []")
    case True
    then have "sa_last_frame s = NULL" using layout_top [OF l] by (auto simp: top_frame_def)
    then show ?thesis by (simp add: fdb_stack_alloc_pop_def drop_frame_def fheader_at_def)
  next
    case False
    then obtain m where m: "m \<le> frame_cap k" "top_frame k s [] fs m" using layout_top [OF l] by blast
    then have m0: "m = 0" by (auto simp: top_frame_def)
    obtain f where f: "fheader_at (sa_frames s) (sa_last_frame s) = Inr f" "sa_frames s (sa_last_frame s) = Some f"
      "fh_next_free f = of_nat (8 * m)" using top_frame_at [OF m(2)] by blast
    obtain q qs prev where q: "sa_last_frame s = q" "frame_rep (sa_frames s) q prev 0 []"
      "full_frames (frame_cap k) (sa_frames s) prev qs []" using m(2) m0 by (auto simp: top_frame_def)
    have "qs = []" using q(3) cap by (cases qs) simp_all
    then have "prev = NULL" using q(3) by simp
    then have "fh_previous_page f = NULL" using q(1,2) f(2) by (simp add: frame_rep_def)
    then show ?thesis using f(1,3) m0 by (simp add: fdb_stack_alloc_pop_def drop_frame_def fheader_at_def)
  qed
qed

end

section \<open>Properties\<close>

text \<open>C35: Allocations of the stack allocator are given back in the reverse order, and until then keep
  memory of their own. Over any allocator that keeps the contract and serves pages of the size of
  the page \<open>2 ^ k\<close>, every sequence of allocations that fit a page and pops that never pop more than was
  allocated ends without an error; what is held then are the allocations not popped, aligned as asked, apart
  from each other and each inside a page that the parent has handed out.\<close>

theorem stack_alloc_lifo:
  assumes "mem_provider (p_mem_alloc al) (p_mem_free al) ainv room serves" "ainv st P" "live_apart P"
    and "serves st (2 ^ k) (2 ^ k)" "room st (3 * length cs)" "5 \<le> k" "k \<le> 30" "stk_legal k cs 0"
  shows "\<exists>held s st' P'. stk_run garbage cs (fdb_stack_alloc_init (2 ^ k) (Some al) g, st) [] = Inr (held, (s, st')) \<and>
    ainv st' P' \<and> list_all2 (\<lambda>(p, sz) (j, sz'). sz = sz' \<and> 2 ^ j dvd unat p) held (stk_spec cs []) \<and>
    sorted_wrt (\<lambda>(p, n) (q, m). apart p (unat n) q (unat m)) held \<and>
    (\<forall>(p, sz)\<in>set held. \<exists>page. page \<noteq> NULL \<and> P' page = Some (2 ^ k) \<and> unat page \<le> unat p \<and> unat p + unat sz \<le> unat page + 2 ^ k)"
proof -
  have "stack_inv (p_mem_alloc al) (p_mem_free al) ainv serves k (fdb_stack_alloc_init (2 ^ k) (Some al) g, st) [] [] P"
    by (rule mem_provider.stack_init_spec [OF assms(1,6,7) _ _ assms(2-4)]) simp_all
  from mem_provider.stk_run_sim [OF assms(1) this, of cs 0 "[]" garbage] assms(5,8) obtain s st' xs fs P' where
    r: "stk_run garbage cs (fdb_stack_alloc_init (2 ^ k) (Some al) g, st) [] = Inr (held_of xs, (s, st'))"
      "stack_inv (p_mem_alloc al) (p_mem_free al) ainv serves k (s, st') xs fs P'" "aligned_as xs (stk_spec cs [])"
    by (auto simp: held_of_def)
  have l: "stacked (2 ^ k) (sa_next_page s) (unat (sa_next_offset s)) xs" "live_apart P'" "\<forall>p\<in>fst ` set xs. good_page P' (2 ^ k) p" "ainv st' P'"
    using r(2) by (simp_all add: stack_inv_def stack_layout_def)
  have word: "unat (of_nat (snd (snd x)) :: u32) = snd (snd x)" if "x \<in> set xs" for x
  proof -
    obtain i where i: "i < length xs" "x = xs ! i" using \<open>x \<in> set xs\<close> by (auto simp: in_set_conv_nth)
    obtain j sz where "stk_spec cs [] ! i = (j, sz)" by (rule prod.exhaust)
    then have "snd (snd x) = unat sz" using list_all2_nthD [OF r(3) i(1)] i(2) by simp
    then show ?thesis by simp
  qed
  have "list_all2 (\<lambda>(p, sz) (j, sz'). sz = sz' \<and> 2 ^ j dvd unat p) (held_of xs) (stk_spec cs [])"
    unfolding held_of_def list_all2_map1 by (rule list_all2_mono [OF r(3)]) auto
  moreover have "sorted_wrt (\<lambda>(p, n) (q, m). apart p (unat n) q (unat m)) (held_of xs)"
    unfolding held_of_def sorted_wrt_map
    by (rule sorted_wrt_mono_rel [OF _ stacked_apart [OF l(1-3)]]) (use word in auto)
  moreover have "\<exists>page. page \<noteq> NULL \<and> P' page = Some (2 ^ k) \<and> unat page \<le> unat p \<and> unat p + unat sz \<le> unat page + 2 ^ k"
    if h: "(p, sz) \<in> set (held_of xs)" for p sz
  proof -
    obtain x where x: "x \<in> set xs" "p = addr_of x" "sz = of_nat (snd (snd x))" using h by (auto simp: held_of_def)
    obtain pg off n where e: "x = (pg, off, n)" by (metis prod.collapse)
    have g: "good_page P' (2 ^ k) pg" using l(3) x(1) e by force
    have "off < 2 ^ k \<and> off + n \<le> 2 ^ k" by (rule stacked_within [OF l(1)]) (use x(1) e in simp)
    then show ?thesis using addr_of_unat [OF g, of off n] word [OF x(1)] x(2,3) e g
      by (intro exI [of _ pg]) (simp add: good_page_def del: addr_of.simps)
  qed
  ultimately show ?thesis using r(1) l(4)
    by (intro exI [of _ "held_of xs"] exI [of _ s] exI [of _ st'] exI [of _ P']) auto
qed

text \<open>Popping a stack allocator that holds nothing dereferences NULL, also when it never held
  anything.\<close>

theorem stack_pop_empty:
  assumes "mem_provider (p_mem_alloc al) (p_mem_free al) ainv room serves" "ainv st P" "live_apart P"
    and "serves st (2 ^ k) (2 ^ k)" "room st (3 * length cs)" "5 \<le> k" "k \<le> 30" "stk_legal k cs 0" "stk_spec cs [] = []"
  shows "\<exists>ss. stk_run garbage cs (fdb_stack_alloc_init (2 ^ k) (Some al) g, st) [] = Inr ([], ss) \<and>
    fdb_stack_alloc_pop ss p = Inl NullDeref"
proof -
  have "stack_inv (p_mem_alloc al) (p_mem_free al) ainv serves k (fdb_stack_alloc_init (2 ^ k) (Some al) g, st) [] [] P"
    by (rule mem_provider.stack_init_spec [OF assms(1,6,7) _ _ assms(2-4)]) simp_all
  from mem_provider.stk_run_sim [OF assms(1) this, of cs 0 "[]" garbage] assms(5,8,9) obtain s st' xs fs P' where
    r: "stk_run garbage cs (fdb_stack_alloc_init (2 ^ k) (Some al) g, st) [] = Inr (held_of xs, (s, st'))"
      "stack_inv (p_mem_alloc al) (p_mem_free al) ainv serves k (s, st') xs fs P'" "aligned_as xs []"
    by (auto simp: held_of_def)
  then have "xs = []" by simp
  then show ?thesis using r(1) mem_provider.pop_empty [OF assms(1)] r(2) by (auto simp: held_of_def)
qed

theorem stack_alloc_lifo_witness:
  "\<exists>a b ss. stk_run 0 [SAlloc 4 100, SAlloc 6 4000, SPop, SAlloc 8 200] (fdb_stack_alloc_init 4096 (Some bump) bump, 4096) [] =
      Inr ([(a, 200), (b, 100)], ss) \<and> 256 dvd unat a \<and> apart a 200 b 100"
proof -
  let ?cs = "[SAlloc 4 100, SAlloc 6 4000, SPop, SAlloc 8 200]"
  have h: "bump_inv 4096 Map.empty" "bump_serves 4096 (2 ^ 12) (2 ^ 12)" "bump_room 4096 (3 * length ?cs)" "5 \<le> (12 :: nat)"
    "12 \<le> (30 :: nat)" "stk_legal 12 ?cs 0"
    by (simp_all add: bump_inv_def bump_room_def bump_serves_def)
  have spec: "stk_spec ?cs [] = [(8, 200), (4, 100)]" by simp
  from stack_alloc_lifo [OF bump_provider h(1) live_apart_empty h(2-6), of 0 bump] obtain held s st' P' where
    r: "stk_run 0 ?cs (fdb_stack_alloc_init (2 ^ 12) (Some bump) bump, 4096) [] = Inr (held, (s, st'))"
      "list_all2 (\<lambda>(p, sz) (j, sz'). sz = sz' \<and> 2 ^ j dvd unat p) held (stk_spec ?cs [])"
      "sorted_wrt (\<lambda>(p, n) (q, m). apart p (unat n) q (unat m)) held" by blast
  obtain a b where "held = [(a, 200), (b, 100)]" "256 dvd unat a" using r(2) unfolding spec by (auto simp: list_all2_Cons2)
  then show ?thesis using r(1,3) by auto
qed

theorem stack_pop_empty_witness:
  "\<exists>ss. stk_run 0 [SAlloc 4 100, SPop] (fdb_stack_alloc_init 4096 (Some bump) bump, 4096) [] = Inr ([], ss) \<and>
    fdb_stack_alloc_pop ss 0 = Inl NullDeref"
proof -
  have h: "bump_inv 4096 Map.empty" "bump_serves 4096 (2 ^ 12) (2 ^ 12)" "bump_room 4096 (3 * length [SAlloc 4 100, SPop])"
    "5 \<le> (12 :: nat)" "12 \<le> (30 :: nat)" "stk_legal 12 [SAlloc 4 100, SPop] 0" "stk_spec [SAlloc 4 100, SPop] [] = []"
    by (simp_all add: bump_inv_def bump_room_def bump_serves_def)
  from stack_pop_empty [OF bump_provider h(1) live_apart_empty h(2-7), of 0 bump 0] show ?thesis by simp
qed

text \<open>An allocator that keeps the list of the blocks it has handed out.\<close>

definition tracker :: "(u64 \<times> ptr list) fdb_mem_allocator_t" where
  "tracker = \<lparr>p_mem_alloc = (\<lambda>(n, ps) al sz h. (n, (n + 4096, n # ps))), p_mem_free = (\<lambda>(n, ps) p. (n, removeAll p ps)),
     p_mem_stats = None\<rparr>"

text \<open>Releasing a stack allocator gives back its frames and the page of the last allocation only.
  The loop over the frames does not read the addresses below the last one of a frame; after two
  allocations of 4000 bytes the first page stays allocated in the parent for ever.\<close>

theorem stack_release_leaks:
  "\<exists>p q ss s n. stk_run 0 [SAlloc 4 4000, SAlloc 4 4000] (fdb_stack_alloc_init 4096 (Some tracker) tracker, (4096, [])) [] =
      Inr ([(q, 4000), (p, 4000)], ss) \<and> fdb_stack_alloc_release 3 ss = Inr (s, (n, [p])) \<and> sa_frames s = Map.empty"
proof -
  have "fdb_os_pow2_bit (ucast (4096 :: u32)) = 13" using ffs_pow2 [of 12] by simp
  then have init: "fdb_stack_alloc_init 4096 (Some tracker) tracker = \<lparr>sa_page_size = 4096, sa_page_mask = page_mask 12,
    sa_allocator = tracker, sa_next_page = NULL, sa_next_offset = 0, sa_last_frame = NULL, sa_max_frame_offset = 4072,
    sa_stats = \<lparr>st_allocated = 0, st_lost = 0, st_used = 0\<rparr>, sa_frames = Map.empty\<rparr>"
    using mask_init [of 12] by (simp add: fdb_stack_alloc_init_def sizeof_fheader_def)
  have mask: "page_mask 12 = 0xfffffffffffff000" by (simp add: page_mask_def mask_eq_exp_minus_1)
  note defs = fdb_stack_alloc_alloc_def reserve_page_def slack_of_def new_data_page_def reserve_frame_def new_frame_def
    push_slot_def tracker_def mem_alloc_def mem_free_def FDB_MIN_ALIGNMENT_def FDB_NO_HINT_def fheader_at_def sizeof_fheader_def
  have run: "\<exists>ss. stk_run 0 [SAlloc 4 4000, SAlloc 4 4000] (fdb_stack_alloc_init 4096 (Some tracker) tracker, (4096, [])) [] =
      Inr ([(12288, 4000), (4096, 4000)], ss) \<and> (\<exists>s n. fdb_stack_alloc_release 3 ss = Inr (s, (n, [4096])) \<and> sa_frames s = Map.empty)"
    unfolding init by (simp add: defs Let_def)
      (simp add: defs Let_def fdb_stack_alloc_release_def fdb_stack_alloc_flush_def flush_start_def read_slot_def
        fdb_stack_alloc_page_addr_decode_def mask numeral_3_eq_3 fun_upd_def fun_eq_iff)
  then show ?thesis by blast
qed

end
