(* ===== verification/DataUtils.thy ===== *)
theory DataUtils
  imports BlockCluster BitTable RefTable
begin

text \<open>
  src/src/runtime/data/data\_utils.c: the routines generated code calls to follow references. A
  reference table is read block by block through a block cluster with one column of heads; sets of
  ids are bit tables. The roots of the references are the heads that are not tails; one step of the
  traversal takes the ids whose head is in the current frontier; a filter keeps or drops the
  positions whose head is in a set; and gather copies pointers to the components of the heads.
\<close>

section \<open>The operations\<close>

text \<open>\<open>data[i]\<close> for a block of ids.\<close>

definition head_at :: "fdb_table_block_t \<Rightarrow> bytes \<Rightarrow> nat \<Rightarrow> u32" where
  "head_at block w i = load32 (tbk_data block + 4 * of_nat i) w"

definition column_block :: "(ptr \<rightharpoonup> fdb_table_block_t) \<Rightarrow> fdb_bcluster_t \<Rightarrow> u32 \<Rightarrow> fdb_table_block_t res" where
  "column_block h bc column = bind_res (fdb_bcluster_get_tblock bc column) (tblock_at h)"

fun root_positions ::
  "fdb_table_block_t \<Rightarrow> bytes \<Rightarrow> nat list \<Rightarrow> 'st fdb_bittable_t \<times> 'st fdb_bittable_t \<times> 'st \<Rightarrow>
   ('st fdb_bittable_t \<times> 'st fdb_bittable_t \<times> 'st) res" where
  "root_positions table_block w [] rbs = Inr rbs"
| "root_positions table_block w (i # js) (roots, blacklist, st) =
     (let next_entity = tbk_start table_block + of_nat i in
     bind_res (fdb_bitmap_is_set (tbk_enabled table_block) (of_nat i)) (\<lambda>e.
     bind_res (if e then
         let other = head_at table_block w i in
         bind_res (fdb_bittable_add (blacklist, st) next_entity) (\<lambda>(blacklist, st).
         bind_res (fdb_bittable_remove roots next_entity) (\<lambda>roots.
         bind_res (fdb_bittable_exists blacklist other) (\<lambda>b.
         if \<not> b then
           bind_res (fdb_bittable_add (roots, st) other) (\<lambda>(roots, st). Inr (roots, blacklist, st))
         else Inr (roots, blacklist, st))))
       else Inr (roots, blacklist, st)) (root_positions table_block w js)))"

definition find_roots_and_blacklist ::
  "(ptr \<rightharpoonup> fdb_table_block_t) \<Rightarrow> bytes \<Rightarrow> fdb_bcluster_t \<Rightarrow> 'st fdb_bittable_t \<times> 'st fdb_bittable_t \<times> 'st \<Rightarrow>
   ('st fdb_bittable_t \<times> 'st fdb_bittable_t \<times> 'st) res" where
  "find_roots_and_blacklist h w block_cluster rbs =
     bind_res (column_block h block_cluster 0) (\<lambda>table_block.
     root_positions table_block w [0..<unat FDB_TABLE_BLOCK_SIZE] rbs)"

fun filter_blacklists ::
  "nat \<Rightarrow> 'st fdb_bittable_t list \<Rightarrow> 'st fdb_bittable_t \<times> 'st \<Rightarrow> ('st fdb_bittable_t \<times> 'st) res" where
  "filter_blacklists fuel [] current_frontier = Inr current_frontier"
| "filter_blacklists fuel (partial_list # partial_lists) current_frontier =
     bind_res (fdb_bittable_difference fuel current_frontier partial_list) (filter_blacklists fuel partial_lists)"

fun frontiers_union ::
  "nat \<Rightarrow> 'st fdb_bittable_t list \<Rightarrow> 'st fdb_bittable_t \<times> 'st \<Rightarrow> ('st fdb_bittable_t \<times> 'st) res" where
  "frontiers_union fuel [] current_frontier = Inr current_frontier"
| "frontiers_union fuel (partial_frontier # next_frontiers) current_frontier =
     bind_res (fdb_bittable_union fuel current_frontier partial_frontier) (frontiers_union fuel next_frontiers)"

text \<open>The two filters differ in the test on the answer of \<open>fdb_bittable_exists\<close>; the block is fetched
  for every enabled position.\<close>

fun filter_positions ::
  "(bool \<Rightarrow> bool) \<Rightarrow> (ptr \<rightharpoonup> fdb_table_block_t) \<Rightarrow> bytes \<Rightarrow> 'st fdb_bittable_t \<Rightarrow> u32 \<Rightarrow> nat list \<Rightarrow> fdb_bcluster_t \<Rightarrow> fdb_bcluster_t res" where
  "filter_positions doomed h w bittable column [] bc = Inr bc"
| "filter_positions doomed h w bittable column (i # js) bc =
     bind_res (fdb_bitmap_is_set (bc_enabled bc) (of_nat i)) (\<lambda>e.
     bind_res (if e then
         bind_res (column_block h bc column) (\<lambda>block.
         bind_res (fdb_bittable_exists bittable (head_at block w i)) (\<lambda>b.
         if doomed b then
           bind_res (fdb_bitmap_unset (bc_enabled bc) (of_nat i)) (\<lambda>en. Inr (bc\<lparr>bc_enabled := en\<rparr>))
         else Inr bc))
       else Inr bc) (filter_positions doomed h w bittable column js))"

definition filter_bittable_exists ::
  "(ptr \<rightharpoonup> fdb_table_block_t) \<Rightarrow> bytes \<Rightarrow> 'st fdb_bittable_t \<Rightarrow> fdb_bcluster_t \<Rightarrow> u32 \<Rightarrow> fdb_bcluster_t res" where
  "filter_bittable_exists h w bittable block_cluster column =
     filter_positions (\<lambda>b. \<not> b) h w bittable column [0..<unat FDB_TABLE_BLOCK_SIZE] block_cluster"

definition filter_bittable_not_exists ::
  "(ptr \<rightharpoonup> fdb_table_block_t) \<Rightarrow> bytes \<Rightarrow> 'st fdb_bittable_t \<Rightarrow> fdb_bcluster_t \<Rightarrow> u32 \<Rightarrow> fdb_bcluster_t res" where
  "filter_bittable_not_exists h w bittable block_cluster column =
     filter_positions (\<lambda>b. b) h w bittable column [0..<unat FDB_TABLE_BLOCK_SIZE] block_cluster"

fun append_table_blocks :: "'st fdb_table_t list \<Rightarrow> u32 \<Rightarrow> fdb_bcluster_t \<Rightarrow> fdb_bcluster_t res" where
  "append_table_blocks [] bid cluster = Inr cluster"
| "append_table_blocks (table # tables) bid cluster =
     bind_res (fdb_table_get_block table bid) (\<lambda>p.
     bind_res (if p \<noteq> NULL then fdb_bcluster_append_block (tb_heap table) cluster p else Inr cluster)
       (append_table_blocks tables bid))"

fun step_positions ::
  "fdb_table_block_t \<Rightarrow> bytes \<Rightarrow> fdb_bcluster_t \<Rightarrow> 'st fdb_bittable_t \<Rightarrow> nat list \<Rightarrow>
   ('st fdb_bittable_t \<times> 'st) \<times> fdb_bcluster_t \<Rightarrow> (('st fdb_bittable_t \<times> 'st) \<times> fdb_bcluster_t) res" where
  "step_positions data w ref_cluster current_frontier [] x = Inr x"
| "step_positions data w ref_cluster current_frontier (i # js) (next_frontier, cluster) =
     (let source = of_nat i + bc_start ref_cluster in
     bind_res (fdb_bitmap_is_set (bc_enabled ref_cluster) (of_nat i)) (\<lambda>e.
     bind_res (if e then
         bind_res (fdb_bittable_exists current_frontier (head_at data w i)) (\<lambda>b.
         if b then
           bind_res (fdb_bitmap_set (bc_enabled cluster) (of_nat i)) (\<lambda>en.
           bind_res (fdb_bittable_add next_frontier source) (\<lambda>next_frontier.
           Inr (next_frontier, cluster\<lparr>bc_enabled := en\<rparr>)))
         else Inr (next_frontier, cluster))
       else Inr (next_frontier, cluster)) (step_positions data w ref_cluster current_frontier js)))"

definition build_fdb_bcluster_from_refs ::
  "(ptr \<rightharpoonup> fdb_table_block_t) \<Rightarrow> bytes \<Rightarrow> fdb_bcluster_t \<Rightarrow> 'st fdb_bittable_t \<Rightarrow> 'st fdb_bittable_t \<times> 'st \<Rightarrow>
   fdb_bcluster_t \<Rightarrow> 'st fdb_table_t list \<Rightarrow> (('st fdb_bittable_t \<times> 'st) \<times> fdb_bcluster_t) res" where
  "build_fdb_bcluster_from_refs h w ref_cluster current_frontier next_frontier cluster tables =
     bind_res (append_table_blocks tables (bc_start ref_cluster div FDB_TABLE_BLOCK_SIZE) cluster) (\<lambda>cluster.
     if bc_num_columns cluster > 0 then
       bind_res (column_block h ref_cluster 0) (\<lambda>data.
       bind_res (fdb_bitmap_nullify (bc_enabled cluster)) (\<lambda>en.
       step_positions data w ref_cluster current_frontier [0..<unat FDB_TABLE_BLOCK_SIZE]
         (next_frontier, cluster\<lparr>bc_enabled := en\<rparr>)))
     else Inr (next_frontier, cluster))"

text \<open>\<open>*(size_t*)ptr = object\<close>: the pointer is written as two halves, little-endian.\<close>

definition load64 :: "ptr \<Rightarrow> bytes \<Rightarrow> u64" where
  "load64 p w = ucast (load32 p w) OR push_bit 32 (ucast (load32 (p + 4) w))"

definition store64 :: "ptr \<Rightarrow> u64 \<Rightarrow> bytes \<Rightarrow> bytes" where
  "store64 p v w = store32 (p + 4) (ucast (drop_bit 32 v)) (store32 p (ucast v) w)"

text \<open>The loop over the tables of pointers, one for each column \<open>i\<close> of the cluster of the target.\<close>

fun copy_columns ::
  "(ptr \<rightharpoonup> fdb_table_block_t) \<Rightarrow> fdb_bcluster_t \<Rightarrow> u32 \<Rightarrow> u32 \<Rightarrow> u32 \<Rightarrow> 'st fdb_table_t list \<times> 'st \<Rightarrow> bytes \<Rightarrow>
   (('st fdb_table_t list \<times> 'st) \<times> bytes) res" where
  "copy_columns h cluster source target i ([], st) w = Inr (([], st), w)"
| "copy_columns h cluster source target i (table # tables, st) w =
     bind_res (fdb_table_create_component (table, st) source) (\<lambda>(p, (table, st)).
     bind_res (column_block h cluster i) (\<lambda>block.
     let object = tbk_data block + ucast (target mod FDB_TABLE_BLOCK_SIZE) * tbk_esize block in
     if p = NULL then Inl NullDeref else
     bind_res (copy_columns h cluster source target (i + 1) (tables, st) (store64 p object w)) (\<lambda>((tables, st), w).
     Inr ((table # tables, st), w))))"

definition bcluster_at :: "(ptr \<rightharpoonup> fdb_bcluster_t) \<Rightarrow> ptr \<Rightarrow> fdb_bcluster_t res" where
  "bcluster_at ch p = (if p = NULL then Inl NullDeref else case ch p of None \<Rightarrow> Inl BadPointer | Some c \<Rightarrow> Inr c)"

definition copy_component_ptr ::
  "(ptr \<rightharpoonup> fdb_table_block_t) \<Rightarrow> (ptr \<rightharpoonup> fdb_bcluster_t) \<Rightarrow> u32 \<Rightarrow> u32 \<Rightarrow> u32 \<Rightarrow> u32 \<Rightarrow> 'x fdb_btree_t list \<Rightarrow>
   'st fdb_table_t list \<times> 'st \<Rightarrow> bytes \<Rightarrow> (('st fdb_table_t list \<times> 'st) \<times> bytes) res" where
  "copy_component_ptr h ch chunk_size stride source target hash_tables ts w =
     (let other = target div FDB_TABLE_BLOCK_SIZE in
     bind_res (block_get_offset other chunk_size stride) (\<lambda>index.
     bind_res (rd hash_tables (unat index)) (\<lambda>hash_table.
     bind_res (fdb_btree_get hash_table other) (\<lambda>p.
     if p = NULL then Inr (ts, w) else
     bind_res (bcluster_at ch p) (\<lambda>cluster.
     bind_res (fdb_bitmap_is_set (bc_enabled cluster) (target mod FDB_TABLE_BLOCK_SIZE)) (\<lambda>e.
     if e then copy_columns h cluster source target 0 ts w else Inr (ts, w)))))))"

fun gather_positions ::
  "(ptr \<rightharpoonup> fdb_table_block_t) \<Rightarrow> (ptr \<rightharpoonup> fdb_bcluster_t) \<Rightarrow> fdb_bcluster_t \<Rightarrow> fdb_table_block_t \<Rightarrow> 'x fdb_btree_t list \<Rightarrow> u32 \<Rightarrow> u32 \<Rightarrow>
   nat list \<Rightarrow> 'st fdb_table_t list \<times> 'st \<Rightarrow> bytes \<Rightarrow> (('st fdb_table_t list \<times> 'st) \<times> bytes) res" where
  "gather_positions h ch cluster ref_data hash_tables chunk_size stride [] ts w = Inr (ts, w)"
| "gather_positions h ch cluster ref_data hash_tables chunk_size stride (i # js) ts w =
     bind_res (fdb_bitmap_is_set (bc_enabled cluster) (of_nat i)) (\<lambda>e.
     bind_res (if e then copy_component_ptr h ch chunk_size stride (bc_start cluster + of_nat i) (head_at ref_data w i)
                 hash_tables ts w
               else Inr (ts, w)) (\<lambda>(ts, w).
     gather_positions h ch cluster ref_data hash_tables chunk_size stride js ts w))"

definition gather ::
  "(ptr \<rightharpoonup> fdb_table_block_t) \<Rightarrow> (ptr \<rightharpoonup> fdb_bcluster_t) \<Rightarrow> fdb_bcluster_t \<Rightarrow> 'x fdb_btree_t list \<Rightarrow> u32 \<Rightarrow> u32 \<Rightarrow>
   'st fdb_table_t list \<times> 'st \<Rightarrow> bytes \<Rightarrow> (('st fdb_table_t list \<times> 'st) \<times> bytes) res" where
  "gather h ch cluster hash_tables chunk_size stride ts w =
     bind_res (column_block h cluster 0) (\<lambda>ref_data.
     gather_positions h ch cluster ref_data hash_tables chunk_size stride [0..<unat FDB_TABLE_BLOCK_SIZE] ts w)"

section \<open>The references of a block\<close>

definition refs_of :: "fdb_table_block_t \<Rightarrow> bytes \<Rightarrow> nat set \<Rightarrow> (u32 \<times> u32) set" where
  "refs_of block w I = (\<lambda>i. (tbk_start block + of_nat i, head_at block w i)) ` (bits (tbk_enabled block) \<inter> I)"

lemma refs_of_Cons: "refs_of block w (insert i I) = refs_of block w I \<union>
    (if i \<in> bits (tbk_enabled block) then {(tbk_start block + of_nat i, head_at block w i)} else {})"
  by (auto simp: refs_of_def)

lemma small_nat_word: "i < 256 \<Longrightarrow> unat (of_nat i :: u32) = i"
  by (simp add: unat_of_nat take_bit_nat_eq_self)

lemma is_set_256: "bm_inv k \<Longrightarrow> bm_max_bits k = 256 \<Longrightarrow> i < 256 \<Longrightarrow> fdb_bitmap_is_set k (of_nat i) = Inr (i \<in> bits k)"
  using fdb_bitmap_is_set_iff [of k "of_nat i"] by (simp add: small_nat_word)

lemma count_positions: "B \<subseteq> {..<256} \<Longrightarrow> length (filter (\<lambda>i. i \<in> B) [0..<256]) = card B"
proof -
  assume "B \<subseteq> {..<256}"
  then have "{i. i \<in> B} \<inter> set [0..<256] = B" by auto
  moreover have "length (filter (\<lambda>i. i \<in> B) [0..<256]) = card ({i. i \<in> B} \<inter> set [0..<256])"
    by (rule distinct_length_filter) (rule distinct_upt)
  ultimately show ?thesis by presburger
qed

text \<open>The roots of a set of references are the heads that are not tails.\<close>

definition roots_of :: "(u32 \<times> u32) set \<Rightarrow> u32 set" where "roots_of E = Range E - Domain E"

lemma roots_of_insert: "(roots_of E - {s}) \<union> ({t} - Domain (insert (s, t) E)) = roots_of (insert (s, t) E)"
  by (auto simp: roots_of_def)

section \<open>Two sets over one allocator\<close>

definition root_sets ::
  "('st \<Rightarrow> u32 \<Rightarrow> u32 \<Rightarrow> u32 \<Rightarrow> ptr \<times> 'st) \<Rightarrow> ('st \<Rightarrow> ptr \<Rightarrow> 'st) \<Rightarrow> ('st \<Rightarrow> (ptr \<rightharpoonup> nat) \<Rightarrow> bool) \<Rightarrow> (u32 \<Rightarrow> u32 \<Rightarrow> bool) \<Rightarrow>
   (bittable_client \<Rightarrow> 'c) \<Rightarrow> (bittable_client \<Rightarrow> 'c) \<Rightarrow> 'st fdb_bittable_t \<times> 'st fdb_bittable_t \<times> 'st \<Rightarrow>
   ('c \<Rightarrow> ptr \<rightharpoonup> nat) \<Rightarrow> (u32 \<times> u32) set \<Rightarrow> bool" where
  "root_sets alloc free ainv S e1 e2 rbs Ps E \<longleftrightarrow> (case rbs of (r, b, st) \<Rightarrow>
     (\<exists>xr xb. bittable_state alloc free ainv S e1 (r, st) Ps xr (roots_of E) \<and>
       bittable_state alloc free ainv S e2 (b, st) Ps xb (Domain E)))"

lemma bittable_state_other:
  assumes "bittable_state alloc free ainv S e2 (b, st) Ps xb B" "clients ainv st' Ps'"
    and "\<forall>c. c \<notin> range e1 \<longrightarrow> Ps' c = Ps c" "range e1 \<inter> range e2 = {}"
  shows "bittable_state alloc free ainv S e2 (b, st') Ps' xb B"
proof -
  have "Ps' (e2 x) = Ps (e2 x)" for x
  proof -
    have "e2 x \<notin> range e1" using assms(4) by blast
    then show ?thesis using assms(3) by blast
  qed
  then have "Ps' \<circ> e2 = Ps \<circ> e2" by (simp add: fun_eq_iff)
  then show ?thesis using assms(1,2) by (simp add: bittable_state_def)
qed

lemma bittable_state_clients: "bittable_state alloc free ainv S e (t, st) Ps xs A \<Longrightarrow> clients ainv st Ps"
  by (simp add: bittable_state_def)

lemma bittable_state_view: "bittable_state alloc free ainv S e (t, st) Ps xs A \<Longrightarrow> bittable_view t xs A"
  by (simp add: bittable_state_def)

context steady_provider
begin

abbreviation "rootstate \<equiv> root_sets alloc free ainv S"

lemma root_position_spec:
  assumes s: "rootstate e1 e2 (r, b, st) Ps E" and e: "inj e1" "inj e2" "range e1 \<inter> range e2 = {}"
    and k: "bm_inv (tbk_enabled k)" "bm_max_bits (tbk_enabled k) = 256" and i: "i < 256"
    and room: "room st (36 * of_bool (i \<in> bits (tbk_enabled k)) + n)"
  shows "\<exists>r' b' st' Ps'. root_positions k w (i # js) (r, b, st) = root_positions k w js (r', b', st') \<and>
    rootstate e1 e2 (r', b', st') Ps' (E \<union> refs_of k w {i}) \<and> room st' n \<and>
    (\<forall>c. c \<notin> range e1 \<union> range e2 \<longrightarrow> Ps' c = Ps c)"
proof (cases "i \<in> bits (tbk_enabled k)")
  case False
  have "room st n" by (rule room_le [OF room]) simp
  moreover have "refs_of k w {i} = {}" using False by (simp add: refs_of_def)
  moreover have "root_positions k w (i # js) (r, b, st) = root_positions k w js (r, b, st)"
    using is_set_256 [OF k i] False by simp
  ultimately show ?thesis using s by (intro exI [of _ r] exI [of _ b] exI [of _ st] exI [of _ Ps]) simp
next
  case True
  define src dst where "src = tbk_start k + of_nat i" and "dst = head_at k w i"
  let ?E = "insert (src, dst) E"
  have E: "E \<union> refs_of k w {i} = ?E" using True by (simp add: refs_of_def src_def dst_def)
  have e': "range e2 \<inter> range e1 = {}" using e(3) by blast
  obtain xr xb where sr: "bitstate e1 (r, st) Ps xr (roots_of E)" and sb: "bitstate e2 (b, st) Ps xb (Domain E)"
    using s unfolding root_sets_def by auto
  have rm: "room st (18 + (18 + n))" using room True by (simp add: add.assoc [symmetric])
  from add_spec [OF sb e(2) rm, of src] obtain b1 st1 xb1 Ps1 where
    1: "fdb_bittable_add (b, st) src = Inr (b1, st1)" "bitstate e2 (b1, st1) Ps1 xb1 (Domain ?E)"
      "room st1 (18 + n)" "\<forall>c. c \<notin> range e2 \<longrightarrow> Ps1 c = Ps c" by auto
  note sr1 = bittable_state_other [OF sr bittable_state_clients [OF 1(2)] 1(4) e']
  obtain r1 where 2: "fdb_bittable_remove r src = Inr r1" "bittable_view r1 xr (roots_of E - {src})" "same_bitsets r r1"
    using remove_spec [OF bittable_state_view [OF sr1], of src] by blast
  note sr2 = bitstate_same [OF sr1 2(3,2)]
  have ex: "fdb_bittable_exists b1 dst = Inr (dst \<in> Domain ?E)" by (rule exists_spec [OF bittable_state_view [OF 1(2)]])
  show ?thesis
  proof (cases "dst \<in> Domain ?E")
    case in_black: True
    have "roots_of E - {src} = roots_of ?E" using roots_of_insert [of E src dst] in_black by blast
    then have "rootstate e1 e2 (r1, b1, st1) Ps1 ?E" unfolding root_sets_def prod.case using sr2 1(2) by auto
    moreover have "root_positions k w (i # js) (r, b, st) = root_positions k w js (r1, b1, st1)"
      using is_set_256 [OF k i] True 1(1) 2(1) ex in_black by (simp add: src_def dst_def Let_def)
    moreover have "room st1 n" by (rule room_le [OF 1(3)]) simp
    ultimately show ?thesis using 1(4) unfolding E
      by (intro exI [of _ r1] exI [of _ b1] exI [of _ st1] exI [of _ Ps1]) auto
  next
    case new: False
    from add_spec [OF sr2 e(1) 1(3), of dst] obtain r2 st2 xr2 Ps2 where
      3: "fdb_bittable_add (r1, st1) dst = Inr (r2, st2)" "bitstate e1 (r2, st2) Ps2 xr2 (insert dst (roots_of E - {src}))"
        "room st2 n" "\<forall>c. c \<notin> range e1 \<longrightarrow> Ps2 c = Ps1 c" by auto
    note sb3 = bittable_state_other [OF 1(2) bittable_state_clients [OF 3(2)] 3(4) e(3)]
    have "insert dst (roots_of E - {src}) = roots_of ?E" using roots_of_insert [of E src dst] new by blast
    then have "rootstate e1 e2 (r2, b1, st2) Ps2 ?E" unfolding root_sets_def prod.case using 3(2) sb3 by auto
    moreover have "root_positions k w (i # js) (r, b, st) = root_positions k w js (r2, b1, st2)"
      using is_set_256 [OF k i] True 1(1) 2(1) ex new 3(1) by (simp add: src_def dst_def Let_def)
    ultimately show ?thesis using 1(4) 3(3,4) unfolding E
      by (intro exI [of _ r2] exI [of _ b1] exI [of _ st2] exI [of _ Ps2]) auto
  qed
qed

lemma root_positions_spec:
  assumes "rootstate e1 e2 (r, b, st) Ps E" "inj e1" "inj e2" "range e1 \<inter> range e2 = {}"
    and "bm_inv (tbk_enabled k)" "bm_max_bits (tbk_enabled k) = 256" "\<forall>i\<in>set js. i < 256"
    and "room st (36 * length (filter (\<lambda>i. i \<in> bits (tbk_enabled k)) js) + n)"
  shows "\<exists>r' b' st' Ps'. root_positions k w js (r, b, st) = Inr (r', b', st') \<and>
    rootstate e1 e2 (r', b', st') Ps' (E \<union> refs_of k w (set js)) \<and> room st' n \<and>
    (\<forall>c. c \<notin> range e1 \<union> range e2 \<longrightarrow> Ps' c = Ps c)"
  using assms(1,7,8)
proof (induction js arbitrary: r b st Ps E)
  case Nil
  then show ?case by (intro exI [of _ r] exI [of _ b] exI [of _ st] exI [of _ Ps]) (simp add: refs_of_def)
next
  case (Cons i js)
  let ?on = "\<lambda>js. 36 * length (filter (\<lambda>i. i \<in> bits (tbk_enabled k)) js) + n"
  have p: "i < 256" "\<forall>i\<in>set js. i < 256" "room st (36 * of_bool (i \<in> bits (tbk_enabled k)) + ?on js)"
    using Cons.prems(2,3) by (auto simp: ac_simps)
  from root_position_spec [OF Cons.prems(1) assms(2-6) p(1,3), of w js] obtain r1 b1 st1 Ps1 where
    1: "root_positions k w (i # js) (r, b, st) = root_positions k w js (r1, b1, st1)"
      "rootstate e1 e2 (r1, b1, st1) Ps1 (E \<union> refs_of k w {i})" "room st1 (?on js)"
      "\<forall>c. c \<notin> range e1 \<union> range e2 \<longrightarrow> Ps1 c = Ps c" by blast
  from Cons.IH [OF 1(2) p(2) 1(3)] obtain r2 b2 st2 Ps2 where
    2: "root_positions k w js (r1, b1, st1) = Inr (r2, b2, st2)"
      "rootstate e1 e2 (r2, b2, st2) Ps2 (E \<union> refs_of k w {i} \<union> refs_of k w (set js))" "room st2 n"
      "\<forall>c. c \<notin> range e1 \<union> range e2 \<longrightarrow> Ps2 c = Ps1 c" by blast
  have "E \<union> refs_of k w {i} \<union> refs_of k w (set js) = E \<union> refs_of k w (set (i # js))" by (auto simp: refs_of_def)
  then show ?case using 1(1,4) 2 by (intro exI [of _ r2] exI [of _ b2] exI [of _ st2] exI [of _ Ps2]) simp
qed

lemma find_roots_spec:
  assumes "rootstate e1 e2 (r, b, st) Ps E" "inj e1" "inj e2" "range e1 \<inter> range e2 = {}"
    and k: "column_block h bc 0 = Inr k" "bm_inv (tbk_enabled k)" "bm_max_bits (tbk_enabled k) = 256"
    and room: "room st (36 * card (bits (tbk_enabled k)) + n)"
  shows "\<exists>r' b' st' Ps'. find_roots_and_blacklist h w bc (r, b, st) = Inr (r', b', st') \<and>
    rootstate e1 e2 (r', b', st') Ps' (E \<union> refs_of k w UNIV) \<and> room st' n \<and>
    (\<forall>c. c \<notin> range e1 \<union> range e2 \<longrightarrow> Ps' c = Ps c)"
proof -
  let ?js = "[0..<256] :: nat list"
  have sub: "bits (tbk_enabled k) \<subseteq> {..<256}" by (rule bits_256 [OF k(2,3)])
  have rm: "room st (36 * length (filter (\<lambda>i. i \<in> bits (tbk_enabled k)) ?js) + n)"
    unfolding count_positions [OF sub] by (rule room)
  have js: "\<forall>i\<in>set ?js. i < 256" by simp
  have "refs_of k w (set ?js) = refs_of k w UNIV" unfolding refs_of_def using sub by (intro image_cong) auto
  then show ?thesis using root_positions_spec [OF assms(1-4) k(2,3) js rm, of w] k(1)
    by (simp add: find_roots_and_blacklist_def FDB_TABLE_BLOCK_SIZE_def)
qed

end

section \<open>The roots of a reference table\<close>

text \<open>The loop over the blocks, each in a cluster of its own.\<close>

fun find_all_roots ::
  "(ptr \<rightharpoonup> fdb_table_block_t) \<Rightarrow> bytes \<Rightarrow> fdb_bcluster_t list \<Rightarrow> 'st fdb_bittable_t \<times> 'st fdb_bittable_t \<times> 'st \<Rightarrow>
   ('st fdb_bittable_t \<times> 'st fdb_bittable_t \<times> 'st) res" where
  "find_all_roots h w [] rbs = Inr rbs"
| "find_all_roots h w (bc # bcs) rbs = bind_res (find_roots_and_blacklist h w bc rbs) (find_all_roots h w bcs)"

definition graph_in :: "(u32 \<rightharpoonup> u32) \<Rightarrow> u32 \<Rightarrow> (u32 \<times> u32) set" where
  "graph_in m b = {(x, y). x div 256 = b \<and> m x = Some y}"

lemma block_refs:
  assumes r: "refs_held t xs w m" and p: "(b, p) \<in> set xs" "tb_heap t p = Some k"
  shows "refs_of k w UNIV = graph_in m b" "bm_inv (tbk_enabled k)" "bm_max_bits (tbk_enabled k) = 256"
    "card (bits (tbk_enabled k)) = card (dom m \<inter> ids_of b)"
proof -
  have v: "table_view t xs (dom m) (dom m)" and e: "tb_esize t = 4" using r by (simp_all add: refs_held_def)
  have b: "unat b < 2 ^ 24" and ok: "block_ok b 4 (dom m) (dom m) k"
    using v p unfolding table_view_def e by fastforce+
  note o = ok [unfolded block_ok_def]
  show inv: "bm_inv (tbk_enabled k)" "bm_max_bits (tbk_enabled k) = 256" using o by simp_all
  note sub = bits_256 [OF inv]
  have on: "unat (x mod 256) \<in> bits (tbk_enabled k) \<longleftrightarrow> x \<in> dom m" if "x div 256 = b" for x using o that by blast
  have head: "head_at k w (unat (x mod 256)) = y" if x: "x div 256 = b" "m x = Some y" for x y
  proof -
    have u: "unat (of_nat (unat (x mod 256)) :: u64) = unat (x mod 256)"
      using mod_256_lt [of x] by (simp add: unat_of_nat take_bit_nat_eq_self)
    have "unat (ucast (x mod 256) :: u64) = unat (x mod 256)" by (rule unat_ucast_u32_u64)
    then have "(of_nat (unat (x mod 256)) :: u64) = ucast (x mod 256)" using u by (simp add: word_unat_eq_iff)
    then have "comp_addr (block_base t xs) 4 x = tbk_data k + 4 * of_nat (unat (x mod 256))"
      using base_present [OF v p] x(1) by (simp add: comp_addr_def mult.commute)
    then show ?thesis using r x(2) unfolding refs_held_def head_at_def by metis
  qed
  have eq: "b * 256 + of_nat (unat (x mod 256)) = x" if "x div 256 = b" for x
    using block_position [OF b, of "unat (x mod 256)"] mod_256_lt [of x] that id_parts by metis
  show "refs_of k w UNIV = graph_in m b"
  proof (intro set_eqI iffI)
    fix z assume "z \<in> refs_of k w UNIV"
    then obtain i where i: "i \<in> bits (tbk_enabled k)" "z = (b * 256 + of_nat i, head_at k w i)"
      using o by (auto simp: refs_of_def)
    then have "i < 256" using sub by auto
    note pos = block_position [OF b this]
    then obtain y where "m (b * 256 + of_nat i) = Some y" using on [of "b * 256 + of_nat i"] i(1) by auto
    then show "z \<in> graph_in m b" using head [OF pos(1)] pos i(2) by (simp add: graph_in_def)
  next
    fix z assume "z \<in> graph_in m b"
    then obtain x y where z: "z = (x, y)" "x div 256 = b" "m x = Some y" by (auto simp: graph_in_def)
    then have "unat (x mod 256) \<in> bits (tbk_enabled k)" using on by auto
    then show "z \<in> refs_of k w UNIV" using head [OF z(2,3)] eq [OF z(2)] z(1) o
      unfolding refs_of_def by (intro image_eqI [of _ _ "unat (x mod 256)"]) auto
  qed
  have "ids_at b (bits (tbk_enabled k)) = dom m \<inter> ids_of b" using on unfolding ids_at_def by blast
  then show "card (bits (tbk_enabled k)) = card (dom m \<inter> ids_of b)" using card_ids_at [OF b sub] by simp
qed

definition block_no :: "'st fdb_table_t \<Rightarrow> ptr \<Rightarrow> u32" where
  "block_no t p = tbk_start (the (tb_heap t p)) div 256"

lemma block_no:
  assumes v: "table_view t xs ex en" and p: "tb_heap t p = Some k"
  shows "(block_no t p, p) \<in> set xs"
proof -
  have "p \<in> snd ` set xs" using v p by (auto simp: table_view_def)
  then obtain b where b: "(b, p) \<in> set xs" by auto
  then have "unat b < 2 ^ 24" "tbk_start k = b * 256" using v p unfolding table_view_def block_ok_def by fastforce+
  then have "tbk_start k div 256 = b" using block_position(1) [of b 0] by simp
  then show ?thesis using b p by (simp add: block_no_def)
qed

lemma table_refs:
  assumes r: "refs_held t xs w m" and ps: "distinct ps" "set ps = dom (tb_heap t)"
  shows "(\<Union>p\<in>set ps. refs_of (the (tb_heap t p)) w UNIV) = {(x, y). m x = Some y}"
    "(\<Sum>p\<leftarrow>ps. card (bits (tbk_enabled (the (tb_heap t p))))) = card (dom m)"
proof -
  have v: "table_view t xs (dom m) (dom m)" using r by (simp add: refs_held_def)
  have d: "distinct (map fst xs)" using table_view_ascending [OF v] by (simp add: strict_sorted_iff)
  have k: "tb_heap t p = Some (the (tb_heap t p))" if "p \<in> set ps" for p using ps(2) that by (auto simp: dom_def)
  note at = block_no [OF v k]
  have inj: "inj_on (block_no t) (set ps)"
  proof (rule inj_onI)
    fix p q assume "p \<in> set ps" "q \<in> set ps" "block_no t p = block_no t q"
    then show "p = q" using at [of p] at [of q] eq_key_imp_eq_value [OF d] by metis
  qed
  have cover: "x div 256 \<in> block_no t ` set ps" if "x \<in> dom m" for x
  proof -
    have "x div 256 \<in> fst ` set xs" using v that by (auto simp: table_view_def)
    then obtain p where p: "(x div 256, p) \<in> set xs" by auto
    have "snd (x div 256, p) \<in> snd ` set xs" by (rule imageI [OF p])
    then have "p \<in> set ps" using v ps(2) by (simp add: table_view_def)
    then have "block_no t p = x div 256" using at [of p] p v unfolding table_view_def by (metis eq_snd_iff distinct_map inj_onD fst_conv)
    then show ?thesis using \<open>p \<in> set ps\<close> by (metis imageI)
  qed
  note b = block_refs [OF r at k]
  show "(\<Union>p\<in>set ps. refs_of (the (tb_heap t p)) w UNIV) = {(x, y). m x = Some y}"
    using b(1) cover by (fastforce simp: graph_in_def)
  have "(\<Sum>p\<leftarrow>ps. card (bits (tbk_enabled (the (tb_heap t p))))) = (\<Sum>p\<in>set ps. card (dom m \<inter> ids_of (block_no t p)))"
    unfolding sum_list_distinct_conv_sum_set [OF ps(1)] by (rule sum.cong) (use b(4) in auto)
  also have "\<dots> = card (\<Union>p\<in>set ps. dom m \<inter> ids_of (block_no t p))"
    by (rule card_UN_disjoint [symmetric]) (use inj in \<open>auto dest: inj_onD\<close>)
  also have "(\<Union>p\<in>set ps. dom m \<inter> ids_of (block_no t p)) = dom m" using cover by auto
  finally show "(\<Sum>p\<leftarrow>ps. card (bits (tbk_enabled (the (tb_heap t p))))) = card (dom m)" .
qed

context steady_provider
begin

lemma find_all_roots_spec:
  assumes "rootstate e1 e2 (r, b, st) Ps E" "inj e1" "inj e2" "range e1 \<inter> range e2 = {}"
    and "map (\<lambda>bc. column_block h bc 0) bcs = map Inr ks"
    and "\<forall>k\<in>set ks. bm_inv (tbk_enabled k) \<and> bm_max_bits (tbk_enabled k) = 256"
    and "room st (36 * (\<Sum>k\<leftarrow>ks. card (bits (tbk_enabled k))) + n)"
  shows "\<exists>r' b' st' Ps'. find_all_roots h w bcs (r, b, st) = Inr (r', b', st') \<and>
    rootstate e1 e2 (r', b', st') Ps' (E \<union> (\<Union>k\<in>set ks. refs_of k w UNIV)) \<and> room st' n"
  using assms(1,5-7)
proof (induction bcs arbitrary: r b st Ps E ks)
  case Nil
  then show ?case by auto
next
  case (Cons bc bcs)
  obtain k ks' where ks: "ks = k # ks'" "column_block h bc 0 = Inr k" "map (\<lambda>bc. column_block h bc 0) bcs = map Inr ks'"
    using Cons.prems(2) by (cases ks) auto
  let ?n = "36 * (\<Sum>k\<leftarrow>ks'. card (bits (tbk_enabled k))) + n"
  have k: "bm_inv (tbk_enabled k)" "bm_max_bits (tbk_enabled k) = 256" and rm: "room st (36 * card (bits (tbk_enabled k)) + ?n)"
    and rest: "\<forall>k\<in>set ks'. bm_inv (tbk_enabled k) \<and> bm_max_bits (tbk_enabled k) = 256"
    using Cons.prems(3,4) ks(1) by (simp_all add: algebra_simps)
  from find_roots_spec [OF Cons.prems(1) assms(2-4) ks(2) k rm, of w] obtain r1 b1 st1 Ps1 where
    1: "find_roots_and_blacklist h w bc (r, b, st) = Inr (r1, b1, st1)"
      "rootstate e1 e2 (r1, b1, st1) Ps1 (E \<union> refs_of k w UNIV)" "room st1 ?n" by blast
  from Cons.IH [OF 1(2) ks(3) rest 1(3)] show ?case using 1(1) ks(1) by (simp add: Un_assoc)
qed

end

section \<open>One step along the references\<close>

context steady_provider
begin

lemma step_positions_spec:
  assumes v: "bittable_view cur xc F" and e: "inj e" and k: "bm_inv (bc_enabled ref)" "bm_max_bits (bc_enabled ref) = 256"
    and "bitstate e (t, st) Ps xs A" "bm_inv (bc_enabled bc)" "bm_max_bits (bc_enabled bc) = 256"
    and "\<forall>i\<in>set js. i < 256" "room st (18 * length (filter (\<lambda>i. i \<in> bits (bc_enabled ref)) js) + n)"
  shows "\<exists>t' st' xs' Ps' en. step_positions d w ref cur js ((t, st), bc) = Inr ((t', st'), bc\<lparr>bc_enabled := en\<rparr>) \<and>
    bitstate e (t', st') Ps' xs' (A \<union> (\<lambda>i. bc_start ref + of_nat i) ` {i \<in> set js \<inter> bits (bc_enabled ref). head_at d w i \<in> F}) \<and>
    bm_inv en \<and> bm_max_bits en = 256 \<and>
    bits en = bits (bc_enabled bc) \<union> {i \<in> set js \<inter> bits (bc_enabled ref). head_at d w i \<in> F} \<and> room st' n \<and>
    (\<forall>c. c \<notin> range e \<longrightarrow> Ps' c = Ps c)"
  using assms(5-)
proof (induction js arbitrary: t st Ps xs A bc)
  case Nil
  then show ?case
    by (intro exI [of _ t] exI [of _ st] exI [of _ xs] exI [of _ Ps] exI [of _ "bc_enabled bc"]) simp
next
  case (Cons i js)
  let ?new = "\<lambda>I. {i \<in> I \<inter> bits (bc_enabled ref). head_at d w i \<in> F}"
  let ?ids = "\<lambda>I. (\<lambda>i. bc_start ref + of_nat i) ` ?new I"
  have i: "i < 256" "\<forall>i\<in>set js. i < 256" using Cons.prems(4) by simp_all
  let ?n = "18 * length (filter (\<lambda>i. i \<in> bits (bc_enabled ref)) js) + n"
  have rm0: "room st (18 * of_bool (i \<in> bits (bc_enabled ref)) + ?n)" using Cons.prems(5) by (auto simp: ac_simps)
  have is_in: "fdb_bitmap_is_set (bc_enabled ref) (of_nat i) = Inr (i \<in> bits (bc_enabled ref))" by (rule is_set_256 [OF k i(1)])
  have ex: "fdb_bittable_exists cur (head_at d w i) = Inr (head_at d w i \<in> F)" by (rule exists_spec [OF v])
  show ?case
  proof (cases "i \<in> bits (bc_enabled ref) \<and> head_at d w i \<in> F")
    case False
    then have "step_positions d w ref cur (i # js) ((t, st), bc) = step_positions d w ref cur js ((t, st), bc)"
      using is_in ex by auto
    moreover have "?new (set (i # js)) = ?new (set js)" using False by auto
    moreover have "room st ?n" by (rule room_le [OF rm0]) simp
    ultimately show ?thesis using Cons.IH [OF Cons.prems(1-3) i(2)] by simp
  next
    case True
    have rm: "room st (18 + ?n)" using rm0 True by simp
    obtain en where en: "fdb_bitmap_set (bc_enabled bc) (of_nat i) = Inr en" "bm_inv en"
      "bits en = insert i (bits (bc_enabled bc))" "bm_max_bits en = bm_max_bits (bc_enabled bc)"
      by (rule fdb_bitmap_set_spec [of "bc_enabled bc" "of_nat i"]) (use Cons.prems(2,3) i small_nat_word [OF i(1)] in simp_all)
    let ?bc = "bc\<lparr>bc_enabled := en\<rparr>"
    from add_spec [OF Cons.prems(1) e rm, of "of_nat i + bc_start ref"] obtain t1 st1 xs1 Ps1 where
      1: "fdb_bittable_add (t, st) (of_nat i + bc_start ref) = Inr (t1, st1)"
        "bitstate e (t1, st1) Ps1 xs1 (insert (of_nat i + bc_start ref) A)" "room st1 ?n"
        "\<forall>c. c \<notin> range e \<longrightarrow> Ps1 c = Ps c" by blast
    have run: "step_positions d w ref cur (i # js) ((t, st), bc) = step_positions d w ref cur js ((t1, st1), ?bc)"
      using True is_in ex en(1) 1(1) by simp
    have inv: "bm_inv (bc_enabled ?bc)" "bm_max_bits (bc_enabled ?bc) = 256" using en Cons.prems(3) by simp_all
    from Cons.IH [OF 1(2) inv i(2) 1(3)] obtain t2 st2 xs2 Ps2 en2 where
      2: "step_positions d w ref cur js ((t1, st1), ?bc) = Inr ((t2, st2), ?bc\<lparr>bc_enabled := en2\<rparr>)"
        "bitstate e (t2, st2) Ps2 xs2 (insert (of_nat i + bc_start ref) A \<union> ?ids (set js))" "bm_inv en2" "bm_max_bits en2 = 256"
        "bits en2 = bits (bc_enabled ?bc) \<union> ?new (set js)" "room st2 n" "\<forall>c. c \<notin> range e \<longrightarrow> Ps2 c = Ps1 c" by blast
    have new: "?new (set (i # js)) = insert i (?new (set js))" using True by auto
    have "insert (of_nat i + bc_start ref) A \<union> ?ids (set js) = A \<union> ?ids (set (i # js))"
      unfolding new image_insert by (simp add: add.commute)
    moreover have "bits (bc_enabled ?bc) \<union> ?new (set js) = bits (bc_enabled bc) \<union> ?new (set (i # js))"
      unfolding new using en(3) by simp
    ultimately show ?thesis using run 2(1-4,6,7) 2(5) 1(4)
      by (intro exI [of _ t2] exI [of _ st2] exI [of _ xs2] exI [of _ Ps2] exI [of _ en2]) simp
  qed
qed

end

lemma filter_positions_spec:
  assumes v: "bittable_view u xs A" and col: "column_block h bc column = Inr d"
    and "bm_inv (bc_enabled bc)" "bm_max_bits (bc_enabled bc) = 256" "distinct js" "\<forall>i\<in>set js. i < 256"
  shows "\<exists>en. filter_positions doomed h w u column js bc = Inr (bc\<lparr>bc_enabled := en\<rparr>) \<and> bm_inv en \<and> bm_max_bits en = 256 \<and>
    bits en = {i \<in> bits (bc_enabled bc). i \<in> set js \<longrightarrow> \<not> doomed (head_at d w i \<in> A)}"
  using assms(2-)
proof (induction js arbitrary: bc)
  case Nil
  then show ?case by (intro exI [of _ "bc_enabled bc"]) simp
next
  case (Cons i js)
  have i: "i < 256" "\<forall>i\<in>set js. i < 256" "i \<notin> set js" "distinct js" using Cons.prems(4,5) by simp_all
  have is_in: "fdb_bitmap_is_set (bc_enabled bc) (of_nat i) = Inr (i \<in> bits (bc_enabled bc))"
    by (rule is_set_256 [OF Cons.prems(2,3) i(1)])
  have ex: "fdb_bittable_exists u (head_at d w i) = Inr (head_at d w i \<in> A)" by (rule exists_spec [OF v])
  show ?case
  proof (cases "i \<in> bits (bc_enabled bc) \<and> doomed (head_at d w i \<in> A)")
    case False
    then have run: "filter_positions doomed h w u column (i # js) bc = filter_positions doomed h w u column js bc"
      using is_in ex Cons.prems(1) by auto
    have "{j \<in> bits (bc_enabled bc). j \<in> set (i # js) \<longrightarrow> \<not> doomed (head_at d w j \<in> A)} =
      {j \<in> bits (bc_enabled bc). j \<in> set js \<longrightarrow> \<not> doomed (head_at d w j \<in> A)}" using False by auto
    then show ?thesis using run Cons.IH [OF Cons.prems(1-3) i(4,2)] by simp
  next
    case True
    obtain en where en: "fdb_bitmap_unset (bc_enabled bc) (of_nat i) = Inr en" "bm_inv en"
      "bits en = bits (bc_enabled bc) - {i}" "bm_max_bits en = bm_max_bits (bc_enabled bc)"
      by (rule fdb_bitmap_unset_spec [of "bc_enabled bc" "of_nat i"]) (use Cons.prems(2,3) i small_nat_word [OF i(1)] in simp_all)
    let ?bc = "bc\<lparr>bc_enabled := en\<rparr>"
    have run: "filter_positions doomed h w u column (i # js) bc = filter_positions doomed h w u column js ?bc"
      using True is_in ex Cons.prems(1) en(1) by simp
    have inv: "bm_inv (bc_enabled ?bc)" "bm_max_bits (bc_enabled ?bc) = 256" using en Cons.prems(3) by simp_all
    have col': "column_block h ?bc column = Inr d" using Cons.prems(1) by (simp add: column_block_def fdb_bcluster_get_tblock_def)
    have "{j \<in> bits (bc_enabled ?bc). j \<in> set js \<longrightarrow> \<not> doomed (head_at d w j \<in> A)} =
      {j \<in> bits (bc_enabled bc). j \<in> set (i # js) \<longrightarrow> \<not> doomed (head_at d w j \<in> A)}" using True en(3) i(3) by auto
    then show ?thesis using run Cons.IH [OF col' inv i(4,2)] by simp
  qed
qed

lemma filter_bittable_spec:
  assumes "bittable_view u xs A" "column_block h bc column = Inr d" "cluster_inv bc"
  shows "\<exists>en. filter_bittable_exists h w u bc column = Inr (bc\<lparr>bc_enabled := en\<rparr>) \<and> bm_inv en \<and> bm_max_bits en = 256 \<and>
      bits en = {i \<in> bits (bc_enabled bc). head_at d w i \<in> A}"
    "\<exists>en. filter_bittable_not_exists h w u bc column = Inr (bc\<lparr>bc_enabled := en\<rparr>) \<and> bm_inv en \<and> bm_max_bits en = 256 \<and>
      bits en = {i \<in> bits (bc_enabled bc). head_at d w i \<notin> A}"
proof -
  have inv: "bm_inv (bc_enabled bc)" "bm_max_bits (bc_enabled bc) = 256" using assms(3) by (simp_all add: cluster_inv_def)
  have js: "distinct [0..<256 :: nat]" "\<forall>i\<in>set [0..<256]. i < 256" by simp_all
  have all: "i \<in> set [0..<256]" if "i \<in> bits (bc_enabled bc)" for i using bits_256 [OF inv] that by auto
  note f = filter_positions_spec [OF assms(1,2) inv js, of _ w]
  show "\<exists>en. filter_bittable_exists h w u bc column = Inr (bc\<lparr>bc_enabled := en\<rparr>) \<and> bm_inv en \<and> bm_max_bits en = 256 \<and>
      bits en = {i \<in> bits (bc_enabled bc). head_at d w i \<in> A}"
    using f [of Not] all unfolding filter_bittable_exists_def FDB_TABLE_BLOCK_SIZE_def by auto
  show "\<exists>en. filter_bittable_not_exists h w u bc column = Inr (bc\<lparr>bc_enabled := en\<rparr>) \<and> bm_inv en \<and> bm_max_bits en = 256 \<and>
      bits en = {i \<in> bits (bc_enabled bc). head_at d w i \<notin> A}"
    using f [of "\<lambda>b. b"] all unfolding filter_bittable_not_exists_def FDB_TABLE_BLOCK_SIZE_def by auto
qed

text \<open>The blocks appended to the cluster: those of the tables that have one for the range.\<close>

definition blocks_at :: "'st fdb_table_t list \<Rightarrow> u32 \<Rightarrow> ptr list" where
  "blocks_at tables b = filter (\<lambda>p. p \<noteq> NULL) (map (\<lambda>t. case fdb_table_get_block t b of Inl _ \<Rightarrow> NULL | Inr p \<Rightarrow> p) tables)"

lemma append_table_blocks_spec:
  assumes "\<forall>t\<in>set tables. \<exists>xs ex en. table_view t xs ex en" "cluster_inv bc"
    and "unat (bc_num_columns bc) + length tables \<le> 16"
  shows "\<exists>bc'. append_table_blocks tables b bc = Inr bc' \<and> cluster_inv bc' \<and>
    fst (cluster_abs bc') = fst (cluster_abs bc) @ map Block (blocks_at tables b)"
  using assms
proof (induction tables arbitrary: bc)
  case Nil
  then show ?case by (simp add: blocks_at_def)
next
  case (Cons t tables)
  obtain xs ex en where v: "table_view t xs ex en" using Cons.prems(1) by auto
  have room: "unat (bc_num_columns bc) < 16" using Cons.prems(3) by simp
  show ?case
  proof (cases "b \<in> fst ` set xs")
    case False
    have g: "fdb_table_get_block t b = Inr NULL" using view_absent [OF v False] by (simp add: fdb_table_get_block_def)
    then show ?thesis using Cons.IH [OF _ Cons.prems(2)] Cons.prems(1,3) by (simp add: blocks_at_def)
  next
    case True
    obtain p k where g: "fdb_table_get_block t b = Inr p" and k: "tblock_at (tb_heap t) p = Inr k" "block_shape k"
      by (rule block_enabled [OF v True])
    have p: "p \<noteq> NULL" using k(1) by (auto simp: tblock_at_def)
    obtain bc1 where 1: "fdb_bcluster_append_block (tb_heap t) bc p = Inr bc1" "cluster_inv bc1"
      "cluster_abs bc1 = abs_block p k (cluster_abs bc)"
      using append_block_spec [OF Cons.prems(2) room k] by blast
    have cols: "fst (cluster_abs bc1) = fst (cluster_abs bc) @ [Block p]"
      unfolding 1(3) by (simp add: abs_block_def case_prod_unfold)
    then have "length (fst (cluster_abs bc1)) = length (fst (cluster_abs bc)) + 1" by simp
    then have n: "unat (bc_num_columns bc1) = unat (bc_num_columns bc) + 1" by (simp add: cluster_abs_def)
    obtain bc2 where "append_table_blocks tables b bc1 = Inr bc2" "cluster_inv bc2"
      "fst (cluster_abs bc2) = fst (cluster_abs bc1) @ map Block (blocks_at tables b)"
      using Cons.IH [OF _ 1(2)] Cons.prems(1,3) n by auto
    then show ?thesis using g p 1(1) cols by (simp add: blocks_at_def)
  qed
qed

definition followed :: "fdb_bcluster_t \<Rightarrow> fdb_table_block_t \<Rightarrow> bytes \<Rightarrow> u32 set \<Rightarrow> nat set" where
  "followed ref d w F = {i \<in> bits (bc_enabled ref). head_at d w i \<in> F}"

context steady_provider
begin

lemma build_spec:
  assumes s: "bitstate e (t, st) Ps xs A" "inj e" and v: "bittable_view cur xc F" and ref: "cluster_inv ref"
    and d: "column_block h ref 0 = Inr d" and tables: "\<forall>t\<in>set tables. \<exists>xs ex en. table_view t xs ex en"
    and bc: "cluster_inv bc" "unat (bc_num_columns bc) + length tables \<le> 16"
    and room: "room st (18 * card (bits (bc_enabled ref)) + n)"
  shows "\<exists>t' st' xs' Ps' bc'. build_fdb_bcluster_from_refs h w ref cur (t, st) bc tables = Inr ((t', st'), bc') \<and>
    fst (cluster_abs bc') = fst (cluster_abs bc) @ map Block (blocks_at tables (bc_start ref div 256)) \<and> room st' n \<and>
    (if fst (cluster_abs bc') = [] then bitstate e (t', st') Ps' xs' A else
      bits (bc_enabled bc') = followed ref d w F \<and>
      bitstate e (t', st') Ps' xs' (A \<union> (\<lambda>i. bc_start ref + of_nat i) ` followed ref d w F))"
proof -
  obtain c where c: "append_table_blocks tables (bc_start ref div 256) bc = Inr c" "cluster_inv c"
    "fst (cluster_abs c) = fst (cluster_abs bc) @ map Block (blocks_at tables (bc_start ref div 256))"
    using append_table_blocks_spec [OF tables bc] by blast
  have none: "bc_num_columns c > 0 \<longleftrightarrow> fst (cluster_abs c) \<noteq> []" by (simp add: cluster_abs_def word_less_nat_alt)
  show ?thesis
  proof (cases "bc_num_columns c > 0")
    case False
    then have "build_fdb_bcluster_from_refs h w ref cur (t, st) bc tables = Inr ((t, st), c)"
      using c(1) by (simp add: build_fdb_bcluster_from_refs_def FDB_TABLE_BLOCK_SIZE_def)
    moreover have "room st n" by (rule room_le [OF room]) simp
    moreover have "fst (cluster_abs c) = []" using False none by blast
    ultimately show ?thesis using s(1) c(3)
      by (intro exI [of _ t] exI [of _ st] exI [of _ xs] exI [of _ Ps] exI [of _ c]) simp
  next
    case True
    have i: "bm_inv (bc_enabled c)" "bm_max_bits (bc_enabled c) = 256" "bm_inv (bc_enabled ref)" "bm_max_bits (bc_enabled ref) = 256"
      using c(2) ref by (simp_all add: cluster_inv_def)
    obtain z where z: "fdb_bitmap_nullify (bc_enabled c) = Inr z" "bm_inv z" "bits z = {}" "bm_max_bits z = 256"
      by (rule fdb_bitmap_nullify_spec [OF i(1)]) (use i in simp_all)
    let ?c = "c\<lparr>bc_enabled := z\<rparr>"
    have zi: "bm_inv (bc_enabled ?c)" "bm_max_bits (bc_enabled ?c) = 256" using z by simp_all
    have js: "\<forall>i\<in>set [0..<256]. i < 256" by simp
    have rm: "room st (18 * length (filter (\<lambda>i. i \<in> bits (bc_enabled ref)) [0..<256]) + n)"
      unfolding count_positions [OF bits_256 [OF i(3,4)]] by (rule room)
    have "{i \<in> set [0..<256] \<inter> bits (bc_enabled ref). head_at d w i \<in> F} = followed ref d w F"
      using bits_256 [OF i(3,4)] by (auto simp: followed_def)
    note this = step_positions_spec [OF v s(2) i(3,4) s(1) zi js rm, of d w, unfolded this]
    then obtain t' st' xs' Ps' en where
      r: "step_positions d w ref cur [0..<256] ((t, st), ?c) = Inr ((t', st'), ?c\<lparr>bc_enabled := en\<rparr>)"
        "bitstate e (t', st') Ps' xs' (A \<union> (\<lambda>i. bc_start ref + of_nat i) ` followed ref d w F)"
        "bits en = bits (bc_enabled ?c) \<union> followed ref d w F" "room st' n" by blast
    have "build_fdb_bcluster_from_refs h w ref cur (t, st) bc tables = Inr ((t', st'), c\<lparr>bc_enabled := en\<rparr>)"
      using c(1) True d z(1) r(1) by (simp add: build_fdb_bcluster_from_refs_def FDB_TABLE_BLOCK_SIZE_def)
    moreover have "fst (cluster_abs (c\<lparr>bc_enabled := en\<rparr>)) = fst (cluster_abs c)"
      by (simp add: cluster_abs_def cluster_col_def)
    moreover have "bits en = followed ref d w F" using r(3) z(3) by simp
    ultimately show ?thesis using r(2,4) c(3) True none
      by (intro exI [of _ t'] exI [of _ st'] exI [of _ xs'] exI [of _ Ps'] exI [of _ "c\<lparr>bc_enabled := en\<rparr>"]) auto
  qed
qed

text \<open>Many sets joined to one, and many taken from one.\<close>

lemma frontiers_union_spec:
  assumes "bitstate e (t, st) Ps xs A" "inj e" "\<forall>u\<in>set us. \<exists>zs T. bittable_view u zs T"
    and "room st (\<Sum>u\<leftarrow>us. 18 * card (dom (bb_heap u)))"
  shows "\<exists>t' st' xs' Ps'. frontiers_union BB_FUEL us (t, st) = Inr (t', st') \<and>
    bitstate e (t', st') Ps' xs' (A \<union> (\<Union>u\<in>set us. bittable_ids u))"
  using assms(1,3,4)
proof (induction us arbitrary: t st Ps xs A)
  case Nil
  then show ?case by auto
next
  case (Cons u us)
  obtain zs T where u: "bittable_view u zs T" using Cons.prems(2) by auto
  have rm: "room st (18 * length zs + (\<Sum>u\<leftarrow>us. 18 * card (dom (bb_heap u))))" and fuel: "length zs < BB_FUEL"
    using Cons.prems(3) view_length [OF u] by (simp_all add: BB_FUEL_def)
  from combine_spec [OF Cons.prems(1) assms(2) u _ rm fuel, of E_OR] obtain t1 st1 xs1 Ps1 where
    1: "fdb_bittable_union BB_FUEL (t, st) u = Inr (t1, st1)" "bitstate e (t1, st1) Ps1 xs1 (A \<union> T)"
      "room st1 (\<Sum>u\<leftarrow>us. 18 * card (dom (bb_heap u)))" by (auto simp: fdb_bittable_union_def)
  show ?case using Cons.IH [OF 1(2) _ 1(3)] Cons.prems(2) 1(1) bittable_ids_view [OF u] by (simp add: Un_assoc)
qed

lemma filter_blacklists_spec:
  assumes "bitstate e (t, st) Ps xs A" "inj e" "\<forall>u\<in>set us. \<exists>zs T. bittable_view u zs T"
    and "room st (\<Sum>u\<leftarrow>us. 18 * card (dom (bb_heap u)))"
  shows "\<exists>t' st' xs' Ps'. filter_blacklists BB_FUEL us (t, st) = Inr (t', st') \<and>
    bitstate e (t', st') Ps' xs' (A - (\<Union>u\<in>set us. bittable_ids u))"
  using assms(1,3,4)
proof (induction us arbitrary: t st Ps xs A)
  case Nil
  then show ?case by auto
next
  case (Cons u us)
  obtain zs T where u: "bittable_view u zs T" using Cons.prems(2) by auto
  have rm: "room st (18 * length zs + (\<Sum>u\<leftarrow>us. 18 * card (dom (bb_heap u))))" and fuel: "length zs < BB_FUEL"
    using Cons.prems(3) view_length [OF u] by (simp_all add: BB_FUEL_def)
  from combine_spec [OF Cons.prems(1) assms(2) u _ rm fuel, of E_DIFF] obtain t1 st1 xs1 Ps1 where
    1: "fdb_bittable_difference BB_FUEL (t, st) u = Inr (t1, st1)" "bitstate e (t1, st1) Ps1 xs1 (A - T)"
      "room st1 (\<Sum>u\<leftarrow>us. 18 * card (dom (bb_heap u)))" by (auto simp: fdb_bittable_difference_def)
  show ?case using Cons.IH [OF 1(2) _ 1(3)] Cons.prems(2) 1(1) bittable_ids_view [OF u] by (simp add: Diff_eq Int_assoc)
qed

end

section \<open>Pointers to the components of the heads\<close>

lemma halves: "ucast (ucast (v :: u64) :: u32) OR push_bit 32 (ucast (ucast (drop_bit 32 v) :: u32)) = v"
proof (rule bit_word_eqI)
  fix n assume "n < LENGTH(64)"
  then show "bit (ucast (ucast v :: u32) OR push_bit 32 (ucast (ucast (drop_bit 32 v) :: u32)) :: u64) n = bit v n"
    by (cases "n < 32") (auto simp: bit_simps)
qed

lemma plus4: "unat p + 8 < 2 ^ 64 \<Longrightarrow> unat ((p :: ptr) + 4) = unat p + 4"
  by (simp add: unat_word_ariths)

lemma load_store64: "unat p + 8 < 2 ^ 64 \<Longrightarrow> load64 p (store64 p v w) = v"
proof -
  assume p: "unat p + 8 < 2 ^ 64"
  have "apart p 4 (p + 4) 4" using plus4 [OF p] by (simp add: apart_def)
  then have "load32 p (store64 p v w) = ucast v"
    using load32_store32_apart [of p "p + 4"] p plus4 [OF p] by (simp add: store64_def load_store)
  then show ?thesis using halves [of v] by (simp add: load64_def store64_def load_store)
qed

lemma load64_store64_apart:
  assumes "apart q 8 p 8" "unat p + 8 < 2 ^ 64" "unat q + 8 < 2 ^ 64"
  shows "load64 q (store64 p v w) = load64 q w"
proof -
  have e: "unat (p + 4) = unat p + 4" "unat (q + 4) = unat q + 4" by (rule plus4 [OF assms(2)], rule plus4 [OF assms(3)])
  have "load32 x (store32 y u w') = load32 x w'" if "x \<in> {q, q + 4}" "y \<in> {p, p + 4}" for x y u w'
    by (rule load32_store32_apart) (use assms that e in \<open>auto simp: apart_def\<close>)
  then show ?thesis by (simp add: load64_def store64_def)
qed

definition ptrs_held :: "'st fdb_table_t \<Rightarrow> entries \<Rightarrow> bytes \<Rightarrow> (u32 \<rightharpoonup> ptr) \<Rightarrow> bool" where
  "ptrs_held t xs w m \<longleftrightarrow> table_view t xs (dom m) (dom m) \<and> tb_esize t = 8 \<and> tb_destructor t = NULL \<and>
     (\<forall>a b. m a = Some b \<longrightarrow> load64 (comp_addr (block_base t xs) 8 a) w = b)"

definition component_at :: "fdb_table_block_t \<Rightarrow> u32 \<Rightarrow> ptr" where
  "component_at block target = tbk_data block + ucast (target mod 256) * tbk_esize block"

context steady_provider
begin

lemma copy_column_spec:
  assumes r: "ptrs_held t xs w m" and tm: "table_mem alloc free S t (Ps \<circ> e)" and e: "inj e"
    and cl: "clients ainv st Ps" and room: "room st (20 + n)" and id: "id_ok a" and col: "column_block h cluster 0 = Inr block"
  shows "\<exists>t' st' xs' Ps' w'. copy_columns h cluster a target 0 ([t], st) w = Inr (([t'], st'), w') \<and>
    ptrs_held t' xs' w' (m(a \<mapsto> component_at block target)) \<and> table_mem alloc free S t' (Ps' \<circ> e) \<and> clients ainv st' Ps' \<and> room st' n \<and>
    (\<forall>c. c \<notin> range e \<longrightarrow> Ps' c = Ps c)"
proof -
  have v: "table_view t xs (dom m) (dom m)" and s: "tb_esize t = 8" and d: "tb_destructor t = NULL"
    using r by (simp_all add: ptrs_held_def)
  from create_component_spec [OF v tm e cl room id] obtain t' st' xs' Ps' where
    c: "fdb_table_create_component (t, st) a = Inr (comp_addr (block_base t' xs') 8 a, (t', st'))"
      "table_view t' xs' (insert a (dom m)) (insert a (dom m))" "blocks_of xs' = insert (a div 256) (blocks_of xs)"
      "block_base t xs \<subseteq>\<^sub>m block_base t' xs'" "table_mem alloc free S t' (Ps' \<circ> e)" "clients ainv st' Ps'" "room st' n"
      "tb_esize t' = 8" "tb_destructor t' = NULL" "\<forall>c. c \<notin> range e \<longrightarrow> Ps' c = Ps c" unfolding s d by blast
  let ?b = "component_at block target"
  let ?p = "\<lambda>x. comp_addr (block_base t' xs') 8 x" and ?w = "store64 (comp_addr (block_base t' xs') 8 a) ?b w"
  have a: "a div 256 \<in> blocks_of xs'" using c(3) by simp
  have place: "?p x \<noteq> NULL" "unat (?p x) + 8 < 2 ^ 64" if "x div 256 \<in> blocks_of xs'" for x
    using comp_addr_end [OF c(2,5) that] unfolding c(8) by simp_all
  have "load64 (?p x) ?w = y" if x: "(m(a \<mapsto> ?b)) x = Some y" for x y
  proof (cases "x = a")
    case True
    then show ?thesis using x load_store64 [OF place(2) [OF a]] by simp
  next
    case False
    then have mx: "m x = Some y" using x by simp
    then have xb: "x div 256 \<in> blocks_of xs" using v by (auto simp: table_view_def)
    then have "block_base t xs (x div 256) \<noteq> None" using base_dom [OF v] by simp
    then have "block_base t' xs' (x div 256) = block_base t xs (x div 256)" using c(4) by (auto simp: map_le_def dom_def)
    then have px: "?p x = comp_addr (block_base t xs) 8 x" by (simp add: comp_addr_def)
    have xb': "x div 256 \<in> blocks_of xs'" using xb c(3) by simp
    have "apart (?p x) 8 (?p a) 8" using comp_addr_apart [OF c(2,5) False xb' a] unfolding c(8) by simp
    then have "load64 (?p x) ?w = load64 (?p x) w" by (rule load64_store64_apart [OF _ place(2) [OF a] place(2) [OF xb']])
    then show ?thesis using r mx by (simp add: ptrs_held_def px)
  qed
  moreover have "dom (m(a \<mapsto> ?b)) = insert a (dom m)" by simp
  ultimately have "ptrs_held t' xs' ?w (m(a \<mapsto> ?b))" unfolding ptrs_held_def using c(2,8,9) by simp
  moreover have "copy_columns h cluster a target 0 ([t], st) w = Inr (([t'], st'), ?w)"
    using c(1) col place(1) [OF a] by (simp add: component_at_def FDB_TABLE_BLOCK_SIZE_def)
  ultimately show ?thesis using c(5-7,10)
    by (intro exI [of _ t'] exI [of _ st'] exI [of _ xs'] exI [of _ Ps'] exI [of _ ?w]) simp
qed

end

section \<open>Properties\<close>

datatype roots_client = RefTab table_client | RefRoots bittable_client | RefBlack bittable_client

context steady_provider
begin

lemma reftable_roots_spec:
  assumes held: "refs_held t xs w m" and s: "rootstate e1 e2 (r, b, st) Ps {}" and e: "inj e1" "inj e2" "range e1 \<inter> range e2 = {}"
    and ps: "distinct ps" "set ps = dom (tb_heap t)" "map (\<lambda>bc. fdb_bcluster_get_tblock bc 0) bcs = map Inr ps"
    and room: "room st (36 * card (dom m) + n)"
  shows "\<exists>r' b' st'. find_all_roots (tb_heap t) w bcs (r, b, st) = Inr (r', b', st') \<and>
    bittable_ids b' = dom m \<and> bittable_ids r' = ran m - dom m"
proof -
  let ?h = "tb_heap t" and ?E = "{(x, y). m x = Some y}"
  let ?ks = "map (\<lambda>p. the (?h p)) ps"
  have v: "table_view t xs (dom m) (dom m)" using held by (simp add: refs_held_def)
  note tr = table_refs [OF held ps(1,2)]
  have at: "?h p = Some (the (?h p))" "tblock_at ?h p = Inr (the (?h p))" if p: "p \<in> set ps" for p
  proof -
    have "p \<in> snd ` set xs" using v ps(2) p by (simp add: table_view_def)
    then have "p \<noteq> NULL" using v unfolding table_view_def by auto
    moreover obtain k where "?h p = Some k" using ps(2) p by (auto simp: dom_def)
    ultimately show "?h p = Some (the (?h p))" "tblock_at ?h p = Inr (the (?h p))" by (simp_all add: tblock_at_def)
  qed
  have col: "map (\<lambda>bc. column_block ?h bc 0) bcs = map Inr ?ks"
  proof (rule nth_equalityI)
    show l: "length (map (\<lambda>bc. column_block ?h bc 0) bcs) = length (map Inr ?ks)" using arg_cong [OF ps(3), of length] by simp
    fix j assume j: "j < length (map (\<lambda>bc. column_block ?h bc 0) bcs)"
    then have "fdb_bcluster_get_tblock (bcs ! j) 0 = Inr (ps ! j)" using arg_cong [OF ps(3), of "\<lambda>l. l ! j"] l by simp
    then show "map (\<lambda>bc. column_block ?h bc 0) bcs ! j = map Inr ?ks ! j"
      using at [of "ps ! j"] j l by (simp add: column_block_def)
  qed
  have shape: "\<forall>k\<in>set ?ks. bm_inv (tbk_enabled k) \<and> bm_max_bits (tbk_enabled k) = 256"
    using block_refs(2,3) [OF held block_no [OF v at(1)] at(1)] by simp
  have "(\<Sum>k\<leftarrow>?ks. card (bits (tbk_enabled k))) = card (dom m)" using tr(2) by (simp add: comp_def)
  then have rm: "room st (36 * (\<Sum>k\<leftarrow>?ks. card (bits (tbk_enabled k))) + n)" using room by simp
  have E: "{} \<union> (\<Union>k\<in>set ?ks. refs_of k w UNIV) = ?E" using tr(1) by simp
  from find_all_roots_spec [OF s e col shape rm, of w, unfolded E] obtain r' b' st' Ps' where
    5: "find_all_roots ?h w bcs (r, b, st) = Inr (r', b', st')" "rootstate e1 e2 (r', b', st') Ps' ?E" by blast
  from 5(2) obtain xr xb where "bitstate e1 (r', st') Ps' xr (roots_of ?E)" "bitstate e2 (b', st') Ps' xb (Domain ?E)"
    unfolding root_sets_def prod.case by blast
  note views = this [THEN bittable_state_view]
  have "bittable_ids r' = roots_of ?E" "bittable_ids b' = Domain ?E" by (rule bittable_ids_view [OF views(1)], rule bittable_ids_view [OF views(2)])
  moreover have "roots_of ?E = ran m - dom m" "Domain ?E = dom m" by (auto simp: roots_of_def ran_def dom_def)
  ultimately show ?thesis using 5(1) by auto
qed

end

lemma page_super_ops:
  "p_mem_alloc (case Some fdb_page_alloc_super of Some a \<Rightarrow> a | None \<Rightarrow> g) = fdb_page_alloc_alloc"
  "p_mem_free (case Some fdb_page_alloc_super of Some a \<Rightarrow> a | None \<Rightarrow> g) = fdb_page_alloc_free"
  by (simp_all add: fdb_page_alloc_super_def)

text \<open>C37: The roots of a reference table. Whatever references a client adds to a fresh reference table
  and removes from it, running \<open>find_roots_and_blacklist\<close> over the blocks of the table, in any order,
  makes the black list the set of the tails and the roots the heads that are not tails.\<close>

theorem find_roots_of_reftable:
  assumes "page_inv pg live" "live_apart live" "page_serves pg 64 4096" "page_serves pg 64 65536" "length name < 256"
    and "\<forall>c\<in>set cs. ref_legal c"
    and "page_room pg (3 + (\<Sum>c\<leftarrow>cs. ref_need c) + 36 * card (dom (ref_final cs Map.empty)))"
  shows "\<exists>rt pg1 outs rt' pg2 w' r pg3 b pg4.
    fdb_reftable_init name i (Some fdb_page_alloc_super) g hdr pg = Inr (rt, pg1) \<and>
    ref_run call cs ((rt, pg1), w) = Inr (outs, (rt', pg2), w') \<and> finite (dom (tb_heap (rt_table rt'))) \<and>
    fdb_bittable_init (Some fdb_page_alloc_super) g hdr pg2 = Inr (r, pg3) \<and>
    fdb_bittable_init (Some fdb_page_alloc_super) g hdr pg3 = Inr (b, pg4) \<and>
    (\<forall>bcs ps. distinct ps \<longrightarrow> set ps = dom (tb_heap (rt_table rt')) \<longrightarrow>
       map (\<lambda>bc. fdb_bcluster_get_tblock bc 0) bcs = map Inr ps \<longrightarrow>
       (\<exists>r' b' pg5. find_all_roots (tb_heap (rt_table rt')) w' bcs (r, b, pg4) = Inr (r', b', pg5) \<and>
          bittable_ids b' = dom (ref_final cs Map.empty) \<and>
          bittable_ids r' = ran (ref_final cs Map.empty) - dom (ref_final cs Map.empty)))"
proof -
  let ?S = "page_serves pg" and ?inv = "page_steady (page_serves pg)" and ?m = "ref_final cs Map.empty"
  let ?n = "36 * card (dom ?m)"
  have cl: "clients ?inv pg (\<lambda>_ :: roots_client. Map.empty)" by (rule clients_start) (use assms(1,2) in auto)
  have inj: "inj RefTab" "inj RefRoots" "inj RefBlack" by (auto intro: injI)
  have room: "page_room pg (Suc ((\<Sum>c\<leftarrow>cs. ref_need c) + (2 + ?n)))" using assms(7) by (simp add: eval_nat_numeral)
  from steady_page.reftable_init_spec [where hdr = hdr and w = w and i = i, OF page_super_ops cl inj(1) _ room assms(3-5)]
  obtain rt pg1 Ps1 where
    1: "fdb_reftable_init name i (Some fdb_page_alloc_super) g hdr pg = Inr (rt, pg1)"
      "steady_page.refstate ?S RefTab ((rt, pg1), w) Map.empty Ps1" "page_room pg1 ((\<Sum>c\<leftarrow>cs. ref_need c) + (2 + ?n))"
      "\<forall>c. c \<notin> range RefTab \<longrightarrow> Ps1 c = Map.empty" by blast
  have room1: "page_room (snd (fst ((rt, pg1), w))) ((\<Sum>c\<leftarrow>cs. ref_need c) + (2 + ?n))" using 1(3) by simp
  from steady_page.ref_run_sim [OF 1(2) inj(1) room1 assms(6)] obtain x2 Ps2 where
    x2: "ref_run call cs ((rt, pg1), w) = Inr (ref_run_spec cs Map.empty, x2)"
      "steady_page.refstate ?S RefTab x2 ?m Ps2" "page_room (snd (fst x2)) (2 + ?n)"
      "\<forall>c. c \<notin> range RefTab \<longrightarrow> Ps2 c = Ps1 c" by blast
  obtain rt' pg2 w' where "x2 = ((rt', pg2), w')" by (metis prod.collapse)
  note 2 = x2 [unfolded this fst_conv snd_conv]
  obtain xs where held: "refs_held (rt_table rt') xs w' ?m" and cl2: "clients ?inv pg2 Ps2"
    using 2(2) unfolding reftable_state_def by auto
  have e: "Ps2 (RefRoots x) = Map.empty" "Ps2 (RefBlack x) = Map.empty" for x using 1(4) 2(4) by auto
  have room2: "page_room pg2 (Suc (Suc ?n))" using 2(3) by simp
  from steady_page.bittable_init_spec [where hdr = hdr, OF page_super_ops cl2 inj(2) e(1) room2 assms(3)] obtain r pg3 Ps3 where
    3: "fdb_bittable_init (Some fdb_page_alloc_super) g hdr pg2 = Inr (r, pg3)"
      "steady_page.bitstate ?S RefRoots (r, pg3) Ps3 [] {}" "page_room pg3 (Suc ?n)"
      "\<forall>c. c \<notin> range RefRoots \<longrightarrow> Ps3 c = Ps2 c" by blast
  have e3: "Ps3 (RefBlack x) = Map.empty" for x using 3(4) e(2) by auto
  from steady_page.bittable_init_spec [where hdr = hdr, OF page_super_ops bittable_state_clients [OF 3(2)] inj(3) e3 3(3) assms(3)]
  obtain b pg4 Ps4 where
    4: "fdb_bittable_init (Some fdb_page_alloc_super) g hdr pg3 = Inr (b, pg4)"
      "steady_page.bitstate ?S RefBlack (b, pg4) Ps4 [] {}" "page_room pg4 ?n"
      "\<forall>c. c \<notin> range RefBlack \<longrightarrow> Ps4 c = Ps3 c" by blast
  have apart: "range RefRoots \<inter> range RefBlack = {}" "range RefBlack \<inter> range RefRoots = {}" by auto
  have "steady_page.bitstate ?S RefRoots (r, pg4) Ps4 [] {}"
    by (rule bittable_state_other [OF 3(2) bittable_state_clients [OF 4(2)] 4(4) apart(2)])
  then have s: "steady_page.rootstate ?S RefRoots RefBlack (r, b, pg4) Ps4 {}"
    using 4(2) unfolding root_sets_def prod.case roots_of_def by auto
  let ?h = "tb_heap (rt_table rt')"
  have v: "table_view (rt_table rt') xs (dom ?m) (dom ?m)" using held by (simp add: refs_held_def)
  have "page_room pg4 (36 * card (dom ?m) + 0)" using 4(3) by simp
  note all = steady_page.reftable_roots_spec [OF held s inj(2,3) apart(1) _ _ _ this]
  have "finite (dom ?h)" using v by (simp add: table_view_def)
  then show ?thesis using 1(1) 2(1) 3(1) 4(1) all by blast
qed

theorem find_roots_of_reftable_witness:
  "\<exists>rt pg1 outs rt' pg2 w' r pg3 b pg4 bcs r' b' pg5.
    fdb_reftable_init ''parent'' 1 (Some fdb_page_alloc_super) fdb_page_alloc_super (\<lambda>_. 0) demo_db_page = Inr (rt, pg1) \<and>
    ref_run (\<lambda>f p w. w) [RAdd 3 300, RAdd 4 3] ((rt, pg1), \<lambda>_. 0) = Inr (outs, (rt', pg2), w') \<and>
    fdb_bittable_init (Some fdb_page_alloc_super) fdb_page_alloc_super (\<lambda>_. 0) pg2 = Inr (r, pg3) \<and>
    fdb_bittable_init (Some fdb_page_alloc_super) fdb_page_alloc_super (\<lambda>_. 0) pg3 = Inr (b, pg4) \<and>
    find_all_roots (tb_heap (rt_table rt')) w' bcs (r, b, pg4) = Inr (r', b', pg5) \<and>
    bittable_ids b' = {3, 4} \<and> bittable_ids r' = {300}"
proof -
  let ?cs = "[RAdd 3 300, RAdd 4 3]"
  have m: "ref_final ?cs Map.empty = [3 \<mapsto> 300, 4 \<mapsto> 3]" by simp
  have d: "dom (ref_final ?cs Map.empty) = {3, 4}" unfolding m by auto
  have r: "ran (ref_final ?cs Map.empty) - {3, 4} = {300}" unfolding m by (auto simp: ran_def split: if_splits)
  have "card {3, 4 :: u32} = 2" by simp
  then have room: "page_room demo_db_page (3 + (\<Sum>c\<leftarrow>?cs. ref_need c) + 36 * card (dom (ref_final ?cs Map.empty)))"
    unfolding d by (simp add: page_room_def demo_db_page_def)
  have legal: "\<forall>c\<in>set ?cs. ref_legal c" by (simp add: id_ok_def FDB_INVALID_ID_def)
  have name: "length ''parent'' < 256" by simp
  from find_roots_of_reftable [where i = 1 and g = fdb_page_alloc_super and hdr = "\<lambda>_. 0" and call = "\<lambda>f p w. w" and w = "\<lambda>_. 0",
      OF demo_db_page_inv(1) live_apart_empty demo_db_page_inv(3,4) name legal room]
  obtain rt pg1 outs rt' pg2 w' r pg3 b pg4 where x:
    "fdb_reftable_init ''parent'' 1 (Some fdb_page_alloc_super) fdb_page_alloc_super (\<lambda>_. 0) demo_db_page = Inr (rt, pg1)"
    "ref_run (\<lambda>f p w. w) ?cs ((rt, pg1), \<lambda>_. 0) = Inr (outs, (rt', pg2), w')" "finite (dom (tb_heap (rt_table rt')))"
    "fdb_bittable_init (Some fdb_page_alloc_super) fdb_page_alloc_super (\<lambda>_. 0) pg2 = Inr (r, pg3)"
    "fdb_bittable_init (Some fdb_page_alloc_super) fdb_page_alloc_super (\<lambda>_. 0) pg3 = Inr (b, pg4)"
    "\<And>bcs ps. distinct ps \<Longrightarrow> set ps = dom (tb_heap (rt_table rt')) \<Longrightarrow>
       map (\<lambda>bc. fdb_bcluster_get_tblock bc 0) bcs = map Inr ps \<Longrightarrow>
       \<exists>r' b' pg5. find_all_roots (tb_heap (rt_table rt')) w' bcs (r, b, pg4) = Inr (r', b', pg5) \<and>
          bittable_ids b' = {3, 4} \<and> bittable_ids r' = {300}" unfolding d r by blast
  obtain ps where ps: "set ps = dom (tb_heap (rt_table rt'))" "distinct ps" using finite_distinct_list [OF x(3)] by blast
  let ?bcs = "map (\<lambda>p. demo_cluster\<lparr>bc_blocks := [p]\<rparr>) ps"
  have "map (\<lambda>bc. fdb_bcluster_get_tblock bc 0) ?bcs = map Inr ps" by (simp add: fdb_bcluster_get_tblock_def)
  from x(6) [OF ps(2,1) this] show ?thesis using x(1,2,4,5) by blast
qed

text \<open>C38: One step along the references. With a cluster of references, a frontier and a cluster to fill,
  \<open>build_fdb_bcluster_from_refs\<close> appends the blocks the tables have for that range; when the cluster
  then has a column, it enables exactly the enabled positions whose head is in the frontier, and the
  ids of those positions are the next frontier; otherwise the next frontier stays empty.\<close>

theorem refs_step_follows:
  assumes "page_inv pg live" "live_apart live" "page_serves pg 64 4096" "page_room pg (Suc (18 * card (bits (bc_enabled ref))))"
    and "bittable_view cur xc F" "cluster_inv ref" "column_block h ref 0 = Inr d"
    and "\<forall>t\<in>set tables. \<exists>xs ex en. table_view t xs ex en" "cluster_inv bc" "unat (bc_num_columns bc) + length tables \<le> 16"
  shows "\<exists>nf pg1 nf' pg2 bc'. fdb_bittable_init (Some fdb_page_alloc_super) g hdr pg = Inr (nf, pg1) \<and>
    build_fdb_bcluster_from_refs h w ref cur (nf, pg1) bc tables = Inr ((nf', pg2), bc') \<and>
    fst (cluster_abs bc') = fst (cluster_abs bc) @ map Block (blocks_at tables (bc_start ref div 256)) \<and>
    (if fst (cluster_abs bc') = [] then bittable_ids nf' = {} else
      bits (bc_enabled bc') = followed ref d w (bittable_ids cur) \<and>
      bittable_ids nf' = (\<lambda>i. bc_start ref + of_nat i) ` followed ref d w (bittable_ids cur))"
proof -
  let ?S = "page_serves pg" and ?inv = "page_steady (page_serves pg)"
  have cl: "clients ?inv pg (\<lambda>_ :: bittable_client. Map.empty)" by (rule clients_start) (use assms(1,2) in auto)
  from steady_page.bittable_init_spec [where hdr = hdr and g = g, OF page_super_ops cl inj_on_id _ assms(4,3)] obtain nf pg1 Ps where
    1: "fdb_bittable_init (Some fdb_page_alloc_super) g hdr pg = Inr (nf, pg1)"
      "steady_page.bitstate ?S id (nf, pg1) Ps [] {}" "page_room pg1 (18 * card (bits (bc_enabled ref)))" by auto
  have room: "page_room pg1 (18 * card (bits (bc_enabled ref)) + 0)" using 1(3) by simp
  from steady_page.build_spec [OF 1(2) inj_on_id assms(5-10) room, of w] obtain nf' pg2 xs Ps' bc' where
    2: "build_fdb_bcluster_from_refs h w ref cur (nf, pg1) bc tables = Inr ((nf', pg2), bc')"
      "fst (cluster_abs bc') = fst (cluster_abs bc) @ map Block (blocks_at tables (bc_start ref div 256))"
      "if fst (cluster_abs bc') = [] then steady_page.bitstate ?S id (nf', pg2) Ps' xs {} else
        bits (bc_enabled bc') = followed ref d w F \<and>
        steady_page.bitstate ?S id (nf', pg2) Ps' xs ({} \<union> (\<lambda>i. bc_start ref + of_nat i) ` followed ref d w F)" by blast
  have ids: "bittable_ids nf' = A" if "steady_page.bitstate ?S id (nf', pg2) Ps' xs A" for A
    by (rule bittable_ids_view [OF bittable_state_view [OF that]])
  have "bittable_ids cur = F" by (rule bittable_ids_view [OF assms(5)])
  then show ?thesis using 1(1) 2(1,2) 2(3) ids
    by (intro exI [of _ nf] exI [of _ pg1] exI [of _ nf'] exI [of _ pg2] exI [of _ bc']) auto
qed

theorem refs_step_follows_witness:
  "\<exists>(cur :: fdb_page_alloc_t fdb_bittable_t) h w ref (tables :: fdb_page_alloc_t fdb_table_t list) nf pg1 nf' pg2 bc'.
    bittable_ids cur = {9} \<and> bits (bc_enabled ref) = {3, 7} \<and> length tables = 2 \<and>
    fdb_bittable_init (Some fdb_page_alloc_super) fdb_page_alloc_super (\<lambda>_. 0) demo_db_page = Inr (nf, pg1) \<and>
    build_fdb_bcluster_from_refs h w ref cur (nf, pg1) demo_cluster tables = Inr ((nf', pg2), bc') \<and>
    length (fst (cluster_abs bc')) = 2 \<and> bits (bc_enabled bc') = {3} \<and> bittable_ids nf' = {3}"
proof -
  let ?S = "page_serves demo_db_page"
  have cl: "clients (page_steady ?S) demo_db_page (\<lambda>_ :: bittable_client. Map.empty)"
    by (rule clients_start) (use demo_db_page_inv(1) in auto)
  have room: "page_room demo_db_page (Suc (18 + 81))" using demo_db_page_inv(2) by simp
  from steady_page.bittable_init_spec [where hdr = "\<lambda>_. 0" and g = fdb_page_alloc_super, OF page_super_ops cl inj_on_id _ room demo_db_page_inv(3)]
  obtain u0 pg0 Ps0 where u0: "steady_page.bitstate ?S id (u0, pg0) Ps0 [] {}" "page_room pg0 (18 + 81)" by auto
  from steady_page.add_spec [OF u0(1) inj_on_id u0(2), of 9] obtain cur pgc xs Ps1 where
    "steady_page.bitstate ?S id (cur, pgc) Ps1 xs {9}" by auto
  note cur = bittable_state_view [OF this]
  have "\<forall>i\<in>{200, 3 :: u32}. id_ok i" "\<forall>i\<in>{200, 7 :: u32}. id_ok i" by (simp_all add: id_ok_def FDB_INVALID_ID_def)
  with demo_table [of 200 3] demo_table [of 200 7] obtain t u :: "fdb_page_alloc_t fdb_table_t" and xt xu where
    t: "table_view t xt {3, 200} {3, 200}" "blocks_of xt = {0}" and u: "table_view u xu {7, 200} {7, 200}" "blocks_of xu = {0}" by auto
  obtain p q where pq: "fdb_table_get_block t 0 = Inr p" "p \<noteq> NULL" "fdb_table_get_block u 0 = Inr q" "q \<noteq> NULL"
    using block_enabled [OF t(1), of 0] block_enabled [OF u(1), of 0] t(2) u(2) by (metis insertI1 tblock_at_def Inl_Inr_False)
  have tabs: "\<forall>t\<in>set [t, u]. \<exists>xs ex en. table_view t xs ex en" using t(1) u(1) by auto
  obtain b where b: "bm_inv b" "bm_max_bits b = 256" "bits b = {3, 7}" by (rule demo_bitmap [of 3]) simp_all
  let ?d = "\<lparr>tbk_data = 8192, tbk_start = 0, tbk_num_components = 2, tbk_num_enabled = 2, tbk_esize = 4, tbk_exists = b, tbk_enabled = b\<rparr>"
  let ?h = "[4096 \<mapsto> ?d]" and ?w = "store32 (8192 + 12) 9 (\<lambda>_. 0)"
  note r = demo_cluster_init
  note i = bcluster_init_spec [OF r]
  have n0: "unat (bc_num_columns demo_cluster) = 0" using i(2) by (simp add: cluster_abs_def)
  let ?ref = "demo_cluster\<lparr>bc_enabled := b, bc_start := 0, bc_num_columns := 1, bc_blocks := 4096 # replicate 15 NULL\<rparr>"
  have ref: "cluster_inv ?ref" using i(1) b n0 by (simp add: cluster_inv_def)
  have col: "column_block ?h ?ref 0 = Inr ?d" by (simp add: column_block_def fdb_bcluster_get_tblock_def tblock_at_def)
  have "head_at ?d ?w 3 = 9" "head_at ?d ?w 7 = 0" using load_store [of "8192 + 12" 9 "\<lambda>_. 0"]
    by (simp_all add: head_at_def load32_def store32_def)
  then have f: "followed ?ref ?d ?w {9} = {3}" using b(3) by (auto simp: followed_def)
  have card: "page_room demo_db_page (Suc (18 * card (bits (bc_enabled ?ref))))" using b(3) by (simp add: page_room_def demo_db_page_def)
  have fit: "unat (bc_num_columns demo_cluster) + length [t, u] \<le> 16" using n0 by simp
  have ids: "bittable_ids cur = {9}" by (rule bittable_ids_view [OF cur])
  have bl: "blocks_at [t, u] (bc_start ?ref div 256) = [p, q]" using pq by (simp add: blocks_at_def)
  have z: "fst (cluster_abs demo_cluster) = []" using i(2) by simp
  from refs_step_follows [where hdr = "\<lambda>_. 0" and g = fdb_page_alloc_super and w = ?w,
      OF demo_db_page_inv(1) live_apart_empty demo_db_page_inv(3) card cur ref col tabs i(1) fit, unfolded ids f bl z]
  obtain nf pg1 nf' pg2 bc' where x:
    "fdb_bittable_init (Some fdb_page_alloc_super) fdb_page_alloc_super (\<lambda>_. 0) demo_db_page = Inr (nf, pg1)"
    "build_fdb_bcluster_from_refs ?h ?w ?ref cur (nf, pg1) demo_cluster [t, u] = Inr ((nf', pg2), bc')"
    "fst (cluster_abs bc') = [Block p, Block q]" "bits (bc_enabled bc') = {3}" "bittable_ids nf' = {3}" by auto
  show ?thesis using x ids b(3) r
    by (intro exI [of _ cur] exI [of _ ?h] exI [of _ ?w] exI [of _ ?ref] exI [of _ "[t, u]"] exI [of _ nf] exI [of _ pg1]
        exI [of _ nf'] exI [of _ pg2] exI [of _ bc']) simp
qed

end
