(* ===== verification/Reflection.thy ===== *)
theory Reflection
  imports Registry
begin

text \<open>
  src/src/runtime/data/reflection.c and reflection.h: the registry of what the types of components
  look like, for the web server to print them. A structure has a name and up to 32 fields; a field
  of a struct or union type has a structure of its own. The structures and the fields come from two
  pools and live in \<open>mr_structs\<close> and \<open>mr_fields\<close>; a B+ tree finds a structure by the hash of its name.
\<close>

section \<open>State and operations\<close>

datatype fdb_mtype_t = E_BOOL | E_CHAR | E_UINT8 | E_UINT16 | E_UINT32 | E_UINT64 | E_INT8 | E_INT16 | E_INT32 | E_INT64
  | E_FLOAT | E_DOUBLE | E_CHAR_POINTER | E_STD_STRING | E_POINTER | E_STRUCT | E_UNION | E_UNKNOWN | E_NUM_TYPES

definition FDB_MAX_COMPONENT_FIELDS :: nat where "FDB_MAX_COMPONENT_FIELDS = 32"
definition FCC_MAX_FIELD_NAME :: nat where "FCC_MAX_FIELD_NAME = 256"
definition FDB_REFLECTION_STRUCT_PAGE_SIZE :: u32 where "FDB_REFLECTION_STRUCT_PAGE_SIZE = 4 * 1024"
definition FDB_REFLECTION_FIELD_PAGE_SIZE :: u32 where "FDB_REFLECTION_FIELD_PAGE_SIZE = 4 * 1024"

record fdb_mstruct_t =
  ms_type_name :: string
  ms_fields :: "ptr list"
  ms_nfields :: u32
  ms_is_union :: bool

record fdb_mfield_t =
  mf_name :: string
  mf_type :: fdb_mtype_t
  mf_offset :: u64
  mf_anonymous :: bool
  mf_strct_type :: ptr

record 'st fdb_mregistry_t =
  mr_metadata :: "'st fdb_btree_t"
  mr_mstruct_allocator :: "'st fdb_pool_alloc_t"
  mr_mfield_allocator :: "'st fdb_pool_alloc_t"
  mr_structs :: "ptr \<rightharpoonup> fdb_mstruct_t"
  mr_fields :: "ptr \<rightharpoonup> fdb_mfield_t"

text \<open>256 bytes of name, 32 pointers, the count and the flag; and 256 bytes of name and four words.\<close>

definition sizeof_mstruct :: u32 where "sizeof_mstruct = 520"
definition sizeof_mfield :: u32 where "sizeof_mfield = 288"

definition zero_mstruct :: fdb_mstruct_t where
  "zero_mstruct = \<lparr>ms_type_name = [], ms_fields = replicate FDB_MAX_COMPONENT_FIELDS NULL, ms_nfields = 0, ms_is_union = False\<rparr>"

definition mstruct_at :: "(ptr \<rightharpoonup> fdb_mstruct_t) \<Rightarrow> ptr \<Rightarrow> fdb_mstruct_t res" where
  "mstruct_at h p = (if p = NULL then Inl NullDeref else case h p of None \<Rightarrow> Inl BadPointer | Some s \<Rightarrow> Inr s)"

definition fdb_mregistry_init ::
  "'st fdb_mem_allocator_t option \<Rightarrow> 'st fdb_mem_allocator_t \<Rightarrow> (ptr \<Rightarrow> ptr) \<Rightarrow> 'st \<Rightarrow> ('st fdb_mregistry_t \<times> 'st) res" where
  "fdb_mregistry_init allocator gallocator mem st =
     (let mallocator = Some (case allocator of Some a \<Rightarrow> a | None \<Rightarrow> gallocator) in
     bind_res (fdb_pool_alloc_init 64 sizeof_mstruct FDB_REFLECTION_STRUCT_PAGE_SIZE mallocator gallocator mem) (\<lambda>sa.
     bind_res (fdb_pool_alloc_init 64 sizeof_mfield FDB_REFLECTION_FIELD_PAGE_SIZE mallocator gallocator mem) (\<lambda>fa.
     bind_res (fdb_btree_init mallocator gallocator mem st) (\<lambda>(b, st).
     Inr (\<lparr>mr_metadata = b, mr_mstruct_allocator = sa, mr_mfield_allocator = fa, mr_structs = Map.empty,
            mr_fields = Map.empty\<rparr>, st)))))"

definition alloc_mstruct :: "'st fdb_mregistry_t \<times> 'st \<Rightarrow> (ptr \<times> ('st fdb_mregistry_t \<times> 'st)) res" where
  "alloc_mstruct rs =
     (let (reg, st) = rs;
          (p, (pa, st)) = fdb_pool_alloc_alloc (mr_mstruct_allocator reg, st) 64 sizeof_mstruct FDB_NO_HINT
      in if p = NULL then Inl NullDeref
         else Inr (p, (reg\<lparr>mr_mstruct_allocator := pa, mr_structs := (mr_structs reg)(p \<mapsto> zero_mstruct)\<rparr>, st)))"

text \<open>\<open>*insert.p\_place\<close>.\<close>

definition read_place :: "btheap \<Rightarrow> (ptr \<times> nat) option \<Rightarrow> ptr res" where
  "read_place h place = (case place of None \<Rightarrow> Inl NullDeref
     | Some (q, i) \<Rightarrow> bind_res (leaf_at h q) (\<lambda>l. rd (lf_leafs l) i))"

definition fdb_mregistry_init_mstruct ::
  "'st fdb_mregistry_t \<times> 'st \<Rightarrow> string \<Rightarrow> bool \<Rightarrow> (ptr \<times> ('st fdb_mregistry_t \<times> 'st)) res" where
  "fdb_mregistry_init_mstruct rs mname is_union =
     bind_res (alloc_mstruct rs) (\<lambda>(mstruct, (reg, st)).
     bind_res (copy_and_check_str mname FDB_MAX_TABLE_NAME) (\<lambda>type_name.
     let reg = reg\<lparr>mr_structs := (mr_structs reg)(mstruct \<mapsto>
           zero_mstruct\<lparr>ms_type_name := type_name, ms_is_union := is_union, ms_nfields := 0\<rparr>)\<rparr> in
     bind_res (fdb_btree_insert (mr_metadata reg, st) (hash mname) mstruct) (\<lambda>(insert, (b, st)).
     if bi_inserted insert then Inr (mstruct, (reg\<lparr>mr_metadata := b\<rparr>, st))
     else
       bind_res (read_place (bt_nodes b) (bi_place insert)) (\<lambda>old.
       bind_res (write_place (bt_nodes b) (bi_place insert) mstruct) (\<lambda>nodes.
       let (pa, st) = fdb_pool_alloc_free (mr_mstruct_allocator reg, st) old
       in Inr (mstruct, (reg\<lparr>mr_metadata := b\<lparr>bt_nodes := nodes\<rparr>, mr_mstruct_allocator := pa,
            mr_structs := (mr_structs reg)(old := None)\<rparr>, st)))))))"

definition fdb_mregistry_init_mfield ::
  "'st fdb_mregistry_t \<times> 'st \<Rightarrow> ptr \<Rightarrow> string \<Rightarrow> fdb_mtype_t \<Rightarrow> u64 \<Rightarrow> bool \<Rightarrow> (ptr \<times> ('st fdb_mregistry_t \<times> 'st)) res" where
  "fdb_mregistry_init_mfield rs mstruct fname type offset is_anon =
     (let (reg, st) = rs;
          (mfield, (pa, st)) = fdb_pool_alloc_alloc (mr_mfield_allocator reg, st) 64 sizeof_mfield FDB_NO_HINT in
     if mfield = NULL then Inl NullDeref else
     bind_res (copy_and_check_str fname FCC_MAX_FIELD_NAME) (\<lambda>fname.
     let field = \<lparr>mf_name = fname, mf_type = type, mf_offset = offset, mf_anonymous = is_anon, mf_strct_type = NULL\<rparr>;
         reg = reg\<lparr>mr_mfield_allocator := pa, mr_fields := (mr_fields reg)(mfield \<mapsto> field)\<rparr> in
     bind_res (if type = E_UNION \<or> type = E_STRUCT then alloc_mstruct (reg, st) else Inr (NULL, (reg, st))) (\<lambda>(sub, (reg, st)).
     let reg = reg\<lparr>mr_fields := (mr_fields reg)(mfield \<mapsto> field\<lparr>mf_strct_type := sub\<rparr>)\<rparr> in
     bind_res (mstruct_at (mr_structs reg) mstruct) (\<lambda>s.
     if unat (ms_nfields s) \<ge> FDB_MAX_COMPONENT_FIELDS then Inl AssertFail else
     bind_res (wr (ms_fields s) (unat (ms_nfields s)) mfield) (\<lambda>fields.
     Inr (sub, (reg\<lparr>mr_structs := (mr_structs reg)(mstruct \<mapsto>
       s\<lparr>ms_fields := fields, ms_nfields := ms_nfields s + 1\<rparr>)\<rparr>, st)))))))"

definition fdb_mregistry_get_mstruct :: "'st fdb_mregistry_t \<Rightarrow> string \<Rightarrow> ptr res" where
  "fdb_mregistry_get_mstruct reg mname = fdb_btree_get (mr_metadata reg) (hash mname)"

fun free_mstructs ::
  "nat \<Rightarrow> btheap \<Rightarrow> fdb_btree_iter_t \<Rightarrow> 'st fdb_pool_alloc_t \<times> 'st \<Rightarrow> ('st fdb_pool_alloc_t \<times> 'st) res" where
  "free_mstructs 0 h it ps = Inl OutOfFuel"
| "free_mstructs (Suc fuel) h it ps =
     bind_res (fdb_btree_iter_has_next h it) (\<lambda>more.
     if more then
       bind_res (fdb_btree_iter_next h it) (\<lambda>(entry, it).
       free_mstructs fuel h it (fdb_pool_alloc_free ps (be_value entry)))
     else Inr ps)"

definition fdb_mregistry_release :: "nat \<Rightarrow> 'st fdb_mregistry_t \<times> 'st \<Rightarrow> ('st fdb_mregistry_t \<times> 'st) res" where
  "fdb_mregistry_release fuel rs =
     (let (reg, st) = rs in
     bind_res (fdb_btree_iter_init (mr_metadata reg)) (\<lambda>it.
     bind_res (free_mstructs fuel (bt_nodes (mr_metadata reg)) it (mr_mstruct_allocator reg, st)) (\<lambda>(sa, st).
     bind_res (fdb_btree_release fuel (mr_metadata reg, st)) (\<lambda>(b, st).
     bind_res (fdb_pool_alloc_release fuel (mr_mfield_allocator reg, st)) (\<lambda>(fa, st).
     bind_res (fdb_pool_alloc_release fuel (sa, st)) (\<lambda>(sa, st).
     Inr (reg\<lparr>mr_metadata := b, mr_mfield_allocator := fa, mr_mstruct_allocator := sa,
               mr_structs := Map.empty, mr_fields := Map.empty\<rparr>, st)))))))"

section \<open>The memory of a registry\<close>

datatype mreg_client = MStructs | MFields | MTree

definition mreg_mem ::
  "('st \<Rightarrow> u32 \<Rightarrow> u32 \<Rightarrow> u32 \<Rightarrow> ptr \<times> 'st) \<Rightarrow> ('st \<Rightarrow> ptr \<Rightarrow> 'st) \<Rightarrow> ('st \<Rightarrow> (ptr \<rightharpoonup> nat) \<Rightarrow> bool) \<Rightarrow> (u32 \<Rightarrow> u32 \<Rightarrow> bool) \<Rightarrow>
   (mreg_client \<Rightarrow> 'c) \<Rightarrow> 'st fdb_mregistry_t \<times> 'st \<Rightarrow> ('c \<Rightarrow> ptr \<rightharpoonup> nat) \<Rightarrow> bool" where
  "mreg_mem alloc free ainv S e rs Ps \<longleftrightarrow> (case rs of (reg, st) \<Rightarrow>
     (\<exists>sl. pool_holds alloc free (mr_mstruct_allocator reg) (Ps (e MStructs)) sl \<and> dom sl = dom (mr_structs reg)) \<and>
     (\<exists>fl. pool_holds alloc free (mr_mfield_allocator reg) (Ps (e MFields)) fl \<and> dom fl = dom (mr_fields reg)) \<and>
     pool_takes S (mr_mstruct_allocator reg) 64 sizeof_mstruct \<and> pool_takes S (mr_mfield_allocator reg) 64 sizeof_mfield \<and>
     tree_client alloc free S (mr_metadata reg) (Ps (e MTree)) \<and> clients ainv st Ps)"

context steady_provider
begin

text \<open>Pools of small blocks aligned to 64 bytes on pages of 4 KB.\<close>

lemma small_pool_init:
  assumes alloc: "p_mem_alloc (case a of Some a \<Rightarrow> a | None \<Rightarrow> g) = alloc" "p_mem_free (case a of Some a \<Rightarrow> a | None \<Rightarrow> g) = free"
    and S: "S 64 4096" and sz: "8 \<le> unat sz" "2 * unat sz + 64 \<le> 4096"
  obtains pa where "fdb_pool_alloc_init 64 sz 4096 a g hdr = Inr pa" "pool_holds alloc free pa Map.empty Map.empty"
    "pool_takes S pa 64 sz"
proof -
  have al: "unat (64 :: u32) < 2 ^ 31" by simp
  have fit: "2 * max 8 (unat sz) + max 16 (unat (64 :: u32)) \<le> unat (4096 :: u32)" using sz by simp
  obtain pa where 1: "fdb_pool_alloc_init 64 sz 4096 a g hdr = Inr pa" using pool_init_ok [OF al fit] by blast
  note c = pool_init_config [OF 1 al fit]
  have w: "ucast (x :: u64) = (y :: u32)" if "unat x = unat y" for x y
    using that unat_u32_bound [of y] unat_ucast_u64_u32 [of x] by (simp add: word_unat_eq_iff)
  have "pool_takes S pa 64 sz"
    using c(2-4) S sz(1) w [of "pl_alignment pa" 64] w [of "pl_page_size pa" 4096] by (simp add: pool_takes_def)
  then show thesis using that 1 client_pool_init [OF 1 al fit alloc] by blast
qed

abbreviation "mregstate \<equiv> mreg_mem alloc free ainv S"

lemma mregistry_init_spec:
  assumes alloc: "p_mem_alloc (case a of Some a \<Rightarrow> a | None \<Rightarrow> g) = alloc" "p_mem_free (case a of Some a \<Rightarrow> a | None \<Rightarrow> g) = free"
    and cl: "clients ainv st Ps" "inj e" "\<And>c. Ps (e c) = Map.empty" and room: "room st (Suc n)" and S: "S 64 4096"
  shows "\<exists>reg st' Ps'. fdb_mregistry_init a g hdr st = Inr (reg, st') \<and> mregstate e (reg, st') Ps' \<and> room st' n \<and>
    btree_holds (mr_metadata reg) [] \<and> mr_structs reg = Map.empty \<and> mr_fields reg = Map.empty \<and>
    (\<forall>c. c \<notin> range e \<longrightarrow> Ps' c = Ps c)"
proof -
  have ne: "e x = e y \<longleftrightarrow> x = y" for x y using cl(2) by (auto dest: injD)
  let ?a = "Some (case a of Some a \<Rightarrow> a | None \<Rightarrow> g)"
  have al: "p_mem_alloc (case ?a of Some a \<Rightarrow> a | None \<Rightarrow> g) = alloc" "p_mem_free (case ?a of Some a \<Rightarrow> a | None \<Rightarrow> g) = free"
    using alloc by simp_all
  obtain sa where sa: "fdb_pool_alloc_init 64 520 4096 ?a g hdr = Inr sa" "pool_holds alloc free sa Map.empty Map.empty"
    "pool_takes S sa 64 520" by (rule small_pool_init [OF al S, of 520 hdr]) simp_all
  obtain fa where fa: "fdb_pool_alloc_init 64 288 4096 ?a g hdr = Inr fa" "pool_holds alloc free fa Map.empty Map.empty"
    "pool_takes S fa 64 288" by (rule small_pool_init [OF al S, of 288 hdr]) simp_all
  from client_tree_init [where hdr = hdr, OF al cl(1) cl(3) [of MTree] room S] obtain b st' P' where
    b: "fdb_btree_init ?a g hdr st = Inr (b, st')" "btree_holds b []" "room st' n"
      "clients ainv st' (Ps(e MTree := P'))" "tree_client alloc free S b P'" by blast
  let ?r = "\<lparr>mr_metadata = b, mr_mstruct_allocator = sa, mr_mfield_allocator = fa, mr_structs = Map.empty, mr_fields = Map.empty\<rparr>"
  have "fdb_mregistry_init a g hdr st = Inr (?r, st')"
    using sa(1) fa(1) b(1) by (simp add: fdb_mregistry_init_def sizeof_mstruct_def sizeof_mfield_def
        FDB_REFLECTION_STRUCT_PAGE_SIZE_def FDB_REFLECTION_FIELD_PAGE_SIZE_def)
  moreover have "mregstate e (?r, st') (Ps(e MTree := P'))" unfolding mreg_mem_def prod.case
    using sa(2,3) fa(2,3) b(4,5) ne cl(3) by (simp add: sizeof_mstruct_def sizeof_mfield_def)
  ultimately show ?thesis using b(2,3)
    by (intro exI [of _ ?r] exI [of _ st'] exI [of _ "Ps(e MTree := P')"]) auto
qed

lemma alloc_mstruct_spec:
  assumes s: "mregstate e (reg, st) Ps" and e: "inj e" and room: "room st (Suc n)"
  shows "\<exists>p pa st' Ps'. alloc_mstruct (reg, st) =
      Inr (p, (reg\<lparr>mr_mstruct_allocator := pa, mr_structs := (mr_structs reg)(p \<mapsto> zero_mstruct)\<rparr>, st')) \<and>
    p \<noteq> NULL \<and> p \<notin> dom (mr_structs reg) \<and> room st' n \<and> (\<forall>c. c \<notin> range e \<longrightarrow> Ps' c = Ps c) \<and>
    (\<forall>hs. dom hs = insert p (dom (mr_structs reg)) \<longrightarrow>
       mregstate e (reg\<lparr>mr_mstruct_allocator := pa, mr_structs := hs\<rparr>, st') Ps')"
proof -
  have ne: "e x = e y \<longleftrightarrow> x = y" for x y using e by (auto dest: injD)
  obtain sl fl where m: "pool_holds alloc free (mr_mstruct_allocator reg) (Ps (e MStructs)) sl" "dom sl = dom (mr_structs reg)"
      "pool_holds alloc free (mr_mfield_allocator reg) (Ps (e MFields)) fl" "dom fl = dom (mr_fields reg)"
      "pool_takes S (mr_mstruct_allocator reg) 64 sizeof_mstruct" "pool_takes S (mr_mfield_allocator reg) 64 sizeof_mfield"
      "tree_client alloc free S (mr_metadata reg) (Ps (e MTree))" "clients ainv st Ps"
    using s unfolding mreg_mem_def by auto
  obtain p pa st' where run: "fdb_pool_alloc_alloc (mr_mstruct_allocator reg, st) 64 sizeof_mstruct FDB_NO_HINT = (p, (pa, st'))"
    by (metis prod.collapse)
  from client_alloc [OF m(8,1) room m(5) run] obtain P' where
    1: "fits sl p (unat sizeof_mstruct)" "room st' n" "pool_takes S pa = pool_takes S (mr_mstruct_allocator reg)"
      "clients ainv st' (Ps(e MStructs := P'))" "pool_holds alloc free pa P' (sl(p \<mapsto> unat sizeof_mstruct))"
    by (auto simp del: fun_upd_apply)
  have p: "p \<noteq> NULL" "p \<notin> dom (mr_structs reg)" using 1(1) fits_dom [OF 1(1)] m(2) by (auto simp: fits_def)
  have "mregstate e (reg\<lparr>mr_mstruct_allocator := pa, mr_structs := hs\<rparr>, st') (Ps(e MStructs := P'))"
    if "dom hs = insert p (dom (mr_structs reg))" for hs
    unfolding mreg_mem_def prod.case using 1(3-5) m ne that
    by (intro conjI exI [of _ "sl(p \<mapsto> unat sizeof_mstruct)"] exI [of _ fl]) simp_all
  then show ?thesis using run p 1(2)
    by (intro exI [of _ p] exI [of _ pa] exI [of _ st'] exI [of _ "Ps(e MStructs := P')"]) (simp add: alloc_mstruct_def)
qed

text \<open>A field without the structure of its own: what the pool of the fields gives.\<close>

lemma alloc_mfield_spec:
  assumes s: "mregstate e (reg, st) Ps" and e: "inj e" and room: "room st (Suc n)"
  shows "\<exists>p pa st' Ps'. fdb_pool_alloc_alloc (mr_mfield_allocator reg, st) 64 sizeof_mfield FDB_NO_HINT = (p, (pa, st')) \<and>
    p \<noteq> NULL \<and> p \<notin> dom (mr_fields reg) \<and> room st' n \<and> (\<forall>c. c \<notin> range e \<longrightarrow> Ps' c = Ps c) \<and>
    (\<forall>f. mregstate e (reg\<lparr>mr_mfield_allocator := pa, mr_fields := (mr_fields reg)(p \<mapsto> f)\<rparr>, st') Ps')"
proof -
  have ne: "e x = e y \<longleftrightarrow> x = y" for x y using e by (auto dest: injD)
  obtain sl fl where m: "pool_holds alloc free (mr_mstruct_allocator reg) (Ps (e MStructs)) sl" "dom sl = dom (mr_structs reg)"
      "pool_holds alloc free (mr_mfield_allocator reg) (Ps (e MFields)) fl" "dom fl = dom (mr_fields reg)"
      "pool_takes S (mr_mstruct_allocator reg) 64 sizeof_mstruct" "pool_takes S (mr_mfield_allocator reg) 64 sizeof_mfield"
      "tree_client alloc free S (mr_metadata reg) (Ps (e MTree))" "clients ainv st Ps"
    using s unfolding mreg_mem_def by auto
  obtain p pa st' where run: "fdb_pool_alloc_alloc (mr_mfield_allocator reg, st) 64 sizeof_mfield FDB_NO_HINT = (p, (pa, st'))"
    by (metis prod.collapse)
  from client_alloc [OF m(8,3) room m(6) run] obtain P' where
    1: "fits fl p (unat sizeof_mfield)" "room st' n" "pool_takes S pa = pool_takes S (mr_mfield_allocator reg)"
      "clients ainv st' (Ps(e MFields := P'))" "pool_holds alloc free pa P' (fl(p \<mapsto> unat sizeof_mfield))"
    by (auto simp del: fun_upd_apply)
  have p: "p \<noteq> NULL" "p \<notin> dom (mr_fields reg)" using 1(1) fits_dom [OF 1(1)] m(4) by (auto simp: fits_def)
  have "mregstate e (reg\<lparr>mr_mfield_allocator := pa, mr_fields := (mr_fields reg)(p \<mapsto> f)\<rparr>, st') (Ps(e MFields := P'))" for f
    unfolding mreg_mem_def prod.case using 1(3-5) m ne
    by (intro conjI exI [of _ "fl(p \<mapsto> unat sizeof_mfield)"] exI [of _ sl]) simp_all
  then show ?thesis using run p 1(2)
    by (intro exI [of _ p] exI [of _ pa] exI [of _ st'] exI [of _ "Ps(e MFields := P')"]) simp
qed

lemma mregstate_structs:
  "mregstate e (reg, st) Ps \<Longrightarrow> dom hs = dom (mr_structs reg) \<Longrightarrow> mregstate e (reg\<lparr>mr_structs := hs\<rparr>, st) Ps"
  by (simp add: mreg_mem_def)

end

section \<open>What a type looks like\<close>

datatype field_desc = FD (fd_name: string) (fd_type: fdb_mtype_t) (fd_offset: u64) (fd_anon: bool) (fd_sub: "field_desc list")

definition compound :: "fdb_mtype_t \<Rightarrow> bool" where "compound t \<longleftrightarrow> t = E_UNION \<or> t = E_STRUCT"

fun desc_ok :: "field_desc \<Rightarrow> bool" where
  "desc_ok (FD n t off an sub) \<longleftrightarrow> length n < 256 \<and> (compound t \<or> sub = []) \<and> length sub \<le> 32 \<and> (\<forall>f\<in>set sub. desc_ok f)"

text \<open>How often the pools are asked for a field and for a structure.\<close>

fun desc_need :: "field_desc \<Rightarrow> nat" where
  "desc_need (FD n t off an sub) = 2 + (\<Sum>f\<leftarrow>sub. desc_need f)"

text \<open>The calls that register the fields of a structure, as the generated code makes them.\<close>

fun register_fields ::
  "'st fdb_mregistry_t \<times> 'st \<Rightarrow> ptr \<Rightarrow> field_desc list \<Rightarrow> ('st fdb_mregistry_t \<times> 'st) res" where
  "register_fields rs p [] = Inr rs"
| "register_fields rs p (FD n t off an sub # fs) =
     bind_res (fdb_mregistry_init_mfield rs p n t off an) (\<lambda>(q, rs).
     bind_res (register_fields rs q sub) (\<lambda>rs. register_fields rs p fs))"

text \<open>What the web server reads: the fields of a structure agree with the description.\<close>

fun field_shows :: "(ptr \<rightharpoonup> fdb_mstruct_t) \<Rightarrow> (ptr \<rightharpoonup> fdb_mfield_t) \<Rightarrow> ptr \<Rightarrow> field_desc \<Rightarrow> bool" and
  struct_shows :: "(ptr \<rightharpoonup> fdb_mstruct_t) \<Rightarrow> (ptr \<rightharpoonup> fdb_mfield_t) \<Rightarrow> ptr \<Rightarrow> field_desc list \<Rightarrow> bool" and
  fields_show :: "(ptr \<rightharpoonup> fdb_mstruct_t) \<Rightarrow> (ptr \<rightharpoonup> fdb_mfield_t) \<Rightarrow> ptr list \<Rightarrow> field_desc list \<Rightarrow> bool" where
  "field_shows hs hf q (FD n t off an sub) = (case hf q of None \<Rightarrow> False | Some f \<Rightarrow>
     mf_name f = n \<and> mf_type f = t \<and> mf_offset f = off \<and> mf_anonymous f = an \<and>
     (if compound t then struct_shows hs hf (mf_strct_type f) sub else mf_strct_type f = NULL))"
| "struct_shows hs hf p fs = (case hs p of None \<Rightarrow> False | Some s \<Rightarrow>
     unat (ms_nfields s) = length fs \<and> length fs \<le> length (ms_fields s) \<and> fields_show hs hf (take (length fs) (ms_fields s)) fs)"
| "fields_show hs hf [] fs = (fs = [])"
| "fields_show hs hf (q # qs) fs = (case fs of [] \<Rightarrow> False | f # fs \<Rightarrow> field_shows hs hf q f \<and> fields_show hs hf qs fs)"

definition with_field :: "fdb_mstruct_t \<Rightarrow> ptr \<Rightarrow> fdb_mstruct_t" where
  "with_field s m = s\<lparr>ms_fields := (ms_fields s)[unat (ms_nfields s) := m], ms_nfields := ms_nfields s + 1\<rparr>"

context steady_provider
begin

lemma init_mfield_spec:
  assumes s: "mregstate e (reg, st) Ps" and e: "inj e" and room: "room st (2 + n)"
    and p: "p \<noteq> NULL" "mr_structs reg p = Some s" "unat (ms_nfields s) < 32" "length (ms_fields s) = 32" and nm: "length nm < 256"
  shows "\<exists>m q reg' st' Ps'. fdb_mregistry_init_mfield (reg, st) p nm t off an = Inr (q, (reg', st')) \<and>
    mregstate e (reg', st') Ps' \<and> room st' n \<and> (\<forall>c. c \<notin> range e \<longrightarrow> Ps' c = Ps c) \<and> mr_metadata reg' = mr_metadata reg \<and>
    m \<notin> dom (mr_fields reg) \<and> mr_fields reg' = (mr_fields reg)(m \<mapsto>
      \<lparr>mf_name = nm, mf_type = t, mf_offset = off, mf_anonymous = an, mf_strct_type = q\<rparr>) \<and>
    (if compound t then q \<noteq> NULL \<and> q \<notin> dom (mr_structs reg) \<and>
       mr_structs reg' = (mr_structs reg)(q \<mapsto> zero_mstruct, p \<mapsto> with_field s m)
     else q = NULL \<and> mr_structs reg' = (mr_structs reg)(p \<mapsto> with_field s m))"
proof -
  have r1: "room st (Suc (Suc n))" using room by simp
  from alloc_mfield_spec [OF s e r1] obtain m pa st1 Ps1 where
    1: "fdb_pool_alloc_alloc (mr_mfield_allocator reg, st) 64 sizeof_mfield FDB_NO_HINT = (m, (pa, st1))" "m \<noteq> NULL"
      "m \<notin> dom (mr_fields reg)" "room st1 (Suc n)" "\<forall>c. c \<notin> range e \<longrightarrow> Ps1 c = Ps c"
      "\<And>f. mregstate e (reg\<lparr>mr_mfield_allocator := pa, mr_fields := (mr_fields reg)(m \<mapsto> f)\<rparr>, st1) Ps1" by blast
  let ?f = "\<lambda>q. \<lparr>mf_name = nm, mf_type = t, mf_offset = off, mf_anonymous = an, mf_strct_type = q\<rparr>"
  let ?r1 = "\<lambda>f. reg\<lparr>mr_mfield_allocator := pa, mr_fields := (mr_fields reg)(m \<mapsto> f)\<rparr>"
  show ?thesis
  proof (cases "compound t")
    case True
    note am = alloc_mstruct_spec [OF 1(6) e 1(4), of "?f NULL"]
    obtain q sa st2 Ps2 where
      2: "alloc_mstruct (?r1 (?f NULL), st1) = Inr (q, (?r1 (?f NULL)\<lparr>mr_mstruct_allocator := sa,
          mr_structs := (mr_structs (?r1 (?f NULL)))(q \<mapsto> zero_mstruct)\<rparr>, st2))" "q \<noteq> NULL" "q \<notin> dom (mr_structs (?r1 (?f NULL)))"
        "room st2 n" "\<forall>c. c \<notin> range e \<longrightarrow> Ps2 c = Ps1 c"
        "\<And>hs. dom hs = insert q (dom (mr_structs (?r1 (?f NULL)))) \<Longrightarrow>
           mregstate e (?r1 (?f NULL)\<lparr>mr_mstruct_allocator := sa, mr_structs := hs\<rparr>, st2) Ps2" using am by blast
    have q: "q \<notin> dom (mr_structs reg)" using 2(3) by simp
    let ?hs = "(mr_structs reg)(q \<mapsto> zero_mstruct, p \<mapsto> with_field s m)"
    let ?r = "reg\<lparr>mr_mfield_allocator := pa, mr_fields := (mr_fields reg)(m \<mapsto> ?f q), mr_mstruct_allocator := sa, mr_structs := ?hs\<rparr>"
    have pq: "p \<noteq> q" using p(2) q by auto
    have at: "((mr_structs reg)(q \<mapsto> zero_mstruct)) p = Some s" using pq p(2) by simp
    have "fdb_mregistry_init_mfield (reg, st) p nm t off an = Inr (q, (?r, st2))"
      using 1(1,2) 2(1) True at p nm
      by (simp add: fdb_mregistry_init_mfield_def compound_def copy_and_check_str_def FCC_MAX_FIELD_NAME_def mstruct_at_def
          FDB_MAX_COMPONENT_FIELDS_def with_field_def Let_def del: fun_upd_apply)
    moreover have "dom ?hs = insert q (dom (mr_structs (?r1 (?f NULL))))" using p(2) by auto
    from 2(6) [OF this] have "mregstate e (?r, st2) Ps2" by (simp add: mreg_mem_def)
    ultimately show ?thesis using True 1(3,5) 2(2,4,5) q
      by (intro exI [of _ m] exI [of _ q] exI [of _ ?r] exI [of _ st2] exI [of _ Ps2]) simp
  next
    case False
    let ?r = "reg\<lparr>mr_mfield_allocator := pa, mr_fields := (mr_fields reg)(m \<mapsto> ?f NULL), mr_structs := (mr_structs reg)(p \<mapsto> with_field s m)\<rparr>"
    have "fdb_mregistry_init_mfield (reg, st) p nm t off an = Inr (NULL, (?r, st1))"
      using 1(1,2) False p nm
      by (simp add: fdb_mregistry_init_mfield_def compound_def copy_and_check_str_def FCC_MAX_FIELD_NAME_def mstruct_at_def
          FDB_MAX_COMPONENT_FIELDS_def with_field_def del: fun_upd_apply)
    moreover have "mregstate e (?r, st1) Ps1"
      using mregstate_structs [OF 1(6) [of "?f NULL"], of "(mr_structs reg)(p \<mapsto> with_field s m)"] p(2) by (simp add: insert_absorb domI)
    moreover have "room st1 n" by (rule room_le [OF 1(4)]) simp
    ultimately show ?thesis using False 1(3,5)
      by (intro exI [of _ m] exI [of _ NULL] exI [of _ ?r] exI [of _ st1] exI [of _ Ps1]) simp
  qed
qed

end

text \<open>What is shown stays shown when the heaps grow.\<close>

lemma shows_mono:
  "field_shows hs hf q f \<Longrightarrow> hs \<subseteq>\<^sub>m hs' \<Longrightarrow> hf \<subseteq>\<^sub>m hf' \<Longrightarrow> field_shows hs' hf' q f"
  "struct_shows hs hf p fs \<Longrightarrow> hs \<subseteq>\<^sub>m hs' \<Longrightarrow> hf \<subseteq>\<^sub>m hf' \<Longrightarrow> struct_shows hs' hf' p fs"
  "fields_show hs hf qs fs \<Longrightarrow> hs \<subseteq>\<^sub>m hs' \<Longrightarrow> hf \<subseteq>\<^sub>m hf' \<Longrightarrow> fields_show hs' hf' qs fs"
proof (induction hs hf q f and hs hf p fs and hs hf qs fs rule: field_shows_struct_shows_fields_show.induct)
  case (1 hs hf q n t off an sub)
  then obtain f where f: "hf q = Some f" by (auto split: option.splits)
  then have "hf' q = Some f" using 1(4) by (auto simp: map_le_def dom_def)
  then show ?case using 1 f by (auto split: if_splits)
next
  case (2 hs hf p fs)
  then obtain s where s: "hs p = Some s" by (auto split: option.splits)
  then have "hs' p = Some s" using 2(3) by (auto simp: map_le_def dom_def)
  then show ?case using 2 s by auto
next
  case (4 hs hf q qs fs)
  then show ?case by (cases fs) auto
qed auto

lemma fields_show_append: "length qs = length fs \<Longrightarrow>
    fields_show hs hf (qs @ qs') (fs @ fs') \<longleftrightarrow> fields_show hs hf qs fs \<and> fields_show hs hf qs' fs'"
  by (induction qs fs rule: list_induct2) auto

definition outside :: "(ptr \<rightharpoonup> 'a) \<Rightarrow> (ptr \<rightharpoonup> 'a) \<Rightarrow> ptr \<rightharpoonup> 'a" where
  "outside hs old = hs |` (- dom old)"

lemma outside_apply: "outside hs old x = (if x \<in> dom old then None else hs x)"
  by (simp add: outside_def restrict_map_def)

lemma outside_le:
  assumes "dom old \<subseteq> dom mid" "\<And>x. x \<in> dom hs \<Longrightarrow> x \<notin> dom mid \<Longrightarrow> hs' x = hs x"
  shows "outside hs mid \<subseteq>\<^sub>m outside hs' old"
  unfolding map_le_def
proof (rule ballI)
  fix x assume "x \<in> dom (outside hs mid)"
  then have "x \<in> dom hs" "x \<notin> dom mid" by (auto simp: outside_apply dom_def split: if_splits)
  then show "outside hs mid x = outside hs' old x" using assms by (auto simp: outside_apply)
qed

text \<open>What registering fields at \<open>p\<close> does: structures that were there stay, but for \<open>p\<close>, which gains the
  fields; they are shown by structures that are new.\<close>

definition extended ::
  "(ptr \<rightharpoonup> fdb_mstruct_t) \<Rightarrow> (ptr \<rightharpoonup> fdb_mfield_t) \<Rightarrow> (ptr \<rightharpoonup> fdb_mstruct_t) \<Rightarrow> (ptr \<rightharpoonup> fdb_mfield_t) \<Rightarrow> ptr \<Rightarrow>
   fdb_mstruct_t \<Rightarrow> field_desc list \<Rightarrow> bool" where
  "extended hs hf hs' hf' p s fs \<longleftrightarrow> dom hs \<subseteq> dom hs' \<and> (\<forall>x\<in>dom hs. x \<noteq> p \<longrightarrow> hs' x = hs x) \<and> hf \<subseteq>\<^sub>m hf' \<and>
     (\<exists>s' qs. hs' p = Some s' \<and> ms_type_name s' = ms_type_name s \<and> ms_is_union s' = ms_is_union s \<and>
        length (ms_fields s') = 32 \<and> unat (ms_nfields s') = unat (ms_nfields s) + length fs \<and> length qs = length fs \<and>
        take (unat (ms_nfields s')) (ms_fields s') = take (unat (ms_nfields s)) (ms_fields s) @ qs \<and>
        fields_show (outside hs' hs) hf' qs fs)"

lemma with_field:
  assumes "unat (ms_nfields s) < 32" "length (ms_fields s) = 32"
  shows "unat (ms_nfields (with_field s m)) = Suc (unat (ms_nfields s))" "length (ms_fields (with_field s m)) = 32"
    "take (Suc (unat (ms_nfields s))) (ms_fields (with_field s m)) = take (unat (ms_nfields s)) (ms_fields s) @ [m]"
    "ms_type_name (with_field s m) = ms_type_name s" "ms_is_union (with_field s m) = ms_is_union s"
  using assms by (simp_all add: with_field_def unat_word_ariths take_Suc_conv_app_nth)

text \<open>One more field \<open>m\<close> of \<open>p\<close>, shown by structures outside \<open>hs\<close>, and then the others.\<close>

lemma extended_Cons:
  assumes s: "unat (ms_nfields s) < 32" "length (ms_fields s) = 32" and p: "p \<in> dom hs"
    and old: "dom hs \<subseteq> dom mid" "\<forall>x\<in>dom hs. x \<noteq> p \<longrightarrow> mid x = hs x" "hf \<subseteq>\<^sub>m hf1"
    and one: "field_shows (outside mid hs) hf1 m f"
    and rest: "extended mid hf1 hs' hf' p (with_field s m) fs"
  shows "extended hs hf hs' hf' p s (f # fs)"
proof -
  note w = with_field [OF s, of m] and r = rest [unfolded extended_def]
  obtain s' qs where x: "hs' p = Some s'" "ms_type_name s' = ms_type_name s" "ms_is_union s' = ms_is_union s"
    "length (ms_fields s') = 32" "unat (ms_nfields s') = Suc (unat (ms_nfields s)) + length fs" "length qs = length fs"
    "take (unat (ms_nfields s')) (ms_fields s') = take (Suc (unat (ms_nfields s))) (ms_fields (with_field s m)) @ qs"
    "fields_show (outside hs' mid) hf' qs fs" using r unfolding w by blast
  have agree: "\<forall>x\<in>dom mid. x \<noteq> p \<longrightarrow> hs' x = mid x" "dom mid \<subseteq> dom hs'" "hf1 \<subseteq>\<^sub>m hf'" using r by blast+
  have "outside mid hs \<subseteq>\<^sub>m outside hs' hs" by (rule outside_le) (use agree(1) p in auto)
  then have "field_shows (outside hs' hs) hf' m f" using shows_mono(1) [OF one] agree(3) by blast
  moreover have "outside hs' mid \<subseteq>\<^sub>m outside hs' hs" by (rule outside_le [OF old(1) refl])
  then have "fields_show (outside hs' hs) hf' qs fs" using shows_mono(3) [OF x(8)] map_le_refl by blast
  ultimately have "fields_show (outside hs' hs) hf' (m # qs) (f # fs)" by simp
  moreover have "take (unat (ms_nfields s')) (ms_fields s') = take (unat (ms_nfields s)) (ms_fields s) @ m # qs"
    unfolding x(7) w(3) by simp
  moreover have "hf \<subseteq>\<^sub>m hf'" by (rule map_le_trans [OF old(3) agree(3)])
  moreover have "\<forall>x\<in>dom hs. x \<noteq> p \<longrightarrow> hs' x = hs x" using old(1,2) agree(1) by (metis subset_iff)
  moreover have "dom hs \<subseteq> dom hs'" by (rule order_trans [OF old(1) agree(2)])
  ultimately show ?thesis unfolding extended_def using x(1-6)
    by (intro conjI exI [of _ s'] exI [of _ "m # qs"]) simp_all
qed

lemma extended_Nil: "hs p = Some s \<Longrightarrow> length (ms_fields s) = 32 \<Longrightarrow> extended hs hf hs hf p s []"
  by (simp add: extended_def)

text \<open>A structure registered at a new place is shown there.\<close>

lemma extended_struct:
  assumes "extended hs1 hf1 hs2 hf2 q zero_mstruct fs" "q \<notin> dom hs" "dom hs \<subseteq> dom hs1" "length fs \<le> 32"
  shows "struct_shows (outside hs2 hs) hf2 q fs"
proof -
  obtain s' qs where x: "hs2 q = Some s'" "length (ms_fields s') = 32" "unat (ms_nfields s') = length fs"
    "take (unat (ms_nfields s')) (ms_fields s') = qs" "fields_show (outside hs2 hs1) hf2 qs fs"
    using assms(1) unfolding extended_def by (auto simp: zero_mstruct_def)
  have "outside hs2 hs1 \<subseteq>\<^sub>m outside hs2 hs" by (rule outside_le [OF assms(3) refl])
  then have "fields_show (outside hs2 hs) hf2 qs fs" using shows_mono(3) [OF x(5)] map_le_refl by blast
  then show ?thesis using x(1-4) assms(2,4) by (simp add: outside_apply)
qed

context steady_provider
begin

lemma register_fields_spec:
  assumes "mregstate e rs Ps" "inj e" "room (snd rs) ((\<Sum>f\<leftarrow>fs. desc_need f) + n)" "p \<noteq> NULL" "mr_structs (fst rs) p = Some s"
    and "unat (ms_nfields s) + length fs \<le> 32" "length (ms_fields s) = 32" "\<forall>f\<in>set fs. desc_ok f"
  shows "\<exists>rs' Ps'. register_fields rs p fs = Inr rs' \<and> mregstate e rs' Ps' \<and> room (snd rs') n \<and>
    (\<forall>c. c \<notin> range e \<longrightarrow> Ps' c = Ps c) \<and> mr_metadata (fst rs') = mr_metadata (fst rs) \<and>
    extended (mr_structs (fst rs)) (mr_fields (fst rs)) (mr_structs (fst rs')) (mr_fields (fst rs')) p s fs"
  using assms
proof (induction rs p fs arbitrary: Ps s n rule: register_fields.induct)
  case (1 rs p)
  then show ?case using extended_Nil by (intro exI [of _ rs] exI [of _ Ps]) simp
next
  case (2 rs p nm t off an sub fs)
  obtain reg st where rs: "rs = (reg, st)" by (cases rs)
  let ?rest = "(\<Sum>f\<leftarrow>fs. desc_need f) + n" and ?f = "FD nm t off an sub"
  have rm: "room st (2 + ((\<Sum>f\<leftarrow>sub. desc_need f) + ?rest))" using "2.prems"(3) rs by (simp add: add.assoc)
  have sp: "mr_structs reg p = Some s" "unat (ms_nfields s) < 32" "length nm < 256" using "2.prems"(5,6,8) rs by simp_all
  from init_mfield_spec [OF "2.prems"(1) [unfolded rs] "2.prems"(2) rm "2.prems"(4) sp(1,2) "2.prems"(7) sp(3)]
  obtain m q reg1 st1 Ps1 where
    1: "fdb_mregistry_init_mfield (reg, st) p nm t off an = Inr (q, (reg1, st1))" "mregstate e (reg1, st1) Ps1"
      "room st1 ((\<Sum>f\<leftarrow>sub. desc_need f) + ?rest)" "\<forall>c. c \<notin> range e \<longrightarrow> Ps1 c = Ps c" "mr_metadata reg1 = mr_metadata reg"
      "m \<notin> dom (mr_fields reg)" "mr_fields reg1 = (mr_fields reg)(m \<mapsto>
        \<lparr>mf_name = nm, mf_type = t, mf_offset = off, mf_anonymous = an, mf_strct_type = q\<rparr>)"
      "if compound t then q \<noteq> NULL \<and> q \<notin> dom (mr_structs reg) \<and>
         mr_structs reg1 = (mr_structs reg)(q \<mapsto> zero_mstruct, p \<mapsto> with_field s m)
       else q = NULL \<and> mr_structs reg1 = (mr_structs reg)(p \<mapsto> with_field s m)" by blast
  note w = with_field [OF sp(2) "2.prems"(7), of m]
  have le: "mr_fields reg \<subseteq>\<^sub>m mr_fields reg1" using 1(6,7) by (auto simp: map_le_def)
  have ok: "compound t \<or> sub = []" "length sub \<le> 32" "\<forall>f\<in>set sub. desc_ok f" "\<forall>f\<in>set fs. desc_ok f"
    using "2.prems"(8) by simp_all
  have "\<exists>reg2 st2 Ps2. register_fields (reg1, st1) q sub = Inr (reg2, st2) \<and> mregstate e (reg2, st2) Ps2 \<and> room st2 ?rest \<and>
    (\<forall>c. c \<notin> range e \<longrightarrow> Ps2 c = Ps1 c) \<and> mr_metadata reg2 = mr_metadata reg1 \<and> dom (mr_structs reg) \<subseteq> dom (mr_structs reg2) \<and>
    (\<forall>x\<in>dom (mr_structs reg). x \<noteq> p \<longrightarrow> mr_structs reg2 x = mr_structs reg x) \<and> mr_structs reg2 p = Some (with_field s m) \<and>
    mr_fields reg \<subseteq>\<^sub>m mr_fields reg2 \<and> field_shows (outside (mr_structs reg2) (mr_structs reg)) (mr_fields reg2) m ?f"
  proof (cases "compound t")
    case False
    then have "register_fields (reg1, st1) q sub = Inr (reg1, st1)" "room st1 ?rest" using ok(1) 1(3) by simp_all
    then show ?thesis using 1(2,7,8) False le
      by (intro exI [of _ reg1] exI [of _ st1] exI [of _ Ps1]) auto
  next
    case True
    then have q: "q \<noteq> NULL" "q \<notin> dom (mr_structs reg)" "q \<noteq> p"
      "mr_structs reg1 = (mr_structs reg)(q \<mapsto> zero_mstruct, p \<mapsto> with_field s m)" using 1(8) sp(1) by auto
    have z: "mr_structs (fst (reg1, st1)) q = Some zero_mstruct" "room (snd (reg1, st1)) ((\<Sum>f\<leftarrow>sub. desc_need f) + ?rest)"
      "unat (ms_nfields zero_mstruct) + length sub \<le> 32" "length (ms_fields zero_mstruct) = 32"
      using q(3,4) 1(3) ok(2) by (simp_all add: zero_mstruct_def FDB_MAX_COMPONENT_FIELDS_def)
    from "2.IH"(1) [OF 1(1) [folded rs] refl 1(2) "2.prems"(2) z(2) q(1) z(1,3,4) ok(3)] obtain rs2 Ps2 where
      i: "register_fields (reg1, st1) q sub = Inr rs2" "mregstate e rs2 Ps2" "room (snd rs2) ?rest"
        "\<forall>c. c \<notin> range e \<longrightarrow> Ps2 c = Ps1 c" "mr_metadata (fst rs2) = mr_metadata reg1"
        "extended (mr_structs reg1) (mr_fields reg1) (mr_structs (fst rs2)) (mr_fields (fst rs2)) q zero_mstruct sub" by auto
    obtain reg2 st2 where rs2: "rs2 = (reg2, st2)" by (cases rs2)
    note x = i(6) [unfolded extended_def rs2 fst_conv]
    have dom1: "dom (mr_structs reg) \<subseteq> dom (mr_structs reg1)" unfolding q(4) by auto
    have same: "mr_structs reg2 x = mr_structs reg1 x" if "x \<in> dom (mr_structs reg1)" "x \<noteq> q" for x using x that by blast
    have "mr_structs reg2 p = Some (with_field s m)" using same [of p] q(3,4) by auto
    moreover have "\<forall>y\<in>dom (mr_structs reg). y \<noteq> p \<longrightarrow> mr_structs reg2 y = mr_structs reg y"
    proof (intro ballI impI)
      fix y assume y: "y \<in> dom (mr_structs reg)" "y \<noteq> p"
      then have "y \<noteq> q" using q(2) by blast
      moreover have "y \<in> dom (mr_structs reg1)" using dom1 y(1) by blast
      ultimately have "mr_structs reg2 y = mr_structs reg1 y" by (intro same)
      then show "mr_structs reg2 y = mr_structs reg y" using y(2) \<open>y \<noteq> q\<close> unfolding q(4) by simp
    qed
    moreover have "mr_fields reg1 \<subseteq>\<^sub>m mr_fields reg2" using x by blast
    moreover from this have "mr_fields reg2 m = mr_fields reg1 m" unfolding 1(7) by (auto simp: map_le_def)
    moreover have "struct_shows (outside (mr_structs reg2) (mr_structs reg)) (mr_fields reg2) q sub"
      using extended_struct [OF i(6) q(2) dom1 ok(2)] unfolding rs2 by simp
    moreover have "dom (mr_structs reg) \<subseteq> dom (mr_structs reg2)" using dom1 x by blast
    ultimately show ?thesis using i(1-5) True 1(7) le map_le_trans unfolding rs2
      by (intro exI [of _ reg2] exI [of _ st2] exI [of _ Ps2]) (auto simp del: fun_upd_apply simp: fun_upd_same)
  qed
  then obtain reg2 st2 Ps2 where 2: "register_fields (reg1, st1) q sub = Inr (reg2, st2)" "mregstate e (reg2, st2) Ps2"
    "room (snd (reg2, st2)) ?rest" "\<forall>c. c \<notin> range e \<longrightarrow> Ps2 c = Ps1 c" "mr_metadata reg2 = mr_metadata reg1"
    "dom (mr_structs reg) \<subseteq> dom (mr_structs reg2)" "\<forall>x\<in>dom (mr_structs reg). x \<noteq> p \<longrightarrow> mr_structs reg2 x = mr_structs reg x"
    "mr_structs (fst (reg2, st2)) p = Some (with_field s m)" "mr_fields reg \<subseteq>\<^sub>m mr_fields reg2"
    "field_shows (outside (mr_structs reg2) (mr_structs reg)) (mr_fields reg2) m ?f" by auto
  have fit: "unat (ms_nfields (with_field s m)) + length fs \<le> 32" using "2.prems"(6) w(1) by simp
  from "2.IH"(2) [OF 1(1) [folded rs] refl 2(1,2) "2.prems"(2) 2(3) "2.prems"(4) 2(8) fit w(2) ok(4)] obtain rs3 Ps3 where
    3: "register_fields (reg2, st2) p fs = Inr rs3" "mregstate e rs3 Ps3" "room (snd rs3) n"
      "\<forall>c. c \<notin> range e \<longrightarrow> Ps3 c = Ps2 c" "mr_metadata (fst rs3) = mr_metadata reg2"
      "extended (mr_structs reg2) (mr_fields reg2) (mr_structs (fst rs3)) (mr_fields (fst rs3)) p (with_field s m) fs" by auto
  have "register_fields rs p (?f # fs) = Inr rs3" using 1(1) 2(1) 3(1) rs by simp
  moreover have "p \<in> dom (mr_structs reg)" using sp(1) by blast
  note extended_Cons [OF sp(2) "2.prems"(7) this 2(6,7,9,10) 3(6)]
  ultimately show ?case using 3(2-5) 2(4,5) 1(4,5) rs
    by (intro exI [of _ rs3] exI [of _ Ps3]) simp
qed

lemma init_mstruct_spec:
  assumes s: "mregstate e (reg, st) Ps" and e: "inj e" and room: "room st (Suc (BT_NODES + n))"
    and h: "btree_holds (mr_metadata reg) xs" "hash nm \<notin> fst ` set xs" and nm: "length nm < 256"
  shows "\<exists>p reg' st' Ps'. fdb_mregistry_init_mstruct (reg, st) nm u = Inr (p, (reg', st')) \<and> p \<noteq> NULL \<and>
    p \<notin> dom (mr_structs reg) \<and> mr_structs reg' = (mr_structs reg)(p \<mapsto> zero_mstruct\<lparr>ms_type_name := nm, ms_is_union := u\<rparr>) \<and>
    mr_fields reg' = mr_fields reg \<and> btree_holds (mr_metadata reg') (ins (hash nm) p xs) \<and> mregstate e (reg', st') Ps' \<and>
    room st' n \<and> (\<forall>c. c \<notin> range e \<longrightarrow> Ps' c = Ps c)"
proof -
  have ne: "e x = e y \<longleftrightarrow> x = y" for x y using e by (auto dest: injD)
  from alloc_mstruct_spec [OF s e room] obtain p pa st1 Ps1 where
    1: "alloc_mstruct (reg, st) = Inr (p, (reg\<lparr>mr_mstruct_allocator := pa, mr_structs := (mr_structs reg)(p \<mapsto> zero_mstruct)\<rparr>, st1))"
      "p \<noteq> NULL" "p \<notin> dom (mr_structs reg)" "room st1 (BT_NODES + n)" "\<forall>c. c \<notin> range e \<longrightarrow> Ps1 c = Ps c"
      "\<And>hs. dom hs = insert p (dom (mr_structs reg)) \<Longrightarrow>
         mregstate e (reg\<lparr>mr_mstruct_allocator := pa, mr_structs := hs\<rparr>, st1) Ps1" by blast
  let ?s = "zero_mstruct\<lparr>ms_type_name := nm, ms_is_union := u\<rparr>"
  let ?reg = "reg\<lparr>mr_mstruct_allocator := pa, mr_structs := (mr_structs reg)(p \<mapsto> ?s)\<rparr>"
  have "mregstate e (?reg, st1) Ps1" by (rule 1(6)) simp
  then have m: "(\<exists>sl. pool_holds alloc free pa (Ps1 (e MStructs)) sl \<and> dom sl = insert p (dom (mr_structs reg))) \<and>
     (\<exists>fl. pool_holds alloc free (mr_mfield_allocator reg) (Ps1 (e MFields)) fl \<and> dom fl = dom (mr_fields reg)) \<and>
     pool_takes S pa 64 sizeof_mstruct \<and> pool_takes S (mr_mfield_allocator reg) 64 sizeof_mfield"
    "tree_client alloc free S (mr_metadata reg) (Ps1 (e MTree))" "clients ainv st1 Ps1"
    unfolding mreg_mem_def by auto
  from client_insert [OF m(3,2) 1(4) h(1) 1(2), of "hash nm"] obtain r b st2 P2 where
    2: "fdb_btree_insert (mr_metadata reg, st1) (hash nm) p = Inr (r, (b, st2))" "btree_holds b (ins (hash nm) p xs)"
      "place_ok (hash nm) xs (bt_nodes b) (ins (hash nm) p xs) r" "room st2 n" "clients ainv st2 (Ps1(e MTree := P2))"
      "tree_client alloc free S b P2" by blast
  have new: "bi_inserted r" using 2(3) h(2) by (simp add: place_ok_def)
  have zero: "zero_mstruct\<lparr>ms_type_name := nm, ms_is_union := u, ms_nfields := 0\<rparr> = ?s" by (simp add: zero_mstruct_def)
  have run: "fdb_mregistry_init_mstruct (reg, st) nm u = Inr (p, (?reg\<lparr>mr_metadata := b\<rparr>, st2))"
    using 1(1) 2(1) new nm zero
    by (simp add: fdb_mregistry_init_mstruct_def copy_and_check_str_def FDB_MAX_TABLE_NAME_def)
  have "mregstate e (?reg\<lparr>mr_metadata := b\<rparr>, st2) (Ps1(e MTree := P2))"
    unfolding mreg_mem_def prod.case using m(1) 2(5,6) ne by simp
  then show ?thesis using run 1(2,3,5) 2(2,4)
    by (intro exI [of _ p] exI [of _ "?reg\<lparr>mr_metadata := b\<rparr>"] exI [of _ st2] exI [of _ "Ps1(e MTree := P2)"]) auto
qed

end

section \<open>Registering types\<close>

type_synonym type_desc = "string \<times> bool \<times> field_desc list"

fun register_type :: "'st fdb_mregistry_t \<times> 'st \<Rightarrow> type_desc \<Rightarrow> ('st fdb_mregistry_t \<times> 'st) res" where
  "register_type rs (nm, u, fs) = bind_res (fdb_mregistry_init_mstruct rs nm u) (\<lambda>(p, rs). register_fields rs p fs)"

fun register_types :: "'st fdb_mregistry_t \<times> 'st \<Rightarrow> type_desc list \<Rightarrow> ('st fdb_mregistry_t \<times> 'st) res" where
  "register_types rs [] = Inr rs"
| "register_types rs (d # ds) = bind_res (register_type rs d) (\<lambda>rs. register_types rs ds)"

fun type_shows :: "(ptr \<rightharpoonup> fdb_mstruct_t) \<Rightarrow> (ptr \<rightharpoonup> fdb_mfield_t) \<Rightarrow> ptr \<Rightarrow> type_desc \<Rightarrow> bool" where
  "type_shows hs hf p (nm, u, fs) = (case hs p of None \<Rightarrow> False | Some s \<Rightarrow>
     ms_type_name s = nm \<and> ms_is_union s = u \<and> struct_shows hs hf p fs)"

fun type_ok :: "type_desc \<Rightarrow> bool" where
  "type_ok (nm, u, fs) \<longleftrightarrow> length nm < 256 \<and> length fs \<le> 32 \<and> (\<forall>f\<in>set fs. desc_ok f)"

fun type_need :: "type_desc \<Rightarrow> nat" where
  "type_need (nm, u, fs) = Suc BT_NODES + (\<Sum>f\<leftarrow>fs. desc_need f)"

definition types_held :: "'st fdb_mregistry_t \<Rightarrow> type_desc list \<Rightarrow> bool" where
  "types_held reg ds \<longleftrightarrow> (\<exists>xs. btree_holds (mr_metadata reg) xs \<and> fst ` set xs = hash ` fst ` set ds \<and>
     (\<forall>d\<in>set ds. \<exists>p. map_of xs (hash (fst d)) = Some p \<and> type_shows (mr_structs reg) (mr_fields reg) p d))"

lemma type_shows_mono: "type_shows hs hf p d \<Longrightarrow> hs \<subseteq>\<^sub>m hs' \<Longrightarrow> hf \<subseteq>\<^sub>m hf' \<Longrightarrow> type_shows hs' hf' p d"
proof (cases d)
  fix nm u fs assume a: "type_shows hs hf p d" "hs \<subseteq>\<^sub>m hs'" "hf \<subseteq>\<^sub>m hf'" and d: "d = (nm, u, fs)"
  then obtain s where s: "hs p = Some s" "ms_type_name s = nm" "ms_is_union s = u" "struct_shows hs hf p fs"
    by (auto split: option.splits simp del: struct_shows.simps)
  have "hs' p = Some s" using s(1) a(2) by (auto simp: map_le_def dom_def)
  then show "type_shows hs' hf' p d" using s shows_mono(2) [OF s(4) a(2,3)] d by (simp del: struct_shows.simps)
qed

lemma extended_type:
  assumes x: "extended hs1 hf1 hs2 hf2 p (zero_mstruct\<lparr>ms_type_name := nm, ms_is_union := u\<rparr>) fs"
    and hs1: "hs1 = hs(p \<mapsto> zero_mstruct\<lparr>ms_type_name := nm, ms_is_union := u\<rparr>)" "p \<notin> dom hs" and fs: "length fs \<le> 32"
  shows "type_shows hs2 hf2 p (nm, u, fs)" "hs \<subseteq>\<^sub>m hs2" "hf1 \<subseteq>\<^sub>m hf2"
proof -
  obtain s' where s': "hs2 p = Some s'" "ms_type_name s' = nm" "ms_is_union s' = u" using x unfolding extended_def by auto
  obtain s0 qs where s0: "hs2 p = Some s0" "length (ms_fields s0) = 32" "unat (ms_nfields s0) = length fs"
    "take (unat (ms_nfields s0)) (ms_fields s0) = qs" "fields_show (outside hs2 hs1) hf2 qs fs"
    using x unfolding extended_def by (auto simp: zero_mstruct_def)
  have "outside hs2 hs1 \<subseteq>\<^sub>m hs2" by (auto simp: outside_apply map_le_def split: if_splits)
  then have "fields_show hs2 hf2 qs fs" using shows_mono(3) [OF s0(5)] map_le_refl by blast
  then have "struct_shows hs2 hf2 p fs" using s0(1-4) fs by simp
  then show "type_shows hs2 hf2 p (nm, u, fs)" using s' by (simp del: struct_shows.simps)
  have "\<forall>y\<in>dom hs1. y \<noteq> p \<longrightarrow> hs2 y = hs1 y" using x unfolding extended_def by blast
  then show "hs \<subseteq>\<^sub>m hs2" using hs1 by (auto simp: map_le_def)
  show "hf1 \<subseteq>\<^sub>m hf2" using x unfolding extended_def by blast
qed

context steady_provider
begin

lemma register_type_spec:
  assumes s: "mregstate e rs Ps" and e: "inj e" and room: "room (snd rs) (type_need d + n)" and ok: "type_ok d"
    and h: "types_held (fst rs) ds" and new: "hash (fst d) \<notin> hash ` fst ` set ds"
  shows "\<exists>rs' Ps'. register_type rs d = Inr rs' \<and> mregstate e rs' Ps' \<and> room (snd rs') n \<and> types_held (fst rs') (ds @ [d])"
proof -
  obtain reg st nm u fs where x: "rs = (reg, st)" "d = (nm, u, fs)" by (metis prod.collapse)
  obtain xs where xs: "btree_holds (mr_metadata reg) xs" "fst ` set xs = hash ` fst ` set ds"
    "\<forall>d\<in>set ds. \<exists>p. map_of xs (hash (fst d)) = Some p \<and> type_shows (mr_structs reg) (mr_fields reg) p d"
    using h unfolding types_held_def x by auto
  have o: "length nm < 256" "length fs \<le> 32" "\<forall>f\<in>set fs. desc_ok f" "hash nm \<notin> fst ` set xs"
    using ok new unfolding x xs(2) by simp_all
  have r: "room st (Suc (BT_NODES + ((\<Sum>f\<leftarrow>fs. desc_need f) + n)))" using room unfolding x by (simp add: add.assoc)
  from init_mstruct_spec [OF s [unfolded x] e r xs(1) o(4,1), of u] obtain p reg1 st1 Ps1 where
    1: "fdb_mregistry_init_mstruct (reg, st) nm u = Inr (p, (reg1, st1))" "p \<noteq> NULL" "p \<notin> dom (mr_structs reg)"
      "mr_structs reg1 = (mr_structs reg)(p \<mapsto> zero_mstruct\<lparr>ms_type_name := nm, ms_is_union := u\<rparr>)"
      "mr_fields reg1 = mr_fields reg" "btree_holds (mr_metadata reg1) (ins (hash nm) p xs)" "mregstate e (reg1, st1) Ps1"
      "room st1 ((\<Sum>f\<leftarrow>fs. desc_need f) + n)" by blast
  have rm: "room (snd (reg1, st1)) ((\<Sum>f\<leftarrow>fs. desc_need f) + n)" using 1(8) by simp
  have z: "mr_structs (fst (reg1, st1)) p = Some (zero_mstruct\<lparr>ms_type_name := nm, ms_is_union := u\<rparr>)"
    "unat (ms_nfields (zero_mstruct\<lparr>ms_type_name := nm, ms_is_union := u\<rparr>)) + length fs \<le> 32"
    "length (ms_fields (zero_mstruct\<lparr>ms_type_name := nm, ms_is_union := u\<rparr>)) = 32"
    using 1(4) o(2) by (simp_all add: zero_mstruct_def FDB_MAX_COMPONENT_FIELDS_def)
  from register_fields_spec [OF 1(7) e rm 1(2) z o(3)] obtain rs2 Ps2 where
    2: "register_fields (reg1, st1) p fs = Inr rs2" "mregstate e rs2 Ps2" "room (snd rs2) n"
      "mr_metadata (fst rs2) = mr_metadata reg1"
      "extended (mr_structs reg1) (mr_fields reg1) (mr_structs (fst rs2)) (mr_fields (fst rs2)) p
        (zero_mstruct\<lparr>ms_type_name := nm, ms_is_union := u\<rparr>) fs" by auto
  note ext = extended_type [OF 2(5) 1(4,3) o(2)]
  have mp: "map_of (ins (hash nm) p xs) = (map_of xs)(hash nm \<mapsto> p)"
    by (rule map_of_ins_new [OF btree_holds_ascending [OF xs(1)] o(4)])
  have set: "set (ins (hash nm) p xs) = insert (hash nm, p) (set xs)"
    by (rule set_ins_new [OF btree_holds_ascending [OF xs(1)] o(4)])
  have "\<exists>q. map_of (ins (hash nm) p xs) (hash (fst d')) = Some q \<and> type_shows (mr_structs (fst rs2)) (mr_fields (fst rs2)) q d'"
    if d': "d' \<in> set (ds @ [d])" for d'
  proof (cases "d' = d")
    case True
    then show ?thesis using mp ext(1) x(2) by (simp del: type_shows.simps)
  next
    case False
    then have "d' \<in> set ds" using d' by simp
    then obtain q where q: "map_of xs (hash (fst d')) = Some q" "type_shows (mr_structs reg) (mr_fields reg) q d'" using xs(3) by blast
    have "hash (fst d') \<in> hash ` fst ` set ds" using \<open>d' \<in> set ds\<close> by (intro imageI)
    then have "hash (fst d') \<noteq> hash nm" using new unfolding x(2) by (metis fst_conv)
    then show ?thesis using q(1) mp type_shows_mono [OF q(2) ext(2) ext(3) [unfolded 1(5)]] by simp
  qed
  then have "types_held (fst rs2) (ds @ [d])" unfolding types_held_def
    using 1(6) 2(4) set xs(2) x(2) by (intro exI [of _ "ins (hash nm) p xs"]) auto
  moreover have "register_type rs d = Inr rs2" using 1(1) 2(1) x by simp
  ultimately show ?thesis using 2(2,3) by blast
qed

lemma register_types_spec:
  assumes "mregstate e rs Ps" "inj e" "room (snd rs) (\<Sum>d\<leftarrow>ds. type_need d)" "\<forall>d\<in>set ds. type_ok d" "types_held (fst rs) old"
    and "distinct (map (hash \<circ> fst) (old @ ds))"
  shows "\<exists>rs'. register_types rs ds = Inr rs' \<and> types_held (fst rs') (old @ ds)"
  using assms(1,3-6)
proof (induction ds arbitrary: rs Ps old)
  case (Cons d ds)
  have o: "room (snd rs) (type_need d + (\<Sum>d\<leftarrow>ds. type_need d))" "type_ok d" "\<forall>d\<in>set ds. type_ok d"
    "hash (fst d) \<notin> hash ` fst ` set old" "distinct (map (hash \<circ> fst) ((old @ [d]) @ ds))"
    using Cons.prems(2,3,5) by (auto simp: image_image comp_def)
  from register_type_spec [OF Cons.prems(1) assms(2) o(1,2) Cons.prems(4) o(4)] obtain rs1 Ps1 where
    1: "register_type rs d = Inr rs1" "mregstate e rs1 Ps1" "room (snd rs1) (\<Sum>d\<leftarrow>ds. type_need d)" "types_held (fst rs1) (old @ [d])" by blast
  from Cons.IH [OF 1(2,3) o(3) 1(4) o(5)] show ?case using 1(1) by simp
qed simp

end

lemma types_held_get:
  assumes "types_held reg ds"
  shows "d \<in> set ds \<Longrightarrow> \<exists>p. fdb_mregistry_get_mstruct reg (fst d) = Inr p \<and> type_shows (mr_structs reg) (mr_fields reg) p d"
    "hash nm \<notin> hash ` fst ` set ds \<Longrightarrow> fdb_mregistry_get_mstruct reg nm = Inr NULL"
proof -
  obtain xs where xs: "btree_holds (mr_metadata reg) xs" "fst ` set xs = hash ` fst ` set ds"
    "\<forall>d\<in>set ds. \<exists>p. map_of xs (hash (fst d)) = Some p \<and> type_shows (mr_structs reg) (mr_fields reg) p d"
    using assms unfolding types_held_def by auto
  have get: "fdb_mregistry_get_mstruct reg n = Inr (case map_of xs (hash n) of None \<Rightarrow> NULL | Some w \<Rightarrow> w)" for n
    using get_spec [OF xs(1), of "hash n"] by (simp add: fdb_mregistry_get_mstruct_def lookup_map)
  show "d \<in> set ds \<Longrightarrow> \<exists>p. fdb_mregistry_get_mstruct reg (fst d) = Inr p \<and> type_shows (mr_structs reg) (mr_fields reg) p d"
    using xs(3) get [of "fst d"] by auto
  assume "hash nm \<notin> hash ` fst ` set ds"
  then have "map_of xs (hash nm) = None" unfolding map_of_eq_None_iff xs(2) .
  then show "fdb_mregistry_get_mstruct reg nm = Inr NULL" using get [of nm] by simp
qed

section \<open>Property\<close>

text \<open>C39: What is registered is what is read. Over a page allocator, for any list of types whose names
  have different hashes, each with at most 32 fields at every level of nesting and names that fit,
  registering the types with \<open>init_mstruct\<close> and \<open>init_mfield\<close> succeeds, and then looking up a name
  gives a structure that shows its name, its kind and all its fields in order, with their nested
  fields; a name whose hash was not registered gives NULL.\<close>

theorem mregistry_roundtrip:
  assumes "page_inv pg live" "live_apart live" "page_room pg (Suc (\<Sum>d\<leftarrow>ds. type_need d))" "page_serves pg 64 4096"
    and "\<forall>d\<in>set ds. type_ok d" "distinct (map (hash \<circ> fst) ds)"
  shows "\<exists>reg pg1 reg' pg2. fdb_mregistry_init (Some fdb_page_alloc_super) g hdr pg = Inr (reg, pg1) \<and>
    register_types (reg, pg1) ds = Inr (reg', pg2) \<and>
    (\<forall>d\<in>set ds. \<exists>p. fdb_mregistry_get_mstruct reg' (fst d) = Inr p \<and> type_shows (mr_structs reg') (mr_fields reg') p d) \<and>
    (\<forall>nm. hash nm \<notin> hash ` fst ` set ds \<longrightarrow> fdb_mregistry_get_mstruct reg' nm = Inr NULL)"
proof -
  let ?S = "page_serves pg" and ?inv = "page_steady (page_serves pg)"
  have cl: "clients ?inv pg (\<lambda>_ :: mreg_client. Map.empty)" by (rule clients_start) (use assms(1,2) in auto)
  have al: "p_mem_alloc (case Some fdb_page_alloc_super of Some a \<Rightarrow> a | None \<Rightarrow> g) = fdb_page_alloc_alloc"
    "p_mem_free (case Some fdb_page_alloc_super of Some a \<Rightarrow> a | None \<Rightarrow> g) = fdb_page_alloc_free"
    by (simp_all add: fdb_page_alloc_super_def)
  from steady_page.mregistry_init_spec [where hdr = hdr, OF al cl inj_on_id _ assms(3,4)] obtain reg pg1 Ps where
    1: "fdb_mregistry_init (Some fdb_page_alloc_super) g hdr pg = Inr (reg, pg1)" "steady_page.mregstate ?S id (reg, pg1) Ps"
      "page_room (snd (reg, pg1)) (\<Sum>d\<leftarrow>ds. type_need d)" "btree_holds (mr_metadata reg) []" by auto
  have h: "types_held (fst (reg, pg1)) []" using 1(4) by (auto simp: types_held_def)
  have d: "distinct (map (hash \<circ> fst) ([] @ ds))" using assms(6) by simp
  from steady_page.register_types_spec [OF 1(2) inj_on_id 1(3) assms(5) h d] obtain reg' pg2 where
    2: "register_types (reg, pg1) ds = Inr (reg', pg2)" "types_held reg' ds" by auto
  show ?thesis using 1(1) 2(1) types_held_get [OF 2(2)] by blast
qed

theorem mregistry_roundtrip_witness:
  "\<exists>reg pg1 reg' pg2 p. fdb_mregistry_init (Some fdb_page_alloc_super) fdb_page_alloc_super (\<lambda>_. 0) demo_db_page = Inr (reg, pg1) \<and>
    register_types (reg, pg1) [(''pos'', False, [FD ''x'' E_FLOAT 0 False [], FD ''y'' E_FLOAT 4 False []]),
      (''vel'', False, [FD ''d'' E_STRUCT 0 True [FD ''x'' E_FLOAT 0 False []]])] = Inr (reg', pg2) \<and>
    fdb_mregistry_get_mstruct reg' ''vel'' = Inr p \<and>
    type_shows (mr_structs reg') (mr_fields reg') p (''vel'', False, [FD ''d'' E_STRUCT 0 True [FD ''x'' E_FLOAT 0 False []]])"
proof -
  let ?v = "(''vel'', False, [FD ''d'' E_STRUCT 0 True [FD ''x'' E_FLOAT 0 False []]]) :: type_desc"
  let ?ds = "[(''pos'', False, [FD ''x'' E_FLOAT 0 False [], FD ''y'' E_FLOAT 4 False []]), ?v]"
  have room: "page_room demo_db_page (Suc (\<Sum>d\<leftarrow>?ds. type_need d))"
    by (simp add: BT_NODES_def page_room_def demo_db_page_def)
  have ok: "\<forall>d\<in>set ?ds. type_ok d" by (simp add: compound_def)
  have "hash ''pos'' \<noteq> hash ''vel''" using demo_names by (auto simp: inj_on_def)
  then have dist: "distinct (map (hash \<circ> fst) ?ds)" by simp
  from mregistry_roundtrip [OF demo_db_page_inv(1) live_apart_empty room demo_db_page_inv(3) ok dist,
      where g = fdb_page_alloc_super and hdr = "\<lambda>_. 0"]
  obtain reg pg1 reg' pg2 where r: "fdb_mregistry_init (Some fdb_page_alloc_super) fdb_page_alloc_super (\<lambda>_. 0) demo_db_page = Inr (reg, pg1)"
    "register_types (reg, pg1) ?ds = Inr (reg', pg2)"
    "\<forall>d\<in>set ?ds. \<exists>p. fdb_mregistry_get_mstruct reg' (fst d) = Inr p \<and> type_shows (mr_structs reg') (mr_fields reg') p d" by blast
  obtain p where "fdb_mregistry_get_mstruct reg' (fst ?v) = Inr p" "type_shows (mr_structs reg') (mr_fields reg') p ?v"
    using r(3) [rule_format, of ?v] by (auto simp del: type_shows.simps)
  then show ?thesis using r(1,2) by (intro exI [of _ reg] exI [of _ pg1] exI [of _ reg'] exI [of _ pg2] exI [of _ p]) (simp del: type_shows.simps register_types.simps)
qed

end
