(* ===== verification/Database.thy ===== *)
theory Database
  imports Reflection RefTable BitTable StackAlloc
begin

text \<open>
  src/src/runtime/data/database.c and database.h: the database. Four B+ trees find tables, tag sets,
  reference tables and globals by the hash of their names; the structures they point to come from
  pools and live in the heaps of the record, and everything draws its pages from one allocator.
  Every operation is one critical section of the database's mutex. The embedded web server is not
  part of the state here.
\<close>

section \<open>State\<close>

definition FDB_DATABASE_TABLE_ALIGNMENT :: u32 where "FDB_DATABASE_TABLE_ALIGNMENT = 64"
definition FDB_DATABASE_BITTABLE_ALIGNMENT :: u32 where "FDB_DATABASE_BITTABLE_ALIGNMENT = 64"
definition FDB_DATABASE_TABLE_PAGE_SIZE :: u32 where "FDB_DATABASE_TABLE_PAGE_SIZE = 4 * 1024"
definition FDB_DATABASE_BITTABLE_PAGE_SIZE :: u32 where "FDB_DATABASE_BITTABLE_PAGE_SIZE = 4 * 1024"
definition FDB_DATABASE_GLOBAL_PAGE_SIZE :: u32 where "FDB_DATABASE_GLOBAL_PAGE_SIZE = 4 * 1024"

text \<open>The sizes of the structures on x86-64 Linux, where a mutex has 40 bytes; a reference table is a
  table.\<close>

definition sizeof_table :: u32 where "sizeof_table = 1048"
definition sizeof_bittable :: u32 where "sizeof_bittable = 552"
definition sizeof_global_info :: u32 where "sizeof_global_info = 64"

record fdb_table_info_t =
  ifo_name :: string
  ifo_size :: u32

record fdb_global_info_t =
  gi_global :: ptr
  gi_destructor :: ptr

record 'st fdb_database_t =
  db_tags :: "'st fdb_btree_t"
  db_tables :: "'st fdb_btree_t"
  db_references :: "'st fdb_btree_t"
  db_globals :: "'st fdb_btree_t"
  db_mregistry :: "'st fdb_mregistry_t"
  db_page_allocator :: "'st fdb_mem_allocator_t"
  db_table_allocator :: "'st fdb_pool_alloc_t"
  db_bittable_allocator :: "'st fdb_pool_alloc_t"
  db_global_allocator :: "'st fdb_stack_alloc_t"
  db_table_heap :: "ptr \<rightharpoonup> 'st fdb_table_t"
  db_bittable_heap :: "ptr \<rightharpoonup> 'st fdb_bittable_t"
  db_reftable_heap :: "ptr \<rightharpoonup> 'st fdb_reftable_t"
  db_global_heap :: "ptr \<rightharpoonup> fdb_global_info_t"

definition obj_at :: "(ptr \<rightharpoonup> 'a) \<Rightarrow> ptr \<Rightarrow> 'a res" where
  "obj_at h p = (if p = NULL then Inl NullDeref else case h p of None \<Rightarrow> Inl BadPointer | Some x \<Rightarrow> Inr x)"

section \<open>Operations\<close>

text \<open>\<open>mem\<close> is what the header words of fresh memory hold.\<close>

definition fdb_database_init ::
  "'st fdb_mem_allocator_t option \<Rightarrow> 'st fdb_mem_allocator_t \<Rightarrow> (ptr \<Rightarrow> ptr) \<Rightarrow> 'st \<Rightarrow> ('st fdb_database_t \<times> 'st) res" where
  "fdb_database_init allocator gallocator mem st =
     (let al = (case allocator of Some a \<Rightarrow> a | None \<Rightarrow> gallocator) in
     bind_res (fdb_pool_alloc_init FDB_DATABASE_TABLE_ALIGNMENT sizeof_table FDB_DATABASE_TABLE_PAGE_SIZE (Some al)
       gallocator mem) (\<lambda>ta.
     bind_res (fdb_pool_alloc_init FDB_DATABASE_BITTABLE_ALIGNMENT sizeof_bittable FDB_DATABASE_BITTABLE_PAGE_SIZE (Some al)
       gallocator mem) (\<lambda>ba.
     let ga = fdb_stack_alloc_init FDB_DATABASE_GLOBAL_PAGE_SIZE (Some al) gallocator in
     bind_res (fdb_btree_init (Some al) gallocator mem st) (\<lambda>(tags, st).
     bind_res (fdb_btree_init (Some al) gallocator mem st) (\<lambda>(tables, st).
     bind_res (fdb_btree_init (Some al) gallocator mem st) (\<lambda>(references, st).
     bind_res (fdb_btree_init (Some al) gallocator mem st) (\<lambda>(globals, st).
     bind_res (fdb_mregistry_init (Some al) gallocator mem st) (\<lambda>(reg, st).
     Inr (\<lparr>db_tags = tags, db_tables = tables, db_references = references, db_globals = globals, db_mregistry = reg,
            db_page_allocator = al, db_table_allocator = ta, db_bittable_allocator = ba, db_global_allocator = ga,
            db_table_heap = Map.empty, db_bittable_heap = Map.empty, db_reftable_heap = Map.empty,
            db_global_heap = Map.empty\<rparr>, st)))))))))"

definition get_table_id :: "string \<Rightarrow> u32" where "get_table_id table_name = hash table_name"

subsection \<open>Tables\<close>

text \<open>The part that \<open>create_table\<close> and \<open>find_or_create_table\<close> share.\<close>

definition new_table ::
  "(ptr \<Rightarrow> ptr) \<Rightarrow> 'st fdb_database_t \<times> 'st \<Rightarrow> u32 \<Rightarrow> string \<Rightarrow> u64 \<Rightarrow> ptr \<Rightarrow> (ptr \<times> ('st fdb_database_t \<times> 'st)) res" where
  "new_table mem dbs hash_value tname csize dstr =
     (let (db, st) = dbs;
          (p, (pa, st)) = fdb_pool_alloc_alloc (db_table_allocator db, st) FDB_DATABASE_TABLE_ALIGNMENT sizeof_table FDB_NO_HINT
      in if p = NULL then Inl NullDeref else
     bind_res (fdb_table_init tname (ucast hash_value) csize dstr (Some (db_page_allocator db)) (db_page_allocator db) mem st) (\<lambda>(table, st).
     bind_res (fdb_btree_insert (db_tables db, st) hash_value p) (\<lambda>(_, (tables, st)).
     Inr (p, (db\<lparr>db_table_allocator := pa, db_tables := tables, db_table_heap := (db_table_heap db)(p \<mapsto> table)\<rparr>, st)))))"

definition fdb_database_create_table ::
  "(ptr \<Rightarrow> ptr) \<Rightarrow> 'st fdb_database_t \<times> 'st \<Rightarrow> string \<Rightarrow> u64 \<Rightarrow> ptr \<Rightarrow> (ptr \<times> ('st fdb_database_t \<times> 'st)) res" where
  "fdb_database_create_table mem dbs tname csize dstr =
     (let hash_value = get_table_id tname in
     bind_res (fdb_btree_get (db_tables (fst dbs)) hash_value) (\<lambda>table.
     if table \<noteq> NULL then Inr (NULL, dbs) else new_table mem dbs hash_value tname csize dstr))"

definition fdb_database_find_table :: "'st fdb_database_t \<Rightarrow> string \<Rightarrow> ptr res" where
  "fdb_database_find_table db tname = fdb_btree_get (db_tables db) (get_table_id tname)"

definition fdb_database_find_or_create_table ::
  "(ptr \<Rightarrow> ptr) \<Rightarrow> 'st fdb_database_t \<times> 'st \<Rightarrow> string \<Rightarrow> u64 \<Rightarrow> ptr \<Rightarrow> (ptr \<times> ('st fdb_database_t \<times> 'st)) res" where
  "fdb_database_find_or_create_table mem dbs tname csize dstr =
     (let hash_value = get_table_id tname in
     bind_res (fdb_btree_get (db_tables (fst dbs)) hash_value) (\<lambda>table.
     if table \<noteq> NULL then Inr (table, dbs) else new_table mem dbs hash_value tname csize dstr))"

text \<open>Releasing a table and giving its structure back.\<close>

definition drop_table ::
  "nat \<Rightarrow> (ptr \<Rightarrow> ptr \<Rightarrow> bytes \<Rightarrow> bytes) \<Rightarrow> 'st fdb_database_t \<times> 'st \<Rightarrow> ptr \<Rightarrow> bytes \<Rightarrow> (('st fdb_database_t \<times> 'st) \<times> bytes) res" where
  "drop_table fuel call dbs p w =
     (let (db, st) = dbs in
     bind_res (obj_at (db_table_heap db) p) (\<lambda>table.
     bind_res (fdb_table_release fuel call (table, st) w) (\<lambda>((table, st), w).
     let (pa, st) = fdb_pool_alloc_free (db_table_allocator db, st) p
     in Inr ((db\<lparr>db_table_allocator := pa, db_table_heap := (db_table_heap db)(p := None)\<rparr>, st), w))))"

definition fdb_database_remove_table ::
  "nat \<Rightarrow> (ptr \<Rightarrow> ptr \<Rightarrow> bytes \<Rightarrow> bytes) \<Rightarrow> 'st fdb_database_t \<times> 'st \<Rightarrow> string \<Rightarrow> bytes \<Rightarrow>
   (('st fdb_database_t \<times> 'st) \<times> bytes) res" where
  "fdb_database_remove_table fuel call dbs tname w =
     (let hash_value = get_table_id tname in
     bind_res (fdb_btree_get (db_tables (fst dbs)) hash_value) (\<lambda>table.
     if table \<noteq> NULL then
       bind_res (drop_table fuel call dbs table w) (\<lambda>((db, st), w).
       bind_res (fdb_btree_remove (db_tables db, st) hash_value) (\<lambda>(_, (tables, st)).
       Inr ((db\<lparr>db_tables := tables\<rparr>, st), w)))
     else Inr (dbs, w)))"

fun clear_entity_tables ::
  "nat \<Rightarrow> (ptr \<Rightarrow> ptr \<Rightarrow> bytes \<Rightarrow> bytes) \<Rightarrow> btheap \<Rightarrow> fdb_btree_iter_t \<Rightarrow> u32 \<Rightarrow> (ptr \<rightharpoonup> 'st fdb_table_t) \<Rightarrow> bytes \<Rightarrow>
   ((ptr \<rightharpoonup> 'st fdb_table_t) \<times> bytes) res" where
  "clear_entity_tables 0 call h it i tabs w = Inl OutOfFuel"
| "clear_entity_tables (Suc fuel) call h it i tabs w =
     bind_res (fdb_btree_iter_has_next h it) (\<lambda>more.
     if more then
       bind_res (fdb_btree_iter_next h it) (\<lambda>(entry, it).
       bind_res (obj_at tabs (be_value entry)) (\<lambda>table.
       bind_res (fdb_table_destroy_component call table i w) (\<lambda>(table, w).
       clear_entity_tables fuel call h it i (tabs(be_value entry \<mapsto> table)) w)))
     else Inr (tabs, w))"

definition fdb_database_clear_entity ::
  "nat \<Rightarrow> (ptr \<Rightarrow> ptr \<Rightarrow> bytes \<Rightarrow> bytes) \<Rightarrow> 'st fdb_database_t \<Rightarrow> u32 \<Rightarrow> bytes \<Rightarrow> ('st fdb_database_t \<times> bytes) res" where
  "fdb_database_clear_entity fuel call db i w =
     bind_res (fdb_btree_iter_init (db_tables db)) (\<lambda>it.
     bind_res (clear_entity_tables fuel call (bt_nodes (db_tables db)) it i (db_table_heap db) w) (\<lambda>(tabs, w).
     Inr (db\<lparr>db_table_heap := tabs\<rparr>, w)))"

definition fdb_database_num_tables :: "'st fdb_database_t \<Rightarrow> u64" where
  "fdb_database_num_tables db = ucast (bt_size (db_tables db))"

text \<open>The name of every table is copied to \<open>&data[0]\<close>; its size goes to \<open>data[count]\<close>.\<close>

fun metadata_entries ::
  "nat \<Rightarrow> btheap \<Rightarrow> fdb_btree_iter_t \<Rightarrow> (ptr \<rightharpoonup> 'st fdb_table_t) \<Rightarrow> u32 \<Rightarrow> u32 \<Rightarrow> fdb_table_info_t list \<Rightarrow>
   (u32 \<times> fdb_table_info_t list) res" where
  "metadata_entries 0 h it tabs capacity count data = Inl OutOfFuel"
| "metadata_entries (Suc fuel) h it tabs capacity count data =
     bind_res (fdb_btree_iter_has_next h it) (\<lambda>more.
     if more \<and> count < capacity then
       bind_res (fdb_btree_iter_next h it) (\<lambda>(entry, it).
       bind_res (obj_at tabs (be_value entry)) (\<lambda>table.
       bind_res (rd data 0) (\<lambda>d0.
       bind_res (wr data 0 (d0\<lparr>ifo_name := tb_name table\<rparr>)) (\<lambda>data.
       bind_res (rd data (unat count)) (\<lambda>d.
       bind_res (wr data (unat count) (d\<lparr>ifo_size := ucast (fdb_table_size table)\<rparr>)) (\<lambda>data.
       metadata_entries fuel h it tabs capacity (count + 1) data))))))
     else Inr (count, data))"

definition fdb_database_metadata ::
  "nat \<Rightarrow> 'st fdb_database_t \<Rightarrow> fdb_table_info_t list \<Rightarrow> u32 \<Rightarrow> (u64 \<times> fdb_table_info_t list) res" where
  "fdb_database_metadata fuel db data capacity =
     bind_res (fdb_btree_iter_init (db_tables db)) (\<lambda>it.
     bind_res (metadata_entries fuel (bt_nodes (db_tables db)) it (db_table_heap db) capacity 0 data) (\<lambda>(count, data).
     Inr (ucast count, data)))"

subsection \<open>Tags\<close>

text \<open>The bit table of a tag, made when there is none: the part that \<open>tag_entity\<close> and
  \<open>get_tagged_entities\<close> share.\<close>

definition fdb_database_get_tagged_entities ::
  "(ptr \<Rightarrow> ptr) \<Rightarrow> 'st fdb_database_t \<times> 'st \<Rightarrow> string \<Rightarrow> (ptr \<times> ('st fdb_database_t \<times> 'st)) res" where
  "fdb_database_get_tagged_entities mem dbs tag =
     (let (db, st) = dbs; hash_value = hash tag in
     bind_res (fdb_btree_get (db_tags db) hash_value) (\<lambda>bittable.
     if bittable \<noteq> NULL then Inr (bittable, dbs) else
     let (p, (pa, st)) = fdb_pool_alloc_alloc (db_bittable_allocator db, st) FDB_DATABASE_BITTABLE_ALIGNMENT sizeof_bittable
           FDB_NO_HINT
     in if p = NULL then Inl NullDeref else
     bind_res (fdb_bittable_init (Some (db_page_allocator db)) (db_page_allocator db) mem st) (\<lambda>(bt, st).
     bind_res (fdb_btree_insert (db_tags db, st) hash_value p) (\<lambda>(_, (tags, st)).
     Inr (p, (db\<lparr>db_bittable_allocator := pa, db_tags := tags, db_bittable_heap := (db_bittable_heap db)(p \<mapsto> bt)\<rparr>, st))))))"

definition fdb_database_tag_entity ::
  "(ptr \<Rightarrow> ptr) \<Rightarrow> 'st fdb_database_t \<times> 'st \<Rightarrow> u32 \<Rightarrow> string \<Rightarrow> ('st fdb_database_t \<times> 'st) res" where
  "fdb_database_tag_entity mem dbs entity_id tag =
     bind_res (fdb_database_get_tagged_entities mem dbs tag) (\<lambda>(p, (db, st)).
     bind_res (obj_at (db_bittable_heap db) p) (\<lambda>bt.
     bind_res (fdb_bittable_add (bt, st) entity_id) (\<lambda>(bt, st).
     Inr (db\<lparr>db_bittable_heap := (db_bittable_heap db)(p \<mapsto> bt)\<rparr>, st))))"

definition fdb_database_untag_entity :: "'st fdb_database_t \<Rightarrow> u32 \<Rightarrow> string \<Rightarrow> 'st fdb_database_t res" where
  "fdb_database_untag_entity db entity_id tag =
     bind_res (fdb_btree_get (db_tags db) (hash tag)) (\<lambda>p.
     if p \<noteq> NULL then
       bind_res (obj_at (db_bittable_heap db) p) (\<lambda>bt.
       bind_res (fdb_bittable_remove bt entity_id) (\<lambda>bt.
       Inr (db\<lparr>db_bittable_heap := (db_bittable_heap db)(p \<mapsto> bt)\<rparr>)))
     else Inr db)"

subsection \<open>References\<close>

definition fdb_database_find_or_create_reftable ::
  "(ptr \<Rightarrow> ptr) \<Rightarrow> 'st fdb_database_t \<times> 'st \<Rightarrow> string \<Rightarrow> (ptr \<times> ('st fdb_database_t \<times> 'st)) res" where
  "fdb_database_find_or_create_reftable mem dbs ref_name =
     (let (db, st) = dbs; hash_value = hash ref_name in
     bind_res (fdb_btree_get (db_references db) hash_value) (\<lambda>table_ptr.
     if table_ptr \<noteq> NULL then Inr (table_ptr, dbs) else
     let (p, (pa, st)) = fdb_pool_alloc_alloc (db_table_allocator db, st) FDB_DATABASE_TABLE_ALIGNMENT sizeof_table FDB_NO_HINT
     in if p = NULL then Inl NullDeref else
     bind_res (fdb_reftable_init ref_name hash_value (Some (db_page_allocator db)) (db_page_allocator db) mem st) (\<lambda>(rt, st).
     bind_res (fdb_btree_insert (db_references db, st) hash_value p) (\<lambda>(_, (references, st)).
     Inr (p, (db\<lparr>db_table_allocator := pa, db_references := references, db_reftable_heap := (db_reftable_heap db)(p \<mapsto> rt)\<rparr>, st))))))"

definition fdb_database_create_reftable ::
  "(ptr \<Rightarrow> ptr) \<Rightarrow> 'st fdb_database_t \<times> 'st \<Rightarrow> string \<Rightarrow> (ptr \<times> ('st fdb_database_t \<times> 'st)) res" where
  "fdb_database_create_reftable mem dbs ref_name = fdb_database_find_or_create_reftable mem dbs ref_name"

definition fdb_database_find_reftable :: "'st fdb_database_t \<Rightarrow> string \<Rightarrow> ptr res" where
  "fdb_database_find_reftable db ref_name = fdb_btree_get (db_references db) (hash ref_name)"

subsection \<open>Globals\<close>

definition new_global ::
  "ptr \<Rightarrow> 'st fdb_database_t \<times> 'st \<Rightarrow> u32 \<Rightarrow> u64 \<Rightarrow> ptr \<Rightarrow> (ptr \<times> ('st fdb_database_t \<times> 'st)) res" where
  "new_global garbage dbs hash_value gsize dstr =
     (let (db, st) = dbs in
     bind_res (fdb_stack_alloc_alloc garbage (db_global_allocator db, st) 64 sizeof_global_info FDB_NO_HINT) (\<lambda>(global, (ga, st)).
     bind_res (fdb_stack_alloc_alloc garbage (ga, st) 64 (ucast gsize) FDB_NO_HINT) (\<lambda>(p_global, (ga, st)).
     if global = NULL then Inl NullDeref else
     bind_res (fdb_btree_insert (db_globals db, st) hash_value global) (\<lambda>(_, (globals, st)).
     Inr (p_global, (db\<lparr>db_global_allocator := ga, db_globals := globals,
       db_global_heap := (db_global_heap db)(global \<mapsto> \<lparr>gi_global = p_global, gi_destructor = dstr\<rparr>)\<rparr>, st))))))"

definition fdb_database_create_global ::
  "ptr \<Rightarrow> 'st fdb_database_t \<times> 'st \<Rightarrow> string \<Rightarrow> u64 \<Rightarrow> ptr \<Rightarrow> (ptr \<times> ('st fdb_database_t \<times> 'st)) res" where
  "fdb_database_create_global garbage dbs gname gsize dstr =
     bind_res (fdb_btree_get (db_globals (fst dbs)) (get_table_id gname)) (\<lambda>global.
     if global \<noteq> NULL then Inr (NULL, dbs) else new_global garbage dbs (get_table_id gname) gsize dstr)"

definition fdb_database_find_or_create_global ::
  "ptr \<Rightarrow> 'st fdb_database_t \<times> 'st \<Rightarrow> string \<Rightarrow> u64 \<Rightarrow> ptr \<Rightarrow> (ptr \<times> ('st fdb_database_t \<times> 'st)) res" where
  "fdb_database_find_or_create_global garbage dbs gname gsize dstr =
     bind_res (fdb_btree_get (db_globals (fst dbs)) (get_table_id gname)) (\<lambda>global.
     if global = NULL then new_global garbage dbs (get_table_id gname) gsize dstr
     else bind_res (obj_at (db_global_heap (fst dbs)) global) (\<lambda>g. Inr (gi_global g, dbs)))"

definition fdb_database_find_global_no_lock :: "'st fdb_database_t \<Rightarrow> string \<Rightarrow> ptr res" where
  "fdb_database_find_global_no_lock db gname =
     bind_res (fdb_btree_get (db_globals db) (get_table_id gname)) (\<lambda>global.
     if global = NULL then Inr NULL else bind_res (obj_at (db_global_heap db) global) (\<lambda>g. Inr (gi_global g)))"

definition db_find_global :: "'st fdb_database_t \<Rightarrow> string \<Rightarrow> ptr res" where
  "db_find_global db gname = fdb_database_find_global_no_lock db gname"

text \<open>The destructor and the two frees, which do nothing to a stack allocator.\<close>

definition drop_global ::
  "(ptr \<Rightarrow> ptr \<Rightarrow> bytes \<Rightarrow> bytes) \<Rightarrow> 'st fdb_database_t \<times> 'st \<Rightarrow> ptr \<Rightarrow> bytes \<Rightarrow> (('st fdb_database_t \<times> 'st) \<times> bytes) res" where
  "drop_global call dbs global w =
     (let (db, st) = dbs in
     bind_res (obj_at (db_global_heap db) global) (\<lambda>g.
     let w = (if gi_destructor g \<noteq> NULL then call (gi_destructor g) (gi_global g) w else w);
         (ga, st) = fdb_stack_alloc_free (db_global_allocator db, st) (gi_global g);
         (ga, st) = fdb_stack_alloc_free (ga, st) global
     in Inr ((db\<lparr>db_global_allocator := ga\<rparr>, st), w)))"

definition fdb_database_remove_global ::
  "(ptr \<Rightarrow> ptr \<Rightarrow> bytes \<Rightarrow> bytes) \<Rightarrow> 'st fdb_database_t \<times> 'st \<Rightarrow> string \<Rightarrow> bytes \<Rightarrow> (('st fdb_database_t \<times> 'st) \<times> bytes) res" where
  "fdb_database_remove_global call dbs gname w =
     bind_res (fdb_btree_get (db_globals (fst dbs)) (get_table_id gname)) (\<lambda>global.
     if global \<noteq> NULL then
       bind_res (drop_global call dbs global w) (\<lambda>((db, st), w).
       bind_res (fdb_btree_remove (db_globals db, st) (get_table_id gname)) (\<lambda>(_, (globals, st)).
       Inr ((db\<lparr>db_globals := globals\<rparr>, st), w)))
     else Inr (dbs, w))"

definition fdb_database_get_mregistry :: "'st fdb_database_t \<Rightarrow> 'st fdb_mregistry_t" where
  "fdb_database_get_mregistry db = db_mregistry db"

subsection \<open>Clearing and releasing\<close>

text \<open>The loops of \<open>clear\<close> share their shape: for every entry of the tree, an action on its pointer.\<close>

fun for_entries ::
  "nat \<Rightarrow> btheap \<Rightarrow> fdb_btree_iter_t \<Rightarrow> (ptr \<Rightarrow> 'd \<Rightarrow> 'd res) \<Rightarrow> 'd \<Rightarrow> 'd res" where
  "for_entries 0 h it f d = Inl OutOfFuel"
| "for_entries (Suc fuel) h it f d =
     bind_res (fdb_btree_iter_has_next h it) (\<lambda>more.
     if more then
       bind_res (fdb_btree_iter_next h it) (\<lambda>(entry, it).
       bind_res (f (be_value entry) d) (for_entries fuel h it f))
     else Inr d)"

definition drop_bittable ::
  "nat \<Rightarrow> ptr \<Rightarrow> ('st fdb_database_t \<times> 'st) \<times> bytes \<Rightarrow> (('st fdb_database_t \<times> 'st) \<times> bytes) res" where
  "drop_bittable fuel p = (\<lambda>((db, st), w).
     bind_res (obj_at (db_bittable_heap db) p) (\<lambda>bt.
     bind_res (fdb_bittable_release fuel (bt, st)) (\<lambda>(bt, st).
     let (pa, st) = fdb_pool_alloc_free (db_bittable_allocator db, st) p
     in Inr ((db\<lparr>db_bittable_allocator := pa, db_bittable_heap := (db_bittable_heap db)(p := None)\<rparr>, st), w))))"

definition drop_reftable ::
  "nat \<Rightarrow> (ptr \<Rightarrow> ptr \<Rightarrow> bytes \<Rightarrow> bytes) \<Rightarrow> ptr \<Rightarrow> ('st fdb_database_t \<times> 'st) \<times> bytes \<Rightarrow>
   (('st fdb_database_t \<times> 'st) \<times> bytes) res" where
  "drop_reftable fuel call p = (\<lambda>((db, st), w).
     bind_res (obj_at (db_reftable_heap db) p) (\<lambda>rt.
     bind_res (fdb_reftable_release fuel call (rt, st) w) (\<lambda>((rt, st), w).
     let (pa, st) = fdb_pool_alloc_free (db_table_allocator db, st) p
     in Inr ((db\<lparr>db_table_allocator := pa, db_reftable_heap := (db_reftable_heap db)(p := None)\<rparr>, st), w))))"

text \<open>The tables, the tags, the references, the tables once more (as temporary tables), the globals.\<close>

definition clear_tables ::
  "nat \<Rightarrow> (ptr \<Rightarrow> ptr \<Rightarrow> bytes \<Rightarrow> bytes) \<Rightarrow> ('st fdb_database_t \<times> 'st) \<times> bytes \<Rightarrow> (('st fdb_database_t \<times> 'st) \<times> bytes) res" where
  "clear_tables fuel call x =
     bind_res (fdb_btree_iter_init (db_tables (fst (fst x)))) (\<lambda>it.
     bind_res (for_entries fuel (bt_nodes (db_tables (fst (fst x)))) it (\<lambda>p (dbs, w). drop_table fuel call dbs p w) x) (\<lambda>((db, st), w).
     bind_res (fdb_btree_clear (db_tables db, st)) (\<lambda>(b, st). Inr ((db\<lparr>db_tables := b\<rparr>, st), w))))"

definition clear_tags :: "nat \<Rightarrow> ('st fdb_database_t \<times> 'st) \<times> bytes \<Rightarrow> (('st fdb_database_t \<times> 'st) \<times> bytes) res" where
  "clear_tags fuel x =
     bind_res (fdb_btree_iter_init (db_tags (fst (fst x)))) (\<lambda>it.
     bind_res (for_entries fuel (bt_nodes (db_tags (fst (fst x)))) it (drop_bittable fuel) x) (\<lambda>((db, st), w).
     bind_res (fdb_btree_clear (db_tags db, st)) (\<lambda>(b, st). Inr ((db\<lparr>db_tags := b\<rparr>, st), w))))"

definition clear_references ::
  "nat \<Rightarrow> (ptr \<Rightarrow> ptr \<Rightarrow> bytes \<Rightarrow> bytes) \<Rightarrow> ('st fdb_database_t \<times> 'st) \<times> bytes \<Rightarrow> (('st fdb_database_t \<times> 'st) \<times> bytes) res" where
  "clear_references fuel call x =
     bind_res (fdb_btree_iter_init (db_references (fst (fst x)))) (\<lambda>it.
     bind_res (for_entries fuel (bt_nodes (db_references (fst (fst x)))) it (drop_reftable fuel call) x) (\<lambda>((db, st), w).
     bind_res (fdb_btree_clear (db_references db, st)) (\<lambda>(b, st). Inr ((db\<lparr>db_references := b\<rparr>, st), w))))"

definition clear_globals ::
  "nat \<Rightarrow> (ptr \<Rightarrow> ptr \<Rightarrow> bytes \<Rightarrow> bytes) \<Rightarrow> ('st fdb_database_t \<times> 'st) \<times> bytes \<Rightarrow> (('st fdb_database_t \<times> 'st) \<times> bytes) res" where
  "clear_globals fuel call x =
     bind_res (fdb_btree_iter_init (db_globals (fst (fst x)))) (\<lambda>it.
     bind_res (for_entries fuel (bt_nodes (db_globals (fst (fst x)))) it (\<lambda>p (dbs, w). drop_global call dbs p w) x) (\<lambda>((db, st), w).
     bind_res (fdb_btree_clear (db_globals db, st)) (\<lambda>(b, st). Inr ((db\<lparr>db_globals := b\<rparr>, st), w))))"

definition fdb_database_clear ::
  "nat \<Rightarrow> (ptr \<Rightarrow> ptr \<Rightarrow> bytes \<Rightarrow> bytes) \<Rightarrow> ('st fdb_database_t \<times> 'st) \<times> bytes \<Rightarrow> (('st fdb_database_t \<times> 'st) \<times> bytes) res" where
  "fdb_database_clear fuel call x =
     bind_res (clear_tables fuel call x) (\<lambda>x.
     bind_res (clear_tags fuel x) (\<lambda>x.
     bind_res (clear_references fuel call x) (\<lambda>x.
     bind_res (clear_tables fuel call x) (clear_globals fuel call))))"

definition fdb_database_release ::
  "nat \<Rightarrow> (ptr \<Rightarrow> ptr \<Rightarrow> bytes \<Rightarrow> bytes) \<Rightarrow> ('st fdb_database_t \<times> 'st) \<times> bytes \<Rightarrow> (('st fdb_database_t \<times> 'st) \<times> bytes) res" where
  "fdb_database_release fuel call x =
     bind_res (fdb_database_clear fuel call x) (\<lambda>((db, st), w).
     bind_res (fdb_mregistry_release fuel (db_mregistry db, st)) (\<lambda>(reg, st).
     bind_res (fdb_btree_release fuel (db_globals db, st)) (\<lambda>(globals, st).
     bind_res (fdb_btree_release fuel (db_references db, st)) (\<lambda>(references, st).
     bind_res (fdb_btree_release fuel (db_tables db, st)) (\<lambda>(tables, st).
     bind_res (fdb_btree_release fuel (db_tags db, st)) (\<lambda>(tags, st).
     bind_res (fdb_stack_alloc_release fuel (db_global_allocator db, st)) (\<lambda>(ga, st).
     bind_res (fdb_pool_alloc_release fuel (db_bittable_allocator db, st)) (\<lambda>(ba, st).
     bind_res (fdb_pool_alloc_release fuel (db_table_allocator db, st)) (\<lambda>(ta, st).
     Inr ((db\<lparr>db_mregistry := reg, db_globals := globals, db_references := references, db_tables := tables, db_tags := tags,
            db_global_allocator := ga, db_bittable_allocator := ba, db_table_allocator := ta\<rparr>, st), w))))))))))"

end
