(* ===== verification/DatabaseSpec.thy ===== *)
theory DatabaseSpec
  imports Database
begin

text \<open>
  What the database promises. Its tags are a set of ids for each tag and its tables a set of ids for
  each name; the operations that find or make tables and tags, the operations on what they return,
  and \<open>clear_entity\<close> act on these sets as their names say. The lemmas on \<open>objects\<close> are about any tree
  that files structures under the hashes of their names.
\<close>

section \<open>Structures filed by name\<close>

definition objects ::
  "string set \<Rightarrow> (ptr \<Rightarrow> 'o \<Rightarrow> 'a \<Rightarrow> bool) \<Rightarrow> entries \<Rightarrow> (ptr \<rightharpoonup> 'o) \<Rightarrow> (string \<rightharpoonup> 'a) \<Rightarrow> bool" where
  "objects N Q xs h m \<longleftrightarrow> ascending xs \<and> distinct (map snd xs) \<and> snd ` set xs = dom h \<and> NULL \<notin> dom h \<and>
     fst ` set xs = hash ` dom m \<and> dom m \<subseteq> N \<and> inj_on hash N \<and>
     (\<forall>nm a p. m nm = Some a \<longrightarrow> (hash nm, p) \<in> set xs \<longrightarrow> (\<exists>x. h p = Some x \<and> Q p x a))"

lemma objects_empty: "inj_on hash N \<Longrightarrow> objects N Q [] Map.empty Map.empty"
  by (simp add: objects_def)

lemma objects_absent:
  assumes ob: "objects N Q xs h m" and nm: "nm \<in> N" "m nm = None"
  shows "hash nm \<notin> fst ` set xs" "lookup xs (hash nm) = NULL"
proof -
  have "hash nm \<notin> hash ` dom m" using ob nm unfolding objects_def by (metis domIff imageE inj_onD subsetD)
  then show a: "hash nm \<notin> fst ` set xs" using ob by (simp add: objects_def)
  have "map_of xs (hash nm) = None" using a by (simp only: map_of_eq_None_iff not_False_eq_True)
  then show "lookup xs (hash nm) = NULL" by (simp add: lookup_def)
qed

lemma objects_present:
  assumes ob: "objects N Q xs h m" and nm: "m nm = Some a"
  obtains p x where "(hash nm, p) \<in> set xs" "lookup xs (hash nm) = p" "p \<noteq> NULL" "h p = Some x" "obj_at h p = Inr x" "Q p x a"
proof -
  have "hash nm \<in> fst ` set xs" using ob nm unfolding objects_def by (metis domI imageI)
  then obtain p where p: "(hash nm, p) \<in> set xs" by auto
  have "distinct (map fst xs)" using ob by (simp add: objects_def strict_sorted_iff)
  then have "map_of xs (hash nm) = Some p" using p by simp
  then have l: "lookup xs (hash nm) = p" by (simp add: lookup_def)
  obtain x where x: "h p = Some x" "Q p x a" using ob nm p unfolding objects_def by blast
  have "p \<noteq> NULL" using ob x(1) unfolding objects_def by blast
  then show thesis using that p l x by (simp add: obj_at_def)
qed

lemma objects_same:
  assumes ob: "objects N Q xs h m" and p: "(hash nm, p) \<in> set xs" "(hash nm', p) \<in> set xs" and m: "m nm = Some a" "m nm' = Some b"
  shows "nm' = nm"
proof -
  have "hash nm' = hash nm" by (rule distinct_snd [OF _ p(2,1)]) (use ob in \<open>simp add: objects_def\<close>)
  moreover have "nm \<in> N" "nm' \<in> N" "inj_on hash N" using ob m unfolding objects_def by blast+
  ultimately show ?thesis by (auto dest: inj_onD)
qed

text \<open>One structure changes.\<close>

lemma objects_update:
  assumes ob: "objects N Q xs h m" and p: "(hash nm, p) \<in> set xs" "m nm = Some a" and Q: "Q' p x b"
    and other: "\<And>q y c. q \<noteq> p \<Longrightarrow> h q = Some y \<Longrightarrow> Q q y c \<Longrightarrow> Q' q y c"
  shows "objects N Q' xs (h(p \<mapsto> x)) (m(nm \<mapsto> b))"
proof -
  note o = ob [unfolded objects_def]
  have d: "p \<in> dom h" using o p by force
  have dm: "dom (m(nm \<mapsto> b)) = dom m" using p(2) by auto
  have dh: "dom (h(p \<mapsto> x)) = dom h" using d by auto
  have "\<exists>x'. (h(p \<mapsto> x)) q = Some x' \<and> Q' q x' c" if n: "(m(nm \<mapsto> b)) nm' = Some c" "(hash nm', q) \<in> set xs" for nm' c q
  proof (cases "nm' = nm")
    case True
    then have "q = p" using o p(1) n(2) by (auto simp: strict_sorted_iff dest: eq_key_imp_eq_value)
    then show ?thesis using True n(1) Q by simp
  next
    case False
    then have c: "m nm' = Some c" using n(1) by simp
    have "q \<noteq> p" using objects_same [OF ob p(1) _ p(2) c] n(2) False by auto
    then show ?thesis using o c n(2) other by (metis fun_upd_other)
  qed
  then show ?thesis unfolding objects_def dm dh using o by blast
qed

text \<open>A new structure under a new name.\<close>

lemma objects_new:
  assumes ob: "objects N Q xs h m" and nm: "nm \<in> N" "m nm = None" and p: "p \<notin> dom h" "p \<noteq> NULL" and Q: "Q' p x b"
    and other: "\<And>q y c. q \<noteq> p \<Longrightarrow> h q = Some y \<Longrightarrow> Q q y c \<Longrightarrow> Q' q y c"
  shows "objects N Q' (ins (hash nm) p xs) (h(p \<mapsto> x)) (m(nm \<mapsto> b))" "(hash nm, p) \<in> set (ins (hash nm) p xs)"
proof -
  note o = ob [unfolded objects_def]
  have asc: "ascending xs" using o by blast
  have k: "hash nm \<notin> fst ` set xs" by (rule objects_absent(1) [OF ob nm])
  have set: "set (ins (hash nm) p xs) = insert (hash nm, p) (set xs)" by (rule set_ins_new [OF asc k])
  then show "(hash nm, p) \<in> set (ins (hash nm) p xs)" by simp
  have np: "p \<notin> snd ` set xs" using o p(1) by simp
  have d: "distinct (map snd (ins (hash nm) p xs))" by (rule distinct_snd_ins [OF k _ np asc]) (use o in blast)
  have ds: "dom m \<subseteq> N" "inj_on hash N" using o by blast+
  have 1: "\<exists>x'. (h(p \<mapsto> x)) q = Some x' \<and> Q' q x' c"
    if n: "(m(nm \<mapsto> b)) nm' = Some c" "(hash nm', q) \<in> set (ins (hash nm) p xs)" for nm' c q
  proof (cases "nm' = nm")
    case True
    have "(hash nm, q) \<notin> set xs" using k by force
    then have "q = p" using n(2) True set by auto
    then show ?thesis using True n(1) Q by simp
  next
    case False
    then have c: "m nm' = Some c" using n(1) by simp
    have "hash nm' \<noteq> hash nm" using False c ds nm(1) by (auto dest: inj_onD)
    then have q: "(hash nm', q) \<in> set xs" using n(2) set by simp
    then have "q \<noteq> p" using np by force
    moreover obtain y where "h q = Some y" "Q q y c" using o c q by blast
    ultimately show ?thesis using other by auto
  qed
  have 2: "snd ` set (ins (hash nm) p xs) = dom (h(p \<mapsto> x))" unfolding set using o by auto
  have 3: "fst ` set (ins (hash nm) p xs) = hash ` dom (m(nm \<mapsto> b))" unfolding set using o by auto
  have 4: "NULL \<notin> dom (h(p \<mapsto> x))" "dom (m(nm \<mapsto> b)) \<subseteq> N" using o p(2) nm(1) by auto
  show "objects N Q' (ins (hash nm) p xs) (h(p \<mapsto> x)) (m(nm \<mapsto> b))" unfolding objects_def
    by (intro conjI allI impI) (fact ascending_ins [OF asc] d 2 4 3 ds(2) | erule (1) 1)+
qed

text \<open>All structures change.\<close>

lemma objects_map:
  assumes ob: "objects N Q xs h m" and d: "dom h' = dom h"
    and f: "\<And>p x a. h p = Some x \<Longrightarrow> Q p x a \<Longrightarrow> \<exists>x'. h' p = Some x' \<and> Q' p x' (f a)"
  shows "objects N Q' xs h' (map_option f \<circ> m)"
proof -
  note o = ob [unfolded objects_def]
  have dm: "dom (map_option f \<circ> m) = dom m" by (auto simp: dom_def)
  have "\<exists>x. h' p = Some x \<and> Q' p x a" if n: "(map_option f \<circ> m) nm = Some a" "(hash nm, p) \<in> set xs" for nm a p
  proof -
    obtain b where b: "m nm = Some b" "a = f b" using n(1) by auto
    then obtain x where "h p = Some x" "Q p x b" using o n(2) by blast
    then show ?thesis using f b(2) by blast
  qed
  then show ?thesis unfolding objects_def dm d using o by blast
qed

lemma objects_mono:
  assumes "objects N Q xs h m" "\<And>p x a. h p = Some x \<Longrightarrow> Q p x a \<Longrightarrow> Q' p x a" shows "objects N Q' xs h m"
  using assms unfolding objects_def by blast

lemma objects_card:
  assumes ob: "objects N Q xs h m" shows "length xs = card (dom m)"
proof -
  have "distinct (map fst xs)" using ob by (simp add: objects_def strict_sorted_iff)
  then have "length xs = card (fst ` set xs)" using distinct_card [of "map fst xs"] by simp
  also have "\<dots> = card (hash ` dom m)" using ob by (simp add: objects_def)
  also have "\<dots> = card (dom m)" by (rule card_image) (use ob in \<open>auto simp: objects_def intro: inj_on_subset\<close>)
  finally show ?thesis .
qed

section \<open>A shelf: a tree, a pool and the structures\<close>

text \<open>The pool \<open>pa\<close> has given out the addresses \<open>D\<close>.\<close>

definition slots ::
  "('st \<Rightarrow> u32 \<Rightarrow> u32 \<Rightarrow> u32 \<Rightarrow> ptr \<times> 'st) \<Rightarrow> ('st \<Rightarrow> ptr \<Rightarrow> 'st) \<Rightarrow> (u32 \<Rightarrow> u32 \<Rightarrow> bool) \<Rightarrow> 'st fdb_pool_alloc_t \<Rightarrow>
   (ptr \<rightharpoonup> nat) \<Rightarrow> u32 \<Rightarrow> ptr set \<Rightarrow> bool" where
  "slots alloc free S pa P sz D \<longleftrightarrow> pool_takes S pa 64 sz \<and> (\<exists>l. pool_holds alloc free pa P l \<and> dom l = D)"

text \<open>The tree is the client \<open>ct\<close> of the parent, the pool \<open>cp\<close>, and the structure at \<open>p\<close> has the clients
  \<open>co p\<close>. \<open>Q\<close> says what a structure stands for and which memory it has.\<close>

definition shelf ::
  "('st \<Rightarrow> u32 \<Rightarrow> u32 \<Rightarrow> u32 \<Rightarrow> ptr \<times> 'st) \<Rightarrow> ('st \<Rightarrow> ptr \<Rightarrow> 'st) \<Rightarrow> (u32 \<Rightarrow> u32 \<Rightarrow> bool) \<Rightarrow> 'c \<Rightarrow> 'c \<Rightarrow> (ptr \<Rightarrow> 'x \<Rightarrow> 'c) \<Rightarrow>
   u32 \<Rightarrow> ('o \<Rightarrow> ('x \<Rightarrow> ptr \<rightharpoonup> nat) \<Rightarrow> 'a \<Rightarrow> bool) \<Rightarrow> ('c \<Rightarrow> ptr \<rightharpoonup> nat) \<Rightarrow> 'st fdb_btree_t \<Rightarrow> 'st fdb_pool_alloc_t \<Rightarrow>
   (ptr \<rightharpoonup> 'o) \<Rightarrow> string set \<Rightarrow> entries \<Rightarrow> (string \<rightharpoonup> 'a) \<Rightarrow> bool" where
  "shelf alloc free S ct cp co sz Q Ps b pa h N xs m \<longleftrightarrow> slots alloc free S pa (Ps cp) sz (dom h) \<and>
     (\<forall>p. p \<notin> dom h \<longrightarrow> (\<forall>x. Ps (co p x) = Map.empty)) \<and> tree_client alloc free S b (Ps ct) \<and> btree_holds b xs \<and>
     objects N (\<lambda>p x. Q x (Ps \<circ> co p)) xs h m"

lemma shelf_get:
  assumes s: "shelf alloc free S ct cp co sz Q Ps b pa h N xs m" and nm: "nm \<in> N"
  shows "m nm = None \<Longrightarrow> fdb_btree_get b (hash nm) = Inr NULL"
    "m nm = Some a \<Longrightarrow> \<exists>p x. fdb_btree_get b (hash nm) = Inr p \<and> p \<noteq> NULL \<and> obj_at h p = Inr x \<and> Q x (Ps \<circ> co p) a"
proof -
  have ob: "objects N (\<lambda>p x. Q x (Ps \<circ> co p)) xs h m" and h: "btree_holds b xs" using s by (simp_all add: shelf_def)
  show "fdb_btree_get b (hash nm) = Inr NULL" if "m nm = None"
    using get_spec [OF h] objects_absent(2) [OF ob nm that] by simp
  show "\<exists>p x. fdb_btree_get b (hash nm) = Inr p \<and> p \<noteq> NULL \<and> obj_at h p = Inr x \<and> Q x (Ps \<circ> co p) a" if n: "m nm = Some a"
  proof -
    obtain p x where "lookup xs (hash nm) = p" "p \<noteq> NULL" "obj_at h p = Inr x" "Q x (Ps \<circ> co p) a" by (rule objects_present [OF ob n])
    then show ?thesis using get_spec [OF h, of "hash nm"] by blast
  qed
qed

lemma shelf_cong:
  assumes "Ps' ct = Ps ct" "Ps' cp = Ps cp" "\<And>p x. Ps' (co p x) = Ps (co p x)"
  shows "shelf alloc free S ct cp co sz Q Ps' b pa h N xs m = shelf alloc free S ct cp co sz Q Ps b pa h N xs m"
proof -
  have "(Ps' \<circ> co p) = (Ps \<circ> co p)" for p using assms(3) by (simp add: comp_def)
  then show ?thesis using assms by (simp add: shelf_def)
qed

text \<open>The clients of a shelf are different ones.\<close>

locale filing = steady_provider +
  fixes ct cp :: 'c and co :: "ptr \<Rightarrow> 'x \<Rightarrow> 'c"
  assumes tree_pool: "ct \<noteq> cp" and tree_objects: "co p x \<noteq> ct" and pool_objects: "co p x \<noteq> cp"
    and objects_apart: "co p x = co q y \<longleftrightarrow> p = q \<and> x = y"
begin

lemma inj_object: "inj (co p)"
  by (simp add: inj_def objects_apart)

lemma own_clients:
  assumes "\<forall>c. c \<notin> range (co p) \<longrightarrow> Ps' c = Ps c"
  shows "Ps' ct = Ps ct" "Ps' cp = Ps cp" "q \<noteq> p \<Longrightarrow> Ps' (co q x) = Ps (co q x)" "q \<noteq> p \<Longrightarrow> Ps' \<circ> co q = Ps \<circ> co q"
proof -
  show "Ps' ct = Ps ct" "Ps' cp = Ps cp" by (rule assms [rule_format], metis imageE tree_objects pool_objects)+
  have o: "Ps' (co q x) = Ps (co q x)" if "q \<noteq> p" for x by (rule assms [rule_format]) (use that objects_apart in auto)
  show "q \<noteq> p \<Longrightarrow> Ps' (co q x) = Ps (co q x)" "q \<noteq> p \<Longrightarrow> Ps' \<circ> co q = Ps \<circ> co q" using o by (auto simp: comp_def)
qed

lemma slots_alloc:
  assumes cl: "clients ainv st Ps" and s: "slots alloc free S pa (Ps c) sz D" and room: "room st (Suc n)"
  obtains p pa' st' P' where "fdb_pool_alloc_alloc (pa, st) 64 sz FDB_NO_HINT = (p, (pa', st'))" "p \<noteq> NULL" "p \<notin> D"
    "room st' n" "clients ainv st' (Ps(c := P'))" "slots alloc free S pa' P' sz (insert p D)"
proof -
  obtain l where l: "pool_takes S pa 64 sz" "pool_holds alloc free pa (Ps c) l" "dom l = D"
    using s by (auto simp: slots_def)
  obtain p pa' st' where run: "fdb_pool_alloc_alloc (pa, st) 64 sz FDB_NO_HINT = (p, (pa', st'))" by (metis prod.collapse)
  from client_alloc [OF cl l(2) room l(1) run] obtain P' where
    1: "fits l p (unat sz)" "room st' n" "pool_takes S pa' = pool_takes S pa" "clients ainv st' (Ps(c := P'))"
      "pool_holds alloc free pa' P' (l(p \<mapsto> unat sz))" by (auto simp del: fun_upd_apply)
  have "slots alloc free S pa' P' sz (insert p D)" unfolding slots_def using 1(3,5) l(1,3) by (metis dom_fun_upd option.distinct(1))
  moreover have "p \<noteq> NULL" "p \<notin> D" using 1(1) fits_dom [OF 1(1)] l(3) by (auto simp: fits_def)
  ultimately show thesis using that run 1(2,4) by blast
qed

text \<open>A structure changes.\<close>

lemma shelf_put:
  assumes s: "shelf alloc free S ct cp co sz Q Ps b pa h N xs m" and nm: "nm \<in> N" "m nm = Some a" "fdb_btree_get b (hash nm) = Inr p"
    and Q: "Q x (Ps' \<circ> co p) a'" and other: "\<forall>c. c \<notin> range (co p) \<longrightarrow> Ps' c = Ps c"
  shows "shelf alloc free S ct cp co sz Q Ps' b pa (h(p \<mapsto> x)) N xs (m(nm \<mapsto> a'))"
proof -
  have i: "slots alloc free S pa (Ps cp) sz (dom h)" "\<And>p x. p \<notin> dom h \<Longrightarrow> Ps (co p x) = Map.empty"
    "tree_client alloc free S b (Ps ct)" "btree_holds b xs" "objects N (\<lambda>p x. Q x (Ps \<circ> co p)) xs h m"
    using s by (auto simp: shelf_def)
  obtain q y where p: "(hash nm, q) \<in> set xs" "lookup xs (hash nm) = q" "h q = Some y" by (rule objects_present [OF i(5) nm(2)])
  have q: "(hash nm, p) \<in> set xs" "p \<in> dom h" using p nm(3) get_spec [OF i(4), of "hash nm"] by auto
  have d: "dom (h(p \<mapsto> x)) = dom h" using q(2) by auto
  note same = own_clients [OF other]
  have "objects N (\<lambda>p x. Q x (Ps' \<circ> co p)) xs (h(p \<mapsto> x)) (m(nm \<mapsto> a'))"
    by (rule objects_update [where Q' = "\<lambda>p x. Q x (Ps' \<circ> co p)", OF i(5) q(1) nm(2) Q]) (simp add: same(4))
  moreover have "Ps' (co r z) = Map.empty" if "r \<notin> dom h" for r z
  proof -
    have "r \<noteq> p" using q(2) that by blast
    then show ?thesis using same(3) i(2) that by simp
  qed
  ultimately show ?thesis unfolding shelf_def d using i same(1,2) by simp
qed

text \<open>A new structure is allocated, initialised and filed.\<close>

lemma shelf_new:
  assumes s: "shelf alloc free S ct cp co sz Q Ps b pa h N xs m" and nm: "nm \<in> N" "m nm = None" and cl: "clients ainv st Ps"
    and room: "room st (Suc (k + (BT_NODES + n)))"
    and init: "\<forall>p st Ps. clients ainv st Ps \<longrightarrow> (\<forall>x. Ps (co p x) = Map.empty) \<longrightarrow> room st (k + (BT_NODES + n)) \<longrightarrow>
      (\<exists>x st' Ps'. init st = Inr (x, st') \<and> Q x (Ps' \<circ> co p) a \<and> clients ainv st' Ps' \<and> room st' (BT_NODES + n) \<and>
        (\<forall>c. c \<notin> range (co p) \<longrightarrow> Ps' c = Ps c))"
  shows "\<exists>p pa' st1 x st2 r b' st3 Ps'. fdb_pool_alloc_alloc (pa, st) 64 sz FDB_NO_HINT = (p, (pa', st1)) \<and> p \<noteq> NULL \<and>
    init st1 = Inr (x, st2) \<and> fdb_btree_insert (b, st2) (hash nm) p = Inr (r, (b', st3)) \<and>
    shelf alloc free S ct cp co sz Q Ps' b' pa' (h(p \<mapsto> x)) N (ins (hash nm) p xs) (m(nm \<mapsto> a)) \<and>
    clients ainv st3 Ps' \<and> room st3 n \<and> fdb_btree_get b' (hash nm) = Inr p \<and>
    (\<forall>c. c \<noteq> ct \<longrightarrow> c \<noteq> cp \<longrightarrow> (\<forall>q x. c \<noteq> co q x) \<longrightarrow> Ps' c = Ps c)"
proof -
  have i: "slots alloc free S pa (Ps cp) sz (dom h)" "\<And>p x. p \<notin> dom h \<Longrightarrow> Ps (co p x) = Map.empty"
    "tree_client alloc free S b (Ps ct)" "btree_holds b xs" "objects N (\<lambda>p x. Q x (Ps \<circ> co p)) xs h m"
    using s by (auto simp: shelf_def)
  obtain p pa' st1 P1 where 1: "fdb_pool_alloc_alloc (pa, st) 64 sz FDB_NO_HINT = (p, (pa', st1))" "p \<noteq> NULL" "p \<notin> dom h"
    "room st1 (k + (BT_NODES + n))" "clients ainv st1 (Ps(cp := P1))" "slots alloc free S pa' P1 sz (insert p (dom h))"
    by (rule slots_alloc [OF cl i(1) room])
  have e: "\<forall>x. (Ps(cp := P1)) (co p x) = Map.empty" using i(2) [OF 1(3)] pool_objects by simp
  from init [rule_format, OF 1(5) e [rule_format] 1(4)] obtain x st2 Ps2 where
    2: "init st1 = Inr (x, st2)" "Q x (Ps2 \<circ> co p) a" "clients ainv st2 Ps2" "room st2 (BT_NODES + n)"
      "\<forall>c. c \<notin> range (co p) \<longrightarrow> Ps2 c = (Ps(cp := P1)) c" by blast
  note same = own_clients [OF 2(5)]
  have tc: "tree_client alloc free S b (Ps2 ct)" using i(3) same(1) tree_pool by simp
  from client_insert [OF 2(3) tc 2(4) i(4) 1(2), of "hash nm"] obtain r b' st3 P3 where
    3: "fdb_btree_insert (b, st2) (hash nm) p = Inr (r, (b', st3))" "btree_holds b' (ins (hash nm) p xs)"
      "room st3 n" "clients ainv st3 (Ps2(ct := P3))" "tree_client alloc free S b' P3" by blast
  let ?Ps = "Ps2(ct := P3)" and ?h = "h(p \<mapsto> x)"
  have own: "?Ps \<circ> co q = Ps2 \<circ> co q" for q by (simp add: comp_def tree_objects)
  have keep: "?Ps \<circ> co q = Ps \<circ> co q" if "q \<noteq> p" for q
    using same(4) [OF that] own pool_objects by (simp add: comp_def fun_eq_iff)
  have new: "Q x (?Ps \<circ> co p) a" unfolding own by (rule 2(2))
  have k: "hash nm \<notin> fst ` set xs" by (rule objects_absent(1) [OF i(5) nm])
  have "objects N (\<lambda>p x. Q x (?Ps \<circ> co p)) (ins (hash nm) p xs) ?h (m(nm \<mapsto> a))"
    by (rule objects_new(1) [where Q' = "\<lambda>p x. Q x (?Ps \<circ> co p)", OF i(5) nm 1(3,2) new]) (simp add: keep)
  moreover have "slots alloc free S pa' (?Ps cp) sz (dom ?h)" using 1(6) same(2) tree_pool by simp
  moreover have "?Ps (co q y) = Map.empty" if "q \<notin> dom ?h" for q y
    using keep [of q, THEN fun_cong, of y] i(2) [of q y] that by (auto simp del: fun_upd_apply split: if_splits)
  ultimately have "shelf alloc free S ct cp co sz Q ?Ps b' pa' ?h N (ins (hash nm) p xs) (m(nm \<mapsto> a))"
    unfolding shelf_def using 3(2,5) by simp
  moreover have "fdb_btree_get b' (hash nm) = Inr p"
    using get_spec [OF 3(2), of "hash nm"] map_of_ins_new [OF _ k] i(5) by (simp add: lookup_def objects_def)
  moreover have "?Ps c = Ps c" if "c \<noteq> ct" "c \<noteq> cp" "\<forall>q x. c \<noteq> co q x" for c
    using 2(5) that by (auto simp: image_iff)
  ultimately show ?thesis using 1(1,2) 2(1) 3(1,3,4)
    by (intro exI [of _ p] exI [of _ pa'] exI [of _ st1] exI [of _ x] exI [of _ st2] exI [of _ r] exI [of _ b'] exI [of _ st3]
      exI [of _ ?Ps]) simp
qed

end

section \<open>The memory of the database\<close>

text \<open>The clients of the page allocator: the four trees, the registry, the pools, and the parts of every
  table and tag set.\<close>

datatype db_client = DbTags | DbTables | DbRefs | DbGlobals | DbReg mreg_client | DbTabPool | DbBitPool
  | DbTab ptr table_client | DbBit ptr bittable_client

lemma inj_DbReg: "inj DbReg"
  by (simp add: inj_def)

definition tag_set ::
  "('st \<Rightarrow> u32 \<Rightarrow> u32 \<Rightarrow> u32 \<Rightarrow> ptr \<times> 'st) \<Rightarrow> ('st \<Rightarrow> ptr \<Rightarrow> 'st) \<Rightarrow> (u32 \<Rightarrow> u32 \<Rightarrow> bool) \<Rightarrow> 'st fdb_bittable_t \<Rightarrow>
   (bittable_client \<Rightarrow> ptr \<rightharpoonup> nat) \<Rightarrow> u32 set \<Rightarrow> bool" where
  "tag_set alloc free S b P A \<longleftrightarrow> (\<exists>zs. bittable_view b zs A \<and> bittable_mem alloc free S b P)"

definition table_set ::
  "('st \<Rightarrow> u32 \<Rightarrow> u32 \<Rightarrow> u32 \<Rightarrow> ptr \<times> 'st) \<Rightarrow> ('st \<Rightarrow> ptr \<Rightarrow> 'st) \<Rightarrow> (u32 \<Rightarrow> u32 \<Rightarrow> bool) \<Rightarrow> 'st fdb_table_t \<Rightarrow>
   (table_client \<Rightarrow> ptr \<rightharpoonup> nat) \<Rightarrow> u32 set \<Rightarrow> bool" where
  "table_set alloc free S t P A \<longleftrightarrow> (\<exists>zs. table_view t zs A A \<and> table_mem alloc free S t P)"

abbreviation "tags_shelf alloc free S Ps db \<equiv> shelf alloc free S DbTags DbBitPool DbBit sizeof_bittable (tag_set alloc free S) Ps
  (db_tags db) (db_bittable_allocator db) (db_bittable_heap db)"

abbreviation "tables_shelf alloc free S Ps db \<equiv> shelf alloc free S DbTables DbTabPool DbTab sizeof_table (table_set alloc free S) Ps
  (db_tables db) (db_table_allocator db) (db_table_heap db)"

definition database_state ::
  "('st \<Rightarrow> u32 \<Rightarrow> u32 \<Rightarrow> u32 \<Rightarrow> ptr \<times> 'st) \<Rightarrow> ('st \<Rightarrow> ptr \<Rightarrow> 'st) \<Rightarrow> ('st \<Rightarrow> (ptr \<rightharpoonup> nat) \<Rightarrow> bool) \<Rightarrow> (u32 \<Rightarrow> u32 \<Rightarrow> bool) \<Rightarrow>
   'st fdb_database_t \<times> 'st \<Rightarrow> string set \<Rightarrow> string set \<Rightarrow> (string \<rightharpoonup> u32 set) \<Rightarrow> (string \<rightharpoonup> u32 set) \<Rightarrow> bool" where
  "database_state alloc free ainv S dbs N M T C \<longleftrightarrow> (case dbs of (db, st) \<Rightarrow>
     p_mem_alloc (db_page_allocator db) = alloc \<and> p_mem_free (db_page_allocator db) = free \<and> S 64 4096 \<and> S 64 65536 \<and>
     (\<exists>Ps xs ys. clients ainv st Ps \<and> tags_shelf alloc free S Ps db N xs T \<and> tables_shelf alloc free S Ps db M ys C))"

definition members :: "(string \<rightharpoonup> u32 set) \<Rightarrow> string \<Rightarrow> u32 set" where
  "members T nm = (case T nm of None \<Rightarrow> {} | Some A \<Rightarrow> A)"

context steady_provider
begin

abbreviation "dbstate \<equiv> database_state alloc free ainv S"

lemma tags_filing: "filing alloc free ainv room serves S DbTags DbBitPool DbBit"
  by unfold_locales auto

lemma tables_filing: "filing alloc free ainv room serves S DbTables DbTabPool DbTab"
  by unfold_locales auto

lemma dbstateE:
  assumes "dbstate (db, st) N M T C"
  obtains Ps xs ys where "clients ainv st Ps" "tags_shelf alloc free S Ps db N xs T" "tables_shelf alloc free S Ps db M ys C"
    "p_mem_alloc (db_page_allocator db) = alloc" "p_mem_free (db_page_allocator db) = free" "S 64 4096" "S 64 65536"
  using assms by (auto simp: database_state_def)

lemma dbstateI:
  assumes "clients ainv st Ps" "tags_shelf alloc free S Ps db N xs T" "tables_shelf alloc free S Ps db M ys C"
    "p_mem_alloc (db_page_allocator db) = alloc" "p_mem_free (db_page_allocator db) = free" "S 64 4096" "S 64 65536"
  shows "dbstate (db, st) N M T C"
  using assms by (auto simp: database_state_def)

lemma page_alloc_case:
  "p_mem_alloc (case Some a of Some a \<Rightarrow> a | None \<Rightarrow> g) = p_mem_alloc a" "p_mem_free (case Some a of Some a \<Rightarrow> a | None \<Rightarrow> g) = p_mem_free a"
  by simp_all

subsection \<open>Tags\<close>

lemma get_tagged_spec:
  assumes s: "dbstate (db, st) N M T C" and tag: "tag \<in> N" and room: "room st (18 + n)"
  shows "\<exists>p db' st' Ps xs ys b. fdb_database_get_tagged_entities mem (db, st) tag = Inr (p, (db', st')) \<and> room st' n \<and>
    clients ainv st' Ps \<and> tags_shelf alloc free S Ps db' N xs (T(tag \<mapsto> members T tag)) \<and> tables_shelf alloc free S Ps db' M ys C \<and>
    fdb_btree_get (db_tags db') (hash tag) = Inr p \<and> obj_at (db_bittable_heap db') p = Inr b \<and>
    tag_set alloc free S b (Ps \<circ> DbBit p) (members T tag) \<and> db_page_allocator db' = db_page_allocator db"
proof -
  obtain Ps xs ys where i: "clients ainv st Ps" "tags_shelf alloc free S Ps db N xs T" "tables_shelf alloc free S Ps db M ys C"
    "p_mem_alloc (db_page_allocator db) = alloc" "p_mem_free (db_page_allocator db) = free" "S 64 4096" "S 64 65536"
    using s by (rule dbstateE)
  show ?thesis
  proof (cases "T tag")
    case (Some A)
    then have T: "members T tag = A" "T(tag \<mapsto> A) = T" by (auto simp: members_def)
    from shelf_get(2) [OF i(2) tag Some] obtain p b where p: "fdb_btree_get (db_tags db) (hash tag) = Inr p" "p \<noteq> NULL"
      "obj_at (db_bittable_heap db) p = Inr b" "tag_set alloc free S b (Ps \<circ> DbBit p) A" by blast
    have "fdb_database_get_tagged_entities mem (db, st) tag = Inr (p, (db, st))"
      using p(1,2) by (simp add: fdb_database_get_tagged_entities_def)
    moreover have "room st n" by (rule room_le [OF room]) simp
    ultimately show ?thesis unfolding T using i(1-3) p by blast
  next
    case None
    let ?init = "fdb_bittable_init (Some (db_page_allocator db)) (db_page_allocator db) mem"
    have init: "\<forall>p st Ps. clients ainv st Ps \<longrightarrow> (\<forall>x. Ps (DbBit p x) = Map.empty) \<longrightarrow> room st (1 + (BT_NODES + n)) \<longrightarrow>
      (\<exists>b st' Ps'. ?init st = Inr (b, st') \<and> tag_set alloc free S b (Ps' \<circ> DbBit p) {} \<and> clients ainv st' Ps' \<and>
        room st' (BT_NODES + n) \<and> (\<forall>c. c \<notin> range (DbBit p) \<longrightarrow> Ps' c = Ps c))"
    proof (intro allI impI)
      fix p st Ps assume c: "clients ainv st Ps" "\<forall>x. Ps (DbBit p x) = Map.empty" "room st (1 + (BT_NODES + n))"
      have al: "p_mem_alloc (case Some (db_page_allocator db) of Some a \<Rightarrow> a | None \<Rightarrow> db_page_allocator db) = alloc"
        "p_mem_free (case Some (db_page_allocator db) of Some a \<Rightarrow> a | None \<Rightarrow> db_page_allocator db) = free" using i(4,5) by simp_all
      show "\<exists>b st' Ps'. ?init st = Inr (b, st') \<and> tag_set alloc free S b (Ps' \<circ> DbBit p) {} \<and> clients ainv st' Ps' \<and>
        room st' (BT_NODES + n) \<and> (\<forall>c. c \<notin> range (DbBit p) \<longrightarrow> Ps' c = Ps c)"
        using bittable_init_spec [where hdr = mem, OF al c(1) filing.inj_object [OF tags_filing] c(2) [rule_format]
            c(3) [unfolded plus_1_eq_Suc] i(6)]
        unfolding bittable_state_def tag_set_def by blast
    qed
    have "room st (Suc (1 + (BT_NODES + n)))" using room by (simp add: BT_NODES_def)
    from filing.shelf_new [OF tags_filing i(2) tag None i(1) this init] obtain p pa st1 b st2 r tags st3 Ps' where
      1: "fdb_pool_alloc_alloc (db_bittable_allocator db, st) 64 sizeof_bittable FDB_NO_HINT = (p, (pa, st1))" "p \<noteq> NULL"
        "?init st1 = Inr (b, st2)" "fdb_btree_insert (db_tags db, st2) (hash tag) p = Inr (r, (tags, st3))"
        "shelf alloc free S DbTags DbBitPool DbBit sizeof_bittable (tag_set alloc free S) Ps' tags pa ((db_bittable_heap db)(p \<mapsto> b)) N
          (ins (hash tag) p xs) (T(tag \<mapsto> {}))"
        "clients ainv st3 Ps'" "room st3 n" "fdb_btree_get tags (hash tag) = Inr p"
        "\<forall>c. c \<noteq> DbTags \<longrightarrow> c \<noteq> DbBitPool \<longrightarrow> (\<forall>q x. c \<noteq> DbBit q x) \<longrightarrow> Ps' c = Ps c" by blast
    let ?db = "db\<lparr>db_bittable_allocator := pa, db_tags := tags, db_bittable_heap := (db_bittable_heap db)(p \<mapsto> b)\<rparr>"
    have m: "members T tag = {}" using None by (simp add: members_def)
    have run: "fdb_database_get_tagged_entities mem (db, st) tag = Inr (p, (?db, st3))"
      using shelf_get(1) [OF i(2) tag None] 1(1-4)
      by (simp add: fdb_database_get_tagged_entities_def FDB_DATABASE_BITTABLE_ALIGNMENT_def)
    have "tables_shelf alloc free S Ps' ?db M ys C"
      using i(3) by (subst shelf_cong [where Ps = Ps]) (simp_all add: 1(9))
    moreover have t: "tags_shelf alloc free S Ps' ?db N (ins (hash tag) p xs) (T(tag \<mapsto> {}))" using 1(5) by simp
    moreover have "obj_at (db_bittable_heap ?db) p = Inr b" using 1(2) by (simp add: obj_at_def)
    moreover have "tag_set alloc free S b (Ps' \<circ> DbBit p) {}"
      using shelf_get(2) [OF 1(5) tag, of "{}"] 1(2,8) by (auto simp: obj_at_def)
    ultimately show ?thesis unfolding m using run 1(6-8)
      by (intro exI [of _ p] exI [of _ ?db] exI [of _ st3] exI [of _ Ps'] exI [of _ "ins (hash tag) p xs"] exI [of _ ys] exI [of _ b]) simp
  qed
qed

lemma tag_entity_spec:
  assumes s: "dbstate (db, st) N M T C" and tag: "tag \<in> N" and room: "room st (36 + n)"
  shows "\<exists>db' st'. fdb_database_tag_entity mem (db, st) i tag = Inr (db', st') \<and>
    dbstate (db', st') N M (T(tag \<mapsto> insert i (members T tag))) C \<and> room st' n"
proof -
  have r: "room st (18 + (18 + n))" using room by simp
  from get_tagged_spec [OF s tag r, of mem] obtain p db1 st1 Ps xs ys b where
    1: "fdb_database_get_tagged_entities mem (db, st) tag = Inr (p, (db1, st1))" "room st1 (18 + n)" "clients ainv st1 Ps"
      "tags_shelf alloc free S Ps db1 N xs (T(tag \<mapsto> members T tag))" "tables_shelf alloc free S Ps db1 M ys C"
      "fdb_btree_get (db_tags db1) (hash tag) = Inr p" "obj_at (db_bittable_heap db1) p = Inr b"
      "tag_set alloc free S b (Ps \<circ> DbBit p) (members T tag)" "db_page_allocator db1 = db_page_allocator db" by blast
  obtain zs where "bitstate (DbBit p) (b, st1) Ps zs (members T tag)" using 1(3,8) by (auto simp: tag_set_def bittable_state_def)
  from add_spec [OF this filing.inj_object [OF tags_filing] 1(2), of i] obtain b' st2 zs' Ps' where
    2: "fdb_bittable_add (b, st1) i = Inr (b', st2)" "bitstate (DbBit p) (b', st2) Ps' zs' (insert i (members T tag))"
      "room st2 n" "\<forall>c. c \<notin> range (DbBit p) \<longrightarrow> Ps' c = Ps c" by blast
  have 3: "clients ainv st2 Ps'" "tag_set alloc free S b' (Ps' \<circ> DbBit p) (insert i (members T tag))"
    using 2(2) by (auto simp: bittable_state_def tag_set_def)
  let ?db = "db1\<lparr>db_bittable_heap := (db_bittable_heap db1)(p \<mapsto> b')\<rparr>"
  have "tags_shelf alloc free S Ps' ?db N xs (T(tag \<mapsto> insert i (members T tag)))"
    using filing.shelf_put [OF tags_filing 1(4) tag _ 1(6) 3(2) 2(4)] by simp
  moreover have "tables_shelf alloc free S Ps' ?db M ys C"
    using 1(5) by (subst shelf_cong [where Ps = Ps]) (simp_all add: 2(4) image_iff)
  ultimately have "dbstate (?db, st2) N M (T(tag \<mapsto> insert i (members T tag))) C"
    using dbstateE [OF s] by (intro dbstateI [OF 3(1)]) (auto simp: 1(9))
  moreover have "fdb_database_tag_entity mem (db, st) i tag = Inr (?db, st2)"
    using 1(1,7) 2(1) by (simp add: fdb_database_tag_entity_def)
  ultimately show ?thesis using 2(3) by blast
qed

lemma untag_entity_spec:
  assumes s: "dbstate (db, st) N M T C" and tag: "tag \<in> N"
  shows "\<exists>db'. fdb_database_untag_entity db i tag = Inr db' \<and>
    dbstate (db', st) N M (if T tag = None then T else T(tag \<mapsto> members T tag - {i})) C"
proof -
  obtain Ps xs ys where k: "clients ainv st Ps" "tags_shelf alloc free S Ps db N xs T" "tables_shelf alloc free S Ps db M ys C"
    using s by (rule dbstateE)
  show ?thesis
  proof (cases "T tag")
    case None
    then show ?thesis using shelf_get(1) [OF k(2) tag None] s by (simp add: fdb_database_untag_entity_def)
  next
    case (Some A)
    then have m: "members T tag = A" by (simp add: members_def)
    from shelf_get(2) [OF k(2) tag Some] obtain p b where p: "fdb_btree_get (db_tags db) (hash tag) = Inr p" "p \<noteq> NULL"
      "obj_at (db_bittable_heap db) p = Inr b" "tag_set alloc free S b (Ps \<circ> DbBit p) A" by blast
    then obtain zs where z: "bittable_view b zs A" "bittable_mem alloc free S b (Ps \<circ> DbBit p)" by (auto simp: tag_set_def)
    obtain b' where b': "fdb_bittable_remove b i = Inr b'" "bittable_view b' zs (A - {i})" "same_bitsets b b'"
      using remove_spec [OF z(1)] by blast
    have t: "tag_set alloc free S b' (Ps \<circ> DbBit p) (A - {i})" using b'(2) same_bitsets_mem [OF b'(3) z(2)] by (auto simp: tag_set_def)
    let ?db = "db\<lparr>db_bittable_heap := (db_bittable_heap db)(p \<mapsto> b')\<rparr>"
    have "tags_shelf alloc free S Ps ?db N xs (T(tag \<mapsto> A - {i}))"
      using filing.shelf_put [OF tags_filing k(2) tag Some p(1) t] by simp
    then have "dbstate (?db, st) N M (T(tag \<mapsto> A - {i})) C"
      using dbstateE [OF s] by (intro dbstateI [OF k(1)]) (auto intro: k(3))
    moreover have "fdb_database_untag_entity db i tag = Inr ?db"
      using p(1-3) b'(1) by (simp add: fdb_database_untag_entity_def)
    ultimately show ?thesis using Some m by simp
  qed
qed

lemma has_tag_spec:
  assumes s: "dbstate (db, st) N M T C" and tag: "tag \<in> N" and room: "room st (18 + n)"
  shows "\<exists>p db' st' b. fdb_database_get_tagged_entities mem (db, st) tag = Inr (p, (db', st')) \<and>
    dbstate (db', st') N M (T(tag \<mapsto> members T tag)) C \<and> room st' n \<and> obj_at (db_bittable_heap db') p = Inr b \<and>
    fdb_bittable_exists b i = Inr (i \<in> members T tag)"
proof -
  from get_tagged_spec [OF s tag room, of mem] obtain p db1 st1 Ps xs ys b where
    1: "fdb_database_get_tagged_entities mem (db, st) tag = Inr (p, (db1, st1))" "room st1 n" "clients ainv st1 Ps"
      "tags_shelf alloc free S Ps db1 N xs (T(tag \<mapsto> members T tag))" "tables_shelf alloc free S Ps db1 M ys C"
      "obj_at (db_bittable_heap db1) p = Inr b" "tag_set alloc free S b (Ps \<circ> DbBit p) (members T tag)"
      "db_page_allocator db1 = db_page_allocator db" by blast
  have "dbstate (db1, st1) N M (T(tag \<mapsto> members T tag)) C"
    using dbstateE [OF s] by (intro dbstateI [OF 1(3-5)]) (auto simp: 1(8))
  moreover have "fdb_bittable_exists b i = Inr (i \<in> members T tag)" using 1(7) exists_spec by (auto simp: tag_set_def)
  ultimately show ?thesis using 1(1,2,6) by blast
qed

subsection \<open>Tables\<close>

lemma find_or_create_spec:
  assumes s: "dbstate (db, st) N M T C" and nm: "nm \<in> M" "length nm < 256" and esize: "1 \<le> unat esize" "unat esize \<le> 127"
    and room: "room st (18 + n)"
  shows "\<exists>p db' st' Ps xs ys t. fdb_database_find_or_create_table mem (db, st) nm esize dstr = Inr (p, (db', st')) \<and> room st' n \<and>
    clients ainv st' Ps \<and> tags_shelf alloc free S Ps db' N xs T \<and> tables_shelf alloc free S Ps db' M ys (C(nm \<mapsto> members C nm)) \<and>
    fdb_btree_get (db_tables db') (hash nm) = Inr p \<and> obj_at (db_table_heap db') p = Inr t \<and>
    table_set alloc free S t (Ps \<circ> DbTab p) (members C nm) \<and> db_page_allocator db' = db_page_allocator db"
proof -
  obtain Ps xs ys where i: "clients ainv st Ps" "tags_shelf alloc free S Ps db N xs T" "tables_shelf alloc free S Ps db M ys C"
    "p_mem_alloc (db_page_allocator db) = alloc" "p_mem_free (db_page_allocator db) = free" "S 64 4096" "S 64 65536"
    using s by (rule dbstateE)
  show ?thesis
  proof (cases "C nm")
    case (Some A)
    then have T: "members C nm = A" "C(nm \<mapsto> A) = C" by (auto simp: members_def)
    from shelf_get(2) [OF i(3) nm(1) Some] obtain p t where p: "fdb_btree_get (db_tables db) (hash nm) = Inr p" "p \<noteq> NULL"
      "obj_at (db_table_heap db) p = Inr t" "table_set alloc free S t (Ps \<circ> DbTab p) A" by blast
    have "fdb_database_find_or_create_table mem (db, st) nm esize dstr = Inr (p, (db, st))"
      using p(1,2) by (simp add: fdb_database_find_or_create_table_def get_table_id_def)
    moreover have "room st n" by (rule room_le [OF room]) simp
    ultimately show ?thesis unfolding T using i(1-3) p by blast
  next
    case None
    let ?init = "fdb_table_init nm (ucast (hash nm)) esize dstr (Some (db_page_allocator db)) (db_page_allocator db) mem"
    have init: "\<forall>p st Ps. clients ainv st Ps \<longrightarrow> (\<forall>x. Ps (DbTab p x) = Map.empty) \<longrightarrow> room st (1 + (BT_NODES + n)) \<longrightarrow>
      (\<exists>t st' Ps'. ?init st = Inr (t, st') \<and> table_set alloc free S t (Ps' \<circ> DbTab p) {} \<and> clients ainv st' Ps' \<and>
        room st' (BT_NODES + n) \<and> (\<forall>c. c \<notin> range (DbTab p) \<longrightarrow> Ps' c = Ps c))"
    proof (intro allI impI)
      fix p st Ps assume c: "clients ainv st Ps" "\<forall>x. Ps (DbTab p x) = Map.empty" "room st (1 + (BT_NODES + n))"
      have al: "p_mem_alloc (case Some (db_page_allocator db) of Some a \<Rightarrow> a | None \<Rightarrow> db_page_allocator db) = alloc"
        "p_mem_free (case Some (db_page_allocator db) of Some a \<Rightarrow> a | None \<Rightarrow> db_page_allocator db) = free" using i(4,5) by simp_all
      show "\<exists>t st' Ps'. ?init st = Inr (t, st') \<and> table_set alloc free S t (Ps' \<circ> DbTab p) {} \<and> clients ainv st' Ps' \<and>
        room st' (BT_NODES + n) \<and> (\<forall>c. c \<notin> range (DbTab p) \<longrightarrow> Ps' c = Ps c)"
        using table_init_spec [where hdr = mem, OF al c(1) filing.inj_object [OF tables_filing] c(2) [rule_format]
            c(3) [unfolded plus_1_eq_Suc] i(6,7) nm(2) esize]
        unfolding table_set_def by blast
    qed
    have "room st (Suc (1 + (BT_NODES + n)))" using room by (simp add: BT_NODES_def)
    from filing.shelf_new [OF tables_filing i(3) nm(1) None i(1) this init] obtain p pa st1 t st2 r tables st3 Ps' where
      1: "fdb_pool_alloc_alloc (db_table_allocator db, st) 64 sizeof_table FDB_NO_HINT = (p, (pa, st1))" "p \<noteq> NULL"
        "?init st1 = Inr (t, st2)" "fdb_btree_insert (db_tables db, st2) (hash nm) p = Inr (r, (tables, st3))"
        "shelf alloc free S DbTables DbTabPool DbTab sizeof_table (table_set alloc free S) Ps' tables pa ((db_table_heap db)(p \<mapsto> t)) M
          (ins (hash nm) p ys) (C(nm \<mapsto> {}))"
        "clients ainv st3 Ps'" "room st3 n" "fdb_btree_get tables (hash nm) = Inr p"
        "\<forall>c. c \<noteq> DbTables \<longrightarrow> c \<noteq> DbTabPool \<longrightarrow> (\<forall>q x. c \<noteq> DbTab q x) \<longrightarrow> Ps' c = Ps c" by blast
    let ?db = "db\<lparr>db_table_allocator := pa, db_tables := tables, db_table_heap := (db_table_heap db)(p \<mapsto> t)\<rparr>"
    have m: "members C nm = {}" using None by (simp add: members_def)
    have run: "fdb_database_find_or_create_table mem (db, st) nm esize dstr = Inr (p, (?db, st3))"
      using shelf_get(1) [OF i(3) nm(1) None] 1(1-4)
      by (simp add: fdb_database_find_or_create_table_def new_table_def get_table_id_def FDB_DATABASE_TABLE_ALIGNMENT_def)
    have "tags_shelf alloc free S Ps' ?db N xs T"
      using i(2) by (subst shelf_cong [where Ps = Ps]) (simp_all add: 1(9))
    moreover have "obj_at (db_table_heap ?db) p = Inr t" using 1(2) by (simp add: obj_at_def)
    moreover have "table_set alloc free S t (Ps' \<circ> DbTab p) {}"
      using shelf_get(2) [OF 1(5) nm(1), of "{}"] 1(2,8) by (auto simp: obj_at_def)
    ultimately show ?thesis unfolding m using run 1(5-8)
      by (intro exI [of _ p] exI [of _ ?db] exI [of _ st3] exI [of _ Ps'] exI [of _ xs] exI [of _ "ins (hash nm) p ys"] exI [of _ t]) simp
  qed
qed

text \<open>A table, found by its name, changes.\<close>

lemma table_put:
  assumes k: "tags_shelf alloc free S Ps db N xs T" "tables_shelf alloc free S Ps db M ys C" and s: "dbstate (db0, st0) N0 M0 T0 C0"
    and nm: "nm \<in> M" "C nm = Some A" "fdb_btree_get (db_tables db) (hash nm) = Inr p"
    and t: "table_set alloc free S t (Ps' \<circ> DbTab p) A'" "clients ainv st Ps'" "\<forall>c. c \<notin> range (DbTab p) \<longrightarrow> Ps' c = Ps c"
    and al: "db_page_allocator db = db_page_allocator db0"
  shows "dbstate (db\<lparr>db_table_heap := (db_table_heap db)(p \<mapsto> t)\<rparr>, st) N M T (C(nm \<mapsto> A'))"
proof -
  let ?db = "db\<lparr>db_table_heap := (db_table_heap db)(p \<mapsto> t)\<rparr>"
  have "tables_shelf alloc free S Ps' ?db M ys (C(nm \<mapsto> A'))"
    using filing.shelf_put [OF tables_filing k(2) nm t(1,3)] by simp
  moreover have "tags_shelf alloc free S Ps' ?db N xs T"
    using k(1) by (subst shelf_cong [where Ps = Ps]) (simp_all add: t(3) image_iff)
  ultimately show ?thesis using dbstateE [OF s] by (intro dbstateI [OF t(2)]) (auto simp: al)
qed

end

section \<open>Clearing an entity\<close>

text \<open>The loop over the tables destroys the component of one id in each.\<close>

definition cleared :: "u32 \<Rightarrow> 'st fdb_table_t \<Rightarrow> 'st fdb_table_t \<Rightarrow> bool" where
  "cleared i t t' \<longleftrightarrow> kept t t' \<and> (\<forall>zs A. table_view t zs A A \<longrightarrow> table_view t' zs (A - {i}) (A - {i}))"

lemma destroy_cleared:
  assumes "table_view t zs A A" "id_ok i"
  shows "\<exists>t' w'. fdb_table_destroy_component call t i w = Inr (t', w') \<and> cleared i t t'"
proof -
  obtain t' w' where 1: "fdb_table_destroy_component call t i w = Inr (t', w')" "kept t t'" using destroy_view [OF assms] by blast
  have "table_view t' ys (B - {i}) (B - {i})" if "table_view t ys B B" for ys B
    using destroy_view [OF that assms(2), of call w] 1(1) by auto
  then show ?thesis using 1 by (auto simp: cleared_def)
qed

lemma clear_entity_tables_spec:
  assumes "iter_at h it ys" "length ys < fuel" "distinct (map snd ys)" "id_ok i"
    and "\<forall>p\<in>snd ` set ys. p \<noteq> NULL \<and> (\<exists>t zs A. tabs p = Some t \<and> table_view t zs A A)"
  shows "\<exists>tabs' w'. clear_entity_tables fuel call h it i tabs w = Inr (tabs', w') \<and> dom tabs' = dom tabs \<and>
    (\<forall>p. p \<notin> snd ` set ys \<longrightarrow> tabs' p = tabs p) \<and>
    (\<forall>p\<in>snd ` set ys. \<forall>t. tabs p = Some t \<longrightarrow> (\<exists>t'. tabs' p = Some t' \<and> cleared i t t'))"
  using assms
proof (induction ys arbitrary: it fuel tabs w)
  case Nil
  then obtain f where "fuel = Suc f" by (cases fuel) auto
  then show ?case using iter_at_has_next [OF Nil(1)] by simp
next
  case (Cons e ys)
  obtain f where f: "fuel = Suc f" using Cons.prems(2) by (cases fuel) auto
  obtain k p where e: "e = (k, p)" by (cases e)
  have more: "fdb_btree_iter_has_next h it = Inr True" using iter_at_has_next [OF Cons.prems(1)] by simp
  obtain it' where it': "fdb_btree_iter_next h it = Inr (\<lparr>be_key = k, be_value = p\<rparr>, it')" "iter_at h it' ys"
    using Cons.prems(1) unfolding e by (rule iter_at_next)
  obtain t zs A where t: "p \<noteq> NULL" "tabs p = Some t" "table_view t zs A A" using Cons.prems(5) e by auto
  obtain t' w1 where t': "fdb_table_destroy_component call t i w = Inr (t', w1)" "cleared i t t'"
    using destroy_cleared [OF t(3) Cons.prems(4)] by blast
  have np: "p \<notin> snd ` set ys" using Cons.prems(3) e by simp
  have ih: "\<forall>q\<in>snd ` set ys. q \<noteq> NULL \<and> (\<exists>t zs A. (tabs(p \<mapsto> t')) q = Some t \<and> table_view t zs A A)"
    using Cons.prems(5) np by auto
  have len: "length ys < f" "distinct (map snd ys)" using Cons.prems(2,3) f by simp_all
  from Cons.IH [OF it'(2) len Cons.prems(4) ih, of w1] obtain tabs' w' where
    r: "clear_entity_tables f call h it' i (tabs(p \<mapsto> t')) w1 = Inr (tabs', w')" "dom tabs' = dom (tabs(p \<mapsto> t'))"
      "\<And>q. q \<notin> snd ` set ys \<Longrightarrow> tabs' q = (tabs(p \<mapsto> t')) q"
      "\<And>q t. q \<in> snd ` set ys \<Longrightarrow> (tabs(p \<mapsto> t')) q = Some t \<Longrightarrow> \<exists>t'. tabs' q = Some t' \<and> cleared i t t'" by blast
  have run: "clear_entity_tables fuel call h it i tabs w = Inr (tabs', w')"
    unfolding f using more it'(1) t(1,2) t'(1) r(1) by (simp add: obj_at_def)
  have "\<exists>t2. tabs' q = Some t2 \<and> cleared i t1 t2" if q: "q \<in> snd ` set (e # ys)" "tabs q = Some t1" for q t1
  proof (cases "q = p")
    case True
    then show ?thesis using r(3) [OF np] t(2) t'(2) q(2) by simp
  next
    case False
    then show ?thesis using r(4) [of q t1] q e by simp
  qed
  moreover have "tabs' q = tabs q" if "q \<notin> snd ` set (e # ys)" for q using r(3) [of q] that e by simp
  moreover have "dom tabs' = dom tabs" using r(2) t(2) by auto
  ultimately show ?case using run by blast
qed

section \<open>The refinement\<close>

datatype db_cmd = DTag u32 string | DUntag u32 string | DHasTag u32 string
  | DAdd string u64 ptr u32 | DRemove string u32 | DHas string u32 | DClearEntity u32 | DNumTables

datatype db_out = DDone | DBool bool | DCount u64

text \<open>More tables than keys of 32 bits there are not.\<close>

definition DB_FUEL :: nat where "DB_FUEL = Suc (2 ^ 32)"

text \<open>A client's commands: the calls of the database, and the call on the table or tag set it returns.\<close>

fun db_step ::
  "(ptr \<Rightarrow> ptr \<Rightarrow> bytes \<Rightarrow> bytes) \<Rightarrow> (ptr \<Rightarrow> ptr) \<Rightarrow> db_cmd \<Rightarrow> ('st fdb_database_t \<times> 'st) \<times> bytes \<Rightarrow>
   (db_out \<times> ('st fdb_database_t \<times> 'st) \<times> bytes) res" where
  "db_step call mem (DTag i tag) (dbs, w) = bind_res (fdb_database_tag_entity mem dbs i tag) (\<lambda>dbs. Inr (DDone, dbs, w))"
| "db_step call mem (DUntag i tag) ((db, st), w) = bind_res (fdb_database_untag_entity db i tag) (\<lambda>db. Inr (DDone, (db, st), w))"
| "db_step call mem (DHasTag i tag) (dbs, w) =
     bind_res (fdb_database_get_tagged_entities mem dbs tag) (\<lambda>(p, (db, st)).
     bind_res (obj_at (db_bittable_heap db) p) (\<lambda>bt.
     bind_res (fdb_bittable_exists bt i) (\<lambda>b. Inr (DBool b, (db, st), w))))"
| "db_step call mem (DAdd nm esize dstr i) (dbs, w) =
     bind_res (fdb_database_find_or_create_table mem dbs nm esize dstr) (\<lambda>(p, (db, st)).
     bind_res (obj_at (db_table_heap db) p) (\<lambda>t.
     bind_res (fdb_table_create_component (t, st) i) (\<lambda>(_, (t, st)).
     Inr (DDone, (db\<lparr>db_table_heap := (db_table_heap db)(p \<mapsto> t)\<rparr>, st), w))))"
| "db_step call mem (DRemove nm i) ((db, st), w) =
     bind_res (fdb_database_find_table db nm) (\<lambda>p.
     if p = NULL then Inr (DDone, (db, st), w) else
     bind_res (obj_at (db_table_heap db) p) (\<lambda>t.
     bind_res (fdb_table_destroy_component call t i w) (\<lambda>(t, w).
     Inr (DDone, (db\<lparr>db_table_heap := (db_table_heap db)(p \<mapsto> t)\<rparr>, st), w))))"
| "db_step call mem (DHas nm i) ((db, st), w) =
     bind_res (fdb_database_find_table db nm) (\<lambda>p.
     if p = NULL then Inr (DBool False, (db, st), w) else
     bind_res (obj_at (db_table_heap db) p) (\<lambda>t.
     bind_res (fdb_table_get_component t i) (\<lambda>q. Inr (DBool (q \<noteq> NULL), (db, st), w))))"
| "db_step call mem (DClearEntity i) ((db, st), w) =
     bind_res (fdb_database_clear_entity DB_FUEL call db i w) (\<lambda>(db, w). Inr (DDone, (db, st), w))"
| "db_step call mem DNumTables ((db, st), w) = Inr (DCount (fdb_database_num_tables db), (db, st), w)"

fun db_run ::
  "(ptr \<Rightarrow> ptr \<Rightarrow> bytes \<Rightarrow> bytes) \<Rightarrow> (ptr \<Rightarrow> ptr) \<Rightarrow> db_cmd list \<Rightarrow> ('st fdb_database_t \<times> 'st) \<times> bytes \<Rightarrow>
   (db_out list \<times> ('st fdb_database_t \<times> 'st) \<times> bytes) res" where
  "db_run call mem [] x = Inr ([], x)"
| "db_run call mem (c # cs) x = bind_res (db_step call mem c x) (\<lambda>(out, x). bind_res (db_run call mem cs x)
     (\<lambda>(outs, x). Inr (out # outs, x)))"

text \<open>The abstract database: the ids of every tag, and the ids of every table there is.\<close>

type_synonym db_sets = "(string \<Rightarrow> u32 set) \<times> (string \<rightharpoonup> u32 set)"

fun db_spec :: "db_cmd \<Rightarrow> db_sets \<Rightarrow> db_out \<times> db_sets" where
  "db_spec (DTag i tag) (T, C) = (DDone, T(tag := insert i (T tag)), C)"
| "db_spec (DUntag i tag) (T, C) = (DDone, T(tag := T tag - {i}), C)"
| "db_spec (DHasTag i tag) (T, C) = (DBool (i \<in> T tag), T, C)"
| "db_spec (DAdd nm esize dstr i) (T, C) = (DDone, T, C(nm \<mapsto> insert i (members C nm)))"
| "db_spec (DRemove nm i) (T, C) = (DDone, T, C(nm := map_option (\<lambda>A. A - {i}) (C nm)))"
| "db_spec (DHas nm i) (T, C) = (DBool (i \<in> members C nm), T, C)"
| "db_spec (DClearEntity i) (T, C) = (DDone, T, map_option (\<lambda>A. A - {i}) \<circ> C)"
| "db_spec DNumTables (T, C) = (DCount (ucast (of_nat (card (dom C)) :: u32)), T, C)"

fun db_run_spec :: "db_cmd list \<Rightarrow> db_sets \<Rightarrow> db_out list \<times> db_sets" where
  "db_run_spec [] s = ([], s)"
| "db_run_spec (c # cs) s = (let (out, s) = db_spec c s; (outs, s) = db_run_spec cs s in (out # outs, s))"

fun db_tags_of :: "db_cmd \<Rightarrow> string set" where
  "db_tags_of (DTag i tag) = {tag}" | "db_tags_of (DUntag i tag) = {tag}" | "db_tags_of (DHasTag i tag) = {tag}"
| "db_tags_of _ = {}"

fun db_names_of :: "db_cmd \<Rightarrow> string set" where
  "db_names_of (DAdd nm esize dstr i) = {nm}" | "db_names_of (DRemove nm i) = {nm}" | "db_names_of (DHas nm i) = {nm}"
| "db_names_of _ = {}"

fun db_legal :: "db_cmd \<Rightarrow> bool" where
  "db_legal (DAdd nm esize dstr i) \<longleftrightarrow> length nm < 256 \<and> 1 \<le> unat esize \<and> unat esize \<le> 127 \<and> id_ok i"
| "db_legal (DRemove nm i) \<longleftrightarrow> id_ok i"
| "db_legal (DHas nm i) \<longleftrightarrow> id_ok i"
| "db_legal (DClearEntity i) \<longleftrightarrow> id_ok i"
| "db_legal _ \<longleftrightarrow> True"

fun db_need :: "db_cmd \<Rightarrow> nat" where
  "db_need (DTag i tag) = 36" | "db_need (DHasTag i tag) = 18" | "db_need (DAdd nm esize dstr i) = 38" | "db_need _ = 0"

lemma members_upd [simp]: "members (T(nm \<mapsto> A)) = (members T)(nm := A)"
  by (simp add: members_def fun_eq_iff)

lemma members_empty [simp]: "members Map.empty = (\<lambda>_. {})"
  by (simp add: members_def fun_eq_iff)

lemma ascending_length:
  assumes "ascending xs" shows "length xs \<le> 2 ^ 32"
proof -
  have "length xs = card (set (map fst xs))" using assms distinct_card [of "map fst xs"] by (simp add: strict_sorted_iff)
  also have "\<dots> \<le> card (UNIV :: u32 set)" by (rule card_mono) simp_all
  finally show ?thesis by (simp add: card_word)
qed

context steady_provider
begin

lemma add_component_step:
  assumes s: "dbstate (db, st) N M T C" and nm: "nm \<in> M" and ok: "db_legal (DAdd nm esize dstr i)" and room: "room st (38 + n)"
  shows "\<exists>db' st'. db_step call mem (DAdd nm esize dstr i) ((db, st), w) = Inr (DDone, (db', st'), w) \<and>
    dbstate (db', st') N M T (C(nm \<mapsto> insert i (members C nm))) \<and> room st' n"
proof -
  have o: "length nm < 256" "1 \<le> unat esize" "unat esize \<le> 127" "id_ok i" using ok by simp_all
  have r: "room st (18 + (20 + n))" using room by simp
  from find_or_create_spec [OF s nm o(1-3) r, of mem dstr] obtain p db1 st1 Ps xs ys t where
    1: "fdb_database_find_or_create_table mem (db, st) nm esize dstr = Inr (p, (db1, st1))" "room st1 (20 + n)" "clients ainv st1 Ps"
      "tags_shelf alloc free S Ps db1 N xs T" "tables_shelf alloc free S Ps db1 M ys (C(nm \<mapsto> members C nm))"
      "fdb_btree_get (db_tables db1) (hash nm) = Inr p" "obj_at (db_table_heap db1) p = Inr t"
      "table_set alloc free S t (Ps \<circ> DbTab p) (members C nm)" "db_page_allocator db1 = db_page_allocator db" by blast
  obtain zs where z: "table_view t zs (members C nm) (members C nm)" "table_mem alloc free S t (Ps \<circ> DbTab p)"
    using 1(8) by (auto simp: table_set_def)
  from create_component_spec [OF z filing.inj_object [OF tables_filing] 1(3,2) o(4)] obtain q t' st2 zs' Ps' where
    2: "fdb_table_create_component (t, st1) i = Inr (q, (t', st2))" "table_view t' zs' (insert i (members C nm)) (insert i (members C nm))"
      "table_mem alloc free S t' (Ps' \<circ> DbTab p)" "clients ainv st2 Ps'" "room st2 n" "\<forall>c. c \<notin> range (DbTab p) \<longrightarrow> Ps' c = Ps c"
    by blast
  have "table_set alloc free S t' (Ps' \<circ> DbTab p) (insert i (members C nm))" using 2(2,3) by (auto simp: table_set_def)
  from table_put [OF 1(4,5) s nm _ 1(6) this 2(4,6) 1(9)] show ?thesis using 1(1,7) 2(1,5) by simp
qed

lemma remove_component_step:
  assumes s: "dbstate (db, st) N M T C" and nm: "nm \<in> M" and i: "id_ok i"
  shows "\<exists>db' w'. db_step call mem (DRemove nm i) ((db, st), w) = Inr (DDone, (db', st), w') \<and>
    dbstate (db', st) N M T (C(nm := map_option (\<lambda>A. A - {i}) (C nm)))"
proof -
  obtain Ps xs ys where k: "clients ainv st Ps" "tags_shelf alloc free S Ps db N xs T" "tables_shelf alloc free S Ps db M ys C"
    using s by (rule dbstateE)
  show ?thesis
  proof (cases "C nm")
    case None
    then have "C(nm := map_option (\<lambda>A. A - {i}) (C nm)) = C" by auto
    then show ?thesis using shelf_get(1) [OF k(3) nm None] s by (simp add: fdb_database_find_table_def get_table_id_def)
  next
    case (Some A)
    from shelf_get(2) [OF k(3) nm Some] obtain p t where p: "fdb_btree_get (db_tables db) (hash nm) = Inr p" "p \<noteq> NULL"
      "obj_at (db_table_heap db) p = Inr t" "table_set alloc free S t (Ps \<circ> DbTab p) A" by blast
    then obtain zs where z: "table_view t zs A A" "table_mem alloc free S t (Ps \<circ> DbTab p)" by (auto simp: table_set_def)
    obtain t' w' where t': "fdb_table_destroy_component call t i w = Inr (t', w')" "cleared i t t'"
      using destroy_cleared [OF z(1) i] by blast
    have "table_set alloc free S t' (Ps \<circ> DbTab p) (A - {i})" unfolding table_set_def
      using t'(2) z kept_mem by (metis cleared_def)
    from table_put [OF k(2,3) s nm Some p(1) this k(1)]
    show ?thesis using p(1-3) t'(1) Some by (simp add: fdb_database_find_table_def get_table_id_def)
  qed
qed

lemma has_component_step:
  assumes s: "dbstate (db, st) N M T C" and nm: "nm \<in> M" and i: "id_ok i"
  shows "db_step call mem (DHas nm i) ((db, st), w) = Inr (DBool (i \<in> members C nm), (db, st), w)"
proof -
  obtain Ps xs ys where k: "clients ainv st Ps" "tags_shelf alloc free S Ps db N xs T" "tables_shelf alloc free S Ps db M ys C"
    using s by (rule dbstateE)
  show ?thesis
  proof (cases "C nm")
    case None
    then show ?thesis using shelf_get(1) [OF k(3) nm None] by (simp add: fdb_database_find_table_def get_table_id_def members_def)
  next
    case (Some A)
    from shelf_get(2) [OF k(3) nm Some] obtain p t zs where p: "fdb_btree_get (db_tables db) (hash nm) = Inr p" "p \<noteq> NULL"
      "obj_at (db_table_heap db) p = Inr t" "table_view t zs A A" "table_mem alloc free S t (Ps \<circ> DbTab p)" by (auto simp: table_set_def)
    have "comp_addr (block_base t zs) (tb_esize t) i \<noteq> NULL" if "i \<in> A"
      by (rule comp_addr_end(1) [OF p(4,5)]) (use p(4) that in \<open>auto simp: table_view_def\<close>)
    then show ?thesis using p(1-3) get_component_addr [OF p(4) i] Some
      by (simp add: fdb_database_find_table_def get_table_id_def members_def)
  qed
qed

lemma clear_entity_step:
  assumes s: "dbstate (db, st) N M T C" and i: "id_ok i"
  shows "\<exists>db' w'. db_step call mem (DClearEntity i) ((db, st), w) = Inr (DDone, (db', st), w') \<and>
    dbstate (db', st) N M T (map_option (\<lambda>A. A - {i}) \<circ> C)"
proof -
  obtain Ps xs ys where k: "clients ainv st Ps" "tags_shelf alloc free S Ps db N xs T" "tables_shelf alloc free S Ps db M ys C"
    using s by (rule dbstateE)
  have ob: "objects M (\<lambda>p x. table_set alloc free S x (Ps \<circ> DbTab p)) ys (db_table_heap db) C" and h: "btree_holds (db_tables db) ys"
    using k(3) by (simp_all add: shelf_def)
  note o = ob [unfolded objects_def]
  obtain it where it: "fdb_btree_iter_init (db_tables db) = Inr it" "iter_at (bt_nodes (db_tables db)) it ys" by (rule iter_at_init [OF h])
  have fuel: "length ys < DB_FUEL" using ascending_length [of ys] o by (simp add: DB_FUEL_def)
  have each: "\<exists>t zs A. db_table_heap db p = Some t \<and> table_view t zs A A" if p: "p \<in> snd ` set ys" for p
  proof -
    obtain key where kp: "(key, p) \<in> set ys" using p by auto
    then have "key \<in> hash ` dom C" using o by (metis fst_conv imageI)
    then obtain nm A where "C nm = Some A" "key = hash nm" by auto
    then show ?thesis using o kp unfolding table_set_def by blast
  qed
  have all: "\<forall>p\<in>snd ` set ys. p \<noteq> NULL \<and> (\<exists>t zs A. db_table_heap db p = Some t \<and> table_view t zs A A)"
    using each o by (metis (no_types, lifting))
  have d: "distinct (map snd ys)" using o by blast
  from clear_entity_tables_spec [OF it(2) fuel d i all, of call w] obtain tabs w' where
    r: "clear_entity_tables DB_FUEL call (bt_nodes (db_tables db)) it i (db_table_heap db) w = Inr (tabs, w')"
      "dom tabs = dom (db_table_heap db)"
      "\<And>p t. p \<in> snd ` set ys \<Longrightarrow> db_table_heap db p = Some t \<Longrightarrow> \<exists>t'. tabs p = Some t' \<and> cleared i t t'" by blast
  let ?db = "db\<lparr>db_table_heap := tabs\<rparr>"
  have "\<exists>t'. tabs p = Some t' \<and> table_set alloc free S t' (Ps \<circ> DbTab p) (A - {i})"
    if p: "db_table_heap db p = Some t" "table_set alloc free S t (Ps \<circ> DbTab p) A" for p t A
  proof -
    have "p \<in> snd ` set ys" using o p(1) by blast
    then obtain t' where t': "tabs p = Some t'" "cleared i t t'" using r(3) p(1) by blast
    obtain zs where "table_view t zs A A" "table_mem alloc free S t (Ps \<circ> DbTab p)" using p(2) by (auto simp: table_set_def)
    then show ?thesis using t' kept_mem unfolding cleared_def table_set_def by metis
  qed
  note objects_map [where Q' = "\<lambda>p x. table_set alloc free S x (Ps \<circ> DbTab p)" and f = "\<lambda>A. A - {i}", OF ob r(2) this]
  then have "tables_shelf alloc free S Ps ?db M ys (map_option (\<lambda>A. A - {i}) \<circ> C)"
    using k(3) r(2) by (simp add: shelf_def)
  then have "dbstate (?db, st) N M T (map_option (\<lambda>A. A - {i}) \<circ> C)"
    using dbstateE [OF s] by (intro dbstateI [OF k(1)]) (auto intro: k(2))
  moreover have "db_step call mem (DClearEntity i) ((db, st), w) = Inr (DDone, (?db, st), w')"
    using it(1) r(1) by (simp add: fdb_database_clear_entity_def)
  ultimately show ?thesis by blast
qed

lemma num_tables_step:
  assumes s: "dbstate (db, st) N M T C"
  shows "fdb_database_num_tables db = ucast (of_nat (card (dom C)) :: u32)"
proof -
  obtain Ps xs ys where k: "tables_shelf alloc free S Ps db M ys C" using s by (rule dbstateE)
  then have "length ys = card (dom C)" "btree_holds (db_tables db) ys" by (auto simp: shelf_def dest: objects_card)
  then show ?thesis by (auto simp: fdb_database_num_tables_def btree_holds_def btree_tree_def)
qed

lemma db_step_spec:
  assumes s: "dbstate (db, st) N M T C" and c: "db_legal c" "db_tags_of c \<subseteq> N" "db_names_of c \<subseteq> M"
    and room: "room st (db_need c + n)"
  shows "\<exists>db' st' w' T' C'. db_step call mem c ((db, st), w) = Inr (fst (db_spec c (members T, C)), (db', st'), w') \<and>
    dbstate (db', st') N M T' C' \<and> snd (db_spec c (members T, C)) = (members T', C') \<and> room st' n"
proof (cases c)
  case (DTag i tag)
  then have t: "tag \<in> N" "room st (36 + n)" using c room by simp_all
  from tag_entity_spec [OF s t, of mem i] show ?thesis unfolding DTag by fastforce
next
  case (DUntag i tag)
  then have t: "tag \<in> N" "room st n" using c room by simp_all
  have "members (if T tag = None then T else T(tag \<mapsto> members T tag - {i})) = (members T)(tag := members T tag - {i})"
    by (auto simp: members_def fun_eq_iff)
  with untag_entity_spec [OF s t(1), of i] show ?thesis unfolding DUntag using t(2) by fastforce
next
  case (DHasTag i tag)
  then have t: "tag \<in> N" "room st (18 + n)" using c room by simp_all
  from has_tag_spec [OF s t, of mem i] show ?thesis unfolding DHasTag by fastforce
next
  case (DAdd nm esize dstr i)
  then have t: "nm \<in> M" "db_legal (DAdd nm esize dstr i)" "room st (38 + n)" using c room by simp_all
  from add_component_step [OF s t, of call mem w] show ?thesis unfolding DAdd by fastforce
next
  case (DRemove nm i)
  then have t: "nm \<in> M" "id_ok i" "room st n" using c room by simp_all
  from remove_component_step [OF s t(1,2), of call mem w] show ?thesis unfolding DRemove using t(3) by fastforce
next
  case (DHas nm i)
  then have t: "nm \<in> M" "id_ok i" "room st n" using c room by simp_all
  from has_component_step [OF s t(1,2), of call mem w] show ?thesis unfolding DHas using t(3) s by fastforce
next
  case (DClearEntity i)
  then have t: "id_ok i" "room st n" using c room by simp_all
  from clear_entity_step [OF s t(1), of call mem w] show ?thesis unfolding DClearEntity using t(2) by fastforce
next
  case DNumTables
  then show ?thesis using num_tables_step [OF s] s room by fastforce
qed

lemma db_run_sim:
  assumes "dbstate (db, st) N M T C" "\<forall>c\<in>set cs. db_legal c" "\<forall>c\<in>set cs. db_tags_of c \<subseteq> N" "\<forall>c\<in>set cs. db_names_of c \<subseteq> M"
    and "room st (\<Sum>c\<leftarrow>cs. db_need c)"
  shows "\<exists>x. db_run call mem cs ((db, st), w) = Inr (fst (db_run_spec cs (members T, C)), x)"
  using assms
proof (induction cs arbitrary: db st w T C)
  case Nil
  then show ?case by simp
next
  case (Cons c cs)
  have c: "db_legal c" "db_tags_of c \<subseteq> N" "db_names_of c \<subseteq> M" "room st (db_need c + (\<Sum>c\<leftarrow>cs. db_need c))"
    using Cons.prems by simp_all
  from db_step_spec [OF Cons.prems(1) c, of call mem w] obtain db' st' w' T' C' where
    1: "db_step call mem c ((db, st), w) = Inr (fst (db_spec c (members T, C)), (db', st'), w')" "dbstate (db', st') N M T' C'"
      "snd (db_spec c (members T, C)) = (members T', C')" "room st' (\<Sum>c\<leftarrow>cs. db_need c)" by blast
  have rest: "\<forall>c\<in>set cs. db_legal c" "\<forall>c\<in>set cs. db_tags_of c \<subseteq> N" "\<forall>c\<in>set cs. db_names_of c \<subseteq> M" using Cons.prems by simp_all
  from Cons.IH [OF 1(2) rest 1(4), of w'] obtain x where
    2: "db_run call mem cs ((db', st'), w') = Inr (fst (db_run_spec cs (members T', C')), x)" by blast
  obtain out where "db_spec c (members T, C) = (out, members T', C')" using 1(3) by (metis prod.collapse)
  then show ?case using 1(1) 2 by (simp add: case_prod_unfold Let_def)
qed

lemma database_init_spec:
  assumes alloc: "p_mem_alloc (case a of Some a \<Rightarrow> a | None \<Rightarrow> g) = alloc" "p_mem_free (case a of Some a \<Rightarrow> a | None \<Rightarrow> g) = free"
    and st: "ainv st live" "live_apart live" and room: "room st (5 + n)" and S: "S 64 4096" "S 64 65536"
    and N: "inj_on hash N" "inj_on hash M"
  shows "\<exists>db st'. fdb_database_init a g mem st = Inr (db, st') \<and> dbstate (db, st') N M Map.empty Map.empty \<and> room st' n"
proof -
  let ?al = "case a of Some a \<Rightarrow> a | None \<Rightarrow> g"
  let ?a = "Some ?al"
  have al: "p_mem_alloc (case ?a of Some a \<Rightarrow> a | None \<Rightarrow> g) = alloc" "p_mem_free (case ?a of Some a \<Rightarrow> a | None \<Rightarrow> g) = free"
    using alloc by simp_all
  let ?Ps = "\<lambda>_ :: db_client. Map.empty"
  have cl: "clients ainv st ?Ps" by (rule clients_start [where ainv = ainv, OF st])
  obtain ta where ta: "fdb_pool_alloc_init 64 1048 4096 ?a g mem = Inr ta" "pool_holds alloc free ta Map.empty Map.empty"
    "pool_takes S ta 64 1048" by (rule small_pool_init [OF al S(1), of 1048 mem]) simp_all
  obtain ba where ba: "fdb_pool_alloc_init 64 552 4096 ?a g mem = Inr ba" "pool_holds alloc free ba Map.empty Map.empty"
    "pool_takes S ba 64 552" by (rule small_pool_init [OF al S(1), of 552 mem]) simp_all
  have r: "room st (Suc (Suc (Suc (Suc (Suc n)))))" using room by (simp add: eval_nat_numeral)
  from client_tree_init [where hdr = mem, OF al cl refl r S(1), of DbTags] obtain b1 st1 P1 where
    1: "fdb_btree_init ?a g mem st = Inr (b1, st1)" "btree_holds b1 []" "room st1 (Suc (Suc (Suc (Suc n))))"
      "clients ainv st1 (?Ps(DbTags := P1))" "tree_client alloc free S b1 P1" by blast
  have e: "(?Ps(DbTags := P1)) DbTables = Map.empty" by simp
  from client_tree_init [where hdr = mem, OF al 1(4) e 1(3) S(1)] obtain b2 st2 P2 where
    2: "fdb_btree_init ?a g mem st1 = Inr (b2, st2)" "btree_holds b2 []" "room st2 (Suc (Suc (Suc n)))"
      "clients ainv st2 (?Ps(DbTags := P1, DbTables := P2))" "tree_client alloc free S b2 P2" by blast
  have e: "(?Ps(DbTags := P1, DbTables := P2)) DbRefs = Map.empty" by simp
  from client_tree_init [where hdr = mem, OF al 2(4) e 2(3) S(1)] obtain b3 st3 P3 where
    3: "fdb_btree_init ?a g mem st2 = Inr (b3, st3)" "room st3 (Suc (Suc n))"
      "clients ainv st3 (?Ps(DbTags := P1, DbTables := P2, DbRefs := P3))" by blast
  have e: "(?Ps(DbTags := P1, DbTables := P2, DbRefs := P3)) DbGlobals = Map.empty" by simp
  from client_tree_init [where hdr = mem, OF al 3(3) e 3(2) S(1)] obtain b4 st4 P4 where
    4: "fdb_btree_init ?a g mem st3 = Inr (b4, st4)" "room st4 (Suc n)"
      "clients ainv st4 (?Ps(DbTags := P1, DbTables := P2, DbRefs := P3, DbGlobals := P4))" by blast
  have e: "(?Ps(DbTags := P1, DbTables := P2, DbRefs := P3, DbGlobals := P4)) (DbReg c) = Map.empty" for c by simp
  from mregistry_init_spec [where hdr = mem, OF al 4(3) inj_DbReg e 4(2) S(1)] obtain reg st5 Ps5 where
    5: "fdb_mregistry_init ?a g mem st4 = Inr (reg, st5)" "mregstate DbReg (reg, st5) Ps5" "room st5 n"
      "\<forall>c. c \<notin> range DbReg \<longrightarrow> Ps5 c = (?Ps(DbTags := P1, DbTables := P2, DbRefs := P3, DbGlobals := P4)) c" by blast
  have c: "clients ainv st5 Ps5" using 5(2) by (simp add: mreg_mem_def)
  have p: "Ps5 DbTags = P1" "Ps5 DbTables = P2" "Ps5 DbTabPool = Map.empty" "Ps5 DbBitPool = Map.empty"
    "Ps5 (DbTab q x) = Map.empty" "Ps5 (DbBit q y) = Map.empty" for q x y using 5(4) by (auto simp: image_iff)
  let ?db = "\<lparr>db_tags = b1, db_tables = b2, db_references = b3, db_globals = b4, db_mregistry = reg, db_page_allocator = ?al,
    db_table_allocator = ta, db_bittable_allocator = ba, db_global_allocator = fdb_stack_alloc_init FDB_DATABASE_GLOBAL_PAGE_SIZE ?a g,
    db_table_heap = Map.empty, db_bittable_heap = Map.empty, db_reftable_heap = Map.empty, db_global_heap = Map.empty\<rparr>"
  have run: "fdb_database_init a g mem st = Inr (?db, st5)"
    using ta(1) ba(1) 1(1) 2(1) 3(1) 4(1) 5(1)
    by (simp add: fdb_database_init_def Let_def FDB_DATABASE_TABLE_ALIGNMENT_def FDB_DATABASE_BITTABLE_ALIGNMENT_def sizeof_table_def
        sizeof_bittable_def FDB_DATABASE_TABLE_PAGE_SIZE_def FDB_DATABASE_BITTABLE_PAGE_SIZE_def)
  have "tags_shelf alloc free S Ps5 ?db N [] Map.empty"
    using ba(2,3) 1(2,5) p objects_empty [OF N(1)] by (auto simp: shelf_def slots_def sizeof_bittable_def)
  moreover have "tables_shelf alloc free S Ps5 ?db M [] Map.empty"
    using ta(2,3) 2(2,5) p objects_empty [OF N(2)] by (auto simp: shelf_def slots_def sizeof_table_def)
  ultimately have "dbstate (?db, st5) N M Map.empty Map.empty" using alloc S by (intro dbstateI [OF c]) simp_all
  then show ?thesis using run 5(3) by blast
qed

end

interpretation tag_filing: filing fdb_page_alloc_alloc fdb_page_alloc_free "page_steady S" page_room page_serves S DbTags DbBitPool DbBit
  for S by (rule steady_page.tags_filing)

interpretation table_filing: filing fdb_page_alloc_alloc fdb_page_alloc_free "page_steady S" page_room page_serves S DbTables DbTabPool DbTab
  for S by (rule steady_page.tables_filing)

text \<open>C14: The database. Over a page allocator with room, whatever a client does to tags and tables by
  their names - tagging and untagging entities, asking for tags, adding components to tables that are
  made on demand, removing them, asking for them, clearing an entity, counting tables - every call
  succeeds and returns what a map from tags to sets of ids and a map from table names to sets of ids
  return, as long as the hashes of the tags in use differ, and those of the table names in use do.
  Clearing an entity takes it out of every table and leaves its tags.\<close>

theorem database_refines_sets:
  assumes "page_inv pg live" "live_apart live" "page_room pg (5 + (\<Sum>c\<leftarrow>cs. db_need c))"
    and "page_serves pg 64 4096" "page_serves pg 64 65536" "\<forall>c\<in>set cs. db_legal c"
    and "inj_on hash (\<Union>c\<in>set cs. db_tags_of c)" "inj_on hash (\<Union>c\<in>set cs. db_names_of c)"
  shows "\<exists>db pg' x. fdb_database_init (Some fdb_page_alloc_super) g mem pg = Inr (db, pg') \<and>
    db_run call mem cs ((db, pg'), w) = Inr (fst (db_run_spec cs (\<lambda>_. {}, Map.empty)), x)"
proof -
  let ?S = "page_serves pg"
  let ?N = "\<Union>c\<in>set cs. db_tags_of c" and ?M = "\<Union>c\<in>set cs. db_names_of c"
  have al: "p_mem_alloc (case Some fdb_page_alloc_super of Some a \<Rightarrow> a | None \<Rightarrow> g) = fdb_page_alloc_alloc"
    "p_mem_free (case Some fdb_page_alloc_super of Some a \<Rightarrow> a | None \<Rightarrow> g) = fdb_page_alloc_free"
    by (simp_all add: fdb_page_alloc_super_def)
  have inv: "page_steady ?S pg live" using assms(1) by simp
  from steady_page.database_init_spec [where mem = mem, OF al inv assms(2-5,7,8)] obtain db pg' where
    d: "fdb_database_init (Some fdb_page_alloc_super) g mem pg = Inr (db, pg')"
      "steady_page.dbstate ?S (db, pg') ?N ?M Map.empty Map.empty" "page_room pg' (\<Sum>c\<leftarrow>cs. db_need c)" by blast
  have sub: "\<forall>c\<in>set cs. db_tags_of c \<subseteq> ?N" "\<forall>c\<in>set cs. db_names_of c \<subseteq> ?M" by auto
  from steady_page.db_run_sim [OF d(2) assms(6) sub d(3), of call mem w] show ?thesis using d(1) by auto
qed

theorem database_refines_sets_witness:
  "\<exists>db pg' x. fdb_database_init (Some fdb_page_alloc_super) fdb_page_alloc_super (\<lambda>_. 0) demo_db_page = Inr (db, pg') \<and>
    db_run (\<lambda>f p w. w) (\<lambda>_. 0) [DTag 3 ''vel'', DAdd ''pos'' 12 0 3, DHas ''pos'' 3, DClearEntity 3, DHas ''pos'' 3, DHasTag 3 ''vel'', DNumTables]
      ((db, pg'), \<lambda>_. 0) = Inr ([DDone, DDone, DBool True, DDone, DBool False, DBool True, DCount 1], x)"
proof -
  let ?cs = "[DTag 3 ''vel'', DAdd ''pos'' 12 0 3, DHas ''pos'' 3, DClearEntity 3, DHas ''pos'' 3, DHasTag 3 ''vel'', DNumTables]"
  have room: "page_room demo_db_page (5 + (\<Sum>c\<leftarrow>?cs. db_need c))" by (simp add: page_room_def demo_db_page_def)
  have legal: "\<forall>c\<in>set ?cs. db_legal c" by (simp add: id_ok_def FDB_INVALID_ID_def)
  have N: "inj_on hash (\<Union>c\<in>set ?cs. db_tags_of c)" by simp
  have M: "inj_on hash (\<Union>c\<in>set ?cs. db_names_of c)" by simp
  have "fst (db_run_spec ?cs (\<lambda>_. {}, Map.empty)) = [DDone, DDone, DBool True, DDone, DBool False, DBool True, DCount 1]"
    by (simp add: members_def)
  with database_refines_sets [where mem = "\<lambda>_. 0" and g = fdb_page_alloc_super and call = "\<lambda>f p w. w" and w = "\<lambda>_. 0",
      OF demo_db_page_inv(1) live_apart_empty room demo_db_page_inv(3,4) legal N M]
  show ?thesis by simp
qed

section \<open>What \<open>metadata\<close> copies\<close>

text \<open>The loop copies every name to the first entry and every size to the entry it belongs to.\<close>

lemma metadata_entries_spec:
  assumes "iter_at h it ys" "length ys < fuel" "\<forall>p\<in>snd ` set ys. p \<noteq> NULL \<and> p \<in> dom tabs"
    and "n + length ys \<le> unat capacity" "unat capacity \<le> length data"
  shows "\<exists>data'. metadata_entries fuel h it tabs capacity (of_nat n) data = Inr (of_nat (n + length ys), data') \<and>
    length data' = length data \<and> (ys \<noteq> [] \<longrightarrow> ifo_name (data' ! 0) = tb_name (the (tabs (snd (last ys))))) \<and>
    (\<forall>j<length data. 0 < j \<longrightarrow> ifo_name (data' ! j) = ifo_name (data ! j)) \<and>
    (\<forall>j<length data. ifo_size (data' ! j) =
      (if n \<le> j \<and> j < n + length ys then ucast (fdb_table_size (the (tabs (snd (ys ! (j - n)))))) else ifo_size (data ! j)))"
  using assms
proof (induction ys arbitrary: it fuel n data)
  case Nil
  then obtain f where "fuel = Suc f" by (cases fuel) auto
  then show ?case using iter_at_has_next [OF Nil(1)] by auto
next
  case (Cons e ys)
  obtain f where f: "fuel = Suc f" using Cons.prems(2) by (cases fuel) auto
  obtain k p where e: "e = (k, p)" by (cases e)
  have more: "fdb_btree_iter_has_next h it = Inr True" using iter_at_has_next [OF Cons.prems(1)] by simp
  obtain it' where it': "fdb_btree_iter_next h it = Inr (\<lparr>be_key = k, be_value = p\<rparr>, it')" "iter_at h it' ys"
    using Cons.prems(1) unfolding e by (rule iter_at_next)
  obtain t where t: "p \<noteq> NULL" "tabs p = Some t" using Cons.prems(3) e by auto
  have n: "unat (of_nat n :: u32) = n" "n < length data" "0 < length data"
    using Cons.prems(4,5) unat_u32_bound [of capacity] less_le_trans [of n "unat capacity" 4294967296]
    by (auto simp: unat_of_nat take_bit_nat_eq_self simp del: unat_u32_bound)
  have c: "(of_nat n :: u32) < capacity" using Cons.prems(4) n(1) by (simp add: word_less_nat_alt)
  let ?d1 = "data[0 := (data ! 0)\<lparr>ifo_name := tb_name t\<rparr>]"
  let ?d2 = "?d1[n := (?d1 ! n)\<lparr>ifo_size := ucast (fdb_table_size t)\<rparr>]"
  have prems: "length ys < f" "\<forall>p\<in>snd ` set ys. p \<noteq> NULL \<and> p \<in> dom tabs" "Suc n + length ys \<le> unat capacity"
    "unat capacity \<le> length ?d2" using Cons.prems f by simp_all
  from Cons.IH [OF it'(2) prems] obtain data' where
    r: "metadata_entries f h it' tabs capacity (of_nat (Suc n)) ?d2 = Inr (of_nat (Suc n + length ys), data')"
      "length data' = length ?d2" "ys \<noteq> [] \<longrightarrow> ifo_name (data' ! 0) = tb_name (the (tabs (snd (last ys))))"
      "\<forall>j<length ?d2. 0 < j \<longrightarrow> ifo_name (data' ! j) = ifo_name (?d2 ! j)"
      "\<forall>j<length ?d2. ifo_size (data' ! j) = (if Suc n \<le> j \<and> j < Suc n + length ys
         then ucast (fdb_table_size (the (tabs (snd (ys ! (j - Suc n)))))) else ifo_size (?d2 ! j))" by blast
  have run: "metadata_entries fuel h it tabs capacity (of_nat n) data = Inr (of_nat (n + length (e # ys)), data')"
    unfolding f using more it'(1) t n c r(1) by (simp add: obj_at_def rd_def wr_def add.commute)
  have l: "length data' = length data" using r(2) by simp
  have 1: "ifo_name (data' ! 0) = tb_name (the (tabs (snd (last (e # ys)))))"
  proof (cases "ys = []")
    case True
    have "data' = ?d2" using r(1) True iter_at_has_next [OF it'(2)] prems(1) by (cases f) auto
    then show ?thesis using True e t(2) n(2,3) by (simp add: nth_list_update)
  next
    case False
    then show ?thesis using r(3) by simp
  qed
  have 2: "ifo_name (data' ! j) = ifo_name (data ! j)" if "j < length data" "0 < j" for j
    using r(4) [rule_format, of j] that n(2) by (simp add: nth_list_update)
  have 3: "ifo_size (data' ! j) = (if n \<le> j \<and> j < n + length (e # ys)
      then ucast (fdb_table_size (the (tabs (snd ((e # ys) ! (j - n)))))) else ifo_size (data ! j))" if j: "j < length data" for j
  proof -
    have d1: "ifo_size (?d1 ! i) = ifo_size (data ! i)" if "i < length data" for i using that by (cases i) auto
    consider "j < n" | "j = n" | "Suc n \<le> j" by linarith
    then show ?thesis
    proof cases
      case 3
      then have "j - n = Suc (j - Suc n)" by simp
      then show ?thesis using r(5) [rule_format, of j] j 3 d1 [OF j] by simp
    qed (use r(5) [rule_format, of j] j n(2) e t(2) d1 [OF j] in auto)
  qed
  show ?case using run l 1 2 3 by blast
qed

text \<open>Metadata of tables. When the array has room for every table, the sizes of the tables are written
  in the order of the tree, one for each entry; but every name is copied to the first entry, so
  that it has the name of the last table, and the names of all other entries are left as they were.\<close>

theorem metadata_names_first:
  assumes h: "btree_holds (db_tables db) xs" "xs \<noteq> []" "length xs < fuel"
    and tabs: "\<forall>p\<in>snd ` set xs. p \<noteq> NULL \<and> p \<in> dom (db_table_heap db)"
    and cap: "length xs \<le> unat capacity" "unat capacity \<le> length data"
  shows "\<exists>data'. fdb_database_metadata fuel db data capacity = Inr (ucast (of_nat (length xs) :: u32), data') \<and> length data' = length data \<and>
    ifo_name (data' ! 0) = tb_name (the (db_table_heap db (snd (last xs)))) \<and>
    (\<forall>j<length data. 0 < j \<longrightarrow> ifo_name (data' ! j) = ifo_name (data ! j)) \<and>
    (\<forall>j<length xs. ifo_size (data' ! j) = ucast (fdb_table_size (the (db_table_heap db (snd (xs ! j))))))"
proof -
  obtain it where it: "fdb_btree_iter_init (db_tables db) = Inr it" "iter_at (bt_nodes (db_tables db)) it xs" by (rule iter_at_init [OF h(1)])
  have c: "0 + length xs \<le> unat capacity" using cap(1) by simp
  from metadata_entries_spec [OF it(2) h(3) tabs c cap(2)] obtain data' where
    r: "metadata_entries fuel (bt_nodes (db_tables db)) it (db_table_heap db) capacity (of_nat 0) data = Inr (of_nat (0 + length xs), data')"
      "length data' = length data" "ifo_name (data' ! 0) = tb_name (the (db_table_heap db (snd (last xs))))"
      "\<forall>j<length data. 0 < j \<longrightarrow> ifo_name (data' ! j) = ifo_name (data ! j)"
      "\<forall>j<length data. ifo_size (data' ! j) = (if 0 \<le> j \<and> j < 0 + length xs
         then ucast (fdb_table_size (the (db_table_heap db (snd (xs ! (j - 0)))))) else ifo_size (data ! j))" using h(2) by blast
  have "ifo_size (data' ! j) = ucast (fdb_table_size (the (db_table_heap db (snd (xs ! j)))))" if "j < length xs" for j
    using r(5) that cap by simp
  moreover have "fdb_database_metadata fuel db data capacity = Inr (ucast (of_nat (length xs) :: u32), data')"
    using it(1) r(1) by (simp add: fdb_database_metadata_def)
  ultimately show ?thesis using r(2-4) by blast
qed

theorem metadata_names_first_witness:
  "\<exists>(db :: fdb_page_alloc_t fdb_database_t) data'. fdb_database_metadata 3 db [\<lparr>ifo_name = ''x'', ifo_size = 0\<rparr>, \<lparr>ifo_name = ''y'', ifo_size = 0\<rparr>] 2 =
    Inr (2, data') \<and> ifo_name (data' ! 0) = ''vel'' \<and> ifo_name (data' ! 1) = ''y''"
proof -
  let ?S = "page_serves demo_db_page"
  have cl: "clients (page_steady ?S) demo_db_page (\<lambda>_ :: unit. Map.empty)" by (rule clients_start) (use demo_db_page_inv(1) in auto)
  have al: "p_mem_alloc (case Some fdb_page_alloc_super of Some a \<Rightarrow> a | None \<Rightarrow> fdb_page_alloc_super) = fdb_page_alloc_alloc"
    "p_mem_free (case Some fdb_page_alloc_super of Some a \<Rightarrow> a | None \<Rightarrow> fdb_page_alloc_super) = fdb_page_alloc_free"
    by (simp_all add: fdb_page_alloc_super_def)
  have room: "page_room demo_db_page (Suc (BT_NODES + (BT_NODES + 0)))" by (simp add: page_room_def demo_db_page_def BT_NODES_def)
  from steady_page.client_tree_init [where hdr = "\<lambda>_. 0", OF al cl refl room demo_db_page_inv(3), of "()"] obtain b0 pg0 P0 where
    0: "btree_holds b0 []" "page_room pg0 (BT_NODES + (BT_NODES + 0))" "clients (page_steady ?S) pg0 ((\<lambda>_. Map.empty)(() := P0))"
      "tree_client fdb_page_alloc_alloc fdb_page_alloc_free ?S b0 P0" by blast
  have t0: "tree_client fdb_page_alloc_alloc fdb_page_alloc_free ?S b0 (((\<lambda>_. Map.empty)(() := P0)) ())" using 0(4) by simp
  have v: "(64 :: ptr) \<noteq> NULL" "(128 :: ptr) \<noteq> NULL" by simp_all
  from steady_page.client_insert [OF 0(3) t0 0(2,1) v(1), of 5] obtain r1 b1 pg1 P1 where
    1: "btree_holds b1 (ins 5 64 [])" "page_room pg1 (BT_NODES + 0)" "clients (page_steady ?S) pg1 (((\<lambda>_. Map.empty)(() := P0))(() := P1))"
      "tree_client fdb_page_alloc_alloc fdb_page_alloc_free ?S b1 P1" by blast
  have t1: "tree_client fdb_page_alloc_alloc fdb_page_alloc_free ?S b1 ((((\<lambda>_. Map.empty)(() := P0))(() := P1)) ())" using 1(4) by simp
  from steady_page.client_insert [OF 1(3) t1 1(2,1) v(2), of 9] obtain b :: "fdb_page_alloc_t fdb_btree_t" where
    b: "btree_holds b [(5, 64), (9, 128)]" by auto
  fix d :: "fdb_page_alloc_t fdb_database_t" and t :: "fdb_page_alloc_t fdb_table_t"
  let ?db = "d\<lparr>db_tables := b, db_table_heap := [64 \<mapsto> t\<lparr>tb_name := ''pos''\<rparr>, 128 \<mapsto> t\<lparr>tb_name := ''vel''\<rparr>]\<rparr>"
  let ?data = "[\<lparr>ifo_name = ''x'', ifo_size = 0\<rparr>, \<lparr>ifo_name = ''y'', ifo_size = 0\<rparr>]"
  have h: "btree_holds (db_tables ?db) [(5, 64), (9, 128)]" using b by simp
  have "\<exists>data'. fdb_database_metadata 3 ?db ?data 2 = Inr (ucast (of_nat (length [(5 :: u32, 64 :: ptr), (9, 128)]) :: u32), data') \<and>
      length data' = length ?data \<and> ifo_name (data' ! 0) = tb_name (the (db_table_heap ?db (snd (last [(5 :: u32, 64), (9, 128)])))) \<and>
      (\<forall>j<length ?data. 0 < j \<longrightarrow> ifo_name (data' ! j) = ifo_name (?data ! j)) \<and>
      (\<forall>j<length [(5 :: u32, 64 :: ptr), (9, 128)]. ifo_size (data' ! j) = ucast (fdb_table_size (the (db_table_heap ?db (snd ([(5 :: u32, 64), (9, 128)] ! j))))))"
    by (rule metadata_names_first [OF h]) simp_all
  then obtain data' where r: "fdb_database_metadata 3 ?db ?data 2 = Inr (2, data')" "ifo_name (data' ! 0) = ''vel''"
    "\<And>j. j < length ?data \<Longrightarrow> 0 < j \<Longrightarrow> ifo_name (data' ! j) = ifo_name (?data ! j)" by auto
  have "ifo_name (data' ! 1) = ''y''" using r(3) [of 1] by simp
  then show ?thesis using r(1,2) by blast
qed

end
