(* ===== verification/Tx.thy ===== *)
theory Tx
  imports Memory
begin

text \<open>
  src/src/runtime/data/tx/tx.c and tx.h, the transaction manager: a doubly linked list of the
  transactions that run, in the order in which they began, a counter of ids, the id of the last
  writing transaction that committed, and the mutex that lets one writing transaction run at a time.
  The thread contexts of tx.c, which hold garbage, are in theory TxPool.

  A call of \<open>fdb_tx_begin\<close> by a writer is two steps, the lock of the writers' mutex and the critical
  section, and so is \<open>fdb_tx_commit\<close>; \<open>tx_reach\<close> interleaves the steps of all threads.
\<close>

section \<open>Doubly linked lists\<close>

text \<open>\<open>dls nx pv h p f xs l n\<close>: the objects \<open>xs\<close> of the heap \<open>h\<close> form a segment, entered at \<open>f\<close> from \<open>p\<close>
  and left at \<open>l\<close> to \<open>n\<close>.\<close>

fun dls :: "('a \<Rightarrow> ptr) \<Rightarrow> ('a \<Rightarrow> ptr) \<Rightarrow> (ptr \<rightharpoonup> 'a) \<Rightarrow> ptr \<Rightarrow> ptr \<Rightarrow> ptr list \<Rightarrow> ptr \<Rightarrow> ptr \<Rightarrow> bool" where
  "dls nx pv h p f [] l n \<longleftrightarrow> f = n \<and> l = p"
| "dls nx pv h p f (x # xs) l n \<longleftrightarrow> f = x \<and> x \<noteq> NULL \<and>
     (\<exists>t. h x = Some t \<and> pv t = p \<and> dls nx pv h x (nx t) xs l n)"

lemma dls_append:
  "dls nx pv h p f (xs @ ys) l n \<longleftrightarrow> (\<exists>q r. dls nx pv h p f xs q r \<and> dls nx pv h q r ys l n)"
  by (induction xs arbitrary: p f) auto

lemma dls_upd [simp]: "x \<notin> set xs \<Longrightarrow> dls nx pv (h(x := v)) p f xs l n = dls nx pv h p f xs l n"
  by (induction xs arbitrary: p f) (auto simp del: fun_upd_apply simp: fun_upd_other)

lemma dls_objects: "dls nx pv h p f xs l n \<Longrightarrow> x \<in> set xs \<Longrightarrow> x \<noteq> NULL \<and> h x \<noteq> None"
  by (induction xs arbitrary: p f) auto

lemma dls_hd: "dls nx pv h p f xs l n \<Longrightarrow> xs \<noteq> [] \<Longrightarrow> f = hd xs"
  by (cases xs) auto

lemma dls_first_NULL: "dls nx pv h p f xs l NULL \<Longrightarrow> f = NULL \<longleftrightarrow> xs = []"
  by (cases xs) auto

lemma dls_snoc:
  "dls nx pv h p f (xs @ [x]) l n \<longleftrightarrow>
     l = x \<and> x \<noteq> NULL \<and> (\<exists>t q. h x = Some t \<and> nx t = n \<and> pv t = q \<and> dls nx pv h p f xs q x)"
  by (auto simp: dls_append)


section \<open>State\<close>

datatype fdb_txtype_t = E_READ_ONLY | E_READ_WRITE

record fdb_tx_t =
  tx_id :: u64
  tx_txversion :: u64
  tx_ortxversion :: u64
  tx_type :: fdb_txtype_t
  tx_next :: ptr
  tx_prev :: ptr

text \<open>The static variables of tx.c and the transaction objects, which their callers own.
  \<open>tm_write_running\<close> is whether the mutex of the writers is held; \<open>m_mutex\<close> makes each critical section
  one step.\<close>

record txmgr =
  tm_first :: ptr
  tm_last :: ptr
  tm_next_id :: u64
  tm_last_write_committed_id :: u64
  tm_write_running :: bool
  tm_tx :: "ptr \<rightharpoonup> fdb_tx_t"

definition FDB_TX_INVALID_ID :: u64 where "FDB_TX_INVALID_ID = 0"

definition tx_at :: "txmgr \<Rightarrow> ptr \<Rightarrow> fdb_tx_t res" where
  "tx_at m p = (if p = NULL then Inl NullDeref
     else case tm_tx m p of None \<Rightarrow> Inl BadPointer | Some t \<Rightarrow> Inr t)"

text \<open>A write to some fields of a transaction object.\<close>

definition tx_put :: "txmgr \<Rightarrow> ptr \<Rightarrow> (fdb_tx_t \<Rightarrow> fdb_tx_t) \<Rightarrow> txmgr res" where
  "tx_put m p f = bind_res (tx_at m p) (\<lambda>t. Inr (m\<lparr>tm_tx := (tm_tx m)(p \<mapsto> f t)\<rparr>))"

section \<open>Operations\<close>

definition fdb_tx_init :: "(ptr \<rightharpoonup> fdb_tx_t) \<Rightarrow> txmgr" where
  "fdb_tx_init objects = \<lparr>tm_first = NULL, tm_last = NULL, tm_next_id = 1,
     tm_last_write_committed_id = 0, tm_write_running = False, tm_tx = objects\<rparr>"

definition fdb_tx_release :: "txmgr \<Rightarrow> txmgr" where
  "fdb_tx_release m = m\<lparr>tm_next_id := 1, tm_last_write_committed_id := 0, tm_first := NULL,
     tm_last := NULL, tm_write_running := False\<rparr>"

text \<open>The lock of the writers' mutex; \<open>None\<close> is a call that waits.\<close>

definition lock_writer :: "fdb_txtype_t \<Rightarrow> txmgr \<Rightarrow> txmgr option" where
  "lock_writer txtype m =
     (if txtype = E_READ_WRITE
      then if tm_write_running m then None else Some (m\<lparr>tm_write_running := True\<rparr>)
      else Some m)"

text \<open>The critical section of \<open>fdb_tx_begin\<close>.\<close>

definition tx_enter :: "txmgr \<Rightarrow> ptr \<Rightarrow> fdb_txtype_t \<Rightarrow> txmgr res" where
  "tx_enter m tx txtype =
     (if tx = NULL then Inl NullDeref else
      let m1 = m\<lparr>tm_next_id := tm_next_id m + 1,
                 tm_tx := (tm_tx m)(tx \<mapsto> \<lparr>tx_id = tm_next_id m,
                    tx_txversion = tm_last_write_committed_id m, tx_ortxversion = 0,
                    tx_type = txtype, tx_next = NULL, tx_prev = NULL\<rparr>)\<rparr>
      in bind_res (if txtype = E_READ_WRITE then tx_put m1 tx (\<lambda>t. t\<lparr>tx_txversion := tx_id t\<rparr>) else Inr m1)
           (\<lambda>m2.
         if tm_first m2 = NULL then
           bind_res (tx_put m2 tx (\<lambda>t. t\<lparr>tx_ortxversion := tm_last_write_committed_id m2\<rparr>))
             (\<lambda>m3. Inr (m3\<lparr>tm_first := tx, tm_last := tx\<rparr>))
         else
           bind_res (tx_at m2 (tm_first m2)) (\<lambda>first.
           bind_res (tx_put m2 tx (\<lambda>t. t\<lparr>tx_ortxversion := tx_txversion first\<rparr>)) (\<lambda>m3.
           bind_res (tx_put m3 (tm_last m3) (\<lambda>t. t\<lparr>tx_next := tx\<rparr>)) (\<lambda>m4.
           bind_res (tx_put m4 tx (\<lambda>t. t\<lparr>tx_prev := tm_last m4\<rparr>)) (\<lambda>m5.
           Inr (m5\<lparr>tm_last := tx\<rparr>)))))))"

definition fdb_tx_begin :: "txmgr \<Rightarrow> ptr \<Rightarrow> fdb_txtype_t \<Rightarrow> txmgr option res" where
  "fdb_tx_begin m tx txtype =
     (case lock_writer txtype m of None \<Rightarrow> Inr None
      | Some m \<Rightarrow> bind_res (tx_enter m tx txtype) (\<lambda>m. Inr (Some m)))"

text \<open>The critical section of \<open>fdb_tx_commit\<close>.\<close>

definition tx_leave :: "txmgr \<Rightarrow> ptr \<Rightarrow> txmgr res" where
  "tx_leave m tx =
     bind_res (tx_at m tx) (\<lambda>t.
     bind_res (if tx_prev t \<noteq> NULL then tx_put m (tx_prev t) (\<lambda>u. u\<lparr>tx_next := tx_next t\<rparr>) else Inr m) (\<lambda>m.
     bind_res (tx_at m tx) (\<lambda>t.
     bind_res (if tx_next t \<noteq> NULL then tx_put m (tx_next t) (\<lambda>u. u\<lparr>tx_prev := tx_prev t\<rparr>) else Inr m) (\<lambda>m.
     bind_res (tx_at m tx) (\<lambda>t.
     let m = (if tx_type t = E_READ_WRITE \<and> tm_last_write_committed_id m < tx_id t
              then m\<lparr>tm_last_write_committed_id := tx_id t\<rparr> else m);
         m = (if tm_first m = tx then m\<lparr>tm_first := tx_next t\<rparr> else m);
         m = (if tm_last m = tx then m\<lparr>tm_last := tx_prev t\<rparr> else m)
     in tx_put m tx (\<lambda>t. t\<lparr>tx_next := NULL, tx_prev := NULL\<rparr>))))))"

definition unlock_writer :: "fdb_txtype_t \<Rightarrow> txmgr \<Rightarrow> txmgr" where
  "unlock_writer txtype m =
     (if txtype = E_READ_WRITE then m\<lparr>tm_write_running := False\<rparr> else m)"

definition fdb_tx_commit :: "txmgr \<Rightarrow> ptr \<Rightarrow> txmgr res" where
  "fdb_tx_commit m tx =
     bind_res (tx_leave m tx) (\<lambda>m. bind_res (tx_at m tx) (\<lambda>t. Inr (unlock_writer (tx_type t) m)))"

text \<open>The first critical section of \<open>fdb_txthread_ctx_gc\<close>: the version up to which it collects.\<close>

definition oldest_running_version :: "txmgr \<Rightarrow> u64 res" where
  "oldest_running_version m =
     (if tm_first m \<noteq> NULL then bind_res (tx_at m (tm_first m)) (\<lambda>t. Inr (tx_txversion t))
      else Inr (tm_last_write_committed_id m))"

section \<open>Interleaved steps\<close>

text \<open>Where the writer is: no one holds the writers' mutex; someone has locked it and has not entered;
  the writing transaction runs; it has left and not unlocked yet.\<close>

datatype wphase = W_FREE | W_HELD | W_IN ptr | W_OUT

text \<open>\<open>tx_reach n m ph xs\<close>: after \<open>n\<close> calls of begin the manager can be in state \<open>m\<close> while the
  transactions \<open>xs\<close> run, in the order in which they entered. A caller begins with an object that is
  not in use and commits what it has begun.\<close>

inductive tx_reach :: "nat \<Rightarrow> txmgr \<Rightarrow> wphase \<Rightarrow> ptr list \<Rightarrow> bool" where
  tx_init: "tx_reach 0 (fdb_tx_init objects) W_FREE []"
| tx_lock: "\<lbrakk>tx_reach n m ph xs; lock_writer E_READ_WRITE m = Some m'\<rbrakk> \<Longrightarrow> tx_reach n m' W_HELD xs"
| tx_begin_write: "\<lbrakk>tx_reach n m W_HELD xs; tx \<notin> set xs; tx_enter m tx E_READ_WRITE = Inr m'\<rbrakk>
    \<Longrightarrow> tx_reach (Suc n) m' (W_IN tx) (xs @ [tx])"
| tx_begin_read: "\<lbrakk>tx_reach n m ph xs; tx \<notin> set xs; tx_enter m tx E_READ_ONLY = Inr m'\<rbrakk>
    \<Longrightarrow> tx_reach (Suc n) m' ph (xs @ [tx])"
| tx_commit: "\<lbrakk>tx_reach n m ph xs; tx \<in> set xs; tx_leave m tx = Inr m'\<rbrakk>
    \<Longrightarrow> tx_reach n m' (if ph = W_IN tx then W_OUT else ph) (remove1 tx xs)"
| tx_unlock: "tx_reach n m W_OUT xs \<Longrightarrow> tx_reach n (unlock_writer E_READ_WRITE m) W_FREE xs"

section \<open>The invariant\<close>

abbreviation tx_of :: "txmgr \<Rightarrow> ptr \<Rightarrow> fdb_tx_t" where "tx_of m x \<equiv> the (tm_tx m x)"

abbreviation tx_list :: "txmgr \<Rightarrow> ptr list \<Rightarrow> bool" where
  "tx_list m xs \<equiv> dls tx_next tx_prev (tm_tx m) NULL (tm_first m) xs (tm_last m) NULL"

text \<open>What a transaction in phase \<open>ph\<close> knows of the versions: a reader sees a committed version, the
  writer its own, which is the newest.\<close>

definition tx_fresh :: "txmgr \<Rightarrow> wphase \<Rightarrow> ptr \<Rightarrow> fdb_tx_t \<Rightarrow> bool" where
  "tx_fresh m ph x t \<longleftrightarrow> tx_id t \<noteq> FDB_TX_INVALID_ID \<and> tx_id t < tm_next_id m \<and>
     (if tx_type t = E_READ_WRITE
      then ph = W_IN x \<and> tx_txversion t = tx_id t \<and> tm_last_write_committed_id m < tx_id t \<and>
        tx_ortxversion t \<le> tm_last_write_committed_id m
      else ph \<noteq> W_IN x \<and> tx_txversion t \<le> tm_last_write_committed_id m)"

text \<open>Of two transactions, the earlier has the smaller id, and unless it is the writer it does not see
  a newer version; the version the writer collects up to is seen by every transaction that runs.\<close>

definition tx_before :: "fdb_tx_t \<Rightarrow> fdb_tx_t \<Rightarrow> bool" where
  "tx_before t u \<longleftrightarrow> tx_id t < tx_id u \<and> (tx_type t = E_READ_ONLY \<longrightarrow> tx_txversion t \<le> tx_txversion u)"

definition tx_inv :: "txmgr \<Rightarrow> wphase \<Rightarrow> ptr list \<Rightarrow> bool" where
  "tx_inv m ph xs \<longleftrightarrow> tx_list m xs \<and> distinct xs \<and> tm_last_write_committed_id m < tm_next_id m \<and>
     (tm_write_running m \<longleftrightarrow> ph \<noteq> W_FREE) \<and> (\<forall>x. ph = W_IN x \<longrightarrow> x \<in> set xs) \<and>
     (\<forall>x\<in>set xs. tx_fresh m ph x (tx_of m x)) \<and>
     sorted_wrt (\<lambda>x y. tx_before (tx_of m x) (tx_of m y)) xs \<and>
     (\<forall>x\<in>set xs. \<forall>y\<in>set xs. ph = W_IN x \<longrightarrow> tx_ortxversion (tx_of m x) \<le> tx_txversion (tx_of m y))"

text \<open>All of a transaction object but its links.\<close>

definition tx_core :: "fdb_tx_t \<Rightarrow> u64 \<times> u64 \<times> u64 \<times> fdb_txtype_t" where
  "tx_core t = (tx_id t, tx_txversion t, tx_ortxversion t, tx_type t)"

lemma tx_core_links [simp]: "tx_core (t\<lparr>tx_next := a\<rparr>) = tx_core t" "tx_core (t\<lparr>tx_prev := a\<rparr>) = tx_core t"
  by (simp_all add: tx_core_def)

lemma tx_fresh_core: "tx_core t = tx_core u \<Longrightarrow> tx_fresh m ph x t = tx_fresh m ph x u"
  by (simp add: tx_core_def tx_fresh_def)

lemma tx_before_core: "tx_core t = tx_core t' \<Longrightarrow> tx_core u = tx_core u' \<Longrightarrow> tx_before t u = tx_before t' u'"
  by (simp add: tx_core_def tx_before_def)

section \<open>What begin and commit do\<close>

lemma tx_at_in: "tx_list m xs \<Longrightarrow> x \<in> set xs \<Longrightarrow> tx_at m x = Inr (tx_of m x)"
  by (auto dest!: dls_objects simp: tx_at_def split: option.splits)

lemma tx_put_at: "tx_at m p = Inr t \<Longrightarrow> tx_put m p f = Inr (m\<lparr>tm_tx := (tm_tx m)(p \<mapsto> f t)\<rparr>)"
  by (simp add: tx_put_def)

lemma tx_at_upd: "p \<noteq> NULL \<Longrightarrow> tx_at (m\<lparr>tm_tx := (tm_tx m)(p \<mapsto> t)\<rparr>) q =
    (if q = p then Inr t else tx_at m q)"
  by (simp add: tx_at_def)

lemma tx_enter_effect:
  assumes l: "tx_list m xs" and d: "distinct xs" and x: "x \<noteq> NULL" "x \<notin> set xs"
  shows "\<exists>m'. tx_enter m x ty = Inr m' \<and> tx_list m' (xs @ [x]) \<and>
    tm_next_id m' = tm_next_id m + 1 \<and> tm_last_write_committed_id m' = tm_last_write_committed_id m \<and>
    tm_write_running m' = tm_write_running m \<and>
    tx_core (tx_of m' x) = (tm_next_id m,
      if ty = E_READ_WRITE then tm_next_id m else tm_last_write_committed_id m,
      if xs = [] then tm_last_write_committed_id m else tx_txversion (tx_of m (hd xs)), ty) \<and>
    (\<forall>y\<in>set xs. tx_core (tx_of m' y) = tx_core (tx_of m y))"
proof (cases xs rule: rev_cases)
  case Nil
  with l x show ?thesis
    by (simp add: tx_enter_def tx_put_def tx_at_def Let_def tx_core_def)
next
  case (snoc ys q)
  define f where "f = tm_first m"
  from snoc l have last: "tm_last m = q" "q \<noteq> NULL" by (auto simp: dls_snoc)
  from snoc l have f: "f \<noteq> NULL" "f = hd xs" using dls_first_NULL [OF l] dls_hd [OF l] by (auto simp: f_def)
  have fin: "f \<in> set xs" unfolding f(2) by (rule hd_in_set) (simp add: snoc)
  have fx: "f \<in> set xs" "f \<noteq> x" "q \<in> set xs" "q \<noteq> x" using fin x(2) snoc by auto
  obtain tf where tf: "tm_tx m f = Some tf" using dls_objects [OF l fx(1)] by auto
  obtain tq where tq: "tm_tx m q = Some tq" "tx_next tq = NULL" "dls tx_next tx_prev (tm_tx m) NULL f ys (tx_prev tq) q"
    using l unfolding snoc f_def by (auto simp: dls_snoc)
  have q: "q \<notin> set ys" using d snoc by simp
  have xy: "x \<notin> set ys" using x snoc by simp
  define t where "t = \<lparr>tx_id = tm_next_id m,
    tx_txversion = (if ty = E_READ_WRITE then tm_next_id m else tm_last_write_committed_id m),
    tx_ortxversion = tx_txversion tf, tx_type = ty, tx_next = NULL, tx_prev = q\<rparr>"
  define h where "h = (tm_tx m)(q \<mapsto> tq\<lparr>tx_next := x\<rparr>, x \<mapsto> t)"
  define m' where "m' = m\<lparr>tm_next_id := tm_next_id m + 1, tm_tx := h, tm_last := x\<rparr>"
  have run: "tx_enter m x ty = Inr m'"
    using x fx f tf tq last
    by (simp add: tx_enter_def tx_put_def tx_at_def Let_def f_def [symmetric] m'_def h_def t_def fun_upd_twist)
  have "dls tx_next tx_prev h NULL f ys (tx_prev tq) q" using tq(3) q xy by (simp add: h_def)
  then have "tx_list m' (xs @ [x])"
    using x last fx(4) unfolding snoc by (simp add: dls_append dls_snoc m'_def h_def t_def f_def)
  moreover have "\<forall>y\<in>set xs. tx_core (tx_of m' y) = tx_core (tx_of m y)"
    using tq(1) x by (auto simp: m'_def h_def)
  ultimately show ?thesis using run snoc f tf fx
    by (intro exI [of _ m']) (auto simp: m'_def h_def t_def tx_core_def)
qed

lemma tx_leave_effect:
  assumes l: "tx_list m xs" and d: "distinct xs" and x: "x \<in> set xs"
  shows "\<exists>m'. tx_leave m x = Inr m' \<and> tx_list m' (remove1 x xs) \<and> tm_next_id m' = tm_next_id m \<and>
    tm_last_write_committed_id m' =
      (if tx_type (tx_of m x) = E_READ_WRITE \<and> tm_last_write_committed_id m < tx_id (tx_of m x)
       then tx_id (tx_of m x) else tm_last_write_committed_id m) \<and>
    tm_write_running m' = tm_write_running m \<and>
    (\<forall>y. tm_tx m' y \<noteq> None \<longleftrightarrow> tm_tx m y \<noteq> None) \<and>
    (\<forall>y. tm_tx m y \<noteq> None \<longrightarrow> tx_core (tx_of m' y) = tx_core (tx_of m y))"
proof -
  from x obtain as bs where xs: "xs = as @ x # bs" using split_list by metis
  have ni: "x \<notin> set as" "x \<notin> set bs" "distinct as" "distinct bs" "set as \<inter> set bs = {}" using d xs by auto
  have rm: "remove1 x xs = as @ bs" using ni by (simp add: xs remove1_append)
  obtain t where t: "tm_tx m x = Some t" "x \<noteq> NULL"
    and A: "dls tx_next tx_prev (tm_tx m) NULL (tm_first m) as (tx_prev t) x"
    and B: "dls tx_next tx_prev (tm_tx m) x (tx_next t) bs (tm_last m) NULL"
    using l unfolding xs by (auto simp: dls_append)
  define h1 where "h1 = (if as = [] then tm_tx m
    else (tm_tx m)(last as \<mapsto> (tx_of m (last as))\<lparr>tx_next := tx_next t\<rparr>))"
  define h2 where "h2 = (if bs = [] then h1 else h1(hd bs \<mapsto> (tx_of m (hd bs))\<lparr>tx_prev := tx_prev t\<rparr>))"
  have p: "tx_prev t = (if as = [] then NULL else last as)"
    using A by (cases as rule: rev_cases) (auto simp: dls_snoc)
  have n: "tx_next t = (if bs = [] then NULL else hd bs)" using B by (cases bs) auto
  have la: "as \<noteq> [] \<Longrightarrow> last as \<in> set as" "bs \<noteq> [] \<Longrightarrow> hd bs \<in> set bs" by auto
  have pa: "as \<noteq> [] \<Longrightarrow> last as \<noteq> NULL \<and> tm_tx m (last as) \<noteq> None \<and> last as \<noteq> x"
    using dls_objects [OF A la(1)] la ni by auto
  have nb: "bs \<noteq> [] \<Longrightarrow> hd bs \<noteq> NULL \<and> tm_tx m (hd bs) \<noteq> None \<and> hd bs \<noteq> x \<and> (as \<noteq> [] \<longrightarrow> hd bs \<noteq> last as)"
    using dls_objects [OF B la(2)] la ni(1,2) disjoint_iff [THEN iffD1, OF ni(5)] by metis
  have A1: "dls tx_next tx_prev h1 NULL (if as = [] then tx_next t else tm_first m) as (tx_prev t) (tx_next t)"
  proof (cases as rule: rev_cases)
    case Nil then show ?thesis using p by (simp add: h1_def)
  next
    case (snoc as' a)
    then show ?thesis using A ni pa by (auto simp: dls_snoc h1_def)
  qed
  have A2: "dls tx_next tx_prev h2 NULL (if as = [] then tx_next t else tm_first m) as (tx_prev t) (tx_next t)"
  proof (cases bs)
    case (Cons b bs')
    then show ?thesis using A1 ni by (simp add: h2_def)
  qed (use A1 in \<open>simp add: h2_def\<close>)
  have B2: "dls tx_next tx_prev h2 (tx_prev t) (tx_next t) bs (if bs = [] then tx_prev t else tm_last m) NULL"
  proof (cases bs)
    case Nil then show ?thesis using n by simp
  next
    case (Cons b bs')
    have "as \<noteq> [] \<Longrightarrow> last as \<notin> set bs" using la(1) ni(5) by blast
    then have "dls tx_next tx_prev h1 x (tx_next t) bs (tm_last m) NULL" using B by (simp add: h1_def)
    moreover have "h1 b = tm_tx m b" using nb Cons by (auto simp: h1_def)
    ultimately show ?thesis using ni by (auto simp: Cons h2_def)
  qed
  define u where "u = t\<lparr>tx_next := NULL, tx_prev := NULL\<rparr>"
  have dl: "dls tx_next tx_prev (h2(x \<mapsto> u)) NULL (if as = [] then tx_next t else tm_first m) (as @ bs)
      (if bs = [] then tx_prev t else tm_last m) NULL"
    unfolding dls_append using A2 B2 ni by (intro exI conjI) simp_all
  define m' where "m' = m\<lparr>tm_tx := h2(x \<mapsto> u),
    tm_first := (if as = [] then tx_next t else tm_first m),
    tm_last := (if bs = [] then tx_prev t else tm_last m),
    tm_last_write_committed_id := (if tx_type t = E_READ_WRITE \<and> tm_last_write_committed_id m < tx_id t
       then tx_id t else tm_last_write_committed_id m)\<rparr>"
  have fx: "tm_first m = x \<longleftrightarrow> as = []" using A t ni by (cases as) auto
  have lx: "tm_last m = x \<longleftrightarrow> bs = []" using B t ni by (cases bs rule: rev_cases) (auto simp: dls_snoc)
  have s1: "(if tx_prev t \<noteq> NULL then tx_put m (tx_prev t) (\<lambda>u. u\<lparr>tx_next := tx_next t\<rparr>) else Inr m)
      = Inr (m\<lparr>tm_tx := h1\<rparr>)"
    using p pa by (auto simp: tx_put_def tx_at_def h1_def)
  have h1x: "h1 x = Some t" using t pa by (cases "as = []") (auto simp: h1_def)
  have h1b: "bs \<noteq> [] \<Longrightarrow> h1 (hd bs) = tm_tx m (hd bs)" using nb by (cases "as = []") (auto simp: h1_def)
  have s2: "(if tx_next t \<noteq> NULL then tx_put (m\<lparr>tm_tx := h1\<rparr>) (tx_next t) (\<lambda>u. u\<lparr>tx_prev := tx_prev t\<rparr>)
      else Inr (m\<lparr>tm_tx := h1\<rparr>)) = Inr (m\<lparr>tm_tx := h2\<rparr>)"
    using n nb h1b by (auto simp: tx_put_def tx_at_def h2_def)
  have h2x: "h2 x = Some t" using h1x nb by (cases "bs = []") (auto simp: h2_def)
  have at: "tx_at m x = Inr t" "tx_at (m\<lparr>tm_tx := h1\<rparr>) x = Inr t" "tx_at (m\<lparr>tm_tx := h2\<rparr>) x = Inr t"
    using t h1x h2x by (simp_all add: tx_at_def)
  have run: "tx_leave m x = Inr m'"
    unfolding tx_leave_def at(1) bind_res.simps s1 at(2) s2 at(3)
    using t h2x fx lx by (simp add: Let_def tx_put_def tx_at_def m'_def u_def)
  have core: "tm_tx m y \<noteq> None \<Longrightarrow> tx_core (tx_of m' y) = tx_core (tx_of m y)" for y
    using t by (auto simp: m'_def h2_def h1_def u_def tx_core_def)
  have dom: "tm_tx m' y \<noteq> None \<longleftrightarrow> tm_tx m y \<noteq> None" for y
  proof -
    have "h1 y \<noteq> None \<longleftrightarrow> tm_tx m y \<noteq> None" using pa by (cases "as = []") (auto simp: h1_def)
    then have "h2 y \<noteq> None \<longleftrightarrow> tm_tx m y \<noteq> None" using nb by (cases "bs = []") (auto simp: h2_def)
    then show ?thesis using t by (simp add: m'_def)
  qed
  have "tx_list m' (remove1 x xs)" using dl by (simp add: m'_def rm)
  moreover have "tm_next_id m' = tm_next_id m" "tm_write_running m' = tm_write_running m"
    "tm_last_write_committed_id m' =
      (if tx_type (tx_of m x) = E_READ_WRITE \<and> tm_last_write_committed_id m < tx_id (tx_of m x)
       then tx_id (tx_of m x) else tm_last_write_committed_id m)"
    using t by (simp_all add: m'_def)
  ultimately show ?thesis using run core dom by blast
qed

section \<open>The invariant is kept\<close>

lemma tx_inv_init: "tx_inv (fdb_tx_init objects) W_FREE []"
  by (simp add: tx_inv_def fdb_tx_init_def)

lemma sorted_wrt_remove1: "sorted_wrt R xs \<Longrightarrow> sorted_wrt R (remove1 x xs)"
proof (induction xs)
  case (Cons y ys)
  then show ?case using set_remove1_subset [of x ys] by auto
qed simp

lemma sorted_wrt_cong_on: "sorted_wrt R xs \<Longrightarrow> (\<And>x y. x \<in> set xs \<Longrightarrow> y \<in> set xs \<Longrightarrow> R x y \<Longrightarrow> R' x y) \<Longrightarrow> sorted_wrt R' xs"
  by (induction xs) auto

lemma tx_inv_lock:
  assumes "tx_inv m ph xs" "lock_writer E_READ_WRITE m = Some m'"
  shows "tx_inv m' W_HELD xs \<and> ph = W_FREE"
proof -
  have m': "m' = m\<lparr>tm_write_running := True\<rparr>" "ph = W_FREE"
    using assms by (auto simp: lock_writer_def tx_inv_def split: if_splits)
  moreover have "tx_fresh (m\<lparr>tm_write_running := True\<rparr>) W_HELD x t = tx_fresh m W_FREE x t" for x t
    by (simp add: tx_fresh_def)
  ultimately show ?thesis using assms(1) by (simp add: tx_inv_def)
qed

lemma tx_inv_unlock: "tx_inv m W_OUT xs \<Longrightarrow> tx_inv (unlock_writer E_READ_WRITE m) W_FREE xs"
proof -
  assume a: "tx_inv m W_OUT xs"
  have "tx_fresh (m\<lparr>tm_write_running := False\<rparr>) W_FREE x t = tx_fresh m W_OUT x t" for x t
    by (simp add: tx_fresh_def)
  with a show ?thesis by (simp add: tx_inv_def unlock_writer_def)
qed

lemma fresh_version: "tx_fresh m ph x t \<Longrightarrow> tx_txversion t \<le> tm_last_write_committed_id m \<or> ph = W_IN x"
  by (auto simp: tx_fresh_def split: if_splits)

text \<open>Without a writer among them, the first transaction sees the oldest version.\<close>

lemma head_oldest:
  assumes "sorted_wrt (\<lambda>x y. tx_before (tx_of m x) (tx_of m y)) xs" "y \<in> set xs"
    and "tx_type (tx_of m (hd xs)) = E_READ_ONLY"
  shows "tx_txversion (tx_of m (hd xs)) \<le> tx_txversion (tx_of m y)"
  using assms by (cases xs) (auto simp: tx_before_def)

lemma u64_less_succ:
  fixes n :: u64
  assumes "n + 1 \<noteq> 0" shows "n < n + 1"
proof -
  have "unat n + 1 \<noteq> 2 ^ 64"
  proof
    assume "unat n + 1 = 2 ^ 64"
    then have "unat (n + 1) = 0" by (simp add: unat_word_ariths)
    with assms show False by (simp add: unat_eq_0)
  qed
  then have "unat (n + 1) = unat n + 1" using unat_lt_2p [of n] by (subst unat_add_no_wrap) simp_all
  then show ?thesis by (simp add: word_less_nat_alt)
qed

lemma writer_free_head:
  assumes "\<forall>x\<in>set xs. tx_fresh m W_HELD x (tx_of m x)" "xs \<noteq> []"
  shows "tx_type (tx_of m (hd xs)) = E_READ_ONLY"
    "tx_txversion (tx_of m (hd xs)) \<le> tm_last_write_committed_id m"
proof -
  have "tx_fresh m W_HELD (hd xs) (tx_of m (hd xs))" using assms by simp
  then show "tx_type (tx_of m (hd xs)) = E_READ_ONLY"
    "tx_txversion (tx_of m (hd xs)) \<le> tm_last_write_committed_id m"
    by (cases "tx_type (tx_of m (hd xs))"; auto simp: tx_fresh_def split: if_splits)+
qed

lemma tx_inv_enter:
  assumes inv: "tx_inv m ph xs" and x: "x \<noteq> NULL" "x \<notin> set xs" and wrap: "tm_next_id m + 1 \<noteq> 0"
    and ty: "ty = E_READ_WRITE \<longrightarrow> ph = W_HELD" and ph': "ph' = (if ty = E_READ_WRITE then W_IN x else ph)"
  shows "\<exists>m'. tx_enter m x ty = Inr m' \<and> tx_inv m' ph' (xs @ [x]) \<and> tm_next_id m' = tm_next_id m + 1"
proof -
  have l: "tx_list m xs" and d: "distinct xs" and c: "tm_last_write_committed_id m < tm_next_id m"
    and w: "tm_write_running m \<longleftrightarrow> ph \<noteq> W_FREE" and ph: "\<forall>x. ph = W_IN x \<longrightarrow> x \<in> set xs"
    and fr: "\<forall>x\<in>set xs. tx_fresh m ph x (tx_of m x)"
    and so: "sorted_wrt (\<lambda>x y. tx_before (tx_of m x) (tx_of m y)) xs"
    and ort: "\<forall>x\<in>set xs. \<forall>y\<in>set xs. ph = W_IN x \<longrightarrow> tx_ortxversion (tx_of m x) \<le> tx_txversion (tx_of m y)"
    using inv unfolding tx_inv_def by blast+
  obtain m' where m': "tx_enter m x ty = Inr m'" "tx_list m' (xs @ [x])" "tm_next_id m' = tm_next_id m + 1"
      "tm_last_write_committed_id m' = tm_last_write_committed_id m" "tm_write_running m' = tm_write_running m"
    and tx: "tx_core (tx_of m' x) = (tm_next_id m,
      if ty = E_READ_WRITE then tm_next_id m else tm_last_write_committed_id m,
      if xs = [] then tm_last_write_committed_id m else tx_txversion (tx_of m (hd xs)), ty)"
    and old: "\<forall>y\<in>set xs. tx_core (tx_of m' y) = tx_core (tx_of m y)"
    using tx_enter_effect [OF l d x, of ty] by blast
  have nx: "tm_next_id m < tm_next_id m + 1" "tm_next_id m \<noteq> 0"
    using wrap c by (auto simp: u64_less_succ)
  have mono: "tx_fresh m ph y t \<Longrightarrow> y \<in> set xs \<Longrightarrow> tx_fresh m' ph' y t" for y t
    using nx(1) m' x(2) ty by (auto simp: tx_fresh_def ph' split: if_splits)
  have new: "tx_fresh m' ph' x (tx_of m' x)"
  proof (cases "ty = E_READ_WRITE \<and> xs \<noteq> []")
    case True
    then have "tx_txversion (tx_of m (hd xs)) \<le> tm_last_write_committed_id m"
      using writer_free_head [of xs m] fr ty by simp
    then show ?thesis using tx nx c m' True by (simp add: tx_fresh_def tx_core_def FDB_TX_INVALID_ID_def ph')
  next
    case False
    then show ?thesis using tx nx c m' ph x(2)
      by (auto simp: tx_fresh_def tx_core_def FDB_TX_INVALID_ID_def ph' split: if_splits)
  qed
  have fr': "\<forall>y\<in>set (xs @ [x]). tx_fresh m' ph' y (tx_of m' y)"
    using mono fr new old by (auto simp: tx_fresh_core [OF old [rule_format]])
  have bef: "tx_before (tx_of m' y) (tx_of m' x)" if y: "y \<in> set xs" for y
  proof -
    have "tx_fresh m ph y (tx_of m y)" using fr y by blast
    then show ?thesis using tx old y c
      by (auto simp: tx_core_def tx_before_def tx_fresh_def split: if_splits)
  qed
  have so': "sorted_wrt (\<lambda>x y. tx_before (tx_of m' x) (tx_of m' y)) (xs @ [x])"
    unfolding sorted_wrt_append using bef
    by (auto intro!: sorted_wrt_cong_on [OF so] simp: tx_before_core [OF old [rule_format] old [rule_format]])
  have ort': "tx_ortxversion (tx_of m' a) \<le> tx_txversion (tx_of m' b)"
    if ab: "a \<in> set (xs @ [x])" "b \<in> set (xs @ [x])" "ph' = W_IN a" for a b
  proof (cases "ty = E_READ_WRITE")
    case True
    then have a: "a = x" and held: "ph = W_HELD" using ab(3) ph' ty by auto
    show ?thesis
    proof (cases "xs = []")
      case True
      then show ?thesis using ab a tx c \<open>ty = _\<close> by (auto simp: tx_core_def)
    next
      case False
      note head = writer_free_head [OF fr [unfolded held] False]
      show ?thesis
      proof (cases "b = x")
        case True
        then show ?thesis using a tx c head False \<open>ty = _\<close> by (auto simp: tx_core_def)
      next
        case b: False
        then have "b \<in> set xs" using ab by simp
        then show ?thesis using head_oldest [OF so _ head(1)] a tx old False by (auto simp: tx_core_def)
      qed
    qed
  next
    case False
    then have W: "ph = W_IN a" "a \<in> set xs" using ab(3) ph' ph by auto
    then have "tx_ortxversion (tx_of m a) \<le> tm_last_write_committed_id m"
      using fr by (auto simp: tx_fresh_def split: if_splits)
    then show ?thesis using W ab(2) ort old tx False by (auto simp: tx_core_def)
  qed
  have "tm_last_write_committed_id m' < tm_next_id m'" using c nx m' by simp
  then have "tx_inv m' ph' (xs @ [x])"
    unfolding tx_inv_def using m' d x w ph ty fr' so' ort' by (auto simp: ph')
  then show ?thesis using m' by blast
qed

lemma tx_inv_leave:
  assumes inv: "tx_inv m ph xs" and x: "x \<in> set xs"
  shows "\<exists>m'. tx_leave m x = Inr m' \<and> tx_inv m' (if ph = W_IN x then W_OUT else ph) (remove1 x xs) \<and>
    tm_next_id m' = tm_next_id m"
proof -
  have l: "tx_list m xs" and d: "distinct xs" and c: "tm_last_write_committed_id m < tm_next_id m"
    and w: "tm_write_running m \<longleftrightarrow> ph \<noteq> W_FREE" and ph: "\<forall>x. ph = W_IN x \<longrightarrow> x \<in> set xs"
    and fr: "\<forall>x\<in>set xs. tx_fresh m ph x (tx_of m x)"
    and so: "sorted_wrt (\<lambda>x y. tx_before (tx_of m x) (tx_of m y)) xs"
    and ort: "\<forall>x\<in>set xs. \<forall>y\<in>set xs. ph = W_IN x \<longrightarrow> tx_ortxversion (tx_of m x) \<le> tx_txversion (tx_of m y)"
    using inv unfolding tx_inv_def by blast+
  define ph' where "ph' = (if ph = W_IN x then W_OUT else ph)"
  obtain m' where m': "tx_leave m x = Inr m'" "tx_list m' (remove1 x xs)" "tm_next_id m' = tm_next_id m"
      "tm_write_running m' = tm_write_running m"
    and lc: "tm_last_write_committed_id m' =
      (if tx_type (tx_of m x) = E_READ_WRITE \<and> tm_last_write_committed_id m < tx_id (tx_of m x)
       then tx_id (tx_of m x) else tm_last_write_committed_id m)"
    and dom: "\<forall>y. tm_tx m' y \<noteq> None \<longleftrightarrow> tm_tx m y \<noteq> None"
    and old: "\<forall>y. tm_tx m y \<noteq> None \<longrightarrow> tx_core (tx_of m' y) = tx_core (tx_of m y)"
    using tx_leave_effect [OF l d x] by blast
  have core: "tx_core (tx_of m' y) = tx_core (tx_of m y)" if "y \<in> set xs" for y
    using old dls_objects [OF l that] by blast
  have sub: "y \<in> set xs \<and> y \<noteq> x" if "y \<in> set (remove1 x xs)" for y
    using that d by (simp add: set_remove1_eq)
  have fx: "tx_fresh m ph x (tx_of m x)" using fr x by blast
  have lc': "tm_last_write_committed_id m' = (if ph = W_IN x then tx_id (tx_of m x) else tm_last_write_committed_id m)"
    using fx lc by (auto simp: tx_fresh_def split: if_splits)
  have fr': "tx_fresh m' ph' y (tx_of m' y)" if y: "y \<in> set (remove1 x xs)" for y
  proof -
    have "tx_fresh m ph y (tx_of m y)" "y \<noteq> x" using fr sub [OF y] by auto
    then have "tx_fresh m' ph' y (tx_of m y)"
      using fx lc' m' by (auto simp: tx_fresh_def ph'_def split: if_splits)
    then show ?thesis using tx_fresh_core [OF core] sub [OF y] by blast
  qed
  have so': "sorted_wrt (\<lambda>x y. tx_before (tx_of m' x) (tx_of m' y)) (remove1 x xs)"
    by (rule sorted_wrt_cong_on [OF sorted_wrt_remove1 [OF so]])
      (use sub tx_before_core [OF core core] in blast)
  have ort': "tx_ortxversion (tx_of m' a) \<le> tx_txversion (tx_of m' b)"
    if "a \<in> set (remove1 x xs)" "b \<in> set (remove1 x xs)" "ph' = W_IN a" for a b
  proof -
    have "ph = W_IN a" using that by (auto simp: ph'_def split: if_splits)
    then have "tx_ortxversion (tx_of m a) \<le> tx_txversion (tx_of m b)" using ort sub that by blast
    moreover have "tx_core (tx_of m' a) = tx_core (tx_of m a)" "tx_core (tx_of m' b) = tx_core (tx_of m b)"
      using core sub that by blast+
    ultimately show ?thesis by (simp add: tx_core_def)
  qed
  have "tm_last_write_committed_id m' < tm_next_id m'"
    using lc' c fx m' by (auto simp: tx_fresh_def)
  moreover have "\<forall>y. ph' = W_IN y \<longrightarrow> y \<in> set (remove1 x xs)"
    using ph d by (auto simp: ph'_def set_remove1_eq)
  moreover have "tm_write_running m' \<longleftrightarrow> ph' \<noteq> W_FREE" using w m' by (auto simp: ph'_def)
  ultimately have "tx_inv m' ph' (remove1 x xs)"
    unfolding tx_inv_def using m'(2) d fr' so' ort' by (simp add: distinct_remove1)
  then show ?thesis using m' by (auto simp: ph'_def)
qed

lemma next_id_small:
  assumes "Suc n < 2 ^ 64 - 1" shows "(of_nat (Suc n) :: u64) + 1 \<noteq> 0"
proof -
  have "unat (of_nat (Suc (Suc n)) :: u64) = Suc (Suc n)"
    using assms by (simp add: unat_of_nat take_bit_nat_eq_self del: of_nat_Suc)
  then have "(of_nat (Suc (Suc n)) :: u64) \<noteq> 0" by (metis Zero_not_Suc unat_0)
  then show ?thesis by (simp add: add.commute)
qed

lemma tx_reach_inv:
  "tx_reach n m ph xs \<Longrightarrow> n < 2 ^ 64 - 1 \<Longrightarrow> tx_inv m ph xs \<and> tm_next_id m = of_nat (Suc n)"
proof (induction rule: tx_reach.induct)
  case (tx_init objects)
  show ?case by (simp add: tx_inv_init) (simp add: fdb_tx_init_def)
next
  case (tx_lock n m ph xs m')
  then show ?case using tx_inv_lock [of m ph xs m'] by (auto simp: lock_writer_def split: if_splits)
next
  case (tx_begin_write n m xs tx m')
  then have i: "tx_inv m W_HELD xs" "tm_next_id m = of_nat (Suc n)" by simp_all
  have "tx \<noteq> NULL" using tx_begin_write.hyps(3) by (auto simp: tx_enter_def)
  then obtain m'' where "tx_enter m tx E_READ_WRITE = Inr m''" "tx_inv m'' (W_IN tx) (xs @ [tx])" "tm_next_id m'' = tm_next_id m + 1"
    using tx_inv_enter [OF i(1) _ tx_begin_write.hyps(2), of E_READ_WRITE "W_IN tx"] next_id_small [OF tx_begin_write.prems] i(2) by auto
  then show ?case using tx_begin_write.hyps(3) i(2) by simp
next
  case (tx_begin_read n m ph xs tx m')
  then have i: "tx_inv m ph xs" "tm_next_id m = of_nat (Suc n)" by simp_all
  have "tx \<noteq> NULL" using tx_begin_read.hyps(3) by (auto simp: tx_enter_def)
  then obtain m'' where "tx_enter m tx E_READ_ONLY = Inr m''" "tx_inv m'' ph (xs @ [tx])" "tm_next_id m'' = tm_next_id m + 1"
    using tx_inv_enter [OF i(1) _ tx_begin_read.hyps(2), of E_READ_ONLY ph] next_id_small [OF tx_begin_read.prems] i(2) by auto
  then show ?case using tx_begin_read.hyps(3) i(2) by simp
next
  case (tx_commit n m ph xs tx m')
  then show ?case using tx_inv_leave [of m ph xs tx] by auto
next
  case (tx_unlock n m xs)
  then show ?case using tx_inv_unlock [of m xs] by (simp add: unlock_writer_def)
qed

section \<open>Whole calls from reached states\<close>

lemma begin_step:
  assumes r: "tx_reach n m ph xs" and n: "n < 2 ^ 64 - 2" and x: "x \<noteq> NULL" "x \<notin> set xs"
    and ty: "ty = E_READ_WRITE \<longrightarrow> ph = W_FREE"
  shows "\<exists>m'. fdb_tx_begin m x ty = Inr (Some m') \<and>
    tx_reach (Suc n) m' (if ty = E_READ_WRITE then W_IN x else ph) (xs @ [x]) \<and>
    tm_last_write_committed_id m' = tm_last_write_committed_id m \<and>
    tx_txversion (tx_of m' x) = (if ty = E_READ_WRITE then tm_next_id m else tm_last_write_committed_id m) \<and>
    (\<forall>y\<in>set xs. tx_core (tx_of m' y) = tx_core (tx_of m y))"
proof -
  have n1: "n < 2 ^ 64 - 1" using n by simp
  note inv = tx_reach_inv [OF r n1]
  have wrap: "tm_next_id m + 1 \<noteq> 0" using inv next_id_small [of n] n by simp
  define m1 where "m1 = (if ty = E_READ_WRITE then m\<lparr>tm_write_running := True\<rparr> else m)"
  define ph1 where "ph1 = (if ty = E_READ_WRITE then W_HELD else ph)"
  have lk: "lock_writer ty m = Some m1"
    using ty inv by (auto simp: lock_writer_def tx_inv_def m1_def)
  have r1: "tx_reach n m1 ph1 xs"
    using tx_lock [OF r, of m1] lk r by (cases ty) (auto simp: m1_def ph1_def)
  have l: "tx_list m1 xs" "distinct xs" using tx_reach_inv [OF r1 n1] by (simp_all add: tx_inv_def)
  have same: "tx_of m1 y = tx_of m y" "tm_next_id m1 = tm_next_id m"
    "tm_last_write_committed_id m1 = tm_last_write_committed_id m" for y by (simp_all add: m1_def)
  from tx_enter_effect [OF l x, of ty] obtain m' where m': "tx_enter m1 x ty = Inr m'"
    "tm_last_write_committed_id m' = tm_last_write_committed_id m"
    "tx_txversion (tx_of m' x) = (if ty = E_READ_WRITE then tm_next_id m else tm_last_write_committed_id m)"
    "\<forall>y\<in>set xs. tx_core (tx_of m' y) = tx_core (tx_of m y)"
    unfolding same by (auto simp: tx_core_def)
  have "tx_reach (Suc n) m' (if ty = E_READ_WRITE then W_IN x else ph) (xs @ [x])"
    using tx_begin_write [of n m1 xs x m'] tx_begin_read [of n m1 ph1 xs x m'] r1 x(2) m'(1)
    by (cases ty) (simp_all add: ph1_def)
  moreover have "fdb_tx_begin m x ty = Inr (Some m')" using lk m'(1) by (simp add: fdb_tx_begin_def)
  ultimately show ?thesis using m' by blast
qed

lemma begin_waits: "tx_inv m ph xs \<Longrightarrow> ph \<noteq> W_FREE \<Longrightarrow> fdb_tx_begin m tx E_READ_WRITE = Inr None"
  by (simp add: fdb_tx_begin_def lock_writer_def tx_inv_def)

lemma commit_step:
  assumes r: "tx_reach n m ph xs" and n: "n < 2 ^ 64 - 1" and x: "x \<in> set xs"
  shows "\<exists>m'. fdb_tx_commit m x = Inr m' \<and> tx_reach n m' (if ph = W_IN x then W_FREE else ph) (remove1 x xs) \<and>
    tm_last_write_committed_id m' = (if ph = W_IN x then tx_txversion (tx_of m x) else tm_last_write_committed_id m) \<and>
    (\<forall>y\<in>set xs. tx_core (tx_of m' y) = tx_core (tx_of m y))"
proof -
  have inv: "tx_inv m ph xs" using tx_reach_inv [OF r n] ..
  have l: "tx_list m xs" "distinct xs" "tx_fresh m ph x (tx_of m x)" using inv x by (auto simp: tx_inv_def)
  obtain m1 where m1: "tx_leave m x = Inr m1" and lc: "tm_last_write_committed_id m1 =
      (if tx_type (tx_of m x) = E_READ_WRITE \<and> tm_last_write_committed_id m < tx_id (tx_of m x)
       then tx_id (tx_of m x) else tm_last_write_committed_id m)"
    and dom: "\<forall>y. tm_tx m1 y \<noteq> None \<longleftrightarrow> tm_tx m y \<noteq> None"
    and core: "\<forall>y. tm_tx m y \<noteq> None \<longrightarrow> tx_core (tx_of m1 y) = tx_core (tx_of m y)"
    using tx_leave_effect [OF l(1,2) x] by blast
  have t: "x \<noteq> NULL" "tm_tx m x \<noteq> None" using dls_objects [OF l(1) x] by auto
  then have m1x: "tm_tx m1 x \<noteq> None" "tx_core (tx_of m1 x) = tx_core (tx_of m x)" using dom core by blast+
  then have at: "tx_at m1 x = Inr (tx_of m1 x)" "tx_type (tx_of m1 x) = tx_type (tx_of m x)"
    using t by (auto simp: tx_at_def tx_core_def)
  have core': "\<forall>y\<in>set xs. tx_core (tx_of m1 y) = tx_core (tx_of m y)" using core dls_objects [OF l(1)] by blast
  note r1 = tx_commit [OF r x m1]
  show ?thesis
  proof (cases "ph = W_IN x")
    case True
    then have ty: "tx_type (tx_of m x) = E_READ_WRITE" "tx_txversion (tx_of m x) = tx_id (tx_of m x)"
      "tm_last_write_committed_id m < tx_id (tx_of m x)"
      using l(3) by (auto simp: tx_fresh_def split: if_splits)
    define m2 where "m2 = unlock_writer E_READ_WRITE m1"
    have "fdb_tx_commit m x = Inr m2" using m1 at ty by (simp add: fdb_tx_commit_def m2_def)
    moreover have "tx_reach n m2 W_FREE (remove1 x xs)" using tx_unlock [of n m1 "remove1 x xs"] r1 True by (simp add: m2_def)
    moreover have "tm_last_write_committed_id m2 = tx_id (tx_of m x)" "tm_tx m2 = tm_tx m1"
      using lc ty by (simp_all add: m2_def unlock_writer_def)
    ultimately show ?thesis using True ty core' by (intro exI [of _ m2]) simp
  next
    case False
    then have "tx_type (tx_of m x) = E_READ_ONLY"
      using l(3) by (cases "tx_type (tx_of m x)") (auto simp: tx_fresh_def)
    then show ?thesis using r1 False m1 at lc core' by (intro exI [of _ m1]) (simp add: fdb_tx_commit_def unlock_writer_def)
  qed
qed

section \<open>Properties\<close>

text \<open>C2: Whatever the threads do (fewer than \<open>2^64 - 1\<close> transactions, each begun with an object that is
  not in use and committed once), the manager keeps its invariant: the running transactions are linked
  both ways in the order of their ids, at most one of them writes, a reader sees a version that was
  committed, the writer sees its own newer version, and the version a writer collects up to is one
  that every running transaction sees. In such a state no call goes wrong: a reader always begins, a
  writer begins unless another one holds the writers' mutex, in which case it waits, and every running
  transaction can commit.\<close>

theorem tx_reach_sound:
  assumes "tx_reach n m ph xs" "n < 2 ^ 64 - 2"
  shows "tx_inv m ph xs \<and>
    (\<forall>tx. tx \<noteq> NULL \<and> tx \<notin> set xs \<longrightarrow>
      (\<exists>m'. fdb_tx_begin m tx E_READ_ONLY = Inr (Some m') \<and> tx_reach (Suc n) m' ph (xs @ [tx])) \<and>
      (if ph = W_FREE
       then \<exists>m'. fdb_tx_begin m tx E_READ_WRITE = Inr (Some m') \<and> tx_reach (Suc n) m' (W_IN tx) (xs @ [tx])
       else fdb_tx_begin m tx E_READ_WRITE = Inr None)) \<and>
    (\<forall>tx\<in>set xs. \<exists>m'. fdb_tx_commit m tx = Inr m' \<and>
      tx_reach n m' (if ph = W_IN tx then W_FREE else ph) (remove1 tx xs))"
proof (intro conjI allI impI ballI)
  have n: "n < 2 ^ 64 - 1" using assms(2) by simp
  show inv: "tx_inv m ph xs" using tx_reach_inv [OF assms(1) n] ..
  fix tx
  show "\<exists>m'. fdb_tx_begin m tx E_READ_ONLY = Inr (Some m') \<and> tx_reach (Suc n) m' ph (xs @ [tx])"
    if "tx \<noteq> NULL \<and> tx \<notin> set xs"
    using begin_step [OF assms, of tx E_READ_ONLY] that by auto
  show "if ph = W_FREE
       then \<exists>m'. fdb_tx_begin m tx E_READ_WRITE = Inr (Some m') \<and> tx_reach (Suc n) m' (W_IN tx) (xs @ [tx])
       else fdb_tx_begin m tx E_READ_WRITE = Inr None"
    if "tx \<noteq> NULL \<and> tx \<notin> set xs"
    using begin_step [OF assms, of tx E_READ_WRITE] begin_waits [OF inv] that by auto
  show "\<exists>m'. fdb_tx_commit m tx = Inr m' \<and> tx_reach n m' (if ph = W_IN tx then W_FREE else ph) (remove1 tx xs)"
    if "tx \<in> set xs"
    using commit_step [OF assms(1) n that] by blast
qed

text \<open>A state that is reached: a writer begins and then a reader begins.\<close>

definition demo_writer_first :: txmgr where
  "demo_writer_first = \<lparr>tm_first = 100, tm_last = 200, tm_next_id = 3, tm_last_write_committed_id = 0,
     tm_write_running = True,
     tm_tx = [100 \<mapsto> \<lparr>tx_id = 1, tx_txversion = 1, tx_ortxversion = 0, tx_type = E_READ_WRITE,
                       tx_next = 200, tx_prev = 0\<rparr>,
              200 \<mapsto> \<lparr>tx_id = 2, tx_txversion = 0, tx_ortxversion = 1, tx_type = E_READ_ONLY,
                       tx_next = 0, tx_prev = 100\<rparr>]\<rparr>"

lemma demo_writer_first_reach: "tx_reach 2 demo_writer_first (W_IN 100) [100, 200]"
proof -
  have 1: "tx_reach 0 (fdb_tx_init Map.empty) W_FREE []" by (rule tx_init)
  have 2: "tx_reach 0 ((fdb_tx_init Map.empty)\<lparr>tm_write_running := True\<rparr>) W_HELD []"
    by (rule tx_lock [OF 1]) (simp add: lock_writer_def fdb_tx_init_def)
  have 3: "tx_reach (Suc 0) (fdb_tx_init Map.empty\<lparr>tm_write_running := True, tm_first := 100, tm_last := 100,
     tm_next_id := 2, tm_tx := [100 \<mapsto> \<lparr>tx_id = 1, tx_txversion = 1, tx_ortxversion = 0,
       tx_type = E_READ_WRITE, tx_next = 0, tx_prev = 0\<rparr>]\<rparr>) (W_IN 100) ([] @ [100])"
    by (rule tx_begin_write [OF 2]) (simp_all add: tx_enter_def fdb_tx_init_def tx_put_def tx_at_def Let_def)
  have "tx_reach (Suc (Suc 0)) demo_writer_first (W_IN 100) (([] @ [100]) @ [200])"
    by (rule tx_begin_read [OF 3])
      (simp_all add: tx_enter_def fdb_tx_init_def tx_put_def tx_at_def Let_def demo_writer_first_def fun_upd_twist)
  then show ?thesis by (simp add: numeral_2_eq_2)
qed

theorem tx_reach_sound_witness:
  "tx_inv demo_writer_first (W_IN 100) [100, 200] \<and>
   fdb_tx_begin demo_writer_first 300 E_READ_WRITE = Inr None \<and>
   (\<exists>m. fdb_tx_commit demo_writer_first 100 = Inr m \<and> tx_reach 2 m W_FREE [200])"
  using tx_reach_sound [OF demo_writer_first_reach] by simp

text \<open>C8: The version up to which \<open>fdb_txthread_ctx_gc\<close> collects is that of the transaction that began
  first. It is one that every running transaction sees if and only if the writer is not the first of
  several. A writer that began before the readers has a newer version than they see; what the
  collection then drops is what they read.\<close>

theorem gc_version_safe_iff:
  assumes "tx_reach n m ph xs" "n < 2 ^ 64 - 1"
  shows "\<exists>v. oldest_running_version m = Inr v \<and>
    ((\<forall>x\<in>set xs. v \<le> tx_txversion (tx_of m x)) \<longleftrightarrow> \<not> (\<exists>w r rs. ph = W_IN w \<and> xs = w # r # rs)) \<and>
    (xs = [] \<longrightarrow> v = tm_last_write_committed_id m)"
proof -
  have inv: "tx_inv m ph xs" using tx_reach_inv [OF assms] ..
  then have l: "tx_list m xs" and d: "distinct xs" and fr: "\<forall>x\<in>set xs. tx_fresh m ph x (tx_of m x)"
    and so: "sorted_wrt (\<lambda>x y. tx_before (tx_of m x) (tx_of m y)) xs" by (auto simp: tx_inv_def)
  show ?thesis
  proof (cases xs)
    case Nil
    then show ?thesis using dls_first_NULL [OF l] by (simp add: oldest_running_version_def)
  next
    case (Cons x ys)
    have f: "tm_first m = x" "x \<noteq> NULL" using l Cons by auto
    have v: "oldest_running_version m = Inr (tx_txversion (tx_of m x))"
      using f tx_at_in [OF l, of x] Cons by (simp add: oldest_running_version_def)
    have fx: "tx_fresh m ph x (tx_of m x)" using fr Cons by simp
    show ?thesis
    proof (cases "ph = W_IN x \<and> ys \<noteq> []")
      case True
      then obtain r rs where ys: "ys = r # rs" by (cases ys) auto
      have "tx_fresh m ph r (tx_of m r)" "r \<noteq> x" using fr d Cons ys by auto
      then have "tx_txversion (tx_of m r) \<le> tm_last_write_committed_id m"
        "tm_last_write_committed_id m < tx_txversion (tx_of m x)"
        using True fx by (auto simp: tx_fresh_def split: if_splits)
      then have "\<not> tx_txversion (tx_of m x) \<le> tx_txversion (tx_of m r)" by simp
      then show ?thesis using v Cons ys True by auto
    next
      case False
      have "tx_txversion (tx_of m x) \<le> tx_txversion (tx_of m y)" if "y \<in> set xs" for y
      proof (cases "ph = W_IN x")
        case True
        then show ?thesis using False that Cons by simp
      next
        case F: False
        then have "tx_type (tx_of m (hd xs)) = E_READ_ONLY"
          using fx Cons by (cases "tx_type (tx_of m x)") (auto simp: tx_fresh_def)
        then show ?thesis using head_oldest [OF so that] Cons by simp
      qed
      then show ?thesis using v Cons False by auto
    qed
  qed
qed

theorem gc_version_safe_iff_witness:
  "oldest_running_version demo_writer_first = Inr 1 \<and>
   \<not> (\<forall>x\<in>set [100, 200]. 1 \<le> tx_txversion (tx_of demo_writer_first x))"
proof -
  have "oldest_running_version demo_writer_first = Inr 1"
    by (simp add: oldest_running_version_def demo_writer_first_def tx_at_def)
  then show ?thesis using gc_version_safe_iff [OF demo_writer_first_reach] by auto
qed

end
