(* ===== verification/TxPool.thy ===== *)
theory TxPool
  imports Tx Clients
begin

text \<open>
  src/src/runtime/data/tx/txpool\_allocator.c and the thread contexts of tx.c: a pool of objects with
  versions. A reference points to a root block; a block has the version that made it, a pointer to its
  data (NULL when the object is deleted or not there yet) and the next older version. The newest
  version is the one behind the root, the root itself is the oldest. Reading looks for the newest
  version that a transaction may see; the first write of a transaction copies the newest version;
  collecting garbage drops the versions no running transaction sees and copies the last one that is
  left into the root. Blocks that others may still read go into a list of the thread context and are
  freed when that is collected.

  The blocks and the data of a pool are maps from addresses in its record; the data of one object is
  the list of its bytes. Reading or freeing an address that is not live is an error of the model, so a
  property that excludes errors excludes use after free and double free.
\<close>

section \<open>State\<close>

record fdb_txpool_alloc_block_t =
  vb_ts :: u64
  vb_data :: ptr
  vb_next :: ptr

record 'st fdb_txpool_alloc_t =
  tp_data_palloc :: "'st fdb_pool_alloc_t"
  tp_block_palloc :: "'st fdb_pool_alloc_t"
  tp_data_size :: u32
  tp_data_alignment :: u32
  tp_blocks :: "ptr \<rightharpoonup> fdb_txpool_alloc_block_t"
  tp_data :: "ptr \<rightharpoonup> u8 list"
  tp_raw :: "ptr \<Rightarrow> u8 list"   \<comment> \<open>what is found in memory that is handed out\<close>

record fdb_txgarbage_t =
  gb_palloc :: ptr
  gb_block :: ptr
  gb_next :: ptr
  gb_prev :: ptr
  gb_release :: bool

record 'st fdb_txthread_ctx_t =
  tc_palloc :: "'st fdb_pool_alloc_t"
  tc_first :: ptr
  tc_entries :: "ptr \<rightharpoonup> fdb_txgarbage_t"

text \<open>A call that may allocate works on a pool, a thread context and the state of the allocator below.\<close>

type_synonym 'st txs = "'st fdb_txpool_alloc_t \<times> 'st fdb_txthread_ctx_t \<times> 'st"

definition sizeof_txblock :: u32 where "sizeof_txblock = 24"
definition sizeof_txgarbage :: u32 where "sizeof_txgarbage = 40"
definition FDB_TX_GC_PAGE_SIZE :: u32 where "FDB_TX_GC_PAGE_SIZE = 4 * 1024"

definition zero_txblock :: fdb_txpool_alloc_block_t where
  "zero_txblock = \<lparr>vb_ts = 0, vb_data = NULL, vb_next = NULL\<rparr>"

definition txblock_at :: "'st fdb_txpool_alloc_t \<Rightarrow> ptr \<Rightarrow> fdb_txpool_alloc_block_t res" where
  "txblock_at pl p = (if p = NULL then Inl NullDeref
     else case tp_blocks pl p of None \<Rightarrow> Inl BadPointer | Some b \<Rightarrow> Inr b)"

definition txblock_put ::
  "'st fdb_txpool_alloc_t \<Rightarrow> ptr \<Rightarrow> (fdb_txpool_alloc_block_t \<Rightarrow> fdb_txpool_alloc_block_t) \<Rightarrow>
   'st fdb_txpool_alloc_t res" where
  "txblock_put pl p f = bind_res (txblock_at pl p) (\<lambda>b. Inr (pl\<lparr>tp_blocks := (tp_blocks pl)(p \<mapsto> f b)\<rparr>))"

definition txdata_at :: "'st fdb_txpool_alloc_t \<Rightarrow> ptr \<Rightarrow> u8 list res" where
  "txdata_at pl p = (if p = NULL then Inl NullDeref
     else case tp_data pl p of None \<Rightarrow> Inl BadPointer | Some d \<Rightarrow> Inr d)"

text \<open>\<open>memcpy\<close> of \<open>m_data_size\<close> bytes between two objects.\<close>

definition txdata_copy :: "'st fdb_txpool_alloc_t \<Rightarrow> ptr \<Rightarrow> ptr \<Rightarrow> 'st fdb_txpool_alloc_t res" where
  "txdata_copy pl dst src = bind_res (txdata_at pl src) (\<lambda>s. bind_res (txdata_at pl dst) (\<lambda>d.
     let n = unat (tp_data_size pl) in Inr (pl\<lparr>tp_data := (tp_data pl)(dst \<mapsto> take n s @ drop n d)\<rparr>)))"

text \<open>A block from the pool of blocks, cleared; an object from the pool of data.\<close>

definition new_txblock :: "'st fdb_txpool_alloc_t \<times> 'st \<Rightarrow> (ptr \<times> ('st fdb_txpool_alloc_t \<times> 'st)) res" where
  "new_txblock ps = (let (pl, st) = ps;
       (p, (pa, st)) = fdb_pool_alloc_alloc (tp_block_palloc pl, st) FDB_MIN_ALIGNMENT sizeof_txblock FDB_NO_HINT
     in if p = NULL then Inl NullDeref
        else Inr (p, (pl\<lparr>tp_block_palloc := pa, tp_blocks := (tp_blocks pl)(p \<mapsto> zero_txblock)\<rparr>, st)))"

definition new_txdata :: "'st fdb_txpool_alloc_t \<times> 'st \<Rightarrow> u32 \<Rightarrow> ptr \<times> ('st fdb_txpool_alloc_t \<times> 'st)" where
  "new_txdata ps hint = (let (pl, st) = ps;
       (p, (pa, st)) = fdb_pool_alloc_alloc (tp_data_palloc pl, st) (tp_data_alignment pl) (tp_data_size pl) hint
     in (p, (pl\<lparr>tp_data_palloc := pa, tp_data := (tp_data pl)(p \<mapsto> tp_raw pl p)\<rparr>, st)))"

text \<open>Giving them back; \<open>fdb_pool_alloc_free\<close> writes into what it gets.\<close>

definition free_txblock :: "'st fdb_txpool_alloc_t \<times> 'st \<Rightarrow> ptr \<Rightarrow> ('st fdb_txpool_alloc_t \<times> 'st) res" where
  "free_txblock ps p = (let (pl, st) = ps in bind_res (txblock_at pl p) (\<lambda>b.
     let (pa, st) = fdb_pool_alloc_free (tp_block_palloc pl, st) p
     in Inr (pl\<lparr>tp_block_palloc := pa, tp_blocks := (tp_blocks pl)(p := None)\<rparr>, st)))"

definition free_txdata :: "'st fdb_txpool_alloc_t \<times> 'st \<Rightarrow> ptr \<Rightarrow> ('st fdb_txpool_alloc_t \<times> 'st) res" where
  "free_txdata ps p = (let (pl, st) = ps in bind_res (txdata_at pl p) (\<lambda>b.
     let (pa, st) = fdb_pool_alloc_free (tp_data_palloc pl, st) p
     in Inr (pl\<lparr>tp_data_palloc := pa, tp_data := (tp_data pl)(p := None)\<rparr>, st)))"

section \<open>Thread contexts\<close>

definition fdb_txthread_ctx_init ::
  "'st fdb_mem_allocator_t option \<Rightarrow> 'st fdb_mem_allocator_t \<Rightarrow> (ptr \<Rightarrow> ptr) \<Rightarrow> 'st fdb_txthread_ctx_t res" where
  "fdb_txthread_ctx_init allocator gallocator hdr =
     bind_res (fdb_pool_alloc_init FDB_MIN_ALIGNMENT sizeof_txgarbage FDB_TX_GC_PAGE_SIZE allocator gallocator hdr)
       (\<lambda>pa. Inr \<lparr>tc_palloc = pa, tc_first = NULL, tc_entries = Map.empty\<rparr>)"

definition fdb_txthread_ctx_release ::
  "nat \<Rightarrow> 'st fdb_txthread_ctx_t \<times> 'st \<Rightarrow> ('st fdb_txthread_ctx_t \<times> 'st) res" where
  "fdb_txthread_ctx_release fuel cs = (let (tc, st) = cs in
     bind_res (fdb_pool_alloc_release fuel (tc_palloc tc, st)) (\<lambda>(pa, st).
       Inr (tc\<lparr>tc_palloc := pa, tc_entries := Map.empty\<rparr>, st)))"

definition garbage_at :: "'st fdb_txthread_ctx_t \<Rightarrow> ptr \<Rightarrow> fdb_txgarbage_t res" where
  "garbage_at tc p = (if p = NULL then Inl NullDeref
     else case tc_entries tc p of None \<Rightarrow> Inl BadPointer | Some g \<Rightarrow> Inr g)"

definition garbage_put ::
  "'st fdb_txthread_ctx_t \<Rightarrow> ptr \<Rightarrow> (fdb_txgarbage_t \<Rightarrow> fdb_txgarbage_t) \<Rightarrow> 'st fdb_txthread_ctx_t res" where
  "garbage_put tc p f = bind_res (garbage_at tc p) (\<lambda>g. Inr (tc\<lparr>tc_entries := (tc_entries tc)(p \<mapsto> f g)\<rparr>))"

definition fdb_txthread_ctx_add_entry ::
  "'st fdb_txthread_ctx_t \<times> 'st \<Rightarrow> ptr \<Rightarrow> ptr \<Rightarrow> ('st fdb_txthread_ctx_t \<times> 'st) res" where
  "fdb_txthread_ctx_add_entry cs palloc block = (let (tc, st) = cs;
       (entry, (pa, st)) = fdb_pool_alloc_alloc (tc_palloc tc, st) FDB_MIN_ALIGNMENT sizeof_txgarbage FDB_NO_HINT
     in if entry = NULL then Inl NullDeref else
        let tc = tc\<lparr>tc_palloc := pa, tc_entries := (tc_entries tc)(entry \<mapsto>
              \<lparr>gb_palloc = NULL, gb_block = NULL, gb_next = NULL, gb_prev = NULL, gb_release = False\<rparr>)\<rparr> in
        bind_res (if tc_first tc \<noteq> NULL
                  then bind_res (garbage_put tc (tc_first tc) (\<lambda>g. g\<lparr>gb_prev := entry\<rparr>))
                         (\<lambda>tc. garbage_put tc entry (\<lambda>g. g\<lparr>gb_next := tc_first tc\<rparr>))
                  else Inr tc) (\<lambda>tc.
        bind_res (garbage_put (tc\<lparr>tc_first := entry\<rparr>) entry (\<lambda>g. g\<lparr>gb_palloc := palloc, gb_block := block\<rparr>))
          (\<lambda>tc. Inr (tc, st))))"

section \<open>Collecting the versions of one reference\<close>

text \<open>Both loops that free versions: the data of a block, if any, then the block.\<close>

fun free_versions ::
  "nat \<Rightarrow> 'st fdb_txpool_alloc_t \<times> 'st \<Rightarrow> ptr \<Rightarrow> ('st fdb_txpool_alloc_t \<times> 'st) res" where
  "free_versions 0 ps p = Inl OutOfFuel"
| "free_versions (Suc fuel) ps p = (if p = NULL then Inr ps else
     bind_res (txblock_at (fst ps) p) (\<lambda>b.
     bind_res (if vb_data b \<noteq> NULL then free_txdata ps (vb_data b) else Inr ps) (\<lambda>ps.
     bind_res (free_txblock ps p) (\<lambda>ps. free_versions fuel ps (vb_next b)))))"

text \<open>The newest version from \<open>p\<close> on that is not newer than \<open>v\<close>, or NULL.\<close>

fun seek_version :: "nat \<Rightarrow> 'st fdb_txpool_alloc_t \<Rightarrow> u64 \<Rightarrow> ptr \<Rightarrow> ptr res" where
  "seek_version 0 pl v p = Inl OutOfFuel"
| "seek_version (Suc fuel) pl v p = (if p = NULL then Inr NULL else
     bind_res (txblock_at pl p) (\<lambda>b. if v < vb_ts b then seek_version fuel pl v (vb_next b) else Inr p))"

definition gc_older :: "nat \<Rightarrow> 'st fdb_txpool_alloc_t \<times> 'st \<Rightarrow> u64 \<Rightarrow> ptr \<Rightarrow> ('st fdb_txpool_alloc_t \<times> 'st) res" where
  "gc_older fuel ps orv root = (let (pl, st) = ps in
     bind_res (txblock_at pl root) (\<lambda>r.
     bind_res (seek_version fuel pl orv (vb_next r)) (\<lambda>p.
     if p \<noteq> NULL then
       bind_res (txblock_at pl p) (\<lambda>b.
       bind_res (txblock_put pl p (\<lambda>b. b\<lparr>vb_next := NULL\<rparr>)) (\<lambda>pl.
       free_versions fuel (pl, st) (vb_next b)))
     else Inr (pl, st))))"

definition root_data ::
  "'st fdb_txpool_alloc_t \<times> 'st \<Rightarrow> ptr \<Rightarrow> fdb_txpool_alloc_block_t \<Rightarrow> ('st fdb_txpool_alloc_t \<times> 'st) res" where
  "root_data ps root r = (if vb_data r = NULL
     then let (d, (pl, st)) = new_txdata ps FDB_NO_HINT
          in bind_res (txblock_put pl root (\<lambda>b. b\<lparr>vb_data := d\<rparr>)) (\<lambda>pl. Inr (pl, st))
     else Inr ps)"

text \<open>The data of the only version \<open>yb\<close> that is left becomes the data of the root \<open>r\<close>.\<close>

definition collapse_data ::
  "'st fdb_txpool_alloc_t \<times> 'st \<Rightarrow> ptr \<Rightarrow> fdb_txpool_alloc_block_t \<Rightarrow> fdb_txpool_alloc_block_t \<Rightarrow>
   ('st fdb_txpool_alloc_t \<times> 'st) res" where
  "collapse_data ps root r yb = (let (pl, st) = ps in
     if vb_data yb \<noteq> NULL then
       bind_res (root_data (pl, st) root r) (\<lambda>(pl, st).
       bind_res (txblock_at pl root) (\<lambda>r.
       bind_res (txdata_copy pl (vb_data r) (vb_data yb)) (\<lambda>pl. Inr (pl, st))))
     else
       bind_res (free_txdata (pl, st) (vb_data r)) (\<lambda>(pl, st).
       bind_res (txblock_put pl root (\<lambda>b. b\<lparr>vb_data := NULL\<rparr>)) (\<lambda>pl. Inr (pl, st))))"

definition gc_collapse :: "ptr \<Rightarrow> 'st txs \<Rightarrow> u64 \<Rightarrow> ptr \<Rightarrow> 'st txs res" where
  "gc_collapse palloc s orv root = (let (pl, tc, st) = s in
     bind_res (txblock_at pl root) (\<lambda>r.
     let y = vb_next r in
     if y = NULL then Inr s else
     bind_res (txblock_at pl y) (\<lambda>yb.
     if vb_next yb = NULL \<and> vb_ts yb \<le> orv then
       bind_res (collapse_data (pl, st) root r yb) (\<lambda>(pl, st).
       bind_res (txblock_put pl root (\<lambda>b. b\<lparr>vb_ts := vb_ts yb, vb_next := NULL\<rparr>)) (\<lambda>pl.
       bind_res (fdb_txthread_ctx_add_entry (tc, st) palloc y) (\<lambda>(tc, st). Inr (pl, tc, st))))
     else Inr s)))"

definition gc_root :: "'st fdb_txpool_alloc_t \<times> 'st \<Rightarrow> u64 \<Rightarrow> ptr \<Rightarrow> (bool \<times> 'st fdb_txpool_alloc_t \<times> 'st) res" where
  "gc_root ps orv root = bind_res (txblock_at (fst ps) root) (\<lambda>r.
     if vb_data r = NULL \<and> vb_next r = NULL \<and> vb_ts r < orv
     then bind_res (free_txblock ps root) (\<lambda>ps. Inr (True, ps))
     else Inr (False, ps))"

definition fdb_txpool_alloc_gc ::
  "nat \<Rightarrow> ptr \<Rightarrow> 'st txs \<Rightarrow> u64 \<Rightarrow> ptr \<Rightarrow> bool \<Rightarrow> (bool \<times> 'st txs) res" where
  "fdb_txpool_alloc_gc fuel palloc s orv root force = (let (pl, tc, st) = s in
     if force \<and> root \<noteq> NULL then
       bind_res (free_versions fuel (pl, st) root) (\<lambda>(pl, st). Inr (True, (pl, tc, st)))
     else
       bind_res (gc_older fuel (pl, st) orv root) (\<lambda>(pl, st).
       bind_res (gc_collapse palloc (pl, tc, st) orv root) (\<lambda>(pl, tc, st).
       bind_res (gc_root (pl, st) orv root) (\<lambda>(gced, (pl, st)). Inr (gced, (pl, tc, st))))))"

section \<open>The operations of the pool\<close>

definition fdb_txpool_alloc_init ::
  "u32 \<Rightarrow> u32 \<Rightarrow> u32 \<Rightarrow> 'st fdb_mem_allocator_t option \<Rightarrow> 'st fdb_mem_allocator_t \<Rightarrow> (ptr \<Rightarrow> ptr) \<Rightarrow>
   (ptr \<Rightarrow> u8 list) \<Rightarrow> 'st fdb_txpool_alloc_t res" where
  "fdb_txpool_alloc_init alignment block_size page_size allocator gallocator hdr raw =
     bind_res (fdb_pool_alloc_init alignment block_size page_size allocator gallocator hdr) (\<lambda>dp.
     bind_res (fdb_pool_alloc_init FDB_MIN_ALIGNMENT sizeof_txblock page_size allocator gallocator hdr) (\<lambda>bp.
     Inr \<lparr>tp_data_palloc = dp, tp_block_palloc = bp, tp_data_size = block_size,
          tp_data_alignment = alignment, tp_blocks = Map.empty, tp_data = Map.empty, tp_raw = raw\<rparr>))"

definition fdb_txpool_alloc_flush ::
  "nat \<Rightarrow> 'st fdb_txpool_alloc_t \<times> 'st \<Rightarrow> ('st fdb_txpool_alloc_t \<times> 'st) res" where
  "fdb_txpool_alloc_flush fuel ps = (let (pl, st) = ps in
     bind_res (fdb_pool_alloc_flush fuel (tp_data_palloc pl, st)) (\<lambda>(dp, st).
     bind_res (fdb_pool_alloc_flush fuel (tp_block_palloc pl, st)) (\<lambda>(bp, st).
     Inr (pl\<lparr>tp_data_palloc := dp, tp_block_palloc := bp, tp_data := Map.empty, tp_blocks := Map.empty\<rparr>, st))))"

definition fdb_txpool_alloc_release ::
  "nat \<Rightarrow> 'st fdb_txpool_alloc_t \<times> 'st \<Rightarrow> ('st fdb_txpool_alloc_t \<times> 'st) res" where
  "fdb_txpool_alloc_release fuel ps = (let (pl, st) = ps in
     bind_res (fdb_pool_alloc_release fuel (tp_data_palloc pl, st)) (\<lambda>(dp, st).
     bind_res (fdb_pool_alloc_release fuel (tp_block_palloc pl, st)) (\<lambda>(bp, st).
     Inr (pl\<lparr>tp_data_palloc := dp, tp_block_palloc := bp, tp_data := Map.empty, tp_blocks := Map.empty\<rparr>, st))))"

text \<open>A reference is its \<open>p_main\<close>.\<close>

record fdb_txpool_alloc_ref_t =
  p_main :: ptr

definition fdb_txpool_alloc_ref_nullify :: "fdb_txpool_alloc_ref_t" where
  "fdb_txpool_alloc_ref_nullify = \<lparr>p_main = NULL\<rparr>"

definition fdb_txpool_alloc_ref_isnull :: "fdb_txpool_alloc_ref_t \<Rightarrow> bool" where
  "fdb_txpool_alloc_ref_isnull ref \<longleftrightarrow> p_main ref = NULL"

definition fdb_txpool_alloc_alloc ::
  "'st fdb_txpool_alloc_t \<times> 'st \<Rightarrow> fdb_tx_t \<Rightarrow> u32 \<Rightarrow> (fdb_txpool_alloc_ref_t \<times> ('st fdb_txpool_alloc_t \<times> 'st)) res" where
  "fdb_txpool_alloc_alloc ps tx hint =
     bind_res (new_txblock ps) (\<lambda>(main, ps).
     bind_res (new_txblock ps) (\<lambda>(new_block, ps).
     let (d, (pl, st)) = new_txdata ps hint in
     bind_res (txblock_put pl new_block (\<lambda>b. b\<lparr>vb_data := d\<rparr>)) (\<lambda>pl.
     bind_res (txblock_at pl main) (\<lambda>r.
     bind_res (txblock_put pl new_block (\<lambda>b. b\<lparr>vb_next := vb_next r, vb_ts := tx_txversion tx\<rparr>)) (\<lambda>pl.
     bind_res (txblock_put pl main (\<lambda>b. b\<lparr>vb_next := new_block\<rparr>)) (\<lambda>pl.
     Inr (\<lparr>p_main = main\<rparr>, (pl, st))))))))"

definition fdb_txpool_alloc_free ::
  "nat \<Rightarrow> ptr \<Rightarrow> 'st txs \<Rightarrow> fdb_tx_t \<Rightarrow> fdb_txpool_alloc_ref_t \<Rightarrow> 'st txs res" where
  "fdb_txpool_alloc_free fuel palloc s tx ref =
     bind_res (fdb_txpool_alloc_gc fuel palloc s (tx_ortxversion tx) (p_main ref) False) (\<lambda>(gced, (pl, tc, st)).
     bind_res (txblock_at pl (p_main ref)) (\<lambda>r.
     let candidate = (if vb_next r = NULL then p_main ref else vb_next r) in
     bind_res (txblock_at pl candidate) (\<lambda>c.
     bind_res
       (if vb_ts c \<le> tx_ortxversion tx then
          bind_res (new_txblock (pl, st)) (\<lambda>(new_block, (pl, st)).
          bind_res (txblock_put pl new_block (\<lambda>b. b\<lparr>vb_next := (if candidate \<noteq> p_main ref then vb_next c else NULL),
              vb_ts := tx_txversion tx\<rparr>)) (\<lambda>pl.
          bind_res (txblock_put pl (p_main ref) (\<lambda>b. b\<lparr>vb_next := new_block\<rparr>)) (\<lambda>pl. Inr (pl, st))))
        else
          bind_res (free_txdata (pl, st) (vb_data c)) (\<lambda>(pl, st).
          bind_res (txblock_put pl candidate (\<lambda>b. b\<lparr>vb_data := NULL\<rparr>)) (\<lambda>pl. Inr (pl, st)))) (\<lambda>(pl, st).
     bind_res (fdb_txthread_ctx_add_entry (tc, st) palloc (p_main ref)) (\<lambda>(tc, st).
     Inr (pl, tc, st))))))"

text \<open>The copy a writing transaction makes of the version it found.\<close>

definition copy_version ::
  "'st fdb_txpool_alloc_t \<times> 'st \<Rightarrow> fdb_tx_t \<Rightarrow> ptr \<Rightarrow> ptr \<Rightarrow> (ptr \<times> ('st fdb_txpool_alloc_t \<times> 'st)) res" where
  "copy_version ps tx main candidate =
     bind_res (new_txblock ps) (\<lambda>(new_block, ps).
     let (d, (pl, st)) = new_txdata ps FDB_NO_HINT in
     bind_res (txblock_put pl new_block (\<lambda>b. b\<lparr>vb_data := d\<rparr>)) (\<lambda>pl.
     bind_res (txblock_at pl candidate) (\<lambda>c.
     bind_res (txdata_copy pl d (vb_data c)) (\<lambda>pl.
     bind_res (txblock_put pl new_block (\<lambda>b. b\<lparr>vb_ts := tx_txversion tx,
        vb_next := (if candidate \<noteq> main then candidate else vb_next b)\<rparr>)) (\<lambda>pl.
     bind_res (txblock_put pl main (\<lambda>b. b\<lparr>vb_next := new_block\<rparr>)) (\<lambda>pl. Inr (d, (pl, st))))))))"

definition fdb_txpool_alloc_ptr ::
  "nat \<Rightarrow> ptr \<Rightarrow> 'st txs \<Rightarrow> fdb_tx_t \<Rightarrow> fdb_txpool_alloc_ref_t \<Rightarrow> bool \<Rightarrow> (ptr \<times> 'st txs) res" where
  "fdb_txpool_alloc_ptr fuel palloc s tx ref wt =
     bind_res (if tx_type tx = E_READ_WRITE
               then bind_res (fdb_txpool_alloc_gc fuel palloc s (tx_ortxversion tx) (p_main ref) False)
                      (\<lambda>(gced, s). Inr s)
               else Inr s) (\<lambda>(pl, tc, st).
     bind_res (txblock_at pl (p_main ref)) (\<lambda>r.
     bind_res (seek_version fuel pl (tx_txversion tx) (vb_next r)) (\<lambda>p.
     let candidate = (if p = NULL then p_main ref else p) in
     bind_res (txblock_at pl candidate) (\<lambda>c.
     case tx_type tx of
       E_READ_ONLY \<Rightarrow> Inr (vb_data c, (pl, tc, st))
     | E_READ_WRITE \<Rightarrow>
         if wt \<and> vb_ts c < tx_txversion tx then
           bind_res (copy_version (pl, st) tx (p_main ref) candidate) (\<lambda>(d, (pl, st)). Inr (d, (pl, tc, st)))
         else Inr (vb_data c, (pl, tc, st))))))"

section \<open>Collecting a thread context\<close>

text \<open>The pools are found by their addresses, which the entries hold.\<close>

type_synonym 'st txpools = "ptr \<rightharpoonup> 'st fdb_txpool_alloc_t"

definition unlink_entry :: "'st fdb_txthread_ctx_t \<times> 'st \<Rightarrow> ptr \<Rightarrow> (ptr \<times> ('st fdb_txthread_ctx_t \<times> 'st)) res" where
  "unlink_entry cs p = (let (tc, st) = cs in
     bind_res (garbage_at tc p) (\<lambda>g.
     let tc = (if p = tc_first tc then tc\<lparr>tc_first := gb_next g\<rparr> else tc) in
     bind_res (if gb_prev g \<noteq> NULL then garbage_put tc (gb_prev g) (\<lambda>e. e\<lparr>gb_next := gb_next g\<rparr>) else Inr tc) (\<lambda>tc.
     bind_res (garbage_at tc p) (\<lambda>g.
     bind_res (if gb_next g \<noteq> NULL then garbage_put tc (gb_next g) (\<lambda>e. e\<lparr>gb_prev := gb_prev g\<rparr>) else Inr tc) (\<lambda>tc.
     bind_res (garbage_at tc p) (\<lambda>g.
     let (pa, st) = fdb_pool_alloc_free (tc_palloc tc, st) p in
     Inr (gb_next g, (tc\<lparr>tc_palloc := pa, tc_entries := (tc_entries tc)(p := None)\<rparr>, st))))))))"

fun ctx_gc_loop ::
  "nat \<Rightarrow> nat \<Rightarrow> 'st txpools \<Rightarrow> 'st fdb_txthread_ctx_t \<times> 'st \<Rightarrow> u64 \<Rightarrow> bool \<Rightarrow> ptr \<Rightarrow>
   (bool \<times> 'st txpools \<times> 'st fdb_txthread_ctx_t \<times> 'st) res" where
  "ctx_gc_loop 0 vf pools cs orv force p = Inl OutOfFuel"
| "ctx_gc_loop (Suc fuel) vf pools cs orv force p = (let (tc, st) = cs in
     if p = NULL then Inr (True, pools, tc, st) else
     bind_res (garbage_at tc p) (\<lambda>g.
     case pools (gb_palloc g) of None \<Rightarrow> Inl BadPointer | Some pl \<Rightarrow>
     bind_res (fdb_txpool_alloc_gc vf (gb_palloc g) (pl, tc, st) orv (gb_block g) force) (\<lambda>(gced, (pl, tc, st)).
     let pools = pools(gb_palloc g \<mapsto> pl) in
     if gced then
       bind_res (unlink_entry (tc, st) p) (\<lambda>(q, cs). ctx_gc_loop fuel vf pools cs orv force q)
     else
       bind_res (garbage_at tc p) (\<lambda>g.
       bind_res (ctx_gc_loop fuel vf pools (tc, st) orv force (gb_next g)) (\<lambda>(all_freed, x). Inr (False, x))))))"

definition fdb_txthread_ctx_gc ::
  "nat \<Rightarrow> nat \<Rightarrow> txmgr \<Rightarrow> 'st txpools \<Rightarrow> 'st fdb_txthread_ctx_t \<times> 'st \<Rightarrow> bool \<Rightarrow>
   (bool \<times> 'st txpools \<times> 'st fdb_txthread_ctx_t \<times> 'st) res" where
  "fdb_txthread_ctx_gc fuel vf m pools cs force =
     bind_res (oldest_running_version m) (\<lambda>orv. ctx_gc_loop fuel vf pools cs orv force (tc_first (fst cs)))"

section \<open>Memory\<close>

datatype tx_client = TxData | TxBlocks | TxGarbage

text \<open>The three pools are clients of one allocator, and what they have handed out is what the maps
  hold.\<close>

definition pool_backs ::
  "('st \<Rightarrow> u32 \<Rightarrow> u32 \<Rightarrow> u32 \<Rightarrow> ptr \<times> 'st) \<Rightarrow> ('st \<Rightarrow> ptr \<Rightarrow> 'st) \<Rightarrow> (u32 \<Rightarrow> u32 \<Rightarrow> bool) \<Rightarrow>
   'st fdb_pool_alloc_t \<Rightarrow> (ptr \<rightharpoonup> nat) \<Rightarrow> u32 \<Rightarrow> u32 \<Rightarrow> ptr set \<Rightarrow> bool" where
  "pool_backs alloc free S pa P al sz A \<longleftrightarrow> pool_takes S pa al sz \<and>
     (\<exists>l. pool_holds alloc free pa P l \<and> dom l = A)"

definition txpool_mem ::
  "('st \<Rightarrow> u32 \<Rightarrow> u32 \<Rightarrow> u32 \<Rightarrow> ptr \<times> 'st) \<Rightarrow> ('st \<Rightarrow> ptr \<Rightarrow> 'st) \<Rightarrow> ('st \<Rightarrow> (ptr \<rightharpoonup> nat) \<Rightarrow> bool) \<Rightarrow>
   ('st \<Rightarrow> nat \<Rightarrow> bool) \<Rightarrow> (u32 \<Rightarrow> u32 \<Rightarrow> bool) \<Rightarrow> 'st txs \<Rightarrow> nat \<Rightarrow> bool" where
  "txpool_mem alloc free ainv room S s n \<longleftrightarrow> (case s of (pl, tc, st) \<Rightarrow> room st n \<and> (\<exists>Ps. clients ainv st Ps \<and>
     pool_backs alloc free S (tp_data_palloc pl) (Ps TxData) (tp_data_alignment pl) (tp_data_size pl) (dom (tp_data pl)) \<and>
     pool_backs alloc free S (tp_block_palloc pl) (Ps TxBlocks) FDB_MIN_ALIGNMENT sizeof_txblock (dom (tp_blocks pl)) \<and>
     pool_backs alloc free S (tc_palloc tc) (Ps TxGarbage) FDB_MIN_ALIGNMENT sizeof_txgarbage (dom (tc_entries tc))))"

text \<open>What no operation changes.\<close>

definition same_pool :: "'st fdb_txpool_alloc_t \<Rightarrow> 'st fdb_txpool_alloc_t \<Rightarrow> bool" where
  "same_pool pl pl' \<longleftrightarrow> tp_data_size pl' = tp_data_size pl \<and> tp_data_alignment pl' = tp_data_alignment pl \<and>
     tp_raw pl' = tp_raw pl"

lemma same_pool_trans [trans]: "same_pool a b \<Longrightarrow> same_pool b c \<Longrightarrow> same_pool a c"
  and same_pool_refl [simp]: "same_pool a a"
  by (simp_all add: same_pool_def)

text \<open>The list of the garbage of a thread context.\<close>

definition garbage :: "'st fdb_txthread_ctx_t \<Rightarrow> ptr list \<Rightarrow> bool" where
  "garbage tc es \<longleftrightarrow> (\<exists>l. dls gb_next gb_prev (tc_entries tc) NULL (tc_first tc) es l NULL) \<and> distinct es"

context steady_provider
begin

abbreviation "txmem \<equiv> txpool_mem alloc free ainv room S"

lemma backs_alloc:
  assumes cl: "clients ainv st Ps" and b: "pool_backs alloc free S pa (Ps c) al sz A" and room: "room st (Suc n)"
  shows "\<exists>p pa' st' P'. fdb_pool_alloc_alloc (pa, st) al sz h = (p, (pa', st')) \<and> p \<noteq> NULL \<and> p \<notin> A \<and>
    room st' n \<and> clients ainv st' (Ps(c := P')) \<and> pool_backs alloc free S pa' P' al sz (insert p A)"
proof -
  obtain p pa' st' where run: "fdb_pool_alloc_alloc (pa, st) al sz h = (p, (pa', st'))" by (metis prod.exhaust)
  from b obtain l where t: "pool_takes S pa al sz" and l: "pool_holds alloc free pa (Ps c) l" "dom l = A"
    by (auto simp: pool_backs_def)
  from client_alloc [OF cl l(1) room t run] obtain P' where
    P': "fits l p (unat sz)" "room st' n" "pool_takes S pa' = pool_takes S pa"
      "clients ainv st' (Ps(c := P'))" "pool_holds alloc free pa' P' (l(p \<mapsto> unat sz))" by blast
  have "pool_backs alloc free S pa' P' al sz (insert p A)"
    using P' t l unfolding pool_backs_def by (intro conjI exI) auto
  moreover have "p \<noteq> NULL" "p \<notin> A" using P'(1) l(2) by (auto simp: fits_def)
  ultimately show ?thesis using run P' by blast
qed

lemma backs_free:
  assumes cl: "clients ainv st Ps" and b: "pool_backs alloc free S pa (Ps c) al sz A" and p: "p \<in> A"
  shows "\<exists>pa'. fdb_pool_alloc_free (pa, st) p = (pa', st) \<and> pool_backs alloc free S pa' (Ps c) al sz (A - {p})"
proof -
  obtain pa' st' where run: "fdb_pool_alloc_free (pa, st) p = (pa', st')" by (metis prod.exhaust)
  from b obtain l m where t: "pool_takes S pa al sz" and l: "pool_holds alloc free pa (Ps c) l" "dom l = A" "l p = Some m"
    using p by (auto simp: pool_backs_def)
  from client_free [OF cl l(1,3) run] have
    "st' = st" "pool_takes S pa' = pool_takes S pa" "pool_holds alloc free pa' (Ps c) (l(p := None))" by auto
  moreover have "dom (l(p := None)) = A - {p}" using l(2) by auto
  ultimately show ?thesis using run t unfolding pool_backs_def by metis
qed

lemma new_txblock_spec:
  assumes "txmem (pl, tc, st) (Suc n)"
  shows "\<exists>p pl' st'. new_txblock (pl, st) = Inr (p, (pl', st')) \<and> p \<noteq> NULL \<and> p \<notin> dom (tp_blocks pl) \<and>
    tp_blocks pl' = (tp_blocks pl)(p \<mapsto> zero_txblock) \<and> tp_data pl' = tp_data pl \<and> same_pool pl pl' \<and>
    txmem (pl', tc, st') n"
proof -
  from assms obtain Ps where room: "room st (Suc n)" and cl: "clients ainv st Ps"
    and d: "pool_backs alloc free S (tp_data_palloc pl) (Ps TxData) (tp_data_alignment pl) (tp_data_size pl) (dom (tp_data pl))"
    and b: "pool_backs alloc free S (tp_block_palloc pl) (Ps TxBlocks) FDB_MIN_ALIGNMENT sizeof_txblock (dom (tp_blocks pl))"
    and g: "pool_backs alloc free S (tc_palloc tc) (Ps TxGarbage) FDB_MIN_ALIGNMENT sizeof_txgarbage (dom (tc_entries tc))"
    by (auto simp: txpool_mem_def)
  from backs_alloc [OF cl b room, of FDB_NO_HINT] obtain p pa' st' P' where
    r: "fdb_pool_alloc_alloc (tp_block_palloc pl, st) FDB_MIN_ALIGNMENT sizeof_txblock FDB_NO_HINT = (p, (pa', st'))"
      "p \<noteq> NULL" "p \<notin> dom (tp_blocks pl)" "room st' n" "clients ainv st' (Ps(TxBlocks := P'))"
      "pool_backs alloc free S pa' P' FDB_MIN_ALIGNMENT sizeof_txblock (insert p (dom (tp_blocks pl)))" by blast
  define pl' where "pl' = pl\<lparr>tp_block_palloc := pa', tp_blocks := (tp_blocks pl)(p \<mapsto> zero_txblock)\<rparr>"
  have "new_txblock (pl, st) = Inr (p, (pl', st'))" using r by (simp add: new_txblock_def pl'_def)
  moreover have "txmem (pl', tc, st') n"
    using r d g unfolding txpool_mem_def by (auto simp: pl'_def intro!: exI [of _ "Ps(TxBlocks := P')"])
  ultimately show ?thesis using r(2,3)
    by (intro exI [of _ p] exI [of _ pl'] exI [of _ st']) (simp add: pl'_def same_pool_def)
qed

lemma new_txdata_spec:
  assumes "txmem (pl, tc, st) (Suc n)"
  shows "\<exists>p pl' st'. new_txdata (pl, st) h = (p, (pl', st')) \<and> p \<noteq> NULL \<and> p \<notin> dom (tp_data pl) \<and>
    tp_data pl' = (tp_data pl)(p \<mapsto> tp_raw pl p) \<and> tp_blocks pl' = tp_blocks pl \<and> same_pool pl pl' \<and>
    txmem (pl', tc, st') n"
proof -
  from assms obtain Ps where room: "room st (Suc n)" and cl: "clients ainv st Ps"
    and d: "pool_backs alloc free S (tp_data_palloc pl) (Ps TxData) (tp_data_alignment pl) (tp_data_size pl) (dom (tp_data pl))"
    and b: "pool_backs alloc free S (tp_block_palloc pl) (Ps TxBlocks) FDB_MIN_ALIGNMENT sizeof_txblock (dom (tp_blocks pl))"
    and g: "pool_backs alloc free S (tc_palloc tc) (Ps TxGarbage) FDB_MIN_ALIGNMENT sizeof_txgarbage (dom (tc_entries tc))"
    by (auto simp: txpool_mem_def)
  from backs_alloc [OF cl d room, of h] obtain p pa' st' P' where
    r: "fdb_pool_alloc_alloc (tp_data_palloc pl, st) (tp_data_alignment pl) (tp_data_size pl) h = (p, (pa', st'))"
      "p \<noteq> NULL" "p \<notin> dom (tp_data pl)" "room st' n" "clients ainv st' (Ps(TxData := P'))"
      "pool_backs alloc free S pa' P' (tp_data_alignment pl) (tp_data_size pl) (insert p (dom (tp_data pl)))" by blast
  define pl' where "pl' = pl\<lparr>tp_data_palloc := pa', tp_data := (tp_data pl)(p \<mapsto> tp_raw pl p)\<rparr>"
  have "new_txdata (pl, st) h = (p, (pl', st'))" using r by (simp add: new_txdata_def pl'_def)
  moreover have "txmem (pl', tc, st') n"
    using r b g unfolding txpool_mem_def by (auto simp: pl'_def intro!: exI [of _ "Ps(TxData := P')"])
  ultimately show ?thesis using r(2,3)
    by (intro exI [of _ p] exI [of _ pl'] exI [of _ st']) (simp add: pl'_def same_pool_def)
qed

lemma free_txblock_spec:
  assumes m: "txmem (pl, tc, st) n" and p: "p \<in> dom (tp_blocks pl)" "p \<noteq> NULL"
  shows "\<exists>pl'. free_txblock (pl, st) p = Inr (pl', st) \<and> tp_blocks pl' = (tp_blocks pl)(p := None) \<and>
    tp_data pl' = tp_data pl \<and> same_pool pl pl' \<and> txmem (pl', tc, st) n"
proof -
  from m obtain Ps where room: "room st n" and cl: "clients ainv st Ps"
    and d: "pool_backs alloc free S (tp_data_palloc pl) (Ps TxData) (tp_data_alignment pl) (tp_data_size pl) (dom (tp_data pl))"
    and b: "pool_backs alloc free S (tp_block_palloc pl) (Ps TxBlocks) FDB_MIN_ALIGNMENT sizeof_txblock (dom (tp_blocks pl))"
    and g: "pool_backs alloc free S (tc_palloc tc) (Ps TxGarbage) FDB_MIN_ALIGNMENT sizeof_txgarbage (dom (tc_entries tc))"
    by (auto simp: txpool_mem_def)
  from backs_free [OF cl b p(1)] obtain pa' where
    r: "fdb_pool_alloc_free (tp_block_palloc pl, st) p = (pa', st)"
      "pool_backs alloc free S pa' (Ps TxBlocks) FDB_MIN_ALIGNMENT sizeof_txblock (dom (tp_blocks pl) - {p})" by blast
  define pl' where "pl' = pl\<lparr>tp_block_palloc := pa', tp_blocks := (tp_blocks pl)(p := None)\<rparr>"
  have "free_txblock (pl, st) p = Inr (pl', st)" using r p by (auto simp: free_txblock_def txblock_at_def pl'_def)
  moreover have "txmem (pl', tc, st) n"
    using r d g room cl unfolding txpool_mem_def by (auto simp: pl'_def intro!: exI [of _ Ps])
  ultimately show ?thesis by (intro exI [of _ pl']) (simp add: pl'_def same_pool_def)
qed

lemma free_txdata_spec:
  assumes m: "txmem (pl, tc, st) n" and p: "p \<in> dom (tp_data pl)" "p \<noteq> NULL"
  shows "\<exists>pl'. free_txdata (pl, st) p = Inr (pl', st) \<and> tp_data pl' = (tp_data pl)(p := None) \<and>
    tp_blocks pl' = tp_blocks pl \<and> same_pool pl pl' \<and> txmem (pl', tc, st) n"
proof -
  from m obtain Ps where room: "room st n" and cl: "clients ainv st Ps"
    and d: "pool_backs alloc free S (tp_data_palloc pl) (Ps TxData) (tp_data_alignment pl) (tp_data_size pl) (dom (tp_data pl))"
    and b: "pool_backs alloc free S (tp_block_palloc pl) (Ps TxBlocks) FDB_MIN_ALIGNMENT sizeof_txblock (dom (tp_blocks pl))"
    and g: "pool_backs alloc free S (tc_palloc tc) (Ps TxGarbage) FDB_MIN_ALIGNMENT sizeof_txgarbage (dom (tc_entries tc))"
    by (auto simp: txpool_mem_def)
  from backs_free [OF cl d p(1)] obtain pa' where
    r: "fdb_pool_alloc_free (tp_data_palloc pl, st) p = (pa', st)"
      "pool_backs alloc free S pa' (Ps TxData) (tp_data_alignment pl) (tp_data_size pl) (dom (tp_data pl) - {p})" by blast
  define pl' where "pl' = pl\<lparr>tp_data_palloc := pa', tp_data := (tp_data pl)(p := None)\<rparr>"
  have "free_txdata (pl, st) p = Inr (pl', st)" using r p by (auto simp: free_txdata_def txdata_at_def pl'_def)
  moreover have "txmem (pl', tc, st) n"
    using r b g room cl unfolding txpool_mem_def by (auto simp: pl'_def intro!: exI [of _ Ps])
  ultimately show ?thesis by (intro exI [of _ pl']) (simp add: pl'_def same_pool_def)
qed

lemma add_entry_spec:
  assumes m: "txmem (pl, tc, st) (Suc n)" and es: "garbage tc es"
  shows "\<exists>e tc' st'. fdb_txthread_ctx_add_entry (tc, st) palloc block = Inr (tc', st') \<and> garbage tc' (e # es) \<and>
    e \<notin> dom (tc_entries tc) \<and> txmem (pl, tc', st') n \<and>
    (\<exists>g. tc_entries tc' e = Some g \<and> gb_palloc g = palloc \<and> gb_block g = block) \<and>
    (\<forall>x g. tc_entries tc x = Some g \<longrightarrow>
      (\<exists>g'. tc_entries tc' x = Some g' \<and> gb_palloc g' = gb_palloc g \<and> gb_block g' = gb_block g))"
proof -
  from m obtain Ps where room: "room st (Suc n)" and cl: "clients ainv st Ps"
    and d: "pool_backs alloc free S (tp_data_palloc pl) (Ps TxData) (tp_data_alignment pl) (tp_data_size pl) (dom (tp_data pl))"
    and b: "pool_backs alloc free S (tp_block_palloc pl) (Ps TxBlocks) FDB_MIN_ALIGNMENT sizeof_txblock (dom (tp_blocks pl))"
    and g: "pool_backs alloc free S (tc_palloc tc) (Ps TxGarbage) FDB_MIN_ALIGNMENT sizeof_txgarbage (dom (tc_entries tc))"
    by (auto simp: txpool_mem_def)
  from backs_alloc [OF cl g room, of FDB_NO_HINT] obtain e pa' st' P' where
    r: "fdb_pool_alloc_alloc (tc_palloc tc, st) FDB_MIN_ALIGNMENT sizeof_txgarbage FDB_NO_HINT = (e, (pa', st'))"
      "e \<noteq> NULL" "e \<notin> dom (tc_entries tc)" "room st' n" "clients ainv st' (Ps(TxGarbage := P'))"
      "pool_backs alloc free S pa' P' FDB_MIN_ALIGNMENT sizeof_txgarbage (insert e (dom (tc_entries tc)))" by blast
  define f where "f = tc_first tc"
  obtain l where dl: "dls gb_next gb_prev (tc_entries tc) NULL f es l NULL" and di: "distinct es"
    using es by (auto simp: f_def garbage_def)
  have e: "e \<notin> set es" using dls_objects [OF dl] r(3) by blast
  define new where "new = \<lparr>gb_palloc = palloc, gb_block = block, gb_next = f, gb_prev = NULL, gb_release = False\<rparr>"
  define h where "h = (if f = NULL then tc_entries tc
    else (tc_entries tc)(f \<mapsto> (the (tc_entries tc f))\<lparr>gb_prev := e\<rparr>))(e \<mapsto> new)"
  define tc' where "tc' = tc\<lparr>tc_palloc := pa', tc_first := e, tc_entries := h\<rparr>"
  have fd: "f \<noteq> NULL \<Longrightarrow> \<exists>ys g. es = f # ys \<and> tc_entries tc f = Some g \<and> f \<noteq> e"
    using dl r(3) by (cases es) auto
  have run: "fdb_txthread_ctx_add_entry (tc, st) palloc block = Inr (tc', st')"
  proof (cases "f = NULL")
    case True
    then show ?thesis using r
      by (simp add: fdb_txthread_ctx_add_entry_def garbage_put_def garbage_at_def f_def [symmetric] tc'_def h_def new_def)
  next
    case False
    then show ?thesis using r fd [OF False]
      by (auto simp: fdb_txthread_ctx_add_entry_def garbage_put_def garbage_at_def f_def [symmetric] tc'_def h_def new_def
          fun_upd_twist Let_def)
  qed
  have gl: "\<exists>l. dls gb_next gb_prev h NULL e (e # es) l NULL"
  proof (cases es)
    case Nil then show ?thesis using dl r(2) by (auto simp: h_def new_def)
  next
    case (Cons x ys)
    then have "x = f" "f \<noteq> NULL" "x \<notin> set ys" using dl di by auto
    then show ?thesis using dl e r(2) Cons by (auto simp: h_def new_def intro!: exI [of _ l])
  qed
  have "dom h = insert e (dom (tc_entries tc))" using fd by (auto simp: h_def)
  then have "txmem (pl, tc', st') n"
    using r d b unfolding txpool_mem_def by (auto simp: tc'_def intro!: exI [of _ "Ps(TxGarbage := P')"])
  moreover have "garbage tc' (e # es)" using gl e di by (simp add: tc'_def garbage_def)
  moreover have "\<forall>x g. tc_entries tc x = Some g \<longrightarrow>
      (\<exists>g'. tc_entries tc' x = Some g' \<and> gb_palloc g' = gb_palloc g \<and> gb_block g' = gb_block g)"
    using r(3) fd by (auto simp: tc'_def h_def)
  moreover have "\<exists>g. tc_entries tc' e = Some g \<and> gb_palloc g = palloc \<and> gb_block g = block"
    by (simp add: tc'_def h_def new_def)
  ultimately show ?thesis using run r(3) by blast
qed

end

section \<open>Chains of versions\<close>

fun versions :: "(ptr \<rightharpoonup> fdb_txpool_alloc_block_t) \<Rightarrow> ptr \<Rightarrow> ptr list \<Rightarrow> bool" where
  "versions B p [] \<longleftrightarrow> p = NULL"
| "versions B p (x # xs) \<longleftrightarrow> p = x \<and> x \<noteq> NULL \<and> (\<exists>b. B x = Some b \<and> versions B (vb_next b) xs)"

abbreviation vblock :: "'st fdb_txpool_alloc_t \<Rightarrow> ptr \<Rightarrow> fdb_txpool_alloc_block_t" where
  "vblock pl x \<equiv> the (tp_blocks pl x)"
abbreviation vts :: "'st fdb_txpool_alloc_t \<Rightarrow> ptr \<Rightarrow> u64" where "vts pl x \<equiv> vb_ts (vblock pl x)"
abbreviation vdata :: "'st fdb_txpool_alloc_t \<Rightarrow> ptr \<Rightarrow> ptr" where "vdata pl x \<equiv> vb_data (vblock pl x)"

text \<open>The data of some blocks, and what a transaction of version \<open>v\<close> finds in a chain: the pointer and
  the bytes.\<close>

definition datas :: "'st fdb_txpool_alloc_t \<Rightarrow> ptr list \<Rightarrow> ptr set" where
  "datas pl xs = vdata pl ` set xs - {NULL}"

fun pointer_seen :: "'st fdb_txpool_alloc_t \<Rightarrow> u64 \<Rightarrow> ptr list \<Rightarrow> ptr" where
  "pointer_seen pl v [] = NULL"
| "pointer_seen pl v (x # xs) = (if vts pl x \<le> v then vdata pl x else pointer_seen pl v xs)"

definition seen :: "'st fdb_txpool_alloc_t \<Rightarrow> u64 \<Rightarrow> ptr list \<Rightarrow> u8 list option" where
  "seen pl v xs = (if pointer_seen pl v xs = NULL then None else tp_data pl (pointer_seen pl v xs))"

definition sizes_ok :: "'st fdb_txpool_alloc_t \<Rightarrow> bool" where
  "sizes_ok pl \<longleftrightarrow> tp_data pl NULL = None \<and> (\<forall>p. length (tp_raw pl p) = unat (tp_data_size pl)) \<and>
     (\<forall>d bs. tp_data pl d = Some bs \<longrightarrow> length bs = unat (tp_data_size pl))"

text \<open>A chain in order: newest first, every block and its data live, nothing shared. \<open>ref_ok\<close> is a chain
  of a reference: its versions, then its root.\<close>

definition chain_ok :: "'st fdb_txpool_alloc_t \<Rightarrow> ptr list \<Rightarrow> bool" where
  "chain_ok pl ys \<longleftrightarrow> distinct ys \<and> set ys \<subseteq> dom (tp_blocks pl) - {NULL} \<and>
     sorted_wrt (\<lambda>x y. vts pl y < vts pl x) ys \<and> datas pl ys \<subseteq> dom (tp_data pl) \<and>
     (\<forall>x\<in>set ys. \<forall>y\<in>set ys. x \<noteq> y \<longrightarrow> vdata pl x \<noteq> NULL \<longrightarrow> vdata pl x \<noteq> vdata pl y)"

definition ref_ok :: "'st fdb_txpool_alloc_t \<Rightarrow> ptr \<Rightarrow> ptr list \<Rightarrow> bool" where
  "ref_ok pl main xs \<longleftrightarrow> chain_ok pl (xs @ [main]) \<and> versions (tp_blocks pl) (vb_next (vblock pl main)) xs"

text \<open>Nothing is changed but the blocks \<open>B\<close>, the data \<open>D\<close> and what was not in use.\<close>

definition only :: "ptr set \<Rightarrow> ptr set \<Rightarrow> 'st fdb_txpool_alloc_t \<Rightarrow> 'st fdb_txpool_alloc_t \<Rightarrow> bool" where
  "only B D pl pl' \<longleftrightarrow> same_pool pl pl' \<and>
     (\<forall>x\<in>dom (tp_blocks pl) - B. tp_blocks pl' x = tp_blocks pl x) \<and>
     (\<forall>d\<in>dom (tp_data pl) - D. tp_data pl' d = tp_data pl d)"

lemma only_refl [simp]: "only B D pl pl" by (simp add: only_def)

lemma only_mono: "only B D pl pl' \<Longrightarrow> B \<subseteq> B' \<Longrightarrow> D \<subseteq> D' \<Longrightarrow> only B' D' pl pl'"
  by (auto simp: only_def)

lemma only_trans:
  assumes "only B D pl pl'" "only B' D' pl' pl''" "B' \<inter> dom (tp_blocks pl) \<subseteq> B" "D' \<inter> dom (tp_data pl) \<subseteq> D"
  shows "only B D pl pl''"
proof -
  have "tp_blocks pl'' x = tp_blocks pl x" if x: "x \<in> dom (tp_blocks pl) - B" for x
  proof -
    have "tp_blocks pl' x = tp_blocks pl x" using assms(1) x by (simp add: only_def)
    moreover from this have "x \<in> dom (tp_blocks pl') - B'" using x assms(3) by auto
    ultimately show ?thesis using assms(2) by (simp add: only_def)
  qed
  moreover have "tp_data pl'' x = tp_data pl x" if x: "x \<in> dom (tp_data pl) - D" for x
  proof -
    have "tp_data pl' x = tp_data pl x" using assms(1) x by (simp add: only_def)
    moreover from this have "x \<in> dom (tp_data pl') - D'" using x assms(4) by auto
    ultimately show ?thesis using assms(2) by (simp add: only_def)
  qed
  ultimately show ?thesis using assms(1,2) by (auto simp: only_def intro: same_pool_trans)
qed

lemma versions_cong: "(\<And>x. x \<in> set xs \<Longrightarrow> B' x = B x) \<Longrightarrow> versions B' p xs = versions B p xs"
  by (induction xs arbitrary: p) auto

lemma versions_in: "versions B p xs \<Longrightarrow> x \<in> set xs \<Longrightarrow> x \<noteq> NULL \<and> x \<in> dom B"
  by (induction xs arbitrary: p) auto

lemma versions_hd: "versions B p xs \<Longrightarrow> p = (case xs of [] \<Rightarrow> NULL | x # _ \<Rightarrow> x)"
  by (cases xs) auto

lemma versions_cut:
  assumes "versions B p (as @ x # bs)" "x \<notin> set as" "distinct (as @ x # bs)" "B x = Some b"
  shows "versions (B(x \<mapsto> b\<lparr>vb_next := NULL\<rparr>)) p (as @ [x])" "versions B (vb_next b) bs"
  using assms by (induction as arbitrary: p) (auto simp: versions_cong [of _ "B(x \<mapsto> b\<lparr>vb_next := NULL\<rparr>)" B])

lemma txblock_at_in: "p \<in> dom (tp_blocks pl) \<Longrightarrow> p \<noteq> NULL \<Longrightarrow> txblock_at pl p = Inr (vblock pl p)"
  by (auto simp: txblock_at_def)

lemma txblock_put_in: "p \<in> dom (tp_blocks pl) \<Longrightarrow> p \<noteq> NULL \<Longrightarrow>
    txblock_put pl p f = Inr (pl\<lparr>tp_blocks := (tp_blocks pl)(p \<mapsto> f (vblock pl p))\<rparr>)"
  by (auto simp: txblock_put_def txblock_at_def)

lemma seek_version_spec:
  "versions (tp_blocks pl) p xs \<Longrightarrow> length xs < fuel \<Longrightarrow>
   seek_version fuel pl v p = Inr (case dropWhile (\<lambda>x. v < vts pl x) xs of [] \<Rightarrow> NULL | x # _ \<Rightarrow> x)"
proof (induction xs arbitrary: p fuel)
  case Nil
  then show ?case by (cases fuel) auto
next
  case (Cons x xs)
  then obtain f b where f: "fuel = Suc f" "length xs < f" and b: "tp_blocks pl x = Some b" "x \<noteq> NULL" "p = x"
      "versions (tp_blocks pl) (vb_next b) xs" by (cases fuel) auto
  then show ?case using Cons.IH [OF b(4) f(2)] by (auto simp: txblock_at_def)
qed

lemma pointer_seen_append:
  "pointer_seen pl v (xs @ ys) = (if \<exists>x\<in>set xs. vts pl x \<le> v then pointer_seen pl v xs else pointer_seen pl v ys)"
  by (induction xs) auto

lemma pointer_seen_cong:
  "(\<And>x. x \<in> set xs \<Longrightarrow> vts pl' x = vts pl x \<and> vdata pl' x = vdata pl x) \<Longrightarrow>
   pointer_seen pl' v xs = pointer_seen pl v xs"
  by (induction xs) auto

lemma pointer_seen_in: "pointer_seen pl v xs \<noteq> NULL \<Longrightarrow> pointer_seen pl v xs \<in> datas pl xs"
  by (induction xs) (auto simp: datas_def split: if_splits)

text \<open>A chain none of whose blocks and data are touched stays as it is.\<close>

lemma only_block: "only B D pl pl' \<Longrightarrow> x \<in> dom (tp_blocks pl) \<Longrightarrow> x \<notin> B \<Longrightarrow> tp_blocks pl' x = tp_blocks pl x"
  by (auto simp: only_def)

lemma only_data: "only B D pl pl' \<Longrightarrow> d \<in> dom (tp_data pl) \<Longrightarrow> d \<notin> D \<Longrightarrow> tp_data pl' d = tp_data pl d"
  by (auto simp: only_def)

lemma only_chain:
  assumes o: "only B D pl pl'" and ok: "chain_ok pl ys" and ap: "set ys \<inter> B = {}" "datas pl ys \<inter> D = {}"
  shows "chain_ok pl' ys" "datas pl' ys = datas pl ys" "pointer_seen pl' v ys = pointer_seen pl v ys"
    "seen pl' v ys = seen pl v ys" "x \<in> set ys \<Longrightarrow> tp_blocks pl' x = tp_blocks pl x"
proof -
  have b: "tp_blocks pl' x = tp_blocks pl x" if "x \<in> set ys" for x
    by (rule only_block [OF o]) (use ok ap that in \<open>auto simp: chain_ok_def\<close>)
  then show "x \<in> set ys \<Longrightarrow> tp_blocks pl' x = tp_blocks pl x" .
  show ds: "datas pl' ys = datas pl ys" using b by (simp add: datas_def)
  have d: "tp_data pl' d = tp_data pl d" if "d \<in> datas pl ys" for d
    by (rule only_data [OF o]) (use ok ap that in \<open>auto simp: chain_ok_def\<close>)
  show p: "pointer_seen pl' v ys = pointer_seen pl v ys" using b by (simp cong: pointer_seen_cong)
  show "seen pl' v ys = seen pl v ys" using p d pointer_seen_in [of pl v ys] by (auto simp: seen_def)
  have "dom (tp_data pl') \<supseteq> datas pl ys" using d ok by (auto simp: chain_ok_def dom_def)
  moreover have "sorted_wrt (\<lambda>x y. vts pl' y < vts pl' x) ys"
    by (rule sorted_wrt_cong_on [of "\<lambda>x y. vts pl y < vts pl x"]) (use ok b in \<open>simp_all add: chain_ok_def\<close>)
  moreover have "set ys \<subseteq> dom (tp_blocks pl') - {NULL}" using b ok by (auto simp: chain_ok_def dom_def)
  ultimately show "chain_ok pl' ys" using ok b ds unfolding chain_ok_def by simp
qed

lemma only_ref:
  assumes o: "only B D pl pl'" and ok: "ref_ok pl main xs"
    and ap: "set (xs @ [main]) \<inter> B = {}" "datas pl (xs @ [main]) \<inter> D = {}"
  shows "ref_ok pl' main xs"
proof -
  from ok have c: "chain_ok pl (xs @ [main])" and v: "versions (tp_blocks pl) (vb_next (vblock pl main)) xs"
    by (simp_all add: ref_ok_def)
  have b: "x \<in> set (xs @ [main]) \<Longrightarrow> tp_blocks pl' x = tp_blocks pl x" for x
    by (rule only_chain(5) [OF o c ap])
  have "versions (tp_blocks pl') (vb_next (vblock pl' main)) xs"
    using v b versions_cong [of xs "tp_blocks pl'" "tp_blocks pl"] by simp
  then show ?thesis using only_chain(1) [OF o c ap] by (simp add: ref_ok_def)
qed

section \<open>What collecting a reference does\<close>

definition kept_versions :: "'st fdb_txpool_alloc_t \<Rightarrow> u64 \<Rightarrow> ptr list \<Rightarrow> ptr list" where
  "kept_versions pl orv xs = takeWhile (\<lambda>x. orv < vts pl x) xs @ take 1 (dropWhile (\<lambda>x. orv < vts pl x) xs)"

lemma chain_okD:
  assumes "chain_ok pl ys" "x \<in> set ys"
  shows "x \<in> dom (tp_blocks pl)" "x \<noteq> NULL" "vdata pl x \<noteq> NULL \<Longrightarrow> vdata pl x \<in> dom (tp_data pl)"
  using assms by (auto simp: chain_ok_def datas_def)

lemma chain_ok_facts:
  assumes "chain_ok pl ys"
  shows "distinct ys" "datas pl ys \<subseteq> dom (tp_data pl)" "sorted_wrt (\<lambda>x y. vts pl y < vts pl x) ys"
    "x \<in> set ys \<Longrightarrow> y \<in> set ys \<Longrightarrow> x \<noteq> y \<Longrightarrow> vdata pl x \<noteq> NULL \<Longrightarrow> vdata pl x \<noteq> vdata pl y"
  using assms unfolding chain_ok_def by blast+

lemma datas_mono: "set xs \<subseteq> set ys \<Longrightarrow> datas pl xs \<subseteq> datas pl ys"
  by (auto simp: datas_def)

lemma datas_apart:
  assumes "chain_ok pl ys" "set xs \<subseteq> set ys" "set zs \<subseteq> set ys" "set xs \<inter> set zs = {}"
  shows "datas pl xs \<inter> datas pl zs = {}"
proof (rule ccontr)
  assume "datas pl xs \<inter> datas pl zs \<noteq> {}"
  then obtain x z where "x \<in> set xs" "z \<in> set zs" "vdata pl x = vdata pl z" "vdata pl x \<noteq> NULL"
    by (auto simp: datas_def)
  moreover from this have "x \<noteq> z" using assms(4) by blast
  ultimately show False using chain_ok_facts(4) [OF assms(1), of x z] assms(2,3) by blast
qed

text \<open>A chain keeps what it is when only links change.\<close>

lemma chain_ok_sub:
  assumes ok: "chain_ok pl ys" and sub: "set zs \<subseteq> set ys" "distinct zs" "sorted_wrt (\<lambda>x y. vts pl y < vts pl x) zs"
    and b: "\<And>x. x \<in> set zs \<Longrightarrow> x \<in> dom (tp_blocks pl') \<and> vts pl' x = vts pl x \<and> vdata pl' x = vdata pl x"
    and d: "datas pl zs \<subseteq> dom (tp_data pl')"
  shows "chain_ok pl' zs" "datas pl' zs = datas pl zs"
proof -
  show ds: "datas pl' zs = datas pl zs" using b by (simp add: datas_def cong: image_cong)
  have "sorted_wrt (\<lambda>x y. vts pl' y < vts pl' x) zs"
    by (rule sorted_wrt_cong_on [OF sub(3)]) (use b in simp)
  moreover have "\<forall>x\<in>set zs. \<forall>y\<in>set zs. x \<noteq> y \<longrightarrow> vdata pl' x \<noteq> NULL \<longrightarrow> vdata pl' x \<noteq> vdata pl' y"
    using ok sub(1) b unfolding chain_ok_def by (simp add: subset_iff)
  moreover have "set zs \<subseteq> dom (tp_blocks pl') - {NULL}" using b sub(1) chain_okD(2) [OF ok] by auto
  ultimately show "chain_ok pl' zs" using sub(2) ds d unfolding chain_ok_def by simp
qed

context steady_provider
begin

lemma txmem_upd:
  "x \<in> dom (tp_blocks pl) \<Longrightarrow> txmem (pl\<lparr>tp_blocks := (tp_blocks pl)(x \<mapsto> b)\<rparr>, tc, st) n = txmem (pl, tc, st) n"
  "d \<in> dom (tp_data pl) \<Longrightarrow> txmem (pl\<lparr>tp_data := (tp_data pl)(d \<mapsto> bs)\<rparr>, tc, st) n = txmem (pl, tc, st) n"
  by (simp_all add: txpool_mem_def insert_absorb)

lemma txmem_less: "txmem s (Suc n) \<Longrightarrow> txmem s n"
  using room_mono by (auto simp: txpool_mem_def)

lemma free_versions_spec:
  assumes "versions (tp_blocks pl) p xs" "distinct xs" "datas pl xs \<subseteq> dom (tp_data pl)"
    and "\<forall>x\<in>set xs. \<forall>y\<in>set xs. x \<noteq> y \<longrightarrow> vdata pl x \<noteq> NULL \<longrightarrow> vdata pl x \<noteq> vdata pl y"
    and "length xs < fuel" "txmem (pl, tc, st) n"
  shows "\<exists>pl'. free_versions fuel (pl, st) p = Inr (pl', st) \<and> tp_blocks pl' = tp_blocks pl |` (- set xs) \<and>
    tp_data pl' = tp_data pl |` (- datas pl xs) \<and> same_pool pl pl' \<and> txmem (pl', tc, st) n"
  using assms
proof (induction xs arbitrary: pl p fuel)
  case Nil
  then show ?case by (cases fuel) (auto simp: datas_def)
next
  case (Cons x xs)
  then obtain f b where f: "fuel = Suc f" "length xs < f" and b: "tp_blocks pl x = Some b" "x \<noteq> NULL" "p = x"
      "versions (tp_blocks pl) (vb_next b) xs" by (cases fuel) auto
  obtain pl1 where 1: "(if vb_data b \<noteq> NULL then free_txdata (pl, st) (vb_data b) else Inr (pl, st)) = Inr (pl1, st)"
      "tp_blocks pl1 = tp_blocks pl" "tp_data pl1 = tp_data pl |` (- datas pl [x])" "same_pool pl pl1" "txmem (pl1, tc, st) n"
  proof (cases "vb_data b = NULL")
    case True
    then show ?thesis using that [of pl] Cons.prems(6) b by (simp add: datas_def restrict_map_def fun_eq_iff)
  next
    case False
    then have d: "vb_data b \<in> dom (tp_data pl)" using Cons.prems(3) b by (auto simp: datas_def)
    have "datas pl [x] = {vb_data b}" using False b by (auto simp: datas_def)
    moreover obtain pl1 where "free_txdata (pl, st) (vb_data b) = Inr (pl1, st)"
      "tp_data pl1 = (tp_data pl)(vb_data b := None)" "tp_blocks pl1 = tp_blocks pl" "same_pool pl pl1" "txmem (pl1, tc, st) n"
      using free_txdata_spec [OF Cons.prems(6) d False] by blast
    ultimately show ?thesis using that [of pl1] False by (simp add: restrict_complement_singleton_eq)
  qed
  have x1: "x \<in> dom (tp_blocks pl1)" using b 1 by auto
  obtain pl2 where 2: "free_txblock (pl1, st) x = Inr (pl2, st)" "tp_blocks pl2 = (tp_blocks pl)(x := None)"
      "tp_data pl2 = tp_data pl |` (- datas pl [x])" "same_pool pl1 pl2" "txmem (pl2, tc, st) n"
    using free_txblock_spec [OF 1(5) x1 b(2)] 1 by auto
  have eq: "tp_blocks pl2 y = tp_blocks pl y" if "y \<in> set xs" for y using that Cons.prems(2) 2(2) by auto
  have v: "versions (tp_blocks pl2) (vb_next b) xs" using b(4) eq versions_cong [of xs "tp_blocks pl2" "tp_blocks pl"] by simp
  have ds: "datas pl2 xs = datas pl xs" using eq by (simp add: datas_def)
  have ap: "datas pl [x] \<inter> datas pl xs = {}" using Cons.prems(2,4) by (auto simp: datas_def)
  have "datas pl xs \<subseteq> datas pl (x # xs)" by (auto simp: datas_def)
  then have "datas pl2 xs \<subseteq> dom (tp_data pl2)" using ap Cons.prems(3) ds 2(3) by auto
  moreover have "\<forall>y\<in>set xs. \<forall>z\<in>set xs. y \<noteq> z \<longrightarrow> vdata pl2 y \<noteq> NULL \<longrightarrow> vdata pl2 y \<noteq> vdata pl2 z"
    using Cons.prems(4) eq by simp
  ultimately obtain pl3 where 3: "free_versions f (pl2, st) (vb_next b) = Inr (pl3, st)"
      "tp_blocks pl3 = tp_blocks pl2 |` (- set xs)" "tp_data pl3 = tp_data pl2 |` (- datas pl2 xs)" "same_pool pl2 pl3"
      "txmem (pl3, tc, st) n"
    using Cons.IH [OF v _ _ _ f(2) 2(5)] Cons.prems(2) by (metis distinct.simps(2))
  have "free_versions fuel (pl, st) p = Inr (pl3, st)" using f b 1(1) 2(1) 3(1) by (simp add: txblock_at_def)
  moreover have "tp_blocks pl3 = tp_blocks pl |` (- set (x # xs))" using 2(2) 3(2) by (auto simp: restrict_map_def)
  moreover have "datas pl (x # xs) = datas pl [x] \<union> datas pl xs" by (auto simp: datas_def)
  then have "tp_data pl3 = tp_data pl |` (- datas pl (x # xs))" using 2(3) 3(3) ds by (auto simp: restrict_map_def)
  ultimately show ?case using same_pool_trans [OF same_pool_trans [OF 1(4) 2(4)] 3(4)] 3(5) by blast
qed

lemma gc_older_spec:
  assumes ok: "ref_ok pl main xs" and len: "length xs < fuel" and m: "txmem (pl, tc, st) n"
  shows "\<exists>pl'. gc_older fuel (pl, st) orv main = Inr (pl', st) \<and> txmem (pl', tc, st) n \<and>
    only (set xs) (datas pl xs) pl pl' \<and> ref_ok pl' main (kept_versions pl orv xs) \<and>
    dom (tp_blocks pl') \<subseteq> dom (tp_blocks pl) \<and> tp_data pl' \<subseteq>\<^sub>m tp_data pl \<and>
    (\<forall>x\<in>set (kept_versions pl orv xs @ [main]). vts pl' x = vts pl x \<and> vdata pl' x = vdata pl x) \<and>
    (\<forall>d\<in>datas pl (kept_versions pl orv xs @ [main]). tp_data pl' d = tp_data pl d)"
proof -
  define as where "as = takeWhile (\<lambda>x. orv < vts pl x) xs"
  define ds where "ds = dropWhile (\<lambda>x. orv < vts pl x) xs"
  have xs: "xs = as @ ds" by (simp add: as_def ds_def)
  from ok have c: "chain_ok pl (xs @ [main])" and v: "versions (tp_blocks pl) (vb_next (vblock pl main)) xs"
    by (simp_all add: ref_ok_def)
  have main: "txblock_at pl main = Inr (vblock pl main)" using chain_okD [OF c, of main] by (simp add: txblock_at_in)
  note seek = seek_version_spec [OF v len, of orv, folded ds_def]
  show ?thesis
  proof (cases ds)
    case Nil
    then have "kept_versions pl orv xs = xs" unfolding kept_versions_def as_def [symmetric] ds_def [symmetric] using xs by simp
    moreover have "gc_older fuel (pl, st) orv main = Inr (pl, st)"
      using main seek Nil by (simp add: gc_older_def)
    ultimately show ?thesis using ok m by (intro exI [of _ pl]) simp
  next
    case (Cons p bs)
    have k: "kept_versions pl orv xs = as @ [p]" unfolding kept_versions_def as_def [symmetric] ds_def [symmetric] using Cons by simp
    have xs': "xs = as @ p # bs" using xs Cons by simp
    have p: "p \<in> dom (tp_blocks pl)" "p \<noteq> NULL" using chain_okD [OF c, of p] xs' by auto
    obtain b where b: "tp_blocks pl p = Some b" using p by auto
    have di: "distinct (as @ p # bs)" "p \<notin> set as" "main \<notin> set xs" using c xs' by (auto simp: chain_ok_def)
    define pl1 where "pl1 = pl\<lparr>tp_blocks := (tp_blocks pl)(p \<mapsto> b\<lparr>vb_next := NULL\<rparr>)\<rparr>"
    note cut = versions_cut [OF v [unfolded xs'] di(2) di(1) b]
    have pbs: "tp_blocks pl1 x = tp_blocks pl x" if "x \<in> set bs" for x using that di by (auto simp: pl1_def)
    have bs1: "versions (tp_blocks pl1) (vb_next b) bs"
      using cut(2) versions_cong [OF pbs, of bs] by simp
    have dbs: "datas pl1 bs = datas pl bs" using pbs by (simp add: datas_def cong: image_cong)
    have sub: "datas pl bs \<subseteq> datas pl xs" "datas pl xs \<subseteq> dom (tp_data pl)"
      using datas_mono [of bs xs pl] datas_mono [of xs "xs @ [main]" pl] chain_ok_facts(2) [OF c] xs' by auto
    have inj: "\<forall>x\<in>set bs. \<forall>y\<in>set bs. x \<noteq> y \<longrightarrow> vdata pl1 x \<noteq> NULL \<longrightarrow> vdata pl1 x \<noteq> vdata pl1 y"
    proof (intro ballI impI)
      fix x y assume a: "x \<in> set bs" "y \<in> set bs" "x \<noteq> y" "vdata pl1 x \<noteq> NULL"
      have "x \<in> set (xs @ [main])" "y \<in> set (xs @ [main])" using a xs' by auto
      then show "vdata pl1 x \<noteq> vdata pl1 y" using chain_ok_facts(4) [OF c, of x y] a pbs by simp
    qed
    have m1: "txmem (pl1, tc, st) n" unfolding pl1_def txmem_upd(1) [OF p(1)] by (rule m)
    have "datas pl1 bs \<subseteq> dom (tp_data pl1)" using sub dbs by (simp add: pl1_def)
    then obtain pl2 where 2: "free_versions fuel (pl1, st) (vb_next b) = Inr (pl2, st)"
        "tp_blocks pl2 = tp_blocks pl1 |` (- set bs)" "tp_data pl2 = tp_data pl1 |` (- datas pl bs)" "same_pool pl1 pl2"
        "txmem (pl2, tc, st) n"
      using free_versions_spec [OF bs1 _ _ inj _ m1, of fuel] di len xs' dbs by auto
    have run: "gc_older fuel (pl, st) orv main = Inr (pl2, st)"
      using main seek Cons p b 2(1) by (simp add: gc_older_def txblock_at_def txblock_put_def pl1_def)
    have same: "same_pool pl pl2" using 2(4) by (simp add: same_pool_def pl1_def)
    have o: "only (set xs) (datas pl xs) pl pl2"
      using same 2(2,3) sub by (auto simp: only_def xs' pl1_def datas_def restrict_map_def)
    have blk: "x \<in> dom (tp_blocks pl2) \<and> vts pl2 x = vts pl x \<and> vdata pl2 x = vdata pl x"
      if x: "x \<in> set ((as @ [p]) @ [main])" for x
    proof -
      have "x \<notin> set bs" "x \<in> dom (tp_blocks pl)" using x di xs' chain_okD(1) [OF c, of x] by auto
      then show ?thesis using 2(2) b by (auto simp: pl1_def restrict_map_def)
    qed
    have apart: "datas pl ((as @ [p]) @ [main]) \<inter> datas pl bs = {}"
      by (rule datas_apart [OF c]) (use di xs' in auto)
    have dat: "\<forall>d\<in>datas pl ((as @ [p]) @ [main]). tp_data pl2 d = tp_data pl d"
      using apart 2(3) by (auto simp: pl1_def restrict_map_def)
    have dd: "datas pl ((as @ [p]) @ [main]) \<subseteq> dom (tp_data pl)"
      using chain_ok_facts(2) [OF c] datas_mono [of "(as @ [p]) @ [main]" "xs @ [main]" pl] xs' by auto
    have so: "sorted_wrt (\<lambda>x y. vts pl y < vts pl x) ((as @ [p]) @ [main])"
      using chain_ok_facts(3) [OF c] xs' by (simp add: sorted_wrt_append)
    have sub2: "set ((as @ [p]) @ [main]) \<subseteq> set (xs @ [main])" "distinct ((as @ [p]) @ [main])"
      using di xs' by auto
    have dd2: "datas pl ((as @ [p]) @ [main]) \<subseteq> dom (tp_data pl2)"
    proof
      fix d assume d: "d \<in> datas pl ((as @ [p]) @ [main])"
      then have "d \<in> dom (tp_data pl)" using dd by (rule subsetD [rotated])
      then show "d \<in> dom (tp_data pl2)" using bspec [OF dat d] by (simp add: domIff)
    qed
    have "chain_ok pl2 ((as @ [p]) @ [main])" by (rule chain_ok_sub(1) [OF c sub2 so blk dd2])
    moreover have "versions (tp_blocks pl2) (vb_next (vblock pl2 main)) (as @ [p])"
    proof -
      have "versions (tp_blocks pl2) (vb_next (vblock pl main)) (as @ [p]) =
          versions ((tp_blocks pl)(p \<mapsto> b\<lparr>vb_next := NULL\<rparr>)) (vb_next (vblock pl main)) (as @ [p])"
        by (rule versions_cong) (use di 2(2) in \<open>auto simp: pl1_def restrict_map_def\<close>)
      then have "versions (tp_blocks pl2) (vb_next (vblock pl main)) (as @ [p])" using cut(1) by blast
      moreover have "tp_blocks pl2 main = tp_blocks pl main" using di xs' 2(2) by (auto simp: pl1_def)
      ultimately show ?thesis by simp
    qed
    ultimately have "ref_ok pl2 main (as @ [p])" by (simp add: ref_ok_def)
    moreover have "dom (tp_blocks pl2) \<subseteq> dom (tp_blocks pl)" "tp_data pl2 \<subseteq>\<^sub>m tp_data pl"
      using 2(2,3) b by (auto simp: pl1_def restrict_map_def map_le_def split: if_splits)
    ultimately show ?thesis using run 2(5) o blk dat unfolding k by blast
  qed
qed

end

text \<open>The last version that is left is copied into the root. There is one input on which this goes
  wrong: the version that is left is a deletion and the root has no data.\<close>

definition collapses :: "'st fdb_txpool_alloc_t \<Rightarrow> u64 \<Rightarrow> ptr list \<Rightarrow> bool" where
  "collapses pl orv ks \<longleftrightarrow> (\<exists>y. ks = [y] \<and> vts pl y \<le> orv)"

definition collapse_ok :: "'st fdb_txpool_alloc_t \<Rightarrow> u64 \<Rightarrow> ptr \<Rightarrow> ptr list \<Rightarrow> bool" where
  "collapse_ok pl orv main ks \<longleftrightarrow> (collapses pl orv ks \<longrightarrow> vdata pl (hd ks) \<noteq> NULL \<or> vdata pl main \<noteq> NULL)"


context steady_provider
begin

lemma root_data_spec:
  assumes ok: "chain_ok pl [y, main]" and sz: "sizes_ok pl" and m: "txmem (pl, tc, st) (Suc n)"
  shows "\<exists>d pl' st'. root_data (pl, st) main (vblock pl main) = Inr (pl', st') \<and> txmem (pl', tc, st') n \<and> sizes_ok pl' \<and> same_pool pl pl' \<and>
    d \<noteq> NULL \<and> (if vdata pl main = NULL then d \<notin> dom (tp_data pl) else d = vdata pl main) \<and>
    tp_blocks pl' = (tp_blocks pl)(main \<mapsto> (vblock pl main)\<lparr>vb_data := d\<rparr>) \<and>
    d \<in> dom (tp_data pl') \<and> (\<forall>e. e \<noteq> d \<longrightarrow> tp_data pl' e = tp_data pl e)"
proof (cases "vdata pl main = NULL")
  case True
  have main: "main \<in> dom (tp_blocks pl)" "main \<noteq> NULL" using chain_okD [OF ok, of main] by auto
  obtain d pl1 st1 where 1: "new_txdata (pl, st) FDB_NO_HINT = (d, (pl1, st1))" "d \<noteq> NULL" "d \<notin> dom (tp_data pl)"
      "tp_data pl1 = (tp_data pl)(d \<mapsto> tp_raw pl d)" "tp_blocks pl1 = tp_blocks pl" "same_pool pl pl1" "txmem (pl1, tc, st1) n"
    using new_txdata_spec [OF m, of FDB_NO_HINT] by blast
  define pl2 where "pl2 = pl1\<lparr>tp_blocks := (tp_blocks pl)(main \<mapsto> (vblock pl main)\<lparr>vb_data := d\<rparr>)\<rparr>"
  have main1: "main \<in> dom (tp_blocks pl1)" using main 1(5) by simp
  have put: "txblock_put pl1 main (\<lambda>b. b\<lparr>vb_data := d\<rparr>) = Inr pl2"
    using txblock_put_in [OF main1 main(2)] 1(5) by (simp add: pl2_def)
  have "txmem (pl2, tc, st1) n" using txmem_upd(1) [OF main1] 1(5,7) by (simp add: pl2_def)
  moreover have "sizes_ok pl2" using sz 1(2,4,6) by (auto simp: sizes_ok_def pl2_def same_pool_def)
  moreover have "same_pool pl pl2" using 1(6) by (simp add: same_pool_def pl2_def)
  ultimately show ?thesis using True 1 put
    by (intro exI [of _ d] exI [of _ pl2] exI [of _ st1]) (simp add: pl2_def root_data_def)
next
  case False
  then have "vdata pl main \<in> dom (tp_data pl)" using chain_okD [OF ok, of main] by auto
  moreover have "tp_blocks pl = (tp_blocks pl)(main \<mapsto> (vblock pl main)\<lparr>vb_data := vdata pl main\<rparr>)"
    using chain_okD(1) [OF ok, of main] by auto
  ultimately show ?thesis using False sz txmem_less [OF m]
    by (intro exI [of _ "vdata pl main"] exI [of _ pl] exI [of _ st]) (auto simp: root_data_def)
qed

lemma collapse_data_spec:
  assumes ok: "chain_ok pl [y, main]" and sz: "sizes_ok pl" and m: "txmem (pl, tc, st) (Suc n)"
    and nz: "vdata pl y \<noteq> NULL \<or> vdata pl main \<noteq> NULL"
  shows "\<exists>d pl' st'. collapse_data (pl, st) main (vblock pl main) (vblock pl y) = Inr (pl', st') \<and>
    txmem (pl', tc, st') n \<and> sizes_ok pl' \<and> same_pool pl pl' \<and>
    tp_blocks pl' = (tp_blocks pl)(main \<mapsto> (vblock pl main)\<lparr>vb_data := d\<rparr>) \<and>
    (d \<noteq> NULL \<longrightarrow> d \<notin> dom (tp_data pl) \<or> d = vdata pl main) \<and>
    (if vdata pl y = NULL then d = NULL else d \<noteq> NULL \<and> tp_data pl' d = tp_data pl (vdata pl y)) \<and>
    (\<forall>e. e \<noteq> d \<longrightarrow> e \<noteq> vdata pl main \<longrightarrow> tp_data pl' e = tp_data pl e)"
proof (cases "vdata pl y = NULL")
  case True
  then have r: "vdata pl main \<noteq> NULL" using nz by simp
  then have d: "vdata pl main \<in> dom (tp_data pl)" and main: "main \<in> dom (tp_blocks pl)" "main \<noteq> NULL"
    using chain_okD [OF ok, of main] by auto
  obtain pl1 where 1: "free_txdata (pl, st) (vdata pl main) = Inr (pl1, st)" "tp_data pl1 = (tp_data pl)(vdata pl main := None)"
      "tp_blocks pl1 = tp_blocks pl" "same_pool pl pl1" "txmem (pl1, tc, st) (Suc n)"
    using free_txdata_spec [OF m d r] by blast
  define pl2 where "pl2 = pl1\<lparr>tp_blocks := (tp_blocks pl)(main \<mapsto> (vblock pl main)\<lparr>vb_data := NULL\<rparr>)\<rparr>"
  have main1: "main \<in> dom (tp_blocks pl1)" using main 1(3) by simp
  have put: "txblock_put pl1 main (\<lambda>b. b\<lparr>vb_data := NULL\<rparr>) = Inr pl2"
    using txblock_put_in [OF main1 main(2)] 1(3) by (simp add: pl2_def)
  have "txmem (pl2, tc, st) n" using txmem_upd(1) [OF main1] 1(3) txmem_less [OF 1(5)] by (simp add: pl2_def)
  moreover have "sizes_ok pl2" using sz 1(2,4) by (auto simp: sizes_ok_def pl2_def same_pool_def split: if_splits)
  moreover have "same_pool pl pl2" using 1(4) by (simp add: same_pool_def pl2_def)
  ultimately show ?thesis using True 1 put
    by (intro exI [of _ NULL] exI [of _ pl2] exI [of _ st]) (simp add: pl2_def collapse_data_def)
next
  case False
  obtain d pl1 st1 where 1: "root_data (pl, st) main (vblock pl main) = Inr (pl1, st1)" "txmem (pl1, tc, st1) n" "sizes_ok pl1" "same_pool pl pl1"
      "d \<noteq> NULL" "if vdata pl main = NULL then d \<notin> dom (tp_data pl) else d = vdata pl main"
      "tp_blocks pl1 = (tp_blocks pl)(main \<mapsto> (vblock pl main)\<lparr>vb_data := d\<rparr>)"
      "d \<in> dom (tp_data pl1)" "\<forall>e. e \<noteq> d \<longrightarrow> tp_data pl1 e = tp_data pl e"
    using root_data_spec [OF ok sz m] by blast
  have ym: "y \<noteq> main" using chain_ok_facts(1) [OF ok] by simp
  have main: "main \<noteq> NULL" using chain_okD [OF ok, of main] by auto
  have dy: "vdata pl y \<in> dom (tp_data pl)" using chain_okD(3) [OF ok, of y] False by simp
  have ney: "vdata pl y \<noteq> d"
    using 1(6) dy chain_ok_facts(4) [OF ok, of y main] ym False by (auto split: if_splits)
  obtain s t where s: "tp_data pl (vdata pl y) = Some s" "tp_data pl1 (vdata pl y) = Some s"
    and t: "tp_data pl1 d = Some t" using dy ney 1(8,9) by auto
  have len: "length s = unat (tp_data_size pl1)" "length t = unat (tp_data_size pl1)"
    using 1(3) s t unfolding sizes_ok_def by blast+
  define pl2 where "pl2 = pl1\<lparr>tp_data := (tp_data pl1)(d \<mapsto> s)\<rparr>"
  have copy: "txdata_copy pl1 d (vdata pl y) = Inr pl2"
    using s t len False 1(5) by (simp add: txdata_copy_def txdata_at_def pl2_def)
  have r: "txblock_at pl1 main = Inr ((vblock pl main)\<lparr>vb_data := d\<rparr>)" using main 1(7) by (simp add: txblock_at_def)
  have y1: "vdata pl1 y = vdata pl y" using 1(7) ym by simp
  have "txmem (pl2, tc, st1) n" unfolding pl2_def txmem_upd(2) [OF 1(8)] by (rule 1(2))
  moreover have "sizes_ok pl2" using 1(3,5) len by (auto simp: sizes_ok_def pl2_def)
  moreover have "same_pool pl pl2" using 1(4) by (simp add: same_pool_def pl2_def)
  moreover have "d \<notin> dom (tp_data pl) \<or> d = vdata pl main" using 1(6) by (auto split: if_splits)
  moreover have "collapse_data (pl, st) main (vblock pl main) (vblock pl y) = Inr (pl2, st1)"
    using False r copy 1(1) by (simp add: collapse_data_def)
  ultimately show ?thesis using False 1(5,7,9) s y1
    by (intro exI [of _ d] exI [of _ pl2] exI [of _ st1]) (simp add: pl2_def)
qed

end

context steady_provider
begin

lemma gc_collapse_spec:
  assumes ok: "ref_ok pl main ks" and sz: "sizes_ok pl" and m: "txmem (pl, tc, st) (Suc (Suc n))"
    and es: "garbage tc es" and nz: "collapse_ok pl orv main ks"
  shows "\<exists>pl' tc' st' ks' es'. gc_collapse palloc (pl, tc, st) orv main = Inr (pl', tc', st') \<and>
    txmem (pl', tc', st') n \<and> garbage tc' es' \<and> sizes_ok pl' \<and> only {main} (datas pl [main]) pl pl' \<and>
    ref_ok pl' main ks' \<and> ks' = (if collapses pl orv ks then [] else ks) \<and>
    (\<forall>v\<ge>orv. seen pl' v (ks' @ [main]) = seen pl v (ks @ [main]) \<and>
       (pointer_seen pl v (ks @ [main]) \<noteq> NULL \<longrightarrow> 
          tp_data pl' (pointer_seen pl v (ks @ [main])) = tp_data pl (pointer_seen pl v (ks @ [main])))) \<and>
    datas pl' (ks' @ [main]) \<subseteq> datas pl (ks @ [main]) \<union> - dom (tp_data pl) \<and>
    vts pl' (hd (ks' @ [main])) = vts pl (hd (ks @ [main])) \<and> (vts pl' main = vts pl main \<or> vts pl' main \<le> orv)"
proof -
  from ok have c: "chain_ok pl (ks @ [main])" and v: "versions (tp_blocks pl) (vb_next (vblock pl main)) ks"
    by (simp_all add: ref_ok_def)
  have main: "main \<in> dom (tp_blocks pl)" "main \<noteq> NULL" using chain_okD [OF c, of main] by auto
  have at: "txblock_at pl main = Inr (vblock pl main)" by (rule txblock_at_in [OF main])
  have nxt: "vb_next (vblock pl main) = (case ks of [] \<Rightarrow> NULL | x # _ \<Rightarrow> x)" by (rule versions_hd [OF v])
  show ?thesis
  proof (cases "collapses pl orv ks")
    case False
    have "gc_collapse palloc (pl, tc, st) orv main = Inr (pl, tc, st)"
    proof (cases ks)
      case Nil
      then show ?thesis using at nxt by (simp add: gc_collapse_def)
    next
      case (Cons y ys)
      have y: "y \<in> dom (tp_blocks pl)" "y \<noteq> NULL" using chain_okD [OF c, of y] Cons by auto
      have "vb_next (vblock pl y) = NULL \<Longrightarrow> ys = []"
        using v Cons by (cases ys) auto
      then have "\<not> (vb_next (vblock pl y) = NULL \<and> vts pl y \<le> orv)" using False Cons by (auto simp: collapses_def)
      then show ?thesis using at nxt Cons txblock_at_in [OF y] y by (auto simp: gc_collapse_def Let_def)
    qed
    then show ?thesis
      using txmem_less [OF txmem_less [OF m]] es sz ok False
      by (intro exI [of _ pl] exI [of _ tc] exI [of _ st] exI [of _ ks] exI [of _ es]) simp
  next
    case True
    then obtain y where ks: "ks = [y]" and ty: "vts pl y \<le> orv" by (auto simp: collapses_def)
    have y: "y \<in> dom (tp_blocks pl)" "y \<noteq> NULL" "y \<noteq> main"
      using chain_okD [OF c, of y] chain_ok_facts(1) [OF c] ks by auto
    have yn: "vb_next (vblock pl y) = NULL" using v ks by auto
    have ok2: "chain_ok pl [y, main]" using c ks by simp
    have "vdata pl y \<noteq> NULL \<or> vdata pl main \<noteq> NULL" using nz True ks by (simp add: collapse_ok_def)
    from collapse_data_spec [OF ok2 sz m this] obtain d pl1 st1 where
      run1: "collapse_data (pl, st) main (vblock pl main) (vblock pl y) = Inr (pl1, st1)"
      and m1: "txmem (pl1, tc, st1) (Suc n)" and sz1: "sizes_ok pl1" and sp1: "same_pool pl pl1"
      and b1: "tp_blocks pl1 = (tp_blocks pl)(main \<mapsto> (vblock pl main)\<lparr>vb_data := d\<rparr>)"
      and d1: "d \<noteq> NULL \<longrightarrow> d \<notin> dom (tp_data pl) \<or> d = vdata pl main"
      and d2: "if vdata pl y = NULL then d = NULL else d \<noteq> NULL \<and> tp_data pl1 d = tp_data pl (vdata pl y)"
      and d3: "\<forall>e. e \<noteq> d \<longrightarrow> e \<noteq> vdata pl main \<longrightarrow> tp_data pl1 e = tp_data pl e" by blast
    define pl2 where "pl2 = pl1\<lparr>tp_blocks := (tp_blocks pl)(main \<mapsto> (vblock pl main)\<lparr>vb_data := d, vb_ts := vts pl y, vb_next := NULL\<rparr>)\<rparr>"
    have main1: "main \<in> dom (tp_blocks pl1)" using b1 by simp
    have put: "txblock_put pl1 main (\<lambda>b. b\<lparr>vb_ts := vts pl y, vb_next := NULL\<rparr>) = Inr pl2"
      using txblock_put_in [OF main1 main(2)] b1 by (simp add: pl2_def)
    have m2: "txmem (pl2, tc, st1) (Suc n)" using txmem_upd(1) [OF main1] b1 m1 by (simp add: pl2_def)
    from add_entry_spec [OF m2 es, of palloc y] obtain e tc' st' where
      g: "fdb_txthread_ctx_add_entry (tc, st1) palloc y = Inr (tc', st')" "garbage tc' (e # es)" "txmem (pl2, tc', st') n"
      by blast
    have run: "gc_collapse palloc (pl, tc, st) orv main = Inr (pl2, tc', st')"
      using at nxt ks y txblock_at_in [OF y(1,2)] yn ty run1 put g(1) by (simp add: gc_collapse_def Let_def)
    have sz2: "sizes_ok pl2" using sz1 by (simp add: sizes_ok_def pl2_def)
    have o: "only {main} (datas pl [main]) pl pl2"
      unfolding only_def
    proof (intro conjI ballI)
      fix e assume e: "e \<in> dom (tp_data pl) - datas pl [main]"
      then have "e \<noteq> NULL" using sz by (auto simp: sizes_ok_def)
      then have "e \<noteq> d" "e \<noteq> vdata pl main" using d1 e by (auto simp: datas_def)
      then show "tp_data pl2 e = tp_data pl e" using d3 by (simp add: pl2_def)
    qed (use sp1 in \<open>simp_all add: same_pool_def pl2_def\<close>)
    have dy: "vdata pl y \<noteq> NULL \<Longrightarrow> vdata pl y \<in> dom (tp_data pl)" using chain_okD(3) [OF ok2, of y] by simp
    have dm: "d \<noteq> NULL \<Longrightarrow> d \<in> dom (tp_data pl2)"
      using d2 dy by (auto simp: pl2_def split: if_splits)
    have ref: "ref_ok pl2 main []" using main dm by (auto simp: ref_ok_def chain_ok_def datas_def pl2_def)
    have seen: "seen pl2 w ([] @ [main]) = seen pl w (ks @ [main]) \<and>
       (pointer_seen pl w (ks @ [main]) \<noteq> NULL \<longrightarrow>
          tp_data pl2 (pointer_seen pl w (ks @ [main])) = tp_data pl (pointer_seen pl w (ks @ [main])))" if w: "orv \<le> w" for w
    proof -
      have "vts pl y \<le> w" using ty w by simp
      moreover have "vdata pl y \<noteq> NULL \<Longrightarrow> tp_data pl1 (vdata pl y) = tp_data pl (vdata pl y)"
        using d1 d3 dy chain_ok_facts(4) [OF ok2, of y main] y(3) by (cases "vdata pl y = d") auto
      ultimately show ?thesis using d2 ks y(3) by (auto simp: seen_def pl2_def split: if_splits)
    qed
    have "datas pl2 ([] @ [main]) \<subseteq> datas pl (ks @ [main]) \<union> - dom (tp_data pl)"
      using d1 by (auto simp: datas_def pl2_def)
    moreover have "vts pl2 (hd ([] @ [main])) = vts pl (hd (ks @ [main]))" "vts pl2 main \<le> orv"
      using ks ty by (simp_all add: pl2_def)
    ultimately show ?thesis
      using run g sz2 o ref seen True
      by (intro exI [of _ pl2] exI [of _ tc'] exI [of _ st'] exI [of _ "[]"] exI [of _ "e # es"]) simp
  qed
qed

end

lemma kept_facts:
  shows "set (kept_versions pl orv xs) \<subseteq> set xs" "length (kept_versions pl orv xs) \<le> length xs"
    "hd (kept_versions pl orv xs @ [main]) = hd (xs @ [main])"
    "kept_versions pl orv xs \<noteq> [] \<Longrightarrow> \<not> collapses pl orv (kept_versions pl orv xs) \<Longrightarrow> orv < vts pl (hd (kept_versions pl orv xs))"
    "orv \<le> v \<Longrightarrow> pointer_seen pl v (kept_versions pl orv xs @ zs) = pointer_seen pl v (xs @ zs)"
proof -
  define as where "as = takeWhile (\<lambda>x. orv < vts pl x) xs"
  define ds where "ds = dropWhile (\<lambda>x. orv < vts pl x) xs"
  have xs: "xs = as @ ds" by (simp add: as_def ds_def)
  have as: "\<forall>x\<in>set as. orv < vts pl x" unfolding as_def by (auto dest: set_takeWhileD)
  have ds: "ds \<noteq> [] \<Longrightarrow> vts pl (hd ds) \<le> orv"
    unfolding ds_def using hd_dropWhile [of "\<lambda>x. orv < vts pl x" xs] by (simp add: not_less)
  have k: "kept_versions pl orv xs = as @ take 1 ds" by (simp add: kept_versions_def as_def ds_def)
  have "set (kept_versions pl orv xs) \<subseteq> set (as @ ds)" using set_take_subset [of 1 ds] by (auto simp: k)
  then show "set (kept_versions pl orv xs) \<subseteq> set xs" using xs by simp
  have "length (kept_versions pl orv xs) \<le> length (as @ ds)" by (simp add: k)
  then show "length (kept_versions pl orv xs) \<le> length xs" using xs by simp
  have "hd (kept_versions pl orv xs @ [main]) = hd ((as @ ds) @ [main])" unfolding k by (cases as; cases ds) auto
  then show "hd (kept_versions pl orv xs @ [main]) = hd (xs @ [main])" using xs by simp
  show "kept_versions pl orv xs \<noteq> [] \<Longrightarrow> \<not> collapses pl orv (kept_versions pl orv xs) \<Longrightarrow> orv < vts pl (hd (kept_versions pl orv xs))"
    unfolding k using as ds by (cases as; cases ds) (auto simp: collapses_def)
  show "pointer_seen pl v (kept_versions pl orv xs @ zs) = pointer_seen pl v (xs @ zs)" if "orv \<le> v"
  proof (cases ds)
    case (Cons p bs)
    then have "vts pl p \<le> v" using ds that by simp
    then have "pointer_seen pl v (kept_versions pl orv xs @ zs) = pointer_seen pl v ((as @ ds) @ zs)"
      unfolding k Cons by (simp add: pointer_seen_append)
    then show ?thesis using xs by simp
  next
    case Nil
    then have "kept_versions pl orv xs = as" "xs = as" using k xs by simp_all
    then show ?thesis by (simp only:)
  qed
qed

context steady_provider
begin

text \<open>A collection that is not forced: whoever sees a version from \<open>orv\<close> on finds the same bytes behind
  the reference, and a pointer that was obtained before still leads to them.\<close>

lemma gc_spec:
  assumes ok: "ref_ok pl main xs" and len: "length xs < fuel" and sz: "sizes_ok pl"
    and m: "txmem (pl, tc, st) (Suc (Suc n))" and es: "garbage tc es" and nz: "collapse_ok pl orv main (kept_versions pl orv xs)"
  shows "\<exists>gced pl' tc' st' xs' es'. fdb_txpool_alloc_gc fuel palloc (pl, tc, st) orv main False = Inr (gced, (pl', tc', st')) \<and>
    txmem (pl', tc', st') n \<and> garbage tc' es' \<and> sizes_ok pl' \<and>
    only (set (xs @ [main])) (datas pl (xs @ [main])) pl pl' \<and>
    (\<forall>v\<ge>orv. pointer_seen pl v (xs @ [main]) \<noteq> NULL \<longrightarrow>
       tp_data pl' (pointer_seen pl v (xs @ [main])) = tp_data pl (pointer_seen pl v (xs @ [main]))) \<and>
    (if gced then main \<notin> dom (tp_blocks pl') \<and> vts pl (hd (xs @ [main])) < orv \<and>
       (\<forall>v\<ge>orv. seen pl v (xs @ [main]) = None)
     else ref_ok pl' main xs' \<and> length xs' \<le> length xs \<and> set xs' \<subseteq> set xs \<and> 
       (\<forall>v\<ge>orv. seen pl' v (xs' @ [main]) = seen pl v (xs @ [main])) \<and>
       datas pl' (xs' @ [main]) \<subseteq> datas pl (xs @ [main]) \<union> - dom (tp_data pl) \<and>
       vts pl' (hd (xs' @ [main])) = vts pl (hd (xs @ [main])) \<and> (xs' \<noteq> [] \<longrightarrow> orv < vts pl' (hd xs')) \<and>
       (vts pl' main = vts pl main \<or> vts pl' main \<le> orv))"
proof -
  define K where "K = kept_versions pl orv xs"
  have c: "chain_ok pl (xs @ [main])" using ok by (simp add: ref_ok_def)
  from gc_older_spec [OF ok len m, of orv] obtain pl1 where
    1: "gc_older fuel (pl, st) orv main = Inr (pl1, st)" "txmem (pl1, tc, st) (Suc (Suc n))"
      "only (set xs) (datas pl xs) pl pl1" "ref_ok pl1 main K" "dom (tp_blocks pl1) \<subseteq> dom (tp_blocks pl)"
      "tp_data pl1 \<subseteq>\<^sub>m tp_data pl"
    and b1: "\<forall>x\<in>set (K @ [main]). vts pl1 x = vts pl x \<and> vdata pl1 x = vdata pl x"
    and d1: "\<forall>d\<in>datas pl (K @ [main]). tp_data pl1 d = tp_data pl d" unfolding K_def by blast
  have sz1: "sizes_ok pl1"
  proof -
    have "\<forall>d bs. tp_data pl1 d = Some bs \<longrightarrow> length bs = unat (tp_data_size pl)"
      using map_le_Some [OF 1(6)] sz unfolding sizes_ok_def by blast
    moreover have "tp_data pl1 NULL = None"
      using sz map_le_Some [OF 1(6), of NULL] by (cases "tp_data pl1 NULL") (auto simp: sizes_ok_def)
    ultimately show ?thesis using sz 1(3) by (simp add: sizes_ok_def only_def same_pool_def)
  qed
  have cs: "collapses pl1 orv K = collapses pl orv K" using b1 by (cases K; auto simp: collapses_def)
  have nz1: "collapse_ok pl1 orv main K"
  proof (cases "collapses pl orv K")
    case True
    then have "hd K \<in> set (K @ [main])" by (auto simp: collapses_def)
    then have "vdata pl1 (hd K) = vdata pl (hd K)" "vdata pl1 main = vdata pl main" using b1 by auto
    then show ?thesis using nz cs unfolding collapse_ok_def K_def [symmetric] by simp
  qed (simp add: collapse_ok_def cs)
  have dK: "datas pl1 (K @ [main]) = datas pl (K @ [main])" using b1 by (simp add: datas_def cong: image_cong)
  have sub: "datas pl (K @ [main]) \<subseteq> datas pl (xs @ [main])"
    using kept_facts(1) [of pl orv xs] by (intro datas_mono) (auto simp: K_def)
  have ps1: "pointer_seen pl1 v (K @ [main]) = pointer_seen pl v (xs @ [main])" if "orv \<le> v" for v
  proof -
    have "pointer_seen pl1 v (K @ [main]) = pointer_seen pl v (K @ [main])"
      by (rule pointer_seen_cong) (use b1 in blast)
    then show ?thesis using kept_facts(5) [OF that, of pl xs "[main]"] by (simp add: K_def)
  qed
  have data1: "tp_data pl1 (pointer_seen pl v (xs @ [main])) = tp_data pl (pointer_seen pl v (xs @ [main]))"
    if "orv \<le> v" "pointer_seen pl v (xs @ [main]) \<noteq> NULL" for v
    using pointer_seen_in [of pl1 v "K @ [main]"] that d1 dK ps1 by auto
  have seen1: "seen pl1 v (K @ [main]) = seen pl v (xs @ [main])" if "orv \<le> v" for v
    using data1 [OF that] ps1 [OF that] by (simp add: seen_def)
  from gc_collapse_spec [OF 1(4) sz1 1(2) es nz1, of palloc] obtain pl2 tc2 st2 ks2 es2 where
    2: "gc_collapse palloc (pl1, tc, st) orv main = Inr (pl2, tc2, st2)" "txmem (pl2, tc2, st2) n"
      "garbage tc2 es2" "sizes_ok pl2" "only {main} (datas pl1 [main]) pl1 pl2" "ref_ok pl2 main ks2"
    and ks2: "ks2 = (if collapses pl1 orv K then [] else K)"
    and seen2: "\<forall>v\<ge>orv. seen pl2 v (ks2 @ [main]) = seen pl1 v (K @ [main]) \<and>
       (pointer_seen pl1 v (K @ [main]) \<noteq> NULL \<longrightarrow>
          tp_data pl2 (pointer_seen pl1 v (K @ [main])) = tp_data pl1 (pointer_seen pl1 v (K @ [main])))"
    and dat2: "datas pl2 (ks2 @ [main]) \<subseteq> datas pl1 (K @ [main]) \<union> - dom (tp_data pl1)"
    and ts2: "vts pl2 (hd (ks2 @ [main])) = vts pl1 (hd (K @ [main]))"
    and ts3: "vts pl2 main = vts pl1 main \<or> vts pl2 main \<le> orv" by blast
  have main: "main \<in> dom (tp_blocks pl2)" "main \<noteq> NULL" using 2(6) chain_okD [of pl2 "ks2 @ [main]" main] by (auto simp: ref_ok_def)
  have o2: "only (set (xs @ [main])) (datas pl (xs @ [main])) pl pl2"
  proof (rule only_trans [OF only_mono [OF 1(3)] 2(5)])
    show "set xs \<subseteq> set (xs @ [main])" by (simp add: subset_insertI)
    show "datas pl xs \<subseteq> datas pl (xs @ [main])" by (rule datas_mono) auto
    have "datas pl1 [main] \<subseteq> datas pl1 (K @ [main])" by (rule datas_mono) auto
    then show "datas pl1 [main] \<inter> dom (tp_data pl) \<subseteq> datas pl (xs @ [main])" using dK sub by blast
  qed auto
  have ts: "vts pl2 (hd (ks2 @ [main])) = vts pl (hd (xs @ [main]))"
  proof -
    have "hd (K @ [main]) \<in> set (K @ [main])" by (rule hd_in_set) simp
    then show ?thesis using ts2 b1 kept_facts(3) [of pl orv xs main] by (auto simp: K_def)
  qed
  have seen: "seen pl2 v (ks2 @ [main]) = seen pl v (xs @ [main])" if "orv \<le> v" for v
    using seen1 [OF that] seen2 [rule_format, OF that] by simp
  have ptr: "tp_data pl2 (pointer_seen pl v (xs @ [main])) = tp_data pl (pointer_seen pl v (xs @ [main]))"
    if "orv \<le> v" "pointer_seen pl v (xs @ [main]) \<noteq> NULL" for v
    using seen2 [rule_format, OF that(1)] that(2) unfolding ps1 [OF that(1)] data1 [OF that] by blast
  have nk: "vb_next (vblock pl2 main) = NULL \<longleftrightarrow> ks2 = []"
    using 2(6) by (cases ks2) (auto simp: ref_ok_def)
  show ?thesis
  proof (cases "vdata pl2 main = NULL \<and> ks2 = [] \<and> vts pl2 main < orv")
    case True
    from free_txblock_spec [OF 2(2) main] obtain pl3 where
      3: "free_txblock (pl2, st2) main = Inr (pl3, st2)" "tp_blocks pl3 = (tp_blocks pl2)(main := None)"
        "tp_data pl3 = tp_data pl2" "same_pool pl2 pl3" "txmem (pl3, tc2, st2) n" by blast
    have run: "fdb_txpool_alloc_gc fuel palloc (pl, tc, st) orv main False = Inr (True, (pl3, tc2, st2))"
      using 1(1) 2(1) 3(1) True nk txblock_at_in [OF main] by (simp add: fdb_txpool_alloc_gc_def gc_root_def)
    have "only {main} {} pl2 pl3" using 3 by (auto simp: only_def)
    from only_trans [OF o2 this] have o3: "only (set (xs @ [main])) (datas pl (xs @ [main])) pl pl3" by auto
    have "sizes_ok pl3" using 2(4) 3(3,4) by (simp add: sizes_ok_def same_pool_def)
    moreover have "seen pl v (xs @ [main]) = None" if "orv \<le> v" for v
    proof -
      have "pointer_seen pl2 v (ks2 @ [main]) = NULL" using True by simp
      then have "seen pl2 v (ks2 @ [main]) = None" by (simp add: seen_def)
      then show ?thesis using seen [OF that] by simp
    qed
    moreover have "vts pl (hd (xs @ [main])) < orv" using ts True by simp
    ultimately show ?thesis using run 3 2(3) o3 ptr
      by (intro exI [of _ True] exI [of _ pl3] exI [of _ tc2] exI [of _ st2] exI [of _ xs] exI [of _ es2]) auto
  next
    case False
    then have run: "fdb_txpool_alloc_gc fuel palloc (pl, tc, st) orv main False = Inr (False, (pl2, tc2, st2))"
      using 1(1) 2(1) nk txblock_at_in [OF main] by (auto simp: fdb_txpool_alloc_gc_def gc_root_def)
    have "length ks2 \<le> length xs" "set ks2 \<subseteq> set xs"
      using ks2 kept_facts(1,2) [of pl orv xs] by (auto simp: K_def)
    moreover have "orv < vts pl2 (hd ks2)" if "ks2 \<noteq> []"
    proof -
      have "ks2 = K" "\<not> collapses pl orv K" using that ks2 cs by (auto split: if_splits)
      moreover have "vts pl1 (hd K) = vts pl (hd K)" using b1 that calculation(1) by simp
      ultimately show ?thesis using kept_facts(4) [of pl orv xs] ts2 that by (simp add: K_def)
    qed
    moreover have "datas pl2 (ks2 @ [main]) \<subseteq> datas pl (xs @ [main]) \<union> - dom (tp_data pl)"
    proof
      fix d assume d: "d \<in> datas pl2 (ks2 @ [main])"
      show "d \<in> datas pl (xs @ [main]) \<union> - dom (tp_data pl)"
      proof (cases "d \<in> datas pl1 (K @ [main])")
        case False
        then have "d \<notin> dom (tp_data pl1)" using d dat2 by blast
        moreover have "d \<in> datas pl xs" if "d \<in> dom (tp_data pl)" "d \<notin> dom (tp_data pl1)"
          using only_data [OF 1(3) that(1)] that by (metis domIff)
        ultimately show ?thesis using datas_mono [of xs "xs @ [main]" pl] by auto
      qed (use dK sub in blast)
    qed
    moreover have "vts pl2 main = vts pl main \<or> vts pl2 main \<le> orv" using ts3 b1 by simp
    ultimately show ?thesis using run 2 o2 ptr seen ts
      by (intro exI [of _ False] exI [of _ pl2] exI [of _ tc2] exI [of _ st2] exI [of _ ks2] exI [of _ es2]) simp
  qed
qed

end

end
