(* ===== verification/TxPoolSpec.thy ===== *)
theory TxPoolSpec
  imports TxPool
begin

text \<open>
  What the operations of the transactional pool do to what transactions see, the composition of the
  pool with the transaction manager, and the inputs on which isolation breaks. An operation of the
  writing transaction changes nothing for the versions below its own: this is what the lemmas of the
  first sections say, and what the run of a client system rests on.
\<close>

section \<open>Operations on one reference\<close>

text \<open>\<open>ref_sized\<close>: the reference's chain with everything an operation keeps.\<close>

lemma chain_ok_single:
  "chain_ok pl [x] \<longleftrightarrow> x \<in> dom (tp_blocks pl) \<and> x \<noteq> NULL \<and> (vdata pl x \<noteq> NULL \<longrightarrow> vdata pl x \<in> dom (tp_data pl))"
  by (auto simp: chain_ok_def datas_def)

lemma chain_ok_Cons:
  "chain_ok pl (x # ys) \<longleftrightarrow> chain_ok pl ys \<and> x \<notin> set ys \<and> x \<in> dom (tp_blocks pl) \<and> x \<noteq> NULL \<and>
     (\<forall>y\<in>set ys. vts pl y < vts pl x) \<and>
     (vdata pl x \<noteq> NULL \<longrightarrow> vdata pl x \<in> dom (tp_data pl) \<and> vdata pl x \<notin> datas pl ys)"
  by (auto simp: chain_ok_def datas_def image_iff) 

lemma chain_nil [simp]: "chain_ok pl []" "datas pl [] = {}"
  by (simp_all add: chain_ok_def datas_def)

lemma datas_Cons: "datas pl (x # ys) = datas pl ys \<union> (if vdata pl x = NULL then {} else {vdata pl x})"
  by (auto simp: datas_def)

lemma versions_head_new:
  assumes "versions B p xs" "b \<notin> set xs" "b \<noteq> NULL" "vb_next blk = p" "B b = Some blk"
  shows "versions B b (b # xs)"
  using assms by simp

lemma txmem_le: "steady_provider alloc free ainv room serves S \<Longrightarrow> txpool_mem alloc free ainv room S s (k + n) \<Longrightarrow>
    txpool_mem alloc free ainv room S s n"
  by (induction k) (auto dest: steady_provider.txmem_less)

lemma txmem_refs:
  "txpool_mem alloc free ainv room S (pl, tc, st) n \<Longrightarrow> tp_data_palloc pl' = tp_data_palloc pl \<Longrightarrow>
   tp_block_palloc pl' = tp_block_palloc pl \<Longrightarrow> same_pool pl pl' \<Longrightarrow> dom (tp_blocks pl') = dom (tp_blocks pl) \<Longrightarrow>
   dom (tp_data pl') = dom (tp_data pl) \<Longrightarrow> txpool_mem alloc free ainv room S (pl', tc, st) n"
  by (simp add: txpool_mem_def same_pool_def)

context steady_provider
begin

text \<open>Allocation: from the version of the transaction on the new data are found, before it nothing.\<close>

lemma tx_alloc_spec:
  assumes m: "txmem (pl, tc, st) (Suc (Suc (Suc n)))" and sz: "sizes_ok pl" and v: "0 < tx_txversion tx"
  shows "\<exists>ref b pl' st'. fdb_txpool_alloc_alloc (pl, st) tx h = Inr (ref, (pl', st')) \<and> txmem (pl', tc, st') n \<and>
    sizes_ok pl' \<and> only {} {} pl pl' \<and> ref_ok pl' (p_main ref) [b] \<and> vts pl' b = tx_txversion tx \<and>
    vts pl' (p_main ref) = 0 \<and> vdata pl' (p_main ref) = NULL \<and> vdata pl' b \<noteq> NULL \<and>
    b \<notin> dom (tp_blocks pl) \<and> p_main ref \<notin> dom (tp_blocks pl) \<and> vdata pl' b \<notin> dom (tp_data pl)"
proof -
  obtain r pl1 st1 where 1: "new_txblock (pl, st) = Inr (r, (pl1, st1))" "r \<noteq> NULL" "r \<notin> dom (tp_blocks pl)"
      "tp_blocks pl1 = (tp_blocks pl)(r \<mapsto> zero_txblock)" "tp_data pl1 = tp_data pl" "same_pool pl pl1"
      "txmem (pl1, tc, st1) (Suc (Suc n))"
    using new_txblock_spec [OF m] by blast
  obtain b pl2 st2 where 2: "new_txblock (pl1, st1) = Inr (b, (pl2, st2))" "b \<noteq> NULL" "b \<notin> dom (tp_blocks pl1)"
      "tp_blocks pl2 = (tp_blocks pl1)(b \<mapsto> zero_txblock)" "tp_data pl2 = tp_data pl1" "same_pool pl1 pl2"
      "txmem (pl2, tc, st2) (Suc n)"
    using new_txblock_spec [OF 1(7)] by blast
  obtain d pl3 st3 where 3: "new_txdata (pl2, st2) h = (d, (pl3, st3))" "d \<noteq> NULL" "d \<notin> dom (tp_data pl2)"
      "tp_data pl3 = (tp_data pl2)(d \<mapsto> tp_raw pl2 d)" "tp_blocks pl3 = tp_blocks pl2" "same_pool pl2 pl3"
      "txmem (pl3, tc, st3) n"
    using new_txdata_spec [OF 2(7), of h] by blast
  define pl4 where "pl4 = pl3\<lparr>tp_blocks := (tp_blocks pl)(r \<mapsto> zero_txblock\<lparr>vb_next := b\<rparr>,
     b \<mapsto> \<lparr>vb_ts = tx_txversion tx, vb_data = d, vb_next = NULL\<rparr>)\<rparr>"
  have rb: "r \<noteq> b" using 1(4) 2(3) by auto
  have run: "fdb_txpool_alloc_alloc (pl, st) tx h = Inr (\<lparr>p_main = r\<rparr>, (pl4, st3))"
    using 1(1,2,4) 2(1,2,4) 3(1,5) rb
    by (simp add: fdb_txpool_alloc_alloc_def txblock_put_def txblock_at_def pl4_def zero_txblock_def fun_upd_twist)
  have dm: "dom (tp_blocks pl4) = dom (tp_blocks pl3)" using 1(4) 2(4) 3(5) by (auto simp: pl4_def)
  have "txmem (pl4, tc, st3) n" by (rule txmem_refs [OF 3(7)]) (use dm in \<open>auto simp: pl4_def same_pool_def\<close>)
  moreover have "sizes_ok pl4" using sz 1(5,6) 2(5,6) 3(2,4,6) by (auto simp: sizes_ok_def pl4_def same_pool_def)
  moreover have "only {} {} pl pl4"
    using 1 2 3 by (auto simp: only_def same_pool_def pl4_def)
  moreover have "ref_ok pl4 r [b]"
    using 1 2 3 rb v by (simp add: ref_ok_def chain_ok_Cons chain_ok_single datas_def pl4_def zero_txblock_def)
      (simp add: chain_ok_def datas_def)?
  ultimately show ?thesis using run 1 2 3 rb
    by (intro exI [of _ "\<lparr>p_main = r\<rparr>"] exI [of _ b] exI [of _ pl4] exI [of _ st3]) (auto simp: pl4_def zero_txblock_def)
qed

end

text \<open>A reader gets the pointer of its version and changes nothing.\<close>

lemma candidate_seen:
  assumes "ref_ok pl main xs" "length xs < fuel" "vts pl main \<le> v"
  shows "\<exists>q. seek_version fuel pl v (vb_next (vblock pl main)) = Inr q \<and>
    (let c = (if q = NULL then main else q) in txblock_at pl c = Inr (vblock pl c) \<and>
      vdata pl c = pointer_seen pl v (xs @ [main]) \<and> c \<in> set (xs @ [main]) \<and>
      (vts pl (hd (xs @ [main])) \<le> v \<longrightarrow> c = hd (xs @ [main])))"
proof -
  from assms(1) have c: "chain_ok pl (xs @ [main])" and v: "versions (tp_blocks pl) (vb_next (vblock pl main)) xs"
    by (simp_all add: ref_ok_def)
  define ds where "ds = dropWhile (\<lambda>x. v < vts pl x) xs"
  define as where "as = takeWhile (\<lambda>x. v < vts pl x) xs"
  have xs: "xs = as @ ds" by (simp add: as_def ds_def)
  have as: "\<not> (\<exists>x\<in>set as. vts pl x \<le> v)" unfolding as_def by (auto dest: set_takeWhileD)
  note seek = seek_version_spec [OF v assms(2), of v, folded ds_def]
  show ?thesis
  proof (cases ds)
    case Nil
    have "pointer_seen pl v ((as @ ds) @ [main]) = vdata pl main"
      using as assms(3) by (simp add: Nil pointer_seen_append)
    moreover have "vts pl (hd (xs @ [main])) \<le> v \<Longrightarrow> main = hd (xs @ [main])"
      using as by (cases as) (auto simp: xs Nil)
    moreover have "txblock_at pl main = Inr (vblock pl main)" using chain_okD [OF c, of main] by (simp add: txblock_at_in)
    ultimately show ?thesis using seek Nil xs by (intro exI [of _ NULL]) (simp add: Let_def)
  next
    case (Cons p bs)
    then have "dropWhile (\<lambda>x. v < vts pl x) xs = p # bs" by (simp add: ds_def)
    then have "\<not> v < vts pl p" by (metis hd_dropWhile list.sel(1) list.simps(3))
    then have p: "p \<in> set xs" "vts pl p \<le> v" using xs Cons by auto
    have "pointer_seen pl v ((as @ ds) @ [main]) = vdata pl p"
      using as p(2) by (simp add: Cons pointer_seen_append)
    moreover have "vts pl (hd (xs @ [main])) \<le> v \<Longrightarrow> p = hd (xs @ [main])"
      using as by (cases as) (auto simp: xs Cons)
    moreover have "txblock_at pl p = Inr (vblock pl p)" "p \<noteq> NULL" using chain_okD [OF c, of p] p(1) by (simp_all add: txblock_at_in)
    ultimately show ?thesis using seek Cons xs p(1) by (intro exI [of _ p]) (simp add: Let_def)
  qed
qed

lemma read_spec:
  assumes ok: "ref_ok pl (p_main ref) xs" and len: "length xs < fuel" and ty: "tx_type tx = E_READ_ONLY"
    and v: "vts pl (p_main ref) \<le> tx_txversion tx"
  shows "fdb_txpool_alloc_ptr fuel palloc (pl, tc, st) tx ref wt =
    Inr (pointer_seen pl (tx_txversion tx) (xs @ [p_main ref]), (pl, tc, st))"
proof -
  from ok have c: "chain_ok pl (xs @ [p_main ref])" by (simp add: ref_ok_def)
  have "txblock_at pl (p_main ref) = Inr (vblock pl (p_main ref))"
    using chain_okD [OF c, of "p_main ref"] by (simp add: txblock_at_in)
  then show ?thesis using candidate_seen [OF ok len v] ty by (auto simp: fdb_txpool_alloc_ptr_def Let_def)
qed

text \<open>What holds when the writing transaction uses a reference that it can see: its version is not below
  any of the chain, and it collects up to a version below its own.\<close>

definition writes ::
  "fdb_tx_t \<Rightarrow> 'st fdb_txpool_alloc_t \<Rightarrow> ptr \<Rightarrow> ptr list \<Rightarrow> bool" where
  "writes tx pl main xs \<longleftrightarrow> tx_type tx = E_READ_WRITE \<and> ref_ok pl main xs \<and> sizes_ok pl \<and>
     tx_ortxversion tx < tx_txversion tx \<and> vts pl main < tx_txversion tx \<and> vts pl (hd (xs @ [main])) \<le> tx_txversion tx \<and>
     seen pl (tx_txversion tx) (xs @ [main]) \<noteq> None"

lemma newest_seen:
  assumes "vts pl (hd (xs @ [main])) \<le> v"
  shows "pointer_seen pl v (xs @ [main]) = vdata pl (hd (xs @ [main]))"
  using assms by (cases xs) auto

lemma seen_pointer:
  assumes "pointer_seen pl v ys = d" shows "seen pl v ys = (if d = NULL then None else tp_data pl d)"
  unfolding seen_def assms ..

lemma writes_collapse_ok:
  assumes "writes tx pl main xs" shows "collapse_ok pl orv main (kept_versions pl orv xs)"
proof (cases "collapses pl orv (kept_versions pl orv xs)")
  case True
  then obtain y where y: "kept_versions pl orv xs = [y]" by (auto simp: collapses_def)
  have "vdata pl (hd (xs @ [main])) \<noteq> NULL"
    using assms newest_seen [of pl xs main] by (auto simp: writes_def seen_def)
  moreover have "hd (kept_versions pl orv xs @ [main]) = hd (xs @ [main])" by (rule kept_facts(3))
  ultimately show ?thesis using y by (simp add: collapse_ok_def)
qed (simp add: collapse_ok_def)

text \<open>What a chain becomes: only it and what was not in use are changed, and from \<open>orv\<close> up to the version
  of the writer nobody finds anything else.\<close>

definition moves ::
  "u64 \<Rightarrow> u64 \<Rightarrow> ptr \<Rightarrow> 'st fdb_txpool_alloc_t \<Rightarrow> ptr list \<Rightarrow> 'st fdb_txpool_alloc_t \<Rightarrow> ptr list \<Rightarrow> bool" where
  "moves orv v main pl xs pl' xs' \<longleftrightarrow> ref_ok pl' main xs' \<and> sizes_ok pl' \<and>
     only (set (xs @ [main])) (datas pl (xs @ [main])) pl pl' \<and>
     set xs' \<subseteq> set xs \<union> - dom (tp_blocks pl) \<and>
     datas pl' (xs' @ [main]) \<subseteq> datas pl (xs @ [main]) \<union> - dom (tp_data pl) \<and>
     vts pl' (hd (xs' @ [main])) \<le> v \<and> (vts pl' main = vts pl main \<or> vts pl' main \<le> orv) \<and>
     (\<forall>w\<ge>orv. w < v \<longrightarrow> seen pl' w (xs' @ [main]) = seen pl w (xs @ [main]))"

context steady_provider
begin

lemma writer_gc:
  assumes w: "writes tx pl main xs" and len: "length xs < fuel"
    and m: "txmem (pl, tc, st) (Suc (Suc n))" and es: "garbage tc es"
  shows "\<exists>pl' tc' st' xs' es'.
    fdb_txpool_alloc_gc fuel palloc (pl, tc, st) (tx_ortxversion tx) main False = Inr (False, (pl', tc', st')) \<and>
    txmem (pl', tc', st') n \<and> garbage tc' es' \<and> writes tx pl' main xs' \<and> length xs' \<le> length xs \<and>
    moves (tx_ortxversion tx) (tx_txversion tx) main pl xs pl' xs' \<and>
    seen pl' (tx_txversion tx) (xs' @ [main]) = seen pl (tx_txversion tx) (xs @ [main]) \<and>
    vts pl' (hd (xs' @ [main])) = vts pl (hd (xs @ [main])) \<and>
    (xs' \<noteq> [] \<longrightarrow> tx_ortxversion tx < vts pl' (hd xs'))"
proof -
  have ok: "ref_ok pl main xs" and sz: "sizes_ok pl" and ov: "tx_ortxversion tx \<le> tx_txversion tx"
    and sn: "seen pl (tx_txversion tx) (xs @ [main]) \<noteq> None" using w by (auto simp: writes_def)
  from gc_spec [OF ok len sz m es writes_collapse_ok [OF w], of palloc "tx_ortxversion tx"]
  obtain gced pl' tc' st' xs' es' where
    g: "fdb_txpool_alloc_gc fuel palloc (pl, tc, st) (tx_ortxversion tx) main False = Inr (gced, (pl', tc', st'))"
      "txmem (pl', tc', st') n" "garbage tc' es'" "sizes_ok pl'"
      "only (set (xs @ [main])) (datas pl (xs @ [main])) pl pl'"
    and r: "if gced then main \<notin> dom (tp_blocks pl') \<and> vts pl (hd (xs @ [main])) < tx_ortxversion tx \<and>
       (\<forall>v\<ge>tx_ortxversion tx. seen pl v (xs @ [main]) = None)
     else ref_ok pl' main xs' \<and> length xs' \<le> length xs \<and> set xs' \<subseteq> set xs \<and> 
       (\<forall>v\<ge>tx_ortxversion tx. seen pl' v (xs' @ [main]) = seen pl v (xs @ [main])) \<and>
       datas pl' (xs' @ [main]) \<subseteq> datas pl (xs @ [main]) \<union> - dom (tp_data pl) \<and>
       vts pl' (hd (xs' @ [main])) = vts pl (hd (xs @ [main])) \<and>
       (xs' \<noteq> [] \<longrightarrow> tx_ortxversion tx < vts pl' (hd xs')) \<and>
       (vts pl' main = vts pl main \<or> vts pl' main \<le> tx_ortxversion tx)" by blast
  have ng: "\<not> gced" using r sn ov by (auto split: if_splits)
  then have r': "ref_ok pl' main xs'" "length xs' \<le> length xs" "set xs' \<subseteq> set xs"
       "\<forall>v\<ge>tx_ortxversion tx. seen pl' v (xs' @ [main]) = seen pl v (xs @ [main])"
       "datas pl' (xs' @ [main]) \<subseteq> datas pl (xs @ [main]) \<union> - dom (tp_data pl)"
       "vts pl' (hd (xs' @ [main])) = vts pl (hd (xs @ [main]))"
       "xs' \<noteq> [] \<longrightarrow> tx_ortxversion tx < vts pl' (hd xs')"
       "vts pl' main = vts pl main \<or> vts pl' main \<le> tx_ortxversion tx" using r by auto
  have s: "seen pl' (tx_txversion tx) (xs' @ [main]) = seen pl (tx_txversion tx) (xs @ [main])"
    using r'(4) ov by blast
  have "writes tx pl' main xs'" using w r'(1,6,8) g(4) s by (auto simp: writes_def)
  moreover have "moves (tx_ortxversion tx) (tx_txversion tx) main pl xs pl' xs'"
    using r' g(4,5) w unfolding moves_def writes_def by auto
  moreover have "fdb_txpool_alloc_gc fuel palloc (pl, tc, st) (tx_ortxversion tx) main False = Inr (False, (pl', tc', st'))"
    using g(1) ng by simp
  ultimately show ?thesis using g(2,3) r'(2,6,7) s by blast
qed

lemma copy_spec:
  assumes ok: "ref_ok pl main xs" and sz: "sizes_ok pl" and m: "txmem (pl, tc, st) (Suc (Suc n))"
    and c: "c = hd (xs @ [main])" "vts pl c < tx_txversion tx" "vdata pl c \<noteq> NULL"
  shows "\<exists>b d pl' st'. copy_version (pl, st) tx main c = Inr (d, (pl', st')) \<and> txmem (pl', tc, st') n \<and>
    sizes_ok pl' \<and> ref_ok pl' main (b # xs) \<and> vdata pl' b = d \<and> vts pl' b = tx_txversion tx \<and> d \<noteq> NULL \<and>
    tp_data pl' d = tp_data pl (vdata pl c) \<and> b \<notin> dom (tp_blocks pl) \<and> d \<notin> dom (tp_data pl) \<and>
    only {main} {} pl pl' \<and> (\<forall>x\<in>set (xs @ [main]). vts pl' x = vts pl x \<and> vdata pl' x = vdata pl x)"
proof -
  from ok have ch: "chain_ok pl (xs @ [main])" and v: "versions (tp_blocks pl) (vb_next (vblock pl main)) xs"
    by (simp_all add: ref_ok_def)
  have cin: "c \<in> set (xs @ [main])" unfolding c(1) by (rule hd_in_set) simp
  have cb: "c \<in> dom (tp_blocks pl)" "c \<noteq> NULL" "vdata pl c \<in> dom (tp_data pl)" using chain_okD [OF ch cin] c(3) by auto
  have main: "main \<in> dom (tp_blocks pl)" "main \<noteq> NULL" using chain_okD [OF ch, of main] by auto
  obtain b pl1 st1 where 1: "new_txblock (pl, st) = Inr (b, (pl1, st1))" "b \<noteq> NULL" "b \<notin> dom (tp_blocks pl)"
      "tp_blocks pl1 = (tp_blocks pl)(b \<mapsto> zero_txblock)" "tp_data pl1 = tp_data pl" "same_pool pl pl1"
      "txmem (pl1, tc, st1) (Suc n)"
    using new_txblock_spec [OF m] by blast
  obtain d pl2 st2 where 2: "new_txdata (pl1, st1) FDB_NO_HINT = (d, (pl2, st2))" "d \<noteq> NULL" "d \<notin> dom (tp_data pl)"
      "tp_data pl2 = (tp_data pl)(d \<mapsto> tp_raw pl1 d)" "tp_blocks pl2 = tp_blocks pl1" "same_pool pl1 pl2"
      "txmem (pl2, tc, st2) n"
    using new_txdata_spec [OF 1(7), of FDB_NO_HINT] 1(5) by auto
  obtain s where s: "tp_data pl (vdata pl c) = Some s" "length s = unat (tp_data_size pl)"
    using cb(3) sz by (auto simp: sizes_ok_def)
  have len: "length (tp_raw pl1 d) = unat (tp_data_size pl)" using sz 1(6) by (simp add: sizes_ok_def same_pool_def)
  have ne: "b \<noteq> c" "b \<noteq> main" "d \<noteq> vdata pl c" using 1(3) 2(3) cb main by auto
  define blk where "blk = \<lparr>vb_ts = tx_txversion tx, vb_data = d, vb_next = (if c \<noteq> main then c else NULL)\<rparr>"
  define pl3 where "pl3 = pl2\<lparr>tp_blocks := (tp_blocks pl)(b \<mapsto> blk, main \<mapsto> (vblock pl main)\<lparr>vb_next := b\<rparr>),
     tp_data := (tp_data pl)(d \<mapsto> s)\<rparr>"
  have sz2: "tp_data_size pl2 = tp_data_size pl" using 1(6) 2(6) by (simp add: same_pool_def)
  have r1: "txblock_put pl2 b (\<lambda>b. b\<lparr>vb_data := d\<rparr>) = Inr (pl2\<lparr>tp_blocks := (tp_blocks pl)(b \<mapsto> zero_txblock\<lparr>vb_data := d\<rparr>)\<rparr>)"
    using 1(2,4) 2(5) by (simp add: txblock_put_def txblock_at_def)
  have r2: "txblock_at (pl2\<lparr>tp_blocks := (tp_blocks pl)(b \<mapsto> zero_txblock\<lparr>vb_data := d\<rparr>)\<rparr>) c = Inr (vblock pl c)"
    using cb ne by (auto simp: txblock_at_def)
  have r3: "txdata_copy (pl2\<lparr>tp_blocks := (tp_blocks pl)(b \<mapsto> zero_txblock\<lparr>vb_data := d\<rparr>)\<rparr>) d (vdata pl c) =
      Inr (pl2\<lparr>tp_blocks := (tp_blocks pl)(b \<mapsto> zero_txblock\<lparr>vb_data := d\<rparr>), tp_data := (tp_data pl)(d \<mapsto> s)\<rparr>)"
    using s len sz2 2(2,4) ne(3) c(3) by (simp add: txdata_copy_def txdata_at_def)
  have run: "copy_version (pl, st) tx main c = Inr (d, (pl3, st2))"
    using 1(1,2) 2(1) r1 r2 r3 main ne
    by (auto simp: copy_version_def txblock_put_def txblock_at_def pl3_def blk_def zero_txblock_def)
  have b3: "tp_blocks pl3 x = tp_blocks pl x" if "x \<in> set xs" for x
    using that chain_okD(1) [OF ch, of x] 1(3) chain_ok_facts(1) [OF ch] by (auto simp: pl3_def)
  have keep: "vts pl3 x = vts pl x \<and> vdata pl3 x = vdata pl x \<and> x \<in> dom (tp_blocks pl3)" if "x \<in> set (xs @ [main])" for x
    using that chain_okD(1) [OF ch, of x] 1(3) main by (auto simp: pl3_def)
  have nb: "b \<notin> set (xs @ [main])" using 1(3) chain_okD(1) [OF ch, of b] by auto
  have ds: "datas pl3 (xs @ [main]) = datas pl (xs @ [main])" using keep by (simp add: datas_def cong: image_cong)
  have dsub: "datas pl (xs @ [main]) \<subseteq> dom (tp_data pl)" by (rule chain_ok_facts(2) [OF ch])
  have "chain_ok pl3 (xs @ [main])"
    by (rule chain_ok_sub(1) [OF ch _ chain_ok_facts(1) [OF ch] chain_ok_facts(3) [OF ch]])
      (use keep dsub in \<open>auto simp: pl3_def\<close>)
  moreover have "vts pl y < tx_txversion tx" if "y \<in> set (xs @ [main])" for y
  proof -
    have "y = c \<or> vts pl y < vts pl c" using chain_ok_facts(3) [OF ch] that unfolding c(1) by (cases xs) auto
    then show ?thesis using c(2) by auto
  qed
  moreover have "d \<notin> datas pl3 (xs @ [main])" using ds dsub 2(3) by blast
  ultimately have chn: "chain_ok pl3 (b # (xs @ [main]))"
    using nb 1(2) 2(2) keep unfolding chain_ok_Cons by (auto simp: pl3_def blk_def)
  have vx: "versions (tp_blocks pl3) (vb_next (vblock pl main)) xs"
    using v versions_cong [OF b3, of xs] by simp
  have "vb_next blk = vb_next (vblock pl main)"
    using versions_hd [OF v] c(1) chain_ok_facts(1) [OF ch] by (cases xs) (auto simp: blk_def)
  then have "versions (tp_blocks pl3) b (b # xs)" using vx 1(2) ne by (simp add: pl3_def)
  moreover have "vb_next (vblock pl3 main) = b" by (simp add: pl3_def)
  ultimately have ref: "ref_ok pl3 main (b # xs)" using chn by (simp add: ref_ok_def)
  have mm: "txmem (pl3, tc, st2) n"
    by (rule txmem_refs [OF 2(7)]) (use 1(4) 2(4,5) main in \<open>auto simp: pl3_def same_pool_def\<close>)
  have szo: "sizes_ok pl3" using sz s(2) 2(2) sz2 1(6) 2(6) by (auto simp: sizes_ok_def pl3_def same_pool_def)
  have o: "only {main} {} pl pl3" using 1(3,6) 2(3,6) by (auto simp: only_def pl3_def same_pool_def)
  show ?thesis using run mm szo ref o 1(3) 2(2,3) s keep ne
    by (intro exI [of _ b] exI [of _ d] exI [of _ pl3] exI [of _ st2]) (simp add: pl3_def blk_def)
qed

end

lemma moves_trans:
  assumes a: "moves orv v main pl xs pl1 xs1" and b: "moves orv v main pl1 xs1 pl2 xs2"
    and c: "ref_ok pl main xs"
  shows "moves orv v main pl xs pl2 xs2"
proof -
  from a have o: "only (set (xs @ [main])) (datas pl (xs @ [main])) pl pl1" by (simp add: moves_def)
  have ch1: "chain_ok pl1 (xs1 @ [main])" using a by (simp add: moves_def ref_ok_def)
  have B: "x \<in> set xs \<union> - dom (tp_blocks pl)" if "x \<notin> dom (tp_blocks pl1)" for x
  proof (cases "x \<in> dom (tp_blocks pl) \<and> x \<notin> set (xs @ [main])")
    case True
    then show ?thesis using only_block [OF o, of x] that by (simp add: domIff)
  next
    case False
    then show ?thesis using that chain_okD(1) [OF ch1, of main] by auto
  qed
  have D: "d \<in> datas pl (xs @ [main]) \<union> - dom (tp_data pl)" if "d \<notin> dom (tp_data pl1)" for d
    using only_data [OF o, of d] that by (cases "d \<in> dom (tp_data pl)"; cases "d \<in> datas pl (xs @ [main])") (auto simp: domIff)
  have s1: "set xs1 \<subseteq> set xs \<union> - dom (tp_blocks pl)"
    and d1: "datas pl1 (xs1 @ [main]) \<subseteq> datas pl (xs @ [main]) \<union> - dom (tp_data pl)"
    using a by (simp_all add: moves_def)
  have s2: "set xs2 \<subseteq> set xs1 \<union> - dom (tp_blocks pl1)"
    and d2: "datas pl2 (xs2 @ [main]) \<subseteq> datas pl1 (xs1 @ [main]) \<union> - dom (tp_data pl1)"
    and o2: "only (set (xs1 @ [main])) (datas pl1 (xs1 @ [main])) pl1 pl2"
    using b by (simp_all add: moves_def)
  have "set xs2 \<subseteq> set xs \<union> - dom (tp_blocks pl)" using s1 s2 B by blast
  moreover have "datas pl2 (xs2 @ [main]) \<subseteq> datas pl (xs @ [main]) \<union> - dom (tp_data pl)" using d1 d2 D by blast
  moreover have "only (set (xs @ [main])) (datas pl (xs @ [main])) pl pl2"
    by (rule only_trans [OF o o2]) (use s1 d1 in auto)
  moreover have "vts pl2 main = vts pl main \<or> vts pl2 main \<le> orv" using a b by (auto simp: moves_def)
  ultimately show ?thesis using a b by (simp add: moves_def)
qed

text \<open>The client writes all bytes of an object through the pointer it has got.\<close>

definition store_bytes :: "'st fdb_txpool_alloc_t \<Rightarrow> ptr \<Rightarrow> u8 list \<Rightarrow> 'st fdb_txpool_alloc_t res" where
  "store_bytes pl d bs = bind_res (txdata_at pl d) (\<lambda>_. Inr (pl\<lparr>tp_data := (tp_data pl)(d \<mapsto> bs)\<rparr>))"

text \<open>After a write of the transaction the newest version is its own.\<close>

definition owns :: "fdb_tx_t \<Rightarrow> 'st fdb_txpool_alloc_t \<Rightarrow> ptr \<Rightarrow> ptr list \<Rightarrow> ptr \<Rightarrow> bool" where
  "owns tx pl main xs d \<longleftrightarrow> d \<noteq> NULL \<and> xs \<noteq> [] \<and> vts pl (hd xs) = tx_txversion tx \<and> vdata pl (hd xs) = d"

lemma store_spec:
  assumes ok: "ref_ok pl main xs" and sz: "sizes_ok pl" and o: "owns tx pl main xs d"
    and bs: "length bs = unat (tp_data_size pl)"
  shows "\<exists>pl'. store_bytes pl d bs = Inr pl' \<and> tp_blocks pl' = tp_blocks pl \<and> moves orv (tx_txversion tx) main pl xs pl' xs \<and>
    (\<forall>w\<ge>tx_txversion tx. seen pl' w (xs @ [main]) = Some bs) \<and>
    (\<forall>alloc free ainv room S tc st n. txpool_mem alloc free ainv room S (pl, tc, st) n \<longrightarrow>
       txpool_mem alloc free ainv room S (pl', tc, st) n)"
proof -
  obtain b ys where xs: "xs = b # ys" using o by (cases xs) (auto simp: owns_def)
  have d: "d \<noteq> NULL" "vts pl b = tx_txversion tx" "vdata pl b = d" using o xs by (simp_all add: owns_def)
  have ch: "chain_ok pl (b # (ys @ [main]))" using ok xs by (simp add: ref_ok_def)
  then have din: "d \<in> dom (tp_data pl)" "d \<notin> datas pl (ys @ [main])" using d by (auto simp: chain_ok_Cons)
  define pl' where "pl' = pl\<lparr>tp_data := (tp_data pl)(d \<mapsto> bs)\<rparr>"
  have run: "store_bytes pl d bs = Inr pl'" using din d by (auto simp: store_bytes_def txdata_at_def pl'_def)
  have dd: "dom (tp_data pl') = dom (tp_data pl)" using din by (auto simp: pl'_def)
  have ps: "pointer_seen pl' w zs = pointer_seen pl w zs" for w zs
    by (rule pointer_seen_cong) (simp add: pl'_def)
  have ds: "datas pl' zs = datas pl zs" for zs by (simp add: datas_def pl'_def)
  have ref: "ref_ok pl' main xs"
    using ok dd ds unfolding ref_ok_def chain_ok_def by (simp add: pl'_def)
  have "seen pl' w (xs @ [main]) = seen pl w (xs @ [main])" if "w < tx_txversion tx" for w
  proof -
    have "pointer_seen pl w (xs @ [main]) = pointer_seen pl w (ys @ [main])" using that d xs by auto
    moreover have "pointer_seen pl w (ys @ [main]) \<noteq> NULL \<Longrightarrow> pointer_seen pl w (ys @ [main]) \<noteq> d"
      using pointer_seen_in [of pl w "ys @ [main]"] din by metis
    ultimately show ?thesis unfolding seen_def ps by (simp add: pl'_def)
  qed
  moreover have "sizes_ok pl'" using sz bs d by (auto simp: sizes_ok_def pl'_def)
  moreover have "only (set (xs @ [main])) (datas pl (xs @ [main])) pl pl'"
    using d xs by (auto simp: only_def same_pool_def pl'_def datas_def)
  ultimately have "moves orv (tx_txversion tx) main pl xs pl' xs"
    using ref ds d xs unfolding moves_def by (auto simp: pl'_def)
  moreover have "seen pl' w (xs @ [main]) = Some bs" if "tx_txversion tx \<le> w" for w
    using that d xs by (simp add: seen_def pl'_def)
  moreover have "txpool_mem alloc free ainv room S (pl, tc, st) n \<Longrightarrow> txpool_mem alloc free ainv room S (pl', tc, st) n"
    for alloc free ainv room S tc st n
    by (erule txmem_refs) (use dd in \<open>simp_all add: pl'_def same_pool_def\<close>)
  moreover have "tp_blocks pl' = tp_blocks pl" by (simp add: pl'_def)
  ultimately show ?thesis using run by blast
qed

context steady_provider
begin

lemma writer_ptr_run:
  assumes w: "writes tx pl (p_main ref) xs" and len: "length xs < fuel"
    and m: "txmem (pl, tc, st) (Suc (Suc n))" and es: "garbage tc es"
  shows "\<exists>pl' tc' st' xs' es'. txmem (pl', tc', st') n \<and> garbage tc' es' \<and> writes tx pl' (p_main ref) xs' \<and>
    length xs' \<le> length xs \<and> moves (tx_ortxversion tx) (tx_txversion tx) (p_main ref) pl xs pl' xs' \<and>
    seen pl' (tx_txversion tx) (xs' @ [p_main ref]) = seen pl (tx_txversion tx) (xs @ [p_main ref]) \<and>
    vts pl' (hd (xs' @ [p_main ref])) = vts pl (hd (xs @ [p_main ref])) \<and>
    fdb_txpool_alloc_ptr fuel palloc (pl, tc, st) tx ref wt =
      (let c = hd (xs' @ [p_main ref]) in
       if wt \<and> vts pl' c < tx_txversion tx then
         bind_res (copy_version (pl', st') tx (p_main ref) c) (\<lambda>(d, (pl, st)). Inr (d, (pl, tc', st)))
       else Inr (vdata pl' c, (pl', tc', st')))"
proof -
  let ?m = "p_main ref"
  from writer_gc [OF w len m es, of palloc] obtain pl' tc' st' xs' es' where
    g: "fdb_txpool_alloc_gc fuel palloc (pl, tc, st) (tx_ortxversion tx) ?m False = Inr (False, (pl', tc', st'))"
      "txmem (pl', tc', st') n" "garbage tc' es'" "writes tx pl' ?m xs'" "length xs' \<le> length xs"
      "moves (tx_ortxversion tx) (tx_txversion tx) ?m pl xs pl' xs'"
      "seen pl' (tx_txversion tx) (xs' @ [?m]) = seen pl (tx_txversion tx) (xs @ [?m])"
      "vts pl' (hd (xs' @ [?m])) = vts pl (hd (xs @ [?m]))" by blast
  have ok: "ref_ok pl' ?m xs'" "tx_type tx = E_READ_WRITE" "vts pl' ?m \<le> tx_txversion tx"
      "vts pl' (hd (xs' @ [?m])) \<le> tx_txversion tx" using g(4) by (auto simp: writes_def)
  have len': "length xs' < fuel" using g(5) len by simp
  from candidate_seen [OF ok(1) len' ok(3)] ok(4) obtain q where
    q: "seek_version fuel pl' (tx_txversion tx) (vb_next (vblock pl' ?m)) = Inr q"
      "(if q = NULL then ?m else q) = hd (xs' @ [?m])"
      "txblock_at pl' (hd (xs' @ [?m])) = Inr (vblock pl' (hd (xs' @ [?m])))" by (auto simp: Let_def)
  have ch: "chain_ok pl' (xs' @ [?m])" using ok(1) by (simp add: ref_ok_def)
  have "txblock_at pl' ?m = Inr (vblock pl' ?m)" using chain_okD [OF ch, of ?m] by (simp add: txblock_at_in)
  then have "fdb_txpool_alloc_ptr fuel palloc (pl, tc, st) tx ref wt =
      (let c = hd (xs' @ [?m]) in
       if wt \<and> vts pl' c < tx_txversion tx then
         bind_res (copy_version (pl', st') tx ?m c) (\<lambda>(d, (pl, st)). Inr (d, (pl, tc', st)))
       else Inr (vdata pl' c, (pl', tc', st')))"
    using g(1) q ok(2) by (simp add: fdb_txpool_alloc_ptr_def)
  then show ?thesis using g by blast
qed

lemma writer_read_spec:
  assumes w: "writes tx pl (p_main ref) xs" and len: "length xs < fuel"
    and m: "txmem (pl, tc, st) (Suc (Suc n))" and es: "garbage tc es"
  shows "\<exists>d pl' tc' st' xs' es'. fdb_txpool_alloc_ptr fuel palloc (pl, tc, st) tx ref False = Inr (d, (pl', tc', st')) \<and>
    txmem (pl', tc', st') n \<and> garbage tc' es' \<and> length xs' \<le> length xs \<and>
    moves (tx_ortxversion tx) (tx_txversion tx) (p_main ref) pl xs pl' xs' \<and>
    seen pl' (tx_txversion tx) (xs' @ [p_main ref]) = seen pl (tx_txversion tx) (xs @ [p_main ref]) \<and>
    vts pl' (hd (xs' @ [p_main ref])) = vts pl (hd (xs @ [p_main ref])) \<and>
    d \<noteq> NULL \<and> tp_data pl' d = seen pl (tx_txversion tx) (xs @ [p_main ref])"
proof -
  from writer_ptr_run [OF w len m es, of palloc False] obtain pl' tc' st' xs' es' where
    g: "txmem (pl', tc', st') n" "garbage tc' es'" "writes tx pl' (p_main ref) xs'" "length xs' \<le> length xs"
      "moves (tx_ortxversion tx) (tx_txversion tx) (p_main ref) pl xs pl' xs'"
      "seen pl' (tx_txversion tx) (xs' @ [p_main ref]) = seen pl (tx_txversion tx) (xs @ [p_main ref])"
      "vts pl' (hd (xs' @ [p_main ref])) = vts pl (hd (xs @ [p_main ref]))"
      "fdb_txpool_alloc_ptr fuel palloc (pl, tc, st) tx ref False =
        Inr (vdata pl' (hd (xs' @ [p_main ref])), (pl', tc', st'))" by (auto simp: Let_def)
  have ps: "pointer_seen pl' (tx_txversion tx) (xs' @ [p_main ref]) = vdata pl' (hd (xs' @ [p_main ref]))"
    using g(3) by (intro newest_seen) (simp add: writes_def)
  then have "vdata pl' (hd (xs' @ [p_main ref])) \<noteq> NULL"
    "tp_data pl' (vdata pl' (hd (xs' @ [p_main ref]))) = seen pl (tx_txversion tx) (xs @ [p_main ref])"
    using g(3,6) seen_pointer [OF ps] by (auto simp: writes_def split: if_splits)
  then show ?thesis using g by blast
qed

lemma writer_write_spec:
  assumes w: "writes tx pl (p_main ref) xs" and len: "length xs < fuel"
    and m: "txmem (pl, tc, st) (Suc (Suc (Suc (Suc n))))" and es: "garbage tc es"
  shows "\<exists>d pl' tc' st' xs' es'. fdb_txpool_alloc_ptr fuel palloc (pl, tc, st) tx ref True = Inr (d, (pl', tc', st')) \<and>
    txmem (pl', tc', st') n \<and> garbage tc' es' \<and> length xs' \<le> Suc (length xs) \<and>
    moves (tx_ortxversion tx) (tx_txversion tx) (p_main ref) pl xs pl' xs' \<and>
    owns tx pl' (p_main ref) xs' d \<and> tp_data pl' d = seen pl (tx_txversion tx) (xs @ [p_main ref])"
proof -
  let ?m = "p_main ref" and ?v = "tx_txversion tx"
  have ok0: "ref_ok pl ?m xs" using w by (simp add: writes_def)
  from writer_ptr_run [OF w len m es, of palloc True] obtain pl1 tc1 st1 xs1 es1 where
    g: "txmem (pl1, tc1, st1) (Suc (Suc n))" "garbage tc1 es1" "writes tx pl1 ?m xs1" "length xs1 \<le> length xs"
      "moves (tx_ortxversion tx) ?v ?m pl xs pl1 xs1" "seen pl1 ?v (xs1 @ [?m]) = seen pl ?v (xs @ [?m])"
      "fdb_txpool_alloc_ptr fuel palloc (pl, tc, st) tx ref True =
      (let c = hd (xs1 @ [?m]) in
       if True \<and> vts pl1 c < ?v then
         bind_res (copy_version (pl1, st1) tx ?m c) (\<lambda>(d, (pl, st)). Inr (d, (pl, tc1, st)))
       else Inr (vdata pl1 c, (pl1, tc1, st1)))" by blast
  define c where "c = hd (xs1 @ [?m])"
  have ok: "ref_ok pl1 ?m xs1" "sizes_ok pl1" "vts pl1 c \<le> ?v" "seen pl1 ?v (xs1 @ [?m]) \<noteq> None" "vts pl1 ?m < ?v"
    using g(3) by (auto simp: writes_def c_def)
  have ps: "pointer_seen pl1 ?v (xs1 @ [?m]) = vdata pl1 c" using newest_seen [of pl1 xs1 ?m] ok(3) by (simp add: c_def)
  then have c: "vdata pl1 c \<noteq> NULL" "tp_data pl1 (vdata pl1 c) = seen pl ?v (xs @ [?m])"
    using ok(4) g(6) seen_pointer [OF ps] by (auto split: if_splits)
  show ?thesis
  proof (cases "vts pl1 c < ?v")
    case False
    then have eq: "vts pl1 c = ?v" using ok(3) by simp
    then have "xs1 \<noteq> []" using ok(5) by (auto simp: c_def)
    then have "owns tx pl1 ?m xs1 (vdata pl1 c)" using c eq by (simp add: owns_def c_def)
    moreover have "fdb_txpool_alloc_ptr fuel palloc (pl, tc, st) tx ref True = Inr (vdata pl1 c, (pl1, tc1, st1))"
      using g(7) False by (simp add: c_def [symmetric] Let_def)
    ultimately show ?thesis using g(2,4,5) c(2) txmem_less [OF txmem_less [OF g(1)]] by (metis le_Suc_eq)
  next
    case True
    from copy_spec [OF ok(1,2) g(1) c_def True c(1)] obtain b d pl2 st2 where
      2: "copy_version (pl1, st1) tx ?m c = Inr (d, (pl2, st2))" "txmem (pl2, tc1, st2) n" "sizes_ok pl2"
        "ref_ok pl2 ?m (b # xs1)" "vdata pl2 b = d" "vts pl2 b = ?v" "d \<noteq> NULL" "tp_data pl2 d = tp_data pl1 (vdata pl1 c)"
        "b \<notin> dom (tp_blocks pl1)" "d \<notin> dom (tp_data pl1)" "only {?m} {} pl1 pl2"
        "\<forall>x\<in>set (xs1 @ [?m]). vts pl2 x = vts pl1 x \<and> vdata pl2 x = vdata pl1 x" by blast
    have ch1: "chain_ok pl1 (xs1 @ [?m])" using ok(1) by (simp add: ref_ok_def)
    have dd: "datas pl2 (xs1 @ [?m]) = datas pl1 (xs1 @ [?m])" using 2(12) by (simp add: datas_def cong: image_cong)
    have sn: "seen pl2 u ((b # xs1) @ [?m]) = seen pl1 u (xs1 @ [?m])" if u: "u < ?v" for u
    proof -
      have "pointer_seen pl2 u ((b # xs1) @ [?m]) = pointer_seen pl2 u (xs1 @ [?m])" using u 2(6) by auto
      also have "\<dots> = pointer_seen pl1 u (xs1 @ [?m])" by (rule pointer_seen_cong) (use 2(12) in blast)
      finally have p: "pointer_seen pl2 u ((b # xs1) @ [?m]) = pointer_seen pl1 u (xs1 @ [?m])" .
      have "tp_data pl2 e = tp_data pl1 e" if "e \<in> datas pl1 (xs1 @ [?m])" for e
        by (rule only_data [OF 2(11)]) (use that chain_ok_facts(2) [OF ch1] in auto)
      then show ?thesis using p pointer_seen_in [of pl1 u "xs1 @ [?m]"] by (auto simp: seen_def)
    qed
    have "moves (tx_ortxversion tx) ?v ?m pl1 xs1 pl2 (b # xs1)"
      unfolding moves_def
    proof (intro conjI)
      show "only (set (xs1 @ [?m])) (datas pl1 (xs1 @ [?m])) pl1 pl2" by (rule only_mono [OF 2(11)]) auto
      show "datas pl2 ((b # xs1) @ [?m]) \<subseteq> datas pl1 (xs1 @ [?m]) \<union> - dom (tp_data pl1)"
        using dd 2(5,10) by (auto simp: datas_Cons)
    qed (use 2 sn in auto)
    from moves_trans [OF g(5) this ok0] have mv: "moves (tx_ortxversion tx) ?v ?m pl xs pl2 (b # xs1)" .
    have "fdb_txpool_alloc_ptr fuel palloc (pl, tc, st) tx ref True = Inr (d, (pl2, tc1, st2))"
      using g(7) True 2(1) by (simp add: c_def [symmetric] Let_def)
    moreover have "owns tx pl2 ?m (b # xs1) d" using 2(5-7) by (simp add: owns_def)
    moreover have "length (b # xs1) \<le> Suc (length xs)" using g(4) by simp
    moreover have "tp_data pl2 d = seen pl ?v (xs @ [?m])" using 2(8) c(2) by simp
    ultimately show ?thesis using mv 2(2) g(2) by blast
  qed
qed

text \<open>Freeing an object whose newest version everybody sees: the deletion is one more version.\<close>

lemma tx_free_spec:
  assumes w: "writes tx pl (p_main ref) xs" and len: "length xs < fuel"
    and m: "txmem (pl, tc, st) (Suc (Suc (Suc (Suc n))))" and es: "garbage tc es"
    and safe: "vts pl (hd (xs @ [p_main ref])) \<le> tx_ortxversion tx"
  shows "\<exists>pl' tc' st' b es'. fdb_txpool_alloc_free fuel palloc (pl, tc, st) tx ref = Inr (pl', tc', st') \<and>
    txmem (pl', tc', st') n \<and> garbage tc' es' \<and>
    moves (tx_ortxversion tx) (tx_txversion tx) (p_main ref) pl xs pl' [b] \<and>
    vts pl' b = tx_txversion tx \<and> (\<forall>w\<ge>tx_txversion tx. seen pl' w [b, p_main ref] = None)"
proof -
  let ?m = "p_main ref" and ?v = "tx_txversion tx"
  have ok0: "ref_ok pl ?m xs" using w by (simp add: writes_def)
  from writer_gc [OF w len m es, of palloc] obtain pl1 tc1 st1 xs1 es1 where
    g: "fdb_txpool_alloc_gc fuel palloc (pl, tc, st) (tx_ortxversion tx) ?m False = Inr (False, (pl1, tc1, st1))"
      "txmem (pl1, tc1, st1) (Suc (Suc n))" "garbage tc1 es1" "writes tx pl1 ?m xs1"
      "moves (tx_ortxversion tx) ?v ?m pl xs pl1 xs1" "vts pl1 (hd (xs1 @ [?m])) = vts pl (hd (xs @ [?m]))"
      "xs1 \<noteq> [] \<longrightarrow> tx_ortxversion tx < vts pl1 (hd xs1)" by blast
  have xs1: "xs1 = []" using g(6,7) safe by (cases xs1) auto
  have ok: "ref_ok pl1 ?m []" "sizes_ok pl1" "vts pl1 ?m < ?v" "vts pl1 ?m \<le> tx_ortxversion tx"
    using g(4,6) safe xs1 by (auto simp: writes_def)
  have ch: "chain_ok pl1 [?m]" and nx: "vb_next (vblock pl1 ?m) = NULL" using ok(1) by (simp_all add: ref_ok_def)
  have main: "?m \<in> dom (tp_blocks pl1)" "?m \<noteq> NULL" using ch by (auto simp: chain_ok_single)
  obtain b pl2 st2 where 2: "new_txblock (pl1, st1) = Inr (b, (pl2, st2))" "b \<noteq> NULL" "b \<notin> dom (tp_blocks pl1)"
      "tp_blocks pl2 = (tp_blocks pl1)(b \<mapsto> zero_txblock)" "tp_data pl2 = tp_data pl1" "same_pool pl1 pl2"
      "txmem (pl2, tc1, st2) (Suc n)"
    using new_txblock_spec [OF g(2)] by blast
  have bm: "b \<noteq> ?m" using 2(3) main by auto
  define blk where "blk = \<lparr>vb_ts = ?v, vb_data = NULL, vb_next = NULL\<rparr>"
  define pl3 where "pl3 = pl2\<lparr>tp_blocks := (tp_blocks pl1)(b \<mapsto> blk, ?m \<mapsto> (vblock pl1 ?m)\<lparr>vb_next := b\<rparr>)\<rparr>"
  have m3: "txmem (pl3, tc1, st2) (Suc n)"
    by (rule txmem_refs [OF 2(7)]) (use 2(4) main in \<open>auto simp: pl3_def same_pool_def\<close>)
  from add_entry_spec [OF m3 g(3), of palloc ?m] obtain e tc' st' where
    4: "fdb_txthread_ctx_add_entry (tc1, st2) palloc ?m = Inr (tc', st')" "garbage tc' (e # es1)" "txmem (pl3, tc', st') n"
    by blast
  have run: "fdb_txpool_alloc_free fuel palloc (pl, tc, st) tx ref = Inr (pl3, tc', st')"
    using g(1) nx ok(4) 2(1,2,4) 4(1) main bm
    by (auto simp: fdb_txpool_alloc_free_def txblock_at_def txblock_put_def Let_def pl3_def blk_def zero_txblock_def)
  have keep: "vts pl3 ?m = vts pl1 ?m" "vdata pl3 ?m = vdata pl1 ?m" "?m \<in> dom (tp_blocks pl3)" by (simp_all add: pl3_def)
  have nb: "vts pl3 b = ?v" "vdata pl3 b = NULL" "b \<in> dom (tp_blocks pl3)" using bm by (simp_all add: pl3_def blk_def)
  have d3: "tp_data pl3 = tp_data pl1" using 2(5) by (simp add: pl3_def)
  have "chain_ok pl3 [b, ?m]"
    using ch keep nb 2(2) bm ok(3) d3 by (auto simp: chain_ok_Cons chain_ok_single)
  moreover have "versions (tp_blocks pl3) (vb_next (vblock pl3 ?m)) [b]"
    using 2(2) bm by (simp add: pl3_def blk_def)
  ultimately have ref: "ref_ok pl3 ?m [b]" by (simp add: ref_ok_def)
  have "moves (tx_ortxversion tx) ?v ?m pl1 [] pl3 [b]"
    unfolding moves_def
  proof (intro conjI)
    show "only (set ([] @ [?m])) (datas pl1 ([] @ [?m])) pl1 pl3"
      using 2(3,6) d3 by (auto simp: only_def same_pool_def pl3_def)
    show "\<forall>u\<ge>tx_ortxversion tx. u < ?v \<longrightarrow> seen pl3 u ([b] @ [?m]) = seen pl1 u ([] @ [?m])"
      using nb keep d3 by (auto simp: seen_def)
    show "sizes_ok pl3" using ok(2) 2(6) d3 by (auto simp: sizes_ok_def same_pool_def pl3_def)
  qed (use ref nb keep 2(3) in \<open>auto simp: datas_def\<close>)
  from moves_trans [OF g(5) [unfolded xs1] this ok0]
  have "moves (tx_ortxversion tx) ?v ?m pl xs pl3 [b]" .
  moreover have "\<forall>u\<ge>?v. seen pl3 u [b, ?m] = None" using nb by (auto simp: seen_def)
  ultimately show ?thesis using run 4(2,3) nb(1) by blast
qed

end

end
