(* ===== verification/TxSystem.thy ===== *)
theory TxSystem
  imports TxPoolSpec
begin

text \<open>
  The transaction manager and a transactional pool together: a client with any number of references
  runs transactions that allocate, read, write and free objects. The abstract specification is a map
  of committed values and one private copy of it per transaction: snapshot isolation. The last
  sections show where the code leaves it, and what a forced collection gives back.
\<close>

section \<open>Commands of a client\<close>

datatype tx_cmd = TBegin ptr fdb_txtype_t | TCommit ptr | TAlloc ptr nat "u8 list" | TRead ptr nat
  | TWrite ptr nat "u8 list" | TFree ptr nat
datatype tx_out = TDone | TWaits | TBytes "u8 list option"

record 'st txsys =
  sy_mgr :: txmgr
  sy_mem :: "'st txs"
  sy_refs :: "nat \<Rightarrow> fdb_txpool_alloc_ref_t"

text \<open>A client writes an object by getting its pointer for writing and storing all its bytes.\<close>

definition write_object ::
  "nat \<Rightarrow> ptr \<Rightarrow> 'st txs \<Rightarrow> fdb_tx_t \<Rightarrow> fdb_txpool_alloc_ref_t \<Rightarrow> u8 list \<Rightarrow> 'st txs res" where
  "write_object fuel palloc mem t ref bs =
     bind_res (fdb_txpool_alloc_ptr fuel palloc mem t ref True) (\<lambda>(d, (pl, tc, st)).
     bind_res (store_bytes pl d bs) (\<lambda>pl. Inr (pl, tc, st)))"

fun tx_do :: "nat \<Rightarrow> ptr \<Rightarrow> tx_cmd \<Rightarrow> 'st txsys \<Rightarrow> (tx_out \<times> 'st txsys) res" where
  "tx_do fuel palloc (TBegin tx ty) s = bind_res (fdb_tx_begin (sy_mgr s) tx ty) (\<lambda>r.
     case r of None \<Rightarrow> Inr (TWaits, s) | Some m \<Rightarrow> Inr (TDone, s\<lparr>sy_mgr := m\<rparr>))"
| "tx_do fuel palloc (TCommit tx) s = bind_res (fdb_tx_commit (sy_mgr s) tx) (\<lambda>m. Inr (TDone, s\<lparr>sy_mgr := m\<rparr>))"
| "tx_do fuel palloc (TAlloc tx i bs) s = bind_res (tx_at (sy_mgr s) tx) (\<lambda>t. let (pl, tc, st) = sy_mem s in
     bind_res (fdb_txpool_alloc_alloc (pl, st) t FDB_NO_HINT) (\<lambda>(ref, (pl, st)).
     bind_res (write_object fuel palloc (pl, tc, st) t ref bs) (\<lambda>mem.
     Inr (TDone, s\<lparr>sy_mem := mem, sy_refs := (sy_refs s)(i := ref)\<rparr>))))"
| "tx_do fuel palloc (TRead tx i) s = bind_res (tx_at (sy_mgr s) tx) (\<lambda>t.
     bind_res (fdb_txpool_alloc_ptr fuel palloc (sy_mem s) t (sy_refs s i) False) (\<lambda>(d, mem).
     if d = NULL then Inr (TBytes None, s\<lparr>sy_mem := mem\<rparr>)
     else bind_res (txdata_at (fst mem) d) (\<lambda>bs. Inr (TBytes (Some bs), s\<lparr>sy_mem := mem\<rparr>))))"
| "tx_do fuel palloc (TWrite tx i bs) s = bind_res (tx_at (sy_mgr s) tx) (\<lambda>t.
     bind_res (write_object fuel palloc (sy_mem s) t (sy_refs s i) bs) (\<lambda>mem. Inr (TDone, s\<lparr>sy_mem := mem\<rparr>)))"
| "tx_do fuel palloc (TFree tx i) s = bind_res (tx_at (sy_mgr s) tx) (\<lambda>t.
     bind_res (fdb_txpool_alloc_free fuel palloc (sy_mem s) t (sy_refs s i)) (\<lambda>mem. Inr (TDone, s\<lparr>sy_mem := mem\<rparr>)))"

fun tx_run :: "nat \<Rightarrow> ptr \<Rightarrow> tx_cmd list \<Rightarrow> 'st txsys \<Rightarrow> (tx_out list \<times> 'st txsys) res" where
  "tx_run fuel palloc [] s = Inr ([], s)"
| "tx_run fuel palloc (c # cs) s = bind_res (tx_do fuel palloc c s) (\<lambda>(x, s).
     bind_res (tx_run fuel palloc cs s) (\<lambda>(xs, s). Inr (x # xs, s)))"

section \<open>Snapshot isolation\<close>

type_synonym tx_objects = "nat \<Rightarrow> u8 list option"

text \<open>The committed objects, and for every running transaction the objects it sees.\<close>

record txspec =
  sp_now :: tx_objects
  sp_snap :: "ptr \<rightharpoonup> tx_objects"
  sp_writer :: "ptr option"

definition sp_put :: "ptr \<Rightarrow> nat \<Rightarrow> u8 list option \<Rightarrow> txspec \<Rightarrow> txspec" where
  "sp_put tx i x a = a\<lparr>sp_snap := (sp_snap a)(tx \<mapsto> (the (sp_snap a tx))(i := x))\<rparr>"

fun tx_spec :: "tx_cmd \<Rightarrow> txspec \<Rightarrow> tx_out \<times> txspec" where
  "tx_spec (TBegin tx ty) a = (if ty = E_READ_WRITE \<and> sp_writer a \<noteq> None then (TWaits, a)
     else (TDone, a\<lparr>sp_snap := (sp_snap a)(tx \<mapsto> sp_now a),
                    sp_writer := (if ty = E_READ_WRITE then Some tx else sp_writer a)\<rparr>))"
| "tx_spec (TCommit tx) a = (TDone, if sp_writer a = Some tx
     then a\<lparr>sp_now := the (sp_snap a tx), sp_snap := (sp_snap a)(tx := None), sp_writer := None\<rparr>
     else a\<lparr>sp_snap := (sp_snap a)(tx := None)\<rparr>)"
| "tx_spec (TAlloc tx i bs) a = (TDone, sp_put tx i (Some bs) a)"
| "tx_spec (TRead tx i) a = (TBytes (the (sp_snap a tx) i), a)"
| "tx_spec (TWrite tx i bs) a = (TDone, sp_put tx i (Some bs) a)"
| "tx_spec (TFree tx i) a = (TDone, sp_put tx i None a)"

fun tx_run_spec :: "tx_cmd list \<Rightarrow> txspec \<Rightarrow> tx_out list" where
  "tx_run_spec [] a = []"
| "tx_run_spec (c # cs) a = fst (tx_spec c a) # tx_run_spec cs (snd (tx_spec c a))"

definition sp_init :: txspec where
  "sp_init = \<lparr>sp_now = (\<lambda>_. None), sp_snap = Map.empty, sp_writer = None\<rparr>"

text \<open>What a client has to keep to: the transaction runs; only the writer allocates, writes and frees, what
  it can see; a reference is allocated once and holds objects of the pool's size. And an object is only
  freed when the version it has is not newer than the version the writer collects up to.\<close>

definition free_safe :: "'st txsys \<Rightarrow> ptr \<Rightarrow> nat \<Rightarrow> bool" where
  "free_safe s tx i \<longleftrightarrow> (let pl = fst (sy_mem s); r = p_main (sy_refs s i); y = vb_next (vblock pl r) in
     vts pl (if y = NULL then r else y) \<le> tx_ortxversion (tx_of (sy_mgr s) tx))"

fun tx_legal :: "tx_cmd \<Rightarrow> 'st txsys \<Rightarrow> txspec \<Rightarrow> bool" where
  "tx_legal (TBegin tx ty) s a \<longleftrightarrow> tx \<noteq> NULL \<and> sp_snap a tx = None"
| "tx_legal (TCommit tx) s a \<longleftrightarrow> sp_snap a tx \<noteq> None"
| "tx_legal (TAlloc tx i bs) s a \<longleftrightarrow> sp_writer a = Some tx \<and> fdb_txpool_alloc_ref_isnull (sy_refs s i) \<and>
     length bs = unat (tp_data_size (fst (sy_mem s)))"
| "tx_legal (TRead tx i) s a \<longleftrightarrow> sp_snap a tx \<noteq> None \<and> \<not> fdb_txpool_alloc_ref_isnull (sy_refs s i) \<and>
     (sp_writer a = Some tx \<longrightarrow> the (sp_snap a tx) i \<noteq> None)"
| "tx_legal (TWrite tx i bs) s a \<longleftrightarrow> sp_writer a = Some tx \<and> the (sp_snap a tx) i \<noteq> None \<and>
     length bs = unat (tp_data_size (fst (sy_mem s)))"
| "tx_legal (TFree tx i) s a \<longleftrightarrow> sp_writer a = Some tx \<and> the (sp_snap a tx) i \<noteq> None \<and> free_safe s tx i"

fun tx_run_legal :: "nat \<Rightarrow> ptr \<Rightarrow> tx_cmd list \<Rightarrow> 'st txsys \<Rightarrow> txspec \<Rightarrow> bool" where
  "tx_run_legal fuel palloc [] s a \<longleftrightarrow> True"
| "tx_run_legal fuel palloc (c # cs) s a \<longleftrightarrow> tx_legal c s a \<and>
     (case tx_do fuel palloc c s of Inl _ \<Rightarrow> True
      | Inr (x, s') \<Rightarrow> tx_run_legal fuel palloc cs s' (snd (tx_spec c a)))"

section \<open>Several references\<close>

text \<open>\<open>C i\<close> are the versions of reference \<open>i\<close>.\<close>

definition ref_chain :: "(nat \<Rightarrow> fdb_txpool_alloc_ref_t) \<Rightarrow> (nat \<Rightarrow> ptr list) \<Rightarrow> nat \<Rightarrow> ptr list" where
  "ref_chain refs C i = C i @ [p_main (refs i)]"

definition slots_ok :: "'st fdb_txpool_alloc_t \<Rightarrow> (nat \<Rightarrow> fdb_txpool_alloc_ref_t) \<Rightarrow> (nat \<Rightarrow> ptr list) \<Rightarrow> bool" where
  "slots_ok pl refs C \<longleftrightarrow> (\<forall>i. p_main (refs i) \<noteq> NULL \<longrightarrow> ref_ok pl (p_main (refs i)) (C i)) \<and>
     (\<forall>i j. p_main (refs i) \<noteq> NULL \<longrightarrow> p_main (refs j) \<noteq> NULL \<longrightarrow> i \<noteq> j \<longrightarrow>
        set (ref_chain refs C i) \<inter> set (ref_chain refs C j) = {} \<and>
        datas pl (ref_chain refs C i) \<inter> datas pl (ref_chain refs C j) = {})"

lemma slots_okD:
  assumes "slots_ok pl refs C" "p_main (refs i) \<noteq> NULL"
  shows "ref_ok pl (p_main (refs i)) (C i)" "chain_ok pl (ref_chain refs C i)"
  using assms by (auto simp: slots_ok_def ref_ok_def ref_chain_def)

lemma slots_apart:
  assumes "slots_ok pl refs C" "p_main (refs i) \<noteq> NULL" "p_main (refs j) \<noteq> NULL" "i \<noteq> j"
  shows "set (ref_chain refs C i) \<inter> set (ref_chain refs C j) = {}"
    "datas pl (ref_chain refs C i) \<inter> datas pl (ref_chain refs C j) = {}"
  using assms by (auto simp: slots_ok_def)

lemma disjoint_grown: "A \<subseteq> B \<union> - D \<Longrightarrow> E \<inter> B = {} \<Longrightarrow> E \<subseteq> D \<Longrightarrow> A \<inter> E = {}"
  by blast

lemma slots_move:
  assumes ok: "slots_ok pl refs C" and i: "p_main (refs i) \<noteq> NULL"
    and mv: "moves orv v (p_main (refs i)) pl (C i) pl' xs'"
  shows "slots_ok pl' refs (C(i := xs'))"
    "j \<noteq> i \<Longrightarrow> p_main (refs j) \<noteq> NULL \<Longrightarrow> seen pl' u (ref_chain refs C j) = seen pl u (ref_chain refs C j)"
    "j \<noteq> i \<Longrightarrow> p_main (refs j) \<noteq> NULL \<Longrightarrow> x \<in> set (ref_chain refs C j) \<Longrightarrow> tp_blocks pl' x = tp_blocks pl x"
proof -
  from mv have o: "only (set (ref_chain refs C i)) (datas pl (ref_chain refs C i)) pl pl'" by (simp add: moves_def ref_chain_def)
  have ap: "set (ref_chain refs C j) \<inter> set (ref_chain refs C i) = {}"
    "datas pl (ref_chain refs C j) \<inter> datas pl (ref_chain refs C i) = {}"
    if "j \<noteq> i" "p_main (refs j) \<noteq> NULL" for j
    using slots_apart [OF ok that(2) i that(1)] by simp_all
  have ch: "datas pl' (ref_chain refs C j) = datas pl (ref_chain refs C j)"
    "seen pl' u (ref_chain refs C j) = seen pl u (ref_chain refs C j)"
    "x \<in> set (ref_chain refs C j) \<Longrightarrow> tp_blocks pl' x = tp_blocks pl x"
    if "j \<noteq> i" "p_main (refs j) \<noteq> NULL" for j u x
    using only_chain(2,4,5) [OF o slots_okD(2) [OF ok that(2)] ap(1) [OF that] ap(2) [OF that]] by blast+
  show "j \<noteq> i \<Longrightarrow> p_main (refs j) \<noteq> NULL \<Longrightarrow> seen pl' u (ref_chain refs C j) = seen pl u (ref_chain refs C j)"
    "j \<noteq> i \<Longrightarrow> p_main (refs j) \<noteq> NULL \<Longrightarrow> x \<in> set (ref_chain refs C j) \<Longrightarrow> tp_blocks pl' x = tp_blocks pl x"
    using ch by blast+
  have co: "ref_chain refs (C(i := xs')) j = (if j = i then xs' @ [p_main (refs i)] else ref_chain refs C j)" for j
    by (simp add: ref_chain_def)
  have rj: "ref_ok pl' (p_main (refs j)) (C j)" if "j \<noteq> i" "p_main (refs j) \<noteq> NULL" for j
    using only_ref [OF o slots_okD(1) [OF ok that(2)]] ap [OF that] by (simp add: ref_chain_def)
  have new: "set (xs' @ [p_main (refs i)]) \<inter> set (ref_chain refs C j) = {}"
    "datas pl' (xs' @ [p_main (refs i)]) \<inter> datas pl (ref_chain refs C j) = {}"
    if "j \<noteq> i" "p_main (refs j) \<noteq> NULL" for j
  proof -
    have c: "set (ref_chain refs C j) \<subseteq> dom (tp_blocks pl)" "datas pl (ref_chain refs C j) \<subseteq> dom (tp_data pl)"
      using slots_okD(2) [OF ok that(2)] by (auto simp: chain_ok_def)
    have "set (xs' @ [p_main (refs i)]) \<subseteq> set (ref_chain refs C i) \<union> - dom (tp_blocks pl)"
      using mv by (auto simp: moves_def ref_chain_def)
    then show "set (xs' @ [p_main (refs i)]) \<inter> set (ref_chain refs C j) = {}"
      by (rule disjoint_grown [OF _ ap(1) [OF that] c(1)])
    have "datas pl' (xs' @ [p_main (refs i)]) \<subseteq> datas pl (ref_chain refs C i) \<union> - dom (tp_data pl)"
      using mv by (simp add: moves_def ref_chain_def)
    then show "datas pl' (xs' @ [p_main (refs i)]) \<inter> datas pl (ref_chain refs C j) = {}"
      by (rule disjoint_grown [OF _ ap(2) [OF that] c(2)])
  qed
  show "slots_ok pl' refs (C(i := xs'))"
    unfolding slots_ok_def
  proof (intro conjI allI impI)
    fix j assume "p_main (refs j) \<noteq> NULL"
    then show "ref_ok pl' (p_main (refs j)) ((C(i := xs')) j)" using mv rj by (cases "j = i") (auto simp: moves_def)
  next
    fix j k assume jk: "p_main (refs j) \<noteq> NULL" "p_main (refs k) \<noteq> NULL" "j \<noteq> k"
    have jk': "datas pl' (ref_chain refs C l) = datas pl (ref_chain refs C l)" if "l \<noteq> i" "l = j \<or> l = k" for l
      by (rule ch(1) [OF that(1)]) (use that(2) jk in blast)
    consider "j = i" "k \<noteq> i" | "k = i" "j \<noteq> i" | "j \<noteq> i" "k \<noteq> i" using jk(3) by blast
    then have "set (ref_chain refs (C(i := xs')) j) \<inter> set (ref_chain refs (C(i := xs')) k) = {} \<and>
        datas pl' (ref_chain refs (C(i := xs')) j) \<inter> datas pl' (ref_chain refs (C(i := xs')) k) = {}"
    proof cases
      case 1
      then show ?thesis using new [OF 1(2) jk(2)] jk' [OF 1(2)] unfolding co by (simp only: if_True if_False simp_thms)
    next
      case 2
      then show ?thesis using new [OF 2(2) jk(1)] jk' [OF 2(2)] unfolding co
        by (simp only: if_True if_False simp_thms Int_commute)
    next
      case 3
      then show ?thesis using slots_apart [OF ok jk] jk' [OF 3(1)] jk' [OF 3(2)] unfolding co
        by (simp only: if_False simp_thms)
    qed
    then show "set (ref_chain refs (C(i := xs')) j) \<inter> set (ref_chain refs (C(i := xs')) k) = {}"
      "datas pl' (ref_chain refs (C(i := xs')) j) \<inter> datas pl' (ref_chain refs (C(i := xs')) k) = {}" by blast+
  qed
qed

lemma refs_alloc:
  assumes ok: "slots_ok pl refs C" and i: "p_main (refs i) = NULL" and o: "only {} {} pl pl'"
    and ref: "ref_ok pl' (p_main ref) xs'" "set (xs' @ [p_main ref]) \<inter> dom (tp_blocks pl) = {}"
      "datas pl' (xs' @ [p_main ref]) \<inter> dom (tp_data pl) = {}"
  shows "slots_ok pl' (refs(i := ref)) (C(i := xs'))"
    "p_main (refs j) \<noteq> NULL \<Longrightarrow> seen pl' u (ref_chain refs C j) = seen pl u (ref_chain refs C j)"
    "p_main (refs j) \<noteq> NULL \<Longrightarrow> x \<in> set (ref_chain refs C j) \<Longrightarrow> tp_blocks pl' x = tp_blocks pl x"
proof -
  have ch: "datas pl' (ref_chain refs C j) = datas pl (ref_chain refs C j)"
    "seen pl' u (ref_chain refs C j) = seen pl u (ref_chain refs C j)"
    "x \<in> set (ref_chain refs C j) \<Longrightarrow> tp_blocks pl' x = tp_blocks pl x"
    if "p_main (refs j) \<noteq> NULL" for j u x
    using only_chain(2,4,5) [OF o slots_okD(2) [OF ok that]] by auto
  show "p_main (refs j) \<noteq> NULL \<Longrightarrow> seen pl' u (ref_chain refs C j) = seen pl u (ref_chain refs C j)"
    "p_main (refs j) \<noteq> NULL \<Longrightarrow> x \<in> set (ref_chain refs C j) \<Longrightarrow> tp_blocks pl' x = tp_blocks pl x"
    using ch by blast+
  have co: "ref_chain (refs(i := ref)) (C(i := xs')) j = (if j = i then xs' @ [p_main ref] else ref_chain refs C j)" for j
    by (simp add: ref_chain_def)
  have c: "set (ref_chain refs C j) \<subseteq> dom (tp_blocks pl)" "datas pl (ref_chain refs C j) \<subseteq> dom (tp_data pl)"
    if "p_main (refs j) \<noteq> NULL" for j
    using slots_okD(2) [OF ok that] by (auto simp: chain_ok_def)
  have rj: "ref_ok pl' (p_main (refs j)) (C j)" if "p_main (refs j) \<noteq> NULL" for j
    using only_ref [OF o slots_okD(1) [OF ok that]] by simp
  show "slots_ok pl' (refs(i := ref)) (C(i := xs'))"
    unfolding slots_ok_def
  proof (intro conjI allI impI)
    fix j assume "p_main ((refs(i := ref)) j) \<noteq> NULL"
    then show "ref_ok pl' (p_main ((refs(i := ref)) j)) ((C(i := xs')) j)" using ref(1) rj by (cases "j = i") auto
  next
    fix j k assume jk: "p_main ((refs(i := ref)) j) \<noteq> NULL" "p_main ((refs(i := ref)) k) \<noteq> NULL" "j \<noteq> k"
    have N: "set (xs' @ [p_main ref]) \<inter> set (ref_chain refs C l) = {}"
      "datas pl' (xs' @ [p_main ref]) \<inter> datas pl' (ref_chain refs C l) = {}" if l: "p_main (refs l) \<noteq> NULL" for l
      using ref(2,3) c [OF l] unfolding ch(1) [OF l] by blast+
    have old: "set (ref_chain refs C j) \<inter> set (ref_chain refs C k) = {}"
      "datas pl' (ref_chain refs C j) \<inter> datas pl' (ref_chain refs C k) = {}" if l: "j \<noteq> i" "k \<noteq> i"
    proof -
      have l': "p_main (refs j) \<noteq> NULL" "p_main (refs k) \<noteq> NULL" using l jk by simp_all
      show "set (ref_chain refs C j) \<inter> set (ref_chain refs C k) = {}"
        "datas pl' (ref_chain refs C j) \<inter> datas pl' (ref_chain refs C k) = {}"
        using slots_apart [OF ok l' jk(3)] unfolding ch(1) [OF l'(1)] ch(1) [OF l'(2)] by simp_all
    qed
    consider "j = i" "p_main (refs k) \<noteq> NULL" "k \<noteq> i" | "k = i" "p_main (refs j) \<noteq> NULL" "j \<noteq> i" | "j \<noteq> i" "k \<noteq> i"
      using jk by (cases "j = i"; cases "k = i") auto
    then have "set (ref_chain (refs(i := ref)) (C(i := xs')) j) \<inter> set (ref_chain (refs(i := ref)) (C(i := xs')) k) = {} \<and>
        datas pl' (ref_chain (refs(i := ref)) (C(i := xs')) j) \<inter> datas pl' (ref_chain (refs(i := ref)) (C(i := xs')) k) = {}"
    proof cases
      case 1
      then show ?thesis using N [OF 1(2)] unfolding co by (simp only: if_True if_False simp_thms)
    next
      case 2
      then show ?thesis using N [OF 2(2)] unfolding co by (simp only: if_True if_False simp_thms Int_commute)
    next
      case 3
      then show ?thesis using old [OF 3] unfolding co by (simp only: if_False simp_thms)
    qed
    then show "set (ref_chain (refs(i := ref)) (C(i := xs')) j) \<inter> set (ref_chain (refs(i := ref)) (C(i := xs')) k) = {}"
      "datas pl' (ref_chain (refs(i := ref)) (C(i := xs')) j) \<inter> datas pl' (ref_chain (refs(i := ref)) (C(i := xs')) k) = {}"
      by blast+
  qed
qed

section \<open>The simulation\<close>

abbreviation ver :: "txmgr \<Rightarrow> ptr \<Rightarrow> u64" where "ver m x \<equiv> tx_txversion (tx_of m x)"

definition wph :: "txspec \<Rightarrow> wphase" where
  "wph a = (case sp_writer a of None \<Rightarrow> W_FREE | Some w \<Rightarrow> W_IN w)"

text \<open>A reference that is allocated: its root is seen by everyone, its newest version is committed or the
  writer's, and every transaction finds what the specification says it sees.\<close>

definition val_ok ::
  "txmgr \<Rightarrow> ptr list \<Rightarrow> txspec \<Rightarrow> 'st fdb_txpool_alloc_t \<Rightarrow> ptr \<Rightarrow> ptr list \<Rightarrow> nat \<Rightarrow> bool" where
  "val_ok m xs a pl main ch i \<longleftrightarrow> vts pl main \<le> tm_last_write_committed_id m \<and> (\<forall>x\<in>set xs. vts pl main \<le> ver m x) \<and>
     (vts pl (hd (ch @ [main])) \<le> tm_last_write_committed_id m \<or>
        (\<exists>w. sp_writer a = Some w \<and> vts pl (hd (ch @ [main])) = ver m w)) \<and>
     seen pl (tm_last_write_committed_id m) (ch @ [main]) = sp_now a i \<and>
     (\<forall>x\<in>set xs. seen pl (ver m x) (ch @ [main]) = the (sp_snap a x) i)"

definition slot_val ::
  "txmgr \<Rightarrow> ptr list \<Rightarrow> txspec \<Rightarrow> 'st fdb_txpool_alloc_t \<Rightarrow> (nat \<Rightarrow> fdb_txpool_alloc_ref_t) \<Rightarrow> (nat \<Rightarrow> ptr list) \<Rightarrow>
   nat \<Rightarrow> bool" where
  "slot_val m xs a pl refs C i \<longleftrightarrow> (if p_main (refs i) = NULL
     then sp_now a i = None \<and> (\<forall>x\<in>set xs. the (sp_snap a x) i = None)
     else val_ok m xs a pl (p_main (refs i)) (C i) i)"

definition sys_core ::
  "('st \<Rightarrow> u32 \<Rightarrow> u32 \<Rightarrow> u32 \<Rightarrow> ptr \<times> 'st) \<Rightarrow> ('st \<Rightarrow> ptr \<Rightarrow> 'st) \<Rightarrow> ('st \<Rightarrow> (ptr \<rightharpoonup> nat) \<Rightarrow> bool) \<Rightarrow>
   ('st \<Rightarrow> nat \<Rightarrow> bool) \<Rightarrow> (u32 \<Rightarrow> u32 \<Rightarrow> bool) \<Rightarrow> nat \<Rightarrow> nat \<Rightarrow> nat \<Rightarrow> 'st txsys \<Rightarrow> txspec \<Rightarrow> ptr list \<Rightarrow>
   (nat \<Rightarrow> ptr list) \<Rightarrow> bool" where
  "sys_core alloc free ainv room S k l n s a xs C \<longleftrightarrow>
     (\<exists>k'\<le>k. tx_reach k' (sy_mgr s) (wph a) xs) \<and> dom (sp_snap a) = set xs \<and>
     txpool_mem alloc free ainv room S (sy_mem s) n \<and> (\<exists>es. garbage (fst (snd (sy_mem s))) es) \<and>
     sizes_ok (fst (sy_mem s)) \<and> slots_ok (fst (sy_mem s)) (sy_refs s) C \<and> (\<forall>i. length (C i) \<le> l) \<and>
     (\<forall>i. slot_val (sy_mgr s) xs a (fst (sy_mem s)) (sy_refs s) C i)"

text \<open>What the manager's invariant says of the versions.\<close>

lemma reach_versions:
  assumes "\<exists>k'\<le>k. tx_reach k' m (wph a) xs" "k < 2 ^ 64 - 2"
  shows "tx_inv m (wph a) xs" "distinct xs"
    "x \<in> set xs \<Longrightarrow> tx_at m x = Inr (tx_of m x)"
    "x \<in> set xs \<Longrightarrow> sp_writer a \<noteq> Some x \<Longrightarrow>
       tx_type (tx_of m x) = E_READ_ONLY \<and> ver m x \<le> tm_last_write_committed_id m"
    "sp_writer a = Some w \<Longrightarrow> w \<in> set xs \<and> tx_type (tx_of m w) = E_READ_WRITE \<and>
       tm_last_write_committed_id m < ver m w \<and> tx_ortxversion (tx_of m w) \<le> tm_last_write_committed_id m \<and>
       (\<forall>y\<in>set xs. tx_ortxversion (tx_of m w) \<le> ver m y)"
    "tm_last_write_committed_id m < tm_next_id m"
proof -
  from assms obtain k' where k': "k' \<le> k" "tx_reach k' m (wph a) xs" by blast
  then show inv: "tx_inv m (wph a) xs" using tx_reach_inv [OF k'(2)] assms(2) by simp
  then show "distinct xs" "tm_last_write_committed_id m < tm_next_id m" by (simp_all add: tx_inv_def)
  show "x \<in> set xs \<Longrightarrow> tx_at m x = Inr (tx_of m x)" using inv tx_at_in by (auto simp: tx_inv_def)
  have fr: "x \<in> set xs \<Longrightarrow> tx_fresh m (wph a) x (tx_of m x)" for x using inv by (simp add: tx_inv_def)
  show "tx_type (tx_of m x) = E_READ_ONLY \<and> ver m x \<le> tm_last_write_committed_id m"
    if "x \<in> set xs" "sp_writer a \<noteq> Some x"
    using fr [OF that(1)] that(2)
    by (cases "tx_type (tx_of m x)") (auto simp: tx_fresh_def wph_def split: option.splits)
  show "w \<in> set xs \<and> tx_type (tx_of m w) = E_READ_WRITE \<and>
       tm_last_write_committed_id m < ver m w \<and> tx_ortxversion (tx_of m w) \<le> tm_last_write_committed_id m \<and>
       (\<forall>y\<in>set xs. tx_ortxversion (tx_of m w) \<le> ver m y)" if w: "sp_writer a = Some w"
  proof -
    have ph: "wph a = W_IN w" using w by (simp add: wph_def)
    have "w \<in> set xs" "\<forall>y\<in>set xs. tx_ortxversion (tx_of m w) \<le> ver m y"
      using inv ph unfolding tx_inv_def by blast+
    moreover have "tx_type (tx_of m w) = E_READ_WRITE \<and> tm_last_write_committed_id m < ver m w \<and>
        tx_ortxversion (tx_of m w) \<le> tm_last_write_committed_id m"
      using fr [of w] calculation(1) ph by (cases "tx_type (tx_of m w)") (auto simp: tx_fresh_def)
    ultimately show ?thesis by blast
  qed
qed

lemma seen_newest:
  assumes "vts pl (hd (ch @ [main])) \<le> u" "vts pl (hd (ch @ [main])) \<le> w"
  shows "seen pl u (ch @ [main]) = seen pl w (ch @ [main])"
  unfolding seen_pointer [OF newest_seen [OF assms(1)]] seen_pointer [OF newest_seen [OF assms(2)]] ..

lemma val_okD:
  assumes "val_ok m xs a pl main ch i"
  shows "vts pl main \<le> tm_last_write_committed_id m" "x \<in> set xs \<Longrightarrow> vts pl main \<le> ver m x"
    "vts pl (hd (ch @ [main])) \<le> tm_last_write_committed_id m \<or>
       (\<exists>w. sp_writer a = Some w \<and> vts pl (hd (ch @ [main])) = ver m w)"
    "seen pl (tm_last_write_committed_id m) (ch @ [main]) = sp_now a i"
    "x \<in> set xs \<Longrightarrow> seen pl (ver m x) (ch @ [main]) = the (sp_snap a x) i"
  using assms unfolding val_ok_def by blast+

text \<open>Beginning and committing.\<close>

lemma val_begin:
  assumes v: "val_ok m xs a pl main ch i" and x: "x \<notin> set xs" and ty: "ty = E_READ_WRITE \<longrightarrow> sp_writer a = None"
    and w: "\<forall>w. sp_writer a = Some w \<longrightarrow> w \<in> set xs"
    and lc: "tm_last_write_committed_id m' = tm_last_write_committed_id m" "tm_last_write_committed_id m < tm_next_id m"
    and vx: "ver m' x = (if ty = E_READ_WRITE then tm_next_id m else tm_last_write_committed_id m)"
    and old: "\<forall>y\<in>set xs. tx_core (tx_of m' y) = tx_core (tx_of m y)"
  shows "val_ok m' (xs @ [x]) (a\<lparr>sp_snap := (sp_snap a)(x \<mapsto> sp_now a),
     sp_writer := (if ty = E_READ_WRITE then Some x else sp_writer a)\<rparr>) pl main ch i"
proof -
  have vy: "ver m' y = ver m y" if "y \<in> set xs" for y using old that by (simp add: tx_core_def)
  have le: "tm_last_write_committed_id m \<le> ver m' x" using vx lc(2) by auto
  have new: "seen pl (ver m' x) (ch @ [main]) = sp_now a i"
  proof (cases "ty = E_READ_WRITE")
    case True
    then have "vts pl (hd (ch @ [main])) \<le> tm_last_write_committed_id m" using v ty by (auto simp: val_ok_def)
    then show ?thesis using v seen_newest [of pl ch main "ver m' x" "tm_last_write_committed_id m"] le
      by (auto simp: val_ok_def)
  next
    case False
    then show ?thesis using v vx by (simp add: val_ok_def)
  qed
  have ynx: "y \<noteq> x" if "y \<in> set xs" for y using that x by auto
  have "vts pl (hd (ch @ [main])) \<le> tm_last_write_committed_id m \<or>
      (ty \<noteq> E_READ_WRITE \<and> (\<exists>w. sp_writer a = Some w \<and> vts pl (hd (ch @ [main])) = ver m' w))"
    using val_okD(3) [OF v]
  proof (elim disjE exE conjE)
    fix w' assume "sp_writer a = Some w'" "vts pl (hd (ch @ [main])) = ver m w'"
    moreover from this have "ver m' w' = ver m w'" using vy w by blast
    ultimately show ?thesis using ty by auto
  qed simp
  moreover have "\<forall>y\<in>set (xs @ [x]). vts pl main \<le> ver m' y"
    using v vy le unfolding val_ok_def by auto
  moreover have "\<forall>y\<in>set (xs @ [x]). seen pl (ver m' y) (ch @ [main]) = the (((sp_snap a)(x \<mapsto> sp_now a)) y) i"
    using v vy new ynx unfolding val_ok_def by auto
  ultimately show ?thesis using v lc(1) unfolding val_ok_def by auto
qed

lemma val_commit:
  assumes v: "val_ok m xs a pl main ch i" and x: "x \<in> set xs" and d: "distinct xs"
    and w: "\<forall>w. sp_writer a = Some w \<longrightarrow> w \<in> set xs \<and> tm_last_write_committed_id m < ver m w"
    and lc: "tm_last_write_committed_id m' = (if sp_writer a = Some x then ver m x else tm_last_write_committed_id m)"
    and old: "\<forall>y\<in>set xs. tx_core (tx_of m' y) = tx_core (tx_of m y)"
  shows "val_ok m' (remove1 x xs) (snd (tx_spec (TCommit x) a)) pl main ch i"
proof -
  have vy: "ver m' y = ver m y" if "y \<in> set xs" for y using old that by (simp add: tx_core_def)
  have rm: "y \<in> set (remove1 x xs) \<longleftrightarrow> y \<in> set xs \<and> y \<noteq> x" for y using d by (simp add: set_remove1_eq)
  show ?thesis
  proof (cases "sp_writer a = Some x")
    case True
    have "vts pl (hd (ch @ [main])) \<le> ver m x" using v w True unfolding val_ok_def by fastforce
    then show ?thesis using True v lc x vy rm unfolding val_ok_def by auto
  next
    case False
    have "vts pl (hd (ch @ [main])) \<le> tm_last_write_committed_id m \<or>
      (\<exists>w. sp_writer a = Some w \<and> vts pl (hd (ch @ [main])) = ver m' w)"
      using val_okD(3) [OF v]
    proof (elim disjE exE conjE)
      fix w' assume "sp_writer a = Some w'" "vts pl (hd (ch @ [main])) = ver m w'"
      moreover from this have "ver m' w' = ver m w'" using vy w by blast
      ultimately show ?thesis by auto
    qed simp
    then show ?thesis using False v lc vy rm unfolding val_ok_def by auto
  qed
qed

text \<open>An operation of the writer on the reference \<open>i\<close>, and on another one.\<close>

lemma val_move:
  assumes v: "val_ok m xs a pl main ch i" and w: "sp_writer a = Some w" "w \<in> set xs"
    and ord: "tx_ortxversion (tx_of m w) \<le> tm_last_write_committed_id m" "tm_last_write_committed_id m < ver m w"
      "\<forall>y\<in>set xs. tx_ortxversion (tx_of m w) \<le> ver m y" "\<forall>y\<in>set xs. y \<noteq> w \<longrightarrow> ver m y < ver m w"
    and mv: "moves (tx_ortxversion (tx_of m w)) (ver m w) main pl ch pl' ch'"
    and new: "seen pl' (ver m w) (ch' @ [main]) = x"
      "vts pl' (hd (ch' @ [main])) = vts pl (hd (ch @ [main])) \<or> vts pl' (hd (ch' @ [main])) = ver m w"
  shows "val_ok m xs (sp_put w i x a) pl' main ch' i"
proof -
  have mn: "vts pl' main = vts pl main \<or> vts pl' main \<le> tx_ortxversion (tx_of m w)"
    and sn: "\<forall>u\<ge>tx_ortxversion (tx_of m w). u < ver m w \<longrightarrow> seen pl' u (ch' @ [main]) = seen pl u (ch @ [main])"
    using mv by (simp_all add: moves_def)
  have "vts pl' main \<le> tm_last_write_committed_id m" "\<forall>y\<in>set xs. vts pl' main \<le> ver m y"
    using mn v ord(1,3) unfolding val_ok_def by (auto intro: order_trans)
  moreover have "vts pl' (hd (ch' @ [main])) \<le> tm_last_write_committed_id m \<or>
      (\<exists>w. sp_writer a = Some w \<and> vts pl' (hd (ch' @ [main])) = ver m w)"
    using new(2)
  proof
    assume "vts pl' (hd (ch' @ [main])) = vts pl (hd (ch @ [main]))"
    then show ?thesis using val_okD(3) [OF v] by simp
  qed (use w in blast)
  moreover have "seen pl' (tm_last_write_committed_id m) (ch' @ [main]) = sp_now a i"
    using sn ord v by (simp add: val_ok_def)
  moreover have "seen pl' (ver m y) (ch' @ [main]) = the (sp_snap (sp_put w i x a) y) i" if y: "y \<in> set xs" for y
    using new(1) sn ord(3,4) v y by (cases "y = w") (auto simp: val_ok_def sp_put_def)
  ultimately show ?thesis by (simp add: val_ok_def sp_put_def)
qed

lemma val_other:
  assumes v: "val_ok m xs a pl main ch j" and ji: "j \<noteq> i" and w: "sp_writer a = Some w"
    and b: "\<forall>x\<in>set (ch @ [main]). tp_blocks pl' x = tp_blocks pl x"
    and s: "\<forall>u. seen pl' u (ch @ [main]) = seen pl u (ch @ [main])"
  shows "val_ok m xs (sp_put w i x a) pl' main ch j"
proof -
  have "hd (ch @ [main]) \<in> set (ch @ [main])" by (rule hd_in_set) simp
  then have "vts pl' (hd (ch @ [main])) = vts pl (hd (ch @ [main]))" "vts pl' main = vts pl main" using b by auto
  moreover have "the (sp_snap (sp_put w i x a) y) j = the (sp_snap a y) j" for y
    using ji by (simp add: sp_put_def)
  ultimately show ?thesis using v s by (simp add: val_ok_def) (simp add: sp_put_def)
qed

lemma dom_sp_put: "dom (sp_snap (sp_put w i x a)) = insert w (dom (sp_snap a))"
  and wph_sp_put [simp]: "wph (sp_put w i x a) = wph a"
  and sp_put_twice [simp]: "sp_put w i y (sp_put w i x a) = sp_put w i y a"
  by (auto simp: sp_put_def wph_def)

context steady_provider
begin

abbreviation "syscore \<equiv> sys_core alloc free ainv room S"

lemma core_writer:
  assumes c: "syscore k l n s a xs C" and k: "k < 2 ^ 64 - 2" and w: "sp_writer a = Some w"
  shows "w \<in> set xs" "tx_at (sy_mgr s) w = Inr (tx_of (sy_mgr s) w)"
    "tx_ortxversion (tx_of (sy_mgr s) w) \<le> tm_last_write_committed_id (sy_mgr s)"
    "tm_last_write_committed_id (sy_mgr s) < ver (sy_mgr s) w"
    "\<forall>y\<in>set xs. tx_ortxversion (tx_of (sy_mgr s) w) \<le> ver (sy_mgr s) y"
    "\<forall>y\<in>set xs. y \<noteq> w \<longrightarrow> ver (sy_mgr s) y < ver (sy_mgr s) w"
    "tx_type (tx_of (sy_mgr s) w) = E_READ_WRITE"
proof -
  have r: "\<exists>k'\<le>k. tx_reach k' (sy_mgr s) (wph a) xs" using c by (simp add: sys_core_def)
  note v = reach_versions [OF r k]
  show "w \<in> set xs" "tx_at (sy_mgr s) w = Inr (tx_of (sy_mgr s) w)" using v(3,5) w by blast+
  show "tx_ortxversion (tx_of (sy_mgr s) w) \<le> tm_last_write_committed_id (sy_mgr s)"
    "tm_last_write_committed_id (sy_mgr s) < ver (sy_mgr s) w"
    "\<forall>y\<in>set xs. tx_ortxversion (tx_of (sy_mgr s) w) \<le> ver (sy_mgr s) y"
    "tx_type (tx_of (sy_mgr s) w) = E_READ_WRITE" using v(5) [OF w] by blast+
  show "\<forall>y\<in>set xs. y \<noteq> w \<longrightarrow> ver (sy_mgr s) y < ver (sy_mgr s) w"
    using v(4) v(5) [OF w] w by (metis order_le_less_trans option.inject)
qed

lemma core_move:
  assumes c: "syscore k l n s a xs C" and k: "k < 2 ^ 64 - 2" and w: "sp_writer a = Some w"
    and i: "p_main (sy_refs s i) \<noteq> NULL"
    and mv: "moves (tx_ortxversion (tx_of (sy_mgr s) w)) (ver (sy_mgr s) w) (p_main (sy_refs s i)) (fst (sy_mem s)) (C i) pl' ch'"
    and m: "txmem (pl', tc', st') n'" and es: "garbage tc' es'"
    and new: "seen pl' (ver (sy_mgr s) w) (ch' @ [p_main (sy_refs s i)]) = x"
      "vts pl' (hd (ch' @ [p_main (sy_refs s i)])) = vts (fst (sy_mem s)) (hd (C i @ [p_main (sy_refs s i)])) \<or>
       vts pl' (hd (ch' @ [p_main (sy_refs s i)])) = ver (sy_mgr s) w"
    and len: "length ch' \<le> l'" "l \<le> l'"
  shows "syscore k l' n' (s\<lparr>sy_mem := (pl', tc', st')\<rparr>) (sp_put w i x a) xs (C(i := ch'))"
proof -
  note W = core_writer [OF c k w]
  have ok: "slots_ok (fst (sy_mem s)) (sy_refs s) C" and sv: "\<forall>j. slot_val (sy_mgr s) xs a (fst (sy_mem s)) (sy_refs s) C j"
    and ls: "\<forall>i. length (C i) \<le> l" and dm: "dom (sp_snap a) = set xs"
    and r: "\<exists>k'\<le>k. tx_reach k' (sy_mgr s) (wph a) xs" using c by (simp_all add: sys_core_def)
  note sm = slots_move [OF ok i mv]
  have "slot_val (sy_mgr s) xs (sp_put w i x a) pl' (sy_refs s) (C(i := ch')) j" for j
  proof (cases "j = i")
    case True
    have "val_ok (sy_mgr s) xs a (fst (sy_mem s)) (p_main (sy_refs s i)) (C i) i" using sv i by (simp add: slot_val_def)
    from val_move [OF this w W(1,3,4,5,6) mv new] show ?thesis using True i by (simp add: slot_val_def)
  next
    case False
    show ?thesis
    proof (cases "p_main (sy_refs s j) = NULL")
      case True
      then have "sp_now a j = None \<and> (\<forall>y\<in>set xs. the (sp_snap a y) j = None)"
        using sv [rule_format, of j] by (simp add: slot_val_def)
      then show ?thesis using True False W(1) by (auto simp: slot_val_def sp_put_def)
    next
      case N: False
      then have v: "val_ok (sy_mgr s) xs a (fst (sy_mem s)) (p_main (sy_refs s j)) (C j) j"
        using sv [rule_format, of j] by (simp add: slot_val_def)
      have "val_ok (sy_mgr s) xs (sp_put w i x a) pl' (p_main (sy_refs s j)) (C j) j"
        by (rule val_other [OF v False w]) (use sm(2,3) [OF False N] in \<open>auto simp: ref_chain_def\<close>)
      then show ?thesis using N False by (simp add: slot_val_def)
    qed
  qed
  moreover have "sizes_ok pl'" using mv by (simp add: moves_def)
  moreover have "\<forall>j. length ((C(i := ch')) j) \<le> l'" using ls len by (auto intro: order_trans)
  moreover have "insert w (set xs) = set xs" using W(1) by blast
  ultimately show ?thesis using sm(1) m es dm r unfolding sys_core_def by (auto simp: dom_sp_put)
qed

lemma core_writes:
  assumes c: "syscore k l n s a xs C" and k: "k < 2 ^ 64 - 2" and w: "sp_writer a = Some w"
    and s: "the (sp_snap a w) i \<noteq> None"
  shows "p_main (sy_refs s i) \<noteq> NULL"
    "writes (tx_of (sy_mgr s) w) (fst (sy_mem s)) (p_main (sy_refs s i)) (C i)"
    "seen (fst (sy_mem s)) (ver (sy_mgr s) w) (C i @ [p_main (sy_refs s i)]) = the (sp_snap a w) i"
proof -
  note W = core_writer [OF c k w]
  have ok: "slots_ok (fst (sy_mem s)) (sy_refs s) C" and sv: "slot_val (sy_mgr s) xs a (fst (sy_mem s)) (sy_refs s) C i"
    and sz: "sizes_ok (fst (sy_mem s))" using c by (simp_all add: sys_core_def)
  show i: "p_main (sy_refs s i) \<noteq> NULL" using sv s W(1) by (auto simp: slot_val_def split: if_splits)
  then have v: "val_ok (sy_mgr s) xs a (fst (sy_mem s)) (p_main (sy_refs s i)) (C i) i" using sv by (simp add: slot_val_def)
  show sn: "seen (fst (sy_mem s)) (ver (sy_mgr s) w) (C i @ [p_main (sy_refs s i)]) = the (sp_snap a w) i"
    by (rule val_okD(5) [OF v W(1)])
  have "vts (fst (sy_mem s)) (hd (C i @ [p_main (sy_refs s i)])) \<le> ver (sy_mgr s) w"
    using val_okD(3) [OF v] W(4) w by auto
  moreover have "vts (fst (sy_mem s)) (p_main (sy_refs s i)) < ver (sy_mgr s) w"
    using val_okD(1) [OF v] W(4) by simp
  moreover have "tx_ortxversion (tx_of (sy_mgr s) w) < ver (sy_mgr s) w" using W(3,4) by simp
  ultimately show "writes (tx_of (sy_mgr s) w) (fst (sy_mem s)) (p_main (sy_refs s i)) (C i)"
    unfolding writes_def using W(7) slots_okD(1) [OF ok i] sz sn s by simp
qed

lemma core_len: "syscore k l n s a xs C \<Longrightarrow> length (C i) \<le> l"
  by (simp add: sys_core_def)

lemma core_mem: "syscore k l n s a xs C \<Longrightarrow> sy_mem s = (pl, tc, st) \<Longrightarrow>
    txmem (pl, tc, st) n \<and> (\<exists>es. garbage tc es)"
  by (simp add: sys_core_def)

lemma write_object_spec:
  assumes c: "syscore k l (Suc (Suc (Suc (Suc n)))) s a xs C" and k: "k < 2 ^ 64 - 2" and w: "sp_writer a = Some w"
    and sn: "the (sp_snap a w) i \<noteq> None" and bs: "length bs = unat (tp_data_size (fst (sy_mem s)))" and f: "l < fuel"
  shows "\<exists>mem' C'. write_object fuel palloc (sy_mem s) (tx_of (sy_mgr s) w) (sy_refs s i) bs = Inr mem' \<and>
    syscore k (Suc l) n (s\<lparr>sy_mem := mem'\<rparr>) (sp_put w i (Some bs) a) xs C'"
proof -
  obtain pl tc st where mem: "sy_mem s = (pl, tc, st)" by (cases "sy_mem s") auto
  let ?t = "tx_of (sy_mgr s) w" and ?m = "p_main (sy_refs s i)"
  note W = core_writes [OF c k w sn]
  have wr: "writes ?t pl ?m (C i)" using W(2) mem by simp
  have len: "length (C i) < fuel" using core_len [OF c, of i] f by simp
  from core_mem [OF c mem] obtain es where m: "txmem (pl, tc, st) (Suc (Suc (Suc (Suc n))))" "garbage tc es" by blast
  from writer_write_spec [OF wr len m, of palloc] obtain d pl1 tc1 st1 ch1 es1 where
    1: "fdb_txpool_alloc_ptr fuel palloc (pl, tc, st) ?t (sy_refs s i) True = Inr (d, (pl1, tc1, st1))"
      "txmem (pl1, tc1, st1) n" "garbage tc1 es1" "length ch1 \<le> Suc (length (C i))"
      "moves (tx_ortxversion ?t) (tx_txversion ?t) ?m pl (C i) pl1 ch1" "owns ?t pl1 ?m ch1 d" by blast
  have ok: "ref_ok pl1 ?m ch1" "sizes_ok pl1" "tp_data_size pl1 = tp_data_size pl"
    using 1(5) by (simp_all add: moves_def only_def same_pool_def)
  have bs1: "length bs = unat (tp_data_size pl1)" using bs mem ok(3) by simp
  from store_spec [OF ok(1,2) 1(6) bs1, of "tx_ortxversion ?t"] obtain pl2 where
    2: "store_bytes pl1 d bs = Inr pl2" "tp_blocks pl2 = tp_blocks pl1"
      "moves (tx_ortxversion ?t) (tx_txversion ?t) ?m pl1 ch1 pl2 ch1"
      "\<forall>u\<ge>tx_txversion ?t. seen pl2 u (ch1 @ [?m]) = Some bs" "txmem (pl2, tc1, st1) n" using 1(2) by blast
  have mv: "moves (tx_ortxversion ?t) (tx_txversion ?t) ?m pl (C i) pl2 ch1"
    by (rule moves_trans [OF 1(5) 2(3)]) (use wr in \<open>simp add: writes_def\<close>)
  have hd: "vts pl2 (hd (ch1 @ [?m])) = tx_txversion ?t" using 1(6) 2(2) by (simp add: owns_def)
  have "syscore k (Suc l) n (s\<lparr>sy_mem := (pl2, tc1, st1)\<rparr>) (sp_put w i (Some bs) a) xs (C(i := ch1))"
    by (rule core_move [OF c k w W(1) _ 2(5) 1(3)])
      (use mv mem 2(4) hd 1(4) core_len [OF c, of i] in auto)
  moreover have "write_object fuel palloc (sy_mem s) ?t (sy_refs s i) bs = Inr (pl2, tc1, st1)"
    using 1(1) 2(1) mem by (simp add: write_object_def)
  ultimately show ?thesis by blast
qed

lemma core_alloc:
  assumes c: "syscore k l (Suc (Suc (Suc n))) s a xs C" and k: "k < 2 ^ 64 - 2" and w: "sp_writer a = Some w"
    and i: "p_main (sy_refs s i) = NULL" and mem: "sy_mem s = (pl, tc, st)"
  shows "\<exists>ref pl' st' x C'. fdb_txpool_alloc_alloc (pl, st) (tx_of (sy_mgr s) w) h = Inr (ref, (pl', st')) \<and>
    syscore k (Suc l) n (s\<lparr>sy_mem := (pl', tc, st'), sy_refs := (sy_refs s)(i := ref)\<rparr>) (sp_put w i (Some x) a) xs C' \<and>
    tp_data_size pl' = tp_data_size pl"
proof -
  let ?t = "tx_of (sy_mgr s) w"
  note W = core_writer [OF c k w]
  have ok: "slots_ok pl (sy_refs s) C" and sv: "\<forall>j. slot_val (sy_mgr s) xs a pl (sy_refs s) C j"
    and ls: "\<forall>i. length (C i) \<le> l" and dm: "dom (sp_snap a) = set xs" and sz: "sizes_ok pl"
    and r: "\<exists>k'\<le>k. tx_reach k' (sy_mgr s) (wph a) xs" using c mem by (simp_all add: sys_core_def)
  from core_mem [OF c mem] obtain es where m: "txmem (pl, tc, st) (Suc (Suc (Suc n)))" "garbage tc es" by blast
  have v: "0 < tx_txversion ?t" using W(4) by (auto simp: word_gt_0 intro: le_less_trans)
  from tx_alloc_spec [OF m(1) sz v, of h] obtain ref b pl' st' where
    1: "fdb_txpool_alloc_alloc (pl, st) ?t h = Inr (ref, (pl', st'))" "txmem (pl', tc, st') n"
      "sizes_ok pl'" "only {} {} pl pl'" "ref_ok pl' (p_main ref) [b]" "vts pl' b = tx_txversion ?t"
      "vts pl' (p_main ref) = 0" "vdata pl' (p_main ref) = NULL" "vdata pl' b \<noteq> NULL"
      "b \<notin> dom (tp_blocks pl)" "p_main ref \<notin> dom (tp_blocks pl)" "vdata pl' b \<notin> dom (tp_data pl)" by blast
  have ds: "datas pl' ([b] @ [p_main ref]) \<inter> dom (tp_data pl) = {}" using 1(8,12) by (auto simp: datas_def)
  have nl: "p_main ref \<noteq> NULL" using 1(5) chain_okD(2) [of pl' "[b] @ [p_main ref]" "p_main ref"] by (auto simp: ref_ok_def)
  note sa = refs_alloc [OF ok i 1(4,5) _ ds]
  have s1: "set ([b] @ [p_main ref]) \<inter> dom (tp_blocks pl) = {}" using 1(10,11) by auto
  have ch: "chain_ok pl' ([b] @ [p_main ref])" using 1(5) by (simp add: ref_ok_def)
  obtain x where x: "tp_data pl' (vdata pl' b) = Some x" using chain_okD(3) [OF ch, of b] 1(9) by auto
  have sn: "seen pl' u ([b] @ [p_main ref]) = (if tx_txversion ?t \<le> u then Some x else None)" for u
    using 1(6-9) x by (simp add: seen_def)
  have null: "sp_now a i = None" "\<forall>y\<in>set xs. the (sp_snap a y) i = None" using sv i by (auto simp: slot_val_def)
  have vi: "val_ok (sy_mgr s) xs (sp_put w i (Some x) a) pl' (p_main ref) [b] i"
    unfolding val_ok_def
  proof (intro conjI ballI)
    show "vts pl' (hd ([b] @ [p_main ref])) \<le> tm_last_write_committed_id (sy_mgr s) \<or>
      (\<exists>wa. sp_writer (sp_put w i (Some x) a) = Some wa \<and> vts pl' (hd ([b] @ [p_main ref])) = ver (sy_mgr s) wa)"
      using w 1(6) by (simp add: sp_put_def)
    show "seen pl' (tm_last_write_committed_id (sy_mgr s)) ([b] @ [p_main ref]) = sp_now (sp_put w i (Some x) a) i"
      using sn W(4) null(1) by (simp add: sp_put_def)
    show "seen pl' (ver (sy_mgr s) y) ([b] @ [p_main ref]) = the (sp_snap (sp_put w i (Some x) a) y) i" if "y \<in> set xs" for y
      using sn W(6) that null(2) by (cases "y = w") (auto simp: sp_put_def not_le)
  qed (use 1(7) in simp_all)
  have "slot_val (sy_mgr s) xs (sp_put w i (Some x) a) pl' ((sy_refs s)(i := ref)) (C(i := [b])) j" for j
  proof (cases "j = i")
    case True
    then show ?thesis using vi nl by (simp add: slot_val_def)
  next
    case False
    show ?thesis
    proof (cases "p_main (sy_refs s j) = NULL")
      case True
      then have "sp_now a j = None \<and> (\<forall>y\<in>set xs. the (sp_snap a y) j = None)"
        using sv [rule_format, of j] by (simp add: slot_val_def)
      then show ?thesis using True False W(1) by (auto simp: slot_val_def sp_put_def)
    next
      case N: False
      then have v: "val_ok (sy_mgr s) xs a pl (p_main (sy_refs s j)) (C j) j"
        using sv [rule_format, of j] by (simp add: slot_val_def)
      have "val_ok (sy_mgr s) xs (sp_put w i (Some x) a) pl' (p_main (sy_refs s j)) (C j) j"
        by (rule val_other [OF v False w]) (use sa(2,3) [OF s1 N] in \<open>auto simp: ref_chain_def\<close>)
      then show ?thesis using N False by (simp add: slot_val_def)
    qed
  qed
  moreover have "\<forall>j. length ((C(i := [b])) j) \<le> Suc l" using ls by (auto intro: le_SucI)
  moreover have "insert w (set xs) = set xs" using W(1) by blast
  moreover have "tp_data_size pl' = tp_data_size pl" using 1(4) by (simp add: only_def same_pool_def)
  ultimately show ?thesis using 1(1,2,3) sa(1) [OF s1] m(2) dm r unfolding sys_core_def
    by (intro exI [of _ ref] exI [of _ pl'] exI [of _ st'] exI [of _ x] exI [of _ "C(i := [b])"]) (auto simp: dom_sp_put)
qed

lemma core_mgr:
  assumes c: "syscore k l n s a xs C" and r: "\<exists>j\<le>k'. tx_reach j m' (wph a') xs'" and d: "dom (sp_snap a') = set xs'"
    and v: "\<And>i. slot_val m' xs' a' (fst (sy_mem s)) (sy_refs s) C i"
  shows "syscore k' l n (s\<lparr>sy_mgr := m'\<rparr>) a' xs' C"
  unfolding sys_core_def using c r d by (intro conjI allI) (simp_all add: sys_core_def v)

lemma core_mono:
  assumes c: "syscore k l n s a xs C" and le: "k \<le> k'" "l \<le> l'" "n' \<le> n"
  shows "syscore k' l' n' s a xs C"
proof -
  have m: "txmem (sy_mem s) ((n - n') + n')" using c le(3) by (simp add: sys_core_def)
  have "txmem (sy_mem s) n'" by (rule txmem_le [OF steady_provider_axioms m])
  moreover have "\<exists>j\<le>k'. tx_reach j (sy_mgr s) (wph a) xs" using c le(1) unfolding sys_core_def by (meson order_trans)
  moreover have "\<forall>i. length (C i) \<le> l'" using c le(2) unfolding sys_core_def by (meson order_trans)
  ultimately show ?thesis using c unfolding sys_core_def by blast
qed

lemma step_begin:
  assumes c: "syscore k l n s a xs C" and k: "k < 2 ^ 64 - 2" and x: "x \<noteq> NULL" "sp_snap a x = None"
  shows "\<exists>s' xs'. tx_do fuel palloc (TBegin x ty) s = Inr (fst (tx_spec (TBegin x ty) a), s') \<and>
    syscore (Suc k) l n s' (snd (tx_spec (TBegin x ty) a)) xs' C"
proof -
  from c obtain k' where k': "k' \<le> k" "tx_reach k' (sy_mgr s) (wph a) xs" unfolding sys_core_def by blast
  then have r: "\<exists>k'\<le>k. tx_reach k' (sy_mgr s) (wph a) xs" by blast
  note V = reach_versions [OF r k]
  have dm: "dom (sp_snap a) = set xs" and sv: "\<forall>i. slot_val (sy_mgr s) xs a (fst (sy_mem s)) (sy_refs s) C i"
    using c by (simp_all add: sys_core_def)
  have xn: "x \<notin> set xs" using dm x(2) by blast
  show ?thesis
  proof (cases "ty = E_READ_WRITE \<and> sp_writer a \<noteq> None")
    case True
    then have ph: "wph a \<noteq> W_FREE" by (auto simp: wph_def)
    have "tx_do fuel palloc (TBegin x ty) s = Inr (fst (tx_spec (TBegin x ty) a), s)"
      using True begin_waits [OF V(1) ph] by simp
    moreover have "syscore (Suc k) l n s (snd (tx_spec (TBegin x ty) a)) xs C"
      using True core_mono [OF c, of "Suc k" l n] by simp
    ultimately show ?thesis by blast
  next
    case False
    let ?a = "a\<lparr>sp_snap := (sp_snap a)(x \<mapsto> sp_now a), sp_writer := (if ty = E_READ_WRITE then Some x else sp_writer a)\<rparr>"
    have sp: "tx_spec (TBegin x ty) a = (TDone, ?a)" using False by (simp only: tx_spec.simps if_False)
    have ty: "ty = E_READ_WRITE \<longrightarrow> sp_writer a = None" using False by blast
    then have "ty = E_READ_WRITE \<longrightarrow> wph a = W_FREE" by (simp add: wph_def)
    from begin_step [OF k'(2) _ x(1) xn this] k k'(1) obtain m' where
      m': "fdb_tx_begin (sy_mgr s) x ty = Inr (Some m')"
      "tx_reach (Suc k') m' (if ty = E_READ_WRITE then W_IN x else wph a) (xs @ [x])"
      "tm_last_write_committed_id m' = tm_last_write_committed_id (sy_mgr s)"
      "ver m' x = (if ty = E_READ_WRITE then tm_next_id (sy_mgr s) else tm_last_write_committed_id (sy_mgr s))"
      "\<forall>y\<in>set xs. tx_core (tx_of m' y) = tx_core (tx_of (sy_mgr s) y)" by (auto simp: less_imp_le)
    have ph: "wph ?a = (if ty = E_READ_WRITE then W_IN x else wph a)" by (simp add: wph_def)
    have w: "\<forall>w. sp_writer a = Some w \<longrightarrow> w \<in> set xs" using V(5) by blast
    have sv': "slot_val m' (xs @ [x]) ?a (fst (sy_mem s)) (sy_refs s) C i" for i
    proof (cases "p_main (sy_refs s i) = NULL")
      case True
      then have "sp_now a i = None \<and> (\<forall>y\<in>set xs. the (sp_snap a y) i = None)"
        using sv [rule_format, of i] by (simp add: slot_val_def)
      then show ?thesis using True by (simp add: slot_val_def)
    next
      case nn: False
      then have "val_ok (sy_mgr s) xs a (fst (sy_mem s)) (p_main (sy_refs s i)) (C i) i"
        using sv [rule_format, of i] by (simp add: slot_val_def)
      from val_begin [OF this xn ty w m'(3) V(6) m'(4,5)] nn show ?thesis by (simp add: slot_val_def)
    qed
    have "\<exists>j\<le>Suc k. tx_reach j m' (wph ?a) (xs @ [x])" using m'(2) k'(1) ph by (intro exI [of _ "Suc k'"]) simp
    moreover have "dom (sp_snap ?a) = set (xs @ [x])" using dm by auto
    ultimately have "syscore (Suc k) l n (s\<lparr>sy_mgr := m'\<rparr>) ?a (xs @ [x]) C"
      by (rule core_mgr [OF c _ _ sv'])
    moreover have "tx_do fuel palloc (TBegin x ty) s = Inr (TDone, s\<lparr>sy_mgr := m'\<rparr>)" using m'(1) by simp
    ultimately show ?thesis unfolding sp by auto
  qed
qed

lemma step_commit:
  assumes c: "syscore k l n s a xs C" and k: "k < 2 ^ 64 - 2" and x: "sp_snap a x \<noteq> None"
  shows "\<exists>s' xs'. tx_do fuel palloc (TCommit x) s = Inr (fst (tx_spec (TCommit x) a), s') \<and>
    syscore k l n s' (snd (tx_spec (TCommit x) a)) xs' C"
proof -
  from c obtain k' where k': "k' \<le> k" "tx_reach k' (sy_mgr s) (wph a) xs" unfolding sys_core_def by blast
  then have r: "\<exists>k'\<le>k. tx_reach k' (sy_mgr s) (wph a) xs" by blast
  note V = reach_versions [OF r k]
  have dm: "dom (sp_snap a) = set xs" and sv: "\<forall>i. slot_val (sy_mgr s) xs a (fst (sy_mem s)) (sy_refs s) C i"
    using c by (simp_all add: sys_core_def)
  have xi: "x \<in> set xs" using dm x by blast
  have phx: "wph a = W_IN x \<longleftrightarrow> sp_writer a = Some x" by (auto simp: wph_def split: option.splits)
  have "k' < 2 ^ 64 - 1" using k k'(1) by simp
  from commit_step [OF k'(2) this xi] obtain m' where
    m': "fdb_tx_commit (sy_mgr s) x = Inr m'"
    "tx_reach k' m' (if wph a = W_IN x then W_FREE else wph a) (remove1 x xs)"
    "tm_last_write_committed_id m' = (if wph a = W_IN x then ver (sy_mgr s) x else tm_last_write_committed_id (sy_mgr s))"
    "\<forall>y\<in>set xs. tx_core (tx_of m' y) = tx_core (tx_of (sy_mgr s) y)" by blast
  let ?a = "snd (tx_spec (TCommit x) a)"
  have ph: "wph ?a = (if wph a = W_IN x then W_FREE else wph a)" by (simp add: wph_def split: option.splits)
  have w: "\<forall>w. sp_writer a = Some w \<longrightarrow> w \<in> set xs \<and> tm_last_write_committed_id (sy_mgr s) < ver (sy_mgr s) w"
    using V(5) by blast
  have rm: "set (remove1 x xs) = set xs - {x}" by (rule set_remove1_eq [OF V(2)])
  have sv': "slot_val m' (remove1 x xs) ?a (fst (sy_mem s)) (sy_refs s) C i" for i
  proof (cases "p_main (sy_refs s i) = NULL")
    case True
    then have "sp_now a i = None \<and> (\<forall>y\<in>set xs. the (sp_snap a y) i = None)"
      using sv [rule_format, of i] by (simp add: slot_val_def)
    then show ?thesis using True xi rm by (simp add: slot_val_def)
  next
    case nn: False
    then have "val_ok (sy_mgr s) xs a (fst (sy_mem s)) (p_main (sy_refs s i)) (C i) i"
      using sv [rule_format, of i] by (simp add: slot_val_def)
    from val_commit [OF this xi V(2) w m'(3) [unfolded phx] m'(4)] nn show ?thesis by (simp add: slot_val_def)
  qed
  have "\<exists>j\<le>k. tx_reach j m' (wph ?a) (remove1 x xs)" using m'(2) k'(1) ph by (intro exI [of _ k']) simp
  moreover have "dom (sp_snap ?a) = set (remove1 x xs)" using dm rm by auto
  ultimately have "syscore k l n (s\<lparr>sy_mgr := m'\<rparr>) ?a (remove1 x xs) C"
    by (rule core_mgr [OF c _ _ sv'])
  moreover have "tx_do fuel palloc (TCommit x) s = Inr (TDone, s\<lparr>sy_mgr := m'\<rparr>)" using m'(1) by simp
  moreover have "fst (tx_spec (TCommit x) a) = TDone" by simp
  ultimately show ?thesis by metis
qed

lemma step_read:
  assumes c: "syscore k l (Suc (Suc n)) s a xs C" and k: "k < 2 ^ 64 - 2" and f: "l < fuel"
    and lg: "tx_legal (TRead x i) s a"
  shows "\<exists>s' C'. tx_do fuel palloc (TRead x i) s = Inr (fst (tx_spec (TRead x i) a), s') \<and>
    syscore k l n s' (snd (tx_spec (TRead x i) a)) xs C'"
proof -
  from c have r: "\<exists>k'\<le>k. tx_reach k' (sy_mgr s) (wph a) xs" unfolding sys_core_def by blast
  note V = reach_versions [OF r k]
  have dm: "dom (sp_snap a) = set xs" and ok: "slots_ok (fst (sy_mem s)) (sy_refs s) C"
    and sv: "slot_val (sy_mgr s) xs a (fst (sy_mem s)) (sy_refs s) C i" using c by (simp_all add: sys_core_def)
  have xi: "x \<in> set xs" and m: "p_main (sy_refs s i) \<noteq> NULL"
    using lg dm by (auto simp: fdb_txpool_alloc_ref_isnull_def)
  obtain pl tc st where mem: "sy_mem s = (pl, tc, st)" by (cases "sy_mem s") auto
  let ?t = "tx_of (sy_mgr s) x" and ?r = "p_main (sy_refs s i)"
  have len: "length (C i) < fuel" using core_len [OF c, of i] f by simp
  have v: "val_ok (sy_mgr s) xs a pl ?r (C i) i" using sv m mem by (simp add: slot_val_def)
  note at = V(3) [OF xi]
  show ?thesis
  proof (cases "sp_writer a = Some x")
    case False
    let ?d = "pointer_seen pl (ver (sy_mgr s) x) (C i @ [?r])"
    have rf: "ref_ok pl ?r (C i)" using slots_okD(1) [OF ok m] mem by simp
    then have ch: "chain_ok pl (C i @ [?r])" by (simp add: ref_ok_def)
    have "fdb_txpool_alloc_ptr fuel palloc (pl, tc, st) ?t (sy_refs s i) False = Inr (?d, (pl, tc, st))"
      by (rule read_spec [OF rf len]) (use V(4) [OF xi False] val_okD(2) [OF v xi] in auto)
    moreover have "seen pl (ver (sy_mgr s) x) (C i @ [?r]) = the (sp_snap a x) i" by (rule val_okD(5) [OF v xi])
    moreover have "?d \<noteq> NULL \<Longrightarrow> tp_data pl ?d \<noteq> None"
      using pointer_seen_in [of pl "ver (sy_mgr s) x" "C i @ [?r]"] ch by (auto simp: chain_ok_def)
    ultimately have "tx_do fuel palloc (TRead x i) s = Inr (fst (tx_spec (TRead x i) a), s\<lparr>sy_mem := (pl, tc, st)\<rparr>)"
      using at mem by (auto simp: seen_pointer [OF refl] txdata_at_def)
    moreover have "s\<lparr>sy_mem := (pl, tc, st)\<rparr> = s" using mem by simp
    moreover have "syscore k l n s (snd (tx_spec (TRead x i) a)) xs C" using core_mono [OF c, of k l n] by simp
    ultimately show ?thesis by auto
  next
    case True
    have sn: "the (sp_snap a x) i \<noteq> None" using lg True by simp
    note W = core_writes [OF c k True sn]
    have wr: "writes ?t pl ?r (C i)" using W(2) mem by simp
    from core_mem [OF c mem] obtain es where mm: "txmem (pl, tc, st) (Suc (Suc n))" "garbage tc es" by blast
    from writer_read_spec [OF wr len mm, of palloc] obtain d pl1 tc1 st1 ch1 es1 where
      1: "fdb_txpool_alloc_ptr fuel palloc (pl, tc, st) ?t (sy_refs s i) False = Inr (d, (pl1, tc1, st1))"
        "txmem (pl1, tc1, st1) n" "garbage tc1 es1" "length ch1 \<le> length (C i)"
        "moves (tx_ortxversion ?t) (tx_txversion ?t) ?r pl (C i) pl1 ch1"
        "seen pl1 (tx_txversion ?t) (ch1 @ [?r]) = seen pl (tx_txversion ?t) (C i @ [?r])"
        "vts pl1 (hd (ch1 @ [?r])) = vts pl (hd (C i @ [?r]))"
        "d \<noteq> NULL" "tp_data pl1 d = seen pl (tx_txversion ?t) (C i @ [?r])" by blast
    have sa: "sp_put x i (the (sp_snap a x) i) a = a"
      using dm xi by (cases "sp_snap a x") (auto simp: sp_put_def fun_upd_idem)
    have "syscore k l n (s\<lparr>sy_mem := (pl1, tc1, st1)\<rparr>) (sp_put x i (the (sp_snap a x) i) a) xs (C(i := ch1))"
      by (rule core_move [OF c k True m _ 1(2,3)])
        (use 1(4-7) mem W(3) core_len [OF c, of i] in auto)
    moreover have "tp_data pl1 d = the (sp_snap a x) i" using 1(9) W(3) mem by simp
    then have "tx_do fuel palloc (TRead x i) s = Inr (fst (tx_spec (TRead x i) a), s\<lparr>sy_mem := (pl1, tc1, st1)\<rparr>)"
      using at mem 1(1,8) sn by (auto simp: txdata_at_def split: option.splits)
    ultimately show ?thesis unfolding sa by auto
  qed
qed

lemma step_write:
  assumes c: "syscore k l (Suc (Suc (Suc (Suc n)))) s a xs C" and k: "k < 2 ^ 64 - 2" and f: "l < fuel"
    and lg: "tx_legal (TWrite x i bs) s a"
  shows "\<exists>s' C'. tx_do fuel palloc (TWrite x i bs) s = Inr (fst (tx_spec (TWrite x i bs) a), s') \<and>
    syscore k (Suc l) n s' (snd (tx_spec (TWrite x i bs) a)) xs C'"
proof -
  have w: "sp_writer a = Some x" "the (sp_snap a x) i \<noteq> None" "length bs = unat (tp_data_size (fst (sy_mem s)))"
    using lg by simp_all
  from write_object_spec [OF c k w f, of palloc] obtain mem' C' where
    "write_object fuel palloc (sy_mem s) (tx_of (sy_mgr s) x) (sy_refs s i) bs = Inr mem'"
    "syscore k (Suc l) n (s\<lparr>sy_mem := mem'\<rparr>) (sp_put x i (Some bs) a) xs C'" by blast
  then show ?thesis using core_writer(2) [OF c k w(1)] by auto
qed

lemma step_alloc:
  assumes c: "syscore k l (7 + n) s a xs C" and k: "k < 2 ^ 64 - 2" and f: "Suc l < fuel"
    and lg: "tx_legal (TAlloc x i bs) s a"
  shows "\<exists>s' C'. tx_do fuel palloc (TAlloc x i bs) s = Inr (fst (tx_spec (TAlloc x i bs) a), s') \<and>
    syscore k (Suc (Suc l)) n s' (snd (tx_spec (TAlloc x i bs) a)) xs C'"
proof -
  obtain pl tc st where mem: "sy_mem s = (pl, tc, st)" by (cases "sy_mem s") auto
  have w: "sp_writer a = Some x" and i: "p_main (sy_refs s i) = NULL" and bs: "length bs = unat (tp_data_size pl)"
    using lg mem by (simp_all add: fdb_txpool_alloc_ref_isnull_def)
  have c': "syscore k l (Suc (Suc (Suc (Suc (Suc (Suc (Suc n))))))) s a xs C" using c by (simp add: eval_nat_numeral)
  from core_alloc [OF c' k w i mem, of FDB_NO_HINT] obtain ref pl1 st1 y C1 where
    1: "fdb_txpool_alloc_alloc (pl, st) (tx_of (sy_mgr s) x) FDB_NO_HINT = Inr (ref, (pl1, st1))"
      "syscore k (Suc l) (Suc (Suc (Suc (Suc n)))) (s\<lparr>sy_mem := (pl1, tc, st1), sy_refs := (sy_refs s)(i := ref)\<rparr>)
         (sp_put x i (Some y) a) xs C1" "tp_data_size pl1 = tp_data_size pl" by blast
  let ?s = "s\<lparr>sy_mem := (pl1, tc, st1), sy_refs := (sy_refs s)(i := ref)\<rparr>"
  have w1: "sp_writer (sp_put x i (Some y) a) = Some x" "the (sp_snap (sp_put x i (Some y) a) x) i \<noteq> None"
    "length bs = unat (tp_data_size (fst (sy_mem ?s)))" using w bs 1(3) by (simp_all add: sp_put_def)
  from write_object_spec [OF 1(2) k w1 f, of palloc] obtain mem' C' where
    2: "write_object fuel palloc (pl1, tc, st1) (tx_of (sy_mgr s) x) ref bs = Inr mem'"
      "syscore k (Suc (Suc l)) n (?s\<lparr>sy_mem := mem'\<rparr>) (sp_put x i (Some bs) a) xs C'" by auto
  have "tx_do fuel palloc (TAlloc x i bs) s = Inr (TDone, s\<lparr>sy_mem := mem', sy_refs := (sy_refs s)(i := ref)\<rparr>)"
    using core_writer(2) [OF c k w] mem 1(1) 2(1) by simp
  moreover have "s\<lparr>sy_mem := mem', sy_refs := (sy_refs s)(i := ref)\<rparr> = ?s\<lparr>sy_mem := mem'\<rparr>" by simp
  ultimately show ?thesis using 2(2) by auto
qed

lemma step_free:
  assumes c: "syscore k l (Suc (Suc (Suc (Suc n)))) s a xs C" and k: "k < 2 ^ 64 - 2" and f: "l < fuel"
    and lg: "tx_legal (TFree x i) s a"
  shows "\<exists>s' C'. tx_do fuel palloc (TFree x i) s = Inr (fst (tx_spec (TFree x i) a), s') \<and>
    syscore k (Suc l) n s' (snd (tx_spec (TFree x i) a)) xs C'"
proof -
  obtain pl tc st where mem: "sy_mem s = (pl, tc, st)" by (cases "sy_mem s") auto
  let ?t = "tx_of (sy_mgr s) x" and ?r = "p_main (sy_refs s i)"
  have w: "sp_writer a = Some x" and sn: "the (sp_snap a x) i \<noteq> None" and fs: "free_safe s x i" using lg by simp_all
  note W = core_writes [OF c k w sn]
  have wr: "writes ?t pl ?r (C i)" using W(2) mem by simp
  have len: "length (C i) < fuel" using core_len [OF c, of i] f by simp
  from core_mem [OF c mem] obtain es where m: "txmem (pl, tc, st) (Suc (Suc (Suc (Suc n))))" "garbage tc es" by blast
  have "versions (tp_blocks pl) (vb_next (vblock pl ?r)) (C i)" using wr by (simp add: writes_def ref_ok_def)
  then have "vts pl (hd (C i @ [?r])) \<le> tx_ortxversion ?t" using fs mem by (cases "C i") (auto simp: free_safe_def Let_def)
  from tx_free_spec [OF wr len m this, of palloc] obtain pl1 tc1 st1 b es1 where
    1: "fdb_txpool_alloc_free fuel palloc (pl, tc, st) ?t (sy_refs s i) = Inr (pl1, tc1, st1)"
      "txmem (pl1, tc1, st1) n" "garbage tc1 es1"
      "moves (tx_ortxversion ?t) (tx_txversion ?t) ?r pl (C i) pl1 [b]"
      "vts pl1 b = tx_txversion ?t" "\<forall>w\<ge>tx_txversion ?t. seen pl1 w [b, ?r] = None" by blast
  have "syscore k (Suc l) n (s\<lparr>sy_mem := (pl1, tc1, st1)\<rparr>) (sp_put x i None a) xs (C(i := [b]))"
    by (rule core_move [OF c k w W(1) _ 1(2,3)]) (use 1(4-6) mem in auto)
  moreover have "tx_do fuel palloc (TFree x i) s = Inr (TDone, s\<lparr>sy_mem := (pl1, tc1, st1)\<rparr>)"
    using core_writer(2) [OF c k w] mem 1(1) by simp
  ultimately show ?thesis by auto
qed

lemma tx_step:
  assumes c: "syscore k l (8 + n) s a xs C" and k: "k < 2 ^ 64 - 2" and f: "Suc l < fuel" and lg: "tx_legal cmd s a"
  shows "\<exists>s' xs' C'. tx_do fuel palloc cmd s = Inr (fst (tx_spec cmd a), s') \<and>
    syscore (Suc k) (Suc (Suc l)) n s' (snd (tx_spec cmd a)) xs' C'"
proof -
  have le: "\<exists>s' xs' C'. tx_do fuel palloc cmd s = Inr (fst (tx_spec cmd a), s') \<and>
      syscore (Suc k) (Suc (Suc l)) n s' (snd (tx_spec cmd a)) xs' C'"
    if "syscore k' l' n' s' (snd (tx_spec cmd a)) xs' C'" "tx_do fuel palloc cmd s = Inr (fst (tx_spec cmd a), s')"
      "k' \<le> Suc k" "l' \<le> Suc (Suc l)" "n \<le> n'" for s' xs' C' k' l' n'
    using that(2) core_mono [OF that(1,3-5)] by blast
  have cn: "syscore k l n' s a xs C" if "n' \<le> 8 + n" for n' by (rule core_mono [OF c _ _ that]) simp_all
  have c4: "syscore k l (Suc (Suc (Suc (Suc n)))) s a xs C" and c2: "syscore k l (Suc (Suc n)) s a xs C"
    and c7: "syscore k l (7 + n) s a xs C" by (rule cn, simp)+
  have f': "l < fuel" using f by simp
  show ?thesis
  proof (cases cmd)
    case (TBegin x ty)
    then have "x \<noteq> NULL" "sp_snap a x = None" using lg by simp_all
    from step_begin [OF c k this, of fuel palloc ty, folded TBegin] show ?thesis by (elim exE conjE) (rule le, assumption+, simp_all)
  next
    case (TCommit x)
    then have "sp_snap a x \<noteq> None" using lg by simp
    from step_commit [OF c k this, of fuel palloc, folded TCommit] show ?thesis by (elim exE conjE) (rule le, assumption+, simp_all)
  next
    case (TAlloc x i bs)
    from step_alloc [OF c7 k f lg [unfolded TAlloc], of palloc, folded TAlloc] show ?thesis
      by (elim exE conjE) (rule le, assumption+, simp_all)
  next
    case (TRead x i)
    from step_read [OF c2 k f' lg [unfolded TRead], of palloc, folded TRead] show ?thesis
      by (elim exE conjE) (rule le, assumption+, simp_all)
  next
    case (TWrite x i bs)
    from step_write [OF c4 k f' lg [unfolded TWrite], of palloc, folded TWrite] show ?thesis
      by (elim exE conjE) (rule le, assumption+, simp_all)
  next
    case (TFree x i)
    from step_free [OF c4 k f' lg [unfolded TFree], of palloc, folded TFree] show ?thesis
      by (elim exE conjE) (rule le, assumption+, simp_all)
  qed
qed

lemma tx_run_steps:
  "syscore k l (8 * length cs) s a xs C \<Longrightarrow> k + length cs < 2 ^ 64 - 2 \<Longrightarrow> l + 2 * length cs < fuel \<Longrightarrow>
   tx_run_legal fuel palloc cs s a \<Longrightarrow> \<exists>s'. tx_run fuel palloc cs s = Inr (tx_run_spec cs a, s')"
proof (induction cs arbitrary: k l s a xs C)
  case Nil
  then show ?case by simp
next
  case (Cons c cs)
  have "\<exists>s' xs' C'. tx_do fuel palloc c s = Inr (fst (tx_spec c a), s') \<and>
    syscore (Suc k) (Suc (Suc l)) (8 * length cs) s' (snd (tx_spec c a)) xs' C'"
    by (rule tx_step [of k l "8 * length cs" s a xs C]) (use Cons.prems in simp_all)
  then obtain s' xs' C' where 1: "tx_do fuel palloc c s = Inr (fst (tx_spec c a), s')"
    "syscore (Suc k) (Suc (Suc l)) (8 * length cs) s' (snd (tx_spec c a)) xs' C'" by blast
  have "\<exists>s''. tx_run fuel palloc cs s' = Inr (tx_run_spec cs (snd (tx_spec c a)), s'')"
    by (rule Cons.IH [OF 1(2)]) (use Cons.prems 1(1) in simp_all)
  then show ?case using 1(1) by auto
qed

lemma pool_init_backs:
  assumes al: "unat alignment < 2 ^ 31" and fit: "2 * max 8 (unat block_size) + max 16 (unat alignment) \<le> unat page_size"
    and ops: "p_mem_alloc (case a of Some a \<Rightarrow> a | None \<Rightarrow> g) = alloc" "p_mem_free (case a of Some a \<Rightarrow> a | None \<Rightarrow> g) = free"
    and S: "S (of_nat (max 16 (unat alignment))) page_size" and b8: "8 \<le> unat block_size"
    and dv: "unat alignment dvd max 16 (unat alignment)"
  shows "\<exists>pa. fdb_pool_alloc_init alignment block_size page_size a g hdr = Inr pa \<and>
    pool_backs alloc free S pa Map.empty alignment block_size {}"
proof -
  obtain pa where pa: "fdb_pool_alloc_init alignment block_size page_size a g hdr = Inr pa"
    using pool_init_ok [OF al fit] by blast
  note c = pool_init_config [OF pa al fit]
  have "ucast (pl_alignment pa) = (of_nat (max 16 (unat alignment)) :: u32)"
    unfolding c(2) [symmetric] by (simp add: unsigned_def)
  moreover have "ucast (pl_page_size pa) = page_size"
    using unat_ucast_u64_u32 [of "pl_page_size pa"] c(4) unat_u32_bound [of page_size] by (simp add: word_unat_eq_iff)
  ultimately have "pool_takes S pa alignment block_size"
    using c(2,3) S b8 dv by (simp add: pool_takes_def)
  then show ?thesis using pa client_pool_init [OF pa al fit ops] by (auto simp: pool_backs_def)
qed

end

section \<open>Over the page allocator\<close>

definition txsys_init ::
  "u32 \<Rightarrow> u32 \<Rightarrow> u32 \<Rightarrow> 'st fdb_mem_allocator_t option \<Rightarrow> 'st fdb_mem_allocator_t \<Rightarrow> (ptr \<Rightarrow> ptr) \<Rightarrow>
   (ptr \<Rightarrow> u8 list) \<Rightarrow> (ptr \<rightharpoonup> fdb_tx_t) \<Rightarrow> 'st \<Rightarrow> 'st txsys res" where
  "txsys_init alignment block_size page_size a g hdr raw objects st =
     bind_res (fdb_txpool_alloc_init alignment block_size page_size a g hdr raw) (\<lambda>pl.
     bind_res (fdb_txthread_ctx_init a g hdr) (\<lambda>tc.
     Inr \<lparr>sy_mgr = fdb_tx_init objects, sy_mem = (pl, tc, st), sy_refs = (\<lambda>_. \<lparr>p_main = NULL\<rparr>)\<rparr>))"

text \<open>Sizes the pools can be built with: objects of at least eight bytes, an alignment that divides the one
  the pool works with, pages the allocator below serves.\<close>

definition tx_fits :: "fdb_page_alloc_t \<Rightarrow> u32 \<Rightarrow> u32 \<Rightarrow> u32 \<Rightarrow> bool" where
  "tx_fits pg alignment block_size page_size \<longleftrightarrow> page_serves pg 16 4096 \<and> page_serves pg 16 page_size \<and>
     page_serves pg (of_nat (max 16 (unat alignment))) page_size \<and> unat alignment < 2 ^ 31 \<and>
     unat alignment dvd max 16 (unat alignment) \<and> 8 \<le> unat block_size \<and>
     2 * unat block_size + max 16 (unat alignment) \<le> unat page_size \<and> 64 \<le> unat page_size"

lemma txsys_init_spec:
  fixes pg :: fdb_page_alloc_t
  assumes pg: "page_inv pg live" "live_apart live" "page_room pg n" and fits: "tx_fits pg alignment block_size page_size"
    and raw: "\<forall>p. length (raw p) = unat block_size"
  shows "\<exists>pl tc. txsys_init alignment block_size page_size (Some fdb_page_alloc_super) g hdr raw objects pg =
      Inr \<lparr>sy_mgr = fdb_tx_init objects, sy_mem = (pl, tc, pg), sy_refs = (\<lambda>_. \<lparr>p_main = NULL\<rparr>)\<rparr> \<and>
    txpool_mem fdb_page_alloc_alloc fdb_page_alloc_free (page_steady (page_serves pg)) page_room (page_serves pg) (pl, tc, pg) n \<and>
    garbage tc [] \<and> sizes_ok pl \<and> tp_blocks pl = Map.empty \<and> tp_data pl = Map.empty \<and> tc_entries tc = Map.empty"
proof -
  let ?S = "page_serves pg" and ?a = "Some fdb_page_alloc_super"
  have al: "p_mem_alloc (case ?a of Some a \<Rightarrow> a | None \<Rightarrow> g) = fdb_page_alloc_alloc"
    "p_mem_free (case ?a of Some a \<Rightarrow> a | None \<Rightarrow> g) = fdb_page_alloc_free"
    by (simp_all add: fdb_page_alloc_super_def)
  have S: "?S 16 4096" "?S 16 page_size" "?S (of_nat (max 16 (unat alignment))) page_size"
    and z: "unat alignment < 2 ^ 31" "unat alignment dvd max 16 (unat alignment)" "8 \<le> unat block_size"
      "2 * unat block_size + max 16 (unat alignment) \<le> unat page_size" "64 \<le> unat page_size"
    using fits by (simp_all add: tx_fits_def)
  have m: "max 8 (unat block_size) = unat block_size" using z(3) by simp
  have fit: "2 * max 8 (unat block_size) + max 16 (unat alignment) \<le> unat page_size" unfolding m by (rule z(4))
  from steady_page.pool_init_backs [where hdr = hdr and S = ?S, OF z(1) fit al S(3) z(3,2)] obtain dp where
    dp: "fdb_pool_alloc_init alignment block_size page_size ?a g hdr = Inr dp"
      "pool_backs fdb_page_alloc_alloc fdb_page_alloc_free ?S dp Map.empty alignment block_size {}" by blast
  have a16: "unat FDB_MIN_ALIGNMENT < 2 ^ 31" "unat FDB_MIN_ALIGNMENT dvd max 16 (unat FDB_MIN_ALIGNMENT)"
    "(of_nat (max 16 (unat FDB_MIN_ALIGNMENT)) :: u32) = 16" by (simp_all add: FDB_MIN_ALIGNMENT_def)
  have sz: "8 \<le> unat sizeof_txblock" "8 \<le> unat sizeof_txgarbage" by (simp_all add: sizeof_txblock_def sizeof_txgarbage_def)
  have f2: "2 * max 8 (unat sizeof_txblock) + max 16 (unat FDB_MIN_ALIGNMENT) \<le> unat page_size"
    "2 * max 8 (unat sizeof_txgarbage) + max 16 (unat FDB_MIN_ALIGNMENT) \<le> unat FDB_TX_GC_PAGE_SIZE"
    using z(5) by (simp_all add: sizeof_txblock_def sizeof_txgarbage_def FDB_MIN_ALIGNMENT_def FDB_TX_GC_PAGE_SIZE_def)
  from steady_page.pool_init_backs [where hdr = hdr and S = ?S, OF a16(1) f2(1) al S(2) [folded a16(3)] sz(1) a16(2)] obtain bp where
    bp: "fdb_pool_alloc_init FDB_MIN_ALIGNMENT sizeof_txblock page_size ?a g hdr = Inr bp"
      "pool_backs fdb_page_alloc_alloc fdb_page_alloc_free ?S bp Map.empty FDB_MIN_ALIGNMENT sizeof_txblock {}" by blast
  have S4: "?S (of_nat (max 16 (unat FDB_MIN_ALIGNMENT))) FDB_TX_GC_PAGE_SIZE"
    using S(1) a16(3) by (simp add: FDB_TX_GC_PAGE_SIZE_def)
  from steady_page.pool_init_backs [where hdr = hdr and S = ?S, OF a16(1) f2(2) al S4 sz(2) a16(2)] obtain gp where
    gp: "fdb_pool_alloc_init FDB_MIN_ALIGNMENT sizeof_txgarbage FDB_TX_GC_PAGE_SIZE ?a g hdr = Inr gp"
      "pool_backs fdb_page_alloc_alloc fdb_page_alloc_free ?S gp Map.empty FDB_MIN_ALIGNMENT sizeof_txgarbage {}" by blast
  define pl where "pl = \<lparr>tp_data_palloc = dp, tp_block_palloc = bp, tp_data_size = block_size,
     tp_data_alignment = alignment, tp_blocks = Map.empty, tp_data = Map.empty, tp_raw = raw\<rparr>"
  define tc where "tc = \<lparr>tc_palloc = gp, tc_first = NULL, tc_entries = Map.empty\<rparr>"
  have "txsys_init alignment block_size page_size ?a g hdr raw objects pg =
      Inr \<lparr>sy_mgr = fdb_tx_init objects, sy_mem = (pl, tc, pg), sy_refs = (\<lambda>_. \<lparr>p_main = NULL\<rparr>)\<rparr>"
    using dp(1) bp(1) gp(1)
    by (simp add: txsys_init_def fdb_txpool_alloc_init_def fdb_txthread_ctx_init_def pl_def tc_def)
  moreover have cl: "clients (page_steady ?S) pg (\<lambda>_ :: tx_client. Map.empty)" by (rule clients_start) (use pg(1,2) in auto)
  have "txpool_mem fdb_page_alloc_alloc fdb_page_alloc_free (page_steady ?S) page_room ?S (pl, tc, pg) n"
    unfolding txpool_mem_def prod.case
    by (intro conjI exI [of _ "\<lambda>_. Map.empty"]) (use cl pg(3) dp(2) bp(2) gp(2) in \<open>simp_all add: pl_def tc_def\<close>)
  moreover have "garbage tc []" by (simp add: garbage_def tc_def)
  moreover have "sizes_ok pl" using raw by (simp add: sizes_ok_def pl_def)
  ultimately show ?thesis by (intro exI [of _ pl] exI [of _ tc]) (simp add: pl_def tc_def)
qed

text \<open>C1: Snapshot isolation. Any sequence of commands of any number of transactions on any number of objects
  of a pool over the page allocator, by a client that keeps to the rules, runs without an error (no use
  after free, no double free, no null pointer) and gives every command the result the specification gives it:
  a reader sees, as long as it runs, the values that were committed when it began, whatever is written,
  freed and collected meanwhile; the writer sees its own changes; another writer waits.\<close>

theorem tx_snapshot_isolation:
  fixes pg :: fdb_page_alloc_t
  assumes "page_inv pg live" "live_apart live" "page_room pg (8 * length cs)"
    and "tx_fits pg alignment block_size page_size" "\<forall>p. length (raw p) = unat block_size"
    and "length cs < 2 ^ 64 - 2" "2 * length cs < fuel"
  shows "\<exists>s. txsys_init alignment block_size page_size (Some fdb_page_alloc_super) g hdr raw objects pg = Inr s \<and>
    (tx_run_legal fuel palloc cs s sp_init \<longrightarrow>
      (\<exists>s'. tx_run fuel palloc cs s = Inr (tx_run_spec cs sp_init, s')))"
proof -
  let ?S = "page_serves pg"
  from txsys_init_spec [OF assms(1-5), of g hdr objects] obtain pl tc where
    init: "txsys_init alignment block_size page_size (Some fdb_page_alloc_super) g hdr raw objects pg =
      Inr \<lparr>sy_mgr = fdb_tx_init objects, sy_mem = (pl, tc, pg), sy_refs = (\<lambda>_. \<lparr>p_main = NULL\<rparr>)\<rparr>" (is "_ = Inr ?s")
    and m: "txpool_mem fdb_page_alloc_alloc fdb_page_alloc_free (page_steady ?S) page_room ?S (pl, tc, pg) (8 * length cs)"
      "garbage tc []" "sizes_ok pl" by blast
  have "\<exists>k'\<le>0. tx_reach k' (fdb_tx_init objects) (wph sp_init) []"
    by (simp add: wph_def sp_init_def tx_init)
  then have "steady_page.syscore ?S 0 0 (8 * length cs) ?s sp_init [] (\<lambda>_. [])"
    using m unfolding sys_core_def by (auto simp: slots_ok_def slot_val_def sp_init_def)
  from steady_page.tx_run_steps [OF this, of fuel palloc] init assms(6,7) show ?thesis by auto
qed

definition demo_txsys :: "fdb_page_alloc_t txsys" where
  "demo_txsys = projr (txsys_init 16 8 4096 (Some fdb_page_alloc_super) fdb_page_alloc_super (\<lambda>_. 0)
     (\<lambda>_. replicate 8 0) Map.empty demo_db_page)"

definition demo_tx_cmds :: "tx_cmd list" where
  "demo_tx_cmds = [TBegin 1 E_READ_WRITE, TAlloc 1 0 (replicate 8 7), TCommit 1, TBegin 2 E_READ_ONLY, TBegin 3 E_READ_WRITE,
     TBegin 4 E_READ_WRITE, TFree 3 0, TCommit 3, TRead 2 0]"

lemma demo_tx_legal: "tx_run_legal 19 0 demo_tx_cmds demo_txsys sp_init"
  by code_simp

theorem tx_snapshot_isolation_witness:
  "\<exists>s'. tx_run 19 0 demo_tx_cmds demo_txsys =
    Inr ([TDone, TDone, TDone, TDone, TDone, TWaits, TDone, TDone, TBytes (Some (replicate 8 7))], s')"
proof -
  let ?len = "length demo_tx_cmds"
  have n: "?len = 9" by (simp add: demo_tx_cmds_def)
  have room: "page_room demo_db_page (8 * ?len)" unfolding n by (simp add: page_room_def demo_db_page_def)
  have fits: "tx_fits demo_db_page 16 8 4096" by (simp add: tx_fits_def page_serves_def demo_db_page_def)
  have raw: "\<forall>p. length ((\<lambda>_ :: ptr. replicate 8 (0 :: u8)) p) = unat (8 :: u32)" by simp
  have len: "?len < 2 ^ 64 - 2" "2 * ?len < 19" by (simp_all add: n)
  obtain s s' where s: "txsys_init 16 8 4096 (Some fdb_page_alloc_super) fdb_page_alloc_super (\<lambda>_. 0) (\<lambda>_. replicate 8 0)
      Map.empty demo_db_page = Inr s"
    "tx_run_legal 19 0 demo_tx_cmds s sp_init \<longrightarrow> tx_run 19 0 demo_tx_cmds s = Inr (tx_run_spec demo_tx_cmds sp_init, s')"
    using tx_snapshot_isolation [OF demo_db_page_inv(1) live_apart_empty room fits raw len,
      of fdb_page_alloc_super "\<lambda>_. 0" Map.empty 0] by blast
  have "demo_txsys = s" using s(1) by (simp add: demo_txsys_def)
  then have "tx_run 19 0 demo_tx_cmds demo_txsys = Inr (tx_run_spec demo_tx_cmds sp_init, s')" using s(2) demo_tx_legal by simp
  moreover have "tx_run_spec demo_tx_cmds sp_init =
      [TDone, TDone, TDone, TDone, TDone, TWaits, TDone, TDone, TBytes (Some (replicate 8 7))]"
    by (simp add: demo_tx_cmds_def sp_init_def sp_put_def)
  ultimately show ?thesis by simp
qed

end
