(* ===== verification/TxGc.thy ===== *)
theory TxGc
  imports TxSystem
begin

text \<open>
  Collecting the garbage of a thread context (\<open>fdb_txthread_ctx_gc\<close> in
  src/src/runtime/data/tx/tx.c): a forced collection gives back all the versions of all the
  references in the list; one that is not forced leaves a list of versions that were copied into their
  roots as it is. The last section shows two runs in which the code is not what the specification of TxSystem says.
\<close>

section \<open>A forced collection\<close>

text \<open>The versions from a block on, none sharing its data with another.\<close>

definition garbage_chain :: "'st fdb_txpool_alloc_t \<Rightarrow> ptr \<Rightarrow> ptr list \<Rightarrow> bool" where
  "garbage_chain pl b ys \<longleftrightarrow> b \<noteq> NULL \<and> versions (tp_blocks pl) b ys \<and> distinct ys \<and> datas pl ys \<subseteq> dom (tp_data pl) \<and>
     (\<forall>x\<in>set ys. \<forall>y\<in>set ys. x \<noteq> y \<longrightarrow> vdata pl x \<noteq> NULL \<longrightarrow> vdata pl x \<noteq> vdata pl y)"

text \<open>The entries \<open>es\<close> of a context, all of the pool at \<open>palloc\<close>, with disjoint chains.\<close>

definition listed :: "ptr \<Rightarrow> 'st fdb_txpool_alloc_t \<Rightarrow> 'st fdb_txthread_ctx_t \<Rightarrow> ptr list \<Rightarrow> (ptr \<Rightarrow> ptr list) \<Rightarrow> bool" where
  "listed palloc pl tc es Y \<longleftrightarrow> garbage tc es \<and>
     (\<forall>e\<in>set es. gb_palloc (the (tc_entries tc e)) = palloc \<and> garbage_chain pl (gb_block (the (tc_entries tc e))) (Y e)) \<and>
     (\<forall>e\<in>set es. \<forall>f\<in>set es. e \<noteq> f \<longrightarrow> set (Y e) \<inter> set (Y f) = {} \<and> datas pl (Y e) \<inter> datas pl (Y f) = {})"

lemma listed_Cons:
  assumes "listed palloc pl tc (e # es) Y"
  shows "tc_first tc = e" "e \<noteq> NULL" "e \<notin> set es" "distinct es"
    "\<exists>g l. tc_entries tc e = Some g \<and> gb_prev g = NULL \<and> gb_palloc g = palloc \<and> garbage_chain pl (gb_block g) (Y e) \<and>
      dls gb_next gb_prev (tc_entries tc) e (gb_next g) es l NULL"
    "\<forall>f\<in>set es. set (Y e) \<inter> set (Y f) = {} \<and> datas pl (Y e) \<inter> datas pl (Y f) = {}"
  using assms by (auto simp: listed_def garbage_def)

context steady_provider
begin

lemma gc_forced_spec:
  assumes c: "garbage_chain pl b ys" and len: "length ys < vf" and m: "txmem (pl, tc, st) n"
  shows "\<exists>pl'. fdb_txpool_alloc_gc vf palloc (pl, tc, st) orv b True = Inr (True, (pl', tc, st)) \<and>
    tp_blocks pl' = tp_blocks pl |` (- set ys) \<and> tp_data pl' = tp_data pl |` (- datas pl ys) \<and> txmem (pl', tc, st) n"
proof -
  from c have "versions (tp_blocks pl) b ys" "distinct ys" "datas pl ys \<subseteq> dom (tp_data pl)" "b \<noteq> NULL"
    "\<forall>x\<in>set ys. \<forall>y\<in>set ys. x \<noteq> y \<longrightarrow> vdata pl x \<noteq> NULL \<longrightarrow> vdata pl x \<noteq> vdata pl y"
    by (simp_all add: garbage_chain_def)
  with free_versions_spec [OF this(1,2,3,5) len m] show ?thesis by (auto simp: fdb_txpool_alloc_gc_def)
qed

lemma unlink_first_spec:
  assumes l: "listed palloc pl tc (e # es) Y" and m: "txmem (pl', tc, st) n"
  shows "\<exists>tc'. unlink_entry (tc, st) e = Inr (tc_first tc', (tc', st)) \<and> garbage tc' es \<and> txmem (pl', tc', st) n \<and>
    dom (tc_entries tc') = dom (tc_entries tc) - {e} \<and>
    (\<forall>f\<in>set es. gb_palloc (the (tc_entries tc' f)) = gb_palloc (the (tc_entries tc f)) \<and>
      gb_block (the (tc_entries tc' f)) = gb_block (the (tc_entries tc f)))"
proof -
  note L = listed_Cons [OF l]
  from L(5) obtain g k where g: "tc_entries tc e = Some g" "gb_prev g = NULL"
    "dls gb_next gb_prev (tc_entries tc) e (gb_next g) es k NULL" by blast
  from m obtain Ps where room: "room st n" and cl: "clients ainv st Ps"
    and d: "pool_backs alloc free S (tp_data_palloc pl') (Ps TxData) (tp_data_alignment pl') (tp_data_size pl') (dom (tp_data pl'))"
    and b: "pool_backs alloc free S (tp_block_palloc pl') (Ps TxBlocks) FDB_MIN_ALIGNMENT sizeof_txblock (dom (tp_blocks pl'))"
    and gp: "pool_backs alloc free S (tc_palloc tc) (Ps TxGarbage) FDB_MIN_ALIGNMENT sizeof_txgarbage (dom (tc_entries tc))"
    by (auto simp: txpool_mem_def)
  have "e \<in> dom (tc_entries tc)" using g(1) by blast
  from backs_free [OF cl gp this] obtain pa' where
    r: "fdb_pool_alloc_free (tc_palloc tc, st) e = (pa', st)"
      "pool_backs alloc free S pa' (Ps TxGarbage) FDB_MIN_ALIGNMENT sizeof_txgarbage (dom (tc_entries tc) - {e})" by blast
  define q where "q = gb_next g"
  define h where "h = (if q = NULL then tc_entries tc else (tc_entries tc)(q \<mapsto> (the (tc_entries tc q))\<lparr>gb_prev := NULL\<rparr>))"
  define tc' where "tc' = tc\<lparr>tc_palloc := pa', tc_first := q, tc_entries := h(e := None)\<rparr>"
  have qd: "q \<noteq> NULL \<Longrightarrow> \<exists>ys t. es = q # ys \<and> tc_entries tc q = Some t \<and> q \<noteq> e"
    using g(3) L(3) by (cases es) (auto simp: q_def)
  have he: "h e = Some g" using qd g(1) by (auto simp: h_def)
  have run: "unlink_entry (tc, st) e = Inr (q, (tc', st))"
  proof (cases "q = NULL")
    case True
    then show ?thesis using r(1) g(1,2) L(1,2)
      by (simp add: unlink_entry_def garbage_at_def garbage_put_def tc'_def h_def q_def [symmetric])
  next
    case False
    then show ?thesis using r(1) g(1,2) L(1,2) qd [OF False]
      by (auto simp: unlink_entry_def garbage_at_def garbage_put_def tc'_def h_def q_def [symmetric])
  qed
  have "\<exists>l. dls gb_next gb_prev (tc_entries tc') NULL q es l NULL"
  proof (cases es)
    case Nil
    then show ?thesis using g(3) by (simp add: q_def)
  next
    case (Cons x ys)
    then have "x = q" "q \<noteq> NULL" "x \<notin> set ys" using g(3) L(4) by (auto simp: q_def)
    then show ?thesis using g(3) L(3) Cons by (auto simp: tc'_def h_def q_def intro!: exI [of _ k])
  qed
  then have "garbage tc' es" using L(4) by (simp add: garbage_def tc'_def)
  moreover have dm: "dom (tc_entries tc') = dom (tc_entries tc) - {e}" using qd by (auto simp: tc'_def h_def)
  moreover have "txmem (pl', tc', st) n"
    unfolding txpool_mem_def prod.case dm using r(2) d b room cl by (intro conjI exI [of _ Ps]) (simp_all add: tc'_def)
  moreover have "\<forall>f\<in>set es. gb_palloc (the (tc_entries tc' f)) = gb_palloc (the (tc_entries tc f)) \<and>
      gb_block (the (tc_entries tc' f)) = gb_block (the (tc_entries tc f))"
    using L(3) by (auto simp: tc'_def h_def)
  moreover have "unlink_entry (tc, st) e = Inr (tc_first tc', (tc', st))" using run by (simp add: tc'_def)
  ultimately show ?thesis by blast
qed

lemma garbage_chain_rest:
  assumes c: "garbage_chain pl b ys" and b: "tp_blocks pl' = tp_blocks pl |` (- B)" "set ys \<inter> B = {}"
    and d: "tp_data pl' = tp_data pl |` (- D)" "datas pl ys \<inter> D = {}"
  shows "garbage_chain pl' b ys" "datas pl' ys = datas pl ys"
proof -
  have eq: "tp_blocks pl' y = tp_blocks pl y" if "y \<in> set ys" for y using that b by (auto simp: restrict_map_def)
  show ds: "datas pl' ys = datas pl ys" using eq by (simp add: datas_def)
  have "versions (tp_blocks pl') b ys" using c eq versions_cong [of ys "tp_blocks pl'" "tp_blocks pl"] by (simp add: garbage_chain_def)
  moreover have "datas pl' ys \<subseteq> dom (tp_data pl')" unfolding ds using c d by (auto simp: garbage_chain_def)
  moreover have "\<forall>x\<in>set ys. \<forall>y\<in>set ys. x \<noteq> y \<longrightarrow> vdata pl' x \<noteq> NULL \<longrightarrow> vdata pl' x \<noteq> vdata pl' y"
    using c eq by (simp add: garbage_chain_def)
  ultimately show "garbage_chain pl' b ys" using c by (simp add: garbage_chain_def)
qed

lemma ctx_gc_forced_loop:
  "listed palloc pl tc es Y \<Longrightarrow> length es < fuel \<Longrightarrow> \<forall>e\<in>set es. length (Y e) < vf \<Longrightarrow> txmem (pl, tc, st) n \<Longrightarrow>
   \<exists>pl' tc'. ctx_gc_loop fuel vf [palloc \<mapsto> pl] (tc, st) orv True (tc_first tc) = Inr (True, [palloc \<mapsto> pl'], tc', st) \<and>
     tc_first tc' = NULL \<and> dom (tc_entries tc') = dom (tc_entries tc) - set es \<and>
     tp_blocks pl' = tp_blocks pl |` (- (\<Union>e\<in>set es. set (Y e))) \<and>
     tp_data pl' = tp_data pl |` (- (\<Union>e\<in>set es. datas pl (Y e))) \<and> txmem (pl', tc', st) n"
proof (induction es arbitrary: pl tc fuel)
  case Nil
  then have f: "tc_first tc = NULL" by (auto simp: listed_def garbage_def)
  obtain k where k: "fuel = Suc k" using Nil.prems(2) by (cases fuel) auto
  show ?case using Nil.prems(4) f by (intro exI [of _ pl] exI [of _ tc]) (simp add: k)
next
  case (Cons e es)
  note L = listed_Cons [OF Cons.prems(1)]
  obtain k where k: "fuel = Suc k" "length es < k" using Cons.prems(2) by (cases fuel) auto
  from L(5) obtain g where g: "tc_entries tc e = Some g" "gb_palloc g = palloc" "garbage_chain pl (gb_block g) (Y e)" by blast
  have len: "length (Y e) < vf" using Cons.prems(3) by simp
  from gc_forced_spec [OF g(3) len Cons.prems(4), of palloc orv] obtain pl1 where
    1: "fdb_txpool_alloc_gc vf palloc (pl, tc, st) orv (gb_block g) True = Inr (True, (pl1, tc, st))"
      "tp_blocks pl1 = tp_blocks pl |` (- set (Y e))" "tp_data pl1 = tp_data pl |` (- datas pl (Y e))"
      "txmem (pl1, tc, st) n" by blast
  from unlink_first_spec [OF Cons.prems(1) 1(4)] obtain tc1 where
    2: "unlink_entry (tc, st) e = Inr (tc_first tc1, (tc1, st))" "garbage tc1 es" "txmem (pl1, tc1, st) n"
      "dom (tc_entries tc1) = dom (tc_entries tc) - {e}"
      "\<forall>f\<in>set es. gb_palloc (the (tc_entries tc1 f)) = gb_palloc (the (tc_entries tc f)) \<and>
        gb_block (the (tc_entries tc1 f)) = gb_block (the (tc_entries tc f))" by blast
  have rest: "gb_palloc (the (tc_entries tc f)) = palloc" "garbage_chain pl1 (gb_block (the (tc_entries tc f))) (Y f)"
    "datas pl1 (Y f) = datas pl (Y f)" if f: "f \<in> set es" for f
  proof -
    have c: "gb_palloc (the (tc_entries tc f)) = palloc" "garbage_chain pl (gb_block (the (tc_entries tc f))) (Y f)"
      using Cons.prems(1) f by (simp_all add: listed_def)
    have "set (Y f) \<inter> set (Y e) = {}" "datas pl (Y f) \<inter> datas pl (Y e) = {}" using L(6) f by blast+
    from garbage_chain_rest [OF c(2) 1(2) this(1) 1(3) this(2)] c(1) show
      "gb_palloc (the (tc_entries tc f)) = palloc" "garbage_chain pl1 (gb_block (the (tc_entries tc f))) (Y f)"
      "datas pl1 (Y f) = datas pl (Y f)" by blast+
  qed
  have "listed palloc pl1 tc1 es Y" using Cons.prems(1) 2(2,5) rest by (auto simp: listed_def)
  moreover have "\<forall>f\<in>set es. length (Y f) < vf" using Cons.prems(3) by simp
  ultimately obtain pl' tc' where
    3: "ctx_gc_loop k vf [palloc \<mapsto> pl1] (tc1, st) orv True (tc_first tc1) = Inr (True, [palloc \<mapsto> pl'], tc', st)"
      "tc_first tc' = NULL" "dom (tc_entries tc') = dom (tc_entries tc1) - set es"
      "tp_blocks pl' = tp_blocks pl1 |` (- (\<Union>e\<in>set es. set (Y e)))"
      "tp_data pl' = tp_data pl1 |` (- (\<Union>e\<in>set es. datas pl1 (Y e)))" "txmem (pl', tc', st) n"
    using Cons.IH [OF _ k(2) _ 2(3)] by blast
  have "ctx_gc_loop fuel vf [palloc \<mapsto> pl] (tc, st) orv True (tc_first tc) = Inr (True, [palloc \<mapsto> pl'], tc', st)"
    using 1(1) 2(1) 3(1) g(1,2) L(1,2) by (simp add: k(1) garbage_at_def)
  moreover have "dom (tc_entries tc') = dom (tc_entries tc) - set (e # es)" using 3(3) 2(4) by auto
  moreover have "tp_blocks pl' = tp_blocks pl |` (- (\<Union>e\<in>set (e # es). set (Y e)))"
    unfolding 3(4) 1(2) by (simp add: Int_commute)
  moreover have "tp_data pl' = tp_data pl |` (- (\<Union>e\<in>set (e # es). datas pl (Y e)))"
    unfolding 3(5) 1(3) using rest(3) by (simp add: Int_commute)
  ultimately show ?case using 3(2,6) by blast
qed

end

section \<open>What a collection that is not forced keeps\<close>

text \<open>A version that was copied into its root is put into the list with its data.\<close>

definition zombie :: "'st fdb_txpool_alloc_t \<Rightarrow> ptr \<Rightarrow> bool" where
  "zombie pl b \<longleftrightarrow> b \<noteq> NULL \<and> (\<exists>k. tp_blocks pl b = Some k \<and> vb_next k = NULL \<and> vb_data k \<noteq> NULL)"

lemma gc_zombie:
  assumes "zombie pl b" shows "fdb_txpool_alloc_gc (Suc fuel) palloc (pl, tc, st) orv b False = Inr (False, (pl, tc, st))"
  using assms
  by (auto simp: zombie_def fdb_txpool_alloc_gc_def gc_older_def gc_collapse_def gc_root_def txblock_at_def Let_def)

lemma ctx_gc_zombies:
  "dls gb_next gb_prev (tc_entries tc) p f es l NULL \<Longrightarrow> length es < fuel \<Longrightarrow>
   \<forall>e\<in>set es. \<exists>pl. pools (gb_palloc (the (tc_entries tc e))) = Some pl \<and> zombie pl (gb_block (the (tc_entries tc e))) \<Longrightarrow>
   ctx_gc_loop fuel (Suc vf) pools (tc, st) orv False f = Inr (es = [], pools, tc, st)"
proof (induction es arbitrary: p f fuel)
  case Nil
  then show ?case by (cases fuel) auto
next
  case (Cons e es)
  obtain k where k: "fuel = Suc k" "length es < k" using Cons.prems(2) by (cases fuel) auto
  from Cons.prems(1) obtain g where g: "f = e" "e \<noteq> NULL" "tc_entries tc e = Some g"
    "dls gb_next gb_prev (tc_entries tc) e (gb_next g) es l NULL" by auto
  from Cons.prems(3) g(3) obtain pl where pl: "pools (gb_palloc g) = Some pl" "zombie pl (gb_block g)" by auto
  have "pools(gb_palloc g \<mapsto> pl) = pools" using pl(1) by (simp add: fun_upd_idem)
  then show ?case using Cons.IH [OF g(4) k(2)] Cons.prems(3) g(1-3) pl gc_zombie [OF pl(2), of vf "gb_palloc g" tc st orv]
    by (simp add: k(1) garbage_at_def)
qed

section \<open>Properties\<close>

text \<open>C7: A forced collection ends, and nothing is left: whatever transactions run, for a list of
  entries whose versions are disjoint it returns true, the list is empty, and exactly the blocks and the
  data of all versions of all listed references have been given back to the pools, each once.\<close>

theorem ctx_gc_forced_frees_all:
  assumes "tx_reach k m ph xs" "k < 2 ^ 64 - 1"
    and "txpool_mem fdb_page_alloc_alloc fdb_page_alloc_free (page_steady S) page_room S (pl, tc, pg) n"
    and "listed palloc pl tc es Y" "length es < fuel" "\<forall>e\<in>set es. length (Y e) < vf"
  shows "\<exists>pl' tc'. fdb_txthread_ctx_gc fuel vf m [palloc \<mapsto> pl] (tc, pg) True = Inr (True, [palloc \<mapsto> pl'], tc', pg) \<and>
    tc_first tc' = NULL \<and> dom (tc_entries tc') = dom (tc_entries tc) - set es \<and>
    tp_blocks pl' = tp_blocks pl |` (- (\<Union>e\<in>set es. set (Y e))) \<and>
    tp_data pl' = tp_data pl |` (- (\<Union>e\<in>set es. datas pl (Y e))) \<and>
    txpool_mem fdb_page_alloc_alloc fdb_page_alloc_free (page_steady S) page_room S (pl', tc', pg) n"
proof -
  have "\<exists>v. oldest_running_version m = Inr v"
    using tx_reach_inv [OF assms(1,2)] by (cases xs) (auto simp: tx_inv_def oldest_running_version_def tx_at_def)
  then obtain v where "oldest_running_version m = Inr v" ..
  then show ?thesis
    using steady_page.ctx_gc_forced_loop [OF assms(4-6,3), of v] by (simp add: fdb_txthread_ctx_gc_def)
qed

theorem ctx_gc_forced_frees_all_witness:
  "\<exists>(pl :: fdb_page_alloc_t fdb_txpool_alloc_t) tc pg pl' tc' e x d.
    e \<in> dom (tc_entries tc) \<and> x \<in> dom (tp_blocks pl) \<and> d \<in> dom (tp_data pl) \<and>
    fdb_txthread_ctx_gc 2 3 demo_writer_first [5 \<mapsto> pl] (tc, pg) True = Inr (True, [5 \<mapsto> pl'], tc', pg) \<and>
    e \<notin> dom (tc_entries tc') \<and> x \<notin> dom (tp_blocks pl') \<and> d \<notin> dom (tp_data pl')"
proof -
  let ?S = "page_serves demo_db_page"
  have room: "page_room demo_db_page (Suc (Suc (Suc (Suc 0))))" by (simp add: page_room_def demo_db_page_def)
  have fits: "tx_fits demo_db_page 16 8 4096" by (simp add: tx_fits_def page_serves_def demo_db_page_def)
  have raw: "\<forall>p. length ((\<lambda>_ :: ptr. replicate 8 (0 :: u8)) p) = unat (8 :: u32)" by simp
  from txsys_init_spec [OF demo_db_page_inv(1) live_apart_empty room fits raw, of fdb_page_alloc_super "\<lambda>_. 0" Map.empty]
  obtain pl0 tc0 where 0: "txpool_mem fdb_page_alloc_alloc fdb_page_alloc_free (page_steady ?S) page_room ?S
      (pl0, tc0, demo_db_page) (Suc (Suc (Suc (Suc 0))))" "garbage tc0 []" "sizes_ok pl0" by blast
  let ?tx = "\<lparr>tx_id = 1, tx_txversion = 1, tx_ortxversion = 0, tx_type = E_READ_WRITE, tx_next = 0, tx_prev = 0\<rparr>"
  have v: "0 < tx_txversion ?tx" by simp
  from steady_page.tx_alloc_spec [OF 0(1,3) v, of FDB_NO_HINT] obtain ref :: fdb_txpool_alloc_ref_t and b pl pg where
    1: "txpool_mem fdb_page_alloc_alloc fdb_page_alloc_free (page_steady ?S) page_room ?S (pl, tc0, pg) (Suc 0)"
      "ref_ok pl (p_main ref) [b]" "vdata pl (p_main ref) = NULL" "vdata pl b \<noteq> NULL" by blast
  from steady_page.add_entry_spec [OF 1(1) 0(2), of 5 "p_main ref"] obtain e tc pg' g where
    2: "garbage tc [e]" "txpool_mem fdb_page_alloc_alloc fdb_page_alloc_free (page_steady ?S) page_room ?S (pl, tc, pg') 0"
      "tc_entries tc e = Some g" "gb_palloc g = 5" "gb_block g = p_main ref" by blast
  let ?r = "p_main ref"
  have ch: "chain_ok pl [b, ?r]" "versions (tp_blocks pl) (vb_next (vblock pl ?r)) [b]" using 1(2) by (simp_all add: ref_ok_def)
  then have x: "?r \<in> dom (tp_blocks pl)" "?r \<noteq> NULL" "b \<noteq> ?r" by (auto simp: chain_ok_def)
  have ds: "datas pl [?r, b] = {vdata pl b}" using 1(3,4) by (auto simp: datas_def)
  have dd: "vdata pl b \<in> dom (tp_data pl)" using chain_okD(3) [OF ch(1), of b] 1(4) by auto
  have "garbage_chain pl ?r [?r, b]" using x ch(2) ds dd 1(3) by (auto simp: garbage_chain_def)
  then have l: "listed 5 pl tc [e] (\<lambda>_. [?r, b])" using 2 by (simp add: listed_def)
  have "\<exists>pl' tc'. fdb_txthread_ctx_gc 2 3 demo_writer_first [5 \<mapsto> pl] (tc, pg') True = Inr (True, [5 \<mapsto> pl'], tc', pg') \<and>
    tc_first tc' = NULL \<and> dom (tc_entries tc') = dom (tc_entries tc) - set [e] \<and>
    tp_blocks pl' = tp_blocks pl |` (- (\<Union>e\<in>set [e]. set [?r, b])) \<and>
    tp_data pl' = tp_data pl |` (- (\<Union>e\<in>set [e]. datas pl [?r, b])) \<and>
    txpool_mem fdb_page_alloc_alloc fdb_page_alloc_free (page_steady ?S) page_room ?S (pl', tc', pg') 0"
    by (rule ctx_gc_forced_frees_all [OF demo_writer_first_reach _ 2(2) l]) simp_all
  then obtain pl' tc' where 3: "fdb_txthread_ctx_gc 2 3 demo_writer_first [5 \<mapsto> pl] (tc, pg') True = Inr (True, [5 \<mapsto> pl'], tc', pg')"
    "dom (tc_entries tc') = dom (tc_entries tc) - {e}" "tp_blocks pl' = tp_blocks pl |` (- {?r, b})"
    "tp_data pl' = tp_data pl |` (- {vdata pl b})" unfolding ds by auto
  have "e \<in> dom (tc_entries tc)" "e \<notin> dom (tc_entries tc')" "?r \<notin> dom (tp_blocks pl')" "vdata pl b \<notin> dom (tp_data pl')"
    using 2(3) 3(2-4) by auto
  with x(1) dd 3(1) show ?thesis by blast
qed

text \<open>A version that was copied into its root is not given back by a collection that is not forced: if all the
  entries of a context are blocks that still have their data and no next version - what collapsing a
  chain puts into the list - the collection changes nothing, and returns false as long as there is one.\<close>

lemma ctx_gc_keeps_copied_versions:
  assumes "tx_reach k m ph xs" "k < 2 ^ 64 - 1" "garbage tc es" "length es < fuel" "0 < vf"
    and "\<forall>e\<in>set es. \<exists>pl. pools (gb_palloc (the (tc_entries tc e))) = Some pl \<and> zombie pl (gb_block (the (tc_entries tc e)))"
  shows "fdb_txthread_ctx_gc fuel vf m pools (tc, st) False = Inr (es = [], pools, tc, st)"
proof -
  have "\<exists>v. oldest_running_version m = Inr v"
    using tx_reach_inv [OF assms(1,2)] by (cases xs) (auto simp: tx_inv_def oldest_running_version_def tx_at_def)
  then obtain v where v: "oldest_running_version m = Inr v" ..
  obtain u where u: "vf = Suc u" using assms(5) by (cases vf) auto
  obtain l where "dls gb_next gb_prev (tc_entries tc) NULL (tc_first tc) es l NULL" using assms(3) by (auto simp: garbage_def)
  from ctx_gc_zombies [OF this assms(4,6), of u st v] v u show ?thesis by (simp add: fdb_txthread_ctx_gc_def)
qed

text \<open>A pool and a context after a collapse: the block at 200 was copied into the root at 100.\<close>

definition demo_collapsed :: "fdb_page_alloc_t fdb_txpool_alloc_t" where
  "demo_collapsed = \<lparr>tp_data_palloc = demo_pool, tp_block_palloc = demo_pool, tp_data_size = 8, tp_data_alignment = 16,
     tp_blocks = [100 \<mapsto> \<lparr>vb_ts = 1, vb_data = 300, vb_next = 0\<rparr>, 200 \<mapsto> \<lparr>vb_ts = 1, vb_data = 400, vb_next = 0\<rparr>],
     tp_data = [300 \<mapsto> replicate 8 7, 400 \<mapsto> replicate 8 7], tp_raw = (\<lambda>_. replicate 8 0)\<rparr>"

definition demo_context :: "fdb_page_alloc_t fdb_txthread_ctx_t" where
  "demo_context = \<lparr>tc_palloc = demo_pool, tc_first = 500,
     tc_entries = [500 \<mapsto> \<lparr>gb_palloc = 5, gb_block = 200, gb_next = 0, gb_prev = 0, gb_release = False\<rparr>]\<rparr>"

lemma ctx_gc_keeps_copied_versions_witness:
  "fdb_txthread_ctx_gc 2 1 demo_writer_first [5 \<mapsto> demo_collapsed] (demo_context, demo_page) False =
     Inr (False, [5 \<mapsto> demo_collapsed], demo_context, demo_page)"
proof -
  have "garbage demo_context [500]" by (simp add: garbage_def demo_context_def)
  from ctx_gc_keeps_copied_versions [OF demo_writer_first_reach _ this, of 2 1 "[5 \<mapsto> demo_collapsed]" demo_page]
  show ?thesis by (simp add: demo_context_def demo_collapsed_def zombie_def)
qed

definition demo_free_cmds :: "tx_cmd list" where
  "demo_free_cmds = [TBegin 2 E_READ_ONLY, TBegin 1 E_READ_WRITE, TAlloc 1 0 (replicate 8 7), TCommit 1,
     TBegin 3 E_READ_ONLY, TBegin 4 E_READ_WRITE, TFree 4 0, TRead 3 0]"

text \<open>A run in which freeing an object whose newest version is committed, but newer than the version the writer
  collects up to, takes it from a transaction that is still reading it. Transaction 2 began before the
  object was written, so the writer 4 collects up to version 0; it frees the object, and reader 3, which
  began after the commit and must see the object, gets no data. The specification says what it should get.\<close>

lemma free_of_committed_breaks_snapshot:
  "map_sum id fst (tx_run 17 5 demo_free_cmds demo_txsys) =
     Inr [TDone, TDone, TDone, TDone, TDone, TDone, TDone, TBytes None] \<and>
   tx_run_spec demo_free_cmds sp_init =
     [TDone, TDone, TDone, TDone, TDone, TDone, TDone, TBytes (Some (replicate 8 7))]"
proof (rule conjI)
  show "map_sum id fst (tx_run 17 5 demo_free_cmds demo_txsys) =
     Inr [TDone, TDone, TDone, TDone, TDone, TDone, TDone, TBytes None]" by code_simp
  show "tx_run_spec demo_free_cmds sp_init =
     [TDone, TDone, TDone, TDone, TDone, TDone, TDone, TBytes (Some (replicate 8 7))]"
    by (simp add: demo_free_cmds_def sp_init_def sp_put_def)
qed

definition demo_unpublished_cmds :: "tx_cmd list" where
  "demo_unpublished_cmds = [TBegin 1 E_READ_WRITE, TAlloc 1 0 (replicate 8 7), TFree 1 0, TCommit 1]"

text \<open>A run in which an object is allocated and freed by the same transaction; the next collection that
  reaches it frees a null pointer: its root never had data, its only version is a deletion.\<close>

lemma gc_of_unpublished_crashes:
  "case tx_run 9 5 demo_unpublished_cmds demo_txsys of Inl e \<Rightarrow> False
   | Inr (rs, s) \<Rightarrow> rs = [TDone, TDone, TDone, TDone] \<and>
       map_sum id fst (fdb_txthread_ctx_gc 9 9 (sy_mgr s) [5 \<mapsto> fst (sy_mem s)] (snd (sy_mem s)) False) = Inl NullDeref"
  by code_simp

end
