(* ===== verification/Fcc.thy ===== *)
theory Fcc
  imports Prelude
begin

text \<open>
  src/src/compiler/fcc\_context.h and fcc\_context.cpp: what the compiler knows of a program. A statement
  is a query over entities and the system that runs on what it finds. The driver (clang, a library
  that is not part of the repository) fills these records; handles of types, declarations and expressions
  are pointers whose meaning only the driver knows, so what it says of them are parameters here.

  An array with a counter is the list of the elements it holds; a check against the capacity is a branch.
  A report of an error calls the callback and aborts: \<open>Inl\<close> of the error.
\<close>

text \<open>A loop over an array that can fail.\<close>

fun fold_res :: "('a \<Rightarrow> 's \<Rightarrow> 's res) \<Rightarrow> 'a list \<Rightarrow> 's \<Rightarrow> 's res" where
  "fold_res f [] s = Inr s"
| "fold_res f (x # xs) s = bind_res (f x s) (fold_res f xs)"

lemma fold_res_append: "fold_res f (xs @ ys) s = bind_res (fold_res f xs s) (fold_res f ys)"
  by (induction xs arbitrary: s) (auto simp: bind_res_assoc intro!: bind_res_cong)

section \<open>Statements\<close>

type_synonym fcc_type_t = ptr
type_synonym fcc_expr_t = ptr
type_synonym fcc_decl_t = ptr

datatype fcc_operation_type_t = OP_UNKNOWN | OP_FOREACH
datatype fcc_access_mode_t = E_READ | E_READ_WRITE_MODE
datatype fcc_stmt_place_t = E_FRAME | E_POST_FRAME

record fcc_component_match_t =
  cm_type :: fcc_type_t
  cm_is_read_only :: bool
  cm_is_global :: bool

record fcc_system_t =
  sys_system_type :: fcc_type_t
  sys_ctor_params :: "fcc_expr_t list"
  sys_cmatches :: "fcc_component_match_t list"
  sys_id :: int

record fcc_entity_match_t =
  em_cmatches :: "fcc_component_match_t list"
  em_has_components :: "fcc_type_t list"
  em_has_not_components :: "fcc_type_t list"
  em_has_tags :: "string list"
  em_has_not_tags :: "string list"
  em_filter_func :: "fcc_decl_t list"
  em_from_expand :: bool
  em_ref_name :: string

record fcc_stmt_t =
  st_operation_type :: fcc_operation_type_t
  st_ematches :: "fcc_entity_match_t list"
  st_system :: "fcc_system_t option"   \<comment> \<open>\<open>None\<close> is a null pointer\<close>
  st_expr :: fcc_expr_t
  st_priority :: u32
  st_place :: fcc_stmt_place_t

definition FCC_MAX_OPERATOR_NUM_COLUMNS :: nat where "FCC_MAX_OPERATOR_NUM_COLUMNS = 16"
definition FCC_MAX_CTOR_PARAMS :: nat where "FCC_MAX_CTOR_PARAMS = 16"
definition FCC_MAX_SYSTEM_COMPONENTS :: nat where "FCC_MAX_SYSTEM_COMPONENTS = FCC_MAX_OPERATOR_NUM_COLUMNS"
definition FCC_MAX_HAS_COMPONENTS :: nat where "FCC_MAX_HAS_COMPONENTS = FCC_MAX_OPERATOR_NUM_COLUMNS"
definition FCC_MAX_HAS_NOT_COMPONENTS :: nat where "FCC_MAX_HAS_NOT_COMPONENTS = FCC_MAX_HAS_COMPONENTS"
definition FCC_MAX_HAS_TAGS :: nat where "FCC_MAX_HAS_TAGS = 16"
definition FCC_MAX_HAS_NOT_TAGS :: nat where "FCC_MAX_HAS_NOT_TAGS = FCC_MAX_HAS_TAGS"
definition FCC_MAX_FILTER_FUNC :: nat where "FCC_MAX_FILTER_FUNC = 8"
definition FCC_MAX_TAG_NAME :: nat where "FCC_MAX_TAG_NAME = 256"
definition FCC_MAX_REF_NAME :: nat where "FCC_MAX_REF_NAME = 256"

lemmas fcc_max_defs = FCC_MAX_OPERATOR_NUM_COLUMNS_def FCC_MAX_CTOR_PARAMS_def FCC_MAX_SYSTEM_COMPONENTS_def
  FCC_MAX_HAS_COMPONENTS_def FCC_MAX_HAS_NOT_COMPONENTS_def FCC_MAX_HAS_TAGS_def FCC_MAX_HAS_NOT_TAGS_def
  FCC_MAX_FILTER_FUNC_def FCC_MAX_TAG_NAME_def FCC_MAX_REF_NAME_def

section \<open>Building them\<close>

definition push_checked :: "'a list \<Rightarrow> nat \<Rightarrow> 'a \<Rightarrow> 'a list res" where
  "push_checked xs capacity x = (if length xs < capacity then Inr (xs @ [x]) else Inl AssertFail)"

definition fcc_system_add_ctor_param :: "fcc_system_t \<Rightarrow> fcc_expr_t \<Rightarrow> fcc_system_t res" where
  "fcc_system_add_ctor_param sys ctorp =
     bind_res (push_checked (sys_ctor_params sys) FCC_MAX_CTOR_PARAMS ctorp) (\<lambda>xs. Inr (sys\<lparr>sys_ctor_params := xs\<rparr>))"

definition fcc_system_add_cmatch :: "fcc_system_t \<Rightarrow> fcc_component_match_t \<Rightarrow> fcc_system_t res" where
  "fcc_system_add_cmatch sys cmatch =
     bind_res (push_checked (sys_cmatches sys) FCC_MAX_SYSTEM_COMPONENTS cmatch) (\<lambda>xs. Inr (sys\<lparr>sys_cmatches := xs\<rparr>))"

definition fcc_entity_match_init :: fcc_entity_match_t where
  "fcc_entity_match_init = \<lparr>em_cmatches = [], em_has_components = [], em_has_not_components = [], em_has_tags = [],
     em_has_not_tags = [], em_filter_func = [], em_from_expand = False, em_ref_name = []\<rparr>"

definition fcc_entity_match_add_cmatch :: "fcc_entity_match_t \<Rightarrow> fcc_component_match_t \<Rightarrow> fcc_entity_match_t res" where
  "fcc_entity_match_add_cmatch em cmatch =
     bind_res (push_checked (em_cmatches em) FCC_MAX_SYSTEM_COMPONENTS cmatch) (\<lambda>xs. Inr (em\<lparr>em_cmatches := xs\<rparr>))"

definition fcc_entity_match_add_has_comp :: "fcc_entity_match_t \<Rightarrow> fcc_type_t \<Rightarrow> fcc_entity_match_t res" where
  "fcc_entity_match_add_has_comp em cmp =
     bind_res (push_checked (em_has_components em) FCC_MAX_HAS_COMPONENTS cmp) (\<lambda>xs. Inr (em\<lparr>em_has_components := xs\<rparr>))"

definition fcc_entity_match_add_has_not_comp :: "fcc_entity_match_t \<Rightarrow> fcc_type_t \<Rightarrow> fcc_entity_match_t res" where
  "fcc_entity_match_add_has_not_comp em cmp =
     bind_res (push_checked (em_has_not_components em) FCC_MAX_HAS_NOT_COMPONENTS cmp)
       (\<lambda>xs. Inr (em\<lparr>em_has_not_components := xs\<rparr>))"

text \<open>The counter is tested before the tag is copied.\<close>

definition fcc_entity_match_add_has_tag :: "fcc_entity_match_t \<Rightarrow> string \<Rightarrow> fcc_entity_match_t res" where
  "fcc_entity_match_add_has_tag em tag =
     (if length (em_has_tags em) < FCC_MAX_HAS_TAGS
      then bind_res (copy_and_check_str tag FCC_MAX_TAG_NAME) (\<lambda>buffer. Inr (em\<lparr>em_has_tags := em_has_tags em @ [buffer]\<rparr>))
      else Inl AssertFail)"

definition fcc_entity_match_add_has_not_tag :: "fcc_entity_match_t \<Rightarrow> string \<Rightarrow> fcc_entity_match_t res" where
  "fcc_entity_match_add_has_not_tag em tag =
     (if length (em_has_not_tags em) < FCC_MAX_HAS_NOT_TAGS
      then bind_res (copy_and_check_str tag FCC_MAX_TAG_NAME)
             (\<lambda>buffer. Inr (em\<lparr>em_has_not_tags := em_has_not_tags em @ [buffer]\<rparr>))
      else Inl AssertFail)"

definition fcc_entity_match_add_filter :: "fcc_entity_match_t \<Rightarrow> fcc_decl_t \<Rightarrow> fcc_entity_match_t res" where
  "fcc_entity_match_add_filter em fdecl =
     bind_res (push_checked (em_filter_func em) FCC_MAX_FILTER_FUNC fdecl) (\<lambda>xs. Inr (em\<lparr>em_filter_func := xs\<rparr>))"

definition fcc_stmt_init :: fcc_stmt_t where
  "fcc_stmt_init = \<lparr>st_operation_type = OP_UNKNOWN, st_ematches = [], st_system = None, st_expr = NULL,
     st_priority = 1, st_place = E_FRAME\<rparr>"

section \<open>Errors\<close>

datatype fcc_parsing_error_type_t = PE_UNKNOWN_ERROR | PE_UNKNOWN_FDB_OPERATION | PE_INCOMPLETE_FDB_STATEMENT
  | PE_UNSUPPORTED_VAR_DECLARATIONS | PE_UNSUPPORTED_STATEMENT | PE_UNSUPPORTED_TYPE_MODIFIER
  | PE_EXPECTED_STRING_LITERAL | PE_NO_ERROR

datatype fcc_compilation_error_type_t = CE_UNKNOWN_ERROR | CE_CYCLIC_DEPENDENCY_GRAPH | CE_INVALID_COLUMN_TYPE
  | CE_INVALID_ACCESS_MODE_ON_EXPAND | CE_SYSTEM_INVALID_NUMBER_COMPONENTS | CE_NO_ERROR

datatype fcc_error = ParsingError fcc_parsing_error_type_t fcc_expr_t | CompilationError fcc_compilation_error_type_t
  | Undefined ub

section \<open>Validation\<close>

text \<open>The three loops of \<open>fcc_validate\<close>. \<open>allow_writes\<close> and \<open>allow_globals\<close> are arrays of as many
  elements as the matches have components.\<close>

definition allowed_flags :: "fcc_entity_match_t list \<Rightarrow> bool list" where
  "allowed_flags ematches = replicate (length (em_cmatches (last ematches))) True @
     concat (map (\<lambda>e. replicate (length (em_cmatches e)) True) (rev (butlast ematches)))"

fun check_components ::
  "bool list \<Rightarrow> bool list \<Rightarrow> bool \<Rightarrow> nat \<Rightarrow> fcc_component_match_t list \<Rightarrow> fcc_error + bool" where
  "check_components allow_writes allow_globals all_globals i [] = Inr all_globals"
| "check_components allow_writes allow_globals all_globals i (c # cs) =
     (if \<not> i < length allow_writes then Inl (Undefined OutOfBounds)
      else if allow_writes ! i = False \<and> \<not> cm_is_read_only c then Inl (CompilationError CE_INVALID_ACCESS_MODE_ON_EXPAND)
      else if allow_globals ! i = False \<and> cm_is_global c then Inl (CompilationError CE_INVALID_ACCESS_MODE_ON_EXPAND)
      else check_components allow_writes allow_globals (all_globals \<and> cm_is_global c) (Suc i) cs)"

definition fcc_validate :: "fcc_stmt_t \<Rightarrow> fcc_error + unit" where
  "fcc_validate stmt =
     (if st_operation_type stmt = OP_UNKNOWN then Inl (ParsingError PE_UNSUPPORTED_STATEMENT (st_expr stmt))
      else if st_ematches stmt = [] then Inl (ParsingError PE_UNSUPPORTED_STATEMENT (st_expr stmt))
      else if 2 < length (st_ematches stmt) then Inl (ParsingError PE_UNSUPPORTED_STATEMENT (st_expr stmt))
      else case st_system stmt of None \<Rightarrow> Inl (Undefined NullDeref) | Some sys \<Rightarrow>
        let ncomps = (\<Sum>e\<leftarrow>st_ematches stmt. length (em_cmatches e));
            flags = allowed_flags (st_ematches stmt); cmatches = sys_cmatches sys
        in if ncomps \<noteq> length cmatches then Inl (CompilationError CE_SYSTEM_INVALID_NUMBER_COMPONENTS)
           else case check_components flags flags True 0 cmatches of Inl e \<Rightarrow> Inl e | Inr all_globals \<Rightarrow>
             if \<not> all_globals \<and> (\<exists>c\<in>set cmatches. \<not> cm_is_read_only c \<and> cm_is_global c)
             then Inl (CompilationError CE_INVALID_ACCESS_MODE_ON_EXPAND) else Inr ())"

lemma check_components_allowed:
  "length flags = i + length cs \<Longrightarrow> set flags \<subseteq> {True} \<Longrightarrow>
   check_components flags flags b i cs = Inr (b \<and> (\<forall>c\<in>set cs. cm_is_global c))"
proof (induction cs arbitrary: b i)
  case (Cons c cs)
  have i: "i < length flags" using Cons.prems(1) by simp
  then have "flags ! i" using Cons.prems(2) nth_mem [of i flags] by blast
  moreover have "check_components flags flags (b \<and> cm_is_global c) (Suc i) cs =
      Inr ((b \<and> cm_is_global c) \<and> (\<forall>c\<in>set cs. cm_is_global c))"
    by (rule Cons.IH) (use Cons.prems in simp_all)
  ultimately show ?case using i by auto
qed simp

lemma allowed_flags_spec:
  assumes "es \<noteq> []"
  shows "length (allowed_flags es) = (\<Sum>e\<leftarrow>es. length (em_cmatches e))" "set (allowed_flags es) \<subseteq> {True}"
proof -
  have l: "length (concat (map (\<lambda>e. replicate (length (em_cmatches e)) True) (rev ds))) = (\<Sum>e\<leftarrow>ds. length (em_cmatches e))"
    for ds by (induction ds) simp_all
  obtain ds d where es: "es = ds @ [d]" using assms by (cases es rule: rev_cases) auto
  show "length (allowed_flags es) = (\<Sum>e\<leftarrow>es. length (em_cmatches e))"
    unfolding allowed_flags_def es last_snoc butlast_snoc length_append l by simp
  show "set (allowed_flags es) \<subseteq> {True}" by (auto simp: allowed_flags_def)
qed

text \<open>A statement with an expand and a match, and one that uses every component of a match and a tag.\<close>

definition demo_cmatch :: "ptr \<Rightarrow> fcc_component_match_t" where
  "demo_cmatch t = \<lparr>cm_type = t, cm_is_read_only = True, cm_is_global = False\<rparr>"

definition demo_stmt :: "fcc_entity_match_t list \<Rightarrow> fcc_stmt_t" where
  "demo_stmt ems = fcc_stmt_init\<lparr>st_operation_type := OP_FOREACH, st_ematches := ems,
     st_system := Some \<lparr>sys_system_type = 9, sys_ctor_params = [], sys_cmatches = concat (map em_cmatches ems), sys_id = 0\<rparr>\<rparr>"

definition demo_expand :: "fcc_stmt_t" where
  "demo_expand = demo_stmt [fcc_entity_match_init\<lparr>em_cmatches := [demo_cmatch 1], em_from_expand := True, em_ref_name := ''parent''\<rparr>,
     fcc_entity_match_init\<lparr>em_cmatches := [demo_cmatch 2, demo_cmatch 3], em_has_tags := [''alive'']\<rparr>]"

definition demo_crowded :: "fcc_stmt_t" where
  "demo_crowded = demo_stmt [fcc_entity_match_init\<lparr>em_cmatches := map (\<lambda>i. demo_cmatch (of_nat i)) [1..<17], em_has_tags := [''alive'']\<rparr>]"

lemmas demo_stmt_defs = demo_cmatch_def demo_stmt_def demo_expand_def demo_crowded_def fcc_stmt_init_def fcc_entity_match_init_def

text \<open>C9: A statement is accepted exactly when it has an operation, one or two matches that have as many
  components together as its system, and no global that its system writes unless all components of the
  system are globals. (Nothing is said about where a written component or a global may stand, although two of
  the error messages of the function claim that after an expand neither is allowed.)\<close>

theorem fcc_validate_accepts_iff:
  "fcc_validate stmt = Inr () \<longleftrightarrow> st_operation_type stmt \<noteq> OP_UNKNOWN \<and> length (st_ematches stmt) \<in> {1, 2} \<and>
     (\<exists>sys. st_system stmt = Some sys \<and>
       length (sys_cmatches sys) = (\<Sum>e\<leftarrow>st_ematches stmt. length (em_cmatches e)) \<and>
       ((\<exists>c\<in>set (sys_cmatches sys). \<not> cm_is_global c) \<longrightarrow>
          (\<forall>c\<in>set (sys_cmatches sys). cm_is_global c \<longrightarrow> cm_is_read_only c)))"
proof (cases "st_ematches stmt = [] \<or> 2 < length (st_ematches stmt) \<or> st_operation_type stmt = OP_UNKNOWN")
  case True
  then show ?thesis by (auto simp: fcc_validate_def)
next
  case False
  then have len: "length (st_ematches stmt) \<in> {1, 2}"
    by (cases "st_ematches stmt"; cases "tl (st_ematches stmt)") auto
  show ?thesis
  proof (cases "st_system stmt")
    case None
    then show ?thesis using False by (simp add: fcc_validate_def)
  next
    case (Some sys)
    note fl = allowed_flags_spec [of "st_ematches stmt"]
    show ?thesis
    proof (cases "(\<Sum>e\<leftarrow>st_ematches stmt. length (em_cmatches e)) = length (sys_cmatches sys)")
      case True
      then have "check_components (allowed_flags (st_ematches stmt)) (allowed_flags (st_ematches stmt)) True 0 (sys_cmatches sys) =
          Inr (\<forall>c\<in>set (sys_cmatches sys). cm_is_global c)"
        using check_components_allowed [of "allowed_flags (st_ematches stmt)" 0 "sys_cmatches sys" True] fl False by simp
      then show ?thesis using False Some True len by (auto simp: fcc_validate_def Let_def)
    next
      case ne: False
      then show ?thesis using False Some len by (auto simp: fcc_validate_def Let_def)
    qed
  qed
qed


theorem fcc_validate_accepts_iff_witness:
  "fcc_validate demo_expand = Inr () \<and> length (sys_cmatches (the (st_system demo_expand))) = 3 \<and>
   fcc_validate (demo_expand\<lparr>st_system := Some ((the (st_system demo_expand))\<lparr>sys_cmatches := []\<rparr>)\<rparr>) \<noteq> Inr ()"
  unfolding fcc_validate_accepts_iff by (simp add: demo_stmt_defs)

end
