(* ===== verification/Operator.thy ===== *)
theory Operator
  imports Fcc
begin

text \<open>
  src/src/compiler/frontend/operator.h and operator.cpp: the plan of a statement, a tree of operators in
  an array. A scan or fetch of each component of a match is joined with the ones before, filtered, for an
  expand gathered over its reference, and joined with the plan of the matches after it; the operator at the
  root runs the system. \<open>tname\<close> and \<open>tmode\<close> are what the driver says of a type (\<open>fcc_type_name\<close>,
  \<open>fcc_type_access_mode\<close>).

  The tag of an operator and its union are one datatype. An array with a counter is the list of its
  elements; writing past its capacity, and using \<open>FCC_INVALID_ID\<close> as an index, is out of bounds.
\<close>

section \<open>Operators\<close>

datatype fcc_column_type_t = E_ID | E_COMPONENT | E_REFERENCE | E_GLOBAL
datatype fcc_filter_op_type_t = E_HAS | E_HAS_NOT

text \<open>A field of a column that is never set is \<open>None\<close>.\<close>

record fcc_column_t =
  co_type :: fcc_column_type_t
  co_component_type :: "fcc_type_t option"
  co_ref_name :: "string option"
  co_access_mode :: fcc_access_mode_t

datatype fcc_operation =
    ScanOp
  | JoinOp nat nat
  | LeftFilterJoinOp nat nat
  | CrossJoinOp nat nat
  | FetchOp
  | TagFilterOp nat string bool fcc_filter_op_type_t
  | PredicateFilterOp nat fcc_decl_t
  | ComponentFilterOp nat fcc_type_t bool fcc_filter_op_type_t
  | ForeachOp nat "fcc_system_t option"
  | GatherOp nat nat
  | CascadingGatherOp nat nat

record fcc_operator_t =
  op_operation :: fcc_operation
  op_parent :: nat
  op_id :: nat
  op_name :: string
  op_columns :: "fcc_column_t list"

record fcc_subplan_t =
  sp_id :: nat
  sp_root :: nat
  sp_nodes :: "fcc_operator_t list"
  sp_requires_sync :: bool

definition FCC_INVALID_ID :: nat where "FCC_INVALID_ID = 0xffffffff"
definition FCC_MAX_OPERATOR_NAME :: nat where "FCC_MAX_OPERATOR_NAME = 32"
definition FCC_MAX_SUBPLAN_NODES :: nat where "FCC_MAX_SUBPLAN_NODES = 32"

definition is_fetch :: "fcc_operator_t \<Rightarrow> bool" where "is_fetch op \<longleftrightarrow> op_operation op = FetchOp"

section \<open>Creating operators\<close>

definition create_operator :: "fcc_subplan_t \<Rightarrow> fcc_operation \<Rightarrow> string \<Rightarrow> (nat \<times> fcc_subplan_t) res" where
  "create_operator subplan operation name =
     (let id = length (sp_nodes subplan) in
      if FCC_MAX_SUBPLAN_NODES \<le> id then Inl OutOfBounds else
      bind_res (copy_and_check_str name FCC_MAX_OPERATOR_NAME) (\<lambda>name.
      Inr (id, subplan\<lparr>sp_nodes := sp_nodes subplan @ [\<lparr>op_operation = operation, op_parent = FCC_INVALID_ID,
        op_id = id, op_name = name, op_columns = []\<rparr>]\<rparr>)))"

definition set_op_parent :: "fcc_subplan_t \<Rightarrow> nat \<Rightarrow> nat \<Rightarrow> fcc_subplan_t res" where
  "set_op_parent subplan child pid =
     bind_res (rd (sp_nodes subplan) child) (\<lambda>c.
     bind_res (wr (sp_nodes subplan) child (c\<lparr>op_parent := pid\<rparr>)) (\<lambda>ns. Inr (subplan\<lparr>sp_nodes := ns\<rparr>)))"

definition add_columns :: "fcc_subplan_t \<Rightarrow> nat \<Rightarrow> fcc_column_t list \<Rightarrow> fcc_subplan_t res" where
  "add_columns subplan dst cols =
     bind_res (rd (sp_nodes subplan) dst) (\<lambda>d.
     if FCC_MAX_OPERATOR_NUM_COLUMNS < length (op_columns d) + length cols then Inl OutOfBounds
     else bind_res (wr (sp_nodes subplan) dst (d\<lparr>op_columns := op_columns d @ cols\<rparr>))
            (\<lambda>ns. Inr (subplan\<lparr>sp_nodes := ns\<rparr>)))"

definition copy_columns_op :: "fcc_subplan_t \<Rightarrow> nat \<Rightarrow> nat \<Rightarrow> fcc_subplan_t res" where
  "copy_columns_op subplan dst src =
     bind_res (rd (sp_nodes subplan) src) (\<lambda>s. add_columns subplan dst (op_columns s))"

definition create_scan :: "fcc_subplan_t \<Rightarrow> fcc_type_t \<Rightarrow> fcc_access_mode_t \<Rightarrow> (nat \<times> fcc_subplan_t) res" where
  "create_scan subplan component access_mode =
     bind_res (create_operator subplan ScanOp ''Scan'') (\<lambda>(id, subplan).
     bind_res (add_columns subplan id [\<lparr>co_type = E_COMPONENT, co_component_type = Some component, co_ref_name = None,
       co_access_mode = access_mode\<rparr>]) (\<lambda>subplan. Inr (id, subplan)))"

definition create_scan_ref :: "fcc_subplan_t \<Rightarrow> string \<Rightarrow> (nat \<times> fcc_subplan_t) res" where
  "create_scan_ref subplan ref_name =
     bind_res (create_operator subplan ScanOp ''Scan'') (\<lambda>(id, subplan).
     bind_res (copy_and_check_str ref_name FCC_MAX_REF_NAME) (\<lambda>ref_name.
     bind_res (add_columns subplan id [\<lparr>co_type = E_ID, co_component_type = None, co_ref_name = Some ref_name,
       co_access_mode = E_READ\<rparr>]) (\<lambda>subplan. Inr (id, subplan))))"

definition create_fetch :: "fcc_subplan_t \<Rightarrow> fcc_type_t \<Rightarrow> fcc_access_mode_t \<Rightarrow> (nat \<times> fcc_subplan_t) res" where
  "create_fetch subplan global_type access_mode =
     bind_res (create_operator subplan FetchOp ''Fetch'') (\<lambda>(id, subplan).
     bind_res (add_columns subplan id [\<lparr>co_type = E_GLOBAL, co_component_type = Some global_type, co_ref_name = None,
       co_access_mode = access_mode\<rparr>]) (\<lambda>subplan. Inr (id, subplan)))"

definition create_join :: "fcc_subplan_t \<Rightarrow> nat \<Rightarrow> nat \<Rightarrow> (nat \<times> fcc_subplan_t) res" where
  "create_join subplan left right =
     bind_res (create_operator subplan (JoinOp left right) ''Join'') (\<lambda>(id, subplan).
     bind_res (set_op_parent subplan left id) (\<lambda>subplan.
     bind_res (set_op_parent subplan right id) (\<lambda>subplan.
     bind_res (copy_columns_op subplan id left) (\<lambda>subplan.
     bind_res (copy_columns_op subplan id right) (\<lambda>subplan. Inr (id, subplan))))))"

definition create_leftfilter_join :: "fcc_subplan_t \<Rightarrow> nat \<Rightarrow> nat \<Rightarrow> (nat \<times> fcc_subplan_t) res" where
  "create_leftfilter_join subplan left right =
     bind_res (create_operator subplan (LeftFilterJoinOp left right) ''LeftFilterJoin'') (\<lambda>(id, subplan).
     bind_res (set_op_parent subplan left id) (\<lambda>subplan.
     bind_res (set_op_parent subplan right id) (\<lambda>subplan.
     bind_res (copy_columns_op subplan id left) (\<lambda>subplan. Inr (id, subplan)))))"

definition create_cross_join :: "fcc_subplan_t \<Rightarrow> nat \<Rightarrow> nat \<Rightarrow> (nat \<times> fcc_subplan_t) res" where
  "create_cross_join subplan left right =
     bind_res (create_operator subplan (CrossJoinOp left right) ''CrossJoin'') (\<lambda>(id, subplan).
     bind_res (set_op_parent subplan left id) (\<lambda>subplan.
     bind_res (set_op_parent subplan right id) (\<lambda>subplan.
     bind_res (copy_columns_op subplan id left) (\<lambda>subplan.
     bind_res (copy_columns_op subplan id right) (\<lambda>subplan. Inr (id, subplan))))))"

definition create_predicate_filter :: "fcc_subplan_t \<Rightarrow> nat \<Rightarrow> fcc_decl_t \<Rightarrow> (nat \<times> fcc_subplan_t) res" where
  "create_predicate_filter subplan child filter_func =
     bind_res (create_operator subplan (PredicateFilterOp child filter_func) ''PredicateFilter'') (\<lambda>(id, subplan).
     bind_res (set_op_parent subplan child id) (\<lambda>subplan.
     bind_res (copy_columns_op subplan id child) (\<lambda>subplan. Inr (id, subplan))))"

definition create_tag_filter ::
  "fcc_subplan_t \<Rightarrow> nat \<Rightarrow> string \<Rightarrow> fcc_filter_op_type_t \<Rightarrow> bool \<Rightarrow> (nat \<times> fcc_subplan_t) res" where
  "create_tag_filter subplan child tag op_type on_column =
     bind_res (create_operator subplan (TagFilterOp child tag on_column op_type) ''TagFilter'') (\<lambda>(id, subplan).
     bind_res (copy_and_check_str tag FCC_MAX_TAG_NAME) (\<lambda>_.
     bind_res (set_op_parent subplan child id) (\<lambda>subplan.
     bind_res (copy_columns_op subplan id child) (\<lambda>subplan. Inr (id, subplan)))))"

definition create_component_filter ::
  "fcc_subplan_t \<Rightarrow> nat \<Rightarrow> fcc_type_t \<Rightarrow> fcc_filter_op_type_t \<Rightarrow> bool \<Rightarrow> (nat \<times> fcc_subplan_t) res" where
  "create_component_filter subplan child component op_type on_column =
     bind_res (create_operator subplan (ComponentFilterOp child component on_column op_type) ''ComponentFilter'') (\<lambda>(id, subplan).
     bind_res (set_op_parent subplan child id) (\<lambda>subplan.
     bind_res (copy_columns_op subplan id child) (\<lambda>subplan. Inr (id, subplan))))"

text \<open>Without a child, \<open>m_child\<close> keeps the zero of the cleared plan.\<close>

definition create_foreach :: "fcc_subplan_t \<Rightarrow> nat \<Rightarrow> fcc_system_t option \<Rightarrow> (nat \<times> fcc_subplan_t) res" where
  "create_foreach subplan child system =
     bind_res (create_operator subplan (ForeachOp (if child \<noteq> FCC_INVALID_ID then child else 0) system) ''Foreach'')
       (\<lambda>(id, subplan).
     if child \<noteq> FCC_INVALID_ID then
       bind_res (set_op_parent subplan child id) (\<lambda>subplan.
       bind_res (copy_columns_op subplan id child) (\<lambda>subplan. Inr (id, subplan)))
     else Inr (id, subplan))"

definition mark_reference :: "fcc_column_t \<Rightarrow> fcc_column_t" where
  "mark_reference col = col\<lparr>co_type := E_REFERENCE\<rparr>"

definition mark_references :: "fcc_subplan_t \<Rightarrow> nat \<Rightarrow> fcc_subplan_t res" where
  "mark_references subplan dst =
     bind_res (rd (sp_nodes subplan) dst) (\<lambda>op.
     bind_res (wr (sp_nodes subplan) dst (op\<lparr>op_columns := map mark_reference (op_columns op)\<rparr>))
       (\<lambda>ns. Inr (subplan\<lparr>sp_nodes := ns\<rparr>)))"

definition create_gather :: "fcc_subplan_t \<Rightarrow> nat \<Rightarrow> nat \<Rightarrow> (nat \<times> fcc_subplan_t) res" where
  "create_gather subplan child ref_table =
     bind_res (create_operator subplan (GatherOp child ref_table) ''Gather'') (\<lambda>(id, subplan).
     bind_res (set_op_parent subplan child id) (\<lambda>subplan.
     bind_res (set_op_parent subplan ref_table id) (\<lambda>subplan.
     bind_res (copy_columns_op subplan id child) (\<lambda>subplan.
     bind_res (mark_references subplan id) (\<lambda>subplan. Inr (id, subplan))))))"

definition create_cascading_gather :: "fcc_subplan_t \<Rightarrow> nat \<Rightarrow> nat \<Rightarrow> (nat \<times> fcc_subplan_t) res" where
  "create_cascading_gather subplan child ref_table =
     bind_res (create_operator subplan (CascadingGatherOp child ref_table) ''CascadingGather'') (\<lambda>(id, subplan).
     bind_res (set_op_parent subplan child id) (\<lambda>subplan.
     bind_res (set_op_parent subplan ref_table id) (\<lambda>subplan.
     bind_res (copy_columns_op subplan id child) (\<lambda>subplan.
     bind_res (mark_references subplan id) (\<lambda>subplan. Inr (id, subplan))))))"

section \<open>The plan of a statement\<close>

text \<open>A loop that puts one operator over the root for every element of an array.\<close>

fun each_over :: "(fcc_subplan_t \<Rightarrow> nat \<Rightarrow> 'a \<Rightarrow> (nat \<times> fcc_subplan_t) res) \<Rightarrow> 'a list \<Rightarrow> nat \<times> fcc_subplan_t \<Rightarrow>
   (nat \<times> fcc_subplan_t) res" where
  "each_over create [] (root, subplan) = Inr (root, subplan)"
| "each_over create (x # xs) (root, subplan) = bind_res (create subplan root x) (each_over create xs)"

definition apply_predicate_filters :: "fcc_subplan_t \<Rightarrow> fcc_entity_match_t \<Rightarrow> nat \<Rightarrow> (nat \<times> fcc_subplan_t) res" where
  "apply_predicate_filters subplan em root = each_over create_predicate_filter (em_filter_func em) (root, subplan)"

definition filters_on :: "bool \<Rightarrow> fcc_subplan_t \<Rightarrow> fcc_entity_match_t \<Rightarrow> nat \<Rightarrow> (nat \<times> fcc_subplan_t) res" where
  "filters_on on_column subplan em root =
     bind_res (each_over (\<lambda>sp r t. create_tag_filter sp r t E_HAS_NOT on_column) (em_has_not_tags em) (root, subplan)) (\<lambda>x.
     bind_res (each_over (\<lambda>sp r t. create_tag_filter sp r t E_HAS on_column) (em_has_tags em) x) (\<lambda>x.
     bind_res (each_over (\<lambda>sp r t. create_component_filter sp r t E_HAS_NOT on_column) (em_has_not_components em) x) (\<lambda>x.
     each_over (\<lambda>sp r t. create_component_filter sp r t E_HAS on_column) (em_has_components em) x)))"

definition apply_filters :: "fcc_subplan_t \<Rightarrow> fcc_entity_match_t \<Rightarrow> nat \<Rightarrow> (nat \<times> fcc_subplan_t) res" where
  "apply_filters = filters_on False"

definition apply_filters_reference :: "fcc_subplan_t \<Rightarrow> fcc_entity_match_t \<Rightarrow> nat \<Rightarrow> (nat \<times> fcc_subplan_t) res" where
  "apply_filters_reference = filters_on True"

definition access_mode_of :: "fcc_component_match_t \<Rightarrow> fcc_access_mode_t" where
  "access_mode_of c = (if cm_is_read_only c then E_READ else E_READ_WRITE_MODE)"

definition create_source :: "fcc_subplan_t \<Rightarrow> fcc_component_match_t \<Rightarrow> (nat \<times> fcc_subplan_t) res" where
  "create_source subplan c =
     (if cm_is_global c then create_fetch subplan (cm_type c) (access_mode_of c)
      else create_scan subplan (cm_type c) (access_mode_of c))"

text \<open>The loop over the components of a match.\<close>

fun join_components :: "fcc_component_match_t list \<Rightarrow> nat \<times> fcc_subplan_t \<Rightarrow> (nat \<times> fcc_subplan_t) res" where
  "join_components [] (local_root, subplan) = Inr (local_root, subplan)"
| "join_components (c # cs) (local_root, subplan) =
     bind_res (create_source subplan c) (\<lambda>(right, subplan).
     if local_root = FCC_INVALID_ID then join_components cs (right, subplan)
     else bind_res (rd (sp_nodes subplan) local_root) (\<lambda>l.
          bind_res (rd (sp_nodes subplan) right) (\<lambda>r.
          bind_res (if is_fetch l \<or> is_fetch r then create_cross_join subplan local_root right
                    else create_join subplan local_root right) (join_components cs))))"

text \<open>An expand cascades when one of its components is written by the match.\<close>

definition cascades ::
  "(fcc_type_t \<Rightarrow> string) \<Rightarrow> (fcc_type_t \<Rightarrow> fcc_access_mode_t) \<Rightarrow> fcc_entity_match_t \<Rightarrow> fcc_entity_match_t \<Rightarrow> bool" where
  "cascades tname tmode em last_em \<longleftrightarrow>
     (\<exists>e\<in>set (em_cmatches em). \<exists>m\<in>set (em_cmatches last_em).
        tmode (cm_type m) \<noteq> E_READ \<and> tname (cm_type e) = tname (cm_type m))"

definition add_entity_match ::
  "(fcc_type_t \<Rightarrow> string) \<Rightarrow> (fcc_type_t \<Rightarrow> fcc_access_mode_t) \<Rightarrow> fcc_entity_match_t \<Rightarrow> fcc_entity_match_t \<Rightarrow>
   nat \<times> fcc_subplan_t \<Rightarrow> (nat \<times> fcc_subplan_t) res" where
  "add_entity_match tname tmode last_em em = (\<lambda>(root, subplan).
     bind_res (join_components (em_cmatches em) (FCC_INVALID_ID, subplan)) (\<lambda>(local_root, subplan).
     bind_res (if local_root \<noteq> FCC_INVALID_ID then apply_filters subplan em local_root
               else Inr (local_root, subplan)) (\<lambda>(local_root, subplan).
     let non_component_expand = (local_root = FCC_INVALID_ID) in
     bind_res (if em_from_expand em then
                 bind_res (create_scan_ref subplan (em_ref_name em)) (\<lambda>(ref_scan, subplan).
                 if \<not> non_component_expand then
                   bind_res (if cascades tname tmode em last_em then create_cascading_gather subplan local_root ref_scan
                             else create_gather subplan local_root ref_scan) (\<lambda>(local_root, subplan).
                   Inr (local_root, subplan\<lparr>sp_requires_sync := True\<rparr>))
                 else apply_filters_reference subplan em ref_scan)
               else Inr (local_root, subplan)) (\<lambda>(local_root, subplan).
     bind_res (if root = FCC_INVALID_ID then Inr (local_root, subplan)
               else if non_component_expand then create_leftfilter_join subplan root local_root
               else create_join subplan root local_root) (\<lambda>(root, subplan).
     apply_predicate_filters subplan em root)))))"

fun add_entity_matches ::
  "(fcc_type_t \<Rightarrow> string) \<Rightarrow> (fcc_type_t \<Rightarrow> fcc_access_mode_t) \<Rightarrow> fcc_entity_match_t \<Rightarrow> fcc_entity_match_t list \<Rightarrow>
   nat \<times> fcc_subplan_t \<Rightarrow> (nat \<times> fcc_subplan_t) res" where
  "add_entity_matches tname tmode last_em [] x = Inr x"
| "add_entity_matches tname tmode last_em (em # ems) x =
     bind_res (add_entity_match tname tmode last_em em x) (add_entity_matches tname tmode last_em ems)"

definition empty_subplan :: fcc_subplan_t where
  "empty_subplan = \<lparr>sp_id = 0, sp_root = 0, sp_nodes = [], sp_requires_sync = False\<rparr>"

definition subplan_init ::
  "(fcc_type_t \<Rightarrow> string) \<Rightarrow> (fcc_type_t \<Rightarrow> fcc_access_mode_t) \<Rightarrow> fcc_stmt_t \<Rightarrow> fcc_subplan_t res" where
  "subplan_init tname tmode stmt =
     bind_res (add_entity_matches tname tmode (last (st_ematches stmt)) (rev (st_ematches stmt)) (FCC_INVALID_ID, empty_subplan))
       (\<lambda>(root, subplan).
     case st_operation_type stmt of
       OP_UNKNOWN \<Rightarrow> Inl AssertFail
     | OP_FOREACH \<Rightarrow> bind_res (create_foreach subplan root (st_system stmt)) (\<lambda>(root, subplan).
         Inr (subplan\<lparr>sp_root := root\<rparr>)))"

end
