(* ===== verification/OperatorSpec.thy ===== *)
theory OperatorSpec
  imports Operator
begin

text \<open>
  The plan that \<open>subplan_init\<close> builds is a tree, its operators have the columns their inputs give them, and
  it has a number of operators that only depends on the sizes of the statement. \<open>tree_part\<close> is the invariant
  of the array while it is built: a forest with the roots \<open>R\<close>.
\<close>

section \<open>Trees in an array\<close>

fun op_children :: "fcc_operation \<Rightarrow> nat list" where
  "op_children ScanOp = []"
| "op_children FetchOp = []"
| "op_children (JoinOp l r) = [l, r]"
| "op_children (LeftFilterJoinOp l r) = [l, r]"
| "op_children (CrossJoinOp l r) = [l, r]"
| "op_children (TagFilterOp c t on_column p) = [c]"
| "op_children (PredicateFilterOp c f) = [c]"
| "op_children (ComponentFilterOp c t on_column p) = [c]"
| "op_children (ForeachOp c s) = [c]"
| "op_children (GatherOp c r) = [c, r]"
| "op_children (CascadingGatherOp c r) = [c, r]"

text \<open>The columns an operator has to have, given those of the operators below it.\<close>

fun columns_ok :: "(nat \<Rightarrow> fcc_column_t list) \<Rightarrow> fcc_operation \<Rightarrow> fcc_column_t list \<Rightarrow> bool" where
  "columns_ok C ScanOp cs \<longleftrightarrow> length cs = 1 \<and> (case co_type (hd cs) of
     E_COMPONENT \<Rightarrow> co_component_type (hd cs) \<noteq> None
   | E_ID \<Rightarrow> (case co_ref_name (hd cs) of None \<Rightarrow> False | Some r \<Rightarrow> length r < FCC_MAX_REF_NAME) | _ \<Rightarrow> False)"
| "columns_ok C FetchOp cs \<longleftrightarrow> length cs = 1 \<and> co_type (hd cs) = E_GLOBAL \<and> co_component_type (hd cs) \<noteq> None"
| "columns_ok C (JoinOp l r) cs \<longleftrightarrow> cs = C l @ C r"
| "columns_ok C (LeftFilterJoinOp l r) cs \<longleftrightarrow> cs = C l"
| "columns_ok C (CrossJoinOp l r) cs \<longleftrightarrow> cs = C l @ C r"
| "columns_ok C (TagFilterOp c t on_column p) cs \<longleftrightarrow> length t < FCC_MAX_TAG_NAME \<and> cs = C c"
| "columns_ok C (PredicateFilterOp c f) cs \<longleftrightarrow> cs = C c"
| "columns_ok C (ComponentFilterOp c t on_column p) cs \<longleftrightarrow> cs = C c"
| "columns_ok C (ForeachOp c s) cs \<longleftrightarrow> cs = C c"
| "columns_ok C (GatherOp c r) cs \<longleftrightarrow> cs = map mark_reference (C c)"
| "columns_ok C (CascadingGatherOp c r) cs \<longleftrightarrow> cs = map mark_reference (C c)"

abbreviation cols_at :: "fcc_operator_t list \<Rightarrow> nat \<Rightarrow> fcc_column_t list" where
  "cols_at ns i \<equiv> op_columns (ns ! i)"
abbreviation kids_at :: "fcc_operator_t list \<Rightarrow> nat \<Rightarrow> nat list" where
  "kids_at ns i \<equiv> op_children (op_operation (ns ! i))"

definition node_ok :: "fcc_operator_t list \<Rightarrow> nat set \<Rightarrow> nat \<Rightarrow> bool" where
  "node_ok ns R i \<longleftrightarrow> op_id (ns ! i) = i \<and> distinct (kids_at ns i) \<and>
     (\<forall>c\<in>set (kids_at ns i). c < i \<and> op_parent (ns ! c) = i) \<and>
     columns_ok (cols_at ns) (op_operation (ns ! i)) (cols_at ns i) \<and>
     length (cols_at ns i) \<le> FCC_MAX_OPERATOR_NUM_COLUMNS \<and>
     (if i \<in> R then op_parent (ns ! i) = FCC_INVALID_ID
      else op_parent (ns ! i) < length ns \<and> i \<in> set (kids_at ns (op_parent (ns ! i))))"

definition tree_part :: "fcc_operator_t list \<Rightarrow> nat set \<Rightarrow> bool" where
  "tree_part ns R \<longleftrightarrow> length ns \<le> FCC_MAX_SUBPLAN_NODES \<and> R \<subseteq> {..<length ns} \<and> (\<forall>i<length ns. node_ok ns R i)"

text \<open>A new operator over some roots.\<close>

definition over :: "fcc_operator_t list \<Rightarrow> nat list \<Rightarrow> nat \<Rightarrow> fcc_operator_t" where
  "over ns cs j = (if j \<in> set cs then (ns ! j)\<lparr>op_parent := length ns\<rparr> else ns ! j)"

definition attach :: "fcc_operator_t list \<Rightarrow> fcc_operation \<Rightarrow> string \<Rightarrow> fcc_column_t list \<Rightarrow> fcc_operator_t list" where
  "attach ns x name cs = map (over ns (op_children x)) [0..<length ns] @
     [\<lparr>op_operation = x, op_parent = FCC_INVALID_ID, op_id = length ns, op_name = name, op_columns = cs\<rparr>]"

lemma attach_simps:
  "length (attach ns x name cs) = Suc (length ns)"
  "i < length ns \<Longrightarrow> attach ns x name cs ! i = over ns (op_children x) i"
  "attach ns x name cs ! length ns =
     \<lparr>op_operation = x, op_parent = FCC_INVALID_ID, op_id = length ns, op_name = name, op_columns = cs\<rparr>"
  by (simp_all add: attach_def nth_append)

lemma over_simps [simp]:
  "op_operation (over ns cs i) = op_operation (ns ! i)" "op_columns (over ns cs i) = op_columns (ns ! i)"
  "op_id (over ns cs i) = op_id (ns ! i)" "op_parent (over ns cs i) = (if i \<in> set cs then length ns else op_parent (ns ! i))"
  by (simp_all add: over_def)

lemma columns_ok_cong: "(\<And>c. c \<in> set (op_children x) \<Longrightarrow> C c = D c) \<Longrightarrow> columns_ok C x cs = columns_ok D x cs"
  by (cases x) auto

lemma attach_tree:
  assumes t: "tree_part ns R" and n: "length ns < FCC_MAX_SUBPLAN_NODES"
    and x: "set (op_children x) \<subseteq> R" "distinct (op_children x)"
    and cs: "columns_ok (cols_at ns) x cs" "length cs \<le> FCC_MAX_OPERATOR_NUM_COLUMNS"
  shows "tree_part (attach ns x name cs) (insert (length ns) (R - set (op_children x)))"
proof -
  let ?ns = "attach ns x name cs" and ?n = "length ns" and ?R = "insert (length ns) (R - set (op_children x))"
  have R: "R \<subseteq> {..<?n}" using t by (simp add: tree_part_def)
  have I: "op_id (ns ! i) = i" "distinct (kids_at ns i)" "\<forall>c\<in>set (kids_at ns i). c < i \<and> op_parent (ns ! c) = i"
      "columns_ok (cols_at ns) (op_operation (ns ! i)) (cols_at ns i)" "length (cols_at ns i) \<le> FCC_MAX_OPERATOR_NUM_COLUMNS"
      "i \<in> R \<Longrightarrow> op_parent (ns ! i) = FCC_INVALID_ID"
      "i \<notin> R \<Longrightarrow> op_parent (ns ! i) < ?n \<and> i \<in> set (kids_at ns (op_parent (ns ! i)))" if "i < ?n" for i
    using t that unfolding tree_part_def node_ok_def by (auto split: if_splits)
  have n32: "?n < FCC_INVALID_ID" using n by (simp add: FCC_INVALID_ID_def FCC_MAX_SUBPLAN_NODES_def)
  have C: "cols_at ?ns c = cols_at ns c" if "c < ?n" for c using that by (simp add: attach_simps)
  have old: "node_ok ?ns ?R i" if i: "i < ?n" for i
  proof -
    note J = I [OF i]
    have k: "kids_at ?ns i = kids_at ns i" using i by (simp add: attach_simps)
    have kr: "c \<notin> R" if "c \<in> set (kids_at ns i)" for c
    proof
      assume "c \<in> R"
      then have "op_parent (ns ! c) = FCC_INVALID_ID" using I(6) [of c] R by auto
      then show False using J(3) that i n32 by auto
    qed
    have "\<forall>c\<in>set (kids_at ?ns i). c < i \<and> op_parent (?ns ! c) = i"
      unfolding k
    proof
      fix c assume c: "c \<in> set (kids_at ns i)"
      then have "c < i" "op_parent (ns ! c) = i" "c \<notin> set (op_children x)" "c < ?n" using J(3) kr x(1) i by auto
      then show "c < i \<and> op_parent (?ns ! c) = i" by (simp add: attach_simps)
    qed
    moreover have "columns_ok (cols_at ?ns) (op_operation (?ns ! i)) (cols_at ?ns i)"
    proof -
      have "columns_ok (cols_at ?ns) (op_operation (ns ! i)) (cols_at ns i) =
          columns_ok (cols_at ns) (op_operation (ns ! i)) (cols_at ns i)"
        by (rule columns_ok_cong) (use J(3) i C in auto)
      then show ?thesis using J(4) i by (simp add: attach_simps)
    qed
    moreover have "if i \<in> ?R then op_parent (?ns ! i) = FCC_INVALID_ID
         else op_parent (?ns ! i) < Suc ?n \<and> i \<in> set (kids_at ?ns (op_parent (?ns ! i)))"
    proof (cases "i \<in> set (op_children x)")
      case True
      then have "i \<notin> ?R" using i by auto
      then show ?thesis using True i by (simp add: attach_simps)
    next
      case False
      show ?thesis
      proof (cases "i \<in> R")
        case True
        then show ?thesis using False i J(6) by (simp add: attach_simps)
      next
        case nr: False
        then show ?thesis using False i J(7) by (simp add: attach_simps)
      qed
    qed
    moreover have "op_id (?ns ! i) = i" "distinct (kids_at ?ns i)" "length (cols_at ?ns i) \<le> FCC_MAX_OPERATOR_NUM_COLUMNS"
      using J(1,2,5) i by (simp_all add: attach_simps)
    ultimately show ?thesis unfolding node_ok_def attach_simps(1) by blast
  qed
  have new: "node_ok ?ns ?R ?n"
  proof -
    have k: "c < ?n" if "c \<in> set (op_children x)" for c using that x(1) R by auto
    have "columns_ok (cols_at ?ns) x cs = columns_ok (cols_at ns) x cs"
      by (rule columns_ok_cong) (use k C in auto)
    then show ?thesis using cs x(2) k unfolding node_ok_def by (simp add: attach_simps)
  qed
  show ?thesis
    unfolding tree_part_def
  proof (intro conjI allI impI)
    show "length ?ns \<le> FCC_MAX_SUBPLAN_NODES" using n by (simp add: attach_simps)
    show "?R \<subseteq> {..<length ?ns}" using R by (auto simp: attach_simps)
    show "node_ok ?ns ?R i" if "i < length ?ns" for i
      using that old new by (cases "i = ?n") (auto simp: attach_simps(1))
  qed
qed

section \<open>What creating an operator does to the forest\<close>

lemma over_lists:
  "map (over ns []) [0..<length ns] = ns"
  "c < length ns \<Longrightarrow> map (over ns [c]) [0..<length ns] = ns[c := (ns ! c)\<lparr>op_parent := length ns\<rparr>]"
  "l < length ns \<Longrightarrow> r < length ns \<Longrightarrow> l \<noteq> r \<Longrightarrow>
     map (over ns [l, r]) [0..<length ns] = ns[l := (ns ! l)\<lparr>op_parent := length ns\<rparr>, r := (ns ! r)\<lparr>op_parent := length ns\<rparr>]"
  by (intro nth_equalityI; simp add: over_def nth_list_update)+

text \<open>\<open>extends sp R (r, sp') k cs\<close>: next to the roots \<open>R\<close> there is now the root \<open>r\<close> with the columns
  \<open>cs\<close>, after \<open>k\<close> more operators.\<close>

definition extends :: "fcc_subplan_t \<Rightarrow> nat set \<Rightarrow> nat \<times> fcc_subplan_t \<Rightarrow> nat \<Rightarrow> fcc_column_t list \<Rightarrow> bool" where
  "extends sp R x k cs \<longleftrightarrow> (case x of (r, sp') \<Rightarrow> tree_part (sp_nodes sp') (insert r R) \<and> r \<notin> R \<and>
     length (sp_nodes sp') = length (sp_nodes sp) + k \<and> cols_at (sp_nodes sp') r = cs \<and>
     (\<forall>i\<in>R. cols_at (sp_nodes sp') i = cols_at (sp_nodes sp) i))"

lemma extendsD:
  assumes "extends sp R (r, sp') k cs"
  shows "tree_part (sp_nodes sp') (insert r R)" "r \<notin> R" "length (sp_nodes sp') = length (sp_nodes sp) + k"
    "cols_at (sp_nodes sp') r = cs" "i \<in> R \<Longrightarrow> cols_at (sp_nodes sp') i = cols_at (sp_nodes sp) i"
    "r < length (sp_nodes sp')" "r \<noteq> FCC_INVALID_ID" "length cs \<le> FCC_MAX_OPERATOR_NUM_COLUMNS"
  using assms by (auto simp: extends_def tree_part_def node_ok_def FCC_INVALID_ID_def FCC_MAX_SUBPLAN_NODES_def)

lemma extends_trans:
  assumes "extends sp R (i, sp1) k cs" "extends sp1 R x l ds" shows "extends sp R x (k + l) ds"
  using assms by (cases x) (auto simp: extends_def)

lemma attach_extends:
  assumes t: "tree_part (sp_nodes sp) (R \<union> set (op_children x))" "R \<inter> set (op_children x) = {}" "distinct (op_children x)"
    and n: "length (sp_nodes sp) < FCC_MAX_SUBPLAN_NODES"
    and cs: "columns_ok (cols_at (sp_nodes sp)) x cs" "length cs \<le> FCC_MAX_OPERATOR_NUM_COLUMNS"
    and sp': "sp_nodes sp' = attach (sp_nodes sp) x name cs"
  shows "extends sp R (length (sp_nodes sp), sp') 1 cs"
proof -
  have R: "R \<subseteq> {..<length (sp_nodes sp)}" using t(1) by (auto simp: tree_part_def)
  have "R \<union> set (op_children x) - set (op_children x) = R" using t(2) by blast
  then have "tree_part (sp_nodes sp') (insert (length (sp_nodes sp)) R)"
    using attach_tree [OF t(1) n _ t(3) cs, of name] sp' by simp
  then show ?thesis using R sp' by (auto simp: extends_def attach_simps)
qed

lemma names_fit [simp]:
  "copy_and_check_str ''Scan'' FCC_MAX_OPERATOR_NAME = Inr ''Scan''"
  "copy_and_check_str ''Fetch'' FCC_MAX_OPERATOR_NAME = Inr ''Fetch''"
  "copy_and_check_str ''Join'' FCC_MAX_OPERATOR_NAME = Inr ''Join''"
  "copy_and_check_str ''LeftFilterJoin'' FCC_MAX_OPERATOR_NAME = Inr ''LeftFilterJoin''"
  "copy_and_check_str ''CrossJoin'' FCC_MAX_OPERATOR_NAME = Inr ''CrossJoin''"
  "copy_and_check_str ''PredicateFilter'' FCC_MAX_OPERATOR_NAME = Inr ''PredicateFilter''"
  "copy_and_check_str ''TagFilter'' FCC_MAX_OPERATOR_NAME = Inr ''TagFilter''"
  "copy_and_check_str ''ComponentFilter'' FCC_MAX_OPERATOR_NAME = Inr ''ComponentFilter''"
  "copy_and_check_str ''Foreach'' FCC_MAX_OPERATOR_NAME = Inr ''Foreach''"
  "copy_and_check_str ''Gather'' FCC_MAX_OPERATOR_NAME = Inr ''Gather''"
  "copy_and_check_str ''CascadingGather'' FCC_MAX_OPERATOR_NAME = Inr ''CascadingGather''"
  by (simp_all add: copy_and_check_str_def FCC_MAX_OPERATOR_NAME_def)

lemmas create_simps = create_operator_def set_op_parent_def copy_columns_op_def add_columns_def mark_references_def
  attach_def over_lists nth_append list_update_append nth_list_update Let_def

definition source_col :: "fcc_component_match_t \<Rightarrow> fcc_column_t" where
  "source_col c = \<lparr>co_type = (if cm_is_global c then E_GLOBAL else E_COMPONENT), co_component_type = Some (cm_type c),
     co_ref_name = None, co_access_mode = access_mode_of c\<rparr>"

definition ref_col :: "string \<Rightarrow> fcc_column_t" where
  "ref_col name = \<lparr>co_type = E_ID, co_component_type = None, co_ref_name = Some name, co_access_mode = E_READ\<rparr>"

lemma create_source_spec:
  assumes t: "tree_part (sp_nodes sp) R" and n: "length (sp_nodes sp) < FCC_MAX_SUBPLAN_NODES"
  shows "\<exists>x. create_source sp c = Inr x \<and> extends sp R x 1 [source_col c]"
proof -
  have ok: "\<not> FCC_MAX_SUBPLAN_NODES \<le> length (sp_nodes sp)" "(1 :: nat) \<le> FCC_MAX_OPERATOR_NUM_COLUMNS"
    using n by (simp_all add: FCC_MAX_OPERATOR_NUM_COLUMNS_def)
  show ?thesis
  proof (cases "cm_is_global c")
    case True
    let ?sp = "sp\<lparr>sp_nodes := attach (sp_nodes sp) FetchOp ''Fetch'' [source_col c]\<rparr>"
    have "create_source sp c = Inr (length (sp_nodes sp), ?sp)"
      using True ok by (simp add: create_source_def create_fetch_def create_simps source_col_def not_less [symmetric])
    moreover have "extends sp R (length (sp_nodes sp), ?sp) 1 [source_col c]"
      by (rule attach_extends [where x = FetchOp and name = "''Fetch''"]) (use t n ok True in \<open>simp_all add: source_col_def\<close>)
    ultimately show ?thesis by blast
  next
    case False
    let ?sp = "sp\<lparr>sp_nodes := attach (sp_nodes sp) ScanOp ''Scan'' [source_col c]\<rparr>"
    have "create_source sp c = Inr (length (sp_nodes sp), ?sp)"
      using False ok by (simp add: create_source_def create_scan_def create_simps source_col_def not_less [symmetric])
    moreover have "extends sp R (length (sp_nodes sp), ?sp) 1 [source_col c]"
      by (rule attach_extends [where x = ScanOp and name = "''Scan''"]) (use t n ok False in \<open>simp_all add: source_col_def\<close>)
    ultimately show ?thesis by blast
  qed
qed

lemma create_scan_ref_spec:
  assumes t: "tree_part (sp_nodes sp) R" and n: "length (sp_nodes sp) < FCC_MAX_SUBPLAN_NODES" and l: "length name < FCC_MAX_REF_NAME"
  shows "\<exists>x. create_scan_ref sp name = Inr x \<and> extends sp R x 1 [ref_col name]"
proof -
  have ok: "\<not> FCC_MAX_SUBPLAN_NODES \<le> length (sp_nodes sp)" "(1 :: nat) \<le> FCC_MAX_OPERATOR_NUM_COLUMNS"
    "copy_and_check_str name FCC_MAX_REF_NAME = Inr name"
    using n l by (simp_all add: FCC_MAX_OPERATOR_NUM_COLUMNS_def copy_and_check_str_def)
  let ?sp = "sp\<lparr>sp_nodes := attach (sp_nodes sp) ScanOp ''Scan'' [ref_col name]\<rparr>"
  have "create_scan_ref sp name = Inr (length (sp_nodes sp), ?sp)"
    using ok by (simp add: create_scan_ref_def create_simps ref_col_def not_less [symmetric])
  moreover have "extends sp R (length (sp_nodes sp), ?sp) 1 [ref_col name]"
    by (rule attach_extends [where x = ScanOp and name = "''Scan''"]) (use t n ok l in \<open>simp_all add: ref_col_def\<close>)
  ultimately show ?thesis by blast
qed

lemma over_one:
  assumes "tree_part ns (insert c R)"
  shows "c < length ns" "length (cols_at ns c) \<le> FCC_MAX_OPERATOR_NUM_COLUMNS" "\<not> FCC_MAX_OPERATOR_NUM_COLUMNS < length (cols_at ns c)"
    "c \<noteq> FCC_INVALID_ID"
  using assms by (auto simp: tree_part_def node_ok_def not_less FCC_INVALID_ID_def FCC_MAX_SUBPLAN_NODES_def)

lemma create_predicate_filter_spec:
  assumes t: "tree_part (sp_nodes sp) (insert c R)" "c \<notin> R" and n: "length (sp_nodes sp) < FCC_MAX_SUBPLAN_NODES"
  shows "\<exists>x. create_predicate_filter sp c f = Inr x \<and> extends sp R x 1 (cols_at (sp_nodes sp) c)"
proof -
  note c = over_one [OF t(1)] and n' = n [folded not_le]
  let ?sp = "sp\<lparr>sp_nodes := attach (sp_nodes sp) (PredicateFilterOp c f) ''PredicateFilter'' (cols_at (sp_nodes sp) c)\<rparr>"
  have "create_predicate_filter sp c f = Inr (length (sp_nodes sp), ?sp)"
    using n' c by (simp add: create_predicate_filter_def create_simps)
  moreover have "extends sp R (length (sp_nodes sp), ?sp) 1 (cols_at (sp_nodes sp) c)"
    by (rule attach_extends [where x = "PredicateFilterOp c f" and name = "''PredicateFilter''"]) (use t n c in simp_all)
  ultimately show ?thesis by blast
qed

lemma create_component_filter_spec:
  assumes t: "tree_part (sp_nodes sp) (insert c R)" "c \<notin> R" and n: "length (sp_nodes sp) < FCC_MAX_SUBPLAN_NODES"
  shows "\<exists>x. create_component_filter sp c ty p on_column = Inr x \<and> extends sp R x 1 (cols_at (sp_nodes sp) c)"
proof -
  note c = over_one [OF t(1)] and n' = n [folded not_le]
  let ?sp = "sp\<lparr>sp_nodes := attach (sp_nodes sp) (ComponentFilterOp c ty on_column p) ''ComponentFilter'' (cols_at (sp_nodes sp) c)\<rparr>"
  have "create_component_filter sp c ty p on_column = Inr (length (sp_nodes sp), ?sp)"
    using n' c by (simp add: create_component_filter_def create_simps)
  moreover have "extends sp R (length (sp_nodes sp), ?sp) 1 (cols_at (sp_nodes sp) c)"
    by (rule attach_extends [where x = "ComponentFilterOp c ty on_column p" and name = "''ComponentFilter''"]) (use t n c in simp_all)
  ultimately show ?thesis by blast
qed

lemma create_tag_filter_spec:
  assumes t: "tree_part (sp_nodes sp) (insert c R)" "c \<notin> R" and n: "length (sp_nodes sp) < FCC_MAX_SUBPLAN_NODES" and l: "length tag < FCC_MAX_TAG_NAME"
  shows "\<exists>x. create_tag_filter sp c tag p on_column = Inr x \<and> extends sp R x 1 (cols_at (sp_nodes sp) c)"
proof -
  note c = over_one [OF t(1)] and n' = n [folded not_le]
  let ?sp = "sp\<lparr>sp_nodes := attach (sp_nodes sp) (TagFilterOp c tag on_column p) ''TagFilter'' (cols_at (sp_nodes sp) c)\<rparr>"
  have "create_tag_filter sp c tag p on_column = Inr (length (sp_nodes sp), ?sp)"
    using n' c l by (simp add: create_tag_filter_def create_simps copy_and_check_str_def [of tag])
  moreover have "extends sp R (length (sp_nodes sp), ?sp) 1 (cols_at (sp_nodes sp) c)"
    by (rule attach_extends [where x = "TagFilterOp c tag on_column p" and name = "''TagFilter''"]) (use t n c l in simp_all)
  ultimately show ?thesis by blast
qed

lemma create_foreach_spec:
  assumes t: "tree_part (sp_nodes sp) (insert c R)" "c \<notin> R" and n: "length (sp_nodes sp) < FCC_MAX_SUBPLAN_NODES"
  shows "\<exists>x. create_foreach sp c sys = Inr x \<and> extends sp R x 1 (cols_at (sp_nodes sp) c)"
proof -
  note c = over_one [OF t(1)] and n' = n [folded not_le]
  let ?sp = "sp\<lparr>sp_nodes := attach (sp_nodes sp) (ForeachOp c sys) ''Foreach'' (cols_at (sp_nodes sp) c)\<rparr>"
  have "create_foreach sp c sys = Inr (length (sp_nodes sp), ?sp)"
    using n' c by (simp add: create_foreach_def create_simps)
  moreover have "extends sp R (length (sp_nodes sp), ?sp) 1 (cols_at (sp_nodes sp) c)"
    by (rule attach_extends [where x = "ForeachOp c sys" and name = "''Foreach''"]) (use t n c in simp_all)
  ultimately show ?thesis by blast
qed

lemma create_join_spec:
  assumes t: "tree_part (sp_nodes sp) (insert l (insert r R))" "l \<notin> R" "r \<notin> R" "l \<noteq> r"
    and n: "length (sp_nodes sp) < FCC_MAX_SUBPLAN_NODES"
    and w: "length (cols_at (sp_nodes sp) l) + length (cols_at (sp_nodes sp) r) \<le> FCC_MAX_OPERATOR_NUM_COLUMNS"
  shows "\<exists>x. create_join sp l r = Inr x \<and> extends sp R x 1 (cols_at (sp_nodes sp) l @ cols_at (sp_nodes sp) r)"
proof -
  note l = over_one [OF t(1)] and r = over_one [OF t(1) [unfolded insert_commute [of l r]]] and n' = n [folded not_le]
  let ?sp = "sp\<lparr>sp_nodes := attach (sp_nodes sp) (JoinOp l r) ''Join'' (cols_at (sp_nodes sp) l @ cols_at (sp_nodes sp) r)\<rparr>"
  have "create_join sp l r = Inr (length (sp_nodes sp), ?sp)"
    using n' l r t(4) w by (simp add: create_join_def create_simps list_update_swap)
  moreover have "extends sp R (length (sp_nodes sp), ?sp) 1 (cols_at (sp_nodes sp) l @ cols_at (sp_nodes sp) r)"
    by (rule attach_extends [where x = "JoinOp l r" and name = "''Join''"]) (use t n l w in simp_all)
  ultimately show ?thesis by blast
qed

lemma create_cross_join_spec:
  assumes t: "tree_part (sp_nodes sp) (insert l (insert r R))" "l \<notin> R" "r \<notin> R" "l \<noteq> r"
    and n: "length (sp_nodes sp) < FCC_MAX_SUBPLAN_NODES"
    and w: "length (cols_at (sp_nodes sp) l) + length (cols_at (sp_nodes sp) r) \<le> FCC_MAX_OPERATOR_NUM_COLUMNS"
  shows "\<exists>x. create_cross_join sp l r = Inr x \<and> extends sp R x 1 (cols_at (sp_nodes sp) l @ cols_at (sp_nodes sp) r)"
proof -
  note l = over_one [OF t(1)] and r = over_one [OF t(1) [unfolded insert_commute [of l r]]] and n' = n [folded not_le]
  let ?sp = "sp\<lparr>sp_nodes := attach (sp_nodes sp) (CrossJoinOp l r) ''CrossJoin'' (cols_at (sp_nodes sp) l @ cols_at (sp_nodes sp) r)\<rparr>"
  have "create_cross_join sp l r = Inr (length (sp_nodes sp), ?sp)"
    using n' l r t(4) w by (simp add: create_cross_join_def create_simps list_update_swap)
  moreover have "extends sp R (length (sp_nodes sp), ?sp) 1 (cols_at (sp_nodes sp) l @ cols_at (sp_nodes sp) r)"
    by (rule attach_extends [where x = "CrossJoinOp l r" and name = "''CrossJoin''"]) (use t n l w in simp_all)
  ultimately show ?thesis by blast
qed

lemma create_leftfilter_join_spec:
  assumes t: "tree_part (sp_nodes sp) (insert l (insert r R))" "l \<notin> R" "r \<notin> R" "l \<noteq> r"
    and n: "length (sp_nodes sp) < FCC_MAX_SUBPLAN_NODES"
  shows "\<exists>x. create_leftfilter_join sp l r = Inr x \<and> extends sp R x 1 (cols_at (sp_nodes sp) l)"
proof -
  note l = over_one [OF t(1)] and r = over_one [OF t(1) [unfolded insert_commute [of l r]]] and n' = n [folded not_le]
  let ?sp = "sp\<lparr>sp_nodes := attach (sp_nodes sp) (LeftFilterJoinOp l r) ''LeftFilterJoin'' (cols_at (sp_nodes sp) l)\<rparr>"
  have "create_leftfilter_join sp l r = Inr (length (sp_nodes sp), ?sp)"
    using n' l r t(4) by (simp add: create_leftfilter_join_def create_simps list_update_swap)
  moreover have "extends sp R (length (sp_nodes sp), ?sp) 1 (cols_at (sp_nodes sp) l)"
    by (rule attach_extends [where x = "LeftFilterJoinOp l r" and name = "''LeftFilterJoin''"]) (use t n l in simp_all)
  ultimately show ?thesis by blast
qed

lemma create_gather_spec:
  assumes t: "tree_part (sp_nodes sp) (insert l (insert r R))" "l \<notin> R" "r \<notin> R" "l \<noteq> r"
    and n: "length (sp_nodes sp) < FCC_MAX_SUBPLAN_NODES"
  shows "\<exists>x. create_gather sp l r = Inr x \<and> extends sp R x 1 (map mark_reference (cols_at (sp_nodes sp) l))"
proof -
  note l = over_one [OF t(1)] and r = over_one [OF t(1) [unfolded insert_commute [of l r]]] and n' = n [folded not_le]
  let ?sp = "sp\<lparr>sp_nodes := attach (sp_nodes sp) (GatherOp l r) ''Gather'' (map mark_reference (cols_at (sp_nodes sp) l))\<rparr>"
  have "create_gather sp l r = Inr (length (sp_nodes sp), ?sp)"
    using n' l r t(4) by (simp add: create_gather_def create_simps list_update_swap)
  moreover have "extends sp R (length (sp_nodes sp), ?sp) 1 (map mark_reference (cols_at (sp_nodes sp) l))"
    by (rule attach_extends [where x = "GatherOp l r" and name = "''Gather''"]) (use t n l in simp_all)
  ultimately show ?thesis by blast
qed

lemma create_cascading_gather_spec:
  assumes t: "tree_part (sp_nodes sp) (insert l (insert r R))" "l \<notin> R" "r \<notin> R" "l \<noteq> r"
    and n: "length (sp_nodes sp) < FCC_MAX_SUBPLAN_NODES"
  shows "\<exists>x. create_cascading_gather sp l r = Inr x \<and> extends sp R x 1 (map mark_reference (cols_at (sp_nodes sp) l))"
proof -
  note l = over_one [OF t(1)] and r = over_one [OF t(1) [unfolded insert_commute [of l r]]] and n' = n [folded not_le]
  let ?sp = "sp\<lparr>sp_nodes := attach (sp_nodes sp) (CascadingGatherOp l r) ''CascadingGather'' (map mark_reference (cols_at (sp_nodes sp) l))\<rparr>"
  have "create_cascading_gather sp l r = Inr (length (sp_nodes sp), ?sp)"
    using n' l r t(4) by (simp add: create_cascading_gather_def create_simps list_update_swap)
  moreover have "extends sp R (length (sp_nodes sp), ?sp) 1 (map mark_reference (cols_at (sp_nodes sp) l))"
    by (rule attach_extends [where x = "CascadingGatherOp l r" and name = "''CascadingGather''"]) (use t n l in simp_all)
  ultimately show ?thesis by blast
qed

section \<open>Filters and joins\<close>

lemma each_over_spec:
  assumes step: "\<And>sp c x. x \<in> set xs \<Longrightarrow> tree_part (sp_nodes sp) (insert c R) \<Longrightarrow> c \<notin> R \<Longrightarrow>
      length (sp_nodes sp) < FCC_MAX_SUBPLAN_NODES \<Longrightarrow>
      \<exists>y. create sp c x = Inr y \<and> extends sp R y 1 (cols_at (sp_nodes sp) c)"
    and t: "tree_part (sp_nodes sp) (insert c R)" "c \<notin> R"
    and n: "length (sp_nodes sp) + length xs \<le> FCC_MAX_SUBPLAN_NODES"
  shows "\<exists>y. each_over create xs (c, sp) = Inr y \<and> extends sp R y (length xs) (cols_at (sp_nodes sp) c)"
  using assms
proof (induction xs arbitrary: c sp)
  case Nil
  then show ?case by (simp add: extends_def)
next
  case (Cons x xs)
  have "\<exists>y. create sp c x = Inr y \<and> extends sp R y 1 (cols_at (sp_nodes sp) c)"
    by (rule Cons.prems(1)) (use Cons.prems in simp_all)
  then obtain d sp1 where 1: "create sp c x = Inr (d, sp1)" "extends sp R (d, sp1) 1 (cols_at (sp_nodes sp) c)" by auto
  note E = extendsD [OF 1(2)]
  have "\<exists>y. each_over create xs (d, sp1) = Inr y \<and> extends sp1 R y (length xs) (cols_at (sp_nodes sp1) d)"
    by (rule Cons.IH [OF _ E(1,2)]) (use Cons.prems E(3) in simp_all)
  then obtain y where 2: "each_over create xs (d, sp1) = Inr y" "extends sp1 R y (length xs) (cols_at (sp_nodes sp) c)"
    unfolding E(4) by blast
  from extends_trans [OF 1(2) 2(2)] show ?case using 1(1) 2(1) by simp
qed

definition match_filters :: "fcc_entity_match_t \<Rightarrow> nat" where
  "match_filters em = length (em_has_not_tags em) + length (em_has_tags em) +
     length (em_has_not_components em) + length (em_has_components em)"

definition tags_fit :: "fcc_entity_match_t \<Rightarrow> bool" where
  "tags_fit em \<longleftrightarrow> (\<forall>t\<in>set (em_has_not_tags em) \<union> set (em_has_tags em). length t < FCC_MAX_TAG_NAME)"

lemma filters_on_spec:
  assumes t: "tree_part (sp_nodes sp) (insert c R)" "c \<notin> R"
    and n: "length (sp_nodes sp) + match_filters em \<le> FCC_MAX_SUBPLAN_NODES" and tf: "tags_fit em"
  shows "\<exists>y. filters_on on_column sp em c = Inr y \<and> extends sp R y (match_filters em) (cols_at (sp_nodes sp) c)"
proof -
  let ?cs = "cols_at (sp_nodes sp) c"
  have "\<exists>y. each_over (\<lambda>sp r t. create_tag_filter sp r t E_HAS_NOT on_column) (em_has_not_tags em) (c, sp) = Inr y \<and>
      extends sp R y (length (em_has_not_tags em)) ?cs"
    by (rule each_over_spec [OF create_tag_filter_spec t]) (use n tf in \<open>auto simp: match_filters_def tags_fit_def\<close>)
  then obtain c1 sp1 where 1: "each_over (\<lambda>sp r t. create_tag_filter sp r t E_HAS_NOT on_column) (em_has_not_tags em) (c, sp) = Inr (c1, sp1)"
    "extends sp R (c1, sp1) (length (em_has_not_tags em)) ?cs" by auto
  note E1 = extendsD [OF 1(2)]
  have "\<exists>y. each_over (\<lambda>sp r t. create_tag_filter sp r t E_HAS on_column) (em_has_tags em) (c1, sp1) = Inr y \<and>
      extends sp1 R y (length (em_has_tags em)) (cols_at (sp_nodes sp1) c1)"
    by (rule each_over_spec [OF create_tag_filter_spec E1(1,2)])
      (use n tf E1(3) in \<open>auto simp: match_filters_def tags_fit_def\<close>)
  then obtain c2 sp2 where 2: "each_over (\<lambda>sp r t. create_tag_filter sp r t E_HAS on_column) (em_has_tags em) (c1, sp1) = Inr (c2, sp2)"
    "extends sp1 R (c2, sp2) (length (em_has_tags em)) ?cs" unfolding E1(4) by auto
  note E2 = extendsD [OF 2(2)]
  have "\<exists>y. each_over (\<lambda>sp r t. create_component_filter sp r t E_HAS_NOT on_column) (em_has_not_components em) (c2, sp2) = Inr y \<and>
      extends sp2 R y (length (em_has_not_components em)) (cols_at (sp_nodes sp2) c2)"
    by (rule each_over_spec [OF create_component_filter_spec E2(1,2)]) (use n E1(3) E2(3) in \<open>auto simp: match_filters_def\<close>)
  then obtain c3 sp3 where
    3: "each_over (\<lambda>sp r t. create_component_filter sp r t E_HAS_NOT on_column) (em_has_not_components em) (c2, sp2) = Inr (c3, sp3)"
      "extends sp2 R (c3, sp3) (length (em_has_not_components em)) ?cs" unfolding E2(4) by auto
  note E3 = extendsD [OF 3(2)]
  have "\<exists>y. each_over (\<lambda>sp r t. create_component_filter sp r t E_HAS on_column) (em_has_components em) (c3, sp3) = Inr y \<and>
      extends sp3 R y (length (em_has_components em)) (cols_at (sp_nodes sp3) c3)"
    by (rule each_over_spec [OF create_component_filter_spec E3(1,2)]) (use n E1(3) E2(3) E3(3) in \<open>auto simp: match_filters_def\<close>)
  then obtain y where 4: "each_over (\<lambda>sp r t. create_component_filter sp r t E_HAS on_column) (em_has_components em) (c3, sp3) = Inr y"
    "extends sp3 R y (length (em_has_components em)) ?cs" unfolding E3(4) by auto
  have "extends sp R y (match_filters em) ?cs"
    unfolding match_filters_def using extends_trans [OF extends_trans [OF extends_trans [OF 1(2) 2(2)] 3(2)] 4(2)] by simp
  then show ?thesis using 1(1) 2(1) 3(1) 4(1) by (simp add: filters_on_def)
qed

lemma join_components_spec:
  assumes t: "tree_part (sp_nodes sp) (insert l R)" "l \<notin> R"
    and n: "length (sp_nodes sp) + 2 * length cs \<le> FCC_MAX_SUBPLAN_NODES"
    and w: "length (cols_at (sp_nodes sp) l) + length cs \<le> FCC_MAX_OPERATOR_NUM_COLUMNS"
  shows "\<exists>y. join_components cs (l, sp) = Inr y \<and>
    extends sp R y (2 * length cs) (cols_at (sp_nodes sp) l @ map source_col cs)"
  using assms
proof (induction cs arbitrary: l sp)
  case Nil
  then show ?case by (simp add: extends_def)
next
  case (Cons c cs)
  from create_source_spec [OF Cons.prems(1), of c] Cons.prems(3) obtain r sp1 where
    1: "create_source sp c = Inr (r, sp1)" "extends sp (insert l R) (r, sp1) 1 [source_col c]" by auto
  note E = extendsD [OF 1(2)]
  have t1: "tree_part (sp_nodes sp1) (insert l (insert r R))" using E(1) by (simp add: insert_commute)
  have lr: "l \<noteq> r" "r \<notin> R" using E(2) by auto
  have cl: "cols_at (sp_nodes sp1) l = cols_at (sp_nodes sp) l" by (rule E(5)) simp
  have n1: "length (sp_nodes sp1) < FCC_MAX_SUBPLAN_NODES" using Cons.prems(3) E(3) by simp
  have w1: "length (cols_at (sp_nodes sp1) l) + length (cols_at (sp_nodes sp1) r) \<le> FCC_MAX_OPERATOR_NUM_COLUMNS"
    using Cons.prems(4) E(4) cl by simp
  have in1: "l < length (sp_nodes sp1)" "r < length (sp_nodes sp1)" "l \<noteq> FCC_INVALID_ID"
    using over_one(1,4) [OF t1] E(6) by simp_all
  let ?new = "\<lambda>f. if f then create_cross_join sp1 l r else create_join sp1 l r"
  have "\<exists>y. ?new f = Inr y \<and> extends sp1 R y 1 (cols_at (sp_nodes sp1) l @ cols_at (sp_nodes sp1) r)" for f
    using create_join_spec [OF t1 Cons.prems(2) lr(2,1) n1 w1] create_cross_join_spec [OF t1 Cons.prems(2) lr(2,1) n1 w1] by simp
  then obtain m sp2 where 2: "?new (is_fetch (sp_nodes sp1 ! l) \<or> is_fetch (sp_nodes sp1 ! r)) = Inr (m, sp2)"
    "extends sp1 R (m, sp2) 1 (cols_at (sp_nodes sp) l @ [source_col c])" unfolding cl E(4) by (metis surj_pair)
  note F = extendsD [OF 2(2)]
  have "\<exists>y. join_components cs (m, sp2) = Inr y \<and>
    extends sp2 R y (2 * length cs) (cols_at (sp_nodes sp2) m @ map source_col cs)"
    by (rule Cons.IH [OF F(1,2)]) (use Cons.prems(3,4) E(3) F(3,4) in simp_all)
  then obtain y where 3: "join_components cs (m, sp2) = Inr y"
    "extends sp2 R y (2 * length cs) ((cols_at (sp_nodes sp) l @ [source_col c]) @ map source_col cs)" unfolding F(4) by blast
  have "extends sp R (m, sp2) 2 (cols_at (sp_nodes sp) l @ [source_col c])"
    using 1(2) 2(2) by (auto simp: extends_def)
  from extends_trans [OF this 3(2)] have "extends sp R y (2 * length (c # cs)) (cols_at (sp_nodes sp) l @ map source_col (c # cs))"
    by simp
  then show ?case using 1(1) 2(1) 3(1) in1 by simp
qed

lemma join_all_spec:
  assumes t: "tree_part (sp_nodes sp) R" and ne: "cs \<noteq> []"
    and n: "length (sp_nodes sp) + (2 * length cs - 1) \<le> FCC_MAX_SUBPLAN_NODES" and w: "length cs \<le> FCC_MAX_OPERATOR_NUM_COLUMNS"
  shows "\<exists>y. join_components cs (FCC_INVALID_ID, sp) = Inr y \<and> extends sp R y (2 * length cs - 1) (map source_col cs)"
proof -
  obtain c ds where cs: "cs = c # ds" using ne by (cases cs) auto
  from create_source_spec [OF t, of c] n cs obtain r sp1 where
    1: "create_source sp c = Inr (r, sp1)" "extends sp R (r, sp1) 1 [source_col c]" by auto
  note E = extendsD [OF 1(2)]
  have "\<exists>y. join_components ds (r, sp1) = Inr y \<and>
    extends sp1 R y (2 * length ds) (cols_at (sp_nodes sp1) r @ map source_col ds)"
    by (rule join_components_spec [OF E(1,2)]) (use n w cs E(3,4) in simp_all)
  then obtain y where 2: "join_components ds (r, sp1) = Inr y"
    "extends sp1 R y (2 * length ds) ([source_col c] @ map source_col ds)" unfolding E(4) by blast
  from extends_trans [OF 1(2) 2(2)] show ?thesis using 1(1) 2(1) by (simp add: cs)
qed

section \<open>The plan of a statement\<close>

definition match_nodes :: "fcc_entity_match_t \<Rightarrow> nat" where
  "match_nodes em = (if em_cmatches em = [] then 1
     else 2 * length (em_cmatches em) - 1 + (if em_from_expand em then 2 else 0)) + match_filters em"

definition match_columns :: "fcc_entity_match_t \<Rightarrow> fcc_column_t list" where
  "match_columns em = (if em_cmatches em = [] then [ref_col (em_ref_name em)]
     else if em_from_expand em then map (mark_reference \<circ> source_col) (em_cmatches em)
     else map source_col (em_cmatches em))"

definition match_fits :: "fcc_entity_match_t \<Rightarrow> bool" where
  "match_fits em \<longleftrightarrow> (em_cmatches em \<noteq> [] \<or> em_from_expand em) \<and> tags_fit em \<and> length (em_ref_name em) < FCC_MAX_REF_NAME"

text \<open>The plan of one match, before it is joined with the plan of the matches after it.\<close>

definition match_plan ::
  "(fcc_type_t \<Rightarrow> string) \<Rightarrow> (fcc_type_t \<Rightarrow> fcc_access_mode_t) \<Rightarrow> fcc_entity_match_t \<Rightarrow> fcc_entity_match_t \<Rightarrow>
   fcc_subplan_t \<Rightarrow> (bool \<times> nat \<times> fcc_subplan_t) res" where
  "match_plan tname tmode last_em em subplan =
     bind_res (join_components (em_cmatches em) (FCC_INVALID_ID, subplan)) (\<lambda>(local_root, subplan).
     bind_res (if local_root \<noteq> FCC_INVALID_ID then apply_filters subplan em local_root
               else Inr (local_root, subplan)) (\<lambda>(local_root, subplan).
     let non_component_expand = (local_root = FCC_INVALID_ID) in
     bind_res (if em_from_expand em then
                 bind_res (create_scan_ref subplan (em_ref_name em)) (\<lambda>(ref_scan, subplan).
                 if \<not> non_component_expand then
                   bind_res (if cascades tname tmode em last_em then create_cascading_gather subplan local_root ref_scan
                             else create_gather subplan local_root ref_scan) (\<lambda>(local_root, subplan).
                   Inr (local_root, subplan\<lparr>sp_requires_sync := True\<rparr>))
                 else apply_filters_reference subplan em ref_scan)
               else Inr (local_root, subplan)) (\<lambda>x. Inr (non_component_expand, x))))"

lemma add_entity_match_plan:
  "add_entity_match tname tmode last_em em (root, subplan) =
     bind_res (match_plan tname tmode last_em em subplan) (\<lambda>(non_component_expand, local_root, subplan).
     bind_res (if root = FCC_INVALID_ID then Inr (local_root, subplan)
               else if non_component_expand then create_leftfilter_join subplan root local_root
               else create_join subplan root local_root) (\<lambda>(root, subplan).
     apply_predicate_filters subplan em root))"
  by (simp only: add_entity_match_def match_plan_def Let_def case_prod_unfold bind_res_assoc fst_conv snd_conv bind_res.simps)

lemma match_plan_spec:
  assumes t: "tree_part (sp_nodes sp) R" and m: "match_fits em"
    and n: "length (sp_nodes sp) + match_nodes em \<le> FCC_MAX_SUBPLAN_NODES"
    and w: "length (em_cmatches em) \<le> FCC_MAX_OPERATOR_NUM_COLUMNS"
  shows "\<exists>y. match_plan tname tmode last_em em sp = Inr (em_cmatches em = [], y) \<and>
    extends sp R y (match_nodes em) (match_columns em)"
proof (cases "em_cmatches em = []")
  case True
  then have f: "em_from_expand em" using m by (simp add: match_fits_def)
  from create_scan_ref_spec [OF t, of "em_ref_name em"] m n True obtain r sp1 where
    1: "create_scan_ref sp (em_ref_name em) = Inr (r, sp1)" "extends sp R (r, sp1) 1 [ref_col (em_ref_name em)]"
    by (auto simp: match_fits_def match_nodes_def)
  note E = extendsD [OF 1(2)]
  have "\<exists>y. filters_on True sp1 em r = Inr y \<and> extends sp1 R y (match_filters em) (cols_at (sp_nodes sp1) r)"
    by (rule filters_on_spec [OF E(1,2)]) (use n E(3) True m in \<open>auto simp: match_nodes_def match_fits_def\<close>)
  then obtain y where 2: "filters_on True sp1 em r = Inr y" "extends sp1 R y (match_filters em) [ref_col (em_ref_name em)]"
    unfolding E(4) by blast
  from extends_trans [OF 1(2) 2(2)] show ?thesis using True f 1(1) 2(1)
    by (simp add: match_plan_def match_nodes_def match_columns_def apply_filters_reference_def Let_def)
next
  case False
  have "\<exists>y. join_components (em_cmatches em) (FCC_INVALID_ID, sp) = Inr y \<and>
      extends sp R y (2 * length (em_cmatches em) - 1) (map source_col (em_cmatches em))"
    by (rule join_all_spec [OF t False _ w]) (use n False in \<open>simp add: match_nodes_def\<close>)
  then obtain r sp1 where 1: "join_components (em_cmatches em) (FCC_INVALID_ID, sp) = Inr (r, sp1)"
    "extends sp R (r, sp1) (2 * length (em_cmatches em) - 1) (map source_col (em_cmatches em))" by auto
  note E = extendsD [OF 1(2)]
  have "\<exists>y. filters_on False sp1 em r = Inr y \<and> extends sp1 R y (match_filters em) (cols_at (sp_nodes sp1) r)"
    by (rule filters_on_spec [OF E(1,2)]) (use n E(3) False m in \<open>auto simp: match_nodes_def match_fits_def\<close>)
  then obtain l sp2 where 2: "filters_on False sp1 em r = Inr (l, sp2)"
    "extends sp1 R (l, sp2) (match_filters em) (map source_col (em_cmatches em))" unfolding E(4) by auto
  have 12: "extends sp R (l, sp2) (2 * length (em_cmatches em) - 1 + match_filters em) (map source_col (em_cmatches em))"
    by (rule extends_trans [OF 1(2) 2(2)])
  note F = extendsD [OF 12]
  show ?thesis
  proof (cases "em_from_expand em")
    case ne: False
    then show ?thesis using 12 1(1) 2(1) False E(7) F(7)
      by (simp add: match_plan_def match_nodes_def match_columns_def apply_filters_def Let_def)
  next
    case True
    have n2: "length (sp_nodes sp2) + 2 \<le> FCC_MAX_SUBPLAN_NODES"
      using n F(3) False True by (cases "em_cmatches em") (simp_all add: match_nodes_def)
    from create_scan_ref_spec [OF F(1), of "em_ref_name em"] m n2 obtain q sp3 where
      3: "create_scan_ref sp2 (em_ref_name em) = Inr (q, sp3)" "extends sp2 (insert l R) (q, sp3) 1 [ref_col (em_ref_name em)]"
      by (auto simp: match_fits_def)
    note G = extendsD [OF 3(2)]
    have t3: "tree_part (sp_nodes sp3) (insert l (insert q R))" using G(1) by (simp add: insert_commute)
    have lq: "q \<notin> R" "l \<noteq> q" using G(2) by auto
    have n3: "length (sp_nodes sp3) < FCC_MAX_SUBPLAN_NODES" using n2 G(3) by simp
    have cl: "cols_at (sp_nodes sp3) l = map source_col (em_cmatches em)" using G(5) [of l] F(4) by simp
    let ?new = "\<lambda>b. if b then create_cascading_gather sp3 l q else create_gather sp3 l q"
    have "\<exists>y. ?new b = Inr y \<and> extends sp3 R y 1 (map mark_reference (cols_at (sp_nodes sp3) l))" for b
      using create_gather_spec [OF t3 F(2) lq n3] create_cascading_gather_spec [OF t3 F(2) lq n3] by simp
    then obtain g sp4 where 4: "?new (cascades tname tmode em last_em) = Inr (g, sp4)"
      "extends sp3 R (g, sp4) 1 (map mark_reference (map source_col (em_cmatches em)))" unfolding cl by (metis surj_pair)
    let ?sp = "sp4\<lparr>sp_requires_sync := True\<rparr>"
    have "extends sp R (g, ?sp) (match_nodes em) (match_columns em)"
      using 12 3(2) 4(2) False True by (auto simp: extends_def match_nodes_def match_columns_def)
    moreover have "match_plan tname tmode last_em em sp = Inr (False, g, ?sp)"
      using 1(1) 2(1) 3(1) 4(1) True E(7) F(7) by (simp add: match_plan_def apply_filters_def Let_def)
    ultimately show ?thesis using False by auto
  qed
qed

definition next_columns :: "fcc_column_t list \<Rightarrow> fcc_entity_match_t \<Rightarrow> fcc_column_t list" where
  "next_columns cs em = (if em_cmatches em = [] then cs else cs @ match_columns em)"

lemma predicates_spec:
  assumes t: "tree_part (sp_nodes sp) {c}" and n: "length (sp_nodes sp) + length (em_filter_func em) \<le> FCC_MAX_SUBPLAN_NODES"
  shows "\<exists>y. apply_predicate_filters sp em c = Inr y \<and> extends sp {} y (length (em_filter_func em)) (cols_at (sp_nodes sp) c)"
  unfolding apply_predicate_filters_def
  by (rule each_over_spec [OF create_predicate_filter_spec]) (use t n in simp_all)

lemma first_match_spec:
  assumes m: "match_fits em" and n: "match_nodes em + length (em_filter_func em) \<le> FCC_MAX_SUBPLAN_NODES"
    and w: "length (em_cmatches em) \<le> FCC_MAX_OPERATOR_NUM_COLUMNS"
  shows "\<exists>y. add_entity_match tname tmode last_em em (FCC_INVALID_ID, empty_subplan) = Inr y \<and>
    extends empty_subplan {} y (match_nodes em + length (em_filter_func em)) (match_columns em)"
proof -
  have t: "tree_part (sp_nodes empty_subplan) {}" by (simp add: tree_part_def empty_subplan_def)
  have "length (sp_nodes empty_subplan) + match_nodes em \<le> FCC_MAX_SUBPLAN_NODES" using n by (simp add: empty_subplan_def)
  from match_plan_spec [OF t m this w, of tname tmode last_em] obtain l sp1 where
    1: "match_plan tname tmode last_em em empty_subplan = Inr (em_cmatches em = [], l, sp1)"
      "extends empty_subplan {} (l, sp1) (match_nodes em) (match_columns em)" by auto
  note E = extendsD [OF 1(2)]
  have "\<exists>y. apply_predicate_filters sp1 em l = Inr y \<and> extends sp1 {} y (length (em_filter_func em)) (cols_at (sp_nodes sp1) l)"
    by (rule predicates_spec [OF E(1)]) (use n E(3) in \<open>simp add: empty_subplan_def\<close>)
  then obtain y where 2: "apply_predicate_filters sp1 em l = Inr y" "extends sp1 {} y (length (em_filter_func em)) (match_columns em)"
    unfolding E(4) by blast
  from extends_trans [OF 1(2) 2(2)] show ?thesis using 1(1) 2(1) by (simp add: add_entity_match_plan)
qed

lemma next_match_spec:
  assumes t: "tree_part (sp_nodes sp) {root}" and m: "match_fits em"
    and n: "length (sp_nodes sp) + match_nodes em + 1 + length (em_filter_func em) \<le> FCC_MAX_SUBPLAN_NODES"
    and w: "length (next_columns (cols_at (sp_nodes sp) root) em) \<le> FCC_MAX_OPERATOR_NUM_COLUMNS"
  shows "\<exists>y. add_entity_match tname tmode last_em em (root, sp) = Inr y \<and>
    extends sp {} y (match_nodes em + 1 + length (em_filter_func em)) (next_columns (cols_at (sp_nodes sp) root) em)"
proof -
  have len: "length (em_cmatches em) \<le> FCC_MAX_OPERATOR_NUM_COLUMNS"
    using w by (auto simp: next_columns_def match_columns_def split: if_splits)
  have n0: "length (sp_nodes sp) + match_nodes em \<le> FCC_MAX_SUBPLAN_NODES" using n by simp
  from match_plan_spec [OF t m n0 len, of tname tmode last_em] obtain l sp1 where
    1: "match_plan tname tmode last_em em sp = Inr (em_cmatches em = [], l, sp1)"
      "extends sp {root} (l, sp1) (match_nodes em) (match_columns em)" by auto
  note E = extendsD [OF 1(2)]
  have t1: "tree_part (sp_nodes sp1) (insert root (insert l {}))" "root \<noteq> l" using E(1,2) by (auto simp: insert_commute)
  have n1: "length (sp_nodes sp1) < FCC_MAX_SUBPLAN_NODES" using n E(3) by simp
  have cr: "cols_at (sp_nodes sp1) root = cols_at (sp_nodes sp) root" by (rule E(5)) simp
  have rv: "root \<noteq> FCC_INVALID_ID" using over_one(4) [OF t1(1)] .
  let ?new = "if em_cmatches em = [] then create_leftfilter_join sp1 root l else create_join sp1 root l"
  have "\<exists>y. ?new = Inr y \<and> extends sp1 {} y 1 (next_columns (cols_at (sp_nodes sp) root) em)"
  proof (cases "em_cmatches em = []")
    case True
    then show ?thesis using create_leftfilter_join_spec [OF t1(1) _ _ t1(2) n1] cr by (simp add: next_columns_def)
  next
    case False
    then have "length (cols_at (sp_nodes sp1) root) + length (cols_at (sp_nodes sp1) l) \<le> FCC_MAX_OPERATOR_NUM_COLUMNS"
      using w E(4) cr by (simp add: next_columns_def del: length_map)
    then show ?thesis using False create_join_spec [OF t1(1) _ _ t1(2) n1] E(4) cr by (simp add: next_columns_def)
  qed
  then obtain r sp2 where 2: "?new = Inr (r, sp2)" "extends sp1 {} (r, sp2) 1 (next_columns (cols_at (sp_nodes sp) root) em)"
    by auto
  note F = extendsD [OF 2(2)]
  have "\<exists>y. apply_predicate_filters sp2 em r = Inr y \<and> extends sp2 {} y (length (em_filter_func em)) (cols_at (sp_nodes sp2) r)"
    by (rule predicates_spec [OF F(1)]) (use n E(3) F(3) in simp)
  then obtain y where 3: "apply_predicate_filters sp2 em r = Inr y"
    "extends sp2 {} y (length (em_filter_func em)) (next_columns (cols_at (sp_nodes sp) root) em)" unfolding F(4) by blast
  have "extends sp {} (r, sp2) (match_nodes em + 1) (next_columns (cols_at (sp_nodes sp) root) em)"
    using 1(2) 2(2) by (auto simp: extends_def)
  from extends_trans [OF this 3(2)] show ?thesis using 1(1) 2(1) 3(1) rv by (simp add: add_entity_match_plan)
qed


definition plan_nodes :: "fcc_entity_match_t list \<Rightarrow> nat" where
  "plan_nodes ems = (\<Sum>em\<leftarrow>ems. match_nodes em + 1 + length (em_filter_func em))"

lemma next_columns_mono: "length cs \<le> length (foldl next_columns cs ems)"
proof (induction ems arbitrary: cs)
  case (Cons em ems)
  have "length cs \<le> length (next_columns cs em)" by (simp add: next_columns_def)
  also have "\<dots> \<le> length (foldl next_columns (next_columns cs em) ems)" by (rule Cons.IH)
  finally show ?case by simp
qed simp

lemma next_matches_spec:
  "\<lbrakk>tree_part (sp_nodes sp) {root}; \<And>em. em \<in> set ems \<Longrightarrow> match_fits em;
    length (sp_nodes sp) + plan_nodes ems \<le> FCC_MAX_SUBPLAN_NODES;
    length (foldl next_columns (cols_at (sp_nodes sp) root) ems) \<le> FCC_MAX_OPERATOR_NUM_COLUMNS\<rbrakk> \<Longrightarrow>
   \<exists>y. add_entity_matches tname tmode last_em ems (root, sp) = Inr y \<and>
     extends sp {} y (plan_nodes ems) (foldl next_columns (cols_at (sp_nodes sp) root) ems)"
proof (induction ems arbitrary: root sp)
  case Nil
  then show ?case by (simp add: extends_def plan_nodes_def)
next
  case (Cons em ems)
  let ?cs = "next_columns (cols_at (sp_nodes sp) root) em"
  have w: "length ?cs \<le> FCC_MAX_OPERATOR_NUM_COLUMNS"
    using next_columns_mono [of ?cs ems] Cons.prems(4) by simp
  have n: "length (sp_nodes sp) + match_nodes em + 1 + length (em_filter_func em) \<le> FCC_MAX_SUBPLAN_NODES"
    using Cons.prems(3) by (simp add: plan_nodes_def)
  from next_match_spec [OF Cons.prems(1) Cons.prems(2) n w, of tname tmode last_em] obtain r sp1 where
    1: "add_entity_match tname tmode last_em em (root, sp) = Inr (r, sp1)"
      "extends sp {} (r, sp1) (match_nodes em + 1 + length (em_filter_func em)) ?cs" by auto
  note E = extendsD [OF 1(2)]
  have "\<exists>y. add_entity_matches tname tmode last_em ems (r, sp1) = Inr y \<and>
      extends sp1 {} y (plan_nodes ems) (foldl next_columns (cols_at (sp_nodes sp1) r) ems)"
    by (rule Cons.IH) (use E Cons.prems in \<open>simp_all add: plan_nodes_def\<close>)
  then obtain y where 2: "add_entity_matches tname tmode last_em ems (r, sp1) = Inr y"
    "extends sp1 {} y (plan_nodes ems) (foldl next_columns ?cs ems)" unfolding E(4) by blast
  from extends_trans [OF 1(2) 2(2)] show ?case using 1(1) 2(1) by (simp add: plan_nodes_def)
qed

text \<open>The columns that the system is run on: those of the last match, then those of the matches before it.\<close>

fun plan_columns :: "fcc_entity_match_t list \<Rightarrow> fcc_column_t list" where
  "plan_columns ems = (case rev ems of [] \<Rightarrow> [] | e # es \<Rightarrow> foldl next_columns (match_columns e) es)"

definition stmt_shape :: "fcc_stmt_t \<Rightarrow> bool" where
  "stmt_shape st \<longleftrightarrow> st_operation_type st = OP_FOREACH \<and> st_ematches st \<noteq> [] \<and> (\<forall>em\<in>set (st_ematches st). match_fits em) \<and>
     length (plan_columns (st_ematches st)) \<le> FCC_MAX_OPERATOR_NUM_COLUMNS"

definition stmt_fits :: "fcc_stmt_t \<Rightarrow> bool" where
  "stmt_fits st \<longleftrightarrow> stmt_shape st \<and> plan_nodes (st_ematches st) \<le> FCC_MAX_SUBPLAN_NODES"

lemma matches_spec:
  assumes "stmt_shape st" "plan_nodes (st_ematches st) \<le> Suc FCC_MAX_SUBPLAN_NODES"
  shows "\<exists>y. add_entity_matches tname tmode (last (st_ematches st)) (rev (st_ematches st)) (FCC_INVALID_ID, empty_subplan) = Inr y \<and>
    extends empty_subplan {} y (plan_nodes (st_ematches st) - 1) (plan_columns (st_ematches st))"
proof -
  obtain e es where r: "rev (st_ematches st) = e # es" using assms by (cases "rev (st_ematches st)") (auto simp: stmt_shape_def)
  have pn: "plan_nodes (st_ematches st) = plan_nodes (e # es)"
    unfolding plan_nodes_def r [symmetric] rev_map [symmetric] sum_list_rev ..
  have pc: "plan_columns (st_ematches st) = foldl next_columns (match_columns e) es" by (simp add: r)
  have fits: "match_fits em" if "em = e \<or> em \<in> set es" for em
  proof -
    have "em \<in> set (rev (st_ematches st))" unfolding r using that by auto
    then show ?thesis using assms by (simp add: stmt_shape_def)
  qed
  have n: "plan_nodes (e # es) \<le> Suc FCC_MAX_SUBPLAN_NODES" using assms(2) pn by simp
  have wc: "length (foldl next_columns (match_columns e) es) \<le> FCC_MAX_OPERATOR_NUM_COLUMNS"
    using assms pc by (simp add: stmt_shape_def)
  have "length (em_cmatches e) \<le> length (match_columns e)" by (simp add: match_columns_def)
  then have w: "length (em_cmatches e) \<le> FCC_MAX_OPERATOR_NUM_COLUMNS" using next_columns_mono [of "match_columns e" es] wc by linarith
  have n1: "match_nodes e + length (em_filter_func e) \<le> FCC_MAX_SUBPLAN_NODES" using n by (simp add: plan_nodes_def)
  from first_match_spec [OF fits n1 w, of tname tmode "last (st_ematches st)"] obtain r1 sp1 where
    1: "add_entity_match tname tmode (last (st_ematches st)) e (FCC_INVALID_ID, empty_subplan) = Inr (r1, sp1)"
      "extends empty_subplan {} (r1, sp1) (match_nodes e + length (em_filter_func e)) (match_columns e)" by auto
  note E = extendsD [OF 1(2)]
  have "\<exists>y. add_entity_matches tname tmode (last (st_ematches st)) es (r1, sp1) = Inr y \<and>
      extends sp1 {} y (plan_nodes es) (foldl next_columns (cols_at (sp_nodes sp1) r1) es)"
    by (rule next_matches_spec) (use E n wc fits in \<open>simp_all add: plan_nodes_def empty_subplan_def\<close>)
  then obtain y where 2: "add_entity_matches tname tmode (last (st_ematches st)) es (r1, sp1) = Inr y"
    "extends sp1 {} y (plan_nodes es) (foldl next_columns (match_columns e) es)" unfolding E(4) by blast
  have k: "plan_nodes (st_ematches st) - 1 = match_nodes e + length (em_filter_func e) + plan_nodes es"
    unfolding pn by (simp add: plan_nodes_def)
  from extends_trans [OF 1(2) 2(2)] show ?thesis unfolding r pc k using 1(1) 2(1) by simp
qed

lemma create_foreach_operation:
  assumes "create_foreach sp c sys = Inr (r, sp')" "c < length (sp_nodes sp)" "c \<noteq> FCC_INVALID_ID"
  shows "op_operation (sp_nodes sp' ! r) = ForeachOp c sys"
  using assms by (auto simp: create_foreach_def create_simps bind_res_Inr rd_def wr_def split: if_splits)

lemma subplan_init_run:
  assumes "stmt_fits stmt"
  shows "\<exists>child sp. subplan_init tname tmode stmt = Inr sp \<and>
    extends empty_subplan {} (sp_root sp, sp) (plan_nodes (st_ematches stmt)) (plan_columns (st_ematches stmt)) \<and>
    op_operation (sp_nodes sp ! sp_root sp) = ForeachOp child (st_system stmt)"
proof -
  have sh: "stmt_shape stmt" and le: "plan_nodes (st_ematches stmt) \<le> Suc FCC_MAX_SUBPLAN_NODES"
    using assms by (simp_all add: stmt_fits_def)
  from matches_spec [OF sh le, of tname tmode] obtain r sp where
    1: "add_entity_matches tname tmode (last (st_ematches stmt)) (rev (st_ematches stmt)) (FCC_INVALID_ID, empty_subplan) = Inr (r, sp)"
      "extends empty_subplan {} (r, sp) (plan_nodes (st_ematches stmt) - 1) (plan_columns (st_ematches stmt))" by auto
  note E = extendsD [OF 1(2)]
  have p: "0 < plan_nodes (st_ematches stmt)" "plan_nodes (st_ematches stmt) \<le> FCC_MAX_SUBPLAN_NODES"
    using assms by (cases "st_ematches stmt"; simp add: stmt_fits_def stmt_shape_def plan_nodes_def)+
  then have n: "length (sp_nodes sp) < FCC_MAX_SUBPLAN_NODES" using E(3) by (simp add: empty_subplan_def)
  from create_foreach_spec [OF E(1) _ n, of "st_system stmt"] obtain q sp' where
    2: "create_foreach sp r (st_system stmt) = Inr (q, sp')" "extends sp {} (q, sp') 1 (cols_at (sp_nodes sp) r)" by auto
  have "extends empty_subplan {} (q, sp') (plan_nodes (st_ematches stmt)) (plan_columns (st_ematches stmt))"
    using extends_trans [OF 1(2), of "(q, sp')" 1 "plan_columns (st_ematches stmt)"] 2(2) E(4) p(1) by simp
  then have "extends empty_subplan {} (q, sp'\<lparr>sp_root := q\<rparr>) (plan_nodes (st_ematches stmt)) (plan_columns (st_ematches stmt))"
    by (simp add: extends_def)
  moreover note create_foreach_operation [OF 2(1) E(6) E(7)]
  moreover have "subplan_init tname tmode stmt = Inr (sp'\<lparr>sp_root := q\<rparr>)"
    using sh by (simp add: subplan_init_def 1(1) 2(1) stmt_shape_def)
  ultimately show ?thesis by (intro exI [of _ r] exI [of _ "sp'\<lparr>sp_root := q\<rparr>"] conjI) simp_all
qed

text \<open>C6: A statement whose plan fits (at most 32 operators and 16 columns) has a well-formed plan. The operators
  form one tree: each has the index of its place, its children come before it and name it as their parent,
  the columns of each are those that its kind makes from the columns of its children, and only the root has no
  parent. The root runs the system of the statement on the columns of the matches, the last match first.\<close>

theorem subplan_init_wellformed:
  assumes "stmt_fits stmt"
  shows "\<exists>sp. subplan_init tname tmode stmt = Inr sp \<and> length (sp_nodes sp) = plan_nodes (st_ematches stmt) \<and>
    tree_part (sp_nodes sp) {sp_root sp} \<and>
    (\<exists>child. op_operation (sp_nodes sp ! sp_root sp) = ForeachOp child (st_system stmt)) \<and>
    op_columns (sp_nodes sp ! sp_root sp) = plan_columns (st_ematches stmt)"
proof -
  from subplan_init_run [OF assms, of tname tmode] obtain child sp where
    sp: "subplan_init tname tmode stmt = Inr sp" "op_operation (sp_nodes sp ! sp_root sp) = ForeachOp child (st_system stmt)"
      "extends empty_subplan {} (sp_root sp, sp) (plan_nodes (st_ematches stmt)) (plan_columns (st_ematches stmt))" by blast
  show ?thesis using sp(1,2) extendsD(1,3,4) [OF sp(3)] by (simp add: empty_subplan_def)
qed

theorem subplan_init_wellformed_witness:
  "\<exists>sp. subplan_init (\<lambda>_. ''Position'') (\<lambda>_. E_READ) demo_expand = Inr sp \<and> length (sp_nodes sp) = 9 \<and>
    tree_part (sp_nodes sp) {sp_root sp} \<and>
    (\<exists>child. op_operation (sp_nodes sp ! sp_root sp) = ForeachOp child (st_system demo_expand)) \<and>
    map co_type (op_columns (sp_nodes sp ! sp_root sp)) = [E_COMPONENT, E_COMPONENT, E_REFERENCE]"
proof -
  have "stmt_fits demo_expand" by code_simp
  from subplan_init_wellformed [OF this, of "\<lambda>_. ''Position''" "\<lambda>_. E_READ"] obtain sp where
    sp: "subplan_init (\<lambda>_. ''Position'') (\<lambda>_. E_READ) demo_expand = Inr sp"
      "length (sp_nodes sp) = plan_nodes (st_ematches demo_expand)" "tree_part (sp_nodes sp) {sp_root sp}"
      "\<exists>child. op_operation (sp_nodes sp ! sp_root sp) = ForeachOp child (st_system demo_expand)"
      "op_columns (sp_nodes sp ! sp_root sp) = plan_columns (st_ematches demo_expand)" by blast
  have c: "plan_nodes (st_ematches demo_expand) = 9"
    "map co_type (plan_columns (st_ematches demo_expand)) = [E_COMPONENT, E_COMPONENT, E_REFERENCE]" by code_simp+
  show ?thesis using sp c by (intro exI [of _ sp] conjI) simp_all
qed

text \<open>C12: The array of operators of a plan has 32 elements and no operation tests its counter: the plan of a
  statement that needs 33 operators writes past the array. The validation accepts such a statement (the
  witness: the sixteen components that a match may have, and one tag).\<close>

theorem subplan_init_overflows:
  assumes "stmt_shape stmt" "plan_nodes (st_ematches stmt) = Suc FCC_MAX_SUBPLAN_NODES"
  shows "subplan_init tname tmode stmt = Inl OutOfBounds"
proof -
  from matches_spec [OF assms(1), of tname tmode] assms(2) obtain r sp where
    1: "add_entity_matches tname tmode (last (st_ematches stmt)) (rev (st_ematches stmt)) (FCC_INVALID_ID, empty_subplan) = Inr (r, sp)"
      "extends empty_subplan {} (r, sp) (plan_nodes (st_ematches stmt) - 1) (plan_columns (st_ematches stmt))" by auto
  have "length (sp_nodes sp) = FCC_MAX_SUBPLAN_NODES" using extendsD(3) [OF 1(2)] assms(2) by (simp add: empty_subplan_def)
  then show ?thesis using assms(1) 1(1)
    by (simp add: subplan_init_def stmt_shape_def create_foreach_def create_operator_def)
qed

theorem subplan_init_overflows_witness:
  "fcc_validate demo_crowded = Inr () \<and> subplan_init (\<lambda>_. ''Position'') (\<lambda>_. E_READ) demo_crowded = Inl OutOfBounds"
proof
  show "fcc_validate demo_crowded = Inr ()" by code_simp
  have "stmt_shape demo_crowded" by code_simp
  moreover have "plan_nodes (st_ematches demo_crowded) = Suc FCC_MAX_SUBPLAN_NODES" by code_simp
  ultimately show "subplan_init (\<lambda>_. ''Position'') (\<lambda>_. E_READ) demo_crowded = Inl OutOfBounds"
    by (rule subplan_init_overflows)
qed

end
