(* ===== verification/ExecPlan.thy ===== *)
theory ExecPlan
  imports OperatorSpec
begin

text \<open>
  src/src/compiler/frontend/exec_plan.h and exec_plan.cpp: the dependencies between the statements of a
  program. A statement depends on another that writes a component it uses; the plan is rejected when the
  dependencies form a cycle (a depth-first search decides it by departure times), and is otherwise put into a
  sequence in which every statement comes after those it depends on.

  The arrays with a counter are the lists of their elements; \<open>m_nodes\<close> has \<open>m_maxnodes\<close> elements from the start.
  The names of types are the parameter \<open>tname\<close> (the driver's \<open>fcc_type_name\<close>). Ids and departure times are below
  the number of statements, so they are natural numbers. The printing of the dependencies is left out.
\<close>

section \<open>The graph of statements\<close>

record fcc_exec_plan_node_t =
  en_parents :: "nat list"
  en_children :: "nat list"

record fcc_exec_plan_t =
  ep_nodes :: "fcc_exec_plan_node_t list"
  ep_roots :: "nat list"
  ep_stmts :: "fcc_stmt_t list"
  ep_subplans :: "fcc_subplan_t list"
  ep_maxnodes :: nat

abbreviation ep_nnodes :: "fcc_exec_plan_t \<Rightarrow> nat" where
  "ep_nnodes plan \<equiv> length (ep_stmts plan)"

definition system_of :: "fcc_stmt_t \<Rightarrow> fcc_system_t res" where
  "system_of stmt = (case st_system stmt of None \<Rightarrow> Inl NullDeref | Some sys \<Rightarrow> Inr sys)"

definition write_types :: "fcc_system_t \<Rightarrow> fcc_type_t list" where
  "write_types sys = map cm_type (filter (\<lambda>c. \<not> cm_is_read_only c) (sys_cmatches sys))"

definition is_dependent :: "(fcc_type_t \<Rightarrow> string) \<Rightarrow> fcc_exec_plan_t \<Rightarrow> nat \<Rightarrow> nat \<Rightarrow> bool res" where
  "is_dependent tname plan node_a node_b =
     bind_res (rd (ep_stmts plan) node_b) (\<lambda>match_b. bind_res (system_of match_b) (\<lambda>sys_b.
     bind_res (rd (ep_stmts plan) node_a) (\<lambda>match_a. bind_res (system_of match_a) (\<lambda>sys_a.
     Inr (\<exists>a\<in>set (sys_cmatches sys_a). \<exists>type_b\<in>set (write_types sys_b).
       tname (cm_type a) = tname type_b \<and> cm_is_read_only a \<or>
       tname (cm_type a) = tname type_b \<and> st_priority match_b \<le> st_priority match_a)))))"

definition add_dependency :: "fcc_exec_plan_t \<Rightarrow> nat \<Rightarrow> nat \<Rightarrow> fcc_exec_plan_t res" where
  "add_dependency plan p c =
     bind_res (rd (ep_nodes plan) p) (\<lambda>n.
     bind_res (wr (ep_nodes plan) p (n\<lparr>en_children := en_children n @ [c]\<rparr>)) (\<lambda>ns.
     bind_res (rd ns c) (\<lambda>n.
     bind_res (wr ns c (n\<lparr>en_parents := en_parents n @ [p]\<rparr>)) (\<lambda>ns. Inr (plan\<lparr>ep_nodes := ns\<rparr>)))))"

text \<open>The loop over the statements that are in the plan already.\<close>

fun add_dependencies :: "(fcc_type_t \<Rightarrow> string) \<Rightarrow> nat \<Rightarrow> nat list \<Rightarrow> fcc_exec_plan_t \<Rightarrow> fcc_exec_plan_t res" where
  "add_dependencies tname added [] plan = Inr plan"
| "add_dependencies tname added (i # is) plan =
     bind_res (rd (ep_stmts plan) i) (\<lambda>next_match. bind_res (system_of next_match) (\<lambda>_.
     bind_res (is_dependent tname plan added i) (\<lambda>d.
     bind_res (if d then add_dependency plan i added else Inr plan) (\<lambda>plan.
     bind_res (is_dependent tname plan i added) (\<lambda>d.
     bind_res (if d then add_dependency plan added i else Inr plan) (add_dependencies tname added is))))))"

definition no_parents :: "fcc_exec_plan_t \<Rightarrow> nat \<Rightarrow> bool" where
  "no_parents plan i \<longleftrightarrow> en_parents (ep_nodes plan ! i) = []"

definition fcc_exec_plan_insert ::
  "(fcc_type_t \<Rightarrow> string) \<Rightarrow> (fcc_type_t \<Rightarrow> fcc_access_mode_t) \<Rightarrow> fcc_exec_plan_t \<Rightarrow> fcc_stmt_t \<Rightarrow> fcc_exec_plan_t res" where
  "fcc_exec_plan_insert tname tmode plan stmt =
     (if \<not> ep_nnodes plan < ep_maxnodes plan then Inl AssertFail else
      let added = ep_nnodes plan; plan = plan\<lparr>ep_stmts := ep_stmts plan @ [stmt]\<rparr> in
      bind_res (system_of stmt) (\<lambda>_.
      bind_res (subplan_init tname tmode stmt) (\<lambda>subplan.
      let plan = plan\<lparr>ep_subplans := ep_subplans plan @ [subplan\<lparr>sp_id := added\<rparr>]\<rparr> in
      bind_res (add_dependencies tname added [0..<added] plan) (\<lambda>plan.
      let roots = filter (no_parents plan) [0..<ep_nnodes plan] in
      if ep_maxnodes plan < length roots then Inl AssertFail else Inr (plan\<lparr>ep_roots := roots\<rparr>)))))"

section \<open>The search for cycles\<close>

text \<open>The state of the search: \<open>visited\<close>, \<open>departure\<close> and \<open>time\<close>. The fuel bounds the depth of the recursion.\<close>

type_synonym search = "bool list \<times> nat list \<times> nat"

fun dfs :: "nat \<Rightarrow> fcc_exec_plan_t \<Rightarrow> nat \<Rightarrow> search \<Rightarrow> search res" where
  "dfs 0 plan node_id st = Inl OutOfFuel"
| "dfs (Suc fuel) plan node_id (visited, departure, time) =
     bind_res (wr visited node_id True) (\<lambda>visited.
     bind_res (rd (ep_nodes plan) node_id) (\<lambda>node.
     bind_res (fold_res (\<lambda>child_id st. bind_res (rd (fst st) child_id) (\<lambda>v.
                 if \<not> v then dfs fuel plan child_id st else Inr st)) (en_children node) (visited, departure, time))
       (\<lambda>(visited, departure, time).
     bind_res (wr departure node_id time) (\<lambda>departure. Inr (visited, departure, Suc time)))))"

fun departs_after :: "nat list \<Rightarrow> nat \<Rightarrow> nat list \<Rightarrow> bool res" where
  "departs_after departure node_id [] = Inr True"
| "departs_after departure node_id (c # cs) =
     bind_res (rd departure node_id) (\<lambda>d. bind_res (rd departure c) (\<lambda>e.
     if d \<le> e then Inr False else departs_after departure node_id cs))"

fun all_depart_after :: "fcc_exec_plan_t \<Rightarrow> nat list \<Rightarrow> nat list \<Rightarrow> bool res" where
  "all_depart_after plan departure [] = Inr True"
| "all_depart_after plan departure (i # is) =
     bind_res (rd (ep_nodes plan) i) (\<lambda>node. bind_res (departs_after departure i (en_children node)) (\<lambda>b.
     if \<not> b then Inr False else all_depart_after plan departure is))"

definition is_acyclic :: "fcc_exec_plan_t \<Rightarrow> bool res" where
  "is_acyclic plan =
     (let num_nodes = ep_nnodes plan in
      bind_res (fold_res (\<lambda>i st. bind_res (rd (fst st) i) (\<lambda>v. bind_res (rd (ep_nodes plan) i) (\<lambda>node.
                  if \<not> v \<and> en_parents node = [] then dfs (Suc num_nodes) plan i st else Inr st)))
                [0..<num_nodes] (replicate num_nodes False, replicate num_nodes 0, 0)) (\<lambda>(visited, departure, time).
      all_depart_after plan departure [0..<num_nodes]))"

definition new_exec_plan :: "nat \<Rightarrow> fcc_exec_plan_t" where
  "new_exec_plan num_stmts = \<lparr>ep_nodes = replicate num_stmts \<lparr>en_parents = [], en_children = []\<rparr>, ep_roots = [],
     ep_stmts = [], ep_subplans = [], ep_maxnodes = num_stmts\<rparr>"

definition fcc_exec_plan_init ::
  "(fcc_type_t \<Rightarrow> string) \<Rightarrow> (fcc_type_t \<Rightarrow> fcc_access_mode_t) \<Rightarrow> fcc_stmt_t list \<Rightarrow>
   (fcc_exec_plan_t \<times> fcc_compilation_error_type_t) res" where
  "fcc_exec_plan_init tname tmode stmts =
     bind_res (fold_res (\<lambda>stmt plan. fcc_exec_plan_insert tname tmode plan stmt) stmts (new_exec_plan (length stmts))) (\<lambda>plan.
     bind_res (is_acyclic plan) (\<lambda>b. Inr (plan, if \<not> b then CE_CYCLIC_DEPENDENCY_GRAPH else CE_NO_ERROR)))"

section \<open>The sequence of execution\<close>

fun parents_visited :: "bool list \<Rightarrow> nat list \<Rightarrow> bool res" where
  "parents_visited visited [] = Inr True"
| "parents_visited visited (p # ps) =
     bind_res (rd visited p) (\<lambda>v. if \<not> v then Inr False else parents_visited visited ps)"

definition can_visit :: "fcc_exec_plan_t \<Rightarrow> nat \<Rightarrow> bool list \<Rightarrow> bool res" where
  "can_visit plan node_id visited = bind_res (rd visited node_id) (\<lambda>v.
     if v then Inr False else bind_res (rd (ep_nodes plan) node_id) (\<lambda>node. parents_visited visited (en_parents node)))"

text \<open>\<open>next_frontier\<close> is an array of \<open>num_nodes\<close> elements.\<close>

fun frontier_children :: "fcc_exec_plan_t \<Rightarrow> nat list \<Rightarrow> nat list \<times> bool list \<Rightarrow> (nat list \<times> bool list) res" where
  "frontier_children plan [] x = Inr x"
| "frontier_children plan (child_id # cs) (next_frontier, visited) =
     bind_res (can_visit plan child_id visited) (\<lambda>r.
     if r then (if length next_frontier < ep_nnodes plan
                then frontier_children plan cs (next_frontier @ [child_id], visited[child_id := True])
                else Inl OutOfBounds)
     else frontier_children plan cs (next_frontier, visited))"

text \<open>The output: the buffer of the caller and how much of it is written.\<close>

type_synonym seq_out = "nat list \<times> nat"

definition emit :: "nat \<Rightarrow> seq_out \<Rightarrow> seq_out res" where
  "emit node_id out = bind_res (wr (fst out) (snd out) node_id) (\<lambda>seq. Inr (seq, Suc (snd out)))"

fun plan_frontier :: "fcc_exec_plan_t \<Rightarrow> nat list \<Rightarrow> nat list \<times> bool list \<times> seq_out \<Rightarrow> (nat list \<times> bool list \<times> seq_out) res" where
  "plan_frontier plan [] x = Inr x"
| "plan_frontier plan (node_id # rest) (next_frontier, visited, out) =
     bind_res (emit node_id out) (\<lambda>out.
     bind_res (rd (ep_nodes plan) node_id) (\<lambda>node.
     bind_res (frontier_children plan (en_children node) (next_frontier, visited)) (\<lambda>(next_frontier, visited).
     plan_frontier plan rest (next_frontier, visited, out))))"

fun plan_levels :: "nat \<Rightarrow> fcc_exec_plan_t \<Rightarrow> nat list \<Rightarrow> bool list \<times> seq_out \<Rightarrow> (bool list \<times> seq_out) res" where
  "plan_levels 0 plan frontier x = Inl OutOfFuel"
| "plan_levels (Suc fuel) plan frontier (visited, out) =
     (if frontier = [] then Inr (visited, out) else
      bind_res (plan_frontier plan frontier ([], visited, out)) (\<lambda>(next_frontier, visited, out).
      plan_levels fuel plan next_frontier (visited, out)))"

definition SEQ_FUEL :: "fcc_exec_plan_t \<Rightarrow> nat" where "SEQ_FUEL plan = ep_nnodes plan + 2"

fun plan_pass :: "fcc_exec_plan_t \<Rightarrow> nat list \<Rightarrow> bool \<times> bool list \<times> seq_out \<Rightarrow> (bool \<times> bool list \<times> seq_out) res" where
  "plan_pass plan [] x = Inr x"
| "plan_pass plan (i # is) (found, visited, out) =
     bind_res (can_visit plan i visited) (\<lambda>r.
     if r then bind_res (plan_levels (SEQ_FUEL plan) plan [i] (visited[i := True], out))
                 (\<lambda>(visited, out). plan_pass plan is (True, visited, out))
     else plan_pass plan is (found, visited, out))"

fun plan_while :: "nat \<Rightarrow> fcc_exec_plan_t \<Rightarrow> bool list \<times> seq_out \<Rightarrow> seq_out res" where
  "plan_while 0 plan x = Inl OutOfFuel"
| "plan_while (Suc fuel) plan (visited, out) =
     bind_res (plan_pass plan [0..<ep_nnodes plan] (False, visited, out)) (\<lambda>(found, visited, out).
     if found then plan_while fuel plan (visited, out) else Inr out)"

definition fcc_exec_plan_get_valid_exec_sequence :: "fcc_exec_plan_t \<Rightarrow> nat list \<Rightarrow> nat list res" where
  "fcc_exec_plan_get_valid_exec_sequence plan seq =
     bind_res (plan_while (SEQ_FUEL plan) plan (replicate (ep_nnodes plan) False, (seq, 0))) (\<lambda>out. Inr (fst out))"

end
