(* ===== verification/ExecPlanSpec.thy ===== *)
theory ExecPlanSpec
  imports ExecPlan
begin

text \<open>
  Theorems about src/src/compiler/frontend/exec_plan.cpp: the depth-first search decides whether the
  dependencies are acyclic, the plan of a list of statements has the dependencies that their reads, writes
  and priorities give, and the sequence of execution runs every statement once, after those it depends on.
\<close>

section \<open>Well-formed graphs\<close>

definition parents_at :: "fcc_exec_plan_t \<Rightarrow> nat \<Rightarrow> nat list" where
  "parents_at plan i = en_parents (ep_nodes plan ! i)"

definition children_at :: "fcc_exec_plan_t \<Rightarrow> nat \<Rightarrow> nat list" where
  "children_at plan i = en_children (ep_nodes plan ! i)"

definition edges :: "fcc_exec_plan_t \<Rightarrow> (nat \<times> nat) set" where
  "edges plan = {(p, c). p < ep_nnodes plan \<and> c \<in> set (children_at plan p)}"

definition plan_ok :: "fcc_exec_plan_t \<Rightarrow> bool" where
  "plan_ok plan \<longleftrightarrow> ep_nnodes plan \<le> length (ep_nodes plan) \<and>
     (\<forall>i<ep_nnodes plan. set (parents_at plan i) \<subseteq> {..<ep_nnodes plan} \<and> set (children_at plan i) \<subseteq> {..<ep_nnodes plan}) \<and>
     (\<forall>p<ep_nnodes plan. \<forall>c<ep_nnodes plan. c \<in> set (children_at plan p) \<longleftrightarrow> p \<in> set (parents_at plan c))"

lemma plan_okD:
  assumes "plan_ok plan" "i < ep_nnodes plan"
  shows "i < length (ep_nodes plan)" "set (parents_at plan i) \<subseteq> {..<ep_nnodes plan}" "set (children_at plan i) \<subseteq> {..<ep_nnodes plan}"
  using assms by (auto simp: plan_ok_def)

section \<open>The search\<close>

definition vset :: "bool list \<Rightarrow> nat set" where
  "vset v = {i. i < length v \<and> v ! i}"

lemma vset_simps:
  "finite (vset v)" "vset v \<subseteq> {..<length v}" "i < length v \<Longrightarrow> vset (v[i := True]) = insert i (vset v)"
  "vset (replicate n False) = {}"
proof -
  show "vset v \<subseteq> {..<length v}" by (auto simp: vset_def)
  then show "finite (vset v)" by (rule finite_subset) simp
qed (auto simp: vset_def nth_list_update)

text \<open>\<open>finished F d t\<close>: the nodes of \<open>F\<close> have departed before \<open>t\<close>, each after its children.\<close>

definition finished :: "fcc_exec_plan_t \<Rightarrow> nat set \<Rightarrow> nat list \<Rightarrow> nat \<Rightarrow> bool" where
  "finished plan F d t \<longleftrightarrow> (\<forall>x\<in>F. d ! x < t \<and> (\<forall>c\<in>set (children_at plan x). c \<in> F \<and> d ! c < d ! x))"

fun search_len :: "fcc_exec_plan_t \<Rightarrow> search \<Rightarrow> bool" where
  "search_len plan (v, d, t) \<longleftrightarrow> length v = ep_nnodes plan \<and> length d = ep_nnodes plan"

fun searched :: "fcc_exec_plan_t \<Rightarrow> nat set \<Rightarrow> search \<Rightarrow> search \<Rightarrow> bool" where
  "searched plan K (v, d, t) (v', d', t') \<longleftrightarrow> search_len plan (v', d', t') \<and> vset v \<subseteq> vset v' \<and>
     (acyclic (edges plan) \<longrightarrow> finished plan (vset v - K) d t \<longrightarrow> finished plan (vset v' - K) d' t')"

lemma searched_refl: "search_len plan st \<Longrightarrow> searched plan K st st"
  by (cases st) simp

lemma searched_trans: "searched plan K st st' \<Longrightarrow> searched plan K st' st'' \<Longrightarrow> searched plan K st st''"
  by (cases st; cases st'; cases st'') auto

lemma searched_len: "searched plan K st st' \<Longrightarrow> search_len plan st'"
  by (cases st; cases st') simp

lemma searched_vset: "searched plan K st st' \<Longrightarrow> vset (fst st) \<subseteq> vset (fst st')"
  by (cases st; cases st') simp

lemma fold_searched:
  assumes "\<And>c st. c \<in> set cs \<Longrightarrow> search_len plan st \<Longrightarrow> V \<subseteq> vset (fst st) \<Longrightarrow>
      \<exists>st'. f c st = Inr st' \<and> searched plan K st st' \<and> (G c \<longrightarrow> c \<in> vset (fst st'))"
    and "search_len plan st" "V \<subseteq> vset (fst st)"
  shows "\<exists>st'. fold_res f cs st = Inr st' \<and> searched plan K st st' \<and> (\<forall>c\<in>set cs. G c \<longrightarrow> c \<in> vset (fst st'))"
  using assms
proof (induction cs arbitrary: st)
  case Nil
  then show ?case by (simp add: searched_refl)
next
  case (Cons c cs)
  obtain st1 where 1: "f c st = Inr st1" "searched plan K st st1" "G c \<longrightarrow> c \<in> vset (fst st1)"
    using Cons.prems(1) [OF list.set_intros(1) Cons.prems(2,3)] by blast
  have "V \<subseteq> vset (fst st1)" using searched_vset [OF 1(2)] Cons.prems(3) by blast
  from Cons.IH [OF Cons.prems(1) [OF list.set_intros(2)] searched_len [OF 1(2)] this] obtain st2 where
    2: "fold_res f cs st1 = Inr st2" "searched plan K st1 st2" "\<forall>c\<in>set cs. G c \<longrightarrow> c \<in> vset (fst st2)" by blast
  have "fold_res f (c # cs) st = Inr st2" using 1(1) 2(1) by simp
  moreover have "\<forall>b\<in>set (c # cs). G b \<longrightarrow> b \<in> vset (fst st2)"
    using 1(3) 2(3) searched_vset [OF 2(2)] by auto
  ultimately show ?case using searched_trans [OF 1(2) 2(2)] by blast
qed

lemma finished_step:
  assumes "finished plan (vset v - insert x K) d t" "x \<in> vset v" "x \<notin> K" "x < length d"
    and "set (children_at plan x) \<subseteq> vset v - insert x K"
  shows "finished plan (vset v - K) (d[x := t]) (Suc t)"
  unfolding finished_def
proof
  fix y assume y: "y \<in> vset v - K"
  have old: "d ! z < t" "d[x := t] ! z = d ! z" if "z \<in> vset v - insert x K" for z
  proof -
    show "d ! z < t" using assms(1) that unfolding finished_def by blast
    have "z \<noteq> x" using that by blast
    then show "d[x := t] ! z = d ! z" by simp
  qed
  show "d[x := t] ! y < Suc t \<and> (\<forall>c\<in>set (children_at plan y). c \<in> vset v - K \<and> d[x := t] ! c < d[x := t] ! y)"
  proof (cases "y = x")
    case True
    have "c \<in> vset v - K \<and> d[x := t] ! c < t" if "c \<in> set (children_at plan x)" for c
    proof -
      have c: "c \<in> vset v - insert x K" using assms(5) that by blast
      then show ?thesis using old [OF c] by simp
    qed
    then show ?thesis using True assms(4) by simp
  next
    case False
    then have y': "y \<in> vset v - insert x K" using y by blast
    have "c \<in> vset v - K \<and> d[x := t] ! c < d ! y" if "c \<in> set (children_at plan y)" for c
    proof -
      have c: "c \<in> vset v - insert x K" "d ! c < d ! y" using assms(1) y' that unfolding finished_def by blast+
      then show ?thesis using old(2) [OF c(1)] by simp
    qed
    then show ?thesis using old [OF y'] by simp
  qed
qed

lemma dfs_spec:
  assumes ok: "plan_ok plan"
  shows "\<lbrakk>x < ep_nnodes plan; x \<notin> vset v; search_len plan (v, d, t); K \<subseteq> vset v; \<forall>k\<in>K. (k, x) \<in> (edges plan)\<^sup>+;
    ep_nnodes plan \<le> card (vset v) + fuel\<rbrakk> \<Longrightarrow>
   \<exists>st'. dfs fuel plan x (v, d, t) = Inr st' \<and> searched plan K (v, d, t) st' \<and> x \<in> vset (fst st')"
proof (induction fuel arbitrary: x v d t K)
  case 0
  have "insert x (vset v) \<subseteq> {..<ep_nnodes plan}" using 0 vset_simps(2) [of v] by auto
  then have "card (insert x (vset v)) \<le> ep_nnodes plan" using card_mono [of "{..<ep_nnodes plan}"] by simp
  then show ?case using 0 vset_simps(1) [of v] by simp
next
  case (Suc fuel)
  let ?v = "v[x := True]" and ?C = "children_at plan x"
  let ?f = "\<lambda>child_id st. bind_res (rd (fst st) child_id) (\<lambda>v. if \<not> v then dfs fuel plan child_id st else Inr st)"
  have len: "length v = ep_nnodes plan" "length d = ep_nnodes plan" using Suc.prems(3) by auto
  have vs: "vset ?v = insert x (vset v)" using vset_simps(3) [of x v] Suc.prems(1) len by simp
  have xK: "x \<notin> K" using Suc.prems(2,4) by blast
  have kids: "c < ep_nnodes plan" "(x, c) \<in> edges plan" if "c \<in> set ?C" for c
    using plan_okD(3) [OF ok Suc.prems(1)] Suc.prems(1) that by (auto simp: edges_def)
  have reach: "(k, c) \<in> (edges plan)\<^sup>+" if "c \<in> set ?C" "k \<in> insert x K" for k c
    using Suc.prems(5) kids(2) [OF that(1)] that(2) by (auto intro: trancl_into_trancl)
  have step: "\<exists>st'. ?f c st = Inr st' \<and> searched plan (insert x K) st st' \<and> (True \<longrightarrow> c \<in> vset (fst st'))"
    if c: "c \<in> set ?C" and l: "search_len plan st" and sub: "vset ?v \<subseteq> vset (fst st)" for c st
  proof (cases st)
    case (fields v1 d1 t1)
    have r: "rd v1 c = Inr (v1 ! c)" using kids(1) [OF c] l fields by simp
    have m: "v1 ! c \<longleftrightarrow> c \<in> vset v1" using kids(1) [OF c] l fields by (simp add: vset_def)
    show ?thesis
    proof (cases "c \<in> vset v1")
      case True
      then show ?thesis using r m fields searched_refl [OF l] by simp
    next
      case False
      have "Suc (card (vset v)) = card (vset ?v)" using vs Suc.prems(2) vset_simps(1) [of v] by simp
      also have "\<dots> \<le> card (vset v1)" using sub fields vset_simps(1) [of v1] by (simp add: card_mono)
      finally have "ep_nnodes plan \<le> card (vset v1) + fuel" using Suc.prems(6) by simp
      moreover have "insert x K \<subseteq> vset v1" using sub fields vs Suc.prems(4) by auto
      moreover have "\<forall>k\<in>insert x K. (k, c) \<in> (edges plan)\<^sup>+" using reach [OF c] by blast
      ultimately show ?thesis using Suc.IH [OF kids(1) [OF c] False, of d1 t1 "insert x K"] r m False l fields by simp
    qed
  qed
  have "search_len plan (?v, d, t)" using len by simp
  from fold_searched [where V = "vset ?v" and G = "\<lambda>_. True" and cs = ?C and f = ?f and K = "insert x K", OF step this]
  obtain st1 where st1: "fold_res ?f ?C (?v, d, t) = Inr st1" "searched plan (insert x K) (?v, d, t) st1"
    "\<forall>c\<in>set ?C. c \<in> vset (fst st1)" by auto
  obtain v1 d1 t1 where st1_eq: "st1 = (v1, d1, t1)" by (cases st1)
  have 1: "fold_res ?f ?C (?v, d, t) = Inr (v1, d1, t1)" "searched plan (insert x K) (?v, d, t) (v1, d1, t1)"
    "set ?C \<subseteq> vset v1" using st1 st1_eq by auto
  let ?d = "d1[x := t1]"
  have len1: "length v1 = ep_nnodes plan" "length d1 = ep_nnodes plan" using 1(2) by auto
  have x1: "x \<in> vset v1" "vset v \<subseteq> vset v1" using 1(2) vs by auto
  have run: "dfs (Suc fuel) plan x (v, d, t) = Inr (v1, ?d, Suc t1)"
    using Suc.prems(1) len len1 1(1) plan_okD(1) [OF ok Suc.prems(1)] by (simp add: children_at_def)
  have "finished plan (vset v1 - K) ?d (Suc t1)" if ac: "acyclic (edges plan)" and f: "finished plan (vset v - K) d t"
  proof (rule finished_step)
    have "vset ?v - insert x K = vset v - K" using vs Suc.prems(2) by auto
    then show "finished plan (vset v1 - insert x K) d1 t1" using 1(2) ac f by simp
    have "c \<notin> insert x K" if "c \<in> set ?C" for c
    proof
      assume "c \<in> insert x K"
      then have "(c, c) \<in> (edges plan)\<^sup>+" using reach [OF that] by blast
      then show False using ac by (simp add: acyclic_def)
    qed
    then show "set ?C \<subseteq> vset v1 - insert x K" using 1(3) by auto
  qed (use x1 xK Suc.prems(1) len1 in simp_all)
  then show ?case using run len1 x1 by auto
qed

lemma departs_after_spec:
  assumes "p < length d" "set cs \<subseteq> {..<length d}"
  shows "departs_after d p cs = Inr (\<forall>c\<in>set cs. d ! c < d ! p)"
  using assms by (induction cs) auto

lemma all_depart_after_spec:
  assumes "plan_ok plan" "set is \<subseteq> {..<ep_nnodes plan}" "length d = ep_nnodes plan"
  shows "all_depart_after plan d is = Inr (\<forall>i\<in>set is. \<forall>c\<in>set (children_at plan i). d ! c < d ! i)"
  using assms(2)
proof (induction "is")
  case (Cons i "is")
  have i: "i < ep_nnodes plan" using Cons.prems by simp
  have "departs_after d i (en_children (ep_nodes plan ! i)) = Inr (\<forall>c\<in>set (children_at plan i). d ! c < d ! i)"
    unfolding children_at_def [symmetric] by (rule departs_after_spec) (use plan_okD(3) [OF assms(1) i] i assms(3) in auto)
  then show ?case using Cons plan_okD(1) [OF assms(1) i] by simp
qed simp

lemma edges_wf:
  assumes "plan_ok plan" "acyclic (edges plan)" shows "wf (edges plan)"
proof (rule finite_acyclic_wf [OF _ assms(2)])
  have "edges plan \<subseteq> {..<ep_nnodes plan} \<times> {..<ep_nnodes plan}"
    using assms(1) by (auto simp: edges_def dest: plan_okD(3))
  then show "finite (edges plan)" by (rule finite_subset) simp
qed

lemma all_reached:
  assumes ok: "plan_ok plan" and ac: "acyclic (edges plan)" and f: "finished plan F d t"
    and r: "\<And>i. i < ep_nnodes plan \<Longrightarrow> parents_at plan i = [] \<Longrightarrow> i \<in> F"
  shows "i < ep_nnodes plan \<longrightarrow> i \<in> F"
proof (induction i rule: wf_induct_rule [OF edges_wf [OF ok ac]])
  case (1 i)
  show ?case
  proof
    assume i: "i < ep_nnodes plan"
    show "i \<in> F"
    proof (cases "parents_at plan i")
      case Nil
      then show ?thesis using r i by blast
    next
      case (Cons p ps)
      then have p: "p < ep_nnodes plan" using plan_okD(2) [OF ok i] by simp
      moreover have "i \<in> set (children_at plan p)" using ok i p Cons by (simp add: plan_ok_def)
      ultimately have "(p, i) \<in> edges plan" by (simp add: edges_def)
      then have "p \<in> F" using 1 p by blast
      then show ?thesis using f \<open>i \<in> set (children_at plan p)\<close> by (auto simp: finished_def)
    qed
  qed
qed

lemma is_acyclic_spec:
  assumes ok: "plan_ok plan"
  shows "is_acyclic plan = Inr (acyclic (edges plan))"
proof -
  let ?n = "ep_nnodes plan"
  let ?f = "\<lambda>i st. bind_res (rd (fst st) i) (\<lambda>v. bind_res (rd (ep_nodes plan) i) (\<lambda>node.
    if \<not> v \<and> en_parents node = [] then dfs (Suc ?n) plan i st else Inr st))"
  have step: "\<exists>st'. ?f i st = Inr st' \<and> searched plan {} st st' \<and> (parents_at plan i = [] \<longrightarrow> i \<in> vset (fst st'))"
    if i: "i \<in> set [0..<?n]" and l: "search_len plan st" for i st
  proof (cases st)
    case (fields v d t)
    have n: "i < ?n" "i < length (ep_nodes plan)" "i < length v" using i l fields plan_okD(1) [OF ok] by auto
    have m: "v ! i \<longleftrightarrow> i \<in> vset v" using n by (simp add: vset_def)
    show ?thesis
    proof (cases "\<not> v ! i \<and> parents_at plan i = []")
      case True
      then have "\<exists>st'. dfs (Suc ?n) plan i (v, d, t) = Inr st' \<and> searched plan {} (v, d, t) st' \<and> i \<in> vset (fst st')"
        by (intro dfs_spec [OF ok]) (use n m l fields in simp_all)
      then show ?thesis using True n fields by (simp add: parents_at_def)
    next
      case False
      then have "?f i st = Inr st" using n fields by (auto simp: parents_at_def)
      then show ?thesis using False m fields searched_refl [OF l] by auto
    qed
  qed
  have "search_len plan (replicate ?n False, replicate ?n 0, 0)" by simp
  from fold_searched [where V = "{}" and G = "\<lambda>i. parents_at plan i = []" and cs = "[0..<?n]" and f = ?f and K = "{}",
      OF step this]
  obtain st1 where st1: "fold_res ?f [0..<?n] (replicate ?n False, replicate ?n 0, 0) = Inr st1"
    "searched plan {} (replicate ?n False, replicate ?n 0, 0) st1"
    "\<forall>i\<in>set [0..<?n]. parents_at plan i = [] \<longrightarrow> i \<in> vset (fst st1)" by auto
  obtain v d t where st1_eq: "st1 = (v, d, t)" by (cases st1)
  have 1: "fold_res ?f [0..<?n] (replicate ?n False, replicate ?n 0, 0) = Inr (v, d, t)"
      "searched plan {} (replicate ?n False, replicate ?n 0, 0) (v, d, t)"
      "\<forall>i\<in>set [0..<?n]. parents_at plan i = [] \<longrightarrow> i \<in> vset v" using st1 st1_eq by auto
  let ?dec = "\<forall>i\<in>set [0..<?n]. \<forall>c\<in>set (children_at plan i). d ! c < d ! i"
  have "all_depart_after plan d [0..<?n] = Inr ?dec" by (rule all_depart_after_spec [OF ok]) (use 1(2) in auto)
  moreover have "?dec \<longleftrightarrow> acyclic (edges plan)"
  proof
    assume ?dec
    then have "(edges plan)\<inverse> \<subseteq> measure (\<lambda>i. d ! i)" by (auto simp: edges_def)
    then show "acyclic (edges plan)" using wf_subset [OF wf_measure] wf_acyclic acyclic_converse by blast
  next
    assume ac: "acyclic (edges plan)"
    have "finished plan (vset v) d t" using 1(2) ac by (simp add: vset_simps(4) finished_def)
    moreover from this have "i \<in> vset v" if "i < ?n" for i
      using all_reached [OF ok ac, of "vset v" d t i] 1(3) that by auto
    ultimately show ?dec by (auto simp: finished_def)
  qed
  ultimately show ?thesis using 1(1) by (simp add: is_acyclic_def Let_def)
qed

section \<open>Building the graph\<close>

text \<open>What makes one statement depend on another: it uses a component that the other writes, and only reads it
  or comes no earlier in the order of priorities.\<close>

definition depends_on :: "(fcc_type_t \<Rightarrow> string) \<Rightarrow> fcc_stmt_t \<Rightarrow> fcc_stmt_t \<Rightarrow> bool" where
  "depends_on tname a b \<longleftrightarrow>
     (\<exists>ca\<in>set (sys_cmatches (the (st_system a))). \<exists>cb\<in>set (sys_cmatches (the (st_system b))).
        \<not> cm_is_read_only cb \<and> tname (cm_type ca) = tname (cm_type cb) \<and>
        (cm_is_read_only ca \<or> st_priority b \<le> st_priority a))"

definition dependencies :: "(fcc_type_t \<Rightarrow> string) \<Rightarrow> fcc_stmt_t list \<Rightarrow> (nat \<times> nat) set" where
  "dependencies tname stmts = {(b, a). a < length stmts \<and> b < length stmts \<and> a \<noteq> b \<and> depends_on tname (stmts ! a) (stmts ! b)}"

definition graph_is :: "fcc_exec_plan_t \<Rightarrow> (nat \<times> nat) set \<Rightarrow> bool" where
  "graph_is plan E \<longleftrightarrow> (\<forall>i<length (ep_nodes plan). set (children_at plan i) = {c. (i, c) \<in> E} \<and>
     set (parents_at plan i) = {p. (p, i) \<in> E} \<and> distinct (children_at plan i) \<and> distinct (parents_at plan i))"

lemma is_dependent_spec:
  assumes "a < ep_nnodes plan" "b < ep_nnodes plan" "\<And>s. s \<in> set (ep_stmts plan) \<Longrightarrow> st_system s \<noteq> None"
  shows "is_dependent tname plan a b = Inr (depends_on tname (ep_stmts plan ! a) (ep_stmts plan ! b))"
proof -
  obtain sa sb where s: "st_system (ep_stmts plan ! a) = Some sa" "st_system (ep_stmts plan ! b) = Some sb"
    using assms(3) [of "ep_stmts plan ! a"] assms(3) [of "ep_stmts plan ! b"] assms(1,2) by auto
  show ?thesis using assms(1,2) s by (auto simp: is_dependent_def system_of_def write_types_def depends_on_def)
qed

lemma add_dependency_spec:
  assumes "graph_is plan E" "p < length (ep_nodes plan)" "c < length (ep_nodes plan)" and new: "(p, c) \<notin> E"
  shows "\<exists>ns. add_dependency plan p c = Inr (plan\<lparr>ep_nodes := ns\<rparr>) \<and> length ns = length (ep_nodes plan) \<and>
    graph_is (plan\<lparr>ep_nodes := ns\<rparr>) (insert (p, c) E)"
proof -
  let ?ns = "(ep_nodes plan)[p := (ep_nodes plan ! p)\<lparr>en_children := en_children (ep_nodes plan ! p) @ [c]\<rparr>]"
  let ?ms = "?ns[c := (?ns ! c)\<lparr>en_parents := en_parents (?ns ! c) @ [p]\<rparr>]"
  have "add_dependency plan p c = Inr (plan\<lparr>ep_nodes := ?ms\<rparr>)" using assms(2,3) by (simp add: add_dependency_def)
  moreover have "set (children_at (plan\<lparr>ep_nodes := ?ms\<rparr>) i) = {d. (i, d) \<in> insert (p, c) E} \<and>
      set (parents_at (plan\<lparr>ep_nodes := ?ms\<rparr>) i) = {d. (d, i) \<in> insert (p, c) E} \<and>
      distinct (children_at (plan\<lparr>ep_nodes := ?ms\<rparr>) i) \<and> distinct (parents_at (plan\<lparr>ep_nodes := ?ms\<rparr>) i)" if i: "i < length (ep_nodes plan)" for i
  proof -
    have "children_at (plan\<lparr>ep_nodes := ?ms\<rparr>) i = children_at plan i @ (if i = p then [c] else [])"
      using assms(2,3) i by (cases "i = p"; cases "i = c") (auto simp: children_at_def nth_list_update)
    moreover have "parents_at (plan\<lparr>ep_nodes := ?ms\<rparr>) i = parents_at plan i @ (if i = c then [p] else [])"
      using assms(2,3) i by (cases "i = p"; cases "i = c") (auto simp: parents_at_def nth_list_update)
    ultimately show ?thesis using assms(1) i new by (auto simp: graph_is_def)
  qed
  ultimately show ?thesis by (intro exI [of _ ?ms]) (simp add: graph_is_def)
qed

lemma maybe_dependency:
  assumes "graph_is plan E" "p < length (ep_nodes plan)" "c < length (ep_nodes plan)" "(p, c) \<notin> E"
  shows "\<exists>ns. (if d then add_dependency plan p c else Inr plan) = Inr (plan\<lparr>ep_nodes := ns\<rparr>) \<and>
    length ns = length (ep_nodes plan) \<and> graph_is (plan\<lparr>ep_nodes := ns\<rparr>) (E \<union> (if d then {(p, c)} else {}))"
proof (cases d)
  case True
  then show ?thesis using add_dependency_spec [OF assms] by simp
next
  case False
  then show ?thesis using assms(1) by (intro exI [of _ "ep_nodes plan"]) simp
qed

text \<open>The edges between a new node and a node \<open>i\<close>.\<close>

definition new_edges :: "(fcc_type_t \<Rightarrow> string) \<Rightarrow> fcc_stmt_t list \<Rightarrow> nat \<Rightarrow> nat \<Rightarrow> (nat \<times> nat) set" where
  "new_edges tname stmts a i = (if depends_on tname (stmts ! a) (stmts ! i) then {(i, a)} else {}) \<union>
     (if depends_on tname (stmts ! i) (stmts ! a) then {(a, i)} else {})"

lemma add_dependencies_spec:
  assumes "graph_is plan E" "set is \<subseteq> {..<ep_nnodes plan}" "a < ep_nnodes plan" "ep_nnodes plan \<le> length (ep_nodes plan)"
    and sys: "\<And>s. s \<in> set (ep_stmts plan) \<Longrightarrow> st_system s \<noteq> None"
    and new: "distinct is" "\<And>i. i \<in> set is \<Longrightarrow> i \<noteq> a \<and> (i, a) \<notin> E \<and> (a, i) \<notin> E"
  shows "\<exists>ns. add_dependencies tname a is plan = Inr (plan\<lparr>ep_nodes := ns\<rparr>) \<and> length ns = length (ep_nodes plan) \<and>
    graph_is (plan\<lparr>ep_nodes := ns\<rparr>) (E \<union> (\<Union>i\<in>set is. new_edges tname (ep_stmts plan) a i))"
  using assms
proof (induction "is" arbitrary: plan E)
  case Nil
  then show ?case by (intro exI [of _ "ep_nodes plan"]) simp
next
  case (Cons i "is")
  let ?S = "ep_stmts plan"
  have n: "i < ep_nnodes plan" "i < length (ep_nodes plan)" "a < length (ep_nodes plan)" using Cons.prems by auto
  have fresh: "(i, a) \<notin> E" "(a, i) \<notin> E" "i \<noteq> a" using Cons.prems(7) [of i] by simp_all
  obtain si where si: "st_system (?S ! i) = Some si" using Cons.prems(5) [of "?S ! i"] n(1) by auto
  let ?d1 = "depends_on tname (?S ! a) (?S ! i)" and ?d2 = "depends_on tname (?S ! i) (?S ! a)"
  obtain ns1 where 1: "(if ?d1 then add_dependency plan i a else Inr plan) = Inr (plan\<lparr>ep_nodes := ns1\<rparr>)"
    "length ns1 = length (ep_nodes plan)" "graph_is (plan\<lparr>ep_nodes := ns1\<rparr>) (E \<union> (if ?d1 then {(i, a)} else {}))"
    using maybe_dependency [OF Cons.prems(1) n(2,3)] fresh by blast
  let ?plan1 = "plan\<lparr>ep_nodes := ns1\<rparr>"
  obtain ns2 where 2: "(if ?d2 then add_dependency ?plan1 a i else Inr ?plan1) = Inr (?plan1\<lparr>ep_nodes := ns2\<rparr>)"
    "length ns2 = length (ep_nodes ?plan1)"
    "graph_is (?plan1\<lparr>ep_nodes := ns2\<rparr>) (E \<union> (if ?d1 then {(i, a)} else {}) \<union> (if ?d2 then {(a, i)} else {}))"
  proof -
    have "(a, i) \<notin> E \<union> (if ?d1 then {(i, a)} else {})" using fresh by simp
    then show thesis using maybe_dependency [OF 1(3), of a i ?d2] n 1(2) that by auto
  qed
  have e: "E \<union> (if ?d1 then {(i, a)} else {}) \<union> (if ?d2 then {(a, i)} else {}) = E \<union> new_edges tname ?S a i"
    by (auto simp: new_edges_def)
  have "\<exists>ns. add_dependencies tname a is (plan\<lparr>ep_nodes := ns2\<rparr>) = Inr (plan\<lparr>ep_nodes := ns\<rparr>) \<and> length ns = length ns2 \<and>
      graph_is (plan\<lparr>ep_nodes := ns\<rparr>) (E \<union> new_edges tname ?S a i \<union> (\<Union>i\<in>set is. new_edges tname ?S a i))"
  proof -
    have "graph_is (plan\<lparr>ep_nodes := ns2\<rparr>) (E \<union> new_edges tname ?S a i)" using 2(3) e by simp
    moreover have "j \<noteq> a \<and> (j, a) \<notin> E \<union> new_edges tname ?S a i \<and> (a, j) \<notin> E \<union> new_edges tname ?S a i" if "j \<in> set is" for j
      using Cons.prems(7) [of j] that Cons.prems(6) fresh by (auto simp: new_edges_def)
    ultimately show ?thesis
      using Cons.IH [of "plan\<lparr>ep_nodes := ns2\<rparr>" "E \<union> new_edges tname ?S a i"] 2(2) 1(2) Cons.prems by simp
  qed
  then obtain ns where 3: "add_dependencies tname a is (plan\<lparr>ep_nodes := ns2\<rparr>) = Inr (plan\<lparr>ep_nodes := ns\<rparr>)"
    "length ns = length (ep_nodes plan)"
    "graph_is (plan\<lparr>ep_nodes := ns\<rparr>) (E \<union> (\<Union>i\<in>set (i # is). new_edges tname ?S a i))"
    using 1(2) 2(2) by (auto simp: Un_assoc)
  have dep: "is_dependent tname plan a i = Inr ?d1" "is_dependent tname ?plan1 i a = Inr ?d2"
    using is_dependent_spec [of a plan i tname] is_dependent_spec [of i ?plan1 a tname] n(1) Cons.prems(3,5) by simp_all
  have "add_dependencies tname a (i # is) plan = Inr (plan\<lparr>ep_nodes := ns\<rparr>)"
    using 1(1) 2(1) 3(1) n(1) si dep by (simp add: system_of_def split del: if_split)
  then show ?case using 3(2,3) by blast
qed

definition plan_for :: "(fcc_type_t \<Rightarrow> string) \<Rightarrow> fcc_exec_plan_t \<Rightarrow> fcc_stmt_t list \<Rightarrow> nat \<Rightarrow> bool" where
  "plan_for tname plan stmts m \<longleftrightarrow> ep_stmts plan = stmts \<and> ep_maxnodes plan = m \<and> length (ep_nodes plan) = m \<and>
     length (ep_roots plan) \<le> length stmts \<and> graph_is plan (dependencies tname stmts)"

definition plannable :: "fcc_stmt_t \<Rightarrow> bool" where
  "plannable stmt \<longleftrightarrow> stmt_fits stmt \<and> st_system stmt \<noteq> None"

lemma dependencies_snoc:
  "dependencies tname (stmts @ [s]) =
     dependencies tname stmts \<union> (\<Union>i\<in>set [0..<length stmts]. new_edges tname (stmts @ [s]) (length stmts) i)"
  by (auto simp: dependencies_def new_edges_def nth_append less_Suc_eq split: if_splits)

lemma plan_insert_spec:
  assumes p: "plan_for tname plan stmts m" and m: "length stmts < m" and ok: "\<And>s. s \<in> set (stmts @ [stmt]) \<Longrightarrow> plannable s"
  shows "\<exists>plan'. fcc_exec_plan_insert tname tmode plan stmt = Inr plan' \<and> plan_for tname plan' (stmts @ [stmt]) m"
proof -
  obtain sp where sp: "subplan_init tname tmode stmt = Inr sp"
    using subplan_init_run [of stmt tname tmode] ok [of stmt] by (auto simp: plannable_def)
  obtain sys where sys: "st_system stmt = Some sys" using ok [of stmt] by (auto simp: plannable_def)
  let ?n = "length stmts"
  let ?plan = "plan\<lparr>ep_stmts := stmts @ [stmt], ep_subplans := ep_subplans plan @ [sp\<lparr>sp_id := ?n\<rparr>]\<rparr>"
  have P: "ep_stmts plan = stmts" "ep_maxnodes plan = m" "length (ep_nodes plan) = m" "graph_is plan (dependencies tname stmts)"
    using p by (auto simp: plan_for_def)
  have "graph_is ?plan (dependencies tname stmts)" using P(4) by (simp add: graph_is_def children_at_def parents_at_def)
  then have "\<exists>ns. add_dependencies tname ?n [0..<?n] ?plan = Inr (?plan\<lparr>ep_nodes := ns\<rparr>) \<and> length ns = length (ep_nodes ?plan) \<and>
      graph_is (?plan\<lparr>ep_nodes := ns\<rparr>) (dependencies tname stmts \<union> (\<Union>i\<in>set [0..<?n]. new_edges tname (ep_stmts ?plan) ?n i))"
    by (rule add_dependencies_spec) (use m P ok in \<open>auto simp: plannable_def dependencies_def\<close>)
  then obtain ns where ns: "add_dependencies tname ?n [0..<?n] ?plan = Inr (?plan\<lparr>ep_nodes := ns\<rparr>)" "length ns = m"
    "graph_is (?plan\<lparr>ep_nodes := ns\<rparr>) (dependencies tname (stmts @ [stmt]))"
    unfolding dependencies_snoc using P(3) by auto
  let ?plan2 = "?plan\<lparr>ep_nodes := ns\<rparr>"
  let ?roots = "filter (no_parents ?plan2) [0..<Suc ?n]"
  have "length ?roots \<le> length [0..<Suc ?n]" by (rule length_filter_le)
  then have r: "\<not> m < length ?roots" "length ?roots \<le> Suc ?n" using m by simp_all
  have "fcc_exec_plan_insert tname tmode plan stmt = Inr (?plan2\<lparr>ep_roots := ?roots\<rparr>)"
    using P m sp sys ns(1) r(1) by (simp add: fcc_exec_plan_insert_def system_of_def Let_def del: upt_Suc)
  moreover have "plan_for tname (?plan2\<lparr>ep_roots := ?roots\<rparr>) (stmts @ [stmt]) m"
    using P ns(2,3) r(2) by (simp add: plan_for_def graph_is_def children_at_def parents_at_def del: upt_Suc)
  ultimately show ?thesis by blast
qed

lemma plan_inserts_spec:
  assumes "plan_for tname plan done m" "length done + length stmts \<le> m" "\<And>s. s \<in> set (done @ stmts) \<Longrightarrow> plannable s"
  shows "\<exists>plan'. fold_res (\<lambda>stmt plan. fcc_exec_plan_insert tname tmode plan stmt) stmts plan = Inr plan' \<and>
    plan_for tname plan' (done @ stmts) m"
  using assms
proof (induction stmts arbitrary: plan "done")
  case (Cons s stmts)
  obtain plan1 where 1: "fcc_exec_plan_insert tname tmode plan s = Inr plan1" "plan_for tname plan1 (done @ [s]) m"
    using plan_insert_spec [OF Cons.prems(1), of s tmode] Cons.prems(2,3) by auto
  from Cons.IH [OF 1(2)] Cons.prems(2,3) show ?case using 1(1) by simp
qed simp

lemma plan_built:
  assumes "\<And>s. s \<in> set stmts \<Longrightarrow> plannable s"
  shows "\<exists>plan. fold_res (\<lambda>stmt plan. fcc_exec_plan_insert tname tmode plan stmt) stmts (new_exec_plan (length stmts)) = Inr plan \<and>
    ep_stmts plan = stmts \<and> plan_ok plan \<and> edges plan = dependencies tname stmts \<and>
    length (ep_roots plan) \<le> length stmts \<and>
    (\<forall>i<length stmts. distinct (children_at plan i) \<and> distinct (parents_at plan i))"
proof -
  have "plan_for tname (new_exec_plan (length stmts)) [] (length stmts)"
    by (simp add: plan_for_def new_exec_plan_def graph_is_def dependencies_def children_at_def parents_at_def)
  from plan_inserts_spec [OF this, of stmts tmode] assms obtain plan where
    1: "fold_res (\<lambda>stmt plan. fcc_exec_plan_insert tname tmode plan stmt) stmts (new_exec_plan (length stmts)) = Inr plan"
      "plan_for tname plan stmts (length stmts)" by auto
  have P: "ep_stmts plan = stmts" "length (ep_nodes plan) = length stmts" "graph_is plan (dependencies tname stmts)"
    "length (ep_roots plan) \<le> length stmts" using 1(2) by (auto simp: plan_for_def)
  have "plan_ok plan" using P by (auto simp: plan_ok_def graph_is_def dependencies_def)
  moreover have "edges plan = dependencies tname stmts" using P by (auto simp: edges_def graph_is_def dependencies_def)
  moreover have "\<forall>i<length stmts. distinct (children_at plan i) \<and> distinct (parents_at plan i)"
    using P by (simp add: graph_is_def)
  ultimately show ?thesis using 1(1) P(1,4) by blast
qed

text \<open>C3: The plan of a list of statements is rejected exactly when the dependencies form a cycle. A statement depends on
  another that writes a component it uses, when it only reads that component or its priority is not below the other's;
  these and no others are the edges of the graph, and the departure times of one depth-first search from the
  nodes without parents decide whether it is acyclic, also when a cycle cannot be reached from such a node.\<close>

theorem fcc_exec_plan_init_iff_acyclic:
  assumes "\<And>s. s \<in> set stmts \<Longrightarrow> plannable s"
  shows "\<exists>plan. ep_stmts plan = stmts \<and> edges plan = dependencies tname stmts \<and>
    fcc_exec_plan_init tname tmode stmts =
      Inr (plan, if acyclic (dependencies tname stmts) then CE_NO_ERROR else CE_CYCLIC_DEPENDENCY_GRAPH)"
proof -
  from plan_built [OF assms, of stmts tname tmode] obtain plan where
    p: "fold_res (\<lambda>stmt plan. fcc_exec_plan_insert tname tmode plan stmt) stmts (new_exec_plan (length stmts)) = Inr plan"
      "ep_stmts plan = stmts" "plan_ok plan" "edges plan = dependencies tname stmts" by blast
  then show ?thesis by (intro exI [of _ plan]) (simp add: fcc_exec_plan_init_def is_acyclic_spec)
qed

text \<open>Three statements: the last two write what the first reads; the third comes after the second.\<close>

definition demo_writer :: "ptr \<Rightarrow> u32 \<Rightarrow> fcc_stmt_t" where
  "demo_writer t priority = demo_stmt [fcc_entity_match_init\<lparr>em_cmatches := [(demo_cmatch t)\<lparr>cm_is_read_only := False\<rparr>]\<rparr>]
     \<lparr>st_priority := priority\<rparr>"

definition demo_reader :: "ptr \<Rightarrow> fcc_stmt_t" where
  "demo_reader t = demo_stmt [fcc_entity_match_init\<lparr>em_cmatches := [demo_cmatch t]\<rparr>]"

definition demo_stmts :: "fcc_stmt_t list" where
  "demo_stmts = [demo_reader 1, demo_writer 1 1, demo_writer 1 2]"

definition demo_tname :: "fcc_type_t \<Rightarrow> string" where
  "demo_tname t = (if t = 1 then ''Position'' else ''Speed'')"

lemma demo_plannable: "s \<in> set demo_stmts \<Longrightarrow> plannable s"
proof -
  have "list_all plannable demo_stmts" by code_simp
  then show "s \<in> set demo_stmts \<Longrightarrow> plannable s" by (simp add: list_all_iff)
qed

lemma demo_dependencies: "dependencies demo_tname demo_stmts = {(1, 0), (2, 0), (1, 2)}"
proof -
  have "dependencies demo_tname demo_stmts = Set.filter (\<lambda>(b, a). a \<noteq> b \<and> depends_on demo_tname (demo_stmts ! a) (demo_stmts ! b))
      ({0, 1, 2} \<times> {0, 1, 2})"
    by (auto simp: dependencies_def demo_stmts_def less_Suc_eq numeral_eq_Suc)
  also have "\<dots> = {(1, 0), (2, 0), (1, 2)}" by code_simp
  finally show ?thesis .
qed

lemma demo_acyclic: "acyclic (dependencies demo_tname demo_stmts)"
proof -
  have "dependencies demo_tname demo_stmts \<subseteq> measure (\<lambda>i. if i = 0 then 2 else if i = 2 then 1 else 0)"
    by (auto simp: demo_dependencies)
  then show ?thesis using wf_subset [OF wf_measure] wf_acyclic by blast
qed

theorem fcc_exec_plan_init_iff_acyclic_witness:
  "\<exists>plan. edges plan = {(1, 0), (2, 0), (1, 2)} \<and>
    fcc_exec_plan_init demo_tname (\<lambda>_. E_READ) demo_stmts = Inr (plan, CE_NO_ERROR)"
proof -
  have "\<exists>plan. ep_stmts plan = demo_stmts \<and> edges plan = dependencies demo_tname demo_stmts \<and>
      fcc_exec_plan_init demo_tname (\<lambda>_. E_READ) demo_stmts =
        Inr (plan, if acyclic (dependencies demo_tname demo_stmts) then CE_NO_ERROR else CE_CYCLIC_DEPENDENCY_GRAPH)"
    by (rule fcc_exec_plan_init_iff_acyclic) (rule demo_plannable)
  then obtain plan where "edges plan = dependencies demo_tname demo_stmts"
    "fcc_exec_plan_init demo_tname (\<lambda>_. E_READ) demo_stmts = Inr (plan, CE_NO_ERROR)"
    unfolding if_P [OF demo_acyclic] by (elim exE conjE)
  then show ?thesis unfolding demo_dependencies by (intro exI [of _ plan] conjI)
qed

text \<open>C13: Two statements that write components of the same name with equal priorities depend on each other, so the whole
  program is rejected, whatever the order they stand in.\<close>

theorem equal_priority_writers_rejected:
  assumes "\<And>s. s \<in> set stmts \<Longrightarrow> plannable s" and "i < length stmts" "j < length stmts" "i \<noteq> j"
    and "st_priority (stmts ! i) = st_priority (stmts ! j)"
    and "a \<in> set (sys_cmatches (the (st_system (stmts ! i))))" "b \<in> set (sys_cmatches (the (st_system (stmts ! j))))"
    and "\<not> cm_is_read_only a" "\<not> cm_is_read_only b" "tname (cm_type a) = tname (cm_type b)"
  shows "\<exists>plan. fcc_exec_plan_init tname tmode stmts = Inr (plan, CE_CYCLIC_DEPENDENCY_GRAPH)"
proof -
  from plan_built [OF assms(1), of stmts tname tmode] obtain plan where
    p: "fold_res (\<lambda>stmt plan. fcc_exec_plan_insert tname tmode plan stmt) stmts (new_exec_plan (length stmts)) = Inr plan"
      "plan_ok plan" "edges plan = dependencies tname stmts" by blast
  have "depends_on tname (stmts ! i) (stmts ! j)" "depends_on tname (stmts ! j) (stmts ! i)"
    unfolding depends_on_def using assms(5-10) by (metis order_refl)+
  then have "(i, j) \<in> edges plan" "(j, i) \<in> edges plan" using assms(2-4) by (auto simp: p(3) dependencies_def)
  then have "(i, i) \<in> (edges plan)\<^sup>+" by (rule trancl_into_trancl [OF r_into_trancl])
  then have "\<not> acyclic (edges plan)" by (auto simp: acyclic_def)
  then show ?thesis using p(1,2) by (simp add: fcc_exec_plan_init_def is_acyclic_spec)
qed

theorem equal_priority_writers_rejected_witness:
  "\<exists>plan. fcc_exec_plan_init demo_tname (\<lambda>_. E_READ) [demo_writer 1 1, demo_writer 1 1] = Inr (plan, CE_CYCLIC_DEPENDENCY_GRAPH)"
proof (rule equal_priority_writers_rejected
      [where i = 0 and j = 1 and a = "(demo_cmatch 1)\<lparr>cm_is_read_only := False\<rparr>" and b = "(demo_cmatch 1)\<lparr>cm_is_read_only := False\<rparr>"])
  fix s assume "s \<in> set [demo_writer 1 1, demo_writer 1 1]"
  then show "plannable s" by (intro demo_plannable) (auto simp: demo_stmts_def)
qed (simp_all add: demo_writer_def demo_stmt_defs)

section \<open>The sequence\<close>

text \<open>\<open>plan_topo plan q\<close>: the list \<open>q\<close> has no repetitions and every statement comes after its parents.\<close>

definition plan_topo :: "fcc_exec_plan_t \<Rightarrow> nat list \<Rightarrow> bool" where
  "plan_topo plan q \<longleftrightarrow> distinct q \<and> set q \<subseteq> {..<ep_nnodes plan} \<and>
     (\<forall>k<length q. set (parents_at plan (q ! k)) \<subseteq> set (take k q))"

definition vmarks :: "fcc_exec_plan_t \<Rightarrow> bool list \<Rightarrow> nat list \<Rightarrow> bool" where
  "vmarks plan v q \<longleftrightarrow> length v = ep_nnodes plan \<and> vset v = set q"

definition wrote :: "nat list \<Rightarrow> nat list \<Rightarrow> seq_out \<Rightarrow> bool" where
  "wrote seq0 q out \<longleftrightarrow> out = (q @ drop (length q) seq0, length q)"

lemma plan_topo_snoc:
  assumes "plan_topo plan q" "i \<notin> set q" "i < ep_nnodes plan" "set (parents_at plan i) \<subseteq> set q"
  shows "plan_topo plan (q @ [i])"
  using assms by (auto simp: plan_topo_def nth_append less_Suc_eq)

lemma plan_topo_length: "plan_topo plan q \<Longrightarrow> length q \<le> ep_nnodes plan"
  unfolding plan_topo_def by (metis card_lessThan card_mono distinct_card finite_lessThan)

lemma parents_visited_spec:
  assumes "set ps \<subseteq> {..<length v}"
  shows "parents_visited v ps = Inr (set ps \<subseteq> vset v)"
  using assms by (induction ps) (auto simp: vset_def)

lemma can_visit_spec:
  assumes "plan_ok plan" "vmarks plan v q" "i < ep_nnodes plan"
  shows "can_visit plan i v = Inr (i \<notin> set q \<and> set (parents_at plan i) \<subseteq> set q)"
proof -
  have "i \<in> vset v \<longleftrightarrow> v ! i" using assms(2,3) by (simp add: vset_def vmarks_def)
  then have "v ! i \<longleftrightarrow> i \<in> set q" using assms(2) by (simp add: vmarks_def)
  moreover have "parents_visited v (parents_at plan i) = Inr (set (parents_at plan i) \<subseteq> set q)"
    using parents_visited_spec [of "parents_at plan i" v] plan_okD(2) [OF assms(1,3)] assms(2) by (simp add: vmarks_def)
  ultimately show ?thesis using assms plan_okD(1) [OF assms(1,3)] by (simp add: can_visit_def vmarks_def parents_at_def)
qed

lemma vmarks_snoc: "vmarks plan v q \<Longrightarrow> i < ep_nnodes plan \<Longrightarrow> vmarks plan (v[i := True]) (q @ [i])"
  by (auto simp: vmarks_def vset_simps)

lemma emit_spec:
  assumes "wrote seq0 q out" "length q < length seq0"
  shows "\<exists>out'. emit x out = Inr out' \<and> wrote seq0 (q @ [x]) out'"
proof -
  have "(q @ drop (length q) seq0)[length q := x] = (q @ [x]) @ drop (Suc (length q)) seq0"
    using assms(2) by (simp add: list_update_append Cons_nth_drop_Suc [symmetric])
  then show ?thesis using assms by (simp add: wrote_def emit_def)
qed

text \<open>All lists of nodes below are queues: \<open>q\<close> is what has been marked so far, in that order.\<close>

lemma frontier_children_spec:
  assumes ok: "plan_ok plan" and cs: "set cs \<subseteq> {..<ep_nnodes plan}"
    and q: "plan_topo plan (pre @ nf)" "vmarks plan v (pre @ nf)"
  shows "\<exists>nf' v'. frontier_children plan cs (nf, v) = Inr (nf', v') \<and> plan_topo plan (pre @ nf') \<and> vmarks plan v' (pre @ nf')"
  using cs q
proof (induction cs arbitrary: nf v)
  case (Cons c cs)
  have c: "c < ep_nnodes plan" using Cons.prems(1) by simp
  note r = can_visit_spec [OF ok Cons.prems(3) c]
  show ?case
  proof (cases "c \<notin> set (pre @ nf) \<and> set (parents_at plan c) \<subseteq> set (pre @ nf)")
    case True
    then have t: "plan_topo plan (pre @ nf @ [c])" using plan_topo_snoc [OF Cons.prems(2) _ c] by simp
    have len: "length nf < ep_nnodes plan" using plan_topo_length [OF t] by simp
    have m: "vmarks plan (v[c := True]) (pre @ nf @ [c])" using vmarks_snoc [OF Cons.prems(3) c] by simp
    show ?thesis using Cons.IH [OF _ t m] Cons.prems(1) r True len by simp
  next
    case False
    then have "can_visit plan c v = Inr False" using r by auto
    then show ?thesis using Cons.IH [OF _ Cons.prems(2,3)] Cons.prems(1) by simp
  qed
qed simp

lemma plan_frontier_spec:
  assumes ok: "plan_ok plan" and s: "ep_nnodes plan \<le> length seq0"
    and "plan_topo plan (ex @ cf @ nf)" "vmarks plan v (ex @ cf @ nf)" "wrote seq0 ex out"
  shows "\<exists>nf' v' out'. plan_frontier plan cf (nf, v, out) = Inr (nf', v', out') \<and>
    plan_topo plan (ex @ cf @ nf') \<and> vmarks plan v' (ex @ cf @ nf') \<and> wrote seq0 (ex @ cf) out'"
  using assms(3-5)
proof (induction cf arbitrary: ex nf v out)
  case (Cons x cf)
  have x: "x < ep_nnodes plan" using Cons.prems(1) by (simp add: plan_topo_def)
  have "length ex < length seq0" using plan_topo_length [OF Cons.prems(1)] s by simp
  from emit_spec [OF Cons.prems(3) this] obtain out1 where 1: "emit x out = Inr out1" "wrote seq0 (ex @ [x]) out1" by blast
  have t: "plan_topo plan (((ex @ [x]) @ cf) @ nf)" "vmarks plan v (((ex @ [x]) @ cf) @ nf)" using Cons.prems by simp_all
  from frontier_children_spec [OF ok plan_okD(3) [OF ok x] t] obtain nf1 v1 where
    2: "frontier_children plan (children_at plan x) (nf, v) = Inr (nf1, v1)"
      "plan_topo plan ((ex @ [x]) @ cf @ nf1)" "vmarks plan v1 ((ex @ [x]) @ cf @ nf1)" by auto
  from Cons.IH [OF 2(2,3) 1(2)] show ?case using 1(1) 2(1) plan_okD(1) [OF ok x] by (simp add: children_at_def)
qed simp

lemma plan_levels_spec:
  assumes ok: "plan_ok plan" and s: "ep_nnodes plan \<le> length seq0"
    and "plan_topo plan (ex @ cf)" "vmarks plan v (ex @ cf)" "wrote seq0 ex out" "ep_nnodes plan + 1 < fuel + length ex"
  shows "\<exists>new v' out'. plan_levels fuel plan cf (v, out) = Inr (v', out') \<and>
    plan_topo plan (ex @ cf @ new) \<and> vmarks plan v' (ex @ cf @ new) \<and> wrote seq0 (ex @ cf @ new) out'"
  using assms(3-6)
proof (induction fuel arbitrary: ex cf v out)
  case 0
  then show ?case using plan_topo_length [OF 0(1)] by simp
next
  case (Suc fuel)
  show ?case
  proof (cases "cf = []")
    case True
    then show ?thesis using Suc.prems by (intro exI [of _ "[]"] exI [of _ v] exI [of _ out]) simp
  next
    case False
    obtain nf v1 out1 where 1: "plan_frontier plan cf ([], v, out) = Inr (nf, v1, out1)"
      "plan_topo plan ((ex @ cf) @ nf)" "vmarks plan v1 ((ex @ cf) @ nf)" "wrote seq0 (ex @ cf) out1"
      using plan_frontier_spec [OF ok s, of ex cf "[]" v out] Suc.prems by auto
    have "ep_nnodes plan + 1 < fuel + length (ex @ cf)" using Suc.prems(4) False by (cases cf) auto
    from Suc.IH [OF 1(2-4) this] obtain new v2 out2 where 2: "plan_levels fuel plan nf (v1, out1) = Inr (v2, out2)"
      "plan_topo plan ((ex @ cf) @ nf @ new)" "vmarks plan v2 ((ex @ cf) @ nf @ new)" "wrote seq0 ((ex @ cf) @ nf @ new) out2" by blast
    then show ?thesis using 1(1) False by (intro exI [of _ "nf @ new"] exI [of _ v2] exI [of _ out2]) simp
  qed
qed

text \<open>\<open>plan_blocked plan q i\<close>: \<open>i\<close> is in the sequence, or a parent of it is not.\<close>

definition plan_blocked :: "fcc_exec_plan_t \<Rightarrow> nat list \<Rightarrow> nat \<Rightarrow> bool" where
  "plan_blocked plan q i \<longleftrightarrow> i \<in> set q \<or> \<not> set (parents_at plan i) \<subseteq> set q"

lemma plan_pass_spec:
  assumes ok: "plan_ok plan" and s: "ep_nnodes plan \<le> length seq0"
    and "plan_topo plan q" "vmarks plan v q" "wrote seq0 q out" "set is \<subseteq> {..<ep_nnodes plan}"
  shows "\<exists>new v' out' found'. plan_pass plan is (found, v, out) = Inr (found', v', out') \<and>
    plan_topo plan (q @ new) \<and> vmarks plan v' (q @ new) \<and> wrote seq0 (q @ new) out' \<and>
    (found' \<longleftrightarrow> found \<or> new \<noteq> []) \<and> (new = [] \<longrightarrow> (\<forall>i\<in>set is. plan_blocked plan q i))"
  using assms(3-6)
proof (induction "is" arbitrary: q v out found)
  case Nil
  then show ?case by (intro exI [of _ "[]"] exI [of _ v] exI [of _ out] exI [of _ found]) simp
next
  case (Cons i "is")
  have n: "i < ep_nnodes plan" using Cons.prems(4) by simp
  have rest: "set is \<subseteq> {..<ep_nnodes plan}" using Cons.prems(4) by simp
  note r = can_visit_spec [OF ok Cons.prems(2) n]
  show ?case
  proof (cases "plan_blocked plan q i")
    case True
    then have "can_visit plan i v = Inr False" using r by (auto simp: plan_blocked_def)
    then have skip: "plan_pass plan (i # is) (found, v, out) = plan_pass plan is (found, v, out)" by simp
    obtain new v1 out1 found1 where "plan_pass plan is (found, v, out) = Inr (found1, v1, out1)"
      "plan_topo plan (q @ new)" "vmarks plan v1 (q @ new)" "wrote seq0 (q @ new) out1" "found1 \<longleftrightarrow> found \<or> new \<noteq> []"
      "new = [] \<longrightarrow> (\<forall>i\<in>set is. plan_blocked plan q i)"
      using Cons.IH [OF Cons.prems(1-3) rest, of found] by blast
    then show ?thesis unfolding skip using True
      by (intro exI [of _ new] exI [of _ v1] exI [of _ out1] exI [of _ found1]) simp
  next
    case False
    then have t: "plan_topo plan (q @ [i])" using plan_topo_snoc [OF Cons.prems(1) _ n] by (simp add: plan_blocked_def)
    have m: "vmarks plan (v[i := True]) (q @ [i])" by (rule vmarks_snoc [OF Cons.prems(2) n])
    have "ep_nnodes plan + 1 < SEQ_FUEL plan + length q" by (simp add: SEQ_FUEL_def)
    from plan_levels_spec [OF ok s t m Cons.prems(3) this] obtain new v1 out1 where
      1: "plan_levels (SEQ_FUEL plan) plan [i] (v[i := True], out) = Inr (v1, out1)"
        "plan_topo plan (q @ i # new)" "vmarks plan v1 (q @ i # new)" "wrote seq0 (q @ i # new) out1" by auto
    from Cons.IH [OF 1(2-4), of True] Cons.prems(4) obtain new2 v2 out2 where
      2: "plan_pass plan is (True, v1, out1) = Inr (True, v2, out2)" "plan_topo plan ((q @ i # new) @ new2)"
        "vmarks plan v2 ((q @ i # new) @ new2)" "wrote seq0 ((q @ i # new) @ new2) out2" by auto
    then show ?thesis using r 1(1) False
      by (intro exI [of _ "i # new @ new2"] exI [of _ v2] exI [of _ out2] exI [of _ True]) (simp add: plan_blocked_def)
  qed
qed

lemma plan_while_spec:
  assumes ok: "plan_ok plan" and s: "ep_nnodes plan \<le> length seq0"
    and "plan_topo plan q" "vmarks plan v q" "wrote seq0 q out" "ep_nnodes plan < fuel + length q"
  shows "\<exists>q' out'. plan_while fuel plan (v, out) = Inr out' \<and> plan_topo plan q' \<and> wrote seq0 q' out' \<and>
    (\<forall>i<ep_nnodes plan. plan_blocked plan q' i)"
  using assms(3-6)
proof (induction fuel arbitrary: q v out)
  case 0
  then show ?case using plan_topo_length [OF 0(1)] by simp
next
  case (Suc fuel)
  have rng: "set [0..<ep_nnodes plan] \<subseteq> {..<ep_nnodes plan}" by auto
  obtain new v1 out1 found where 1: "plan_pass plan [0..<ep_nnodes plan] (False, v, out) = Inr (found, v1, out1)"
    "plan_topo plan (q @ new)" "vmarks plan v1 (q @ new)" "wrote seq0 (q @ new) out1" "found \<longleftrightarrow> new \<noteq> []"
    "new = [] \<longrightarrow> (\<forall>i\<in>set [0..<ep_nnodes plan]. plan_blocked plan q i)"
    using plan_pass_spec [OF ok s Suc.prems(1-3) rng, of False] by blast
  show ?case
  proof (cases "new = []")
    case True
    then show ?thesis using 1 by (intro exI [of _ q] exI [of _ out1]) simp
  next
    case False
    then have "ep_nnodes plan < fuel + length (q @ new)" using Suc.prems(4) by (cases new) auto
    from Suc.IH [OF 1(2-4) this] show ?thesis using 1(1,5) False by simp
  qed
qed

lemma all_in_sequence:
  assumes ok: "plan_ok plan" and ac: "acyclic (edges plan)" and b: "\<And>i. i < ep_nnodes plan \<Longrightarrow> plan_blocked plan q i"
  shows "i < ep_nnodes plan \<longrightarrow> i \<in> set q"
proof (induction i rule: wf_induct_rule [OF edges_wf [OF ok ac]])
  case (1 i)
  show ?case
  proof
    assume i: "i < ep_nnodes plan"
    have "p \<in> set q" if "p \<in> set (parents_at plan i)" for p
    proof -
      have "p < ep_nnodes plan" using plan_okD(2) [OF ok i] that by auto
      moreover from this have "(p, i) \<in> edges plan" using ok i that by (simp add: plan_ok_def edges_def)
      ultimately show ?thesis using 1 by blast
    qed
    then show "i \<in> set q" using b [OF i] by (auto simp: plan_blocked_def)
  qed
qed

text \<open>C4: When the plan of a list of statements is accepted and the buffer has room for them, the sequence that is
  written to it is a permutation of the statements in which each comes after all those it depends on; the rest of the
  buffer is unchanged.\<close>

theorem exec_sequence_respects_dependencies:
  assumes "\<And>s. s \<in> set stmts \<Longrightarrow> plannable s"
    and "fcc_exec_plan_init tname tmode stmts = Inr (plan, CE_NO_ERROR)" "length stmts \<le> length seq"
  shows "\<exists>q. fcc_exec_plan_get_valid_exec_sequence plan seq = Inr (q @ drop (length stmts) seq) \<and>
    distinct q \<and> set q = {..<length stmts} \<and>
    (\<forall>k<length q. \<forall>p. (p, q ! k) \<in> dependencies tname stmts \<longrightarrow> p \<in> set (take k q))"
proof -
  from plan_built [OF assms(1), of stmts tname tmode] obtain plan' where
    p: "fold_res (\<lambda>stmt plan. fcc_exec_plan_insert tname tmode plan stmt) stmts (new_exec_plan (length stmts)) = Inr plan'"
      "ep_stmts plan' = stmts" "plan_ok plan'" "edges plan' = dependencies tname stmts" by blast
  have e: "plan = plan'" and ac: "acyclic (edges plan)" using assms(2) p(1,3)
    by (auto simp: fcc_exec_plan_init_def is_acyclic_spec split: if_splits)
  note P = p(2-4) [folded e]
  have "plan_topo plan []" "vmarks plan (replicate (ep_nnodes plan) False) []" "wrote seq [] (seq, 0)"
    by (simp_all add: plan_topo_def vmarks_def vset_simps wrote_def)
  from plan_while_spec [OF P(2) _ this, of "SEQ_FUEL plan"] assms(3) P(1) obtain q out where
    q: "plan_while (SEQ_FUEL plan) plan (replicate (ep_nnodes plan) False, seq, 0) = Inr out"
      "plan_topo plan q" "wrote seq q out" "\<forall>i<ep_nnodes plan. plan_blocked plan q i"
    by (auto simp: SEQ_FUEL_def)
  have all: "set q = {..<length stmts}" using q(2) all_in_sequence [OF P(2) ac, of q] q(4) P(1) by (auto simp: plan_topo_def)
  have d: "distinct q" using q(2) by (simp add: plan_topo_def)
  have "length q = length stmts" using distinct_card [OF d] all by simp
  moreover have "x \<in> set (take k q)" if k: "k < length q" and x: "(x, q ! k) \<in> dependencies tname stmts" for k x
  proof -
    have xe: "(x, q ! k) \<in> edges plan" using x P(3) by simp
    then have "x < ep_nnodes plan" "q ! k \<in> set (children_at plan x)" by (auto simp: edges_def)
    moreover have "q ! k < ep_nnodes plan" using nth_mem [OF k] all P(1) by auto
    ultimately have "x \<in> set (parents_at plan (q ! k))" using P(2) by (simp add: plan_ok_def)
    then show ?thesis using q(2) k by (auto simp: plan_topo_def)
  qed
  ultimately show ?thesis using q(1,3) d all
    by (intro exI [of _ q]) (simp add: fcc_exec_plan_get_valid_exec_sequence_def wrote_def)
qed

lemma demo_accepted: "\<exists>plan. fcc_exec_plan_init demo_tname (\<lambda>_. E_READ) demo_stmts = Inr (plan, CE_NO_ERROR)"
proof -
  from plan_built [where stmts = demo_stmts and tname = demo_tname and tmode = "\<lambda>_. E_READ", OF demo_plannable] obtain plan where
    p: "fold_res (\<lambda>stmt plan. fcc_exec_plan_insert demo_tname (\<lambda>_. E_READ) plan stmt) demo_stmts (new_exec_plan (length demo_stmts)) = Inr plan"
      "plan_ok plan" "edges plan = dependencies demo_tname demo_stmts" by blast
  then show ?thesis using demo_acyclic by (simp add: fcc_exec_plan_init_def is_acyclic_spec)
qed

lemma demo_order:
  assumes q: "distinct q" "set q = {..<3}"
    "\<forall>k<length q. \<forall>p. (p, q ! k) \<in> dependencies demo_tname demo_stmts \<longrightarrow> p \<in> set (take k q)"
  shows "q = [1, 2, 0]"
proof -
  have len: "length q = 3" using distinct_card [OF q(1)] q(2) by simp
  then obtain x y z where xyz: "q = [x, y, z]" by (auto simp: numeral_eq_Suc length_Suc_conv)
  have m: "x \<in> {0, 1, 2}" "y \<in> {0, 1, 2}" "z \<in> {0, 1, 2}" "x \<noteq> y" "x \<noteq> z" "y \<noteq> z"
    using q(1,2) unfolding xyz by (auto simp: numeral_eq_Suc lessThan_Suc)
  have k: "(p, x) \<notin> {(1, 0), (2, 0), (1, 2)}" for p :: nat
  proof
    assume "(p, x) \<in> {(1, 0), (2, 0), (1, 2)}"
    then show False using q(3) [rule_format, of 0 p] unfolding xyz demo_dependencies by simp
  qed
  have k1: "p = x" if "(p, y) \<in> {(1, 0), (2, 0), (1, 2)}" for p :: nat
    using q(3) [rule_format, of 1 p] that unfolding xyz demo_dependencies by simp
  have "x \<noteq> 0" "x \<noteq> 2" using k [of 1] by auto
  then have "x = 1" using m(1) by blast
  moreover have "y \<noteq> 0"
  proof
    assume "y = 0"
    then show False using k1 [of 1] k1 [of 2] by simp
  qed
  ultimately show ?thesis using m xyz by auto
qed

theorem exec_sequence_respects_dependencies_witness:
  "\<exists>plan. fcc_exec_plan_init demo_tname (\<lambda>_. E_READ) demo_stmts = Inr (plan, CE_NO_ERROR) \<and>
    fcc_exec_plan_get_valid_exec_sequence plan [7, 7, 7, 7] = Inr [1, 2, 0, 7]"
proof -
  obtain plan where i: "fcc_exec_plan_init demo_tname (\<lambda>_. E_READ) demo_stmts = Inr (plan, CE_NO_ERROR)"
    using demo_accepted by blast
  have n: "length demo_stmts = 3" by (simp add: demo_stmts_def)
  from exec_sequence_respects_dependencies [OF demo_plannable i, of "[7, 7, 7, 7]"] obtain q where
    q: "fcc_exec_plan_get_valid_exec_sequence plan [7, 7, 7, 7] = Inr (q @ [7])" "distinct q" "set q = {..<3}"
      "\<forall>k<length q. \<forall>p. (p, q ! k) \<in> dependencies demo_tname demo_stmts \<longrightarrow> p \<in> set (take k q)"
    by (auto simp: n numeral_eq_Suc)
  have "q = [1, 2, 0]" by (rule demo_order [OF q(2-4)])
  then show ?thesis using i q(1) by auto
qed

end
