(* ===== verification/TaskGen.thy ===== *)
theory TaskGen
  imports ExecPlanSpec Task
begin

text \<open>
  src/src/compiler/backend/codegen.cpp, \<open>fcc_generate_task_graph\<close>: the calls to the runtime that the compiler
  prints for an execution plan, and what they do when the generated \<open>furious_init\<close> makes them. Each printed line is
  a call with constant arguments; \<open>func\<close> and \<open>info\<close> are the addresses that the names of the functions and of the
  descriptions of the tasks stand for. The compiler (ExecPlan) and the task graph of the runtime (Task) meet here.
\<close>

section \<open>The generated calls\<close>

datatype task_call = InsertTask nat bool | SetParent nat nat | SetRoot nat nat

definition fcc_generate_task_graph :: "fcc_exec_plan_t \<Rightarrow> task_call list" where
  "fcc_generate_task_graph plan =
     map (\<lambda>i. InsertTask i (sp_requires_sync (ep_subplans plan ! i))) [0..<ep_nnodes plan] @
     concat (map (\<lambda>i. map (SetParent i) (en_parents (ep_nodes plan ! i))) [0..<ep_nnodes plan]) @
     map (\<lambda>i. SetRoot i (ep_roots plan ! i)) [0..<length (ep_roots plan)]"

fun do_task_call :: "(nat \<Rightarrow> ptr) \<Rightarrow> (nat \<Rightarrow> ptr) \<Rightarrow> task_call \<Rightarrow> fdb_task_graph_t \<Rightarrow> fdb_task_graph_t res" where
  "do_task_call func info (InsertTask i requires_sync) g = fdb_task_graph_insert_task g (of_nat i) (func i) requires_sync (info i)"
| "do_task_call func info (SetParent i p) g = fdb_task_graph_set_parent g (of_nat i) (of_nat p)"
| "do_task_call func info (SetRoot i r) g = fdb_task_graph_set_root g (of_nat i) (of_nat r)"

definition furious_init_graph ::
  "('st \<Rightarrow> u32 \<Rightarrow> u32 \<Rightarrow> ptr \<times> 'st) \<Rightarrow> (nat \<Rightarrow> fdb_task_t) \<Rightarrow> (nat \<Rightarrow> u32) \<Rightarrow> (nat \<Rightarrow> ptr) \<Rightarrow> (nat \<Rightarrow> ptr) \<Rightarrow>
   fcc_exec_plan_t \<Rightarrow> 'st \<Rightarrow> (fdb_task_graph_t \<times> 'st) res" where
  "furious_init_graph posix_memalign tmem rmem func info plan st =
     (let (g, st) = fdb_task_graph_init posix_memalign tmem rmem (of_nat (ep_nnodes plan)) (of_nat (length (ep_roots plan))) st
      in bind_res (fold_res (do_task_call func info) (fcc_generate_task_graph plan) g) (\<lambda>g. Inr (g, st)))"

section \<open>Making the calls\<close>

lemma unat_small: "i < 2 ^ 32 \<Longrightarrow> unat (of_nat i :: u32) = i"
  by (simp add: unsigned_of_nat take_bit_nat_eq_self)

lemma insert_calls:
  assumes "\<forall>i\<in>set is. i < 2 ^ 32"
  shows "fold_res (do_task_call func info) (map (\<lambda>i. InsertTask i (sync i)) is) g =
    insert_tasks (\<lambda>u. func (unat u)) (\<lambda>u. sync (unat u)) (\<lambda>u. info (unat u)) (map of_nat is) g"
  using assms by (induction "is" arbitrary: g) (auto simp: unat_small intro!: bind_res_cong)

definition parent_pairs :: "fcc_exec_plan_t \<Rightarrow> (nat \<times> nat) list" where
  "parent_pairs plan = concat (map (\<lambda>i. map (Pair i) (parents_at plan i)) [0..<ep_nnodes plan])"

abbreviation to_u32 :: "nat \<times> nat \<Rightarrow> u32 \<times> u32" where "to_u32 e \<equiv> (of_nat (fst e), of_nat (snd e))"

lemma parent_calls:
  "fold_res (do_task_call func info) (map (\<lambda>e. SetParent (fst e) (snd e)) es) g = set_parents (map to_u32 es) g"
  by (induction es arbitrary: g) (auto intro!: bind_res_cong)

lemma parent_pairs_calls:
  "concat (map (\<lambda>i. map (SetParent i) (en_parents (ep_nodes plan ! i))) [0..<ep_nnodes plan]) =
   map (\<lambda>e. SetParent (fst e) (snd e)) (parent_pairs plan)"
  by (simp add: parent_pairs_def map_concat parents_at_def comp_def)

lemma insert_tasks_roots: "insert_tasks func sync info is g = Inr g' \<Longrightarrow> tg_roots g' = tg_roots g"
  by (induction "is" arbitrary: g) (auto simp: bind_res_Inr fdb_task_graph_insert_task_def wr_def split: if_splits)

lemma set_parents_roots: "set_parents es g = Inr g' \<Longrightarrow> tg_roots g' = tg_roots g"
proof (induction es arbitrary: g)
  case (Cons e es)
  obtain c p where e: "e = (c, p)" by fastforce
  obtain g1 where g1: "fdb_task_graph_set_parent g c p = Inr g1" "set_parents es g1 = Inr g'"
    using Cons.prems e by (auto simp: bind_res_Inr)
  have "tg_roots g1 = tg_roots g" using g1(1) by (auto simp: fdb_task_graph_set_parent_def bind_res_Inr Let_def)
  then show ?case using Cons.IH [OF g1(2)] by simp
qed simp

lemma root_calls:
  assumes "\<forall>k\<in>set ks. k < length (tg_roots g)" "length (tg_roots g) < 2 ^ 32"
  shows "\<exists>rs. fold_res (do_task_call func info) (map (\<lambda>k. SetRoot k (r k)) ks) g = Inr (g\<lparr>tg_roots := rs\<rparr>)"
  using assms
proof (induction ks arbitrary: g)
  case Nil
  then show ?case by (intro exI [of _ "tg_roots g"]) simp
next
  case (Cons k ks)
  let ?g = "g\<lparr>tg_roots := (tg_roots g)[k := of_nat (r k)]\<rparr>"
  have "unat (of_nat k :: u32) = k" by (rule unat_small) (use Cons.prems in auto)
  then have "fdb_task_graph_set_root g (of_nat k) (of_nat (r k)) = Inr ?g"
    using Cons.prems by (simp add: fdb_task_graph_set_root_def)
  then show ?case using Cons.IH [of ?g] Cons.prems by simp
qed

section \<open>The graph of an accepted plan\<close>

lemma parent_pairs_spec:
  assumes ok: "plan_ok plan" and d: "\<forall>i<ep_nnodes plan. distinct (parents_at plan i)"
  shows "distinct (parent_pairs plan)" "set (parent_pairs plan) = {(c, p). (p, c) \<in> edges plan}"
proof -
  show "set (parent_pairs plan) = {(c, p). (p, c) \<in> edges plan}"
  proof (intro equalityI subsetI)
    fix e assume "e \<in> set (parent_pairs plan)"
    then obtain c p where e: "e = (c, p)" "c < ep_nnodes plan" "p \<in> set (parents_at plan c)" by (auto simp: parent_pairs_def)
    then have "p < ep_nnodes plan" using plan_okD(2) [OF ok e(2)] by auto
    then show "e \<in> {(c, p). (p, c) \<in> edges plan}" using ok e by (auto simp: plan_ok_def edges_def)
  next
    fix e assume "e \<in> {(c, p). (p, c) \<in> edges plan}"
    then obtain c p where e: "e = (c, p)" "p < ep_nnodes plan" "c \<in> set (children_at plan p)" by (auto simp: edges_def)
    then have "c < ep_nnodes plan" using plan_okD(3) [OF ok e(2)] by auto
    then show "e \<in> set (parent_pairs plan)" using ok e by (auto simp: plan_ok_def parent_pairs_def)
  qed
  have "distinct (concat (map (\<lambda>i. map (Pair i) (parents_at plan i)) is))" if "distinct is" "set is \<subseteq> {..<ep_nnodes plan}" for "is"
    using that d by (induction "is") (auto simp: distinct_map inj_on_def)
  from this [of "[0..<ep_nnodes plan]"] show "distinct (parent_pairs plan)" by (simp add: parent_pairs_def atLeast0LessThan)
qed

lemma edges_range: "plan_ok plan \<Longrightarrow> (p, c) \<in> edges plan \<Longrightarrow> p < ep_nnodes plan \<and> c < ep_nnodes plan"
  using plan_okD(3) [of plan p] by (auto simp: edges_def)

lemma filter_card: "distinct xs \<Longrightarrow> length (filter P xs) = card {x \<in> set xs. P x}"
  by (metis distinct_card distinct_filter set_filter)

lemma num_of_pairs:
  assumes "distinct es" "\<forall>e\<in>set es. fst e < 2 ^ 32 \<and> snd e < 2 ^ 32"
  shows "num_of fst u (map to_u32 es) = card {e \<in> set es. fst e = unat u}"
    "num_of snd u (map to_u32 es) = card {e \<in> set es. snd e = unat u}"
proof -
  have eq: "(of_nat k = u) = (k = unat u)" if "k < 2 ^ 32" for k using unat_small [OF that] by (auto simp: word_unat_eq_iff)
  have "filter (\<lambda>e. of_nat (fst e) = u) es = filter (\<lambda>e. fst e = unat u) es"
    "filter (\<lambda>e. of_nat (snd e) = u) es = filter (\<lambda>e. snd e = unat u) es"
    using assms(2) eq by (auto intro!: filter_cong)
  then show "num_of fst u (map to_u32 es) = card {e \<in> set es. fst e = unat u}"
    "num_of snd u (map to_u32 es) = card {e \<in> set es. snd e = unat u}"
    by (simp_all add: num_of_def filter_map comp_def filter_card [OF assms(1)])
qed

lemma few_pairs:
  assumes ok: "plan_ok plan" and n: "ep_nnodes plan < 2 ^ 32" and d: "\<forall>i<ep_nnodes plan. distinct (parents_at plan i)"
    and few: "\<forall>i<ep_nnodes plan. card {p. (p, i) \<in> edges plan} \<le> 16 \<and> card {c. (i, c) \<in> edges plan} \<le> 16"
  shows "num_of fst u (map to_u32 (parent_pairs plan)) \<le> 16 \<and> num_of snd u (map to_u32 (parent_pairs plan)) \<le> 16"
proof -
  let ?i = "unat u"
  note P = parent_pairs_spec [OF ok d]
  have r: "\<forall>e\<in>set (parent_pairs plan). fst e < 2 ^ 32 \<and> snd e < 2 ^ 32"
  proof
    fix e assume "e \<in> set (parent_pairs plan)"
    then have "(snd e, fst e) \<in> edges plan" unfolding P(2) by auto
    then show "fst e < 2 ^ 32 \<and> snd e < 2 ^ 32" using edges_range [OF ok, of "snd e" "fst e"] n by linarith
  qed
  have img: "{e \<in> set (parent_pairs plan). fst e = ?i} = Pair ?i ` {p. (p, ?i) \<in> edges plan}"
    "{e \<in> set (parent_pairs plan). snd e = ?i} = (\<lambda>c. (c, ?i)) ` {c. (?i, c) \<in> edges plan}"
    using P(2) by auto
  have "{p. (p, ?i) \<in> edges plan} \<subseteq> {..<ep_nnodes plan}" "{c. (?i, c) \<in> edges plan} \<subseteq> {..<ep_nnodes plan}"
    using edges_range [OF ok] by auto
  then have fin: "finite {p. (p, ?i) \<in> edges plan}" "finite {c. (?i, c) \<in> edges plan}" by (auto intro: finite_subset)
  have le: "card {p. (p, ?i) \<in> edges plan} \<le> 16 \<and> card {c. (?i, c) \<in> edges plan} \<le> 16"
  proof (cases "?i < ep_nnodes plan")
    case False
    then have "{p. (p, ?i) \<in> edges plan} = {}" "{c. (?i, c) \<in> edges plan} = {}" using edges_range [OF ok] by blast+
    then show ?thesis by simp
  qed (use few in blast)
  show ?thesis unfolding num_of_pairs [OF P(1) r] img
    using card_image_le [OF fin(1), of "Pair ?i"] card_image_le [OF fin(2), of "\<lambda>c. (c, ?i)"] le by linarith
qed

text \<open>A run visits every task when the parents of the tasks form no cycle.\<close>

lemma all_visited:
  assumes "acyclic E" "E \<subseteq> {..<n :: nat} \<times> {..<n}" "\<And>i. i < n \<Longrightarrow> (\<And>p. (p, i) \<in> E \<Longrightarrow> p \<in> S) \<Longrightarrow> i \<in> S" "i < n"
  shows "i \<in> S"
proof -
  have "finite E" using assms(2) by (rule finite_subset) simp
  then have "wf E" using assms(1) by (rule finite_acyclic_wf)
  then show ?thesis using assms(4)
  proof (induction i rule: wf_induct_rule)
    case (less i)
    then show ?case using assms(2,3) by blast
  qed
qed

text \<open>C5: Compiler and runtime together. For an accepted plan in which no statement depends on more than 16 others, nor
  more than 16 on it, the generated calls build the task graph without going past an array, and a run of it calls the
  function of every statement exactly once, each after those of all the statements it depends on. The allocator of
  the runtime has to give the memory it is asked for, and the tasks have to fit into the 32 bits of its argument.\<close>

theorem compiled_plan_schedule:
  assumes "\<And>s. s \<in> set stmts \<Longrightarrow> plannable s" and "fcc_exec_plan_init tname tmode stmts = Inr (plan, CE_NO_ERROR)"
    and mem: "\<And>st sz. fst (posix_memalign st 64 sz) \<noteq> NULL" "168 * length stmts < 2 ^ 32"
    and few: "\<forall>i<length stmts. card {p. (p, i) \<in> dependencies tname stmts} \<le> 16 \<and> card {c. (i, c) \<in> dependencies tname stmts} \<le> 16"
  shows "\<exists>g st' order. furious_init_graph posix_memalign tmem rmem func info plan st = Inr (g, st') \<and>
    fdb_task_graph_run call g s = Inr (fold (\<lambda>i. call (func i)) order s) \<and>
    distinct order \<and> set order = {..<length stmts} \<and>
    (\<forall>k<length order. \<forall>p. (p, order ! k) \<in> dependencies tname stmts \<longrightarrow> p \<in> set (take k order))"
proof -
  from plan_built [OF assms(1), of stmts tname tmode] obtain plan' where
    p: "fold_res (\<lambda>stmt plan. fcc_exec_plan_insert tname tmode plan stmt) stmts (new_exec_plan (length stmts)) = Inr plan'"
      "ep_stmts plan' = stmts" "plan_ok plan'" "edges plan' = dependencies tname stmts" "length (ep_roots plan') \<le> length stmts"
      "\<forall>i<length stmts. distinct (children_at plan' i) \<and> distinct (parents_at plan' i)" by blast
  have e: "plan = plan'" and ac: "acyclic (edges plan)" using assms(2) p(1,3)
    by (auto simp: fcc_exec_plan_init_def is_acyclic_spec split: if_splits)
  note P = p(2-6) [folded e]
  let ?n = "length stmts" and ?es = "map to_u32 (parent_pairs plan)" and ?r = "length (ep_roots plan)"
  let ?func = "\<lambda>u :: u32. func (unat u)"
  have nn: "ep_nnodes plan = ?n" using P(1) by simp
  have n: "?n < 2 ^ 32" using mem(2) by linarith
  obtain g0 st' where g0: "fdb_task_graph_init posix_memalign tmem rmem (of_nat ?n) (of_nat ?r) st = (g0, st')" by fastforce
  have un: "unat (of_nat ?n :: u32) = ?n" "unat (of_nat ?r :: u32) = ?r" using n P(4) by (auto intro!: unat_small)
  have at: "tg_tasks_at g0 \<noteq> NULL" "tg_roots_at g0 \<noteq> NULL"
    using g0 mem(1) by (auto simp: fdb_task_graph_init_def fdb_numa_alloc_def FDB_MIN_ALIGNMENT_def split: prod.splits) (metis fst_conv)+
  have G0: "length (tg_tasks g0) = unat (tg_num_tasks g0)" "tg_num_tasks g0 = of_nat ?n" "length (tg_roots g0) = ?r"
    using task_graph_init_room [OF g0] at mem(2) un P(4) by auto
  have ids: "set (map of_nat [0..<?n]) = {i :: u32. unat i < unat (tg_num_tasks g0)}"
  proof (intro equalityI subsetI)
    fix u :: u32 assume "u \<in> set (map of_nat [0..<?n])"
    then show "u \<in> {i :: u32. unat i < unat (tg_num_tasks g0)}" using n G0(2) un(1) unat_small by (auto dest: less_trans)
  next
    fix u :: u32 assume "u \<in> {i :: u32. unat i < unat (tg_num_tasks g0)}"
    then have "unat u \<in> set [0..<?n]" using G0(2) un(1) by simp
    then show "u \<in> set (map of_nat [0..<?n])" unfolding set_map by (rule rev_image_eqI) simp
  qed
  let ?sync = "\<lambda>u :: u32. sp_requires_sync (ep_subplans plan ! unat u)" and ?info = "\<lambda>u :: u32. info (unat u)"
  obtain g1 where g1: "insert_tasks ?func ?sync ?info (map of_nat [0..<?n]) g0 = Inr g1" "built g1 ?n ?func []"
    using built_start [OF G0(1) ids, of ?func ?sync ?info] G0(2) un(1) by auto
  have few': "\<forall>i<ep_nnodes plan. card {p. (p, i) \<in> edges plan} \<le> 16 \<and> card {c. (i, c) \<in> edges plan} \<le> 16"
    using few unfolding P(3) nn .
  have d: "\<forall>i<ep_nnodes plan. distinct (parents_at plan i)" using P(5) nn by simp
  note pairs = parent_pairs_spec [OF P(2) d]
  have es: "\<forall>(c, p)\<in>set ?es. unat c < ?n \<and> unat p < ?n"
  proof (clarsimp)
    fix c p assume "(c, p) \<in> set (parent_pairs plan)"
    then have "p < ?n \<and> c < ?n" using edges_range [OF P(2), of p c] pairs(2) nn by auto
    then show "unat (of_nat c :: u32) < ?n \<and> unat (of_nat p :: u32) < ?n" using n by (simp add: unat_small)
  qed
  obtain g where g: "set_parents ?es g1 = Inr g" "built g ?n ?func ?es"
    using set_parents_spec [OF g1(2), of ?es] es few_pairs [OF P(2) _ d few'] n nn by auto
  have roots: "tg_roots g = tg_roots g0" using insert_tasks_roots [OF g1(1)] set_parents_roots [OF g(1)] by simp
  obtain rs where rs: "fold_res (do_task_call func info) (map (\<lambda>k. SetRoot k (ep_roots plan ! k)) [0..<?r]) g = Inr (g\<lparr>tg_roots := rs\<rparr>)"
    using root_calls [of "[0..<?r]" g func info "(!) (ep_roots plan)"] roots G0(3) P(4) n by auto
  let ?g = "g\<lparr>tg_roots := rs\<rparr>"
  have calls: "fold_res (do_task_call func info) (fcc_generate_task_graph plan) g0 = Inr ?g"
    unfolding fcc_generate_task_graph_def fold_res_append parent_pairs_calls unfolding nn
    using insert_calls [of "[0..<?n]" func info "\<lambda>i. sp_requires_sync (ep_subplans plan ! i)" g0] n g1(1) g(1) rs
    by (simp add: parent_calls)
  have b: "built ?g ?n ?func ?es" using g(2) by (simp add: built_def)
  obtain order where o: "fdb_task_graph_run call ?g s = Inr (fold (\<lambda>i. call (tk_func (tg_tasks ?g ! i))) order s)"
    "distinct order" "set order \<subseteq> {..<length (tg_tasks ?g)}"
    "\<forall>k<length order. set (parents_of ?g (order ! k)) \<subseteq> set (take k order)"
    "\<forall>i<length (tg_tasks ?g). i \<in> set order \<or> \<not> set (parents_of ?g i) \<subseteq> set order"
    using run_order [OF built_ok [OF b es], of call s] by blast
  have len: "length (tg_tasks ?g) = ?n" using b by (simp add: built_def)
  have par: "set (parents_of ?g i) = {q. (q, i) \<in> edges plan}" if i: "i < ?n" for i
  proof -
    have "unat (of_nat c :: u32) = c \<and> unat (of_nat q :: u32) = q" if "(q, c) \<in> edges plan" for q c
      using edges_range [OF P(2) that] nn n by (simp add: unat_small)
    then have "set (parents_of ?g i) = snd ` {e \<in> set (parent_pairs plan). fst e = i}"
      unfolding built_parents(1) [OF b i] pairs(2) by (force simp: pairs(2))
    then show ?thesis unfolding pairs(2) by force
  qed
  have sub: "edges plan \<subseteq> {..<?n} \<times> {..<?n}" using edges_range [OF P(2)] nn by auto
  have "i \<in> set order" if "i < ?n" for i
    by (rule all_visited [OF ac sub _ that]) (use o(5) len par in auto)
  then have all: "set order = {..<?n}" using o(3) len by auto
  have "tk_func (tg_tasks ?g ! i) = func i" if "i \<in> set order" for i
    using b that all n by (simp add: built_def Let_def unat_small)
  then have "fold (\<lambda>i. call (tk_func (tg_tasks ?g ! i))) order s = fold (\<lambda>i. call (func i)) order s"
    by (intro fold_cong) auto
  moreover have "q \<in> set (take k order)" if k: "k < length order" and q: "(q, order ! k) \<in> dependencies tname stmts" for k q
  proof -
    have "order ! k < ?n" using nth_mem [OF k] all by simp
    then show ?thesis using o(4) [rule_format, OF k] par q P(3) by auto
  qed
  moreover have "furious_init_graph posix_memalign tmem rmem func info plan st = Inr (?g, st')"
    using g0 calls nn by (simp add: furious_init_graph_def)
  ultimately show ?thesis using o(1,2) all by (intro exI [of _ ?g] exI [of _ st'] exI [of _ order]) simp
qed

theorem compiled_plan_schedule_witness:
  "\<exists>plan g. fcc_exec_plan_init demo_tname (\<lambda>_. E_READ) demo_stmts = Inr (plan, CE_NO_ERROR) \<and>
    furious_init_graph demo_memalign (\<lambda>_. zero_task) (\<lambda>_. 0) (\<lambda>i. of_nat i + 100) (\<lambda>_. 0) plan () = Inr (g, ()) \<and>
    fdb_task_graph_run (\<lambda>f log. log @ [f]) g [] = Inr [101, 102, 100]"
proof -
  obtain plan where i: "fcc_exec_plan_init demo_tname (\<lambda>_. E_READ) demo_stmts = Inr (plan, CE_NO_ERROR)"
    using demo_accepted by blast
  have n: "length demo_stmts = 3" by (simp add: demo_stmts_def)
  let ?D = "dependencies demo_tname demo_stmts"
  have sub: "{p. (p, i) \<in> ?D} \<subseteq> {0, 1, 2}" "{c. (i, c) \<in> ?D} \<subseteq> {0, 1, 2}" for i
    unfolding demo_dependencies by auto
  have few: "\<forall>i<length demo_stmts. card {p. (p, i) \<in> ?D} \<le> 16 \<and> card {c. (i, c) \<in> ?D} \<le> 16"
  proof -
    have "card {p. (p, i) \<in> ?D} \<le> 3" "card {c. (i, c) \<in> ?D} \<le> 3" for i
      using card_mono [OF _ sub(1) [of i]] card_mono [OF _ sub(2) [of i]] by simp_all
    then show ?thesis by (meson le_trans numeral_le_iff semiring_norm)
  qed
  have mem: "fst (demo_memalign st 64 sz) \<noteq> NULL" "168 * length demo_stmts < 2 ^ 32" for st sz
    using n by (simp_all add: demo_memalign_def)
  from compiled_plan_schedule [where posix_memalign = demo_memalign and stmts = demo_stmts and func = "\<lambda>i. of_nat i + 100"
      and info = "\<lambda>_. 0" and tmem = "\<lambda>_. zero_task" and rmem = "\<lambda>_. 0" and st = "()" and call = "\<lambda>f log. log @ [f]" and s = "[]",
      OF demo_plannable i mem few] obtain g order where
    g: "furious_init_graph demo_memalign (\<lambda>_. zero_task) (\<lambda>_. 0) (\<lambda>i. of_nat i + 100) (\<lambda>_. 0) plan () = Inr (g, ())"
      "fdb_task_graph_run (\<lambda>f log. log @ [f]) g [] = Inr (fold (\<lambda>i log. log @ [of_nat i + 100]) order [])"
      "distinct order" "set order = {..<3}" "\<forall>k<length order. \<forall>p. (p, order ! k) \<in> ?D \<longrightarrow> p \<in> set (take k order)"
    unfolding n by auto
  have "order = [1, 2, 0]" by (rule demo_order [OF g(3-5)])
  then have "fold (\<lambda>i log. log @ [of_nat i + 100]) order [] = [101, 102, 100 :: ptr]" by simp
  then show ?thesis using i g(1,2) by metis
qed

end
