(* ===== verification/StrBuilder.thy ===== *)
theory StrBuilder
  imports Prelude
begin

text \<open>
  src/src/common/str_builder.h and str_builder.c: the growing string in which the compiler puts names and plans
  together. The buffer is its C string (the characters before the zero); what \<open>vsnprintf\<close> makes of a format and its
  arguments is the parameter \<open>formatted\<close>. When the text does not fit, the buffer grows and the text is formatted
  once more with the arguments that the first call has used up, which is undefined unless the format takes none.
  Memory is taken to be always there.
\<close>

section \<open>Operations\<close>

text \<open>The buffer is \<open>None\<close> once it has been released: the pointer is kept, so any later use is of freed memory.\<close>

record fdb_str_builder_t =
  sb_capacity :: u32
  sb_buffer :: "string option"
  sb_pos :: u32

definition fdb_str_builder_init :: fdb_str_builder_t where
  "fdb_str_builder_init = \<lparr>sb_capacity = 2048, sb_buffer = Some [], sb_pos = 0\<rparr>"

definition fdb_str_builder_release :: "fdb_str_builder_t \<Rightarrow> fdb_str_builder_t res" where
  "fdb_str_builder_release sb = (case sb_buffer sb of None \<Rightarrow> Inl BadPointer
     | Some _ \<Rightarrow> Inr (sb\<lparr>sb_capacity := 0, sb_buffer := None\<rparr>))"

text \<open>The loop that makes room; every round but the first formats again.\<close>

fun sb_grow :: "nat \<Rightarrow> string \<Rightarrow> bool \<Rightarrow> bool \<Rightarrow> fdb_str_builder_t \<Rightarrow> fdb_str_builder_t res" where
  "sb_grow 0 formatted has_args again sb = Inl OutOfFuel"
| "sb_grow (Suc fuel) formatted has_args again sb =
     (if again \<and> has_args then Inl BadPointer
      else if sb_capacity sb - sb_pos sb - 1 < of_nat (length formatted)
      then sb_grow fuel formatted has_args True (sb\<lparr>sb_capacity := sb_capacity sb + 2048\<rparr>)
      else Inr sb)"

definition SB_FUEL :: nat where "SB_FUEL = 2 ^ 21 + 1"

definition fdb_str_builder_append :: "fdb_str_builder_t \<Rightarrow> string \<Rightarrow> bool \<Rightarrow> fdb_str_builder_t res" where
  "fdb_str_builder_append sb formatted has_args = (case sb_buffer sb of None \<Rightarrow> Inl BadPointer
     | Some buffer \<Rightarrow> bind_res (sb_grow SB_FUEL formatted has_args False sb) (\<lambda>sb.
         Inr (sb\<lparr>sb_buffer := Some (take (unat (sb_pos sb)) buffer @ formatted),
                 sb_pos := sb_pos sb + of_nat (length formatted)\<rparr>)))"

definition fdb_str_builder_clear :: "fdb_str_builder_t \<Rightarrow> fdb_str_builder_t" where
  "fdb_str_builder_clear sb = sb\<lparr>sb_pos := 0\<rparr>"

section \<open>What they do\<close>

text \<open>\<open>sb_holds sb s\<close>: the builder has put together \<open>s\<close>, and there is room for its end.\<close>

definition sb_holds :: "fdb_str_builder_t \<Rightarrow> string \<Rightarrow> bool" where
  "sb_holds sb s \<longleftrightarrow> sb_buffer sb = Some s \<and> unat (sb_pos sb) = length s \<and> length s < unat (sb_capacity sb)"

lemma sb_init_holds: "sb_holds fdb_str_builder_init []"
  by (simp add: sb_holds_def fdb_str_builder_init_def)

text \<open>A text that fits is appended, whatever its arguments are.\<close>

lemma sb_append_fits:
  assumes h: "sb_holds sb s" and l: "length s + length t < unat (sb_capacity sb)"
  shows "\<exists>sb'. fdb_str_builder_append sb t has_args = Inr sb' \<and> sb_holds sb' (s @ t) \<and> sb_capacity sb' = sb_capacity sb"
proof -
  have b: "sb_buffer sb = Some s" "unat (sb_pos sb) = length s" "length s < unat (sb_capacity sb)" using h by (auto simp: sb_holds_def)
  have cap: "length s + length t < 4294967296" using l unat_u32_bound [of "sb_capacity sb"] by linarith
  have t: "unat (of_nat (length t) :: u32) = length t"
  proof -
    have "length t < 4294967296" using cap by linarith
    then show ?thesis by (simp add: unsigned_of_nat take_bit_nat_eq_self)
  qed
  have "unat (sb_capacity sb - sb_pos sb) = unat (sb_capacity sb) - length s"
    using b by (subst unat_sub) (simp_all add: word_le_nat_alt)
  then have "unat (sb_capacity sb - sb_pos sb - 1) = unat (sb_capacity sb) - length s - 1"
    using b by (subst unat_sub) (simp_all add: word_le_nat_alt)
  then have fit: "\<not> sb_capacity sb - sb_pos sb - 1 < of_nat (length t)" using l t b(3) by (simp add: word_less_nat_alt)
  have "sb_grow SB_FUEL t has_args False sb = Inr sb"
    unfolding SB_FUEL_def Suc_eq_plus1 [symmetric] sb_grow.simps using fit by simp
  moreover have "unat (sb_pos sb + of_nat (length t)) = length s + length t"
    using cap t b(2) by (subst unat_add_lem [THEN iffD1]) simp_all
  ultimately show ?thesis using b l by (simp add: fdb_str_builder_append_def sb_holds_def)
qed

text \<open>A text with arguments that does not fit is formatted with arguments that are used up.\<close>

lemma sb_append_reuses_arguments:
  assumes "sb_buffer sb \<noteq> None" "sb_capacity sb - sb_pos sb - 1 < of_nat (length t)"
  shows "fdb_str_builder_append sb t True = Inl BadPointer"
proof -
  have "(2 :: nat) ^ 21 = Suc (2 ^ 21 - 1)" by simp
  then have "sb_grow SB_FUEL t True False sb = Inl BadPointer"
    unfolding SB_FUEL_def Suc_eq_plus1 [symmetric] sb_grow.simps
    using assms(2) by (metis sb_grow.simps(2))
  then show ?thesis using assms(1) by (auto simp: fdb_str_builder_append_def)
qed

end
