(* ===== verification/CodegenTools.thy ===== *)
theory CodegenTools
  imports OperatorSpec StrBuilder
begin

text \<open>
  src/src/compiler/backend/codegen_tools.h and codegen_tools.cpp: what the code generator collects from the plans
  before it prints code (the declarations and includes that the plans depend on; the tables, references and tags
  they use, each of which becomes a variable of the generated code) and the names of these variables.

  What the driver knows of a type or a declaration is the record \<open>fcc_driver\<close> of functions. Both collections walk
  over the tree of operators; the fuel bounds the depth of the recursion, and running out of it for every fuel is a
  recursion that never ends.
\<close>

section \<open>The driver\<close>

record fcc_depcy_t =
  dp_include_file :: string
  dp_decl :: fcc_decl_t

record fcc_driver =
  dr_type_name :: "fcc_type_t \<Rightarrow> string"
  dr_type_decl :: "fcc_type_t \<Rightarrow> fcc_decl_t"
  dr_type_dependencies :: "fcc_type_t \<Rightarrow> fcc_depcy_t list"
  dr_decl_dependencies :: "fcc_decl_t \<Rightarrow> fcc_depcy_t list"
  dr_decl_is_valid :: "fcc_decl_t \<Rightarrow> bool"
  dr_decl_is_variable_or_struct :: "fcc_decl_t \<Rightarrow> bool"
  dr_decl_is_function :: "fcc_decl_t \<Rightarrow> bool"
  dr_decl_is_member :: "fcc_decl_t \<Rightarrow> bool"
  dr_decl_is_same :: "fcc_decl_t \<Rightarrow> fcc_decl_t \<Rightarrow> bool"

definition FCC_MAX_INCLUDE_PATH_LENGTH :: nat where "FCC_MAX_INCLUDE_PATH_LENGTH = 2048"
definition FCC_MAX_TYPE_NAME :: nat where "FCC_MAX_TYPE_NAME = FDB_MAX_TABLE_NAME"

section \<open>Dependencies\<close>

record fcc_deps_extr_t =
  de_incs :: "string list"
  de_decls :: "fcc_decl_t list"

definition fcc_deps_extr_init :: fcc_deps_extr_t where
  "fcc_deps_extr_init = \<lparr>de_incs = [], de_decls = []\<rparr>"

definition deps_add :: "fcc_driver \<Rightarrow> fcc_depcy_t \<Rightarrow> fcc_deps_extr_t \<Rightarrow> fcc_deps_extr_t res" where
  "deps_add D dep de =
     (if dr_decl_is_valid D (dp_decl dep) then
        if dr_decl_is_variable_or_struct D (dp_decl dep) \<or> dr_decl_is_function D (dp_decl dep) \<and> \<not> dr_decl_is_member D (dp_decl dep)
        then if \<exists>d\<in>set (de_decls de). dr_decl_is_same D (dp_decl dep) d then Inr de
             else Inr (de\<lparr>de_decls := de_decls de @ [dp_decl dep]\<rparr>)
        else Inr de
      else if dp_include_file dep \<in> set (de_incs de) then Inr de
      else bind_res (copy_and_check_str (dp_include_file dep) FCC_MAX_INCLUDE_PATH_LENGTH) (\<lambda>buffer.
           Inr (de\<lparr>de_incs := de_incs de @ [buffer]\<rparr>)))"

definition deps_add_all :: "fcc_driver \<Rightarrow> fcc_depcy_t list \<Rightarrow> fcc_deps_extr_t \<Rightarrow> fcc_deps_extr_t res" where
  "deps_add_all D deps = fold_res (deps_add D) deps"

definition column_type :: "fcc_operator_t \<Rightarrow> fcc_type_t res" where
  "column_type op = bind_res (rd (op_columns op) 0) (\<lambda>c.
     case co_component_type c of None \<Rightarrow> Inl BadPointer | Some t \<Rightarrow> Inr t)"

definition deps_of_scan :: "fcc_driver \<Rightarrow> fcc_operator_t \<Rightarrow> fcc_deps_extr_t \<Rightarrow> fcc_deps_extr_t res" where
  "deps_of_scan D scan de = bind_res (rd (op_columns scan) 0) (\<lambda>c.
     if co_type c = E_COMPONENT
     then bind_res (column_type scan) (\<lambda>t. deps_add_all D (dr_type_dependencies D t) de) else Inr de)"

definition deps_of_fetch :: "fcc_driver \<Rightarrow> fcc_operator_t \<Rightarrow> fcc_deps_extr_t \<Rightarrow> fcc_deps_extr_t res" where
  "deps_of_fetch D fetch de = bind_res (rd (op_columns fetch) 0) (\<lambda>c.
     if co_type c = E_GLOBAL
     then bind_res (column_type fetch) (\<lambda>t. deps_add_all D (dr_type_dependencies D t) de) else Inr de)"

definition deps_of_foreach :: "fcc_driver \<Rightarrow> fcc_system_t option \<Rightarrow> fcc_deps_extr_t \<Rightarrow> fcc_deps_extr_t res" where
  "deps_of_foreach D system de = (case system of None \<Rightarrow> Inl NullDeref
     | Some sys \<Rightarrow> deps_add_all D (dr_type_dependencies D (sys_system_type sys)) de)"

text \<open>What an operator itself depends on; then its children are visited. The code for a component filter indexes
  the plan instead of its operators: \<open>&subplan[m_child]\<close> is the plan itself when the child is operator 0, so
  the visit starts again at its root, and lies outside it otherwise.\<close>

definition deps_of_operator :: "fcc_driver \<Rightarrow> fcc_operator_t \<Rightarrow> fcc_deps_extr_t \<Rightarrow> fcc_deps_extr_t res" where
  "deps_of_operator D op de = (case op_operation op of
       ScanOp \<Rightarrow> deps_of_scan D op de
     | FetchOp \<Rightarrow> deps_of_fetch D op de
     | ForeachOp child system \<Rightarrow> deps_of_foreach D system de
     | ComponentFilterOp child t on_column p \<Rightarrow> deps_add_all D (dr_type_dependencies D t) de
     | PredicateFilterOp child f \<Rightarrow> deps_add_all D (dr_decl_dependencies D f) de
     | _ \<Rightarrow> Inr de)"

datatype deps_target = Operator nat | Subplan nat

fun deps_next :: "fcc_operation \<Rightarrow> deps_target list" where
  "deps_next ScanOp = []"
| "deps_next FetchOp = []"
| "deps_next (JoinOp l r) = [Operator l, Operator r]"
| "deps_next (LeftFilterJoinOp l r) = [Operator l, Operator r]"
| "deps_next (CrossJoinOp l r) = [Operator l, Operator r]"
| "deps_next (TagFilterOp c t on_column p) = [Operator c]"
| "deps_next (PredicateFilterOp c f) = [Operator c]"
| "deps_next (ComponentFilterOp c t on_column p) = [Subplan c]"
| "deps_next (ForeachOp c system) = [Operator c]"
| "deps_next (GatherOp c r) = [Operator c]"
| "deps_next (CascadingGatherOp c r) = [Operator c]"

fun deps_visit :: "nat \<Rightarrow> fcc_driver \<Rightarrow> fcc_subplan_t \<Rightarrow> deps_target \<Rightarrow> fcc_deps_extr_t \<Rightarrow> fcc_deps_extr_t res" where
  "deps_visit 0 D subplan x de = Inl OutOfFuel"
| "deps_visit (Suc fuel) D subplan (Subplan k) de =
     (if k = 0 then deps_visit fuel D subplan (Operator (sp_root subplan)) de else Inl OutOfBounds)"
| "deps_visit (Suc fuel) D subplan (Operator i) de =
     bind_res (rd (sp_nodes subplan) i) (\<lambda>op.
     bind_res (deps_of_operator D op de) (fold_res (deps_visit fuel D subplan) (deps_next (op_operation op))))"

definition fcc_deps_extr_extract :: "nat \<Rightarrow> fcc_driver \<Rightarrow> fcc_subplan_t \<Rightarrow> fcc_deps_extr_t \<Rightarrow> fcc_deps_extr_t res" where
  "fcc_deps_extr_extract fuel D subplan de = deps_visit fuel D subplan (Operator (sp_root subplan)) de"

section \<open>Variables\<close>

record fcc_vars_extr_t =
  ve_comp_decls :: "fcc_decl_t list"
  ve_tags :: "string list"
  ve_refs :: "string list"
  ve_comps :: "string list"

definition fcc_vars_extr_init :: fcc_vars_extr_t where
  "fcc_vars_extr_init = \<lparr>ve_comp_decls = [], ve_tags = [], ve_refs = [], ve_comps = []\<rparr>"

definition vars_of_scan :: "fcc_driver \<Rightarrow> fcc_operator_t \<Rightarrow> fcc_vars_extr_t \<Rightarrow> fcc_vars_extr_t res" where
  "vars_of_scan D scan ve = bind_res (rd (op_columns scan) 0) (\<lambda>c.
     if co_type c = E_COMPONENT then
       bind_res (column_type scan) (\<lambda>t.
       if dr_type_name D t \<in> set (ve_comps ve) then Inr ve else
       bind_res (copy_and_check_str (dr_type_name D t) FCC_MAX_TYPE_NAME) (\<lambda>buffer.
       let ve = ve\<lparr>ve_comps := ve_comps ve @ [buffer]\<rparr>; decl = dr_type_decl D t in
       if \<exists>d\<in>set (ve_comp_decls ve). dr_decl_is_same D d decl then Inr ve
       else Inr (ve\<lparr>ve_comp_decls := ve_comp_decls ve @ [decl]\<rparr>)))
     else case co_ref_name c of None \<Rightarrow> Inl BadPointer | Some ref_name \<Rightarrow>
       if ref_name \<in> set (ve_refs ve) then Inr ve
       else bind_res (copy_and_check_str ref_name FCC_MAX_REF_NAME) (\<lambda>buffer. Inr (ve\<lparr>ve_refs := ve_refs ve @ [buffer]\<rparr>)))"

definition vars_of_fetch :: "fcc_driver \<Rightarrow> fcc_operator_t \<Rightarrow> fcc_vars_extr_t \<Rightarrow> fcc_vars_extr_t res" where
  "vars_of_fetch D fetch ve = bind_res (column_type fetch) (\<lambda>t. let decl = dr_type_decl D t in
     if \<exists>d\<in>set (ve_comp_decls ve). dr_decl_is_same D decl d then Inr ve
     else Inr (ve\<lparr>ve_comp_decls := ve_comp_decls ve @ [decl]\<rparr>))"

definition vars_of_tag_filter :: "string \<Rightarrow> fcc_vars_extr_t \<Rightarrow> fcc_vars_extr_t res" where
  "vars_of_tag_filter tag ve = bind_res (copy_and_check_str tag FCC_MAX_TAG_NAME) (\<lambda>buffer.
     Inr (ve\<lparr>ve_tags := ve_tags ve @ [buffer]\<rparr>))"

definition vars_of_component_filter :: "fcc_driver \<Rightarrow> fcc_type_t \<Rightarrow> fcc_vars_extr_t \<Rightarrow> fcc_vars_extr_t res" where
  "vars_of_component_filter D t ve =
     (if dr_type_name D t \<in> set (ve_comps ve) then Inr ve else
      bind_res (copy_and_check_str (dr_type_name D t) FCC_MAX_TYPE_NAME) (\<lambda>buffer.
      Inr (ve\<lparr>ve_comps := ve_comps ve @ [buffer], ve_comp_decls := ve_comp_decls ve @ [dr_type_decl D t]\<rparr>)))"

definition vars_of_operator :: "fcc_driver \<Rightarrow> fcc_operator_t \<Rightarrow> fcc_vars_extr_t \<Rightarrow> fcc_vars_extr_t res" where
  "vars_of_operator D op ve = (case op_operation op of
       ScanOp \<Rightarrow> vars_of_scan D op ve
     | FetchOp \<Rightarrow> vars_of_fetch D op ve
     | TagFilterOp child tag on_column p \<Rightarrow> vars_of_tag_filter tag ve
     | ComponentFilterOp child t on_column p \<Rightarrow> vars_of_component_filter D t ve
     | _ \<Rightarrow> Inr ve)"

text \<open>The children that are visited, given what was collected before the operator: those of a component filter
  only when its component is new.\<close>

fun vars_next :: "fcc_driver \<Rightarrow> fcc_vars_extr_t \<Rightarrow> fcc_operation \<Rightarrow> nat list" where
  "vars_next D ve ScanOp = []"
| "vars_next D ve FetchOp = []"
| "vars_next D ve (JoinOp l r) = [l, r]"
| "vars_next D ve (LeftFilterJoinOp l r) = [l, r]"
| "vars_next D ve (CrossJoinOp l r) = [l, r]"
| "vars_next D ve (TagFilterOp c t on_column p) = [c]"
| "vars_next D ve (PredicateFilterOp c f) = [c]"
| "vars_next D ve (ComponentFilterOp c t on_column p) = (if dr_type_name D t \<in> set (ve_comps ve) then [] else [c])"
| "vars_next D ve (ForeachOp c system) = [c]"
| "vars_next D ve (GatherOp c r) = [r, c]"
| "vars_next D ve (CascadingGatherOp c r) = [r, c]"

fun vars_visit :: "nat \<Rightarrow> fcc_driver \<Rightarrow> fcc_subplan_t \<Rightarrow> nat \<Rightarrow> fcc_vars_extr_t \<Rightarrow> fcc_vars_extr_t res" where
  "vars_visit 0 D subplan i ve = Inl OutOfFuel"
| "vars_visit (Suc fuel) D subplan i ve =
     bind_res (rd (sp_nodes subplan) i) (\<lambda>op.
     bind_res (vars_of_operator D op ve) (fold_res (vars_visit fuel D subplan) (vars_next D ve (op_operation op))))"

definition fcc_vars_extr_extract :: "nat \<Rightarrow> fcc_driver \<Rightarrow> fcc_subplan_t \<Rightarrow> fcc_vars_extr_t \<Rightarrow> fcc_vars_extr_t res" where
  "fcc_vars_extr_extract fuel D subplan ve = vars_visit fuel D subplan (sp_root subplan) ve"

section \<open>Names\<close>

definition c_tolower :: "char \<Rightarrow> char" where
  "c_tolower c = (if 65 \<le> (of_char c :: nat) \<and> (of_char c :: nat) \<le> 90 then char_of ((of_char c :: nat) + 32) else c)"

definition special_chars :: "char list" where
  "special_chars = [CHR '':'', CHR ''<'', CHR ''>'', CHR '','', CHR ''.'', CHR '' '']"

definition replace_special :: "string \<Rightarrow> string" where
  "replace_special str = fold (\<lambda>s. map (\<lambda>c. if c = s then CHR ''_'' else c)) special_chars str"

definition sanitize_name :: "string \<Rightarrow> string" where
  "sanitize_name str = replace_special (map c_tolower str)"

text \<open>What \<open>printf\<close> makes of \<open>%u\<close> and \<open>%d\<close>.\<close>

fun print_u :: "nat \<Rightarrow> string" where
  "print_u n = (if n < 10 then [char_of (48 + n)] else print_u (n div 10) @ [char_of (48 + n mod 10)])"

declare print_u.simps [simp del]

definition print_d :: "int \<Rightarrow> string" where
  "print_d i = (if i < 0 then ''-'' @ print_u (nat (- i)) else print_u (nat i))"

text \<open>A name is put together with a string builder: a formatted text, then \<open>_\<close> and the id of the operator, if any;
  the result is its length and what is copied to the buffer.\<close>

definition build_name :: "string \<Rightarrow> nat option \<Rightarrow> nat \<Rightarrow> (nat \<times> string) res" where
  "build_name formatted op buffer_length =
     bind_res (fdb_str_builder_append fdb_str_builder_init formatted True) (\<lambda>sb.
     bind_res (case op of None \<Rightarrow> Inr sb | Some i \<Rightarrow> fdb_str_builder_append sb (''_'' @ print_u i) True) (\<lambda>sb.
     case sb_buffer sb of None \<Rightarrow> Inl BadPointer | Some name \<Rightarrow>
       bind_res (copy_and_check_str name buffer_length) (\<lambda>buffer. Inr (unat (sb_pos sb), buffer))))"

definition generate_table_name :: "string \<Rightarrow> nat \<Rightarrow> nat option \<Rightarrow> (nat \<times> string) res" where
  "generate_table_name type_name buffer_length op =
     bind_res (copy_and_check_str type_name FCC_MAX_TYPE_NAME) (\<lambda>tmp.
     build_name (''table_'' @ sanitize_name tmp) op buffer_length)"

definition FCC_MAX_TABLE_VARNAME :: nat where "FCC_MAX_TABLE_VARNAME = FCC_MAX_TYPE_NAME + 32"

definition generate_temp_table_name :: "string \<Rightarrow> nat \<Rightarrow> nat option \<Rightarrow> (nat \<times> string) res" where
  "generate_temp_table_name type_name buffer_length op =
     bind_res (generate_table_name type_name FCC_MAX_TABLE_VARNAME op) (\<lambda>(_, tmp). build_name (''temp_'' @ tmp) None buffer_length)"

definition generate_ref_table_name :: "string \<Rightarrow> nat \<Rightarrow> nat option \<Rightarrow> (nat \<times> string) res" where
  "generate_ref_table_name ref_name buffer_length op =
     bind_res (generate_table_name ref_name FCC_MAX_TABLE_VARNAME op) (\<lambda>(_, tmp). build_name (''ref_'' @ tmp) None buffer_length)"

definition generate_bittable_name :: "string \<Rightarrow> nat \<Rightarrow> nat option \<Rightarrow> (nat \<times> string) res" where
  "generate_bittable_name tag_name buffer_length op = build_name (''tagged_'' @ tag_name) op buffer_length"

definition generate_table_iter_name :: "string \<Rightarrow> nat \<Rightarrow> nat option \<Rightarrow> (nat \<times> string) res" where
  "generate_table_iter_name table_name buffer_length op = build_name (''iter_'' @ table_name) op buffer_length"

definition generate_block_name :: "string \<Rightarrow> nat \<Rightarrow> nat option \<Rightarrow> (nat \<times> string) res" where
  "generate_block_name type_name buffer_length op =
     bind_res (copy_and_check_str type_name FCC_MAX_TYPE_NAME) (\<lambda>tmp.
     build_name (''block_'' @ sanitize_name tmp) op buffer_length)"

definition generate_cluster_name :: "nat \<Rightarrow> nat \<Rightarrow> (nat \<times> string) res" where
  "generate_cluster_name op buffer_length = build_name (''cluster_'' @ print_u op) None buffer_length"

definition generate_ref_groups_name :: "string \<Rightarrow> nat \<Rightarrow> nat \<Rightarrow> (nat \<times> string) res" where
  "generate_ref_groups_name ref_name buffer_length op =
     bind_res (copy_and_check_str ref_name FCC_MAX_REF_NAME) (\<lambda>tmp.
     build_name (''ref_'' @ sanitize_name tmp @ ''_groups_'' @ print_u op) None buffer_length)"

definition generate_hashtable_name :: "nat \<Rightarrow> nat \<Rightarrow> (nat \<times> string) res" where
  "generate_hashtable_name op buffer_length = build_name (''hashtable_'' @ print_u op) None buffer_length"

text \<open>The id of the system is unsigned and printed with \<open>%d\<close>.\<close>

definition generate_system_wrapper_name :: "string \<Rightarrow> u32 \<Rightarrow> nat \<Rightarrow> nat option \<Rightarrow> (nat \<times> string) res" where
  "generate_system_wrapper_name system_name system_id buffer_length op =
     bind_res (copy_and_check_str system_name FCC_MAX_TYPE_NAME) (\<lambda>base_name.
     build_name (map c_tolower base_name @ ''_'' @ print_d (sint system_id)) op buffer_length)"

text \<open>Two copies without a check come first; \<open>strncpy\<close> fills as many bytes as it is told, which must not be more than
  the array has.\<close>

definition generate_global_name :: "string \<Rightarrow> nat \<Rightarrow> nat option \<Rightarrow> (nat \<times> string) res" where
  "generate_global_name type_name buffer_length op =
     (if FCC_MAX_TYPE_NAME < buffer_length then Inl OutOfBounds else
      bind_res (copy_and_check_str type_name FCC_MAX_TYPE_NAME) (\<lambda>tmp.
      build_name (''global_'' @ sanitize_name tmp) op buffer_length))"

end
