(* ===== verification/CodegenToolsSpec.thy ===== *)
theory CodegenToolsSpec
  imports CodegenTools
begin

text \<open>
  What the walks over a plan collect. The tree of a plan is the relation \<open>plan_edges\<close> from an operator to its
  children; every operator lies below the root, so a walk that visits all the children of each operator collects
  from all of them. The two walks do so unless the plan has a component filter: the walk for the dependencies
  never comes back from one, and the walk for the variables passes over what lies below one whose component it
  knows already.
\<close>

section \<open>Every operator lies below the root\<close>

definition plan_edges :: "fcc_operator_t list \<Rightarrow> (nat \<times> nat) set" where
  "plan_edges ns = {(i, c). i < length ns \<and> c \<in> set (kids_at ns i)}"

definition below :: "fcc_operator_t list \<Rightarrow> nat \<Rightarrow> nat set" where
  "below ns i = {j. (i, j) \<in> rtrancl (plan_edges ns)}"

lemma below_unfold: "i < length ns \<Longrightarrow> below ns i = insert i (\<Union>c\<in>set (kids_at ns i). below ns c)"
  unfolding below_def by (auto simp: plan_edges_def elim: converse_rtranclE intro: converse_rtrancl_into_rtrancl)

lemma tree_below_root:
  assumes "tree_part ns {r}"
  shows "below ns r = {..<length ns}"
proof -
  have r: "r < length ns" and ok: "\<And>i. i < length ns \<Longrightarrow> node_ok ns {r} i" using assms by (auto simp: tree_part_def)
  have "j \<in> below ns r" if "j < length ns" for j
    using that
  proof (induction "length ns - j" arbitrary: j rule: less_induct)
    case less
    show ?case
    proof (cases "j = r")
      case True
      then show ?thesis by (simp add: below_def)
    next
      case False
      let ?p = "op_parent (ns ! j)"
      have p: "?p < length ns" "j \<in> set (kids_at ns ?p)" using ok [OF less.prems] False unfolding node_ok_def by simp_all
      have "j < ?p" using ok [OF p(1)] p(2) unfolding node_ok_def by blast
      then have "length ns - ?p < length ns - j" using less.prems p(1) by linarith
      then have "?p \<in> below ns r" using less.hyps p(1) by blast
      then show ?thesis using p by (auto simp: below_def plan_edges_def intro: rtrancl_into_rtrancl)
    qed
  qed
  moreover have "j < length ns" if "(r, j) \<in> rtrancl (plan_edges ns)" for j
    using that
  proof induction
    case (step y z)
    then have "z < y" "y < length ns" using ok [of y] unfolding plan_edges_def node_ok_def by blast+
    then show ?case by simp
  qed (rule r)
  ultimately show ?thesis by (auto simp: below_def)
qed

section \<open>The variables of a plan\<close>

definition is_component_filter :: "fcc_operator_t \<Rightarrow> bool" where
  "is_component_filter op \<longleftrightarrow> (case op_operation op of ComponentFilterOp c t on_column p \<Rightarrow> True | _ \<Rightarrow> False)"

text \<open>The tables, references and tags that the code of an operator uses.\<close>

definition uses_comps :: "fcc_driver \<Rightarrow> fcc_operator_t \<Rightarrow> string set" where
  "uses_comps D op = (if op_operation op = ScanOp \<and> co_type (op_columns op ! 0) = E_COMPONENT
     then {dr_type_name D (the (co_component_type (op_columns op ! 0)))} else {})"

definition uses_refs :: "fcc_operator_t \<Rightarrow> string set" where
  "uses_refs op = (if op_operation op = ScanOp \<and> co_type (op_columns op ! 0) \<noteq> E_COMPONENT
     then {the (co_ref_name (op_columns op ! 0))} else {})"

definition uses_tags :: "fcc_operator_t \<Rightarrow> string set" where
  "uses_tags op = (case op_operation op of TagFilterOp c t on_column p \<Rightarrow> {t} | _ \<Rightarrow> {})"

text \<open>What is collected from a set of operators, without repeating a table or a reference.\<close>

definition collects :: "fcc_driver \<Rightarrow> fcc_operator_t set \<Rightarrow> fcc_vars_extr_t \<Rightarrow> fcc_vars_extr_t \<Rightarrow> bool" where
  "collects D ops ve ve' \<longleftrightarrow>
     set (ve_comps ve') = set (ve_comps ve) \<union> (\<Union>op\<in>ops. uses_comps D op) \<and>
     set (ve_refs ve') = set (ve_refs ve) \<union> (\<Union>op\<in>ops. uses_refs op) \<and>
     set (ve_tags ve') = set (ve_tags ve) \<union> (\<Union>op\<in>ops. uses_tags op) \<and>
     (distinct (ve_comps ve) \<longrightarrow> distinct (ve_comps ve')) \<and>
     (distinct (ve_refs ve) \<longrightarrow> distinct (ve_refs ve'))"

lemma collects_none: "collects D {} ve ve"
  by (simp add: collects_def)

lemma collects_trans: "collects D A ve ve' \<Longrightarrow> collects D B ve' ve'' \<Longrightarrow> collects D (A \<union> B) ve ve''"
  unfolding collects_def by (simp add: Un_ac)

lemma scan_collects:
  assumes "op_operation op = ScanOp" "columns_ok C (op_operation op) (op_columns op)" "\<And>t. length (dr_type_name D t) < FCC_MAX_TYPE_NAME"
  shows "\<exists>ve'. vars_of_scan D op ve = Inr ve' \<and> collects D {op} ve ve'"
  using assms
  by (cases "op_columns op"; cases "co_type (hd (op_columns op))")
     (auto simp: vars_of_scan_def column_type_def rd_def collects_def uses_comps_def uses_refs_def uses_tags_def copy_and_check_str_def
       Let_def split: option.splits)

lemma operator_collects:
  assumes c: "columns_ok C (op_operation op) (op_columns op)" and D: "\<And>t. length (dr_type_name D t) < FCC_MAX_TYPE_NAME"
    and n: "\<not> is_component_filter op"
  shows "\<exists>ve'. vars_of_operator D op ve = Inr ve' \<and> collects D {op} ve ve'"
proof (cases "op_operation op")
  case ScanOp
  then show ?thesis using scan_collects [OF ScanOp c D] by (simp add: vars_of_operator_def)
next
  case FetchOp
  then show ?thesis using c by (cases "op_columns op")
    (auto simp: vars_of_operator_def vars_of_fetch_def column_type_def rd_def collects_def uses_comps_def uses_refs_def uses_tags_def Let_def)
qed (use c n in \<open>auto simp: vars_of_operator_def vars_of_tag_filter_def copy_and_check_str_def collects_def uses_comps_def
       uses_refs_def uses_tags_def is_component_filter_def\<close>)

lemma vars_next_kids: "\<not> is_component_filter op \<Longrightarrow> set (vars_next D ve (op_operation op)) = set (op_children (op_operation op))"
  by (cases "op_operation op") (auto simp: is_component_filter_def)

lemma fold_collects:
  assumes "\<And>c ve. c \<in> set cs \<Longrightarrow> \<exists>ve'. f c ve = Inr ve' \<and> collects D (A c) ve ve'"
  shows "\<exists>ve'. fold_res f cs ve = Inr ve' \<and> collects D (\<Union>c\<in>set cs. A c) ve ve'"
  using assms
proof (induction cs arbitrary: ve)
  case Nil
  then show ?case by (simp add: collects_none)
next
  case (Cons c cs)
  obtain ve1 where 1: "f c ve = Inr ve1" "collects D (A c) ve ve1" using Cons.prems [of c ve] by auto
  obtain ve2 where 2: "fold_res f cs ve1 = Inr ve2" "collects D (\<Union>c\<in>set cs. A c) ve1 ve2" using Cons.IH [of ve1] Cons.prems by auto
  show ?case using 1(1) 2(1) collects_trans [OF 1(2) 2(2)] by auto
qed

lemma vars_visit_collects:
  assumes t: "tree_part (sp_nodes sp) R" and n: "\<forall>op\<in>set (sp_nodes sp). \<not> is_component_filter op"
    and D: "\<And>t. length (dr_type_name D t) < FCC_MAX_TYPE_NAME"
  shows "i < length (sp_nodes sp) \<Longrightarrow> i < fuel \<Longrightarrow>
    \<exists>ve'. vars_visit fuel D sp i ve = Inr ve' \<and> collects D ((!) (sp_nodes sp) ` below (sp_nodes sp) i) ve ve'"
proof (induction fuel arbitrary: i ve)
  case (Suc fuel)
  let ?ns = "sp_nodes sp" and ?op = "sp_nodes sp ! i"
  have ok: "node_ok ?ns R i" and nf: "\<not> is_component_filter ?op" using t n Suc.prems by (auto simp: tree_part_def)
  have kids: "c < fuel" "c < length ?ns" if "c \<in> set (op_children (op_operation ?op))" for c
  proof -
    have "c < i" using ok that unfolding node_ok_def by blast
    then show "c < fuel" "c < length ?ns" using Suc.prems by simp_all
  qed
  obtain ve1 where 1: "vars_of_operator D ?op ve = Inr ve1" "collects D {?op} ve ve1"
    using operator_collects [of "cols_at ?ns" ?op D ve] ok D nf by (auto simp: node_ok_def)
  have "\<exists>ve'. fold_res (vars_visit fuel D sp) (vars_next D ve (op_operation ?op)) ve1 = Inr ve' \<and>
      collects D (\<Union>c\<in>set (vars_next D ve (op_operation ?op)). (!) ?ns ` below ?ns c) ve1 ve'"
    by (rule fold_collects, rule Suc.IH) (use kids Suc.prems in \<open>auto simp: vars_next_kids [OF nf]\<close>)
  then obtain ve2 where 2: "fold_res (vars_visit fuel D sp) (vars_next D ve (op_operation ?op)) ve1 = Inr ve2"
      "collects D (\<Union>c\<in>set (vars_next D ve (op_operation ?op)). (!) ?ns ` below ?ns c) ve1 ve2" by blast
  have "(!) ?ns ` below ?ns i = {?op} \<union> (\<Union>c\<in>set (vars_next D ve (op_operation ?op)). (!) ?ns ` below ?ns c)"
    by (simp add: below_unfold [OF Suc.prems(1)] vars_next_kids [OF nf] image_UN)
  then show ?case using collects_trans [OF 1(2) 2(2)] 1(1) 2(1) Suc.prems(1) by (simp add: rd_def)
qed simp

text \<open>The walk passes over what lies below a component filter whose component it knows already.\<close>

lemma vars_visit_skips:
  assumes "i < length (sp_nodes sp)" "op_operation (sp_nodes sp ! i) = ComponentFilterOp c t on_column p"
    "dr_type_name D t \<in> set (ve_comps ve)"
  shows "vars_visit (Suc fuel) D sp i ve = Inr ve"
  using assms by (simp add: rd_def vars_of_operator_def vars_of_component_filter_def)

text \<open>The plan of a system on the component \<open>Position\<close>, of the entities that \<open>em\<close> describes.\<close>

definition demo_tagged :: "fcc_entity_match_t \<Rightarrow> fcc_stmt_t" where
  "demo_tagged em = demo_stmt [em\<lparr>em_cmatches := [demo_cmatch 1]\<rparr>]"

definition demo_driver :: fcc_driver where
  "demo_driver = \<lparr>dr_type_name = (\<lambda>t. if t = 1 then ''Position'' else ''Velocity''), dr_type_decl = (\<lambda>t. t),
     dr_type_dependencies = (\<lambda>_. []), dr_decl_dependencies = (\<lambda>_. []), dr_decl_is_valid = (\<lambda>_. True),
     dr_decl_is_variable_or_struct = (\<lambda>_. True), dr_decl_is_function = (\<lambda>_. False), dr_decl_is_member = (\<lambda>_. False),
     dr_decl_is_same = (=)\<rparr>"

definition demo_subplan :: "fcc_entity_match_t \<Rightarrow> fcc_subplan_t" where
  "demo_subplan em = (case subplan_init (dr_type_name demo_driver) (\<lambda>_. E_READ) (demo_tagged em) of Inr sp \<Rightarrow> sp | Inl _ \<Rightarrow> empty_subplan)"

lemmas demo_plan_simps = demo_subplan_def demo_tagged_def demo_driver_def demo_stmt_defs subplan_init_def add_entity_match_def
  create_source_def create_scan_def apply_filters_def filters_on_def create_component_filter_def create_tag_filter_def
  create_foreach_def apply_predicate_filters_def create_simps rd_def wr_def empty_subplan_def copy_and_check_str_def access_mode_of_def
  FCC_INVALID_ID_def FCC_MAX_SUBPLAN_NODES_def FCC_MAX_OPERATOR_NUM_COLUMNS_def FCC_MAX_OPERATOR_NAME_def FCC_MAX_TAG_NAME_def

lemma three_nodes:
  assumes "map op_operation ns = [a, b, c]"
  shows "length ns = 3" "op_operation (ns ! 0) = a" "op_operation (ns ! 1) = b" "op_operation (ns ! 2) = c"
    "ns = [ns ! 0, ns ! 1, ns ! 2]"
  using assms by (auto simp: map_eq_Cons_conv numeral_2_eq_2)

lemma demo_subplan_tree:
  assumes "stmt_fits (demo_tagged em)"
  shows "tree_part (sp_nodes (demo_subplan em)) {sp_root (demo_subplan em)}"
proof -
  obtain sp where "subplan_init (dr_type_name demo_driver) (\<lambda>_. E_READ) (demo_tagged em) = Inr sp"
      "tree_part (sp_nodes sp) {sp_root sp}"
    using subplan_init_run [OF assms, of "dr_type_name demo_driver" "\<lambda>_. E_READ"] extendsD(1) by fastforce
  then show ?thesis by (simp add: demo_subplan_def)
qed

lemma demo_tag_plan:
  "map op_operation (sp_nodes (demo_subplan (fcc_entity_match_init\<lparr>em_has_tags := [''alive'']\<rparr>))) =
    [ScanOp, TagFilterOp 0 ''alive'' False E_HAS, ForeachOp 1 (st_system (demo_tagged fcc_entity_match_init))]"
  "sp_root (demo_subplan (fcc_entity_match_init\<lparr>em_has_tags := [''alive'']\<rparr>)) = 2"
  by (simp_all add: demo_plan_simps)

lemma demo_filter_plan:
  "map op_operation (sp_nodes (demo_subplan (fcc_entity_match_init\<lparr>em_has_components := [2]\<rparr>))) =
    [ScanOp, ComponentFilterOp 0 2 False E_HAS, ForeachOp 1 (st_system (demo_tagged fcc_entity_match_init))]"
  "sp_root (demo_subplan (fcc_entity_match_init\<lparr>em_has_components := [2]\<rparr>)) = 2"
  by (simp_all add: demo_plan_simps)

text \<open>C10: From a well-formed plan without component filters, the walk of the code generator collects the name of
  every table and reference that the plan scans and every tag it filters by, and nothing else: these are the
  names that the generated code declares variables for. No table and no reference is collected twice. The walk
  comes back when its recursion may be as deep as the plan has operators.\<close>

theorem vars_extr_collects:
  assumes "tree_part (sp_nodes sp) {sp_root sp}" "\<forall>op\<in>set (sp_nodes sp). \<not> is_component_filter op"
    "\<forall>t. length (dr_type_name D t) < FCC_MAX_TYPE_NAME" "length (sp_nodes sp) \<le> fuel" "distinct (ve_comps ve)" "distinct (ve_refs ve)"
  shows "\<exists>ve'. fcc_vars_extr_extract fuel D sp ve = Inr ve' \<and>
    set (ve_comps ve') = set (ve_comps ve) \<union> (\<Union>op\<in>set (sp_nodes sp). uses_comps D op) \<and>
    set (ve_refs ve') = set (ve_refs ve) \<union> (\<Union>op\<in>set (sp_nodes sp). uses_refs op) \<and>
    set (ve_tags ve') = set (ve_tags ve) \<union> (\<Union>op\<in>set (sp_nodes sp). uses_tags op) \<and>
    distinct (ve_comps ve') \<and> distinct (ve_refs ve')"
proof -
  have r: "sp_root sp < length (sp_nodes sp)" using assms(1) by (simp add: tree_part_def)
  have "(!) (sp_nodes sp) ` below (sp_nodes sp) (sp_root sp) = set (sp_nodes sp)"
    by (auto simp: tree_below_root [OF assms(1)] set_conv_nth)
  then show ?thesis
    using vars_visit_collects [OF assms(1,2), of D "sp_root sp" fuel ve] assms(3-6) r
    by (auto simp: fcc_vars_extr_extract_def collects_def)
qed

theorem vars_extr_collects_witness:
  "\<exists>ve. fcc_vars_extr_extract 3 demo_driver (demo_subplan (fcc_entity_match_init\<lparr>em_has_tags := [''alive'']\<rparr>)) fcc_vars_extr_init = Inr ve \<and>
    set (ve_tags ve) = {''alive''} \<and> distinct (ve_comps ve)"
proof -
  let ?em = "fcc_entity_match_init\<lparr>em_has_tags := [''alive'']\<rparr>" let ?sp = "demo_subplan ?em"
  note ops = three_nodes [OF demo_tag_plan(1), unfolded One_nat_def]
  have "stmt_fits (demo_tagged ?em)" by code_simp
  then have t: "tree_part (sp_nodes ?sp) {sp_root ?sp}" by (rule demo_subplan_tree)
  have nodes: "sp_nodes ?sp = [sp_nodes ?sp ! 0, sp_nodes ?sp ! Suc 0, sp_nodes ?sp ! 2]"
    by (rule ops(5))
  have all: "P (sp_nodes ?sp ! 0) \<Longrightarrow> P (sp_nodes ?sp ! Suc 0) \<Longrightarrow> P (sp_nodes ?sp ! 2) \<Longrightarrow> \<forall>op\<in>set (sp_nodes ?sp). P op" for P
    by (subst nodes) simp
  have n: "\<forall>op\<in>set (sp_nodes ?sp). \<not> is_component_filter op" by (rule all) (simp_all add: ops(2-4) is_component_filter_def)
  have u: "(\<Union>op\<in>set (sp_nodes ?sp). uses_tags op) = {''alive''}" by (subst nodes) (simp add: ops(2-4) uses_tags_def)
  have d: "\<forall>t. length (dr_type_name demo_driver t) < FCC_MAX_TYPE_NAME"
    by (simp add: demo_driver_def FCC_MAX_TYPE_NAME_def FDB_MAX_TABLE_NAME_def)
  have i: "distinct (ve_comps fcc_vars_extr_init)" "distinct (ve_refs fcc_vars_extr_init)" "ve_tags fcc_vars_extr_init = []"
    by (simp_all add: fcc_vars_extr_init_def)
  have l: "length (sp_nodes ?sp) \<le> 3" using ops(1) by simp
  obtain ve where "fcc_vars_extr_extract 3 demo_driver ?sp fcc_vars_extr_init = Inr ve" "distinct (ve_comps ve)"
      "set (ve_tags ve) = set (ve_tags fcc_vars_extr_init) \<union> (\<Union>op\<in>set (sp_nodes ?sp). uses_tags op)"
    using vars_extr_collects [OF t n d l i(1,2)] by blast
  then show ?thesis using u i(3) by auto
qed

section \<open>The dependencies of a plan\<close>

definition deps_edges :: "fcc_operator_t list \<Rightarrow> (nat \<times> nat) set" where
  "deps_edges ns = {(i, c). i < length ns \<and> Operator c \<in> set (deps_next (op_operation (ns ! i)))}"

lemma fold_res_member:
  assumes "fold_res f xs s = Inr t" "x \<in> set xs"
  shows "\<exists>u v. f x u = Inr v"
  using assms by (induction xs arbitrary: s) (auto simp: bind_res_Inr)

text \<open>A visit of an operator above a component filter does not return: it would visit the root again, from which
  the filter is visited again.\<close>

lemma deps_visit_no_return:
  assumes k: "(sp_root sp, k) \<in> rtrancl (deps_edges (sp_nodes sp))" and f: "is_component_filter (sp_nodes sp ! k)"
  shows "(i, k) \<in> rtrancl (deps_edges (sp_nodes sp)) \<Longrightarrow> deps_visit fuel D sp (Operator i) de \<noteq> Inr de'"
proof (induction fuel arbitrary: i de de' rule: less_induct)
  case (less fuel)
  show ?case
  proof
    assume run: "deps_visit fuel D sp (Operator i) de = Inr de'"
    then obtain fuel' where fuel: "fuel = Suc fuel'" by (cases fuel) auto
    obtain de1 where i: "i < length (sp_nodes sp)"
        and fold: "fold_res (deps_visit fuel' D sp) (deps_next (op_operation (sp_nodes sp ! i))) de1 = Inr de'"
      using run by (auto simp: fuel bind_res_Inr rd_def split: if_splits)
    show False
    proof (cases "i = k")
      case True
      obtain c where "deps_next (op_operation (sp_nodes sp ! i)) = [Subplan c]"
        using f True by (cases "op_operation (sp_nodes sp ! i)") (auto simp: is_component_filter_def)
      then have "deps_visit fuel' D sp (Subplan c) de1 = Inr de'" using fold by (auto simp: bind_res_Inr)
      then obtain fuel'' where "fuel' = Suc fuel''" "deps_visit fuel'' D sp (Operator (sp_root sp)) de1 = Inr de'"
        by (cases fuel') (auto split: if_splits)
      then show False using less.IH [OF _ k, of fuel'' de1 de'] fuel by simp
    next
      case False
      then obtain j where "(i, j) \<in> deps_edges (sp_nodes sp)" "(j, k) \<in> rtrancl (deps_edges (sp_nodes sp))"
        using less.prems by (auto elim: converse_rtranclE)
      then show False using fold_res_member [OF fold, of "Operator j"] less.IH [of fuel' j] fuel by (auto simp: deps_edges_def)
    qed
  qed
qed

text \<open>C11: When the walk for the dependencies can reach a component filter from the root of a plan, it never comes
  back, whatever the depth of its recursion: \<open>&subplan[child]\<close> is meant to be the operator below the filter
  but indexes the plan, so for operator 0 the plan is walked again from its root, and for any other what follows
  the plan in memory is taken for one. The witness is the plan of a statement that the validation accepts: a
  system over a component of the entities that have another.\<close>

theorem deps_extr_never_returns:
  assumes "(sp_root sp, k) \<in> rtrancl (deps_edges (sp_nodes sp))" "is_component_filter (sp_nodes sp ! k)"
  shows "fcc_deps_extr_extract fuel D sp de \<noteq> Inr de'"
  unfolding fcc_deps_extr_extract_def by (rule deps_visit_no_return [OF assms]) (rule assms(1))

theorem deps_extr_never_returns_witness:
  "fcc_validate (demo_tagged (fcc_entity_match_init\<lparr>em_has_components := [2]\<rparr>)) = Inr () \<and>
   (\<forall>fuel. \<exists>e. fcc_deps_extr_extract fuel demo_driver (demo_subplan (fcc_entity_match_init\<lparr>em_has_components := [2]\<rparr>))
      fcc_deps_extr_init = Inl e)"
proof
  let ?sp = "demo_subplan (fcc_entity_match_init\<lparr>em_has_components := [2]\<rparr>)"
  show "fcc_validate (demo_tagged (fcc_entity_match_init\<lparr>em_has_components := [2]\<rparr>)) = Inr ()"
    by code_simp
  have ops: "op_operation (sp_nodes ?sp ! 2) = ForeachOp 1 (st_system (demo_tagged fcc_entity_match_init))"
      "op_operation (sp_nodes ?sp ! 1) = ComponentFilterOp 0 2 False E_HAS" "length (sp_nodes ?sp) = 3" "sp_root ?sp = 2"
    using three_nodes [OF demo_filter_plan(1)] demo_filter_plan(2) by simp_all
  have "(sp_root ?sp, 1) \<in> rtrancl (deps_edges (sp_nodes ?sp))" using ops by (intro r_into_rtrancl) (simp add: deps_edges_def)
  moreover have "is_component_filter (sp_nodes ?sp ! 1)" using ops by (simp add: is_component_filter_def)
  ultimately have no: "fcc_deps_extr_extract fuel demo_driver ?sp fcc_deps_extr_init \<noteq> Inr de" for fuel de
    by (rule deps_extr_never_returns)
  show "\<forall>fuel. \<exists>e. fcc_deps_extr_extract fuel demo_driver ?sp fcc_deps_extr_init = Inl e"
  proof
    fix fuel
    show "\<exists>e. fcc_deps_extr_extract fuel demo_driver ?sp fcc_deps_extr_init = Inl e"
      using no [of fuel] by (cases "fcc_deps_extr_extract fuel demo_driver ?sp fcc_deps_extr_init") blast+
  qed
qed

section \<open>The names of the variables\<close>

text \<open>Numbers print without leading zeros, so two of them never print alike.\<close>

lemma digit_code: "d < 10 \<Longrightarrow> of_char (char_of (48 + d :: nat)) = 48 + d"
  by (simp add: take_bit_nat_eq_self)

lemma char_of_digit_inj: "d < 10 \<Longrightarrow> e < 10 \<Longrightarrow> char_of (48 + d :: nat) = char_of (48 + e) \<longleftrightarrow> d = e"
  by (metis add_left_cancel digit_code)

lemma print_u_inj: "print_u m = print_u n \<Longrightarrow> m = n"
proof (induction m arbitrary: n rule: print_u.induct)
  case (1 m)
  show ?case
  proof (cases "m < 10")
    case True
    then have "n < 10" using 1(2) print_u.simps [of m] print_u.simps [of n] print_u.simps [of "n div 10"] by (auto split: if_splits)
    then show ?thesis using True 1(2) by (simp add: print_u.simps [of m] print_u.simps [of n] char_of_digit_inj)
  next
    case False
    then have "\<not> n < 10" using 1(2) print_u.simps [of m] print_u.simps [of n] print_u.simps [of "m div 10"] by (auto split: if_splits)
    then have "print_u (m div 10) = print_u (n div 10)" "m mod 10 = n mod 10"
      using False 1(2) by (simp_all add: print_u.simps [of m] print_u.simps [of n] char_of_digit_inj)
    then show ?thesis using 1(1) False by (metis div_mult_mod_eq)
  qed
qed

lemma print_u_digits: "c \<in> set (print_u n) \<Longrightarrow> c \<noteq> CHR ''_''"
proof (induction n rule: print_u.induct)
  case (1 n)
  have no: "char_of (48 + d :: nat) \<noteq> CHR ''_''" if "d < 10" for d
  proof
    assume "char_of (48 + d :: nat) = CHR ''_''"
    then have "of_char CHR ''_'' = 48 + d" using digit_code [OF that] by metis
    then show False using that by simp
  qed
  show ?case
  proof (cases "n < 10")
    case True
    then show ?thesis using 1(2) no [of n] by (simp add: print_u.simps [of n])
  next
    case False
    then show ?thesis using 1 no [of "n mod 10"] by (auto simp: print_u.simps [of n])
  qed
qed

lemma print_u_length: "n < 10 ^ Suc k \<Longrightarrow> length (print_u n) \<le> Suc k"
proof (induction k arbitrary: n)
  case (Suc k)
  have "n div 10 < 10 ^ Suc k" using Suc.prems by (auto simp: less_mult_imp_div_less)
  then have "length (print_u (n div 10)) \<le> Suc k" by (rule Suc.IH)
  then show ?case by (simp add: print_u.simps [of n])
qed (simp add: print_u.simps)

lemma append_last_part:
  assumes "c \<notin> set ys" "c \<notin> set ys'"
  shows "xs @ c # ys = xs' @ c # ys' \<longleftrightarrow> xs = xs' \<and> ys = ys'"
proof
  assume e: "xs @ c # ys = xs' @ c # ys'"
  have w: "takeWhile (\<lambda>x. x \<noteq> c) (zs @ c # us) = zs" if "c \<notin> set zs" for zs us
    using that by (induction zs) auto
  have "takeWhile (\<lambda>x. x \<noteq> c) (rev (xs @ c # ys)) = rev ys" "takeWhile (\<lambda>x. x \<noteq> c) (rev (xs' @ c # ys')) = rev ys'"
    using assms w [of "rev ys" "rev xs"] w [of "rev ys'" "rev xs'"] by simp_all
  then have "ys = ys'" using e by (metis rev_rev_ident)
  then show "xs = xs' \<and> ys = ys'" using e by simp
qed simp

lemma sanitize_length [simp]: "length (sanitize_name s) = length s"
proof -
  have "length (fold (\<lambda>x. map (\<lambda>c. if c = x then CHR ''_'' else c)) xs s) = length s" for xs and s :: string
    by (induction xs arbitrary: s) auto
  then show ?thesis by (simp add: sanitize_name_def replace_special_def)
qed

lemma build_name_ok:
  assumes "length s < 1024" "i < 2 ^ 32" "length s + 11 < L"
  shows "build_name s (Some i) L = Inr (length (s @ ''_'' @ print_u i), s @ ''_'' @ print_u i)"
proof -
  have u: "length (print_u i) \<le> 10" using print_u_length [of i 9] assms(2) by simp
  obtain sb where 1: "fdb_str_builder_append fdb_str_builder_init s True = Inr sb" "sb_holds sb ([] @ s)" "sb_capacity sb = 2048"
    using sb_append_fits [OF sb_init_holds, of s True] assms(1) by (auto simp: fdb_str_builder_init_def)
  obtain sb2 where 2: "fdb_str_builder_append sb (''_'' @ print_u i) True = Inr sb2" "sb_holds sb2 (([] @ s) @ ''_'' @ print_u i)"
    using sb_append_fits [OF 1(2), of "''_'' @ print_u i" True] assms(1) u 1(3) by auto
  show ?thesis using 1(1) 2 assms(3) u by (simp add: build_name_def sb_holds_def copy_and_check_str_def)
qed

text \<open>The variable of a table for an operator has the name \<open>table_\<close>, the sanitized name of the component, \<open>_\<close> and
  the id of the operator; it fits in its buffer. Two operators never share one, whatever their components are
  called; for one operator the names of two components clash exactly when they only differ in case and in the
  characters that a C identifier cannot have.\<close>

lemma generate_table_name_ok:
  assumes "length s < FCC_MAX_TYPE_NAME" "k < 2 ^ 32"
  shows "generate_table_name s FCC_MAX_TABLE_VARNAME (Some k) =
    Inr (length (''table_'' @ sanitize_name s @ ''_'' @ print_u k), ''table_'' @ sanitize_name s @ ''_'' @ print_u k)"
  using assms build_name_ok [of "''table_'' @ sanitize_name s" k FCC_MAX_TABLE_VARNAME]
  by (simp add: generate_table_name_def copy_and_check_str_def FCC_MAX_TABLE_VARNAME_def FCC_MAX_TYPE_NAME_def FDB_MAX_TABLE_NAME_def)

lemma generate_table_name_distinct:
  assumes "length t < FCC_MAX_TYPE_NAME" "length t' < FCC_MAX_TYPE_NAME" "i < 2 ^ 32" "j < 2 ^ 32"
  shows "generate_table_name t FCC_MAX_TABLE_VARNAME (Some i) = generate_table_name t' FCC_MAX_TABLE_VARNAME (Some j) \<longleftrightarrow>
    i = j \<and> sanitize_name t = sanitize_name t'"
proof -
  have "CHR ''_'' \<notin> set (print_u i)" "CHR ''_'' \<notin> set (print_u j)" using print_u_digits by blast+
  from append_last_part [OF this, of "sanitize_name t" "sanitize_name t'"] show ?thesis
    unfolding generate_table_name_ok [OF assms(1,3)] generate_table_name_ok [OF assms(2,4)]
    using print_u_inj [of i j] sanitize_length [of t] sanitize_length [of t'] by (auto simp del: sanitize_length)
qed

end
