(* ===== verification/Spec2Isabelle.thy ===== *)
theory Spec2Isabelle
  imports Memory Bitmap PageAlloc PoolAlloc BtreeMap BtreeRemove Task BlockCluster BitTable Hashtable RefTable
    Registry StackSpec DataUtils Reflection Database DatabaseSpec TxSystem TxGc Fcc ExecPlanSpec TaskGen CodegenToolsSpec
begin

text \<open>
  A verification development for furious, an entity-component-system database: the code under
  src/src/common (memory, bitmaps, B+ tree, hash table, hash of names, string builder), under
  src/src/runtime (tables, tags, references, block clusters, registries, the database, the tasks,
  transactions and versioned objects), and the parts of the compiler under src/src/compiler that decide
  what the generated code does: the validation of statements, their plans of operators, the order in
  which they run, the task graph and the variables of the generated code.

  \<^bold>\<open>The program.\<close> A program written for furious declares components and systems. The compiler
  (src/src/compiler) turns the systems into C code that calls the runtime: it looks tables up in the
  database, walks over their blocks with iterators that split the blocks between threads, joins the
  blocks of several tables in block clusters, filters them by tags and predicates, follows
  references between entities, and runs one task per system in the order the task graph gives. The
  runtime keeps everything in memory that comes from one stack of allocators: the operating system's
  allocator, a page allocator over it, and pool and stack allocators over pages.

  \<^bold>\<open>Conventions.\<close> Pointers are 64-bit words and \<open>NULL\<close> is 0 (theory Prelude). Integers keep the
  width they have in the source, so additions wrap. A function that can do something undefined
  returns a value of \<open>'a res\<close>: \<open>Inl\<close> of a \<open>ub\<close> (a null or bad pointer, an index out of bounds, a
  failed assertion, a division by zero, fuel used up) or \<open>Inr\<close> of the result. \<open>FDB_ASSERT\<close> is
  compiled out of release builds, so its condition is never tested in a definition; where a
  condition is needed it is a hypothesis of the property. \<open>assert\<close> and \<open>FDB_PERMA_ASSERT\<close>
  stay: they are \<open>Inl AssertFail\<close>. A structure that lives in memory is an entry of a map from
  addresses to records (\<open>bt_nodes\<close>, \<open>tb_heap\<close>, \<open>bb_heap\<close>, \<open>db_table_heap\<close> and so on); the bytes of
  components are one map from addresses to bytes. A function that uses an allocator takes and
  returns the allocator's state next to the component: a pair (component, state). A critical
  section of a mutex is one step.

  \<^bold>\<open>Parts and theories.\<close>
  \<^item> Prelude, Memory: machine types, undefined behaviour, arrays; memory.c, numa\_alloc.c. An
    allocator is a record of functions, as in the source. The contract between an allocator and its
    clients is the locale \<open>mem_provider\<close> (what is handed out is aligned, not NULL and apart from what
    is in use), extended by \<open>steady_provider\<close>, which keeps several clients of one parent apart.
    Theory Clients holds the lemmas for many clients of one parent.
  \<^item> PageAlloc, PoolAlloc, StackAlloc and StackSpec: page\_allocator.c, pool\_allocator.c,
    stack\_allocator.c. Each proves that what it hands out never overlaps. The page
    allocator and the pool interpret \<open>mem_provider\<close>: a pool is a client of the page allocator and a
    provider of its own clients.
  \<^item> Bitmap: bitmap.c. A bitmap refines a set of positions.
  \<^item> Btree, BtreeTree, BtreeInsert, BtreeMap, BtreeRemove: btree.c. The tree's memory is the locale
    \<open>node_memory\<close>; insertion, lookup, iteration and clearing refine a sorted list of entries. Removal
    is modelled as the code has it, with theorems about the inputs on which it fails.
  \<^item> Hashtable: hashtable.c, refining a finite map; Utils: the hash of names in utils.c.
  \<^item> Table, TableSpec, TableIter: table.c. A table refines three sets of ids (existing, enabled,
    and the places of the components); the iterators of the threads partition its blocks.
  \<^item> BlockCluster: block\_cluster.c, refining a list of columns and an intersection of sets.
  \<^item> BitTable: bittable.c, refining a set of ids.
  \<^item> RefTable: reftable.c, refining a partial function from tails to heads; DataUtils:
    data\_utils.c, what generated code calls to follow references.
  \<^item> Registry: ht\_registry.c; Reflection: reflection.c, the registry of what types look like.
  \<^item> Database, DatabaseSpec: database.c, which composes all of these. Its tags and tables refine maps from
    names to sets of ids; the locale \<open>filing\<close> is a tree, a pool and the structures filed in them.
  \<^item> Task: task.c, the graph of tasks; its run terminates and respects the order of the parents.
  \<^item> Tx: tx.c, the transaction manager: the list of running transactions under every interleaving of
    the critical sections of begin and commit (\<open>tx_reach\<close>), and the version a thread may collect up to.
    TxPool and TxPoolSpec: txpool\_allocator.c and the thread contexts, objects as chains of versions.
    TxSystem: manager, pool and context together give every transaction the snapshot it began with.
    TxGc: forced collections, and two runs in which the code is not what the specification says.
  \<^item> Fcc: fcc\_context.cpp, statements and \<open>fcc_validate\<close>. Operator and OperatorSpec: operator.cpp, the
    plan of a statement is a tree of operators (\<open>tree_part\<close>). ExecPlan and ExecPlanSpec: exec\_plan.cpp,
    the graph of the dependencies between statements, the search for cycles and the sequence of
    execution. What the driver says of a type is a parameter.
  \<^item> TaskGen: the calls in codegen.cpp that make a task graph of an execution plan, composed with Task.
    StrBuilder: str\_builder.c. CodegenTools and CodegenToolsSpec: codegen\_tools.cpp, the dependencies
    and variables collected from the plans, and the names of the variables.

  \<^bold>\<open>How the lemmas are grouped.\<close> Every data structure has a predicate that relates its record
  to an abstract value (\<open>btree_holds\<close>, \<open>table_view\<close>, \<open>bittable_view\<close>, \<open>cluster_abs\<close>), a predicate
  for its memory (\<open>table_mem\<close>, \<open>bittable_mem\<close>), one lemma per operation that says what the
  operation does to both, and a property that composes these lemmas over an arbitrary sequence of
  commands of a client: the outputs of the code are those of the abstract value. Room in the
  allocators is a hypothesis (\<open>page_room\<close>): the number of pages that the run needs at most.

  \<^bold>\<open>Fuel.\<close> Loops whose end depends on pointers take fuel, and running out of it is an error that the
  properties exclude. \<open>BT_FUEL\<close> is 64, more than the height of a tree with at most \<open>2^32\<close> keys of
  arity 6; an insertion needs at most \<open>BT_NODES\<close> nodes. \<open>TASK_FUEL\<close> is the number of tasks and two
  more, as every round visits a task. \<open>TB_FUEL\<close> is 257, one step for every position of a block;
  \<open>BB_FUEL\<close> is \<open>2^24 + 1\<close>, one step for every block id; \<open>HT_FUEL\<close> is the number of entries and two
  more. The depth-first search of the compiler takes the number of statements and one, as it never
  visits a statement twice; \<open>SEQ_FUEL\<close> is their number and two, as every round emits one. \<open>SB_FUEL\<close> is
  \<open>2^21 + 1\<close>, after which growing by 2048 has gone through all capacities. The walks over chains of
  versions, thread contexts and plans take fuel that the properties bound by their lengths.

  \<^bold>\<open>What modelling showed.\<close> Theorems named \<open>..._overrun\<close>, \<open>..._overflow\<close>, \<open>..._crashes\<close>, \<open>..._drifts\<close>,
  \<open>..._leaks\<close>, \<open>..._aborts\<close>, \<open>..._misroutes\<close>, \<open>..._use_after_free\<close> and \<open>..._never_returns\<close> state behaviour of
  the code that it does not mean to have, each with a concrete input on which it happens.

  \<^bold>\<open>Not modelled.\<close> The mutex and thread wrappers (mutex.c, thread.c) are calls into pthreads; log.c
  prints; context.c is a record of pointers; the embedded web server (webserver.c) is socket code around
  the database's operations; txbtree.c is not part of the build. Of the compiler, the clang driver
  (callbacks of clang), the printing of plans (exec\_plan\_printer.cpp) and of C code (producer.cpp,
  consumer.cpp, reflection.cpp and the rest of codegen.cpp) and giving its memory back are left out. The
  directories named deprecated are not built.
\<close>

end
